(* ===== verification/Prelude.thy ===== *)
theory Prelude
  imports Complex_Main
begin

section \<open>Prelude: numbers, collections and generic lemmas\<close>

text \<open>
  What every component shares. JavaScript numbers that the code tests with
  \<^verbatim>\<open>Number.isFinite\<close> are the datatype \<open>jsnum\<close>: a finite value (a real; floating
  point rounding is not modelled) or one of the three values the test refuses.
  Numbers the code only counts with are \<open>nat\<close> or \<open>int\<close>. The two collections
  gather the lemmas of several components: \<open>queue_simps\<close> and \<open>bound_intros\<close>.
\<close>

named_theorems queue_simps \<open>rewriting of queue operations\<close>
named_theorems bound_intros \<open>introduction rules for size bounds\<close>

datatype jsnum = Fin real | NaN | PInf | NInf

fun isFinite :: "jsnum \<Rightarrow> bool" where
  "isFinite (Fin _) = True"
| "isFinite _ = False"

fun fin_val :: "jsnum \<Rightarrow> real" where
  "fin_val (Fin r) = r"
| "fin_val _ = 0"

lemma isFinite_iff: "isFinite x \<longleftrightarrow> (\<exists>r. x = Fin r)"
  by (cases x) auto

lemma isFinite_fin_val [simp]: "isFinite x \<Longrightarrow> Fin (fin_val x) = x"
  by (cases x) auto

subsection \<open>Lists\<close>

text \<open>\<open>subarr i j xs\<close> is JavaScript's \<^verbatim>\<open>xs.slice(i, j)\<close> for indices that are not negative.\<close>

definition subarr :: "nat \<Rightarrow> nat \<Rightarrow> 'a list \<Rightarrow> 'a list" where
  "subarr i j xs = take (j - i) (drop i xs)"

lemma length_subarr [simp]: "length (subarr i j xs) = min (j - i) (length xs - i)"
  by (simp add: subarr_def)

lemma length_subarr_within: "i \<le> j \<Longrightarrow> j \<le> length xs \<Longrightarrow> length (subarr i j xs) = j - i"
  by simp

lemma set_subarr_subset: "set (subarr i j xs) \<subseteq> set xs"
  unfolding subarr_def by (meson order_trans set_drop_subset set_take_subset)

lemma subarr_append_left: "j \<le> length xs \<Longrightarrow> subarr i j (xs @ ys) = subarr i j xs"
  by (cases "i \<le> length xs") (auto simp: subarr_def)

lemma subarr_self [simp]: "subarr 0 (length xs) xs = xs"
  by (simp add: subarr_def)

text \<open>\<open>last_n n xs\<close> is \<^verbatim>\<open>xs.slice(-n)\<close> for a positive \<open>n\<close>.\<close>

definition last_n :: "nat \<Rightarrow> 'a list \<Rightarrow> 'a list" where
  "last_n n xs = drop (length xs - n) xs"

lemma length_last_n [simp]: "length (last_n n xs) = min n (length xs)"
  by (simp add: last_n_def)

lemma set_last_n_subset: "set (last_n n xs) \<subseteq> set xs"
  by (simp add: last_n_def set_drop_subset)

lemma distinct_map_drop: "distinct (map f xs) \<Longrightarrow> distinct (map f (drop n xs))"
  by (simp flip: drop_map)

lemma distinct_map_last_n: "distinct (map f xs) \<Longrightarrow> distinct (map f (last_n n xs))"
  by (simp add: last_n_def flip: drop_map)

lemma sorted_wrt_take: "sorted_wrt P xs \<Longrightarrow> sorted_wrt P (take n xs)"
  by (metis append_take_drop_id sorted_wrt_append)

lemma sorted_wrt_takeWhile: "sorted_wrt P xs \<Longrightarrow> sorted_wrt P (takeWhile Q xs)"
  by (metis sorted_wrt_append takeWhile_dropWhile_id)

lemma filter_sublist_sorted: "sorted_wrt P xs \<Longrightarrow> sorted_wrt P (filter Q xs)"
  by (rule sorted_wrt_filter)

text \<open>The first element of a list that satisfies a test (\<^verbatim>\<open>Array.find\<close>) is \<open>List.find\<close>.\<close>

lemma find_Some_set: "find P xs = Some x \<Longrightarrow> x \<in> set xs \<and> P x"
  by (auto simp: find_Some_iff)

lemma find_None_all: "find P xs = None \<Longrightarrow> x \<in> set xs \<Longrightarrow> \<not> P x"
  by (auto simp: find_None_iff)

lemma find_snoc: "find P (xs @ [x]) = (case find P xs of Some y \<Rightarrow> Some y | None \<Rightarrow> if P x then Some x else None)"
  by (induction xs) auto

subsection \<open>Association lists in insertion order (JavaScript's \<^verbatim>\<open>Map\<close>)\<close>

text \<open>
  A JavaScript \<^verbatim>\<open>Map\<close> iterates in insertion order: \<^verbatim>\<open>set\<close> on a present key keeps its
  place, on a new key appends, and \<^verbatim>\<open>delete\<close> removes the entry. The model is a list
  of pairs with distinct keys.
\<close>

fun amap_set :: "'k \<Rightarrow> 'v \<Rightarrow> ('k \<times> 'v) list \<Rightarrow> ('k \<times> 'v) list" where
  "amap_set k v [] = [(k, v)]"
| "amap_set k v ((k', v') # m) =
     (if k = k' then (k, v) # m else (k', v') # amap_set k v m)"

definition amap_delete :: "'k \<Rightarrow> ('k \<times> 'v) list \<Rightarrow> ('k \<times> 'v) list" where
  "amap_delete k m = filter (\<lambda>(k', _). k' \<noteq> k) m"

abbreviation amap_keys :: "('k \<times> 'v) list \<Rightarrow> 'k list" where
  "amap_keys m \<equiv> map fst m"

abbreviation amap_ok :: "('k \<times> 'v) list \<Rightarrow> bool" where
  "amap_ok m \<equiv> distinct (map fst m)"

lemma map_of_amap_set [simp]: "map_of (amap_set k v m) = (map_of m)(k \<mapsto> v)"
  by (induction m) (auto simp: fun_eq_iff)

lemma amap_keys_set: "amap_keys (amap_set k v m) =
    (if k \<in> set (amap_keys m) then amap_keys m else amap_keys m @ [k])"
  by (induction k v m rule: amap_set.induct) (auto simp del: set_map)

lemma amap_ok_set [simp]: "amap_ok m \<Longrightarrow> amap_ok (amap_set k v m)"
  by (simp add: amap_keys_set del: map_map)

lemma set_amap_set: "set (amap_set k v m) \<subseteq> insert (k, v) (set m)"
  by (induction k v m rule: amap_set.induct) auto

lemma set_amap_set_cases: "p \<in> set (amap_set k v m) \<Longrightarrow> p = (k, v) \<or> p \<in> set m"
  by (induction k v m rule: amap_set.induct) (auto split: if_splits)

lemma length_amap_set:
  "length (amap_set k v m) = (if k \<in> set (amap_keys m) then length m else Suc (length m))"
  by (induction k v m rule: amap_set.induct) (auto simp del: set_map)

lemma map_of_amap_delete [simp]: "map_of (amap_delete k m) = (map_of m)(k := None)"
  by (induction m) (auto simp: amap_delete_def fun_eq_iff)

lemma amap_keys_delete: "amap_keys (amap_delete k m) = filter (\<lambda>k'. k' \<noteq> k) (amap_keys m)"
  by (induction m) (auto simp: amap_delete_def)

lemma amap_ok_delete [simp]: "amap_ok m \<Longrightarrow> amap_ok (amap_delete k m)"
  by (simp add: amap_keys_delete del: map_map)

lemma amap_delete_notin: "k \<notin> set (amap_keys m) \<Longrightarrow> amap_delete k m = m"
  unfolding amap_delete_def by (induction m) auto

lemma set_amap_delete: "set (amap_delete k m) \<subseteq> set m"
  by (auto simp: amap_delete_def)

lemma length_amap_delete_le: "length (amap_delete k m) \<le> length m"
  by (simp add: amap_delete_def)

lemma amap_set_append_new:
  "k \<notin> set (amap_keys m) \<Longrightarrow> amap_set k v m = m @ [(k, v)]"
  by (induction m) auto

lemma length_amap_delete:
  "amap_ok m \<Longrightarrow> k \<in> set (amap_keys m) \<Longrightarrow> length (amap_delete k m) = length m - 1"
proof (induction m)
  case Nil
  then show ?case by simp
next
  case (Cons p m)
  show ?case
  proof (cases "fst p = k")
    case True
    with Cons.prems have "k \<notin> set (amap_keys m)" by auto
    with True show ?thesis by (auto simp: amap_delete_def amap_delete_notin [unfolded amap_delete_def])
  next
    case False
    with Cons have "length (amap_delete k m) = length m - 1" and "m \<noteq> []" by auto
    with False show ?thesis by (cases p) (auto simp: amap_delete_def)
  qed
qed

text \<open>\<^verbatim>\<open>m.get(k) ?? d\<close>.\<close>

definition entry_or :: "'v \<Rightarrow> 'k \<Rightarrow> ('k \<times> 'v) list \<Rightarrow> 'v" where
  "entry_or d k m = (case map_of m k of Some v \<Rightarrow> v | None \<Rightarrow> d)"

lemma entry_or_set: "entry_or d k (amap_set k' v m) = (if k = k' then v else entry_or d k m)"
  by (simp add: entry_or_def)

lemma entry_or_Nil [simp]: "entry_or d k [] = d"
  by (simp add: entry_or_def)

lemma entry_or_mem:
  assumes "amap_ok m" "(k, v) \<in> set m"
  shows "entry_or d k m = v"
  using assms by (simp add: entry_or_def map_of_is_SomeI)

lemma entry_or_not_default: "entry_or d k m \<noteq> d \<Longrightarrow> (k, entry_or d k m) \<in> set m"
  by (auto simp: entry_or_def dest: map_of_SomeD split: option.splits)

lemma amap_set_all:
  assumes "\<forall>(k, v) \<in> set m. P k v" "P key new"
  shows "\<forall>(k, v) \<in> set (amap_set key new m). P k v"
  using assms by (auto dest: set_amap_set_cases)

lemma amap_set_entries:
  assumes "\<forall>e \<in> set m. P (fst e) (snd e)" "P k v"
  shows "\<forall>e \<in> set (amap_set k v m). P (fst e) (snd e)"
  using assms by (auto dest: set_amap_set_cases)

subsection \<open>JavaScript's \<^verbatim>\<open>Set\<close>: distinct elements in insertion order\<close>

definition set_add :: "'a \<Rightarrow> 'a list \<Rightarrow> 'a list" where
  "set_add x xs = (if x \<in> set xs then xs else xs @ [x])"

lemma set_set_add [simp]: "set (set_add x xs) = insert x (set xs)"
  by (auto simp: set_add_def)

lemma set_add_not_Nil [simp]: "set_add x xs \<noteq> []"
  by (auto simp: set_add_def)

lemma distinct_set_add [simp]: "distinct (set_add x xs) \<longleftrightarrow> distinct xs"
  by (auto simp: set_add_def)

text \<open>\<^verbatim>\<open>[...new Set(xs)]\<close>\<close>

definition js_set :: "'a list \<Rightarrow> 'a list" where
  "js_set xs = foldl (\<lambda>acc x. set_add x acc) [] xs"

lemma js_set_snoc: "js_set (xs @ [x]) = set_add x (js_set xs)"
  by (simp add: js_set_def)

lemma js_set_Nil [simp]: "js_set [] = []"
  by (simp add: js_set_def)

lemma set_js_set [simp]: "set (js_set xs) = set xs"
  by (induction xs rule: rev_induct) (simp_all add: js_set_snoc)

lemma distinct_js_set [simp]: "distinct (js_set xs)"
  by (induction xs rule: rev_induct) (simp_all add: js_set_snoc)

lemma js_set_distinct: "distinct xs \<Longrightarrow> js_set xs = xs"
  by (induction xs rule: rev_induct) (simp_all add: js_set_snoc set_add_def)

end
