(* ===== verification/JsStrings.thy ===== *)
theory JsStrings
  imports Prelude
begin

section \<open>Strings as the code uses them\<close>

text \<open>
  A JavaScript string is a \<open>jstr\<close>, the list of its code points; \<open>str ''abc''\<close> is a
  literal. The string methods the modelled code calls are defined here: case mapping (of
  the ASCII letters; keys, ids, labels and regions are ASCII, and other letters are left
  as they are), \<^verbatim>\<open>trim\<close>, \<^verbatim>\<open>padStart\<close>, \<^verbatim>\<open>startsWith\<close>, \<^verbatim>\<open>split\<close>, number to hex text and
  \<^verbatim>\<open>parseInt(_, 16)\<close> with its whole grammar (leading space, sign, \<^verbatim>\<open>0x\<close>, longest run of
  digits, \<^verbatim>\<open>NaN\<close> as \<open>None\<close>).
\<close>

type_synonym jstr = "nat list"

definition str :: "string \<Rightarrow> jstr" where
  "str s = map of_char s"

lemma str_Nil [simp]: "str [] = []"
  by (simp add: str_def)

lemma str_Cons [simp]: "str (c # s) = of_char c # str s"
  by (simp add: str_def)

lemma str_inject: "str s = str t \<longleftrightarrow> s = t"
  by (simp add: str_def inj_map_eq_map inj_on_def)

lemma length_str [simp]: "length (str s) = length s"
  by (simp add: str_def)

definition lower_char :: "nat \<Rightarrow> nat" where
  "lower_char c = (if 65 \<le> c \<and> c \<le> 90 then c + 32 else c)"

definition upper_char :: "nat \<Rightarrow> nat" where
  "upper_char c = (if 97 \<le> c \<and> c \<le> 122 then c - 32 else c)"

definition toLowerCase :: "jstr \<Rightarrow> jstr" where
  "toLowerCase s = map lower_char s"

definition toUpperCase :: "jstr \<Rightarrow> jstr" where
  "toUpperCase s = map upper_char s"

lemma lower_char_idem [simp]: "lower_char (lower_char c) = lower_char c"
  by (auto simp: lower_char_def)

lemma upper_char_idem [simp]: "upper_char (upper_char c) = upper_char c"
  by (auto simp: upper_char_def)

lemma upper_lower_char [simp]: "upper_char (lower_char c) = upper_char c"
  by (auto simp: lower_char_def upper_char_def)

lemma lower_upper_char [simp]: "lower_char (upper_char c) = lower_char c"
  by (auto simp: lower_char_def upper_char_def)

lemma toLowerCase_idem [simp]: "toLowerCase (toLowerCase s) = toLowerCase s"
  by (simp add: toLowerCase_def)

lemma toUpperCase_idem [simp]: "toUpperCase (toUpperCase s) = toUpperCase s"
  by (simp add: toUpperCase_def)

lemma toUpperCase_toLowerCase [simp]: "toUpperCase (toLowerCase s) = toUpperCase s"
  by (simp add: toUpperCase_def toLowerCase_def)

lemma toLowerCase_toUpperCase [simp]: "toLowerCase (toUpperCase s) = toLowerCase s"
  by (simp add: toUpperCase_def toLowerCase_def)

lemma length_toLowerCase [simp]: "length (toLowerCase s) = length s"
  by (simp add: toLowerCase_def)

lemma length_toUpperCase [simp]: "length (toUpperCase s) = length s"
  by (simp add: toUpperCase_def)

lemma toLowerCase_eq_iff_upper: "toLowerCase s = toLowerCase t \<longleftrightarrow> toUpperCase s = toUpperCase t"
  by (metis toLowerCase_toUpperCase toUpperCase_toLowerCase)

subsection \<open>White space, prefixes, padding\<close>

definition is_ws :: "nat \<Rightarrow> bool" where
  "is_ws c \<longleftrightarrow> c \<in> {9, 10, 11, 12, 13, 32, 160, 5760, 8232, 8233, 8239, 8287, 12288, 65279}
     \<or> (8192 \<le> c \<and> c \<le> 8202)"

definition trim :: "jstr \<Rightarrow> jstr" where
  "trim s = rev (dropWhile is_ws (rev (dropWhile is_ws s)))"

definition startsWith :: "jstr \<Rightarrow> jstr \<Rightarrow> bool" where
  "startsWith s p \<longleftrightarrow> take (length p) s = p"

definition padStart :: "nat \<Rightarrow> nat \<Rightarrow> jstr \<Rightarrow> jstr" where
  "padStart n c s = replicate (n - length s) c @ s"

lemma length_padStart [simp]: "length (padStart n c s) = max n (length s)"
  by (simp add: padStart_def)

lemma trim_no_ws: "\<forall>c \<in> set s. \<not> is_ws c \<Longrightarrow> trim s = s"
proof -
  assume a: "\<forall>c \<in> set s. \<not> is_ws c"
  then have "dropWhile is_ws s = s" by (cases s) auto
  moreover from a have "dropWhile is_ws (rev s) = rev s"
    by (simp add: dropWhile_eq_self_iff) (metis hd_in_set set_rev rev_is_Nil_conv)
  ultimately show ?thesis by (simp add: trim_def)
qed

lemma startsWith_self [simp]: "startsWith s s"
  by (simp add: startsWith_def)

lemma startsWith_take [simp]: "startsWith s (take n s)"
  by (simp add: startsWith_def min_def)

lemma startsWith_length: "startsWith s p \<Longrightarrow> length p \<le> length s"
  unfolding startsWith_def by (metis length_take min.cobounded1)

lemma startsWith_append [simp]: "startsWith (p @ s) p"
  by (simp add: startsWith_def)

subsection \<open>Hexadecimal text\<close>

definition hex_digit :: "nat \<Rightarrow> nat" where
  "hex_digit n = (if n < 10 then 48 + n else 87 + n)"

definition hex_val :: "nat \<Rightarrow> nat option" where
  "hex_val n =
    (if 48 \<le> n \<and> n \<le> 57 then Some (n - 48)
     else if 97 \<le> n \<and> n \<le> 102 then Some (n - 87)
     else if 65 \<le> n \<and> n \<le> 70 then Some (n - 55)
     else None)"

definition is_hex :: "nat \<Rightarrow> bool" where
  "is_hex c \<longleftrightarrow> hex_val c \<noteq> None"

definition is_lower_hex :: "nat \<Rightarrow> bool" where
  "is_lower_hex c \<longleftrightarrow> (48 \<le> c \<and> c \<le> 57) \<or> (97 \<le> c \<and> c \<le> 102)"

lemma hex_val_digit [simp]: "n < 16 \<Longrightarrow> hex_val (hex_digit n) = Some n"
  by (auto simp: hex_digit_def hex_val_def Let_def)

lemma is_lower_hex_digit [simp]: "n < 16 \<Longrightarrow> is_lower_hex (hex_digit n)"
  by (auto simp: hex_digit_def is_lower_hex_def)

lemma hex_val_less: "hex_val c = Some v \<Longrightarrow> v < 16"
  by (auto simp: hex_val_def Let_def split: if_splits)

lemma is_lower_hex_is_hex: "is_lower_hex c \<Longrightarrow> is_hex c"
  by (auto simp: is_lower_hex_def is_hex_def hex_val_def Let_def)

lemma lower_char_lower_hex: "is_lower_hex c \<Longrightarrow> lower_char c = c"
  by (auto simp: is_lower_hex_def lower_char_def)

lemma is_lower_hex_lower_char: "is_hex c \<Longrightarrow> is_lower_hex (lower_char c)"
  by (auto simp: is_lower_hex_def is_hex_def hex_val_def lower_char_def Let_def split: if_splits)

lemma hex_not_ws: "is_hex c \<Longrightarrow> \<not> is_ws c"
  by (auto simp: is_hex_def hex_val_def is_ws_def Let_def split: if_splits)

lemma is_lower_hex_zero [simp]: "is_lower_hex 48"
  by (simp add: is_lower_hex_def)

lemma hex_digit_val: "is_lower_hex c \<Longrightarrow> hex_val c = Some v \<Longrightarrow> hex_digit v = c"
proof -
  assume a: "is_lower_hex c" "hex_val c = Some v"
  then show ?thesis
    by (auto simp: is_lower_hex_def hex_val_def hex_digit_def split: if_splits)
qed

text \<open>\<^verbatim>\<open>n.toString(16)\<close> of a number that is not negative.\<close>

fun toString16 :: "nat \<Rightarrow> jstr" where
  "toString16 n = (if n < 16 then [hex_digit n] else toString16 (n div 16) @ [hex_digit (n mod 16)])"

declare toString16.simps [simp del]

lemma toString16_hex: "list_all is_lower_hex (toString16 n)"
proof (induction n rule: toString16.induct)
  case (1 n)
  then show ?case by (subst toString16.simps) auto
qed

lemma length_toString16: "n < 16 ^ k \<Longrightarrow> 0 < k \<Longrightarrow> length (toString16 n) \<le> k"
proof (induction n arbitrary: k rule: toString16.induct)
  case (1 n)
  show ?case
  proof (cases "n < 16")
    case True
    with "1.prems" show ?thesis by (subst toString16.simps) auto
  next
    case False
    with "1.prems" obtain j where k: "k = Suc j" by (cases k) auto
    with False "1.prems" have "0 < j" by (cases j) auto
    from "1.prems" k have "n div 16 < 16 ^ j"
      by (simp add: div_less_iff_less_mult mult.commute)
    with "1.IH" False \<open>0 < j\<close> have "length (toString16 (n div 16)) \<le> j" by simp
    with False k show ?thesis by (subst toString16.simps) auto
  qed
qed

text \<open>Reading digits, most significant first; \<open>parseInt16 s\<close> is \<^verbatim>\<open>parseInt(s, 16)\<close>.\<close>

definition digits_val :: "jstr \<Rightarrow> nat" where
  "digits_val s = foldl (\<lambda>acc c. acc * 16 + (case hex_val c of None \<Rightarrow> 0 | Some v \<Rightarrow> v)) 0 s"

definition strip_0x :: "jstr \<Rightarrow> jstr" where
  "strip_0x s = (case s of
     c # d # rest \<Rightarrow> if c = 48 \<and> d \<in> {120, 88} then rest else s
   | _ \<Rightarrow> s)"

definition parseInt16 :: "jstr \<Rightarrow> int option" where
  "parseInt16 s =
     (let t = dropWhile is_ws s;
          neg = (t \<noteq> [] \<and> hd t = 45);
          u = (if t \<noteq> [] \<and> hd t \<in> {45, 43} then tl t else t);
          ds = takeWhile is_hex (strip_0x u)
      in if ds = [] then None
         else Some (if neg then - int (digits_val ds) else int (digits_val ds)))"

lemma digits_val_Nil [simp]: "digits_val [] = 0"
  by (simp add: digits_val_def)

lemma digits_val_snoc: "digits_val (s @ [c]) =
    digits_val s * 16 + (case hex_val c of None \<Rightarrow> 0 | Some v \<Rightarrow> v)"
  by (simp add: digits_val_def)

lemma digits_val_toString16 [simp]: "digits_val (toString16 n) = n"
proof (induction n rule: toString16.induct)
  case (1 n)
  show ?case
  proof (cases "n < 16")
    case True
    then show ?thesis by (subst toString16.simps) (simp add: digits_val_def)
  next
    case False
    with "1.IH" have "digits_val (toString16 (n div 16)) = n div 16" by simp
    with False show ?thesis by (subst toString16.simps) (simp add: digits_val_snoc)
  qed
qed

lemma hex_char_cases:
  assumes "is_hex c"
  shows "c \<noteq> 45" "c \<noteq> 43" "c \<noteq> 120" "c \<noteq> 88" "\<not> is_ws c"
  using assms hex_not_ws by (auto simp: is_hex_def hex_val_def Let_def split: if_splits)

lemma strip_0x_hex: "list_all is_hex s \<Longrightarrow> strip_0x s = s"
  by (auto simp: strip_0x_def dest: hex_char_cases(3,4) split: list.splits)

lemma parseInt16_hex:
  assumes "list_all is_hex s" "s \<noteq> []"
  shows "parseInt16 s = Some (int (digits_val s))"
proof -
  have "dropWhile is_ws s = s" "hd s \<noteq> 45" "hd s \<noteq> 43"
    using assms hex_char_cases by (cases s; auto)+
  moreover have "takeWhile is_hex s = s"
    using assms(1) by (simp add: list_all_iff takeWhile_eq_all_conv)
  ultimately show ?thesis
    using assms by (simp add: parseInt16_def Let_def strip_0x_hex del: takeWhile_eq_all_conv)
qed

text \<open>A byte as two lower-case hex digits: \<^verbatim>\<open>b.toString(16).padStart(2, '0')\<close>.\<close>

definition hex2 :: "nat \<Rightarrow> jstr" where
  "hex2 n = padStart 2 48 (toString16 n)"

lemma hex_digit_0: "hex_digit 0 = 48"
  by (simp add: hex_digit_def)

lemma hex2_digits: "n < 256 \<Longrightarrow> hex2 n = [hex_digit (n div 16), hex_digit (n mod 16)]"
proof -
  assume n: "n < 256"
  show ?thesis
  proof (cases "n < 16")
    case True
    then show ?thesis
      by (simp add: hex2_def padStart_def toString16.simps [of n] hex_digit_0)
  next
    case False
    with n have "n div 16 < 16" by (simp add: div_less_iff_less_mult)
    with False show ?thesis
      by (simp add: hex2_def padStart_def toString16.simps [of n] toString16.simps [of "n div 16"])
  qed
qed

lemma length_hex2 [simp]: "n < 256 \<Longrightarrow> length (hex2 n) = 2"
  by (simp add: hex2_digits)

lemma hex2_hex: "n < 256 \<Longrightarrow> list_all is_lower_hex (hex2 n)"
  by (simp add: hex2_digits div_less_iff_less_mult)

lemma parseInt16_hex2 [simp]: "n < 256 \<Longrightarrow> parseInt16 (hex2 n) = Some (int n)"
proof -
  assume n: "n < 256"
  then have "list_all is_hex (hex2 n)"
    using hex2_hex [OF n] is_lower_hex_is_hex by (auto simp: list_all_iff)
  moreover from n have "digits_val (hex2 n) = n"
    by (simp add: hex2_digits digits_val_def div_less_iff_less_mult)
  ultimately show ?thesis
    using n by (subst parseInt16_hex) (auto simp: hex2_digits)
qed

text \<open>The two key patterns of the code: \<^verbatim>\<open>/^[0-9a-f]{64}$/\<close> and \<^verbatim>\<open>/^[0-9a-f]{2}$/\<close>.\<close>

definition is_pubkey :: "jstr \<Rightarrow> bool" where
  "is_pubkey s \<longleftrightarrow> length s = 64 \<and> list_all is_lower_hex s"

lemma is_pubkey_lower: "is_pubkey s \<Longrightarrow> toLowerCase s = s"
  unfolding is_pubkey_def toLowerCase_def
  by (metis (mono_tags, lifting) list_all_iff lower_char_lower_hex map_idI)

lemma is_pubkey_trim: "is_pubkey s \<Longrightarrow> trim s = s"
  unfolding is_pubkey_def by (metis hex_not_ws is_lower_hex_is_hex list_all_iff trim_no_ws)

subsection \<open>Joining and splitting\<close>

fun join_with :: "jstr \<Rightarrow> jstr list \<Rightarrow> jstr" where
  "join_with sep [] = []"
| "join_with sep [x] = x"
| "join_with sep (x # y # xs) = x @ sep @ join_with sep (y # xs)"

text \<open>\<open>split_on c s\<close> is \<^verbatim>\<open>s.split(c)\<close> for a one-character separator: never empty.\<close>

fun split_on :: "'a \<Rightarrow> 'a list \<Rightarrow> 'a list list" where
  "split_on c [] = [[]]"
| "split_on c (x # xs) =
     (if x = c then [] # split_on c xs
      else (case split_on c xs of [] \<Rightarrow> [[x]] | y # ys \<Rightarrow> (x # y) # ys))"

lemma split_on_nonempty [simp]: "split_on c s \<noteq> []"
  by (cases s) (auto split: list.splits)

lemma split_on_no_sep: "c \<notin> set s \<Longrightarrow> split_on c s = [s]"
  by (induction s) auto

lemma split_on_append:
  "split_on c (s @ c # t) = split_on c s @ split_on c t"
  by (induction s) (auto split: list.splits)

lemma split_on_parts: "p \<in> set (split_on c s) \<Longrightarrow> c \<notin> set p"
proof (induction s arbitrary: p)
  case Nil
  then show ?case by simp
next
  case (Cons x s)
  then show ?case
    by (cases "split_on c s") (auto split: if_splits)
qed

end
