(* ===== verification/Bytes.thy ===== *)
theory Bytes
  imports JsStrings "HOL-Library.Word"
begin

section \<open>Bytes: typed arrays, data views and UTF-8\<close>

text \<open>
  A \<^verbatim>\<open>Uint8Array\<close> is a list of \<open>8 word\<close>s. A \<^verbatim>\<open>DataView\<close> read past the end throws a
  \<^verbatim>\<open>RangeError\<close>: the reads are options, \<open>None\<close> for the throw. Text from a
  radio is decoded as \<^verbatim>\<open>TextDecoder\<close> does
  (malformed sequences become U+FFFD, one leading byte order mark is dropped).
\<close>

unbundle bit_operations_syntax

type_synonym u8 = "8 word"
type_synonym bytes = "u8 list"

lemma unat_u8_less [simp]: "unat (b :: u8) < 256"
  using unsigned_less [of b] by simp

definition int8 :: "u8 \<Rightarrow> int" where
  "int8 b = (if unat b < 128 then int (unat b) else int (unat b) - 256)"

lemma int8_bounds: "- 128 \<le> int8 b" "int8 b < 128"
  using unat_u8_less [of b] unfolding int8_def by (auto simp del: of_nat_unat unat_u8_less)

definition getUint16 :: "bytes \<Rightarrow> nat \<Rightarrow> nat option" where
  "getUint16 bs i = (if i + 2 \<le> length bs
     then Some (unat (bs ! i) + 256 * unat (bs ! (i + 1))) else None)"

definition getUint32 :: "bytes \<Rightarrow> nat \<Rightarrow> nat option" where
  "getUint32 bs i = (if i + 4 \<le> length bs
     then Some (unat (bs ! i) + 256 * unat (bs ! (i + 1)) + 65536 * unat (bs ! (i + 2))
                + 16777216 * unat (bs ! (i + 3))) else None)"

definition getInt16 :: "bytes \<Rightarrow> nat \<Rightarrow> int option" where
  "getInt16 bs i = map_option (\<lambda>n. if n < 32768 then int n else int n - 65536) (getUint16 bs i)"

definition getInt32 :: "bytes \<Rightarrow> nat \<Rightarrow> int option" where
  "getInt32 bs i =
     map_option (\<lambda>n. if n < 2147483648 then int n else int n - 4294967296) (getUint32 bs i)"

text \<open>\<open>u32le n\<close>: the four bytes of \<^verbatim>\<open>n >>> 0\<close>, least significant first.\<close>

definition u32le :: "nat \<Rightarrow> bytes" where
  "u32le v = (let n = v mod 4294967296 in
     [of_nat (n mod 256), of_nat (n div 256 mod 256), of_nat (n div 65536 mod 256),
      of_nat (n div 16777216 mod 256)])"

lemma length_u32le [simp]: "length (u32le n) = 4"
  by (simp add: u32le_def Let_def)

lemma unat_of_nat_u8: "unat (of_nat n :: u8) = n mod 256"
  by (simp add: unat_of_nat)

lemma bytes_of_u32:
  assumes "n < 4294967296"
  shows "n mod 256 + 256 * (n div 256 mod 256) + 65536 * (n div 65536 mod 256)
      + 16777216 * (n div 16777216 mod 256) = (n :: nat)"
proof -
  define a b c where "a = n div 256" and "b = a div 256" and "c = b div 256"
  have d: "n div 65536 = b" "n div 16777216 = c"
    unfolding a_def b_def c_def by (simp_all flip: div_mult2_eq)
  have "n div 16777216 < 256" using assms by (simp add: div_less_iff_less_mult)
  then have c: "c mod 256 = c" using d by simp
  have "n = 256 * a + n mod 256" "a = 256 * b + a mod 256" "b = 256 * c + b mod 256"
    unfolding a_def b_def c_def by simp_all
  with c show ?thesis unfolding d by (simp flip: a_def)
qed

lemma u32le_mod: "u32le (n mod 4294967296) = u32le n"
  by (simp add: u32le_def)

lemma getUint32_u32le_small:
  assumes "n < 4294967296"
  shows "getUint32 (xs @ u32le n @ ys) (length xs) = Some n"
proof -
  have "n mod 4294967296 = n" using assms by simp
  then have "getUint32 (xs @ u32le n @ ys) (length xs) =
     Some (n mod 256 + 256 * (n div 256 mod 256) + 65536 * (n div 65536 mod 256)
        + 16777216 * (n div 16777216 mod 256))"
    unfolding getUint32_def u32le_def Let_def
    by (simp only:) (simp add: nth_append unat_of_nat_u8)
  then show ?thesis by (simp only: bytes_of_u32 [OF assms])
qed

lemma getUint32_u32le:
  "getUint32 (xs @ u32le n @ ys) (length xs) = Some (n mod 4294967296)"
  using getUint32_u32le_small [of "n mod 4294967296" xs ys] by (simp add: u32le_mod)

lemma getUint32_less:
  assumes "getUint32 bs i = Some n"
  shows "n < 4294967296"
proof -
  have "unat (bs ! i) < 256" "unat (bs ! (i + 1)) < 256"
    "unat (bs ! (i + 2)) < 256" "unat (bs ! (i + 3)) < 256" by simp_all
  moreover have "n = unat (bs ! i) + 256 * unat (bs ! (i + 1)) + 65536 * unat (bs ! (i + 2))
      + 16777216 * unat (bs ! (i + 3))"
    using assms unfolding getUint32_def by (simp split: if_splits)
  ultimately show ?thesis by linarith
qed

lemma getUint32_is_Some: "i + 4 \<le> length bs \<Longrightarrow> \<exists>n. getUint32 bs i = Some n"
  by (simp add: getUint32_def)

subsection \<open>UTF-8\<close>

text \<open>\<open>utf8_encode\<close> is \<^verbatim>\<open>TextEncoder.encode\<close> on code points below U+110000.\<close>

definition utf8_char :: "nat \<Rightarrow> bytes" where
  "utf8_char c =
     (if c < 128 then [of_nat c]
      else if c < 2048 then [of_nat (192 + c div 64), of_nat (128 + c mod 64)]
      else if c < 65536 then
        [of_nat (224 + c div 4096), of_nat (128 + c div 64 mod 64), of_nat (128 + c mod 64)]
      else [of_nat (240 + c div 262144), of_nat (128 + c div 4096 mod 64),
            of_nat (128 + c div 64 mod 64), of_nat (128 + c mod 64)])"

definition utf8_encode :: "jstr \<Rightarrow> bytes" where
  "utf8_encode cs = concat (map utf8_char cs)"

text \<open>
  The decoder of the Encoding standard: how many continuation bytes a lead byte wants,
  the range of the first of them, and the bits it carries.
\<close>

definition utf8_lead :: "nat \<Rightarrow> (nat \<times> nat \<times> nat \<times> nat) option" where
  "utf8_lead b =
     (if 194 \<le> b \<and> b \<le> 223 then Some (1, 128, 191, b - 192)
      else if 224 \<le> b \<and> b \<le> 239 then
        Some (2, if b = 224 then 160 else 128, if b = 237 then 159 else 191, b - 224)
      else if 240 \<le> b \<and> b \<le> 244 then
        Some (3, if b = 240 then 144 else 128, if b = 244 then 143 else 191, b - 240)
      else None)"

fun utf8_go :: "nat \<Rightarrow> nat \<Rightarrow> nat \<Rightarrow> nat \<Rightarrow> nat list \<Rightarrow> jstr" where
  "utf8_go 0 lo hi acc [] = []"
| "utf8_go (Suc n) lo hi acc [] = [65533]"
| "utf8_go 0 lo hi acc (b # bs) =
     (if b < 128 then b # utf8_go 0 128 191 0 bs
      else case utf8_lead b of
        None \<Rightarrow> 65533 # utf8_go 0 128 191 0 bs
      | Some (n, lo', hi', acc') \<Rightarrow> utf8_go n lo' hi' acc' bs)"
| "utf8_go (Suc n) lo hi acc (b # bs) =
     (if lo \<le> b \<and> b \<le> hi then
        (if n = 0 then (acc * 64 + (b - 128)) # utf8_go 0 128 191 0 bs
         else utf8_go n 128 191 (acc * 64 + (b - 128)) bs)
      else 65533 # (if b < 128 then b # utf8_go 0 128 191 0 bs
        else case utf8_lead b of
          None \<Rightarrow> 65533 # utf8_go 0 128 191 0 bs
        | Some (m, lo', hi', acc') \<Rightarrow> utf8_go m lo' hi' acc' bs))"

definition strip_bom :: "bytes \<Rightarrow> bytes" where
  "strip_bom bs = (if take 3 bs = [239, 187, 191] then drop 3 bs else bs)"

definition utf8_decode :: "bytes \<Rightarrow> jstr" where
  "utf8_decode bs = utf8_go 0 128 191 0 (map unat (strip_bom bs))"

definition scalar_value :: "nat \<Rightarrow> bool" where
  "scalar_value c \<longleftrightarrow> c < 55296 \<or> (57344 \<le> c \<and> c < 1114112)"

end
