(* ===== verification/Packet.thy ===== *)
theory Packet
  imports Bytes
begin

section \<open>The routing preamble and the packet hash (wardrive/packet.ts)\<close>

text \<open>
  \<open>frameWalk\<close> reads a raw MeshCore frame's route type, payload type, path and payload
  start; \<open>hashOfWalk\<close> is the firmware's packet hash over payload type and payload.
  SHA-256 is the Web Crypto API's: it is the parameter \<open>sha\<close>. \<^verbatim>\<open>subarray\<close> clamps its
  bounds as \<open>subarr\<close> does, so the hops of a frame cut short are short before the final
  check refuses the frame.
\<close>

definition ROUTE_TRANSPORT_FLOOD :: nat where "ROUTE_TRANSPORT_FLOOD = 0"
definition ROUTE_TRANSPORT_DIRECT :: nat where "ROUTE_TRANSPORT_DIRECT = 3"
definition PAYLOAD_TYPE_TRACE :: nat where "PAYLOAD_TYPE_TRACE = 9"
definition MAX_PATH_SIZE :: nat where "MAX_PATH_SIZE = 64"
definition HASH_BYTES :: nat where "HASH_BYTES = 8"

record frame_walk =
  fw_routeType :: nat
  fw_payloadType :: nat
  fw_pathLen :: nat
  fw_hops :: "jstr list"
  fw_payloadStart :: nat

definition bytesToHex :: "bytes \<Rightarrow> jstr" where
  "bytesToHex bs = concat (map (\<lambda>b. hex2 (unat b)) bs)"

text \<open>A \<^verbatim>\<open>Uint8Array\<close> element takes a number modulo 256, and \<^verbatim>\<open>NaN\<close> as 0.\<close>

definition u8_of_parse :: "int option \<Rightarrow> u8" where
  "u8_of_parse v = (case v of None \<Rightarrow> 0 | Some n \<Rightarrow> of_int n)"

definition hexToBytes :: "jstr \<Rightarrow> bytes" where
  "hexToBytes hex =
     (let clean = (if odd (length hex) then [] else hex)
      in map (\<lambda>i. u8_of_parse (parseInt16 (subarr (i * 2) (i * 2 + 2) clean)))
           [0..<length clean div 2])"

definition transport_bytes :: "nat \<Rightarrow> nat" where
  "transport_bytes routeType =
     (if routeType = ROUTE_TRANSPORT_FLOOD \<or> routeType = ROUTE_TRANSPORT_DIRECT then 4 else 0)"

definition frameWalk :: "bytes \<Rightarrow> frame_walk option" where
  "frameWalk raw =
     (if length raw < 2 then None
      else
        let header = unat (raw ! 0);
            routeType = header mod 4;
            i = 1 + transport_bytes routeType
        in if i \<ge> length raw then None
        else
          let pathLen = unat (raw ! i);
              i = i + 1;
              count = pathLen mod 64;
              size = pathLen div 64 + 1
          in if size = 4 \<or> count * size > MAX_PATH_SIZE then None
          else
            let hops = map (\<lambda>k. bytesToHex (subarr (i + k * size) (i + (k + 1) * size) raw))
                         [0..<count];
                i = i + count * size
            in if i \<ge> length raw then None
            else Some \<lparr>fw_routeType = routeType, fw_payloadType = header div 4 mod 16,
                       fw_pathLen = pathLen, fw_hops = hops, fw_payloadStart = i\<rparr>)"

definition hash_prefix :: "frame_walk \<Rightarrow> bytes" where
  "hash_prefix w =
     (if fw_payloadType w = PAYLOAD_TYPE_TRACE
      then [of_nat (fw_payloadType w), of_nat (fw_pathLen w), 0]
      else [of_nat (fw_payloadType w)])"

definition hashOfWalk :: "(bytes \<Rightarrow> bytes) \<Rightarrow> bytes \<Rightarrow> frame_walk \<Rightarrow> jstr" where
  "hashOfWalk sha raw w =
     bytesToHex (subarr 0 HASH_BYTES (sha (hash_prefix w @ drop (fw_payloadStart w) raw)))"

definition packetHash :: "(bytes \<Rightarrow> bytes) \<Rightarrow> bytes \<Rightarrow> jstr option" where
  "packetHash sha raw = map_option (hashOfWalk sha raw) (frameWalk raw)"

subsection \<open>Hex text\<close>

lemma bytesToHex_Nil [simp]: "bytesToHex [] = []"
  by (simp add: bytesToHex_def)

lemma bytesToHex_Cons: "bytesToHex (b # bs) = hex2 (unat b) @ bytesToHex bs"
  by (simp add: bytesToHex_def)

lemma length_bytesToHex [simp]: "length (bytesToHex bs) = 2 * length bs"
  by (induction bs) (auto simp: bytesToHex_Cons)

lemma bytesToHex_lower_hex: "list_all is_lower_hex (bytesToHex bs)"
  by (induction bs) (auto simp: bytesToHex_Cons hex2_hex)

lemma bytesToHex_pubkey: "length bs = 32 \<Longrightarrow> is_pubkey (bytesToHex bs)"
  by (simp add: is_pubkey_def bytesToHex_lower_hex)

lemma subarr_bytesToHex:
  "i < length bs \<Longrightarrow> subarr (i * 2) (i * 2 + 2) (bytesToHex bs) = hex2 (unat (bs ! i))"
proof (induction bs arbitrary: i)
  case Nil
  then show ?case by simp
next
  case (Cons b bs)
  then show ?case
    by (cases i) (auto simp: bytesToHex_Cons subarr_def)
qed

lemma hexToBytes_bytesToHex: "hexToBytes (bytesToHex bs) = bs"
proof (rule nth_equalityI)
  show "length (hexToBytes (bytesToHex bs)) = length bs"
    by (simp add: hexToBytes_def Let_def)
  fix i
  assume "i < length (hexToBytes (bytesToHex bs))"
  then have "i < length bs" by (simp add: hexToBytes_def Let_def)
  from subarr_bytesToHex [OF this] this
  show "hexToBytes (bytesToHex bs) ! i = bs ! i"
    by (simp add: hexToBytes_def Let_def u8_of_parse_def)
qed

lemma length_hexToBytes: "length (hexToBytes h) = (if odd (length h) then 0 else length h div 2)"
  by (simp add: hexToBytes_def Let_def)

lemma bytesToHex_inject: "bytesToHex a = bytesToHex b \<longleftrightarrow> a = b"
  by (metis hexToBytes_bytesToHex)

subsection \<open>Walking a frame\<close>

text \<open>The frame layout of the firmware, as an encoder the walk is checked against.\<close>

record wire_frame =
  wf_route :: nat
  wf_type :: nat
  wf_version :: nat
  wf_transport :: bytes
  wf_size :: nat
  wf_path :: "bytes list"
  wf_payload :: bytes

definition wire_ok :: "wire_frame \<Rightarrow> bool" where
  "wire_ok f \<longleftrightarrow> wf_route f < 4 \<and> wf_type f < 16 \<and> wf_version f < 4
     \<and> length (wf_transport f) = transport_bytes (wf_route f)
     \<and> wf_size f \<in> {1, 2, 3} \<and> list_all (\<lambda>h. length h = wf_size f) (wf_path f)
     \<and> length (wf_path f) < 64 \<and> length (wf_path f) * wf_size f \<le> MAX_PATH_SIZE
     \<and> wf_payload f \<noteq> []"

definition wire_bytes :: "wire_frame \<Rightarrow> bytes" where
  "wire_bytes f =
     of_nat (wf_route f + 4 * wf_type f + 64 * wf_version f) # wf_transport f
     @ of_nat (length (wf_path f) + 64 * (wf_size f - 1)) # concat (wf_path f) @ wf_payload f"

lemma length_concat_uniform:
  "list_all (\<lambda>h. length h = n) hs \<Longrightarrow> length (concat hs) = length hs * n"
  by (induction hs) auto

lemma subarr_concat_uniform:
  "list_all (\<lambda>h. length h = n) hs \<Longrightarrow> k < length hs \<Longrightarrow>
     subarr (k * n) ((k + 1) * n) (concat hs @ ys) = hs ! k"
proof (induction hs arbitrary: k)
  case Nil
  then show ?case by simp
next
  case (Cons h hs)
  then show ?case
    by (cases k) (auto simp: subarr_def)
qed

lemma subarr_append_shift: "subarr (length xs + i) (length xs + j) (xs @ ys) = subarr i j ys"
  by (simp add: subarr_def)

lemma header_arith:
  "r < 4 \<Longrightarrow> t < 16 \<Longrightarrow> v < 4 \<Longrightarrow> r + 4 * t + 64 * v < (256 :: nat)
     \<and> (r + 4 * t + 64 * v) mod 4 = r \<and> (r + 4 * t + 64 * v) div 4 mod 16 = t"
proof -
  assume a: "r < 4" "t < 16" "v < 4"
  have e: "r + 4 * t + 64 * v = r + 4 * (t + 16 * v)" by simp
  have "(r + 4 * (t + 16 * v)) mod 4 = r" "(r + 4 * (t + 16 * v)) div 4 = t + 16 * v"
    using a(1) by (simp_all only: mod_mult_self2 div_mult_self2 mod_less div_less)
  then show ?thesis using a unfolding e by simp
qed

lemma pathLen_arith:
  "n < 64 \<Longrightarrow> s \<in> {1, 2, 3} \<Longrightarrow> n + 64 * (s - 1) < (256 :: nat)
     \<and> (n + 64 * (s - 1)) mod 64 = n \<and> (n + 64 * (s - 1)) div 64 + 1 = s"
  by auto

lemma frameWalk_wire_bytes:
  assumes ok: "wire_ok f"
  shows "frameWalk (wire_bytes f) = Some
    \<lparr>fw_routeType = wf_route f, fw_payloadType = wf_type f,
     fw_pathLen = length (wf_path f) + 64 * (wf_size f - 1),
     fw_hops = map bytesToHex (wf_path f),
     fw_payloadStart = length (wire_bytes f) - length (wf_payload f)\<rparr>"
proof -
  define hd1 where "hd1 = wf_route f + 4 * wf_type f + 64 * wf_version f"
  define pl where "pl = length (wf_path f) + 64 * (wf_size f - 1)"
  define pre where "pre = (of_nat hd1 :: u8) # wf_transport f @ [of_nat pl]"
  have hd1: "hd1 < 256" "hd1 mod 4 = wf_route f" "hd1 div 4 mod 16 = wf_type f"
    using ok header_arith [of "wf_route f" "wf_type f" "wf_version f"]
    unfolding hd1_def wire_ok_def by simp_all
  have pl: "pl < 256" "pl mod 64 = length (wf_path f)" "pl div 64 + 1 = wf_size f"
    using ok pathLen_arith [of "length (wf_path f)" "wf_size f"]
    unfolding pl_def wire_ok_def by auto
  have raw: "wire_bytes f = pre @ concat (wf_path f) @ wf_payload f"
    by (simp add: wire_bytes_def pre_def hd1_def pl_def)
  have lt: "length (wf_transport f) = transport_bytes (wf_route f)"
    and all: "list_all (\<lambda>h. length h = wf_size f) (wf_path f)"
    using ok by (simp_all add: wire_ok_def)
  have lpre: "length pre = 1 + transport_bytes (wf_route f) + 1"
    by (simp add: pre_def lt)
  have lc: "length (concat (wf_path f)) = length (wf_path f) * wf_size f"
    using length_concat_uniform [OF all] .
  have b0: "unat (wire_bytes f ! 0) = hd1"
    using hd1(1) by (simp add: raw pre_def unat_of_nat_u8)
  have bi: "unat (wire_bytes f ! (1 + transport_bytes (wf_route f))) = pl"
    using pl(1) lt by (simp add: raw pre_def unat_of_nat_u8 nth_append)
  have hops: "map (\<lambda>k. bytesToHex (subarr (length pre + k * wf_size f)
        (length pre + (k + 1) * wf_size f) (wire_bytes f))) [0..<length (wf_path f)]
      = map bytesToHex (wf_path f)"
    unfolding raw subarr_append_shift
    by (rule nth_equalityI) (simp_all add: subarr_concat_uniform [OF all, simplified])
  have ne: "wf_payload f \<noteq> []" and sz: "wf_size f \<noteq> 4" "\<not> length (wf_path f) * wf_size f > MAX_PATH_SIZE"
    using ok by (auto simp: wire_ok_def)
  show ?thesis
    using ne sz hops
    unfolding frameWalk_def Let_def b0 hd1 bi pl
    by (simp add: raw lpre lc pl_def)
qed

lemma frameWalkE:
  assumes "frameWalk raw = Some w"
  obtains header i size count where
    "2 \<le> length raw" "header < 256" "i = 2 + transport_bytes (header mod 4)"
    "size = fw_pathLen w div 64 + 1" "count = fw_pathLen w mod 64"
    "fw_pathLen w < 256" "size \<noteq> 4" "count * size \<le> MAX_PATH_SIZE"
    "i + count * size < length raw" "fw_routeType w = header mod 4"
    "fw_payloadType w = header div 4 mod 16"
    "fw_hops w = map (\<lambda>k. bytesToHex (subarr (i + k * size) (i + (k + 1) * size) raw)) [0..<count]"
    "fw_payloadStart w = i + count * size"
proof -
  define header where "header = unat (raw ! 0)"
  define rt where "rt = header mod 4"
  define i0 where "i0 = 1 + transport_bytes rt"
  define pl where "pl = unat (raw ! i0)"
  define count where "count = pl mod 64"
  define size where "size = pl div 64 + 1"
  define pt where "pt = header div 4 mod 16"
  have w: "\<not> length raw < 2 \<and> \<not> i0 \<ge> length raw \<and> \<not> (size = 4 \<or> count * size > MAX_PATH_SIZE)
    \<and> \<not> i0 + 1 + count * size \<ge> length raw
    \<and> w = \<lparr>fw_routeType = rt, fw_payloadType = pt, fw_pathLen = pl,
      fw_hops = map (\<lambda>k. bytesToHex (subarr (i0 + 1 + k * size) (i0 + 1 + (k + 1) * size) raw))
        [0..<count],
      fw_payloadStart = i0 + 1 + count * size\<rparr>"
    using assms
    unfolding frameWalk_def Let_def header_def [symmetric] rt_def [symmetric] i0_def [symmetric]
      pl_def [symmetric] count_def [symmetric] size_def [symmetric] pt_def [symmetric]
    by (simp only: split: if_split_asm) simp_all
  show ?thesis
    by (rule that [of header "i0 + 1" size count])
       (use w in \<open>simp_all add: i0_def rt_def pt_def size_def count_def pl_def header_def\<close>)
qed

lemma frameWalk_bounds:
  assumes "frameWalk raw = Some w"
  shows "fw_payloadStart w < length raw" "2 \<le> fw_payloadStart w"
    "fw_routeType w < 4" "fw_payloadType w < 16" "length (fw_hops w) < 64"
    "fw_payloadStart w \<le> 6 + MAX_PATH_SIZE"
  using assms by (auto elim!: frameWalkE simp: transport_bytes_def)

lemma frameWalk_hop:
  assumes "frameWalk raw = Some w" "h \<in> set (fw_hops w)"
  shows "list_all is_lower_hex h" "length h = 2 * (fw_pathLen w div 64 + 1)"
proof -
  from assms(1) obtain i size count where size: "size = fw_pathLen w div 64 + 1"
    and len: "i + count * size < length raw"
    and hops: "fw_hops w = map (\<lambda>k. bytesToHex (subarr (i + k * size) (i + (k + 1) * size) raw)) [0..<count]"
    by (elim frameWalkE) blast
  from assms(2) hops obtain k where k: "k < count"
    and h: "h = bytesToHex (subarr (i + k * size) (i + (k + 1) * size) raw)"
    by auto
  from k have "(k + 1) * size \<le> count * size" by (simp only: Suc_eq_plus1 [symmetric] Suc_leI mult_le_mono1)
  with len have "i + (k + 1) * size \<le> length raw" by linarith
  then have "length (subarr (i + k * size) (i + (k + 1) * size) raw) = size"
    by (simp add: algebra_simps)
  with h size show "length h = 2 * (fw_pathLen w div 64 + 1)" by simp
  show "list_all is_lower_hex h" unfolding h by (rule bytesToHex_lower_hex)
qed

subsection \<open>The hash\<close>

lemma wire_payload_drop:
  "wire_ok f \<Longrightarrow> drop (length (wire_bytes f) - length (wf_payload f)) (wire_bytes f) = wf_payload f"
  by (simp add: wire_bytes_def)

lemma packetHash_wire:
  assumes "wire_ok f"
  shows "packetHash sha (wire_bytes f) = Some (bytesToHex (subarr 0 HASH_BYTES (sha
     ((if wf_type f = PAYLOAD_TYPE_TRACE
       then [of_nat (wf_type f), of_nat (length (wf_path f) + 64 * (wf_size f - 1)), 0]
       else [of_nat (wf_type f)]) @ wf_payload f))))"
  by (simp add: packetHash_def frameWalk_wire_bytes [OF assms] hashOfWalk_def hash_prefix_def
      wire_payload_drop [OF assms])

subsection \<open>Properties\<close>

definition sample_frame :: wire_frame where
  "sample_frame = \<lparr>wf_route = 1, wf_type = 4, wf_version = 0, wf_transport = [], wf_size = 2,
     wf_path = [[1, 2], [3, 4]], wf_payload = [9, 8, 7]\<rparr>"

lemma sample_frame_ok: "wire_ok sample_frame"
  by (simp add: wire_ok_def sample_frame_def transport_bytes_def ROUTE_TRANSPORT_FLOOD_def
      ROUTE_TRANSPORT_DIRECT_def MAX_PATH_SIZE_def)

text \<open>C8: the walk reads every well-formed frame exactly: route, payload type, hop hashes (as hex)
  and the place where the payload starts.\<close>

theorem frameWalk_reads_frame:
  assumes "wire_ok f"
  shows "\<exists>w. frameWalk (wire_bytes f) = Some w \<and> fw_routeType w = wf_route f
    \<and> fw_payloadType w = wf_type f \<and> map hexToBytes (fw_hops w) = wf_path f
    \<and> drop (fw_payloadStart w) (wire_bytes f) = wf_payload f"
  using frameWalk_wire_bytes [OF assms] wire_payload_drop [OF assms]
  by (simp add: hexToBytes_bytesToHex comp_def)

theorem frameWalk_reads_frame_witness:
  "\<exists>w. frameWalk (wire_bytes sample_frame) = Some w \<and> map hexToBytes (fw_hops w) = [[1, 2], [3, 4]]"
  using frameWalk_reads_frame [OF sample_frame_ok] by (auto simp: sample_frame_def)

text \<open>The packet hash does not see the way a packet came: two frames of one type and payload
  have one hash whatever their routes, transport codes, versions and hops (a trace's hash also
  covers its path length).\<close>

theorem packetHash_route_free:
  assumes "wire_ok f" "wire_ok g" "wf_type f = wf_type g" "wf_payload f = wf_payload g"
    "wf_type f = PAYLOAD_TYPE_TRACE \<Longrightarrow>
      length (wf_path f) = length (wf_path g) \<and> wf_size f = wf_size g"
  shows "packetHash sha (wire_bytes f) = packetHash sha (wire_bytes g)"
    using packetHash_wire [OF assms(1), of sha] packetHash_wire [OF assms(2), of sha] assms(3-5) by auto

theorem packetHash_route_free_witness:
  "packetHash (\<lambda>bs. bs) (wire_bytes sample_frame) =
   packetHash (\<lambda>bs. bs) (wire_bytes (sample_frame\<lparr>wf_route := 2, wf_path := [[5, 6]]\<rparr>))"
proof (rule packetHash_route_free [OF sample_frame_ok])
  show "wire_ok (sample_frame\<lparr>wf_route := 2, wf_path := [[5, 6]]\<rparr>)"
    by (simp add: wire_ok_def sample_frame_def transport_bytes_def ROUTE_TRANSPORT_FLOOD_def
        ROUTE_TRANSPORT_DIRECT_def MAX_PATH_SIZE_def)
qed (simp_all add: sample_frame_def PAYLOAD_TYPE_TRACE_def)

end
