(* ===== verification/WdTypes.thy ===== *)
theory WdTypes
  imports JsStrings
begin

section \<open>Types the wardrive components share\<close>

text \<open>
  A position fix (wardrive/messages.ts), a sender (wardrive/decode/reception.ts) and a
  directory node (wardrive/names.ts). Times are integers: milliseconds since the epoch on
  the page (an ISO string of the code is the millisecond it renders), seconds from the
  radio. \<^verbatim>\<open>null\<close> and absent fields are \<open>None\<close>.
\<close>

record fix_rec =
  f_lat :: jsnum
  f_lon :: jsnum
  f_accM :: "jsnum option"
  f_at :: int
  f_speedMps :: "jsnum option"
  f_headingDeg :: "jsnum option"

datatype sender_kind = AdvertPubkey | DiscoverPubkey | Relay | PathHash | DirectHash
  | ChannelName | TraceReply | TelemetryReply | AnonReply

record sender =
  s_kind :: "sender_kind option"
  s_id :: "jstr option"
  s_label :: "jstr option"
  s_role :: "jstr option"

definition NO_SENDER :: sender where
  "NO_SENDER = \<lparr>s_kind = None, s_id = None, s_label = None, s_role = None\<rparr>"

record directory_node =
  dn_publicKey :: jstr
  dn_name :: "jstr option"
  dn_role :: "jstr option"
  dn_lat :: "real option"
  dn_lon :: "real option"
  dn_seen :: "int option"

text \<open>\<^verbatim>\<open>s || null\<close> and \<^verbatim>\<open>s ?? ''\<close>.\<close>

definition or_null :: "jstr \<Rightarrow> jstr option" where
  "or_null s = (if s = [] then None else Some s)"

definition or_empty :: "jstr option \<Rightarrow> jstr" where
  "or_empty s = (case s of None \<Rightarrow> [] | Some t \<Rightarrow> t)"

text \<open>\<^verbatim>\<open>Math.round\<close>: ties go up.\<close>

definition js_round :: "real \<Rightarrow> int" where
  "js_round x = \<lfloor>x + 1 / 2\<rfloor>"

lemma js_round_of_int [simp]: "js_round (of_int n) = n"
  unfolding js_round_def by (rule floor_unique) simp_all

lemma js_round_diff: "\<bar>of_int (js_round x) - x\<bar> \<le> 1 / 2"
  unfolding js_round_def abs_le_iff by (auto; linarith)

end
