(* ===== verification/Messages.thy ===== *)
theory Messages
  imports Packet WdTypes
begin

section \<open>The wardrive messages (wardrive/messages.ts)\<close>

text \<open>
  \<open>buildObs\<close> turns one stored reception into the obs message the collectors get, and
  \<open>buildTrack\<close> a listening interval into a track message. Fields left out of the JSON
  are \<open>None\<close>. The packet hash is asynchronous in the code only because the browser's
  digest is.
\<close>

definition ROUTE_FLOOD :: nat where "ROUTE_FLOOD = 1"
definition ROUTE_DIRECT :: nat where "ROUTE_DIRECT = 2"

definition POSITION_SOURCE :: jstr where "POSITION_SOURCE = str ''phone''"

record reception_rec =
  rc_rxAt :: int
  rc_raw :: bytes
  rc_snr :: "jsnum option"
  rc_rssi :: "jsnum option"
  rc_fix :: fix_rec

record track_row =
  tr_t0 :: int
  tr_t1 :: int
  tr_lat :: jsnum
  tr_lon :: jsnum
  tr_accM :: "jsnum option"
  tr_rxCount :: nat
  tr_listening :: bool

datatype route_letter = RouteF | RouteD

record obs_pos =
  op_lat :: jsnum
  op_lon :: jsnum
  op_accuracy :: "jsnum option"
  op_src :: jstr

record obs_message =
  ob_v :: nat
  ob_origin_id :: jstr
  ob_rx_at :: int
  ob_pub_at :: "int option"
  ob_hash :: jstr
  ob_raw :: jstr
  ob_len :: nat
  ob_packet_type :: nat
  ob_route :: "route_letter option"
  ob_payload_len :: nat
  ob_path :: "jstr list"
  ob_RSSI :: "jsnum option"
  ob_SNR :: "jsnum option"
  ob_pos :: obs_pos

record track_message =
  tm_v :: nat
  tm_origin_id :: jstr
  tm_t0 :: int
  tm_t1 :: int
  tm_lat :: jsnum
  tm_lon :: jsnum
  tm_accuracy :: "jsnum option"
  tm_rx_count :: nat
  tm_listening :: bool
  tm_src :: jstr

fun round_dp :: "jsnum \<Rightarrow> nat \<Rightarrow> jsnum" where
  "round_dp (Fin v) dp = Fin (of_int (js_round (v * 10 ^ dp)) / 10 ^ dp)"
| "round_dp v dp = v"

text \<open>\<^verbatim>\<open>if (finite(v)) out.k = f(v)\<close>: present only for a finite number.\<close>

definition finite_only :: "jsnum option \<Rightarrow> jsnum option" where
  "finite_only v = (case v of Some x \<Rightarrow> if isFinite x then Some x else None | None \<Rightarrow> None)"

definition route_of :: "nat \<Rightarrow> route_letter option" where
  "route_of r =
     (if r = ROUTE_FLOOD \<or> r = ROUTE_TRANSPORT_FLOOD then Some RouteF
      else if r = ROUTE_DIRECT \<or> r = ROUTE_TRANSPORT_DIRECT then Some RouteD
      else None)"

definition buildObs ::
  "(bytes \<Rightarrow> bytes) \<Rightarrow> reception_rec \<Rightarrow> jstr \<Rightarrow> int option \<Rightarrow> obs_message option" where
  "buildObs sha rec originId pubAt =
     (let raw = rc_raw rec in
      case frameWalk raw of
        None \<Rightarrow> None
      | Some w \<Rightarrow> Some
          \<lparr>ob_v = 1, ob_origin_id = toUpperCase originId, ob_rx_at = rc_rxAt rec,
           ob_pub_at = pubAt, ob_hash = hashOfWalk sha raw w, ob_raw = bytesToHex raw,
           ob_len = length raw, ob_packet_type = fw_payloadType w,
           ob_route = route_of (fw_routeType w),
           ob_payload_len = length raw - fw_payloadStart w, ob_path = fw_hops w,
           ob_RSSI = finite_only (rc_rssi rec), ob_SNR = finite_only (rc_snr rec),
           ob_pos = \<lparr>op_lat = round_dp (f_lat (rc_fix rec)) 6,
             op_lon = round_dp (f_lon (rc_fix rec)) 6,
             op_accuracy = map_option (\<lambda>a. round_dp a 1) (finite_only (f_accM (rc_fix rec))),
             op_src = POSITION_SOURCE\<rparr>\<rparr>)"

definition buildTrack :: "track_row \<Rightarrow> jstr \<Rightarrow> track_message" where
  "buildTrack row originId =
     \<lparr>tm_v = 1, tm_origin_id = toUpperCase originId, tm_t0 = tr_t0 row, tm_t1 = tr_t1 row,
      tm_lat = round_dp (tr_lat row) 6, tm_lon = round_dp (tr_lon row) 6,
      tm_accuracy = map_option (\<lambda>a. round_dp a 1) (finite_only (tr_accM row)),
      tm_rx_count = tr_rxCount row, tm_listening = tr_listening row, tm_src = POSITION_SOURCE\<rparr>"

lemma round_dp_close:
  "\<exists>r'. round_dp (Fin v) dp = Fin r' \<and> \<bar>r' - v\<bar> \<le> 1 / (2 * 10 ^ dp)"
proof -
  define p where "p = (10 :: real) ^ dp"
  have p: "p > 0" by (simp add: p_def)
  have "\<bar>of_int (js_round (v * p)) / p - v\<bar> = \<bar>of_int (js_round (v * p)) - v * p\<bar> / p"
    using p by (simp add: field_simps abs_div_pos [symmetric] flip: abs_divide)
  also have "\<dots> \<le> (1 / 2) / p"
    using js_round_diff [of "v * p"] p by (intro divide_right_mono) auto
  finally show ?thesis by (simp add: p_def)
qed

lemma isFinite_round_dp [simp]: "isFinite (round_dp x n) = isFinite x"
  by (cases x) auto

lemma buildObs_None: "buildObs sha rec k p = None \<longleftrightarrow> frameWalk (rc_raw rec) = None"
  by (simp add: buildObs_def Let_def split: option.split)

lemma buildObs_lengths:
  assumes "buildObs sha rec k p = Some ob"
  shows "0 < ob_payload_len ob" "ob_payload_len ob < ob_len ob"
    "hexToBytes (ob_raw ob) = rc_raw rec" "ob_route ob \<noteq> None"
proof -
  from assms obtain w where w: "frameWalk (rc_raw rec) = Some w"
    by (cases "frameWalk (rc_raw rec)") (auto simp: buildObs_def Let_def)
  note b = frameWalk_bounds [OF w]
  have ob: "ob_payload_len ob = length (rc_raw rec) - fw_payloadStart w" "ob_len ob = length (rc_raw rec)"
    "ob_raw ob = bytesToHex (rc_raw rec)" "ob_route ob = route_of (fw_routeType w)"
    using assms w by (auto simp: buildObs_def Let_def)
  show "0 < ob_payload_len ob" "ob_payload_len ob < ob_len ob" using b ob by auto
  show "hexToBytes (ob_raw ob) = rc_raw rec" using ob by (simp add: hexToBytes_bytesToHex)
  have "fw_routeType w \<in> {0, 1, 2, 3}" using b(3) by auto
  then show "ob_route ob \<noteq> None"
    unfolding ob by (auto simp: route_of_def ROUTE_FLOOD_def ROUTE_DIRECT_def
        ROUTE_TRANSPORT_FLOOD_def ROUTE_TRANSPORT_DIRECT_def)
qed

text \<open>An observation keeps the frame: its \<open>raw\<close> is the received bytes, its lengths add up, it
  always has a route letter, its hop hashes are hex of one length, and a finite position is
  rounded by at most half a unit of the sixth decimal.\<close>

theorem buildObs_keeps_frame:
  assumes "buildObs sha rec k p = Some ob"
  shows "hexToBytes (ob_raw ob) = rc_raw rec \<and> ob_len ob = length (rc_raw rec)
    \<and> 0 < ob_payload_len ob \<and> ob_payload_len ob < ob_len ob \<and> ob_route ob \<noteq> None
    \<and> packetHash sha (rc_raw rec) = Some (ob_hash ob)
    \<and> (\<forall>la lo. f_lat (rc_fix rec) = Fin la \<and> f_lon (rc_fix rec) = Fin lo \<longrightarrow>
        (\<exists>la' lo'. op_lat (ob_pos ob) = Fin la' \<and> op_lon (ob_pos ob) = Fin lo'
          \<and> \<bar>la' - la\<bar> \<le> 1 / 2000000 \<and> \<bar>lo' - lo\<bar> \<le> 1 / 2000000))"
proof -
  obtain w where w: "frameWalk (rc_raw rec) = Some w"
    and ob: "ob_len ob = length (rc_raw rec)" "ob_hash ob = hashOfWalk sha (rc_raw rec) w"
      "op_lat (ob_pos ob) = round_dp (f_lat (rc_fix rec)) 6"
      "op_lon (ob_pos ob) = round_dp (f_lon (rc_fix rec)) 6"
    using assms by (cases "frameWalk (rc_raw rec)") (auto simp: buildObs_def Let_def)
  have r: "\<exists>r'. round_dp (Fin v) 6 = Fin r' \<and> \<bar>r' - v\<bar> \<le> 1 / 2000000" for v
    using round_dp_close [of v 6] by simp
  then have "\<exists>la' lo'. op_lat (ob_pos ob) = Fin la' \<and> op_lon (ob_pos ob) = Fin lo'
      \<and> \<bar>la' - la\<bar> \<le> 1 / 2000000 \<and> \<bar>lo' - lo\<bar> \<le> 1 / 2000000"
    if "f_lat (rc_fix rec) = Fin la \<and> f_lon (rc_fix rec) = Fin lo" for la lo
    using that unfolding ob by metis
  then show ?thesis
    using buildObs_lengths [OF assms] w ob by (auto simp: packetHash_def)
qed

definition sample_reception :: reception_rec where
  "sample_reception = \<lparr>rc_rxAt = 5, rc_raw = wire_bytes sample_frame, rc_snr = Some (Fin 5),
     rc_rssi = None, rc_fix = \<lparr>f_lat = Fin 52, f_lon = Fin 4, f_accM = None, f_at = 4,
       f_speedMps = None, f_headingDeg = None\<rparr>\<rparr>"

theorem buildObs_keeps_frame_witness:
  "\<exists>ob. buildObs (\<lambda>bs. bs) sample_reception [97] None = Some ob
    \<and> hexToBytes (ob_raw ob) = wire_bytes sample_frame"
proof -
  have "frameWalk (rc_raw sample_reception) \<noteq> None"
    using frameWalk_wire_bytes [OF sample_frame_ok] by (simp add: sample_reception_def)
  then obtain ob where "buildObs (\<lambda>bs. bs) sample_reception [97] None = Some ob"
    using buildObs_None [of "\<lambda>bs. bs" sample_reception "[97]" None] by auto
  with buildObs_keeps_frame [OF this] show ?thesis by (simp add: sample_reception_def)
qed

end
