(* ===== verification/DeliveryQueue.thy ===== *)
theory DeliveryQueue
  imports Prelude
begin

section \<open>The interface between the queue and what drains it\<close>

text \<open>
  A destination reads the oldest rows it is owed (\<open>batch\<close>), sends them, and acknowledges
  the last one it has (\<open>ack\<close>). The locale states the laws the uploader and the forwarders
  rely on; \<open>drain\<close> is the loop both run, here with its bound on the number of batches.
\<close>

fun drain :: "('q \<Rightarrow> 'd \<Rightarrow> 'r list) \<Rightarrow> ('q \<Rightarrow> 'd \<Rightarrow> 'r \<Rightarrow> 'q) \<Rightarrow> nat \<Rightarrow> 'q \<Rightarrow> 'd \<Rightarrow> 'q \<times> 'r list" where
  "drain batch ack 0 q d = (q, [])"
| "drain batch ack (Suc n) q d =
     (case batch q d of
        [] \<Rightarrow> (q, [])
      | r # rs \<Rightarrow> (let (q', sent) = drain batch ack n (ack q d (last (r # rs))) d
                 in (q', (r # rs) @ sent)))"

locale delivery_queue =
  fixes owed :: "'q \<Rightarrow> 'd \<Rightarrow> 'r list"
    and batch :: "'q \<Rightarrow> 'd \<Rightarrow> 'r list"
    and ack :: "'q \<Rightarrow> 'd \<Rightarrow> 'r \<Rightarrow> 'q"
    and inv :: "'q \<Rightarrow> bool"
    and indep :: "'d \<Rightarrow> 'd \<Rightarrow> bool"
  assumes batch_prefix: "inv q \<Longrightarrow> \<exists>n. batch q d = take n (owed q d)"
    and batch_nonempty: "inv q \<Longrightarrow> owed q d \<noteq> [] \<Longrightarrow> batch q d \<noteq> []"
    and ack_owed: "inv q \<Longrightarrow> owed q d = xs @ r # ys \<Longrightarrow> owed (ack q d r) d = ys"
    and ack_other: "inv q \<Longrightarrow> indep d d' \<Longrightarrow> owed (ack q d r) d' = owed q d'"
    and ack_inv: "inv q \<Longrightarrow> inv (ack q d r)"
begin

lemma ack_batch:
  assumes "inv q" "batch q d \<noteq> []"
  shows "owed q d = batch q d @ owed (ack q d (last (batch q d))) d"
proof -
  obtain n where n: "batch q d = take n (owed q d)" using batch_prefix [OF assms(1)] by blast
  define b where "b = batch q d"
  have "owed q d = butlast b @ last b # drop n (owed q d)"
    using n assms(2) by (metis append_butlast_last_id append_eq_Cons_conv append_take_drop_id append.assoc append_Cons append_Nil b_def)
  from ack_owed [OF assms(1) this] have "owed (ack q d (last b)) d = drop n (owed q d)" .
  with n show ?thesis by (simp add: b_def)
qed

lemma drain_inv: "inv q \<Longrightarrow> inv (fst (drain batch ack n q d))"
proof (induction n arbitrary: q)
  case (Suc n)
  then show ?case by (auto simp: case_prod_unfold Let_def ack_inv split: list.split)
qed simp

lemma drain_step:
  assumes "batch q d \<noteq> []"
  shows "drain batch ack (Suc n) q d =
    (fst (drain batch ack n (ack q d (last (batch q d))) d),
     batch q d @ snd (drain batch ack n (ack q d (last (batch q d))) d))"
  using assms by (cases "batch q d") (simp_all add: case_prod_unfold Let_def)

lemma drain_sent:
  "inv q \<Longrightarrow> owed q d = snd (drain batch ack n q d) @ owed (fst (drain batch ack n q d)) d"
proof (induction n arbitrary: q)
  case 0
  then show ?case by simp
next
  case (Suc n)
  show ?case
  proof (cases "batch q d = []")
    case True
    then show ?thesis by simp
  next
    case False
    have "inv (ack q d (last (batch q d)))" using Suc.prems by (rule ack_inv)
    from Suc.IH [OF this] show ?thesis
      using ack_batch [OF Suc.prems False] by (simp only: drain_step [OF False] fst_conv snd_conv append_assoc)
  qed
qed

lemma drain_complete:
  "inv q \<Longrightarrow> length (owed q d) \<le> n \<Longrightarrow>
     snd (drain batch ack n q d) = owed q d \<and> owed (fst (drain batch ack n q d)) d = []"
proof (induction n arbitrary: q)
  case 0
  then show ?case by simp
next
  case (Suc n)
  show ?case
  proof (cases "owed q d = []")
    case True
    with batch_prefix [OF Suc.prems(1), of d] have "batch q d = []" by auto
    with True show ?thesis by simp
  next
    case False
    with Suc.prems have b: "batch q d \<noteq> []" by (simp add: batch_nonempty)
    define q' where "q' = ack q d (last (batch q d))"
    have "inv q'" using Suc.prems(1) by (simp add: q'_def ack_inv)
    moreover have o: "owed q d = batch q d @ owed q' d"
      unfolding q'_def by (rule ack_batch [OF Suc.prems(1) b])
    then have "length (owed q' d) < length (owed q d)" using b by (metis length_append length_greater_0_conv less_add_same_cancel2)
    then have "length (owed q' d) \<le> n" using Suc.prems(2) by simp
    ultimately have ih: "snd (drain batch ack n q' d) = owed q' d \<and> owed (fst (drain batch ack n q' d)) d = []"
      by (rule Suc.IH)
    then show ?thesis using drain_step [OF b, of n] o by (simp add: q'_def del: drain.simps)
  qed
qed

lemma drain_other:
  "inv q \<Longrightarrow> indep d d' \<Longrightarrow> owed (fst (drain batch ack n q d)) d' = owed q d'"
proof (induction n arbitrary: q)
  case (Suc n)
  show ?case
  proof (cases "batch q d = []")
    case True
    then show ?thesis by simp
  next
    case False
    with Suc show ?thesis unfolding drain_step [OF False] fst_conv by (simp add: ack_inv ack_other)
  qed
qed simp

end

end
