(* ===== verification/Queue.thy ===== *)
theory Queue
  imports Messages DeliveryQueue "HOL-Library.Product_Lexorder" "HOL-Library.List_Lexorder"
begin

section \<open>The browser-side queue (wardrive/queue.ts)\<close>

text \<open>
  Two object stores (receptions and tracks) with auto-incremented ids, and the watermarks:
  the last row id a destination acknowledged, per destination and kind. A store is the list
  of its rows in id order; the radio index of the code orders one radio's rows by id, which
  is the store filtered. The key \<^verbatim>\<open>dest:kind\<close> of a watermark is the pair. Each
  operation is one or a few IndexedDB transactions; \<open>ack\<close> is two (it reads, then writes),
  so its two halves are also given on their own.
\<close>

datatype queue_kind = KObs | KTrack

datatype queue_message = QObs obs_message | QTrack track_message

record stored_row =
  sr_id :: nat
  sr_radioKey :: jstr
  sr_message :: queue_message
  sr_addedAt :: int
  sr_driveId :: "jstr option"

record queue =
  q_obs :: "stored_row list"
  q_tracks :: "stored_row list"
  q_nextObs :: nat
  q_nextTrack :: nat
  q_marks :: "jstr \<times> queue_kind \<Rightarrow> nat option"

definition DAY_MS :: int where "DAY_MS = 86400000"

definition openQueue :: queue where
  "openQueue = \<lparr>q_obs = [], q_tracks = [], q_nextObs = 1, q_nextTrack = 1, q_marks = (\<lambda>_. None)\<rparr>"

fun store :: "queue_kind \<Rightarrow> queue \<Rightarrow> stored_row list" where
  "store KObs q = q_obs q"
| "store KTrack q = q_tracks q"

fun next_id :: "queue_kind \<Rightarrow> queue \<Rightarrow> nat" where
  "next_id KObs q = q_nextObs q"
| "next_id KTrack q = q_nextTrack q"

fun set_store :: "queue_kind \<Rightarrow> stored_row list \<Rightarrow> queue \<Rightarrow> queue" where
  "set_store KObs rows q = q\<lparr>q_obs := rows\<rparr>"
| "set_store KTrack rows q = q\<lparr>q_tracks := rows\<rparr>"

fun bump_id :: "queue_kind \<Rightarrow> queue \<Rightarrow> queue" where
  "bump_id KObs q = q\<lparr>q_nextObs := q_nextObs q + 1\<rparr>"
| "bump_id KTrack q = q\<lparr>q_nextTrack := q_nextTrack q + 1\<rparr>"

definition queue_add ::
  "queue_kind \<Rightarrow> jstr \<Rightarrow> queue_message \<Rightarrow> int \<Rightarrow> jstr option \<Rightarrow> queue \<Rightarrow> nat \<times> queue" where
  "queue_add kind radioKey message addedAt driveId q =
     (let rowId = next_id kind q;
          row = \<lparr>sr_id = rowId, sr_radioKey = radioKey, sr_message = message,
                 sr_addedAt = addedAt, sr_driveId = driveId\<rparr>
      in (rowId, bump_id kind (set_store kind (store kind q @ [row]) q)))"

definition addObs :: "jstr \<Rightarrow> obs_message \<Rightarrow> int \<Rightarrow> jstr option \<Rightarrow> queue \<Rightarrow> nat \<times> queue" where
  "addObs radioKey obs addedAt driveId q = queue_add KObs radioKey (QObs obs) addedAt driveId q"

definition addTrack :: "jstr \<Rightarrow> track_message \<Rightarrow> int \<Rightarrow> jstr option \<Rightarrow> queue \<Rightarrow> nat \<times> queue" where
  "addTrack radioKey track addedAt driveId q =
     queue_add KTrack radioKey (QTrack track) addedAt driveId q"

definition mark :: "queue \<Rightarrow> jstr \<Rightarrow> queue_kind \<Rightarrow> nat" where
  "mark q dest kind = (case q_marks q (dest, kind) of None \<Rightarrow> 0 | Some n \<Rightarrow> n)"

text \<open>Rows after a watermark, as a cursor with an open lower bound visits them.\<close>

definition rows_after :: "queue \<Rightarrow> queue_kind \<Rightarrow> nat \<Rightarrow> stored_row list" where
  "rows_after q kind after = filter (\<lambda>r. sr_id r > after) (store kind q)"

fun batch_loop :: "nat \<Rightarrow> stored_row list \<Rightarrow> stored_row list \<Rightarrow> stored_row list" where
  "batch_loop limit rows [] = rows"
| "batch_loop limit rows (value # cursor) =
     (if rows \<noteq> [] \<and> sr_radioKey value \<noteq> sr_radioKey (hd rows) then rows
      else let rows' = rows @ [value] in
        if length rows' \<ge> limit then rows' else batch_loop limit rows' cursor)"

definition batch :: "queue \<Rightarrow> jstr \<Rightarrow> queue_kind \<Rightarrow> nat \<Rightarrow> stored_row list" where
  "batch q dest kind limit = batch_loop limit [] (rows_after q kind (mark q dest kind))"

definition ack :: "queue \<Rightarrow> jstr \<Rightarrow> queue_kind \<Rightarrow> nat \<Rightarrow> queue" where
  "ack q dest kind lastId =
     (if lastId \<le> mark q dest kind then q
      else q\<lparr>q_marks := (q_marks q)((dest, kind) \<mapsto> lastId)\<rparr>)"

text \<open>The second transaction of \<open>ack\<close>, given the watermark its first one read.\<close>

definition ack_write :: "queue \<Rightarrow> jstr \<Rightarrow> queue_kind \<Rightarrow> nat \<Rightarrow> nat \<Rightarrow> queue" where
  "ack_write q dest kind current lastId =
     (if lastId \<le> current then q else q\<lparr>q_marks := (q_marks q)((dest, kind) \<mapsto> lastId)\<rparr>)"

definition pending :: "queue \<Rightarrow> jstr \<Rightarrow> nat \<times> nat" where
  "pending q dest = (length (rows_after q KObs (mark q dest KObs)),
                     length (rows_after q KTrack (mark q dest KTrack)))"

definition radio_rows :: "queue \<Rightarrow> jstr \<Rightarrow> queue_kind \<Rightarrow> jstr \<Rightarrow> stored_row list" where
  "radio_rows q dest kind radioKey =
     filter (\<lambda>r. sr_radioKey r = radioKey) (rows_after q kind (mark q dest kind))"

fun radio_batch_loop :: "nat \<Rightarrow> bool \<Rightarrow> stored_row list \<Rightarrow> stored_row list \<Rightarrow> stored_row list" where
  "radio_batch_loop limit oneDrive rows [] = rows"
| "radio_batch_loop limit oneDrive rows (value # cursor) =
     (if oneDrive \<and> rows \<noteq> [] \<and> sr_driveId value \<noteq> sr_driveId (hd rows) then rows
      else let rows' = rows @ [value] in
        if length rows' \<ge> limit then rows' else radio_batch_loop limit oneDrive rows' cursor)"

definition batchForRadio ::
  "queue \<Rightarrow> jstr \<Rightarrow> queue_kind \<Rightarrow> jstr \<Rightarrow> nat \<Rightarrow> bool \<Rightarrow> stored_row list" where
  "batchForRadio q dest kind radioKey limit oneDrive =
     radio_batch_loop limit oneDrive [] (radio_rows q dest kind radioKey)"

fun obs_loop :: "int \<Rightarrow> nat \<Rightarrow> nat \<Rightarrow> stored_row list \<Rightarrow> stored_row list" where
  "obs_loop untilMs limit taken [] = []"
| "obs_loop untilMs limit taken (value # cursor) =
     (if taken \<ge> limit then []
      else if sr_addedAt value < untilMs then value # obs_loop untilMs limit (taken + 1) cursor
      else obs_loop untilMs limit taken cursor)"

definition obsBefore :: "queue \<Rightarrow> jstr list \<Rightarrow> int \<Rightarrow> nat \<Rightarrow> stored_row list" where
  "obsBefore q radioKeys untilMs limit =
     (let found = concat (map (\<lambda>k. obs_loop untilMs limit 0
            (rev (filter (\<lambda>r. sr_radioKey r = k) (q_obs q)))) radioKeys)
      in take limit (sort_key (\<lambda>r. (- sr_addedAt r, - int (sr_id r))) found))"

definition countForRadio :: "queue \<Rightarrow> jstr \<Rightarrow> queue_kind \<Rightarrow> jstr \<Rightarrow> nat" where
  "countForRadio q dest kind radioKey = length (radio_rows q dest kind radioKey)"

definition lastId :: "queue \<Rightarrow> queue_kind \<Rightarrow> nat" where
  "lastId q kind = (if store kind q = [] then 0 else sr_id (last (store kind q)))"

definition radios :: "queue \<Rightarrow> queue_kind \<Rightarrow> jstr list" where
  "radios q kind = sort (remdups (map sr_radioKey (store kind q)))"

definition acked_by_all :: "queue \<Rightarrow> queue_kind \<Rightarrow> jstr list \<Rightarrow> nat \<Rightarrow> bool" where
  "acked_by_all q kind dests rowId \<longleftrightarrow> dests \<noteq> [] \<and> (\<forall>d \<in> set dests. mark q d kind \<ge> rowId)"

fun prune_walk :: "int \<Rightarrow> (stored_row \<Rightarrow> bool) \<Rightarrow> stored_row list \<Rightarrow> stored_row list" where
  "prune_walk cutoff goes [] = []"
| "prune_walk cutoff goes (value # cursor) =
     (if sr_addedAt value \<ge> cutoff then value # cursor
      else if goes value then prune_walk cutoff goes cursor
      else value # prune_walk cutoff goes cursor)"

definition prune_goes ::
  "queue \<Rightarrow> (jstr \<Rightarrow> jstr list) \<Rightarrow> (jstr \<Rightarrow> bool) \<Rightarrow> queue_kind \<Rightarrow> stored_row \<Rightarrow> bool" where
  "prune_goes q destsFor dropWhenOld kind value \<longleftrightarrow>
     acked_by_all q kind (destsFor (sr_radioKey value)) (sr_id value) \<or> dropWhenOld (sr_radioKey value)"

definition prune ::
  "int \<Rightarrow> (jstr \<Rightarrow> jstr list) \<Rightarrow> int \<Rightarrow> (jstr \<Rightarrow> bool) \<Rightarrow> queue \<Rightarrow> nat \<times> queue" where
  "prune keepDays destsFor nowMs dropWhenOld q =
     (let cutoff = nowMs - keepDays * DAY_MS;
          obs = prune_walk cutoff (prune_goes q destsFor dropWhenOld KObs) (q_obs q);
          tracks = prune_walk cutoff (prune_goes q destsFor dropWhenOld KTrack) (q_tracks q)
      in (length (q_obs q) - length obs + (length (q_tracks q) - length tracks),
          q\<lparr>q_obs := obs, q_tracks := tracks\<rparr>))"


subsection \<open>The store invariant\<close>

text \<open>Ids are positive, strictly increasing along a store, and below the key generator.\<close>

definition store_ok :: "nat \<Rightarrow> stored_row list \<Rightarrow> bool" where
  "store_ok next rows \<longleftrightarrow> 1 \<le> next \<and> sorted_wrt (<) (map sr_id rows) \<and> (\<forall>r \<in> set rows. 1 \<le> sr_id r \<and> sr_id r < next)"

definition queue_inv :: "queue \<Rightarrow> bool" where
  "queue_inv q \<longleftrightarrow> (\<forall>kind. store_ok (next_id kind q) (store kind q))"

lemma store_set_store [queue_simps]: "store k (set_store k' rows q) = (if k = k' then rows else store k q)"
  by (cases k; cases k') simp_all

lemma store_bump [queue_simps]: "store k (bump_id k' q) = store k q"
  by (cases k; cases k') simp_all

lemma next_set_store [queue_simps]: "next_id k (set_store k' rows q) = next_id k q"
  by (cases k; cases k') simp_all

lemma next_bump [queue_simps]: "next_id k (bump_id k' q) = (if k = k' then next_id k q + 1 else next_id k q)"
  by (cases k; cases k') simp_all

lemma marks_set_store [queue_simps]: "q_marks (set_store k rows q) = q_marks q" "q_marks (bump_id k q) = q_marks q"
  by (cases k; simp)+

lemma store_marks [queue_simps]: "store k (q\<lparr>q_marks := m\<rparr>) = store k q" "next_id k (q\<lparr>q_marks := m\<rparr>) = next_id k q"
  by (cases k; simp)+

lemma store_ack [queue_simps]: "store k (ack q d k' n) = store k q" "next_id k (ack q d k' n) = next_id k q"
  by (simp_all add: ack_def queue_simps)

lemma mark_add [queue_simps]: "mark (snd (queue_add k rk m t dr q)) d k' = mark q d k'"
  by (simp add: queue_add_def Let_def mark_def queue_simps)

lemma store_add [queue_simps]: "store k (snd (queue_add k' rk m t dr q)) =
   (if k = k' then store k q @ [\<lparr>sr_id = next_id k q, sr_radioKey = rk, sr_message = m,
      sr_addedAt = t, sr_driveId = dr\<rparr>] else store k q)"
  by (simp add: queue_add_def Let_def queue_simps)

lemma next_add [queue_simps]: "next_id k (snd (queue_add k' rk m t dr q)) =
   (if k = k' then next_id k q + 1 else next_id k q)"
  by (simp add: queue_add_def Let_def queue_simps)

lemma mark_ack: "mark (ack q d k n) d' k' = (if d' = d \<and> k' = k then max (mark q d k) n else mark q d' k')"
  by (auto simp: ack_def mark_def)

lemma mark_prune [queue_simps]: "mark (snd (prune kd df now dw q)) d k = mark q d k"
  by (simp add: prune_def Let_def mark_def)

lemma store_prune [queue_simps]: "store k (snd (prune kd df now dw q)) =
    prune_walk (now - kd * DAY_MS) (prune_goes q df dw k) (store k q)"
  by (cases k) (simp_all add: prune_def Let_def)

lemma next_prune [queue_simps]: "next_id k (snd (prune kd df now dw q)) = next_id k q"
  by (cases k) (simp_all add: prune_def Let_def)

lemma prune_walk_split: "prune_walk c g rows =
    filter (\<lambda>r. \<not> g r) (takeWhile (\<lambda>r. sr_addedAt r < c) rows) @ dropWhile (\<lambda>r. sr_addedAt r < c) rows"
  by (induction rows) auto

lemma set_prune_walk: "set (prune_walk c g rows) \<subseteq> set rows"
  by (induction rows) auto

lemma prune_walk_subseq_sorted:
  "sorted_wrt P (map f rows) \<Longrightarrow> sorted_wrt P (map f (prune_walk c g rows))"
proof (induction rows)
  case (Cons r rows)
  then show ?case using set_prune_walk [of c g rows] by (auto simp: subset_iff)
qed simp

lemma queue_inv_open [intro]: "queue_inv openQueue"
proof -
  have "store_ok (next_id k openQueue) (store k openQueue)" for k
    by (cases k) (simp_all add: openQueue_def store_ok_def)
  then show ?thesis by (simp add: queue_inv_def)
qed

lemma queue_inv_add [intro]: "queue_inv q \<Longrightarrow> queue_inv (snd (queue_add k rk m t dr q))"
  unfolding queue_inv_def store_ok_def
  by (auto simp: queue_simps sorted_wrt_append less_Suc_eq)

lemma queue_inv_ack [intro]: "queue_inv q \<Longrightarrow> queue_inv (ack q d k n)"
  by (simp add: queue_inv_def queue_simps)

lemma queue_inv_prune [intro]: "queue_inv q \<Longrightarrow> queue_inv (snd (prune kd df now dw q))"
  unfolding queue_inv_def store_ok_def
  by (auto simp: queue_simps prune_walk_subseq_sorted dest: set_prune_walk [THEN subsetD])

lemma queue_inv_sorted: "queue_inv q \<Longrightarrow> sorted_wrt (<) (map sr_id (store k q))"
  by (simp add: queue_inv_def store_ok_def)

lemma queue_inv_less: "queue_inv q \<Longrightarrow> r \<in> set (store k q) \<Longrightarrow> sr_id r < next_id k q"
  by (simp add: queue_inv_def store_ok_def)

lemma queue_inv_distinct: "queue_inv q \<Longrightarrow> distinct (map sr_id (store k q))"
  using queue_inv_sorted strict_sorted_iff by blast

subsection \<open>The batches are prefixes of what is owed\<close>

lemma batch_loop_eq:
  "rows \<noteq> [] \<Longrightarrow> length rows < limit \<Longrightarrow> batch_loop limit rows cs =
     rows @ take (limit - length rows) (takeWhile (\<lambda>r. sr_radioKey r = sr_radioKey (hd rows)) cs)"
proof (induction limit rows cs rule: batch_loop.induct)
  case (2 limit rows v cursor)
  show ?case
  proof (cases "length rows + 1 < limit")
    case True
    with 2 show ?thesis by (auto simp: Let_def Suc_diff_Suc take_Cons')
  next
    case False
    with 2 have "limit - length rows = 1" by simp
    with False 2 show ?thesis by (auto simp: Let_def)
  qed
qed simp

lemma batch_eq: "batch q dest kind limit =
    (let rows = rows_after q kind (mark q dest kind)
     in take (max 1 limit) (takeWhile (\<lambda>r. sr_radioKey r = sr_radioKey (hd rows)) rows))"
proof (cases "rows_after q kind (mark q dest kind)")
  case (Cons r rs)
  then show ?thesis
    by (cases "limit \<le> 1") (auto simp: batch_def Let_def batch_loop_eq take_Cons' max_def)
qed (simp add: batch_def)

definition one_drive_rows :: "bool \<Rightarrow> stored_row list \<Rightarrow> stored_row list" where
  "one_drive_rows oneDrive rows =
     (if oneDrive then takeWhile (\<lambda>r. sr_driveId r = sr_driveId (hd rows)) rows else rows)"

lemma radio_batch_loop_eq:
  "rows \<noteq> [] \<Longrightarrow> length rows < limit \<Longrightarrow> radio_batch_loop limit od rows cs =
     rows @ take (limit - length rows)
       (if od then takeWhile (\<lambda>r. sr_driveId r = sr_driveId (hd rows)) cs else cs)"
proof (induction limit od rows cs rule: radio_batch_loop.induct)
  case (2 limit od rows v cursor)
  show ?case
  proof (cases "length rows + 1 < limit")
    case True
    with 2 show ?thesis by (auto simp: Let_def Suc_diff_Suc take_Cons')
  next
    case False
    with 2 have "limit - length rows = 1" by simp
    with False 2 show ?thesis by (auto simp: Let_def)
  qed
qed simp

lemma batchForRadio_eq: "batchForRadio q dest kind rk limit od =
    take (max 1 limit) (one_drive_rows od (radio_rows q dest kind rk))"
proof (cases "radio_rows q dest kind rk")
  case (Cons r rs)
  then show ?thesis
    by (cases "limit \<le> 1") (auto simp: batchForRadio_def one_drive_rows_def radio_batch_loop_eq take_Cons' max_def)
qed (simp add: batchForRadio_def one_drive_rows_def)

lemma one_drive_prefix: "\<exists>n. one_drive_rows od rows = take n rows"
  unfolding one_drive_rows_def by (metis order_refl take_all takeWhile_eq_take)

lemma one_drive_nonempty: "rows \<noteq> [] \<Longrightarrow> one_drive_rows od rows \<noteq> []"
  by (cases rows) (auto simp: one_drive_rows_def)

lemma radio_rows_alt: "radio_rows q d k rk =
    filter (\<lambda>r. sr_id r > mark q d k) (filter (\<lambda>r. sr_radioKey r = rk) (store k q))"
  by (auto simp: radio_rows_def rows_after_def intro: filter_cong)

lemma filter_greater_suffix:
  "sorted_wrt (<) (map f (xs @ r # ys)) \<Longrightarrow> filter (\<lambda>x. (f r :: nat) < f x) (xs @ r # ys) = ys"
  by (auto simp: sorted_wrt_append filter_empty_conv filter_id_conv)

lemma radio_rows_sorted: "queue_inv q \<Longrightarrow> sorted_wrt (<) (map sr_id (radio_rows q d k rk))"
  unfolding radio_rows_alt sorted_wrt_map
  by (intro sorted_wrt_filter) (simp add: queue_inv_sorted flip: sorted_wrt_map)

lemma radio_rows_ack:
  assumes "queue_inv q" "radio_rows q d k rk = xs @ r # ys"
  shows "radio_rows (ack q d k (sr_id r)) d k rk = ys"
proof -
  have "r \<in> set (radio_rows q d k rk)" using assms(2) by simp
  then have "mark q d k < sr_id r" by (simp add: radio_rows_alt)
  then have "radio_rows (ack q d k (sr_id r)) d k rk
      = filter (\<lambda>x. sr_id r < sr_id x) (radio_rows q d k rk)"
    by (auto simp: radio_rows_alt mark_ack queue_simps max_def intro: filter_cong)
  also have "\<dots> = ys"
    using radio_rows_sorted [OF assms(1), of d k rk] filter_greater_suffix [of sr_id xs r ys]
    unfolding assms(2) by blast
  finally show ?thesis .
qed

lemma radio_rows_ack_other:
  "d' \<noteq> d \<or> k' \<noteq> k \<Longrightarrow> radio_rows (ack q d k n) d' k' rk = radio_rows q d' k' rk"
  by (auto simp: radio_rows_alt mark_ack queue_simps)

text \<open>
  A drain of one radio to one destination: \<open>(dest, kind, radio)\<close>. Drains of different
  destinations or kinds do not touch each other.
\<close>

type_synonym drain_key = "jstr \<times> queue_kind \<times> jstr"

definition owed_rows :: "queue \<Rightarrow> drain_key \<Rightarrow> stored_row list" where
  "owed_rows q d = (case d of (dest, kind, rk) \<Rightarrow> radio_rows q dest kind rk)"

definition next_batch :: "nat \<Rightarrow> bool \<Rightarrow> queue \<Rightarrow> drain_key \<Rightarrow> stored_row list" where
  "next_batch limit od q d = (case d of (dest, kind, rk) \<Rightarrow> batchForRadio q dest kind rk limit od)"

definition ack_row :: "queue \<Rightarrow> drain_key \<Rightarrow> stored_row \<Rightarrow> queue" where
  "ack_row q d r = (case d of (dest, kind, rk) \<Rightarrow> ack q dest kind (sr_id r))"

definition other_drain :: "drain_key \<Rightarrow> drain_key \<Rightarrow> bool" where
  "other_drain d d' \<longleftrightarrow> fst d' \<noteq> fst d \<or> fst (snd d') \<noteq> fst (snd d)"

interpretation radio_queue: delivery_queue owed_rows "next_batch limit od" ack_row queue_inv other_drain
proof unfold_locales
  fix q and d :: drain_key
  obtain dest kind rk where d: "d = (dest, kind, rk)" by (cases d) auto
  obtain m where m: "one_drive_rows od (radio_rows q dest kind rk) = take m (radio_rows q dest kind rk)"
    using one_drive_prefix by blast
  have b: "next_batch limit od q d = take (min (max 1 limit) m) (owed_rows q d)"
    by (simp add: d next_batch_def owed_rows_def batchForRadio_eq m)
  then show "\<exists>n. next_batch limit od q d = take n (owed_rows q d)" by blast
  show "owed_rows q d \<noteq> [] \<Longrightarrow> next_batch limit od q d \<noteq> []"
    by (simp add: d next_batch_def owed_rows_def batchForRadio_eq one_drive_nonempty max_def)
  show "owed_rows (ack_row q d r) d' = owed_rows q d'" if "other_drain d d'" for d' r
    using that by (cases d') (auto simp: d owed_rows_def ack_row_def other_drain_def radio_rows_ack_other)
  show "queue_inv (ack_row q d r)" if "queue_inv q" for r
    using that by (auto simp: d ack_row_def)
  show "owed_rows (ack_row q d r) d = ys"
    if "queue_inv q" "owed_rows q d = xs @ r # ys" for xs r ys
    using that radio_rows_ack [of q dest kind rk xs r ys] by (simp add: d owed_rows_def ack_row_def)
qed

subsection \<open>The watermark's two transactions\<close>

text \<open>An acknowledgement alone never moves a watermark back, but \<open>ack\<close> reads and writes in two
  transactions: when two run at once on a watermark at \<open>c\<close>, the one for the smaller row id \<open>a\<close>
  may write last, and then the watermark ends at \<open>a\<close>, behind the \<open>b\<close> acknowledged in between.\<close>

theorem ack_race_moves_back:
  assumes "mark q dest k = c" "c < a" "a < b"
  shows "mark (ack q dest k n) dest k \<ge> c
    \<and> mark (ack_write q dest k c b) dest k = b
    \<and> mark (ack_write (ack_write q dest k c b) dest k c a) dest k = a"
proof -
  have "c \<le> mark (ack q dest k n) dest k" using assms(1) by (simp add: mark_ack)
  then show ?thesis using assms by (simp add: ack_write_def mark_def)
qed

theorem ack_race_moves_back_witness:
  "mark (ack_write (ack_write openQueue [68] KObs 0 9) [68] KObs 0 4) [68] KObs = 4"
  using ack_race_moves_back [of openQueue "[68]" KObs 0 4 9] by (simp add: mark_def openQueue_def)

subsection \<open>Earlier receptions\<close>

lemma obs_loop_eq: "obs_loop untilMs limit taken rows =
    take (limit - taken) (filter (\<lambda>r. sr_addedAt r < untilMs) rows)"
  by (induction untilMs limit taken rows rule: obs_loop.induct) (auto simp: take_Cons')

lemma sort_key_take_newest:
  "sorted_wrt (\<lambda>a b. f a \<le> f b) (take n (sort_key f xs))"
  using sorted_sort_key [of f xs] by (simp add: sorted_map sorted_wrt_take)

text \<open>The page's list of earlier receptions (\<open>obsBefore\<close>) holds at most \<open>limit\<close> rows, each a
  stored reception of one of the radios added before the given time, newest first; and when it
  is shorter than \<open>limit\<close> it is complete.\<close>

theorem obsBefore_newest_first:
  "length (obsBefore q ks untilMs limit) \<le> limit
   \<and> set (obsBefore q ks untilMs limit) \<subseteq> {r \<in> set (q_obs q). sr_radioKey r \<in> set ks \<and> sr_addedAt r < untilMs}
   \<and> sorted_wrt (\<lambda>a b. sr_addedAt a > sr_addedAt b \<or> (sr_addedAt a = sr_addedAt b \<and> sr_id a \<ge> sr_id b))
       (obsBefore q ks untilMs limit)
   \<and> (length (obsBefore q ks untilMs limit) < limit \<longrightarrow>
       {r \<in> set (q_obs q). sr_radioKey r \<in> set ks \<and> sr_addedAt r < untilMs}
         \<subseteq> set (obsBefore q ks untilMs limit))"
proof -
  define mine where "mine = (\<lambda>k. filter (\<lambda>r. sr_addedAt r < untilMs)
      (rev (filter (\<lambda>r. sr_radioKey r = k) (q_obs q))))"
  define found where "found = concat (map (\<lambda>k. take limit (mine k)) ks)"
  define f where "f = (\<lambda>r :: stored_row. (- sr_addedAt r, - int (sr_id r)))"
  have e: "obsBefore q ks untilMs limit = take limit (sort_key f found)"
    by (simp add: obsBefore_def obs_loop_eq found_def mine_def f_def)
  have s: "sorted_wrt (\<lambda>a b. f a \<le> f b) (take limit (sort_key f found))"
    by (rule sort_key_take_newest)
  have sub: "set found \<subseteq> {r \<in> set (q_obs q). sr_radioKey r \<in> set ks \<and> sr_addedAt r < untilMs}"
    by (auto simp: found_def mine_def dest!: in_set_takeD)
  have complete: "{r \<in> set (q_obs q). sr_radioKey r \<in> set ks \<and> sr_addedAt r < untilMs} \<subseteq> set found"
    if "length found < limit"
  proof
    fix r assume r: "r \<in> {r \<in> set (q_obs q). sr_radioKey r \<in> set ks \<and> sr_addedAt r < untilMs}"
    have "length (take limit (mine (sr_radioKey r))) \<le> length found"
      using r member_le_sum_list [of "length (take limit (mine (sr_radioKey r)))"
          "map (\<lambda>k. length (take limit (mine k))) ks"]
      by (simp add: found_def length_concat comp_def)
    with that have "take limit (mine (sr_radioKey r)) = mine (sr_radioKey r)" by simp
    then show "r \<in> set found" using r by (force simp: found_def mine_def)
  qed
  have srt: "sorted_wrt (\<lambda>a b. sr_addedAt a > sr_addedAt b \<or> (sr_addedAt a = sr_addedAt b \<and> sr_id a \<ge> sr_id b))
      (take limit (sort_key f found))"
    by (rule sorted_wrt_mono_rel [OF _ s]) (auto simp: f_def less_eq_prod_def)
  have l: "set found \<subseteq> set (take limit (sort_key f found))"
    if "length (take limit (sort_key f found)) < limit"
    using that by simp
  have in_take: "set (take limit (sort_key f found)) \<subseteq> set found"
    using set_take_subset [of limit "sort_key f found"] by simp
  show ?thesis unfolding e
    using srt in_take sub complete l by auto
qed

definition sample_track :: track_message where
  "sample_track = \<lparr>tm_v = 1, tm_origin_id = [65], tm_t0 = 0, tm_t1 = 10000, tm_lat = Fin 52,
     tm_lon = Fin 4, tm_accuracy = None, tm_rx_count = 3, tm_listening = True,
     tm_src = POSITION_SOURCE\<rparr>"

definition sample_obs_queue :: queue where
  "sample_obs_queue = openQueue\<lparr>q_obs := [\<lparr>sr_id = 1, sr_radioKey = [65], sr_message = QTrack sample_track,
     sr_addedAt = 3, sr_driveId = None\<rparr>]\<rparr>"

theorem obsBefore_newest_first_witness:
  "map sr_id (obsBefore sample_obs_queue [[65]] 5 10) = [1]"
proof -
  have "length (obsBefore sample_obs_queue [[65]] 5 10) < 10 \<Longrightarrow>
      {r \<in> set (q_obs sample_obs_queue). sr_radioKey r \<in> set [[65]] \<and> sr_addedAt r < 5}
        \<subseteq> set (obsBefore sample_obs_queue [[65]] 5 10)"
    using obsBefore_newest_first [of sample_obs_queue "[[65]]" 5 10] by blast
  then show ?thesis by (simp add: sample_obs_queue_def obsBefore_def)
qed

end
