(* ===== verification/QueueRuns.thy ===== *)
theory QueueRuns
  imports Queue
begin

section \<open>Runs of the queue\<close>

text \<open>
  The queue is shared by the drive (adds), the uploader and the forwarders (batches and
  acknowledgements, each of its own destination) and pruning, in any order. The step
  relation interleaves them freely, seen from one destination \<open>D\<close> of one radio \<open>rk\<close>.
  Two history variables record what was ever added and what \<open>D\<close> acknowledged receiving.
\<close>

record queue_run =
  qr_q :: queue
  qr_added :: "queue_kind \<Rightarrow> stored_row list"
  qr_sent :: "queue_kind \<Rightarrow> stored_row list"

definition run_start :: queue_run where
  "run_start = \<lparr>qr_q = openQueue, qr_added = (\<lambda>_. []), qr_sent = (\<lambda>_. [])\<rparr>"

definition run_add :: "queue_kind \<Rightarrow> jstr \<Rightarrow> queue_message \<Rightarrow> int \<Rightarrow> jstr option \<Rightarrow> queue_run \<Rightarrow> queue_run" where
  "run_add k key m t dr s =
     s\<lparr>qr_q := snd (queue_add k key m t dr (qr_q s)),
       qr_added := (qr_added s)(k := qr_added s k @ [\<lparr>sr_id = next_id k (qr_q s),
         sr_radioKey = key, sr_message = m, sr_addedAt = t, sr_driveId = dr\<rparr>])\<rparr>"

definition run_deliver :: "jstr \<Rightarrow> jstr \<Rightarrow> queue_kind \<Rightarrow> nat \<Rightarrow> bool \<Rightarrow> queue_run \<Rightarrow> queue_run" where
  "run_deliver D rk k limit od s =
     (let b = batchForRadio (qr_q s) D k rk limit od
      in s\<lparr>qr_q := ack (qr_q s) D k (sr_id (last b)),
           qr_sent := (qr_sent s)(k := qr_sent s k @ b)\<rparr>)"

inductive queue_step :: "jstr \<Rightarrow> jstr \<Rightarrow> queue_run \<Rightarrow> queue_run \<Rightarrow> bool" for D rk where
  add: "queue_step D rk s (run_add k key m t dr s)"
| deliver: "batchForRadio (qr_q s) D k rk limit od \<noteq> [] \<Longrightarrow>
    queue_step D rk s (run_deliver D rk k limit od s)"
| other_ack: "dest \<noteq> D \<Longrightarrow> queue_step D rk s (s\<lparr>qr_q := ack (qr_q s) dest k n\<rparr>)"
| prune: "D \<in> set (destsFor rk) \<Longrightarrow> \<not> dropWhenOld rk \<Longrightarrow>
    queue_step D rk s (s\<lparr>qr_q := snd (prune keepDays destsFor now dropWhenOld (qr_q s))\<rparr>)"

inductive queue_reachable :: "jstr \<Rightarrow> jstr \<Rightarrow> queue_run \<Rightarrow> bool" for D rk where
  start: "queue_reachable D rk run_start"
| step: "queue_reachable D rk s \<Longrightarrow> queue_step D rk s s' \<Longrightarrow> queue_reachable D rk s'"

inductive_cases queue_stepE: "queue_step D rk s s'"

text \<open>The invariant: delivered rows and rows still owed are together the radio's log.\<close>

definition run_inv :: "jstr \<Rightarrow> jstr \<Rightarrow> queue_run \<Rightarrow> bool" where
  "run_inv D rk s \<longleftrightarrow> queue_inv (qr_q s)
     \<and> (\<forall>k. mark (qr_q s) D k < next_id k (qr_q s))
     \<and> (\<forall>k. qr_sent s k @ radio_rows (qr_q s) D k rk
            = filter (\<lambda>r. sr_radioKey r = rk) (qr_added s k))"

lemma radio_rows_add:
  assumes "mark q D k < next_id k q"
  shows "radio_rows (snd (queue_add k' key m t dr q)) D k rk =
    radio_rows q D k rk @ (if k = k' \<and> key = rk then [\<lparr>sr_id = next_id k q, sr_radioKey = key,
      sr_message = m, sr_addedAt = t, sr_driveId = dr\<rparr>] else [])"
  using assms by (auto simp: radio_rows_alt queue_simps)

lemma prune_walk_filter:
  "(\<And>r. r \<in> set rows \<Longrightarrow> P r \<Longrightarrow> \<not> g r) \<Longrightarrow> filter P (prune_walk c g rows) = filter P rows"
  by (induction rows) auto

lemma radio_rows_prune:
  assumes "D \<in> set (df rk)" "\<not> dw rk"
  shows "radio_rows (snd (prune kd df now dw q)) D k rk = radio_rows q D k rk"
proof -
  have "\<not> prune_goes q df dw k r" if "sr_radioKey r = rk" "mark q D k < sr_id r" for r
    using assms that by (auto simp: prune_goes_def acked_by_all_def dest!: bspec)
  then show ?thesis
    unfolding radio_rows_alt filter_filter queue_simps
    by (intro prune_walk_filter) auto
qed

lemma mark_deliver_less:
  assumes "queue_inv q" "batchForRadio q D k rk l od \<noteq> []"
  shows "sr_id (last (batchForRadio q D k rk l od)) < next_id k q"
proof -
  have "last (batchForRadio q D k rk l od) \<in> set (batchForRadio q D k rk l od)"
    using assms(2) by simp
  moreover have "set (batchForRadio q D k rk l od) \<subseteq> set (store k q)"
    unfolding batchForRadio_eq one_drive_rows_def
    by (auto simp: radio_rows_alt dest!: in_set_takeD set_takeWhileD split: if_splits)
  ultimately show ?thesis using assms(1) queue_inv_less by blast
qed

lemma store_open [simp]: "store k openQueue = []"
  by (cases k) (simp_all add: openQueue_def)

lemma next_open [simp]: "next_id k openQueue = 1"
  by (cases k) (simp_all add: openQueue_def)

lemma mark_open [simp]: "mark openQueue D k = 0"
  by (simp add: mark_def openQueue_def)

lemma run_inv_start: "run_inv D rk run_start"
  by (simp add: run_inv_def run_start_def radio_rows_alt queue_inv_open)

lemma run_inv_add: "run_inv D rk s \<Longrightarrow> run_inv D rk (run_add k key m t dr s)"
  by (auto simp: run_inv_def run_add_def radio_rows_add queue_simps less_SucI)

lemma run_inv_deliver:
  assumes i: "run_inv D rk s" and b: "batchForRadio (qr_q s) D k rk limit od \<noteq> []"
  shows "run_inv D rk (run_deliver D rk k limit od s)"
proof -
  define q where "q = qr_q s"
  define bt where "bt = batchForRadio q D k rk limit od"
  have q: "queue_inv q" using i by (simp add: run_inv_def q_def)
  from b have o: "radio_rows q D k rk = bt @ radio_rows (ack q D k (sr_id (last bt))) D k rk"
    using radio_queue.ack_batch [of q limit od "(D, k, rk)"] q
    by (simp add: bt_def q_def next_batch_def owed_rows_def ack_row_def)
  have less: "sr_id (last bt) < next_id k q"
    using mark_deliver_less [OF q] b by (simp add: bt_def q_def)
  have log: "qr_sent s k @ bt @ radio_rows (ack q D k (sr_id (last bt))) D k rk
      = filter (\<lambda>r. sr_radioKey r = rk) (qr_added s k)"
  proof -
    have "qr_sent s k @ radio_rows q D k rk = filter (\<lambda>r. sr_radioKey r = rk) (qr_added s k)"
      using i by (simp add: run_inv_def q_def)
    then show ?thesis by (simp only: o)
  qed
  show ?thesis
    using i q less log unfolding run_inv_def run_deliver_def Let_def q_def [symmetric] bt_def [symmetric]
    by (auto simp: mark_ack queue_simps radio_rows_ack_other q_def [symmetric])
qed

lemma run_inv_step: "queue_step D rk s s' \<Longrightarrow> run_inv D rk s \<Longrightarrow> run_inv D rk s'"
proof (induction rule: queue_step.induct)
  case (add s k key m t dr)
  then show ?case by (rule run_inv_add)
next
  case (deliver s k limit od)
  then show ?case by (auto intro: run_inv_deliver)
next
  case (other_ack dest s k n)
  then show ?case by (auto simp: run_inv_def mark_ack queue_simps radio_rows_ack_other)
next
  case (prune destsFor dropWhenOld s keepDays now)
  then show ?case by (auto simp: run_inv_def queue_simps radio_rows_prune)
qed

lemma run_inv_reachable: "queue_reachable D rk s \<Longrightarrow> run_inv D rk s"
  by (induction rule: queue_reachable.induct) (auto intro: run_inv_start run_inv_step)

lemma added_sorted:
  "queue_reachable D rk s \<Longrightarrow> sorted_wrt (<) (map sr_id (qr_added s k))
     \<and> (\<forall>r \<in> set (qr_added s k). sr_id r < next_id k (qr_q s))"
proof (induction arbitrary: k rule: queue_reachable.induct)
  case start
  then show ?case by (simp add: run_start_def)
next
  case (step s s')
  from step.hyps(2) step.IH show ?case
    by (cases rule: queue_step.cases)
       (auto simp: run_add_def run_deliver_def queue_simps sorted_wrt_append Let_def less_SucI)
qed

subsection \<open>Every row is delivered once, in order\<close>


definition sample_run :: queue_run where
  "sample_run =
     run_add KTrack [66] (QTrack sample_track) 9 None
       (run_deliver [68] [65] KTrack 1 False
         (run_add KTrack [65] (QTrack sample_track) 8 None
           (run_add KTrack [65] (QTrack sample_track) 7 None run_start)))"

lemma qr_q_run [simp]:
  "qr_q (run_add k key m t dr s) = snd (queue_add k key m t dr (qr_q s))"
  "qr_q run_start = openQueue"
  by (simp_all add: run_add_def run_start_def)

lemma batch_nonempty: "radio_rows q D k rk \<noteq> [] \<Longrightarrow> batchForRadio q D k rk limit od \<noteq> []"
  using one_drive_nonempty [of "radio_rows q D k rk" od] by (simp add: batchForRadio_eq)

lemma sample_batch:
  "batchForRadio (qr_q (run_add KTrack [65] m' 8 None (run_add KTrack [65] m 7 None run_start)))
     [68] KTrack [65] 1 False \<noteq> []"
proof (rule batch_nonempty)
  let ?q = "snd (queue_add KTrack [65] m 7 None openQueue)"
  have "mark ?q [68] KTrack < next_id KTrack ?q" by (simp only: queue_simps mark_open next_open) simp
  then show "radio_rows (qr_q (run_add KTrack [65] m' 8 None (run_add KTrack [65] m 7 None run_start)))
      [68] KTrack [65] \<noteq> []"
    unfolding qr_q_run by (subst radio_rows_add) simp_all
qed

lemma sample_reachable: "queue_reachable [68] [65] sample_run"
  unfolding sample_run_def
  by (rule queue_reachable.step [OF _ queue_step.add], rule queue_reachable.step [OF _ queue_step.deliver],
      rule queue_reachable.step [OF _ queue_step.add], rule queue_reachable.step [OF _ queue_step.add],
      rule queue_reachable.start, rule sample_batch)


subsection \<open>Pruning deletes only what may go\<close>

text \<open>Pruning changes no watermark, and a stored row is deleted only if it is older than
  the keep time and either every destination its radio's rows are owed to acknowledged it (and
  there is such a destination) or its radio is one whose old rows are dropped. The rows that
  stay keep their order.\<close>

theorem prune_deletes_only_settled:
  assumes "r \<in> set (store k q)" "r \<notin> set (store k (snd (prune keepDays destsFor now drops q)))"
  shows "sr_addedAt r < now - keepDays * DAY_MS
    \<and> (drops (sr_radioKey r) \<or> destsFor (sr_radioKey r) \<noteq> []
        \<and> (\<forall>d \<in> set (destsFor (sr_radioKey r)). sr_id r \<le> mark q d k))
    \<and> q_marks (snd (prune keepDays destsFor now drops q)) = q_marks q"
proof -
  define old where "old = (\<lambda>r :: stored_row. sr_addedAt r < now - keepDays * DAY_MS)"
  have "r \<in> set (takeWhile old (store k q)) \<union> set (dropWhile old (store k q))"
    using assms(1) by (metis set_append takeWhile_dropWhile_id)
  then have t: "r \<in> set (takeWhile old (store k q))" and g: "prune_goes q destsFor drops k r"
    using assms(2) by (auto simp: queue_simps prune_walk_split old_def)
  show ?thesis
    using set_takeWhileD [OF t] g by (auto simp: old_def prune_goes_def acked_by_all_def prune_def Let_def)
qed

definition old_row :: stored_row where
  "old_row = \<lparr>sr_id = 1, sr_radioKey = [65], sr_message = QTrack sample_track, sr_addedAt = 7,
     sr_driveId = None\<rparr>"

lemma old_row_queue:
  "store KTrack (snd (queue_add KTrack [65] (QTrack sample_track) 7 None openQueue)) = [old_row]"
  by (simp add: queue_simps old_row_def)

lemma old_row_pruned:
  "store KTrack (snd (prune 7 (\<lambda>_. []) 700000000 (\<lambda>_. True)
      (snd (queue_add KTrack [65] (QTrack sample_track) 7 None openQueue)))) = []"
  by (simp only: queue_simps) (simp add: prune_goes_def DAY_MS_def)

theorem prune_deletes_only_settled_witness:
  "sr_addedAt old_row < 700000000 - 7 * DAY_MS"
  using prune_deletes_only_settled [of old_row KTrack
      "snd (queue_add KTrack [65] (QTrack sample_track) 7 None openQueue)" 7 "\<lambda>_. []" 700000000 "\<lambda>_. True"]
  unfolding old_row_queue old_row_pruned by simp

end
