(* ===== verification/Uploader.thy ===== *)
theory Uploader
  imports QueueRuns
begin

section \<open>The uploader (wardrive/uploader.ts)\<close>

text \<open>
  \<open>tick\<close> drains the queue into RTFM-EV's local copy, one radio of the account at a time.
  The server, the account and what other code does to the queue while a request is under
  way are the world: \<open>w_reply n req\<close> answers the \<open>n\<close>-th request, \<open>w_meanwhile n\<close> is
  applied to the queue while it is awaited, and \<open>w_account n\<close> is what
  \<^verbatim>\<open>accountRadios()\<close> returns after \<open>n\<close> requests. The \<open>u_log\<close> of requests made is
  there for the properties. An exception of the API is \<open>Failed status msg\<close>, with status
  0 for what is not a \<^verbatim>\<open>WardriveApiError\<close>.
\<close>

definition localDest :: "jstr \<Rightarrow> jstr" where
  "localDest radioKey = str ''rtfm@'' @ radioKey"

definition KEEP_DAYS :: int where "KEEP_DAYS = 7"
definition MAX_BATCHES_PER_TICK :: nat where "MAX_BATCHES_PER_TICK = 20"

definition retry_later :: "nat \<Rightarrow> bool" where
  "retry_later status \<longleftrightarrow> status \<in> {404, 408, 429}"

definition PRUNE_EVERY_MS :: int where "PRUNE_EVERY_MS = 3600000"

definition KINDS :: "queue_kind list" where "KINDS = [KObs, KTrack]"

datatype upload_state = Idle | Uploading | Offline | LoggedOut | ErrorState

datatype outcome = Empty | Sent | Stop

datatype api_reply = Accepted | Failed nat jstr

record upload_request =
  ur_radio_key :: jstr
  ur_drive_uid :: "jstr option"
  ur_kind :: queue_kind
  ur_rows :: "stored_row list"

record world =
  w_reply :: "nat \<Rightarrow> upload_request \<Rightarrow> api_reply"
  w_meanwhile :: "nat \<Rightarrow> queue \<Rightarrow> queue"
  w_account :: "nat \<Rightarrow> jstr list option"
  w_destsFor :: "jstr \<Rightarrow> jstr list"
  w_batch :: nat

record uploader =
  u_running :: bool
  u_setAside :: nat
  u_state :: upload_state
  u_lastError :: "jstr option"
  u_lastPruneAt :: "int option"
  u_reached :: "bool option"
  u_refreshes :: nat
  u_log :: "upload_request list"

definition newUploader :: uploader where
  "newUploader = \<lparr>u_running = False, u_setAside = 0, u_state = Idle, u_lastError = None,
     u_lastPruneAt = None, u_reached = None, u_refreshes = 0, u_log = []\<rparr>"

record upload_status =
  us_state :: upload_state
  us_pendingObs :: nat
  us_pendingTracks :: nat
  us_setAside :: nat
  us_otherAccounts :: nat
  us_lastError :: "jstr option"
  us_reached :: "bool option"

text \<open>A \<^verbatim>\<open>Set\<close> filled from a list keeps the order of first insertions.\<close>

definition uniq_first :: "'a list \<Rightarrow> 'a list" where
  "uniq_first xs = rev (remdups (rev xs))"

definition in_queue :: "queue \<Rightarrow> jstr list" where
  "in_queue q = uniq_first (concat (map (radios q) KINDS))"

definition on_account :: "jstr list \<Rightarrow> jstr \<Rightarrow> bool" where
  "on_account account k \<longleftrightarrow> toUpperCase k \<in> set (map toUpperCase account)"

definition split_radios :: "jstr list option \<Rightarrow> queue \<Rightarrow> jstr list option \<times> jstr list" where
  "split_radios account q =
     (case account of
        None \<Rightarrow> (None, in_queue q)
      | Some acc \<Rightarrow> (Some (filter (on_account acc) (in_queue q)),
                     filter (\<lambda>k. \<not> on_account acc k) (in_queue q)))"

definition account_now :: "world \<Rightarrow> uploader \<Rightarrow> jstr list option" where
  "account_now w u = w_account w (length (u_log u))"

definition send_failed ::
  "nat \<Rightarrow> jstr \<Rightarrow> queue_kind \<Rightarrow> jstr \<Rightarrow> stored_row list \<Rightarrow> uploader \<Rightarrow> queue \<Rightarrow> uploader \<times> queue" where
  "send_failed status msg kind dest rows u q =
     (let u = u\<lparr>u_reached := Some (status \<noteq> 0), u_lastError := Some msg\<rparr> in
      if status = 0 then (u\<lparr>u_state := Offline\<rparr>, q)
      else if status = 401 then (u\<lparr>u_state := LoggedOut\<rparr>, q)
      else if status = 403 then (u\<lparr>u_state := ErrorState, u_refreshes := u_refreshes u + 1\<rparr>, q)
      else if status \<ge> 500 \<or> retry_later status then (u\<lparr>u_state := ErrorState\<rparr>, q)
      else (u\<lparr>u_setAside := u_setAside u + length rows, u_state := ErrorState\<rparr>,
            ack q dest kind (sr_id (last rows))))"

definition make_request :: "queue_kind \<Rightarrow> jstr \<Rightarrow> stored_row list \<Rightarrow> upload_request" where
  "make_request kind radioKey rows =
     \<lparr>ur_radio_key = radioKey,
      ur_drive_uid = (case sr_driveId (hd rows) of None \<Rightarrow> None | Some d \<Rightarrow> or_null d),
      ur_kind = kind, ur_rows = rows\<rparr>"

definition sendOne ::
  "world \<Rightarrow> queue_kind \<Rightarrow> jstr \<Rightarrow> uploader \<times> queue \<Rightarrow> outcome \<times> uploader \<times> queue" where
  "sendOne w kind radioKey uq =
     (let (u, q) = uq;
          dest = localDest radioKey;
          rows = batchForRadio q dest kind radioKey (w_batch w) True
      in if rows = [] then (Empty, u, q)
      else
        let req = make_request kind radioKey rows;
            n = length (u_log u);
            u = u\<lparr>u_log := u_log u @ [req]\<rparr>;
            q = w_meanwhile w n q
        in case w_reply w n req of
             Failed status msg \<Rightarrow>
               (let (u, q) = send_failed status msg kind dest rows u q in (Stop, u, q))
           | Accepted \<Rightarrow> (Sent, u\<lparr>u_reached := Some True\<rparr>, ack q dest kind (sr_id (last rows))))"

text \<open>The inner \<^verbatim>\<open>while\<close>: it runs at most \<open>MAX_BATCHES_PER_TICK\<close> times.\<close>

function radio_loop ::
  "world \<Rightarrow> queue_kind \<Rightarrow> jstr \<Rightarrow> nat \<Rightarrow> bool \<Rightarrow> uploader \<times> queue \<Rightarrow> nat \<times> bool \<times> uploader \<times> queue" where
  "radio_loop w kind key batches stopped uq =
     (if stopped \<or> batches \<ge> MAX_BATCHES_PER_TICK then (batches, stopped, uq)
      else case sendOne w kind key uq of
        (Empty, uq') \<Rightarrow> (batches, stopped, uq')
      | (Sent, uq') \<Rightarrow> radio_loop w kind key (batches + 1) stopped uq'
      | (Stop, uq') \<Rightarrow> (batches + 1, True, uq'))"
  by pat_completeness auto
termination
  by (relation "measure (\<lambda>(_, _, _, batches, _, _). MAX_BATCHES_PER_TICK - batches)") auto

declare radio_loop.simps [simp del]

fun kind_loop ::
  "world \<Rightarrow> queue_kind \<Rightarrow> jstr list \<Rightarrow> nat \<Rightarrow> bool \<Rightarrow> uploader \<times> queue \<Rightarrow> bool \<times> uploader \<times> queue" where
  "kind_loop w kind [] batches stopped uq = (stopped, uq)"
| "kind_loop w kind (key # keys) batches stopped uq =
     (let (batches', stopped', uq') = radio_loop w kind key batches stopped uq
      in kind_loop w kind keys batches' stopped' uq')"

fun kinds_loop ::
  "world \<Rightarrow> queue_kind list \<Rightarrow> jstr list \<Rightarrow> bool \<Rightarrow> uploader \<times> queue \<Rightarrow> bool \<times> uploader \<times> queue" where
  "kinds_loop w [] own stopped uq = (stopped, uq)"
| "kinds_loop w (kind # kinds) own stopped uq =
     (let (stopped', uq') = kind_loop w kind own 0 stopped uq
      in if stopped' then (True, uq') else kinds_loop w kinds own stopped' uq')"

definition count_kind :: "queue \<Rightarrow> queue_kind \<Rightarrow> jstr list \<Rightarrow> nat" where
  "count_kind q kind rs = sum_list (map (\<lambda>key. countForRadio q (localDest key) kind key) rs)"

definition count_rows :: "queue \<Rightarrow> jstr list \<Rightarrow> nat" where
  "count_rows q rs = sum_list (map (\<lambda>kind. count_kind q kind rs) KINDS)"

definition all_radios :: "jstr list option \<Rightarrow> queue \<Rightarrow> jstr list" where
  "all_radios account q =
     (let (own, others) = split_radios account q
      in (case own of None \<Rightarrow> [] | Some o' \<Rightarrow> o') @ others)"

definition tick_prune :: "world \<Rightarrow> int \<Rightarrow> bool \<Rightarrow> uploader \<times> queue \<Rightarrow> uploader \<times> queue" where
  "tick_prune w now loggedOut uq =
     (let (u, q) = uq;
          due = (case u_lastPruneAt u of None \<Rightarrow> True | Some t \<Rightarrow> now - t \<ge> PRUNE_EVERY_MS)
      in if \<not> due then (u, q)
      else
        let mine = (if loggedOut then None else account_now w u);
            drop = (\<lambda>key. case mine of None \<Rightarrow> False | Some acc \<Rightarrow> \<not> on_account acc key)
        in (u\<lparr>u_lastPruneAt := Some now\<rparr>, snd (prune KEEP_DAYS (w_destsFor w) now drop q)))"

definition status :: "world \<Rightarrow> uploader \<times> queue \<Rightarrow> upload_status" where
  "status w uq =
     (let (u, q) = uq;
          (own, others) = split_radios (account_now w u) q;
          counted = (case own of None \<Rightarrow> others | Some o' \<Rightarrow> o')
      in \<lparr>us_state = u_state u, us_pendingObs = count_kind q KObs counted,
          us_pendingTracks = count_kind q KTrack counted, us_setAside = u_setAside u,
          us_otherAccounts = (if own = None then 0 else count_kind q KObs others),
          us_lastError = u_lastError u, us_reached = u_reached u\<rparr>)"

definition tick_send :: "world \<Rightarrow> uploader \<times> queue \<Rightarrow> bool \<times> bool \<times> uploader \<times> queue" where
  "tick_send w uq =
     (let (u, q) = uq;
          u = u\<lparr>u_state := Uploading, u_reached := None\<rparr>
      in case fst (split_radios (account_now w u) q) of
           None \<Rightarrow>
             (True, True,
              u\<lparr>u_state := if count_rows q (all_radios (account_now w u) q) > 0
                           then LoggedOut else Idle\<rparr>, q)
         | Some own \<Rightarrow>
             (let (stopped, u, q) = kinds_loop w KINDS own False (u, q)
              in (False, stopped,
                  (if stopped then u else u\<lparr>u_state := Idle, u_lastError := None\<rparr>), q)))"

definition tick :: "world \<Rightarrow> int \<Rightarrow> uploader \<times> queue \<Rightarrow> upload_status \<times> uploader \<times> queue" where
  "tick w now uq =
     (if u_running (fst uq) then (status w uq, uq)
      else
        let (loggedOut, stopped, uq') = tick_send w uq;
            uq'' = tick_prune w now loggedOut uq'
        in (status w uq'', uq''))"


subsection \<open>Accounting: what leaves the queue was settled by the server\<close>

text \<open>
  A reply settles a batch when the server took it or refused it as such. The rows a list of
  requests settled for one radio and kind are \<open>done_rows\<close>; \<open>accounted\<close> says that what
  was owed, with anything added meanwhile, is what was settled followed by what is owed now.
\<close>

fun settles :: "api_reply \<Rightarrow> bool" where
  "settles Accepted = True"
| "settles (Failed s msg) = (\<not> (s = 0 \<or> s = 401 \<or> s = 403 \<or> s \<ge> 500 \<or> retry_later s))"

fun done_rows :: "world \<Rightarrow> nat \<Rightarrow> upload_request list \<Rightarrow> jstr \<Rightarrow> queue_kind \<Rightarrow> stored_row list" where
  "done_rows w n [] key kind = []"
| "done_rows w n (r # rs) key kind =
     (if ur_radio_key r = key \<and> ur_kind r = kind \<and> settles (w_reply w n r) then ur_rows r else [])
     @ done_rows w (Suc n) rs key kind"

definition upload_inv :: "queue \<Rightarrow> bool" where
  "upload_inv q \<longleftrightarrow> queue_inv q \<and> (\<forall>key k. mark q (localDest key) k < next_id k q)"

definition only_adds :: "world \<Rightarrow> bool" where
  "only_adds w \<longleftrightarrow> (\<forall>n q. upload_inv q \<longrightarrow> upload_inv (w_meanwhile w n q) \<and>
     (\<forall>key k. mark (w_meanwhile w n q) (localDest key) k = mark q (localDest key) k) \<and>
     (\<forall>k. \<exists>extra. store k (w_meanwhile w n q) = store k q @ extra))"

definition accounted :: "world \<Rightarrow> uploader \<times> queue \<Rightarrow> uploader \<times> queue \<Rightarrow> bool" where
  "accounted w uq uq' \<longleftrightarrow> (\<exists>new. u_log (fst uq') = u_log (fst uq) @ new \<and>
     (\<forall>key kind. \<exists>extra. radio_rows (snd uq) (localDest key) kind key @ extra =
        done_rows w (length (u_log (fst uq))) new key kind
        @ radio_rows (snd uq') (localDest key) kind key))"

lemma localDest_inject [simp]: "localDest a = localDest b \<longleftrightarrow> a = b"
  by (simp add: localDest_def)

lemma done_rows_append: "done_rows w n (xs @ ys) key kind =
    done_rows w n xs key kind @ done_rows w (n + length xs) ys key kind"
  by (induction xs arbitrary: n) auto

lemma accounted_refl: "fst uq' = fst uq \<or> u_log (fst uq') = u_log (fst uq) \<Longrightarrow>
    snd uq' = snd uq \<Longrightarrow> accounted w uq uq'"
  by (auto simp: accounted_def)

lemma accounted_trans:
  assumes "accounted w a b" "accounted w b c"
  shows "accounted w a c"
proof -
  obtain n1 where n1: "u_log (fst b) = u_log (fst a) @ n1"
    and 1: "\<And>key kind. \<exists>extra. radio_rows (snd a) (localDest key) kind key @ extra =
        done_rows w (length (u_log (fst a))) n1 key kind @ radio_rows (snd b) (localDest key) kind key"
    using assms(1) unfolding accounted_def by blast
  obtain n2 where n2: "u_log (fst c) = u_log (fst b) @ n2"
    and 2: "\<And>key kind. \<exists>extra. radio_rows (snd b) (localDest key) kind key @ extra =
        done_rows w (length (u_log (fst b))) n2 key kind @ radio_rows (snd c) (localDest key) kind key"
    using assms(2) unfolding accounted_def by blast
  have "\<exists>extra. radio_rows (snd a) (localDest key) kind key @ extra =
      done_rows w (length (u_log (fst a))) (n1 @ n2) key kind @ radio_rows (snd c) (localDest key) kind key"
    for key kind
  proof -
    obtain e1 e2 where "radio_rows (snd a) (localDest key) kind key @ e1 =
        done_rows w (length (u_log (fst a))) n1 key kind @ radio_rows (snd b) (localDest key) kind key"
      and e2: "radio_rows (snd b) (localDest key) kind key @ e2 =
        done_rows w (length (u_log (fst b))) n2 key kind @ radio_rows (snd c) (localDest key) kind key"
      using 1 2 by metis
    then have "(radio_rows (snd a) (localDest key) kind key @ e1) @ e2 =
        done_rows w (length (u_log (fst a))) n1 key kind @ (radio_rows (snd b) (localDest key) kind key @ e2)"
      by simp
    then show ?thesis unfolding e2 by (auto simp: done_rows_append n1)
  qed
  then show ?thesis using n1 n2 by (auto simp: accounted_def)
qed

lemma only_adds_rows:
  assumes "only_adds w" "upload_inv q"
  shows "\<exists>extra. radio_rows (w_meanwhile w n q) (localDest key) k key
    = radio_rows q (localDest key) k key @ extra"
proof -
  have "\<exists>extra. store k (w_meanwhile w n q) = store k q @ extra"
    using assms unfolding only_adds_def by blast
  then obtain extra where "store k (w_meanwhile w n q) = store k q @ extra" by blast
  moreover have "mark (w_meanwhile w n q) (localDest key) k = mark q (localDest key) k"
    using assms by (auto simp: only_adds_def)
  ultimately show ?thesis by (auto simp: radio_rows_alt)
qed

lemma batch_split:
  assumes "queue_inv q" "batchForRadio q D k key limit od \<noteq> []"
    and "radio_rows q' D k key = radio_rows q D k key @ extra" "queue_inv q'"
  shows "radio_rows q' D k key = batchForRadio q D k key limit od
    @ radio_rows (ack q' D k (sr_id (last (batchForRadio q D k key limit od)))) D k key"
proof -
  define b where "b = batchForRadio q D k key limit od"
  obtain n where bn: "b = take n (radio_rows q D k key)"
    using radio_queue.batch_prefix [of q limit od "(D, k, key)"] assms(1)
    by (auto simp: b_def next_batch_def owed_rows_def)
  then have "radio_rows q' D k key = butlast b @ last b # drop n (radio_rows q D k key) @ extra"
    using assms(2,3) by (metis append.assoc append_Cons append_Nil append_butlast_last_id append_take_drop_id b_def)
  then have "radio_rows (ack q' D k (sr_id (last b))) D k key = drop n (radio_rows q D k key) @ extra"
    by (rule radio_rows_ack [OF assms(4)])
  then show ?thesis
    using assms(3) bn append_take_drop_id [of n "radio_rows q D k key"] by (simp add: b_def)
qed

lemma upload_inv_ack:
  assumes "upload_inv q" "n < next_id k q"
  shows "upload_inv (ack q D k n)"
  using assms by (auto simp: upload_inv_def mark_ack queue_simps queue_inv_ack)

lemma batch_ids:
  assumes "queue_inv q" "r \<in> set (batchForRadio q D k rk l od)"
  shows "sr_id r < next_id k q" "sr_radioKey r = rk"
proof -
  have "r \<in> set (radio_rows q D k rk)"
    using assms(2) unfolding batchForRadio_eq one_drive_rows_def
    by (auto dest!: in_set_takeD set_takeWhileD split: if_splits)
  then show "sr_id r < next_id k q" "sr_radioKey r = rk"
    using queue_inv_less [OF assms(1)] by (auto simp: radio_rows_alt)
qed

lemma send_failed_log: "u_log (fst (send_failed st msg k d rows u q)) = u_log u"
  by (simp add: send_failed_def Let_def)

lemma send_failed_queue: "snd (send_failed st msg k d rows u q) =
    (if settles (Failed st msg) then ack q d k (sr_id (last rows)) else q)"
  by (auto simp: send_failed_def Let_def)

text \<open>One request: the log grows by it, and the queue moves exactly when it was settled.\<close>

lemma sendOne_cases:
  fixes u :: uploader
  assumes "batchForRadio q (localDest key) k key (w_batch w) True = rows" "rows \<noteq> []"
  defines "req \<equiv> make_request k key rows" and "n \<equiv> length (u_log u)"
  shows "u_log (fst (snd (sendOne w k key (u, q)))) = u_log u @ [req]"
    and "snd (snd (sendOne w k key (u, q))) =
      (if settles (w_reply w n req) then ack (w_meanwhile w n q) (localDest key) k (sr_id (last rows))
       else w_meanwhile w n q)"
    and "fst (sendOne w k key (u, q)) = (if w_reply w n req = Accepted then Sent else Stop)"
  using assms
  by (auto simp: sendOne_def Let_def case_prod_unfold send_failed_log send_failed_queue
      split: api_reply.splits)

lemma sendOne_empty:
  "batchForRadio q (localDest key) k key (w_batch w) True = [] \<Longrightarrow> sendOne w k key (u, q) = (Empty, u, q)"
  by (simp add: sendOne_def)

lemma sendOne_accounted:
  assumes w: "only_adds w" and q: "upload_inv q"
  shows "accounted w (u, q) (snd (sendOne w k key (u, q))) \<and> upload_inv (snd (snd (sendOne w k key (u, q))))"
proof (cases "batchForRadio q (localDest key) k key (w_batch w) True = []")
  case True
  with q show ?thesis by (simp add: sendOne_empty accounted_refl)
next
  case False
  define rows where "rows = batchForRadio q (localDest key) k key (w_batch w) True"
  define n where "n = length (u_log u)"
  define q1 where "q1 = w_meanwhile w n q"
  define req where "req = make_request k key rows"
  note c = sendOne_cases [OF rows_def [symmetric] False [folded rows_def], of u, folded n_def req_def, folded q1_def]
  have q1: "upload_inv q1" and qi: "queue_inv q" "queue_inv q1"
  proof -
    show "upload_inv q1" using w q unfolding only_adds_def q1_def by blast
    with q show "queue_inv q" "queue_inv q1" by (simp_all add: upload_inv_def)
  qed
  obtain extra where extra: "radio_rows q1 (localDest key) k key = radio_rows q (localDest key) k key @ extra"
    using only_adds_rows [OF w q] unfolding q1_def by blast
  have split: "radio_rows q1 (localDest key) k key
      = rows @ radio_rows (ack q1 (localDest key) k (sr_id (last rows))) (localDest key) k key"
    using batch_split [OF qi(1) False extra qi(2)] by (simp add: rows_def)
  then have "last rows \<in> set (radio_rows q1 (localDest key) k key)"
    using False by (simp add: rows_def)
  then have less: "sr_id (last rows) < next_id k q1"
    using queue_inv_less [OF qi(2)] by (auto simp: radio_rows_alt)
  have "\<exists>extra. radio_rows q (localDest key') k' key' @ extra =
      done_rows w n [req] key' k' @ radio_rows (snd (snd (sendOne w k key (u, q)))) (localDest key') k' key'"
    for key' k'
  proof -
    obtain e where e: "radio_rows q1 (localDest key') k' key' = radio_rows q (localDest key') k' key' @ e"
      using only_adds_rows [OF w q] unfolding q1_def by blast
    show ?thesis
    proof (cases "settles (w_reply w n req) \<and> key' = key \<and> k' = k")
      case True
      then show ?thesis using e split by (auto simp: c(2) req_def make_request_def)
    next
      case False
      then have "radio_rows (snd (snd (sendOne w k key (u, q)))) (localDest key') k' key'
          = radio_rows q1 (localDest key') k' key'"
        by (auto simp: c(2) radio_rows_ack_other)
      moreover have "done_rows w n [req] key' k' = []"
        using False by (auto simp: req_def make_request_def)
      ultimately show ?thesis using e by auto
    qed
  qed
  then show ?thesis
    using q1 less by (auto simp: accounted_def c(1,2) n_def upload_inv_ack)
qed

lemma radio_loop_accounted:
  "only_adds w \<Longrightarrow> upload_inv (snd uq) \<Longrightarrow>
     accounted w uq (snd (snd (radio_loop w k key b st uq)))
     \<and> upload_inv (snd (snd (snd (radio_loop w k key b st uq))))"
proof (induction w k key b st uq rule: radio_loop.induct)
  case (1 w k key b st uq)
  obtain u q where uq: "uq = (u, q)" by (cases uq) auto
  obtain oc uq' where s: "sendOne w k key uq = (oc, uq')" by (cases "sendOne w k key uq") auto
  have one: "accounted w uq uq' \<and> upload_inv (snd uq')"
    using sendOne_accounted [OF 1(2), of q u k key] 1(3) s uq by simp
  show ?case
  proof (cases "st \<or> b \<ge> MAX_BATCHES_PER_TICK")
    case True
    then show ?thesis using 1(3) by (auto simp: radio_loop.simps [of w k key b st uq] accounted_refl)
  next
    case False
    show ?thesis
    proof (cases oc)
      case Sent
      then have "accounted w uq' (snd (snd (radio_loop w k key (b + 1) st uq')))
          \<and> upload_inv (snd (snd (snd (radio_loop w k key (b + 1) st uq'))))"
        using 1(1) [OF False s [symmetric]] 1(2) one by simp
      moreover have "radio_loop w k key b st uq = radio_loop w k key (b + 1) st uq'"
        using False s Sent by (subst radio_loop.simps) simp
      ultimately show ?thesis using one by (auto intro: accounted_trans)
    next
      case Empty
      then have "radio_loop w k key b st uq = (b, st, uq')"
        using False s by (subst radio_loop.simps) simp
      with one show ?thesis by simp
    next
      case Stop
      then have "radio_loop w k key b st uq = (b + 1, True, uq')"
        using False s by (subst radio_loop.simps) simp
      with one show ?thesis by simp
    qed
  qed
qed

lemma kind_loop_accounted:
  "only_adds w \<Longrightarrow> upload_inv (snd uq) \<Longrightarrow>
     accounted w uq (snd (kind_loop w k keys b st uq)) \<and> upload_inv (snd (snd (kind_loop w k keys b st uq)))"
proof (induction keys arbitrary: b st uq)
  case Nil
  then show ?case by (simp add: accounted_refl)
next
  case (Cons key keys)
  obtain b' st' uq' where r: "radio_loop w k key b st uq = (b', st', uq')"
    by (cases "radio_loop w k key b st uq") auto
  with radio_loop_accounted [OF Cons.prems, of k key b st]
  have "accounted w uq uq'" "upload_inv (snd uq')" by simp_all
  with Cons.IH [OF Cons.prems(1), of uq' b' st'] show ?case
    by (auto simp: r intro: accounted_trans)
qed

lemma kinds_loop_accounted:
  "only_adds w \<Longrightarrow> upload_inv (snd uq) \<Longrightarrow>
     accounted w uq (snd (kinds_loop w ks own st uq)) \<and> upload_inv (snd (snd (kinds_loop w ks own st uq)))"
proof (induction ks arbitrary: st uq)
  case Nil
  then show ?case by (simp add: accounted_refl)
next
  case (Cons k ks)
  obtain st' uq' where r: "kind_loop w k own 0 st uq = (st', uq')"
    by (cases "kind_loop w k own 0 st uq") auto
  with kind_loop_accounted [OF Cons.prems, of k own 0 st]
  have "accounted w uq uq'" "upload_inv (snd uq')" by simp_all
  with Cons.IH [OF Cons.prems(1), of uq' st'] show ?case
    by (auto simp: r intro: accounted_trans)
qed

lemma tick_send_accounted:
  assumes "only_adds w" "upload_inv q"
  shows "accounted w (u, q) (snd (snd (tick_send w (u, q))))
    \<and> upload_inv (snd (snd (snd (tick_send w (u, q)))))"
proof (cases "fst (split_radios (account_now w (u\<lparr>u_state := Uploading, u_reached := None\<rparr>)) q)")
  case None
  then show ?thesis using assms(2) by (simp add: tick_send_def Let_def accounted_refl)
next
  case (Some own)
  let ?u = "u\<lparr>u_state := Uploading, u_reached := None\<rparr>"
  obtain st u' q' where r: "kinds_loop w KINDS own False (?u, q) = (st, u', q')"
    by (cases "kinds_loop w KINDS own False (?u, q)") auto
  have "accounted w (?u, q) (u', q') \<and> upload_inv q'"
    using kinds_loop_accounted [OF assms(1), of "(?u, q)" KINDS own False] assms(2) by (simp add: r)
  moreover have "accounted w (u, q) (?u, q)" by (rule accounted_refl) simp_all
  moreover have "accounted w (u', q') (u'\<lparr>u_state := Idle, u_lastError := None\<rparr>, q')"
    by (rule accounted_refl) simp_all
  ultimately show ?thesis
    by (auto simp: tick_send_def Let_def Some r intro: accounted_trans)
qed


subsection \<open>What a tick asks of the server\<close>

definition good_request :: "world \<Rightarrow> jstr \<Rightarrow> queue_kind \<Rightarrow> upload_request \<Rightarrow> bool" where
  "good_request w key kind r \<longleftrightarrow> ur_radio_key r = key \<and> ur_kind r = kind \<and> ur_rows r \<noteq> []
     \<and> length (ur_rows r) \<le> max 1 (w_batch w)
     \<and> (\<forall>row \<in> set (ur_rows r). sr_radioKey row = key \<and> sr_driveId row = sr_driveId (hd (ur_rows r)))"

lemma batch_one_drive:
  assumes "r \<in> set (batchForRadio q D k rk l True)"
  shows "sr_driveId r = sr_driveId (hd (batchForRadio q D k rk l True))" "sr_radioKey r = rk"
proof -
  define rows where "rows = radio_rows q D k rk"
  have b: "batchForRadio q D k rk l True = take (max 1 l) (takeWhile (\<lambda>r. sr_driveId r = sr_driveId (hd rows)) rows)"
    by (simp add: batchForRadio_eq one_drive_rows_def rows_def)
  with assms have "r \<in> set (takeWhile (\<lambda>r. sr_driveId r = sr_driveId (hd rows)) rows)"
    by (auto dest: in_set_takeD)
  then have "sr_driveId r = sr_driveId (hd rows)" "r \<in> set rows" by (auto dest: set_takeWhileD)
  moreover from \<open>r \<in> set rows\<close> b have "hd (batchForRadio q D k rk l True) = hd rows"
    by (cases rows) (auto simp: max_def take_Cons')
  ultimately show "sr_driveId r = sr_driveId (hd (batchForRadio q D k rk l True))" "sr_radioKey r = rk"
    by (auto simp: rows_def radio_rows_alt)
qed

lemma good_make_request:
  assumes "rows = batchForRadio q D k key (w_batch w) True" "rows \<noteq> []"
  shows "good_request w key k (make_request k key rows)"
  using assms batch_one_drive [of _ q D k key "w_batch w"]
  by (auto simp: good_request_def make_request_def batchForRadio_eq)

lemma radio_loop_requests:
  "\<exists>new. u_log (fst (snd (snd (radio_loop w k key b st uq)))) = u_log (fst uq) @ new
     \<and> fst (radio_loop w k key b st uq) = b + length new
     \<and> (new = [] \<or> b + length new \<le> MAX_BATCHES_PER_TICK) \<and> (\<forall>r \<in> set new. good_request w key k r)"
proof (induction w k key b st uq rule: radio_loop.induct)
  case (1 w k key b st uq)
  obtain u q where uq: "uq = (u, q)" by (cases uq) auto
  obtain oc uq' where s: "sendOne w k key uq = (oc, uq')" by (cases "sendOne w k key uq") auto
  define rows where "rows = batchForRadio q (localDest key) k key (w_batch w) True"
  show ?case
  proof (cases "st \<or> b \<ge> MAX_BATCHES_PER_TICK \<or> rows = []")
    case True
    then have "radio_loop w k key b st uq = (b, st, uq)"
      using sendOne_empty [of q key k w u] uq by (subst radio_loop.simps) (auto simp: rows_def)
    then show ?thesis by simp
  next
    case False
    then have go: "\<not> (st \<or> b \<ge> MAX_BATCHES_PER_TICK)" and ne: "rows \<noteq> []" by auto
    note c = sendOne_cases [OF rows_def [symmetric] ne, of u]
    have log: "u_log (fst uq') = u_log (fst uq) @ [make_request k key rows]" using c(1) s uq by simp
    have good: "good_request w key k (make_request k key rows)"
      using good_make_request [OF rows_def ne] .
    show ?thesis
    proof (cases oc)
      case Sent
      have r: "radio_loop w k key b st uq = radio_loop w k key (b + 1) st uq'"
        using go s Sent by (subst radio_loop.simps) simp
      show ?thesis using 1(1) [OF go s [symmetric] Sent] log good go unfolding r by auto
    next
      case Empty
      then show ?thesis using c(3) s uq by (auto split: if_splits)
    next
      case Stop
      have r: "radio_loop w k key b st uq = (b + 1, True, uq')"
        using go s Stop by (subst radio_loop.simps) simp
      show ?thesis using log good go unfolding r by auto
    qed
  qed
qed

lemma kind_loop_requests:
  "b \<le> MAX_BATCHES_PER_TICK \<Longrightarrow>
   \<exists>new. u_log (fst (snd (kind_loop w k keys b st uq))) = u_log (fst uq) @ new
     \<and> b + length new \<le> MAX_BATCHES_PER_TICK \<and> (\<forall>r \<in> set new. \<exists>key \<in> set keys. good_request w key k r)"
proof (induction keys arbitrary: b st uq)
  case Nil
  then show ?case by simp
next
  case (Cons key keys)
  obtain b' st' uq' where r: "radio_loop w k key b st uq = (b', st', uq')"
    by (cases "radio_loop w k key b st uq") auto
  from radio_loop_requests [of w k key b st uq] Cons.prems obtain n1
    where n1: "u_log (fst uq') = u_log (fst uq) @ n1" "b' = b + length n1" "b' \<le> MAX_BATCHES_PER_TICK"
      "\<forall>r \<in> set n1. good_request w key k r"
    by (auto simp: r)
  from Cons.IH [OF n1(3), of st' uq'] obtain n2
    where "u_log (fst (snd (kind_loop w k keys b' st' uq'))) = u_log (fst uq') @ n2"
      "b' + length n2 \<le> MAX_BATCHES_PER_TICK" "\<forall>r \<in> set n2. \<exists>key \<in> set keys. good_request w key k r"
    by blast
  with n1 show ?case by (intro exI [of _ "n1 @ n2"]) (auto simp: r)
qed

lemma kinds_loop_requests:
  "\<exists>new. u_log (fst (snd (kinds_loop w ks own st uq))) = u_log (fst uq) @ new
     \<and> length new \<le> length ks * MAX_BATCHES_PER_TICK
     \<and> (\<forall>r \<in> set new. \<exists>key \<in> set own. \<exists>k \<in> set ks. good_request w key k r)"
proof (induction ks arbitrary: st uq)
  case Nil
  then show ?case by simp
next
  case (Cons k ks)
  obtain st' uq' where r: "kind_loop w k own 0 st uq = (st', uq')"
    by (cases "kind_loop w k own 0 st uq") auto
  from kind_loop_requests [of 0 w k own st uq] obtain n1
    where n1: "u_log (fst uq') = u_log (fst uq) @ n1" "length n1 \<le> MAX_BATCHES_PER_TICK"
      "\<forall>r \<in> set n1. \<exists>key \<in> set own. good_request w key k r"
    by (auto simp: r)
  from Cons.IH [of st' uq'] obtain n2
    where "u_log (fst (snd (kinds_loop w ks own st' uq'))) = u_log (fst uq') @ n2"
      "length n2 \<le> length ks * MAX_BATCHES_PER_TICK"
      "\<forall>r \<in> set n2. \<exists>key \<in> set own. \<exists>k \<in> set ks. good_request w key k r"
    by blast
  note n2 = this
  from n1 n2 have "u_log (fst (snd (kinds_loop w ks own st' uq'))) = u_log (fst uq) @ n1 @ n2"
    "length (n1 @ n2) \<le> length (k # ks) * MAX_BATCHES_PER_TICK"
    by auto
  moreover have "\<forall>r \<in> set (n1 @ n2). \<exists>key \<in> set own. \<exists>k' \<in> set (k # ks). good_request w key k' r"
    using n1(3) n2(3) unfolding set_append by (metis Un_iff list.set_intros)
  moreover have "length n1 \<le> length (k # ks) * MAX_BATCHES_PER_TICK"
    "\<forall>r \<in> set n1. \<exists>key \<in> set own. \<exists>k' \<in> set (k # ks). good_request w key k' r"
    using n1 by auto
  ultimately show ?case
    using n1(1) by (cases st') (auto simp: r)
qed

lemma tick_send_requests:
  "\<exists>new. u_log (fst (snd (snd (tick_send w (u, q))))) = u_log u @ new
     \<and> length new \<le> 2 * MAX_BATCHES_PER_TICK
     \<and> (\<forall>r \<in> set new. \<exists>acc key k. account_now w u = Some acc \<and> on_account acc key \<and> good_request w key k r)"
proof (cases "account_now w u")
  case None
  then show ?thesis by (simp add: tick_send_def account_now_def split_radios_def Let_def)
next
  case (Some acc)
  let ?u = "u\<lparr>u_state := Uploading, u_reached := None\<rparr>"
  define own where "own = filter (on_account acc) (in_queue q)"
  have s: "fst (split_radios (account_now w ?u) q) = Some own"
    using Some by (simp add: split_radios_def account_now_def own_def)
  obtain st u' q' where r: "kinds_loop w KINDS own False (?u, q) = (st, u', q')"
    by (cases "kinds_loop w KINDS own False (?u, q)") auto
  have two: "length KINDS = 2" by (simp add: KINDS_def)
  from kinds_loop_requests [of w KINDS own False "(?u, q)"] obtain new
    where new: "u_log u' = u_log u @ new" "length new \<le> 2 * MAX_BATCHES_PER_TICK"
      "\<forall>r \<in> set new. \<exists>key \<in> set own. \<exists>k \<in> set KINDS. good_request w key k r"
    unfolding r two by auto
  from new(3) have "\<forall>r \<in> set new. \<exists>acc key k. account_now w u = Some acc \<and> on_account acc key
      \<and> good_request w key k r"
    using Some by (fastforce simp: own_def)
  with new show ?thesis by (intro exI [of _ new]) (simp add: tick_send_def Let_def s r)
qed

subsection \<open>A server that takes everything\<close>

definition accepting :: "world \<Rightarrow> bool" where
  "accepting w \<longleftrightarrow> (\<forall>n r. w_reply w n r = Accepted) \<and> (\<forall>n q. w_meanwhile w n q = q)"

abbreviation owed :: "queue \<Rightarrow> queue_kind \<Rightarrow> jstr \<Rightarrow> stored_row list" where
  "owed q k key \<equiv> radio_rows q (localDest key) k key"

lemma sendOne_accepting:
  fixes u :: uploader
  assumes w: "accepting w" and q: "queue_inv q" and ne: "owed q k key \<noteq> []"
  defines "q' \<equiv> snd (snd (sendOne w k key (u, q)))"
  shows "fst (sendOne w k key (u, q)) = Sent" "queue_inv q'"
    "length (owed q' k key) < length (owed q k key)"
    "\<And>k' key'. (k', key') \<noteq> (k, key) \<Longrightarrow> owed q' k' key' = owed q k' key'"
proof -
  define rows where "rows = batchForRadio q (localDest key) k key (w_batch w) True"
  have rne: "rows \<noteq> []"
    using radio_queue.batch_nonempty [OF q, of "(localDest key, k, key)" "w_batch w" True] ne
    by (simp add: rows_def owed_rows_def next_batch_def)
  note c = sendOne_cases [OF rows_def [symmetric] rne, of u]
  have q'_eq: "q' = ack q (localDest key) k (sr_id (last rows))"
    unfolding q'_def using c(2) w by (simp add: accepting_def)
  show "fst (sendOne w k key (u, q)) = Sent" using c(3) w by (simp add: accepting_def)
  show "queue_inv q'" using q by (simp add: q'_eq queue_inv_ack)
  have "owed q k key = rows @ owed q' k key"
    using batch_split [OF q rne [unfolded rows_def] _ q, of "[]"] by (simp add: q'_eq rows_def)
  then show "length (owed q' k key) < length (owed q k key)"
    using rne by (metis length_append length_greater_0_conv less_add_same_cancel2)
  show "owed q' k' key' = owed q k' key'" if "(k', key') \<noteq> (k, key)" for k' key'
    using that by (auto simp: q'_eq radio_rows_ack_other)
qed

lemma radio_loop_drains:
  "accepting w \<Longrightarrow> queue_inv (snd uq) \<Longrightarrow> \<not> st \<Longrightarrow>
   b + length (owed (snd uq) k key) \<le> MAX_BATCHES_PER_TICK \<Longrightarrow>
   radio_loop w k key b st uq = (b', st', uq') \<Longrightarrow>
   \<not> st' \<and> queue_inv (snd uq') \<and> owed (snd uq') k key = []
     \<and> b' \<le> b + length (owed (snd uq) k key)
     \<and> (\<forall>k' key'. (k', key') \<noteq> (k, key) \<longrightarrow> owed (snd uq') k' key' = owed (snd uq) k' key')"
proof (induction w k key b st uq rule: radio_loop.induct)
  case (1 w k key b st uq)
  obtain u q where uq: "uq = (u, q)" by (cases uq) auto
  show ?case
  proof (cases "owed q k key = []")
    case True
    then have "batchForRadio q (localDest key) k key (w_batch w) True = []"
      by (simp add: batchForRadio_eq one_drive_rows_def)
    then have "radio_loop w k key b st uq = (b, st, uq)"
      using sendOne_empty [of q key k w u] uq by (subst radio_loop.simps) auto
    with True 1(2-) uq show ?thesis by auto
  next
    case False
    obtain uq1 where s: "sendOne w k key uq = (Sent, uq1)"
      using sendOne_accepting(1) [OF 1(2) _ False] 1(3) uq by (metis snd_conv prod.collapse)
    have qi: "queue_inv q" using 1(3) uq by simp
    note a = sendOne_accepting(2-4) [OF 1(2) qi False, where u = u]
    have a': "queue_inv (snd uq1)" "length (owed (snd uq1) k key) < length (owed q k key)"
      "\<And>k' key'. (k', key') \<noteq> (k, key) \<Longrightarrow> owed (snd uq1) k' key' = owed q k' key'"
      using a s uq by auto
    from False 1(5) uq have go: "\<not> (st \<or> b \<ge> MAX_BATCHES_PER_TICK)"
      using 1(4) by (cases "owed q k key") auto
    have r: "radio_loop w k key b st uq = radio_loop w k key (b + 1) st uq1"
      using go s by (subst radio_loop.simps) simp
    have "b + 1 + length (owed (snd uq1) k key) \<le> MAX_BATCHES_PER_TICK"
      using a'(2) 1(5) uq by simp
    from 1(1) [OF go s [symmetric] refl 1(2) a'(1) 1(4) this] 1(6) r
    show ?thesis using a'(2,3) uq by auto
  qed
qed

lemma kind_loop_drains:
  "accepting w \<Longrightarrow> queue_inv (snd uq) \<Longrightarrow> distinct keys \<Longrightarrow>
   b + sum_list (map (\<lambda>key. length (owed (snd uq) k key)) keys) \<le> MAX_BATCHES_PER_TICK \<Longrightarrow>
   kind_loop w k keys b False uq = (st', uq') \<Longrightarrow>
   \<not> st' \<and> queue_inv (snd uq') \<and> (\<forall>key \<in> set keys. owed (snd uq') k key = [])
     \<and> (\<forall>k' key'. k' \<noteq> k \<or> key' \<notin> set keys \<longrightarrow> owed (snd uq') k' key' = owed (snd uq) k' key')"
proof (induction keys arbitrary: b uq)
  case Nil
  then show ?case by auto
next
  case (Cons key keys)
  obtain b1 st1 uq1 where r: "radio_loop w k key b False uq = (b1, st1, uq1)"
    by (cases "radio_loop w k key b False uq") auto
  have "b + length (owed (snd uq) k key) \<le> MAX_BATCHES_PER_TICK" using Cons.prems(4) by simp
  from radio_loop_drains [OF Cons.prems(1,2) _ this r]
  have d: "st1 = False" "queue_inv (snd uq1)" "owed (snd uq1) k key = []"
    "b1 \<le> b + length (owed (snd uq) k key)"
    "\<And>k' key'. (k', key') \<noteq> (k, key) \<Longrightarrow> owed (snd uq1) k' key' = owed (snd uq) k' key'"
    by auto
  have m: "map (\<lambda>key. length (owed (snd uq1) k key)) keys = map (\<lambda>key. length (owed (snd uq) k key)) keys"
  proof (intro map_cong refl)
    fix x assume "x \<in> set keys"
    then have "(k, x) \<noteq> (k, key)" using Cons.prems(3) by auto
    then show "length (owed (snd uq1) k x) = length (owed (snd uq) k x)" using d(5) [of k x] by simp
  qed
  have le: "b1 + sum_list (map (\<lambda>key. length (owed (snd uq1) k key)) keys) \<le> MAX_BATCHES_PER_TICK"
    unfolding m using d(4) Cons.prems(4) by simp
  have r1: "kind_loop w k keys b1 False uq1 = (st', uq')" using Cons.prems(5) r d(1) by simp
  have dk: "distinct keys" using Cons.prems(3) by simp
  note ih = Cons.IH [OF Cons.prems(1) d(2) dk le r1]
  then have "owed (snd uq') k key = []" using d(3) Cons.prems(3) by simp
  with ih d(5) show ?case by auto
qed

lemma distinct_uniq_first: "distinct (uniq_first xs)"
  by (simp add: uniq_first_def)

lemma set_uniq_first [simp]: "set (uniq_first xs) = set xs"
  by (simp add: uniq_first_def)

lemma tick_send_drains:
  assumes w: "accepting w" and q: "queue_inv q" and acc: "account_now w u = Some acc"
    and few: "\<forall>k. sum_list (map (\<lambda>key. length (owed q k key)) (filter (on_account acc) (in_queue q)))
      \<le> MAX_BATCHES_PER_TICK"
    and key: "key \<in> set (in_queue q)" "on_account acc key"
  shows "owed (snd (snd (snd (tick_send w (u, q))))) k key = []
    \<and> u_state (fst (snd (snd (tick_send w (u, q))))) = Idle"
proof -
  let ?u = "u\<lparr>u_state := Uploading, u_reached := None\<rparr>"
  define own where "own = filter (on_account acc) (in_queue q)"
  have s: "fst (split_radios (account_now w ?u) q) = Some own"
    using acc by (simp add: split_radios_def account_now_def own_def)
  have dist: "distinct own" by (simp add: own_def in_queue_def distinct_uniq_first)
  obtain s1 uq1 where k1: "kind_loop w KObs own 0 False (?u, q) = (s1, uq1)"
    by (cases "kind_loop w KObs own 0 False (?u, q)") auto
  have d1: "\<not> s1 \<and> queue_inv (snd uq1) \<and> (\<forall>key \<in> set own. owed (snd uq1) KObs key = [])
     \<and> (\<forall>k' key'. k' \<noteq> KObs \<or> key' \<notin> set own \<longrightarrow> owed (snd uq1) k' key' = owed q k' key')"
    using kind_loop_drains [OF w _ dist _ k1] q few by (simp add: own_def)
  obtain s2 uq2 where k2: "kind_loop w KTrack own 0 False uq1 = (s2, uq2)"
    by (cases "kind_loop w KTrack own 0 False uq1") auto
  have "map (\<lambda>key. length (owed (snd uq1) KTrack key)) own = map (\<lambda>key. length (owed q KTrack key)) own"
    using d1 by simp
  then have d2: "\<not> s2 \<and> queue_inv (snd uq2) \<and> (\<forall>key \<in> set own. owed (snd uq2) KTrack key = [])
     \<and> (\<forall>k' key'. k' \<noteq> KTrack \<or> key' \<notin> set own \<longrightarrow> owed (snd uq2) k' key' = owed (snd uq1) k' key')"
    using kind_loop_drains [OF w _ dist _ k2] d1 few by (simp add: own_def)
  have "kinds_loop w KINDS own False (?u, q) = (False, uq2)"
    using k1 k2 d1 d2 by (simp add: KINDS_def)
  moreover have "key \<in> set own" using key by (simp add: own_def)
  moreover have "owed (snd uq2) k key = []"
    using d1 d2 \<open>key \<in> set own\<close> by (cases k) auto
  ultimately show ?thesis
    by (cases uq2) (simp add: tick_send_def Let_def s)
qed

subsection \<open>A whole tick\<close>

lemma tick_prune_keeps:
  assumes "localDest key \<in> set (w_destsFor w key)"
    "\<forall>n acc. w_account w n = Some acc \<longrightarrow> on_account acc key"
  shows "u_log (fst (tick_prune w now out (u, q))) = u_log u"
    "radio_rows (snd (tick_prune w now out (u, q))) (localDest key) kind key
      = radio_rows q (localDest key) kind key"
  using assms by (auto simp: tick_prune_def Let_def account_now_def intro!: radio_rows_prune split: option.splits)


definition idle_world :: world where
  "idle_world = \<lparr>w_reply = (\<lambda>_ _. Accepted), w_meanwhile = (\<lambda>_ q. q),
     w_account = (\<lambda>_. Some [[65]]), w_destsFor = (\<lambda>k. [localDest k]), w_batch = 200\<rparr>"

lemma upload_inv_open: "upload_inv openQueue"
  by (simp add: upload_inv_def queue_inv_open)

definition one_row :: queue where
  "one_row = snd (queue_add KTrack [65] (QTrack sample_track) 7 None openQueue)"

lemma upload_inv_one_row: "upload_inv one_row"
  unfolding one_row_def upload_inv_def
  by (auto intro!: queue_inv_add queue_inv_open simp only: queue_simps mark_open next_open) simp

lemma only_adds_idle: "only_adds idle_world"
  by (simp add: only_adds_def idle_world_def)


text \<open>A tick makes at most 20 requests per kind, each non-empty, of one radio of the logged-in
  account and one drive, with at most a batch of rows; logged out it makes none.\<close>

theorem tick_requests_bounded:
  "\<exists>new. u_log (fst (snd (snd (tick_send w (u, q))))) = u_log u @ new
     \<and> length new \<le> 2 * MAX_BATCHES_PER_TICK
     \<and> (account_now w u = None \<longrightarrow> new = [])
     \<and> (\<forall>r \<in> set new. \<exists>acc key k. account_now w u = Some acc \<and> on_account acc key
          \<and> ur_radio_key r = key \<and> ur_kind r = k \<and> ur_rows r \<noteq> []
          \<and> length (ur_rows r) \<le> max 1 (w_batch w)
          \<and> (\<forall>row \<in> set (ur_rows r). sr_radioKey row = key
               \<and> sr_driveId row = sr_driveId (hd (ur_rows r))))"
proof -
  obtain new where n: "u_log (fst (snd (snd (tick_send w (u, q))))) = u_log u @ new"
    "length new \<le> 2 * MAX_BATCHES_PER_TICK"
    "\<forall>r \<in> set new. \<exists>acc key k. account_now w u = Some acc \<and> on_account acc key \<and> good_request w key k r"
    using tick_send_requests [of w u q] by blast
  have "new = []" if "account_now w u = None" using n(3) that by (cases new) auto
  with n show ?thesis unfolding good_request_def by (intro exI [of _ new]) blast
qed

theorem tick_requests_bounded_witness:
  "\<exists>new. u_log (fst (snd (snd (tick_send idle_world (newUploader, one_row))))) = [] @ new \<and> length new \<le> 40"
  using tick_requests_bounded [of idle_world newUploader one_row]
  by (auto simp: newUploader_def MAX_BATCHES_PER_TICK_def)

text \<open>A server that takes everything empties the queue: when the account's radios owe no more
  rows of a kind than a tick has batches, one tick leaves none of them owed and ends idle.\<close>

theorem tick_drains:
  assumes "accepting w" "queue_inv q" "account_now w u = Some acc"
    "\<forall>k. sum_list (map (\<lambda>key. length (radio_rows q (localDest key) k key))
        (filter (on_account acc) (in_queue q))) \<le> MAX_BATCHES_PER_TICK"
    "key \<in> set (in_queue q)" "on_account acc key"
  shows "radio_rows (snd (snd (snd (tick_send w (u, q))))) (localDest key) k key = []
    \<and> u_state (fst (snd (snd (tick_send w (u, q))))) = Idle"
  using tick_send_drains [OF assms(1-3) _ assms(5,6)] assms(4) by blast

lemma in_queue_one_row: "in_queue one_row = [[65]]"
proof -
  have "store KObs one_row = []" "map sr_radioKey (store KTrack one_row) = [[65]]"
    by (simp_all add: one_row_def queue_simps)
  then show ?thesis by (simp add: in_queue_def KINDS_def radios_def uniq_first_def)
qed

lemma owed_one_row: "length (radio_rows one_row (localDest [65]) k [65]) \<le> 1"
  unfolding one_row_def by (subst radio_rows_add) (auto simp: radio_rows_alt)

theorem tick_drains_witness:
  "radio_rows (snd (snd (snd (tick_send idle_world (newUploader, one_row))))) (localDest [65]) KTrack [65] = []"
proof -
  have a: "accepting idle_world" "queue_inv one_row" "account_now idle_world newUploader = Some [[65]]"
    using upload_inv_one_row by (simp_all add: accepting_def idle_world_def account_now_def upload_inv_def)
  have f: "filter (on_account [[65]]) (in_queue one_row) = [[65]]"
    by (simp add: in_queue_one_row on_account_def)
  have "\<forall>k. sum_list (map (\<lambda>key. length (radio_rows one_row (localDest key) k key)) [[65]])
      \<le> MAX_BATCHES_PER_TICK"
    using le_trans [OF owed_one_row] by (simp add: MAX_BATCHES_PER_TICK_def)
  then show ?thesis
    using tick_drains [OF a, of "[65]" KTrack] unfolding f by (simp add: in_queue_one_row on_account_def)
qed

end
