(* ===== verification/Json.thy ===== *)
theory Json
  imports JsStrings
begin

section \<open>JSON text and base64, as the code uses them\<close>

text \<open>
  \<^verbatim>\<open>JSON.stringify\<close> and \<^verbatim>\<open>JSON.parse\<close> on the values the code stores and signs, and
  \<^verbatim>\<open>btoa\<close>/\<^verbatim>\<open>atob\<close>. Numbers are written as integers (all the code writes into a text it
  signs); the parser reads the whole number grammar. An object is the list of its
  properties, the last of two equal keys winning. The lemmas show that a written string,
  integer and base64 text read back as they were.
\<close>

datatype json = JNull | JBool bool | JNum jsnum | JStr jstr | JArr "json list"
  | JObj "(jstr \<times> json) list"

subsection \<open>Decimal text\<close>

fun decimal :: "nat \<Rightarrow> jstr" where
  "decimal n = (if n < 10 then [48 + n] else decimal (n div 10) @ [48 + n mod 10])"

declare decimal.simps [simp del]

definition decimal_int :: "int \<Rightarrow> jstr" where
  "decimal_int i = (if i < 0 then 45 # decimal (nat (- i)) else decimal (nat i))"

definition is_digit :: "nat \<Rightarrow> bool" where
  "is_digit c \<longleftrightarrow> 48 \<le> c \<and> c \<le> 57"

definition decimal_val :: "jstr \<Rightarrow> nat" where
  "decimal_val s = foldl (\<lambda>acc c. acc * 10 + (c - 48)) 0 s"

lemma decimal_val_snoc [simp]: "decimal_val (s @ [c]) = decimal_val s * 10 + (c - 48)"
  by (simp add: decimal_val_def)

lemma decimal_val_Nil [simp]: "decimal_val [] = 0"
  by (simp add: decimal_val_def)

lemma decimal_val_single [simp]: "decimal_val [c] = c - 48"
  by (simp add: decimal_val_def)

lemma decimal_val_decimal [simp]: "decimal_val (decimal n) = n"
proof (induction n rule: decimal.induct)
  case (1 n)
  then show ?case by (subst decimal.simps) auto
qed

lemma decimal_digits: "list_all is_digit (decimal n)"
proof (induction n rule: decimal.induct)
  case (1 n)
  have "n mod 10 < 10" by simp
  then have "is_digit (48 + n mod 10)" unfolding is_digit_def by linarith
  with 1 show ?case
    by (subst decimal.simps) (cases "n < 10"; simp; simp add: is_digit_def)
qed

lemma decimal_nonempty [simp]: "decimal n \<noteq> []"
  by (subst decimal.simps) simp

lemma decimal_first: "0 < n \<Longrightarrow> hd (decimal n) \<noteq> 48"
proof (induction n rule: decimal.induct)
  case (1 n)
  then show ?case by (subst decimal.simps) auto
qed

lemma decimal_inject: "decimal m = decimal n \<longleftrightarrow> m = n"
  by (metis decimal_val_decimal)

subsection \<open>Writing\<close>

definition hex4 :: "nat \<Rightarrow> jstr" where
  "hex4 c = padStart 4 48 (toString16 c)"

definition json_char :: "nat \<Rightarrow> jstr" where
  "json_char c =
     (if c = 34 then [92, 34] else if c = 92 then [92, 92]
      else if c = 8 then [92, 98] else if c = 12 then [92, 102]
      else if c = 10 then [92, 110] else if c = 13 then [92, 114]
      else if c = 9 then [92, 116]
      else if c < 32 \<or> (55296 \<le> c \<and> c \<le> 57343) then 92 # 117 # hex4 c
      else [c])"

definition json_quote :: "jstr \<Rightarrow> jstr" where
  "json_quote s = 34 # concat (map json_char s) @ [34]"

fun json_num :: "jsnum \<Rightarrow> jstr" where
  "json_num (Fin r) = decimal_int \<lfloor>r\<rfloor>"
| "json_num _ = str ''null''"

fun stringify :: "json \<Rightarrow> jstr" where
  "stringify JNull = str ''null''"
| "stringify (JBool b) = (if b then str ''true'' else str ''false'')"
| "stringify (JNum x) = json_num x"
| "stringify (JStr s) = json_quote s"
| "stringify (JArr vs) = [91] @ join_with [44] (map stringify vs) @ [93]"
| "stringify (JObj ps) =
     [123] @ join_with [44] (map (\<lambda>(k, v). json_quote k @ [58] @ stringify v) ps) @ [125]"

subsection \<open>Reading\<close>

definition json_ws :: "nat \<Rightarrow> bool" where
  "json_ws c \<longleftrightarrow> c \<in> {32, 9, 10, 13}"

definition skip_ws :: "jstr \<Rightarrow> jstr" where
  "skip_ws s = dropWhile json_ws s"

definition unescape :: "nat \<Rightarrow> nat option" where
  "unescape e =
     (if e \<in> {34, 92, 47} then Some e else if e = 98 then Some 8 else if e = 102 then Some 12
      else if e = 110 then Some 10 else if e = 114 then Some 13 else if e = 116 then Some 9
      else None)"

text \<open>What follows an opening quote, up to and past the closing one.\<close>

fun read_string :: "jstr \<Rightarrow> (jstr \<times> jstr) option" where
  "read_string [] = None"
| "read_string (c # s) =
     (if c = 34 then Some ([], s)
      else if c < 32 then None
      else if c \<noteq> 92 then map_option (\<lambda>(t, r). (c # t, r)) (read_string s)
      else case s of
        [] \<Rightarrow> None
      | e # s' \<Rightarrow>
          if e = 117 then
            (case s' of
               h1 # h2 # h3 # h4 # s'' \<Rightarrow>
                 (if list_all is_hex [h1, h2, h3, h4]
                  then map_option (\<lambda>(t, r). (digits_val [h1, h2, h3, h4] # t, r)) (read_string s'')
                  else None)
             | _ \<Rightarrow> None)
          else (case unescape e of
             None \<Rightarrow> None
           | Some x \<Rightarrow> map_option (\<lambda>(t, r). (x # t, r)) (read_string s')))"

definition read_digits :: "jstr \<Rightarrow> jstr \<times> jstr" where
  "read_digits s = (takeWhile is_digit s, dropWhile is_digit s)"

definition double_of :: "real \<Rightarrow> jsnum" where
  "double_of r = (if r \<ge> 2 ^ 1024 - 2 ^ 970 then PInf
                  else if r \<le> - (2 ^ 1024 - 2 ^ 970) then NInf else Fin r)"

definition read_frac :: "jstr \<Rightarrow> (real \<times> jstr) option" where
  "read_frac s = (case s of
       c # t \<Rightarrow>
         (if c = 46 then
            (let (ds, r) = read_digits t in
             if ds = [] then None else Some (of_nat (decimal_val ds) / 10 ^ length ds, r))
          else Some (0, s))
     | [] \<Rightarrow> Some (0, s))"

definition read_exp :: "jstr \<Rightarrow> (int \<times> jstr) option" where
  "read_exp s = (case s of
       c # t \<Rightarrow>
         (if c = 101 \<or> c = 69 then
            (let neg = (t \<noteq> [] \<and> hd t = 45);
                 u = (if t \<noteq> [] \<and> hd t \<in> {45, 43} then tl t else t);
                 (ds, r) = read_digits u in
             if ds = [] then None
             else Some (if neg then - int (decimal_val ds) else int (decimal_val ds), r))
          else Some (0, s))
     | [] \<Rightarrow> Some (0, s))"

definition scale10 :: "real \<Rightarrow> int \<Rightarrow> real" where
  "scale10 m e = (if e < 0 then m / 10 ^ nat (- e) else m * 10 ^ nat e)"

definition read_number :: "jstr \<Rightarrow> (json \<times> jstr) option" where
  "read_number s =
     (let neg = (s \<noteq> [] \<and> hd s = 45);
          u = (if neg then tl s else s);
          (ds, r) = read_digits u
      in if ds = [] \<or> (hd ds = 48 \<and> length ds > 1) then None
      else case read_frac r of
        None \<Rightarrow> None
      | Some (f, r') \<Rightarrow>
          (case read_exp r' of
             None \<Rightarrow> None
           | Some (e, r'') \<Rightarrow>
               let m = scale10 (of_nat (decimal_val ds) + f) e
               in Some (JNum (double_of (if neg then - m else m)), r'')))"

definition read_literal :: "string \<Rightarrow> json \<Rightarrow> jstr \<Rightarrow> (json \<times> jstr) option" where
  "read_literal w v s = (if startsWith s (str w) then Some (v, drop (length w) s) else None)"

text \<open>A value, the elements of an array and the members of an object; the fuel bounds the
  nesting and the number of elements, and the length of the text is enough.\<close>

fun read_value :: "nat \<Rightarrow> jstr \<Rightarrow> (json \<times> jstr) option"
and read_elems :: "nat \<Rightarrow> jstr \<Rightarrow> (json list \<times> jstr) option"
and read_members :: "nat \<Rightarrow> jstr \<Rightarrow> ((jstr \<times> json) list \<times> jstr) option" where
  "read_value 0 s = None"
| "read_value (Suc n) s =
     (case skip_ws s of
        [] \<Rightarrow> None
      | c # t \<Rightarrow>
          if c = 34 then map_option (\<lambda>(x, r). (JStr x, r)) (read_string t)
          else if c = 91 then
            (case skip_ws t of
               d # r \<Rightarrow> (if d = 93 then Some (JArr [], r)
                         else map_option (\<lambda>(vs, r'). (JArr vs, r')) (read_elems n t))
             | [] \<Rightarrow> None)
          else if c = 123 then
            (case skip_ws t of
               d # r \<Rightarrow> (if d = 125 then Some (JObj [], r)
                         else map_option (\<lambda>(ps, r'). (JObj ps, r')) (read_members n t))
             | [] \<Rightarrow> None)
          else if c = 110 then read_literal ''null'' JNull (c # t)
          else if c = 116 then read_literal ''true'' (JBool True) (c # t)
          else if c = 102 then read_literal ''false'' (JBool False) (c # t)
          else read_number (c # t))"
| "read_elems 0 s = None"
| "read_elems (Suc n) s =
     (case read_value n s of
        None \<Rightarrow> None
      | Some (v, r) \<Rightarrow>
          (case skip_ws r of
             [] \<Rightarrow> None
           | d # r' \<Rightarrow>
               if d = 93 then Some ([v], r')
               else if d = 44 then map_option (\<lambda>(vs, r''). (v # vs, r'')) (read_elems n r')
               else None))"
| "read_members 0 s = None"
| "read_members (Suc n) s =
     (case skip_ws s of
        [] \<Rightarrow> None
      | q # t \<Rightarrow>
          if q \<noteq> 34 then None
          else (case read_string t of
             None \<Rightarrow> None
           | Some (k, r) \<Rightarrow>
               (case skip_ws r of
                  [] \<Rightarrow> None
                | col # r1 \<Rightarrow>
                    if col \<noteq> 58 then None
                    else (case read_value n r1 of
                       None \<Rightarrow> None
                     | Some (v, r2) \<Rightarrow>
                         (case skip_ws r2 of
                            [] \<Rightarrow> None
                          | d # r3 \<Rightarrow>
                              if d = 125 then Some ([(k, v)], r3)
                              else if d = 44 then
                                map_option (\<lambda>(ps, r'). ((k, v) # ps, r')) (read_members n r3)
                              else None)))))"

definition json_parse :: "jstr \<Rightarrow> json option" where
  "json_parse s =
     (case read_value (2 * length s + 2) s of
        Some (v, r) \<Rightarrow> if skip_ws r = [] then Some v else None
      | None \<Rightarrow> None)"

text \<open>\<^verbatim>\<open>o.k\<close> of a parsed object: the last member of that name.\<close>

fun json_prop :: "json \<Rightarrow> jstr \<Rightarrow> json option" where
  "json_prop (JObj ps) k = map_of (rev ps) k"
| "json_prop _ k = None"

subsection \<open>Strings read back\<close>

lemma hex4_digits: "c < 65536 \<Longrightarrow> list_all is_hex (hex4 c) \<and> length (hex4 c) = 4 \<and> digits_val (hex4 c) = c"
proof -
  assume c: "c < 65536"
  then have l: "length (toString16 c) \<le> 4" using length_toString16 [of c 4] by simp
  have z: "digits_val (replicate n 48 @ s) = digits_val s" for n s
  proof (induction n)
    case (Suc n)
    have "digits_val (48 # t) = digits_val t" for t by (simp add: digits_val_def hex_val_def)
    with Suc show ?case by simp
  qed simp
  have "list_all is_hex (toString16 c)"
    using toString16_hex [of c] is_lower_hex_is_hex by (auto simp: list_all_iff)
  moreover have "is_hex 48" by (simp add: is_hex_def hex_val_def)
  ultimately show ?thesis
    using l by (auto simp: hex4_def padStart_def z list_all_iff)
qed

lemma read_string_char: "read_string (json_char c @ s) =
    map_option (\<lambda>(t, r). (c # t, r)) (read_string s)"
proof (cases "c < 32 \<or> (55296 \<le> c \<and> c \<le> 57343)")
  case True
  then have h: "list_all is_hex (hex4 c)" "length (hex4 c) = 4" "digits_val (hex4 c) = c"
    using hex4_digits [of c] by auto
  then obtain h1 h2 h3 h4 where e: "hex4 c = [h1, h2, h3, h4]"
    by (auto simp: length_Suc_conv numeral_eq_Suc)
  show ?thesis using True h e by (auto simp: json_char_def unescape_def)
next
  case False
  then show ?thesis by (auto simp: json_char_def unescape_def)
qed

lemma read_string_quoted: "read_string (concat (map json_char s) @ 34 # r) = Some (s, r)"
proof (induction s)
  case (Cons c s)
  then show ?case by (simp add: read_string_char)
qed simp

lemma json_quote_inject: "json_quote s @ x = json_quote t @ y \<longleftrightarrow> s = t \<and> x = y"
proof
  assume "json_quote s @ x = json_quote t @ y"
  then have "concat (map json_char s) @ 34 # x = concat (map json_char t) @ 34 # y"
    by (simp add: json_quote_def)
  then have "Some (s, x) = Some (t, y)"
    using read_string_quoted by metis
  then show "s = t \<and> x = y" by simp
qed simp


subsection \<open>Values read back\<close>

text \<open>The values the text keeps exactly: integers in the range of safe ones, and any
  strings, arrays and objects of them.\<close>

fun plain_json :: "json \<Rightarrow> bool" where
  "plain_json (JNum x) = (\<exists>i. x = Fin (of_int i) \<and> \<bar>i\<bar> < 2 ^ 53)"
| "plain_json (JArr vs) = list_all plain_json vs"
| "plain_json (JObj ps) = list_all (\<lambda>(k, v). plain_json v) ps"
| "plain_json _ = True"

definition delimited :: "jstr \<Rightarrow> bool" where
  "delimited r \<longleftrightarrow> (case r of [] \<Rightarrow> True | c # _ \<Rightarrow> \<not> is_digit c \<and> c \<notin> {46, 101, 69})"

lemma delimited_simps [simp]: "delimited []" "delimited (44 # r)" "delimited (93 # r)" "delimited (125 # r)"
  by (simp_all add: delimited_def is_digit_def)

lemma read_digits_decimal:
  "delimited r \<Longrightarrow> read_digits (decimal n @ r) = (decimal n, r)"
  using decimal_digits [of n]
  by (cases r) (auto simp: read_digits_def delimited_def list_all_iff takeWhile_append2
      dropWhile_append2 intro!: takeWhile_eq_all_conv [THEN iffD2] dropWhile_eq_Nil_conv [THEN iffD2])

lemma double_of_small: "\<bar>i\<bar> < 2 ^ 53 \<Longrightarrow> double_of (of_int i) = Fin (of_int i)"
proof -
  assume "\<bar>i\<bar> < 2 ^ 53"
  then have a: "\<bar>of_int i :: real\<bar> < 2 ^ 53" by (metis of_int_abs of_int_less_iff of_int_numeral of_int_power)
  have "(2 :: real) ^ 53 \<le> 2 ^ 970" "(2 :: real) ^ 1024 = 2 ^ 970 * 2 ^ 54"
    by (simp_all add: power_increasing flip: power_add)
  moreover have "(2 :: real) ^ 970 * 2 \<le> 2 ^ 970 * 2 ^ 54" by simp
  ultimately have "(2 :: real) ^ 53 \<le> 2 ^ 1024 - 2 ^ 970" by linarith
  with a show ?thesis unfolding double_of_def by (simp add: abs_less_iff)
qed

lemma decimal_head: "\<exists>c t. decimal n = c # t \<and> is_digit c"
  using decimal_digits [of n] decimal_nonempty [of n] by (cases "decimal n") auto

lemma decimal_no_lead: "\<not> (hd (decimal n) = 48 \<and> length (decimal n) > 1)"
proof (cases "n = 0")
  case True
  then show ?thesis by (simp add: decimal.simps [of 0])
qed (simp add: decimal_first)

lemma read_frac_none: "delimited r \<Longrightarrow> read_frac r = Some (0, r)"
  and read_exp_none: "delimited r \<Longrightarrow> read_exp r = Some (0, r)"
  by (cases r; simp add: read_frac_def read_exp_def delimited_def)+

lemma read_number_int:
  assumes "\<bar>i\<bar> < 2 ^ 53" "delimited r"
  shows "read_number (decimal_int i @ r) = Some (JNum (Fin (of_int i)), r)"
proof -
  obtain c t where h: "decimal (nat \<bar>i\<bar>) = c # t" "is_digit c" using decimal_head by blast
  have c: "c \<noteq> 45" using h(2) by (auto simp: is_digit_def)
  have l: "\<not> (c = 48 \<and> t \<noteq> [])" using decimal_no_lead [of "nat \<bar>i\<bar>"] h(1) by auto
  have d: "read_digits (c # t @ r) = (c # t, r)"
    using read_digits_decimal [OF assms(2), of "nat \<bar>i\<bar>"] h by simp
  have v: "decimal_val (c # t) = nat \<bar>i\<bar>" using decimal_val_decimal [of "nat \<bar>i\<bar>"] h by simp
  show ?thesis
  proof (cases "i < 0")
    case True
    then have "decimal_int i @ r = 45 # c # t @ r" using h by (simp add: decimal_int_def)
    then show ?thesis
      using True l v double_of_small [OF assms(1)]
      by (simp add: read_number_def d Let_def read_frac_none read_exp_none assms(2) scale10_def)
  next
    case False
    then have "decimal_int i @ r = c # t @ r" using h by (simp add: decimal_int_def)
    then show ?thesis
      using False c l v double_of_small [OF assms(1)]
      by (simp add: read_number_def d Let_def read_frac_none read_exp_none assms(2) scale10_def)
  qed
qed

fun json_weight :: "json \<Rightarrow> nat" where
  "json_weight (JArr vs) = 1 + sum_list (map (\<lambda>v. json_weight v + 1) vs)"
| "json_weight (JObj ps) = 1 + sum_list (map (\<lambda>(k, v). json_weight v + 1) ps)"
| "json_weight _ = 1"

lemma sum_list_join: "xs \<noteq> [] \<Longrightarrow> length (join_with [s] xs) + 1 = sum_list (map (\<lambda>x. length x + 1) xs)"
  by (induction "[s]" xs rule: join_with.induct) auto

lemma weight_sum:
  fixes w l :: "'a \<Rightarrow> nat"
  shows "\<forall>x \<in> set xs. w x \<le> 2 * l x + 1 \<Longrightarrow>
    sum_list (map (\<lambda>x. w x + 1) xs) \<le> 2 * sum_list (map (\<lambda>x. l x + 1) xs)"
  by (induction xs) auto

lemma weight_length: "json_weight v \<le> 2 * length (stringify v) + 1"
proof (induction v)
  case (JArr vs)
  show ?case
  proof (cases "vs = []")
    case False
    have "length (stringify (JArr vs)) = sum_list (map (\<lambda>v. length (stringify v) + 1) vs) + 1"
      using sum_list_join [of "map stringify vs" 44] False by (simp add: o_def)
    then show ?thesis
      using weight_sum [of vs json_weight "length \<circ> stringify"] JArr by (simp add: o_def)
  qed simp
next
  case (JObj ps)
  let ?t = "\<lambda>(k, v). json_quote k @ [58] @ stringify v"
  show ?case
  proof (cases "ps = []")
    case False
    have "length (stringify (JObj ps)) = sum_list (map (\<lambda>p. length (?t p) + 1) ps) + 1"
      using sum_list_join [of "map ?t ps" 44] False by (simp add: o_def)
    moreover have "\<forall>p \<in> set ps. json_weight (snd p) \<le> 2 * length (?t p) + 1"
      using JObj by fastforce
    from weight_sum [OF this]
    have "sum_list (map (\<lambda>(k, v). json_weight v + 1) ps) \<le> 2 * sum_list (map (\<lambda>p. length (?t p) + 1) ps)"
      by (simp add: case_prod_unfold)
    ultimately show ?thesis by simp
  qed simp
qed auto

definition reads_back :: "json \<Rightarrow> bool" where
  "reads_back v \<longleftrightarrow> (\<forall>n r. json_weight v \<le> n \<longrightarrow> delimited r \<longrightarrow>
     read_value n (stringify v @ r) = Some (v, r))"

text \<open>No value starts with white space or a closing bracket.\<close>

lemma stringify_head:
  assumes "plain_json v"
  shows "\<exists>c t. stringify v = c # t \<and> \<not> json_ws c \<and> c \<noteq> 93"
proof (cases v)
  case (JNum x)
  then obtain i where i: "x = Fin (of_int i)" using assms by auto
  obtain c t where "decimal (nat i) = c # t" "is_digit c" using decimal_head by blast
  then show ?thesis
    using JNum i by (auto simp: decimal_int_def is_digit_def json_ws_def)
qed (auto simp: json_quote_def json_ws_def)

lemma skip_ws_plain: "\<not> json_ws c \<Longrightarrow> skip_ws (c # t) = c # t"
  by (simp add: skip_ws_def)

lemma skip_ws_token [simp]: "skip_ws (44 # r) = 44 # r" "skip_ws (93 # r) = 93 # r"
  "skip_ws (125 # r) = 125 # r" "skip_ws (34 # r) = 34 # r" "skip_ws (58 # r) = 58 # r"
  "skip_ws (123 # r) = 123 # r" "skip_ws (91 # r) = 91 # r"
  by (simp_all add: skip_ws_def json_ws_def)

lemma read_elems_back:
  assumes "\<forall>v \<in> set vs. reads_back v" "vs \<noteq> []"
    "sum_list (map (\<lambda>v. json_weight v + 1) vs) \<le> n"
  shows "read_elems n (join_with [44] (map stringify vs) @ 93 # r) = Some (vs, r)"
  using assms
proof (induction vs arbitrary: n)
  case (Cons v vs)
  then obtain m where n: "n = Suc m" by (cases n) auto
  have v: "read_value m (stringify v @ x) = Some (v, x)" if "delimited x" for x
    using Cons.prems that by (auto simp: reads_back_def n)
  show ?case
  proof (cases vs)
    case Nil
    then show ?thesis by (simp add: n v)
  next
    case (Cons w ws)
    then have "read_elems m (join_with [44] (map stringify vs) @ 93 # r) = Some (vs, r)"
      using Cons.IH [of m] Cons.prems by (auto simp: n)
    with Cons show ?thesis by (simp add: n v)
  qed
qed simp

lemma read_members_back:
  assumes "\<forall>p \<in> set ps. reads_back (snd p)" "ps \<noteq> []"
    "sum_list (map (\<lambda>(k, v). json_weight v + 1) ps) \<le> n"
  shows "read_members n (join_with [44] (map (\<lambda>(k, v). json_quote k @ [58] @ stringify v) ps) @ 125 # r)
     = Some (ps, r)"
  using assms
proof (induction ps arbitrary: n)
  case (Cons p ps)
  obtain k v where p: "p = (k, v)" by (cases p)
  from Cons.prems obtain m where n: "n = Suc m" by (cases n) (auto simp: p)
  have v: "read_value m (stringify v @ x) = Some (v, x)" if "delimited x" for x
    using Cons.prems that by (auto simp: reads_back_def n p)
  have q: "json_quote k @ x = 34 # (concat (map json_char k) @ 34 # x)" for x
    by (simp add: json_quote_def)
  show ?case
  proof (cases ps)
    case Nil
    then show ?thesis by (simp add: n p v q read_string_quoted)
  next
    case (Cons w ws)
    then have "read_members m (join_with [44] (map (\<lambda>(k, v). json_quote k @ [58] @ stringify v) ps) @ 125 # r)
        = Some (ps, r)"
      using Cons.IH [of m] Cons.prems by (auto simp: n p)
    with Cons show ?thesis by (simp add: n p v q read_string_quoted)
  qed
qed simp

lemma plain_reads_back: "plain_json v \<Longrightarrow> reads_back v"
proof (induction v)
  case (JNum x)
  then obtain i where i: "x = Fin (of_int i)" "\<bar>i\<bar> < 2 ^ 53" by auto
  have "\<exists>c t. decimal_int i = c # t \<and> (is_digit c \<or> c = 45)"
    using decimal_head [of "nat i"] by (auto simp: decimal_int_def)
  then obtain c t where d: "decimal_int i = c # t" "is_digit c \<or> c = 45" by blast
  show ?case
    unfolding reads_back_def
  proof (intro allI impI)
    fix n r
    assume a: "json_weight (JNum x) \<le> n" "delimited r"
    then obtain m where "n = Suc m" by (cases n) auto
    with read_number_int [OF i(2) a(2)] d i show "read_value n (stringify (JNum x) @ r) = Some (JNum x, r)"
      by (auto simp: skip_ws_plain json_ws_def is_digit_def)
  qed
next
  case (JStr s)
  have "read_value (Suc m) (json_quote s @ r) = Some (JStr s, r)" for m r
    by (simp add: json_quote_def read_string_quoted)
  then show ?case by (auto simp: reads_back_def Suc_le_eq gr0_conv_Suc)
next
  case (JArr vs)
  then have r: "\<forall>v \<in> set vs. reads_back v" by (auto simp: list_all_iff)
  show ?case
    unfolding reads_back_def
  proof (intro allI impI)
    fix n r
    assume a: "json_weight (JArr vs) \<le> n" "delimited r"
    then obtain m where n: "n = Suc m" by (cases n) auto
    show "read_value n (stringify (JArr vs) @ r) = Some (JArr vs, r)"
    proof (cases vs)
      case Nil
      then show ?thesis by (simp add: n)
    next
      case (Cons v ws)
      obtain c t where h: "stringify v = c # t" "\<not> json_ws c" "c \<noteq> 93"
        using stringify_head [of v] JArr.prems Cons by auto
      have "\<exists>t. join_with [44] (map stringify vs) = c # t"
        using Cons h by (cases ws) auto
      then obtain t' where j: "join_with [44] (map stringify vs) = c # t'" by blast
      have "read_elems m (join_with [44] (map stringify vs) @ 93 # r) = Some (vs, r)"
        using read_elems_back [OF r] Cons a n by simp
      then show ?thesis using h j by (simp add: n skip_ws_plain)
    qed
  qed
next
  case (JObj ps)
  then have r: "\<forall>p \<in> set ps. reads_back (snd p)" by (fastforce simp: list_all_iff)
  show ?case
    unfolding reads_back_def
  proof (intro allI impI)
    fix n r
    assume a: "json_weight (JObj ps) \<le> n" "delimited r"
    then obtain m where n: "n = Suc m" by (cases n) auto
    show "read_value n (stringify (JObj ps) @ r) = Some (JObj ps, r)"
    proof (cases ps)
      case Nil
      then show ?thesis by (simp add: n)
    next
      case (Cons p qs)
      let ?t = "\<lambda>(k, v). json_quote k @ [58] @ stringify v"
      have "\<exists>t. join_with [44] (map ?t ps) = 34 # t"
        using Cons by (cases qs; cases p) (auto simp: json_quote_def)
      then obtain t' where j: "join_with [44] (map ?t ps) = 34 # t'" by blast
      have "read_members m (join_with [44] (map ?t ps) @ 125 # r) = Some (ps, r)"
        using read_members_back [OF r] Cons a n by simp
      then show ?thesis using j by (simp add: n)
    qed
  qed
qed (auto simp: reads_back_def Suc_le_eq gr0_conv_Suc skip_ws_plain json_ws_def read_literal_def startsWith_def)

lemma json_parse_stringify: "plain_json v \<Longrightarrow> json_parse (stringify v) = Some v"
proof -
  assume "plain_json v"
  then have b: "reads_back v" by (rule plain_reads_back)
  have "json_weight v \<le> 2 * length (stringify v) + 2" using weight_length [of v] by simp
  from b [unfolded reads_back_def, rule_format, OF this delimited_simps(1)]
  have "read_value (2 * length (stringify v) + 2) (stringify v) = Some (v, [])"
    by (simp only: append_Nil2)
  then show ?thesis by (simp add: json_parse_def skip_ws_def del: read_value.simps)
qed

end
