(* ===== verification/Brokers.thy ===== *)
theory Brokers
  imports Uploader Json
begin

section \<open>The broker list and its destinations (wardrive/forward/brokers.ts, settings.ts)\<close>

text \<open>
  A broker list arrives as JSON, from the server or the cache; \<open>parseBrokers\<close> keeps the
  entries the page can use. The URL parser is the browser's: \<open>url\<close> gives the protocol and
  the host of a text it accepts. \<open>destId\<close> is the queue destination of a broker for one
  radio, beside the uploader's \<open>localDest\<close>.
\<close>

datatype broker_auth = AuthCompanion | AuthPassword
datatype broker_format = FormatWardrive | FormatPackets

record broker =
  br_id :: jstr
  br_name :: jstr
  br_url :: jstr
  br_audience :: jstr
  br_auth :: broker_auth
  br_format :: broker_format
  br_label :: "jstr option"
  br_region :: "jstr option"
  br_username :: "jstr option"
  br_password :: "jstr option"
  br_builtin :: bool

definition default_broker :: "string \<Rightarrow> string \<Rightarrow> string \<Rightarrow> string \<Rightarrow> string \<Rightarrow> broker" where
  "default_broker i n u a l =
     \<lparr>br_id = str i, br_name = str n, br_url = str u, br_audience = str a,
      br_auth = AuthCompanion, br_format = FormatWardrive, br_label = Some (str l),
      br_region = None, br_username = None, br_password = None, br_builtin = True\<rparr>"

definition DEFAULT_BROKERS :: "broker list" where
  "DEFAULT_BROKERS =
     [default_broker ''dmc-hunter'' ''DutchMeshCore hunter''
        ''wss://collector1.dutchmeshcore.nl:443'' ''collector1.dutchmeshcore.nl'' ''hunter'',
      default_broker ''dmc-wardriver'' ''DutchMeshCore wardriver''
        ''wss://collector2.dutchmeshcore.nl:443'' ''collector2.dutchmeshcore.nl'' ''wardriver'']"

text \<open>\<^verbatim>\<open>str(v)\<close>: a string that is not empty.\<close>

definition text_of :: "json option \<Rightarrow> jstr option" where
  "text_of v = (case v of Some (JStr s) \<Rightarrow> or_null s | _ \<Rightarrow> None)"

definition RESERVED_BROKER_IDS :: "jstr list" where
  "RESERVED_BROKER_IDS = [str ''rtfm'']"

definition hostOf :: "(jstr \<Rightarrow> (jstr \<times> jstr) option) \<Rightarrow> jstr \<Rightarrow> jstr option" where
  "hostOf url u = (case url u of
     None \<Rightarrow> None
   | Some (protocol, hostname) \<Rightarrow>
       if protocol = str ''wss:'' \<and> hostname \<noteq> [] then Some hostname else None)"

definition auth_of :: "json option \<Rightarrow> broker_auth option" where
  "auth_of v =
     (if v = Some (JStr (str ''companion'')) then Some AuthCompanion
      else if v = Some (JStr (str ''password'')) then Some AuthPassword else None)"

definition format_of :: "json option \<Rightarrow> broker_format option" where
  "format_of v =
     (if v = Some (JStr (str ''wardrive'')) then Some FormatWardrive
      else if v = Some (JStr (str ''packets'')) then Some FormatPackets else None)"

definition parseBroker :: "(jstr \<Rightarrow> (jstr \<times> jstr) option) \<Rightarrow> json \<Rightarrow> broker option" where
  "parseBroker url v =
     (let b = (\<lambda>k. json_prop v (str k)) in
      case (text_of (b ''id''), text_of (b ''name''), text_of (b ''url'')) of
        (Some bid, Some name, Some u) \<Rightarrow>
          if bid \<in> set RESERVED_BROKER_IDS then None
          else (case (hostOf url u, auth_of (b ''auth''), format_of (b ''format'')) of
            (Some host, Some auth, Some fmt) \<Rightarrow>
              if fmt = FormatWardrive \<and> text_of (b ''label'') = None then None
              else if fmt = FormatPackets \<and> text_of (b ''region'') = None then None
              else if auth = AuthPassword
                \<and> \<not> (text_of (b ''username'') \<noteq> None \<and> text_of (b ''password'') \<noteq> None) then None
              else Some
                \<lparr>br_id = bid, br_name = name, br_url = u,
                 br_audience = (case text_of (b ''audience'') of Some a \<Rightarrow> a | None \<Rightarrow> host),
                 br_auth = auth, br_format = fmt,
                 br_label = (if fmt = FormatWardrive then text_of (b ''label'') else None),
                 br_region = (if fmt = FormatWardrive then None else text_of (b ''region'')),
                 br_username = (if auth = AuthPassword then text_of (b ''username'') else None),
                 br_password = (if auth = AuthPassword then text_of (b ''password'') else None),
                 br_builtin = (b ''builtin'' = Some (JBool True))\<rparr>
          | _ \<Rightarrow> None)
      | _ \<Rightarrow> None)"

fun parse_loop :: "(jstr \<Rightarrow> (jstr \<times> jstr) option) \<Rightarrow> jstr list \<Rightarrow> broker list \<Rightarrow> json list \<Rightarrow> broker list" where
  "parse_loop url seen out [] = out"
| "parse_loop url seen out (item # items) =
     (case parseBroker url item of
        None \<Rightarrow> parse_loop url seen out items
      | Some b \<Rightarrow>
          if br_id b \<in> set seen then parse_loop url seen out items
          else parse_loop url (br_id b # seen) (out @ [b]) items)"

fun parseBrokers :: "(jstr \<Rightarrow> (jstr \<times> jstr) option) \<Rightarrow> json \<Rightarrow> broker list option" where
  "parseBrokers url (JArr items) = Some (parse_loop url [] [] items)"
| "parseBrokers url _ = None"

definition opt_text :: "jstr option \<Rightarrow> json" where
  "opt_text v = (case v of None \<Rightarrow> JNull | Some s \<Rightarrow> JStr s)"

fun auth_text :: "broker_auth \<Rightarrow> jstr" where
  "auth_text AuthCompanion = str ''companion''"
| "auth_text AuthPassword = str ''password''"

fun format_text :: "broker_format \<Rightarrow> jstr" where
  "format_text FormatWardrive = str ''wardrive''"
| "format_text FormatPackets = str ''packets''"

definition brokerFingerprint :: "broker \<Rightarrow> jstr" where
  "brokerFingerprint b =
     stringify (JArr [JStr (br_id b), JStr (br_url b), JStr (br_audience b),
       JStr (auth_text (br_auth b)), JStr (format_text (br_format b)), opt_text (br_label b),
       opt_text (br_region b), opt_text (br_username b), opt_text (br_password b)])"

definition destId :: "jstr \<Rightarrow> jstr \<Rightarrow> jstr" where
  "destId bid radioKey = bid @ str ''@'' @ toUpperCase radioKey"

subsection \<open>The served list kept in the browser (brokerConfig.ts)\<close>

text \<open>\<open>stored\<close> is what the browser's storage holds: \<open>None\<close> when nothing or blocked.\<close>

definition loadServedBrokers :: "(jstr \<Rightarrow> (jstr \<times> jstr) option) \<Rightarrow> jstr option \<Rightarrow> broker list option" where
  "loadServedBrokers url stored =
     (case stored of
        None \<Rightarrow> None
      | Some raw \<Rightarrow> if raw = [] then None
          else (case json_parse raw of None \<Rightarrow> None | Some v \<Rightarrow> parseBrokers url v))"

definition broker_json :: "broker \<Rightarrow> json" where
  "broker_json b = JObj (
     [(str ''id'', JStr (br_id b)), (str ''name'', JStr (br_name b)), (str ''url'', JStr (br_url b)),
      (str ''audience'', JStr (br_audience b)), (str ''auth'', JStr (auth_text (br_auth b))),
      (str ''format'', JStr (format_text (br_format b))), (str ''builtin'', JBool (br_builtin b))]
     @ (case br_label b of None \<Rightarrow> [] | Some s \<Rightarrow> [(str ''label'', JStr s)])
     @ (case br_region b of None \<Rightarrow> [] | Some s \<Rightarrow> [(str ''region'', JStr s)])
     @ (case br_username b of None \<Rightarrow> [] | Some s \<Rightarrow> [(str ''username'', JStr s)])
     @ (case br_password b of None \<Rightarrow> [] | Some s \<Rightarrow> [(str ''password'', JStr s)]))"

definition saveServedBrokers :: "broker list \<Rightarrow> jstr" where
  "saveServedBrokers list = stringify (JArr (map broker_json list))"

subsection \<open>The driver's switches (settings.ts, forwarder.ts)\<close>

record broker_settings =
  bs_enabled :: "(jstr \<times> bool) list"
  bs_tokens :: "(jstr \<times> jstr) list"

definition enableBroker ::
  "queue \<Rightarrow> broker_settings \<Rightarrow> jstr \<Rightarrow> jstr \<Rightarrow> queue \<times> broker_settings" where
  "enableBroker q settings bid radioKey =
     (let dest = destId bid radioKey;
          q = ack q dest KObs (lastId q KObs);
          q = ack q dest KTrack (lastId q KTrack)
      in (q, settings\<lparr>bs_enabled := amap_set dest True (bs_enabled settings)\<rparr>))"

definition disableBroker :: "broker_settings \<Rightarrow> jstr \<Rightarrow> jstr \<Rightarrow> broker_settings" where
  "disableBroker settings bid radioKey =
     settings\<lparr>bs_enabled := amap_delete (destId bid radioKey) (bs_enabled settings)\<rparr>"

subsection \<open>What a parsed list holds\<close>

definition broker_ok :: "(jstr \<Rightarrow> (jstr \<times> jstr) option) \<Rightarrow> broker \<Rightarrow> bool" where
  "broker_ok url b \<longleftrightarrow>
     br_id b \<noteq> [] \<and> br_name b \<noteq> [] \<and> br_url b \<noteq> [] \<and> br_audience b \<noteq> [] \<and> br_id b \<notin> set RESERVED_BROKER_IDS \<and>
     (\<exists>host. hostOf url (br_url b) = Some host) \<and>
     (br_format b = FormatWardrive \<longrightarrow> br_label b \<notin> {None, Some []} \<and> br_region b = None) \<and>
     (br_format b = FormatPackets \<longrightarrow> br_region b \<notin> {None, Some []} \<and> br_label b = None) \<and>
     (br_auth b = AuthPassword \<longrightarrow>
        br_username b \<notin> {None, Some []} \<and> br_password b \<notin> {None, Some []}) \<and>
     (br_auth b = AuthCompanion \<longrightarrow> br_username b = None \<and> br_password b = None)"

lemma text_of_nonempty: "text_of v = Some s \<Longrightarrow> s \<noteq> []"
  by (auto simp: text_of_def or_null_def split: option.splits json.splits if_splits)

lemma hostOf_nonempty: "hostOf url u = Some h \<Longrightarrow> h \<noteq> []"
  by (auto simp: hostOf_def split: option.splits if_splits)

lemma parseBroker_ok:
  assumes "parseBroker url v = Some b"
  shows "broker_ok url b"
  using assms text_of_nonempty hostOf_nonempty
  by (fastforce simp: parseBroker_def broker_ok_def Let_def split: option.splits if_splits)

lemma parse_loop_ok:
  assumes "\<forall>b \<in> set out. broker_ok url b" "distinct (map br_id out)" "set seen = br_id ` set out"
  shows "(\<forall>b \<in> set (parse_loop url seen out items). broker_ok url b)
     \<and> distinct (map br_id (parse_loop url seen out items))"
  using assms
proof (induction items arbitrary: seen out)
  case (Cons item items)
  show ?case
  proof (cases "parseBroker url item")
    case None
    then show ?thesis using Cons by simp
  next
    case (Some b)
    show ?thesis
    proof (cases "br_id b \<in> set seen")
      case True
      then show ?thesis using Some Cons by simp
    next
      case False
      have "\<forall>b \<in> set (out @ [b]). broker_ok url b" "distinct (map br_id (out @ [b]))"
        "set (br_id b # seen) = br_id ` set (out @ [b])"
        using Cons.prems parseBroker_ok [OF Some] False by auto
      from Cons.IH [OF this] show ?thesis using Some False by simp
    qed
  qed
qed simp

lemma parseBrokers_ok:
  "parseBrokers url v = Some bs \<Longrightarrow> (\<forall>b \<in> set bs. broker_ok url b) \<and> distinct (map br_id bs)"
  using parse_loop_ok [of "[]" url "[]"] by (cases v) auto

subsection \<open>Destinations are apart\<close>

lemma at_notin_upper: "list_all is_hex k \<Longrightarrow> 64 \<notin> set (toUpperCase k)"
  by (auto simp: toUpperCase_def upper_char_def list_all_iff is_hex_def hex_val_def split: if_splits)

lemma last_sep_unique:
  "x \<notin> set b \<Longrightarrow> x \<notin> set d \<Longrightarrow> a @ x # b = c @ x # d \<longleftrightarrow> a = c \<and> b = d"
  by (auto simp: append_eq_append_conv2 Cons_eq_append_conv append_eq_Cons_conv)

lemma destId_inject:
  assumes "list_all is_hex k" "list_all is_hex k'"
  shows "destId i k = destId j k' \<longleftrightarrow> i = j \<and> toUpperCase k = toUpperCase k'"
  using last_sep_unique [OF at_notin_upper [OF assms(1)] at_notin_upper [OF assms(2)]]
  by (simp add: destId_def)

lemma destId_not_local:
  assumes "list_all is_hex k" "list_all is_hex k'" "i \<notin> set RESERVED_BROKER_IDS"
  shows "destId i k \<noteq> localDest (toUpperCase k')"
proof -
  have "localDest (toUpperCase k') = destId (str ''rtfm'') k'" by (simp add: localDest_def destId_def)
  then show ?thesis using destId_inject [OF assms(1,2)] assms(3) by (auto simp: RESERVED_BROKER_IDS_def)
qed

subsection \<open>Fingerprints\<close>

lemma opt_text_inject: "opt_text a = opt_text b \<longleftrightarrow> a = b"
  by (auto simp: opt_text_def split: option.splits)

lemma auth_text_inject: "auth_text a = auth_text b \<longleftrightarrow> a = b"
  by (cases a; cases b) (simp_all add: str_inject)

lemma format_text_inject: "format_text a = format_text b \<longleftrightarrow> a = b"
  by (cases a; cases b) (simp_all add: str_inject)

lemma plain_opt_text [simp]: "plain_json (opt_text v)"
  by (simp add: opt_text_def split: option.split)

lemma brokerFingerprint_eq:
  "brokerFingerprint b = brokerFingerprint c \<longleftrightarrow>
     br_id b = br_id c \<and> br_url b = br_url c \<and> br_audience b = br_audience c \<and>
     br_auth b = br_auth c \<and> br_format b = br_format c \<and> br_label b = br_label c \<and>
     br_region b = br_region c \<and> br_username b = br_username c \<and> br_password b = br_password c"
proof
  assume "brokerFingerprint b = brokerFingerprint c"
  then have "json_parse (brokerFingerprint b) = json_parse (brokerFingerprint c)" by simp
  then show "br_id b = br_id c \<and> br_url b = br_url c \<and> br_audience b = br_audience c \<and>
     br_auth b = br_auth c \<and> br_format b = br_format c \<and> br_label b = br_label c \<and>
     br_region b = br_region c \<and> br_username b = br_username c \<and> br_password b = br_password c"
    unfolding brokerFingerprint_def
    by (subst (asm) (1 2) json_parse_stringify)
       (simp_all add: opt_text_inject auth_text_inject format_text_inject)
qed (simp add: brokerFingerprint_def)

subsection \<open>A list survives its cache\<close>

lemma plain_broker_json [simp]: "plain_json (broker_json b)"
  by (simp add: broker_json_def split: option.split)

lemma text_of_JStr [simp]: "s \<noteq> [] \<Longrightarrow> text_of (Some (JStr s)) = Some s"
  by (simp add: text_of_def or_null_def)

lemma text_of_None [simp]: "text_of None = None"
  by (simp add: text_of_def)

lemma auth_format_of [simp]:
  "auth_of (Some (JStr (auth_text a))) = Some a" "format_of (Some (JStr (format_text f))) = Some f"
  by (cases a; simp add: auth_of_def) (cases f; simp add: format_of_def)

lemma map_of_snoc: "map_of (xs @ ys) k = (case map_of xs k of None \<Rightarrow> map_of ys k | Some v \<Rightarrow> Some v)"
  by (simp add: map_of_append map_add_def split: option.split)

lemma broker_json_props:
  "json_prop (broker_json b) (str ''id'') = Some (JStr (br_id b))"
  "json_prop (broker_json b) (str ''name'') = Some (JStr (br_name b))"
  "json_prop (broker_json b) (str ''url'') = Some (JStr (br_url b))"
  "json_prop (broker_json b) (str ''audience'') = Some (JStr (br_audience b))"
  "json_prop (broker_json b) (str ''auth'') = Some (JStr (auth_text (br_auth b)))"
  "json_prop (broker_json b) (str ''format'') = Some (JStr (format_text (br_format b)))"
  "json_prop (broker_json b) (str ''builtin'') = Some (JBool (br_builtin b))"
  "json_prop (broker_json b) (str ''label'') = map_option JStr (br_label b)"
  "json_prop (broker_json b) (str ''region'') = map_option JStr (br_region b)"
  "json_prop (broker_json b) (str ''username'') = map_option JStr (br_username b)"
  "json_prop (broker_json b) (str ''password'') = map_option JStr (br_password b)"
  unfolding broker_json_def json_prop.simps rev_append map_of_snoc
  by (simp_all split: option.split)

lemma text_of_map: "v \<noteq> Some [] \<Longrightarrow> text_of (map_option JStr v) = v"
  by (cases v) auto

lemma parseBroker_json:
  assumes "broker_ok url b"
  shows "parseBroker url (broker_json b) = Some b"
proof -
  obtain h where h: "hostOf url (br_url b) = Some h" using assms by (auto simp: broker_ok_def)
  have n: "br_id b \<noteq> []" "br_name b \<noteq> []" "br_url b \<noteq> []" "br_audience b \<noteq> []"
    "br_id b \<notin> set RESERVED_BROKER_IDS"
    using assms by (auto simp: broker_ok_def)
  have t: "text_of (map_option JStr (br_label b)) = br_label b"
    "text_of (map_option JStr (br_region b)) = br_region b"
    "text_of (map_option JStr (br_username b)) = br_username b"
    "text_of (map_option JStr (br_password b)) = br_password b"
    using assms by (auto simp: broker_ok_def intro!: text_of_map; cases "br_format b"; cases "br_auth b"; auto)+
  show ?thesis
    unfolding parseBroker_def Let_def broker_json_props
    using assms by (cases "br_format b"; cases "br_auth b") (simp_all add: n t h broker_ok_def auth_of_def format_of_def str_inject
        del: str_Cons str_Nil)
qed

lemma parse_loop_json:
  assumes "\<forall>b \<in> set bs. broker_ok url b" "distinct (map br_id bs)" "set seen \<inter> br_id ` set bs = {}"
  shows "parse_loop url seen out (map broker_json bs) = out @ bs"
  using assms
proof (induction bs arbitrary: seen out)
  case (Cons b bs)
  then show ?case by (auto simp: parseBroker_json)
qed simp

lemma loadServedBrokers_saved:
  assumes "\<forall>b \<in> set bs. broker_ok url b" "distinct (map br_id bs)"
  shows "loadServedBrokers url (Some (saveServedBrokers bs)) = Some bs"
proof -
  have "json_parse (saveServedBrokers bs) = Some (JArr (map broker_json bs))"
    unfolding saveServedBrokers_def by (rule json_parse_stringify) (simp add: list_all_iff)
  moreover have "saveServedBrokers bs \<noteq> []" by (simp add: saveServedBrokers_def)
  moreover have "parse_loop url [] [] (map broker_json bs) = bs"
    using parse_loop_json [OF assms, of "[]" "[]"] by simp
  ultimately show ?thesis by (simp add: loadServedBrokers_def)
qed

subsection \<open>Properties\<close>

text \<open>C12: whatever JSON the server answers, the broker list read from it holds only complete brokers
  (id, name, URL with a host, audience; the account of a password broker; the label of a
  wardrive broker, the region of a packets broker), no reserved id, and no id twice; and such a
  list comes back unchanged from the copy kept in the browser.\<close>

theorem parsed_brokers_sound:
  assumes "parseBrokers url v = Some bs"
  shows "distinct (map br_id bs)
    \<and> (\<forall>b \<in> set bs. br_id b \<noteq> [] \<and> br_id b \<notin> set RESERVED_BROKER_IDS \<and> br_name b \<noteq> []
        \<and> br_audience b \<noteq> [] \<and> (\<exists>host. hostOf url (br_url b) = Some host)
        \<and> (br_auth b = AuthPassword \<longrightarrow>
             br_username b \<notin> {None, Some []} \<and> br_password b \<notin> {None, Some []})
        \<and> (br_format b = FormatWardrive \<longrightarrow> br_label b \<notin> {None, Some []})
        \<and> (br_format b = FormatPackets \<longrightarrow> br_region b \<notin> {None, Some []}))
    \<and> loadServedBrokers url (Some (saveServedBrokers bs)) = Some bs"
proof -
  have ok: "\<forall>b \<in> set bs. broker_ok url b" and d: "distinct (map br_id bs)"
    using parseBrokers_ok [OF assms] by auto
  have all: "\<forall>b \<in> set bs. br_id b \<noteq> [] \<and> br_id b \<notin> set RESERVED_BROKER_IDS \<and> br_name b \<noteq> []
        \<and> br_audience b \<noteq> [] \<and> (\<exists>host. hostOf url (br_url b) = Some host)
        \<and> (br_auth b = AuthPassword \<longrightarrow>
             br_username b \<notin> {None, Some []} \<and> br_password b \<notin> {None, Some []})
        \<and> (br_format b = FormatWardrive \<longrightarrow> br_label b \<notin> {None, Some []})
        \<and> (br_format b = FormatPackets \<longrightarrow> br_region b \<notin> {None, Some []})"
    using ok unfolding broker_ok_def by blast
  show ?thesis using loadServedBrokers_saved [OF ok d] d all by blast
qed

definition sample_broker :: broker where
  "sample_broker = (hd DEFAULT_BROKERS)"

definition any_host :: "jstr \<Rightarrow> (jstr \<times> jstr) option" where
  "any_host u = Some (str ''wss:'', str ''host'')"

theorem parsed_brokers_sound_witness:
  "loadServedBrokers any_host (Some (saveServedBrokers [sample_broker])) = Some [sample_broker]"
proof -
  have "broker_ok any_host sample_broker"
    by (simp add: broker_ok_def sample_broker_def DEFAULT_BROKERS_def default_broker_def hostOf_def
        any_host_def RESERVED_BROKER_IDS_def)
  then have "parseBrokers any_host (JArr [broker_json sample_broker]) = Some [sample_broker]"
    using parse_loop_json [of "[sample_broker]" any_host "[]" "[]"] by simp
  then show ?thesis using parsed_brokers_sound by blast
qed

text \<open>Destinations never mix: a broker's watermark for a radio is that of the same broker and
  the same radio only (upper or lower case), and never the local copy's.\<close>

theorem destinations_apart:
  assumes "list_all is_hex k" "list_all is_hex k'" "i \<notin> set RESERVED_BROKER_IDS"
  shows "(destId i k = destId j k' \<longleftrightarrow> i = j \<and> toUpperCase k = toUpperCase k')
    \<and> destId i k \<noteq> localDest (toUpperCase k')"
  using destId_inject [OF assms(1,2)] destId_not_local [OF assms] by blast

theorem destinations_apart_witness:
  "destId [98] [65] = destId [98] [97] \<and> destId [98] [65] \<noteq> destId [99] [65]
    \<and> destId [98] [65] \<noteq> localDest [65]"
  using destinations_apart [of "[65]" "[97]" "[98]" "[98]"] destinations_apart [of "[65]" "[65]" "[98]" "[99]"]
  by (simp add: is_hex_def hex_val_def RESERVED_BROKER_IDS_def toUpperCase_def upper_char_def)

text \<open>The page rebuilds a forwarder exactly when its broker changed in what the forwarder uses:
  two brokers have one fingerprint iff they agree in every field but the name and \<open>builtin\<close>.\<close>

theorem fingerprint_is_identity:
  "brokerFingerprint b = brokerFingerprint c \<longleftrightarrow>
     b\<lparr>br_name := [], br_builtin := False\<rparr> = c\<lparr>br_name := [], br_builtin := False\<rparr>"
  by (cases b; cases c) (auto simp: brokerFingerprint_eq)

end
