(* ===== verification/Payloads.thy ===== *)
theory Payloads
  imports Messages Json
begin

section \<open>Topics and the observer packet (wardrive/forward/payloads.ts)\<close>

text \<open>
  The topics a broker is published to and the observer packet made of a stored obs. A
  reception time is an integer, so it is always a valid date; the calendar is the proleptic
  Gregorian one of the language's \<^verbatim>\<open>Date\<close>.
\<close>

definition obsTopic :: "jstr \<Rightarrow> jstr \<Rightarrow> jstr" where
  "obsTopic label radioKey =
     str ''meshcore/'' @ label @ str ''/'' @ toUpperCase radioKey @ str ''/wardriver/obs''"

definition trackTopic :: "jstr \<Rightarrow> jstr \<Rightarrow> jstr" where
  "trackTopic label radioKey =
     str ''meshcore/'' @ label @ str ''/'' @ toUpperCase radioKey @ str ''/wardriver/track''"

definition withPubAt :: "obs_message \<Rightarrow> int \<Rightarrow> obs_message" where
  "withPubAt obs pubAt = obs\<lparr>ob_pub_at := Some pubAt\<rparr>"

definition PAYLOAD_TYPE_NAMES :: "jstr list" where
  "PAYLOAD_TYPE_NAMES = map str
     [''Request'', ''Response'', ''TextMessage'', ''Ack'', ''Advert'', ''GroupText'', ''GroupData'',
      ''AnonRequest'', ''Path'', ''Trace'', ''Multipart'', ''Control'']"

definition RAW_CUSTOM :: nat where "RAW_CUSTOM = 15"

definition payloadTypeName :: "nat \<Rightarrow> jstr" where
  "payloadTypeName t =
     (if t = RAW_CUSTOM then str ''RawCustom''
      else if t < length PAYLOAD_TYPE_NAMES then PAYLOAD_TYPE_NAMES ! t
      else str ''Unknown (0x'' @ toString16 t @ str '')'')"

definition observerTopic :: "jstr \<Rightarrow> jstr \<Rightarrow> jstr" where
  "observerTopic region radioKey =
     str ''meshcore/'' @ toUpperCase region @ str ''/'' @ toUpperCase radioKey @ str ''/packets''"

text \<open>The letters of \<^verbatim>\<open>ROUTE_LETTERS\<close>.\<close>

datatype wire_route = LetterF | LetterD | LetterT

definition ROUTE_LETTERS :: "wire_route list" where
  "ROUTE_LETTERS = [LetterF, LetterF, LetterD, LetterT]"

fun letter_of :: "route_letter \<Rightarrow> wire_route" where
  "letter_of RouteF = LetterF"
| "letter_of RouteD = LetterD"

definition pad2 :: "int \<Rightarrow> jstr" where
  "pad2 n = padStart 2 48 (decimal_int n)"

text \<open>\<^verbatim>\<open>Date\<close>: the UTC fields of a time in milliseconds. Days are counted in eras of 400
  years that start on 1 March.\<close>

definition utc_day :: "int \<Rightarrow> int" where "utc_day ms = ms div 86400000"

definition getUTCHours :: "int \<Rightarrow> int" where "getUTCHours ms = ms div 3600000 mod 24"
definition getUTCMinutes :: "int \<Rightarrow> int" where "getUTCMinutes ms = ms div 60000 mod 60"
definition getUTCSeconds :: "int \<Rightarrow> int" where "getUTCSeconds ms = ms div 1000 mod 60"

definition era_day :: "int \<Rightarrow> int" where
  "era_day ms = (utc_day ms + 719468) mod 146097"

definition year_of_era :: "int \<Rightarrow> int" where
  "year_of_era doe = (doe - doe div 1460 + doe div 36524 - doe div 146096) div 365"

definition day_of_year :: "int \<Rightarrow> int" where
  "day_of_year doe =
     (let y = year_of_era doe in doe - (365 * y + y div 4 - y div 100))"

definition march_month :: "int \<Rightarrow> int" where
  "march_month doy = (5 * doy + 2) div 153"

definition getUTCDate :: "int \<Rightarrow> int" where
  "getUTCDate ms =
     (let doy = day_of_year (era_day ms) in doy - (153 * march_month doy + 2) div 5 + 1)"

text \<open>\<^verbatim>\<open>getUTCMonth() + 1\<close>: 1 to 12.\<close>

definition utc_month :: "int \<Rightarrow> int" where
  "utc_month ms =
     (let mp = march_month (day_of_year (era_day ms)) in if mp < 10 then mp + 3 else mp - 9)"

definition getUTCFullYear :: "int \<Rightarrow> int" where
  "getUTCFullYear ms =
     year_of_era (era_day ms) + (utc_day ms + 719468) div 146097 * 400
     + (if utc_month ms \<le> 2 then 1 else 0)"

datatype num_or_unknown = Known jsnum | Unknown

definition known :: "jsnum option \<Rightarrow> num_or_unknown" where
  "known v = (case v of None \<Rightarrow> Unknown | Some x \<Rightarrow> Known x)"

record observer_packet =
  pk_origin :: jstr
  pk_origin_id :: jstr
  pk_timestamp :: int
  pk_type :: jstr
  pk_direction :: jstr
  pk_time :: jstr
  pk_date :: jstr
  pk_len :: jstr
  pk_packet_type :: jstr
  pk_route :: wire_route
  pk_payload_len :: jstr
  pk_raw :: jstr
  pk_SNR :: num_or_unknown
  pk_RSSI :: num_or_unknown
  pk_hash :: jstr
  pk_path :: "jstr option"

definition packet_route :: "obs_message \<Rightarrow> wire_route" where
  "packet_route obs =
     (case parseInt16 (take 2 (ob_raw obs)) of
        None \<Rightarrow> (case ob_route obs of None \<Rightarrow> LetterF | Some r \<Rightarrow> letter_of r)
      | Some header \<Rightarrow> ROUTE_LETTERS ! nat (header mod 4))"

definition observerPacket :: "obs_message \<Rightarrow> jstr option \<Rightarrow> observer_packet" where
  "observerPacket obs radioName =
     (let when = ob_rx_at obs;
          route = packet_route obs
      in \<lparr>pk_origin = (case radioName of
            None \<Rightarrow> str ''MeshCore Device''
          | Some n \<Rightarrow> if n = [] then str ''MeshCore Device'' else n),
          pk_origin_id = toUpperCase (ob_origin_id obs), pk_timestamp = ob_rx_at obs,
          pk_type = str ''PACKET'', pk_direction = str ''rx'',
          pk_time = pad2 (getUTCHours when) @ str '':'' @ pad2 (getUTCMinutes when) @ str '':''
            @ pad2 (getUTCSeconds when),
          pk_date = pad2 (getUTCDate when) @ str ''/'' @ pad2 (utc_month when) @ str ''/''
            @ decimal_int (getUTCFullYear when),
          pk_len = decimal (ob_len obs), pk_packet_type = decimal (ob_packet_type obs),
          pk_route = route, pk_payload_len = decimal (ob_payload_len obs),
          pk_raw = toUpperCase (ob_raw obs), pk_SNR = known (ob_SNR obs),
          pk_RSSI = known (ob_RSSI obs), pk_hash = toUpperCase (ob_hash obs),
          pk_path = (if route = LetterD then Some (join_with (str '','') (ob_path obs)) else None)\<rparr>)"

subsection \<open>What the observer packet says\<close>

lemma utc_time_bounds:
  "0 \<le> getUTCHours ms" "getUTCHours ms < 24" "0 \<le> getUTCMinutes ms" "getUTCMinutes ms < 60"
  "0 \<le> getUTCSeconds ms" "getUTCSeconds ms < 60"
  by (simp_all add: getUTCHours_def getUTCMinutes_def getUTCSeconds_def)

lemma length_decimal_small: "n < 100 \<Longrightarrow> length (decimal n) \<le> 2"
  by (simp add: decimal.simps [of n] decimal.simps [of "n div 10"] div_less_iff_less_mult)

lemma length_pad2 [simp]: "0 \<le> n \<Longrightarrow> n < 100 \<Longrightarrow> length (pad2 n) = 2"
  using length_decimal_small [of "nat n"] by (simp add: pad2_def decimal_int_def)

text \<open>A leap day and a year's end.\<close>

lemma calendar_examples:
  "(getUTCFullYear 951782400000, utc_month 951782400000, getUTCDate 951782400000) = (2000, 2, 29)"
  "(getUTCFullYear 1798761599999, utc_month 1798761599999, getUTCDate 1798761599999) = (2026, 12, 31)"
  by (simp_all add: getUTCFullYear_def utc_month_def getUTCDate_def utc_day_def era_day_def
      year_of_era_def day_of_year_def march_month_def)

lemma route_of_header:
  assumes "buildObs sha rec k p = Some ob"
  shows "packet_route ob = ROUTE_LETTERS ! (unat (hd (rc_raw rec)) mod 4)"
proof -
  from assms obtain w where w: "frameWalk (rc_raw rec) = Some w"
    by (cases "frameWalk (rc_raw rec)") (auto simp: buildObs_def Let_def)
  then have "rc_raw rec \<noteq> []" by (auto simp: frameWalk_def)
  then obtain b bs where r: "rc_raw rec = b # bs" by (cases "rc_raw rec") auto
  have "ob_raw ob = bytesToHex (rc_raw rec)" using assms w by (auto simp: buildObs_def Let_def)
  moreover have u: "unat b < 256" by simp
  ultimately have "take 2 (ob_raw ob) = hex2 (unat b)"
    by (simp add: r bytesToHex_Cons)
  then have "parseInt16 (take 2 (ob_raw ob)) = Some (int (unat b))"
    using u by simp
  then show ?thesis by (simp add: packet_route_def r nat_mod_distrib)
qed

text \<open>The observer packet of a reception names its route by the two low bits of the frame's
  first byte (F flood, D direct, T for transport direct), and carries the hop hashes exactly
  when that is D.\<close>

theorem observer_route_is_header:
  assumes "buildObs sha rec k p = Some ob"
  shows "pk_route (observerPacket ob name) = ROUTE_LETTERS ! (unat (hd (rc_raw rec)) mod 4)
    \<and> (pk_path (observerPacket ob name) \<noteq> None \<longleftrightarrow> unat (hd (rc_raw rec)) mod 4 = 2)
    \<and> pk_raw (observerPacket ob name) = toUpperCase (bytesToHex (rc_raw rec))"
proof -
  have raw: "ob_raw ob = bytesToHex (rc_raw rec)"
    using assms by (auto simp: buildObs_def Let_def split: option.splits)
  have "unat (hd (rc_raw rec)) mod 4 \<in> {0, 1, 2, 3}" by auto
  then have "ROUTE_LETTERS ! (unat (hd (rc_raw rec)) mod 4) = LetterD \<longleftrightarrow> unat (hd (rc_raw rec)) mod 4 = 2"
    by (auto simp: ROUTE_LETTERS_def)
  then show ?thesis using route_of_header [OF assms] raw by (simp add: observerPacket_def Let_def)
qed

theorem observer_route_is_header_witness:
  "\<exists>ob. pk_route (observerPacket ob None) = LetterF \<and> pk_path (observerPacket ob None) = None"
proof -
  have "frameWalk (rc_raw sample_reception) \<noteq> None"
    using frameWalk_wire_bytes [OF sample_frame_ok] by (simp add: sample_reception_def)
  then obtain ob where "buildObs (\<lambda>bs. bs) sample_reception [97] None = Some ob"
    using buildObs_None [of "\<lambda>bs. bs" sample_reception "[97]" None] by auto
  moreover have "unat (hd (rc_raw sample_reception)) mod 4 = 1"
    by (simp add: sample_reception_def sample_frame_def wire_bytes_def)
  ultimately show ?thesis
    using observer_route_is_header [of "\<lambda>bs. bs" sample_reception "[97]" None ob None]
    by (intro exI [of _ ob]) (simp add: ROUTE_LETTERS_def)
qed

end
