(* ===== verification/Token.thy ===== *)
theory Token
  imports Packet Json
begin

section \<open>Radio-signed tokens (wardrive/forward/token.ts)\<close>

text \<open>
  A token is two base64url texts and a hex signature joined by dots. The radio signs it:
  \<open>sign\<close> is the companion's answer, \<open>None\<close> when it fails. An exception is the sum's left
  side. \<^verbatim>\<open>btoa\<close> refuses a character above 255, \<^verbatim>\<open>atob\<close> a text that is not base64.
\<close>

subsection \<open>Base64\<close>

definition b64_char :: "nat \<Rightarrow> nat" where
  "b64_char i =
     (if i < 26 then 65 + i else if i < 52 then 71 + i else if i < 62 then i - 4
      else if i = 62 then 43 else 47)"

definition b64_val :: "nat \<Rightarrow> nat option" where
  "b64_val c =
     (if 65 \<le> c \<and> c \<le> 90 then Some (c - 65)
      else if 97 \<le> c \<and> c \<le> 122 then Some (c - 71)
      else if 48 \<le> c \<and> c \<le> 57 then Some (c + 4)
      else if c = 43 then Some 62 else if c = 47 then Some 63 else None)"

fun b64_groups :: "nat list \<Rightarrow> jstr" where
  "b64_groups [] = []"
| "b64_groups [a] = [b64_char (a div 4), b64_char (a mod 4 * 16), 61, 61]"
| "b64_groups [a, b] =
     [b64_char (a div 4), b64_char (a mod 4 * 16 + b div 16), b64_char (b mod 16 * 4), 61]"
| "b64_groups (a # b # c # r) =
     b64_char (a div 4) # b64_char (a mod 4 * 16 + b div 16)
     # b64_char (b mod 16 * 4 + c div 64) # b64_char (c mod 64) # b64_groups r"

definition btoa :: "jstr \<Rightarrow> jstr option" where
  "btoa s = (if list_all (\<lambda>c. c < 256) s then Some (b64_groups s) else None)"

fun b64_decode :: "nat list \<Rightarrow> nat list option" where
  "b64_decode [] = Some []"
| "b64_decode [v] = None"
| "b64_decode [v, w] = Some [v * 4 + w div 16]"
| "b64_decode [v, w, x] = Some [v * 4 + w div 16, w mod 16 * 16 + x div 4]"
| "b64_decode (v # w # x # y # r) =
     map_option (\<lambda>t. (v * 4 + w div 16) # (w mod 16 * 16 + x div 4) # (x mod 4 * 64 + y) # t)
       (b64_decode r)"

definition b64_ws :: "nat \<Rightarrow> bool" where
  "b64_ws c \<longleftrightarrow> c \<in> {9, 10, 12, 13, 32}"

definition strip_pad :: "jstr \<Rightarrow> jstr" where
  "strip_pad s =
     (if length s mod 4 = 0 \<and> s \<noteq> [] \<and> last s = 61
      then (if butlast s \<noteq> [] \<and> last (butlast s) = 61 then butlast (butlast s) else butlast s)
      else s)"

definition atob :: "jstr \<Rightarrow> jstr option" where
  "atob s =
     (let t = strip_pad (filter (\<lambda>c. \<not> b64_ws c) s)
      in if list_all (\<lambda>c. b64_val c \<noteq> None) t then b64_decode (map (the \<circ> b64_val) t) else None)"

subsection \<open>The module\<close>

definition TOKEN_TTL_S :: int where "TOKEN_TTL_S = 86400"
definition TOKEN_MARGIN_S :: int where "TOKEN_MARGIN_S = 600"

definition url_char :: "nat \<Rightarrow> nat" where
  "url_char c = (if c = 43 then 45 else if c = 47 then 95 else c)"

definition unurl_char :: "nat \<Rightarrow> nat" where
  "unurl_char c = (if c = 45 then 43 else if c = 95 then 47 else c)"

definition b64url :: "jstr \<Rightarrow> jstr option" where
  "b64url t = map_option (\<lambda>b. rev (dropWhile (\<lambda>c. c = 61) (rev (map url_char b)))) (btoa t)"

definition brokerUsername :: "jstr \<Rightarrow> jstr" where
  "brokerUsername publicKey = str ''v1_'' @ toUpperCase publicKey"

definition token_header :: json where
  "token_header = JObj [(str ''alg'', JStr (str ''Ed25519'')), (str ''typ'', JStr (str ''JWT''))]"

definition token_claims :: "jstr \<Rightarrow> jstr \<Rightarrow> int \<Rightarrow> json" where
  "token_claims publicKey audience nowSec =
     JObj [(str ''publicKey'', JStr (toUpperCase publicKey)), (str ''aud'', JStr audience),
           (str ''iat'', JNum (Fin (of_int nowSec))),
           (str ''exp'', JNum (Fin (of_int (nowSec + TOKEN_TTL_S))))]"

datatype token_error = NotLatin1 | SignFailed | BadSignature

definition buildToken ::
  "jstr \<Rightarrow> jstr \<Rightarrow> int \<Rightarrow> (bytes \<Rightarrow> bytes option) \<Rightarrow> token_error + jstr" where
  "buildToken publicKey audience nowSec sign =
     (case (b64url (stringify token_header),
            b64url (stringify (token_claims publicKey audience nowSec))) of
        (Some h, Some p) \<Rightarrow>
          (let input = h @ [46] @ p in
           case sign (utf8_encode input) of
             None \<Rightarrow> Inl SignFailed
           | Some signature \<Rightarrow>
               if length signature \<noteq> 64 then Inl BadSignature
               else Inr (input @ [46] @ bytesToHex signature))
      | _ \<Rightarrow> Inl NotLatin1)"

definition claims_hold :: "json \<Rightarrow> jstr \<Rightarrow> jstr \<Rightarrow> int \<Rightarrow> bool" where
  "claims_hold claims publicKey audience nowSec \<longleftrightarrow>
     json_prop claims (str ''publicKey'') = Some (JStr (toUpperCase publicKey)) \<and>
     json_prop claims (str ''aud'') = Some (JStr audience) \<and>
     (case json_prop claims (str ''exp'') of
        Some (JNum (Fin e)) \<Rightarrow> e - of_int nowSec > of_int TOKEN_MARGIN_S
      | _ \<Rightarrow> False)"

definition tokenUsable :: "jstr option \<Rightarrow> jstr \<Rightarrow> jstr \<Rightarrow> int \<Rightarrow> bool" where
  "tokenUsable token publicKey audience nowSec =
     (case token of
        None \<Rightarrow> False
      | Some t \<Rightarrow>
          if t = [] then False
          else
            let parts = split_on 46 t;
                part = (if length parts > 1 then parts ! 1 else [])
            in (case atob (map unurl_char part) of
                  None \<Rightarrow> False
                | Some txt \<Rightarrow>
                    (case json_parse txt of
                       None \<Rightarrow> False
                     | Some claims \<Rightarrow> claims_hold claims publicKey audience nowSec)))"

subsection \<open>Base64 reads back\<close>

lemma b64_val_char [simp]: "i < 64 \<Longrightarrow> b64_val (b64_char i) = Some i"
  by (auto simp: b64_val_def b64_char_def)

lemma b64_char_plain: "i < 64 \<Longrightarrow> unurl_char (url_char (b64_char i)) = b64_char i \<and>
    url_char (b64_char i) \<noteq> 46 \<and> url_char (b64_char i) \<noteq> 61 \<and> \<not> b64_ws (b64_char i) \<and>
    b64_char i \<noteq> 61"
  by (auto simp: b64_char_def url_char_def unurl_char_def b64_ws_def)

text \<open>The digits of a text, without padding, and how the padded text shows them.\<close>

fun b64_digits :: "nat list \<Rightarrow> nat list" where
  "b64_digits [] = []"
| "b64_digits [a] = [a div 4, a mod 4 * 16]"
| "b64_digits [a, b] = [a div 4, a mod 4 * 16 + b div 16, b mod 16 * 4]"
| "b64_digits (a # b # c # r) =
     a div 4 # (a mod 4 * 16 + b div 16) # (b mod 16 * 4 + c div 64) # c mod 64 # b64_digits r"

lemma byte_parts:
  fixes a b :: nat
  assumes "a < 256" "b < 256"
  shows "a div 4 < 64" "a mod 4 * 16 < 64" "a mod 4 * 16 + b div 16 < 64"
    "a mod 16 * 4 < 64" "a mod 16 * 4 + b div 64 < 64" "a mod 64 < 64"
proof -
  have "a mod 4 < 4" "a mod 16 < 16" "b div 16 < 16" "b div 64 < 4" using assms by auto
  then show "a div 4 < 64" "a mod 4 * 16 < 64" "a mod 4 * 16 + b div 16 < 64"
    "a mod 16 * 4 < 64" "a mod 16 * 4 + b div 64 < 64" "a mod 64 < 64"
    using assms by auto
qed

lemma b64_digits_less:
  "list_all (\<lambda>c. c < 256) s \<Longrightarrow> list_all (\<lambda>d. d < 64) (b64_digits s)"
  by (induction s rule: b64_digits.induct) (auto simp: byte_parts)

lemma b64_groups_digits: "\<exists>k. b64_groups s = map b64_char (b64_digits s) @ replicate k 61"
proof (induction s rule: b64_groups.induct)
  case (2 a) show ?case by (rule exI [of _ 2]) (simp add: numeral_2_eq_2)
next
  case (3 a b) show ?case by (rule exI [of _ 1]) simp
qed auto

lemma byte_join:
  fixes a b :: nat
  assumes "b < 256"
  shows "a div 4 * 4 + (a mod 4 * 16 + b div 16) div 16 = a"
    "(a mod 4 * 16 + b div 16) mod 16 * 16 + (b mod 16 * 4 + c div 64) div 4 =
       b + (c div 64) div 4"
    "a div 4 * 4 + (a mod 4 * 16) div 16 = a"
proof -
  have "b div 16 < 16" using assms by auto
  then show "a div 4 * 4 + (a mod 4 * 16 + b div 16) div 16 = a"
    "(a mod 4 * 16 + b div 16) mod 16 * 16 + (b mod 16 * 4 + c div 64) div 4 =
       b + (c div 64) div 4"
    by (simp_all add: mod_mult_self3)
  show "a div 4 * 4 + (a mod 4 * 16) div 16 = a" by simp
qed

lemma b64_decode_digits:
  "list_all (\<lambda>c. c < 256) s \<Longrightarrow> b64_decode (b64_digits s) = Some s"
proof (induction s rule: b64_digits.induct)
  case (3 a b)
  then show ?case using byte_join(1) [of b a] byte_join(2) [of b a 0] by simp
next
  case (4 a b c r)
  then have "c div 64 < 4" by auto
  then have "(b mod 16 * 4 + c div 64) mod 4 * 64 + c mod 64 = c" "c div 64 div 4 = 0"
    by simp_all
  with 4 show ?case using byte_join(1) [of b a] byte_join(2) [of b a c] by simp
qed (auto simp: byte_join)

lemma dropWhile_replicate: "dropWhile (\<lambda>c. c = x) (replicate k x @ xs) = dropWhile (\<lambda>c. c = x) xs"
  by (induction k) auto

lemma b64url_digits:
  assumes "list_all (\<lambda>c. c < 256) s"
  shows "b64url s = Some (map (url_char \<circ> b64_char) (b64_digits s))"
proof -
  obtain k where k: "b64_groups s = map b64_char (b64_digits s) @ replicate k 61"
    using b64_groups_digits by blast
  have u: "url_char 61 = 61" by (simp add: url_char_def)
  have "dropWhile (\<lambda>c. c = 61) (rev (map (url_char \<circ> b64_char) ds)) =
      rev (map (url_char \<circ> b64_char) ds)" if "list_all (\<lambda>d. d < 64) ds" for ds
    using that by (cases ds rule: rev_cases) (auto simp: b64_char_plain)
  from this [OF b64_digits_less [OF assms]] show ?thesis
    using assms by (simp add: b64url_def btoa_def k u dropWhile_replicate
        flip: rev_map)
qed

lemma atob_digits:
  assumes "list_all (\<lambda>c. c < 256) s"
  shows "atob (map b64_char (b64_digits s)) = Some s"
proof -
  note d = b64_digits_less [OF assms]
  have f: "filter (\<lambda>c. \<not> b64_ws c) (map b64_char (b64_digits s)) = map b64_char (b64_digits s)"
    using d by (auto simp: list_all_iff filter_id_conv b64_char_plain)
  have "last (map b64_char ds) \<noteq> 61" if "list_all (\<lambda>d. d < 64) ds" "ds \<noteq> []" for ds
    using that by (cases ds rule: rev_cases) (auto simp: b64_char_plain)
  with d have p: "strip_pad (map b64_char (b64_digits s)) = map b64_char (b64_digits s)"
    by (auto simp: strip_pad_def)
  have "map (the \<circ> b64_val) (map b64_char (b64_digits s)) = b64_digits s"
    using d by (auto simp: list_all_iff intro: map_idI)
  with p f d show ?thesis
    by (auto simp: atob_def Let_def list_all_iff b64_decode_digits [OF assms])
qed

lemma b64url_reads_back:
  assumes "b64url s = Some t"
  shows "atob (map unurl_char t) = Some s" "46 \<notin> set t"
proof -
  have s: "list_all (\<lambda>c. c < 256) s" using assms by (auto simp: b64url_def btoa_def split: if_splits)
  have t: "t = map (url_char \<circ> b64_char) (b64_digits s)" using b64url_digits [OF s] assms by simp
  note d = b64_digits_less [OF s]
  have "map unurl_char t = map b64_char (b64_digits s)"
    using d by (auto simp: t list_all_iff b64_char_plain)
  then show "atob (map unurl_char t) = Some s" using atob_digits [OF s] by simp
  show "46 \<notin> set t" using d b64_char_plain by (fastforce simp: t list_all_iff)
qed


subsection \<open>What a built token is good for\<close>

lemma claims_read_back:
  assumes "0 \<le> t" "t < 2 ^ 52"
  shows "json_parse (stringify (token_claims k a t)) = Some (token_claims k a t)"
proof (rule json_parse_stringify)
  have "\<bar>t\<bar> < 2 ^ 53" "\<bar>t + TOKEN_TTL_S\<bar> < 2 ^ 53" using assms by (auto simp: TOKEN_TTL_S_def)
  then show "plain_json (token_claims k a t)" unfolding token_claims_def
    by (simp del: of_int_add)
qed

lemma claims_hold_built:
  "claims_hold (token_claims k a t) k' a' now \<longleftrightarrow>
     toUpperCase k' = toUpperCase k \<and> a' = a \<and> t + TOKEN_TTL_S - now > TOKEN_MARGIN_S"
proof -
  have "(of_int (t + TOKEN_TTL_S) - of_int now > (of_int TOKEN_MARGIN_S :: real)) \<longleftrightarrow>
      t + TOKEN_TTL_S - now > TOKEN_MARGIN_S"
    by (metis of_int_diff of_int_less_iff)
  then show ?thesis by (auto simp: claims_hold_def token_claims_def str_inject)
qed

lemma buildToken_shape:
  assumes "buildToken k a t sign = Inr tok"
  shows "\<exists>h p sig. tok = h @ 46 # p @ 46 # bytesToHex sig \<and> length sig = 64
    \<and> sign (utf8_encode (h @ 46 # p)) = Some sig
    \<and> b64url (stringify token_header) = Some h \<and> b64url (stringify (token_claims k a t)) = Some p"
  using assms by (auto simp: buildToken_def Let_def split: option.splits if_splits)

lemma no_dot_in_hex: "46 \<notin> set (bytesToHex bs)"
  using bytesToHex_lower_hex [of bs] by (auto simp: list_all_iff is_lower_hex_def)

lemma tokenUsable_built:
  assumes "buildToken k a t sign = Inr tok" "0 \<le> t" "t < 2 ^ 52"
  shows "tokenUsable (Some tok) k' a' now \<longleftrightarrow>
     toUpperCase k' = toUpperCase k \<and> a' = a \<and> t + TOKEN_TTL_S - now > TOKEN_MARGIN_S"
proof -
  from buildToken_shape [OF assms(1)] obtain h p sig
    where tok: "tok = h @ 46 # p @ 46 # bytesToHex sig"
      and h: "b64url (stringify token_header) = Some h"
      and p: "b64url (stringify (token_claims k a t)) = Some p" by blast
  have "split_on 46 tok = split_on 46 h @ split_on 46 p @ split_on 46 (bytesToHex sig)"
    unfolding tok by (simp only: split_on_append)
  also have "\<dots> = [h, p, bytesToHex sig]"
    using b64url_reads_back(2) [OF h] b64url_reads_back(2) [OF p] no_dot_in_hex
    by (simp add: split_on_no_sep)
  finally have s: "split_on 46 tok = [h, p, bytesToHex sig]" .
  have "tok \<noteq> []" by (simp add: tok)
  then show ?thesis
    unfolding tokenUsable_def
    by (simp add: s b64url_reads_back(1) [OF p] claims_read_back [OF assms(2,3)] claims_hold_built)
qed

text \<open>A token the radio signed is usable exactly for the key and audience it was built for, and
  exactly while more than the ten-minute margin of its day is left: for one second less it is
  signed anew, never earlier.\<close>

theorem built_token_usable:
  assumes "buildToken k a t sign = Inr tok" "0 \<le> t" "t < 2 ^ 52"
  shows "tokenUsable (Some tok) k' a' now \<longleftrightarrow>
     toUpperCase k' = toUpperCase k \<and> a' = a \<and> now < t + 86400 - 600"
  using tokenUsable_built [OF assms] by (auto simp: TOKEN_TTL_S_def TOKEN_MARGIN_S_def)

theorem built_token_usable_witness:
  "\<exists>tok. buildToken [97] [98] 1000 (\<lambda>_. Some (replicate 64 7)) = Inr tok
     \<and> tokenUsable (Some tok) [65] [98] 86799 \<and> \<not> tokenUsable (Some tok) [65] [98] 86800"
proof -
  have "\<exists>h. b64url (stringify token_header) = Some h" "\<exists>p. b64url (stringify (token_claims [97] [98] 1000)) = Some p"
    by (simp_all add: b64url_def btoa_def token_header_def token_claims_def TOKEN_TTL_S_def json_quote_def
        json_char_def decimal_int_def decimal.simps toUpperCase_def upper_char_def)
  then obtain tok where tok: "buildToken [97] [98] 1000 (\<lambda>_. Some (replicate 64 7)) = Inr tok"
    by (auto simp: buildToken_def Let_def)
  have "toUpperCase [65] = toUpperCase [97]" by (simp add: toUpperCase_def upper_char_def)
  then show ?thesis using built_token_usable [OF tok] tok by (intro exI [of _ tok]) simp
qed

end
