(* ===== verification/Forwarder.thy ===== *)
theory Forwarder
  imports Brokers Payloads Token
begin

section \<open>The forwarder (wardrive/forward/forwarder.ts)\<close>

text \<open>
  One forwarder publishes one radio's rows to one broker. What it awaits is the world: a
  clock \<open>f_awaits\<close> counts the awaits, \<open>w_event n\<close> says what else happened during the
  \<open>n\<close>-th (the driver switched the broker off, the connection closed, the queue changed),
  \<open>w_sign\<close>, \<open>w_connect\<close> and \<open>w_publish\<close> are the answers of the radio and the broker.
  The log of publishes is there for the properties.
\<close>

definition FWD_BATCH :: nat where "FWD_BATCH = 50"
definition FWD_MAX_BATCHES :: nat where "FWD_MAX_BATCHES = 20"

datatype fwd_state = FOff | FConnecting | FConnected | FSignFailed | FError

datatype fwd_problem = NoAccount | TokenProblem token_error | Remote jstr

datatype fwd_payload = PObs obs_message | PTrack track_message | PPacket observer_packet

record mqtt_credentials =
  mc_username :: jstr
  mc_password :: jstr
  mc_clientId :: jstr

record fwd_event =
  ev_stop :: bool
  ev_close :: bool
  ev_queue :: "queue \<Rightarrow> queue"

record fwd_world =
  fw_event :: "nat \<Rightarrow> fwd_event"
  fw_nowSec :: "nat \<Rightarrow> int"
  fw_nowMs :: "nat \<Rightarrow> int"
  fw_sign :: "nat \<Rightarrow> bytes \<Rightarrow> bytes option"
  fw_connect :: "nat \<Rightarrow> jstr \<Rightarrow> mqtt_credentials \<Rightarrow> jstr option"
  fw_publish :: "nat \<Rightarrow> jstr \<Rightarrow> fwd_payload \<Rightarrow> jstr option"

record publish_entry =
  pe_kind :: queue_kind
  pe_row :: stored_row
  pe_topic :: jstr
  pe_payload :: fwd_payload
  pe_acked :: bool

record forward_options =
  fo_broker :: broker
  fo_radioKey :: jstr
  fo_radioName :: "jstr option"

record forwarder =
  f_client :: bool
  f_running :: bool
  f_stopped :: bool
  f_state :: fwd_state
  f_lastError :: "fwd_problem option"
  f_after :: bool
  f_tokens :: "(jstr \<times> jstr) list"
  f_awaits :: nat
  f_log :: "publish_entry list"

record forward_status =
  fs_state :: fwd_state
  fs_pending :: nat
  fs_lastError :: "fwd_problem option"

type_synonym fwd = "forwarder \<times> queue"

definition newForwarder :: "bool \<Rightarrow> (jstr \<times> jstr) list \<Rightarrow> forwarder" where
  "newForwarder after tokens =
     \<lparr>f_client = False, f_running = False, f_stopped = False, f_state = FOff, f_lastError = None,
      f_after = after, f_tokens = tokens, f_awaits = 0, f_log = []\<rparr>"

definition fwd_key :: "forward_options \<Rightarrow> jstr" where
  "fwd_key opts = toUpperCase (fo_radioKey opts)"

definition fwd_dest :: "forward_options \<Rightarrow> jstr" where
  "fwd_dest opts = destId (br_id (fo_broker opts)) (fwd_key opts)"

text \<open>\<^verbatim>\<open>stop()\<close> up to its awaits: nothing of the forwarder changes after them.\<close>

definition fwd_stop :: "forwarder \<Rightarrow> forwarder" where
  "fwd_stop f = f\<lparr>f_stopped := True, f_client := False, f_state := FOff\<rparr>"

definition await_event :: "fwd_world \<Rightarrow> fwd \<Rightarrow> fwd" where
  "await_event w fq =
     (let (f, q) = fq;
          e = fw_event w (f_awaits f);
          f = f\<lparr>f_awaits := f_awaits f + 1\<rparr>;
          f = (if ev_stop e then fwd_stop f else f);
          f = (if ev_close e then f\<lparr>f_client := False\<rparr> else f)
      in (f, ev_queue e q))"

definition client_id :: "forward_options \<Rightarrow> jstr" where
  "client_id opts = str ''wardrive-'' @ toLowerCase (fwd_key opts)"

definition credentials ::
  "fwd_world \<Rightarrow> forward_options \<Rightarrow> fwd \<Rightarrow> mqtt_credentials option \<times> fwd" where
  "credentials w opts fq =
     (let (f, q) = fq; b = fo_broker opts in
      if br_auth b = AuthPassword then
        (if br_username b \<in> {None, Some []} \<or> br_password b \<in> {None, Some []}
         then (None, f\<lparr>f_state := FError, f_lastError := Some NoAccount\<rparr>, q)
         else (Some \<lparr>mc_username = the (br_username b), mc_password = the (br_password b),
                     mc_clientId = client_id opts\<rparr>, f, q))
      else
        let audience = br_audience b;
            tokenKey = audience @ str ''@'' @ fwd_key opts;
            token = map_of (f_tokens f) tokenKey;
            now = fw_nowSec w (f_awaits f);
            creds = (\<lambda>t. \<lparr>mc_username = brokerUsername (fwd_key opts), mc_password = t,
                          mc_clientId = client_id opts\<rparr>)
        in if tokenUsable token (fwd_key opts) audience now then (Some (creds (the token)), f, q)
        else
          let built = buildToken (fwd_key opts) audience now (fw_sign w (f_awaits f));
              (f, q) = await_event w (f, q)
          in case built of
               Inl e \<Rightarrow> (None, f\<lparr>f_state := FSignFailed, f_lastError := Some (TokenProblem e)\<rparr>, q)
             | Inr t \<Rightarrow> (Some (creds t), f\<lparr>f_tokens := amap_set tokenKey t (f_tokens f)\<rparr>, q))"

definition ensureClient :: "fwd_world \<Rightarrow> forward_options \<Rightarrow> fwd \<Rightarrow> bool \<times> fwd" where
  "ensureClient w opts fq =
     (let (f, q) = fq in
      if f_client f then (True, f, q)
      else
        let (creds, f, q) = credentials w opts (f\<lparr>f_state := FConnecting\<rparr>, q)
        in case creds of
             None \<Rightarrow> (False, f, q)
           | Some c \<Rightarrow>
               if f_stopped f then (False, f, q)
               else
                 let answer = fw_connect w (f_awaits f) (br_url (fo_broker opts)) c;
                     (f, q) = await_event w (f, q)
                 in case answer of
                      Some e \<Rightarrow> (False, f\<lparr>f_state := FError, f_lastError := Some (Remote e)\<rparr>, q)
                    | None \<Rightarrow>
                        if f_stopped f then (False, await_event w (f, q))
                        else (True, f\<lparr>f_client := True\<rparr>, q))"

definition topicFor :: "forward_options \<Rightarrow> queue_kind \<Rightarrow> jstr" where
  "topicFor opts kind =
     (let label = (case br_label (fo_broker opts) of None \<Rightarrow> str ''hunter'' | Some l \<Rightarrow> l)
      in case kind of KObs \<Rightarrow> obsTopic label (fwd_key opts) | KTrack \<Rightarrow> trackTopic label (fwd_key opts))"

definition row_topic :: "forward_options \<Rightarrow> queue_kind \<Rightarrow> jstr" where
  "row_topic opts kind =
     (if br_format (fo_broker opts) = FormatPackets
      then observerTopic (case br_region (fo_broker opts) of None \<Rightarrow> str ''nl'' | Some r \<Rightarrow> r)
             (fwd_key opts)
      else topicFor opts kind)"

text \<open>The rows of the obs store hold obs messages; the other match is never reached.\<close>

definition row_payload :: "forward_options \<Rightarrow> int \<Rightarrow> stored_row \<Rightarrow> fwd_payload" where
  "row_payload opts nowMs row =
     (case sr_message row of
        QTrack t \<Rightarrow> PTrack t
      | QObs obs \<Rightarrow>
          if br_format (fo_broker opts) = FormatPackets
          then PPacket (observerPacket obs (fo_radioName opts))
          else PObs (withPubAt obs nowMs))"

datatype row_exit = RowsDone | DrainReturns bool

fun row_loop ::
  "fwd_world \<Rightarrow> forward_options \<Rightarrow> queue_kind \<Rightarrow> stored_row list \<Rightarrow> fwd \<Rightarrow> row_exit \<times> fwd" where
  "row_loop w opts kind [] fq = (RowsDone, fq)"
| "row_loop w opts kind (row # rows) fq =
     (let (f, q) = fq in
      if f_stopped f \<or> \<not> f_client f then (DrainReturns True, f, q)
      else
        let n = f_awaits f;
            topic = row_topic opts kind;
            payload = row_payload opts (fw_nowMs w n) row;
            answer = fw_publish w n topic payload;
            entry = \<lparr>pe_kind = kind, pe_row = row, pe_topic = topic, pe_payload = payload,
                     pe_acked = (answer = None)\<rparr>;
            (f, q) = await_event w (f\<lparr>f_log := f_log f @ [entry]\<rparr>, q)
        in case answer of
             Some e \<Rightarrow> (DrainReturns False, f\<lparr>f_lastError := Some (Remote e)\<rparr>, q)
           | None \<Rightarrow> row_loop w opts kind rows (f, ack q (fwd_dest opts) kind (sr_id row)))"

function drain_loop ::
  "fwd_world \<Rightarrow> forward_options \<Rightarrow> queue_kind \<Rightarrow> nat \<Rightarrow> fwd \<Rightarrow> bool \<times> fwd" where
  "drain_loop w opts kind i fq =
     (if i \<ge> FWD_MAX_BATCHES then (True, fq)
      else
        let rows = batchForRadio (snd fq) (fwd_dest opts) kind (fwd_key opts) FWD_BATCH False;
            fq = await_event w fq
        in if rows = [] then (True, fq)
        else (case row_loop w opts kind rows fq of
                (DrainReturns b, fq') \<Rightarrow> (b, fq')
              | (RowsDone, fq') \<Rightarrow> drain_loop w opts kind (i + 1) fq'))"
  by pat_completeness auto
termination by (relation "measure (\<lambda>(_, _, _, i, _). FWD_MAX_BATCHES - i)") auto

declare drain_loop.simps [simp del]

definition fwd_drain :: "fwd_world \<Rightarrow> forward_options \<Rightarrow> queue_kind \<Rightarrow> fwd \<Rightarrow> bool \<times> fwd" where
  "fwd_drain w opts kind fq =
     (if br_format (fo_broker opts) = FormatPackets \<and> kind = KTrack then
        (let n = lastId (snd fq) kind;
             (f, q) = await_event w fq
         in (True, f, ack q (fwd_dest opts) kind n))
      else drain_loop w opts kind 0 fq)"

definition fwd_status :: "forward_options \<Rightarrow> fwd \<Rightarrow> forward_status" where
  "fwd_status opts fq =
     (let (f, q) = fq;
          obs = countForRadio q (fwd_dest opts) KObs (fwd_key opts);
          tracks = (if br_format (fo_broker opts) = FormatPackets then 0
                    else countForRadio q (fwd_dest opts) KTrack (fwd_key opts))
      in \<lparr>fs_state = f_state f, fs_pending = obs + tracks, fs_lastError = f_lastError f\<rparr>)"

fun drain_kinds :: "fwd_world \<Rightarrow> forward_options \<Rightarrow> queue_kind list \<Rightarrow> fwd \<Rightarrow> bool \<times> fwd" where
  "drain_kinds w opts [] fq = (True, fq)"
| "drain_kinds w opts (kind # kinds) fq =
     (case fwd_drain w opts kind fq of
        (True, fq') \<Rightarrow> drain_kinds w opts kinds fq'
      | (False, fq') \<Rightarrow> (False, fq'))"

text \<open>The body of \<^verbatim>\<open>tick\<close> once it is running, before its status.\<close>

definition tick_body :: "fwd_world \<Rightarrow> forward_options \<Rightarrow> fwd \<Rightarrow> fwd" where
  "tick_body w opts fq =
     (let (f, q) = fq;
          (f, q) = (if f_after f
                    then (let (f, q) = await_event w (f, q) in (f\<lparr>f_after := False\<rparr>, q))
                    else (f, q));
          (ready, f, q) = ensureClient w opts (f, q)
      in if \<not> ready then ((if f_stopped f then f\<lparr>f_state := FOff\<rparr> else f), q)
      else case drain_kinds w opts [KObs, KTrack] (f, q) of
             (False, f, q) \<Rightarrow>
               if f_client f
               then await_event w (f\<lparr>f_state := FError, f_client := False\<rparr>, q)
               else (f\<lparr>f_state := FError\<rparr>, q)
           | (True, f, q) \<Rightarrow>
               (f\<lparr>f_state := (if f_stopped f then FOff else FConnected), f_lastError := None\<rparr>, q))"

definition fwd_tick :: "fwd_world \<Rightarrow> forward_options \<Rightarrow> fwd \<Rightarrow> forward_status \<times> fwd" where
  "fwd_tick w opts fq =
     (if f_running (fst fq) then (fwd_status opts fq, fq)
      else (let fq' = tick_body w opts fq in (fwd_status opts fq', fq')))"


subsection \<open>Rows leave only with their acknowledgement\<close>

text \<open>
  \<open>moved a s b\<close>: of what was owed (\<open>a\<close>) and what came in meanwhile, \<open>s\<close> was taken from
  the front and \<open>b\<close> is owed now. \<open>keeps_owed\<close> is what the forwarder relies on from other
  code: while it waits, the rows it is owed are only added to.
\<close>

definition moved :: "'a list \<Rightarrow> 'a list \<Rightarrow> 'a list \<Rightarrow> bool" where
  "moved a s b \<longleftrightarrow> (\<exists>extra. a @ extra = s @ b)"

lemma moved_refl [simp]: "moved a [] a"
  by (simp add: moved_def)

lemma moved_add: "moved a [] (a @ e)"
  by (auto simp: moved_def)

lemma moved_one: "moved (r # a) [r] a"
  by (auto simp: moved_def)

lemma moved_trans: "moved a s b \<Longrightarrow> moved b t c \<Longrightarrow> moved a (s @ t) c"
  unfolding moved_def by (metis append.assoc)

definition fwd_owed :: "forward_options \<Rightarrow> queue_kind \<Rightarrow> queue \<Rightarrow> stored_row list" where
  "fwd_owed opts k q = radio_rows q (fwd_dest opts) k (fwd_key opts)"

definition keeps_owed :: "fwd_world \<Rightarrow> forward_options \<Rightarrow> bool" where
  "keeps_owed w opts \<longleftrightarrow> (\<forall>n q. queue_inv q \<longrightarrow> queue_inv (ev_queue (fw_event w n) q) \<and>
     (\<forall>k. \<exists>extra. fwd_owed opts k (ev_queue (fw_event w n) q) = fwd_owed opts k q @ extra))"

definition delivered :: "queue_kind \<Rightarrow> publish_entry list \<Rightarrow> stored_row list" where
  "delivered k es = map pe_row (filter (\<lambda>e. pe_kind e = k \<and> pe_acked e) es)"

lemma delivered_append [simp]: "delivered k (a @ b) = delivered k a @ delivered k b"
  by (simp add: delivered_def)

lemma delivered_Nil [simp]: "delivered k [] = []"
  by (simp add: delivered_def)

definition entry_ok :: "forward_options \<Rightarrow> publish_entry \<Rightarrow> bool" where
  "entry_ok opts e \<longleftrightarrow> sr_radioKey (pe_row e) = fwd_key opts \<and>
     pe_topic e = row_topic opts (pe_kind e) \<and> (\<exists>t. pe_payload e = row_payload opts t (pe_row e)) \<and>
     \<not> (br_format (fo_broker opts) = FormatPackets \<and> pe_kind e = KTrack)"

definition fwd_moves ::
  "forward_options \<Rightarrow> queue_kind set \<Rightarrow> bool \<Rightarrow> fwd \<Rightarrow> fwd \<Rightarrow> bool" where
  "fwd_moves opts ks ok fq fq' \<longleftrightarrow> queue_inv (snd fq') \<and>
     (\<exists>new. f_log (fst fq') = f_log (fst fq) @ new \<and> list_all (entry_ok opts) new \<and>
        (\<forall>e \<in> set (butlast new). pe_acked e) \<and> (ok \<longrightarrow> (\<forall>e \<in> set new. pe_acked e)) \<and>
        (\<forall>k \<in> ks. moved (fwd_owed opts k (snd fq)) (delivered k new) (fwd_owed opts k (snd fq'))))"

lemma fwd_moves_refl:
  "f_log (fst fq') = f_log (fst fq) \<Longrightarrow> snd fq' = snd fq \<Longrightarrow> queue_inv (snd fq) \<Longrightarrow>
   fwd_moves opts ks ok fq fq'"
  by (auto simp: fwd_moves_def)

lemma fwd_moves_weaken: "fwd_moves opts ks True a b \<Longrightarrow> fwd_moves opts ks ok a b"
  by (auto simp: fwd_moves_def)

lemma fwd_moves_inv: "fwd_moves opts ks ok a b \<Longrightarrow> queue_inv (snd b)"
  by (simp add: fwd_moves_def)

lemma fwd_moves_trans:
  assumes "fwd_moves opts ks True a b" "fwd_moves opts ks ok b c"
  shows "fwd_moves opts ks ok a c"
proof -
  obtain n1 where 1: "f_log (fst b) = f_log (fst a) @ n1" "list_all (entry_ok opts) n1"
    "\<forall>e \<in> set n1. pe_acked e"
    "\<And>k. k \<in> ks \<Longrightarrow> moved (fwd_owed opts k (snd a)) (delivered k n1) (fwd_owed opts k (snd b))"
    using assms(1) unfolding fwd_moves_def by blast
  obtain n2 where 2: "queue_inv (snd c)" "f_log (fst c) = f_log (fst b) @ n2"
    "list_all (entry_ok opts) n2" "\<forall>e \<in> set (butlast n2). pe_acked e"
    "ok \<longrightarrow> (\<forall>e \<in> set n2. pe_acked e)"
    "\<And>k. k \<in> ks \<Longrightarrow> moved (fwd_owed opts k (snd b)) (delivered k n2) (fwd_owed opts k (snd c))"
    using assms(2) unfolding fwd_moves_def by blast
  have "\<forall>e \<in> set (butlast (n1 @ n2)). pe_acked e"
    using 1(3) 2(4) by (auto simp: butlast_append dest: in_set_butlastD)
  moreover have "moved (fwd_owed opts k (snd a)) (delivered k (n1 @ n2)) (fwd_owed opts k (snd c))"
    if "k \<in> ks" for k
    using moved_trans [OF 1(4) [OF that] 2(6) [OF that]] by simp
  ultimately show ?thesis
    unfolding fwd_moves_def using 1 2 by (intro conjI exI [of _ "n1 @ n2"]) auto
qed

lemma await_event_moves:
  assumes "keeps_owed w opts" "queue_inv (snd fq)"
  shows "fwd_moves opts ks ok fq (await_event w fq)"
proof -
  obtain f q where fq: "fq = (f, q)" by (cases fq)
  have "\<exists>extra. fwd_owed opts k (ev_queue (fw_event w (f_awaits f)) q) = fwd_owed opts k q @ extra" for k
    using assms unfolding keeps_owed_def fq by auto
  then have "moved (fwd_owed opts k q) [] (fwd_owed opts k (ev_queue (fw_event w (f_awaits f)) q))" for k
    by (metis moved_add)
  then show ?thesis
    using assms by (auto simp: fwd_moves_def await_event_def fq fwd_stop_def keeps_owed_def Let_def)
qed

lemma await_event_owed:
  assumes "keeps_owed w opts" "queue_inv q"
  shows "\<exists>extra. fwd_owed opts k (snd (await_event w (f, q))) = fwd_owed opts k q @ extra"
    "queue_inv (snd (await_event w (f, q)))"
    "f_log (fst (await_event w (f, q))) = f_log f"
  using assms by (auto simp: await_event_def Let_def keeps_owed_def fwd_stop_def)

lemma ack_owed_other: "k' \<noteq> k \<Longrightarrow> fwd_owed opts k' (ack q (fwd_dest opts) k n) = fwd_owed opts k' q"
  by (simp add: fwd_owed_def radio_rows_ack_other)

lemma ack_owed_first:
  "queue_inv q \<Longrightarrow> fwd_owed opts k q = r # rest \<Longrightarrow>
   fwd_owed opts k (ack q (fwd_dest opts) k (sr_id r)) = rest"
  using radio_rows_ack [of q "fwd_dest opts" k "fwd_key opts" "[]" r rest] by (simp add: fwd_owed_def)

definition exit_ok :: "row_exit \<Rightarrow> bool" where
  "exit_ok x \<longleftrightarrow> x \<noteq> DrainReturns False"

lemma row_loop_moves:
  assumes "keeps_owed w opts" "queue_inv (snd fq)" "fwd_owed opts kind (snd fq) = rows @ later"
    "\<not> (br_format (fo_broker opts) = FormatPackets \<and> kind = KTrack)"
    "row_loop w opts kind rows fq = (x, fq')"
  shows "fwd_moves opts UNIV (exit_ok x) fq fq'"
  using assms(2,3,5)
proof (induction rows arbitrary: fq later)
  case Nil
  then show ?case by (auto intro: fwd_moves_refl)
next
  case (Cons row rows)
  obtain f q where fq: "fq = (f, q)" by (cases fq)
  show ?case
  proof (cases "f_stopped f \<or> \<not> f_client f")
    case True
    with Cons.prems show ?thesis by (auto simp: fq intro: fwd_moves_refl)
  next
    case False
    define n where "n = f_awaits f"
    define answer where "answer = fw_publish w n (row_topic opts kind) (row_payload opts (fw_nowMs w n) row)"
    define e where "e = \<lparr>pe_kind = kind, pe_row = row, pe_topic = row_topic opts kind,
      pe_payload = row_payload opts (fw_nowMs w n) row, pe_acked = (answer = None)\<rparr>"
    obtain f1 q1 where a: "await_event w (f\<lparr>f_log := f_log f @ [e]\<rparr>, q) = (f1, q1)"
      by (cases "await_event w (f\<lparr>f_log := f_log f @ [e]\<rparr>, q)")
    have q: "queue_inv q" using Cons.prems(1) by (simp add: fq)
    note aw = await_event_owed [OF assms(1) q, where f = "f\<lparr>f_log := f_log f @ [e]\<rparr>", unfolded a, simplified]
    have key: "sr_radioKey row = fwd_key opts"
    proof -
      have "row \<in> set (fwd_owed opts kind q)" using Cons.prems(2) by (simp add: fq)
      then show ?thesis by (simp add: fwd_owed_def radio_rows_def)
    qed
    have ek: "entry_ok opts e" using key assms(4) by (auto simp: entry_ok_def e_def)
    have mv: "moved (fwd_owed opts k q) [] (fwd_owed opts k q1)" for k
      using aw(1) [of k] moved_add by metis
    have step: "row_loop w opts kind (row # rows) fq = (case answer of
        Some err \<Rightarrow> (DrainReturns False, f1\<lparr>f_lastError := Some (Remote err)\<rparr>, q1)
      | None \<Rightarrow> row_loop w opts kind rows (f1, ack q1 (fwd_dest opts) kind (sr_id row)))"
      using False a unfolding answer_def e_def n_def by (simp add: fq Let_def)
    show ?thesis
    proof (cases answer)
      case (Some err)
      have "row_loop w opts kind (row # rows) fq
          = (DrainReturns False, f1\<lparr>f_lastError := Some (Remote err)\<rparr>, q1)"
        using step Some by simp
      then have r: "x = DrainReturns False" "fq' = (f1\<lparr>f_lastError := Some (Remote err)\<rparr>, q1)"
        using Cons.prems(3) by auto
      have "delivered k [e] = []" for k using Some by (simp add: delivered_def e_def)
      with mv aw ek show ?thesis
        unfolding r fwd_moves_def by (intro conjI exI [of _ "[e]"]) (auto simp: fq exit_ok_def)
    next
      case None
      define q2 where "q2 = ack q1 (fwd_dest opts) kind (sr_id row)"
      have go: "row_loop w opts kind rows (f1, q2) = (x, fq')"
        using Cons.prems(3) step None by (simp add: q2_def)
      obtain extra where o1: "fwd_owed opts kind q1 = row # rows @ later @ extra"
        using aw(1) [of kind] Cons.prems(2) by (auto simp: fq)
      have o2: "fwd_owed opts kind q2 = rows @ later @ extra"
        unfolding q2_def by (rule ack_owed_first [OF aw(2) o1])
      have "moved (fwd_owed opts k q) (delivered k [e]) (fwd_owed opts k q2)" for k
      proof (cases "k = kind")
        case True
        have "delivered k [e] = [row]" using True None by (simp add: delivered_def e_def)
        moreover have "moved (fwd_owed opts k q1) [row] (fwd_owed opts k q2)"
          unfolding True o1 o2 by (rule moved_one)
        ultimately show ?thesis using moved_trans [OF mv [of k]] by (simp only: append_Nil)
      next
        case other: False
        then have "delivered k [e] = []" by (auto simp: delivered_def e_def)
        then show ?thesis using mv [of k] ack_owed_other [OF other] by (simp add: q2_def)
      qed
      then have "fwd_moves opts UNIV True fq (f1, q2)"
        using aw ek None unfolding fwd_moves_def
        by (intro conjI exI [of _ "[e]"]) (auto simp: fq q2_def e_def queue_inv_ack)
      moreover have "fwd_moves opts UNIV (exit_ok x) (f1, q2) fq'"
        using Cons.IH [of "(f1, q2)" "later @ extra"] o2 go aw(2) by (simp add: q2_def queue_inv_ack)
      ultimately show ?thesis by (rule fwd_moves_trans)
    qed
  qed
qed


lemma batch_owed_prefix:
  "\<exists>later. queue_inv q \<longrightarrow> fwd_owed opts k q =
     batchForRadio q (fwd_dest opts) k (fwd_key opts) limit od @ later"
proof (cases "queue_inv q")
  case True
  obtain n where "batchForRadio q (fwd_dest opts) k (fwd_key opts) limit od = take n (fwd_owed opts k q)"
    using radio_queue.batch_prefix [OF True, of limit od "(fwd_dest opts, k, fwd_key opts)"]
    by (auto simp: next_batch_def owed_rows_def fwd_owed_def)
  then show ?thesis by (metis append_take_drop_id)
qed simp

lemma drain_loop_moves:
  assumes "keeps_owed w opts" "queue_inv (snd fq)"
    "\<not> (br_format (fo_broker opts) = FormatPackets \<and> kind = KTrack)"
    "drain_loop w opts kind i fq = (ok, fq')"
  shows "fwd_moves opts UNIV ok fq fq'"
  using assms
proof (induction w opts kind i fq arbitrary: ok fq' rule: drain_loop.induct)
  case (1 w opts kind i fq)
  define rows where "rows = batchForRadio (snd fq) (fwd_dest opts) kind (fwd_key opts) FWD_BATCH False"
  define fq1 where "fq1 = await_event w fq"
  have m1: "fwd_moves opts UNIV True fq fq1"
    unfolding fq1_def by (rule await_event_moves [OF 1(2,3)])
  have q1: "queue_inv (snd fq1)" using m1 by (rule fwd_moves_inv)
  show ?case
  proof (cases "i \<ge> FWD_MAX_BATCHES")
    case True
    then have "fq' = fq" using 1(5) by (simp add: drain_loop.simps [of w opts kind i])
    then show ?thesis using 1(3) by (auto intro: fwd_moves_refl)
  next
    case i: False
    show ?thesis
    proof (cases "rows = []")
      case True
      then have "fq' = fq1" "ok"
        using 1(5) i by (auto simp: drain_loop.simps [of w opts kind i] rows_def fq1_def)
      then show ?thesis using m1 by simp
    next
      case rows: False
      obtain x fq2 where r: "row_loop w opts kind rows fq1 = (x, fq2)"
        by (cases "row_loop w opts kind rows fq1")
      obtain later where l: "fwd_owed opts kind (snd fq) = rows @ later"
        using batch_owed_prefix [of "snd fq" opts kind FWD_BATCH False] 1(3) by (auto simp: rows_def)
      obtain extra where "fwd_owed opts kind (snd fq1) = fwd_owed opts kind (snd fq) @ extra"
        using await_event_owed(1) [OF 1(2,3), of kind "fst fq"] by (auto simp: fq1_def)
      with l have o: "fwd_owed opts kind (snd fq1) = rows @ later @ extra" by simp
      have m2: "fwd_moves opts UNIV (exit_ok x) fq1 fq2"
        by (rule row_loop_moves [OF 1(2) q1 o 1(4) r])
      have d: "drain_loop w opts kind i fq =
          (case x of DrainReturns b \<Rightarrow> (b, fq2) | RowsDone \<Rightarrow> drain_loop w opts kind (i + 1) fq2)"
        using i rows r
        by (subst drain_loop.simps) (simp add: rows_def [symmetric] fq1_def [symmetric])
      show ?thesis
      proof (cases x)
        case (DrainReturns b)
        then have "ok = b" "fq' = fq2" using d 1(5) by auto
        with DrainReturns m2 fwd_moves_trans [OF m1] show ?thesis
          by (cases b) (auto simp: exit_ok_def)
      next
        case RowsDone
        then have d': "drain_loop w opts kind (i + 1) fq2 = (ok, fq')" using d 1(5) by simp
        have "fwd_moves opts UNIV ok fq2 fq'"
          by (rule 1(1) [OF i rows_def fq1_def rows _ _ 1(2) _ 1(4) d', unfolded fq1_def [symmetric]])
             (use RowsDone r fwd_moves_inv [OF m2] in \<open>auto simp: fq1_def\<close>)
        then show ?thesis
          using fwd_moves_trans [OF m1 fwd_moves_trans] m2 RowsDone by (auto simp: exit_ok_def)
      qed
    qed
  qed
qed


text \<open>An observer packets stream has no tracks: they are marked done unsent.\<close>

definition sent_kinds :: "forward_options \<Rightarrow> queue_kind set" where
  "sent_kinds opts = (if br_format (fo_broker opts) = FormatPackets then {KObs} else UNIV)"

lemma fwd_moves_fewer: "fwd_moves opts UNIV ok a b \<Longrightarrow> fwd_moves opts ks ok a b"
  by (auto simp: fwd_moves_def)

lemma fwd_moves_upd:
  "fwd_moves opts ks ok a (f, q) \<Longrightarrow> f_log f' = f_log f \<Longrightarrow> fwd_moves opts ks ok a (f', q)"
  by (simp add: fwd_moves_def)

lemma fwd_moves_from:
  "fwd_moves opts ks ok (f, q) b \<Longrightarrow> f_log f' = f_log f \<Longrightarrow> fwd_moves opts ks ok (f', q) b"
  by (simp add: fwd_moves_def)

lemma fwd_drain_moves:
  assumes "keeps_owed w opts" "queue_inv (snd fq)" "fwd_drain w opts kind fq = (ok, fq')"
  shows "fwd_moves opts (sent_kinds opts) ok fq fq'"
proof (cases "br_format (fo_broker opts) = FormatPackets \<and> kind = KTrack")
  case True
  obtain f1 q1 where a: "await_event w fq = (f1, q1)" by (cases "await_event w fq")
  have "fwd_moves opts {KObs} ok fq (f1, q1)"
    using await_event_moves [OF assms(1,2)] by (simp add: a)
  moreover have "fq' = (f1, ack q1 (fwd_dest opts) KTrack (lastId (snd fq) KTrack))"
    using assms(3) True by (auto simp: fwd_drain_def a)
  ultimately show ?thesis
    using True by (auto simp: fwd_moves_def sent_kinds_def ack_owed_other queue_inv_ack)
next
  case False
  then have "drain_loop w opts kind 0 fq = (ok, fq')" using assms(3) by (auto simp: fwd_drain_def)
  then show ?thesis by (rule drain_loop_moves [OF assms(1,2) False, THEN fwd_moves_fewer])
qed

lemma drain_kinds_moves:
  assumes "keeps_owed w opts" "queue_inv (snd fq)" "drain_kinds w opts kinds fq = (ok, fq')"
  shows "fwd_moves opts (sent_kinds opts) ok fq fq'"
  using assms(2,3)
proof (induction kinds arbitrary: fq)
  case Nil
  then show ?case by (auto intro: fwd_moves_refl)
next
  case (Cons kind kinds)
  obtain b fq1 where d: "fwd_drain w opts kind fq = (b, fq1)" by (cases "fwd_drain w opts kind fq")
  note m = fwd_drain_moves [OF assms(1) Cons.prems(1) d]
  show ?case
  proof (cases b)
    case True
    then have "fwd_moves opts (sent_kinds opts) ok fq1 fq'"
      using Cons.IH [OF fwd_moves_inv [OF m]] Cons.prems(2) d by simp
    from fwd_moves_trans [OF _ this] m True show ?thesis by simp
  next
    case False
    then show ?thesis using m Cons.prems(2) d by auto
  qed
qed

lemma credentials_moves:
  assumes "keeps_owed w opts" "queue_inv (snd fq)" "credentials w opts fq = (c, fq')"
  shows "fwd_moves opts ks ok fq fq'"
proof -
  obtain f q where fq: "fq = (f, q)" by (cases fq)
  obtain f1 q1 where a: "await_event w (f, q) = (f1, q1)" by (cases "await_event w (f, q)")
  have m: "fwd_moves opts ks ok fq (f1, q1)"
    using await_event_moves [OF assms(1,2)] by (simp add: fq a)
  have q: "queue_inv q" using assms(2) by (simp add: fq)
  have l: "f_log f1 = f_log f"
    using await_event_owed(3) [OF assms(1) q, of f] by (simp add: a)
  obtain f' q' where fq': "fq' = (f', q')" by (cases fq')
  have "f_log f' = f_log f \<and> (q' = q \<or> q' = q1)"
    using assms(3) l
    by (auto simp: credentials_def fq fq' a Let_def split: if_splits sum.splits)
  then show ?thesis
    using q l fwd_moves_upd [OF m, of f'] by (auto simp: fq fq' intro: fwd_moves_refl)
qed

lemma ensureClient_moves:
  assumes "keeps_owed w opts" "queue_inv (snd fq)" "ensureClient w opts fq = (b, fq')"
  shows "fwd_moves opts ks ok fq fq'"
proof -
  obtain f q where fq: "fq = (f, q)" by (cases fq)
  have q: "queue_inv q" using assms(2) by (simp add: fq)
  obtain c f1 q1 where c: "credentials w opts (f\<lparr>f_state := FConnecting\<rparr>, q) = (c, f1, q1)"
    by (cases "credentials w opts (f\<lparr>f_state := FConnecting\<rparr>, q)")
  have "fwd_moves opts ks True (f\<lparr>f_state := FConnecting\<rparr>, q) (f1, q1)"
    using credentials_moves [OF assms(1) _ c] q by simp
  then have m1: "fwd_moves opts ks True fq (f1, q1)" unfolding fq by (rule fwd_moves_from) simp
  have q1: "queue_inv (snd (f1, q1))" using m1 by (rule fwd_moves_inv)
  obtain f2 q2 where a2: "await_event w (f1, q1) = (f2, q2)" by (cases "await_event w (f1, q1)")
  have m2: "fwd_moves opts ks True fq (f2, q2)"
    using fwd_moves_trans [OF m1 await_event_moves [OF assms(1) q1]] by (simp add: a2)
  obtain f3 q3 where a3: "await_event w (f2, q2) = (f3, q3)" by (cases "await_event w (f2, q2)")
  have m3: "fwd_moves opts ks True fq (f3, q3)"
    using fwd_moves_trans [OF m2 await_event_moves [OF assms(1) fwd_moves_inv [OF m2]]] by (simp add: a3)
  have "fq' = fq \<or> fq' = (f1, q1) \<or> fq' = (f3, q3) \<or> (\<exists>f'. f_log f' = f_log f2 \<and> fq' = (f', q2))"
    using assms(3)
    by (auto simp: ensureClient_def fq c a2 a3 Let_def split: if_splits option.splits)
  then have "fwd_moves opts ks True fq fq'"
    using m1 m2 m3 q fwd_moves_upd [OF m2] by (auto simp: fq intro: fwd_moves_refl)
  then show ?thesis by (rule fwd_moves_weaken)
qed

lemma tick_body_moves:
  assumes "keeps_owed w opts" "queue_inv (snd fq)"
  shows "fwd_moves opts (sent_kinds opts) False fq (tick_body w opts fq)"
proof -
  let ?ks = "sent_kinds opts"
  obtain f q where fq: "fq = (f, q)" by (cases fq)
  have q: "queue_inv q" using assms(2) by (simp add: fq)
  define s where "s = (if f_after f
    then (let (f, q) = await_event w (f, q) in (f\<lparr>f_after := False\<rparr>, q)) else (f, q))"
  obtain f0 q0 where s0: "s = (f0, q0)" by (cases s)
  obtain fa qa where a: "await_event w (f, q) = (fa, qa)" by (cases "await_event w (f, q)")
  have "fwd_moves opts ?ks True fq (fa, qa)" using await_event_moves [OF assms] by (simp add: fq a)
  then have m0: "fwd_moves opts ?ks True fq (f0, q0)"
    using s0 q by (auto simp: s_def a fq intro: fwd_moves_refl fwd_moves_upd split: if_splits)
  obtain b f1 q1 where e: "ensureClient w opts (f0, q0) = (b, f1, q1)"
    by (cases "ensureClient w opts (f0, q0)")
  have m1: "fwd_moves opts ?ks True fq (f1, q1)"
    using fwd_moves_trans [OF m0 ensureClient_moves [OF assms(1) fwd_moves_inv [OF m0] e]] .
  obtain ok f2 q2 where d: "drain_kinds w opts [KObs, KTrack] (f1, q1) = (ok, f2, q2)"
    by (cases "drain_kinds w opts [KObs, KTrack] (f1, q1)")
  have m2: "fwd_moves opts ?ks ok fq (f2, q2)"
    using fwd_moves_trans [OF m1 drain_kinds_moves [OF assms(1) fwd_moves_inv [OF m1] d]] .
  then have m2': "fwd_moves opts ?ks False fq (f2, q2)" by (cases ok) (auto intro: fwd_moves_weaken)
  define f2' where "f2' = f2\<lparr>f_state := FError, f_client := False\<rparr>"
  have q2: "queue_inv q2" using fwd_moves_inv [OF m2] by simp
  obtain f3 q3 where a3: "await_event w (f2', q2) = (f3, q3)" by (cases "await_event w (f2', q2)")
  have m3: "fwd_moves opts ?ks False fq (f3, q3)"
  proof -
    have l: "f_log f3 = f_log f2" using await_event_owed(3) [OF assms(1) q2, where f = f2', unfolded a3]
      by (simp add: f2'_def)
    have qi: "queue_inv q3" using await_event_owed(2) [OF assms(1) q2, where f = f2', unfolded a3] by simp
    have "moved (fwd_owed opts k q2) [] (fwd_owed opts k q3)" for k
      using await_event_owed(1) [OF assms(1) q2, where f = f2' and k = k, unfolded a3] moved_add
      by fastforce
    from moved_trans [OF _ this] m2' l qi show ?thesis
      unfolding fwd_moves_def by (fastforce simp: append_Nil2)
  qed
  have t: "tick_body w opts fq = (if \<not> b then ((if f_stopped f1 then f1\<lparr>f_state := FOff\<rparr> else f1), q1)
      else if ok then (f2\<lparr>f_state := (if f_stopped f2 then FOff else FConnected), f_lastError := None\<rparr>, q2)
      else if f_client f2 then (f3, q3) else (f2\<lparr>f_state := FError\<rparr>, q2))"
    unfolding tick_body_def fq using s0 e d a3
    by (simp add: s_def [symmetric] f2'_def del: drain_kinds.simps)
  have "fwd_moves opts ?ks False fq (f1, q1)" using m1 by (rule fwd_moves_weaken)
  with m2' m3 show ?thesis
    unfolding t by (cases b; cases ok) (auto intro: fwd_moves_upd)
qed

subsection \<open>A forwarder switched off publishes nothing\<close>

lemma await_stopped: "f_stopped f \<Longrightarrow> f_stopped (fst (await_event w (f, q)))"
  "f_log (fst (await_event w (f, q))) = f_log f"
  "\<not> f_client f \<Longrightarrow> \<not> f_client (fst (await_event w (f, q)))"
  by (auto simp: await_event_def Let_def fwd_stop_def)

lemma ensureClient_stopped:
  assumes "f_stopped f" "\<not> f_client f"
  shows "\<not> fst (ensureClient w opts (f, q))" "f_log (fst (snd (ensureClient w opts (f, q)))) = f_log f"
    "f_stopped (fst (snd (ensureClient w opts (f, q))))" "\<not> f_client (fst (snd (ensureClient w opts (f, q))))"
proof -
  define g where "g = f\<lparr>f_state := FConnecting\<rparr>"
  obtain g1 q1 where a: "await_event w (g, q) = (g1, q1)" by (cases "await_event w (g, q)")
  have g1: "f_stopped g1" "f_log g1 = f_log f" "\<not> f_client g1"
    using await_stopped [where f = g and w = w and q = q, unfolded a] assms
    by (simp_all add: g_def)
  obtain c f1 q2 where c: "credentials w opts (g, q) = (c, f1, q2)" by (cases "credentials w opts (g, q)")
  have "f_stopped f1 \<and> f_log f1 = f_log f \<and> \<not> f_client f1"
    using c a g1 assms by (auto simp: credentials_def Let_def g_def split: if_splits sum.splits)
  then show "\<not> fst (ensureClient w opts (f, q))" "f_log (fst (snd (ensureClient w opts (f, q)))) = f_log f"
    "f_stopped (fst (snd (ensureClient w opts (f, q))))" "\<not> f_client (fst (snd (ensureClient w opts (f, q))))"
    using assms c by (auto simp: ensureClient_def g_def split: option.splits)
qed

lemma tick_body_stopped:
  assumes "f_stopped f" "\<not> f_client f"
  shows "f_log (fst (tick_body w opts (f, q))) = f_log f \<and> f_state (fst (tick_body w opts (f, q))) = FOff
    \<and> f_stopped (fst (tick_body w opts (f, q))) \<and> \<not> f_client (fst (tick_body w opts (f, q)))"
proof -
  define s where "s = (if f_after f
    then (let (f, q) = await_event w (f, q) in (f\<lparr>f_after := False\<rparr>, q)) else (f, q))"
  obtain f0 q0 where s0: "s = (f0, q0)" by (cases s)
  have "f_stopped f0 \<and> \<not> f_client f0 \<and> f_log f0 = f_log f"
    using s0 assms await_stopped [where f = f and w = w and q = q]
    by (cases "await_event w (f, q)") (auto simp: s_def split: if_splits)
  with ensureClient_stopped [of f0 w opts q0] show ?thesis
    unfolding tick_body_def using s0
    by (cases "ensureClient w opts (f0, q0)") (auto simp: s_def [symmetric] Let_def)
qed

subsection \<open>Switching a broker on\<close>

lemma lastId_all:
  assumes "queue_inv q" "r \<in> set (store k q)"
  shows "sr_id r \<le> lastId q k"
proof -
  have "sorted_wrt (<) (map sr_id (store k q))" using queue_inv_sorted [OF assms(1)] .
  moreover have "store k q \<noteq> []" using assms(2) by auto
  ultimately show ?thesis
    using assms(2) by (cases "store k q" rule: rev_cases) (auto simp: lastId_def sorted_wrt_append)
qed

lemma radio_rows_ack_last:
  assumes "queue_inv q"
  shows "radio_rows (ack q d k (lastId q k)) d k key = []"
  using lastId_all [OF assms] by (fastforce simp: radio_rows_alt mark_ack queue_simps filter_empty_conv)

lemma enableBroker_no_backlog:
  assumes "queue_inv q" "enableBroker q s bid key = (q', s')"
  shows "radio_rows q' (destId bid key) k rk = []"
proof -
  define d where "d = destId bid key"
  define q1 where "q1 = ack q d KObs (lastId q KObs)"
  have l: "lastId q1 KTrack = lastId q KTrack"
    unfolding q1_def by (simp add: lastId_def queue_simps)
  have q': "q' = ack q1 d KTrack (lastId q1 KTrack)"
    using assms(2) by (auto simp: enableBroker_def Let_def d_def q1_def)
  have "radio_rows q' d k rk = []"
  proof (cases k)
    case KObs
    then have "radio_rows q' d k rk = radio_rows q1 d k rk" unfolding q' by (simp add: radio_rows_ack_other)
    then show ?thesis using radio_rows_ack_last [OF assms(1)] KObs by (simp add: q1_def)
  next
    case KTrack
    have "queue_inv q1" using assms(1) by (simp add: q1_def queue_inv_ack)
    then show ?thesis unfolding q' KTrack by (rule radio_rows_ack_last)
  qed
  then show ?thesis by (simp add: d_def)
qed

subsection \<open>Properties\<close>


definition sample_opts :: forward_options where
  "sample_opts = \<lparr>fo_broker = sample_broker\<lparr>br_auth := AuthPassword, br_username := Some [117],
     br_password := Some [112]\<rparr>, fo_radioKey = [65], fo_radioName = None\<rparr>"

definition calm_world :: fwd_world where
  "calm_world = \<lparr>fw_event = (\<lambda>_. \<lparr>ev_stop = False, ev_close = False, ev_queue = (\<lambda>q. q)\<rparr>),
     fw_nowSec = (\<lambda>_. 0), fw_nowMs = (\<lambda>_. 0), fw_sign = (\<lambda>_ _. None), fw_connect = (\<lambda>_ _ _. None),
     fw_publish = (\<lambda>_ _ _. None)\<rparr>"

lemma calm_keeps: "keeps_owed calm_world sample_opts"
  by (simp add: keeps_owed_def calm_world_def)


text \<open>A forwarder that was switched off publishes nothing more: however often its timer still
  ticks it, whatever its queue holds, its log stays as it was and its state is off.\<close>

theorem stopped_forwarder_silent:
  "f_log (fst (((\<lambda>fq. snd (fwd_tick w opts fq)) ^^ n) (fwd_stop f, q))) = f_log f
   \<and> f_state (fst (((\<lambda>fq. snd (fwd_tick w opts fq)) ^^ n) (fwd_stop f, q))) = FOff"
proof -
  define step where "step = (\<lambda>fq. snd (fwd_tick w opts fq))"
  have "f_stopped (fst ((step ^^ n) (fwd_stop f, q))) \<and> \<not> f_client (fst ((step ^^ n) (fwd_stop f, q)))
    \<and> f_log (fst ((step ^^ n) (fwd_stop f, q))) = f_log f \<and> f_state (fst ((step ^^ n) (fwd_stop f, q))) = FOff"
  proof (induction n)
    case 0
    then show ?case by (simp add: fwd_stop_def)
  next
    case (Suc n)
    obtain g r where g: "(step ^^ n) (fwd_stop f, q) = (g, r)" by (cases "(step ^^ n) (fwd_stop f, q)")
    then show ?case
      using Suc tick_body_stopped [of g w opts r] by (simp add: step_def fwd_tick_def Let_def)
  qed
  then show ?thesis by (simp add: step_def)
qed

text \<open>Switching a broker on gives it what is heard from then on: right after it no stored row of
  any radio is owed to the broker, and the switch moves no other destination's watermark.\<close>

theorem enabled_broker_starts_now:
  assumes "queue_inv q" "enableBroker q s i key = (q', s')"
  shows "radio_rows q' (destId i key) k rk = []
    \<and> (\<forall>d. d \<noteq> destId i key \<longrightarrow> radio_rows q' d k rk = radio_rows q d k rk)"
  using enableBroker_no_backlog [OF assms] assms(2)
  by (auto simp: enableBroker_def Let_def radio_rows_ack_other)

theorem enabled_broker_starts_now_witness:
  "radio_rows (fst (enableBroker one_row \<lparr>bs_enabled = [], bs_tokens = []\<rparr> [98] [65])) (destId [98] [65]) KTrack [65] = []"
proof -
  have q: "queue_inv one_row" using upload_inv_one_row by (simp add: upload_inv_def)
  show ?thesis
    using enabled_broker_starts_now [OF q, of _ "[98]" "[65]" "fst (enableBroker one_row s [98] [65])" "snd (enableBroker one_row s [98] [65])" for s]
    by simp
qed

end
