(* ===== verification/ChunkReader.thy ===== *)
theory ChunkReader
  imports Prelude
begin

section \<open>The interface of the incremental readers\<close>

text \<open>
  Both byte stream readers of the page (the companion's serial frames and the GPS lines)
  are fed in whatever pieces the port delivers. Their contract: feeding two pieces one
  after the other gives what feeding their concatenation gives. From that, every way to
  cut a stream into pieces yields the same items and leaves the same reader.
\<close>

fun feed_chunks :: "('s \<Rightarrow> 'a list \<Rightarrow> 's \<times> 'b list) \<Rightarrow> 's \<Rightarrow> 'a list list \<Rightarrow> 's \<times> 'b list" where
  "feed_chunks push s [] = (s, [])"
| "feed_chunks push s (c # cs) =
     (let (s1, o1) = push s c; (s2, o2) = feed_chunks push s1 cs in (s2, o1 @ o2))"

locale chunk_reader =
  fixes push :: "'s \<Rightarrow> 'a list \<Rightarrow> 's \<times> 'b list"
    and ok :: "'s \<Rightarrow> bool"
  assumes push_ok: "ok s \<Longrightarrow> ok (fst (push s xs))"
    and push_nil: "ok s \<Longrightarrow> push s [] = (s, [])"
    and push_append: "ok s \<Longrightarrow> push s (xs @ ys) =
      (fst (push (fst (push s xs)) ys), snd (push s xs) @ snd (push (fst (push s xs)) ys))"
begin

lemma feed_concat: "ok s \<Longrightarrow> feed_chunks push s cs = push s (concat cs)"
proof (induction cs arbitrary: s)
  case Nil
  then show ?case by (simp add: push_nil)
next
  case (Cons c cs)
  have "ok (fst (push s c))" using Cons.prems by (rule push_ok)
  from Cons.IH [OF this] show ?case
    using Cons.prems by (simp add: push_append case_prod_unfold Let_def)
qed

lemma feed_ok: "ok s \<Longrightarrow> ok (fst (feed_chunks push s cs))"
  by (simp add: feed_concat push_ok)

lemma feed_same:
  "ok s \<Longrightarrow> concat cs = concat ds \<Longrightarrow> feed_chunks push s cs = feed_chunks push s ds"
  by (simp add: feed_concat)

end

end
