(* ===== verification/SerialFraming.thy ===== *)
theory SerialFraming
  imports Bytes ChunkReader
begin

section \<open>Companion frames over USB serial (wardrive/radio/serialFraming.ts)\<close>

text \<open>
  \<open>encodeSerialFrame\<close> frames what the page sends; \<open>SerialFrameDecoder\<close>'s state is its
  buffer, and \<open>decoder_push\<close> its method \<^verbatim>\<open>push\<close>: the loop of the method is \<open>scan\<close>,
  total because every turn of it shortens the buffer.
\<close>

definition HOST_TO_RADIO :: u8 where "HOST_TO_RADIO = 60"
definition RADIO_TO_HOST :: u8 where "RADIO_TO_HOST = 62"
definition MAX_FRAME :: nat where "MAX_FRAME = 300"

definition encodeSerialFrame :: "bytes \<Rightarrow> bytes" where
  "encodeSerialFrame frame =
     HOST_TO_RADIO # of_nat (length frame mod 256) # of_nat (length frame div 256 mod 256) # frame"

definition frame_size :: "bytes \<Rightarrow> nat" where
  "frame_size buf = unat (buf ! 1) + 256 * unat (buf ! 2)"

function scan :: "bytes \<Rightarrow> bytes \<times> bytes list" where
  "scan buf =
     (let b = dropWhile (\<lambda>x. x \<noteq> RADIO_TO_HOST) buf in
      if b = [] then ([], [])
      else if length b < 3 then (b, [])
      else let size = frame_size b in
        if size > MAX_FRAME then scan (drop 1 b)
        else if length b < 3 + size then (b, [])
        else let (rest, frames) = scan (drop (3 + size) b)
             in (rest, take size (drop 3 b) # frames))"
  by pat_completeness auto
termination
proof (relation "measure length", goal_cases)
  case 1
  then show ?case by simp
next
  case (2 buf b size)
  have "length b \<le> length buf" unfolding 2(1) by (rule length_dropWhile_le)
  with 2(2,3) show ?case by simp
next
  case (3 buf b size)
  have "length b \<le> length buf" unfolding 3(1) by (rule length_dropWhile_le)
  with 3(2,3) show ?case by simp
qed

declare scan.simps [simp del]

definition decoder_push :: "bytes \<Rightarrow> bytes \<Rightarrow> bytes \<times> bytes list" where
  "decoder_push buf chunk = scan (buf @ chunk)"

text \<open>The same loop as the code runs it, a \<^verbatim>\<open>for (;;)\<close> over the buffer and the frames
  collected so far: \<open>None\<close> is a loop that never breaks.\<close>

partial_function (option) push_loop :: "bytes \<Rightarrow> bytes list \<Rightarrow> (bytes \<times> bytes list) option" where
  "push_loop buf frames =
     (let b = dropWhile (\<lambda>x. x \<noteq> RADIO_TO_HOST) buf in
      if b = [] then Some ([], frames)
      else if length b < 3 then Some (b, frames)
      else let size = frame_size b in
        if size > MAX_FRAME then push_loop (drop 1 b) frames
        else if length b < 3 + size then Some (b, frames)
        else push_loop (drop (3 + size) b) (frames @ [take size (drop 3 b)]))"

subsection \<open>One turn of the loop\<close>

lemma scan_junk: "x \<noteq> RADIO_TO_HOST \<Longrightarrow> scan (x # xs) = scan xs"
  by (simp add: scan.simps [of "x # xs"] scan.simps [of xs])

lemma scan_junks: "RADIO_TO_HOST \<notin> set js \<Longrightarrow> scan (js @ xs) = scan xs"
  by (induction js) (auto simp: scan_junk)

lemma scan_Nil [simp]: "scan [] = ([], [])"
  by (simp add: scan.simps)

lemma scan_at:
  assumes "buf \<noteq> []" "hd buf = RADIO_TO_HOST"
  shows "scan buf =
     (if length buf < 3 then (buf, [])
      else if frame_size buf > MAX_FRAME then scan (tl buf)
      else if length buf < 3 + frame_size buf then (buf, [])
      else (fst (scan (drop (3 + frame_size buf) buf)),
            take (frame_size buf) (drop 3 buf) # snd (scan (drop (3 + frame_size buf) buf))))"
proof -
  have "dropWhile (\<lambda>x. x \<noteq> RADIO_TO_HOST) buf = buf"
    using assms by (cases buf) auto
  then show ?thesis
    using assms by (simp add: scan.simps [of buf] Let_def case_prod_unfold drop_Suc)
qed

definition idle :: "bytes \<Rightarrow> bool" where
  "idle buf \<longleftrightarrow> scan buf = (buf, [])"

text \<open>Every induction over the loop has these five cases.\<close>

lemma scan_induct [case_names Nil junk short skip wait frame]:
  assumes "P []"
    and "\<And>x t. x \<noteq> RADIO_TO_HOST \<Longrightarrow> P t \<Longrightarrow> P (x # t)"
    and "\<And>buf. hd buf = RADIO_TO_HOST \<Longrightarrow> buf \<noteq> [] \<Longrightarrow> length buf < 3 \<Longrightarrow> P buf"
    and "\<And>buf. hd buf = RADIO_TO_HOST \<Longrightarrow> buf \<noteq> [] \<Longrightarrow> 3 \<le> length buf \<Longrightarrow> frame_size buf > MAX_FRAME
      \<Longrightarrow> P (tl buf) \<Longrightarrow> P buf"
    and "\<And>buf. hd buf = RADIO_TO_HOST \<Longrightarrow> buf \<noteq> [] \<Longrightarrow> 3 \<le> length buf \<Longrightarrow> frame_size buf \<le> MAX_FRAME
      \<Longrightarrow> length buf < 3 + frame_size buf \<Longrightarrow> P buf"
    and "\<And>buf. hd buf = RADIO_TO_HOST \<Longrightarrow> buf \<noteq> [] \<Longrightarrow> 3 \<le> length buf \<Longrightarrow> frame_size buf \<le> MAX_FRAME
      \<Longrightarrow> 3 + frame_size buf \<le> length buf \<Longrightarrow> P (drop (3 + frame_size buf) buf) \<Longrightarrow> P buf"
  shows "P buf"
proof (induction buf rule: length_induct)
  case (1 buf)
  show ?case
  proof (cases "buf = [] \<or> hd buf \<noteq> RADIO_TO_HOST")
    case True
    with 1 assms(1,2) show ?thesis by (cases buf) auto
  next
    case False
    with 1 have "P (tl buf)" "P (drop (3 + frame_size buf) buf)" by auto
    with False assms(3-) [of buf] show ?thesis by (meson not_le)
  qed
qed

lemma scan_append:
  "scan (xs @ ys) = (fst (scan (fst (scan xs) @ ys)), snd (scan xs) @ snd (scan (fst (scan xs) @ ys)))"
proof (induction xs rule: scan_induct)
  case (junk x t)
  then show ?case by (simp add: scan_junk)
next
  case (skip buf)
  then have "buf \<noteq> []" "scan buf = scan (tl buf)" by (simp_all add: scan_at [of buf])
  moreover from skip have "hd (buf @ ys) = RADIO_TO_HOST" "tl (buf @ ys) = tl buf @ ys"
    "frame_size (buf @ ys) = frame_size buf"
    by (auto simp: frame_size_def nth_append)
  with skip have "scan (buf @ ys) = scan (tl buf @ ys)"
    by (simp add: scan_at [of "buf @ ys"])
  ultimately show ?case using skip by simp
next
  case (frame buf)
  define n where "n = frame_size buf"
  from frame have b: "buf \<noteq> []" "hd (buf @ ys) = RADIO_TO_HOST" "frame_size (buf @ ys) = n"
    by (auto simp: frame_size_def nth_append n_def)
  have "scan buf = (fst (scan (drop (3 + n) buf)), take n (drop 3 buf) # snd (scan (drop (3 + n) buf)))"
    using frame b by (simp add: scan_at [of buf] n_def)
  moreover have "scan (buf @ ys) = (fst (scan (drop (3 + n) buf @ ys)),
      take n (drop 3 buf) # snd (scan (drop (3 + n) buf @ ys)))"
    using frame b by (simp add: scan_at [of "buf @ ys"] n_def)
  ultimately show ?case using frame by (simp add: n_def)
qed (auto simp: scan_at)

lemma scan_rest_idle: "idle (fst (scan xs))"
proof (induction xs rule: scan_induct)
  case (skip buf)
  then show ?case by (simp add: scan_at [of buf])
next
  case (frame buf)
  then show ?case by (simp add: scan_at [of buf])
qed (auto simp: scan_at idle_def scan_junk)

lemma scan_rest_length: "length (fst (scan xs)) \<le> length xs"
proof (induction xs rule: scan_induct)
  case (skip buf)
  then show ?case by (simp add: scan_at [of buf])
next
  case (frame buf)
  then show ?case by (simp add: scan_at [of buf])
qed (auto simp: scan_at scan_junk)

lemma idle_length: "idle buf \<Longrightarrow> length buf < 3 + MAX_FRAME"
proof (cases "buf = []")
  case False
  assume i: "idle buf"
  then have "scan buf = (buf, [])" by (simp add: idle_def)
  moreover have "hd buf = RADIO_TO_HOST"
  proof (rule ccontr)
    assume "hd buf \<noteq> RADIO_TO_HOST"
    with False have "scan buf = scan (tl buf)" by (cases buf) (auto simp: scan_junk)
    with i have "fst (scan (tl buf)) = buf" by (simp add: idle_def)
    with scan_rest_length [of "tl buf"] have "length buf \<le> length (tl buf)" by (simp only: fst_conv)
    with False show False by (cases buf) auto
  qed
  moreover have "scan (tl buf) \<noteq> (buf, [])"
  proof
    assume "scan (tl buf) = (buf, [])"
    with scan_rest_length [of "tl buf"] have "length buf \<le> length (tl buf)" by (simp only: fst_conv)
    with False show False by (cases buf) auto
  qed
  ultimately show ?thesis
    using False by (auto simp: scan_at [of buf] MAX_FRAME_def split: if_splits)
qed (simp add: MAX_FRAME_def)

interpretation serial: chunk_reader decoder_push idle
proof unfold_locales
  show "idle s \<Longrightarrow> idle (fst (decoder_push s xs))" for s xs
    by (simp add: decoder_push_def scan_rest_idle)
  show "idle s \<Longrightarrow> decoder_push s [] = (s, [])" for s
    by (simp add: decoder_push_def idle_def)
  show "decoder_push s (xs @ ys) = (fst (decoder_push (fst (decoder_push s xs)) ys),
      snd (decoder_push s xs) @ snd (decoder_push (fst (decoder_push s xs)) ys))" for s xs ys
    using scan_append [of "s @ xs" ys] by (simp add: decoder_push_def)
qed

subsection \<open>What the radio sends is what the page gets\<close>

text \<open>The radio's side of the framing (0x3e, length, frame), and a stream of it with boot text.\<close>

definition radio_frame :: "bytes \<Rightarrow> bytes" where
  "radio_frame frame =
     RADIO_TO_HOST # of_nat (length frame mod 256) # of_nat (length frame div 256 mod 256) # frame"

definition radio_stream :: "(bytes \<times> bytes) list \<Rightarrow> bytes" where
  "radio_stream items = concat (map (\<lambda>(junk, frame). junk @ radio_frame frame) items)"

lemma frame_size_radio_frame:
  "length f \<le> MAX_FRAME \<Longrightarrow> frame_size (radio_frame f @ ys) = length f"
  by (simp add: frame_size_def radio_frame_def MAX_FRAME_def unat_of_nat_u8)

lemma scan_radio_frame:
  assumes "length f \<le> MAX_FRAME"
  shows "scan (radio_frame f @ ys) = (fst (scan ys), f # snd (scan ys))"
proof -
  let ?b = "radio_frame f @ ys"
  have "?b \<noteq> []" "hd ?b = RADIO_TO_HOST" "length ?b = 3 + length f + length ys"
    "drop 3 ?b = f @ ys" "drop (3 + length f) ?b = ys"
    by (simp_all add: radio_frame_def numeral_3_eq_3)
  with frame_size_radio_frame [OF assms, of ys] assms show ?thesis
    by (simp add: scan_at [of ?b])
qed

lemma scan_radio_stream:
  assumes "\<forall>(junk, frame) \<in> set items. RADIO_TO_HOST \<notin> set junk \<and> length frame \<le> MAX_FRAME"
  shows "scan (radio_stream items @ ys) = (fst (scan ys), map snd items @ snd (scan ys))"
  using assms
proof (induction items)
  case Nil
  then show ?case by (simp add: radio_stream_def)
next
  case (Cons it items)
  then show ?case
    by (cases it) (simp add: radio_stream_def scan_junks scan_radio_frame)
qed

lemma push_loop_scan: "push_loop buf frames = Some (fst (scan buf), frames @ snd (scan buf))"
proof (induction buf arbitrary: frames rule: scan.induct)
  case (1 buf)
  define b where "b = dropWhile (\<lambda>x. x \<noteq> RADIO_TO_HOST) buf"
  have loop: "push_loop buf frames =
     (if b = [] then Some ([], frames) else if length b < 3 then Some (b, frames)
      else if frame_size b > MAX_FRAME then push_loop (drop 1 b) frames
      else if length b < 3 + frame_size b then Some (b, frames)
      else push_loop (drop (3 + frame_size b) b) (frames @ [take (frame_size b) (drop 3 b)]))"
    by (subst push_loop.simps) (simp only: Let_def b_def)
  have scan: "scan buf =
     (if b = [] then ([], []) else if length b < 3 then (b, [])
      else if frame_size b > MAX_FRAME then scan (drop 1 b)
      else if length b < 3 + frame_size b then (b, [])
      else (fst (scan (drop (3 + frame_size b) b)),
            take (frame_size b) (drop 3 b) # snd (scan (drop (3 + frame_size b) b))))"
    by (subst scan.simps) (simp only: Let_def b_def case_prod_unfold)
  note IH = 1 [OF b_def _ _ refl]
  show ?case
  proof (cases "b = [] \<or> length b < 3")
    case True
    then show ?thesis unfolding loop scan by auto
  next
    case False
    then show ?thesis using IH unfolding loop scan by simp
  qed
qed

lemma scan_frames_bounded: "f \<in> set (snd (scan xs)) \<Longrightarrow> length f \<le> MAX_FRAME"
proof (induction xs rule: scan_induct)
  case (skip buf)
  then show ?case by (simp add: scan_at [of buf])
next
  case (frame buf)
  then show ?case by (auto simp: scan_at [of buf])
qed (auto simp: scan_at scan_junk)

text \<open>C7: the serial reader does not depend on how the port cuts the stream: fed in any pieces, a
  stream of frames (each of at most 300 bytes, with boot text of other bytes before it) followed
  by the start of the next frame yields exactly those frames, in order, and keeps fewer bytes
  than one frame takes; and whatever bytes come, no delivered frame is longer than that.\<close>

theorem decoder_delivers_stream:
  assumes "\<forall>(junk, frame) \<in> set items. RADIO_TO_HOST \<notin> set junk \<and> length frame \<le> MAX_FRAME"
    and "concat pieces = radio_stream items @ rest" "snd (scan rest) = []"
  shows "snd (feed_chunks decoder_push [] pieces) = map snd items
    \<and> length (fst (feed_chunks decoder_push [] pieces)) < 3 + MAX_FRAME
    \<and> (\<forall>cs. list_all (\<lambda>f. length f \<le> MAX_FRAME) (snd (feed_chunks decoder_push [] cs)))"
proof -
  have i: "idle []" by (simp add: idle_def)
  have "feed_chunks decoder_push [] pieces = scan (radio_stream items @ rest)"
    using serial.feed_concat [OF i, of pieces] assms(2) by (simp add: decoder_push_def)
  moreover have "list_all (\<lambda>f. length f \<le> MAX_FRAME) (snd (feed_chunks decoder_push [] cs))" for cs
    using serial.feed_concat [OF i, of cs] scan_frames_bounded [of _ "concat cs"]
    by (simp add: decoder_push_def list_all_iff)
  ultimately show ?thesis
    using scan_radio_stream [OF assms(1), of rest] assms(3) idle_length [OF scan_rest_idle, of rest]
    by simp
qed

theorem decoder_delivers_stream_witness:
  "snd (feed_chunks decoder_push [] [[13, 0x3e, 2], [0, 7], [8, 0x3e]]) = [[7, 8]]"
proof -
  have "\<forall>(junk, frame) \<in> set [([13 :: u8], [7 :: u8, 8])]. RADIO_TO_HOST \<notin> set junk \<and> length frame \<le> MAX_FRAME"
    by (simp add: RADIO_TO_HOST_def MAX_FRAME_def)
  moreover have "concat [[13 :: u8, 0x3e, 2], [0, 7], [8, 0x3e]] = radio_stream [([13], [7, 8])] @ [0x3e]"
    by (simp add: radio_stream_def radio_frame_def RADIO_TO_HOST_def)
  moreover have "snd (scan [0x3e :: u8]) = []"
    using scan_at [of "[0x3e :: u8]"] by (simp add: RADIO_TO_HOST_def)
  ultimately show ?thesis using decoder_delivers_stream by fastforce
qed

text \<open>The reader's endless loop always ends: whatever is buffered and whatever bytes the port
  delivers (noise, false starts, oversized lengths), a push returns, with the rest it keeps and the
  frames it found.\<close>

theorem push_always_returns:
  "push_loop (buf @ chunk) [] = Some (decoder_push buf chunk)"
  by (simp add: push_loop_scan decoder_push_def)

end
