(* ===== verification/Protocol.thy ===== *)
theory Protocol
  imports Packet WdTypes
begin

section \<open>Companion frames (wardrive/radio/protocol.ts)\<close>

text \<open>
  The frames the page exchanges with the companion radio: the start frame, the replies it
  parses and the two pushes it reads. A parser returns \<open>None\<close> where the code returns
  \<^verbatim>\<open>null\<close>; every read is inside the length its guard checked.
\<close>

definition CMD_APP_START :: u8 where "CMD_APP_START = 1"
definition RESP_SELF_INFO :: u8 where "RESP_SELF_INFO = 5"
definition PUSH_LOG_RX_DATA :: u8 where "PUSH_LOG_RX_DATA = 136"
definition CMD_GET_CONTACTS :: u8 where "CMD_GET_CONTACTS = 4"
definition CMD_GET_DEVICE_TIME :: u8 where "CMD_GET_DEVICE_TIME = 5"
definition RESP_CURR_TIME :: u8 where "RESP_CURR_TIME = 9"
definition RESP_CONTACTS_START :: u8 where "RESP_CONTACTS_START = 2"
definition RESP_CONTACT :: u8 where "RESP_CONTACT = 3"
definition RESP_END_OF_CONTACTS :: u8 where "RESP_END_OF_CONTACTS = 4"
definition CMD_SIGN_START :: u8 where "CMD_SIGN_START = 33"
definition CMD_SIGN_DATA :: u8 where "CMD_SIGN_DATA = 34"
definition CMD_SIGN_FINISH :: u8 where "CMD_SIGN_FINISH = 35"
definition RESP_OK :: u8 where "RESP_OK = 0"
definition RESP_ERR :: u8 where "RESP_ERR = 1"
definition RESP_SIGN_START :: u8 where "RESP_SIGN_START = 19"
definition RESP_SIGNATURE :: u8 where "RESP_SIGNATURE = 20"
definition SIGN_CHUNK :: nat where "SIGN_CHUNK = 128"
definition CMD_GET_STATS :: u8 where "CMD_GET_STATS = 56"
definition RESP_STATS :: u8 where "RESP_STATS = 24"
definition STATS_CORE :: u8 where "STATS_CORE = 0"
definition STATS_RADIO :: u8 where "STATS_RADIO = 1"

definition hexUpper :: "bytes \<Rightarrow> jstr" where
  "hexUpper b = toUpperCase (bytesToHex b)"

definition appStartFrame :: "jstr \<Rightarrow> bytes" where
  "appStartFrame appName = CMD_APP_START # replicate 7 0 @ utf8_encode appName"

record self_info =
  si_publicKey :: jstr
  si_name :: jstr
  si_sf :: "nat option"

definition strip_nuls :: "jstr \<Rightarrow> jstr" where
  "strip_nuls s = rev (dropWhile (\<lambda>c. c = 0) (rev s))"

definition parseSelfInfo :: "bytes \<Rightarrow> self_info option" where
  "parseSelfInfo frame =
     (if length frame < 36 \<or> frame ! 0 \<noteq> RESP_SELF_INFO then None
      else
        let name = (if length frame > 58 then strip_nuls (utf8_decode (drop 58 frame)) else []);
            sfByte = (if length frame > 56 then unat (frame ! 56) else 0);
            sf = (if 5 \<le> sfByte \<and> sfByte \<le> 12 then Some sfByte else None)
        in Some \<lparr>si_publicKey = hexUpper (subarr 4 36 frame), si_name = name, si_sf = sf\<rparr>)"

record rx_log =
  rx_snr :: real
  rx_rssi :: int
  rx_raw :: bytes

definition parseRxLog :: "bytes \<Rightarrow> rx_log option" where
  "parseRxLog frame =
     (if length frame < 4 \<or> frame ! 0 \<noteq> PUSH_LOG_RX_DATA then None
      else Some \<lparr>rx_snr = of_int (int8 (frame ! 1)) / 4, rx_rssi = int8 (frame ! 2),
                 rx_raw = drop 3 frame\<rparr>)"

definition CONTACT_ROLES :: "nat \<Rightarrow> jstr option" where
  "CONTACT_ROLES t =
     (if t = 1 then Some (str ''Chat Node'') else if t = 2 then Some (str ''Repeater'')
      else if t = 3 then Some (str ''Room Server'') else if t = 4 then Some (str ''Sensor'')
      else None)"

definition CONTACT_MIN_LENGTH :: nat where "CONTACT_MIN_LENGTH = 144"

text \<open>Reads the guard has already allowed: the code's data view never throws here.\<close>

definition u32_at :: "bytes \<Rightarrow> nat \<Rightarrow> nat" where
  "u32_at bs i = (case getUint32 bs i of Some n \<Rightarrow> n | None \<Rightarrow> 0)"

definition i32_at :: "bytes \<Rightarrow> nat \<Rightarrow> int" where
  "i32_at bs i = (case getInt32 bs i of Some n \<Rightarrow> n | None \<Rightarrow> 0)"

definition contact_name :: "bytes \<Rightarrow> jstr" where
  "contact_name nameBytes = trim (utf8_decode (takeWhile (\<lambda>b. b \<noteq> 0) nameBytes))"

definition contact_seen :: "nat \<Rightarrow> nat \<Rightarrow> int \<Rightarrow> int option" where
  "contact_seen lastAdvert lastmod clockOffsetS =
     (if lastmod \<noteq> 0 then Some (int lastmod + clockOffsetS)
      else if lastAdvert \<noteq> 0 then Some (int lastAdvert) else None)"

definition parseContact :: "bytes \<Rightarrow> int \<Rightarrow> directory_node option" where
  "parseContact frame clockOffsetS =
     (if length frame < CONTACT_MIN_LENGTH \<or> frame ! 0 \<noteq> RESP_CONTACT then None
      else
        let name = contact_name (subarr 100 132 frame);
            lastAdvert = u32_at frame 132;
            lastmod = (if length frame \<ge> CONTACT_MIN_LENGTH + 4 then u32_at frame 144 else 0);
            lat = of_int (i32_at frame 136) / 1000000;
            lon = of_int (i32_at frame 140) / 1000000;
            placed = (lat \<noteq> 0 \<or> lon \<noteq> 0)
        in Some \<lparr>dn_publicKey = toLowerCase (hexUpper (subarr 1 33 frame)),
                 dn_name = or_null name, dn_role = CONTACT_ROLES (unat (frame ! 33)),
                 dn_lat = (if placed then Some lat else None),
                 dn_lon = (if placed then Some lon else None),
                 dn_seen = contact_seen lastAdvert lastmod clockOffsetS\<rparr>)"

definition parseStatsCore :: "bytes \<Rightarrow> nat option" where
  "parseStatsCore frame =
     (if length frame < 11 \<or> frame ! 0 \<noteq> RESP_STATS \<or> frame ! 1 \<noteq> STATS_CORE then None
      else getUint16 frame 2)"

definition parseStatsRadio :: "bytes \<Rightarrow> int option" where
  "parseStatsRadio frame =
     (if length frame < 14 \<or> frame ! 0 \<noteq> RESP_STATS \<or> frame ! 1 \<noteq> STATS_RADIO then None
      else getInt16 frame 2)"

subsection \<open>What the parsers guarantee\<close>

lemma hexUpper_lower: "toLowerCase (hexUpper b) = bytesToHex b"
proof -
  have "toLowerCase (bytesToHex b) = bytesToHex b"
    unfolding toLowerCase_def using bytesToHex_lower_hex [of b]
    by (simp add: list_all_iff lower_char_lower_hex map_idI)
  then show ?thesis by (simp add: hexUpper_def)
qed

lemma parseContact_key:
  assumes "parseContact frame off = Some n"
  shows "is_pubkey (dn_publicKey n)"
proof -
  have "dn_publicKey n = bytesToHex (subarr 1 33 frame)" "144 \<le> length frame"
    using assms
    by (auto simp: parseContact_def Let_def hexUpper_lower CONTACT_MIN_LENGTH_def split: if_splits)
  then show ?thesis by (simp add: bytesToHex_pubkey)
qed

lemma parseContact_placed:
  "parseContact frame off = Some n \<Longrightarrow> (dn_lat n = None) = (dn_lon n = None)"
  by (auto simp: parseContact_def Let_def split: if_splits)

lemma parseSelfInfo_key:
  assumes "parseSelfInfo frame = Some s"
  shows "is_pubkey (toLowerCase (si_publicKey s))" "\<forall>sf. si_sf s = Some sf \<longrightarrow> 5 \<le> sf \<and> sf \<le> 12"
proof -
  have "si_publicKey s = hexUpper (subarr 4 36 frame)" "36 \<le> length frame"
    using assms by (auto simp: parseSelfInfo_def Let_def split: if_splits)
  then show "is_pubkey (toLowerCase (si_publicKey s))"
    by (simp add: hexUpper_lower bytesToHex_pubkey)
  show "\<forall>sf. si_sf s = Some sf \<longrightarrow> 5 \<le> sf \<and> sf \<le> 12"
    using assms by (auto simp: parseSelfInfo_def Let_def split: if_splits)
qed

lemma parseRxLog_bounds:
  assumes "parseRxLog frame = Some r"
  shows "- 128 \<le> rx_rssi r" "rx_rssi r < 128" "- 32 \<le> rx_snr r" "rx_snr r < 32" "rx_raw r \<noteq> []"
proof -
  have r: "rx_rssi r = int8 (frame ! 2)" "rx_snr r = of_int (int8 (frame ! 1)) / 4"
    "rx_raw r = drop 3 frame" "4 \<le> length frame"
    using assms by (auto simp: parseRxLog_def split: if_splits)
  show "- 128 \<le> rx_rssi r" "rx_rssi r < 128" "rx_raw r \<noteq> []"
    using int8_bounds [of "frame ! 2"] r by auto
  show "- 32 \<le> rx_snr r" "rx_snr r < 32"
    using int8_bounds [of "frame ! 1"] unfolding r by linarith+
qed

end
