(* ===== verification/Companion.thy ===== *)
theory Companion
  imports Protocol
begin

section \<open>Talking to the radio (wardrive/radio/companion.ts)\<close>

text \<open>
  The companion runs one exchange at a time: it hands a frame to the link and reads what
  comes until its answer, a link error or its timer. The link during one exchange is a list
  of events; its end is the timer, which always fires. Each operation returns its result,
  the companion and the events it left for the next exchange. \<open>cp_sent\<close> lists the frames
  handed to the link.
\<close>

definition STATS_QUIET_MS :: int where "STATS_QUIET_MS = 5 * 60 * 1000"
definition RESP_SENT :: u8 where "RESP_SENT = 6"
definition APP_NAME :: jstr where "APP_NAME = str ''rtfm-ev-wardrive''"

datatype link_event = Rx bytes | Expire | SendFails

record companion =
  cp_late :: bool
  cp_statsQuietUntil :: int
  cp_sent :: "bytes list"

definition newCompanion :: companion where
  "newCompanion = \<lparr>cp_late = False, cp_statsQuietUntil = 0, cp_sent = []\<rparr>"

definition put :: "bytes \<Rightarrow> companion \<Rightarrow> companion" where
  "put frame c = c\<lparr>cp_sent := cp_sent c @ [frame]\<rparr>"

text \<open>\<^verbatim>\<open>reply[0]\<close>, \<^verbatim>\<open>undefined\<close> for an empty frame.\<close>

definition code_of :: "bytes \<Rightarrow> u8 option" where
  "code_of reply = (case reply of [] \<Rightarrow> None | b # _ \<Rightarrow> Some b)"

datatype link_error = NoAnswer | LinkError | Refused "u8 option" | TooLong nat nat | ShortReply
  | ShortSignature

subsection \<open>Identity, contacts, statistics\<close>

fun start_wait :: "link_event list \<Rightarrow> (link_error + self_info) \<times> link_event list" where
  "start_wait [] = (Inl NoAnswer, [])"
| "start_wait (Expire # es) = (Inl NoAnswer, es)"
| "start_wait (SendFails # es) = (Inl LinkError, es)"
| "start_wait (Rx frame # es) =
     (case parseSelfInfo frame of None \<Rightarrow> start_wait es | Some info \<Rightarrow> (Inr info, es))"

definition start ::
  "link_event list \<Rightarrow> companion \<Rightarrow> (link_error + self_info) \<times> companion \<times> link_event list" where
  "start es c = (let (r, es) = start_wait es in (r, put (appStartFrame APP_NAME) c, es))"

fun time_wait :: "link_event list \<Rightarrow> nat option \<times> link_event list" where
  "time_wait [] = (None, [])"
| "time_wait (Expire # es) = (None, es)"
| "time_wait (SendFails # es) = (None, es)"
| "time_wait (Rx frame # es) =
     (if code_of frame = Some RESP_CURR_TIME \<and> length frame \<ge> 5
      then (getUint32 frame 1, es) else time_wait es)"

fun contacts_wait :: "int \<Rightarrow> directory_node list \<Rightarrow> link_event list \<Rightarrow> directory_node list \<times> link_event list" where
  "contacts_wait off found [] = (found, [])"
| "contacts_wait off found (Expire # es) = (found, es)"
| "contacts_wait off found (SendFails # es) = (found, es)"
| "contacts_wait off found (Rx frame # es) =
     (if code_of frame = Some RESP_CONTACT then
        contacts_wait off (case parseContact frame off of None \<Rightarrow> found | Some n \<Rightarrow> found @ [n]) es
      else if code_of frame = Some RESP_END_OF_CONTACTS then (found, es)
      else contacts_wait off found es)"

definition clock_offset :: "int \<Rightarrow> nat option \<Rightarrow> int" where
  "clock_offset nowMs radioNow =
     (case radioNow of None \<Rightarrow> 0 | Some t \<Rightarrow> js_round (of_int nowMs / 1000) - int t)"

definition contacts ::
  "int \<Rightarrow> link_event list \<Rightarrow> companion \<Rightarrow> directory_node list \<times> companion \<times> link_event list" where
  "contacts nowMs es c =
     (let (t, es) = time_wait es;
          (found, es) = contacts_wait (clock_offset nowMs t) [] es
      in (found, put [CMD_GET_CONTACTS] (put [CMD_GET_DEVICE_TIME] c), es))"

fun stats_wait :: "u8 \<Rightarrow> link_event list \<Rightarrow> bytes option \<times> bool \<times> link_event list" where
  "stats_wait ty [] = (None, True, [])"
| "stats_wait ty (Expire # es) = (None, True, es)"
| "stats_wait ty (SendFails # es) = (None, False, es)"
| "stats_wait ty (Rx frame # es) =
     (if code_of frame = Some RESP_STATS \<and> length frame \<ge> 2 \<and> frame ! 1 = ty
      then (Some frame, False, es) else stats_wait ty es)"

definition stats ::
  "u8 \<Rightarrow> int \<Rightarrow> int \<Rightarrow> link_event list \<Rightarrow> companion \<Rightarrow> bytes option \<times> companion \<times> link_event list" where
  "stats ty now later es c =
     (if now < cp_statsQuietUntil c then (None, c, es)
      else
        let (r, expired, es) = stats_wait ty es;
            c = put [CMD_GET_STATS, ty] c
        in (r, (if expired then c\<lparr>cp_statsQuietUntil := later + STATS_QUIET_MS\<rparr> else c), es))"

subsection \<open>Transmitting\<close>

record transmit_result =
  tx_sent :: bool
  tx_reply :: "bytes option"

definition sent_with :: "bool \<Rightarrow> bytes option \<Rightarrow> transmit_result" where
  "sent_with sent reply = \<lparr>tx_sent = sent, tx_reply = reply\<rparr>"

datatype accepting = AwaitOk | AwaitSent

text \<open>One reply: the result it settles with, and whether it clears the late replies.\<close>

definition transmit_reads :: "accepting \<Rightarrow> bool \<Rightarrow> bytes \<Rightarrow> (transmit_result \<times> bool) option" where
  "transmit_reads accept late reply =
     (let code = code_of reply in
      if accept = AwaitSent \<and> code = Some RESP_SENT \<and> length reply \<ge> 10
      then Some (sent_with True (Some reply), True)
      else if accept = AwaitOk \<and> (code = Some RESP_OK \<or> code = Some RESP_ERR) \<and> late
      then Some (sent_with True None, False)
      else if accept = AwaitOk \<and> code = Some RESP_OK then Some (sent_with True (Some reply), False)
      else if code = Some RESP_ERR \<and> \<not> late then Some (sent_with False None, False)
      else None)"

fun transmit_wait ::
  "accepting \<Rightarrow> bool \<Rightarrow> bool \<Rightarrow> link_event list \<Rightarrow> transmit_result \<times> bool \<times> link_event list" where
  "transmit_wait accept late cur [] = (sent_with True None, True, [])"
| "transmit_wait accept late cur (Expire # es) = (sent_with True None, True, es)"
| "transmit_wait accept late cur (SendFails # es) = (sent_with False None, cur, es)"
| "transmit_wait accept late cur (Rx reply # es) =
     (case transmit_reads accept late reply of
        None \<Rightarrow> transmit_wait accept late cur es
      | Some (r, clears) \<Rightarrow> (r, (if clears then False else cur), es))"

definition transmit ::
  "bytes \<Rightarrow> accepting \<Rightarrow> bool \<Rightarrow> link_event list \<Rightarrow> companion \<Rightarrow>
   transmit_result \<times> companion \<times> link_event list" where
  "transmit frame accept allowed es c =
     (if \<not> allowed then (sent_with False None, c, es)
      else
        let (r, late, es) = transmit_wait accept (cp_late c) (cp_late c) es
        in (r, (put frame c)\<lparr>cp_late := late\<rparr>, es))"

fun request_wait ::
  "(bytes \<Rightarrow> bool \<Rightarrow> 'a option) \<Rightarrow> bool \<Rightarrow> link_event list \<Rightarrow> 'a option \<times> bool \<times> link_event list" where
  "request_wait accept late [] = (None, True, [])"
| "request_wait accept late (Expire # es) = (None, True, es)"
| "request_wait accept late (SendFails # es) = (None, late, es)"
| "request_wait accept late (Rx reply # es) =
     (case accept reply late of
        None \<Rightarrow> request_wait accept late es
      | Some v \<Rightarrow>
          (Some v,
           (if code_of reply \<noteq> Some RESP_OK \<and> code_of reply \<noteq> Some RESP_ERR then False else late), es))"

definition request ::
  "bytes \<Rightarrow> (bytes \<Rightarrow> bool \<Rightarrow> 'a option) \<Rightarrow> link_event list \<Rightarrow> companion \<Rightarrow>
   'a option \<times> companion \<times> link_event list" where
  "request frame accept es c =
     (let (v, late, es) = request_wait accept (cp_late c) es
      in (v, (put frame c)\<lparr>cp_late := late\<rparr>, es))"

subsection \<open>Signing\<close>

fun exchange_wait ::
  "u8 \<Rightarrow> bool \<Rightarrow> link_event list \<Rightarrow> (link_error + bytes) \<times> bool \<times> link_event list" where
  "exchange_wait accept ignoreErrors [] = (Inl NoAnswer, True, [])"
| "exchange_wait accept ignoreErrors (Expire # es) = (Inl NoAnswer, True, es)"
| "exchange_wait accept ignoreErrors (SendFails # es) = (Inl LinkError, False, es)"
| "exchange_wait accept ignoreErrors (Rx reply # es) =
     (if code_of reply = Some RESP_ERR \<and> \<not> ignoreErrors
      then (Inl (Refused (if length reply > 1 then Some (reply ! 1) else None)), False, es)
      else if code_of reply \<noteq> Some accept then exchange_wait accept ignoreErrors es
      else (Inr reply, False, es))"

definition exchange ::
  "bytes \<Rightarrow> u8 \<Rightarrow> bool \<Rightarrow> link_event list \<Rightarrow> companion \<Rightarrow>
   (link_error + bytes) \<times> companion \<times> link_event list" where
  "exchange frame accept ignoreErrors es c =
     (let (r, expired, es) = exchange_wait accept ignoreErrors es;
          c = put frame c
      in (r, (if expired then c\<lparr>cp_late := True\<rparr> else c), es))"

function sign_data ::
  "bytes \<Rightarrow> nat \<Rightarrow> link_event list \<Rightarrow> companion \<Rightarrow> link_error option \<times> companion \<times> link_event list" where
  "sign_data bs i es c =
     (if i < length bs then
        case exchange (CMD_SIGN_DATA # subarr i (i + SIGN_CHUNK) bs) RESP_OK False es c of
          (Inl e, c, es) \<Rightarrow> (Some e, c, es)
        | (Inr _, c, es) \<Rightarrow> sign_data bs (i + SIGN_CHUNK) es c
      else (None, c, es))"
  by pat_completeness auto
termination by (relation "measure (\<lambda>(bs, i, _, _). length bs - i)") (auto simp: SIGN_CHUNK_def)

declare sign_data.simps [simp del]

definition sign ::
  "bytes \<Rightarrow> link_event list \<Rightarrow> companion \<Rightarrow> (link_error + bytes) \<times> companion \<times> link_event list" where
  "sign bs es c =
     (case exchange [CMD_SIGN_START] RESP_SIGN_START (cp_late c) es c of
        (Inl e, c, es) \<Rightarrow> (Inl e, c, es)
      | (Inr started, c, es) \<Rightarrow>
          (let c = c\<lparr>cp_late := False\<rparr> in
           case getUint32 started 2 of
             None \<Rightarrow> (Inl ShortReply, c, es)
           | Some maxLen \<Rightarrow>
               if length bs > maxLen then (Inl (TooLong (length bs) maxLen), c, es)
               else (case sign_data bs 0 es c of
                 (Some e, c, es) \<Rightarrow> (Inl e, c, es)
               | (None, c, es) \<Rightarrow>
                   (case exchange [CMD_SIGN_FINISH] RESP_SIGNATURE False es c of
                      (Inl e, c, es) \<Rightarrow> (Inl e, c, es)
                    | (Inr done, c, es) \<Rightarrow>
                        if length done < 65 then (Inl ShortSignature, c, es)
                        else (Inr (subarr 1 65 done), c, es)))))"

subsection \<open>What signing puts on the link\<close>

function data_frames :: "bytes \<Rightarrow> nat \<Rightarrow> bytes list" where
  "data_frames bs i =
     (if i < length bs
      then (CMD_SIGN_DATA # subarr i (i + SIGN_CHUNK) bs) # data_frames bs (i + SIGN_CHUNK)
      else [])"
  by pat_completeness auto
termination by (relation "measure (\<lambda>(bs, i). length bs - i)") (auto simp: SIGN_CHUNK_def)

declare data_frames.simps [simp del]

lemma exchange_sent: "cp_sent (fst (snd (exchange f a ig es c))) = cp_sent c @ [f]"
  by (simp add: exchange_def put_def case_prod_unfold Let_def)

lemma exchange_answer:
  "exchange f a ig es c = (Inr r, c', es') \<Longrightarrow> code_of r = Some a \<and> Rx r \<in> set es \<and> cp_late c' = cp_late c"
proof -
  have w: "exchange_wait a ig es = (Inr r, x, es') \<Longrightarrow> code_of r = Some a \<and> Rx r \<in> set es \<and> \<not> x" for x
    by (induction a ig es rule: exchange_wait.induct) (auto split: if_splits)
  assume "exchange f a ig es c = (Inr r, c', es')"
  then show ?thesis using w by (auto simp: exchange_def put_def Let_def split: prod.splits if_splits)
qed

lemma sign_data_sent:
  "sign_data bs i es c = (None, c', es') \<Longrightarrow> cp_sent c' = cp_sent c @ data_frames bs i"
proof (induction bs i es c rule: sign_data.induct)
  case (1 bs i es c)
  show ?case
  proof (cases "i < length bs")
    case False
    then show ?thesis using 1(2) by (simp add: sign_data.simps [of bs i] data_frames.simps [of bs i])
  next
    case True
    obtain r c1 es1 where e: "exchange (CMD_SIGN_DATA # subarr i (i + SIGN_CHUNK) bs) RESP_OK False es c = (r, c1, es1)"
      by (cases "exchange (CMD_SIGN_DATA # subarr i (i + SIGN_CHUNK) bs) RESP_OK False es c")
    have s1: "cp_sent c1 = cp_sent c @ [CMD_SIGN_DATA # subarr i (i + SIGN_CHUNK) bs]"
      using exchange_sent [of "CMD_SIGN_DATA # subarr i (i + SIGN_CHUNK) bs" RESP_OK False es c] by (simp add: e)
    obtain x where r: "r = Inr x" using 1(2) True e by (cases r) (auto simp: sign_data.simps [of bs i])
    then have "sign_data bs (i + SIGN_CHUNK) es1 c1 = (None, c', es')"
      using 1(2) True e by (simp add: sign_data.simps [of bs i])
    from 1(1) [OF True e [symmetric] r refl this] show ?thesis
      using True s1 by (simp add: data_frames.simps [of bs i])
  qed
qed

lemma data_frames_bytes: "concat (map tl (data_frames bs i)) = drop i bs"
proof (induction bs i rule: data_frames.induct)
  case (1 bs i)
  show ?case
  proof (cases "i < length bs")
    case False
    then show ?thesis by (simp add: data_frames.simps [of bs i])
  next
    case True
    have "subarr i (i + SIGN_CHUNK) bs @ drop (i + SIGN_CHUNK) bs = drop i bs"
      by (simp add: subarr_def) (metis add.commute append_take_drop_id drop_drop)
    with 1 True show ?thesis by (simp add: data_frames.simps [of bs i])
  qed
qed

lemma data_frames_each: "f \<in> set (data_frames bs i) \<Longrightarrow>
    hd f = CMD_SIGN_DATA \<and> 1 < length f \<and> length f \<le> 1 + SIGN_CHUNK"
proof (induction bs i rule: data_frames.induct)
  case (1 bs i)
  show ?case
  proof (cases "i < length bs")
    case False
    then show ?thesis using 1(2) by (simp add: data_frames.simps [of bs i])
  next
    case True
    with 1 show ?thesis by (auto simp: data_frames.simps [of bs i] SIGN_CHUNK_def)
  qed
qed

lemma sign_frames:
  assumes "sign bs es c = (Inr sig, c', es')"
  shows "length sig = 64"
    "cp_sent c' = cp_sent c @ [[CMD_SIGN_START]] @ data_frames bs 0 @ [[CMD_SIGN_FINISH]]"
    "\<not> cp_late c'"
proof -
  obtain st c1 es1 where e1: "exchange [CMD_SIGN_START] RESP_SIGN_START (cp_late c) es c = (Inr st, c1, es1)"
    using assms by (auto simp: sign_def split: prod.splits sum.splits)
  obtain m where m: "getUint32 st 2 = Some m" "length bs \<le> m"
    using assms by (auto simp: sign_def e1 Let_def split: option.splits if_splits)
  obtain c2 es2 where d: "sign_data bs 0 es1 (c1\<lparr>cp_late := False\<rparr>) = (None, c2, es2)"
    using assms m by (auto simp: sign_def e1 Let_def split: option.splits prod.splits)
  obtain dn c3 es3 where e3: "exchange [CMD_SIGN_FINISH] RESP_SIGNATURE False es2 c2 = (Inr dn, c3, es3)"
    using assms m d by (auto simp: sign_def e1 Let_def split: prod.splits sum.splits)
  have r: "65 \<le> length dn" "sig = subarr 1 65 dn" "c' = c3"
    using assms m d e3 by (auto simp: sign_def e1 Let_def split: if_splits)
  show "length sig = 64" using r by simp
  show "cp_sent c' = cp_sent c @ [[CMD_SIGN_START]] @ data_frames bs 0 @ [[CMD_SIGN_FINISH]]"
    using exchange_sent [of "[CMD_SIGN_START]" RESP_SIGN_START "cp_late c" es c] sign_data_sent [OF d]
      exchange_sent [of "[CMD_SIGN_FINISH]" RESP_SIGNATURE False es2 c2] r by (simp add: e1 e3)
  have l2: "sign_data bs i es c = (None, c', es') \<Longrightarrow> cp_late c' = cp_late c" for i es c c' es'
  proof (induction bs i es c rule: sign_data.induct)
    case (1 bs i es c)
    then show ?case
      using exchange_answer
      by (subst (asm) (2) sign_data.simps) (fastforce split: if_splits prod.splits sum.splits)
  qed
  show "\<not> cp_late c'"
    using exchange_answer [OF e3] l2 [OF d] r by simp
qed


subsection \<open>What a transmit reports\<close>

lemma transmit_wait_unsent:
  "transmit_wait a late cur es = (r, l, es') \<Longrightarrow> \<not> tx_sent r \<Longrightarrow>
   SendFails \<in> set es \<or> (\<not> late \<and> (\<exists>x. Rx x \<in> set es \<and> code_of x = Some RESP_ERR))"
  by (induction a late cur es rule: transmit_wait.induct)
     (auto simp: transmit_reads_def sent_with_def Let_def split: if_splits option.splits)

lemma transmit_unsent:
  assumes "transmit f a allowed es c = (r, c', es')" "\<not> tx_sent r" "allowed"
  shows "SendFails \<in> set es \<or> (\<not> cp_late c \<and> (\<exists>x. Rx x \<in> set es \<and> code_of x = Some RESP_ERR))"
proof -
  obtain l where "transmit_wait a (cp_late c) (cp_late c) es = (r, l, es')"
    using assms(1,3) by (auto simp: transmit_def Let_def split: prod.splits)
  then show ?thesis using transmit_wait_unsent assms(2) by blast
qed

lemma transmit_unallowed: "transmit f a False es c = (sent_with False None, c, es)"
  by (simp add: transmit_def)

lemma transmit_frames: "cp_sent (fst (snd (transmit f a allowed es c))) =
    (if allowed then cp_sent c @ [f] else cp_sent c)"
  by (simp add: transmit_def put_def case_prod_unfold Let_def)

definition keyed_nodes :: "directory_node list \<Rightarrow> bool" where
  "keyed_nodes ns \<longleftrightarrow> (\<forall>n \<in> set ns. is_pubkey (dn_publicKey n))"

lemma keyed_nodes_add:
  "keyed_nodes ns \<Longrightarrow> keyed_nodes (case parseContact frame off of None \<Rightarrow> ns | Some n \<Rightarrow> ns @ [n])"
  using parseContact_key [of frame off] by (cases "parseContact frame off") (auto simp: keyed_nodes_def)

lemma contacts_wait_keys:
  "keyed_nodes found \<Longrightarrow> keyed_nodes (fst (contacts_wait off found es))"
proof (induction off found es rule: contacts_wait.induct)
  case (4 off found frame es)
  then show ?case using keyed_nodes_add by (simp del: option.case)
qed simp_all

lemma contacts_wait_frames:
  "contacts_wait off found (map Rx fs @ Rx e # es) =
     (found @ List.map_filter (\<lambda>f. parseContact f off) fs, es)"
  if "\<forall>f \<in> set fs. code_of f = Some RESP_CONTACT" "code_of e = Some RESP_END_OF_CONTACTS"
  using that
proof (induction fs arbitrary: found)
  case Nil
  then show ?case by (simp add: RESP_CONTACT_def RESP_END_OF_CONTACTS_def map_filter_def)
next
  case (Cons f fs)
  then show ?case by (simp add: map_filter_simps split: option.split)
qed

subsection \<open>A late answer with a code of its own\<close>

text \<open>
  Three transmits to a radio that answers each command, in order, one exchange late: the
  first is not answered in time, the second takes the first's SENT for its own and drops the
  late flag, the third takes the second's error for its own.
\<close>

definition late_run ::
  "bytes \<Rightarrow> bytes \<Rightarrow> bytes \<Rightarrow> bytes \<Rightarrow> bytes \<Rightarrow> transmit_result \<times> transmit_result \<times> transmit_result" where
  "late_run cmd1 cmd2 cmd3 ans1 ans2 =
     (let (r1, c, _) = transmit cmd1 AwaitSent True [Expire] newCompanion;
          (r2, c, _) = transmit cmd2 AwaitSent True [Rx ans1] c;
          (r3, c, _) = transmit cmd3 AwaitOk True [Rx ans2] c
      in (r1, r2, r3))"

lemma late_run_result:
  assumes "code_of ans1 = Some RESP_SENT" "10 \<le> length ans1" "code_of ans2 = Some RESP_ERR"
  shows "late_run cmd1 cmd2 cmd3 ans1 ans2 =
    (sent_with True None, sent_with True (Some ans1), sent_with False None)"
  using assms
  by (simp add: late_run_def transmit_def transmit_reads_def newCompanion_def put_def RESP_SENT_def
      RESP_ERR_def RESP_OK_def)

subsection \<open>Properties\<close>

text \<open>A signing that succeeds handed the radio exactly the bytes to sign, in order: one start
  frame, data frames of at most 128 bytes whose contents together are those bytes, one finish
  frame; it returns the 64 bytes of the radio's signature reply, and no reply is late after it.\<close>

theorem sign_hands_over_bytes:
  assumes "sign bs es c = (Inr sig, c', es')"
  shows "\<exists>parts. cp_sent c' = cp_sent c @ [[CMD_SIGN_START]] @ map (\<lambda>p. CMD_SIGN_DATA # p) parts @ [[CMD_SIGN_FINISH]]
    \<and> concat parts = bs \<and> (\<forall>p \<in> set parts. 0 < length p \<and> length p \<le> SIGN_CHUNK)
    \<and> length sig = 64 \<and> \<not> cp_late c'"
proof -
  have "f = CMD_SIGN_DATA # tl f \<and> 0 < length (tl f) \<and> length (tl f) \<le> SIGN_CHUNK"
    if "f \<in> set (data_frames bs 0)" for f
    using data_frames_each [OF that] by (cases f) auto
  then have each: "\<forall>f \<in> set (data_frames bs 0). f = CMD_SIGN_DATA # tl f \<and> 0 < length (tl f) \<and> length (tl f) \<le> SIGN_CHUNK"
    by blast
  then have "map (\<lambda>p. CMD_SIGN_DATA # p) (map tl (data_frames bs 0)) = data_frames bs 0"
    by (auto simp: comp_def intro!: map_idI)
  then show ?thesis
    using sign_frames [OF assms] each data_frames_bytes [of bs 0]
    by (intro exI [of _ "map tl (data_frames bs 0)"]) auto
qed

definition sample_signing :: "link_event list" where
  "sample_signing = [Rx [19, 0, 128, 0, 0, 0], Rx [0], Rx (20 # replicate 64 5)]"

lemma sample_signing_result:
  "\<exists>c'. sign [7] sample_signing newCompanion = (Inr (replicate 64 5), c', [])"
  by (simp add: sample_signing_def sign_def exchange_def sign_data.simps [of _ 0] sign_data.simps [of _ 128]
      code_of_def RESP_SIGN_START_def RESP_ERR_def RESP_OK_def RESP_SIGNATURE_def SIGN_CHUNK_def
      getUint32_def newCompanion_def put_def subarr_def)

theorem sign_hands_over_bytes_witness:
  "\<exists>c' parts. sign [7] sample_signing newCompanion = (Inr (replicate 64 5), c', [])
    \<and> cp_sent c' = [[CMD_SIGN_START]] @ map (\<lambda>p. CMD_SIGN_DATA # p) parts @ [[CMD_SIGN_FINISH]]
    \<and> concat parts = [7]"
proof -
  obtain c' where c: "sign [7] sample_signing newCompanion = (Inr (replicate 64 5), c', [])"
    using sample_signing_result by blast
  have "cp_sent newCompanion = []" by (simp add: newCompanion_def)
  then show ?thesis using sign_hands_over_bytes [OF c] c by fastforce
qed

text \<open>A late answer can be taken for another command's. After a directed packet timed out (it
  counts as sent), its late SENT answers the next directed command, which also forgets that
  replies are late; the error that belongs to that second command then makes the third one, an
  Auto-discover frame that waits for OK, report that it was not sent.\<close>

theorem late_answer_misread:
  assumes "code_of ans1 = Some RESP_SENT" "10 \<le> length ans1" "code_of ans2 = Some RESP_ERR"
  shows "late_run cmd1 cmd2 cmd3 ans1 ans2 =
    (sent_with True None, sent_with True (Some ans1), sent_with False None)"
  using late_run_result [OF assms] .

theorem late_answer_misread_witness:
  "late_run [36] [37] [55] (6 # replicate 9 0) [1, 2] =
    (sent_with True None, sent_with True (Some (6 # replicate 9 0)), sent_with False None)"
  by (rule late_answer_misread) (simp_all add: code_of_def RESP_SENT_def RESP_ERR_def)

text \<open>Reading the contact table: whatever the link does, every node in the list has a full public
  key; and when the radio answers its clock and then its contacts and the end marker, the list
  is those contacts, in order, each parsed with the clock's offset to the page's.\<close>

theorem contacts_reads_table:
  assumes "code_of t = Some RESP_CURR_TIME" "5 \<le> length t" "getUint32 t 1 = Some radioNow"
    and "\<forall>f \<in> set fs. code_of f = Some RESP_CONTACT" "code_of e = Some RESP_END_OF_CONTACTS"
  shows "contacts nowMs (Rx t # map Rx fs @ Rx e # es) c =
      (List.map_filter (\<lambda>f. parseContact f (js_round (of_int nowMs / 1000) - int radioNow)) fs,
       put [CMD_GET_CONTACTS] (put [CMD_GET_DEVICE_TIME] c), es)
    \<and> (\<forall>es' node. node \<in> set (fst (contacts nowMs es' c)) \<longrightarrow> is_pubkey (dn_publicKey node))"
proof -
  have "is_pubkey (dn_publicKey node)" if "node \<in> set (fst (contacts nowMs es' c))" for es' node
    using that contacts_wait_keys [of "[]"]
    by (auto simp: contacts_def keyed_nodes_def Let_def case_prod_unfold)
  then show ?thesis
    using assms contacts_wait_frames [OF assms(4,5), of _ "[]" es]
    by (simp add: contacts_def clock_offset_def)
qed

theorem contacts_reads_table_witness:
  "contacts 5000 (Rx [9, 2, 0, 0, 0] # map Rx [3 # replicate 147 0] @ Rx [4] # []) newCompanion =
      (List.map_filter (\<lambda>f. parseContact f (js_round (of_int 5000 / 1000) - int 2)) [3 # replicate 147 0],
       put [CMD_GET_CONTACTS] (put [CMD_GET_DEVICE_TIME] newCompanion), [])"
  using contacts_reads_table [of "[9, 2, 0, 0, 0]" 2 "[3 # replicate 147 0]" "[4]" 5000 "[]" newCompanion]
  by (simp add: code_of_def RESP_CURR_TIME_def RESP_CONTACT_def RESP_END_OF_CONTACTS_def getUint32_def)

end
