(* ===== verification/Airtime.thy ===== *)
theory Airtime
  imports WdTypes Bytes
begin

section \<open>Time on air and the cycle gate (wardrive/discover/airtime.ts, gate.ts; capture.ts)\<close>

text \<open>
  How long a frame is on the air, how long a cycle buys of silence, and when the next
  cycle may fire. The spreading factor is the radio's byte or unknown. The distance is the
  haversine formula over the reals; the code's is in floating point.
\<close>

definition DUTY_BUDGET :: real where "DUTY_BUDGET = 1 / 10"
definition DEFAULT_SF :: nat where "DEFAULT_SF = 8"
definition BW_KHZ :: real where "BW_KHZ = 125 / 2"
definition DISCOVER_BYTES :: nat where "DISCOVER_BYTES = 8"
definition TRACE_BYTES :: nat where "TRACE_BYTES = 12"
definition TELEMETRY_REQ_BYTES :: nat where "TELEMETRY_REQ_BYTES = 22"
definition ANON_REQ_BYTES :: nat where "ANON_REQ_BYTES = 53"

definition advertBytes :: "jstr \<Rightarrow> nat" where
  "advertBytes name =
     (let nameBytes = length (utf8_encode name)
      in 2 + 32 + 4 + 64 + min (1 + 8 + nameBytes) 32)"

definition knownSf :: "nat option \<Rightarrow> nat" where
  "knownSf sf = (case sf of Some n \<Rightarrow> if 5 \<le> n \<and> n \<le> 12 then n else DEFAULT_SF | None \<Rightarrow> DEFAULT_SF)"

definition symbolUs :: "nat \<Rightarrow> real \<Rightarrow> int" where
  "symbolUs s bwKhz = \<lfloor>10000 * 2 ^ s / (bwKhz * 10)\<rfloor>"

definition ceil_div :: "int \<Rightarrow> int \<Rightarrow> int" where
  "ceil_div a b = - ((- a) div b)"

definition frame_groups :: "nat \<Rightarrow> nat \<Rightarrow> int \<Rightarrow> int" where
  "frame_groups bytes s symUs =
     (let coeff2 = (if s \<le> 6 then 0 else 8);
          divisor = (if symUs \<ge> 16000 then 4 * (int s - 2) else 4 * int s);
          bits = max 0 (8 * int bytes + 16 - 4 * int s + coeff2 + 20)
      in ceil_div bits divisor)"

definition frameAirtimeMs :: "nat \<Rightarrow> nat option \<Rightarrow> real \<Rightarrow> int" where
  "frameAirtimeMs bytes sf bwKhz =
     (let s = knownSf sf;
          symUs = symbolUs s bwKhz;
          coeff1x4 = (if s \<le> 6 then 25 else 17);
          groups = frame_groups bytes s symUs;
          preamble = (if s \<le> 8 then 32 else 16);
          symbolsX4 = (preamble + 8) * 4 + coeff1x4 + groups * 5 * 4
      in symUs * symbolsX4 div 4000)"

definition cycleAirtimeMs :: "nat list \<Rightarrow> nat option \<Rightarrow> int" where
  "cycleAirtimeMs frameBytes sf = foldl (\<lambda>sum b. sum + frameAirtimeMs b sf BW_KHZ) 0 frameBytes"

definition minPeriodMs :: "nat list \<Rightarrow> nat option \<Rightarrow> int" where
  "minPeriodMs frameBytes sf = js_round (of_int (cycleAirtimeMs frameBytes sf) / DUTY_BUDGET)"

subsection \<open>Distance (capture.ts)\<close>

definition rad :: real where "rad = pi / 180"

definition haversineM :: "real \<times> real \<Rightarrow> real \<times> real \<Rightarrow> real" where
  "haversineM a b =
     (let (lat1, lon1) = a;
          (lat2, lon2) = b;
          dLat = (lat2 - lat1) * rad;
          dLon = (lon2 - lon1) * rad;
          h = sin (dLat / 2) ^ 2 + cos (lat1 * rad) * cos (lat2 * rad) * sin (dLon / 2) ^ 2
      in 2 * 6371000 * arcsin (sqrt h))"

subsection \<open>The gate\<close>

definition INTERVAL_MS :: int where "INTERVAL_MS = 10000"
definition MOVE_THRESHOLD_M :: real where "MOVE_THRESHOLD_M = 50"
definition STAGGER_MS :: int where "STAGGER_MS = 1500"

record gate_input =
  g_lastFireAt :: "int option"
  g_lastPos :: "(real \<times> real) option"
  g_now :: int
  g_pos :: "(real \<times> real) option"
  g_pendingTargets :: nat
  g_minPeriodMs :: int

definition shouldAutoFire :: "gate_input \<Rightarrow> bool" where
  "shouldAutoFire g =
     (if g_pendingTargets g > 0 then False
      else case g_lastFireAt g of
        None \<Rightarrow> True
      | Some t \<Rightarrow>
          let since = g_now g - t in
          if since < g_minPeriodMs g then False
          else if since \<ge> INTERVAL_MS then True
          else (case (g_pos g, g_lastPos g) of
            (Some p, Some l) \<Rightarrow> haversineM l p \<ge> MOVE_THRESHOLD_M
          | _ \<Rightarrow> False))"

definition staggerTargets :: "jstr list \<Rightarrow> (jstr \<times> int) list" where
  "staggerTargets ids = map (\<lambda>i. (ids ! i, (int i + 1) * STAGGER_MS)) [0..<length ids]"

definition cadenceSeconds :: "bool \<Rightarrow> int \<Rightarrow> int option" where
  "cadenceSeconds enabled minPeriod =
     (if \<not> enabled then None else Some (ceil_div (max INTERVAL_MS minPeriod) 1000))"

subsection \<open>The duty budget\<close>

lemma ceil_div_ge: "0 < b \<Longrightarrow> a \<le> ceil_div a b * b"
proof -
  assume b: "0 < b"
  define q r where "q = (- a) div b" and "r = (- a) mod b"
  have "q * b + r = - a" "0 \<le> r" using b by (simp_all add: q_def r_def)
  then show ?thesis unfolding ceil_div_def q_def [symmetric] by simp
qed

lemma ceil_div_nonneg: "0 < b \<Longrightarrow> 0 \<le> a \<Longrightarrow> 0 \<le> ceil_div a b"
proof -
  assume "0 < b" "0 \<le> a"
  then have "(- a) div b \<le> 0" by (metis div_nonpos_pos_le0 neg_le_0_iff_le)
  then show ?thesis by (simp add: ceil_div_def)
qed

lemma ceil_div_mono: "0 < b \<Longrightarrow> a \<le> a' \<Longrightarrow> ceil_div a b \<le> ceil_div a' b"
  unfolding ceil_div_def by (simp add: zdiv_mono1)

lemma knownSf_bounds: "5 \<le> knownSf sf" "knownSf sf \<le> 12"
  by (auto simp: knownSf_def DEFAULT_SF_def split: option.splits)

lemma symbolUs_default: "symbolUs s BW_KHZ = 16 * 2 ^ s"
proof -
  have "(10000 :: real) * 2 ^ s / (BW_KHZ * 10) = of_int (16 * 2 ^ s)" by (simp add: BW_KHZ_def)
  then show ?thesis unfolding symbolUs_def by (simp only: floor_of_int)
qed

lemma frame_groups_nonneg: "5 \<le> s \<Longrightarrow> 0 \<le> frame_groups bytes s symUs"
  unfolding frame_groups_def Let_def by (intro ceil_div_nonneg) auto

lemma frameAirtime_pos: "8 \<le> frameAirtimeMs bytes sf BW_KHZ"
proof -
  define s where "s = knownSf sf"
  have s: "5 \<le> s" "s \<le> 12" using knownSf_bounds by (auto simp: s_def)
  define y where "y = ((if s \<le> 8 then 32 else 16) + 8) * 4 + (if s \<le> 6 then 25 else 17)
     + frame_groups bytes s (symbolUs s BW_KHZ) * 5 * (4 :: int)"
  have "113 \<le> y" using frame_groups_nonneg [OF s(1), of bytes "symbolUs s BW_KHZ"]
    unfolding y_def by simp
  have "(2 :: int) ^ 5 \<le> 2 ^ s" using s(1) by (rule power_increasing) simp
  then have x: "512 \<le> symbolUs s BW_KHZ" by (simp add: symbolUs_default)
  have "512 * 113 \<le> symbolUs s BW_KHZ * y"
    using x \<open>113 \<le> y\<close> by (intro mult_mono) auto
  then have "512 * 113 div 4000 \<le> symbolUs s BW_KHZ * y div 4000" by (rule zdiv_mono1) simp
  then show ?thesis by (simp add: frameAirtimeMs_def Let_def s_def [symmetric] y_def)
qed

lemma frameAirtime_mono:
  assumes "m \<le> n" shows "frameAirtimeMs m sf BW_KHZ \<le> frameAirtimeMs n sf BW_KHZ"
proof -
  define s where "s = knownSf sf"
  have s: "5 \<le> s" using knownSf_bounds by (auto simp: s_def)
  have "frame_groups m s (symbolUs s BW_KHZ) \<le> frame_groups n s (symbolUs s BW_KHZ)"
    unfolding frame_groups_def Let_def using s assms by (intro ceil_div_mono) auto
  moreover have "0 \<le> symbolUs s BW_KHZ" by (simp add: symbolUs_default)
  ultimately show ?thesis
    unfolding frameAirtimeMs_def Let_def s_def [symmetric]
    by (intro zdiv_mono1 mult_left_mono add_mono mult_right_mono) auto
qed

lemma cycleAirtime_sum: "cycleAirtimeMs bs sf = sum_list (map (\<lambda>b. frameAirtimeMs b sf BW_KHZ) bs)"
proof -
  have "foldl (\<lambda>sum b. sum + frameAirtimeMs b sf BW_KHZ) n bs =
      n + sum_list (map (\<lambda>b. frameAirtimeMs b sf BW_KHZ) bs)" for n
    by (induction bs arbitrary: n) auto
  then show ?thesis by (simp add: cycleAirtimeMs_def)
qed

lemma cycleAirtime_nonneg: "0 \<le> cycleAirtimeMs bs sf"
  unfolding cycleAirtime_sum
  by (rule sum_list_nonneg) (use frameAirtime_pos [THEN order_trans [rotated]] in auto)

lemma minPeriod_eq: "minPeriodMs bs sf = 10 * cycleAirtimeMs bs sf"
proof -
  have "of_int (cycleAirtimeMs bs sf) / DUTY_BUDGET = of_int (10 * cycleAirtimeMs bs sf)"
    by (simp add: DUTY_BUDGET_def)
  then show ?thesis unfolding minPeriodMs_def by (simp only: js_round_of_int)
qed

lemma minPeriod_append: "minPeriodMs (as @ bs) sf = minPeriodMs as sf + minPeriodMs bs sf"
  by (simp add: minPeriod_eq cycleAirtime_sum)

lemma minPeriod_Nil [simp]: "minPeriodMs [] sf = 0"
  by (simp add: minPeriod_eq cycleAirtime_sum)

text \<open>The gate fires only with nothing pending and the floor passed.\<close>

lemma shouldAutoFire_gate:
  assumes "shouldAutoFire g"
  shows "g_pendingTargets g = 0"
    "g_lastFireAt g = Some t \<Longrightarrow> g_minPeriodMs g \<le> g_now g - t"
  using assms by (auto simp: shouldAutoFire_def Let_def split: if_splits option.splits)

lemma haversine_same [simp]: "haversineM p p = 0"
  by (cases p) (simp add: haversineM_def)

end
