(* ===== verification/Sweep.thy ===== *)
theory Sweep
  imports WdTypes
begin

section \<open>Whom to ask (wardrive/discover/sweep.ts, discover/targets.ts)\<close>

text \<open>
  The rotation over heard repeaters with its backoff, and which heard senders count as
  repeaters. JavaScript \<^verbatim>\<open>Map\<close>s whose order shows are association lists, the others
  functions; a \<^verbatim>\<open>Set\<close> of picked ids is a list.
\<close>

definition RETRY_BACKOFF_MS :: "int list" where "RETRY_BACKOFF_MS = [0, 30000, 120000, 600000]"
definition SWEEP_BATCH :: nat where "SWEEP_BATCH = 4"

record sweep_state =
  sw_attempts :: "jstr \<Rightarrow> nat option"
  sw_lastAskedAt :: "jstr \<Rightarrow> int option"
  sw_cursor :: nat

definition sweep_start :: sweep_state where
  "sweep_start = \<lparr>sw_attempts = (\<lambda>_. None), sw_lastAskedAt = (\<lambda>_. None), sw_cursor = 0\<rparr>"

definition retryBackoffFor :: "nat \<Rightarrow> int" where
  "retryBackoffFor attempts =
     (if attempts \<le> 0 then 0 else RETRY_BACKOFF_MS ! min attempts (length RETRY_BACKOFF_MS - 1))"

definition attempts_of :: "sweep_state \<Rightarrow> jstr \<Rightarrow> nat" where
  "attempts_of s i = (case sw_attempts s i of None \<Rightarrow> 0 | Some n \<Rightarrow> n)"

definition heardSinceAsk :: "jstr \<Rightarrow> (jstr \<Rightarrow> int option) \<Rightarrow> sweep_state \<Rightarrow> bool" where
  "heardSinceAsk i heardAt s =
     (case sw_lastAskedAt s i of
        None \<Rightarrow> False
      | Some asked \<Rightarrow> (case heardAt i of None \<Rightarrow> 0 | Some t \<Rightarrow> t) > asked)"

definition isDue :: "jstr \<Rightarrow> (jstr \<Rightarrow> int option) \<Rightarrow> int \<Rightarrow> sweep_state \<Rightarrow> bool" where
  "isDue i heardAt now s =
     (case sw_lastAskedAt s i of
        None \<Rightarrow> True
      | Some asked \<Rightarrow>
          heardSinceAsk i heardAt s \<or> now - asked \<ge> retryBackoffFor (attempts_of s i))"

definition nextSweepBatch ::
  "jstr list \<Rightarrow> sweep_state \<Rightarrow> (jstr \<Rightarrow> int option) \<Rightarrow> int \<Rightarrow> nat \<Rightarrow> jstr list" where
  "nextSweepBatch candidates s heardAt now count =
     (let due = filter (\<lambda>i. isDue i heardAt now s) candidates in
      if due = [] then []
      else
        let answering = filter (\<lambda>i. attempts_of s i \<le> 1) due;
            pool = (if answering \<noteq> [] then answering else due)
        in map (\<lambda>k. pool ! ((sw_cursor s + k) mod length pool)) [0..<min count (length pool)])"

definition noteAsk :: "jstr \<Rightarrow> sweep_state \<Rightarrow> (jstr \<Rightarrow> int option) \<Rightarrow> int \<Rightarrow> sweep_state" where
  "noteAsk i s heardAt now =
     s\<lparr>sw_attempts := (sw_attempts s)(i \<mapsto> if heardSinceAsk i heardAt s then 1 else attempts_of s i + 1),
       sw_lastAskedAt := (sw_lastAskedAt s)(i \<mapsto> now)\<rparr>"

subsection \<open>Heard repeaters\<close>

record heard_entry =
  he_at :: int
  he_sender :: sender

fun newest_loop ::
  "(jstr \<Rightarrow> bool) \<Rightarrow> (jstr \<times> heard_entry) list \<Rightarrow> heard_entry list \<Rightarrow> (jstr \<times> heard_entry) list" where
  "newest_loop wanted m [] = m"
| "newest_loop wanted m (e # es) =
     (case s_id (he_sender e) of
        None \<Rightarrow> newest_loop wanted m es
      | Some raw \<Rightarrow>
          let i = toLowerCase raw in
          if raw = [] \<or> \<not> wanted i then newest_loop wanted m es
          else (case map_of m i of
            None \<Rightarrow> newest_loop wanted (amap_set i e m) es
          | Some prev \<Rightarrow>
              if he_at e > he_at prev then newest_loop wanted (amap_set i e m) es
              else newest_loop wanted m es))"

definition newestPerSender :: "heard_entry list \<Rightarrow> (jstr \<Rightarrow> bool) \<Rightarrow> (jstr \<times> heard_entry) list" where
  "newestPerSender entries wanted = newest_loop wanted [] entries"

definition reads_as_repeater :: "sender \<Rightarrow> bool" where
  "reads_as_repeater s \<longleftrightarrow> s_role s = Some (str ''Repeater'') \<or> s_kind s = Some Relay
     \<or> s_kind s = Some TraceReply \<or> s_kind s = Some AnonReply"

definition repeaterReading :: "heard_entry list \<Rightarrow> (jstr \<Rightarrow> bool) \<Rightarrow> jstr list" where
  "repeaterReading entries wanted =
     map fst (filter (\<lambda>(i, e). reads_as_repeater (he_sender e)) (newestPerSender entries wanted))"

fun byte_loop :: "(jstr \<times> jstr) list \<Rightarrow> jstr list \<Rightarrow> (jstr \<times> jstr) list" where
  "byte_loop m [] = m"
| "byte_loop m (i # ids) =
     (let b = take 2 i in
      case map_of m b of
        None \<Rightarrow> byte_loop (amap_set b i m) ids
      | Some prev \<Rightarrow> byte_loop (if length i > length prev then amap_set b i m else m) ids)"

definition repeaterIds :: "heard_entry list \<Rightarrow> (jstr \<Rightarrow> bool) \<Rightarrow> jstr list" where
  "repeaterIds entries wanted = map snd (byte_loop [] (repeaterReading entries wanted))"

definition selectedRepeaterIds :: "heard_entry list \<Rightarrow> jstr list \<Rightarrow> jstr list" where
  "selectedRepeaterIds entries selected =
     (if selected = [] then [] else repeaterIds entries (\<lambda>i. i \<in> set selected))"

definition selectedCompanionIds :: "heard_entry list \<Rightarrow> jstr list \<Rightarrow> jstr list" where
  "selectedCompanionIds entries selected =
     (if selected = [] then []
      else
        let repeaters = repeaterReading entries (\<lambda>i. i \<in> set selected)
        in filter (\<lambda>i. i \<notin> set repeaters \<and> is_pubkey i)
             (map fst (newestPerSender entries (\<lambda>i. i \<in> set selected))))"

definition heardRepeaterIds :: "heard_entry list \<Rightarrow> jstr list" where
  "heardRepeaterIds entries = repeaterIds entries (\<lambda>_. True)"

subsection \<open>The batch\<close>

definition sweep_pool :: "jstr list \<Rightarrow> sweep_state \<Rightarrow> (jstr \<Rightarrow> int option) \<Rightarrow> int \<Rightarrow> jstr list" where
  "sweep_pool candidates s heardAt now =
     (let due = filter (\<lambda>i. isDue i heardAt now s) candidates;
          answering = filter (\<lambda>i. attempts_of s i \<le> 1) due
      in if answering \<noteq> [] then answering else due)"

lemma nextSweepBatch_pool:
  "nextSweepBatch candidates s heardAt now count =
     (let pool = sweep_pool candidates s heardAt now in
      map (\<lambda>k. pool ! ((sw_cursor s + k) mod length pool)) [0..<min count (length pool)])"
proof (cases "filter (\<lambda>i. isDue i heardAt now s) candidates = []")
  case True
  then show ?thesis unfolding nextSweepBatch_def sweep_pool_def Let_def True by simp
next
  case False
  then show ?thesis unfolding nextSweepBatch_def sweep_pool_def Let_def by (simp only: if_False)
qed

lemma sweep_pool_due:
  "set (sweep_pool candidates s heardAt now) \<subseteq> {i \<in> set candidates. isDue i heardAt now s}"
  by (auto simp: sweep_pool_def Let_def)

lemma sweep_pool_distinct: "distinct candidates \<Longrightarrow> distinct (sweep_pool candidates s heardAt now)"
  by (simp add: sweep_pool_def Let_def)

lemma rotation_inj:
  assumes "i < n" "j < n" "(c + i) mod n = (c + j) mod (n :: nat)"
  shows "i = j"
proof (cases "i \<le> j")
  case True
  then have "n dvd (c + j) - (c + i)" using assms(3) by (intro mod_eq_dvd_iff_nat [THEN iffD1]) auto
  then show ?thesis using True assms by (auto dest: dvd_imp_le)
next
  case False
  then have "n dvd (c + i) - (c + j)" using assms(3) by (intro mod_eq_dvd_iff_nat [THEN iffD1]) auto
  then show ?thesis using False assms by (auto dest: dvd_imp_le)
qed

lemma nextSweepBatch_distinct:
  assumes "distinct candidates"
  shows "distinct (nextSweepBatch candidates s heardAt now count)"
proof -
  define pool where "pool = sweep_pool candidates s heardAt now"
  have d: "distinct pool" using sweep_pool_distinct [OF assms] by (simp add: pool_def)
  have "inj_on (\<lambda>k. pool ! ((sw_cursor s + k) mod length pool)) {0..<min count (length pool)}"
  proof (rule inj_onI)
    fix i j
    assume a: "i \<in> {0..<min count (length pool)}" "j \<in> {0..<min count (length pool)}"
      and e: "pool ! ((sw_cursor s + i) mod length pool) = pool ! ((sw_cursor s + j) mod length pool)"
    from a have "length pool > 0" by auto
    with e d have "(sw_cursor s + i) mod length pool = (sw_cursor s + j) mod length pool"
      by (simp add: nth_eq_iff_index_eq)
    then show "i = j" using a rotation_inj by auto
  qed
  then show ?thesis
    by (simp add: nextSweepBatch_pool Let_def pool_def [symmetric] distinct_map)
qed

lemma nextSweepBatch_members:
  "set (nextSweepBatch candidates s heardAt now count) \<subseteq> {i \<in> set candidates. isDue i heardAt now s}"
proof -
  define pool where "pool = sweep_pool candidates s heardAt now"
  have "set (nextSweepBatch candidates s heardAt now count) \<subseteq> set pool"
    unfolding nextSweepBatch_pool Let_def pool_def [symmetric]
    by (cases "pool = []") (auto intro!: nth_mem)
  also have "\<dots> \<subseteq> {i \<in> set candidates. isDue i heardAt now s}"
    unfolding pool_def by (rule sweep_pool_due)
  finally show ?thesis .
qed

lemma length_nextSweepBatch: "length (nextSweepBatch candidates s heardAt now count) \<le> count"
  by (simp add: nextSweepBatch_pool Let_def)

text \<open>The node just asked is not due again inside its backoff, unless heard since.\<close>

lemma retryBackoff_mono: "m \<le> n \<Longrightarrow> retryBackoffFor m \<le> retryBackoffFor n"
proof -
  assume a: "m \<le> n"
  have s: "sorted RETRY_BACKOFF_MS" by (simp add: RETRY_BACKOFF_MS_def)
  have l: "length RETRY_BACKOFF_MS = 4" by (simp add: RETRY_BACKOFF_MS_def)
  have z: "0 \<le> RETRY_BACKOFF_MS ! k" if "k < 4" for k
    using sorted_nth_mono [OF s, of 0 k] that l by (simp add: RETRY_BACKOFF_MS_def)
  show ?thesis
    using a z sorted_nth_mono [OF s, of "min m 3" "min n 3"] l
    by (auto simp: retryBackoffFor_def)
qed

lemma noteAsk_not_due:
  assumes "\<not> heardSinceAsk i heardAt' (noteAsk i s heardAt now)"
    "now' - now < retryBackoffFor (attempts_of (noteAsk i s heardAt now) i)"
  shows "\<not> isDue i heardAt' now' (noteAsk i s heardAt now)"
  using assms by (simp add: isDue_def noteAsk_def)

lemma noteAsk_attempts:
  "attempts_of (noteAsk i s heardAt now) i =
     (if heardSinceAsk i heardAt s then 1 else attempts_of s i + 1)"
  by (simp add: attempts_of_def noteAsk_def)

subsection \<open>Ids that a trace can address\<close>

definition keyed_ok :: "(jstr \<Rightarrow> bool) \<Rightarrow> (jstr \<times> heard_entry) list \<Rightarrow> bool" where
  "keyed_ok wanted m \<longleftrightarrow> amap_ok m \<and> list_all wanted (amap_keys m)"

lemma keyed_ok_set: "keyed_ok wanted m \<Longrightarrow> wanted i \<Longrightarrow> keyed_ok wanted (amap_set i e m)"
  unfolding keyed_ok_def amap_keys_set by (simp del: set_map)

lemma newest_loop_keys: "keyed_ok wanted m \<Longrightarrow> keyed_ok wanted (newest_loop wanted m es)"
proof (induction es arbitrary: m)
  case (Cons e es)
  then show ?case by (simp add: Let_def keyed_ok_set split: option.split)
qed simp

lemma newestPerSender_keys:
  "distinct (map fst (newestPerSender entries wanted))"
  "i \<in> set (map fst (newestPerSender entries wanted)) \<Longrightarrow> wanted i"
proof -
  have k: "keyed_ok wanted (newestPerSender entries wanted)"
    unfolding newestPerSender_def by (rule newest_loop_keys) (simp add: keyed_ok_def)
  then show "distinct (map fst (newestPerSender entries wanted))" by (simp add: keyed_ok_def)
  show "i \<in> set (map fst (newestPerSender entries wanted)) \<Longrightarrow> wanted i"
    using k unfolding keyed_ok_def list_all_iff by blast
qed

definition byte_inv :: "(jstr \<times> jstr) list \<Rightarrow> bool" where
  "byte_inv m \<longleftrightarrow> amap_ok m \<and> (\<forall>(b, i) \<in> set m. b = take 2 i)"

lemma byte_loop_inv: "byte_inv m \<Longrightarrow> byte_inv (byte_loop m ids)"
proof (induction ids arbitrary: m)
  case (Cons i ids)
  have "byte_inv (amap_set (take 2 i) i m)"
    using Cons.prems set_amap_set [of "take 2 i" i m] by (auto simp: byte_inv_def)
  with Cons show ?case by (auto simp: Let_def split: option.split)
qed simp

lemma byte_loop_set: "snd ` set (byte_loop m ids) \<subseteq> snd ` set m \<union> set ids"
proof (induction ids arbitrary: m)
  case (Cons i ids)
  have "snd ` set (byte_loop (amap_set (take 2 i) i m) ids) \<subseteq> snd ` set (amap_set (take 2 i) i m) \<union> set ids"
    by (rule Cons.IH)
  also have "\<dots> \<subseteq> snd ` set m \<union> set (i # ids)"
    using set_amap_set [of "take 2 i" i m] by auto
  finally show ?case using Cons.IH [of m] by (auto simp: Let_def split: option.split)
qed simp

lemma repeaterIds_bytes: "distinct (map (take 2) (repeaterIds entries wanted))"
proof -
  define m where "m = byte_loop [] (repeaterReading entries wanted)"
  have "byte_inv m" using byte_loop_inv [of "[]"] by (simp add: m_def byte_inv_def)
  then have "map (take 2) (map snd m) = map fst m" "distinct (map fst m)"
    by (auto simp: byte_inv_def)
  then show ?thesis unfolding repeaterIds_def m_def [symmetric] by (simp only:)
qed

lemma repeaterIds_subset: "set (repeaterIds entries wanted) \<subseteq> set (repeaterReading entries wanted)"
  using byte_loop_set [of "[]" "repeaterReading entries wanted"] by (simp add: repeaterIds_def)

subsection \<open>Properties\<close>

text \<open>A sweep asks at most its batch of different heard repeaters, each of which is due: never
  asked, heard since it was asked, or its backoff (30 s, 2 min, then 10 min) is over. And the
  repeaters a cycle pings have different first bytes, which is all a trace can address.\<close>

theorem sweep_batch_due:
  assumes "distinct candidates"
  shows "distinct (nextSweepBatch candidates s heardAt now n)
    \<and> length (nextSweepBatch candidates s heardAt now n) \<le> n
    \<and> set (nextSweepBatch candidates s heardAt now n) \<subseteq> {i \<in> set candidates.
        (case sw_lastAskedAt s i of None \<Rightarrow> True | Some asked \<Rightarrow>
           heardSinceAsk i heardAt s \<or> now - asked \<ge> retryBackoffFor (attempts_of s i))}
    \<and> distinct (map (take 2) (repeaterIds entries wanted))"
  using nextSweepBatch_distinct [OF assms, of s heardAt now n]
    nextSweepBatch_members [of candidates s heardAt now n]
    length_nextSweepBatch [of candidates s heardAt now n] repeaterIds_bytes [of entries wanted]
  by (auto simp: isDue_def)

theorem sweep_batch_due_witness:
  "distinct (nextSweepBatch [[65], [66], [67]] sweep_start (\<lambda>_. None) 5 2)
    \<and> length (nextSweepBatch [[65], [66], [67]] sweep_start (\<lambda>_. None) 5 2) \<le> 2"
  using sweep_batch_due [of "[[65], [66], [67]]" sweep_start "\<lambda>_. None" 5 2] by simp

text \<open>A node that does not answer is asked again only after its backoff: just after an ask it is
  not due before 30 s, after each further unanswered ask not before 2 and then 10 minutes.\<close>

theorem unanswered_backs_off:
  assumes "heardAt' i = None" "0 \<le> now" "now' - now < RETRY_BACKOFF_MS ! min n 3"
    "attempts_of (noteAsk i s heardAt now) i = n" "0 < n"
  shows "\<not> isDue i heardAt' now' (noteAsk i s heardAt now)"
proof (rule noteAsk_not_due)
  define s' where "s' = noteAsk i s heardAt now"
  have "sw_lastAskedAt s' i = Some now" by (simp add: s'_def noteAsk_def)
  then show "\<not> heardSinceAsk i heardAt' (noteAsk i s heardAt now)"
    using assms(1,2) by (simp add: heardSinceAsk_def s'_def)
  have "retryBackoffFor n = RETRY_BACKOFF_MS ! min n 3"
    using assms(5) by (simp add: retryBackoffFor_def RETRY_BACKOFF_MS_def numeral_3_eq_3)
  then show "now' - now < retryBackoffFor (attempts_of (noteAsk i s heardAt now) i)"
    using assms(3,4) by simp
qed

theorem unanswered_backs_off_witness:
  "\<not> isDue [65] (\<lambda>_. None) 30004 (noteAsk [65] sweep_start (\<lambda>_. None) 5)
   \<and> isDue [65] (\<lambda>_. None) 30005 (noteAsk [65] sweep_start (\<lambda>_. None) 5)"
proof -
  have n: "attempts_of (noteAsk [65] sweep_start (\<lambda>_. None) 5) [65] = 1"
    by (simp add: attempts_of_def noteAsk_def sweep_start_def heardSinceAsk_def)
  have l: "sw_lastAskedAt (noteAsk [65] sweep_start (\<lambda>_. None) 5) [65] = Some 5"
    by (simp add: noteAsk_def)
  have "isDue [65] (\<lambda>_. None) 30005 (noteAsk [65] sweep_start (\<lambda>_. None) 5)"
    unfolding isDue_def l n by (simp add: retryBackoffFor_def RETRY_BACKOFF_MS_def)
  then show ?thesis
    using unanswered_backs_off [of "\<lambda>_. None" "[65]" 5 30004 1 sweep_start "\<lambda>_. None"] n
    by (simp add: RETRY_BACKOFF_MS_def)
qed

end
