(* ===== verification/Asks.thy ===== *)
theory Asks
  imports WdTypes
begin

section \<open>Matching answers to asks (wardrive/discover/asks.ts)\<close>

text \<open>
  Trace pings and directed asks that may still be answered, and which directed ask a cycle
  carries. An answer names its node by one byte, so two live asks with that byte are
  refused. A JavaScript object identity (\<^verbatim>\<open>p !== hit\<close>) is a position in the list.
\<close>

definition TRACE_TTL_MS :: int where "TRACE_TTL_MS = 30000"
definition ASK_TTL_MS :: int where "ASK_TTL_MS = 30000"
definition ANON_MIN_GAP_MS :: int where "ANON_MIN_GAP_MS = 60000"

record ping =
  pg_tag :: jstr
  pg_targetId :: jstr
  pg_sentAt :: int

record ask =
  ak_pubkey :: jstr
  ak_sentAt :: int

datatype tag_input = TagNumber int | TagText jstr

fun normalizeTag :: "tag_input \<Rightarrow> jstr option" where
  "normalizeTag (TagNumber n) =
     (if n < 0 \<or> n > 4294967295 then None else Some (padStart 8 48 (toString16 (nat n))))"
| "normalizeTag (TagText s) =
     (let t = trim s in
      if 1 \<le> length t \<and> length t \<le> 8 \<and> list_all is_hex t
      then Some (padStart 8 48 (toLowerCase t)) else None)"

definition live_pings :: "ping list \<Rightarrow> int \<Rightarrow> int \<Rightarrow> ping list" where
  "live_pings ps now ttl = filter (\<lambda>p. now - pg_sentAt p < ttl) ps"

definition live_asks :: "ask list \<Rightarrow> int \<Rightarrow> int \<Rightarrow> ask list" where
  "live_asks ps now ttl = filter (\<lambda>p. now - ak_sentAt p < ttl) ps"

definition rememberPing :: "ping list \<Rightarrow> int \<Rightarrow> jstr \<Rightarrow> int \<Rightarrow> ping list" where
  "rememberPing pending tag targetId sentAt =
     (case normalizeTag (TagNumber tag) of
        None \<Rightarrow> pending
      | Some t \<Rightarrow>
          if targetId = [] then pending
          else live_pings pending sentAt TRACE_TTL_MS
            @ [\<lparr>pg_tag = t, pg_targetId = toLowerCase targetId, pg_sentAt = sentAt\<rparr>])"

fun find_pos :: "('a \<Rightarrow> bool) \<Rightarrow> 'a list \<Rightarrow> nat option" where
  "find_pos f [] = None"
| "find_pos f (x # xs) = (if f x then Some 0 else map_option Suc (find_pos f xs))"

definition without_pos :: "nat \<Rightarrow> 'a list \<Rightarrow> 'a list" where
  "without_pos i xs = take i xs @ drop (i + 1) xs"

definition matchTraceTarget :: "ping list \<Rightarrow> tag_input \<Rightarrow> int \<Rightarrow> jstr option" where
  "matchTraceTarget pending tag now =
     (case normalizeTag tag of
        None \<Rightarrow> None
      | Some t \<Rightarrow>
          let ps = live_pings pending now TRACE_TTL_MS in
          (case find_pos (\<lambda>p. pg_tag p = t) ps of
             None \<Rightarrow> None
           | Some i \<Rightarrow>
               let target = pg_targetId (ps ! i) in
               if \<exists>p \<in> set (without_pos i ps). take 2 (pg_targetId p) = take 2 target then None
               else Some target))"

definition pruneAsks :: "ask list \<Rightarrow> int \<Rightarrow> ask list" where
  "pruneAsks pending now = live_asks pending now ASK_TTL_MS"

definition rememberAsk :: "ask list \<Rightarrow> jstr \<Rightarrow> int \<Rightarrow> ask list" where
  "rememberAsk pending pubkeyHex sentAt =
     (let pk = toLowerCase (trim pubkeyHex) in
      if \<not> is_pubkey pk then pending
      else filter (\<lambda>a. ak_pubkey a \<noteq> pk) (pruneAsks pending sentAt)
        @ [\<lparr>ak_pubkey = pk, ak_sentAt = sentAt\<rparr>])"

definition is_hex_byte :: "jstr \<Rightarrow> bool" where
  "is_hex_byte h \<longleftrightarrow> length h = 2 \<and> list_all is_lower_hex h"

definition matchAskTarget :: "ask list \<Rightarrow> jstr \<Rightarrow> int \<Rightarrow> jstr option" where
  "matchAskTarget pending srcHash now =
     (let h = toLowerCase (trim srcHash) in
      if \<not> is_hex_byte h then None
      else
        let hits = filter (\<lambda>a. startsWith (ak_pubkey a) h) (pruneAsks pending now)
        in if length hits = 1 then Some (ak_pubkey (hd hits)) else None)"

definition nextTelemetryTarget :: "jstr list \<Rightarrow> nat \<Rightarrow> (jstr \<times> nat) option" where
  "nextTelemetryTarget ids cursor =
     (if ids = [] then None else Some (ids ! (cursor mod length ids), cursor + 1))"

datatype anon_type = Regions | Owner

type_synonym anon_last = "jstr \<Rightarrow> (int \<times> anon_type) option"

text \<open>\<^verbatim>\<open>-Infinity\<close> is \<open>None\<close>.\<close>

definition asked_before :: "int option \<Rightarrow> int option \<Rightarrow> bool" where
  "asked_before a b = (case (a, b) of
     (None, Some _) \<Rightarrow> True | (Some x, Some y) \<Rightarrow> x < y | _ \<Rightarrow> False)"

fun anon_loop ::
  "anon_last \<Rightarrow> int \<Rightarrow> (jstr \<times> int option \<times> anon_type) option \<Rightarrow> jstr list \<Rightarrow>
   (jstr \<times> int option \<times> anon_type) option" where
  "anon_loop asked now best [] = best"
| "anon_loop asked now best (raw # ids) =
     (let i = toLowerCase raw in
      if \<not> is_pubkey i then anon_loop asked now best ids
      else
        let l = asked i in
        if (case l of Some (t, _) \<Rightarrow> now - t < ANON_MIN_GAP_MS | None \<Rightarrow> False)
        then anon_loop asked now best ids
        else
          let at_time = map_option fst l;
              ty = (case l of Some (_, Regions) \<Rightarrow> Owner | _ \<Rightarrow> Regions);
              better = (case best of None \<Rightarrow> True | Some (_, b, _) \<Rightarrow> asked_before at_time b)
          in anon_loop asked now (if better then Some (i, at_time, ty) else best) ids)"

definition nextAnonAsk :: "jstr list \<Rightarrow> anon_last \<Rightarrow> int \<Rightarrow> (jstr \<times> anon_type) option" where
  "nextAnonAsk ids asked now =
     map_option (\<lambda>(i, _, ty). (i, ty)) (anon_loop asked now None ids)"

datatype directed = DirTelemetry | DirAnon

definition directedAskKind :: "bool \<Rightarrow> bool \<Rightarrow> directed option \<Rightarrow> directed option" where
  "directedAskKind telemetryDue anonDue lastKind =
     (if telemetryDue \<and> anonDue
      then (if lastKind = Some DirTelemetry then Some DirAnon else Some DirTelemetry)
      else if telemetryDue then Some DirTelemetry
      else if anonDue then Some DirAnon else None)"

definition announceThisCycle :: "bool \<Rightarrow> bool \<Rightarrow> nat \<Rightarrow> bool" where
  "announceThisCycle introduce conn companionTargets \<longleftrightarrow>
     introduce \<and> conn \<and> companionTargets > 0"

subsection \<open>Tags\<close>

lemma normalizeTag_shape:
  assumes "normalizeTag t = Some s"
  shows "length s = 8 \<and> list_all is_lower_hex s"
proof (cases t)
  case (TagNumber n)
  with assms have n: "0 \<le> n" "n \<le> 4294967295" "s = padStart 8 48 (toString16 (nat n))"
    by (auto split: if_splits)
  then have "length (toString16 (nat n)) \<le> 8" using length_toString16 [of "nat n" 8] by simp
  moreover have "list_all is_lower_hex s"
    using toString16_hex [of "nat n"] by (auto simp: n(3) padStart_def list_all_iff)
  ultimately show ?thesis by (simp add: n(3))
next
  case (TagText x)
  with assms have x: "length (trim x) \<le> 8" "list_all is_hex (trim x)"
    "s = padStart 8 48 (toLowerCase (trim x))"
    by (auto simp: Let_def split: if_splits)
  then have "list_all is_lower_hex s"
    by (auto simp: padStart_def toLowerCase_def list_all_iff is_lower_hex_lower_char)
  with x show ?thesis by simp
qed

text \<open>A number and its text, as the decoder prints it, normalise alike.\<close>

lemma toString16_lower: "toLowerCase (toString16 n) = toString16 n"
  unfolding toLowerCase_def using toString16_hex [of n]
  by (auto simp: list_all_iff lower_char_lower_hex intro: map_idI)

lemma normalizeTag_text:
  assumes "0 \<le> n" "n \<le> 4294967295"
  shows "normalizeTag (TagText (toString16 (nat n))) = normalizeTag (TagNumber n)"
proof -
  have h: "list_all is_hex (toString16 (nat n))"
    using toString16_hex [of "nat n"] is_lower_hex_is_hex by (auto simp: list_all_iff)
  then have t: "trim (toString16 (nat n)) = toString16 (nat n)"
    by (intro trim_no_ws) (auto simp: list_all_iff hex_not_ws)
  have "1 \<le> length (toString16 (nat n))"
    by (subst toString16.simps) simp
  moreover have "length (toString16 (nat n)) \<le> 8" using length_toString16 [of "nat n" 8] assms by simp
  ultimately show ?thesis using h t assms by (simp add: toString16_lower)
qed

subsection \<open>Pings\<close>

lemma find_pos_Some: "find_pos f xs = Some i \<Longrightarrow> i < length xs \<and> f (xs ! i)"
  by (induction xs arbitrary: i) (auto split: if_splits)

lemma find_pos_None: "find_pos f xs = None \<Longrightarrow> x \<in> set xs \<Longrightarrow> \<not> f x"
  by (induction xs) (auto split: if_splits)

lemma find_pos_snoc: "find_pos f xs = None \<Longrightarrow> f x \<Longrightarrow> find_pos f (xs @ [x]) = Some (length xs)"
  by (induction xs) (auto split: if_splits)

lemma without_pos_other:
  "j < length xs \<Longrightarrow> j \<noteq> i \<Longrightarrow> xs ! j \<in> set (without_pos i xs)"
proof -
  assume j: "j < length xs" "j \<noteq> i"
  show ?thesis
  proof (cases "j < i")
    case True
    then have "xs ! j = take i xs ! j" "j < length (take i xs)" using j by auto
    then show ?thesis unfolding without_pos_def by (metis UnI1 nth_mem set_append)
  next
    case False
    then have "xs ! j = drop (i + 1) xs ! (j - (i + 1))" "j - (i + 1) < length (drop (i + 1) xs)"
      using j by auto
    then show ?thesis unfolding without_pos_def by (metis UnI2 nth_mem set_append)
  qed
qed

lemma matchTraceTarget_sound:
  assumes "matchTraceTarget pending tag now = Some target"
  defines "ps \<equiv> live_pings pending now TRACE_TTL_MS"
  shows "\<exists>i < length ps. pg_targetId (ps ! i) = target \<and> normalizeTag tag = Some (pg_tag (ps ! i)) \<and>
     (\<forall>j < length ps. j \<noteq> i \<longrightarrow> take 2 (pg_targetId (ps ! j)) \<noteq> take 2 target)"
proof -
  from assms(1) obtain t i where t: "normalizeTag tag = Some t"
    and i: "find_pos (\<lambda>p. pg_tag p = t) ps = Some i"
    and a: "target = pg_targetId (ps ! i)"
    and u: "\<not> (\<exists>p \<in> set (without_pos i ps). take 2 (pg_targetId p) = take 2 target)"
    by (auto simp: matchTraceTarget_def Let_def ps_def split: option.splits if_splits)
  from find_pos_Some [OF i] have "i < length ps" "pg_tag (ps ! i) = t" by auto
  moreover have "\<forall>j < length ps. j \<noteq> i \<longrightarrow> take 2 (pg_targetId (ps ! j)) \<noteq> take 2 target"
    using u without_pos_other by metis
  ultimately show ?thesis using t a by blast
qed

lemma live_pings_all: "p \<in> set (live_pings ps now ttl) \<Longrightarrow> now - pg_sentAt p < ttl \<and> p \<in> set ps"
  by (simp add: live_pings_def)

text \<open>An answer in time to a ping whose byte no other live ping has is attributed.\<close>

lemma without_pos_last [simp]: "without_pos (length xs) (xs @ [x]) = xs"
  by (simp add: without_pos_def)

lemma matchTraceTarget_complete:
  assumes tag: "normalizeTag (TagNumber n) = Some t" and i: "i \<noteq> []"
    and now: "sentAt \<le> now" "now - sentAt < TRACE_TTL_MS"
    and fresh: "\<forall>p \<in> set (live_pings pending sentAt TRACE_TTL_MS).
      pg_tag p \<noteq> t \<and> take 2 (pg_targetId p) \<noteq> take 2 (toLowerCase i)"
  shows "matchTraceTarget (rememberPing pending n i sentAt) (TagNumber n) now = Some (toLowerCase i)"
proof -
  define p where "p = \<lparr>pg_tag = t, pg_targetId = toLowerCase i, pg_sentAt = sentAt\<rparr>"
  define old where "old = live_pings (live_pings pending sentAt TRACE_TTL_MS) now TRACE_TTL_MS"
  have o: "\<forall>q \<in> set old. pg_tag q \<noteq> t \<and> take 2 (pg_targetId q) \<noteq> take 2 (toLowerCase i)"
    using fresh by (auto simp: old_def live_pings_def)
  have l: "live_pings (rememberPing pending n i sentAt) now TRACE_TTL_MS = old @ [p]"
    using tag i now by (simp add: rememberPing_def live_pings_def old_def p_def)
  have "find_pos (\<lambda>q. pg_tag q = t) old = None"
    using o find_pos_Some [of "\<lambda>q. pg_tag q = t" old] nth_mem by (metis not_None_eq)
  then have "find_pos (\<lambda>q. pg_tag q = t) (old @ [p]) = Some (length old)"
    by (rule find_pos_snoc) (simp add: p_def)
  then show ?thesis
    unfolding matchTraceTarget_def l using tag o by (auto simp: p_def nth_append)
qed

subsection \<open>Directed asks\<close>

definition asks_ok :: "ask list \<Rightarrow> bool" where
  "asks_ok asks \<longleftrightarrow> distinct (map ak_pubkey asks) \<and> list_all (is_pubkey \<circ> ak_pubkey) asks"

lemma asks_ok_filter: "asks_ok asks \<Longrightarrow> asks_ok (filter P asks)"
  by (auto simp: asks_ok_def list_all_iff distinct_map_filter)

lemma asks_ok_remember: "asks_ok asks \<Longrightarrow> asks_ok (rememberAsk asks pk now)"
  unfolding rememberAsk_def pruneAsks_def live_asks_def Let_def
  using asks_ok_filter [of asks] by (auto simp: asks_ok_def list_all_iff distinct_map_filter)

lemma matchAskTarget_sound:
  assumes "matchAskTarget pending h now = Some pk"
  shows "\<exists>a \<in> set pending. ak_pubkey a = pk \<and> now - ak_sentAt a < ASK_TTL_MS
     \<and> startsWith pk (toLowerCase (trim h))
     \<and> (\<forall>b \<in> set pending. now - ak_sentAt b < ASK_TTL_MS \<longrightarrow>
           startsWith (ak_pubkey b) (toLowerCase (trim h)) \<longrightarrow> b = a)"
proof -
  define hits where "hits = filter (\<lambda>a. startsWith (ak_pubkey a) (toLowerCase (trim h))) (pruneAsks pending now)"
  from assms have "length hits = 1" "pk = ak_pubkey (hd hits)"
    by (auto simp: matchAskTarget_def Let_def hits_def split: if_splits)
  then obtain a where a: "hits = [a]" "pk = ak_pubkey a" by (cases hits) auto
  have hs: "set hits = {b \<in> set pending. now - ak_sentAt b < ASK_TTL_MS
      \<and> startsWith (ak_pubkey b) (toLowerCase (trim h))}"
    by (auto simp: hits_def pruneAsks_def live_asks_def)
  then have "{b \<in> set pending. now - ak_sentAt b < ASK_TTL_MS
      \<and> startsWith (ak_pubkey b) (toLowerCase (trim h))} = {a}" using a by simp
  then show ?thesis using a(2) by blast
qed

subsection \<open>The anonymous ask\<close>

definition anon_due :: "anon_last \<Rightarrow> int \<Rightarrow> jstr \<Rightarrow> bool" where
  "anon_due asked now i \<longleftrightarrow> is_pubkey i \<and>
     (case asked i of Some (t, _) \<Rightarrow> now - t \<ge> ANON_MIN_GAP_MS | None \<Rightarrow> True)"

definition anon_time :: "anon_last \<Rightarrow> jstr \<Rightarrow> int option" where
  "anon_time asked i = map_option fst (asked i)"

definition next_type :: "anon_last \<Rightarrow> jstr \<Rightarrow> anon_type" where
  "next_type asked i = (case asked i of Some (_, Regions) \<Rightarrow> Owner | _ \<Rightarrow> Regions)"

definition best_ok :: "anon_last \<Rightarrow> int \<Rightarrow> jstr set \<Rightarrow> (jstr \<times> int option \<times> anon_type) option \<Rightarrow> bool" where
  "best_ok asked now seen best \<longleftrightarrow> (case best of
     None \<Rightarrow> \<forall>i \<in> seen. \<not> anon_due asked now i
   | Some (i, t, ty) \<Rightarrow> i \<in> seen \<and> anon_due asked now i \<and> t = anon_time asked i \<and> ty = next_type asked i
       \<and> (\<forall>j \<in> seen. anon_due asked now j \<longrightarrow> \<not> asked_before (anon_time asked j) (anon_time asked i)))"

lemma asked_before_trans:
  "\<not> asked_before a b \<Longrightarrow> asked_before c b \<Longrightarrow> \<not> asked_before a c"
  by (auto simp: asked_before_def split: option.splits)

lemma asked_before_irrefl [simp]: "\<not> asked_before a a"
  by (simp add: asked_before_def split: option.splits)

lemma best_ok_step:
  assumes "best_ok asked now seen best" "anon_due asked now i"
  shows "best_ok asked now (insert i seen)
    (if (case best of None \<Rightarrow> True | Some (_, b, _) \<Rightarrow> asked_before (anon_time asked i) b)
     then Some (i, anon_time asked i, next_type asked i) else best)"
proof (cases best)
  case None
  then show ?thesis using assms by (auto simp: best_ok_def)
next
  case (Some p)
  obtain b t ty where p: "p = (b, t, ty)" by (cases p)
  have b: "b \<in> seen" "anon_due asked now b" "t = anon_time asked b" "ty = next_type asked b"
    "\<And>j. j \<in> seen \<Longrightarrow> anon_due asked now j \<Longrightarrow> \<not> asked_before (anon_time asked j) (anon_time asked b)"
    using assms(1) by (auto simp: best_ok_def Some p)
  show ?thesis
  proof (cases "asked_before (anon_time asked i) t")
    case True
    then have "\<not> asked_before (anon_time asked j) (anon_time asked i)"
      if "j \<in> seen" "anon_due asked now j" for j
      using asked_before_trans b(5) [OF that] b(3) by blast
    then show ?thesis using True assms(2) by (auto simp: best_ok_def Some p)
  next
    case False
    then show ?thesis using b by (auto simp: best_ok_def Some p)
  qed
qed

lemma best_ok_skip:
  "best_ok asked now seen best \<Longrightarrow> \<not> anon_due asked now i \<Longrightarrow> best_ok asked now (insert i seen) best"
  by (auto simp: best_ok_def split: option.splits)

lemma anon_loop_ok:
  "best_ok asked now seen best \<Longrightarrow>
   best_ok asked now (seen \<union> set (map toLowerCase ids)) (anon_loop asked now best ids)"
proof (induction ids arbitrary: seen best)
  case (Cons raw ids)
  define i where "i = toLowerCase raw"
  have s: "seen \<union> set (map toLowerCase (raw # ids)) = insert i seen \<union> set (map toLowerCase ids)"
    by (simp add: i_def)
  show ?case
  proof (cases "anon_due asked now i")
    case True
    then have "anon_loop asked now best (raw # ids) = anon_loop asked now
      (if (case best of None \<Rightarrow> True | Some (_, b, _) \<Rightarrow> asked_before (anon_time asked i) b)
       then Some (i, anon_time asked i, next_type asked i) else best) ids"
      by (auto simp: anon_due_def Let_def i_def anon_time_def next_type_def split: option.splits)
    then show ?thesis
      unfolding s using Cons.IH [OF best_ok_step [OF Cons.prems True]] by simp
  next
    case False
    then have "anon_loop asked now best (raw # ids) = anon_loop asked now best ids"
      by (auto simp: anon_due_def Let_def i_def split: option.splits)
    then show ?thesis
      unfolding s using Cons.IH [OF best_ok_skip [OF Cons.prems False]] by simp
  qed
qed simp

lemma nextAnonAsk_best:
  "best_ok asked now (set (map toLowerCase ids)) (anon_loop asked now None ids)"
  using anon_loop_ok [of asked now "{}" None ids] by (simp add: best_ok_def)

subsection \<open>Properties\<close>

text \<open>The anonymous ask goes to whoever waited longest: the node chosen has a full key, was not
  asked in the last minute, no other eligible node was asked longer ago (or never), and it is
  asked the other kind than the last time; when nobody is chosen, nobody is eligible.\<close>

theorem anon_ask_oldest_first:
  shows "case nextAnonAsk ids asked now of
      None \<Rightarrow> \<forall>i \<in> set (map toLowerCase ids). \<not> anon_due asked now i
    | Some (i, ty) \<Rightarrow> i \<in> set (map toLowerCase ids) \<and> anon_due asked now i
        \<and> ty = (case asked i of Some (_, Regions) \<Rightarrow> Owner | _ \<Rightarrow> Regions)
        \<and> (\<forall>j \<in> set (map toLowerCase ids). anon_due asked now j \<longrightarrow>
             \<not> asked_before (map_option fst (asked j)) (map_option fst (asked i)))"
  using nextAnonAsk_best [of asked now ids]
  by (auto simp: nextAnonAsk_def best_ok_def anon_time_def next_type_def split: option.splits)

theorem anon_ask_oldest_first_witness:
  "case nextAnonAsk [replicate 64 97] (\<lambda>_. None) 5 of None \<Rightarrow> False | Some (i, ty) \<Rightarrow> i = replicate 64 97"
proof -
  have k: "is_pubkey (replicate 64 97)" "toLowerCase (replicate 64 97) = replicate 64 97"
    by (simp_all add: is_pubkey_def is_lower_hex_def toLowerCase_def lower_char_def list_all_iff)
  then have "anon_due (\<lambda>_. None) 5 (replicate 64 97)" by (simp add: anon_due_def)
  then show ?thesis
    using anon_ask_oldest_first [of "[replicate 64 97]" "\<lambda>_. None" 5] k by (auto split: option.splits)
qed

text \<open>A ping's answer is found: the tag of a remembered ping, as a number or as the hex text a
  decoded reception carries, gives the node pinged for 30 s, as long as no other live ping has
  that tag or went to a node of the same first byte.\<close>

theorem ping_answer_matched:
  assumes "0 \<le> n" "n \<le> 4294967295" "i \<noteq> []" "sentAt \<le> now" "now - sentAt < TRACE_TTL_MS"
    "\<forall>p \<in> set (live_pings pending sentAt TRACE_TTL_MS).
      Some (pg_tag p) \<noteq> normalizeTag (TagNumber n) \<and> take 2 (pg_targetId p) \<noteq> take 2 (toLowerCase i)"
  shows "matchTraceTarget (rememberPing pending n i sentAt) (TagText (toString16 (nat n))) now
    = Some (toLowerCase i)"
proof -
  obtain t where t: "normalizeTag (TagNumber n) = Some t" using assms(1,2) by auto
  have "matchTraceTarget (rememberPing pending n i sentAt) (TagNumber n) now = Some (toLowerCase i)"
    using assms(6) t by (intro matchTraceTarget_complete [OF t assms(3-5)]) auto
  then show ?thesis using normalizeTag_text [OF assms(1,2)] by (simp only: matchTraceTarget_def)
qed

theorem ping_answer_matched_witness:
  "matchTraceTarget (rememberPing [] 10 [97, 98] 5) (TagText (toString16 (nat 10))) 9 = Some [97, 98]"
  using ping_answer_matched [of 10 "[97, 98]" 5 9 "[]"]
  by (simp add: TRACE_TTL_MS_def live_pings_def toLowerCase_def lower_char_def)

end
