(* ===== verification/Frames.thy ===== *)
theory Frames
  imports Packet
begin

section \<open>The frames Auto-discover sends and reads (wardrive/discover/frames.ts)\<close>

text \<open>
  A builder that throws returns \<open>None\<close>. The telemetry payload is CayenneLPP: a channel, a
  type and a value of the type's size, until a type the page does not know.
\<close>

definition CMD_SEND_CONTROL_DATA :: u8 where "CMD_SEND_CONTROL_DATA = 0x37"
definition CTRL_NODE_DISCOVER_REQ :: u8 where "CTRL_NODE_DISCOVER_REQ = 0x80"
definition DISCOVER_PREFIX_ONLY :: u8 where "DISCOVER_PREFIX_ONLY = 1"
definition DISCOVER_FILTER_ALL :: u8 where "DISCOVER_FILTER_ALL = 0xff"
definition CMD_SEND_TRACE_PATH :: u8 where "CMD_SEND_TRACE_PATH = 0x24"
definition CMD_SEND_SELF_ADVERT :: u8 where "CMD_SEND_SELF_ADVERT = 7"
definition CMD_SEND_TELEMETRY_REQ :: u8 where "CMD_SEND_TELEMETRY_REQ = 39"
definition CMD_SEND_ANON_REQ :: u8 where "CMD_SEND_ANON_REQ = 57"
definition ANON_REQ_REGIONS :: nat where "ANON_REQ_REGIONS = 1"
definition ANON_REQ_OWNER :: nat where "ANON_REQ_OWNER = 2"
definition RESP_CODE_SENT :: u8 where "RESP_CODE_SENT = 6"
definition PUSH_TELEMETRY_RESPONSE :: u8 where "PUSH_TELEMETRY_RESPONSE = 0x8b"
definition PUSH_BINARY_RESPONSE :: u8 where "PUSH_BINARY_RESPONSE = 0x8c"

definition key_of_hex :: "jstr \<Rightarrow> bytes" where
  "key_of_hex pk = map (\<lambda>i. u8_of_parse (parseInt16 (subarr (i * 2) (i * 2 + 2) pk))) [0..<32]"

definition keyBytes :: "jstr \<Rightarrow> bytes option" where
  "keyBytes pubkeyHex =
     (let pk = toLowerCase (trim pubkeyHex)
      in if is_pubkey pk then Some (key_of_hex pk) else None)"

definition buildDiscoverFrame :: "bytes \<Rightarrow> bytes" where
  "buildDiscoverFrame tag =
     [CMD_SEND_CONTROL_DATA, CTRL_NODE_DISCOVER_REQ OR DISCOVER_PREFIX_ONLY, DISCOVER_FILTER_ALL] @ tag"

definition buildTracePathFrame :: "nat \<Rightarrow> nat \<Rightarrow> bytes \<Rightarrow> bytes option" where
  "buildTracePathFrame tag authCode path =
     (if path = [] then None
      else Some (CMD_SEND_TRACE_PATH # u32le tag @ u32le authCode @ [0] @ path))"

definition buildSelfAdvertFrame :: bytes where
  "buildSelfAdvertFrame = [CMD_SEND_SELF_ADVERT, 0]"

definition buildTelemetryRequest :: "jstr \<Rightarrow> bytes option" where
  "buildTelemetryRequest pubkeyHex =
     map_option (\<lambda>k. [CMD_SEND_TELEMETRY_REQ, 0, 0, 0] @ k) (keyBytes pubkeyHex)"

definition buildAnonRequest :: "jstr \<Rightarrow> nat \<Rightarrow> bytes option" where
  "buildAnonRequest pubkeyHex ty =
     (if ty \<noteq> ANON_REQ_REGIONS \<and> ty \<noteq> ANON_REQ_OWNER then None
      else map_option (\<lambda>k. CMD_SEND_ANON_REQ # k @ [of_nat ty, 0]) (keyBytes pubkeyHex))"

record sent_ack =
  sa_tag :: nat
  sa_isFlood :: bool
  sa_estTimeoutMs :: nat

definition parseSentAck :: "bytes \<Rightarrow> sent_ack option" where
  "parseSentAck bs =
     (if length bs < 10 \<or> bs ! 0 \<noteq> RESP_CODE_SENT then None
      else case (getUint32 bs 2, getUint32 bs 6) of
        (Some tag, Some est) \<Rightarrow>
          Some \<lparr>sa_tag = tag, sa_isFlood = (bs ! 1 = 1), sa_estTimeoutMs = est\<rparr>
      | _ \<Rightarrow> None)"

definition LPP_TEMPERATURE :: nat where "LPP_TEMPERATURE = 103"
definition LPP_VOLTAGE :: nat where "LPP_VOLTAGE = 116"

definition LPP_SIZE :: "nat \<Rightarrow> nat option" where
  "LPP_SIZE = map_of
     [(0, 1), (1, 1), (2, 2), (3, 2), (100, 4), (101, 2), (102, 1), (103, 2), (104, 1), (113, 6),
      (115, 2), (116, 2), (117, 2), (118, 4), (120, 1), (121, 2), (125, 2), (128, 2), (130, 4),
      (131, 4), (132, 2), (133, 4), (134, 6), (135, 3), (136, 9), (142, 1)]"

record telemetry =
  te_voltage_v :: "real option"
  te_temp_c :: "real option"

definition no_telemetry :: telemetry where
  "no_telemetry = \<lparr>te_voltage_v = None, te_temp_c = None\<rparr>"

text \<open>A byte past the end reads as \<^verbatim>\<open>undefined\<close>, which the bit operators take as 0.\<close>

definition byte_or_0 :: "bytes \<Rightarrow> nat \<Rightarrow> nat" where
  "byte_or_0 bs i = (if i < length bs then unat (bs ! i) else 0)"

definition lpp_value :: "nat \<Rightarrow> nat \<Rightarrow> telemetry \<Rightarrow> telemetry" where
  "lpp_value ty raw out =
     (if ty = LPP_VOLTAGE then out\<lparr>te_voltage_v := Some (of_nat raw / 100)\<rparr>
      else if ty = LPP_TEMPERATURE
      then out\<lparr>te_temp_c := Some (of_int (if raw \<ge> 32768 then int raw - 65536 else int raw) / 10)\<rparr>
      else out)"

function lpp_loop :: "bytes \<Rightarrow> nat \<Rightarrow> telemetry \<Rightarrow> telemetry" where
  "lpp_loop bs i out =
     (if i + 2 \<le> length bs then
        let ty = unat (bs ! (i + 1)) in
        (case LPP_SIZE ty of
           None \<Rightarrow> out
         | Some sz \<Rightarrow>
             if i + 2 + sz > length bs then out
             else
               let raw = byte_or_0 bs (i + 2) * 256 + byte_or_0 bs (i + 3)
               in lpp_loop bs (i + 2 + sz) (lpp_value ty raw out))
      else out)"
  by pat_completeness auto
termination by (relation "measure (\<lambda>(bs, i, _). length bs - i)") auto

declare lpp_loop.simps [simp del]

definition parseLpp :: "bytes \<Rightarrow> telemetry" where
  "parseLpp bs = lpp_loop bs 0 no_telemetry"

definition parseTelemetryResponse :: "bytes \<Rightarrow> (jstr \<times> telemetry) option" where
  "parseTelemetryResponse bs =
     (if length bs < 8 \<or> bs ! 0 \<noteq> PUSH_TELEMETRY_RESPONSE then None
      else Some (concat (map (\<lambda>i. hex2 (unat (bs ! i))) [2..<8]), parseLpp (drop 8 bs)))"

definition parseBinaryResponse :: "bytes \<Rightarrow> (nat \<times> bytes) option" where
  "parseBinaryResponse bs =
     (if length bs < 10 \<or> bs ! 0 \<noteq> PUSH_BINARY_RESPONSE then None
      else map_option (\<lambda>tag. (tag, drop 6 bs)) (getUint32 bs 2))"

text \<open>\<^verbatim>\<open>body\<close>: the data after the clock without the trailing NULs.\<close>

definition reply_body :: "bytes \<Rightarrow> bytes" where
  "reply_body data = rev (dropWhile (\<lambda>b. b = 0) (rev (drop 4 data)))"

definition clockOf :: "bytes \<Rightarrow> nat option" where
  "clockOf data = getUint32 data 0"

definition TRUNCATION_WARN_BYTES :: nat where "TRUNCATION_WARN_BYTES = 139"

record regions_reply =
  rr_clock :: nat
  rr_regions :: "jstr list"
  rr_truncated :: bool

definition readRegionsReply :: "bytes \<Rightarrow> regions_reply option" where
  "readRegionsReply data =
     (let csv = reply_body data;
          txt = utf8_decode csv
      in map_option (\<lambda>c. \<lparr>rr_clock = c, rr_regions = (if txt \<noteq> [] then split_on 44 txt else []),
           rr_truncated = (length csv \<ge> TRUNCATION_WARN_BYTES)\<rparr>) (clockOf data))"

record owner_reply =
  or_clock :: nat
  or_name :: jstr
  or_owner :: jstr

definition readOwnerReply :: "bytes \<Rightarrow> owner_reply option" where
  "readOwnerReply data =
     (let txt = utf8_decode (reply_body data);
          line = takeWhile (\<lambda>c. c \<noteq> 10) txt
      in map_option (\<lambda>c. \<lparr>or_clock = c, or_name = line,
           or_owner = (if length line = length txt then [] else drop (length line + 1) txt)\<rparr>)
         (clockOf data))"

subsection \<open>Keys in requests\<close>

lemma bytesToHex_map:
  "bytesToHex (map f [0..<n]) = concat (map (\<lambda>i. hex2 (unat (f i))) [0..<n])"
  by (simp add: bytesToHex_def o_def)

lemma hex2_parse:
  assumes "is_lower_hex a" "is_lower_hex b"
  shows "hex2 (unat (u8_of_parse (parseInt16 [a, b]))) = [a, b]"
proof -
  obtain x y where x: "hex_val a = Some x" and y: "hex_val b = Some y"
    using assms is_lower_hex_is_hex by (metis is_hex_def not_None_eq)
  have l: "x < 16" "y < 16" using x y hex_val_less by auto
  have "parseInt16 [a, b] = Some (int (x * 16 + y))"
    using assms is_lower_hex_is_hex x y
    by (subst parseInt16_hex) (auto simp: digits_val_def)
  then have "unat (u8_of_parse (parseInt16 [a, b])) = x * 16 + y"
    using l unat_of_nat_u8 [of "x * 16 + y"] by (simp add: u8_of_parse_def)
  moreover have "(x * 16 + y) div 16 = x" "(x * 16 + y) mod 16 = y" using l by auto
  ultimately show ?thesis
    using l hex_digit_val [OF assms(1) x] hex_digit_val [OF assms(2) y] by (simp add: hex2_digits)
qed

lemma two_elements: "length xs = 2 \<Longrightarrow> \<exists>a b. xs = [a, b]"
  by (cases xs; cases "tl xs") auto

lemma pairs_of_even:
  "length s = 2 * n \<Longrightarrow> concat (map (\<lambda>i. subarr (i * 2) (i * 2 + 2) s) [0..<n]) = s"
proof (induction n arbitrary: s)
  case (Suc n)
  then obtain a b t where s: "s = a # b # t" "length t = 2 * n"
    by (cases s; cases "tl s") auto
  have "concat (map (\<lambda>i. subarr (i * 2) (i * 2 + 2) s) [0..<Suc n]) =
      subarr 0 2 s @ concat (map (\<lambda>i. subarr (Suc i * 2) (Suc i * 2 + 2) s) [0..<n])"
    by (simp only: upt_conv_Cons map_Suc_upt [symmetric] map_map o_def list.map concat.simps)
       (simp add: numeral_2_eq_2)
  also have "map (\<lambda>i. subarr (Suc i * 2) (Suc i * 2 + 2) s) [0..<n] =
      map (\<lambda>i. subarr (i * 2) (i * 2 + 2) t) [0..<n]"
    by (simp add: s subarr_def)
  finally show ?case using Suc.IH [OF s(2)] s by (simp add: subarr_def numeral_2_eq_2)
qed simp

lemma keyBytes_hex:
  assumes "keyBytes k = Some bs"
  shows "bytesToHex bs = toLowerCase (trim k)" "length bs = 32"
proof -
  define pk where "pk = toLowerCase (trim k)"
  have pk: "is_pubkey pk" and bs: "bs = key_of_hex pk"
    using assms by (auto simp: keyBytes_def Let_def pk_def split: if_splits)
  have "hex2 (unat (u8_of_parse (parseInt16 (subarr (i * 2) (i * 2 + 2) pk)))) = subarr (i * 2) (i * 2 + 2) pk"
    if "i < 32" for i
  proof -
    have l: "length (subarr (i * 2) (i * 2 + 2) pk) = 2" using that pk by (simp add: is_pubkey_def)
    then obtain a b where ab: "subarr (i * 2) (i * 2 + 2) pk = [a, b]"
      using two_elements by blast
    have "set [a, b] \<subseteq> set pk" unfolding ab [symmetric] by (rule set_subarr_subset)
    then have "is_lower_hex a" "is_lower_hex b" using pk by (auto simp: is_pubkey_def list_all_iff)
    then show ?thesis unfolding ab by (rule hex2_parse)
  qed
  then have "bytesToHex bs = concat (map (\<lambda>i. subarr (i * 2) (i * 2 + 2) pk) [0..<32])"
    unfolding bs key_of_hex_def bytesToHex_map by (intro arg_cong [of _ _ concat] map_cong) auto
  then show "bytesToHex bs = toLowerCase (trim k)"
    using pairs_of_even [of pk 32] pk by (simp add: is_pubkey_def pk_def)
  show "length bs = 32" by (simp add: bs key_of_hex_def)
qed

lemma keyBytes_valid: "keyBytes k \<noteq> None \<longleftrightarrow> is_pubkey (toLowerCase (trim k))"
  by (simp add: keyBytes_def Let_def)

subsection \<open>Telemetry\<close>

text \<open>A payload of known values, as the node writes it, and what it says.\<close>

definition lpp_wire :: "(u8 \<times> u8 \<times> bytes) list \<Rightarrow> bytes" where
  "lpp_wire items = concat (map (\<lambda>(ch, ty, dat). ch # ty # dat) items)"

definition lpp_known :: "u8 \<times> u8 \<times> bytes \<Rightarrow> bool" where
  "lpp_known it = (case it of (ch, ty, dat) \<Rightarrow> LPP_SIZE (unat ty) = Some (length dat))"

definition lpp_reading :: "u8 \<times> u8 \<times> bytes \<Rightarrow> telemetry \<Rightarrow> telemetry" where
  "lpp_reading it out = (case it of (ch, ty, dat) \<Rightarrow>
     lpp_value (unat ty) (unat (dat ! 0) * 256 + byte_or_0 dat 1) out)"

lemma lpp_two_bytes: "LPP_SIZE LPP_VOLTAGE = Some 2" "LPP_SIZE LPP_TEMPERATURE = Some 2"
  by (simp_all add: LPP_SIZE_def LPP_VOLTAGE_def LPP_TEMPERATURE_def)

lemma lpp_value_other: "LPP_SIZE ty \<noteq> Some 2 \<Longrightarrow> lpp_value ty raw out = out"
  using lpp_two_bytes by (auto simp: lpp_value_def)

lemma lpp_step:
  assumes "lpp_known (ch, ty, dat)"
  shows "lpp_loop (pre @ ch # ty # dat @ post) (length pre) out =
    lpp_loop (pre @ ch # ty # dat @ post) (length pre + 2 + length dat) (lpp_reading (ch, ty, dat) out)"
proof -
  define bs where "bs = pre @ ch # ty # dat @ post"
  have k: "LPP_SIZE (unat ty) = Some (length dat)" using assms by (simp add: lpp_known_def)
  have t: "bs ! (length pre + 1) = ty" by (simp add: bs_def nth_append)
  have "lpp_value (unat ty) (byte_or_0 bs (length pre + 2) * 256 + byte_or_0 bs (length pre + 3)) out
      = lpp_reading (ch, ty, dat) out"
  proof (cases "length dat = 2")
    case True
    then obtain x y where "dat = [x, y]" by (auto simp: numeral_2_eq_2 length_Suc_conv)
    then show ?thesis by (simp add: lpp_reading_def byte_or_0_def bs_def nth_append)
  next
    case False
    then show ?thesis using lpp_value_other [of "unat ty"] k by (simp add: lpp_reading_def)
  qed
  moreover have "length pre + 2 + length dat \<le> length bs" by (simp add: bs_def)
  ultimately show ?thesis
    unfolding bs_def [symmetric] using k t by (subst lpp_loop.simps) (simp add: Let_def)
qed

lemma lpp_loop_wire:
  "list_all lpp_known items \<Longrightarrow>
   lpp_loop (pre @ lpp_wire items) (length pre) out = fold lpp_reading items out"
proof (induction items arbitrary: pre out)
  case Nil
  then show ?case by (simp add: lpp_wire_def lpp_loop.simps)
next
  case (Cons it items)
  obtain ch ty dat where it: "it = (ch, ty, dat)" by (cases it)
  have w: "pre @ lpp_wire (it # items) = pre @ ch # ty # dat @ lpp_wire items"
    "pre @ lpp_wire (it # items) = (pre @ ch # ty # dat) @ lpp_wire items"
    by (simp_all add: lpp_wire_def it)
  have "lpp_loop (pre @ lpp_wire (it # items)) (length pre) out =
      lpp_loop ((pre @ ch # ty # dat) @ lpp_wire items) (length (pre @ ch # ty # dat)) (lpp_reading it out)"
    using lpp_step [of ch ty dat pre "lpp_wire items" out] Cons.prems w by (simp add: it add.commute add.left_commute)
  also have "\<dots> = fold lpp_reading items (lpp_reading it out)"
    using Cons by (intro Cons.IH) simp
  finally show ?case by simp
qed

lemma parseLpp_wire: "list_all lpp_known items \<Longrightarrow> parseLpp (lpp_wire items) = fold lpp_reading items no_telemetry"
  using lpp_loop_wire [of items "[]"] by (simp add: parseLpp_def)

subsection \<open>Properties\<close>

text \<open>Telemetry is read as the node wrote it: over any sequence of values of known types, the
  voltage and the temperature are those of the last voltage and temperature value, in hundredths
  and signed tenths, and every other type is skipped by its own size.\<close>

theorem lpp_reads_values:
  assumes "\<forall>(ch, ty, dat) \<in> set items. LPP_SIZE (unat ty) = Some (length dat)"
  shows "parseLpp (concat (map (\<lambda>(ch, ty, dat). ch # ty # dat) items))
    = fold (\<lambda>(ch, ty, dat). lpp_value (unat ty) (unat (dat ! 0) * 256 + byte_or_0 dat 1)) items no_telemetry"
proof -
  have "(\<lambda>(ch, ty, dat). lpp_value (unat ty) (unat (dat ! 0) * 256 + byte_or_0 dat 1)) = lpp_reading"
    by (auto simp: lpp_reading_def fun_eq_iff)
  then show ?thesis
    using parseLpp_wire [of items] assms by (simp add: lpp_wire_def lpp_known_def list_all_iff)
qed

theorem lpp_reads_values_witness:
  "parseLpp [1, 116, 1, 144, 1, 103, 255, 246] = \<lparr>te_voltage_v = Some 4, te_temp_c = Some (- 1)\<rparr>"
  using lpp_reads_values [of "[(1, 116, [1, 144]), (1, 103, [255, 246])]"]
  by (simp add: LPP_SIZE_def lpp_value_def LPP_VOLTAGE_def LPP_TEMPERATURE_def byte_or_0_def no_telemetry_def)

end
