(* ===== verification/AutoDiscover.thy ===== *)
theory AutoDiscover
  imports Airtime Sweep Asks Frames
begin

section \<open>Auto-discover (wardrive/discover/autoDiscover.ts)\<close>

text \<open>
  The page's only transmitting function, as a state machine: each event is one turn of the
  page's event loop. A frame handed to the radio is a job; the companion's chain is first
  in, first out: \<open>EvTurn\<close> is the head job reaching its turn (the page is asked again
  whether it is still on), \<open>EvDone\<close> its answer. A directed ask runs a contact dance
  (ContactPath): \<open>EvDanceAsk\<close> is its ask, \<open>EvDanceEnd\<close> its end. The fields \<open>ad_aired\<close>,
  \<open>ad_log\<close> and \<open>ad_firstFire\<close> record what went out, for the properties.
\<close>

datatype sent_kind = SentDiscover | SentAdvert | SentTrace | SentRequest

datatype accept_kind = AcceptOk | AcceptSent

datatype after_send = NoCont | TraceCont ping jstr bool | TelemetryCont jstr | AnonCont jstr anon_type

record job =
  jb_frame :: bytes
  jb_accept :: accept_kind
  jb_bytes :: nat
  jb_kind :: sent_kind
  jb_then :: after_send

datatype dance_for = ForTelemetry jstr | ForAnon jstr anon_type

record anon_pending =
  ap_tag :: nat
  ap_pubkey :: jstr
  ap_type :: anon_type
  ap_sentAt :: int

record node_info =
  ni_telemetry :: telemetry
  ni_telemetry_at :: "int option"
  ni_regions :: "(jstr list \<times> bool \<times> int) option"
  ni_owner :: "(jstr \<times> jstr \<times> int) option"
  ni_clock_offset_s :: "int option"

definition no_info :: node_info where
  "no_info = \<lparr>ni_telemetry = no_telemetry, ni_telemetry_at = None, ni_regions = None,
     ni_owner = None, ni_clock_offset_s = None\<rparr>"

record waiting_ping =
  pt_handle :: nat
  pt_due :: int
  pt_id :: jstr
  pt_sweeping :: bool

record auto_opts =
  ao_sf :: "nat option"
  ao_name :: jstr

record auto_discover =
  ad_enabled :: bool
  ad_disposed :: bool
  ad_nodeInfo :: "jstr \<Rightarrow> node_info option"
  ad_lastFireAt :: "int option"
  ad_lastPos :: "(real \<times> real) option"
  ad_pending :: "waiting_ping list"
  ad_jobs :: "job list"
  ad_onAir :: bool
  ad_cycleFirstSentAt :: "int option"
  ad_sentBytes :: "nat list"
  ad_pings :: "ping list"
  ad_telemetryAsks :: "ask list"
  ad_telemetryCursor :: nat
  ad_anonAsks :: "ask list"
  ad_anonPending :: "anon_pending list"
  ad_anonLast :: anon_last
  ad_directedLast :: "directed option"
  ad_dance :: "(dance_for \<times> bool) option"
  ad_sweep :: sweep_state
  ad_holdUntil :: int
  ad_nextHandle :: nat
  ad_aired :: "job list"
  ad_log :: "nat list"
  ad_firstFire :: "int option"

record tick_input =
  ti_now :: int
  ti_pos :: "(real \<times> real) option"
  ti_repeaters :: "jstr list"
  ti_companions :: "jstr list"
  ti_heardIds :: "jstr list"
  ti_heardAt :: "jstr \<Rightarrow> int option"
  ti_introduce :: bool
  ti_random :: bytes

definition newAutoDiscover :: auto_discover where
  "newAutoDiscover =
     \<lparr>ad_enabled = False, ad_disposed = False, ad_nodeInfo = (\<lambda>_. None), ad_lastFireAt = None,
      ad_lastPos = None, ad_pending = [], ad_jobs = [], ad_onAir = False,
      ad_cycleFirstSentAt = None, ad_sentBytes = [], ad_pings = [], ad_telemetryAsks = [],
      ad_telemetryCursor = 0, ad_anonAsks = [], ad_anonPending = [], ad_anonLast = (\<lambda>_. None),
      ad_directedLast = None, ad_dance = None, ad_sweep = sweep_start, ad_holdUntil = 0,
      ad_nextHandle = 0, ad_aired = [], ad_log = [], ad_firstFire = None\<rparr>"

definition floorMs :: "auto_opts \<Rightarrow> auto_discover \<Rightarrow> int" where
  "floorMs opts s = minPeriodMs (ad_sentBytes s) (ao_sf opts)"

definition inFlight :: "auto_discover \<Rightarrow> nat" where
  "inFlight s = length (ad_jobs s)"

subsection \<open>Sending\<close>

definition send :: "job \<Rightarrow> auto_discover \<Rightarrow> auto_discover" where
  "send j s = s\<lparr>ad_jobs := ad_jobs s @ [j]\<rparr>"

definition note_sent :: "nat \<Rightarrow> int \<Rightarrow> auto_discover \<Rightarrow> auto_discover" where
  "note_sent bytes now s =
     s\<lparr>ad_cycleFirstSentAt := (case ad_cycleFirstSentAt s of None \<Rightarrow> Some now | t \<Rightarrow> t),
       ad_sentBytes := ad_sentBytes s @ [bytes], ad_log := ad_log s @ [bytes]\<rparr>"

text \<open>What follows a send in \<^verbatim>\<open>tracePing\<close>, \<^verbatim>\<open>askTelemetry\<close> and \<^verbatim>\<open>askAnon\<close>. A ping is
  known by its tag, target and time.\<close>

definition trace_done ::
  "ping \<Rightarrow> jstr \<Rightarrow> bool \<Rightarrow> bool \<Rightarrow> int \<Rightarrow> (jstr \<Rightarrow> int option) \<Rightarrow> auto_discover \<Rightarrow> auto_discover" where
  "trace_done mine i sweeping sent now heardAt s =
     (if \<not> sent then s\<lparr>ad_pings := filter (\<lambda>p. p \<noteq> mine) (ad_pings s)\<rparr>
      else if sweeping then s\<lparr>ad_sweep := noteAsk i (ad_sweep s) heardAt now\<rparr>
      else s)"

definition ack_of :: "bytes option \<Rightarrow> sent_ack option" where
  "ack_of reply = (case reply of None \<Rightarrow> None | Some r \<Rightarrow> parseSentAck r)"

definition telemetry_done :: "jstr \<Rightarrow> bool \<Rightarrow> bytes option \<Rightarrow> int \<Rightarrow> auto_discover \<Rightarrow> auto_discover" where
  "telemetry_done pubkey sent reply now s =
     (case ack_of reply of
        None \<Rightarrow> s
      | Some ack \<Rightarrow>
          if \<not> sent \<or> sa_isFlood ack then s
          else s\<lparr>ad_telemetryAsks := rememberAsk (ad_telemetryAsks s) pubkey now\<rparr>)"

definition anon_done ::
  "jstr \<Rightarrow> anon_type \<Rightarrow> bool \<Rightarrow> bytes option \<Rightarrow> int \<Rightarrow> auto_discover \<Rightarrow> auto_discover" where
  "anon_done pubkey ty sent reply now s =
     (case ack_of reply of
        None \<Rightarrow> s
      | Some ack \<Rightarrow>
          if \<not> sent then s
          else
            let s = s\<lparr>ad_anonLast := (ad_anonLast s)(pubkey \<mapsto> (now, ty))\<rparr>
            in if sa_isFlood ack then s
            else s\<lparr>ad_anonPending := filter (\<lambda>a. now - ap_sentAt a < 30000) (ad_anonPending s)
                     @ [\<lparr>ap_tag = sa_tag ack, ap_pubkey = pubkey, ap_type = ty, ap_sentAt = now\<rparr>],
                   ad_anonAsks := rememberAsk (ad_anonAsks s) pubkey now\<rparr>)"

definition after_done ::
  "after_send \<Rightarrow> bool \<Rightarrow> bytes option \<Rightarrow> int \<Rightarrow> (jstr \<Rightarrow> int option) \<Rightarrow> auto_discover \<Rightarrow> auto_discover" where
  "after_done k sent reply now heardAt s =
     (case k of
        NoCont \<Rightarrow> s
      | TraceCont mine i sweeping \<Rightarrow> trace_done mine i sweeping sent now heardAt s
      | TelemetryCont pk \<Rightarrow> telemetry_done pk sent reply now s
      | AnonCont pk ty \<Rightarrow> anon_done pk ty sent reply now s)"

definition finish_job ::
  "bool \<Rightarrow> bytes option \<Rightarrow> int \<Rightarrow> (jstr \<Rightarrow> int option) \<Rightarrow> auto_discover \<Rightarrow> auto_discover" where
  "finish_job sent reply now heardAt s =
     (case ad_jobs s of
        [] \<Rightarrow> s
      | j # js \<Rightarrow>
          let s = s\<lparr>ad_jobs := js, ad_onAir := False\<rparr>;
              s = (if sent then note_sent (jb_bytes j) now s else s)
          in after_done (jb_then j) sent reply now heardAt s)"

text \<open>The head job's turn in the chain: dropped when the page is off by then.\<close>

definition chain_turn :: "int \<Rightarrow> (jstr \<Rightarrow> int option) \<Rightarrow> auto_discover \<Rightarrow> auto_discover" where
  "chain_turn now heardAt s =
     (case ad_jobs s of
        [] \<Rightarrow> s
      | j # js \<Rightarrow>
          if ad_onAir s then s
          else if ad_enabled s \<and> \<not> ad_disposed s
          then s\<lparr>ad_onAir := True, ad_aired := ad_aired s @ [j]\<rparr>
          else finish_job False None now heardAt s)"

definition chain_done ::
  "bool \<Rightarrow> bytes option \<Rightarrow> int \<Rightarrow> (jstr \<Rightarrow> int option) \<Rightarrow> auto_discover \<Rightarrow> auto_discover" where
  "chain_done sent reply now heardAt s =
     (if ad_onAir s then finish_job sent reply now heardAt s else s)"

subsection \<open>The cycle\<close>

definition probeTargets ::
  "jstr list \<Rightarrow> tick_input \<Rightarrow> auto_discover \<Rightarrow> jstr list \<times> bool \<times> auto_discover" where
  "probeTargets repeaters ti s =
     (if repeaters \<noteq> [] then (repeaters, False, s)
      else
        let ids = nextSweepBatch (ti_heardIds ti) (ad_sweep s) (ti_heardAt ti) (ti_now ti) SWEEP_BATCH
        in (ids, True,
            if ids = [] then s
            else s\<lparr>ad_sweep := (ad_sweep s)\<lparr>sw_cursor := sw_cursor (ad_sweep s) + length ids\<rparr>\<rparr>))"

definition schedule_pings :: "jstr list \<Rightarrow> bool \<Rightarrow> int \<Rightarrow> auto_discover \<Rightarrow> auto_discover" where
  "schedule_pings ids sweeping now s =
     s\<lparr>ad_pending := ad_pending s @ map (\<lambda>(k, (i, delayMs)).
          \<lparr>pt_handle = ad_nextHandle s + k, pt_due = now + delayMs, pt_id = i, pt_sweeping = sweeping\<rparr>)
          (enumerate 0 (staggerTargets ids)),
       ad_nextHandle := ad_nextHandle s + length ids\<rparr>"

definition start_dance :: "dance_for \<Rightarrow> jstr \<Rightarrow> auto_discover \<Rightarrow> auto_discover" where
  "start_dance d pubkey s =
     (if \<not> ad_enabled s \<or> ad_dance s \<noteq> None \<or> \<not> is_pubkey pubkey then s
      else s\<lparr>ad_dance := Some (d, False)\<rparr>)"

definition directed_ask :: "jstr list \<Rightarrow> (jstr \<times> anon_type) option \<Rightarrow> auto_discover \<Rightarrow> auto_discover" where
  "directed_ask companions anon s =
     (case directedAskKind (companions \<noteq> []) (anon \<noteq> None) (ad_directedLast s) of
        None \<Rightarrow> s
      | Some DirTelemetry \<Rightarrow>
          (case nextTelemetryTarget companions (ad_telemetryCursor s) of
             None \<Rightarrow> s
           | Some (i, cursor) \<Rightarrow>
               start_dance (ForTelemetry (toLowerCase i)) (toLowerCase i)
                 (s\<lparr>ad_telemetryCursor := cursor, ad_directedLast := Some DirTelemetry\<rparr>))
      | Some DirAnon \<Rightarrow>
          (case anon of
             None \<Rightarrow> s
           | Some (i, ty) \<Rightarrow> start_dance (ForAnon i ty) i (s\<lparr>ad_directedLast := Some DirAnon\<rparr>)))"

definition gate_of :: "auto_opts \<Rightarrow> tick_input \<Rightarrow> auto_discover \<Rightarrow> gate_input" where
  "gate_of opts ti s =
     \<lparr>g_lastFireAt = ad_lastFireAt s, g_lastPos = ad_lastPos s, g_now = ti_now ti, g_pos = ti_pos ti,
      g_pendingTargets = length (ad_pending s) + inFlight s, g_minPeriodMs = floorMs opts s\<rparr>"

definition discover_job :: "bytes \<Rightarrow> job" where
  "discover_job tag = \<lparr>jb_frame = buildDiscoverFrame tag, jb_accept = AcceptOk,
     jb_bytes = DISCOVER_BYTES, jb_kind = SentDiscover, jb_then = NoCont\<rparr>"

definition advert_job :: "jstr \<Rightarrow> job" where
  "advert_job name = \<lparr>jb_frame = buildSelfAdvertFrame, jb_accept = AcceptOk,
     jb_bytes = advertBytes name, jb_kind = SentAdvert, jb_then = NoCont\<rparr>"

text \<open>The held-back cycle: a cycle whose first frame went out late buys its floor from then.\<close>

definition held_back :: "auto_opts \<Rightarrow> int \<Rightarrow> auto_discover \<Rightarrow> bool" where
  "held_back opts now s =
     (case (ad_cycleFirstSentAt s, ad_lastFireAt s) of
        (Some f, Some l) \<Rightarrow> f > l \<and> now - f < floorMs opts s
      | _ \<Rightarrow> False)"

definition fire :: "auto_opts \<Rightarrow> tick_input \<Rightarrow> auto_discover \<Rightarrow> auto_discover" where
  "fire opts ti s =
     (let now = ti_now ti;
          s = s\<lparr>ad_lastFireAt := Some now,
                ad_lastPos := (case ti_pos ti of None \<Rightarrow> ad_lastPos s | p \<Rightarrow> p),
                ad_sentBytes := [], ad_cycleFirstSentAt := None,
                ad_firstFire := (case ad_firstFire s of None \<Rightarrow> Some now | t \<Rightarrow> t)\<rparr>;
          s = send (discover_job (ti_random ti)) s;
          s = (if announceThisCycle (ti_introduce ti) True (length (ti_companions ti))
               then send (advert_job (ao_name opts)) s else s);
          (ids, sweeping, s) = probeTargets (ti_repeaters ti) ti s;
          s = schedule_pings ids sweeping now s;
          anon = (if sweeping then None else nextAnonAsk ids (ad_anonLast s) now)
      in directed_ask (ti_companions ti) anon s)"

definition ad_tick :: "auto_opts \<Rightarrow> tick_input \<Rightarrow> auto_discover \<Rightarrow> auto_discover" where
  "ad_tick opts ti s =
     (if \<not> ad_enabled s then s
      else if ad_lastFireAt s = None \<and> ti_now ti < ad_holdUntil s then s
      else if held_back opts (ti_now ti) s then s
      else if \<not> shouldAutoFire (gate_of opts ti s) then s
      else fire opts ti s)"

definition ad_start :: "auto_opts \<Rightarrow> tick_input \<Rightarrow> auto_discover \<Rightarrow> auto_discover" where
  "ad_start opts ti s =
     (if ad_enabled s \<or> ad_disposed s then s
      else
        let s = s\<lparr>ad_enabled := True,
              ad_holdUntil := (case ad_lastFireAt s of
                 None \<Rightarrow> ad_holdUntil s | Some t \<Rightarrow> t + floorMs opts s),
              ad_lastFireAt := None\<rparr>
        in ad_tick opts ti s)"

definition ad_stop :: "auto_discover \<Rightarrow> auto_discover" where
  "ad_stop s = s\<lparr>ad_enabled := False, ad_pending := [], ad_telemetryAsks := [], ad_anonAsks := [],
     ad_anonPending := []\<rparr>"

definition ad_dispose :: "auto_discover \<Rightarrow> auto_discover" where
  "ad_dispose s = ad_stop (s\<lparr>ad_disposed := True\<rparr>)"

definition tag_of :: "bytes \<Rightarrow> nat" where
  "tag_of b = byte_or_0 b 0 + 256 * byte_or_0 b 1 + 65536 * byte_or_0 b 2 + 16777216 * byte_or_0 b 3"

definition tracePing :: "jstr \<Rightarrow> bool \<Rightarrow> int \<Rightarrow> bytes \<Rightarrow> auto_discover \<Rightarrow> auto_discover" where
  "tracePing i sweeping now rnd s =
     (if \<not> ad_enabled s then s
      else case parseInt16 (take 2 i) of
        None \<Rightarrow> s
      | Some byte \<Rightarrow>
          let tag = tag_of rnd;
              pings = rememberPing (ad_pings s) (int tag) i now;
              mine = last pings
          in (case buildTracePathFrame tag 0 [of_int byte] of
                None \<Rightarrow> s
              | Some frame \<Rightarrow>
                  send \<lparr>jb_frame = frame, jb_accept = AcceptSent, jb_bytes = TRACE_BYTES,
                        jb_kind = SentTrace, jb_then = TraceCont mine i sweeping\<rparr>
                    (s\<lparr>ad_pings := pings\<rparr>)))"

text \<open>A timer of \<open>staggerTargets\<close> going off.\<close>

definition ping_timer :: "nat \<Rightarrow> int \<Rightarrow> bytes \<Rightarrow> auto_discover \<Rightarrow> auto_discover" where
  "ping_timer h now rnd s =
     (case find (\<lambda>t. pt_handle t = h \<and> pt_due t \<le> now) (ad_pending s) of
        None \<Rightarrow> s
      | Some t \<Rightarrow>
          tracePing (pt_id t) (pt_sweeping t) now rnd
            (s\<lparr>ad_pending := filter (\<lambda>u. pt_handle u \<noteq> h) (ad_pending s)\<rparr>))"

subsection \<open>Directed asks\<close>

definition anon_code :: "anon_type \<Rightarrow> nat" where
  "anon_code ty = (case ty of Regions \<Rightarrow> ANON_REQ_REGIONS | Owner \<Rightarrow> ANON_REQ_OWNER)"

definition dance_job :: "dance_for \<Rightarrow> job option" where
  "dance_job d = (case d of
     ForTelemetry pk \<Rightarrow>
       map_option (\<lambda>f. \<lparr>jb_frame = f, jb_accept = AcceptSent, jb_bytes = TELEMETRY_REQ_BYTES,
         jb_kind = SentRequest, jb_then = TelemetryCont pk\<rparr>) (buildTelemetryRequest pk)
   | ForAnon pk ty \<Rightarrow>
       map_option (\<lambda>f. \<lparr>jb_frame = f, jb_accept = AcceptSent, jb_bytes = ANON_REQ_BYTES,
         jb_kind = SentRequest, jb_then = AnonCont pk ty\<rparr>) (buildAnonRequest pk (anon_code ty)))"

definition dance_ask :: "auto_discover \<Rightarrow> auto_discover" where
  "dance_ask s =
     (case ad_dance s of
        Some (d, False) \<Rightarrow>
          let s = s\<lparr>ad_dance := Some (d, True)\<rparr> in
          if \<not> ad_enabled s then s
          else (case dance_job d of None \<Rightarrow> s | Some j \<Rightarrow> send j s)
      | _ \<Rightarrow> s)"

definition dance_end :: "auto_discover \<Rightarrow> auto_discover" where
  "dance_end s = s\<lparr>ad_dance := None\<rparr>"

subsection \<open>Answers\<close>

definition info_of :: "auto_discover \<Rightarrow> jstr \<Rightarrow> node_info" where
  "info_of s pk = (case ad_nodeInfo s pk of None \<Rightarrow> no_info | Some i \<Rightarrow> i)"

definition set_info :: "jstr \<Rightarrow> node_info \<Rightarrow> auto_discover \<Rightarrow> auto_discover" where
  "set_info pk i s = s\<lparr>ad_nodeInfo := (ad_nodeInfo s)(pk \<mapsto> i)\<rparr>"

definition anon_answer :: "anon_type \<Rightarrow> bytes \<Rightarrow> int \<Rightarrow> node_info \<Rightarrow> node_info" where
  "anon_answer ty dat now info =
     (case ty of
        Regions \<Rightarrow>
          (case readRegionsReply dat of
             None \<Rightarrow> info
           | Some r \<Rightarrow> info\<lparr>ni_regions := Some (rr_regions r, rr_truncated r, now),
               ni_clock_offset_s := Some (int (rr_clock r) - now div 1000)\<rparr>)
      | Owner \<Rightarrow>
          (case readOwnerReply dat of
             None \<Rightarrow> info
           | Some r \<Rightarrow> info\<lparr>ni_owner := Some (or_name r, or_owner r, now),
               ni_clock_offset_s := Some (int (or_clock r) - now div 1000)\<rparr>))"

definition merge_telemetry :: "telemetry \<Rightarrow> telemetry \<Rightarrow> telemetry" where
  "merge_telemetry old new =
     \<lparr>te_voltage_v = (case te_voltage_v new of None \<Rightarrow> te_voltage_v old | v \<Rightarrow> v),
      te_temp_c = (case te_temp_c new of None \<Rightarrow> te_temp_c old | v \<Rightarrow> v)\<rparr>"

definition ad_push :: "bytes \<Rightarrow> int \<Rightarrow> jstr list \<Rightarrow> auto_discover \<Rightarrow> auto_discover" where
  "ad_push frame now companions s =
     (case parseBinaryResponse frame of
        Some (tag, dat) \<Rightarrow>
          (case find_pos (\<lambda>a. ap_tag a = tag \<and> now - ap_sentAt a < 30000) (ad_anonPending s) of
             None \<Rightarrow> s
           | Some k \<Rightarrow>
               let ask = ad_anonPending s ! k;
                   s = s\<lparr>ad_anonPending := without_pos k (ad_anonPending s)\<rparr>
               in set_info (ap_pubkey ask)
                    (anon_answer (ap_type ask) dat now (info_of s (ap_pubkey ask))) s)
      | None \<Rightarrow>
          (case parseTelemetryResponse frame of
             None \<Rightarrow> s
           | Some (prefix, t) \<Rightarrow>
               let known = map ak_pubkey (pruneAsks (ad_telemetryAsks s) now) @ map toLowerCase companions
               in (case find (\<lambda>i. startsWith i prefix) known of
                     None \<Rightarrow> s
                   | Some pk \<Rightarrow> set_info pk ((info_of s pk)
                       \<lparr>ni_telemetry := merge_telemetry (ni_telemetry (info_of s pk)) t,
                        ni_telemetry_at := Some now\<rparr>) s)))"

definition reply_sender :: "sender_kind \<Rightarrow> jstr \<Rightarrow> sender" where
  "reply_sender k i = \<lparr>s_kind = Some k, s_id = Some i, s_label = None, s_role = None\<rparr>"

record attributable =
  at_packetType :: jstr
  at_sender :: sender
  at_traceTag :: "jstr option"
  at_heardUsSnr :: "real option"

definition attribute :: "attributable \<Rightarrow> int \<Rightarrow> auto_discover \<Rightarrow> (sender \<times> real option option) option" where
  "attribute d now s =
     (if s_id (at_sender d) = None \<and> at_traceTag d \<notin> {None, Some []} then
        (case matchTraceTarget (ad_pings s) (TagText (the (at_traceTag d))) now of
           None \<Rightarrow> None
         | Some target \<Rightarrow> Some (reply_sender TraceReply target, Some (at_heardUsSnr d)))
      else if at_packetType d = str ''Response'' \<and> s_kind (at_sender d) = Some DirectHash
        \<and> s_id (at_sender d) \<notin> {None, Some []} then
        (let i = the (s_id (at_sender d)) in
         case matchAskTarget (ad_telemetryAsks s) i now of
           Some t \<Rightarrow> Some (reply_sender TelemetryReply t, None)
         | None \<Rightarrow>
             (case matchAskTarget (ad_anonAsks s) i now of
                Some a \<Rightarrow> Some (reply_sender AnonReply a, None)
              | None \<Rightarrow> None))
      else None)"


subsection \<open>Runs\<close>

datatype ad_event =
    EvStart tick_input
  | EvTick tick_input
  | EvStop
  | EvDispose
  | EvPing nat int bytes
  | EvTurn int "jstr \<Rightarrow> int option"
  | EvDone bool "bytes option" int "jstr \<Rightarrow> int option"
  | EvDanceAsk
  | EvDanceEnd
  | EvPush bytes int "jstr list"

fun ad_step :: "auto_opts \<Rightarrow> ad_event \<Rightarrow> auto_discover \<Rightarrow> auto_discover" where
  "ad_step opts (EvStart ti) s = ad_start opts ti s"
| "ad_step opts (EvTick ti) s = ad_tick opts ti s"
| "ad_step opts EvStop s = ad_stop s"
| "ad_step opts EvDispose s = ad_dispose s"
| "ad_step opts (EvPing h now rnd) s = ping_timer h now rnd s"
| "ad_step opts (EvTurn now heardAt) s = chain_turn now heardAt s"
| "ad_step opts (EvDone sent reply now heardAt) s = chain_done sent reply now heardAt s"
| "ad_step opts EvDanceAsk s = dance_ask s"
| "ad_step opts EvDanceEnd s = dance_end s"
| "ad_step opts (EvPush frame now companions) s = ad_push frame now companions s"

definition ad_run :: "auto_opts \<Rightarrow> ad_event list \<Rightarrow> auto_discover \<Rightarrow> auto_discover" where
  "ad_run opts evs s = fold (ad_step opts) evs s"

text \<open>
  \<open>ad_reachable opts calm s\<close>: \<open>s\<close> is reached from a new Auto-discover; with \<open>calm\<close> it was
  never switched on while a frame or an ask of before was still under way.
\<close>

definition quiet :: "auto_discover \<Rightarrow> bool" where
  "quiet s \<longleftrightarrow> ad_jobs s = [] \<and> ad_dance s = None"

definition calm_event :: "ad_event \<Rightarrow> auto_discover \<Rightarrow> bool" where
  "calm_event ev s \<longleftrightarrow> (case ev of EvStart _ \<Rightarrow> quiet s | _ \<Rightarrow> True)"

inductive ad_reachable :: "auto_opts \<Rightarrow> bool \<Rightarrow> auto_discover \<Rightarrow> bool" for opts calm where
  ad_new: "ad_reachable opts calm newAutoDiscover"
| ad_next: "ad_reachable opts calm s \<Longrightarrow> (calm \<longrightarrow> calm_event ev s) \<Longrightarrow>
    ad_reachable opts calm (ad_step opts ev s)"

inductive_cases ad_nextE: "ad_reachable opts calm s"

subsection \<open>Off is silent\<close>

lemma start_dance_fields [simp]:
  "ad_jobs (start_dance d pk s) = ad_jobs s" "ad_pending (start_dance d pk s) = ad_pending s"
  "ad_aired (start_dance d pk s) = ad_aired s" "ad_log (start_dance d pk s) = ad_log s"
  "ad_sentBytes (start_dance d pk s) = ad_sentBytes s" "ad_lastFireAt (start_dance d pk s) = ad_lastFireAt s"
  "ad_firstFire (start_dance d pk s) = ad_firstFire s" "ad_holdUntil (start_dance d pk s) = ad_holdUntil s"
  "ad_enabled (start_dance d pk s) = ad_enabled s" "ad_onAir (start_dance d pk s) = ad_onAir s"
  by (simp_all add: start_dance_def)

lemma directed_ask_fields [simp]:
  "ad_jobs (directed_ask c a s) = ad_jobs s" "ad_pending (directed_ask c a s) = ad_pending s"
  "ad_aired (directed_ask c a s) = ad_aired s" "ad_log (directed_ask c a s) = ad_log s"
  "ad_sentBytes (directed_ask c a s) = ad_sentBytes s" "ad_lastFireAt (directed_ask c a s) = ad_lastFireAt s"
  "ad_firstFire (directed_ask c a s) = ad_firstFire s" "ad_holdUntil (directed_ask c a s) = ad_holdUntil s"
  "ad_enabled (directed_ask c a s) = ad_enabled s" "ad_onAir (directed_ask c a s) = ad_onAir s"
  by (simp_all add: directed_ask_def split: option.split directed.split)

lemma probeTargets_fields:
  assumes "probeTargets rs ti s = (ids, sw, s')"
  shows "ad_jobs s' = ad_jobs s" "ad_aired s' = ad_aired s" "ad_log s' = ad_log s"
    "ad_sentBytes s' = ad_sentBytes s" "ad_lastFireAt s' = ad_lastFireAt s"
    "ad_firstFire s' = ad_firstFire s" "ad_holdUntil s' = ad_holdUntil s" "ad_pending s' = ad_pending s"
    "ad_enabled s' = ad_enabled s" "ad_onAir s' = ad_onAir s"
  using assms by (auto simp: probeTargets_def Let_def split: if_splits)

lemma after_done_fields [simp]:
  "ad_jobs (after_done k b r t h s) = ad_jobs s" "ad_pending (after_done k b r t h s) = ad_pending s"
  "ad_aired (after_done k b r t h s) = ad_aired s" "ad_log (after_done k b r t h s) = ad_log s"
  "ad_sentBytes (after_done k b r t h s) = ad_sentBytes s"
  "ad_lastFireAt (after_done k b r t h s) = ad_lastFireAt s"
  "ad_firstFire (after_done k b r t h s) = ad_firstFire s"
  "ad_holdUntil (after_done k b r t h s) = ad_holdUntil s"
  "ad_enabled (after_done k b r t h s) = ad_enabled s" "ad_dance (after_done k b r t h s) = ad_dance s"
  by (simp_all add: after_done_def trace_done_def telemetry_done_def anon_done_def Let_def
      split: after_send.split option.split)

lemma fire_fields:
  "ad_lastFireAt (fire opts ti s) = Some (ti_now ti)"
  "ad_firstFire (fire opts ti s) = (case ad_firstFire s of None \<Rightarrow> Some (ti_now ti) | t \<Rightarrow> t)"
  "ad_sentBytes (fire opts ti s) = []" "ad_log (fire opts ti s) = ad_log s"
  "ad_aired (fire opts ti s) = ad_aired s" "ad_enabled (fire opts ti s) = ad_enabled s"
proof -
  define s1 where "s1 = s\<lparr>ad_lastFireAt := Some (ti_now ti),
    ad_lastPos := (case ti_pos ti of None \<Rightarrow> ad_lastPos s | p \<Rightarrow> p),
    ad_sentBytes := [], ad_cycleFirstSentAt := None,
    ad_firstFire := (case ad_firstFire s of None \<Rightarrow> Some (ti_now ti) | t \<Rightarrow> t)\<rparr>"
  define s2 where "s2 = (if announceThisCycle (ti_introduce ti) True (length (ti_companions ti))
    then send (advert_job (ao_name opts)) (send (discover_job (ti_random ti)) s1)
    else send (discover_job (ti_random ti)) s1)"
  obtain ids sw s3 where p: "probeTargets (ti_repeaters ti) ti s2 = (ids, sw, s3)"
    by (cases "probeTargets (ti_repeaters ti) ti s2")
  have f: "\<exists>a. fire opts ti s = directed_ask (ti_companions ti) a (schedule_pings ids sw (ti_now ti) s3)"
    unfolding fire_def Let_def s1_def [symmetric] s2_def [symmetric] p by auto
  have "ad_lastFireAt s2 = Some (ti_now ti)" "ad_sentBytes s2 = []" "ad_log s2 = ad_log s"
    "ad_firstFire s2 = (case ad_firstFire s of None \<Rightarrow> Some (ti_now ti) | t \<Rightarrow> t)" "ad_aired s2 = ad_aired s"
    "ad_enabled s2 = ad_enabled s"
    by (simp_all add: s2_def s1_def send_def)
  then show "ad_lastFireAt (fire opts ti s) = Some (ti_now ti)"
    "ad_firstFire (fire opts ti s) = (case ad_firstFire s of None \<Rightarrow> Some (ti_now ti) | t \<Rightarrow> t)"
    "ad_sentBytes (fire opts ti s) = []" "ad_log (fire opts ti s) = ad_log s"
    "ad_aired (fire opts ti s) = ad_aired s" "ad_enabled (fire opts ti s) = ad_enabled s"
    using f probeTargets_fields [OF p] by (auto simp: schedule_pings_def)
qed

lemma finish_job_aired [simp]: "ad_aired (finish_job b r t h s) = ad_aired s"
  by (simp add: finish_job_def Let_def note_sent_def split: list.split)

lemma ad_tick_aired [simp]: "ad_aired (ad_tick opts ti s) = ad_aired s"
  by (simp add: ad_tick_def fire_fields)

lemma ad_start_aired [simp]: "ad_aired (ad_start opts ti s) = ad_aired s"
  by (simp add: ad_start_def Let_def)

lemma dance_ask_aired [simp]: "ad_aired (dance_ask s) = ad_aired s"
  by (simp add: dance_ask_def Let_def send_def split: option.split prod.split bool.split)

lemma ad_push_fields [simp]:
  "ad_jobs (ad_push f t c s) = ad_jobs s" "ad_pending (ad_push f t c s) = ad_pending s"
  "ad_aired (ad_push f t c s) = ad_aired s" "ad_log (ad_push f t c s) = ad_log s"
  "ad_sentBytes (ad_push f t c s) = ad_sentBytes s" "ad_lastFireAt (ad_push f t c s) = ad_lastFireAt s"
  "ad_firstFire (ad_push f t c s) = ad_firstFire s" "ad_holdUntil (ad_push f t c s) = ad_holdUntil s"
  "ad_enabled (ad_push f t c s) = ad_enabled s" "ad_dance (ad_push f t c s) = ad_dance s"
  by (simp_all add: ad_push_def set_info_def Let_def split: option.split prod.split)

lemma tracePing_fields [simp]:
  "ad_aired (tracePing i sw t r s) = ad_aired s" "ad_log (tracePing i sw t r s) = ad_log s"
  "ad_sentBytes (tracePing i sw t r s) = ad_sentBytes s" "ad_lastFireAt (tracePing i sw t r s) = ad_lastFireAt s"
  "ad_firstFire (tracePing i sw t r s) = ad_firstFire s" "ad_holdUntil (tracePing i sw t r s) = ad_holdUntil s"
  "ad_enabled (tracePing i sw t r s) = ad_enabled s"
  by (simp_all add: tracePing_def send_def Let_def split: option.split)

lemma ping_timer_fields [simp]:
  "ad_aired (ping_timer h t r s) = ad_aired s" "ad_log (ping_timer h t r s) = ad_log s"
  "ad_sentBytes (ping_timer h t r s) = ad_sentBytes s" "ad_lastFireAt (ping_timer h t r s) = ad_lastFireAt s"
  "ad_firstFire (ping_timer h t r s) = ad_firstFire s" "ad_holdUntil (ping_timer h t r s) = ad_holdUntil s"
  "ad_enabled (ping_timer h t r s) = ad_enabled s"
  by (simp_all add: ping_timer_def split: option.split)

lemma ad_step_aired:
  "ad_aired (ad_step opts ev s) = ad_aired s \<or>
   (ad_enabled s \<and> \<not> ad_disposed s \<and> ad_jobs s \<noteq> [] \<and> ad_aired (ad_step opts ev s) = ad_aired s @ [hd (ad_jobs s)])"
  by (cases ev) (auto simp: ad_stop_def ad_dispose_def chain_turn_def chain_done_def dance_end_def
      split: list.split)


lemma finish_job_enabled [simp]: "ad_enabled (finish_job b r t h s) = ad_enabled s"
  by (simp add: finish_job_def Let_def note_sent_def split: list.split)

lemma off_stays_off:
  assumes "\<not> ad_enabled s" "\<forall>ti. ev \<noteq> EvStart ti"
  shows "\<not> ad_enabled (ad_step opts ev s)" "ad_aired (ad_step opts ev s) = ad_aired s"
  using assms ad_step_aired [of opts ev s]
  by (cases ev; auto simp: ad_tick_def ad_stop_def ad_dispose_def chain_turn_def chain_done_def
      dance_end_def dance_ask_def Let_def split: list.split option.split prod.split bool.split)+

lemma off_run:
  assumes "\<not> ad_enabled s" "\<forall>ev \<in> set evs. \<forall>ti. ev \<noteq> EvStart ti"
  shows "ad_aired (ad_run opts evs s) = ad_aired s \<and> \<not> ad_enabled (ad_run opts evs s)"
  using assms unfolding ad_run_def
proof (induction evs arbitrary: s)
  case (Cons ev evs)
  then show ?case using off_stays_off [of s ev opts] by simp
qed simp

subsection \<open>The duty budget over a whole session\<close>

definition budget_ok ::
  "nat option \<Rightarrow> nat list \<Rightarrow> nat list \<Rightarrow> int option \<Rightarrow> int option \<Rightarrow> int \<Rightarrow> bool" where
  "budget_ok sf gone cycle firstFire lastFire hold \<longleftrightarrow>
     (case firstFire of
        None \<Rightarrow> lastFire = None \<and> gone = [] \<and> cycle = []
      | Some t0 \<Rightarrow> \<exists>past. gone = past @ cycle \<and>
          (case lastFire of
             Some t \<Rightarrow> minPeriodMs past sf \<le> t - t0
           | None \<Rightarrow> minPeriodMs gone sf \<le> hold - t0))"

abbreviation budget_now :: "auto_opts \<Rightarrow> auto_discover \<Rightarrow> bool" where
  "budget_now opts s \<equiv> budget_ok (ao_sf opts) (ad_log s) (ad_sentBytes s) (ad_firstFire s)
     (ad_lastFireAt s) (ad_holdUntil s)"

definition duty_inv :: "auto_opts \<Rightarrow> auto_discover \<Rightarrow> bool" where
  "duty_inv opts s \<longleftrightarrow>
     (\<not> ad_enabled s \<longrightarrow> ad_pending s = []) \<and>
     (ad_lastFireAt s = None \<longrightarrow> quiet s \<and> ad_pending s = []) \<and> budget_now opts s"

definition same_duty :: "auto_discover \<Rightarrow> auto_discover \<Rightarrow> bool" where
  "same_duty s s' \<longleftrightarrow> ad_log s' = ad_log s \<and> ad_sentBytes s' = ad_sentBytes s \<and>
     ad_lastFireAt s' = ad_lastFireAt s \<and> ad_firstFire s' = ad_firstFire s \<and>
     ad_holdUntil s' = ad_holdUntil s \<and>
     (ad_enabled s' \<longrightarrow> ad_enabled s) \<and> (ad_pending s = [] \<or> \<not> ad_enabled s' \<longrightarrow> ad_pending s' = []) \<and>
     (quiet s \<and> ad_pending s = [] \<longrightarrow> quiet s')"

lemma duty_inv_same: "duty_inv opts s \<Longrightarrow> same_duty s s' \<Longrightarrow> duty_inv opts s'"
  by (auto simp: duty_inv_def same_duty_def)

lemma duty_inv_new: "duty_inv opts newAutoDiscover"
  by (simp add: duty_inv_def newAutoDiscover_def quiet_def budget_ok_def)

lemma duty_inv_fire:
  assumes "duty_inv opts s" "shouldAutoFire (gate_of opts ti s)" "ad_enabled s"
    "ad_lastFireAt s = None \<longrightarrow> ad_holdUntil s \<le> ti_now ti"
  shows "duty_inv opts (fire opts ti s)"
proof -
  have gap: "minPeriodMs (ad_sentBytes s) (ao_sf opts) \<le> ti_now ti - t" if "ad_lastFireAt s = Some t" for t
    using shouldAutoFire_gate(2) [OF assms(2), of t] that by (simp add: gate_of_def floorMs_def)
  show ?thesis
  proof (cases "ad_firstFire s")
    case None
    then have "ad_log s = []" using assms(1) by (simp add: duty_inv_def budget_ok_def)
    then show ?thesis using assms(3) by (simp add: duty_inv_def fire_fields None budget_ok_def)
  next
    case (Some t0)
    then obtain past where p: "ad_log s = past @ ad_sentBytes s"
      "case ad_lastFireAt s of Some t \<Rightarrow> minPeriodMs past (ao_sf opts) \<le> t - t0
       | None \<Rightarrow> minPeriodMs (ad_log s) (ao_sf opts) \<le> ad_holdUntil s - t0"
      using assms(1) by (auto simp: duty_inv_def budget_ok_def)
    have "minPeriodMs (ad_log s) (ao_sf opts) \<le> ti_now ti - t0"
    proof (cases "ad_lastFireAt s")
      case None
      then show ?thesis using p(2) assms(4) by simp
    next
      case (Some t)
      then show ?thesis using p gap [OF Some] by (simp add: minPeriod_append)
    qed
    then show ?thesis using assms(3) by (simp add: duty_inv_def fire_fields Some budget_ok_def)
  qed
qed

lemma duty_inv_tick: "duty_inv opts s \<Longrightarrow> duty_inv opts (ad_tick opts ti s)"
  by (auto simp: ad_tick_def intro: duty_inv_fire)

lemma duty_inv_start:
  assumes i: "duty_inv opts s" and q: "quiet s"
  shows "duty_inv opts (ad_start opts ti s)"
proof (cases "ad_enabled s \<or> ad_disposed s")
  case True
  then show ?thesis using i by (simp add: ad_start_def)
next
  case False
  define s1 where "s1 = s\<lparr>ad_enabled := True, ad_holdUntil := (case ad_lastFireAt s of
    None \<Rightarrow> ad_holdUntil s | Some t \<Rightarrow> t + floorMs opts s), ad_lastFireAt := None\<rparr>"
  have p: "ad_pending s = []" using i False by (simp add: duty_inv_def)
  have "duty_inv opts s1"
  proof (cases "ad_firstFire s")
    case None
    then show ?thesis using i q p by (simp add: duty_inv_def s1_def quiet_def budget_ok_def)
  next
    case (Some t0)
    then obtain past where l: "ad_log s = past @ ad_sentBytes s"
      "case ad_lastFireAt s of Some t \<Rightarrow> minPeriodMs past (ao_sf opts) \<le> t - t0
       | None \<Rightarrow> minPeriodMs (ad_log s) (ao_sf opts) \<le> ad_holdUntil s - t0"
      using i by (auto simp: duty_inv_def budget_ok_def)
    then have "minPeriodMs (ad_log s) (ao_sf opts) \<le> ad_holdUntil s1 - t0"
      by (simp add: s1_def floorMs_def minPeriod_append split: option.splits)
    moreover have "ad_log s1 = past @ ad_sentBytes s1" using l by (simp add: s1_def)
    ultimately show ?thesis using q p Some by (simp add: duty_inv_def s1_def quiet_def budget_ok_def)
  qed
  moreover have "ad_start opts ti s = ad_tick opts ti s1" using False by (simp add: ad_start_def s1_def)
  ultimately show ?thesis using duty_inv_tick by simp
qed

lemma duty_inv_finish:
  assumes i: "duty_inv opts s"
  shows "duty_inv opts (finish_job b r t h s)"
proof (cases "ad_jobs s")
  case Nil
  then show ?thesis using i by (simp add: finish_job_def)
next
  case (Cons j js)
  then have "ad_lastFireAt s \<noteq> None" using i by (auto simp: duty_inv_def quiet_def)
  then obtain l t0 where l: "ad_lastFireAt s = Some l" "ad_firstFire s = Some t0"
    using i by (auto simp: duty_inv_def budget_ok_def split: option.splits)
  then show ?thesis
    using i Cons by (auto simp: duty_inv_def finish_job_def note_sent_def Let_def budget_ok_def)
qed

lemma tracePing_off: "\<not> ad_enabled s \<Longrightarrow> tracePing i sw t r s = s"
  by (simp add: tracePing_def)

lemma same_duty_ping: "duty_inv opts s \<Longrightarrow> same_duty s (ping_timer h t r s)"
  by (auto simp: same_duty_def ping_timer_def duty_inv_def tracePing_def send_def Let_def
      split: option.splits)

lemma duty_inv_step:
  assumes i: "duty_inv opts s" and c: "calm_event ev s"
  shows "duty_inv opts (ad_step opts ev s)"
proof (cases ev)
  case (EvStart ti)
  then show ?thesis using duty_inv_start i c by (simp add: calm_event_def)
next
  case EvStop
  then show ?thesis using i by (auto simp: duty_inv_def ad_stop_def quiet_def)
next
  case EvDispose
  then show ?thesis using i by (auto simp: duty_inv_def ad_dispose_def ad_stop_def quiet_def)
next
  case (EvPing h now rnd)
  then show ?thesis using duty_inv_same [OF i same_duty_ping [OF i]] by simp
next
  case (EvTurn now h)
  have "duty_inv opts (s\<lparr>ad_onAir := b, ad_aired := a\<rparr>)" for a b
    using i by (simp add: duty_inv_def quiet_def)
  then show ?thesis
    using i duty_inv_finish [OF i] EvTurn by (auto simp: chain_turn_def split: list.split)
next
  case EvDanceAsk
  have "same_duty s (dance_ask s)"
    using i by (auto simp: duty_inv_def same_duty_def dance_ask_def send_def quiet_def Let_def
        split: option.split prod.split bool.split)
  then show ?thesis using duty_inv_same [OF i] EvDanceAsk by simp
next
  case (EvPush f t cs)
  have "same_duty s (ad_push f t cs s)" using i by (auto simp: same_duty_def quiet_def duty_inv_def)
  then show ?thesis using duty_inv_same [OF i] EvPush by simp
qed (use i duty_inv_tick duty_inv_finish in \<open>auto simp: chain_done_def dance_end_def duty_inv_def quiet_def\<close>)

lemma duty_inv_reachable: "ad_reachable opts True s \<Longrightarrow> duty_inv opts s"
  by (induction rule: ad_reachable.induct) (auto intro: duty_inv_new duty_inv_step)


lemma duty_over_session:
  assumes "ad_reachable opts True s" "ad_firstFire s = Some t0" "ad_lastFireAt s = Some t"
  shows "\<exists>past. ad_log s = past @ ad_sentBytes s \<and> 10 * cycleAirtimeMs past (ao_sf opts) \<le> t - t0"
  using duty_inv_reachable [OF assms(1)] assms(2,3)
  by (simp add: duty_inv_def budget_ok_def minPeriod_eq)

subsection \<open>Off and on while a frame is under way\<close>

text \<open>
  \<open>hurried\<close>: the Discover frame of the first cycle is on the air when the driver switches
  off and on; its answer comes after that. The floor of the frame is not waited for.
\<close>

definition quiet_tick :: "int \<Rightarrow> tick_input" where
  "quiet_tick now = \<lparr>ti_now = now, ti_pos = None, ti_repeaters = [], ti_companions = [],
     ti_heardIds = [], ti_heardAt = (\<lambda>_. None), ti_introduce = False, ti_random = [1, 2, 3, 4]\<rparr>"

definition hurried :: "ad_event list" where
  "hurried =
     [EvStart (quiet_tick 0), EvTurn 5 (\<lambda>_. None), EvStop, EvStart (quiet_tick 20),
      EvDone True (Some [0]) 100 (\<lambda>_. None), EvTick (quiet_tick 1020)]"

definition default_opts :: auto_opts where
  "default_opts = \<lparr>ao_sf = Some 8, ao_name = []\<rparr>"

lemma floor_discover: "minPeriodMs [8] (Some 8) = 2420"
  by (simp add: minPeriod_eq cycleAirtime_sum frameAirtimeMs_def symbolUs_default frame_groups_def
      knownSf_def ceil_div_def Let_def)


lemma hurried_run:
  "ad_firstFire (ad_run default_opts hurried newAutoDiscover) = Some 0"
  "ad_lastFireAt (ad_run default_opts hurried newAutoDiscover) = Some 1020"
  "ad_log (ad_run default_opts hurried newAutoDiscover) = [8]"
  "ad_sentBytes (ad_run default_opts hurried newAutoDiscover) = []"
  by (simp_all add: ad_run_def hurried_def ad_start_def ad_tick_def fire_def newAutoDiscover_def
      quiet_tick_def default_opts_def held_back_def gate_of_def shouldAutoFire_def floorMs_def
      inFlight_def send_def announceThisCycle_def probeTargets_def nextSweepBatch_def
      schedule_pings_def staggerTargets_def directed_ask_def directedAskKind_def chain_turn_def
      chain_done_def finish_job_def note_sent_def after_done_def discover_job_def ad_stop_def
      DISCOVER_BYTES_def Let_def)

subsection \<open>Properties\<close>

text \<open>C6: off means silent: from any state, once switched off no frame reaches the radio for the air,
  whatever timers, asks, answers and frames still waiting in the radio chain come after, until
  it is switched on again.\<close>

theorem off_is_silent:
  assumes "\<forall>ev \<in> set evs. \<forall>ti. ev \<noteq> EvStart ti"
  shows "ad_aired (ad_run opts evs (ad_stop s)) = ad_aired s"
  using off_run [of "ad_stop s" evs opts] assms by (simp add: ad_stop_def)

theorem off_is_silent_witness:
  "ad_aired (ad_run default_opts [EvTurn 5 (\<lambda>_. None)] (ad_stop (ad_run default_opts [EvStart (quiet_tick 0)] newAutoDiscover)))
    = ad_aired (ad_run default_opts [EvStart (quiet_tick 0)] newAutoDiscover)"
  by (rule off_is_silent) simp


lemma first_cycle:
  "ad_firstFire (ad_step default_opts (EvStart (quiet_tick 0)) newAutoDiscover) = Some 0"
  "ad_lastFireAt (ad_step default_opts (EvStart (quiet_tick 0)) newAutoDiscover) = Some 0"
  "ad_log (ad_step default_opts (EvStart (quiet_tick 0)) newAutoDiscover) = []"
  by (simp_all add: ad_start_def ad_tick_def fire_def newAutoDiscover_def
      quiet_tick_def default_opts_def held_back_def gate_of_def shouldAutoFire_def floorMs_def
      inFlight_def send_def announceThisCycle_def probeTargets_def nextSweepBatch_def
      schedule_pings_def staggerTargets_def directed_ask_def directedAskKind_def Let_def)


text \<open>The floor can be undercut: switched off and on while its first Discover frame is on the air,
  the page fires again 1020 ms after the first cycle, although that frame alone buys 2420 ms.\<close>

theorem hurried_restart_fires_early:
  "ad_log (ad_run default_opts hurried newAutoDiscover) = [8]
   \<and> ad_firstFire (ad_run default_opts hurried newAutoDiscover) = Some 0
   \<and> ad_lastFireAt (ad_run default_opts hurried newAutoDiscover) = Some 1020
   \<and> minPeriodMs [8] (Some 8) = 2420"
  by (simp add: hurried_run floor_discover)

definition only_live_ask :: "ask list \<Rightarrow> jstr \<Rightarrow> int \<Rightarrow> jstr \<Rightarrow> bool" where
  "only_live_ask asks h now node \<longleftrightarrow> (\<exists>a \<in> set asks. ak_pubkey a = node \<and> now - ak_sentAt a < 30000
     \<and> startsWith node h \<and> (\<forall>b \<in> set asks. now - ak_sentAt b < 30000 \<longrightarrow> startsWith (ak_pubkey b) h \<longrightarrow> b = a))"

definition only_live_ping :: "ping list \<Rightarrow> jstr \<Rightarrow> int \<Rightarrow> jstr \<Rightarrow> bool" where
  "only_live_ping pings tag now node \<longleftrightarrow> (\<exists>p \<in> set pings. pg_targetId p = node \<and> now - pg_sentAt p < 30000
     \<and> normalizeTag (TagText tag) = Some (pg_tag p))"

lemma matched_ask: "matchAskTarget asks h now = Some t \<Longrightarrow> only_live_ask asks (toLowerCase (trim h)) now t"
  using matchAskTarget_sound [of asks h now t] by (auto simp: ASK_TTL_MS_def only_live_ask_def)

lemma matched_ping: "matchTraceTarget pings (TagText tag) now = Some t \<Longrightarrow> only_live_ping pings tag now t"
proof -
  assume m: "matchTraceTarget pings (TagText tag) now = Some t"
  obtain i where i: "i < length (live_pings pings now TRACE_TTL_MS)"
    "pg_targetId (live_pings pings now TRACE_TTL_MS ! i) = t"
    "normalizeTag (TagText tag) = Some (pg_tag (live_pings pings now TRACE_TTL_MS ! i))"
    using matchTraceTarget_sound [OF m] by auto
  then show ?thesis
    using live_pings_all [OF nth_mem [OF i(1)]] by (auto simp: TRACE_TTL_MS_def only_live_ping_def)
qed

text \<open>C10: a reception is only named after a node that was asked: a trace reply by the tag of a ping
  less than 30 s old, a telemetry or anonymous reply by
  the only live ask whose key starts with the reply's hash byte; everything else stays unnamed.\<close>

theorem attribution_needs_a_live_ask:
  assumes "attribute d now s = Some (who, snr)"
  shows "\<exists>node.
      (who = reply_sender TraceReply node \<and> s_id (at_sender d) = None
        \<and> (\<exists>tag. at_traceTag d = Some tag \<and> only_live_ping (ad_pings s) tag now node))
    \<or> (at_packetType d = str ''Response'' \<and> s_kind (at_sender d) = Some DirectHash
        \<and> (\<exists>h. s_id (at_sender d) = Some h \<and>
          (who = reply_sender TelemetryReply node
             \<and> only_live_ask (ad_telemetryAsks s) (toLowerCase (trim h)) now node
           \<or> who = reply_sender AnonReply node
             \<and> only_live_ask (ad_anonAsks s) (toLowerCase (trim h)) now node)))"
proof (cases "s_id (at_sender d) = None \<and> at_traceTag d \<notin> {None, Some []}")
  case True
  then obtain t where "matchTraceTarget (ad_pings s) (TagText (the (at_traceTag d))) now = Some t"
    "who = reply_sender TraceReply t"
    using assms by (auto simp: attribute_def split: option.splits)
  moreover obtain tag where "at_traceTag d = Some tag" using True by auto
  ultimately show ?thesis using True matched_ping by fastforce
next
  case False
  then obtain h where h: "at_packetType d = str ''Response''" "s_kind (at_sender d) = Some DirectHash"
    "s_id (at_sender d) = Some h"
    using assms by (auto simp: attribute_def split: if_splits)
  then have "(\<exists>t. who = reply_sender TelemetryReply t \<and> matchAskTarget (ad_telemetryAsks s) h now = Some t)
    \<or> (\<exists>t. who = reply_sender AnonReply t \<and> matchAskTarget (ad_anonAsks s) h now = Some t)"
    using assms False by (auto simp: attribute_def split: if_splits option.splits)
  then show ?thesis using h matched_ask by blast
qed

definition sample_reply :: attributable where
  "sample_reply = \<lparr>at_packetType = str ''Trace'', at_sender = NO_SENDER, at_traceTag = Some (str ''a''),
     at_heardUsSnr = None\<rparr>"

definition pinged :: auto_discover where
  "pinged = newAutoDiscover\<lparr>ad_pings := [\<lparr>pg_tag = str ''0000000a'', pg_targetId = str ''ab'', pg_sentAt = 5\<rparr>]\<rparr>"

theorem attribution_needs_a_live_ask_witness:
  "attribute sample_reply 9 pinged = Some (reply_sender TraceReply (str ''ab''), Some None)
   \<and> only_live_ping (ad_pings pinged) (str ''a'') 9 (str ''ab'')"
proof -
  have a: "attribute sample_reply 9 pinged = Some (reply_sender TraceReply (str ''ab''), Some None)"
    by (simp add: attribute_def sample_reply_def pinged_def NO_SENDER_def matchTraceTarget_def
        live_pings_def TRACE_TTL_MS_def without_pos_def trim_def is_ws_def is_hex_def hex_val_def
        padStart_def toLowerCase_def lower_char_def) (simp add: numeral_eq_Suc)
  show ?thesis using attribution_needs_a_live_ask [OF a] a
    by (auto simp: reply_sender_def sample_reply_def NO_SENDER_def)
qed

end
