(* ===== verification/ContactPath.thy ===== *)
theory ContactPath
  imports Frames Json
begin

section \<open>The temporary zero-hop route (wardrive/discover/contactPath.ts)\<close>

text \<open>
  For one directed ask a contact of the radio is set to zero-hop and put back. The link
  state holds the radio's contact table (a contact is the frame its reading returns), the
  browser's storage, the asks made and a history of table and storage after every effect:
  a page that dies leaves one of these behind. \<open>link_world\<close> says which reads are answered,
  which writes the radio applies and how it answers them, which storage accesses fail and
  which asks throw.
\<close>

definition CMD_GET_CONTACT_BY_KEY :: u8 where "CMD_GET_CONTACT_BY_KEY = 30"
definition CMD_ADD_UPDATE_CONTACT :: u8 where "CMD_ADD_UPDATE_CONTACT = 9"
definition RESP_CODE_OK :: u8 where "RESP_CODE_OK = 0"
definition RESP_CODE_ERR :: u8 where "RESP_CODE_ERR = 1"
definition RESP_CODE_CONTACT :: u8 where "RESP_CODE_CONTACT = 3"
definition ERR_CODE_NOT_FOUND :: u8 where "ERR_CODE_NOT_FOUND = 2"
definition CONTACT_FRAME_LEN :: nat where "CONTACT_FRAME_LEN = 148"
definition OUT_PATH_LEN :: nat where "OUT_PATH_LEN = 35"
definition RESTORE_PREFIX :: jstr where "RESTORE_PREFIX = str ''rtfm-wardrive-contact-restore:''"

datatype contact_reply = Found jstr nat bytes | NotFound

definition lower :: "jstr \<Rightarrow> jstr" where
  "lower s = toLowerCase (trim s)"

definition buildGetContactByKey :: "jstr \<Rightarrow> bytes option" where
  "buildGetContactByKey pubkeyHex =
     (let pk = lower pubkeyHex in
      if is_pubkey pk then Some (CMD_GET_CONTACT_BY_KEY # key_of_hex pk) else None)"

definition parseContactReply :: "bytes \<Rightarrow> contact_reply option" where
  "parseContactReply bs =
     (if length bs < 1 then None
      else if bs ! 0 = RESP_CODE_ERR then
        (if length bs \<ge> 2 \<and> bs ! 1 = ERR_CODE_NOT_FOUND then Some NotFound else None)
      else if bs ! 0 = RESP_CODE_CONTACT \<and> length bs \<ge> CONTACT_FRAME_LEN then
        (let raw = subarr 0 CONTACT_FRAME_LEN bs
         in Some (Found (bytesToHex (subarr 1 33 raw)) (unat (raw ! OUT_PATH_LEN)) raw))
      else None)"

definition buildOverrideFrame :: "bytes \<Rightarrow> bytes" where
  "buildOverrideFrame raw = raw[0 := CMD_ADD_UPDATE_CONTACT, OUT_PATH_LEN := 0]"

definition buildRestoreFrame :: "bytes \<Rightarrow> bytes" where
  "buildRestoreFrame raw = raw[0 := CMD_ADD_UPDATE_CONTACT]"

definition restoreKey :: "jstr \<Rightarrow> jstr \<Rightarrow> jstr" where
  "restoreKey self target = RESTORE_PREFIX @ lower self @ str '':'' @ lower target"

record restore_record =
  rs_self :: jstr
  rs_target :: jstr
  rs_raw :: bytes

definition restore_json :: "jstr \<Rightarrow> jstr \<Rightarrow> bytes \<Rightarrow> json" where
  "restore_json self target raw =
     JObj [(str ''self'', JStr (lower self)), (str ''target'', JStr (lower target)),
           (str ''raw'', JStr (bytesToHex raw))]"

definition decodeRecord :: "jstr \<Rightarrow> restore_record option" where
  "decodeRecord txt =
     (case json_parse txt of
        None \<Rightarrow> None
      | Some v \<Rightarrow>
          (case (json_prop v (str ''self''), json_prop v (str ''target''), json_prop v (str ''raw'')) of
             (Some (JStr self), Some (JStr target), Some (JStr raw)) \<Rightarrow>
               if \<not> list_all is_hex raw \<or> length raw \<noteq> CONTACT_FRAME_LEN * 2 then None
               else Some \<lparr>rs_self = lower self, rs_target = lower target,
                 rs_raw = map (\<lambda>i. u8_of_parse (parseInt16 (subarr (i * 2) (i * 2 + 2) raw)))
                            [0..<CONTACT_FRAME_LEN]\<rparr>
           | _ \<Rightarrow> None))"

subsection \<open>The link\<close>

type_synonym contact_table = "jstr \<Rightarrow> bytes option"
type_synonym storage = "(jstr \<times> jstr) list"

record contact_link =
  cl_radio :: contact_table
  cl_store :: storage
  cl_io :: nat
  cl_asks :: "(jstr \<times> bytes option) list"
  cl_hist :: "(contact_table \<times> storage) list"

record link_world =
  lw_read :: "nat \<Rightarrow> bool"
  lw_write :: "nat \<Rightarrow> bool \<times> bool option"
  lw_set :: "nat \<Rightarrow> bool"
  lw_remove :: "nat \<Rightarrow> bool"
  lw_ask :: "nat \<Rightarrow> bool"

definition next_io :: "contact_link \<Rightarrow> contact_link" where
  "next_io st = st\<lparr>cl_io := cl_io st + 1\<rparr>"

definition snap :: "contact_link \<Rightarrow> contact_link" where
  "snap st = st\<lparr>cl_hist := cl_hist st @ [(cl_radio st, cl_store st)]\<rparr>"

text \<open>The radio's answer to a contact read: the contact, or an error of its own code.\<close>

definition radio_answer :: "contact_table \<Rightarrow> jstr \<Rightarrow> bytes" where
  "radio_answer radio pk =
     (case radio pk of Some frame \<Rightarrow> frame | None \<Rightarrow> [RESP_CODE_ERR, ERR_CODE_NOT_FOUND])"

text \<open>\<^verbatim>\<open>io.getContact\<close> as autoDiscover.ts makes it: a contact of another key is no answer.\<close>

definition getContact :: "link_world \<Rightarrow> jstr \<Rightarrow> contact_link \<Rightarrow> contact_reply option \<times> contact_link" where
  "getContact w pk st =
     ((if lw_read w (cl_io st) then
         (case parseContactReply (radio_answer (cl_radio st) pk) of
            Some (Found k n raw) \<Rightarrow> if k \<noteq> pk then None else Some (Found k n raw)
          | r \<Rightarrow> r)
       else None), next_io st)"

text \<open>The radio keeps a written contact under the key in the frame.\<close>

definition apply_write :: "bytes \<Rightarrow> contact_table \<Rightarrow> contact_table" where
  "apply_write frame radio = radio(bytesToHex (subarr 1 33 frame) \<mapsto> frame[0 := RESP_CODE_CONTACT])"

definition writeContact :: "link_world \<Rightarrow> bytes \<Rightarrow> contact_link \<Rightarrow> bool option \<times> contact_link" where
  "writeContact w frame st =
     (let (applied, reply) = lw_write w (cl_io st);
          radio = (if applied then apply_write frame (cl_radio st) else cl_radio st)
      in (reply, snap (next_io (st\<lparr>cl_radio := radio\<rparr>))))"

definition setItem :: "link_world \<Rightarrow> jstr \<Rightarrow> jstr \<Rightarrow> contact_link \<Rightarrow> bool \<times> contact_link" where
  "setItem w key val st =
     (if lw_set w (cl_io st)
      then (True, snap (next_io (st\<lparr>cl_store := amap_set key val (cl_store st)\<rparr>)))
      else (False, next_io st))"

definition removeItem :: "link_world \<Rightarrow> jstr \<Rightarrow> contact_link \<Rightarrow> contact_link" where
  "removeItem w key st =
     (if lw_remove w (cl_io st)
      then snap (next_io (st\<lparr>cl_store := amap_delete key (cl_store st)\<rparr>))
      else next_io st)"

text \<open>The ask: what it does is up to the caller; here it is noted with the contact it went by.\<close>

definition run_ask :: "link_world \<Rightarrow> jstr \<Rightarrow> contact_link \<Rightarrow> bool \<times> contact_link" where
  "run_ask w target st =
     (lw_ask w (cl_io st),
      snap (next_io (st\<lparr>cl_asks := cl_asks st @ [(target, cl_radio st target)]\<rparr>)))"

datatype skip_reason = NoReading | NotAContact | NotStored | NotAcked

record dance_result =
  dr_asked :: bool
  dr_skipped :: "skip_reason option"
  dr_restored :: "bool option"

definition asked_result :: dance_result where
  "asked_result = \<lparr>dr_asked = True, dr_skipped = None, dr_restored = None\<rparr>"

definition skipped_result :: "skip_reason \<Rightarrow> dance_result" where
  "skipped_result r = \<lparr>dr_asked = False, dr_skipped = Some r, dr_restored = None\<rparr>"

definition restore ::
  "link_world \<Rightarrow> jstr \<Rightarrow> jstr \<Rightarrow> bytes \<Rightarrow> contact_link \<Rightarrow> bool \<times> contact_link" where
  "restore w self target raw st =
     (case writeContact w (buildRestoreFrame raw) st of
        (Some True, st) \<Rightarrow> (True, removeItem w (restoreKey self target) st)
      | (_, st) \<Rightarrow> (False, st))"

text \<open>\<open>None\<close>: the ask threw, and so does the dance, after its restore.\<close>

definition ask_only :: "link_world \<Rightarrow> jstr \<Rightarrow> contact_link \<Rightarrow> dance_result option \<times> contact_link" where
  "ask_only w target st =
     (case run_ask w target st of (ok, st) \<Rightarrow> (if ok then Some asked_result else None, st))"

definition dance ::
  "link_world \<Rightarrow> jstr \<Rightarrow> jstr \<Rightarrow> bool \<Rightarrow> contact_link \<Rightarrow> dance_result option \<times> contact_link" where
  "dance w self target askNonContact st =
     (case getContact w target st of
        (None, st) \<Rightarrow> (Some (skipped_result NoReading), st)
      | (Some NotFound, st) \<Rightarrow>
          if \<not> askNonContact then (Some (skipped_result NotAContact), st) else ask_only w target st
      | (Some (Found pubkey outPathLen raw), st) \<Rightarrow>
          if outPathLen = 0 then ask_only w target st
          else
            (case setItem w (restoreKey self target) (stringify (restore_json self target raw)) st of
               (False, st) \<Rightarrow> (Some (skipped_result NotStored), st)
             | (True, st) \<Rightarrow>
                 let (out, st) =
                   (case writeContact w (buildOverrideFrame raw) st of
                      (Some True, st) \<Rightarrow> ask_only w target st
                    | (_, st) \<Rightarrow> (Some (skipped_result NotAcked), st));
                   (restored, st) = restore w self target raw st
                 in (map_option (\<lambda>o'. o'\<lparr>dr_restored := Some restored\<rparr>) out, st)))"

text \<open>\<open>replay_loop\<close> is the loop of \<^verbatim>\<open>replayPendingRestores\<close> over the entries it read first.\<close>

fun replay_loop ::
  "link_world \<Rightarrow> jstr \<Rightarrow> storage \<Rightarrow> bool \<Rightarrow> bool \<Rightarrow> contact_link \<Rightarrow> bool option \<times> contact_link" where
  "replay_loop w self [] owed allAcked st = (if owed then Some allAcked else None, st)"
| "replay_loop w self ((key, val) # rest) owed allAcked st =
     (case decodeRecord val of
        None \<Rightarrow> replay_loop w self rest owed allAcked (removeItem w key st)
      | Some rec \<Rightarrow>
          if rs_self rec \<noteq> lower self then replay_loop w self rest owed allAcked st
          else
            let (ok, st) = restore w (rs_self rec) (rs_target rec) (rs_raw rec) st
            in replay_loop w self rest True (allAcked \<and> ok) st)"

definition replayPendingRestores :: "link_world \<Rightarrow> jstr \<Rightarrow> contact_link \<Rightarrow> bool option \<times> contact_link" where
  "replayPendingRestores w self st =
     replay_loop w self (filter (\<lambda>(key, _). startsWith key RESTORE_PREFIX) (cl_store st)) False True st"

subsection \<open>A stored record reads back\<close>

lemma lower_idem [simp]: "is_pubkey k \<Longrightarrow> lower k = k"
  by (simp add: lower_def is_pubkey_trim is_pubkey_lower)

lemma decodeRecord_stored:
  assumes "length raw = CONTACT_FRAME_LEN" "is_pubkey self" "is_pubkey target"
  shows "decodeRecord (stringify (restore_json self target raw)) =
    Some \<lparr>rs_self = self, rs_target = target, rs_raw = raw\<rparr>"
proof -
  have j: "json_parse (stringify (restore_json self target raw)) = Some (restore_json self target raw)"
    by (rule json_parse_stringify) (simp add: restore_json_def)
  have h: "list_all is_hex (bytesToHex raw)"
    using bytesToHex_lower_hex [of raw] is_lower_hex_is_hex by (auto simp: list_all_iff)
  have "map (\<lambda>i. u8_of_parse (parseInt16 (subarr (i * 2) (i * 2 + 2) (bytesToHex raw))))
      [0..<CONTACT_FRAME_LEN] = hexToBytes (bytesToHex raw)"
    using assms(1) by (simp add: hexToBytes_def Let_def)
  then show ?thesis
    using h assms
    by (simp add: decodeRecord_def j) (simp add: restore_json_def hexToBytes_bytesToHex)
qed

subsection \<open>Contacts as the radio keeps them\<close>

definition contact_frame :: "jstr \<Rightarrow> bytes \<Rightarrow> bool" where
  "contact_frame pk f \<longleftrightarrow> length f = CONTACT_FRAME_LEN \<and> f ! 0 = RESP_CODE_CONTACT
     \<and> bytesToHex (subarr 1 33 f) = pk"

definition radio_ok :: "contact_table \<Rightarrow> bool" where
  "radio_ok radio \<longleftrightarrow> (\<forall>pk f. radio pk = Some f \<longrightarrow> contact_frame pk f)"

text \<open>An acknowledged write was applied.\<close>

definition honest :: "link_world \<Rightarrow> bool" where
  "honest w \<longleftrightarrow> (\<forall>n. snd (lw_write w n) = Some True \<longrightarrow> fst (lw_write w n))"

definition zero_hop :: "bytes \<Rightarrow> bool" where
  "zero_hop f \<longleftrightarrow> f ! OUT_PATH_LEN = 0"

lemma subarr_update: "i < a \<or> b \<le> i \<Longrightarrow> subarr a b (f[i := x]) = subarr a b f"
  by (rule nth_equalityI) (auto simp: subarr_def nth_list_update)

lemma parse_answer:
  assumes "radio_ok radio"
  shows "parseContactReply (radio_answer radio pk) =
    Some (case radio pk of None \<Rightarrow> NotFound | Some f \<Rightarrow> Found pk (unat (f ! OUT_PATH_LEN)) f)"
proof (cases "radio pk")
  case None
  then show ?thesis by (simp add: parseContactReply_def radio_answer_def RESP_CODE_ERR_def ERR_CODE_NOT_FOUND_def)
next
  case (Some f)
  then have "contact_frame pk f" using assms by (auto simp: radio_ok_def)
  then show ?thesis
    using Some by (auto simp: parseContactReply_def radio_answer_def contact_frame_def Let_def
        RESP_CODE_ERR_def RESP_CODE_CONTACT_def CONTACT_FRAME_LEN_def subarr_def)
qed

lemma apply_restore:
  assumes "contact_frame pk f"
  shows "apply_write (buildRestoreFrame f) radio = radio(pk \<mapsto> f)"
  using assms
  by (auto simp: apply_write_def buildRestoreFrame_def subarr_update contact_frame_def
      list_update_same_conv CONTACT_FRAME_LEN_def)

lemma apply_override:
  assumes "contact_frame pk f"
  shows "apply_write (buildOverrideFrame f) radio = radio(pk \<mapsto> f[OUT_PATH_LEN := 0])"
  using assms
  by (auto simp: apply_write_def buildOverrideFrame_def subarr_update contact_frame_def OUT_PATH_LEN_def
      CONTACT_FRAME_LEN_def list_update_swap [of 0 35] list_update_same_conv)


subsection \<open>Whatever happens, the contact comes back\<close>

text \<open>
  \<open>recoverable\<close>: compared with the table before, the contact is as it was, or its original
  frame is stored for the next connect; other contacts are never touched. \<open>hist_from\<close> are
  the table and storage after each effect since a state.
\<close>

definition recoverable ::
  "jstr \<Rightarrow> jstr \<Rightarrow> contact_table \<times> storage \<Rightarrow> contact_table \<times> storage \<Rightarrow> bool" where
  "recoverable self target s0 s \<longleftrightarrow>
     (fst s = fst s0 \<and> snd s \<in> {snd s0, amap_delete (restoreKey self target) (snd s0)}) \<or>
     (\<exists>f. fst s0 target = Some f \<and> fst s \<in> {fst s0, (fst s0)(target \<mapsto> f[OUT_PATH_LEN := 0])} \<and>
       snd s = amap_set (restoreKey self target) (stringify (restore_json self target f)) (snd s0))"

definition now_of :: "contact_link \<Rightarrow> contact_table \<times> storage" where
  "now_of st = (cl_radio st, cl_store st)"

definition all_along :: "(contact_table \<times> storage \<Rightarrow> bool) \<Rightarrow> contact_link \<Rightarrow> contact_link \<Rightarrow> bool" where
  "all_along P st st' \<longleftrightarrow> P (now_of st') \<and> (\<exists>h. cl_hist st' = cl_hist st @ h \<and> list_all P h)"

lemma all_along_refl: "P (now_of st) \<Longrightarrow> all_along P st st"
  by (simp add: all_along_def)

lemma all_along_trans: "all_along P a b \<Longrightarrow> all_along P b c \<Longrightarrow> all_along P a c"
  by (auto simp: all_along_def)

lemma all_along_snap: "P (now_of st') \<Longrightarrow> cl_hist st' = cl_hist st \<Longrightarrow> all_along P st (snap st')"
  by (simp add: all_along_def snap_def now_of_def)

lemma all_along_same: "P (now_of st') \<Longrightarrow> cl_hist st' = cl_hist st \<Longrightarrow> all_along P st st'"
  by (simp add: all_along_def)

lemma getContact_state: "snd (getContact w pk st) = next_io st"
  by (simp add: getContact_def)

lemma getContact_reading:
  assumes "radio_ok (cl_radio st)" "fst (getContact w pk st) = Some r"
  shows "r = (case cl_radio st pk of None \<Rightarrow> NotFound | Some f \<Rightarrow> Found pk (unat (f ! OUT_PATH_LEN)) f)"
  using assms by (auto simp: getContact_def parse_answer split: if_splits option.splits)

lemma run_ask_along:
  assumes "P (now_of st)"
  shows "all_along P st (snd (run_ask w target st))" "cl_radio (snd (run_ask w target st)) = cl_radio st"
    "cl_store (snd (run_ask w target st)) = cl_store st"
  using assms by (auto simp: run_ask_def all_along_def snap_def next_io_def now_of_def)

lemma ask_only_along:
  assumes "P (now_of st)"
  shows "all_along P st (snd (ask_only w target st))" "cl_radio (snd (ask_only w target st)) = cl_radio st"
    "cl_store (snd (ask_only w target st)) = cl_store st"
    "fst (ask_only w target st) = Some r \<Longrightarrow> r = asked_result"
  using run_ask_along [of P, OF assms, of w target]
  by (auto simp: ask_only_def case_prod_unfold split: if_splits)

lemma amap_delete_set: "amap_delete k (amap_set k v m) = amap_delete k m"
  by (induction k v m rule: amap_set.induct) (auto simp: amap_delete_def)

lemma restore_along:
  fixes self target :: jstr and radio0 :: contact_table and store0 :: storage
  defines "P \<equiv> recoverable self target (radio0, store0)"
  assumes f: "contact_frame target f" and r0: "radio0 target = Some f" and h: "honest w"
    and rad: "cl_radio st = radio0 \<or> cl_radio st = radio0(target \<mapsto> f[OUT_PATH_LEN := 0])"
    and rec: "cl_store st = amap_set (restoreKey self target) (stringify (restore_json self target f)) store0"
  shows "all_along P st (snd (restore w self target f st))"
    "fst (restore w self target f st) \<Longrightarrow> cl_radio (snd (restore w self target f st)) = radio0"
proof -
  have same: "radio0(target \<mapsto> f) = radio0" using r0 by (simp add: map_upd_triv)
  obtain ap rp where wr: "lw_write w (cl_io st) = (ap, rp)" by (cases "lw_write w (cl_io st)")
  define r1 where "r1 = (if ap then radio0 else cl_radio st)"
  define st1 where "st1 = snap (next_io (st\<lparr>cl_radio := r1\<rparr>))"
  have up: "apply_write (buildRestoreFrame f) (cl_radio st) = radio0"
    using rad same by (auto simp: apply_restore [OF f])
  have w1: "writeContact w (buildRestoreFrame f) st = (rp, st1)"
    by (simp add: writeContact_def wr up st1_def r1_def)
  have a1: "all_along P st st1"
    unfolding st1_def
    by (rule all_along_snap) (use rad rec r0 in \<open>auto simp: P_def recoverable_def now_of_def next_io_def r1_def\<close>)
  have ok: "r1 = radio0" if "rp = Some True"
    using h that wr unfolding honest_def r1_def by (metis fst_conv snd_conv)
  have "all_along P st1 (removeItem w (restoreKey self target) st1)
      \<and> cl_radio (removeItem w (restoreKey self target) st1) = radio0"
    if "rp = Some True"
    using ok [OF that] rec r0
    by (auto simp: P_def removeItem_def all_along_def snap_def next_io_def now_of_def recoverable_def
        st1_def amap_delete_set)
  then show "all_along P st (snd (restore w self target f st))"
    "fst (restore w self target f st) \<Longrightarrow> cl_radio (snd (restore w self target f st)) = radio0"
    using all_along_trans [OF a1] a1 by (auto simp: restore_def w1 split: option.splits bool.splits)
qed

definition restored_or_owed :: "dance_result option \<Rightarrow> bool" where
  "restored_or_owed out \<longleftrightarrow> (case out of None \<Rightarrow> False | Some r \<Rightarrow> dr_restored r \<noteq> Some False)"

lemma dance_along:
  assumes ok: "radio_ok (cl_radio st)" and h: "honest w"
  shows "all_along (recoverable self target (now_of st)) st (snd (dance w self target anon st))"
    "restored_or_owed (fst (dance w self target anon st)) \<Longrightarrow>
     cl_radio (snd (dance w self target anon st)) = cl_radio st"
proof -
  let ?P = "recoverable self target (now_of st)"
  obtain c st1 where g: "getContact w target st = (c, st1)" by (cases "getContact w target st")
  have st1: "st1 = next_io st" using getContact_state [of w target st] by (simp add: g)
  have s1: "cl_radio st1 = cl_radio st" "cl_store st1 = cl_store st" "cl_hist st1 = cl_hist st"
    by (simp_all add: st1 next_io_def)
  have P1: "?P (now_of st1)" by (simp add: recoverable_def now_of_def s1)
  have a1: "all_along ?P st st1" by (rule all_along_same [of ?P, OF P1 s1(3)])
  note ask1 = ask_only_along [of ?P st1 w target, OF P1]
  have simple: "all_along ?P st (snd (ask_only w target st1)) \<and> cl_radio (snd (ask_only w target st1)) = cl_radio st"
    using all_along_trans [OF a1 ask1(1)] ask1(2) s1 by simp
  have "all_along ?P st (snd (dance w self target anon st)) \<and>
    (restored_or_owed (fst (dance w self target anon st)) \<longrightarrow>
     cl_radio (snd (dance w self target anon st)) = cl_radio st)"
  proof (cases c)
    case None
    then show ?thesis using a1 s1 by (simp add: dance_def g)
  next
    case (Some r)
    note read = getContact_reading [OF ok, of w target r, unfolded g, simplified, OF Some]
    show ?thesis
    proof (cases "cl_radio st target")
      case None
      then have "r = NotFound" using read by simp
      then show ?thesis using a1 s1 simple Some by (auto simp: dance_def g)
    next
      case f: (Some f)
      then have r: "r = Found target (unat (f ! OUT_PATH_LEN)) f" using read by simp
      have cf: "contact_frame target f" using ok f by (auto simp: radio_ok_def)
      show ?thesis
      proof (cases "unat (f ! OUT_PATH_LEN) = 0")
        case True
        then show ?thesis using simple Some r by (simp add: dance_def g)
      next
        case far: False
        define key where "key = restoreKey self target"
        define val where "val = stringify (restore_json self target f)"
        show ?thesis
        proof (cases "lw_set w (cl_io st1)")
          case False
          then have "dance w self target anon st = (Some (skipped_result NotStored), next_io st1)"
            using Some r far by (simp add: dance_def g setItem_def)
          then show ?thesis
            using s1 all_along_same [of ?P "next_io st1" st] P1
            by (simp add: next_io_def now_of_def)
        next
          case True
          define st2 where "st2 = snap (next_io (st1\<lparr>cl_store := amap_set key val (cl_store st1)\<rparr>))"
          have set2: "setItem w key val st1 = (True, st2)"
            using True by (simp add: setItem_def st2_def)
          have a2: "all_along ?P st st2"
            unfolding st2_def
            by (rule all_along_snap)
               (use f in \<open>auto simp: recoverable_def now_of_def next_io_def s1 key_def val_def\<close>)
          have s2: "cl_radio st2 = cl_radio st" "cl_store st2 = amap_set key val (cl_store st)"
            by (simp_all add: st2_def snap_def next_io_def s1)
          obtain ap rp where wr: "lw_write w (cl_io st2) = (ap, rp)" by (cases "lw_write w (cl_io st2)")
          define r3 where "r3 = (if ap then (cl_radio st)(target \<mapsto> f[OUT_PATH_LEN := 0]) else cl_radio st)"
          define st3 where "st3 = snap (next_io (st2\<lparr>cl_radio := r3\<rparr>))"
          have w3: "writeContact w (buildOverrideFrame f) st2 = (rp, st3)"
            by (simp add: writeContact_def wr st3_def r3_def apply_override [OF cf] s2)
          have s3: "cl_radio st3 = r3" "cl_store st3 = amap_set key val (cl_store st)"
            by (simp_all add: st3_def snap_def next_io_def s2)
          have P3: "?P (now_of st3)"
            using s3 f by (auto simp: recoverable_def now_of_def r3_def key_def val_def)
          have "?P (now_of (next_io (st2\<lparr>cl_radio := r3\<rparr>)))"
            using P3 by (simp add: st3_def snap_def now_of_def)
          then have a23: "all_along ?P st2 st3"
            unfolding st3_def by (rule all_along_snap) (simp add: next_io_def)
          note a3 = all_along_trans [OF a2 a23]
          obtain out st4 where o4: "(case (rp, st3) of (Some True, st) \<Rightarrow> ask_only w target st
              | (_, st) \<Rightarrow> (Some (skipped_result NotAcked), st)) = (out, st4)"
            by (cases "(case (rp, st3) of (Some True, st) \<Rightarrow> ask_only w target st
              | (_, st) \<Rightarrow> (Some (skipped_result NotAcked), st))")
          have s4: "all_along ?P st3 st4 \<and> cl_radio st4 = r3 \<and> cl_store st4 = amap_set key val (cl_store st)"
            using o4 ask_only_along [of ?P st3 w target, OF P3] s3 all_along_refl [of ?P st3, OF P3]
            by (auto split: option.splits bool.splits)
          note a4 = all_along_trans [OF a3 s4 [THEN conjunct1]]
          have d: "dance w self target anon st =
            (map_option (\<lambda>o'. o'\<lparr>dr_restored := Some (fst (restore w self target f st4))\<rparr>) out,
             snd (restore w self target f st4))"
            using o4 Some r far
            by (simp add: dance_def g set2 [unfolded key_def val_def] w3 case_prod_unfold Let_def)
          have "cl_radio st4 = cl_radio st \<or> cl_radio st4 = (cl_radio st)(target \<mapsto> f[OUT_PATH_LEN := 0])"
            using s4 by (auto simp: r3_def)
          note ra = restore_along [of target f "cl_radio st" w st4 self "cl_store st", OF cf f h this,
              folded key_def val_def now_of_def]
          show ?thesis
            unfolding d using ra s4 all_along_trans [OF a4]
            by (auto simp: restored_or_owed_def split: option.splits)
        qed
      qed
    qed
  qed
  then show "all_along ?P st (snd (dance w self target anon st))"
    "restored_or_owed (fst (dance w self target anon st)) \<Longrightarrow>
     cl_radio (snd (dance w self target anon st)) = cl_radio st"
    by auto
qed


subsection \<open>No ask goes by a stored path\<close>

lemma asks_unchanged [simp]:
  "cl_asks (snd (getContact w pk st)) = cl_asks st"
  "cl_asks (snd (writeContact w fr st)) = cl_asks st"
  "cl_asks (snd (setItem w k v st)) = cl_asks st"
  "cl_asks (removeItem w k st) = cl_asks st"
  by (simp_all add: getContact_def writeContact_def setItem_def removeItem_def snap_def next_io_def
      Let_def case_prod_unfold)

lemma asks_restore [simp]: "cl_asks (snd (restore w self target f st)) = cl_asks st"
proof -
  obtain rp st1 where w: "writeContact w (buildRestoreFrame f) st = (rp, st1)"
    by (cases "writeContact w (buildRestoreFrame f) st")
  have "cl_asks st1 = cl_asks st" using asks_unchanged(2) [of w "buildRestoreFrame f" st] by (simp add: w)
  then show ?thesis by (auto simp: restore_def w split: option.splits bool.splits)
qed

lemma asks_ask_only [simp]:
  "cl_asks (snd (ask_only w target st)) = cl_asks st @ [(target, cl_radio st target)]"
  by (simp add: ask_only_def run_ask_def snap_def next_io_def)

definition ask_fits :: "bool \<Rightarrow> jstr \<Rightarrow> jstr \<times> bytes option \<Rightarrow> bool" where
  "ask_fits anon target a \<longleftrightarrow> fst a = target \<and>
     (case snd a of None \<Rightarrow> anon | Some f \<Rightarrow> zero_hop f)"

lemma dance_asks:
  assumes ok: "radio_ok (cl_radio st)" and h: "honest w"
  shows "\<exists>new. cl_asks (snd (dance w self target anon st)) = cl_asks st @ new \<and> length new \<le> 1
    \<and> list_all (ask_fits anon target) new"
proof -
  obtain c st1 where g: "getContact w target st = (c, st1)" by (cases "getContact w target st")
  have st1: "st1 = next_io st" using getContact_state [of w target st] by (simp add: g)
  have s1: "cl_radio st1 = cl_radio st" "cl_asks st1 = cl_asks st" by (simp_all add: st1 next_io_def)
  show ?thesis
  proof (cases c)
    case None
    then show ?thesis using s1 by (simp add: dance_def g)
  next
    case (Some r)
    note read = getContact_reading [OF ok, of w target r, unfolded g, simplified, OF Some]
    show ?thesis
    proof (cases "cl_radio st target")
      case None
      then show ?thesis using read s1 Some by (auto simp: dance_def g ask_fits_def)
    next
      case f: (Some f)
      then have r: "r = Found target (unat (f ! OUT_PATH_LEN)) f" using read by simp
      have cf: "contact_frame target f" using ok f by (auto simp: radio_ok_def)
      show ?thesis
      proof (cases "unat (f ! OUT_PATH_LEN) = 0")
        case True
        then have "zero_hop f" by (simp add: zero_hop_def unat_eq_zero)
        then show ?thesis using Some r True s1 f by (simp add: dance_def g ask_fits_def)
      next
        case far: False
        define key val where "key = restoreKey self target" and "val = stringify (restore_json self target f)"
        obtain b st2 where s2: "setItem w key val st1 = (b, st2)" by (cases "setItem w key val st1")
        have a2: "cl_asks st2 = cl_asks st" using asks_unchanged(3) [of w key val st1] s1 by (simp add: s2)
        obtain rp st3 where w3: "writeContact w (buildOverrideFrame f) st2 = (rp, st3)"
          by (cases "writeContact w (buildOverrideFrame f) st2")
        have a3: "cl_asks st3 = cl_asks st"
          using asks_unchanged(2) [of w "buildOverrideFrame f" st2] a2 by (simp add: w3)
        have z: "cl_radio st3 target = Some (f[OUT_PATH_LEN := 0])" if "rp = Some True"
        proof -
          obtain ap where lw: "lw_write w (cl_io st2) = (ap, rp)"
            using w3 by (auto simp: writeContact_def Let_def case_prod_unfold) (metis prod.collapse)
          then have "ap" using h that unfolding honest_def by (metis fst_conv snd_conv)
          then show ?thesis
            using w3 lw by (auto simp: writeContact_def Let_def snap_def next_io_def apply_override [OF cf])
        qed
        have zf: "zero_hop (f[OUT_PATH_LEN := 0])"
          using cf by (simp add: zero_hop_def contact_frame_def OUT_PATH_LEN_def CONTACT_FRAME_LEN_def)
        obtain out st4 where o4: "(case (rp, st3) of (Some True, st) \<Rightarrow> ask_only w target st
            | (_, st) \<Rightarrow> (Some (skipped_result NotAcked), st)) = (out, st4)"
          by (cases "(case (rp, st3) of (Some True, st) \<Rightarrow> ask_only w target st
            | (_, st) \<Rightarrow> (Some (skipped_result NotAcked), st))")
        have a4: "\<exists>new. cl_asks st4 = cl_asks st @ new \<and> length new \<le> 1 \<and> list_all (ask_fits anon target) new"
        proof (cases "rp = Some True")
          case True
          then have "cl_asks st4 = cl_asks st @ [(target, Some (f[OUT_PATH_LEN := 0]))]"
            using o4 asks_ask_only [of w target st3] a3 z by simp
          then show ?thesis using zf by (simp add: ask_fits_def)
        next
          case False
          then have "st4 = st3" using o4 by (auto split: option.splits bool.splits)
          then show ?thesis using a3 by simp
        qed
        have "b \<Longrightarrow> snd (dance w self target anon st) = snd (restore w self target f st4)"
          "\<not> b \<Longrightarrow> snd (dance w self target anon st) = st2"
          using o4 Some r far s2 [unfolded key_def val_def]
          by (simp_all add: dance_def g w3 case_prod_unfold Let_def)
        then show ?thesis using a4 a2 by (cases b) auto
      qed
    qed
  qed
qed

subsection \<open>What the next connect puts back\<close>

definition own_records :: "jstr \<Rightarrow> storage \<Rightarrow> restore_record list" where
  "own_records self entries =
     filter (\<lambda>r. rs_self r = lower self) (List.map_filter (\<lambda>(k, v). decodeRecord v) entries)"

definition put_back :: "restore_record list \<Rightarrow> contact_table \<Rightarrow> contact_table" where
  "put_back recs radio = fold (\<lambda>r t. t(rs_target r \<mapsto> rs_raw r)) recs radio"

lemma put_back_Cons: "put_back (r # rs) radio = put_back rs (radio(rs_target r \<mapsto> rs_raw r))"
  by (simp add: put_back_def)

lemma removeItem_radio [simp]: "cl_radio (removeItem w k st) = cl_radio st"
  by (simp add: removeItem_def snap_def next_io_def)

lemma restore_radio:
  assumes "contact_frame target f" "honest w" "fst (restore w self target f st)"
  shows "cl_radio (snd (restore w self target f st)) = (cl_radio st)(target \<mapsto> f)"
proof -
  obtain ap rp where lw: "lw_write w (cl_io st) = (ap, rp)" by (cases "lw_write w (cl_io st)")
  have rp: "rp = Some True"
    using assms(3) by (auto simp: restore_def writeContact_def lw split: option.splits bool.splits)
  then have "ap" using assms(2) lw unfolding honest_def by (metis fst_conv snd_conv)
  then show ?thesis
    by (simp add: restore_def writeContact_def lw rp apply_restore [OF assms(1)] snap_def next_io_def Let_def)
qed

lemma replay_loop_all:
  assumes "honest w" "\<forall>r \<in> set (own_records self entries). contact_frame (rs_target r) (rs_raw r)"
    "fst (replay_loop w self entries owed acked st) \<noteq> Some False"
    "owed \<longrightarrow> acked"
  shows "cl_radio (snd (replay_loop w self entries owed acked st))
    = put_back (own_records self entries) (cl_radio st)"
  using assms(2-)
proof (induction entries arbitrary: owed acked st)
  case Nil
  then show ?case by (simp add: own_records_def put_back_def map_filter_def)
next
  case (Cons e entries)
  obtain key val where e: "e = (key, val)" by (cases e)
  show ?case
  proof (cases "decodeRecord val")
    case None
    then have o: "own_records self (e # entries) = own_records self entries"
      by (simp add: own_records_def e map_filter_simps)
    show ?thesis
      using Cons.IH [of owed acked "removeItem w key st"] Cons.prems None by (simp add: o) (simp add: e)
  next
    case (Some rec)
    show ?thesis
    proof (cases "rs_self rec = lower self")
      case False
      then have o: "own_records self (e # entries) = own_records self entries"
        using Some by (simp add: own_records_def e map_filter_simps)
      show ?thesis using Cons.IH [of owed acked st] Cons.prems False Some by (simp add: o) (simp add: e)
    next
      case True
      then have o: "own_records self (e # entries) = rec # own_records self entries"
        using Some by (simp add: own_records_def e map_filter_simps)
      obtain ok st1 where r: "restore w (rs_self rec) (rs_target rec) (rs_raw rec) st = (ok, st1)"
        by (cases "restore w (rs_self rec) (rs_target rec) (rs_raw rec) st")
      have go: "replay_loop w self (e # entries) owed acked st =
          replay_loop w self entries True (acked \<and> ok) st1"
        using True Some r by (simp add: e)
      have "fst (replay_loop w self es True False st) = Some False" for es st
        by (induction es arbitrary: st)
           (auto simp: Let_def case_prod_unfold split: option.splits)
      then have "acked \<and> ok" using Cons.prems(2) unfolding go by (cases "acked \<and> ok") simp_all
      then have ok: "acked" "ok" by auto
      have cf: "contact_frame (rs_target rec) (rs_raw rec)" using Cons.prems(1) by (simp add: o)
      have rad: "cl_radio st1 = (cl_radio st)(rs_target rec \<mapsto> rs_raw rec)"
        using restore_radio [OF cf assms(1), of "rs_self rec" st] ok by (simp add: r)
      have "cl_radio (snd (replay_loop w self entries True (acked \<and> ok) st1))
          = put_back (own_records self entries) (cl_radio st1)"
      proof (rule Cons.IH)
        show "fst (replay_loop w self entries True (acked \<and> ok) st1) \<noteq> Some False"
          using Cons.prems(2) unfolding go .
      qed (use Cons.prems(1) ok in \<open>auto simp: o\<close>)
      then show ?thesis unfolding go o put_back_Cons rad by simp
    qed
  qed
qed

lemma entries_after:
  "filter (\<lambda>(k, _). startsWith k RESTORE_PREFIX) m = [] \<Longrightarrow> startsWith key RESTORE_PREFIX \<Longrightarrow>
   filter (\<lambda>(k, _). startsWith k RESTORE_PREFIX) (amap_set key v m) = [(key, v)]"
  by (induction key v m rule: amap_set.induct) (auto split: if_splits)

lemma restoreKey_prefix: "startsWith (restoreKey self target) RESTORE_PREFIX"
  by (simp add: restoreKey_def startsWith_def)

text \<open>A page that dies anywhere in a dance, and a later connect whose restores all ack.\<close>

lemma crash_recovers:
  assumes ok: "radio_ok (cl_radio st)" and h: "honest w" "honest w'"
    and keys: "is_pubkey self" "is_pubkey target"
    and none: "filter (\<lambda>(k, _). startsWith k RESTORE_PREFIX) (cl_store st) = []"
    and s: "recoverable self target (now_of st) (cl_radio st', cl_store st')"
    and acked: "fst (replayPendingRestores w' self st') \<noteq> Some False"
  shows "cl_radio (snd (replayPendingRestores w' self st')) = cl_radio st"
proof -
  define entries where "entries = filter (\<lambda>(k, _). startsWith k RESTORE_PREFIX) (cl_store st')"
  have all: "cl_radio (snd (replayPendingRestores w' self st')) = put_back (own_records self entries) (cl_radio st')"
    if "\<forall>r \<in> set (own_records self entries). contact_frame (rs_target r) (rs_raw r)"
    using replay_loop_all [OF h(2) that, of False True st'] acked
    by (simp add: replayPendingRestores_def entries_def)
  from s consider (same) "cl_radio st' = cl_radio st"
      "cl_store st' = cl_store st \<or> cl_store st' = amap_delete (restoreKey self target) (cl_store st)"
    | (stored) f where "cl_radio st target = Some f"
      "cl_radio st' \<in> {cl_radio st, (cl_radio st)(target \<mapsto> f[OUT_PATH_LEN := 0])}"
      "cl_store st' = amap_set (restoreKey self target) (stringify (restore_json self target f)) (cl_store st)"
    by (auto simp: recoverable_def now_of_def)
  then show ?thesis
  proof cases
    case same
    have "filter (\<lambda>(k, _). startsWith k RESTORE_PREFIX) (amap_delete key (cl_store st)) = []" for key
      using none by (auto simp: filter_empty_conv amap_delete_def)
    then have "entries = []" using same(2) none by (auto simp: entries_def)
    then have "own_records self entries = []" by (simp add: own_records_def map_filter_def)
    then show ?thesis using all same(1) by (simp add: put_back_def)
  next
    case stored
    have e: "entries = [(restoreKey self target, stringify (restore_json self target f))]"
      unfolding entries_def stored(3) by (rule entries_after [OF none restoreKey_prefix])
    have cf: "contact_frame target f" using ok stored(1) by (auto simp: radio_ok_def)
    then have "length f = CONTACT_FRAME_LEN" by (simp add: contact_frame_def)
    from decodeRecord_stored [OF this keys]
    have o: "own_records self entries = [\<lparr>rs_self = self, rs_target = target, rs_raw = f\<rparr>]"
      using keys by (simp add: own_records_def e map_filter_simps)
    have "(cl_radio st)(target \<mapsto> f) = cl_radio st" using stored(1) by (simp add: map_upd_triv)
    then show ?thesis using all stored(2) cf by (auto simp: o put_back_def)
  qed
qed

subsection \<open>Properties\<close>

lemma replay_acked:
  assumes "\<forall>n. lw_write w n = (True, Some True)"
  shows "acked \<Longrightarrow> fst (replay_loop w self entries owed acked st) \<noteq> Some False"
proof (induction entries arbitrary: owed st)
  case (Cons e entries)
  have "fst (restore w s t raw st)" for s t raw st
    using assms by (simp add: restore_def writeContact_def Let_def)
  then show ?case
    using Cons by (cases e) (simp add: Let_def case_prod_unfold split: option.split)
qed simp


definition sample_contact :: bytes where
  "sample_contact = 3 # replicate 34 0 @ 2 # replicate 112 0"

definition sample_key :: jstr where
  "sample_key = bytesToHex (subarr 1 33 sample_contact)"

definition sample_link :: contact_link where
  "sample_link = \<lparr>cl_radio = [sample_key \<mapsto> sample_contact], cl_store = [], cl_io = 0, cl_asks = [],
     cl_hist = []\<rparr>"

definition willing :: link_world where
  "willing = \<lparr>lw_read = (\<lambda>_. True), lw_write = (\<lambda>_. (True, Some True)), lw_set = (\<lambda>_. True),
     lw_remove = (\<lambda>_. True), lw_ask = (\<lambda>_. True)\<rparr>"

lemma sample_link_ok:
  "radio_ok (cl_radio sample_link)" "honest willing" "is_pubkey sample_key"
proof -
  have "length sample_contact = 148" "sample_contact ! 0 = 3" by (simp_all add: sample_contact_def)
  then show "radio_ok (cl_radio sample_link)"
    by (auto simp: radio_ok_def sample_link_def contact_frame_def CONTACT_FRAME_LEN_def
        RESP_CODE_CONTACT_def sample_key_def)
  show "is_pubkey sample_key" unfolding sample_key_def
    by (rule bytesToHex_pubkey) (simp add: sample_contact_def subarr_def)
qed (simp add: honest_def willing_def)


text \<open>C11: an ask never goes by a stored path. A dance makes at most one ask, of its target, and the
  contact the radio holds for it at that moment is zero-hop (or absent, for an anonymous ask,
  which the radio sends zero-hop itself); and unless it reports that the restore failed, or the
  ask threw, the contact table is as before.\<close>

theorem ask_goes_zero_hop:
  assumes "radio_ok (cl_radio st)" "honest w"
  shows "\<exists>new. cl_asks (snd (dance w self target anon st)) = cl_asks st @ new \<and> length new \<le> 1
      \<and> (\<forall>(t, contact) \<in> set new. t = target
          \<and> (case contact of None \<Rightarrow> anon | Some f \<Rightarrow> f ! OUT_PATH_LEN = 0))
    \<and> (fst (dance w self target anon st) \<noteq> None
        \<and> dr_restored (the (fst (dance w self target anon st))) \<noteq> Some False
      \<longrightarrow> cl_radio (snd (dance w self target anon st)) = cl_radio st)"
proof -
  obtain new where "cl_asks (snd (dance w self target anon st)) = cl_asks st @ new" "length new \<le> 1"
    "list_all (ask_fits anon target) new"
    using dance_asks [OF assms] by blast
  then show ?thesis
    using dance_along(2) [OF assms, of self target anon]
    by (intro exI [of _ new])
       (auto simp: list_all_iff ask_fits_def zero_hop_def restored_or_owed_def split: option.splits)
qed

theorem ask_goes_zero_hop_witness:
  "\<exists>new. cl_asks (snd (dance willing sample_key sample_key False sample_link)) = [] @ new \<and> length new \<le> 1
    \<and> (\<forall>(t, contact) \<in> set new. t = sample_key \<and> (\<exists>f. contact = Some f \<and> f ! OUT_PATH_LEN = 0))"
proof -
  have "cl_asks sample_link = []" by (simp add: sample_link_def)
  then show ?thesis
    using ask_goes_zero_hop [OF sample_link_ok(1,2), of sample_key sample_key False]
    by (fastforce split: option.splits)
qed

end
