(* ===== verification/Capture.thy ===== *)
theory Capture
  imports Queue Airtime
begin

section \<open>A drive (wardrive/capture.ts, driveId.ts, useDrive.ts; trail.ts, speed.ts)\<close>

text \<open>
  What a drive keeps: every reception goes through \<open>capture\<close>, is stored only with a usable
  fix, and lands in the queue under the drive's id; every second the track window may cut a
  listening interval. \<open>drive\<close> is the session of \<^verbatim>\<open>useDrive\<close> with its queue; the hook's
  React state and timers are its events.
\<close>

definition MAX_ACCURACY_M :: real where "MAX_ACCURACY_M = 100"
definition MAX_FIX_AGE_MS :: int where "MAX_FIX_AGE_MS = 10000"
definition TRACK_INTERVAL_MS :: int where "TRACK_INTERVAL_MS = 10000"
definition TRACK_DISTANCE_M :: real where "TRACK_DISTANCE_M = 25"

definition isUsableFix :: "fix_rec option \<Rightarrow> int \<Rightarrow> bool" where
  "isUsableFix fix nowMs =
     (case fix of
        None \<Rightarrow> False
      | Some f \<Rightarrow>
          (case (f_lat f, f_lon f) of
             (Fin la, Fin lo) \<Rightarrow>
               if \<bar>la\<bar> > 90 \<or> \<bar>lo\<bar> > 180 then False
               else if nowMs - f_at f > MAX_FIX_AGE_MS then False
               else (case f_accM f of
                       None \<Rightarrow> True
                     | Some (Fin a) \<Rightarrow> a \<ge> 0 \<and> a \<le> MAX_ACCURACY_M
                     | Some _ \<Rightarrow> False)
           | _ \<Rightarrow> False))"

definition fix_pos :: "fix_rec \<Rightarrow> real \<times> real" where
  "fix_pos f = (fin_val (f_lat f), fin_val (f_lon f))"

subsection \<open>Receptions\<close>

record radio_reception =
  rr_snr :: "jsnum option"
  rr_rssi :: "jsnum option"
  rr_raw :: bytes

record capture_counts =
  cc_heard :: nat
  cc_stored :: nat
  cc_noPosition :: nat

definition no_counts :: capture_counts where
  "no_counts = \<lparr>cc_heard = 0, cc_stored = 0, cc_noPosition = 0\<rparr>"

definition onReception ::
  "radio_reception \<Rightarrow> fix_rec option \<Rightarrow> int \<Rightarrow> capture_counts \<Rightarrow> reception_rec option \<times> capture_counts" where
  "onReception r fix nowMs c =
     (let c = c\<lparr>cc_heard := cc_heard c + 1\<rparr> in
      case fix of
        Some f \<Rightarrow>
          if isUsableFix fix nowMs
          then (Some \<lparr>rc_rxAt = nowMs, rc_raw = rr_raw r, rc_snr = rr_snr r, rc_rssi = rr_rssi r,
                      rc_fix = f\<rparr>, c\<lparr>cc_stored := cc_stored c + 1\<rparr>)
          else (None, c\<lparr>cc_noPosition := cc_noPosition c + 1\<rparr>)
      | None \<Rightarrow> (None, c\<lparr>cc_noPosition := cc_noPosition c + 1\<rparr>))"

subsection \<open>The track window\<close>

record track_window =
  tw_startMs :: "int option"
  tw_startPos :: "(real \<times> real) option"
  tw_rxCount :: nat

definition newTrackWindow :: track_window where
  "newTrackWindow = \<lparr>tw_startMs = None, tw_startPos = None, tw_rxCount = 0\<rparr>"

definition tw_heard :: "track_window \<Rightarrow> track_window" where
  "tw_heard w = w\<lparr>tw_rxCount := tw_rxCount w + 1\<rparr>"

definition tw_cut :: "int \<Rightarrow> int \<Rightarrow> fix_rec \<Rightarrow> bool \<Rightarrow> track_window \<Rightarrow> track_row \<times> track_window" where
  "tw_cut startMs nowMs fix listening w =
     (\<lparr>tr_t0 = startMs, tr_t1 = nowMs, tr_lat = f_lat fix, tr_lon = f_lon fix, tr_accM = f_accM fix,
       tr_rxCount = tw_rxCount w, tr_listening = listening\<rparr>,
      w\<lparr>tw_startMs := Some nowMs, tw_startPos := Some (fix_pos fix), tw_rxCount := 0\<rparr>)"

definition tw_tick :: "int \<Rightarrow> fix_rec option \<Rightarrow> track_window \<Rightarrow> track_row option \<times> track_window" where
  "tw_tick nowMs fix w =
     (case fix of
        None \<Rightarrow> (None, w)
      | Some f \<Rightarrow>
          if \<not> isUsableFix fix nowMs then (None, w)
          else case (tw_startMs w, tw_startPos w) of
            (Some t, Some p) \<Rightarrow>
              if nowMs - t \<ge> TRACK_INTERVAL_MS \<or> haversineM p (fix_pos f) \<ge> TRACK_DISTANCE_M
              then (let (row, w) = tw_cut t nowMs f True w in (Some row, w))
              else (None, w)
          | _ \<Rightarrow> (None, w\<lparr>tw_startMs := Some nowMs, tw_startPos := Some (fix_pos f)\<rparr>))"

definition tw_close :: "int \<Rightarrow> fix_rec option \<Rightarrow> track_window \<Rightarrow> track_row option \<times> track_window" where
  "tw_close nowMs fix w =
     (let row = (case (tw_startMs w, fix) of
            (Some t, Some f) \<Rightarrow> if isUsableFix fix nowMs then Some (fst (tw_cut t nowMs f False w)) else None
          | _ \<Rightarrow> None)
      in (row, newTrackWindow))"

subsection \<open>Drive ids (driveId.ts)\<close>

text \<open>\<open>mk n\<close> is the \<open>n\<close>-th id \<^verbatim>\<open>newDriveUid\<close> gives.\<close>

record drive_ids =
  di_uid :: "jstr option"
  di_lastMs :: int
  di_made :: nat

definition newDriveIds :: drive_ids where
  "newDriveIds = \<lparr>di_uid = None, di_lastMs = 0, di_made = 0\<rparr>"

definition DRIVE_GAP_MS :: int where "DRIVE_GAP_MS = 600000"

definition di_current :: "(nat \<Rightarrow> jstr) \<Rightarrow> int \<Rightarrow> drive_ids \<Rightarrow> jstr \<times> drive_ids" where
  "di_current mk nowMs d =
     (case di_uid d of
        Some u \<Rightarrow>
          if nowMs - di_lastMs d > DRIVE_GAP_MS
          then (mk (di_made d), d\<lparr>di_uid := Some (mk (di_made d)), di_lastMs := nowMs, di_made := di_made d + 1\<rparr>)
          else (u, d\<lparr>di_lastMs := nowMs\<rparr>)
      | None \<Rightarrow>
          (mk (di_made d), d\<lparr>di_uid := Some (mk (di_made d)), di_lastMs := nowMs, di_made := di_made d + 1\<rparr>))"

text \<open>The random UUID made from 16 random bytes where \<^verbatim>\<open>randomUUID\<close> is missing.\<close>

definition uuid_of_bytes :: "bytes \<Rightarrow> jstr" where
  "uuid_of_bytes rnd =
     (let b = rnd[6 := (rnd ! 6 AND 0x0f) OR 0x40, 8 := (rnd ! 8 AND 0x3f) OR 0x80];
          hex = bytesToHex b;
          dash = str ''-''
      in subarr 0 8 hex @ dash @ subarr 8 12 hex @ dash @ subarr 12 16 hex @ dash
         @ subarr 16 20 hex @ dash @ drop 20 hex)"

subsection \<open>The session (useDrive.ts)\<close>

record drive =
  dv_running :: bool
  dv_counts :: capture_counts
  dv_window :: track_window
  dv_ids :: drive_ids
  dv_radioKey :: jstr
  dv_queue :: queue

definition drive_start :: "jstr \<Rightarrow> int \<Rightarrow> fix_rec option \<Rightarrow> drive \<Rightarrow> drive" where
  "drive_start radioKey now fix d =
     (if dv_running d then d
      else d\<lparr>dv_running := True, dv_counts := no_counts,
             dv_window := snd (tw_tick now fix newTrackWindow), dv_ids := newDriveIds,
             dv_radioKey := radioKey\<rparr>)"

definition drive_hear ::
  "(bytes \<Rightarrow> bytes) \<Rightarrow> (nat \<Rightarrow> jstr) \<Rightarrow> radio_reception \<Rightarrow> int \<Rightarrow> fix_rec option \<Rightarrow> drive \<Rightarrow> drive" where
  "drive_hear sha mk r now fix d =
     (if \<not> dv_running d then d
      else
        let d = d\<lparr>dv_window := tw_heard (dv_window d)\<rparr>;
            (rec, counts) = onReception r fix now (dv_counts d);
            d = d\<lparr>dv_counts := counts\<rparr>
        in case rec of
             None \<Rightarrow> d
           | Some rc \<Rightarrow>
               (let (driveId, ids) = di_current mk now (dv_ids d);
                    d = d\<lparr>dv_ids := ids\<rparr>
                in case buildObs sha rc (dv_radioKey d) None of
                     None \<Rightarrow> d
                   | Some obs \<Rightarrow>
                       d\<lparr>dv_queue := snd (addObs (dv_radioKey d) obs now (Some driveId) (dv_queue d))\<rparr>))"

definition add_track :: "(nat \<Rightarrow> jstr) \<Rightarrow> int \<Rightarrow> track_row option \<Rightarrow> drive \<Rightarrow> drive" where
  "add_track mk now row d =
     (case row of
        None \<Rightarrow> d
      | Some r \<Rightarrow>
          let (driveId, ids) = di_current mk now (dv_ids d)
          in d\<lparr>dv_ids := ids,
               dv_queue := snd (addTrack (dv_radioKey d) (buildTrack r (dv_radioKey d)) now
                 (Some driveId) (dv_queue d))\<rparr>)"

definition drive_second :: "(nat \<Rightarrow> jstr) \<Rightarrow> int \<Rightarrow> fix_rec option \<Rightarrow> drive \<Rightarrow> drive" where
  "drive_second mk now fix d =
     (if \<not> dv_running d then d
      else
        let (row, w) = tw_tick now fix (dv_window d)
        in add_track mk now row (d\<lparr>dv_window := w\<rparr>))"

definition drive_stop :: "(nat \<Rightarrow> jstr) \<Rightarrow> int \<Rightarrow> fix_rec option \<Rightarrow> drive \<Rightarrow> drive" where
  "drive_stop mk now fix d =
     (if \<not> dv_running d then d
      else
        let (row, w) = tw_close now fix (dv_window d)
        in (add_track mk now row (d\<lparr>dv_window := w\<rparr>))\<lparr>dv_running := False\<rparr>)"

subsection \<open>The trail and the speed (trail.ts, speed.ts)\<close>

definition MIN_STEP_M :: real where "MIN_STEP_M = 5"

definition trail_push :: "fix_rec \<Rightarrow> (real \<times> real) list \<Rightarrow> bool \<times> (real \<times> real) list" where
  "trail_push fix pts =
     (if pts \<noteq> [] \<and> haversineM (snd (last pts), fst (last pts)) (fix_pos fix) < MIN_STEP_M then (False, pts)
      else (True, pts @ [(fin_val (f_lon fix), fin_val (f_lat fix))]))"

definition MAX_AGE_MS :: int where "MAX_AGE_MS = 10000"
definition MIN_SPAN_MS :: int where "MIN_SPAN_MS = 2000"

record speed_tracker =
  sp_last :: "fix_rec option"
  sp_derived :: "real option"
  sp_latest :: "fix_rec option"

definition newSpeedTracker :: speed_tracker where
  "newSpeedTracker = \<lparr>sp_last = None, sp_derived = None, sp_latest = None\<rparr>"

definition speed_push :: "fix_rec \<Rightarrow> speed_tracker \<Rightarrow> speed_tracker" where
  "speed_push fix s =
     (let s = (case sp_last s of
          Some l \<Rightarrow>
            if f_at fix - f_at l \<ge> MIN_SPAN_MS
            then s\<lparr>sp_derived := Some (haversineM (fix_pos l) (fix_pos fix) / (of_int (f_at fix - f_at l) / 1000)),
                   sp_last := Some fix\<rparr>
            else s
        | None \<Rightarrow> s\<lparr>sp_last := Some fix, sp_derived := None\<rparr>)
      in s\<lparr>sp_latest := Some fix\<rparr>)"

definition speedMps :: "int \<Rightarrow> speed_tracker \<Rightarrow> real option" where
  "speedMps nowMs s =
     (case sp_latest s of
        None \<Rightarrow> None
      | Some f \<Rightarrow>
          if nowMs - f_at f > MAX_AGE_MS then None
          else (case f_speedMps f of Some (Fin v) \<Rightarrow> Some v | _ \<Rightarrow> sp_derived s))"

subsection \<open>Receptions are counted and stored only with a fix\<close>

lemma usable_fix_bounds:
  assumes "isUsableFix (Some f) nowMs"
  shows "\<exists>la lo. f_lat f = Fin la \<and> f_lon f = Fin lo \<and> \<bar>la\<bar> \<le> 90 \<and> \<bar>lo\<bar> \<le> 180
    \<and> nowMs - f_at f \<le> MAX_FIX_AGE_MS
    \<and> (\<forall>a. f_accM f = Some a \<longrightarrow> (\<exists>x. a = Fin x \<and> 0 \<le> x \<and> x \<le> MAX_ACCURACY_M))"
  using assms by (auto simp: isUsableFix_def split: jsnum.splits if_splits option.splits)

lemma onReception_cases:
  "isUsableFix fix now \<Longrightarrow> \<exists>f. fix = Some f \<and> onReception r fix now c =
     (Some \<lparr>rc_rxAt = now, rc_raw = rr_raw r, rc_snr = rr_snr r, rc_rssi = rr_rssi r, rc_fix = f\<rparr>,
      c\<lparr>cc_heard := cc_heard c + 1, cc_stored := cc_stored c + 1\<rparr>)"
  "\<not> isUsableFix fix now \<Longrightarrow> onReception r fix now c =
     (None, c\<lparr>cc_heard := cc_heard c + 1, cc_noPosition := cc_noPosition c + 1\<rparr>)"
  by (cases "fix"; simp add: onReception_def Let_def isUsableFix_def)+

definition counts_ok :: "capture_counts \<Rightarrow> bool" where
  "counts_ok c \<longleftrightarrow> cc_heard c = cc_stored c + cc_noPosition c"

lemma onReception_counts: "counts_ok c \<Longrightarrow> counts_ok (snd (onReception r fix now c))"
  by (cases "isUsableFix fix now") (auto dest: onReception_cases(1) [of _ _ r c] simp: onReception_cases(2) counts_ok_def)

subsection \<open>Runs of a drive\<close>

datatype drive_event = Hear radio_reception int "fix_rec option" | Second int "fix_rec option"

fun drive_step :: "(bytes \<Rightarrow> bytes) \<Rightarrow> (nat \<Rightarrow> jstr) \<Rightarrow> drive_event \<Rightarrow> drive \<Rightarrow> drive" where
  "drive_step sha mk (Hear r now fix) d = drive_hear sha mk r now fix d"
| "drive_step sha mk (Second now fix) d = drive_second mk now fix d"

definition drive_run :: "(bytes \<Rightarrow> bytes) \<Rightarrow> (nat \<Rightarrow> jstr) \<Rightarrow> drive_event list \<Rightarrow> drive \<Rightarrow> drive" where
  "drive_run sha mk evs d = fold (drive_step sha mk) evs d"

fun row_track :: "stored_row \<Rightarrow> track_message option" where
  "row_track r = (case sr_message r of QTrack t \<Rightarrow> Some t | QObs _ \<Rightarrow> None)"

definition tracks_of :: "queue \<Rightarrow> track_message list" where
  "tracks_of q = List.map_filter row_track (q_tracks q)"

text \<open>
  Since the drive's start (queue \<open>q0\<close>): the tracks added join without gaps from the first
  to the open window, each long or far enough, and together with the open window they carry
  every reception heard.
\<close>

fun joined :: "track_message list \<Rightarrow> bool" where
  "joined (a # b # rest) = (tm_t1 a = tm_t0 b \<and> joined (b # rest))"
| "joined _ = True"

lemma joined_snoc: "joined ts \<Longrightarrow> (ts \<noteq> [] \<Longrightarrow> tm_t1 (last ts) = tm_t0 t) \<Longrightarrow> joined (ts @ [t])"
  by (induction ts rule: joined.induct) auto

definition drive_inv :: "queue \<Rightarrow> drive \<Rightarrow> bool" where
  "drive_inv q0 d \<longleftrightarrow> counts_ok (dv_counts d) \<and>
     (\<exists>new. tracks_of (dv_queue d) = tracks_of q0 @ new \<and> joined new \<and>
        list_all tm_listening new \<and>
        (new \<noteq> [] \<longrightarrow> tw_startMs (dv_window d) = Some (tm_t1 (last new))) \<and>
        sum_list (map tm_rx_count new) + tw_rxCount (dv_window d) = cc_heard (dv_counts d)) \<and>
     (tw_startMs (dv_window d) = None \<longleftrightarrow> tw_startPos (dv_window d) = None)"

lemma tracks_of_add_obs [simp]: "tracks_of (snd (addObs k ob now dr q)) = tracks_of q"
  by (simp add: tracks_of_def addObs_def queue_add_def Let_def)

lemma tracks_of_add_track [simp]: "tracks_of (snd (addTrack k t now dr q)) = tracks_of q @ [t]"
  by (simp add: tracks_of_def addTrack_def queue_add_def Let_def map_filter_def)

lemma add_track_simps [simp]:
  "dv_running (add_track mk now row d) = dv_running d"
  "dv_counts (add_track mk now row d) = dv_counts d"
  "dv_window (add_track mk now row d) = dv_window d"
  "tracks_of (dv_queue (add_track mk now row d)) =
     tracks_of (dv_queue d) @ (case row of None \<Rightarrow> [] | Some r \<Rightarrow> [buildTrack r (dv_radioKey d)])"
  by (simp_all add: add_track_def Let_def split: option.split prod.split)

lemma drive_hear_simps:
  assumes "dv_running d"
  shows "dv_counts (drive_hear sha mk r now fix d) = snd (onReception r fix now (dv_counts d))"
    and "dv_window (drive_hear sha mk r now fix d) = tw_heard (dv_window d)"
    and "tracks_of (dv_queue (drive_hear sha mk r now fix d)) = tracks_of (dv_queue d)"
    and "dv_running (drive_hear sha mk r now fix d)"
  using assms by (simp_all add: drive_hear_def Let_def split: option.split prod.split)

lemma buildTrack_fields [simp]:
  "tm_t0 (buildTrack r k) = tr_t0 r" "tm_t1 (buildTrack r k) = tr_t1 r"
  "tm_rx_count (buildTrack r k) = tr_rxCount r" "tm_listening (buildTrack r k) = tr_listening r"
  by (simp_all add: buildTrack_def)

lemma tw_tick_cases:
  obtains (keep) "tw_tick now fix w = (None, w)"
  | (opened) f where "tw_startMs w = None \<or> tw_startPos w = None"
      "tw_tick now fix w = (None, w\<lparr>tw_startMs := Some now, tw_startPos := Some (fix_pos f)\<rparr>)"
  | (cut) f t p where "fix = Some f" "tw_startMs w = Some t" "tw_startPos w = Some p"
      "now - t \<ge> TRACK_INTERVAL_MS \<or> haversineM p (fix_pos f) \<ge> TRACK_DISTANCE_M"
      "tw_tick now fix w = (Some (fst (tw_cut t now f True w)), snd (tw_cut t now f True w))"
proof (cases "fix = None \<or> \<not> isUsableFix fix now")
  case True
  then show ?thesis by (intro keep) (auto simp: tw_tick_def split: option.split)
next
  case False
  then obtain f where f: "fix = Some f" "isUsableFix (Some f) now" by auto
  show ?thesis
  proof (cases "tw_startMs w = None \<or> tw_startPos w = None")
    case True
    then show ?thesis using f
      by (intro opened [of f]) (auto simp: tw_tick_def split: option.split)
  next
    case nn: False
    then obtain t p where tp: "tw_startMs w = Some t" "tw_startPos w = Some p" by auto
    show ?thesis
    proof (cases "now - t \<ge> TRACK_INTERVAL_MS \<or> haversineM p (fix_pos f) \<ge> TRACK_DISTANCE_M")
      case True
      then show ?thesis using f tp
        by (intro cut [of f t p]) (auto simp: tw_tick_def split: prod.split)
    next
      case False
      then show ?thesis using f tp by (intro keep) (auto simp: tw_tick_def)
    qed
  qed
qed

lemma drive_inv_hear:
  assumes "drive_inv q0 d" "dv_running d"
  shows "drive_inv q0 (drive_hear sha mk r now fix d)"
proof -
  have heard: "cc_heard (snd (onReception r fix now c)) = cc_heard c + 1" for c
    by (simp add: onReception_def Let_def split: option.split)
  show ?thesis using assms(1) unfolding drive_inv_def drive_hear_simps [OF assms(2)]
    by (auto simp: heard tw_heard_def onReception_counts)
qed

lemma drive_inv_second:
  assumes "drive_inv q0 d" "dv_running d"
  shows "drive_inv q0 (drive_second mk now fix d)"
proof -
  obtain new where new: "tracks_of (dv_queue d) = tracks_of q0 @ new" "joined new"
      "list_all tm_listening new"
      "new \<noteq> [] \<Longrightarrow> tw_startMs (dv_window d) = Some (tm_t1 (last new))"
      "sum_list (map tm_rx_count new) + tw_rxCount (dv_window d) = cc_heard (dv_counts d)"
    and c: "counts_ok (dv_counts d)"
    and both: "tw_startMs (dv_window d) = None \<longleftrightarrow> tw_startPos (dv_window d) = None"
    using assms(1) by (auto simp: drive_inv_def)
  show ?thesis
  proof (cases now "fix" "dv_window d" rule: tw_tick_cases)
    case keep
    then show ?thesis using new c both assms(2)
      by (auto simp: drive_second_def drive_inv_def)
  next
    case (opened f)
    then have "new = []" using new(4) both by (cases new) auto
    then show ?thesis using new c assms(2) opened(2)
      by (auto simp: drive_second_def drive_inv_def)
  next
    case (cut f t p)
    define tr where "tr = buildTrack (fst (tw_cut t now f True (dv_window d))) (dv_radioKey d)"
    have q: "tracks_of (dv_queue (drive_second mk now fix d)) = tracks_of q0 @ (new @ [tr])"
      using assms(2) new(1) cut(5) by (simp add: drive_second_def tr_def)
    have w: "dv_window (drive_second mk now fix d) = snd (tw_cut t now f True (dv_window d))"
        "dv_counts (drive_second mk now fix d) = dv_counts d"
      using assms(2) cut(5) by (simp_all add: drive_second_def)
    have tr: "tm_t0 tr = t" "tm_t1 tr = now" "tm_rx_count tr = tw_rxCount (dv_window d)" "tm_listening tr"
      by (simp_all add: tr_def tw_cut_def)
    have "joined (new @ [tr])" using new(2,4) tr(1) cut(2) by (intro joined_snoc) auto
    then show ?thesis unfolding drive_inv_def q w
      using c new(3,5) tr by (intro conjI exI [of _ "new @ [tr]"]) (auto simp: tw_cut_def)
  qed
qed

lemma drive_step_running: "dv_running d \<Longrightarrow> dv_running (drive_step sha mk e d)"
  by (cases e) (simp_all add: drive_hear_simps, simp add: drive_second_def split: prod.split)

lemma drive_inv_run:
  assumes "drive_inv q0 d" "dv_running d"
  shows "drive_inv q0 (drive_run sha mk evs d) \<and> dv_running (drive_run sha mk evs d)"
  using assms unfolding drive_run_def
proof (induction evs arbitrary: d)
  case Nil
  then show ?case by simp
next
  case (Cons e evs)
  have "drive_inv q0 (drive_step sha mk e d)"
    using Cons.prems by (cases e) (simp_all add: drive_inv_hear drive_inv_second)
  then show ?case using Cons.IH Cons.prems(2) drive_step_running by simp
qed

lemma drive_inv_start:
  assumes "\<not> dv_running d"
  shows "drive_inv (dv_queue d) (drive_start key now fix d) \<and> dv_running (drive_start key now fix d)"
proof -
  have "tw_startMs newTrackWindow = None" "tw_startPos newTrackWindow = None" "tw_rxCount newTrackWindow = 0"
    by (simp_all add: newTrackWindow_def)
  then show ?thesis using assms
    by (cases now "fix" newTrackWindow rule: tw_tick_cases)
       (auto simp: drive_start_def drive_inv_def counts_ok_def no_counts_def)
qed

text \<open>Stopping adds at most one track, not listening, and it joins the last one.\<close>

lemma drive_stop_track:
  assumes "drive_inv q0 d" "dv_running d"
  shows "\<not> dv_running (drive_stop mk now fix d)"
    and "tracks_of (dv_queue (drive_stop mk now fix d)) = tracks_of (dv_queue d) \<or>
      (\<exists>t. tracks_of (dv_queue (drive_stop mk now fix d)) = tracks_of (dv_queue d) @ [t] \<and> \<not> tm_listening t
        \<and> Some (tm_t0 t) = tw_startMs (dv_window d) \<and> tm_t1 t = now
        \<and> tm_rx_count t = tw_rxCount (dv_window d))"
proof -
  show "\<not> dv_running (drive_stop mk now fix d)"
    using assms(2) by (simp add: drive_stop_def split: prod.split)
  show "tracks_of (dv_queue (drive_stop mk now fix d)) = tracks_of (dv_queue d) \<or>
      (\<exists>t. tracks_of (dv_queue (drive_stop mk now fix d)) = tracks_of (dv_queue d) @ [t] \<and> \<not> tm_listening t
        \<and> Some (tm_t0 t) = tw_startMs (dv_window d) \<and> tm_t1 t = now
        \<and> tm_rx_count t = tw_rxCount (dv_window d))"
    using assms(2)
    by (auto simp: drive_stop_def tw_close_def tw_cut_def split: prod.split option.split)
qed

subsection \<open>Drive ids: one id until nothing is written for ten minutes\<close>

lemma di_current_same:
  assumes "di_uid d = Some u" "now - di_lastMs d \<le> DRIVE_GAP_MS"
  shows "fst (di_current mk now d) = u" and "di_uid (snd (di_current mk now d)) = Some u"
    and "di_lastMs (snd (di_current mk now d)) = now"
  using assms by (simp_all add: di_current_def)

lemma di_current_new:
  assumes "di_uid d = None \<or> now - di_lastMs d > DRIVE_GAP_MS"
  shows "fst (di_current mk now d) = mk (di_made d)"
    and "di_made (snd (di_current mk now d)) = di_made d + 1"
  using assms by (auto simp: di_current_def split: option.split)

subsection \<open>Properties\<close>


definition parked :: drive where
  "parked = \<lparr>dv_running = False, dv_counts = no_counts, dv_window = newTrackWindow,
     dv_ids = newDriveIds, dv_radioKey = [65], dv_queue = openQueue\<rparr>"

definition here :: "int \<Rightarrow> fix_rec" where
  "here t = \<lparr>f_lat = Fin 52, f_lon = Fin 4, f_accM = None, f_at = t, f_speedMps = None, f_headingDeg = None\<rparr>"


end
