(* ===== verification/Nmea.thy ===== *)
theory Nmea
  imports Json WdTypes ChunkReader "HOL-Library.Word"
begin

section \<open>A USB GPS (wardrive/position/nmea.ts)\<close>

text \<open>
  NMEA sentences to fixes: the line reader (the second interpretation of \<open>chunk_reader\<close>),
  the checksum, GGA and RMC sentences and the fix builder that carries accuracy and motion
  between them. \<open>js_Number\<close> is \<^verbatim>\<open>Number(text)\<close> with its grammar. Sentences are text of the
  basic plane, where a code point is a \<^verbatim>\<open>charCodeAt\<close>.
\<close>

unbundle bit_operations_syntax

definition all_of :: "(nat \<Rightarrow> bool) \<Rightarrow> jstr \<Rightarrow> bool" where
  "all_of p s \<longleftrightarrow> s \<noteq> [] \<and> list_all p s"

definition radix_val :: "nat \<Rightarrow> jstr \<Rightarrow> nat" where
  "radix_val b s = foldl (\<lambda>acc c. acc * b + (case hex_val c of None \<Rightarrow> 0 | Some v \<Rightarrow> v)) 0 s"

definition radix_number :: "nat \<Rightarrow> jstr \<Rightarrow> jsnum" where
  "radix_number b s =
     (if all_of (\<lambda>c. case hex_val c of None \<Rightarrow> False | Some v \<Rightarrow> v < b) s
      then double_of (of_nat (radix_val b s)) else NaN)"

definition decimal_number :: "jstr \<Rightarrow> jsnum" where
  "decimal_number s =
     (let (ds, r) = read_digits s;
          (fs, r) = (if r \<noteq> [] \<and> hd r = 46 then read_digits (tl r) else ([], r))
      in if ds = [] \<and> fs = [] then NaN
      else case read_exp r of
        Some (e, []) \<Rightarrow>
          double_of (scale10 (of_nat (decimal_val ds) + of_nat (decimal_val fs) / 10 ^ length fs) e)
      | _ \<Rightarrow> NaN)"

fun js_neg :: "jsnum \<Rightarrow> jsnum" where
  "js_neg (Fin r) = Fin (- r)"
| "js_neg NaN = NaN"
| "js_neg PInf = NInf"
| "js_neg NInf = PInf"

definition js_Number :: "jstr \<Rightarrow> jsnum" where
  "js_Number s =
     (let t = trim s in
      if t = [] then Fin 0
      else if 2 \<le> length t \<and> t ! 0 = 48 \<and> t ! 1 \<in> {120, 88} then radix_number 16 (drop 2 t)
      else if 2 \<le> length t \<and> t ! 0 = 48 \<and> t ! 1 \<in> {111, 79} then radix_number 8 (drop 2 t)
      else if 2 \<le> length t \<and> t ! 0 = 48 \<and> t ! 1 \<in> {98, 66} then radix_number 2 (drop 2 t)
      else
        let u = (if hd t \<in> {45, 43} then tl t else t);
            v = (if u = str ''Infinity'' then PInf else decimal_number u)
        in if hd t = 45 then js_neg v else v)"

subsection \<open>Sentences\<close>

definition accuracyFromHdop :: "real \<Rightarrow> real" where
  "accuracyFromHdop hdop = hdop * 5"

definition xor_all :: "nat list \<Rightarrow> nat" where
  "xor_all cs = foldl (\<lambda>x c. x XOR c) 0 cs"

text \<open>\<open>star\<close> is the last \<^verbatim>\<open>'*'\<close>: everything before it is \<open>before\<close>.\<close>

definition last_star :: "jstr \<Rightarrow> (jstr \<times> jstr) option" where
  "last_star s =
     (if 42 \<in> set s
      then Some (rev (tl (dropWhile (\<lambda>c. c \<noteq> 42) (rev s))), rev (takeWhile (\<lambda>c. c \<noteq> 42) (rev s)))
      else None)"

definition checksumOk :: "jstr \<Rightarrow> bool" where
  "checksumOk line =
     (case last_star line of
        None \<Rightarrow> True
      | Some (before, after) \<Rightarrow>
          toUpperCase (take 2 after) = padStart 2 48 (toUpperCase (toString16 (xor_all (drop 1 before)))))"

definition coord :: "jstr option \<Rightarrow> jstr option \<Rightarrow> nat \<Rightarrow> real option" where
  "coord val hemi degDigits =
     (case val of
        None \<Rightarrow> None
      | Some v \<Rightarrow>
          if length v < degDigits + 2 then None
          else (case (js_Number (take degDigits v), js_Number (drop degDigits v)) of
             (Fin deg, Fin m) \<Rightarrow>
               let x = deg + m / 60
               in Some (if hemi = Some (str ''S'') \<or> hemi = Some (str ''W'') then - x else x)
           | _ \<Rightarrow> None))"

definition KNOT_MPS :: real where "KNOT_MPS = 1852 / 3600"

record partial_fix =
  pf_lat :: real
  pf_lon :: real
  pf_accM :: "real option"
  pf_speedMps :: "real option"
  pf_headingDeg :: "real option"

definition field :: "jstr list \<Rightarrow> nat \<Rightarrow> jstr option" where
  "field f i = (if i < length f then Some (f ! i) else None)"

text \<open>A field that is there, is not empty and is a finite number.\<close>

definition number_field :: "jstr list \<Rightarrow> nat \<Rightarrow> real option" where
  "number_field f i =
     (case field f i of
        None \<Rightarrow> None
      | Some t \<Rightarrow> if t = [] then None else (case js_Number t of Fin r \<Rightarrow> Some r | _ \<Rightarrow> None))"

definition parseGga :: "jstr list \<Rightarrow> partial_fix option" where
  "parseGga f =
     (if field f 6 \<in> {None, Some [], Some (str ''0'')} then None
      else case (coord (field f 2) (field f 3) 2, coord (field f 4) (field f 5) 3) of
        (Some lat, Some lon) \<Rightarrow>
          Some \<lparr>pf_lat = lat, pf_lon = lon, pf_accM = map_option accuracyFromHdop (number_field f 8),
                pf_speedMps = None, pf_headingDeg = None\<rparr>
      | _ \<Rightarrow> None)"

definition parseRmc :: "jstr list \<Rightarrow> partial_fix option" where
  "parseRmc f =
     (if field f 2 \<noteq> Some (str ''A'') then None
      else case (coord (field f 3) (field f 4) 2, coord (field f 5) (field f 6) 3) of
        (Some lat, Some lon) \<Rightarrow>
          Some \<lparr>pf_lat = lat, pf_lon = lon, pf_accM = None,
                pf_speedMps = map_option (\<lambda>k. k * KNOT_MPS) (number_field f 7),
                pf_headingDeg = number_field f 8\<rparr>
      | _ \<Rightarrow> None)"

definition parseNmea :: "jstr \<Rightarrow> partial_fix option" where
  "parseNmea line =
     (let txt = trim line in
      if \<not> startsWith txt (str ''$'') \<or> \<not> checksumOk txt then None
      else
        let body = hd (split_on 42 txt);
            f = split_on 44 body;
            ty = drop 3 (hd f)
        in if ty = str ''GGA'' then parseGga f
        else if ty = str ''RMC'' then parseRmc f
        else None)"

subsection \<open>Lines\<close>

text \<open>\<^verbatim>\<open>split(/\r?\n/)\<close>: at each line feed, with the carriage return before it.\<close>

definition strip_cr :: "jstr \<Rightarrow> jstr" where
  "strip_cr s = (if s \<noteq> [] \<and> last s = 13 then butlast s else s)"

definition line_push :: "jstr \<Rightarrow> jstr \<Rightarrow> jstr \<times> jstr list" where
  "line_push rest txt =
     (let parts = split_on 10 (rest @ txt)
      in (last parts, filter (\<lambda>p. p \<noteq> []) (map strip_cr (butlast parts))))"

definition no_newline :: "jstr \<Rightarrow> bool" where
  "no_newline rest \<longleftrightarrow> 10 \<notin> set rest"

lemma split_on_append_any:
  "split_on c (xs @ ys) = butlast (split_on c xs) @ split_on c (last (split_on c xs) @ ys)"
proof (induction xs)
  case (Cons x xs)
  then show ?case by (cases "split_on c xs") (auto split: list.splits)
qed simp

lemma line_push_no_newline: "no_newline (fst (line_push rest txt))"
  unfolding line_push_def no_newline_def Let_def
  using split_on_parts [of "last (split_on 10 (rest @ txt))"] by (metis fst_conv last_in_set split_on_nonempty)

interpretation gps_lines: chunk_reader line_push no_newline
proof unfold_locales
  show "no_newline (fst (line_push s xs))" for s xs by (rule line_push_no_newline)
  show "no_newline s \<Longrightarrow> line_push s [] = (s, [])" for s
    by (simp add: line_push_def no_newline_def split_on_no_sep)
  show "line_push s (xs @ ys) = (fst (line_push (fst (line_push s xs)) ys),
      snd (line_push s xs) @ snd (line_push (fst (line_push s xs)) ys))" for s xs ys
    using split_on_append_any [of 10 "s @ xs" ys]
    by (simp add: line_push_def Let_def butlast_append)
qed

subsection \<open>Fixes\<close>

definition RMC_CARRY_MS :: int where "RMC_CARRY_MS = 2000"

record motion =
  mo_speedMps :: "real option"
  mo_headingDeg :: "real option"
  mo_at :: int

record fix_builder =
  fb_lastAccM :: "real option"
  fb_lastMotion :: "motion option"

definition newFixBuilder :: fix_builder where
  "newFixBuilder = \<lparr>fb_lastAccM = None, fb_lastMotion = None\<rparr>"

definition or_else :: "'a option \<Rightarrow> 'a option \<Rightarrow> 'a option" where
  "or_else a b = (case a of None \<Rightarrow> b | Some _ \<Rightarrow> a)"

definition from_rmc :: "partial_fix \<Rightarrow> bool" where
  "from_rmc p \<longleftrightarrow> pf_speedMps p \<noteq> None \<or> pf_headingDeg p \<noteq> None"

definition carried_motion :: "partial_fix \<Rightarrow> int \<Rightarrow> fix_builder \<Rightarrow> motion option" where
  "carried_motion p nowMs b =
     (if from_rmc p then None
      else case fb_lastMotion b of
        None \<Rightarrow> None
      | Some m \<Rightarrow> if nowMs - mo_at m \<le> RMC_CARRY_MS then Some m else None)"

definition fix_line :: "jstr \<Rightarrow> int \<Rightarrow> fix_builder \<Rightarrow> fix_rec option \<times> fix_builder" where
  "fix_line line nowMs b =
     (case parseNmea line of
        None \<Rightarrow> (None, b)
      | Some p \<Rightarrow>
          let b = b\<lparr>fb_lastAccM := or_else (pf_accM p) (fb_lastAccM b)\<rparr>;
              b = (if from_rmc p
                   then b\<lparr>fb_lastMotion := Some \<lparr>mo_speedMps = pf_speedMps p,
                          mo_headingDeg = pf_headingDeg p, mo_at = nowMs\<rparr>\<rparr>
                   else b);
              carried = carried_motion p nowMs b;
              speed = or_else (pf_speedMps p) (Option.bind carried mo_speedMps);
              heading = or_else (pf_headingDeg p) (Option.bind carried mo_headingDeg)
          in (Some \<lparr>f_lat = Fin (pf_lat p), f_lon = Fin (pf_lon p),
                    f_accM = map_option Fin (or_else (pf_accM p) (fb_lastAccM b)), f_at = nowMs,
                    f_speedMps = map_option Fin speed, f_headingDeg = map_option Fin heading\<rparr>, b))"

subsection \<open>The checksum catches a changed character\<close>

lemma xor_fold: "foldl (\<lambda>x c. x XOR c) a cs = a XOR (foldl (\<lambda>x c. x XOR c) 0 cs :: nat)"
proof (induction cs arbitrary: a)
  case (Cons c cs)
  show ?case by (simp add: Cons [of "a XOR c"] Cons [of c] xor.assoc)
qed simp

lemma xor_all_append: "xor_all (as @ bs) = xor_all as XOR xor_all bs"
  unfolding xor_all_def by (simp add: xor_fold [of "foldl (\<lambda>x c. x XOR c) 0 as"])

lemma xor_all_Cons: "xor_all (c # cs) = c XOR xor_all cs"
  unfolding xor_all_def by (simp add: xor_fold [of c])

lemma xor_nat_cancel: "(a XOR c = b XOR c) = (a = (b :: nat))"
  by (metis xor.assoc xor_self_eq xor.right_neutral)

lemma xor_all_changed: "c \<noteq> d \<Longrightarrow> xor_all (as @ c # bs) \<noteq> xor_all (as @ d # bs)"
  by (simp add: xor_all_append xor_all_Cons xor_nat_cancel xor.commute [of "xor_all as"])

lemma toUpper_toString16_inject:
  assumes "toUpperCase (toString16 m) = toUpperCase (toString16 n)"
  shows "m = n"
proof -
  have l: "toLowerCase (toString16 k) = toString16 k" for k
    using toString16_hex [of k] unfolding toLowerCase_def
    by (simp add: list_all_iff lower_char_lower_hex map_idI)
  have "toString16 m = toString16 n"
    using assms toLowerCase_eq_iff_upper [of "toString16 m" "toString16 n"] l by simp
  then show ?thesis by (metis digits_val_toString16)
qed

lemma digits_val_append_zeros: "digits_val (replicate k 48 @ s) = digits_val s"
  by (induction k) (simp_all add: digits_val_def hex_val_def)

lemma checksum_text_inject:
  assumes "padStart 2 48 (toUpperCase (toString16 m)) = padStart 2 48 (toUpperCase (toString16 n))"
  shows "m = n"
proof -
  have u: "toUpperCase (padStart 2 48 (toString16 k)) = padStart 2 48 (toUpperCase (toString16 k))" for k
    by (simp add: padStart_def toUpperCase_def upper_char_def)
  have l: "toLowerCase (padStart 2 48 (toString16 k)) = padStart 2 48 (toString16 k)" for k
    using toString16_hex [of k] unfolding toLowerCase_def padStart_def
    by (simp add: list_all_iff lower_char_lower_hex map_idI)
  have "padStart 2 48 (toString16 m) = padStart 2 48 (toString16 n)"
    using assms l [of m] l [of n] unfolding u [symmetric] by (metis toLowerCase_eq_iff_upper)
  then have "digits_val (padStart 2 48 (toString16 m)) = digits_val (padStart 2 48 (toString16 n))" by simp
  then show ?thesis by (simp add: padStart_def digits_val_append_zeros)
qed

lemma last_star_at:
  assumes "42 \<notin> set after"
  shows "last_star (before @ 42 # after) = Some (before, after)"
proof -
  have "takeWhile (\<lambda>c. c \<noteq> 42) (rev after @ 42 # rev before) = rev after"
    "dropWhile (\<lambda>c. c \<noteq> 42) (rev after @ 42 # rev before) = 42 # rev before"
    using assms by (auto simp: takeWhile_append dropWhile_append takeWhile_eq_all_conv)
  then show ?thesis by (simp add: last_star_def)
qed

lemma checksum_changed:
  assumes "42 \<notin> set after" "pre \<noteq> []" "c \<noteq> d"
  shows "\<not> (checksumOk (pre @ c # mid @ 42 # after) \<and> checksumOk (pre @ d # mid @ 42 # after))"
proof
  assume a: "checksumOk (pre @ c # mid @ 42 # after) \<and> checksumOk (pre @ d # mid @ 42 # after)"
  obtain x xs where p: "pre = x # xs" using assms(2) by (cases pre) auto
  have "padStart 2 48 (toUpperCase (toString16 (xor_all (xs @ c # mid))))
      = padStart 2 48 (toUpperCase (toString16 (xor_all (xs @ d # mid))))"
    using a last_star_at [OF assms(1), of "pre @ c # mid"] last_star_at [OF assms(1), of "pre @ d # mid"]
    by (simp add: checksumOk_def p) metis
  then show False using checksum_text_inject xor_all_changed [OF assms(3)] by blast
qed

subsection \<open>Lines come out as they were sent\<close>

definition line_stream :: "(jstr \<times> bool) list \<Rightarrow> jstr" where
  "line_stream items = concat (map (\<lambda>(l, cr). l @ (if cr then [13, 10] else [10])) items)"

lemma line_push_stream:
  assumes "\<forall>(l, cr) \<in> set items. 10 \<notin> set l \<and> (l = [] \<or> last l \<noteq> 13)" "10 \<notin> set rest"
  shows "line_push [] (line_stream items @ rest) = (rest, filter (\<lambda>l. l \<noteq> []) (map fst items))"
  using assms(1)
proof (induction items)
  case Nil
  then show ?case using assms(2) by (simp add: line_push_def line_stream_def split_on_no_sep)
next
  case (Cons it items)
  obtain l cr where it: "it = (l, cr)" by (cases it)
  define l' where "l' = (if cr then l @ [13] else l)"
  have nl: "10 \<notin> set l'" "strip_cr l' = l"
    using Cons.prems by (auto simp: it l'_def strip_cr_def)
  have "line_stream (it # items) = l' @ 10 # line_stream items"
    by (simp add: line_stream_def it l'_def)
  then have "split_on 10 (line_stream (it # items) @ rest) = l' # split_on 10 (line_stream items @ rest)"
    using split_on_append [of 10 l'] by (simp add: split_on_no_sep nl)
  then show ?case using Cons nl by (auto simp: line_push_def it Let_def)
qed

lemma gps_lines_any_pieces:
  assumes "\<forall>(l, cr) \<in> set items. 10 \<notin> set l \<and> (l = [] \<or> last l \<noteq> 13)" "10 \<notin> set rest"
    "concat pieces = line_stream items @ rest"
  shows "feed_chunks line_push [] pieces = (rest, filter (\<lambda>l. l \<noteq> []) (map fst items))"
  using gps_lines.feed_concat [of "[]" pieces] line_push_stream [OF assms(1,2)] assms(3)
  by (simp add: no_newline_def)

subsection \<open>Properties\<close>

text \<open>C14: a GPS sentence damaged in one character is not taken for a position: of two sentences that
  end in the same checksum and differ in exactly one character after the first, at most one
  passes. And however the port cuts the text, the lines that come out are those sent, empty ones
  left out, with or without carriage returns.\<close>

theorem damaged_sentence_rejected:
  assumes "42 \<notin> set after" "pre \<noteq> []" "c \<noteq> d"
    and "l1 = pre @ c # mid @ 42 # after" "l2 = pre @ d # mid @ 42 # after" "trim l1 = l1" "trim l2 = l2"
    and "\<forall>(l, cr) \<in> set items. 10 \<notin> set l \<and> (l = [] \<or> last l \<noteq> 13)"
    and "concat pieces = line_stream items"
  shows "(parseNmea l1 = None \<or> parseNmea l2 = None)
    \<and> snd (feed_chunks line_push [] pieces) = filter (\<lambda>l. l \<noteq> []) (map fst items)"
proof -
  have "parseNmea l = None" if "\<not> checksumOk l" "trim l = l" for l
    using that by (simp add: parseNmea_def)
  then show ?thesis
    using checksum_changed [OF assms(1-3), of mid] assms(4-7)
      gps_lines_any_pieces [OF assms(8), of "[]" pieces] assms(9) by auto
qed

theorem damaged_sentence_rejected_witness:
  "(parseNmea (str ''$GPRMC,A*40'') = None \<or> parseNmea (str ''$GPRMC,B*40'') = None)
   \<and> snd (feed_chunks line_push [] [[65], [13], [10, 66, 10]]) = [[65], [66]]"
proof -
  have t: "trim (str ''$GPRMC,A*40'') = str ''$GPRMC,A*40''" "trim (str ''$GPRMC,B*40'') = str ''$GPRMC,B*40''"
    by (rule trim_no_ws; simp add: is_ws_def)+
  show ?thesis
    using damaged_sentence_rejected [where pre = "str ''$GPRMC,''" and c = 65 and d = 66 and mid = "[]"
        and after = "str ''40''" and items = "[([65], True), ([66], False)]"
        and pieces = "[[65], [13], [10, 66, 10]]", OF _ _ _ _ _ t]
    by (simp add: line_stream_def)
qed

end
