(* ===== verification/Filters.thy ===== *)
theory Filters
imports WdTypes Json
begin

text \<open>What the driver sees (\<^verbatim>\<open>filters.ts\<close>): packet types, the class of a sender's
  id, the time windows, the filter with its two stands, and the ignore list, with their copies in
  the browser's storage. \<open>stored\<close> is what the storage holds under the key: \<open>None\<close> when
  nothing is there or the storage is blocked.\<close>

subsection \<open>Packet types and id classes\<close>

definition PACKET_TYPES :: "(jstr \<times> jstr) list" where
  "PACKET_TYPES = map (\<lambda>(v, k). (str v, str ''wardrive_page_type_'' @ str k))
     [(''Advert'', ''advert''), (''GroupText'', ''group_text''), (''GroupData'', ''group_data''),
      (''Response'', ''response''), (''Request'', ''request''), (''AnonRequest'', ''anon_request''),
      (''TextMessage'', ''text_message''), (''Ack'', ''ack''), (''Control'', ''control''),
      (''Path'', ''path''), (''Multipart'', ''multipart''), (''Trace'', ''trace''),
      (''RawCustom'', ''raw_custom''), (''Unknown'', ''unknown'')]"

text \<open>\<open>t\<close> is the page's translation function.\<close>

definition packetTypeLabel :: "jstr \<Rightarrow> (jstr \<Rightarrow> jstr) \<Rightarrow> jstr" where
  "packetTypeLabel v t =
     (case find (\<lambda>p. fst p = v) PACKET_TYPES of Some p \<Rightarrow> t (snd p) | None \<Rightarrow> v)"

datatype id_class = Unnamed | OneByte | TwoByte | ThreeByte | Pubkey | Channel

definition ID_CLASSES :: "id_class list" where
  "ID_CLASSES = [Unnamed, OneByte, TwoByte, ThreeByte, Pubkey, Channel]"

fun id_class_text :: "id_class \<Rightarrow> jstr" where
  "id_class_text Unnamed = str ''unnamed''"
| "id_class_text OneByte = str ''1b''"
| "id_class_text TwoByte = str ''2b''"
| "id_class_text ThreeByte = str ''3b''"
| "id_class_text Pubkey = str ''pubkey''"
| "id_class_text Channel = str ''channel''"

definition id_class_of_text :: "jstr \<Rightarrow> id_class option" where
  "id_class_of_text s = find (\<lambda>c. id_class_text c = s) ID_CLASSES"

definition idClass :: "sender \<Rightarrow> id_class" where
  "idClass s =
     (if s_kind s = Some ChannelName then Channel
      else let len = (case s_id s of None \<Rightarrow> 0 | Some i \<Rightarrow> length i)
           in if s_kind s = None \<or> len = 0 then Unnamed
              else if len = 2 then OneByte
              else if len = 4 then TwoByte
              else if len = 6 then ThreeByte
              else Pubkey)"

subsection \<open>Time windows\<close>

definition MINUTE :: int where "MINUTE = 60000"

definition WINDOW_MS :: "(jstr \<times> int) list" where
  "WINDOW_MS =
     [(str ''5m'', 5 * MINUTE), (str ''15m'', 15 * MINUTE), (str ''30m'', 30 * MINUTE),
      (str ''1h'', 60 * MINUTE), (str ''3h'', 180 * MINUTE), (str ''6h'', 360 * MINUTE),
      (str ''12h'', 720 * MINUTE), (str ''24h'', 1440 * MINUTE), (str ''2d'', 2880 * MINUTE),
      (str ''7d'', 10080 * MINUTE)]"

definition TIME_WINDOWS :: "jstr list" where "TIME_WINDOWS = map fst WINDOW_MS"

definition ALL_TIME :: int where "ALL_TIME = 0"

definition windowMs :: "jstr \<Rightarrow> int option" where
  "windowMs token = map_of WINDOW_MS token"

subsection \<open>The filter\<close>

record view_filter =
  fl_targets :: "jstr list"
  fl_types :: "jstr list"
  fl_idClasses :: "id_class list"
  fl_windowMs :: int
  fl_directOnly :: bool

definition DEFAULT_FILTER :: view_filter where
  "DEFAULT_FILTER = \<lparr>fl_targets = [], fl_types = [], fl_idClasses = [],
     fl_windowMs = 30 * MINUTE, fl_directOnly = False\<rparr>"

definition activeFilterCount :: "view_filter \<Rightarrow> nat" where
  "activeFilterCount f =
     (if fl_types f \<noteq> [] then 1 else 0) + (if fl_idClasses f \<noteq> [] then 1 else 0)
     + (if fl_directOnly f then 1 else 0)
     + (if fl_windowMs f \<noteq> fl_windowMs DEFAULT_FILTER then 1 else 0)"

datatype stand = Filtered | AllOfIt

definition standFilter :: "stand \<Rightarrow> view_filter \<Rightarrow> view_filter" where
  "standFilter s f =
     (if s = Filtered then f else DEFAULT_FILTER\<lparr>fl_windowMs := fl_windowMs f\<rparr>)"

record filterable =
  fe_at :: int
  fe_hops :: "nat option"
  fe_packetType :: jstr
  fe_sender :: sender

definition makeFilter :: "view_filter \<Rightarrow> jstr list \<Rightarrow> 'a filterable_scheme \<Rightarrow> int \<Rightarrow> bool" where
  "makeFilter f ignore e nowMs =
     (let targets = map toLowerCase (fl_targets f);
          ident = (case s_id (fe_sender e) of None \<Rightarrow> [] | Some i \<Rightarrow> toLowerCase i)
      in if ident \<noteq> [] \<and> ident \<in> set ignore then False
         else if fl_windowMs f \<noteq> ALL_TIME \<and> nowMs - fe_at e > fl_windowMs f then False
         else if fl_directOnly f \<and> fe_hops e \<noteq> Some 0 then False
         else if fl_types f \<noteq> [] \<and> fe_packetType e \<notin> set (fl_types f) then False
         else if fl_idClasses f \<noteq> [] \<and> idClass (fe_sender e) \<notin> set (fl_idClasses f) then False
         else if targets \<noteq> [] \<and> ident \<notin> set targets then False
         else True)"

subsection \<open>Storage\<close>

definition read_stored :: "jstr option \<Rightarrow> json" where
  "read_stored stored =
     (case stored of None \<Rightarrow> JNull
      | Some s \<Rightarrow> (case json_parse s of None \<Rightarrow> JNull | Some v \<Rightarrow> v))"

fun json_string :: "json \<Rightarrow> jstr option" where
  "json_string (JStr s) = Some s"
| "json_string _ = None"

fun strings :: "json option \<Rightarrow> jstr list option" where
  "strings (Some (JArr vs)) = Some (List.map_filter json_string vs)"
| "strings _ = None"

fun win_of :: "json option \<Rightarrow> int" where
  "win_of (Some (JNum (Fin r))) =
     (if r = 0 then ALL_TIME
      else case find (\<lambda>w. of_int w = r) (map snd WINDOW_MS) of
        Some w \<Rightarrow> w | None \<Rightarrow> fl_windowMs DEFAULT_FILTER)"
| "win_of _ = fl_windowMs DEFAULT_FILTER"

definition loadFilter :: "jstr option \<Rightarrow> view_filter" where
  "loadFilter stored =
     (let o' = read_stored stored in
      case o' of
        JNull \<Rightarrow> DEFAULT_FILTER
      | JBool _ \<Rightarrow> DEFAULT_FILTER
      | JNum _ \<Rightarrow> DEFAULT_FILTER
      | JStr _ \<Rightarrow> DEFAULT_FILTER
      | _ \<Rightarrow>
        \<lparr>fl_targets = (case strings (json_prop o' (str ''targets'')) of Some s \<Rightarrow> s | None \<Rightarrow> []),
         fl_types = (case strings (json_prop o' (str ''types'')) of Some s \<Rightarrow> s | None \<Rightarrow> []),
         fl_idClasses = (case strings (json_prop o' (str ''idClasses'')) of
             Some s \<Rightarrow> List.map_filter id_class_of_text s | None \<Rightarrow> []),
         fl_windowMs = win_of (json_prop o' (str ''windowMs'')),
         fl_directOnly = (json_prop o' (str ''directOnly'') = Some (JBool True))\<rparr>)"

definition saveFilter :: "view_filter \<Rightarrow> jstr" where
  "saveFilter f = stringify (JObj
     [(str ''targets'', JArr (map JStr (fl_targets f))),
      (str ''types'', JArr (map JStr (fl_types f))),
      (str ''idClasses'', JArr (map (JStr \<circ> id_class_text) (fl_idClasses f))),
      (str ''windowMs'', JNum (Fin (of_int (fl_windowMs f)))),
      (str ''directOnly'', JBool (fl_directOnly f))])"

definition loadStand :: "jstr option \<Rightarrow> stand" where
  "loadStand stored = (if stored = Some (str ''all'') then AllOfIt else Filtered)"

definition saveStand :: "stand \<Rightarrow> jstr" where
  "saveStand s = (if s = AllOfIt then str ''all'' else str ''filtered'')"

definition loadIgnore :: "jstr option \<Rightarrow> jstr list" where
  "loadIgnore stored = (case strings (Some (read_stored stored)) of Some s \<Rightarrow> s | None \<Rightarrow> [])"

definition saveIgnore :: "jstr list \<Rightarrow> jstr" where
  "saveIgnore ids = stringify (JArr (map JStr ids))"

subsection \<open>Lemmas\<close>

lemma json_strings [simp]: "List.map_filter json_string (map JStr xs) = xs"
  by (induction xs) (simp_all add: map_filter_simps)

lemma id_class_roundtrip [simp]: "id_class_of_text (id_class_text c) = Some c"
  by (cases c) (simp_all add: id_class_of_text_def ID_CLASSES_def)

lemma id_classes_roundtrip [simp]: "List.map_filter id_class_of_text (map id_class_text cs) = cs"
  by (induction cs) (simp_all add: map_filter_simps)

text \<open>The window lengths the page offers.\<close>

definition window_ok :: "int \<Rightarrow> bool" where
  "window_ok w \<longleftrightarrow> w = ALL_TIME \<or> w \<in> set (map snd WINDOW_MS)"

lemma win_of_ok: "window_ok (win_of v)"
proof -
  have d: "window_ok (fl_windowMs DEFAULT_FILTER)"
    by (simp add: window_ok_def DEFAULT_FILTER_def WINDOW_MS_def MINUTE_def)
  show ?thesis
    by (induction v rule: win_of.induct)
      (auto simp: d window_ok_def [of ALL_TIME] split: option.splits dest!: find_Some_set
        intro: window_ok_def [THEN iffD2])
qed

lemma win_of_window: "window_ok w \<Longrightarrow> win_of (Some (JNum (Fin (of_int w)))) = w"
  by (auto simp: window_ok_def ALL_TIME_def WINDOW_MS_def MINUTE_def)

lemma window_small: "window_ok w \<Longrightarrow> \<bar>w\<bar> < 2 ^ 53"
  by (auto simp: window_ok_def ALL_TIME_def WINDOW_MS_def MINUTE_def)

lemma loadFilter_saved:
  assumes "window_ok (fl_windowMs f)"
  shows "loadFilter (Some (saveFilter f)) = f"
proof -
  have "json_parse (saveFilter f) = Some (JObj
     [(str ''targets'', JArr (map JStr (fl_targets f))),
      (str ''types'', JArr (map JStr (fl_types f))),
      (str ''idClasses'', JArr (map (JStr \<circ> id_class_text) (fl_idClasses f))),
      (str ''windowMs'', JNum (Fin (of_int (fl_windowMs f)))),
      (str ''directOnly'', JBool (fl_directOnly f))])"
    unfolding saveFilter_def by (rule json_parse_stringify) (use window_small [OF assms] in \<open>auto simp: list_all_iff\<close>)
  moreover have "map (JStr \<circ> id_class_text) (fl_idClasses f) = map JStr (map id_class_text (fl_idClasses f))"
    by simp
  ultimately show ?thesis
    using win_of_window [OF assms]
    by (cases f) (simp add: loadFilter_def read_stored_def del: map_map)
qed

lemma loadFilter_window: "window_ok (fl_windowMs (loadFilter stored))"
proof -
  have "window_ok (fl_windowMs DEFAULT_FILTER)" using win_of_ok [of None] by simp
  then show ?thesis by (auto simp: loadFilter_def Let_def win_of_ok split: json.splits)
qed

lemma loadIgnore_saved: "loadIgnore (Some (saveIgnore ids)) = ids"
proof -
  have "json_parse (saveIgnore ids) = Some (JArr (map JStr ids))"
    unfolding saveIgnore_def by (rule json_parse_stringify) (simp add: list_all_iff)
  then show ?thesis by (simp add: loadIgnore_def read_stored_def)
qed

lemma loadStand_saved: "loadStand (Some (saveStand s)) = s"
  by (cases s) (simp_all add: loadStand_def saveStand_def)

subsection \<open>Properties\<close>

text \<open>The view's choices survive the browser's storage: a filter whose window is one the page
  offers, the stand and the ignore list come back as saved; and whatever text lies under the
  filter's key (another version's, a damaged one, none), the filter read from it has an offered
  window and comes back unchanged from then on.\<close>

theorem view_survives_storage:
  "(window_ok (fl_windowMs f) \<longrightarrow> loadFilter (Some (saveFilter f)) = f)
   \<and> loadStand (Some (saveStand s)) = s \<and> loadIgnore (Some (saveIgnore ids)) = ids
   \<and> window_ok (fl_windowMs (loadFilter stored))
   \<and> loadFilter (Some (saveFilter (loadFilter stored))) = loadFilter stored"
  by (simp add: loadFilter_saved loadStand_saved loadIgnore_saved loadFilter_window)

theorem view_survives_storage_witness:
  "loadFilter (Some (saveFilter DEFAULT_FILTER)) = DEFAULT_FILTER"
  using view_survives_storage [of DEFAULT_FILTER Filtered "[]" None]
  by (simp add: window_ok_def DEFAULT_FILTER_def WINDOW_MS_def)

text \<open>The stand All shows exactly what is in the filter's time window and not ignored; the
  filtered view is part of it, whatever the filter; and with no targets and a badge of zero the two
  views are the same, so an unmarked filter hides nothing.\<close>

theorem all_shows_the_window:
  fixes e :: "'a filterable_scheme"
  shows "(makeFilter (standFilter AllOfIt f) ignore e nowMs
      \<longleftrightarrow> (case s_id (fe_sender e) of None \<Rightarrow> True
           | Some i \<Rightarrow> i = [] \<or> toLowerCase i \<notin> set ignore)
          \<and> (fl_windowMs f = ALL_TIME \<or> nowMs - fe_at e \<le> fl_windowMs f))
    \<and> (makeFilter (standFilter Filtered f) ignore e nowMs
        \<longrightarrow> makeFilter (standFilter AllOfIt f) ignore e nowMs)
    \<and> (activeFilterCount f = 0 \<and> fl_targets f = []
        \<longrightarrow> makeFilter f ignore e nowMs = makeFilter (standFilter AllOfIt f) ignore e nowMs)"
  by (auto simp: makeFilter_def standFilter_def DEFAULT_FILTER_def activeFilterCount_def Let_def
      toLowerCase_def split: option.splits if_splits)

definition heard_advert :: filterable where
  "heard_advert = \<lparr>fe_at = 1000, fe_hops = Some 0, fe_packetType = str ''Advert'',
     fe_sender = NO_SENDER\<lparr>s_kind := Some AdvertPubkey, s_id := Some (str ''ab12'')\<rparr>\<rparr>"

theorem all_shows_the_window_witness:
  "makeFilter DEFAULT_FILTER [] heard_advert 2000
   = makeFilter (standFilter AllOfIt DEFAULT_FILTER) [] heard_advert 2000"
  using all_shows_the_window [of DEFAULT_FILTER "[]" heard_advert 2000]
  by (simp add: activeFilterCount_def DEFAULT_FILTER_def)

end
