(* ===== verification/Names.thy ===== *)
theory Names
imports Filters Complex_Main
begin

text \<open>Names for what the radio heard (\<^verbatim>\<open>names.ts\<close>): the node directory with its
  prefix index, the reach rule that tells which node a short id was, and the name shown for a
  sender. A JavaScript \<^verbatim>\<open>Map\<close> is an association list in insertion order.\<close>

subsection \<open>The node directory\<close>

record node_directory =
  nd_version :: nat
  nd_keys :: "(jstr \<times> directory_node) list"
  nd_prefixes :: "(jstr \<times> directory_node list) list"

definition INDEXED_PREFIXES :: "nat list" where "INDEXED_PREFIXES = [2, 4, 6]"

definition isPositioned :: "directory_node \<Rightarrow> bool" where
  "isPositioned n \<longleftrightarrow> dn_lat n \<noteq> None \<and> dn_lon n \<noteq> None"

definition newer :: "int option \<Rightarrow> int option \<Rightarrow> bool" where
  "newer a b \<longleftrightarrow>
     (case a of None \<Rightarrow> - 1 | Some x \<Rightarrow> x) > (case b of None \<Rightarrow> - 1 | Some y \<Rightarrow> y)"

text \<open>\<^verbatim>\<open>a || b\<close> of two names, \<^verbatim>\<open>a ?? b\<close> of two values.\<close>

definition name_or :: "jstr option \<Rightarrow> jstr option \<Rightarrow> jstr option" where
  "name_or a b = (if a = None \<or> a = Some [] then b else a)"

definition or_other :: "'a option \<Rightarrow> 'a option \<Rightarrow> 'a option" where
  "or_other a b = (case a of None \<Rightarrow> b | Some _ \<Rightarrow> a)"

text \<open>Two copies of one node, \<open>had\<close> the one kept so far.\<close>

definition merge_copy :: "jstr \<Rightarrow> directory_node \<Rightarrow> directory_node \<Rightarrow> directory_node" where
  "merge_copy key had n =
     (let (nw, old) = (if newer (dn_seen n) (dn_seen had) then (n, had) else (had, n));
          pos = (if isPositioned nw then nw else old)
      in nw\<lparr>dn_publicKey := key, dn_name := name_or (dn_name nw) (dn_name old),
             dn_role := or_other (dn_role nw) (dn_role old),
             dn_lat := dn_lat pos, dn_lon := dn_lon pos\<rparr>)"

definition add_node ::
  "(jstr \<times> directory_node) list \<Rightarrow> directory_node \<Rightarrow> (jstr \<times> directory_node) list" where
  "add_node keys n =
     (let key = toLowerCase (dn_publicKey n) in
      case map_of keys key of
        None \<Rightarrow> amap_set key (n\<lparr>dn_publicKey := key\<rparr>) keys
      | Some had \<Rightarrow> amap_set key (merge_copy key had n) keys)"

definition add_prefix ::
  "directory_node \<Rightarrow> (jstr \<times> directory_node list) list \<Rightarrow> nat \<Rightarrow>
   (jstr \<times> directory_node list) list" where
  "add_prefix n index len =
     (let p = take len (dn_publicKey n) in
      case map_of index p of
        Some list \<Rightarrow> amap_set p (list @ [n]) index
      | None \<Rightarrow> amap_set p [n] index)"

definition index_node ::
  "(jstr \<times> directory_node list) list \<Rightarrow> directory_node \<Rightarrow> (jstr \<times> directory_node list) list" where
  "index_node index n = foldl (add_prefix n) index INDEXED_PREFIXES"

text \<open>The constructor; \<open>version\<close> is the module's counter before it.\<close>

definition newNodeDirectory :: "nat \<Rightarrow> directory_node list \<Rightarrow> node_directory" where
  "newNodeDirectory version nodes =
     (let keys = foldl add_node [] nodes
      in \<lparr>nd_version = version, nd_keys = keys,
          nd_prefixes = foldl index_node [] (map snd keys)\<rparr>)"

definition directory_size :: "node_directory \<Rightarrow> nat" where
  "directory_size d = length (nd_keys d)"

definition all_nodes :: "node_directory \<Rightarrow> directory_node list" where
  "all_nodes d = map snd (nd_keys d)"

definition byKey :: "node_directory \<Rightarrow> jstr \<Rightarrow> directory_node option" where
  "byKey d key = map_of (nd_keys d) (toLowerCase key)"

definition withPrefix :: "node_directory \<Rightarrow> jstr \<Rightarrow> directory_node list" where
  "withPrefix d prefix =
     (let p = toLowerCase prefix;
          bucket = (\<lambda>q. case map_of (nd_prefixes d) q of None \<Rightarrow> [] | Some l \<Rightarrow> l)
      in if length p < 2 then []
         else if length p \<in> set INDEXED_PREFIXES then bucket p
         else if length p \<ge> 64 then (case byKey d p of None \<Rightarrow> [] | Some n \<Rightarrow> [n])
         else filter (\<lambda>n. startsWith (dn_publicKey n) p) (bucket (take 6 p)))"

definition positionedWithPrefix :: "node_directory \<Rightarrow> jstr \<Rightarrow> directory_node list" where
  "positionedWithPrefix d prefix = filter isPositioned (withPrefix d prefix)"

subsection \<open>Reach\<close>

definition REACH_CAP_KM :: real where "REACH_CAP_KM = 15"
definition LINK_BUDGET_DB :: real where "LINK_BUDGET_DB = 36"
definition FREQ_MHZ :: real where "FREQ_MHZ = 868"

definition reachKm :: "jsnum option \<Rightarrow> real" where
  "reachKm rssi =
     (case rssi of
        Some (Fin r) \<Rightarrow>
          (let lossDb = - r + LINK_BUDGET_DB;
               km = 10 powr ((lossDb - 20 * log 10 FREQ_MHZ - 32.44) / 20)
           in min km REACH_CAP_KM)
      | _ \<Rightarrow> REACH_CAP_KM)"

definition EARTH_KM :: real where "EARTH_KM = 6371"
definition RAD :: real where "RAD = pi / 180"

definition distanceKm :: "real \<times> real \<Rightarrow> real \<times> real \<Rightarrow> real" where
  "distanceKm a b =
     (let x = (snd b - snd a) * RAD * cos ((fst a + fst b) / 2 * RAD);
          y = (fst b - fst a) * RAD
      in EARTH_KM * sqrt (x * x + y * y))"

subsection \<open>Which node a short id was\<close>

datatype attribution = RuleNode directory_node | RuleCollision nat | RuleEstimate bool

record heard_at =
  ha_lat :: "real option"
  ha_lon :: "real option"
  ha_rssi :: "jsnum option"

definition PLACED_KINDS :: "sender_kind list" where "PLACED_KINDS = [Relay, PathHash, DirectHash]"
definition PLACED_LENGTHS :: "nat list" where "PLACED_LENGTHS = [2, 4, 6]"

definition sender_id :: "sender \<Rightarrow> jstr" where
  "sender_id s = (case s_id s of None \<Rightarrow> [] | Some i \<Rightarrow> toLowerCase i)"

definition in_kinds :: "sender \<Rightarrow> sender_kind list \<Rightarrow> bool" where
  "in_kinds s ks = (case s_kind s of None \<Rightarrow> False | Some k \<Rightarrow> k \<in> set ks)"

definition node_within :: "real \<times> real \<Rightarrow> real \<Rightarrow> directory_node \<Rightarrow> bool" where
  "node_within here reach n =
     (case (dn_lat n, dn_lon n) of
        (Some la, Some lo) \<Rightarrow> distanceKm here (la, lo) \<le> reach
      | _ \<Rightarrow> False)"

definition attribute_sender :: "sender \<Rightarrow> 'a heard_at_scheme \<Rightarrow> node_directory \<Rightarrow> attribution option" where
  "attribute_sender s h d =
     (let ident = sender_id s in
      if \<not> in_kinds s PLACED_KINDS \<or> length ident \<notin> set PLACED_LENGTHS then None
      else
        let placed = positionedWithPrefix d ident;
            prefixKnown = placed \<noteq> []
        in case (ha_lat h, ha_lon h) of
             (Some la, Some lo) \<Rightarrow>
               (let inReach = filter (node_within (la, lo) (reachKm (ha_rssi h))) placed
                in case inReach of
                     [n] \<Rightarrow> Some (RuleNode n)
                   | [] \<Rightarrow> Some (RuleEstimate prefixKnown)
                   | _ \<Rightarrow> Some (RuleCollision (length inReach)))
           | _ \<Rightarrow> Some (RuleEstimate prefixKnown))"

subsection \<open>The name shown\<close>

definition GUESS_MARK :: jstr where "GUESS_MARK = str ''~''"

record name_parts =
  np_mark :: jstr
  np_name :: jstr

definition NO_NAME :: name_parts where "NO_NAME = \<lparr>np_mark = [], np_name = []\<rparr>"

definition HEX_text :: "jstr \<Rightarrow> bool" where
  "HEX_text s \<longleftrightarrow> s \<noteq> [] \<and> list_all is_lower_hex s"

text \<open>The names of the nodes with a prefix, each once.\<close>

definition prefix_names :: "jstr \<Rightarrow> node_directory \<Rightarrow> jstr list" where
  "prefix_names ident d =
     remdups (filter (\<lambda>s. s \<noteq> []) (map (trim \<circ> or_empty \<circ> dn_name) (withPrefix d ident)))"

definition consensus :: "jstr \<Rightarrow> node_directory \<Rightarrow> name_parts" where
  "consensus ident d =
     (case prefix_names ident d of
        [name] \<Rightarrow> \<lparr>np_mark = (if length ident \<le> 6 then GUESS_MARK else []), np_name = name\<rparr>
      | _ \<Rightarrow> NO_NAME)"

definition key_name :: "node_directory \<Rightarrow> jstr \<Rightarrow> jstr option" where
  "key_name d ident = (case byKey d ident of None \<Rightarrow> None | Some n \<Rightarrow> dn_name n)"

definition nameParts :: "sender \<Rightarrow> attribution option \<Rightarrow> node_directory \<Rightarrow> name_parts" where
  "nameParts s attr d =
     (let ident = sender_id s in
      if s_kind s = Some ChannelName then \<lparr>np_mark = [], np_name = or_empty (s_label s)\<rparr>
      else if s_kind s = Some AdvertPubkey then
        \<lparr>np_mark = [], np_name = or_empty (name_or (s_label s) (key_name d ident))\<rparr>
      else if s_kind s = None \<or> ident = [] then NO_NAME
      else if length ident \<ge> 64 then \<lparr>np_mark = [], np_name = or_empty (key_name d ident)\<rparr>
      else case attr of
        Some (RuleNode n) \<Rightarrow>
          (if dn_name n = None \<or> dn_name n = Some [] then NO_NAME
           else \<lparr>np_mark = GUESS_MARK, np_name = or_empty (dn_name n)\<rparr>)
      | Some (RuleCollision _) \<Rightarrow> NO_NAME
      | a \<Rightarrow>
          (if in_kinds s [PathHash, DirectHash] then NO_NAME
           else if a = Some (RuleEstimate True) then NO_NAME
           else if length ident \<ge> 2 \<and> HEX_text ident then consensus ident d
           else NO_NAME))"

definition HASH_KINDS :: "sender_kind list" where "HASH_KINDS = [PathHash, DirectHash]"
definition VIA_KINDS :: "sender_kind list" where "VIA_KINDS = [Relay, PathHash]"
definition SHOWN_ID_HEX :: nat where "SHOWN_ID_HEX = 6"

definition shownId :: "sender \<Rightarrow> jstr" where
  "shownId s =
     (case (s_kind s, s_id s) of
        (Some k, Some i) \<Rightarrow>
          if i = [] then []
          else if k = ChannelName then i
          else if in_kinds s HASH_KINDS then str ''#'' @ take SHOWN_ID_HEX i
          else take SHOWN_ID_HEX i
      | _ \<Rightarrow> [])"

record sender_line =
  sl_prefix :: jstr
  sl_name :: jstr
  sl_note :: jstr

text \<open>\<open>t key args\<close> is the translation function with its named arguments.\<close>

definition senderLine ::
  "sender \<Rightarrow> attribution option \<Rightarrow> node_directory \<Rightarrow> jstr \<Rightarrow>
   (jstr \<Rightarrow> (jstr \<times> jstr) list \<Rightarrow> jstr) \<Rightarrow> sender_line" where
  "senderLine s attr d packetType t =
     (if s_kind s = None \<or> s_id s = None \<or> s_id s = Some [] then
        \<lparr>sl_prefix = [], sl_name = [],
         sl_note = t (str ''wardrive_page_sender_none'')
           [(str ''type'', packetTypeLabel packetType (\<lambda>k. t k []))]\<rparr>
      else
        let via = (if in_kinds s VIA_KINDS then t (str ''wardrive_page_sender_via'') [] @ str '' '' else []);
            parts = nameParts s attr d
        in if np_name parts \<noteq> [] then
             \<lparr>sl_prefix = via @ np_mark parts, sl_name = np_name parts, sl_note = []\<rparr>
           else
             let shown = shownId s;
                 hash = startsWith shown (str ''#'') \<and> in_kinds s HASH_KINDS
             in \<lparr>sl_prefix = via @ (if hash then str ''#'' else []),
                 sl_name = (if hash then drop 1 shown else shown), sl_note = []\<rparr>)"


subsection \<open>The directory as a function of the copies\<close>

text \<open>The specification: what the copies of one key, in the order they came, add up to.\<close>

definition one_copy :: "jstr \<Rightarrow> directory_node option \<Rightarrow> directory_node \<Rightarrow> directory_node option" where
  "one_copy k acc n =
     Some (case acc of None \<Rightarrow> n\<lparr>dn_publicKey := k\<rparr> | Some had \<Rightarrow> merge_copy k had n)"

definition copies :: "jstr \<Rightarrow> directory_node list \<Rightarrow> directory_node list" where
  "copies k nodes = filter (\<lambda>n. toLowerCase (dn_publicKey n) = k) nodes"

definition directory_spec :: "directory_node list \<Rightarrow> jstr \<Rightarrow> directory_node option" where
  "directory_spec nodes k = foldl (one_copy k) None (copies k nodes)"

lemma add_node_lookup:
  "map_of (add_node ks n) k
   = (if k = toLowerCase (dn_publicKey n) then one_copy k (map_of ks k) n else map_of ks k)"
  by (auto simp: add_node_def one_copy_def Let_def split: option.splits)

lemma fold_add_lookup:
  "map_of (foldl add_node ks nodes) k = foldl (one_copy k) (map_of ks k) (copies k nodes)"
  by (induction nodes arbitrary: ks) (simp_all add: copies_def add_node_lookup)

definition keys_ok :: "(jstr \<times> directory_node) list \<Rightarrow> bool" where
  "keys_ok ks \<longleftrightarrow> amap_ok ks \<and> (\<forall>(k, n) \<in> set ks. dn_publicKey n = k)"

lemma merge_copy_key [simp]: "dn_publicKey (merge_copy k had n) = k"
  by (simp add: merge_copy_def Let_def)

lemma add_node_ok: "keys_ok ks \<Longrightarrow> keys_ok (add_node ks n)"
  using set_amap_set
  by (fastforce simp: keys_ok_def add_node_def Let_def split: option.splits)

lemma add_node_keys:
  "dom (map_of (add_node ks n)) = insert (toLowerCase (dn_publicKey n)) (dom (map_of ks))"
  by (auto simp: add_node_def Let_def split: option.splits)

lemma fold_add_ok: "keys_ok ks \<Longrightarrow> keys_ok (foldl add_node ks nodes)"
  by (induction nodes arbitrary: ks) (simp_all add: add_node_ok)

lemma fold_add_keys:
  "dom (map_of (foldl add_node ks nodes)) = dom (map_of ks) \<union> (toLowerCase \<circ> dn_publicKey) ` set nodes"
  by (induction nodes arbitrary: ks) (simp_all add: add_node_keys)

lemma keys_ok_names: "keys_ok ks \<Longrightarrow> map dn_publicKey (map snd ks) = amap_keys ks"
  by (auto simp: keys_ok_def)

lemma directory_keys:
  "keys_ok (nd_keys (newNodeDirectory v nodes))"
  "dom (map_of (nd_keys (newNodeDirectory v nodes))) = (toLowerCase \<circ> dn_publicKey) ` set nodes"
  using fold_add_ok [of "[]" nodes] fold_add_keys [of "[]" nodes]
  by (simp_all add: newNodeDirectory_def Let_def keys_ok_def)

subsection \<open>The prefix index\<close>

definition bucket :: "(jstr \<times> directory_node list) list \<Rightarrow> jstr \<Rightarrow> directory_node list" where
  "bucket index p = (case map_of index p of None \<Rightarrow> [] | Some l \<Rightarrow> l)"

lemma bucket_add_prefix:
  "bucket (add_prefix n index len) p = bucket index p @ (if p = take len (dn_publicKey n) then [n] else [])"
  by (auto simp: add_prefix_def bucket_def Let_def split: option.splits)

lemma take_eq_prefix: "length k \<ge> a \<Longrightarrow> p = take a k \<longleftrightarrow> length p = a \<and> startsWith k p"
  by (auto simp: startsWith_def)

lemma bucket_index_node:
  assumes "length (dn_publicKey n) \<ge> 6"
  shows "bucket (index_node index n) p
         = bucket index p @ (if length p \<in> set INDEXED_PREFIXES \<and> startsWith (dn_publicKey n) p then [n] else [])"
proof -
  have t: "p = take 2 (dn_publicKey n) \<longleftrightarrow> length p = 2 \<and> startsWith (dn_publicKey n) p"
    "p = take 4 (dn_publicKey n) \<longleftrightarrow> length p = 4 \<and> startsWith (dn_publicKey n) p"
    "p = take 6 (dn_publicKey n) \<longleftrightarrow> length p = 6 \<and> startsWith (dn_publicKey n) p"
    using assms by (simp_all add: take_eq_prefix)
  show ?thesis
    unfolding index_node_def INDEXED_PREFIXES_def by (simp add: bucket_add_prefix t)
qed

lemma bucket_index:
  assumes "\<forall>n \<in> set ns. length (dn_publicKey n) \<ge> 6" "length p \<in> set INDEXED_PREFIXES"
  shows "bucket (foldl index_node index ns) p = bucket index p @ filter (\<lambda>n. startsWith (dn_publicKey n) p) ns"
  using assms by (induction ns arbitrary: index) (simp_all add: bucket_index_node)

lemma startsWith_take_shorter:
  assumes "startsWith k p" shows "startsWith k (take j p)"
proof -
  have "k = p @ drop (length p) k"
    using assms unfolding startsWith_def by (metis append_take_drop_id)
  then have "k = take j p @ (drop j p @ drop (length p) k)"
    by (metis append_assoc append_take_drop_id)
  then show ?thesis by (metis startsWith_append)
qed

lemma startsWith_full: "length k = 64 \<Longrightarrow> length p \<ge> 64 \<Longrightarrow> startsWith k p \<longleftrightarrow> k = p"
  by (auto simp: startsWith_def)

lemma filter_key:
  "keys_ok ks \<Longrightarrow> filter (\<lambda>n. dn_publicKey n = p) (map snd ks)
     = (case map_of ks p of None \<Rightarrow> [] | Some n \<Rightarrow> [n])"
proof (induction ks)
  case (Cons kn ks)
  then have "keys_ok ks" "fst kn \<notin> set (amap_keys ks)" "dn_publicKey (snd kn) = fst kn"
    by (auto simp: keys_ok_def)
  moreover from this have "map_of ks (fst kn) = None" by (simp add: map_of_eq_None_iff)
  ultimately show ?case using Cons.IH by (cases kn) auto
qed simp

definition full_keys :: "directory_node list \<Rightarrow> bool" where
  "full_keys nodes \<longleftrightarrow> (\<forall>n \<in> set nodes. length (dn_publicKey n) = 64)"

lemma directory_full_keys:
  assumes "full_keys nodes" "n \<in> set (all_nodes (newNodeDirectory v nodes))"
  shows "length (dn_publicKey n) = 64"
proof -
  let ?ks = "nd_keys (newNodeDirectory v nodes)"
  obtain k where kn: "(k, n) \<in> set ?ks" using assms(2) by (auto simp: all_nodes_def)
  then have "dn_publicKey n = k" "k \<in> dom (map_of ?ks)"
    using directory_keys(1) [of v nodes] by (force simp: keys_ok_def dom_map_of_conv_image_fst)+
  then show ?thesis using directory_keys(2) [of v nodes] assms(1) by (auto simp: full_keys_def)
qed

lemma prefix_lengths:
  "even l \<Longrightarrow> 2 \<le> l \<Longrightarrow> l \<in> set INDEXED_PREFIXES \<or> l \<ge> 64
     \<or> (6 < l \<and> l < 64 \<and> l \<notin> set INDEXED_PREFIXES)"
  unfolding INDEXED_PREFIXES_def by simp presburger

lemma withPrefix_filters:
  fixes v :: nat
  assumes "full_keys nodes" "even (length prefix)" "2 \<le> length prefix"
  defines "d \<equiv> newNodeDirectory v nodes"
  shows "withPrefix d prefix = filter (\<lambda>n. startsWith (dn_publicKey n) (toLowerCase prefix)) (all_nodes d)"
proof -
  define p where "p = toLowerCase prefix"
  let ?starts = "\<lambda>q n. startsWith (dn_publicKey n) q"
  have lens: "\<forall>n \<in> set (all_nodes d). length (dn_publicKey n) \<ge> 6"
    using directory_full_keys [OF assms(1)] by (auto simp: d_def)
  have pre: "nd_prefixes d = foldl index_node [] (all_nodes d)"
    by (simp add: d_def newNodeDirectory_def all_nodes_def Let_def)
  have bucket: "(case map_of (nd_prefixes d) q of None \<Rightarrow> [] | Some l \<Rightarrow> l) = filter (?starts q) (all_nodes d)"
    if "length q \<in> set INDEXED_PREFIXES" for q
    using bucket_index [OF lens that, of "[]"] by (simp add: pre bucket_def)
  have lp: "length p = length prefix" by (simp add: p_def)
  consider (index) "length p \<in> set INDEXED_PREFIXES" | (full) "length p \<ge> 64"
    | (longer) "6 < length p" "length p < 64" "length p \<notin> set INDEXED_PREFIXES"
    using prefix_lengths [OF assms(2,3)] unfolding lp by blast
  then show ?thesis
  proof cases
    case index
    then show ?thesis
      using assms(3) bucket [OF index] unfolding withPrefix_def p_def [symmetric] Let_def lp [symmetric] by simp
  next
    case full
    have "filter (?starts p) (all_nodes d) = filter (\<lambda>n. dn_publicKey n = p) (all_nodes d)"
      by (rule filter_cong [OF refl]) (use startsWith_full [OF _ full] directory_full_keys [OF assms(1)] in \<open>simp add: d_def\<close>)
    also have "\<dots> = (case map_of (nd_keys d) p of None \<Rightarrow> [] | Some n \<Rightarrow> [n])"
      using filter_key [OF directory_keys(1)] by (simp add: all_nodes_def d_def)
    finally have "(case byKey d p of None \<Rightarrow> [] | Some n \<Rightarrow> [n]) = filter (?starts p) (all_nodes d)"
      by (simp add: byKey_def p_def)
    then show ?thesis using full
      unfolding withPrefix_def p_def [symmetric] Let_def by (simp add: INDEXED_PREFIXES_def)
  next
    case longer
    have "length (take 6 p) \<in> set INDEXED_PREFIXES" using longer by (simp add: INDEXED_PREFIXES_def)
    from bucket [OF this] have "filter (?starts p) (case map_of (nd_prefixes d) (take 6 p) of None \<Rightarrow> [] | Some l \<Rightarrow> l)
        = filter (\<lambda>n. ?starts p n \<and> ?starts (take 6 p) n) (all_nodes d)" by (simp add: conj_commute)
    also have "\<dots> = filter (?starts p) (all_nodes d)"
      by (rule filter_cong [OF refl]) (use startsWith_take_shorter in blast)
    finally show ?thesis using longer
      unfolding withPrefix_def p_def [symmetric] Let_def by simp
  qed
qed

subsection \<open>What the copies of a node add up to\<close>

definition named :: "directory_node \<Rightarrow> bool" where
  "named n \<longleftrightarrow> dn_name n \<noteq> None \<and> dn_name n \<noteq> Some []"

definition seen_value :: "directory_node \<Rightarrow> int" where
  "seen_value n = (case dn_seen n of None \<Rightarrow> - 1 | Some s \<Rightarrow> s)"

text \<open>What the copies know of one thing (\<open>K\<close>: this copy knows it, \<open>V\<close>: what it says) is
  known after the merge, from one of them.\<close>

definition keeps :: "(directory_node \<Rightarrow> bool) \<Rightarrow> (directory_node \<Rightarrow> 'v) \<Rightarrow> directory_node list \<Rightarrow> directory_node \<Rightarrow> bool" where
  "keeps K V cs m \<longleftrightarrow> K m = (\<exists>c \<in> set cs. K c) \<and> (K m \<longrightarrow> (\<exists>c \<in> set cs. K c \<and> V c = V m))"

lemma keeps_first: "K m = K n \<Longrightarrow> V m = V n \<Longrightarrow> keeps K V [n] m"
  by (simp add: keeps_def)

lemma keeps_pick:
  assumes "keeps K V cs had" "K m \<longleftrightarrow> K had \<or> K n"
    "K m \<Longrightarrow> (K had \<and> V m = V had) \<or> (K n \<and> V m = V n)"
  shows "keeps K V (cs @ [n]) m"
  unfolding keeps_def
proof (intro conjI impI)
  show "K m = (\<exists>c \<in> set (cs @ [n]). K c)" using assms(1,2) unfolding keeps_def by auto
  assume "K m"
  then show "\<exists>c \<in> set (cs @ [n]). K c \<and> V c = V m"
    using assms(1) assms(3) unfolding keeps_def by (metis Un_iff list.set_intros(1) set_append)
qed

definition place :: "directory_node \<Rightarrow> real option \<times> real option" where
  "place n = (dn_lat n, dn_lon n)"

definition roled :: "directory_node \<Rightarrow> bool" where "roled n \<longleftrightarrow> dn_role n \<noteq> None"

definition sums_up :: "directory_node list \<Rightarrow> directory_node \<Rightarrow> bool" where
  "sums_up cs m \<longleftrightarrow>
     keeps named dn_name cs m \<and> keeps roled dn_role cs m \<and> keeps isPositioned place cs m
     \<and> (\<forall>c \<in> set cs. seen_value c \<le> seen_value m) \<and> (\<exists>c \<in> set cs. dn_seen c = dn_seen m)"

lemma sums_up_first: "sums_up [n] (n\<lparr>dn_publicKey := k\<rparr>)"
  by (simp add: sums_up_def keeps_first named_def roled_def isPositioned_def seen_value_def place_def)

lemma merge_copy_parts:
  fixes k had n
  defines "nw \<equiv> (if newer (dn_seen n) (dn_seen had) then n else had)"
    and "old \<equiv> (if newer (dn_seen n) (dn_seen had) then had else n)"
  shows "dn_name (merge_copy k had n) = name_or (dn_name nw) (dn_name old)"
    "dn_role (merge_copy k had n) = or_other (dn_role nw) (dn_role old)"
    "place (merge_copy k had n) = place (if isPositioned nw then nw else old)"
    "dn_seen (merge_copy k had n) = dn_seen nw"
  by (simp_all add: merge_copy_def nw_def old_def place_def)

lemma isPositioned_place: "isPositioned n \<longleftrightarrow> fst (place n) \<noteq> None \<and> snd (place n) \<noteq> None"
  by (simp add: isPositioned_def place_def)

lemma keeps_name: "keeps named dn_name cs had \<Longrightarrow> keeps named dn_name (cs @ [n]) (merge_copy k had n)"
  by (erule keeps_pick) (auto simp: named_def name_or_def merge_copy_parts(1))

lemma keeps_role: "keeps roled dn_role cs had \<Longrightarrow> keeps roled dn_role (cs @ [n]) (merge_copy k had n)"
  by (erule keeps_pick) (auto simp: roled_def or_other_def merge_copy_parts(2) split: option.splits if_splits)

lemma keeps_place: "keeps isPositioned place cs had \<Longrightarrow> keeps isPositioned place (cs @ [n]) (merge_copy k had n)"
  by (erule keeps_pick) (auto simp: isPositioned_place merge_copy_parts(3))

lemma sums_up_merge:
  assumes "sums_up cs had"
  shows "sums_up (cs @ [n]) (merge_copy k had n)"
proof -
  let ?m = "merge_copy k had n"
  have seen: "seen_value ?m = max (seen_value had) (seen_value n)"
    by (simp add: seen_value_def merge_copy_parts(4) newer_def)
  have "\<forall>c \<in> set cs. seen_value c \<le> seen_value had" "\<exists>c \<in> set cs. dn_seen c = dn_seen had"
    using assms by (simp_all add: sums_up_def)
  then have "\<forall>c \<in> set (cs @ [n]). seen_value c \<le> seen_value ?m"
    "\<exists>c \<in> set (cs @ [n]). dn_seen c = dn_seen ?m"
    unfolding seen by (fastforce, simp add: merge_copy_parts(4))
  then show ?thesis
    using assms unfolding sums_up_def by (blast intro: keeps_name keeps_role keeps_place)
qed

lemma one_copy_simps [simp]:
  "one_copy k None n = Some (n\<lparr>dn_publicKey := k\<rparr>)"
  "one_copy k (Some had) n = Some (merge_copy k had n)"
  by (simp_all add: one_copy_def)

text \<open>A fold whose start is one copy sums all of them up.\<close>

lemma fold_sums_up:
  "cs \<noteq> [] \<Longrightarrow> \<exists>m. foldl (one_copy k) None cs = Some m \<and> dn_publicKey m = k \<and> sums_up cs m"
proof (induction cs rule: rev_induct)
  case (snoc n cs)
  show ?case
  proof (cases "cs = []")
    case True
    then show ?thesis by (simp add: sums_up_first)
  next
    case False
    then obtain m where "foldl (one_copy k) None cs = Some m" "sums_up cs m" using snoc.IH by blast
    then show ?thesis by (simp add: sums_up_merge)
  qed
qed simp

lemma byKey_spec: "byKey (newNodeDirectory v nodes) k = directory_spec nodes (toLowerCase k)"
  by (simp add: byKey_def newNodeDirectory_def Let_def fold_add_lookup directory_spec_def)

lemma byKey_sums_up:
  assumes "n \<in> set nodes" "toLowerCase (dn_publicKey n) = toLowerCase k"
  shows "\<exists>m. byKey (newNodeDirectory v nodes) k = Some m \<and> sums_up (copies (toLowerCase k) nodes) m"
proof -
  have "copies (toLowerCase k) nodes \<noteq> []" using assms by (auto simp: copies_def filter_empty_conv)
  from fold_sums_up [OF this] show ?thesis by (auto simp: byKey_spec directory_spec_def)
qed

lemma byKey_None:
  "byKey (newNodeDirectory v nodes) k = None \<longleftrightarrow> (\<forall>n \<in> set nodes. toLowerCase (dn_publicKey n) \<noteq> toLowerCase k)"
proof -
  have "copies (toLowerCase k) nodes = [] \<longleftrightarrow> (\<forall>n \<in> set nodes. toLowerCase (dn_publicKey n) \<noteq> toLowerCase k)"
    by (simp add: copies_def filter_empty_conv)
  moreover have "directory_spec nodes k' = None \<longleftrightarrow> copies k' nodes = []" for k'
    using fold_sums_up [of "copies k' nodes" k'] by (cases "copies k' nodes") (auto simp: directory_spec_def)
  ultimately show ?thesis by (simp add: byKey_spec)
qed

lemma prefix_names_single:
  assumes "set (prefix_names i d) = {name}"
  shows "(\<exists>n \<in> set (withPrefix d i). trim (or_empty (dn_name n)) = name)
    \<and> (\<forall>n \<in> set (withPrefix d i). trim (or_empty (dn_name n)) \<in> {[], name})"
proof -
  let ?f = "trim \<circ> or_empty \<circ> dn_name"
  have "set (prefix_names i d) = {t \<in> ?f ` set (withPrefix d i). t \<noteq> []}"
    by (simp add: prefix_names_def)
  with assms have "{t \<in> ?f ` set (withPrefix d i). t \<noteq> []} = {name}" by simp
  then have "name \<in> ?f ` set (withPrefix d i)" "\<forall>t \<in> ?f ` set (withPrefix d i). t \<in> {[], name}" by blast+
  then show ?thesis by fastforce
qed

subsection \<open>Properties\<close>

text \<open>C13: the directory refines a map from lower-case keys to what the copies of that key add up to,
  merged in the order they came: a lookup by key answers that map, the nodes it lists have the keys
  of the copies, each once, and looking up a prefix of whole bytes through the three indexes gives
  exactly the nodes whose key begins with it, in the directory's order.\<close>

theorem directory_refines:
  assumes "full_keys nodes"
  shows "byKey (newNodeDirectory v nodes) k = directory_spec nodes (toLowerCase k)
    \<and> distinct (map dn_publicKey (all_nodes (newNodeDirectory v nodes)))
    \<and> set (map dn_publicKey (all_nodes (newNodeDirectory v nodes))) = (toLowerCase \<circ> dn_publicKey) ` set nodes
    \<and> (even (length p) \<longrightarrow> withPrefix (newNodeDirectory v nodes) p
        = (if length p < 2 then []
           else filter (\<lambda>n. startsWith (dn_publicKey n) (toLowerCase p)) (all_nodes (newNodeDirectory v nodes))))"
proof -
  let ?ks = "nd_keys (newNodeDirectory v nodes)"
  have names: "map dn_publicKey (all_nodes (newNodeDirectory v nodes)) = amap_keys ?ks"
    unfolding all_nodes_def by (rule keys_ok_names [OF directory_keys(1)])
  moreover have "amap_ok ?ks" using directory_keys(1) [of v nodes] by (simp add: keys_ok_def)
  moreover have "set (amap_keys ?ks) = (toLowerCase \<circ> dn_publicKey) ` set nodes"
    using directory_keys(2) [of v nodes] by (simp add: dom_map_of_conv_image_fst)
  moreover have "length p < 2 \<Longrightarrow> withPrefix (newNodeDirectory v nodes) p = []"
    by (simp add: withPrefix_def)
  ultimately show ?thesis
    using withPrefix_filters [OF assms] unfolding names by (simp add: byKey_spec)
qed

definition sample_node :: "nat \<Rightarrow> jstr option \<Rightarrow> int \<Rightarrow> directory_node" where
  "sample_node c name seen = \<lparr>dn_publicKey = replicate 64 c, dn_name = name, dn_role = None,
     dn_lat = None, dn_lon = None, dn_seen = Some seen\<rparr>"

theorem directory_refines_witness:
  "withPrefix (newNodeDirectory 1 [sample_node 97 None 5, sample_node 98 None 6]) (str ''AAAA'')
   = filter (\<lambda>n. startsWith (dn_publicKey n) (str ''aaaa''))
       (all_nodes (newNodeDirectory 1 [sample_node 97 None 5, sample_node 98 None 6]))"
  using directory_refines [of "[sample_node 97 None 5, sample_node 98 None 6]" 1 "[]" "str ''AAAA''"]
  by (simp add: full_keys_def sample_node_def toLowerCase_def lower_char_def)

text \<open>Merging the copies of a node loses nothing any of them knows: the node kept has a name, a
  role or a position exactly when one of the copies has, and then it is that of one of them (the
  two coordinates of one and the same copy), and it was last heard when the latest copy was.\<close>

theorem directory_keeps_knowledge:
  assumes "n \<in> set nodes" "toLowerCase (dn_publicKey n) = toLowerCase k"
  shows "\<exists>m. byKey (newNodeDirectory v nodes) k = Some m
    \<and> keeps named dn_name (copies (toLowerCase k) nodes) m
    \<and> keeps roled dn_role (copies (toLowerCase k) nodes) m
    \<and> keeps isPositioned place (copies (toLowerCase k) nodes) m
    \<and> (\<forall>c \<in> set (copies (toLowerCase k) nodes). seen_value c \<le> seen_value m)
    \<and> (\<exists>c \<in> set (copies (toLowerCase k) nodes). dn_seen c = dn_seen m)"
  using byKey_sums_up [OF assms] unfolding sums_up_def .

theorem directory_keeps_knowledge_witness:
  "\<exists>m. byKey (newNodeDirectory 1 [sample_node 97 (Some (str ''A'')) 5, sample_node 65 None 6]) (replicate 64 97) = Some m
     \<and> keeps named dn_name
         (copies (toLowerCase (replicate 64 97)) [sample_node 97 (Some (str ''A'')) 5, sample_node 65 None 6]) m"
proof -
  have "sample_node 65 None 6 \<in> set [sample_node 97 (Some (str ''A'')) 5, sample_node 65 None 6]" by simp
  moreover have "toLowerCase (dn_publicKey (sample_node 65 None 6)) = toLowerCase (replicate 64 97)"
    by (simp add: sample_node_def toLowerCase_def lower_char_def)
  ultimately show ?thesis using directory_keeps_knowledge by blast
qed

text \<open>A name shown for a relay, a hash or another short id (up to three bytes) is marked as a
  guess, and it is only shown when it is the name of the one positioned node with that prefix in
  reach of where it was heard, or when every node with that prefix that has a name has this one
  (and then no node with the prefix is known to stand elsewhere, for an id placed by reach).\<close>

theorem short_id_names_are_guesses:
  assumes "s_kind s \<notin> {Some ChannelName, Some AdvertPubkey}" "length (sender_id s) \<le> 6"
    and "np_name (nameParts s (attribute_sender s h d) d) = name" "name \<noteq> []"
  shows "np_mark (nameParts s (attribute_sender s h d) d) = GUESS_MARK
    \<and> ((\<exists>n la lo. ha_lat h = Some la \<and> ha_lon h = Some lo \<and> dn_name n = Some name
         \<and> filter (node_within (la, lo) (reachKm (ha_rssi h))) (positionedWithPrefix d (sender_id s)) = [n])
      \<or> (\<not> in_kinds s HASH_KINDS
         \<and> (in_kinds s PLACED_KINDS \<and> length (sender_id s) \<in> set PLACED_LENGTHS
              \<longrightarrow> positionedWithPrefix d (sender_id s) = [])
         \<and> (\<exists>n \<in> set (withPrefix d (sender_id s)). trim (or_empty (dn_name n)) = name)
         \<and> (\<forall>n \<in> set (withPrefix d (sender_id s)). trim (or_empty (dn_name n)) \<in> {[], name})))"
proof (cases "\<exists>n. attribute_sender s h d = Some (RuleNode n)")
  case True
  then obtain n where n: "attribute_sender s h d = Some (RuleNode n)" by blast
  then have "\<exists>la lo. ha_lat h = Some la \<and> ha_lon h = Some lo
      \<and> filter (node_within (la, lo) (reachKm (ha_rssi h))) (positionedWithPrefix d (sender_id s)) = [n]"
    by (auto simp: attribute_sender_def Let_def split: if_splits option.splits list.splits)
  moreover have "dn_name n = Some name \<and> np_mark (nameParts s (Some (RuleNode n)) d) = GUESS_MARK"
    using assms unfolding n
    by (auto simp: nameParts_def Let_def NO_NAME_def or_empty_def split: if_splits option.splits)
  ultimately show ?thesis unfolding n by blast
next
  case False
  let ?a = "attribute_sender s h d" and ?i = "sender_id s"
  have c: "nameParts s ?a d = consensus ?i d \<and> \<not> in_kinds s [PathHash, DirectHash] \<and> ?a \<noteq> Some (RuleEstimate True)
      \<and> (\<forall>k. ?a \<noteq> Some (RuleCollision k))"
    using assms False
    by (auto simp: nameParts_def Let_def NO_NAME_def split: if_splits option.splits attribution.splits)
  have "positionedWithPrefix d ?i = []" if "in_kinds s PLACED_KINDS \<and> length ?i \<in> set PLACED_LENGTHS"
  proof (rule ccontr)
    assume "positionedWithPrefix d ?i \<noteq> []"
    with that c False show False
      by (auto simp: attribute_sender_def Let_def split: option.splits list.splits)
  qed
  moreover have p: "prefix_names ?i d = [name] \<and> np_mark (consensus ?i d) = GUESS_MARK"
    using c assms by (auto simp: consensus_def NO_NAME_def split: list.splits)
  then have "set (prefix_names ?i d) = {name}" by simp
  then have names: "(\<exists>n \<in> set (withPrefix d ?i). trim (or_empty (dn_name n)) = name)
      \<and> (\<forall>n \<in> set (withPrefix d ?i). trim (or_empty (dn_name n)) \<in> {[], name})"
    by (rule prefix_names_single)
  moreover have "\<not> in_kinds s HASH_KINDS" using c by (simp add: HASH_KINDS_def)
  moreover have "np_mark (nameParts s ?a d) = GUESS_MARK" using c p by simp
  ultimately show ?thesis by blast
qed

definition sample_sender :: sender where
  "sample_sender = \<lparr>s_kind = Some Relay, s_id = Some (str ''aaaa''), s_label = None, s_role = None\<rparr>"

theorem short_id_names_are_guesses_witness:
  "np_mark (nameParts sample_sender
      (attribute_sender sample_sender \<lparr>ha_lat = None, ha_lon = None, ha_rssi = None\<rparr>
        (newNodeDirectory 1 [sample_node 97 (Some (str ''Hill'')) 5]))
      (newNodeDirectory 1 [sample_node 97 (Some (str ''Hill'')) 5])) = GUESS_MARK"
proof -
  let ?d = "newNodeDirectory 1 [sample_node 97 (Some (str ''Hill'')) 5]"
  let ?h = "\<lparr>ha_lat = None, ha_lon = None, ha_rssi = None\<rparr>"
  have i: "sender_id sample_sender = str ''aaaa''"
    by (simp add: sender_id_def sample_sender_def toLowerCase_def lower_char_def)
  have "full_keys [sample_node 97 (Some (str ''Hill'')) 5]" by (simp add: full_keys_def sample_node_def)
  from withPrefix_filters [OF this, of "str ''aaaa''" 1]
  have w: "withPrefix ?d (str ''aaaa'') = [sample_node 97 (Some (str ''Hill'')) 5]"
    by (simp add: all_nodes_def newNodeDirectory_def add_node_def sample_node_def toLowerCase_def
        lower_char_def startsWith_def Let_def)
  have t: "trim (str ''Hill'') = str ''Hill''" by (rule trim_no_ws) (simp add: is_ws_def)
  have "positionedWithPrefix ?d (str ''aaaa'') = []"
    unfolding positionedWithPrefix_def w by (simp add: sample_node_def isPositioned_def)
  then have a: "attribute_sender sample_sender ?h ?d = Some (RuleEstimate False)"
    unfolding attribute_sender_def i Let_def
    by (simp add: in_kinds_def sample_sender_def PLACED_KINDS_def PLACED_LENGTHS_def)
  have "prefix_names (str ''aaaa'') ?d = [str ''Hill'']"
    using t unfolding prefix_names_def w by (simp add: sample_node_def or_empty_def)
  then have n: "nameParts sample_sender (Some (RuleEstimate False)) ?d
      = \<lparr>np_mark = GUESS_MARK, np_name = str ''Hill''\<rparr>"
    unfolding nameParts_def i consensus_def
    by (simp add: sample_sender_def in_kinds_def HEX_text_def is_lower_hex_def)
  show ?thesis
    using short_id_names_are_guesses [of sample_sender ?h ?d "str ''Hill''"]
    unfolding a n i by (simp add: sample_sender_def)
qed

end
