(* ===== verification/LiveView.thy ===== *)
theory LiveView
imports Names Nmea "HOL-Library.Multiset"
begin

text \<open>What the driver's screen keeps and picks from: the log of receptions
  (\<^verbatim>\<open>liveLog.ts\<close>), the senders a driver can follow (\<^verbatim>\<open>targets.ts\<close>), signal tiers
  (\<^verbatim>\<open>signal.ts\<close>) and the radio's battery (\<^verbatim>\<open>radio/battery.ts\<close>).\<close>

subsection \<open>The log\<close>

record live_entry =
  le_id :: nat
  le_at :: int
  le_rssi :: "real option"
  le_snr :: "real option"
  le_payloadType :: "nat option"
  le_typeName :: jstr
  le_direct :: "bool option"
  le_hops :: "nat option"
  le_lat :: "real option"
  le_lon :: "real option"
  le_kept :: bool
  le_packetType :: jstr
  le_heardDirect :: bool
  le_sender :: sender
  le_channel :: "jstr option"
  le_text :: "jstr option"
  le_stored :: bool
  le_heardUsSnr :: "real option"

definition STORE_MAX :: nat where "STORE_MAX = 5000"

record live_log =
  ll_live :: "live_entry list"
  ll_history :: "live_entry list"
  ll_nextId :: nat

definition newLiveLog :: live_log where
  "newLiveLog = \<lparr>ll_live = [], ll_history = [], ll_nextId = 1\<rparr>"

text \<open>An entry comes without its id; the \<open>le_id\<close> it has is not read.\<close>

definition log_push :: "live_entry \<Rightarrow> live_log \<Rightarrow> live_entry \<times> live_log" where
  "log_push e l =
     (let entry = e\<lparr>le_id := ll_nextId l\<rparr>
      in (entry, l\<lparr>ll_live := take STORE_MAX (entry # ll_live l), ll_nextId := ll_nextId l + 1\<rparr>))"

fun history_loop :: "live_entry list \<Rightarrow> live_log \<Rightarrow> live_log" where
  "history_loop [] l = l"
| "history_loop (e # es) l =
     history_loop es (l\<lparr>ll_history := ll_history l @ [e\<lparr>le_id := ll_nextId l\<rparr>],
                        ll_nextId := ll_nextId l + 1\<rparr>)"

definition log_addHistory :: "live_entry list \<Rightarrow> live_log \<Rightarrow> live_log" where
  "log_addHistory es l = history_loop (take (STORE_MAX - length (ll_history l)) es) l"

definition log_clearHistory :: "live_log \<Rightarrow> live_log" where
  "log_clearHistory l = l\<lparr>ll_history := []\<rparr>"

definition log_entries :: "live_log \<Rightarrow> live_entry list" where
  "log_entries l = (if ll_history l \<noteq> [] then ll_live l @ ll_history l else ll_live l)"

definition log_clear :: "live_log \<Rightarrow> live_log" where
  "log_clear l = l\<lparr>ll_live := [], ll_history := []\<rparr>"

subsection \<open>Targets\<close>

definition TARGET_KINDS :: "sender_kind list" where
  "TARGET_KINDS = [ChannelName, AdvertPubkey, DiscoverPubkey, Relay]"

record target_entry = filterable +
  te_rssi :: "real option"
  te_name :: name_parts

record target_row =
  tr_id :: jstr
  tr_sender :: sender
  tr_name :: name_parts
  tr_rssi :: "real option"
  tr_at :: int

definition target_id :: "jstr list \<Rightarrow> 'a filterable_scheme \<Rightarrow> jstr option" where
  "target_id ignore e =
     (case s_id (fe_sender e) of
        None \<Rightarrow> None
      | Some i \<Rightarrow>
          if i = [] \<or> \<not> in_kinds (fe_sender e) TARGET_KINDS then None
          else if toLowerCase i \<in> set ignore then None
          else Some i)"

definition row_of :: "jstr \<Rightarrow> target_entry \<Rightarrow> target_row" where
  "row_of i e = \<lparr>tr_id = i, tr_sender = fe_sender e, tr_name = te_name e,
                 tr_rssi = te_rssi e, tr_at = fe_at e\<rparr>"

fun rows_loop :: "jstr list \<Rightarrow> target_entry list \<Rightarrow> (jstr \<times> target_row) list \<Rightarrow> (jstr \<times> target_row) list" where
  "rows_loop ignore [] rows = rows"
| "rows_loop ignore (e # es) rows =
     (case target_id ignore e of
        None \<Rightarrow> rows_loop ignore es rows
      | Some i \<Rightarrow>
          (case map_of rows i of
             None \<Rightarrow> rows_loop ignore es (amap_set i (row_of i e) rows)
           | Some had \<Rightarrow>
               if fe_at e > tr_at had then rows_loop ignore es (amap_set i (row_of i e) rows)
               else rows_loop ignore es rows))"

definition senderRows :: "target_entry list \<Rightarrow> jstr list \<Rightarrow> target_row list" where
  "senderRows entries ignore = map snd (rows_loop ignore entries [])"

fun contains :: "jstr \<Rightarrow> jstr \<Rightarrow> bool" where
  "contains [] q \<longleftrightarrow> q = []"
| "contains (c # s) q \<longleftrightarrow> startsWith (c # s) q \<or> contains s q"

definition matchesQuery :: "target_row \<Rightarrow> jstr \<Rightarrow> bool" where
  "matchesQuery row q =
     (let query = toLowerCase (trim q) in
      if query = [] then True
      else contains (toLowerCase (np_name (tr_name row))) query
           \<or> startsWith (toLowerCase (tr_id row)) query)"

text \<open>\<open>collate\<close> stands for the browser's collation key: \<^verbatim>\<open>localeCompare\<close> with base
  sensitivity orders texts by it.\<close>

definition senderList :: "(jstr \<Rightarrow> 'c :: linorder) \<Rightarrow> target_row list \<Rightarrow> jstr \<Rightarrow> target_row list" where
  "senderList collate rows query =
     sort_key (\<lambda>r. collate (if np_name (tr_name r) \<noteq> [] then np_name (tr_name r) else tr_id r))
       (filter (\<lambda>r. matchesQuery r query) rows)"

definition NO_SIGNAL :: real where "NO_SIGNAL = - 200"
definition AGE_PENALTY_S :: real where "AGE_PENALTY_S = 30"

definition row_score :: "int \<Rightarrow> target_row \<Rightarrow> real" where
  "row_score nowMs r =
     (case tr_rssi r of None \<Rightarrow> NO_SIGNAL | Some x \<Rightarrow> x)
     - of_int (max 0 (nowMs - tr_at r)) / 1000 / AGE_PENALTY_S"

definition topSenders :: "target_row list \<Rightarrow> int \<Rightarrow> nat \<Rightarrow> target_row list" where
  "topSenders rows nowMs k =
     (if length rows \<le> k then []
      else take k (sort_key (\<lambda>r. - row_score nowMs r) rows))"

subsection \<open>Signal tiers\<close>

datatype rssi_tier = Hot | Warm | Mid | Cool | Cold | Faint | NoTier

definition FLOORS :: "(real \<times> rssi_tier) list" where
  "FLOORS = [(- 80, Hot), (- 90, Warm), (- 100, Mid), (- 110, Cool), (- 115, Cold)]"

fun floor_loop :: "real \<Rightarrow> (real \<times> rssi_tier) list \<Rightarrow> rssi_tier" where
  "floor_loop v [] = Faint"
| "floor_loop v ((lowest, tier) # fs) = (if v \<ge> lowest then tier else floor_loop v fs)"

definition rssiTier :: "jsnum option \<Rightarrow> real \<Rightarrow> rssi_tier" where
  "rssiTier rssi offset =
     (case rssi of Some (Fin r) \<Rightarrow> floor_loop (r + offset) FLOORS | _ \<Rightarrow> NoTier)"

fun js_sub :: "jsnum \<Rightarrow> jsnum \<Rightarrow> jsnum" where
  "js_sub (Fin a) (Fin b) = Fin (a - b)"
| "js_sub NaN _ = NaN"
| "js_sub _ NaN = NaN"
| "js_sub PInf PInf = NaN"
| "js_sub NInf NInf = NaN"
| "js_sub PInf _ = PInf"
| "js_sub NInf _ = NInf"
| "js_sub (Fin _) PInf = NInf"
| "js_sub (Fin _) NInf = PInf"

definition plotOffset :: "jsnum \<Rightarrow> jsnum \<Rightarrow> jsnum" where
  "plotOffset calibrationDb attenuatorDb =
     js_sub (if calibrationDb = NaN then Fin 0 else calibrationDb)
            (if attenuatorDb = NaN then Fin 0 else attenuatorDb)"

definition ATTENUATOR_STEPS :: "int list" where "ATTENUATOR_STEPS = [0, - 10, - 20, - 30]"

definition parseAttenuator :: "jstr option \<Rightarrow> int" where
  "parseAttenuator v =
     (case (case v of None \<Rightarrow> Fin 0 | Some s \<Rightarrow> js_Number s) of
        Fin x \<Rightarrow> (case find (\<lambda>k. of_int k = x) ATTENUATOR_STEPS of Some k \<Rightarrow> k | None \<Rightarrow> 0)
      | _ \<Rightarrow> 0)"

fun NORMAL :: "rssi_tier \<Rightarrow> jstr" where
  "NORMAL Hot = str ''#ef4444''"
| "NORMAL Warm = str ''#f97316''"
| "NORMAL Mid = str ''#eab308''"
| "NORMAL Cool = str ''#06b6d4''"
| "NORMAL Cold = str ''#3b82f6''"
| "NORMAL Faint = str ''#6366f1''"
| "NORMAL NoTier = str ''#9ca3af''"

fun CVD :: "rssi_tier \<Rightarrow> jstr" where
  "CVD Hot = str ''#fde725''"
| "CVD Warm = str ''#7ad151''"
| "CVD Mid = str ''#22a884''"
| "CVD Cool = str ''#2a788e''"
| "CVD Cold = str ''#414487''"
| "CVD Faint = str ''#440154''"
| "CVD NoTier = str ''#9ca3af''"

definition tierColor :: "rssi_tier \<Rightarrow> bool \<Rightarrow> jstr" where
  "tierColor tier cvd = (if cvd then CVD tier else NORMAL tier)"

subsection \<open>The battery\<close>

definition MV_EMPTY :: real where "MV_EMPTY = 3000"
definition MV_FULL :: real where "MV_FULL = 4200"
definition MULTI_CELL_MV :: real where "MULTI_CELL_MV = 5000"
definition LOW_BATTERY_MV :: real where "LOW_BATTERY_MV = 3500"
definition MIN_MEASURED_MV :: real where "MIN_MEASURED_MV = 1000"

definition batteryKnown :: "jsnum option \<Rightarrow> bool" where
  "batteryKnown mv = (case mv of Some (Fin r) \<Rightarrow> r \<ge> MIN_MEASURED_MV | _ \<Rightarrow> False)"

definition batteryPercent :: "jsnum option \<Rightarrow> int option" where
  "batteryPercent mv =
     (case mv of
        Some (Fin r) \<Rightarrow>
          if \<not> batteryKnown mv \<or> r > MULTI_CELL_MV then None
          else
            let pct = js_round ((r - MV_EMPTY) * 100 / (MV_FULL - MV_EMPTY))
            in Some (max 0 (min 100 pct))
      | _ \<Rightarrow> None)"

definition isLowBattery :: "jsnum option \<Rightarrow> bool" where
  "isLowBattery mv =
     (batteryKnown mv
      \<and> (case mv of Some (Fin r) \<Rightarrow> r \<le> MULTI_CELL_MV \<and> r < LOW_BATTERY_MV | _ \<Rightarrow> False))"


subsection \<open>The log refines two bounded lists\<close>

datatype log_op = Push live_entry | AddHistory "live_entry list" | ClearHistory | Clear

fun log_step :: "live_log \<Rightarrow> log_op \<Rightarrow> live_log" where
  "log_step l (Push e) = snd (log_push e l)"
| "log_step l (AddHistory es) = log_addHistory es l"
| "log_step l ClearHistory = log_clearHistory l"
| "log_step l Clear = log_clear l"

text \<open>The specification: everything pushed since the last clear, newest first, and the stored
  receptions, at most \<open>STORE_MAX\<close>, without ids.\<close>

definition anon :: "live_entry \<Rightarrow> live_entry" where "anon e = e\<lparr>le_id := 0\<rparr>"

fun spec_step :: "live_entry list \<times> live_entry list \<Rightarrow> log_op \<Rightarrow> live_entry list \<times> live_entry list" where
  "spec_step (p, h) (Push e) = (anon e # p, h)"
| "spec_step (p, h) (AddHistory es) = (p, take STORE_MAX (h @ map anon es))"
| "spec_step (p, h) ClearHistory = (p, [])"
| "spec_step (p, h) Clear = ([], [])"

definition log_ids :: "live_log \<Rightarrow> nat list" where
  "log_ids l = map le_id (ll_live l @ ll_history l)"

definition log_ok :: "live_log \<Rightarrow> bool" where
  "log_ok l \<longleftrightarrow> distinct (log_ids l) \<and> (\<forall>i \<in> set (log_ids l). i < ll_nextId l)
     \<and> length (ll_live l) \<le> STORE_MAX \<and> length (ll_history l) \<le> STORE_MAX"

definition log_abs :: "live_log \<Rightarrow> live_entry list \<times> live_entry list \<Rightarrow> bool" where
  "log_abs l s \<longleftrightarrow> map anon (ll_live l) = take STORE_MAX (fst s) \<and> map anon (ll_history l) = snd s"

lemma anon_id [simp]: "anon (e\<lparr>le_id := i\<rparr>) = anon e"
  by (simp add: anon_def)

lemma history_loop_result:
  "ll_live (history_loop es l) = ll_live l
   \<and> map anon (ll_history (history_loop es l)) = map anon (ll_history l) @ map anon es
   \<and> map le_id (ll_history (history_loop es l)) = map le_id (ll_history l) @ [ll_nextId l..<ll_nextId l + length es]
   \<and> ll_nextId (history_loop es l) = ll_nextId l + length es"
proof (induction es l rule: history_loop.induct)
  case (2 e es l)
  have "[ll_nextId l..<ll_nextId l + length (e # es)] = ll_nextId l # [Suc (ll_nextId l)..<Suc (ll_nextId l) + length es]"
    by (simp add: upt_conv_Cons del: upt_Suc)
  with 2 show ?case by (simp del: upt_Suc)
qed simp

lemma log_push_ok:
  assumes "log_ok l" shows "log_ok (snd (log_push e l))"
proof -
  let ?n = "ll_nextId l"
  let ?new = "map le_id (take STORE_MAX (e\<lparr>le_id := ?n\<rparr> # ll_live l))"
  have new: "?new = take STORE_MAX (?n # map le_id (ll_live l))"
    using take_map [of STORE_MAX le_id "e\<lparr>le_id := ?n\<rparr> # ll_live l"] by simp
  have sub: "set ?new \<subseteq> insert ?n (set (map le_id (ll_live l)))"
    unfolding new using set_take_subset by fastforce
  have old: "distinct (map le_id (ll_live l))" "distinct (map le_id (ll_history l))"
    "set (map le_id (ll_live l)) \<inter> set (map le_id (ll_history l)) = {}"
    "\<forall>i \<in> set (map le_id (ll_live l)) \<union> set (map le_id (ll_history l)). i < ?n"
    "length (ll_history l) \<le> STORE_MAX"
    using assms unfolding log_ok_def log_ids_def by auto
  have n: "?n \<notin> set (map le_id (ll_live l)) \<union> set (map le_id (ll_history l))"
    using old(4) by (metis less_irrefl)
  then have "distinct (?n # map le_id (ll_live l))" using old(1) by simp
  then have "distinct ?new" unfolding new by (rule distinct_take)
  moreover have "set ?new \<inter> set (map le_id (ll_history l)) = {}" using sub old(3) n by blast
  moreover have "\<forall>i \<in> set ?new \<union> set (map le_id (ll_history l)). i < ?n + 1"
  proof
    fix i assume "i \<in> set ?new \<union> set (map le_id (ll_history l))"
    then have "i = ?n \<or> i \<in> set (map le_id (ll_live l)) \<union> set (map le_id (ll_history l))"
      using sub by blast
    then show "i < ?n + 1" using old(4) less_add_one [of ?n] less_trans by blast
  qed
  moreover have "log_ids (snd (log_push e l)) = ?new @ map le_id (ll_history l)"
    by (simp add: log_ids_def log_push_def Let_def)
  moreover have "length (ll_live (snd (log_push e l))) \<le> STORE_MAX"
    "ll_history (snd (log_push e l)) = ll_history l" "ll_nextId (snd (log_push e l)) = ?n + 1"
    by (simp_all add: log_push_def Let_def)
  ultimately show ?thesis using old(2,5) unfolding log_ok_def by (metis distinct_append set_append)
qed

lemma log_addHistory_ok: "log_ok l \<Longrightarrow> log_ok (log_addHistory es l)"
proof -
  assume ok: "log_ok l"
  let ?es = "take (STORE_MAX - length (ll_history l)) es"
  have r: "log_ids (history_loop ?es l) = log_ids l @ [ll_nextId l..<ll_nextId l + length ?es]"
    "ll_nextId (history_loop ?es l) = ll_nextId l + length ?es"
    "ll_live (history_loop ?es l) = ll_live l"
    using history_loop_result [of ?es l] by (simp_all add: log_ids_def)
  have "length (ll_history (history_loop ?es l)) = length (ll_history l) + length ?es"
    using history_loop_result [of ?es l] by (metis length_append length_map)
  moreover have "length ?es \<le> STORE_MAX - length (ll_history l)" by simp
  ultimately have "length (ll_history (history_loop ?es l)) \<le> STORE_MAX"
    using ok unfolding log_ok_def by linarith
  then show ?thesis using ok
    unfolding log_ok_def log_addHistory_def r by fastforce
qed

lemma log_step_ok: "log_ok l \<Longrightarrow> log_ok (log_step l op)"
  by (cases op)
    (simp_all add: log_push_ok log_addHistory_ok, simp_all add: log_ok_def log_ids_def log_clearHistory_def log_clear_def)

lemma log_step_abs:
  assumes "log_ok l" "log_abs l s"
  shows "log_abs (log_step l op) (spec_step s op)"
proof (cases op)
  case (Push e)
  have "0 < STORE_MAX" by (simp add: STORE_MAX_def)
  then obtain k where k: "STORE_MAX = Suc k" by (cases STORE_MAX) auto
  have "take k (map anon (ll_live l)) = take k (fst s)"
    using assms(2) by (simp add: log_abs_def k min_def)
  then show ?thesis using assms(2) Push
    by (cases s) (simp add: log_abs_def log_push_def Let_def k take_map)
next
  case (AddHistory es)
  have "length (ll_history l) \<le> STORE_MAX" using assms(1) by (simp add: log_ok_def)
  moreover have "length (snd s) = length (ll_history l)"
    using assms(2) unfolding log_abs_def by (metis length_map)
  ultimately show ?thesis using assms(2) AddHistory history_loop_result [of "take (STORE_MAX - length (ll_history l)) es" l]
    by (cases s) (simp add: log_abs_def log_addHistory_def take_map)
qed (use assms in \<open>cases s; simp add: log_abs_def log_clearHistory_def log_clear_def\<close>)+

lemma log_run:
  "log_ok l \<Longrightarrow> log_abs l s \<Longrightarrow> log_ok (foldl log_step l ops) \<and> log_abs (foldl log_step l ops) (foldl spec_step s ops)"
proof (induction ops arbitrary: l s)
  case (Cons op ops)
  show ?case using Cons.IH [OF log_step_ok [OF Cons.prems(1)] log_step_abs [OF Cons.prems]] by simp
qed simp

lemma newLiveLog_ok: "log_ok newLiveLog" "log_abs newLiveLog ([], [])"
  by (simp_all add: log_ok_def log_abs_def newLiveLog_def log_ids_def)

subsection \<open>The rows of the target list\<close>

definition newest_row :: "jstr list \<Rightarrow> target_entry list \<Rightarrow> jstr \<Rightarrow> target_row \<Rightarrow> bool" where
  "newest_row ignore es i r \<longleftrightarrow>
     (\<exists>e \<in> set es. target_id ignore e = Some i \<and> r = row_of i e)
     \<and> (\<forall>e \<in> set es. target_id ignore e = Some i \<longrightarrow> fe_at e \<le> tr_at r)"

fun row_is :: "jstr list \<Rightarrow> target_entry list \<Rightarrow> jstr \<Rightarrow> target_row option \<Rightarrow> bool" where
  "row_is ignore es i None = (\<forall>e \<in> set es. target_id ignore e \<noteq> Some i)"
| "row_is ignore es i (Some r) = newest_row ignore es i r"

definition rows_of :: "jstr list \<Rightarrow> target_entry list \<Rightarrow> (jstr \<times> target_row) list \<Rightarrow> bool" where
  "rows_of ignore es rows \<longleftrightarrow> amap_ok rows \<and> (\<forall>i. row_is ignore es i (map_of rows i))"

lemma row_of_at [simp]: "tr_at (row_of i e) = fe_at e" "tr_id (row_of i e) = i"
  by (simp_all add: row_of_def)

lemma row_is_skip: "row_is ignore es i o' \<Longrightarrow> target_id ignore e \<noteq> Some i \<Longrightarrow> row_is ignore (es @ [e]) i o'"
  by (cases o') (auto simp: newest_row_def)

lemma row_is_older:
  "row_is ignore es i (Some r) \<Longrightarrow> target_id ignore e = Some i \<Longrightarrow> \<not> fe_at e > tr_at r \<Longrightarrow> row_is ignore (es @ [e]) i (Some r)"
  by (auto simp: newest_row_def)

lemma row_is_put:
  "row_is ignore es i o' \<Longrightarrow> target_id ignore e = Some i \<Longrightarrow> (\<And>r. o' = Some r \<Longrightarrow> fe_at e > tr_at r)
   \<Longrightarrow> row_is ignore (es @ [e]) i (Some (row_of i e))"
  by (cases o') (fastforce simp: newest_row_def)+

definition row_step :: "jstr list \<Rightarrow> (jstr \<times> target_row) list \<Rightarrow> target_entry \<Rightarrow> (jstr \<times> target_row) list" where
  "row_step ignore rows e = rows_loop ignore [e] rows"

lemma rows_loop_fold: "rows_loop ignore es rows = foldl (row_step ignore) rows es"
  by (induction ignore es rows rule: rows_loop.induct) (auto simp: row_step_def split: option.splits)

lemma row_step_rows:
  assumes "rows_of ignore es rows" shows "rows_of ignore (es @ [e]) (row_step ignore rows e)"
proof -
  have ok: "amap_ok rows" and ri: "row_is ignore es i (map_of rows i)" for i
    using assms by (simp_all add: rows_of_def)
  show ?thesis
  proof (cases "target_id ignore e")
    case None
    then show ?thesis using ok row_is_skip [OF ri] by (simp add: rows_of_def row_step_def)
  next
    case (Some j)
    have put: "rows_of ignore (es @ [e]) (amap_set j (row_of j e) rows)"
      if "\<And>r. map_of rows j = Some r \<Longrightarrow> fe_at e > tr_at r"
      unfolding rows_of_def map_of_amap_set
    proof (intro conjI allI)
      show "amap_ok (amap_set j (row_of j e) rows)" using ok by simp
      show "row_is ignore (es @ [e]) i (((map_of rows)(j \<mapsto> row_of j e)) i)" for i
        using row_is_put [OF ri Some that] row_is_skip [OF ri, of e i] Some by (cases "i = j") auto
    qed
    show ?thesis
    proof (cases "map_of rows j")
      case None
      then show ?thesis using put Some by (simp add: row_step_def)
    next
      case (Some had)
      show ?thesis
      proof (cases "fe_at e > tr_at had")
        case True
        then show ?thesis using put Some \<open>target_id ignore e = Some j\<close> by (simp add: row_step_def)
      next
        case False
        have "row_is ignore (es @ [e]) i (map_of rows i)" for i
        proof (cases "i = j")
          case True
          have "row_is ignore es j (Some had)" using ri [of j] Some by simp
          from row_is_older [OF this \<open>target_id ignore e = Some j\<close> False] show ?thesis
            using True Some by simp
        next
          case False
          then show ?thesis using row_is_skip [OF ri, of e i] \<open>target_id ignore e = Some j\<close> by simp
        qed
        then show ?thesis using ok False Some \<open>target_id ignore e = Some j\<close>
          by (simp add: rows_of_def row_step_def del: map_of_eq_Some_iff)
      qed
    qed
  qed
qed

lemma rows_loop_rows: "rows_of ignore es (rows_loop ignore es [])"
  unfolding rows_loop_fold
proof (induction es rule: rev_induct)
  case (snoc e es)
  then show ?case by (simp add: row_step_rows)
qed (simp add: rows_of_def)


lemma rows_names: "amap_ok rows \<Longrightarrow> \<forall>i. row_is ignore es i (map_of rows i) \<Longrightarrow> \<forall>(i, r) \<in> set rows. tr_id r = i \<and> newest_row ignore es i r"
proof
  fix p assume a: "amap_ok rows" "\<forall>i. row_is ignore es i (map_of rows i)" "p \<in> set rows"
  then have "map_of rows (fst p) = Some (snd p)" by (simp add: map_of_is_SomeI)
  with a(2) have "newest_row ignore es (fst p) (snd p)" by (metis row_is.simps(2))
  then show "case p of (i, r) \<Rightarrow> tr_id r = i \<and> newest_row ignore es i r"
    by (cases p) (auto simp: newest_row_def)
qed

subsection \<open>Properties\<close>

text \<open>Over any pushes, loads of stored receptions and clears, the log refines two plain lists:
  it shows the newest 5000 receptions pushed since the last clear, newest first, followed by at
  most 5000 stored ones in the order they were loaded, and no two entries ever share an id.\<close>

theorem live_log_refines:
  "let l = foldl log_step newLiveLog ops; s = foldl spec_step ([], []) ops
   in map anon (log_entries l) = take STORE_MAX (fst s) @ snd s
      \<and> distinct (map le_id (log_entries l)) \<and> length (log_entries l) \<le> 2 * STORE_MAX"
proof -
  let ?l = "foldl log_step newLiveLog ops" and ?s = "foldl spec_step ([], []) ops"
  have r: "log_ok ?l" "log_abs ?l ?s" using log_run [OF newLiveLog_ok] by auto
  have e: "log_entries ?l = ll_live ?l @ ll_history ?l" by (simp add: log_entries_def)
  have "map anon (log_entries ?l) = take STORE_MAX (fst ?s) @ snd ?s"
    using r(2) unfolding e log_abs_def by simp
  moreover have "distinct (map le_id (log_entries ?l)) \<and> length (log_entries ?l) \<le> 2 * STORE_MAX"
    using r(1) unfolding e log_ok_def log_ids_def by simp
  ultimately show ?thesis unfolding Let_def by blast
qed

text \<open>The list of senders a driver can follow has one row per sender that is one node and not
  ignored, each taken from that sender's newest reception; and the short Top list, when there is
  one, is sorted by score (signal less a dB per 30 s of age) and no sender left out of it scores
  higher than one in it.\<close>

theorem target_rows_newest:
  "distinct (map tr_id (senderRows es ignore))
   \<and> set (map tr_id (senderRows es ignore)) = {i. \<exists>e \<in> set es. target_id ignore e = Some i}
   \<and> (\<forall>r \<in> set (senderRows es ignore). newest_row ignore es (tr_id r) r)
   \<and> (\<exists>rest. mset rows = mset (topSenders rows nowMs k @ rest)
       \<and> sorted_wrt (\<lambda>a b. row_score nowMs b \<le> row_score nowMs a) (topSenders rows nowMs k)
       \<and> length (topSenders rows nowMs k) = (if length rows \<le> k then 0 else k)
       \<and> (\<forall>a \<in> set (topSenders rows nowMs k). \<forall>b \<in> set rest. row_score nowMs b \<le> row_score nowMs a))"
proof -
  let ?rows = "rows_loop ignore es []"
  have "rows_of ignore es ?rows" by (rule rows_loop_rows)
  then have ok: "amap_ok ?rows" and ri: "\<forall>i. row_is ignore es i (map_of ?rows i)" by (simp_all add: rows_of_def)
  have nm: "\<forall>(i, r) \<in> set ?rows. tr_id r = i \<and> newest_row ignore es i r" using rows_names [OF ok ri] .
  have ids: "map tr_id (senderRows es ignore) = amap_keys ?rows"
    using nm by (auto simp: senderRows_def)
  have "set (amap_keys ?rows) = {i. \<exists>e \<in> set es. target_id ignore e = Some i}"
  proof (intro set_eqI iffI)
    fix i assume "i \<in> set (amap_keys ?rows)"
    then obtain r where "(i, r) \<in> set ?rows" by force
    then show "i \<in> {i. \<exists>e \<in> set es. target_id ignore e = Some i}" using nm by (auto simp: newest_row_def)
  next
    fix i assume "i \<in> {i. \<exists>e \<in> set es. target_id ignore e = Some i}"
    then have "map_of ?rows i \<noteq> None" using ri [rule_format, of i] by (cases "map_of ?rows i") auto
    then show "i \<in> set (amap_keys ?rows)" by (metis map_of_eq_None_iff list.set_map)
  qed
  moreover have "\<forall>r \<in> set (senderRows es ignore). newest_row ignore es (tr_id r) r"
    using nm by (auto simp: senderRows_def)
  moreover define srt where "srt = sort_key (\<lambda>r. - row_score nowMs r) rows"
  have srt: "mset srt = mset rows" "sorted_wrt (\<lambda>a b. row_score nowMs b \<le> row_score nowMs a) srt"
  proof -
    have "sorted (map (\<lambda>r. - row_score nowMs r) srt)" by (simp add: srt_def)
    then show "sorted_wrt (\<lambda>a b. row_score nowMs b \<le> row_score nowMs a) srt"
      by (simp add: sorted_wrt_map)
  qed (simp add: srt_def)
  have top: "\<exists>rest. mset rows = mset (topSenders rows nowMs k @ rest)
       \<and> sorted_wrt (\<lambda>a b. row_score nowMs b \<le> row_score nowMs a) (topSenders rows nowMs k)
       \<and> length (topSenders rows nowMs k) = (if length rows \<le> k then 0 else k)
       \<and> (\<forall>a \<in> set (topSenders rows nowMs k). \<forall>b \<in> set rest. row_score nowMs b \<le> row_score nowMs a)"
  proof (cases "length rows \<le> k")
    case True
    then show ?thesis by (auto simp: topSenders_def)
  next
    case False
    then have t: "topSenders rows nowMs k = take k srt" by (simp add: topSenders_def srt_def)
    have "sorted_wrt (\<lambda>a b. row_score nowMs b \<le> row_score nowMs a) (take k srt @ drop k srt)"
      using srt(2) by simp
    moreover have "mset rows = mset (take k srt @ drop k srt)" using srt(1) by simp
    moreover have "length (take k srt) = k" using False by (simp add: srt_def)
    ultimately show ?thesis using False unfolding t sorted_wrt_append by (intro exI [of _ "drop k srt"]) simp
  qed
  ultimately show ?thesis using ok unfolding ids by blast
qed

text \<open>The percentage is between 0 and 100 and grows with the voltage; a pack that reads low has
  at most 42 percent.\<close>

lemma batteryPercent_range: "batteryPercent mv = Some p \<Longrightarrow> 0 \<le> p \<and> p \<le> 100"
  by (auto simp: batteryPercent_def Let_def split: option.splits jsnum.splits if_splits)

lemma batteryPercent_mono:
  "batteryPercent (Some (Fin a)) = Some p \<Longrightarrow> batteryPercent (Some (Fin b)) = Some q \<Longrightarrow> a \<le> b \<Longrightarrow> p \<le> q"
proof -
  assume "batteryPercent (Some (Fin a)) = Some p" "batteryPercent (Some (Fin b)) = Some q" "a \<le> b"
  moreover from this have "js_round ((a - MV_EMPTY) * 100 / (MV_FULL - MV_EMPTY)) \<le> js_round ((b - MV_EMPTY) * 100 / (MV_FULL - MV_EMPTY))"
    unfolding js_round_def by (intro floor_mono) (simp add: MV_FULL_def MV_EMPTY_def)
  ultimately show ?thesis by (auto simp: batteryPercent_def Let_def split: if_splits)
qed

lemma low_battery_percent: "isLowBattery mv \<Longrightarrow> batteryPercent mv = Some p \<Longrightarrow> p \<le> 42"
proof -
  assume low: "isLowBattery mv" and p: "batteryPercent mv = Some p"
  then obtain r where r: "mv = Some (Fin r)" "r < 3500"
    by (auto simp: isLowBattery_def LOW_BATTERY_MV_def split: option.splits jsnum.splits)
  then have "js_round ((r - MV_EMPTY) * 100 / (MV_FULL - MV_EMPTY)) \<le> 42"
    unfolding js_round_def by (simp add: MV_FULL_def MV_EMPTY_def floor_le_iff field_simps)
  then show ?thesis using p r by (auto simp: batteryPercent_def Let_def split: if_splits)
qed

end
