(* ===== verification/Hexgrid.thy ===== *)
theory Hexgrid
imports Json Complex_Main WdTypes
begin

text \<open>The hexagon grid of the coverage map (\<^verbatim>\<open>map/hexgrid.ts\<close>): pointy-top hexagons over
  Web Mercator metres; a cell id is its resolution and axial coordinates. Coordinates are reals,
  so the claims are about the grid's arithmetic, not its floating-point rounding.\<close>

definition R_M :: real where "R_M = 6378137"
definition SQRT3 :: real where "SQRT3 = sqrt 3"

definition SIZES :: "(int \<times> real) list" where
  "SIZES = [(6, 1500), (7, 720), (8, 360), (9, 180), (10, 90), (11, 40), (12, 20), (13, 10), (14, 5), (15, 3)]"

definition STEPS :: "(int \<times> int) list" where
  "STEPS = [(1, 0), (1, - 1), (0, - 1), (- 1, 0), (- 1, 1), (0, 1)]"

definition hexSize :: "int \<Rightarrow> real" where
  "hexSize res = the (map_of SIZES (min 15 (max 6 res)))"

definition hexResForZoom :: "real \<Rightarrow> int" where
  "hexResForZoom z =
     (if z \<ge> 19 then 15 else if z \<ge> 18 then 14 else if z \<ge> 17 then 13 else if z \<ge> 16 then 12
      else if z \<ge> 15 then 11 else if z \<ge> 13 then 10 else if z \<ge> 11 then 9 else if z \<ge> 9 then 8
      else if z \<ge> 7 then 7 else 6)"

definition mercator :: "real \<Rightarrow> real \<Rightarrow> real \<times> real" where
  "mercator lat lon = (R_M * lon * pi / 180, R_M * ln (tan (pi / 4 + lat * pi / 360)))"

text \<open>\<^verbatim>\<open>inverse\<close>, as latitude and longitude.\<close>

definition mercator_inverse :: "real \<Rightarrow> real \<Rightarrow> real \<times> real" where
  "mercator_inverse x y = ((2 * arctan (exp (y / R_M)) - pi / 2) * 180 / pi, x / R_M * 180 / pi)"

definition hex_round :: "real \<Rightarrow> real \<Rightarrow> int \<times> int" where
  "hex_round q r =
     (let y = - q - r;
          rx = js_round q; ry = js_round y; rz = js_round r;
          dx = \<bar>of_int rx - q\<bar>; dy = \<bar>of_int ry - y\<bar>; dz = \<bar>of_int rz - r\<bar>
      in if dx > dy \<and> dx > dz then (- ry - rz, rz)
         else if dy \<le> dz then (rx, - rx - ry)
         else (rx, rz))"

definition cell_text :: "int \<Rightarrow> int \<Rightarrow> int \<Rightarrow> jstr" where
  "cell_text res q r = decimal_int res @ [58] @ decimal_int q @ [58] @ decimal_int r"

definition axial_at :: "real \<Rightarrow> real \<times> real \<Rightarrow> int \<times> int" where
  "axial_at size' p =
     hex_round ((SQRT3 / 3 * fst p - snd p / 3) / size') (2 / 3 * snd p / size')"

definition cellAt :: "real \<Rightarrow> real \<Rightarrow> int \<Rightarrow> jstr" where
  "cellAt lat lon res =
     (case axial_at (hexSize res) (mercator lat lon) of (q, r) \<Rightarrow> cell_text res q r)"

definition is_integer :: "jstr \<Rightarrow> bool" where
  "is_integer s =
     (let d = (if s \<noteq> [] \<and> hd s = 45 then tl s else s) in d \<noteq> [] \<and> list_all is_digit d)"

definition integer_val :: "jstr \<Rightarrow> int" where
  "integer_val s =
     (if s \<noteq> [] \<and> hd s = 45 then - int (decimal_val (tl s)) else int (decimal_val s))"

definition parse_cell :: "jstr \<Rightarrow> (int \<times> int \<times> int) option" where
  "parse_cell cell =
     (case split_on 58 cell of
        [a, b, c] \<Rightarrow>
          if is_integer a \<and> is_integer b \<and> is_integer c
          then Some (integer_val a, integer_val b, integer_val c) else None
      | _ \<Rightarrow> None)"

definition centerXy :: "int \<Rightarrow> int \<Rightarrow> int \<Rightarrow> real \<times> real" where
  "centerXy res q r =
     (hexSize res * (SQRT3 * of_int q + SQRT3 / 2 * of_int r), hexSize res * 1.5 * of_int r)"

definition cellCenter :: "jstr \<Rightarrow> (real \<times> real) option" where
  "cellCenter cell =
     (case parse_cell cell of
        None \<Rightarrow> None
      | Some (res, q, r) \<Rightarrow> (case centerXy res q r of (x, y) \<Rightarrow> Some (mercator_inverse x y)))"

text \<open>The corners as longitude and latitude, closed.\<close>

definition ring_corner :: "real \<Rightarrow> real \<times> real \<Rightarrow> nat \<Rightarrow> real \<times> real" where
  "ring_corner size' c i =
     (let a = pi / 180 * (60 * of_nat i - 30);
          p = mercator_inverse (fst c + size' * cos a) (snd c + size' * sin a)
      in (snd p, fst p))"

definition cellRing :: "jstr \<Rightarrow> (real \<times> real) list option" where
  "cellRing cell =
     (case parse_cell cell of
        None \<Rightarrow> None
      | Some (res, q, r) \<Rightarrow>
          (let ring = map (ring_corner (hexSize res) (centerXy res q r)) [0..<6]
           in Some (ring @ [ring ! 0])))"

definition neighbours :: "jstr \<Rightarrow> jstr list" where
  "neighbours cell =
     (case parse_cell cell of
        None \<Rightarrow> []
      | Some (res, q, r) \<Rightarrow> map (\<lambda>(dq, dr). cell_text res (q + dq) (r + dr)) STEPS)"

subsection \<open>Cell ids\<close>

lemma digit_not_minus: "list_all is_digit s \<Longrightarrow> s \<noteq> [] \<Longrightarrow> hd s \<noteq> 45"
  by (cases s) (auto simp: is_digit_def)

lemma integer_text: "is_integer (decimal_int i) \<and> integer_val (decimal_int i) = i"
  using digit_not_minus [OF decimal_digits decimal_nonempty, of "nat \<bar>i\<bar>"]
  by (auto simp: decimal_int_def is_integer_def integer_val_def decimal_digits Let_def)

lemma integer_no_colon: "58 \<notin> set (decimal_int i)"
proof -
  have "58 \<notin> set (decimal n)" for n
    using decimal_digits [of n] by (auto simp: list_all_iff is_digit_def)
  then show ?thesis by (simp add: decimal_int_def)
qed

lemma parse_cell_text: "parse_cell (cell_text res q r) = Some (res, q, r)"
proof -
  have "split_on 58 (cell_text res q r) = [decimal_int res, decimal_int q, decimal_int r]"
    by (simp add: cell_text_def split_on_append split_on_no_sep integer_no_colon)
  then show ?thesis by (simp add: parse_cell_def integer_text)
qed

lemma cell_text_inject: "cell_text res q r = cell_text res' q' r' \<longleftrightarrow> res = res' \<and> q = q' \<and> r = r'"
  by (metis parse_cell_text option.inject prod.inject)

subsection \<open>Rounding\<close>

text \<open>Rounded coordinates are within a cell of the point: no coordinate is off by more than one,
  and the two kept ones by at most half.\<close>

lemma hex_round_int: "hex_round (of_int q) (of_int r) = (q, r)"
proof -
  have y: "- real_of_int q - real_of_int r = of_int (- q - r)" by simp
  show ?thesis unfolding hex_round_def Let_def y js_round_of_int by simp
qed

lemma hex_round_near:
  "hex_round q r = (a, b) \<Longrightarrow> \<bar>of_int a - q\<bar> \<le> 1 \<and> \<bar>of_int b - r\<bar> \<le> 1"
proof -
  assume h: "hex_round q r = (a, b)"
  define y where "y = - q - r"
  have "\<bar>of_int (js_round q) - q\<bar> \<le> 1 / 2" "\<bar>of_int (js_round r) - r\<bar> \<le> 1 / 2"
    "\<bar>of_int (js_round y) - y\<bar> \<le> 1 / 2" by (rule js_round_diff)+
  moreover have "(a, b) \<in> {(- js_round y - js_round r, js_round r), (js_round q, - js_round q - js_round y), (js_round q, js_round r)}"
    using h by (auto simp: hex_round_def Let_def y_def split: if_splits)
  ultimately show ?thesis
    using y_def unfolding abs_le_iff by auto
qed

lemma SQRT3_sq: "SQRT3 * SQRT3 = 3" by (simp add: SQRT3_def)

lemma hexSize_pos: "0 < hexSize res"
proof -
  define n where "n = min 15 (max 6 res)"
  have "6 \<le> n" "n \<le> 15" unfolding n_def by auto
  then have "n \<in> {6, 7, 8, 9, 10, 11, 12, 13, 14, 15}" unfolding insert_iff empty_iff by presburger
  then show ?thesis unfolding hexSize_def n_def [symmetric] by (auto simp: SIZES_def)
qed

lemma axial_at_center: "axial_at (hexSize res) (centerXy res q r) = (q, r)"
proof -
  let ?s = "hexSize res"
  have s: "?s \<noteq> 0" using hexSize_pos [of res] by simp
  have "(SQRT3 / 3 * (?s * (SQRT3 * of_int q + SQRT3 / 2 * of_int r)) - ?s * 1.5 * of_int r / 3) / ?s
      = SQRT3 * SQRT3 / 3 * of_int q + (SQRT3 * SQRT3 / 6 - 1 / 2) * of_int r"
    using s by (simp add: field_simps)
  then have "(SQRT3 / 3 * fst (centerXy res q r) - snd (centerXy res q r) / 3) / ?s = of_int q"
    by (simp add: centerXy_def SQRT3_sq)
  moreover have "2 / 3 * snd (centerXy res q r) / ?s = of_int r"
    using s by (simp add: centerXy_def)
  ultimately show ?thesis by (simp add: axial_at_def hex_round_int)
qed

lemma mercator_of_inverse: "mercator (fst (mercator_inverse x y)) (snd (mercator_inverse x y)) = (x, y)"
proof -
  have "pi / 4 + (2 * arctan (exp (y / R_M)) - pi / 2) * 180 / pi * pi / 360 = arctan (exp (y / R_M))"
    by (simp add: field_simps)
  moreover have "R_M \<noteq> 0" by (simp add: R_M_def)
  ultimately show ?thesis by (simp add: mercator_def mercator_inverse_def tan_arctan)
qed


lemma near_cells:
  assumes "axial_at (hexSize res) p = (q, r)"
  shows "\<bar>fst p - fst (centerXy res q r)\<bar> \<le> 3 * SQRT3 / 2 * hexSize res
    \<and> \<bar>snd p - snd (centerXy res q r)\<bar> \<le> 3 / 2 * hexSize res"
proof -
  let ?s = "hexSize res"
  define a where "a = (SQRT3 / 3 * fst p - snd p / 3) / ?s"
  define b where "b = 2 / 3 * snd p / ?s"
  have s: "0 < ?s" by (rule hexSize_pos)
  have near: "\<bar>of_int q - a\<bar> \<le> 1" "\<bar>of_int r - b\<bar> \<le> 1"
    using hex_round_near [of a b q r] assms by (simp_all add: axial_at_def a_def b_def)
  have y: "snd p = ?s * 3 / 2 * b" using s by (simp add: b_def)
  have "SQRT3 * SQRT3 * fst p = 3 * fst p" by (simp add: SQRT3_sq)
  then have x: "fst p = ?s * SQRT3 * (a + b / 2)"
    using s by (simp add: a_def b_def field_simps SQRT3_sq)
  have "SQRT3 > 0" by (simp add: SQRT3_def)
  have "fst p - fst (centerXy res q r) = ?s * SQRT3 * ((a - of_int q) + (b - of_int r) / 2)"
    by (simp add: x centerXy_def field_simps)
  moreover have "\<bar>(a - of_int q) + (b - of_int r) / 2\<bar> \<le> 3 / 2"
    using near by (simp add: abs_le_iff field_simps)
  ultimately have "\<bar>fst p - fst (centerXy res q r)\<bar> \<le> ?s * SQRT3 * (3 / 2)"
    using s \<open>SQRT3 > 0\<close> by (simp add: abs_mult)
  moreover have "snd p - snd (centerXy res q r) = ?s * 3 / 2 * (b - of_int r)"
    by (simp add: y centerXy_def field_simps)
  then have "\<bar>snd p - snd (centerXy res q r)\<bar> = ?s * 3 / 2 * \<bar>b - of_int r\<bar>"
    using s by (simp only: abs_mult, simp?)
  then have "\<bar>snd p - snd (centerXy res q r)\<bar> \<le> ?s * 3 / 2 * 1"
    using s near(2) by (simp only: abs_minus_commute [of "of_int r"]) (intro mult_left_mono; simp)
  ultimately show ?thesis by (simp add: mult.commute mult.left_commute)
qed

lemma neighbours_text: "neighbours (cell_text res q r) = map (\<lambda>(dq, dr). cell_text res (q + dq) (r + dr)) STEPS"
  by (simp add: neighbours_def parse_cell_text)

subsection \<open>Properties\<close>

text \<open>C17: a cell id names one cell, its centre lies in that cell and is found again from the id; the
  six neighbours are six other cells, each of which has the cell among its own; and the centre of
  the cell a place is put in is within one and a half edges of it north to south and one and a
  half cell widths east to west.\<close>

theorem cell_of_its_centre:
  shows "(\<exists>lat lon. cellCenter (cell_text res q r) = Some (lat, lon) \<and> cellAt lat lon res = cell_text res q r)
    \<and> parse_cell (cell_text res q r) = Some (res, q, r)
    \<and> distinct (neighbours (cell_text res q r)) \<and> length (neighbours (cell_text res q r)) = 6
    \<and> (\<forall>c \<in> set (neighbours (cell_text res q r)). c \<noteq> cell_text res q r \<and> cell_text res q r \<in> set (neighbours c))
    \<and> (\<exists>i j. cellAt la lo res = cell_text res i j
        \<and> \<bar>fst (mercator la lo) - fst (centerXy res i j)\<bar> \<le> 3 * SQRT3 / 2 * hexSize res
        \<and> \<bar>snd (mercator la lo) - snd (centerXy res i j)\<bar> \<le> 3 / 2 * hexSize res)"
proof -
  let ?c = "centerXy res q r"
  have "cellCenter (cell_text res q r) = Some (mercator_inverse (fst ?c) (snd ?c))"
    by (simp add: cellCenter_def parse_cell_text case_prod_unfold)
  moreover have "cellAt (fst (mercator_inverse (fst ?c) (snd ?c))) (snd (mercator_inverse (fst ?c) (snd ?c))) res
      = cell_text res q r"
    using axial_at_center [of res q r] by (simp add: cellAt_def mercator_of_inverse)
  ultimately have centre: "\<exists>lat lon. cellCenter (cell_text res q r) = Some (lat, lon) \<and> cellAt lat lon res = cell_text res q r"
    by (metis surjective_pairing)
  have n: "\<forall>c \<in> set (neighbours (cell_text res q r)). c \<noteq> cell_text res q r \<and> cell_text res q r \<in> set (neighbours c)"
    by (auto simp: neighbours_text STEPS_def cell_text_inject)
  have d: "distinct (neighbours (cell_text res q r)) \<and> length (neighbours (cell_text res q r)) = 6"
    by (simp add: neighbours_text STEPS_def cell_text_inject)
  obtain i j where ij: "axial_at (hexSize res) (mercator la lo) = (i, j)" by force
  then have "cellAt la lo res = cell_text res i j" by (simp add: cellAt_def)
  with near_cells [OF ij] show ?thesis using centre n d parse_cell_text by blast
qed

theorem cell_of_its_centre_witness:
  "cell_text 3 1 (-2) \<in> set (neighbours (cell_text 3 0 (-2)))"
proof -
  have "cell_text 3 0 (-2) \<in> set (neighbours (cell_text 3 1 (-2)))"
    by (simp add: neighbours_text STEPS_def cell_text_inject)
  then show ?thesis using cell_of_its_centre [of 3 1 "-2"] by blast
qed

end
