(* ===== verification/Arrow.thy ===== *)
theory Arrow
imports Names Capture
begin

text \<open>The direction arrow (\<^verbatim>\<open>arrow.ts\<close>) and the compass reading it turns by
  (\<^verbatim>\<open>compass.ts\<close>): bearings, the choice of heading, the estimate of where a node is from
  where it was heard, and the angle on the screen. \<open>js_fmod\<close> is JavaScript's \<^verbatim>\<open>%\<close> and
  \<open>js_atan2\<close> its \<^verbatim>\<open>Math.atan2\<close> on reals.\<close>

definition js_fmod :: "real \<Rightarrow> real \<Rightarrow> real" where
  "js_fmod x m = (let q = x / m in x - m * of_int (if q \<ge> 0 then \<lfloor>q\<rfloor> else \<lceil>q\<rceil>))"

definition js_atan2 :: "real \<Rightarrow> real \<Rightarrow> real" where
  "js_atan2 y x =
     (if x > 0 then arctan (y / x)
      else if x < 0 then (if y \<ge> 0 then arctan (y / x) + pi else arctan (y / x) - pi)
      else if y > 0 then pi / 2
      else if y < 0 then - (pi / 2)
      else 0)"

subsection \<open>Bearings\<close>

definition bearingDeg :: "real \<times> real \<Rightarrow> real \<times> real \<Rightarrow> real" where
  "bearingDeg from to' =
     (let p1 = fst from * RAD;
          p2 = fst to' * RAD;
          dl = (snd to' - snd from) * RAD;
          y = sin dl * cos p2;
          x = cos p1 * sin p2 - sin p1 * cos p2 * cos dl
      in js_fmod (js_atan2 y x / RAD + 360) 360)"

definition relativeAngle :: "real \<Rightarrow> real \<Rightarrow> real" where
  "relativeAngle bearing heading =
     (let d = js_fmod (js_fmod (bearing - heading) 360 + 540) 360 - 180
      in if d = - 180 then 180 else d)"

subsection \<open>The heading\<close>

definition COURSE_MIN_SPEED_MS :: real where "COURSE_MIN_SPEED_MS = 2"
definition COURSE_RELEASE_SPEED_MS :: real where "COURSE_RELEASE_SPEED_MS = 1"

datatype heading_source = Compass | Course

definition nextHeadingSource :: "heading_source \<Rightarrow> jsnum option \<Rightarrow> heading_source" where
  "nextHeadingSource current spd =
     (case spd of
        Some (Fin v) \<Rightarrow>
          if v \<ge> COURSE_MIN_SPEED_MS then Course
          else if v < COURSE_RELEASE_SPEED_MS then Compass
          else current
      | _ \<Rightarrow> current)"

definition COMPASS_STALE_MS :: int where "COMPASS_STALE_MS = 2000"

fun finite_or_none :: "jsnum option \<Rightarrow> real option" where
  "finite_or_none (Some (Fin r)) = Some r"
| "finite_or_none _ = None"

definition headingFor :: "heading_source \<Rightarrow> jsnum option \<Rightarrow> (jsnum \<times> int) option \<Rightarrow> int \<Rightarrow> real option" where
  "headingFor src course compass nowMs =
     (if src = Course then finite_or_none course
      else case compass of
        None \<Rightarrow> None
      | Some (deg, at') \<Rightarrow>
          if nowMs - at' > COMPASS_STALE_MS then None else finite_or_none (Some deg))"

fun js_ge :: "jsnum \<Rightarrow> real \<Rightarrow> bool" where
  "js_ge (Fin r) c = (r \<ge> c)"
| "js_ge PInf c = True"
| "js_ge _ c = False"

definition courseHeading :: "jsnum option \<Rightarrow> real option \<Rightarrow> jsnum option \<Rightarrow> real option" where
  "courseHeading fixHeading last' spd =
     (let moving = (case spd of None \<Rightarrow> False | Some v \<Rightarrow> js_ge v COURSE_MIN_SPEED_MS)
      in case finite_or_none fixHeading of
           Some h \<Rightarrow> if moving then Some h else last'
         | None \<Rightarrow> last')"

subsection \<open>Where a node probably is\<close>

definition CELL_M :: real where "CELL_M = 10"
definition MIN_POINTS :: nat where "MIN_POINTS = 3"
definition OUTLIER_FACTOR :: real where "OUTLIER_FACTOR = 4"
definition OUTLIER_FLOOR_KM :: real where "OUTLIER_FLOOR_KM = 20"
definition WEIGHT_CEILING_DBM :: real where "WEIGHT_CEILING_DBM = - 55"
definition NO_SIGNAL_DBM :: real where "NO_SIGNAL_DBM = - 130"
definition M_PER_DEG :: real where "M_PER_DEG = 111320"

text \<open>A place something was heard at; \<open>hp\<close> has a usable position (\<^verbatim>\<open>Heard\<close>).\<close>

record heard_point =
  ep_lat :: "jsnum option"
  ep_lon :: "jsnum option"
  ep_rssi :: "real option"

record heard =
  hd_lat :: real
  hd_lon :: real
  hd_rssi :: "real option"

definition placed_point :: "heard_point \<Rightarrow> heard option" where
  "placed_point p =
     (case (finite_or_none (ep_lat p), finite_or_none (ep_lon p)) of
        (Some la, Some lo) \<Rightarrow> Some \<lparr>hd_lat = la, hd_lon = lo, hd_rssi = ep_rssi p\<rparr>
      | _ \<Rightarrow> None)"

definition median :: "real list \<Rightarrow> real" where
  "median values =
     (let s = sort values; mid = length s div 2
      in if length s mod 2 = 1 then s ! mid else (s ! (mid - 1) + s ! mid) / 2)"

definition signal_of :: "heard \<Rightarrow> real" where
  "signal_of p = (case hd_rssi p of None \<Rightarrow> NO_SIGNAL_DBM | Some r \<Rightarrow> r)"

definition cell_key :: "heard \<Rightarrow> heard \<Rightarrow> int \<times> int" where
  "cell_key origin p =
     (let cosLat = cos (hd_lat origin * RAD)
      in (js_round ((hd_lon p - hd_lon origin) * M_PER_DEG * cosLat / CELL_M),
          js_round ((hd_lat p - hd_lat origin) * M_PER_DEG / CELL_M)))"

definition cell_step :: "heard \<Rightarrow> ((int \<times> int) \<times> heard) list \<Rightarrow> heard \<Rightarrow> ((int \<times> int) \<times> heard) list" where
  "cell_step origin cells p =
     (let k = cell_key origin p in
      case map_of cells k of
        None \<Rightarrow> amap_set k p cells
      | Some had \<Rightarrow> if signal_of p > signal_of had then amap_set k p cells else cells)"

definition hd_pos :: "heard \<Rightarrow> real \<times> real" where "hd_pos p = (hd_lat p, hd_lon p)"

definition near_points :: "heard list \<Rightarrow> heard list" where
  "near_points kept =
     (let mid = (median (map hd_lat kept), median (map hd_lon kept));
          dists = map (\<lambda>p. distanceKm mid (hd_pos p)) kept;
          lim = max (OUTLIER_FACTOR * median dists) OUTLIER_FLOOR_KM
      in filter (\<lambda>p. distanceKm mid (hd_pos p) \<le> lim) kept)"

definition weight_of :: "heard \<Rightarrow> real" where
  "weight_of p = 10 powr ((min (signal_of p) WEIGHT_CEILING_DBM - WEIGHT_CEILING_DBM) / 10)"

text \<open>The averaging loop: the sum of the weights and the weighted sums.\<close>

fun weigh :: "heard list \<Rightarrow> real \<times> real \<times> real \<Rightarrow> real \<times> real \<times> real" where
  "weigh [] acc = acc"
| "weigh (p # ps) (wSum, la, lo) =
     (let w = weight_of p in weigh ps (wSum + w, la + hd_lat p * w, lo + hd_lon p * w))"

definition estimateFor :: "heard_point list \<Rightarrow> (real \<times> real) option" where
  "estimateFor points =
     (let placed = List.map_filter placed_point points in
      if length placed < MIN_POINTS then None
      else
        let kept = map snd (foldl (cell_step (hd placed)) [] placed) in
        if length kept < MIN_POINTS then None
        else
          let near = near_points kept in
          if length near < MIN_POINTS then None
          else (case weigh near (0, 0, 0) of (wSum, la, lo) \<Rightarrow> Some (la / wSum, lo / wSum)))"

subsection \<open>The arrow\<close>

datatype target_kind = Advertised | Estimated

record arrow_target =
  at_lat :: real
  at_lon :: real
  at_kind :: target_kind

definition KEY_KINDS :: "sender_kind list" where "KEY_KINDS = [AdvertPubkey, DiscoverPubkey]"
definition MIN_KEY_PREFIX_HEX :: nat where "MIN_KEY_PREFIX_HEX = 4"

definition node_target :: "directory_node \<Rightarrow> arrow_target option" where
  "node_target n =
     (case (dn_lat n, dn_lon n) of
        (Some la, Some lo) \<Rightarrow> Some \<lparr>at_lat = la, at_lon = lo, at_kind = Advertised\<rparr>
      | _ \<Rightarrow> None)"

definition attr_target :: "attribution option \<Rightarrow> arrow_target option" where
  "attr_target attr = (case attr of Some (RuleNode n) \<Rightarrow> node_target n | _ \<Rightarrow> None)"

definition key_target :: "sender \<Rightarrow> node_directory \<Rightarrow> arrow_target option" where
  "key_target s dir =
     (let ident = or_empty (s_id s) in
      if in_kinds s KEY_KINDS \<and> length ident \<ge> MIN_KEY_PREFIX_HEX
      then (case positionedWithPrefix dir ident of [n] \<Rightarrow> node_target n | _ \<Rightarrow> None)
      else None)"

definition arrowTarget ::
  "sender \<Rightarrow> attribution option \<Rightarrow> node_directory \<Rightarrow> heard_point list \<Rightarrow> arrow_target option" where
  "arrowTarget s attr dir sameSender =
     (if s_kind s = None \<or> s_kind s = Some ChannelName then None
      else if (\<exists>k. attr = Some (RuleCollision k)) then None
      else case attr_target attr of
        Some t \<Rightarrow> Some t
      | None \<Rightarrow>
          (case key_target s dir of
             Some t \<Rightarrow> Some t
           | None \<Rightarrow>
               (case estimateFor sameSender of
                  None \<Rightarrow> None
                | Some (la, lo) \<Rightarrow> Some \<lparr>at_lat = la, at_lon = lo, at_kind = Estimated\<rparr>)))"

definition arrowFor ::
  "arrow_target option \<Rightarrow> fix_rec option \<Rightarrow> jsnum option \<Rightarrow> int \<Rightarrow> (real \<times> target_kind) option" where
  "arrowFor target fix heading nowMs =
     (case (target, finite_or_none heading) of
        (Some t, Some h) \<Rightarrow>
          if \<not> isUsableFix fix nowMs then None
          else (case fix of
                  None \<Rightarrow> None
                | Some f \<Rightarrow>
                    Some (relativeAngle (bearingDeg (fix_pos f) (at_lat t, at_lon t)) h, at_kind t))
      | _ \<Rightarrow> None)"

subsection \<open>The compass (compass.ts)\<close>

record orientation_reading =
  or_webkit :: "jsnum option"
  or_absolute :: "bool option"
  or_alpha :: "jsnum option"

definition compassDeg :: "orientation_reading \<Rightarrow> real option" where
  "compassDeg e =
     (case finite_or_none (or_webkit e) of
        Some h \<Rightarrow> Some h
      | None \<Rightarrow>
          if or_absolute e = Some True
          then (case finite_or_none (or_alpha e) of Some a \<Rightarrow> Some (js_fmod (360 - a) 360) | None \<Rightarrow> None)
          else None)"


subsection \<open>Angles\<close>

lemma js_fmod_range: "0 < m \<Longrightarrow> \<bar>js_fmod x m\<bar> < m"
proof -
  assume m: "0 < m"
  let ?t = "if x / m \<ge> 0 then \<lfloor>x / m\<rfloor> else \<lceil>x / m\<rceil>"
  have "js_fmod x m = m * (x / m - of_int ?t)"
    using m by (simp add: js_fmod_def Let_def right_diff_distrib)
  moreover have "\<bar>x / m - of_int ?t\<bar> < 1"
    using floor_correct [of "x / m"] ceiling_correct [of "x / m"]
    by (cases "0 \<le> x / m") (simp_all only: if_True if_False abs_less_iff of_int_add of_int_1, linarith+)
  ultimately show ?thesis using m by (simp add: abs_mult)
qed

lemma js_fmod_nonneg: "0 < m \<Longrightarrow> 0 \<le> x \<Longrightarrow> 0 \<le> js_fmod x m"
proof -
  assume m: "0 < m" and x: "0 \<le> x"
  have "m * of_int \<lfloor>x / m\<rfloor> \<le> m * (x / m)" using m by (intro mult_left_mono) auto
  then show ?thesis using m x by (simp add: js_fmod_def Let_def)
qed

lemma js_fmod_turns: "\<exists>k :: int. x - js_fmod x m = m * of_int k"
  by (rule exI [of _ "if x / m \<ge> 0 then \<lfloor>x / m\<rfloor> else \<lceil>x / m\<rceil>"]) (simp add: js_fmod_def Let_def)

lemma js_atan2_range: "\<bar>js_atan2 y x\<bar> \<le> pi"
proof -
  have b: "- (pi / 2) < arctan z \<and> arctan z < pi / 2" for z using arctan_lbound [of z] arctan_ubound [of z] by simp
  have n: "x < 0 \<Longrightarrow> y \<ge> 0 \<Longrightarrow> arctan (y / x) \<le> 0"
    by (simp add: arctan_le_zero_iff divide_nonneg_neg)
  have q: "x < 0 \<Longrightarrow> \<not> y \<ge> 0 \<Longrightarrow> arctan (y / x) > 0"
    by (simp add: zero_less_arctan_iff divide_neg_neg)
  have p: "- (pi / 2) \<le> pi" "pi / 2 \<le> pi" using pi_gt_zero by linarith+
  consider "x > 0" | "x < 0" "y \<ge> 0" | "x < 0" "\<not> y \<ge> 0" | "x = 0" by linarith
  then show ?thesis
  proof cases
    case 1
    then show ?thesis using b [of "y / x"] p by (simp add: js_atan2_def abs_le_iff)
  next
    case 2
    then show ?thesis using b [of "y / x"] n p by (simp add: js_atan2_def abs_le_iff)
  next
    case 3
    then show ?thesis using b [of "y / x"] q p by (simp add: js_atan2_def abs_le_iff)
  next
    case 4
    then have e: "js_atan2 y x = (if y > 0 then pi / 2 else if y < 0 then - (pi / 2) else 0)"
      by (simp add: js_atan2_def)
    show ?thesis unfolding e using pi_gt_zero by simp
  qed
qed

lemma bearing_range: "0 \<le> bearingDeg a b" "bearingDeg a b < 360"
proof -
  have "- 180 \<le> js_atan2 y x / RAD" for x y
    using js_atan2_range [of y x] pi_gt_zero by (simp add: RAD_def abs_le_iff pos_le_divide_eq)
  then have "0 \<le> js_atan2 y x / RAD + 360" for x y by (smt (verit))
  then show "0 \<le> bearingDeg a b" "bearingDeg a b < 360"
    using js_fmod_nonneg [of 360] js_fmod_range [of 360] by (auto simp: bearingDeg_def Let_def abs_less_iff)
qed

lemma relativeAngle_range: "- 180 < relativeAngle b h" "relativeAngle b h \<le> 180"
proof -
  let ?d = "js_fmod (b - h) 360 + 540"
  have "0 \<le> ?d" using js_fmod_range [of 360 "b - h"] by (simp add: abs_less_iff)
  then have "0 \<le> js_fmod ?d 360" "js_fmod ?d 360 < 360"
    using js_fmod_nonneg [of 360 ?d] js_fmod_range [of 360 ?d] by (simp_all add: abs_less_iff)
  then show "- 180 < relativeAngle b h" "relativeAngle b h \<le> 180"
    by (auto simp: relativeAngle_def Let_def)
qed

lemma relativeAngle_turns: "\<exists>k :: int. b = h + relativeAngle b h + 360 * of_int k"
proof -
  obtain i :: int where i: "b - h - js_fmod (b - h) 360 = 360 * of_int i" using js_fmod_turns by blast
  let ?d = "js_fmod (b - h) 360 + 540"
  obtain j :: int where j: "?d - js_fmod ?d 360 = 360 * of_int j" using js_fmod_turns by blast
  define e where "e = js_fmod ?d 360 - 180"
  have "b = h + e + 360 * of_int (i + j - 1)" using i j by (simp add: e_def algebra_simps)
  moreover have "relativeAngle b h = (if e = - 180 then 180 else e)"
    by (simp add: relativeAngle_def Let_def e_def)
  ultimately show ?thesis
  proof (cases "e = - 180")
    case True
    then have "b = h + relativeAngle b h + 360 * of_int (i + j - 2)"
      using \<open>b = _\<close> \<open>relativeAngle b h = _\<close> by simp
    then show ?thesis by blast
  qed (metis)
qed

subsection \<open>The estimate lies among the places\<close>

lemma weigh_sum:
  "weigh ps (w, la, lo) = (w + (\<Sum>p\<leftarrow>ps. weight_of p), la + (\<Sum>p\<leftarrow>ps. hd_lat p * weight_of p),
     lo + (\<Sum>p\<leftarrow>ps. hd_lon p * weight_of p))"
  by (induction ps arbitrary: w la lo) (simp_all add: Let_def)

lemma weight_pos: "0 < weight_of p"
  by (simp add: weight_of_def)

lemma weighted_mean_bounds:
  assumes "ps \<noteq> []" "\<forall>p \<in> set ps. lo \<le> f p \<and> f p \<le> hi"
  shows "lo \<le> (\<Sum>p\<leftarrow>ps. f p * weight_of p) / (\<Sum>p\<leftarrow>ps. weight_of p)"
    "(\<Sum>p\<leftarrow>ps. f p * weight_of p) / (\<Sum>p\<leftarrow>ps. weight_of p) \<le> hi"
proof -
  have "0 < (\<Sum>p\<leftarrow>ps. weight_of p)"
    using assms(1) by (cases ps) (auto intro!: add_pos_nonneg sum_list_nonneg simp: weight_pos less_imp_le)
  moreover have "lo * (\<Sum>p\<leftarrow>ps. weight_of p) \<le> (\<Sum>p\<leftarrow>ps. f p * weight_of p)
      \<and> (\<Sum>p\<leftarrow>ps. f p * weight_of p) \<le> hi * (\<Sum>p\<leftarrow>ps. weight_of p)"
    using assms(2)
  proof (induction ps)
    case (Cons p ps)
    then have "lo * weight_of p \<le> f p * weight_of p" "f p * weight_of p \<le> hi * weight_of p"
      using weight_pos [of p] by simp_all
    with Cons show ?case by (auto simp: distrib_left)
  qed simp
  ultimately show "lo \<le> (\<Sum>p\<leftarrow>ps. f p * weight_of p) / (\<Sum>p\<leftarrow>ps. weight_of p)"
    "(\<Sum>p\<leftarrow>ps. f p * weight_of p) / (\<Sum>p\<leftarrow>ps. weight_of p) \<le> hi"
    by (simp_all add: pos_le_divide_eq pos_divide_le_eq)
qed

lemma cells_from:
  "set (map snd (foldl (cell_step o') cells ps)) \<subseteq> set (map snd cells) \<union> set ps"
proof (induction ps arbitrary: cells)
  case (Cons p ps)
  have "set (map snd (cell_step o' cells p)) \<subseteq> set (map snd cells) \<union> {p}"
  proof -
    have "set (amap_set k p cells) \<subseteq> insert (k, p) (set cells)" for k by (rule set_amap_set)
    then show ?thesis by (fastforce simp: cell_step_def Let_def split: option.splits if_splits)
  qed
  then show ?case using Cons.IH [of "cell_step o' cells p"] unfolding foldl_Cons set_simps by blast
qed simp

lemma near_from: "set (near_points kept) \<subseteq> set kept"
  by (auto simp: near_points_def Let_def)


lemma placed_points: "set (List.map_filter placed_point points)
    \<subseteq> {h. \<exists>p \<in> set points. placed_point p = Some h}"
  by (auto simp: map_filter_def)

lemma estimate_places:
  assumes "estimateFor points = Some (la, lo)"
  shows "\<exists>near. MIN_POINTS \<le> length near
      \<and> (\<forall>h \<in> set near. \<exists>p \<in> set points. placed_point p = Some h)
      \<and> la = (\<Sum>p\<leftarrow>near. hd_lat p * weight_of p) / (\<Sum>p\<leftarrow>near. weight_of p)
      \<and> lo = (\<Sum>p\<leftarrow>near. hd_lon p * weight_of p) / (\<Sum>p\<leftarrow>near. weight_of p)"
proof -
  define placed where "placed = List.map_filter placed_point points"
  define kept where "kept = map snd (foldl (cell_step (hd placed)) [] placed)"
  have "MIN_POINTS \<le> length (near_points kept)"
    and r: "la = (\<Sum>p\<leftarrow>near_points kept. hd_lat p * weight_of p) / (\<Sum>p\<leftarrow>near_points kept. weight_of p)"
      "lo = (\<Sum>p\<leftarrow>near_points kept. hd_lon p * weight_of p) / (\<Sum>p\<leftarrow>near_points kept. weight_of p)"
    using assms by (auto simp: estimateFor_def Let_def weigh_sum placed_def kept_def split: if_splits)
  moreover have "set kept \<subseteq> set placed" using cells_from [of "hd placed" "[]" placed] by (simp add: kept_def)
  then have "\<forall>h \<in> set (near_points kept). \<exists>p \<in> set points. placed_point p = Some h"
    using near_from [of kept] placed_points [of points] unfolding placed_def by blast
  ultimately show ?thesis by blast
qed

subsection \<open>Properties\<close>

text \<open>An estimated place is drawn from at least three of the places the node was heard at, lies
  inside every box that holds all places with a finite position, and is only computed
  when there are three of those.\<close>

theorem estimate_within_places:
  assumes "estimateFor points = Some (la, lo)"
    and "\<forall>p \<in> set points. \<forall>h. placed_point p = Some h \<longrightarrow>
      south \<le> hd_lat h \<and> hd_lat h \<le> north \<and> west \<le> hd_lon h \<and> hd_lon h \<le> east"
  shows "south \<le> la \<and> la \<le> north \<and> west \<le> lo \<and> lo \<le> east
    \<and> MIN_POINTS \<le> length (filter (\<lambda>p. placed_point p \<noteq> None) points)"
proof -
  obtain near where n: "MIN_POINTS \<le> length near" "\<forall>h \<in> set near. \<exists>p \<in> set points. placed_point p = Some h"
    and r: "la = (\<Sum>p\<leftarrow>near. hd_lat p * weight_of p) / (\<Sum>p\<leftarrow>near. weight_of p)"
      "lo = (\<Sum>p\<leftarrow>near. hd_lon p * weight_of p) / (\<Sum>p\<leftarrow>near. weight_of p)"
    using estimate_places [OF assms(1)] by blast
  have ne: "near \<noteq> []" using n(1) by (auto simp: MIN_POINTS_def)
  have "\<forall>h \<in> set near. south \<le> hd_lat h \<and> hd_lat h \<le> north" "\<forall>h \<in> set near. west \<le> hd_lon h \<and> hd_lon h \<le> east"
    using n(2) assms(2) by blast+
  moreover have "length (List.map_filter placed_point points) = length (filter (\<lambda>p. placed_point p \<noteq> None) points)"
    by (simp add: map_filter_def)
  moreover have "MIN_POINTS \<le> length (List.map_filter placed_point points)"
    using assms(1) by (auto simp: estimateFor_def Let_def split: if_splits)
  ultimately show ?thesis
    using weighted_mean_bounds [OF ne, of south hd_lat north] weighted_mean_bounds [OF ne, of west hd_lon east]
    unfolding r by simp
qed

definition spot :: "real \<Rightarrow> heard_point" where
  "spot la = \<lparr>ep_lat = Some (Fin la), ep_lon = Some (Fin 0), ep_rssi = None\<rparr>"

definition spot_heard :: "real \<Rightarrow> heard" where
  "spot_heard la = \<lparr>hd_lat = la, hd_lon = 0, hd_rssi = None\<rparr>"

lemma spot_placed [simp]: "placed_point (spot la) = Some (spot_heard la)"
  by (simp add: spot_def spot_heard_def placed_point_def)

lemma js_round_3: "js_round (278 / 25) = 11" "js_round (2783 / 250) = 11" "js_round (2783 / 125) = 22"
  unfolding js_round_def by (rule floor_unique; simp)+

lemma estimate_sample: "estimateFor [spot 0, spot (1 / 1000), spot (1 / 500)] \<noteq> None"
proof -
  let ?ps = "[spot_heard 0, spot_heard (1 / 1000), spot_heard (1 / 500)]"
  have placed: "List.map_filter placed_point [spot 0, spot (1 / 1000), spot (1 / 500)] = ?ps"
    by (simp add: map_filter_simps)
  have cells: "cell_key (spot_heard 0) (spot_heard 0) = (0, 0)"
    "cell_key (spot_heard 0) (spot_heard (1 / 1000)) = (0, 11)"
    "cell_key (spot_heard 0) (spot_heard (1 / 500)) = (0, 22)"
    using js_round_of_int [of 0] js_round_3 by (simp_all add: cell_key_def spot_heard_def M_PER_DEG_def CELL_M_def)
  have kept: "map snd (foldl (cell_step (spot_heard 0)) [] ?ps) = ?ps"
    by (simp add: cell_step_def cells)
  have med: "median (map hd_lat ?ps) = 1 / 1000" "median (map hd_lon ?ps) = 0"
    by (simp_all add: median_def spot_heard_def)
  have d: "distanceKm (1 / 1000, 0) (hd_pos (spot_heard la)) \<le> 20" if "0 \<le> la" "la \<le> 1 / 500" for la
  proof -
    have "distanceKm (1 / 1000, 0) (hd_pos (spot_heard la)) = 6371 * \<bar>(la - 1 / 1000) * RAD\<bar>"
      by (simp add: distanceKm_def hd_pos_def spot_heard_def EARTH_KM_def Let_def real_sqrt_mult [symmetric] flip: abs_mult power2_eq_square)
    also have "\<dots> \<le> 6371 * (1 / 1000 * 1)"
    proof -
      have "\<bar>RAD\<bar> \<le> 1" using pi_less_4 pi_gt_zero by (simp add: RAD_def)
      moreover have "\<bar>la - 1 / 1000\<bar> \<le> 1 / 1000" using that unfolding abs_le_iff by linarith
      ultimately have "\<bar>la - 1 / 1000\<bar> * \<bar>RAD\<bar> \<le> 1 / 1000 * 1" by (intro mult_mono) simp_all
      then show ?thesis by (simp add: abs_mult mult.commute)
    qed
    finally show ?thesis by simp
  qed
  have near: "near_points ?ps = ?ps"
    unfolding near_points_def med Let_def
    using d [of 0] d [of "1 / 1000"] d [of "1 / 500"] by (simp add: OUTLIER_FLOOR_KM_def le_max_iff_disj)
  have k: "map snd (foldl (cell_step (hd ?ps)) [] ?ps) = ?ps" using kept by simp
  show ?thesis unfolding estimateFor_def placed Let_def k near
    by (simp add: MIN_POINTS_def split: prod.splits)
qed

theorem estimate_within_places_witness:
  "\<exists>la lo. estimateFor [spot 0, spot (1 / 1000), spot (1 / 500)] = Some (la, lo) \<and> 0 \<le> la \<and> la \<le> 1 / 500"
proof -
  obtain la lo where e: "estimateFor [spot 0, spot (1 / 1000), spot (1 / 500)] = Some (la, lo)"
    using estimate_sample by force
  then show ?thesis
    using estimate_within_places [OF e, of 0 "1 / 500" 0 0] by (auto simp: spot_heard_def)
qed

end
