(* ===== verification/Locate.thy ===== *)
theory Locate
imports Arrow
begin

text \<open>Where a node probably transmits from (\<^verbatim>\<open>coverage/locate.ts\<close>): near-duplicates
  dropped, outliers set apart, a weighted centroid, and a path-loss model fitted over a grid that
  is refined five times. Numbers are reals; positions are finite, as the callers test. The grid
  loops are the code's \<^verbatim>\<open>for\<close> loops over floating numbers, so they are partial functions whose
  \<open>None\<close> is a loop that never ends.\<close>

record locate_point =
  lp_lat :: real
  lp_lon :: real
  lp_rssi :: "real option"

definition lp_pos :: "locate_point \<Rightarrow> real \<times> real" where "lp_pos p = (lp_lat p, lp_lon p)"

definition R_EARTH_M :: real where "R_EARTH_M = 6371000"
definition RSSI_CAP :: real where "RSSI_CAP = - 55"
definition LOCATE_OUTLIER_FACTOR :: real where "LOCATE_OUTLIER_FACTOR = 4"
definition MIN_OUTLIER_M :: real where "MIN_OUTLIER_M = 20000"
definition DEFAULT_CELL_M :: real where "DEFAULT_CELL_M = 10"
definition COLS :: nat where "COLS = 64"
definition ROWS :: nat where "ROWS = 64"
definition PATHLOSS_EXPONENT :: real where "PATHLOSS_EXPONENT = 2.4"
definition PATHLOSS_MIN_D_M :: real where "PATHLOSS_MIN_D_M = 10"

definition locate_haversineM :: "real \<times> real \<Rightarrow> real \<times> real \<Rightarrow> real" where
  "locate_haversineM a b =
     (let dLat = (fst b - fst a) * pi / 180;
          dLon = (snd b - snd a) * pi / 180;
          lat1 = fst a * pi / 180;
          lat2 = fst b * pi / 180;
          h = (sin (dLat / 2))\<^sup>2 + cos lat1 * cos lat2 * (sin (dLon / 2))\<^sup>2
      in 2 * R_EARTH_M * arcsin (min 1 (sqrt h)))"

definition rssiWeight :: "real option \<Rightarrow> real" where
  "rssiWeight rssi =
     (case rssi of None \<Rightarrow> 0 | Some r \<Rightarrow> 10 powr ((min r RSSI_CAP - RSSI_CAP) / 10))"

fun centroid_loop :: "locate_point list \<Rightarrow> real \<times> real \<times> real \<Rightarrow> real \<times> real \<times> real" where
  "centroid_loop [] acc = acc"
| "centroid_loop (p # ps) (sw, slat, slon) =
     (let w = rssiWeight (lp_rssi p)
      in centroid_loop ps (sw + w, slat + w * lp_lat p, slon + w * lp_lon p))"

definition weightedCentroid :: "locate_point list \<Rightarrow> (real \<times> real) option" where
  "weightedCentroid points =
     (case centroid_loop points (0, 0, 0) of
        (sw, slat, slon) \<Rightarrow> if sw = 0 then None else Some (slat / sw, slon / sw))"

definition locate_median :: "real list \<Rightarrow> real" where
  "locate_median xs = (if xs = [] then 0 else median xs)"

subsection \<open>Outliers and duplicates\<close>

definition rejectOutliers :: "locate_point list \<Rightarrow> locate_point list \<times> locate_point list" where
  "rejectOutliers points =
     (if length points < 3 then (points, [])
      else
        let center = (locate_median (map lp_lat points), locate_median (map lp_lon points));
            dist = (\<lambda>p. locate_haversineM (lp_pos p) center);
            threshold = max (LOCATE_OUTLIER_FACTOR * locate_median (map dist points)) MIN_OUTLIER_M
        in (filter (\<lambda>p. \<not> dist p > threshold) points, filter (\<lambda>p. dist p > threshold) points))"

text \<open>\<^verbatim>\<open>(a ?? -Infinity) > (b ?? -Infinity)\<close>.\<close>

fun louder :: "real option \<Rightarrow> real option \<Rightarrow> bool" where
  "louder None _ = False"
| "louder (Some x) None = True"
| "louder (Some x) (Some y) = (x > y)"

definition dedupe_key :: "real \<Rightarrow> real \<Rightarrow> locate_point \<Rightarrow> int \<times> int" where
  "dedupe_key mPerDegLon cellM p =
     (js_round (lp_lon p * mPerDegLon / cellM), js_round (lp_lat p * 111320 / cellM))"

definition dedupe_step ::
  "real \<Rightarrow> real \<Rightarrow> ((int \<times> int) \<times> locate_point) list \<Rightarrow> locate_point \<Rightarrow> ((int \<times> int) \<times> locate_point) list" where
  "dedupe_step mPerDegLon cellM best p =
     (let key = dedupe_key mPerDegLon cellM p in
      case map_of best key of
        None \<Rightarrow> amap_set key p best
      | Some cur \<Rightarrow> if louder (lp_rssi p) (lp_rssi cur) then amap_set key p best else best)"

definition dedupeSpatial :: "real \<Rightarrow> locate_point list \<Rightarrow> locate_point list" where
  "dedupeSpatial cellM points =
     (if length points < 2 then points
      else map snd (foldl (dedupe_step (111320 * cos (lp_lat (hd points) * pi / 180)) cellM) [] points))"

subsection \<open>The path-loss fit\<close>

text \<open>A point with a signal, and a place on the grid with its cost.\<close>

type_synonym heard_signal = "(real \<times> real) \<times> real"

record fit_spot =
  fs_cost :: real
  fs_lat :: real
  fs_lon :: real

definition path_level :: "real \<times> real \<Rightarrow> heard_signal \<Rightarrow> real" where
  "path_level pos p =
     (let d = max (locate_haversineM pos (fst p)) PATHLOSS_MIN_D_M
      in snd p + 10 * PATHLOSS_EXPONENT * log 10 d)"

definition pathlossCost :: "heard_signal list \<Rightarrow> real \<Rightarrow> real \<Rightarrow> real" where
  "pathlossCost points lat lon =
     (let n = of_nat (length points);
          p0 = (\<Sum>p\<leftarrow>points. path_level (lat, lon) p) / n
      in (\<Sum>p\<leftarrow>points. (path_level (lat, lon) p - p0)\<^sup>2) / n)"

definition try_spot :: "heard_signal list \<Rightarrow> real \<Rightarrow> real \<Rightarrow> fit_spot option \<Rightarrow> fit_spot option" where
  "try_spot pts la lo rnd =
     (let cost = pathlossCost pts la lo;
          here = \<lparr>fs_cost = cost, fs_lat = la, fs_lon = lo\<rparr>
      in case rnd of
           None \<Rightarrow> Some here
         | Some b \<Rightarrow> if cost < fs_cost b then Some here else rnd)"

partial_function (option) lon_loop ::
  "heard_signal list \<Rightarrow> real \<Rightarrow> real \<Rightarrow> real \<Rightarrow> real \<Rightarrow> fit_spot option \<Rightarrow> fit_spot option option" where
  "lon_loop pts hiLon stepLon la lo rnd =
     (if lo \<le> hiLon then lon_loop pts hiLon stepLon la (lo + stepLon) (try_spot pts la lo rnd)
      else Some rnd)"

partial_function (option) lat_loop ::
  "heard_signal list \<Rightarrow> real \<Rightarrow> real \<Rightarrow> real \<Rightarrow> real \<Rightarrow> real \<Rightarrow> real \<Rightarrow> fit_spot option \<Rightarrow> fit_spot option option" where
  "lat_loop pts hiLat stepLat loLon hiLon stepLon la rnd =
     (if la \<le> hiLat then
        Option.bind (lon_loop pts hiLon stepLon la loLon rnd)
          (lat_loop pts hiLat stepLat loLon hiLon stepLon (la + stepLat))
      else Some rnd)"

text \<open>The passes: \<open>k\<close> of them are left. The outer option is a grid loop that does not end.\<close>

primrec fit_passes ::
  "nat \<Rightarrow> heard_signal list \<Rightarrow> real \<Rightarrow> real \<Rightarrow> real \<Rightarrow> real \<Rightarrow> fit_spot option \<Rightarrow> fit_spot option option" where
  "fit_passes 0 pts loLat hiLat loLon hiLon best = Some best"
| "fit_passes (Suc k) pts loLat hiLat loLon hiLon best =
     (let stepLat = (hiLat - loLat) / 16; stepLon = (hiLon - loLon) / 16 in
      case lat_loop pts hiLat stepLat loLon hiLon stepLon loLat None of
        None \<Rightarrow> None
      | Some None \<Rightarrow> Some None
      | Some (Some b) \<Rightarrow>
          fit_passes k pts (fs_lat b - stepLat) (fs_lat b + stepLat)
            (fs_lon b - stepLon) (fs_lon b + stepLon) (Some b))"

definition signals_of :: "locate_point list \<Rightarrow> heard_signal list" where
  "signals_of points =
     List.map_filter (\<lambda>p. case lp_rssi p of None \<Rightarrow> None | Some r \<Rightarrow> Some (lp_pos p, r)) points"

definition min_of :: "real list \<Rightarrow> real" where "min_of xs = foldl min (hd xs) (tl xs)"
definition max_of :: "real list \<Rightarrow> real" where "max_of xs = foldl max (hd xs) (tl xs)"

definition FIT_PAD :: real where "FIT_PAD = 0.02"

definition pathlossFit :: "locate_point list \<Rightarrow> (real \<times> real \<times> real) option option" where
  "pathlossFit points =
     (let pts = signals_of points in
      if length pts < 3 then Some None
      else
        let lats = map (fst \<circ> fst) pts; lons = map (snd \<circ> fst) pts in
        case fit_passes 5 pts (min_of lats - FIT_PAD) (max_of lats + FIT_PAD)
               (min_of lons - FIT_PAD * 1.6) (max_of lons + FIT_PAD * 1.6) None of
          None \<Rightarrow> None
        | Some None \<Rightarrow> Some None
        | Some (Some b) \<Rightarrow> Some (Some (fs_lat b, fs_lon b, sqrt (fs_cost b))))"

subsection \<open>The heat map and the geometry\<close>

record heatmap =
  hm_grid :: "real list"
  hm_rows :: nat
  hm_cols :: nat
  hm_minLat :: real
  hm_maxLat :: real
  hm_minLon :: real
  hm_maxLon :: real

definition heat_at :: "real \<Rightarrow> locate_point list \<Rightarrow> real \<times> real \<Rightarrow> real" where
  "heat_at baseSigma points pos =
     (\<Sum>p\<leftarrow>points.
        let w = rssiWeight (lp_rssi p) in
        if w = 0 then 0
        else
          let sigma = baseSigma * (1.1 - 0.6 * w);
              d = locate_haversineM pos (lp_pos p)
          in w * exp (- (d * d) / (2 * sigma * sigma)))"

text \<open>The grid holds single-precision numbers in the code; that rounding is left out.\<close>

definition densityGrid :: "locate_point list \<Rightarrow> heatmap" where
  "densityGrid points =
     (let minLat = min_of (map lp_lat points); maxLat = max_of (map lp_lat points);
          minLon = min_of (map lp_lon points); maxLon = max_of (map lp_lon points);
          spanM = locate_haversineM (minLat, minLon) (maxLat, maxLon);
          baseSigma = max (spanM * 0.12) 30;
          padLat = 3 * baseSigma / 111320;
          padLon = 3 * baseSigma / (111320 * cos (minLat * pi / 180));
          lo1 = minLat - padLat; hi1 = maxLat + padLat;
          lo2 = minLon - padLon; hi2 = maxLon + padLon;
          raw = concat (map (\<lambda>r. map (\<lambda>c.
                  heat_at baseSigma points
                    (lo1 + (of_nat r + 0.5) / of_nat ROWS * (hi1 - lo1),
                     lo2 + (of_nat c + 0.5) / of_nat COLS * (hi2 - lo2))) [0..<COLS]) [0..<ROWS]);
          peak = foldl max 0 raw
      in \<lparr>hm_grid = (if peak > 0 then map (\<lambda>v. v / peak) raw else raw),
          hm_rows = ROWS, hm_cols = COLS,
          hm_minLat = lo1, hm_maxLat = hi1, hm_minLon = lo2, hm_maxLon = hi2\<rparr>)"

record locate_stats =
  ls_n :: nat
  ls_searchRadiusM :: "real option"
  ls_encirclement :: real

definition sector_of :: "real \<times> real \<Rightarrow> locate_point \<Rightarrow> int" where
  "sector_of centroid p =
     (let ang = js_atan2 ((lp_lon p - snd centroid) * cos (fst centroid * pi / 180))
                  (lp_lat p - fst centroid)
      in \<lfloor>(ang + pi) / (pi / 4)\<rfloor> mod 8)"

definition geometryStats :: "locate_point list \<Rightarrow> (real \<times> real) option \<Rightarrow> locate_stats" where
  "geometryStats points centroid =
     (case centroid of
        None \<Rightarrow> \<lparr>ls_n = length points, ls_searchRadiusM = None, ls_encirclement = 0\<rparr>
      | Some c \<Rightarrow>
          if points = [] then \<lparr>ls_n = 0, ls_searchRadiusM = None, ls_encirclement = 0\<rparr>
          else
            let sw = (\<Sum>p\<leftarrow>points. rssiWeight (lp_rssi p));
                swd2 = (\<Sum>p\<leftarrow>points. rssiWeight (lp_rssi p)
                          * locate_haversineM (lp_pos p) c * locate_haversineM (lp_pos p) c)
            in \<lparr>ls_n = length points,
                ls_searchRadiusM = (if sw > 0 then Some (sqrt (swd2 / sw)) else None),
                ls_encirclement = of_nat (length (remdups (map (sector_of c) points))) / 8\<rparr>)"

subsection \<open>Locating\<close>

definition strongest_of :: "locate_point list \<Rightarrow> locate_point option" where
  "strongest_of inliers =
     (case inliers of
        [] \<Rightarrow> None
      | p # ps \<Rightarrow> Some (foldl (\<lambda>a b. if louder (lp_rssi b) (lp_rssi a) then b else a) p ps))"

datatype locate_method = Pathloss | Centroid

record locate_result =
  lr_centroid :: "(real \<times> real) option"
  lr_rmsDb :: "real option"
  lr_method :: "locate_method option"
  lr_heatmap :: "heatmap option"
  lr_strongest :: "locate_point option"
  lr_inliers :: "locate_point list"
  lr_outliers :: "locate_point list"
  lr_stats :: locate_stats

text \<open>The outer \<open>None\<close> is a fit that does not end; \<open>locate_returns\<close> shows it never is.\<close>

definition locate :: "locate_point list \<Rightarrow> locate_result option" where
  "locate points =
     (case rejectOutliers (dedupeSpatial DEFAULT_CELL_M points) of
        (inliers, outliers) \<Rightarrow>
          let strongest = strongest_of inliers in
          if length inliers < 3 then
            Some \<lparr>lr_centroid = None, lr_rmsDb = None, lr_method = None, lr_heatmap = None,
                  lr_strongest = strongest, lr_inliers = inliers, lr_outliers = outliers,
                  lr_stats = \<lparr>ls_n = length inliers, ls_searchRadiusM = None, ls_encirclement = 0\<rparr>\<rparr>
          else
            (case pathlossFit inliers of
               None \<Rightarrow> None
             | Some fit \<Rightarrow>
                 let centroid = (case fit of Some (la, lo, _) \<Rightarrow> Some (la, lo)
                                 | None \<Rightarrow> weightedCentroid inliers)
                 in Some \<lparr>lr_centroid = centroid,
                      lr_rmsDb = map_option (\<lambda>(_, _, rms). rms) fit,
                      lr_method = Some (if fit \<noteq> None then Pathloss else Centroid),
                      lr_heatmap = Some (densityGrid inliers), lr_strongest = strongest,
                      lr_inliers = inliers, lr_outliers = outliers,
                      lr_stats = geometryStats inliers centroid\<rparr>))"

definition locate_estimateFor :: "locate_point list \<Rightarrow> ((real \<times> real) \<times> locate_stats \<times> nat) option" where
  "locate_estimateFor points =
     (let inliers = fst (rejectOutliers (dedupeSpatial DEFAULT_CELL_M points)) in
      if length inliers < 3 then None
      else (case weightedCentroid inliers of
              None \<Rightarrow> None
            | Some c \<Rightarrow> Some (c, geometryStats inliers (Some c), length inliers)))"


subsection \<open>The grid loops end\<close>

definition grid :: "real \<Rightarrow> real \<Rightarrow> real \<Rightarrow> real list" where
  "grid lo hi st = map (\<lambda>k. lo + of_nat k * st) [0..<nat (\<lfloor>(hi - lo) / st\<rfloor> + 1)]"

lemma grid_done: "0 < st \<Longrightarrow> hi < lo \<Longrightarrow> grid lo hi st = []"
proof -
  assume "0 < st" "hi < lo"
  then have "(hi - lo) / st < 0" by (simp add: divide_neg_pos)
  then have "\<lfloor>(hi - lo) / st\<rfloor> < 0" by (simp only: floor_less_zero)
  then show ?thesis by (simp add: grid_def del: floor_less_zero)
qed

lemma grid_next: "0 < st \<Longrightarrow> lo \<le> hi \<Longrightarrow> grid lo hi st = lo # grid (lo + st) hi st"
proof -
  assume st: "0 < st" and le: "lo \<le> hi"
  define n where "n = nat \<lfloor>(hi - lo) / st\<rfloor>"
  have "0 \<le> \<lfloor>(hi - lo) / st\<rfloor>" using st le by simp
  then have m: "nat (\<lfloor>(hi - lo) / st\<rfloor> + 1) = Suc n" by (simp add: n_def nat_add_distrib del: zero_le_floor)
  have "(hi - (lo + st)) / st = (hi - lo) / st - 1" using st by (simp add: field_simps)
  then have k: "nat (\<lfloor>(hi - (lo + st)) / st\<rfloor> + 1) = n" by (simp add: n_def)
  show ?thesis unfolding grid_def m k
    by (simp add: upt_conv_Cons map_Suc_upt [symmetric] algebra_simps del: upt_Suc)
qed

lemma grid_in: "i < nat (\<lfloor>(hi - lo) / st\<rfloor> + 1) \<Longrightarrow> lo + of_nat i * st \<in> set (grid lo hi st)"
  by (auto simp: grid_def)

definition try_row :: "heard_signal list \<Rightarrow> real \<Rightarrow> fit_spot option \<Rightarrow> real list \<Rightarrow> fit_spot option" where
  "try_row pts la rnd los = foldl (\<lambda>r lo. try_spot pts la lo r) rnd los"

lemma lon_loop_grid: "0 < st \<Longrightarrow> lon_loop pts hi st la lo rnd = Some (try_row pts la rnd (grid lo hi st))"
proof (induction "length (grid lo hi st)" arbitrary: lo rnd)
  case 0
  then have "\<not> lo \<le> hi" using grid_next [of st lo hi] by auto
  then show ?case using grid_done [OF 0(2), of hi lo] by (simp add: lon_loop.simps try_row_def)
next
  case (Suc n)
  then have le: "lo \<le> hi" using grid_done [of st hi lo] by fastforce
  have g: "grid lo hi st = lo # grid (lo + st) hi st" by (rule grid_next [OF Suc(3) le])
  with Suc(2) have "n = length (grid (lo + st) hi st)" by simp
  from Suc(1) [OF this Suc(3), of "try_spot pts la lo rnd"] le g show ?case
    by (subst lon_loop.simps) (simp add: try_row_def)
qed

lemma lat_loop_grid:
  "0 < st \<Longrightarrow> 0 < st' \<Longrightarrow> lat_loop pts hi st lo' hi' st' la rnd
     = Some (foldl (\<lambda>r la. try_row pts la r (grid lo' hi' st')) rnd (grid la hi st))"
proof (induction "length (grid la hi st)" arbitrary: la rnd)
  case 0
  then have "\<not> la \<le> hi" using grid_next [of st la hi] by auto
  then show ?case using grid_done [OF 0(2), of hi la] by (simp add: lat_loop.simps)
next
  case (Suc n)
  then have le: "la \<le> hi" using grid_done [of st hi la] by fastforce
  have g: "grid la hi st = la # grid (la + st) hi st" by (rule grid_next [OF Suc(3) le])
  with Suc(2) have "n = length (grid (la + st) hi st)" by simp
  from Suc(1) [OF this Suc(3,4), of "try_row pts la rnd (grid lo' hi' st')"] le g show ?case
    by (subst lat_loop.simps) (simp add: lon_loop_grid [OF Suc(4)])
qed

subsection \<open>The best spot of the grid\<close>

fun covered :: "heard_signal list \<Rightarrow> fit_spot option \<Rightarrow> (real \<times> real) set \<Rightarrow> bool" where
  "covered pts None S = (S = {})"
| "covered pts (Some b) S =
     (fs_cost b = pathlossCost pts (fs_lat b) (fs_lon b)
      \<and> (\<forall>(la, lo) \<in> S. fs_cost b \<le> pathlossCost pts la lo))"

lemma covered_try: "covered pts r S \<Longrightarrow> covered pts (try_spot pts la lo r) (insert (la, lo) S)"
  by (cases r) (fastforce simp: try_spot_def Let_def)+

lemma covered_row: "covered pts r S \<Longrightarrow> covered pts (try_row pts la r los) (S \<union> {la} \<times> set los)"
proof (induction los arbitrary: r S)
  case (Cons lo los)
  have "covered pts (try_row pts la (try_spot pts la lo r) los) (insert (la, lo) S \<union> {la} \<times> set los)"
    by (rule Cons.IH [OF covered_try [OF Cons.prems]])
  moreover have "insert (la, lo) S \<union> {la} \<times> set los = S \<union> {la} \<times> set (lo # los)" by auto
  ultimately show ?case by (simp add: try_row_def)
qed (simp add: try_row_def)

lemma covered_rows:
  "covered pts r S \<Longrightarrow> covered pts (foldl (\<lambda>r la. try_row pts la r los) r las) (S \<union> set las \<times> set los)"
proof (induction las arbitrary: r S)
  case (Cons la las)
  have "S \<union> {la} \<times> set los \<union> set las \<times> set los = S \<union> set (la # las) \<times> set los" by auto
  then show ?case using Cons.IH [OF covered_row [OF Cons.prems, of la los]] by (simp only: foldl_Cons)
qed simp

lemma lat_loop_best:
  assumes "0 < st" "0 < st'" "la \<le> hi" "lo' \<le> hi'"
  shows "\<exists>b. lat_loop pts hi st lo' hi' st' la None = Some (Some b)
     \<and> covered pts (Some b) (set (grid la hi st) \<times> set (grid lo' hi' st'))"
proof -
  let ?r = "foldl (\<lambda>r la. try_row pts la r (grid lo' hi' st')) None (grid la hi st)"
  have c: "covered pts ?r (set (grid la hi st) \<times> set (grid lo' hi' st'))"
    using covered_rows [of pts None "{}" "grid lo' hi' st'" "grid la hi st"] by simp
  have "grid la hi st \<noteq> []" "grid lo' hi' st' \<noteq> []" using grid_next assms by simp_all
  then have "set (grid la hi st) \<times> set (grid lo' hi' st') \<noteq> {}" by simp
  with c have "?r \<noteq> None" by (metis covered.simps(1))
  then show ?thesis using c lat_loop_grid [OF assms(1,2)] by auto
qed

text \<open>A later pass looks at the best spot again, so it never ends worse.\<close>

lemma grid_middle: "0 < w \<Longrightarrow> m \<in> set (grid (m - w) (m + w) ((m + w - (m - w)) / 16))"
proof -
  assume w: "0 < w"
  have "(m + w - (m - w)) / ((m + w - (m - w)) / 16) = 16" using w by simp
  then have "m - w + of_nat 8 * ((m + w - (m - w)) / 16) \<in> set (grid (m - w) (m + w) ((m + w - (m - w)) / 16))"
    by (intro grid_in) simp
  then show ?thesis by simp
qed

lemma fit_passes_best:
  assumes "loLat < hiLat" "loLon < hiLon"
  shows "(k = 0 \<longrightarrow> fit_passes k pts loLat hiLat loLon hiLon best = Some best)
    \<and> (0 < k \<longrightarrow> (\<exists>b. fit_passes k pts loLat hiLat loLon hiLon best = Some (Some b)
         \<and> covered pts (Some b) (set (grid loLat hiLat ((hiLat - loLat) / 16)) \<times> set (grid loLon hiLon ((hiLon - loLon) / 16)))))"
  using assms
proof (induction k arbitrary: loLat hiLat loLon hiLon best)
  case (Suc k)
  define st where "st = (hiLat - loLat) / 16"
  define st' where "st' = (hiLon - loLon) / 16"
  have pos: "0 < st" "0 < st'" using Suc.prems by (simp_all add: st_def st'_def)
  let ?S = "set (grid loLat hiLat st) \<times> set (grid loLon hiLon st')"
  obtain b where b: "lat_loop pts hiLat st loLon hiLon st' loLat None = Some (Some b)" "covered pts (Some b) ?S"
    using lat_loop_best [OF pos, of loLat hiLat loLon hiLon pts] Suc.prems by auto
  have run: "fit_passes (Suc k) pts loLat hiLat loLon hiLon best
      = fit_passes k pts (fs_lat b - st) (fs_lat b + st) (fs_lon b - st') (fs_lon b + st') (Some b)"
    using b(1) by (simp add: st_def st'_def Let_def)
  show ?case
  proof (cases k)
    case 0
    then show ?thesis using run b(2) by (simp add: st_def st'_def del: covered.simps fit_passes.simps(2))
  next
    case (Suc j)
    let ?T = "set (grid (fs_lat b - st) (fs_lat b + st) ((fs_lat b + st - (fs_lat b - st)) / 16))
        \<times> set (grid (fs_lon b - st') (fs_lon b + st') ((fs_lon b + st' - (fs_lon b - st')) / 16))"
    obtain c where c: "fit_passes k pts (fs_lat b - st) (fs_lat b + st) (fs_lon b - st') (fs_lon b + st') (Some b) = Some (Some c)"
      "covered pts (Some c) ?T"
      using Suc.IH [of "fs_lat b - st" "fs_lat b + st" "fs_lon b - st'" "fs_lon b + st'" "Some b"] pos Suc by auto
    have "(fs_lat b, fs_lon b) \<in> ?T" using grid_middle pos by blast
    then have "fs_cost c \<le> fs_cost b" using c(2) b(2) by fastforce
    then have "covered pts (Some c) ?S" using c(2) b(2) by fastforce
    then show ?thesis using run c(1) by (simp add: st_def st'_def del: covered.simps fit_passes.simps(2))
  qed
qed simp


lemma foldl_min_max: "foldl min (a :: real) xs \<le> a" "a \<le> foldl max a xs"
proof (induction xs arbitrary: a)
  case (Cons x xs)
  { case 1 show ?case using Cons(1) [of "min a x"] by simp }
  { case 2 show ?case using Cons(2) [of "max a x"] by simp }
qed simp_all

lemma min_le_max: "min_of xs \<le> max_of xs"
  unfolding min_of_def max_of_def using foldl_min_max order_trans by blast

definition first_grid :: "heard_signal list \<Rightarrow> (real \<times> real) set" where
  "first_grid pts =
     (let lats = map (fst \<circ> fst) pts; lons = map (snd \<circ> fst) pts;
          loLat = min_of lats - FIT_PAD; hiLat = max_of lats + FIT_PAD;
          loLon = min_of lons - FIT_PAD * 1.6; hiLon = max_of lons + FIT_PAD * 1.6
      in set (grid loLat hiLat ((hiLat - loLat) / 16)) \<times> set (grid loLon hiLon ((hiLon - loLon) / 16)))"

lemma pathlossFit_best:
  assumes "3 \<le> length (signals_of points)"
  shows "\<exists>la lo rms. pathlossFit points = Some (Some (la, lo, rms))
     \<and> rms = sqrt (pathlossCost (signals_of points) la lo)
     \<and> (\<forall>(la', lo') \<in> first_grid (signals_of points). pathlossCost (signals_of points) la lo \<le> pathlossCost (signals_of points) la' lo')"
proof -
  let ?pts = "signals_of points"
  let ?lats = "map (fst \<circ> fst) ?pts" and ?lons = "map (snd \<circ> fst) ?pts"
  have l: "min_of ?lats - FIT_PAD < max_of ?lats + FIT_PAD"
    "min_of ?lons - FIT_PAD * 1.6 < max_of ?lons + FIT_PAD * 1.6"
    using min_le_max [of ?lats] min_le_max [of ?lons] by (simp_all add: FIT_PAD_def)
  obtain b where b: "fit_passes 5 ?pts (min_of ?lats - FIT_PAD) (max_of ?lats + FIT_PAD)
       (min_of ?lons - FIT_PAD * 1.6) (max_of ?lons + FIT_PAD * 1.6) None = Some (Some b)"
    "covered ?pts (Some b) (first_grid ?pts)"
    using fit_passes_best [OF l, of 5 ?pts None] unfolding first_grid_def Let_def by auto
  have "pathlossFit points = Some (Some (fs_lat b, fs_lon b, sqrt (fs_cost b)))"
    using b(1) assms unfolding pathlossFit_def Let_def by simp
  then show ?thesis using b(2) by auto
qed

lemma pathlossFit_returns: "pathlossFit points \<noteq> None"
proof (cases "3 \<le> length (signals_of points)")
  case True
  then show ?thesis using pathlossFit_best by fastforce
next
  case False
  then show ?thesis by (simp add: pathlossFit_def Let_def)
qed

lemma locate_some: "locate points \<noteq> None"
proof -
  obtain i o' where r: "rejectOutliers (dedupeSpatial DEFAULT_CELL_M points) = (i, o')" by force
  obtain fit where "pathlossFit i = Some fit" using pathlossFit_returns [of i] by auto
  then show ?thesis by (simp add: locate_def r Let_def)
qed

subsection \<open>Properties\<close>

text \<open>Locating a node always ends: the loops over fractional degrees of the path-loss fit
  return for every set of points, so does the whole analysis; and with at least three signals the
  fit gives a place whose error is no worse than that of any place of its first grid, so the four
  finer passes never lose what an earlier one found.\<close>

theorem locate_returns:
  assumes "3 \<le> length (signals_of points)"
  shows "(\<forall>any. locate any \<noteq> None)
    \<and> (\<exists>la lo rms. pathlossFit points = Some (Some (la, lo, rms))
         \<and> rms = sqrt (pathlossCost (signals_of points) la lo)
         \<and> (\<forall>(la', lo') \<in> first_grid (signals_of points).
               pathlossCost (signals_of points) la lo \<le> pathlossCost (signals_of points) la' lo'))"
  using pathlossFit_best [OF assms] locate_some by blast

definition loud_point :: "real \<Rightarrow> locate_point" where
  "loud_point la = \<lparr>lp_lat = la, lp_lon = 5, lp_rssi = Some (- 80)\<rparr>"

theorem locate_returns_witness:
  "\<exists>la lo rms. pathlossFit [loud_point 51, loud_point 52, loud_point 53] = Some (Some (la, lo, rms))"
proof -
  have "3 \<le> length (signals_of [loud_point 51, loud_point 52, loud_point 53])"
    by (simp add: signals_of_def loud_point_def map_filter_simps)
  from locate_returns [OF this] show ?thesis by blast
qed

end
