(* ===== verification/Reach.thy ===== *)
theory Reach
imports Locate "HOL-Library.List_Lexorder"
begin

text \<open>The node and reach layers of the coverage map: who a short id was
  (\<^verbatim>\<open>coverage/attribution.ts\<close>), every repeater's star of hearings with a hue of its own
  (\<^verbatim>\<open>coverage/reach.ts\<close>), and each node's advertised position against its estimate
  (\<^verbatim>\<open>coverage/nodePositions.ts\<close>). A signal is a finite number or none where an
  estimate is made from it. GeoJSON output is drawing and is left out.\<close>

unbundle bit_operations_syntax

subsection \<open>Attribution by reach\<close>

record hearing =
  hr_kind :: "jstr option"
  hr_id :: "jstr option"
  hr_role :: "jstr option"
  hr_lat :: jsnum
  hr_lon :: jsnum
  hr_rssi :: "jsnum option"

record registry_node =
  rn_pubkey :: jstr
  rn_name :: "jstr option"
  rn_lat :: jsnum
  rn_lon :: jsnum

datatype map_attribution = MapNode registry_node | MapCollision nat | MapEstimate bool

definition REACH_FREQ_MHZ :: real where "REACH_FREQ_MHZ = 868"
definition MAP_M_PER_DEG :: real where "MAP_M_PER_DEG = 111320"
definition HEAD_HEX :: nat where "HEAD_HEX = 4"

definition map_reachKm :: "jsnum option \<Rightarrow> real" where
  "map_reachKm rssi =
     (case rssi of
        Some (Fin r) \<Rightarrow>
          min REACH_CAP_KM (10 powr ((LINK_BUDGET_DB - r - 20 * log 10 REACH_FREQ_MHZ - 32.44) / 20))
      | _ \<Rightarrow> REACH_CAP_KM)"

definition ATTRIBUTABLE :: "jstr list" where
  "ATTRIBUTABLE = [str ''relay'', str ''path_hash'', str ''direct_hash'']"

definition SHORT_ID :: "jstr \<Rightarrow> bool" where
  "SHORT_ID s \<longleftrightarrow> length s \<in> {2, 4, 6} \<and> list_all is_hex s"

definition metresBetween :: "real \<times> real \<Rightarrow> real \<times> real \<Rightarrow> real" where
  "metresBetween a b =
     (let dLat = (fst a - fst b) * MAP_M_PER_DEG;
          dLon = (snd a - snd b) * MAP_M_PER_DEG * cos ((fst a + fst b) / 2 * pi / 180)
      in sqrt (dLat\<^sup>2 + dLon\<^sup>2))"

definition kmBetween :: "real \<times> real \<Rightarrow> real \<times> real \<Rightarrow> real" where
  "kmBetween a b = metresBetween a b / 1000"

text \<open>\<^verbatim>\<open>kmBetween(r, n) <= km\<close>: false when a coordinate is not a finite number.\<close>

definition km_within :: "jsnum \<times> jsnum \<Rightarrow> jsnum \<times> jsnum \<Rightarrow> real \<Rightarrow> bool" where
  "km_within a b km =
     (case (a, b) of
        ((Fin a1, Fin a2), (Fin b1, Fin b2)) \<Rightarrow> kmBetween (a1, a2) (b1, b2) \<le> km
      | _ \<Rightarrow> False)"

definition index_registry ::
  "(jstr \<times> registry_node list) list \<times> jstr list \<Rightarrow> registry_node \<Rightarrow> (jstr \<times> registry_node list) list \<times> jstr list" where
  "index_registry acc n =
     (let (byPrefix, seen) = acc; key = toLowerCase (rn_pubkey n) in
      if rn_pubkey n = [] \<or> \<not> isFinite (rn_lat n) \<or> \<not> isFinite (rn_lon n) then acc
      else if key \<in> set seen then acc
      else (foldl (\<lambda>m len. let p = take len key in
                case map_of m p of None \<Rightarrow> amap_set p [n] m | Some list \<Rightarrow> amap_set p (list @ [n]) m)
              byPrefix [2, 4, 6], key # seen))"

definition registryIndex :: "registry_node list \<Rightarrow> (jstr \<times> registry_node list) list" where
  "registryIndex nodes = fst (foldl index_registry ([], []) nodes)"

definition attributeReception :: "hearing \<Rightarrow> (jstr \<times> registry_node list) list \<Rightarrow> map_attribution option" where
  "attributeReception r index =
     (case (hr_kind r, hr_id r) of
        (Some kind, Some ident) \<Rightarrow>
          if kind \<notin> set ATTRIBUTABLE \<or> \<not> SHORT_ID ident then None
          else
            let candidates = (case map_of index (toLowerCase ident) of None \<Rightarrow> [] | Some l \<Rightarrow> l);
                inReach = filter (\<lambda>n. km_within (hr_lat r, hr_lon r) (rn_lat n, rn_lon n)
                            (map_reachKm (hr_rssi r))) candidates
            in (case inReach of
                  [n] \<Rightarrow> Some (MapNode n)
                | [] \<Rightarrow> Some (MapEstimate (candidates \<noteq> []))
                | _ \<Rightarrow> Some (MapCollision (length inReach)))
      | _ \<Rightarrow> None)"

definition attributionSignature :: "map_attribution option \<Rightarrow> jstr" where
  "attributionSignature a =
     (case a of
        None \<Rightarrow> []
      | Some (MapNode n) \<Rightarrow> str ''node:'' @ toLowerCase (rn_pubkey n)
      | Some (MapEstimate known) \<Rightarrow> if known then str ''estimate:known'' else str ''estimate''
      | Some (MapCollision _) \<Rightarrow> str ''collision'')"

definition isRegistryIdKind :: "jstr option \<Rightarrow> bool" where
  "isRegistryIdKind kind \<longleftrightarrow> kind = Some (str ''advert_pubkey'') \<or> kind = Some (str ''discover_pubkey'')"

text \<open>The keys per head and the node per key, then the search among the keys of the head.\<close>

definition head_keys :: "registry_node list \<Rightarrow> (jstr \<times> jstr list) list" where
  "head_keys nodes =
     foldl (\<lambda>m n. let k = toLowerCase (rn_pubkey n); h = take HEAD_HEX k in
        if k = [] then m
        else (case map_of m h of None \<Rightarrow> amap_set h [k] m | Some list \<Rightarrow> amap_set h (list @ [k]) m))
       [] nodes"

definition key_nodes :: "registry_node list \<Rightarrow> (jstr \<times> registry_node) list" where
  "key_nodes nodes =
     foldl (\<lambda>m n. let k = toLowerCase (rn_pubkey n) in if k = [] then m else amap_set k n m) [] nodes"

definition key_matches :: "hearing \<Rightarrow> jstr \<Rightarrow> jstr \<Rightarrow> bool" where
  "key_matches r ident k =
     (if hr_kind r = Some (str ''advert_pubkey'') then ident = k
      else length ident \<ge> 4 \<and> startsWith k ident)"

fun match_loop :: "(jstr \<Rightarrow> bool) \<Rightarrow> jstr list \<Rightarrow> jstr option \<Rightarrow> jstr option" where
  "match_loop ok [] matched = matched"
| "match_loop ok (k # ks) matched =
     (if \<not> ok k then match_loop ok ks matched
      else if matched \<noteq> None then None
      else match_loop ok ks (Some k))"

definition registryMatcher :: "registry_node list \<Rightarrow> hearing \<Rightarrow> registry_node option" where
  "registryMatcher nodes r =
     (case hr_id r of
        None \<Rightarrow> None
      | Some i \<Rightarrow>
          if \<not> isRegistryIdKind (hr_kind r) then None
          else
            let ident = toLowerCase i;
                keys = (case map_of (head_keys nodes) (take HEAD_HEX ident) of None \<Rightarrow> [] | Some l \<Rightarrow> l)
            in case match_loop (key_matches r ident) keys None of
                 None \<Rightarrow> None
               | Some k \<Rightarrow> map_of (key_nodes nodes) k)"

record bounds =
  bd_south :: real
  bd_west :: real
  bd_north :: real
  bd_east :: real

definition padBounds :: "bounds \<Rightarrow> real \<Rightarrow> bounds" where
  "padBounds b km =
     (let dLat = km * 1000 / MAP_M_PER_DEG;
          poleward = max \<bar>bd_south b - dLat\<bar> \<bar>bd_north b + dLat\<bar>;
          dLon = km * 1000 / (MAP_M_PER_DEG * cos (poleward * pi / 180))
      in \<lparr>bd_south = bd_south b - dLat, bd_west = bd_west b - dLon,
          bd_north = bd_north b + dLat, bd_east = bd_east b + dLon\<rparr>)"

subsection \<open>Hues\<close>

definition HUE_COUNT :: nat where "HUE_COUNT = 12"
definition NEAR_M :: real where "NEAR_M = 2000"

definition fnv_step :: "32 word \<Rightarrow> nat \<Rightarrow> 32 word" where
  "fnv_step h c = (h XOR of_nat c) * 0x01000193"

definition hueSlot :: "jstr \<Rightarrow> nat" where
  "hueSlot ident =
     (let h = foldl fnv_step 0x811c9dc5 (toLowerCase ident);
          h = (h XOR drop_bit 16 h) * 0x45d9f3b;
          h = h XOR drop_bit 16 h
      in unat h mod HUE_COUNT)"

record hue_node =
  hn_id :: jstr
  hn_lat :: jsnum
  hn_lon :: jsnum

definition hue_near :: "hue_node \<Rightarrow> hue_node \<Rightarrow> bool" where
  "hue_near a b =
     (case ((hn_lat a, hn_lon a), (hn_lat b, hn_lon b)) of
        ((Fin a1, Fin a2), (Fin b1, Fin b2)) \<Rightarrow> metresBetween (a1, a2) (b1, b2) < NEAR_M
      | _ \<Rightarrow> False)"

definition slot_for :: "(hue_node \<times> nat) list \<Rightarrow> hue_node \<Rightarrow> nat" where
  "slot_for placed n =
     (let base = hueSlot (hn_id n);
          slots = map (\<lambda>step. (base + step) mod HUE_COUNT) [0..<HUE_COUNT]
      in case find (\<lambda>slot. \<not> (\<exists>p \<in> set placed. snd p = slot \<and> hue_near (fst p) n)) slots of
           Some slot \<Rightarrow> slot
         | None \<Rightarrow> last slots)"

text \<open>\<open>placed\<close> is both the list of placed nodes and, by id, the map handed out.\<close>

fun hue_loop :: "hue_node list \<Rightarrow> (hue_node \<times> nat) list \<Rightarrow> (hue_node \<times> nat) list" where
  "hue_loop [] placed = placed"
| "hue_loop (n # ns) placed =
     (if \<exists>p \<in> set placed. hn_id (fst p) = hn_id n then hue_loop ns placed
      else hue_loop ns (placed @ [(n, slot_for placed n)]))"

definition hue_rows :: "hue_node list \<Rightarrow> hue_node list" where
  "hue_rows nodes = sort_key hn_id (map (\<lambda>n. n\<lparr>hn_id := toLowerCase (hn_id n)\<rparr>) nodes)"

definition assignHues :: "hue_node list \<Rightarrow> (jstr \<times> nat) list" where
  "assignHues nodes = map (\<lambda>(n, slot). (hn_id n, slot)) (hue_loop (hue_rows nodes) [])"

subsection \<open>Rays and stars\<close>

definition isRepeaterHearing :: "hearing \<Rightarrow> bool" where
  "isRepeaterHearing h \<longleftrightarrow>
     hr_role h = Some (str ''Repeater'')
     \<or> hr_kind h \<in> {Some (str ''relay''), Some (str ''path_hash''), Some (str ''discover_pubkey''),
                     Some (str ''trace_reply''), Some (str ''anon_reply'')}"

definition isTwoWay :: "hearing \<Rightarrow> bool" where
  "isTwoWay h \<longleftrightarrow>
     hr_kind h \<in> {Some (str ''discover_pubkey''), Some (str ''trace_reply''), Some (str ''anon_reply'')}"

definition RAY_WEAK_DBM :: real where "RAY_WEAK_DBM = - 120"
definition RAY_STRONG_DBM :: real where "RAY_STRONG_DBM = - 60"
definition ONE_WAY_OPACITY :: real where "ONE_WAY_OPACITY = 0.4"
definition DIM_OPACITY :: real where "DIM_OPACITY = 0.25"
definition RAY_MIN_W :: real where "RAY_MIN_W = 0.8"
definition RAY_MAX_W :: real where "RAY_MAX_W = 3.2"
definition RAY_MIN_OP :: real where "RAY_MIN_OP = 0.3"
definition RAY_MAX_OP :: real where "RAY_MAX_OP = 0.95"

definition rayStrength :: "jsnum option \<Rightarrow> real" where
  "rayStrength rssi =
     (case rssi of
        Some (Fin v) \<Rightarrow> min 1 (max 0 ((v - RAY_WEAK_DBM) / (RAY_STRONG_DBM - RAY_WEAK_DBM)))
      | _ \<Rightarrow> 0)"

definition rayStyle :: "jsnum option \<Rightarrow> bool \<Rightarrow> bool \<Rightarrow> real \<times> real" where
  "rayStyle rssi twoWay dimmed =
     (let s = rayStrength rssi;
          w = of_int (js_round ((RAY_MIN_W + s * (RAY_MAX_W - RAY_MIN_W)) * 100)) / 100;
          op = RAY_MIN_OP + s * (RAY_MAX_OP - RAY_MIN_OP);
          op = (if twoWay then op else op * ONE_WAY_OPACITY);
          op = (if dimmed then op * DIM_OPACITY else op)
      in (w, of_int (js_round (op * 1000)) / 1000))"

definition selectionDim :: "jstr list option \<Rightarrow> jstr option \<Rightarrow> real" where
  "selectionDim selected ident =
     (case selected of
        None \<Rightarrow> 1
      | Some sel \<Rightarrow>
          if sel = [] then 1
          else (case ident of
                  None \<Rightarrow> DIM_OPACITY
                | Some i \<Rightarrow> if toLowerCase i \<in> set sel then 1 else DIM_OPACITY))"

definition starAttribution ::
  "hearing \<Rightarrow> (hearing \<Rightarrow> map_attribution option) \<Rightarrow> (hearing \<Rightarrow> registry_node option) \<Rightarrow> map_attribution option" where
  "starAttribution h attributionOf registryNodeOf =
     (case attributionOf h of
        Some a \<Rightarrow> Some a
      | None \<Rightarrow> map_option MapNode (registryNodeOf h))"

definition starKey :: "jstr \<Rightarrow> map_attribution option \<Rightarrow> jstr option" where
  "starKey senderId a =
     (case a of
        Some (MapNode n) \<Rightarrow> Some (toLowerCase (rn_pubkey n))
      | Some (MapCollision _) \<Rightarrow> None
      | _ \<Rightarrow> Some (toLowerCase senderId))"

definition starKeyOf ::
  "hearing \<Rightarrow> (hearing \<Rightarrow> map_attribution option) \<Rightarrow> (hearing \<Rightarrow> registry_node option) \<Rightarrow> jstr option" where
  "starKeyOf h attributionOf registryNodeOf =
     (case hr_id h of
        None \<Rightarrow> None
      | Some i \<Rightarrow> if \<not> isRepeaterHearing h then None
                  else starKey i (starAttribution h attributionOf registryNodeOf))"

record star =
  st_id :: jstr
  st_origin :: "real \<times> real"
  st_kind :: target_kind
  st_points :: "hearing list"

definition starSelected :: "star \<Rightarrow> jstr list \<Rightarrow> bool" where
  "starSelected s selected \<longleftrightarrow>
     st_id s \<in> set selected
     \<or> (\<exists>p \<in> set (st_points s). case hr_id p of None \<Rightarrow> False | Some i \<Rightarrow> toLowerCase i \<in> set selected)"

definition usable_place :: "(jsnum \<times> jsnum) option \<Rightarrow> (real \<times> real) option" where
  "usable_place p =
     (case p of
        Some (Fin la, Fin lo) \<Rightarrow> if la = 0 \<and> lo = 0 then None else Some (la, lo)
      | _ \<Rightarrow> None)"

text \<open>One reception in the grouping loop: the hearings per star and the node of a star.\<close>

definition star_step ::
  "(hearing \<Rightarrow> map_attribution option) \<Rightarrow> (hearing \<Rightarrow> registry_node option)
   \<Rightarrow> (jstr \<times> hearing list) list \<times> (jstr \<times> registry_node) list \<Rightarrow> hearing
   \<Rightarrow> (jstr \<times> hearing list) list \<times> (jstr \<times> registry_node) list" where
  "star_step attributionOf registryNodeOf acc h =
     (let (byId, nodeOf) = acc in
      case hr_id h of
        None \<Rightarrow> acc
      | Some i \<Rightarrow>
          if \<not> isRepeaterHearing h \<or> \<not> isFinite (hr_lat h) \<or> \<not> isFinite (hr_lon h) then acc
          else
            let a = starAttribution h attributionOf registryNodeOf in
            (case starKey i a of
               None \<Rightarrow> acc
             | Some ident \<Rightarrow>
                 (amap_set ident ((case map_of byId ident of None \<Rightarrow> [] | Some l \<Rightarrow> l) @ [h]) byId,
                  (case a of Some (MapNode n) \<Rightarrow> amap_set ident n nodeOf | _ \<Rightarrow> nodeOf))))"

definition hearing_point :: "hearing \<Rightarrow> locate_point" where
  "hearing_point h = \<lparr>lp_lat = fin_val (hr_lat h), lp_lon = fin_val (hr_lon h),
     lp_rssi = finite_or_none (hr_rssi h)\<rparr>"

definition star_of ::
  "(jstr \<Rightarrow> (jsnum \<times> jsnum) option) \<Rightarrow> (jstr \<times> registry_node) list \<Rightarrow> jstr \<times> hearing list \<Rightarrow> star option" where
  "star_of positionOf nodeOf idPts =
     (let (ident, pts) = idPts;
          advertised = (case map_of nodeOf ident of Some n \<Rightarrow> Some (rn_lat n, rn_lon n) | None \<Rightarrow> positionOf ident)
      in case usable_place advertised of
           Some o' \<Rightarrow> Some \<lparr>st_id = ident, st_origin = o', st_kind = Advertised, st_points = pts\<rparr>
         | None \<Rightarrow>
             (case locate_estimateFor (map hearing_point pts) of
                None \<Rightarrow> None
              | Some (c, _, _) \<Rightarrow>
                  map_option (\<lambda>o'. \<lparr>st_id = ident, st_origin = o', st_kind = Estimated, st_points = pts\<rparr>)
                    (usable_place (Some (Fin (fst c), Fin (snd c))))))"

definition coverageStars ::
  "(jstr \<Rightarrow> (jsnum \<times> jsnum) option) \<Rightarrow> (hearing \<Rightarrow> map_attribution option)
   \<Rightarrow> (hearing \<Rightarrow> registry_node option) \<Rightarrow> hearing list \<Rightarrow> star list" where
  "coverageStars positionOf attributionOf registryNodeOf points =
     (case foldl (star_step attributionOf registryNodeOf) ([], []) points of
        (byId, nodeOf) \<Rightarrow> List.map_filter (star_of positionOf nodeOf) byId)"

subsection \<open>Advertised against estimated (nodePositions.ts)\<close>

definition TIGHT_DRIFT_M :: real where "TIGHT_DRIFT_M = 100"
definition TRUSTED_ENCIRCLEMENT :: real where "TRUSTED_ENCIRCLEMENT = 0.5"

datatype presentation =
  NoPosition | AdvertisedOnly | EstimateOnly
| Tight real
| Drifted real real bool  \<comment> \<open>drift, radius of the search circle, outside it\<close>
| Unverified real

text \<open>\<open>est\<close> is the estimate's place and statistics.\<close>

definition driftPresentation :: "(jsnum \<times> jsnum) option \<Rightarrow> ((real \<times> real) \<times> locate_stats) option \<Rightarrow> presentation" where
  "driftPresentation advertised est =
     (let place = (case advertised of Some (Fin la, Fin lo) \<Rightarrow> Some (la, lo) | _ \<Rightarrow> None) in
      case (place, est) of
        (None, None) \<Rightarrow> NoPosition
      | (Some _, None) \<Rightarrow> AdvertisedOnly
      | (None, Some _) \<Rightarrow> EstimateOnly
      | (Some a, Some (centroid, stats)) \<Rightarrow>
          let driftM = locate_haversineM a centroid in
          if driftM \<le> TIGHT_DRIFT_M then Tight driftM
          else (case ls_searchRadiusM stats of
                  Some r \<Rightarrow>
                    if ls_encirclement stats \<ge> TRUSTED_ENCIRCLEMENT then Drifted driftM r (driftM > r)
                    else Unverified driftM
                | None \<Rightarrow> Unverified driftM))"

datatype drift_tone = Accent | Warn | Muted

fun driftTone :: "presentation \<Rightarrow> drift_tone" where
  "driftTone (Tight _) = Accent"
| "driftTone (Drifted _ _ outside) = (if outside then Warn else Muted)"
| "driftTone _ = Muted"

definition push_point :: "jstr \<Rightarrow> locate_point \<Rightarrow> (jstr \<times> locate_point list) list \<Rightarrow> (jstr \<times> locate_point list) list" where
  "push_point k p m = (case map_of m k of None \<Rightarrow> m | Some l \<Rightarrow> amap_set k (l @ [p]) m)"

definition group_step ::
  "registry_node list \<Rightarrow> (hearing \<Rightarrow> map_attribution option)
   \<Rightarrow> (jstr \<times> locate_point list) list \<Rightarrow> hearing \<Rightarrow> (jstr \<times> locate_point list) list" where
  "group_step nodes attributionOf out h =
     (if hr_id h = None \<or> \<not> isFinite (hr_lat h) \<or> \<not> isFinite (hr_lon h) then out
      else case attributionOf h of
        Some (MapNode n) \<Rightarrow> push_point (toLowerCase (rn_pubkey n)) (hearing_point h) out
      | Some _ \<Rightarrow> out
      | None \<Rightarrow>
          (case registryMatcher nodes h of
             None \<Rightarrow> out
           | Some n \<Rightarrow> push_point (toLowerCase (rn_pubkey n)) (hearing_point h) out))"

definition groupForNodes ::
  "hearing list \<Rightarrow> registry_node list \<Rightarrow> (hearing \<Rightarrow> map_attribution option) \<Rightarrow> (jstr \<times> locate_point list) list" where
  "groupForNodes hearings nodes attributionOf =
     (let out = foldl (\<lambda>m n. if rn_pubkey n = [] then m else amap_set (toLowerCase (rn_pubkey n)) [] m) [] nodes
      in if out = [] then out else foldl (group_step nodes attributionOf) out hearings)"

record node_row =
  nr_id :: jstr
  nr_name :: jstr
  nr_place :: "real \<times> real"
  nr_est :: "((real \<times> real) \<times> locate_stats \<times> nat) option"
  nr_p :: presentation

definition nodeRows :: "registry_node list \<Rightarrow> (jstr \<times> locate_point list) list \<Rightarrow> node_row list" where
  "nodeRows nodes byNode =
     List.map_filter (\<lambda>n.
       if rn_pubkey n = [] \<or> \<not> isFinite (rn_lat n) \<or> \<not> isFinite (rn_lon n) then None
       else
         let ident = toLowerCase (rn_pubkey n);
             est = locate_estimateFor (case map_of byNode ident of None \<Rightarrow> [] | Some l \<Rightarrow> l)
         in Some \<lparr>nr_id = ident, nr_name = or_empty (rn_name n),
              nr_place = (fin_val (rn_lat n), fin_val (rn_lon n)), nr_est = est,
              nr_p = driftPresentation (Some (rn_lat n, rn_lon n))
                       (map_option (\<lambda>(c, s, _). (c, s)) est)\<rparr>) nodes"


subsection \<open>The padded box\<close>

lemma metresBetween_parts:
  "\<bar>(fst a - fst b) * MAP_M_PER_DEG\<bar> \<le> metresBetween a b"
  "\<bar>(snd a - snd b) * MAP_M_PER_DEG * cos ((fst a + fst b) / 2 * pi / 180)\<bar> \<le> metresBetween a b"
  unfolding metresBetween_def Let_def by (simp_all add: real_le_rsqrt)

lemma metresBetween_sym: "metresBetween a b = metresBetween b a"
proof -
  have "((fst a - fst b) * MAP_M_PER_DEG)\<^sup>2 = ((fst b - fst a) * MAP_M_PER_DEG)\<^sup>2"
    by (simp add: power_mult_distrib power2_commute)
  moreover have "((snd a - snd b) * MAP_M_PER_DEG * c)\<^sup>2 = ((snd b - snd a) * MAP_M_PER_DEG * c)\<^sup>2" for c
    by (simp add: power_mult_distrib power2_commute)
  ultimately show ?thesis unfolding metresBetween_def Let_def by (simp add: add.commute)
qed

definition in_bounds :: "bounds \<Rightarrow> real \<times> real \<Rightarrow> bool" where
  "in_bounds b p \<longleftrightarrow> bd_south b \<le> fst p \<and> fst p \<le> bd_north b \<and> bd_west b \<le> snd p \<and> snd p \<le> bd_east b"

definition poleward_of :: "bounds \<Rightarrow> real \<Rightarrow> real" where
  "poleward_of b km =
     max \<bar>bd_south b - km * 1000 / MAP_M_PER_DEG\<bar> \<bar>bd_north b + km * 1000 / MAP_M_PER_DEG\<bar>"

lemma abs_between: "lo \<le> m \<Longrightarrow> m \<le> hi \<Longrightarrow> \<bar>m\<bar> \<le> max \<bar>lo\<bar> \<bar>hi :: real\<bar>"
  by (auto simp: abs_if max_def)

lemma cos_poleward:
  assumes "\<bar>m\<bar> \<le> w" "w < 90"
  shows "0 < cos (w * pi / 180)" "cos (w * pi / 180) \<le> cos (m * pi / 180)"
proof -
  have w: "0 \<le> w" using assms(1) by simp
  have "w * pi / 180 < pi / 2" using assms(2) by simp
  moreover have "- (pi / 2) < 0" "0 \<le> w * pi / 180" using w by simp_all
  ultimately show "0 < cos (w * pi / 180)" by (intro cos_gt_zero_pi) linarith+
  have "\<bar>m\<bar> * pi / 180 \<le> w * pi / 180" using assms(1) by simp
  then have "cos (w * pi / 180) \<le> cos (\<bar>m\<bar> * pi / 180)"
    using assms by (intro cos_monotone_0_pi_le) auto
  moreover have "cos (\<bar>m\<bar> * pi / 180) = cos (m * pi / 180)" by (cases "0 \<le> m") auto
  ultimately show "cos (w * pi / 180) \<le> cos (m * pi / 180)" by simp
qed

lemma pad_latitude:
  assumes "in_bounds b p" "kmBetween p q \<le> km"
  shows "bd_south (padBounds b km) \<le> fst q" "fst q \<le> bd_north (padBounds b km)"
proof -
  have "0 < MAP_M_PER_DEG" by (simp add: MAP_M_PER_DEG_def)
  then have "\<bar>fst p - fst q\<bar> * MAP_M_PER_DEG \<le> km * 1000"
    using metresBetween_parts(1) [of p q] assms(2) by (simp add: kmBetween_def abs_mult)
  then have "\<bar>fst p - fst q\<bar> \<le> km * 1000 / MAP_M_PER_DEG" by (simp add: MAP_M_PER_DEG_def field_simps)
  then show "bd_south (padBounds b km) \<le> fst q" "fst q \<le> bd_north (padBounds b km)"
    using assms(1) by (auto simp: padBounds_def Let_def in_bounds_def abs_le_iff)
qed

lemma pad_longitude:
  assumes "in_bounds b p" "kmBetween p q \<le> km" "0 \<le> km" "poleward_of b km < 90"
  shows "bd_west (padBounds b km) \<le> snd q" "snd q \<le> bd_east (padBounds b km)"
proof -
  let ?w = "poleward_of b km" and ?m = "(fst p + fst q) / 2"
  define c where "c = cos (?w * pi / 180)"
  have pad: "padBounds b km = \<lparr>bd_south = bd_south b - km * 1000 / MAP_M_PER_DEG,
      bd_west = bd_west b - km * 1000 / (MAP_M_PER_DEG * c),
      bd_north = bd_north b + km * 1000 / MAP_M_PER_DEG, bd_east = bd_east b + km * 1000 / (MAP_M_PER_DEG * c)\<rparr>"
    by (simp add: padBounds_def Let_def poleward_of_def c_def)
  have d: "0 \<le> km * 1000 / MAP_M_PER_DEG" using assms(3) by (simp add: MAP_M_PER_DEG_def)
  have "bd_south b - km * 1000 / MAP_M_PER_DEG \<le> ?m" "?m \<le> bd_north b + km * 1000 / MAP_M_PER_DEG"
    using pad_latitude [OF assms(1,2)] assms(1) d by (auto simp: pad in_bounds_def)
  then have "\<bar>?m\<bar> \<le> ?w" unfolding poleward_of_def by (rule abs_between)
  note c = cos_poleward [OF this assms(4), folded c_def]
  have M: "0 < MAP_M_PER_DEG" by (simp add: MAP_M_PER_DEG_def)
  have "\<bar>snd p - snd q\<bar> * MAP_M_PER_DEG * c \<le> \<bar>snd p - snd q\<bar> * MAP_M_PER_DEG * cos (?m * pi / 180)"
    using c(2) M by (intro mult_left_mono) simp_all
  also have "\<dots> = \<bar>(snd p - snd q) * MAP_M_PER_DEG * cos (?m * pi / 180)\<bar>"
    using c M by (simp add: abs_mult)
  also have "\<dots> \<le> km * 1000" using metresBetween_parts(2) [of p q] assms(2) by (simp add: kmBetween_def)
  finally have "\<bar>snd p - snd q\<bar> \<le> km * 1000 / (MAP_M_PER_DEG * c)"
    using c(1) M by (simp add: pos_le_divide_eq mult.assoc)
  then show "bd_west (padBounds b km) \<le> snd q" "snd q \<le> bd_east (padBounds b km)"
    using assms(1) by (auto simp: pad in_bounds_def abs_le_iff)
qed

subsection \<open>Hues of neighbours\<close>

lemma slot_for_less: "slot_for placed n < HUE_COUNT"
proof -
  let ?slots = "map (\<lambda>step. (hueSlot (hn_id n) + step) mod HUE_COUNT) [0..<HUE_COUNT]"
  have all: "\<forall>s \<in> set ?slots. s < HUE_COUNT" by (auto simp: HUE_COUNT_def)
  have "?slots \<noteq> []" by (simp add: HUE_COUNT_def)
  then have "last ?slots \<in> set ?slots" by (rule last_in_set)
  moreover have "find P ?slots = Some slot \<Longrightarrow> slot \<in> set ?slots" for P slot by (blast dest: find_Some_set)
  ultimately have "slot_for placed n \<in> set ?slots"
    unfolding slot_for_def Let_def by (simp split: option.split)
  then show ?thesis using all by blast
qed

lemma mod_covers: "s < (k :: nat) \<Longrightarrow> \<exists>i<k. (b + i) mod k = s"
proof -
  assume s: "s < k"
  then have "0 < k" by simp
  define i where "i = (s + (k - b mod k)) mod k"
  have "(b + i) mod k = (b mod k + (s + (k - b mod k))) mod k" by (simp add: i_def mod_simps)
  also have "b mod k + (s + (k - b mod k)) = s + k"
    using mod_less_divisor [OF \<open>0 < k\<close>, of b] by simp
  finally show ?thesis using s \<open>0 < k\<close> by (intro exI [of _ i]) (simp add: i_def)
qed

lemma slot_for_taken:
  assumes "p \<in> set placed" "hue_near (fst p) n" "snd p = slot_for placed n" "s < HUE_COUNT"
  shows "\<exists>q \<in> set placed. snd q = s \<and> hue_near (fst q) n"
proof -
  let ?free = "\<lambda>slot. \<not> (\<exists>p \<in> set placed. snd p = slot \<and> hue_near (fst p) n)"
  let ?slots = "map (\<lambda>step. (hueSlot (hn_id n) + step) mod HUE_COUNT) [0..<HUE_COUNT]"
  have "find ?free ?slots = None"
  proof (rule ccontr)
    assume "find ?free ?slots \<noteq> None"
    then obtain slot where f: "find ?free ?slots = Some slot" by blast
    then have "slot_for placed n = slot" by (simp add: slot_for_def Let_def)
    moreover have "?free slot" using find_Some_set [OF f] by blast
    ultimately show False using assms(1-3) by blast
  qed
  then have "\<forall>slot \<in> set ?slots. \<not> ?free slot" using find_None_all by fast
  moreover obtain i where "i < HUE_COUNT" "(hueSlot (hn_id n) + i) mod HUE_COUNT = s"
    using mod_covers [OF assms(4)] by blast
  then have "s \<in> set ?slots" by force
  ultimately show ?thesis by blast
qed

lemma hue_near_sym: "hue_near a b \<longleftrightarrow> hue_near b a"
  by (auto simp: hue_near_def metresBetween_sym split: jsnum.splits)


text \<open>What the loop keeps of the nodes placed so far, in their order.\<close>

definition hues_ok :: "hue_node list \<Rightarrow> (hue_node \<times> nat) list \<Rightarrow> bool" where
  "hues_ok rows placed \<longleftrightarrow>
     distinct (map (hn_id \<circ> fst) placed) \<and> fst ` set placed \<subseteq> set rows
     \<and> (\<forall>p \<in> set placed. snd p < HUE_COUNT)
     \<and> (\<forall>p \<in> set placed. \<forall>q \<in> set placed. p \<noteq> q \<and> hue_near (fst p) (fst q) \<longrightarrow> snd p \<noteq> snd q)"

definition neighbours_of :: "hue_node list \<Rightarrow> hue_node \<Rightarrow> hue_node set" where
  "neighbours_of rows n = {m \<in> set rows. hn_id m \<noteq> hn_id n \<and> hue_near m n}"

lemma all_slots_many:
  assumes "hues_ok rows placed" "\<forall>p \<in> set placed. hn_id (fst p) \<noteq> hn_id n"
    and "\<forall>s < HUE_COUNT. \<exists>q \<in> set placed. snd q = s \<and> hue_near (fst q) n"
  shows "HUE_COUNT \<le> card (neighbours_of rows n)"
proof -
  let ?Q = "{q \<in> set placed. hue_near (fst q) n}"
  have "{..<HUE_COUNT} \<subseteq> snd ` ?Q" using assms(3) by force
  then have "HUE_COUNT \<le> card (snd ` ?Q)" using card_mono [of "snd ` ?Q" "{..<HUE_COUNT}"] by simp
  also have "\<dots> \<le> card ?Q" by (rule card_image_le) simp
  also have "\<dots> = card (fst ` ?Q)"
  proof (rule card_image [symmetric])
    have "inj_on (hn_id \<circ> fst) (set placed)" using assms(1) by (simp add: hues_ok_def distinct_map)
    then show "inj_on fst ?Q" by (auto simp: inj_on_def)
  qed
  also have "\<dots> \<le> card (neighbours_of rows n)"
    using assms(1,2) by (intro card_mono) (auto simp: neighbours_of_def hues_ok_def)
  finally show ?thesis .
qed

lemma hues_ok_place:
  assumes ok: "hues_ok rows placed" and n: "n \<in> set rows" "\<forall>p \<in> set placed. hn_id (fst p) \<noteq> hn_id n"
    and few: "card (neighbours_of rows n) < HUE_COUNT"
  shows "hues_ok rows (placed @ [(n, slot_for placed n)])"
proof -
  have apart: "snd p \<noteq> slot_for placed n" if "p \<in> set placed" "hue_near (fst p) n" for p
  proof
    assume "snd p = slot_for placed n"
    then have "\<forall>s < HUE_COUNT. \<exists>q \<in> set placed. snd q = s \<and> hue_near (fst q) n"
      using slot_for_taken that by blast
    with all_slots_many [OF ok n(2)] few show False by simp
  qed
  let ?new = "(n, slot_for placed n)"
  have keys: "distinct (map (hn_id \<circ> fst) placed)" "fst ` set placed \<subseteq> set rows"
    "\<forall>p \<in> set placed. snd p < HUE_COUNT"
    "\<forall>p \<in> set placed. \<forall>q \<in> set placed. p \<noteq> q \<and> hue_near (fst p) (fst q) \<longrightarrow> snd p \<noteq> snd q"
    using ok unfolding hues_ok_def by blast+
  have "distinct (map (hn_id \<circ> fst) (placed @ [?new]))"
    using keys(1) n(2) by (simp add: image_iff) metis
  moreover have "snd p \<noteq> snd q"
    if "p \<in> set (placed @ [?new])" "q \<in> set (placed @ [?new])" "p \<noteq> q" "hue_near (fst p) (fst q)" for p q
  proof -
    note hyps = that
    consider "p \<in> set placed" "q \<in> set placed" | "p = ?new" "q \<in> set placed" | "p \<in> set placed" "q = ?new"
      using hyps(1-3) by auto
    then show ?thesis
    proof cases
      case 1
      then show ?thesis using keys(4) hyps(3,4) by blast
    next
      case 2
      then have "hue_near (fst q) n" using hyps(4) hue_near_sym by simp
      then show ?thesis using apart [OF 2(2)] 2(1) by simp
    next
      case 3
      then show ?thesis using apart [OF 3(1)] hyps(4) 3(2) by simp
    qed
  qed
  moreover have "fst ` set (placed @ [?new]) \<subseteq> set rows" using keys(2) n(1) by simp
  moreover have "\<forall>p \<in> set (placed @ [?new]). snd p < HUE_COUNT"
    using keys(3) slot_for_less by simp
  ultimately show ?thesis unfolding hues_ok_def by blast
qed

lemma hue_loop_ok:
  "hues_ok rows placed \<Longrightarrow> set ns \<subseteq> set rows \<Longrightarrow> \<forall>n \<in> set rows. card (neighbours_of rows n) < HUE_COUNT
   \<Longrightarrow> hues_ok rows (hue_loop ns placed)
     \<and> (hn_id \<circ> fst) ` set (hue_loop ns placed) = (hn_id \<circ> fst) ` set placed \<union> hn_id ` set ns"
proof (induction ns placed rule: hue_loop.induct)
  case (2 n ns placed)
  show ?case
  proof (cases "\<exists>p \<in> set placed. hn_id (fst p) = hn_id n")
    case True
    then have "hn_id n \<in> (hn_id \<circ> fst) ` set placed" by force
    then show ?thesis using 2(1) True 2(3-5) by auto
  next
    case False
    then have "hues_ok rows (placed @ [(n, slot_for placed n)])"
      using 2(3-5) by (intro hues_ok_place) auto
    then show ?thesis using 2(2) False 2(4,5) by auto
  qed
qed simp

subsection \<open>Properties\<close>

text \<open>Growing the view's box by a distance keeps every node that matters: any place within that
  many km of a place in the box lies in the grown box, as long as the grown box stays off the
  poles.\<close>

theorem padded_box_complete:
  assumes "in_bounds b p" "kmBetween p q \<le> km" "0 \<le> km" "poleward_of b km < 90"
  shows "in_bounds (padBounds b km) q"
  using pad_latitude [OF assms(1,2)] pad_longitude [OF assms] by (simp add: in_bounds_def)

theorem padded_box_complete_witness:
  "in_bounds (padBounds \<lparr>bd_south = 51, bd_west = 4, bd_north = 52, bd_east = 5\<rparr> 15) (52, 5)"
proof -
  have "in_bounds \<lparr>bd_south = 51, bd_west = 4, bd_north = 52, bd_east = 5\<rparr> (52, 5)"
    by (simp add: in_bounds_def)
  moreover have "kmBetween (52, 5) (52, 5) \<le> 15" by (simp add: kmBetween_def metresBetween_def Let_def)
  moreover have "poleward_of \<lparr>bd_south = 51, bd_west = 4, bd_north = 52, bd_east = 5\<rparr> 15 < 90"
    by (simp add: poleward_of_def MAP_M_PER_DEG_def)
  ultimately show ?thesis using padded_box_complete by fastforce
qed

text \<open>The reach layer tells neighbours apart: every node gets one of the twelve hues, each id
  once, and when no node has twelve others within 2 km, any two nodes within 2 km of each other
  have different hues.\<close>

theorem near_nodes_told_apart:
  assumes "\<forall>n \<in> set (hue_rows nodes). card (neighbours_of (hue_rows nodes) n) < HUE_COUNT"
    and "(a, s) \<in> set (hue_loop (hue_rows nodes) [])" "(b, t) \<in> set (hue_loop (hue_rows nodes) [])"
    and "hn_id a \<noteq> hn_id b" "hue_near a b"
  shows "s < HUE_COUNT \<and> s \<noteq> t \<and> distinct (map fst (assignHues nodes))
    \<and> set (map fst (assignHues nodes)) = (toLowerCase \<circ> hn_id) ` set nodes"
proof -
  let ?rows = "hue_rows nodes" and ?p = "hue_loop (hue_rows nodes) []"
  have "hues_ok ?rows []" by (simp add: hues_ok_def)
  from hue_loop_ok [OF this subset_refl assms(1)] have ok: "hues_ok ?rows ?p"
    and ids: "(hn_id \<circ> fst) ` set ?p = hn_id ` set ?rows" by simp_all
  have "map fst (assignHues nodes) = map (hn_id \<circ> fst) ?p"
    by (simp add: assignHues_def case_prod_unfold)
  moreover have "hn_id ` set ?rows = (toLowerCase \<circ> hn_id) ` set nodes"
    by (auto simp: hue_rows_def image_iff)
  moreover have "s < HUE_COUNT" "s \<noteq> t"
    using ok assms(2-5) unfolding hues_ok_def by (fastforce+)
  ultimately show ?thesis using ok ids by (simp add: hues_ok_def)
qed

definition hut :: "nat \<Rightarrow> hue_node" where
  "hut c = \<lparr>hn_id = [c], hn_lat = Fin 51, hn_lon = Fin 5\<rparr>"

theorem near_nodes_told_apart_witness:
  "map snd (hue_loop (hue_rows [hut 97, hut 98]) []) \<noteq> [] \<and> distinct (map snd (hue_loop (hue_rows [hut 97, hut 98]) []))"
proof -
  have rows: "hue_rows [hut 97, hut 98] = [hut 97, hut 98]"
    by (simp add: hue_rows_def hut_def toLowerCase_def lower_char_def)
  define s where "s = slot_for [] (hut 97)"
  define t where "t = slot_for [(hut 97, s)] (hut 98)"
  have loop: "hue_loop [hut 97, hut 98] [] = [(hut 97, s), (hut 98, t)]"
    by (simp add: s_def t_def hut_def)
  have "card (neighbours_of [hut 97, hut 98] n) < HUE_COUNT" for n
  proof -
    have "card (neighbours_of [hut 97, hut 98] n) \<le> card (set [hut 97, hut 98])"
      by (intro card_mono) (auto simp: neighbours_of_def)
    also have "\<dots> \<le> 2" using card_length [of "[hut 97, hut 98]"] by simp
    finally show ?thesis by (simp add: HUE_COUNT_def)
  qed
  moreover have "hue_near (hut 97) (hut 98)"
    by (simp add: hue_near_def hut_def metresBetween_def NEAR_M_def Let_def)
  ultimately have "s \<noteq> t"
    using near_nodes_told_apart [of "[hut 97, hut 98]" "hut 97" s "hut 98" t]
    unfolding rows loop by (simp add: hut_def)
  then show ?thesis unfolding rows loop by simp
qed

end
