(* ===== verification/Conversations.thy ===== *)
theory Conversations
imports Json WdTypes
begin

text \<open>The messages of the chat (\<^verbatim>\<open>hooks/useConversationMessages.ts\<close>,
  \<^verbatim>\<open>utils/messageIdentity.ts\<close>): the least-recently-used cache of conversations, the
  reconciliation of a fetched page with what is on screen, and the acknowledgements that come
  before their message. A JavaScript \<^verbatim>\<open>Map\<close> is an association list in insertion order, a
  \<^verbatim>\<open>Set\<close> a list. An absent and a null field are both \<open>None\<close>, except where an argument
  tells them apart (\<open>packetId\<close>: \<open>None\<close> is not given, \<open>Some None\<close> is null).\<close>

subsection \<open>Messages\<close>

datatype message_type = Priv | Chan
datatype send_status = SendPending | SendConfirmed | SendUnknown

record message_path =
  mp_path :: jstr
  mp_received_at :: int
  mp_path_len :: "nat option"
  mp_rssi :: "real option"
  mp_snr :: "real option"

record radio_stamp =
  ra_freq :: real
  ra_bw :: real
  ra_sf :: nat
  ra_cr :: nat

record message =
  ms_id :: nat
  ms_type :: message_type
  ms_conversation_key :: jstr
  ms_text :: jstr
  ms_sender_timestamp :: "int option"
  ms_received_at :: int
  ms_paths :: "message_path list option"
  ms_txt_type :: nat
  ms_signature :: "jstr option"
  ms_sender_key :: "jstr option"
  ms_outgoing :: bool
  ms_acked :: nat
  ms_send_status :: "send_status option"
  ms_sender_name :: "jstr option"
  ms_channel_name :: "jstr option"
  ms_packet_id :: "nat option"
  ms_transport_code :: "nat option"
  ms_region :: "jstr option"
  ms_radio_stamp :: "radio_stamp option"
  ms_failed_at :: "int option"
  ms_malformed :: bool
  ms_name_filtered :: bool
  ms_spam :: bool
  ms_duplicate :: bool
  ms_cli_permitted :: "bool option"

fun type_text :: "message_type \<Rightarrow> jstr" where
  "type_text Priv = str ''PRIV''"
| "type_text Chan = str ''CHAN''"

definition getMessageContentKey :: "message \<Rightarrow> jstr" where
  "getMessageContentKey m =
     (let ts = (case ms_sender_timestamp m of
                  Some t \<Rightarrow> decimal_int t
                | None \<Rightarrow> str ''r'' @ decimal_int (ms_received_at m) @ str ''-'' @ decimal (ms_id m));
          senderSuffix = (case ms_sender_key m of
                  Some k \<Rightarrow> if ms_type m = Priv \<and> k \<noteq> [] then str ''-'' @ k else []
                | None \<Rightarrow> [])
      in type_text (ms_type m) @ str ''-'' @ ms_conversation_key m @ str ''-'' @ ms_text m @ str ''-''
         @ ts @ senderSuffix)"

subsection \<open>The cache\<close>

definition MAX_PENDING_ACKS :: nat where "MAX_PENDING_ACKS = 500"
definition MAX_CACHED_CONVERSATIONS :: nat where "MAX_CACHED_CONVERSATIONS = 20"
definition MAX_MESSAGES_PER_ENTRY :: nat where "MAX_MESSAGES_PER_ENTRY = 200"

record cached_entry =
  ce_messages :: "message list"
  ce_hasOlder :: bool

record internal_entry = cached_entry +
  ce_contentKeys :: "jstr list"

type_synonym message_cache = "(jstr \<times> internal_entry) list"

definition content_keys :: "message list \<Rightarrow> jstr list" where
  "content_keys ms = map getMessageContentKey ms"

definition normalizeEntry :: "'a cached_entry_scheme \<Rightarrow> internal_entry" where
  "normalizeEntry e =
     (let full = length (ce_messages e) > MAX_MESSAGES_PER_ENTRY;
          messages = (if full
            then take MAX_MESSAGES_PER_ENTRY (sort_key (\<lambda>m. - ms_received_at m) (ce_messages e))
            else ce_messages e)
      in \<lparr>ce_messages = messages, ce_hasOlder = (if full then True else ce_hasOlder e),
          ce_contentKeys = content_keys messages\<rparr>)"

text \<open>\<^verbatim>\<open>delete\<close> then \<^verbatim>\<open>set\<close>: the entry becomes the last of the map. Past its size the
  first, the one used longest ago, goes.\<close>

definition touch :: "jstr \<Rightarrow> internal_entry \<Rightarrow> message_cache \<Rightarrow> message_cache" where
  "touch cid e c = amap_set cid e (amap_delete cid c)"

definition evict :: "message_cache \<Rightarrow> message_cache" where
  "evict c = (if length c > MAX_CACHED_CONVERSATIONS then amap_delete (fst (hd c)) c else c)"

definition cache_get :: "jstr \<Rightarrow> message_cache \<Rightarrow> cached_entry option \<times> message_cache" where
  "cache_get cid c =
     (case map_of c cid of
        None \<Rightarrow> (None, c)
      | Some e \<Rightarrow> (Some (cached_entry.truncate e), touch cid e c))"

definition cache_set :: "jstr \<Rightarrow> cached_entry \<Rightarrow> message_cache \<Rightarrow> message_cache" where
  "cache_set cid e c = evict (touch cid (normalizeEntry e) c)"

definition addMessage :: "jstr \<Rightarrow> message \<Rightarrow> message_cache \<Rightarrow> bool \<times> message_cache" where
  "addMessage cid msg c =
     (let contentKey = getMessageContentKey msg in
      case map_of c cid of
        None \<Rightarrow>
          (True, evict (amap_set cid \<lparr>ce_messages = [msg], ce_hasOlder = True, ce_contentKeys = [contentKey]\<rparr> c))
      | Some e \<Rightarrow>
          if contentKey \<in> set (ce_contentKeys e) then (False, c)
          else if \<exists>m \<in> set (ce_messages e). ms_id m = ms_id msg then (False, c)
          else (True, touch cid (normalizeEntry
                 \<lparr>ce_messages = ce_messages e @ [msg], ce_hasOlder = ce_hasOlder e\<rparr>) c))"

text \<open>Changing the first message with an id, in the first conversation that holds it.\<close>

fun update_msg :: "nat \<Rightarrow> (message \<Rightarrow> message) \<Rightarrow> message list \<Rightarrow> message list" where
  "update_msg i f [] = []"
| "update_msg i f (m # ms) = (if ms_id m = i then f m # ms else m # update_msg i f ms)"

definition holds_msg :: "nat \<Rightarrow> internal_entry \<Rightarrow> bool" where
  "holds_msg i e \<longleftrightarrow> (\<exists>m \<in> set (ce_messages e). ms_id m = i)"

fun update_holder :: "nat \<Rightarrow> (internal_entry \<Rightarrow> internal_entry) \<Rightarrow> message_cache \<Rightarrow> message_cache" where
  "update_holder i f [] = []"
| "update_holder i f ((k, e) # c) = (if holds_msg i e then (k, f e) # c else (k, e) # update_holder i f c)"

definition path_count :: "message_path list option \<Rightarrow> nat" where
  "path_count ps = (case ps of None \<Rightarrow> 0 | Some l \<Rightarrow> length l)"

definition ack_msg :: "nat \<Rightarrow> message_path list option \<Rightarrow> nat option option \<Rightarrow> message \<Rightarrow> message" where
  "ack_msg ackCount paths packetId m =
     m\<lparr>ms_acked := max (ms_acked m) ackCount,
       ms_paths := (case paths of
           Some ps \<Rightarrow> if length ps \<ge> path_count (ms_paths m) then Some ps else ms_paths m
         | None \<Rightarrow> ms_paths m),
       ms_packet_id := (case packetId of Some p \<Rightarrow> p | None \<Rightarrow> ms_packet_id m)\<rparr>"

definition cache_updateAck ::
  "nat \<Rightarrow> nat \<Rightarrow> message_path list option \<Rightarrow> nat option option \<Rightarrow> message_cache \<Rightarrow> message_cache" where
  "cache_updateAck i ackCount paths packetId c =
     update_holder i (\<lambda>e. e\<lparr>ce_messages := update_msg i (ack_msg ackCount paths packetId) (ce_messages e)\<rparr>) c"

definition cache_find :: "nat \<Rightarrow> message_cache \<Rightarrow> message option" where
  "cache_find i c = find (\<lambda>m. ms_id m = i) (concat (map (ce_messages \<circ> snd) c))"

definition mark_spam :: "bool \<Rightarrow> bool option \<Rightarrow> message \<Rightarrow> message" where
  "mark_spam spam duplicate m =
     (let m = m\<lparr>ms_spam := spam\<rparr>
      in case duplicate of None \<Rightarrow> m | Some d \<Rightarrow> m\<lparr>ms_duplicate := d\<rparr>)"

definition cache_updateSpam :: "nat list \<Rightarrow> bool \<Rightarrow> bool option \<Rightarrow> message_cache \<Rightarrow> message_cache" where
  "cache_updateSpam ids spam duplicate c =
     map (\<lambda>(k, e). (k, e\<lparr>ce_messages := map (\<lambda>m. if ms_id m \<in> set ids then mark_spam spam duplicate m else m)
        (ce_messages e)\<rparr>)) c"

definition cache_updateFailed :: "nat \<Rightarrow> int \<Rightarrow> message_cache \<Rightarrow> message_cache" where
  "cache_updateFailed i failedAt c =
     update_holder i (\<lambda>e. e\<lparr>ce_messages := update_msg i (\<lambda>m. m\<lparr>ms_failed_at := Some failedAt\<rparr>) (ce_messages e)\<rparr>) c"

definition drop_msg :: "nat \<Rightarrow> internal_entry \<Rightarrow> internal_entry" where
  "drop_msg i e =
     (case find (\<lambda>m. ms_id m = i) (ce_messages e) of
        None \<Rightarrow> e
      | Some m \<Rightarrow> e\<lparr>ce_messages := filter (\<lambda>x. ms_id x \<noteq> i) (ce_messages e),
                    ce_contentKeys := filter (\<lambda>k. k \<noteq> getMessageContentKey m) (ce_contentKeys e)\<rparr>)"

definition cache_removeMessage :: "nat \<Rightarrow> message_cache \<Rightarrow> message_cache" where
  "cache_removeMessage i c = update_holder i (drop_msg i) c"

definition cache_remove :: "jstr \<Rightarrow> message_cache \<Rightarrow> message_cache" where
  "cache_remove cid c = amap_delete cid c"

text \<open>The messages of the old name that the new one does not have, by id.\<close>

fun merge_new :: "message list \<Rightarrow> message list \<Rightarrow> message list" where
  "merge_new merged [] = merged"
| "merge_new merged (m # ms) =
     (if ms_id m \<in> ms_id ` set merged then merge_new merged ms else merge_new (merged @ [m]) ms)"

definition cache_rename :: "jstr \<Rightarrow> jstr \<Rightarrow> message_cache \<Rightarrow> message_cache" where
  "cache_rename oldId newId c =
     (if oldId = newId then c
      else case map_of c oldId of
        None \<Rightarrow> c
      | Some oldEntry \<Rightarrow>
          (case map_of c newId of
             None \<Rightarrow> amap_set newId oldEntry (amap_delete oldId c)
           | Some newEntry \<Rightarrow>
               amap_set newId (normalizeEntry
                 \<lparr>ce_messages = merge_new (ce_messages newEntry) (ce_messages oldEntry),
                  ce_hasOlder = (ce_hasOlder newEntry \<or> ce_hasOlder oldEntry)\<rparr>)
                 (amap_delete oldId c)))"

definition cache_clear :: "message_cache \<Rightarrow> message_cache" where "cache_clear c = []"

subsection \<open>Reconciling a fetched page\<close>

definition confirmed_or :: "send_status option \<Rightarrow> send_status" where
  "confirmed_or s = (case s of None \<Rightarrow> SendConfirmed | Some x \<Rightarrow> x)"

definition messagesEqual :: "message \<Rightarrow> message \<Rightarrow> bool" where
  "messagesEqual l r \<longleftrightarrow>
     ms_id l = ms_id r \<and> ms_type l = ms_type r \<and> ms_conversation_key l = ms_conversation_key r
     \<and> ms_text l = ms_text r \<and> ms_sender_timestamp l = ms_sender_timestamp r
     \<and> ms_received_at l = ms_received_at r \<and> path_count (ms_paths l) = path_count (ms_paths r)
     \<and> ms_txt_type l = ms_txt_type r \<and> ms_signature l = ms_signature r
     \<and> ms_sender_key l = ms_sender_key r \<and> ms_outgoing l = ms_outgoing r \<and> ms_acked l = ms_acked r
     \<and> confirmed_or (ms_send_status l) = confirmed_or (ms_send_status r)
     \<and> ms_sender_name l = ms_sender_name r \<and> ms_channel_name l = ms_channel_name r
     \<and> ms_packet_id l = ms_packet_id r \<and> ms_transport_code l = ms_transport_code r
     \<and> ms_region l = ms_region r \<and> ms_failed_at l = ms_failed_at r
     \<and> ms_malformed l = ms_malformed r \<and> ms_name_filtered l = ms_name_filtered r"

text \<open>\<^verbatim>\<open>comparePosition(l, r) < 0\<close>.\<close>

definition before :: "message \<Rightarrow> message \<Rightarrow> bool" where
  "before l r \<longleftrightarrow>
     (if ms_received_at l = ms_received_at r then ms_id l < ms_id r
      else ms_received_at l < ms_received_at r)"

definition oldest_of :: "message list \<Rightarrow> message option" where
  "oldest_of ms = foldl (\<lambda>o' m. case o' of None \<Rightarrow> Some m | Some x \<Rightarrow> if before m x then Some m else o') None ms"

definition newest_of :: "message list \<Rightarrow> message option" where
  "newest_of ms = foldl (\<lambda>n m. case n of None \<Rightarrow> Some m | Some x \<Rightarrow> if before x m then Some m else n) None ms"

definition isInsideFetchedRange :: "message list \<Rightarrow> bool \<Rightarrow> message \<Rightarrow> bool" where
  "isInsideFetchedRange fetched hasOlder m =
     (if \<not> hasOlder then True
      else case (oldest_of fetched, newest_of fetched) of
        (Some o', Some n) \<Rightarrow> \<not> before m o' \<and> \<not> before n m
      | _ \<Rightarrow> False)"

definition mayRemove :: "nat list option \<Rightarrow> message \<Rightarrow> bool" where
  "mayRemove atStart m = (case atStart of None \<Rightarrow> True | Some ids \<Rightarrow> ms_id m \<in> set ids)"

definition on_screen :: "message list \<Rightarrow> nat \<Rightarrow> message option" where
  "on_screen current i = find (\<lambda>m. ms_id m = i) (rev current)"

definition reconcileConversationMessages ::
  "message list \<Rightarrow> message list \<Rightarrow> bool \<Rightarrow> nat list option \<Rightarrow> message list option" where
  "reconcileConversationMessages current fetched hasOlder atStart =
     (let fetchedIds = map ms_id fetched;
          gone = (\<lambda>m. ms_id m \<notin> set fetchedIds \<and> mayRemove atStart m
                      \<and> isInsideFetchedRange fetched hasOlder m);
          stale = (\<lambda>m. case on_screen current (ms_id m) of
                         None \<Rightarrow> True | Some c \<Rightarrow> \<not> messagesEqual c m);
          needsUpdate = ((\<exists>m \<in> set current. gone m) \<or> (\<exists>m \<in> set fetched. stale m))
      in if \<not> needsUpdate then None
         else Some (fetched @ filter (\<lambda>m. ms_id m \<notin> set fetchedIds
                \<and> (\<not> mayRemove atStart m \<or> \<not> isInsideFetchedRange fetched hasOlder m)) current))"

subsection \<open>Acknowledgements ahead of their message\<close>

record pending_ack =
  pa_ackCount :: nat
  pa_paths :: "message_path list option"
  pa_packetId :: "nat option option"

definition mergePendingAck ::
  "pending_ack option \<Rightarrow> nat \<Rightarrow> message_path list option \<Rightarrow> nat option option \<Rightarrow> pending_ack" where
  "mergePendingAck existing ackCount paths packetId =
     (case existing of
        None \<Rightarrow> \<lparr>pa_ackCount = ackCount, pa_paths = paths, pa_packetId = packetId\<rparr>
      | Some e \<Rightarrow>
          if ackCount > pa_ackCount e then
            \<lparr>pa_ackCount = ackCount,
             pa_paths = (if paths \<noteq> None then paths else pa_paths e),
             pa_packetId = (if packetId \<noteq> None then packetId else pa_packetId e)\<rparr>
          else if ackCount < pa_ackCount e then e
          else
            let packetIdChanged = (packetId \<noteq> None \<and> packetId \<noteq> pa_packetId e) in
            (case paths of
               None \<Rightarrow> if \<not> packetIdChanged then e else e\<lparr>pa_packetId := packetId\<rparr>
             | Some ps \<Rightarrow>
                 if (case pa_paths e of None \<Rightarrow> True | Some old \<Rightarrow> length ps \<ge> length old)
                 then \<lparr>pa_ackCount = ackCount, pa_paths = paths, pa_packetId = packetId\<rparr>
                 else if \<not> packetIdChanged then e
                 else e\<lparr>pa_packetId := packetId\<rparr>))"

type_synonym pending_acks = "(nat \<times> pending_ack) list"

definition setPendingAck ::
  "nat \<Rightarrow> nat \<Rightarrow> message_path list option \<Rightarrow> nat option option \<Rightarrow> pending_acks \<Rightarrow> pending_acks" where
  "setPendingAck i ackCount paths packetId acks =
     (let merged = mergePendingAck (map_of acks i) ackCount paths packetId;
          acks = amap_set i merged (amap_delete i acks)
      in if length acks > MAX_PENDING_ACKS then amap_delete (fst (hd acks)) acks else acks)"

definition applyPendingAck :: "message \<Rightarrow> pending_acks \<Rightarrow> message \<times> pending_acks" where
  "applyPendingAck msg acks =
     (case map_of acks (ms_id msg) of
        None \<Rightarrow> (msg, acks)
      | Some p \<Rightarrow>
          (msg\<lparr>ms_acked := max (ms_acked msg) (pa_ackCount p),
               ms_paths := (if pa_paths p \<noteq> None then pa_paths p else ms_paths msg),
               ms_packet_id := (case pa_packetId p of Some q \<Rightarrow> q | None \<Rightarrow> ms_packet_id msg)\<rparr>,
           amap_delete (ms_id msg) acks))"

text \<open>Appending a page: by id and by content.\<close>

fun append_loop :: "nat list \<Rightarrow> jstr list \<Rightarrow> message list \<Rightarrow> message list" where
  "append_loop ids keys [] = []"
| "append_loop ids keys (m # ms) =
     (let k = getMessageContentKey m in
      if ms_id m \<in> set ids \<or> k \<in> set keys then append_loop ids keys ms
      else m # append_loop (ms_id m # ids) (k # keys) ms)"

definition appendUniqueMessages :: "message list \<Rightarrow> message list \<Rightarrow> message list" where
  "appendUniqueMessages current incoming =
     current @ append_loop (map ms_id current) (content_keys current) incoming"


subsection \<open>What the cache keeps\<close>

definition entry_ok :: "internal_entry \<Rightarrow> bool" where
  "entry_ok e \<longleftrightarrow>
     length (ce_messages e) \<le> MAX_MESSAGES_PER_ENTRY \<and> distinct (map ms_id (ce_messages e))
     \<and> set (ce_contentKeys e) \<subseteq> set (content_keys (ce_messages e))"

definition cache_ok :: "message_cache \<Rightarrow> bool" where
  "cache_ok c \<longleftrightarrow> amap_ok c \<and> length c \<le> MAX_CACHED_CONVERSATIONS \<and> (\<forall>p \<in> set c. entry_ok (snd p))"

lemma entry_ok_normalize:
  assumes "distinct (map ms_id (ce_messages e))" shows "entry_ok (normalizeEntry e)"
proof -
  let ?s = "sort_key (\<lambda>m. - ms_received_at m) (ce_messages e)"
  have "distinct (map ms_id ?s)" using assms by (simp add: distinct_map)
  then have "distinct (map ms_id (take MAX_MESSAGES_PER_ENTRY ?s))"
    unfolding take_map [symmetric] by (rule distinct_take)
  then show ?thesis using assms
    unfolding entry_ok_def normalizeEntry_def Let_def by auto
qed

lemma cache_ok_entry: "cache_ok c \<Longrightarrow> map_of c k = Some e \<Longrightarrow> entry_ok e"
  by (auto simp: cache_ok_def dest!: map_of_SomeD)

definition capped :: "message_cache \<Rightarrow> bool" where
  "capped c \<longleftrightarrow> amap_ok c \<and> (\<forall>p \<in> set c. entry_ok (snd p))"

lemma capped_delete: "capped c \<Longrightarrow> capped (amap_delete k c)"
  unfolding capped_def by (auto dest: subsetD [OF set_amap_delete])

lemma capped_set: "capped c \<Longrightarrow> entry_ok e \<Longrightarrow> capped (amap_set k e c)"
  unfolding capped_def by (auto dest: set_amap_set_cases)

lemma length_amap_delete_present:
  "amap_ok c \<Longrightarrow> k \<in> set (amap_keys c) \<Longrightarrow> length (amap_delete k c) + 1 = length c"
  using length_amap_delete [of c k] by (cases c) auto

lemma touch_keys: "amap_keys (touch k e c) = filter (\<lambda>x. x \<noteq> k) (amap_keys c) @ [k]"
  by (simp add: touch_def amap_keys_set amap_keys_delete)

lemma length_touch: "length (touch k e c) = length (filter (\<lambda>x. x \<noteq> k) (amap_keys c)) + 1"
  by (metis length_map touch_keys length_append_singleton Suc_eq_plus1)

lemma touch_present: "amap_ok c \<Longrightarrow> map_of c k = Some e' \<Longrightarrow> length (touch k e c) = length c"
proof -
  assume ok: "amap_ok c" and k: "map_of c k = Some e'"
  then have "k \<in> set (amap_keys c)" by (metis map_of_eq_None_iff list.set_map option.distinct(1))
  then have "length (filter (\<lambda>x. x \<noteq> k) (amap_keys c)) + 1 = length (amap_keys c)"
    using ok length_amap_delete_present [OF ok, of k] by (metis amap_keys_delete length_map)
  then show ?thesis by (simp add: length_touch)
qed

lemma capped_touch: "capped c \<Longrightarrow> entry_ok e \<Longrightarrow> capped (touch k e c)"
  by (simp add: touch_def capped_set capped_delete)

lemma amap_ok_evict_keys:
  "amap_ok c \<Longrightarrow> amap_keys (evict c) = (if length c > MAX_CACHED_CONVERSATIONS then tl (amap_keys c) else amap_keys c)"
  by (cases c) (force simp: evict_def amap_keys_delete filter_id_conv)+

lemma evict_ok: "capped c \<Longrightarrow> length c \<le> MAX_CACHED_CONVERSATIONS + 1 \<Longrightarrow> cache_ok (evict c)"
proof -
  assume c: "capped c" and l: "length c \<le> MAX_CACHED_CONVERSATIONS + 1"
  have "length (evict c) \<le> MAX_CACHED_CONVERSATIONS"
    using amap_ok_evict_keys [of c] c l
    by (metis (no_types, lifting) capped_def length_map length_tl Nat.le_diff_conv2 Suc_eq_plus1 diff_Suc_1 diff_le_mono not_le)
  moreover have "capped (evict c)" using c by (simp add: evict_def capped_delete)
  ultimately show ?thesis by (simp add: cache_ok_def capped_def)
qed

lemma cache_ok_capped: "cache_ok c \<Longrightarrow> capped c" by (simp add: cache_ok_def capped_def)


lemma update_msg_facts:
  assumes "\<And>m. ms_id (f m) = ms_id m" "\<And>m. getMessageContentKey (f m) = getMessageContentKey m"
  shows "map ms_id (update_msg i f ms) = map ms_id ms" "content_keys (update_msg i f ms) = content_keys ms"
    "length (update_msg i f ms) = length ms"
  by (induction ms) (simp_all add: assms content_keys_def)

lemma content_keys_map:
  assumes "\<And>m. ms_id (f m) = ms_id m" "\<And>m. getMessageContentKey (f m) = getMessageContentKey m"
  shows "map ms_id (map f ms) = map ms_id ms" "content_keys (map f ms) = content_keys ms"
  using assms by (simp_all add: content_keys_def)

lemma key_updates [simp]:
  "getMessageContentKey (m\<lparr>ms_failed_at := x\<rparr>) = getMessageContentKey m"
  "getMessageContentKey (ack_msg n ps q m) = getMessageContentKey m"
  "getMessageContentKey (mark_spam b d m) = getMessageContentKey m"
  "ms_id (ack_msg n ps q m) = ms_id m" "ms_id (mark_spam b d m) = ms_id m"
  by (simp_all add: getMessageContentKey_def ack_msg_def mark_spam_def Let_def split: option.split)

lemma update_holder_keys: "amap_keys (update_holder i f c) = amap_keys c"
  by (induction i f c rule: update_holder.induct) auto

lemma update_holder_entries:
  "(\<And>e. entry_ok e \<Longrightarrow> entry_ok (f e)) \<Longrightarrow> \<forall>p \<in> set c. entry_ok (snd p)
   \<Longrightarrow> \<forall>p \<in> set (update_holder i f c). entry_ok (snd p)"
  by (induction i f c rule: update_holder.induct) auto

lemma cache_ok_holder:
  assumes "cache_ok c" "\<And>e. entry_ok e \<Longrightarrow> entry_ok (f e)"
  shows "cache_ok (update_holder i f c)"
  using assms update_holder_entries [of f c i] update_holder_keys [of i f c]
  unfolding cache_ok_def by (metis length_map)

lemma entry_ok_update_msg:
  assumes "\<And>m. ms_id (f m) = ms_id m" "\<And>m. getMessageContentKey (f m) = getMessageContentKey m" "entry_ok e"
  shows "entry_ok (e\<lparr>ce_messages := update_msg i f (ce_messages e)\<rparr>)"
  using assms(3) update_msg_facts [of f i "ce_messages e", OF assms(1,2)] by (simp add: entry_ok_def)

lemma entry_ok_drop: "entry_ok e \<Longrightarrow> entry_ok (drop_msg i e)"
proof (cases "find (\<lambda>m. ms_id m = i) (ce_messages e)")
  case (Some m)
  assume ok: "entry_ok e"
  have m: "m \<in> set (ce_messages e)" "ms_id m = i" using find_Some_set [OF Some] by auto
  have "k \<in> set (content_keys (filter (\<lambda>x. ms_id x \<noteq> i) (ce_messages e)))"
    if k: "k \<in> set (ce_contentKeys e)" "k \<noteq> getMessageContentKey m" for k
  proof -
    obtain x where x: "x \<in> set (ce_messages e)" "getMessageContentKey x = k"
      using ok k(1) by (auto simp: entry_ok_def content_keys_def)
    have "ms_id x \<noteq> i"
      using ok x k(2) m by (auto simp: entry_ok_def distinct_map inj_on_def)
    then show ?thesis using x by (auto simp: content_keys_def)
  qed
  moreover have "distinct (map ms_id (filter (\<lambda>x. ms_id x \<noteq> i) (ce_messages e)))"
    using ok by (simp add: entry_ok_def distinct_map_filter)
  moreover have "length (filter (\<lambda>x. ms_id x \<noteq> i) (ce_messages e)) \<le> MAX_MESSAGES_PER_ENTRY"
    using ok length_filter_le order_trans unfolding entry_ok_def by blast
  ultimately show ?thesis by (auto simp: drop_msg_def Some entry_ok_def)
qed (simp add: drop_msg_def)

lemma merge_new_ids: "distinct (map ms_id merged) \<Longrightarrow> distinct (map ms_id (merge_new merged ms))"
  by (induction merged ms rule: merge_new.induct) auto

subsection \<open>Every operation keeps it\<close>

datatype cache_op = Get jstr | Put jstr cached_entry | Add jstr message
  | Ack nat nat "message_path list option" "nat option option" | Spam "nat list" bool "bool option"
  | Failed nat int | RemoveMsg nat | RemoveConv jstr | Rename jstr jstr | ClearAll

fun cache_step :: "message_cache \<Rightarrow> cache_op \<Rightarrow> message_cache" where
  "cache_step c (Get k) = snd (cache_get k c)"
| "cache_step c (Put k e) = cache_set k e c"
| "cache_step c (Add k m) = snd (addMessage k m c)"
| "cache_step c (Ack i n ps q) = cache_updateAck i n ps q c"
| "cache_step c (Spam ids b d) = cache_updateSpam ids b d c"
| "cache_step c (Failed i t) = cache_updateFailed i t c"
| "cache_step c (RemoveMsg i) = cache_removeMessage i c"
| "cache_step c (RemoveConv k) = cache_remove k c"
| "cache_step c (Rename a b) = cache_rename a b c"
| "cache_step c ClearAll = cache_clear c"

fun op_ok :: "cache_op \<Rightarrow> bool" where
  "op_ok (Put k e) = distinct (map ms_id (ce_messages e))"
| "op_ok _ = True"

lemma cache_get_ok: "cache_ok c \<Longrightarrow> cache_ok (snd (cache_get k c))"
  using cache_ok_entry [of c k] capped_touch [OF cache_ok_capped, of c _ k] touch_present [of c k]
  by (auto simp: cache_get_def cache_ok_def capped_def split: option.split)

lemma length_touch_le: "length (touch k e c) \<le> length c + 1"
  unfolding length_touch using length_filter_le [of "\<lambda>x. x \<noteq> k" "amap_keys c"] by simp

lemma cache_set_ok: "cache_ok c \<Longrightarrow> distinct (map ms_id (ce_messages e)) \<Longrightarrow> cache_ok (cache_set k e c)"
  unfolding cache_set_def using length_touch_le [of k "normalizeEntry e" c]
  by (intro evict_ok capped_touch cache_ok_capped entry_ok_normalize) (auto simp: cache_ok_def)

lemma entry_ok_single: "entry_ok \<lparr>ce_messages = [m], ce_hasOlder = b, ce_contentKeys = [getMessageContentKey m]\<rparr>"
  by (simp add: entry_ok_def content_keys_def MAX_MESSAGES_PER_ENTRY_def)

lemma addMessage_ok: "cache_ok c \<Longrightarrow> cache_ok (snd (addMessage k m c))"
proof (cases "map_of c k")
  case None
  assume ok: "cache_ok c"
  let ?new = "\<lparr>ce_messages = [m], ce_hasOlder = True, ce_contentKeys = [getMessageContentKey m]\<rparr>"
  have "length (amap_set k ?new c) \<le> MAX_CACHED_CONVERSATIONS + 1"
    using ok by (auto simp: length_amap_set cache_ok_def)
  then have "cache_ok (evict (amap_set k ?new c))"
    by (intro evict_ok capped_set cache_ok_capped [OF ok] entry_ok_single)
  then show ?thesis using None by (simp add: addMessage_def Let_def)
next
  case (Some e)
  assume ok: "cache_ok c"
  let ?n = "normalizeEntry \<lparr>ce_messages = ce_messages e @ [m], ce_hasOlder = ce_hasOlder e\<rparr>"
  have "cache_ok (touch k ?n c)" if "\<not> (\<exists>x \<in> set (ce_messages e). ms_id x = ms_id m)"
  proof -
    have "distinct (map ms_id (ce_messages e @ [m]))"
      using cache_ok_entry [OF ok Some] that by (auto simp: entry_ok_def)
    then have "capped (touch k ?n c)" using ok by (intro capped_touch cache_ok_capped entry_ok_normalize) simp_all
    then show ?thesis using ok touch_present [of c k e ?n] Some by (simp add: cache_ok_def capped_def)
  qed
  then show ?thesis using ok Some by (simp add: addMessage_def Let_def)
qed

lemma cache_rename_ok: "cache_ok c \<Longrightarrow> cache_ok (cache_rename a b c)"
proof -
  assume ok: "cache_ok c"
  show ?thesis
  proof (cases "a = b \<or> map_of c a = None")
    case True
    then show ?thesis using ok by (auto simp: cache_rename_def)
  next
    case False
    then obtain e where e: "map_of c a = Some e" and ab: "a \<noteq> b" by blast
    then have "a \<in> set (amap_keys c)" by (metis map_of_eq_None_iff list.set_map option.distinct(1))
    then have l: "length (amap_set b x (amap_delete a c)) \<le> length c" for x
      using length_amap_delete_present [of c a] ok by (auto simp: length_amap_set cache_ok_def)
    have "distinct (map ms_id (merge_new (ce_messages n) (ce_messages e)))" if "map_of c b = Some n" for n
      using cache_ok_entry [OF ok that] by (intro merge_new_ids) (simp add: entry_ok_def)
    then have "capped (cache_rename a b c)"
      using ab e cache_ok_entry [OF ok e]
      by (auto simp: cache_rename_def intro!: capped_set capped_delete cache_ok_capped [OF ok] entry_ok_normalize
          split: option.split)
    moreover have "length (cache_rename a b c) \<le> length c"
      using ab e l by (auto simp: cache_rename_def split: option.split)
    ultimately show ?thesis using ok by (simp add: cache_ok_def capped_def)
  qed
qed

lemma cache_updateSpam_ok: "cache_ok c \<Longrightarrow> cache_ok (cache_updateSpam ids b d c)"
proof -
  assume ok: "cache_ok c"
  let ?f = "\<lambda>m. if ms_id m \<in> set ids then mark_spam b d m else m"
  have "entry_ok (e\<lparr>ce_messages := map ?f (ce_messages e)\<rparr>)" if "entry_ok e" for e
  proof -
    have "map ms_id (map ?f (ce_messages e)) = map ms_id (ce_messages e)"
      "content_keys (map ?f (ce_messages e)) = content_keys (ce_messages e)"
      by (rule content_keys_map; simp)+
    then show ?thesis using that by (simp add: entry_ok_def del: map_map)
  qed
  then have "\<forall>p \<in> set (cache_updateSpam ids b d c). entry_ok (snd p)"
    using ok by (auto simp: cache_updateSpam_def cache_ok_def)
  moreover have "amap_keys (cache_updateSpam ids b d c) = amap_keys c"
    by (auto simp: cache_updateSpam_def)
  moreover have "length (cache_updateSpam ids b d c) = length c" by (simp add: cache_updateSpam_def)
  ultimately show ?thesis using ok unfolding cache_ok_def by metis
qed

lemma cache_step_ok: "cache_ok c \<Longrightarrow> op_ok op \<Longrightarrow> cache_ok (cache_step c op)"
proof (cases op)
  case (RemoveConv k)
  assume "cache_ok c"
  then show ?thesis using RemoveConv capped_delete [OF cache_ok_capped, of c k] length_amap_delete_le [of k c]
    by (simp add: cache_remove_def cache_ok_def capped_def)
qed (auto simp: cache_get_ok cache_set_ok addMessage_ok cache_rename_ok cache_updateSpam_ok
    cache_updateAck_def cache_updateFailed_def cache_removeMessage_def cache_clear_def cache_ok_def [of "[]"]
    intro!: cache_ok_holder entry_ok_update_msg entry_ok_drop)


subsection \<open>The order of the cache\<close>

text \<open>The specification: conversations from the one used longest ago to the one used last.\<close>

definition to_end :: "jstr \<Rightarrow> jstr list \<Rightarrow> jstr list" where
  "to_end k ks = filter (\<lambda>x. x \<noteq> k) ks @ [k]"

definition cap :: "jstr list \<Rightarrow> jstr list" where
  "cap ks = (if length ks > MAX_CACHED_CONVERSATIONS then tl ks else ks)"

text \<open>\<open>took\<close>: the message of an \<open>Add\<close> was taken, not refused as one the conversation has.\<close>

fun lru_step :: "bool \<Rightarrow> jstr list \<Rightarrow> cache_op \<Rightarrow> jstr list" where
  "lru_step took ks (Get k) = (if k \<in> set ks then to_end k ks else ks)"
| "lru_step took ks (Put k e) = cap (to_end k ks)"
| "lru_step took ks (Add k m) = (if took then cap (to_end k ks) else ks)"
| "lru_step took ks (RemoveConv k) = filter (\<lambda>x. x \<noteq> k) ks"
| "lru_step took ks (Rename a b) =
     (if a = b \<or> a \<notin> set ks then ks
      else if b \<in> set ks then filter (\<lambda>x. x \<noteq> a) ks else filter (\<lambda>x. x \<noteq> a) ks @ [b])"
| "lru_step took ks ClearAll = []"
| "lru_step took ks _ = ks"

definition took :: "message_cache \<Rightarrow> cache_op \<Rightarrow> bool" where
  "took c op = (case op of Add k m \<Rightarrow> fst (addMessage k m c) | _ \<Rightarrow> True)"

lemma key_present: "k \<in> set (amap_keys c) \<longleftrightarrow> map_of c k \<noteq> None"
  by (metis map_of_eq_None_iff list.set_map)

lemma evict_keys: "amap_ok c \<Longrightarrow> amap_keys (evict c) = cap (amap_keys c)"
  by (simp add: amap_ok_evict_keys cap_def)

lemma touch_keys_end: "amap_keys (touch k e c) = to_end k (amap_keys c)"
  by (simp add: touch_keys to_end_def)

lemma amap_ok_touch: "amap_ok c \<Longrightarrow> amap_ok (touch k e c)"
  by (simp add: touch_def)

lemma lru_add:
  assumes ok: "cache_ok c"
  shows "amap_keys (snd (addMessage k m c)) = lru_step (took c (Add k m)) (amap_keys c) (Add k m)"
proof (cases "map_of c k")
  case None
  then have "k \<notin> set (amap_keys c)" unfolding key_present by simp
  then have "to_end k (amap_keys c) = amap_keys c @ [k]" "amap_keys (amap_set k e c) = amap_keys c @ [k]" for e
    by (simp_all add: to_end_def filter_id_conv amap_keys_set) (auto simp: filter_id_conv)
  moreover have "amap_ok (amap_set k e c)" for e using ok by (simp add: cache_ok_def)
  ultimately show ?thesis using None by (simp add: addMessage_def Let_def took_def evict_keys)
next
  case (Some e)
  then have "length (to_end k (amap_keys c)) = length c"
    using touch_present [of c k e e] ok touch_keys_end [of k e c] by (metis cache_ok_def length_map)
  then have "cap (to_end k (amap_keys c)) = to_end k (amap_keys c)" using ok by (simp add: cap_def cache_ok_def)
  then show ?thesis using Some by (simp add: addMessage_def Let_def took_def touch_keys_end)
qed

lemma lru_rename:
  "cache_ok c \<Longrightarrow> amap_keys (cache_rename a b c) = lru_step t (amap_keys c) (Rename a b)"
proof -
  assume ok: "cache_ok c"
  show ?thesis
  proof (cases "a = b \<or> map_of c a = None")
    case True
    then show ?thesis using key_present [of a c] by (auto simp: cache_rename_def)
  next
    case False
    then obtain e where e: "map_of c a = Some e" "a \<noteq> b" by blast
    then have "a \<in> set (amap_keys c)" unfolding key_present by simp
    moreover have "amap_keys (amap_set b x (amap_delete a c))
        = (if b \<in> set (amap_keys c) then filter (\<lambda>x. x \<noteq> a) (amap_keys c) else filter (\<lambda>x. x \<noteq> a) (amap_keys c) @ [b])" for x
      using e(2) by (auto simp: amap_keys_set amap_keys_delete)
    ultimately show ?thesis using e key_present [of b c]
      by (auto simp: cache_rename_def split: option.split)
  qed
qed

lemma lru_refines: "cache_ok c \<Longrightarrow> amap_keys (cache_step c op) = lru_step (took c op) (amap_keys c) op"
proof (cases op)
  case (Get k)
  assume "cache_ok c"
  then show ?thesis using Get key_present [of k c]
    by (auto simp: cache_get_def touch_keys_end split: option.split)
next
  case (Put k e)
  assume "cache_ok c"
  then have "amap_ok (touch k x c)" for x by (simp add: cache_ok_def amap_ok_touch)
  then show ?thesis using Put by (simp add: cache_set_def evict_keys touch_keys_end)
next
  case (Add k m)
  assume "cache_ok c"
  then show ?thesis using Add lru_add by simp
next
  case (Rename a b)
  assume "cache_ok c"
  then show ?thesis using Rename lru_rename by simp
qed (auto simp: cache_updateAck_def cache_updateFailed_def cache_removeMessage_def cache_clear_def
    cache_updateSpam_def cache_remove_def update_holder_keys amap_keys_delete)

lemma cache_run_ok: "cache_ok c \<Longrightarrow> \<forall>op \<in> set ops. op_ok op \<Longrightarrow> cache_ok (foldl cache_step c ops)"
  by (induction ops arbitrary: c) (auto simp: cache_step_ok)

lemma addMessage_refuses:
  "\<not> fst (addMessage k m c) \<Longrightarrow> cache_ok c \<Longrightarrow>
   \<exists>e x. map_of c k = Some e \<and> x \<in> set (ce_messages e)
     \<and> (ms_id x = ms_id m \<or> getMessageContentKey x = getMessageContentKey m)"
proof (cases "map_of c k")
  case (Some e)
  assume r: "\<not> fst (addMessage k m c)" and ok: "cache_ok c"
  have "set (ce_contentKeys e) \<subseteq> set (content_keys (ce_messages e))"
    using cache_ok_entry [OF ok Some] by (simp add: entry_ok_def)
  moreover have "getMessageContentKey m \<in> set (ce_contentKeys e) \<or> (\<exists>x \<in> set (ce_messages e). ms_id x = ms_id m)"
    using r Some by (auto simp: addMessage_def Let_def split: if_splits)
  ultimately have "getMessageContentKey m \<in> getMessageContentKey ` set (ce_messages e)
      \<or> (\<exists>x \<in> set (ce_messages e). ms_id x = ms_id m)"
    by (auto simp: content_keys_def)
  then have "\<exists>x \<in> set (ce_messages e). ms_id x = ms_id m \<or> getMessageContentKey x = getMessageContentKey m"
    by (metis imageE)
  then show ?thesis using Some by blast
qed (simp add: addMessage_def Let_def)


subsection \<open>Reconciling\<close>

lemma messagesEqual_refl [simp]: "messagesEqual m m"
  by (simp add: messagesEqual_def)

lemma find_own_id: "distinct (map ms_id ms) \<Longrightarrow> m \<in> set ms \<Longrightarrow> find (\<lambda>x. ms_id x = ms_id m) ms = Some m"
  by (induction ms) auto

lemma find_append: "find P (xs @ ys) = (case find P xs of None \<Rightarrow> find P ys | Some x \<Rightarrow> Some x)"
  by (induction xs) auto

lemma on_screen_fetched:
  assumes "distinct (map ms_id fetched)" "m \<in> set fetched" "\<forall>x \<in> set kept. ms_id x \<notin> ms_id ` set fetched"
  shows "on_screen (fetched @ kept) (ms_id m) = Some m"
proof -
  have "find (\<lambda>x. ms_id x = ms_id m) (rev kept) = None"
    using assms(2,3) by (auto simp: find_None_iff)
  moreover have "find (\<lambda>x. ms_id x = ms_id m) (rev fetched) = Some m"
    using assms(1,2) by (intro find_own_id) (simp_all add: rev_map [symmetric])
  ultimately show ?thesis by (simp add: on_screen_def find_append)
qed

definition kept_beside :: "message list \<Rightarrow> bool \<Rightarrow> nat list option \<Rightarrow> message \<Rightarrow> bool" where
  "kept_beside fetched hasOlder atStart m \<longleftrightarrow>
     ms_id m \<notin> ms_id ` set fetched \<and> (\<not> mayRemove atStart m \<or> \<not> isInsideFetchedRange fetched hasOlder m)"

lemma reconcile_some:
  "reconcileConversationMessages current fetched hasOlder atStart = Some ms
   \<Longrightarrow> ms = fetched @ filter (kept_beside fetched hasOlder atStart) current"
  by (auto simp: reconcileConversationMessages_def Let_def kept_beside_def [abs_def] split: if_splits)

lemma reconcile_none:
  "reconcileConversationMessages current fetched hasOlder atStart = None \<longleftrightarrow>
     (\<forall>m \<in> set current. ms_id m \<in> ms_id ` set fetched \<or> kept_beside fetched hasOlder atStart m)
     \<and> (\<forall>m \<in> set fetched. \<exists>c. on_screen current (ms_id m) = Some c \<and> messagesEqual c m)"
  by (auto simp: reconcileConversationMessages_def Let_def kept_beside_def split: option.splits)

lemma distinct_beside:
  "distinct (map ms_id fetched) \<Longrightarrow> distinct (map ms_id current)
   \<Longrightarrow> distinct (map ms_id (fetched @ filter (kept_beside fetched h s) current))"
proof -
  have apart: "ms_id ` set fetched \<inter> ms_id ` {x \<in> set current. kept_beside fetched h s x} = {}"
  proof (rule equals0I, elim IntE)
    fix y assume shown: "y \<in> ms_id ` set fetched"
    assume "y \<in> ms_id ` {x \<in> set current. kept_beside fetched h s x}"
    then show False using shown unfolding kept_beside_def by (elim imageE CollectE conjE) simp
  qed
  assume "distinct (map ms_id fetched)" "distinct (map ms_id current)"
  with apart show "distinct (map ms_id (fetched @ filter (kept_beside fetched h s) current))"
    by (simp add: distinct_map_filter)
qed

subsection \<open>Properties\<close>

text \<open>C15: over any run of lookups, stores, arriving messages, acknowledgements, flags, removals and
  renames, the conversation cache holds at most 20 conversations of at most 200 messages with
  distinct ids, a message is refused only when the conversation already has one with its id or
  its content, and each operation moves conversations exactly as a least-recently-used list
  does: the one dropped for room is the one used longest ago.\<close>

theorem cache_refines_lru:
  assumes "\<forall>op \<in> set ops. op_ok op"
  shows "let c = foldl cache_step [] ops in
    length c \<le> MAX_CACHED_CONVERSATIONS
    \<and> (\<forall>(k, e) \<in> set c. length (ce_messages e) \<le> MAX_MESSAGES_PER_ENTRY \<and> distinct (map ms_id (ce_messages e)))
    \<and> (\<forall>k m. \<not> fst (addMessage k m c) \<longrightarrow> (\<exists>e x. map_of c k = Some e \<and> x \<in> set (ce_messages e)
          \<and> (ms_id x = ms_id m \<or> getMessageContentKey x = getMessageContentKey m)))
    \<and> (\<forall>op. amap_keys (cache_step c op) = lru_step (took c op) (amap_keys c) op)"
proof -
  have ok: "cache_ok (foldl cache_step [] ops)"
    using assms by (intro cache_run_ok) (simp_all add: cache_ok_def)
  have "length (ce_messages e) \<le> MAX_MESSAGES_PER_ENTRY \<and> distinct (map ms_id (ce_messages e))"
    if "(k, e) \<in> set (foldl cache_step [] ops)" for k e
    using ok that unfolding cache_ok_def entry_ok_def by fastforce
  moreover have "length (foldl cache_step [] ops) \<le> MAX_CACHED_CONVERSATIONS"
    using ok by (simp only: cache_ok_def)
  ultimately show ?thesis
    unfolding Let_def using addMessage_refuses [OF _ ok] lru_refines [OF ok] by blast
qed

definition sample_message :: "nat \<Rightarrow> int \<Rightarrow> message" where
  "sample_message i received = \<lparr>ms_id = i, ms_type = Chan, ms_conversation_key = str ''ab'',
     ms_text = str ''hi'', ms_sender_timestamp = None, ms_received_at = received, ms_paths = None,
     ms_txt_type = 0, ms_signature = None, ms_sender_key = None, ms_outgoing = False, ms_acked = 0,
     ms_send_status = None, ms_sender_name = None, ms_channel_name = None, ms_packet_id = None,
     ms_transport_code = None, ms_region = None, ms_radio_stamp = None, ms_failed_at = None,
     ms_malformed = False, ms_name_filtered = False, ms_spam = False, ms_duplicate = False,
     ms_cli_permitted = None\<rparr>"

theorem cache_refines_lru_witness:
  "amap_keys (cache_step (foldl cache_step [] [Add (str ''b'') (sample_message 1 5)]) (RemoveConv (str ''b'')))
   = filter (\<lambda>k. k \<noteq> str ''b'') (amap_keys (foldl cache_step [] [Add (str ''b'') (sample_message 1 5)]))"
proof -
  have "\<forall>op \<in> set [Add (str ''b'') (sample_message 1 5)]. op_ok op" by simp
  from cache_refines_lru [OF this] have "\<forall>op. amap_keys (cache_step (foldl cache_step [] [Add (str ''b'') (sample_message 1 5)]) op)
      = lru_step (took (foldl cache_step [] [Add (str ''b'') (sample_message 1 5)]) op)
          (amap_keys (foldl cache_step [] [Add (str ''b'') (sample_message 1 5)])) op"
    unfolding Let_def by blast
  from this [rule_format, of "RemoveConv (str ''b'')"] show ?thesis by (simp only: lru_step.simps)
qed



text \<open>A spam mark set on the server while the page was offline does not reach the screen when it
  reconnects: a fetched copy that differs only in its spam and duplicate marks counts as
  unchanged, so the message stays as it is shown.\<close>

theorem reconcile_misses_spam:
  "reconcileConversationMessages [m] [m\<lparr>ms_spam := s, ms_duplicate := d\<rparr>] hasOlder atStart = None"
  by (simp add: reconcileConversationMessages_def on_screen_def messagesEqual_def)

text \<open>An acknowledgement with the count already buffered and with paths, but without a packet id,
  forgets the packet id that was buffered; a higher count keeps it.\<close>

lemma pending_ack_forgets_packet:
  "pa_packetId (mergePendingAck (Some \<lparr>pa_ackCount = n, pa_paths = None, pa_packetId = Some q\<rparr>) n (Some ps) None) = None
   \<and> pa_packetId (mergePendingAck (Some \<lparr>pa_ackCount = n, pa_paths = None, pa_packetId = Some q\<rparr>) (n + 1) (Some ps) None) = Some q"
  by (simp add: mergePendingAck_def)

lemma mergePendingAck_count:
  "pa_ackCount (mergePendingAck existing n ps q)
   = (case existing of None \<Rightarrow> n | Some e \<Rightarrow> max n (pa_ackCount e))"
  by (auto simp: mergePendingAck_def Let_def split: option.splits)

end
