(* ===== verification/Paths.thy ===== *)
theory Paths
imports Arrow Packet Json Conversations
begin

text \<open>Routes and paths of the messaging app (\<^verbatim>\<open>frontend/src/utils/pathUtils.ts\<close>): cutting a
  path into hops, a contact's effective route, the payload of a raw packet, hop counts and widths of a
  message, and the resolution of a path to known repeaters with its distances. A contact is the
  fields these functions read; its integer fields are integers. The formatting of
  a distance for display is left out.\<close>

subsection \<open>Contacts and routes\<close>

datatype route_source = FromOverride | FromDirect | FromFlood

record contact_route =
  cr_path :: jstr
  cr_path_len :: int
  cr_path_hash_mode :: int

record contact =
  ct_public_key :: jstr
  ct_type :: nat
  ct_direct_path :: "jstr option"
  ct_direct_path_len :: int
  ct_direct_path_hash_mode :: "int option"
  ct_route_override_path :: "jstr option"
  ct_route_override_len :: "int option"
  ct_route_override_hash_mode :: "int option"
  ct_effective_route :: "contact_route option"
  ct_effective_route_source :: "route_source option"
  ct_direct_route :: "contact_route option"
  ct_route_override :: "contact_route option"
  ct_lat :: "real option"
  ct_lon :: "real option"
  ct_manual_lat :: "real option"
  ct_manual_lon :: "real option"

definition CONTACT_TYPE_REPEATER :: nat where "CONTACT_TYPE_REPEATER = 2"
definition MAX_PATH_BYTES :: int where "MAX_PATH_BYTES = 64"

definition normalizePathHashMode :: "int option \<Rightarrow> int option" where
  "normalizePathHashMode mode =
     (case mode of None \<Rightarrow> None | Some m \<Rightarrow> if m < 0 \<or> m > 2 then None else Some m)"

text \<open>The quotient of the code is a real number; the path's length is even times the hop count
  exactly when the count divides it with an even quotient.\<close>

definition inferPathHashMode :: "jstr option \<Rightarrow> int option \<Rightarrow> int option" where
  "inferPathHashMode path hopCount =
     (case (path, hopCount) of
        (Some p, Some h) \<Rightarrow>
          if p = [] \<or> h \<le> 0 then None
          else
            let charsPerHop = int (length p) div h in
            if int (length p) mod h \<noteq> 0 \<or> charsPerHop < 2 \<or> charsPerHop > 6 \<or> charsPerHop mod 2 \<noteq> 0
            then None
            else Some (charsPerHop div 2 - 1)
      | _ \<Rightarrow> None)"

definition formatEndpointPrefix :: "jstr option \<Rightarrow> int option \<Rightarrow> jstr" where
  "formatEndpointPrefix key pathHashMode =
     (case key of
        None \<Rightarrow> str ''??''
      | Some k \<Rightarrow>
          if k = [] then str ''??''
          else
            let hashMode = (case normalizePathHashMode pathHashMode of None \<Rightarrow> 0 | Some m \<Rightarrow> m)
            in take (nat ((hashMode + 1) * 2)) (toUpperCase k))"

text \<open>The loop over the hops of a path: whole hops only.\<close>

function hop_loop :: "nat \<Rightarrow> jstr \<Rightarrow> jstr list" where
  "hop_loop w s = (if w = 0 \<or> length s < w then [] else take w s # hop_loop w (drop w s))"
  by pat_completeness auto
termination by (relation "measure (\<lambda>(w, s). length s)") auto

declare hop_loop.simps [simp del]

definition chars_per_hop :: "jstr \<Rightarrow> int option \<Rightarrow> nat" where
  "chars_per_hop s hopCount =
     (case hopCount of
        None \<Rightarrow> 2
      | Some h \<Rightarrow>
          if h > 0 \<and> int (length s) mod h = 0 \<and> int (length s) div h \<ge> 2 \<and> int (length s) div h mod 2 = 0
          then nat (int (length s) div h) else 2)"

definition parsePathHops :: "jstr option \<Rightarrow> int option \<Rightarrow> jstr list" where
  "parsePathHops path hopCount =
     (case path of
        None \<Rightarrow> []
      | Some p \<Rightarrow>
          if p = [] then []
          else let normalized = toUpperCase p in hop_loop (chars_per_hop normalized hopCount) normalized)"

definition hasRoutingOverride :: "contact \<Rightarrow> bool" where
  "hasRoutingOverride c \<longleftrightarrow> ct_route_override c \<noteq> None \<or> ct_route_override_len c \<noteq> None"

definition first_of :: "'a option \<Rightarrow> 'a option \<Rightarrow> 'a option" where
  "first_of a b = (if a \<noteq> None then a else b)"

definition or_zero :: "int option \<Rightarrow> int" where
  "or_zero m = (case m of None \<Rightarrow> 0 | Some x \<Rightarrow> x)"

definition getDirectContactRoute :: "contact \<Rightarrow> contact_route option" where
  "getDirectContactRoute c =
     (case ct_direct_route c of
        Some r \<Rightarrow> Some r
      | None \<Rightarrow>
          if ct_direct_path_len c < 0 then None
          else Some
            \<lparr>cr_path = or_empty (ct_direct_path c),
             cr_path_len = ct_direct_path_len c,
             cr_path_hash_mode = or_zero (first_of (normalizePathHashMode (ct_direct_path_hash_mode c))
               (inferPathHashMode (ct_direct_path c) (Some (ct_direct_path_len c))))\<rparr>)"

definition getRouteOverride :: "contact \<Rightarrow> contact_route option" where
  "getRouteOverride c =
     (case ct_route_override c of
        Some r \<Rightarrow> Some r
      | None \<Rightarrow>
          if \<not> hasRoutingOverride c then None
          else
            let pathLen = (case ct_route_override_len c of None \<Rightarrow> -1 | Some n \<Rightarrow> n) in
            Some
              \<lparr>cr_path = or_empty (ct_route_override_path c),
               cr_path_len = pathLen,
               cr_path_hash_mode =
                 (if pathLen = -1 then -1
                  else or_zero (first_of (normalizePathHashMode (ct_route_override_hash_mode c))
                    (inferPathHashMode (ct_route_override_path c) (Some pathLen))))\<rparr>)"

record effective_route =
  er_path :: "jstr option"
  er_pathLen :: int
  er_pathHashMode :: int
  er_forced :: bool
  er_source :: route_source

definition some_path :: "jstr \<Rightarrow> jstr option" where
  "some_path p = (if p = [] then None else Some p)"

definition getEffectiveContactRoute :: "contact \<Rightarrow> effective_route" where
  "getEffectiveContactRoute c =
     (case ct_effective_route c of
        Some route \<Rightarrow>
          \<lparr>er_path = some_path (cr_path route), er_pathLen = cr_path_len route,
           er_pathHashMode = cr_path_hash_mode route,
           er_forced = (ct_effective_route_source c = Some FromOverride),
           er_source = (case ct_effective_route_source c of None \<Rightarrow> FromFlood | Some s \<Rightarrow> s)\<rparr>
      | None \<Rightarrow>
          let directRoute = getDirectContactRoute c;
              overrideRoute = getRouteOverride c;
              resolved = first_of overrideRoute directRoute;
              source = (if overrideRoute \<noteq> None then FromOverride
                        else if directRoute \<noteq> None then FromDirect else FromFlood);
              pathLen = (case resolved of None \<Rightarrow> -1 | Some r \<Rightarrow> cr_path_len r);
              mode = map_option cr_path_hash_mode resolved;
              mode = (if pathLen = -1 then -1
                      else case mode of
                        Some m \<Rightarrow> if m < 0 \<or> m > 2
                          then or_zero (inferPathHashMode (map_option cr_path resolved) (Some pathLen)) else m
                      | None \<Rightarrow> or_zero (inferPathHashMode (map_option cr_path resolved) (Some pathLen)))
          in \<lparr>er_path = (case resolved of None \<Rightarrow> None | Some r \<Rightarrow> some_path (cr_path r)),
              er_pathLen = pathLen, er_pathHashMode = mode,
              er_forced = (source = FromOverride), er_source = source\<rparr>)"

definition capitalizeFirst :: "jstr \<Rightarrow> jstr" where
  "capitalizeFirst s = toUpperCase (take 1 s) @ drop 1 s"

definition formatRouteLabel :: "int \<Rightarrow> bool \<Rightarrow> jstr" where
  "formatRouteLabel pathLen capitalize =
     (let label = (if pathLen = -1 then str ''flood''
                   else if pathLen = 0 then str ''direct''
                   else decimal_int pathLen @ str '' hop'' @ (if pathLen = 1 then [] else str ''s''))
      in if capitalize then capitalizeFirst label else label)"

definition route_summary :: "int \<Rightarrow> jstr option \<Rightarrow> jstr" where
  "route_summary pathLen path =
     (let hops = parsePathHops path (Some pathLen);
          label = formatRouteLabel pathLen True
      in if hops \<noteq> [] then label @ str '' ('' @ join_with (str '' -> '') hops @ str '')'' else label)"

definition formatLearnedRouteSummary :: "contact \<Rightarrow> jstr" where
  "formatLearnedRouteSummary c =
     (case getDirectContactRoute c of
        None \<Rightarrow> formatRouteLabel (-1) True
      | Some r \<Rightarrow> route_summary (cr_path_len r) (Some (cr_path r)))"

definition formatForcedRouteSummary :: "contact \<Rightarrow> jstr option" where
  "formatForcedRouteSummary c =
     (if \<not> hasRoutingOverride c then None
      else
        let effectiveRoute = getEffectiveContactRoute c in
        if er_pathLen effectiveRoute = -1 then Some (formatRouteLabel (-1) True)
        else Some (route_summary (er_pathLen effectiveRoute) (er_path effectiveRoute)))"

definition formatRoutingOverrideInput :: "contact \<Rightarrow> jstr" where
  "formatRoutingOverrideInput c =
     (case getRouteOverride c of
        None \<Rightarrow> []
      | Some r \<Rightarrow>
          if cr_path_len r = -1 then str ''-1''
          else if cr_path_len r = 0 then str ''0''
          else join_with (str '','') (map toLowerCase (parsePathHops (Some (cr_path r)) (Some (cr_path_len r)))))"

subsection \<open>The payload of a raw packet\<close>

text \<open>\<^verbatim>\<open>parseInt\<close> of two characters; the bit operations read a \<^verbatim>\<open>NaN\<close> as 0.\<close>

definition hex_byte_at :: "jstr \<Rightarrow> nat \<Rightarrow> int" where
  "hex_byte_at s i = (case parseInt16 (subarr i (i + 2) s) of None \<Rightarrow> 0 | Some n \<Rightarrow> n)"

definition extractPacketPayloadHex :: "jstr \<Rightarrow> jstr option" where
  "extractPacketPayloadHex packetHex =
     (if length packetHex < 4 then None
      else
        let normalized = toUpperCase packetHex;
            routeType = hex_byte_at normalized 0 mod 4;
            transport = (routeType = 0 \<or> routeType = 3)
        in if transport \<and> length normalized < 2 + 8 then None
        else
          let offset = (if transport then 2 + 8 else 2) in
          if length normalized < offset + 2 then None
          else
            let pathByte = hex_byte_at normalized offset;
                offset = offset + 2;
                hashMode = pathByte div 64 mod 4
            in if hashMode = 3 then None
            else
              let hopCount = pathByte mod 64;
                  pathByteLen = hopCount * (hashMode + 1)
              in if pathByteLen > MAX_PATH_BYTES then None
              else
                let pathHexChars = nat (pathByteLen * 2) in
                if length normalized < offset + pathHexChars then None
                else
                  let offset = offset + pathHexChars in
                  if offset \<ge> length normalized then None
                  else Some (drop offset normalized))"

subsection \<open>Places and distances\<close>

definition findContactsByPrefix :: "jstr \<Rightarrow> contact list \<Rightarrow> bool \<Rightarrow> contact list" where
  "findContactsByPrefix prefix contacts repeatersOnly =
     filter (\<lambda>c. \<not> (repeatersOnly \<and> ct_type c \<noteq> CONTACT_TYPE_REPEATER)
                 \<and> startsWith (toUpperCase (ct_public_key c)) (toUpperCase prefix)) contacts"

definition toRad :: "real \<Rightarrow> real" where "toRad deg = deg * pi / 180"

definition calculateDistance ::
  "real option \<Rightarrow> real option \<Rightarrow> real option \<Rightarrow> real option \<Rightarrow> real option" where
  "calculateDistance lat1 lon1 lat2 lon2 =
     (case (lat1, lon1, lat2, lon2) of
        (Some la1, Some lo1, Some la2, Some lo2) \<Rightarrow>
          (let dLat = toRad (la2 - la1);
               dLon = toRad (lo2 - lo1);
               a = sin (dLat / 2) * sin (dLat / 2)
                   + cos (toRad la1) * cos (toRad la2) * sin (dLon / 2) * sin (dLon / 2);
               c = 2 * js_atan2 (sqrt a) (sqrt (1 - a))
           in Some (6371 * c))
      | _ \<Rightarrow> None)"

definition isValidLocation :: "real option \<Rightarrow> real option \<Rightarrow> bool" where
  "isValidLocation lat lon =
     (case (lat, lon) of
        (Some la, Some lo) \<Rightarrow>
          if la < -90 \<or> la > 90 \<or> lo < -180 \<or> lo > 180 then False
          else if la = 0 \<and> lo = 0 then False
          else True
      | _ \<Rightarrow> False)"

definition getEffectiveLocation :: "contact \<Rightarrow> (real \<times> real) option" where
  "getEffectiveLocation c =
     (if isValidLocation (ct_lat c) (ct_lon c) then Some (the (ct_lat c), the (ct_lon c))
      else if isValidLocation (ct_manual_lat c) (ct_manual_lon c)
      then Some (the (ct_manual_lat c), the (ct_manual_lon c))
      else None)"

definition withEffectiveContactCoords :: "contact \<Rightarrow> contact" where
  "withEffectiveContactCoords c =
     (case getEffectiveLocation c of
        None \<Rightarrow> c
      | Some (la, lo) \<Rightarrow>
          if ct_lat c = Some la \<and> ct_lon c = Some lo then c
          else c\<lparr>ct_lat := Some la, ct_lon := Some lo\<rparr>)"

definition hasEffectiveLocation :: "contact \<Rightarrow> bool" where
  "hasEffectiveLocation c \<longleftrightarrow> getEffectiveLocation c \<noteq> None"

definition resolveNodeCoord ::
  "jstr \<Rightarrow> (real \<times> real) option \<Rightarrow> (jstr \<Rightarrow> contact list option) \<Rightarrow> (real \<times> real) option" where
  "resolveNodeCoord nodeId self prefixIndex =
     (if nodeId = str ''self'' then self
      else case prefixIndex nodeId of
        Some [c] \<Rightarrow> getEffectiveLocation c
      | _ \<Rightarrow> None)"

text \<open>A stable sort that puts contacts without a distance last.\<close>

definition sortContactsByDistance :: "contact list \<Rightarrow> real option \<Rightarrow> real option \<Rightarrow> contact list" where
  "sortContactsByDistance contacts fromLat fromLon =
     (if fromLat = None \<or> fromLon = None then contacts
      else
        let dist = (\<lambda>c. calculateDistance fromLat fromLon (ct_lat c) (ct_lon c))
        in sort_key (\<lambda>c. the (dist c)) (filter (\<lambda>c. dist c \<noteq> None) contacts)
           @ filter (\<lambda>c. dist c = None) contacts)"

subsection \<open>Hop counts and widths of a message\<close>

definition getHopCount :: "jstr option \<Rightarrow> int option \<Rightarrow> int" where
  "getHopCount path hopCount =
     (case hopCount of
        Some h \<Rightarrow> if h \<ge> 0 then h else int (length (or_empty path)) div 2
      | None \<Rightarrow> int (length (or_empty path)) div 2)"

record hop_counts =
  hc_display :: jstr
  hc_allDirect :: bool
  hc_hasMultiple :: bool

definition message_hops :: "message_path \<Rightarrow> int" where
  "message_hops p = getHopCount (Some (mp_path p)) (map_option int (mp_path_len p))"

definition formatHopCounts :: "message_path list option \<Rightarrow> hop_counts" where
  "formatHopCounts paths =
     (case paths of
        None \<Rightarrow> \<lparr>hc_display = [], hc_allDirect = True, hc_hasMultiple = False\<rparr>
      | Some [] \<Rightarrow> \<lparr>hc_display = [], hc_allDirect = True, hc_hasMultiple = False\<rparr>
      | Some ps \<Rightarrow>
          (let hopCounts = sort (map message_hops ps)
           in \<lparr>hc_display = join_with (str ''/'') (map (\<lambda>h. if h = 0 then str ''d'' else decimal_int h) hopCounts),
               hc_allDirect = list_all (\<lambda>h. h = 0) hopCounts,
               hc_hasMultiple = (length ps > 1)\<rparr>))"

definition isDirectMessage :: "message_path list option \<Rightarrow> bool" where
  "isDirectMessage paths =
     (if paths = None \<or> paths = Some [] then False else hc_allDirect (formatHopCounts paths))"

definition pathHopWidths :: "message_path list option \<Rightarrow> int list" where
  "pathHopWidths paths =
     (case paths of
        None \<Rightarrow> []
      | Some ps \<Rightarrow>
          sort (remdups (map (\<lambda>m. m + 1)
            (List.map_filter (\<lambda>p. inferPathHashMode (Some (mp_path p)) (map_option int (mp_path_len p))) ps))))"

definition formatPathHopWidths :: "message_path list option \<Rightarrow> jstr option" where
  "formatPathHopWidths paths =
     (let widths = pathHopWidths paths in
      if widths = [] then None
      else Some (join_with (str ''/'') (map (\<lambda>w. decimal_int w @ str ''B'') widths)))"

definition isMessageHiddenByHopWidth :: "message_path list option \<Rightarrow> int list \<Rightarrow> bool" where
  "isMessageHiddenByHopWidth paths hiddenWidths =
     (if hiddenWidths = [] then False
      else
        let widths = pathHopWidths paths in
        if widths = [] then False else list_ex (\<lambda>w. w \<in> set hiddenWidths) widths)"

subsection \<open>Resolving a path\<close>

record path_hop =
  ph_prefix :: jstr
  ph_matches :: "contact list"
  ph_distance :: "real option"

record sender_info =
  si_name :: jstr
  si_key :: jstr
  si_lat :: "real option"
  si_lon :: "real option"
  si_pathHashMode :: "int option"

record radio_config =
  rc_public_key :: jstr
  rc_name :: jstr
  rc_lat :: real
  rc_lon :: real
  rc_path_hash_mode :: int

record path_end =
  pe_name :: jstr
  pe_prefix :: jstr
  pe_lat :: "real option"
  pe_lon :: "real option"

record resolved_path =
  rp_sender :: path_end
  rp_hops :: "path_hop list"
  rp_receiver :: path_end
  rp_publicKey :: "jstr option"
  rp_totalDistances :: "real list option"
  rp_hasGaps :: bool

text \<open>One repeater with a valid place.\<close>

definition located_hop :: "contact list \<Rightarrow> bool" where
  "located_hop matches \<longleftrightarrow>
     length matches = 1 \<and> isValidLocation (ct_lat (hd matches)) (ct_lon (hd matches))"

fun resolve_loop ::
  "contact list \<Rightarrow> real option \<Rightarrow> real option \<Rightarrow> bool \<Rightarrow> jstr list \<Rightarrow> path_hop list" where
  "resolve_loop contacts prevLat prevLon prevUncertain [] = []"
| "resolve_loop contacts prevLat prevLon prevUncertain (prefix # prefixes) =
     (let matches = map withEffectiveContactCoords (findContactsByPrefix prefix contacts True);
          ranked = sortContactsByDistance matches prevLat prevLon;
          first = hd ranked;
          distance = (if \<not> prevUncertain \<and> located_hop ranked
                      then calculateDistance prevLat prevLon (ct_lat first) (ct_lon first) else None);
          valid = (ranked \<noteq> [] \<and> isValidLocation (ct_lat first) (ct_lon first));
          uncertain = (\<not> (length ranked = 1 \<and> valid));
          lat = (if valid then ct_lat first else None);
          lon = (if valid then ct_lon first else None)
      in \<lparr>ph_prefix = prefix, ph_matches = ranked, ph_distance = distance\<rparr>
         # resolve_loop contacts lat lon uncertain prefixes)"

text \<open>The first hop with one located repeater: the hops after it and its place.\<close>

fun first_located :: "path_hop list \<Rightarrow> (path_hop list \<times> real option \<times> real option) option" where
  "first_located [] = None"
| "first_located (h # hs) =
     (if located_hop (ph_matches h)
      then Some (hs, ct_lat (hd (ph_matches h)), ct_lon (hd (ph_matches h)))
      else first_located hs)"

text \<open>The sum over the remaining hops: total, whether any distance was added, the last place, and
  whether the last of these hops is the last unambiguous one.\<close>

fun total_loop ::
  "real option \<Rightarrow> real option \<Rightarrow> real \<Rightarrow> bool \<Rightarrow> bool \<Rightarrow> path_hop list
   \<Rightarrow> real \<times> bool \<times> bool \<times> real option \<times> real option" where
  "total_loop prevLat prevLon tot anyDistance lastOk [] = (tot, anyDistance, lastOk, prevLat, prevLon)"
| "total_loop prevLat prevLon tot anyDistance lastOk (hop # hops) =
     (if \<not> located_hop (ph_matches hop) then total_loop None None tot anyDistance False hops
      else
        let c = hd (ph_matches hop);
            dist = (if prevLat \<noteq> None \<and> prevLon \<noteq> None
                    then calculateDistance prevLat prevLon (ct_lat c) (ct_lon c) else None)
        in (case dist of
              Some d \<Rightarrow> total_loop (ct_lat c) (ct_lon c) (tot + d) True True hops
            | None \<Rightarrow> total_loop (ct_lat c) (ct_lon c) tot anyDistance True hops))"

definition calculateTotalDistances :: "path_end \<Rightarrow> path_hop list \<Rightarrow> path_end \<Rightarrow> real list option" where
  "calculateTotalDistances sender hops receiver =
     (if hops = [] then
        (if \<not> isValidLocation (pe_lat sender) (pe_lon sender)
            \<or> \<not> isValidLocation (pe_lat receiver) (pe_lon receiver) then None
         else map_option (\<lambda>d. [d])
           (calculateDistance (pe_lat sender) (pe_lon sender) (pe_lat receiver) (pe_lon receiver)))
      else
        case (if isValidLocation (pe_lat sender) (pe_lon sender)
              then Some (hops, pe_lat sender, pe_lon sender) else first_located hops) of
          None \<Rightarrow> None
        | Some (rest, lat, lon) \<Rightarrow>
            (let (tot, anyDistance, lastOk, lat, lon) = total_loop lat lon 0 False False rest;
                 final = (if lastOk \<and> lat \<noteq> None \<and> lon \<noteq> None
                             \<and> isValidLocation (pe_lat receiver) (pe_lon receiver)
                          then calculateDistance lat lon (pe_lat receiver) (pe_lon receiver) else None);
                 (tot, anyDistance) = (case final of Some d \<Rightarrow> (tot + d, True) | None \<Rightarrow> (tot, anyDistance))
             in if anyDistance then Some [tot] else None))"

definition resolvePath ::
  "jstr option \<Rightarrow> sender_info \<Rightarrow> contact list \<Rightarrow> radio_config option \<Rightarrow> int option \<Rightarrow> resolved_path" where
  "resolvePath path sender contacts config hopCount =
     (let hopPrefixes = parsePathHops path hopCount;
          inferred = inferPathHashMode path hopCount;
          resolvedSender =
            \<lparr>pe_name = si_name sender,
             pe_prefix = formatEndpointPrefix (Some (si_key sender))
               (first_of (normalizePathHashMode (si_pathHashMode sender)) inferred),
             pe_lat = si_lat sender, pe_lon = si_lon sender\<rparr>;
          resolvedReceiver =
            \<lparr>pe_name = (case config of
                 None \<Rightarrow> str ''Unknown''
               | Some c \<Rightarrow> if rc_name c = [] then str ''Unknown'' else rc_name c),
             pe_prefix = formatEndpointPrefix (map_option rc_public_key config)
               (first_of (normalizePathHashMode (map_option rc_path_hash_mode config)) inferred),
             pe_lat = map_option rc_lat config, pe_lon = map_option rc_lon config\<rparr>;
          hops = resolve_loop contacts (si_lat sender) (si_lon sender)
            (\<not> isValidLocation (si_lat sender) (si_lon sender)) hopPrefixes
      in \<lparr>rp_sender = resolvedSender, rp_hops = hops, rp_receiver = resolvedReceiver,
          rp_publicKey = map_option rc_public_key config,
          rp_totalDistances = calculateTotalDistances resolvedSender hops resolvedReceiver,
          rp_hasGaps =
            (\<not> isValidLocation (pe_lat resolvedSender) (pe_lon resolvedSender)
             \<or> \<not> isValidLocation (pe_lat resolvedReceiver) (pe_lon resolvedReceiver)
             \<or> list_ex (\<lambda>h. \<not> located_hop (ph_matches h)) hops)\<rparr>)"

subsection \<open>Two readers of one preamble\<close>

lemma toUpperCase_append: "toUpperCase (a @ b) = toUpperCase a @ toUpperCase b"
  by (simp add: toUpperCase_def)

lemma drop_toUpperCase: "drop n (toUpperCase s) = toUpperCase (drop n s)"
  by (simp add: toUpperCase_def drop_map)

lemma subarr_toUpperCase: "subarr i j (toUpperCase s) = toUpperCase (subarr i j s)"
  by (simp add: subarr_def toUpperCase_def take_map drop_map)

lemma hex_digit_upper: "n < 16 \<Longrightarrow> hex_val (upper_char (hex_digit n)) = Some n"
  by (auto simp: hex_digit_def upper_char_def hex_val_def)

lemma bytesToHex_append: "bytesToHex (a @ b) = bytesToHex a @ bytesToHex b"
  by (simp add: bytesToHex_def)

lemma drop_bytesToHex: "drop (2 * i) (bytesToHex bs) = bytesToHex (drop i bs)"
proof (cases "i \<le> length bs")
  case True
  have "bytesToHex bs = bytesToHex (take i bs) @ bytesToHex (drop i bs)"
    by (simp flip: bytesToHex_append)
  moreover have "length (bytesToHex (take i bs)) = 2 * i" using True by simp
  ultimately show ?thesis by simp
qed simp

lemma parseInt16_upper_hex2:
  assumes "n < 256"
  shows "parseInt16 (toUpperCase (hex2 n)) = Some (int n)"
proof -
  have n: "n div 16 < 16" using assms by (simp add: div_less_iff_less_mult)
  have u: "toUpperCase (hex2 n) = [upper_char (hex_digit (n div 16)), upper_char (hex_digit (n mod 16))]"
    using assms by (simp add: hex2_digits toUpperCase_def)
  have "list_all is_hex (toUpperCase (hex2 n))"
    unfolding u using hex_digit_upper [OF n] hex_digit_upper [of "n mod 16"] by (simp add: is_hex_def)
  moreover have "digits_val (toUpperCase (hex2 n)) = n"
    unfolding u using hex_digit_upper [OF n] hex_digit_upper [of "n mod 16"] by (simp add: digits_val_def)
  ultimately show ?thesis unfolding u by (simp add: parseInt16_hex)
qed

lemma hex_byte_at_hex:
  "i < length raw \<Longrightarrow> hex_byte_at (toUpperCase (bytesToHex raw)) (2 * i) = int (unat (raw ! i))"
  using subarr_bytesToHex [of i raw]
  by (simp add: hex_byte_at_def subarr_toUpperCase mult.commute parseInt16_upper_hex2 unat_u8_less)

lemma extract_from_bytes:
  assumes "2 \<le> length raw" "unat (raw ! 0) = h" "i = 1 + transport_bytes (h mod 4)"
  shows "extractPacketPayloadHex (bytesToHex raw) =
    (if length raw \<le> i then None
     else let p = unat (raw ! i); c = p mod 64 * (p div 64 + 1) in
       if p div 64 = 3 \<or> 64 < c \<or> length raw \<le> i + 1 + c then None
       else Some (toUpperCase (bytesToHex (drop (i + 1 + c) raw))))"
proof -
  let ?H = "toUpperCase (bytesToHex raw)"
  have "0 < length raw" using assms(1) by linarith
  from hex_byte_at_hex [OF this] assms(2) have b0: "hex_byte_at ?H 0 = int h" by simp
  have t: "(int h mod 4 = 0 \<or> int h mod 4 = 3) \<longleftrightarrow> transport_bytes (h mod 4) = 4"
  proof -
    have "int h mod 4 = int (h mod 4)" by (simp add: zmod_int)
    then show ?thesis
      by (simp only: transport_bytes_def ROUTE_TRANSPORT_FLOOD_def ROUTE_TRANSPORT_DIRECT_def) simp
  qed
  have i: "i = 5 \<or> i = 1" "transport_bytes (h mod 4) = 4 \<longleftrightarrow> i = 5"
    using assms(3) by (auto simp: transport_bytes_def)
  show ?thesis
  proof (cases "i < length raw")
    case False
    then show ?thesis using i assms(1) by (auto simp: extractPacketPayloadHex_def b0 t Let_def)
  next
    case True
    define p where "p = unat (raw ! i)"
    have b1: "hex_byte_at ?H (2 * i) = int p" using hex_byte_at_hex [OF True] by (simp add: p_def)
    have p: "p < 256" by (simp add: p_def)
    have off: "(if i = 5 then 2 + 8 else 2) = 2 * i" using i(1) by auto
    have "p div 64 mod 4 = p div 64" using p by simp
    then have m: "int p div 64 mod 4 = int (p div 64)" "int p mod 64 = int (p mod 64)"
      by (metis of_nat_div of_nat_mod of_nat_numeral)+
    define c where "c = p mod 64 * (p div 64 + 1)"
    have c: "int (p mod 64) * (int (p div 64) + 1) = int c" by (simp add: c_def algebra_simps)
    have d: "drop (2 * i + 2 + 2 * c) ?H = toUpperCase (bytesToHex (drop (i + 1 + c) raw))"
      using drop_bytesToHex [of "i + 1 + c" raw] by (simp add: drop_toUpperCase algebra_simps)
    have e: "p mod 64 + p div 64 * (p mod 64) = c" "p mod 64 + p mod 64 * (p div 64) = c"
      by (simp_all add: c_def algebra_simps)
    show ?thesis
      using True assms(1) i d
      by (simp add: extractPacketPayloadHex_def b0 t off b1 m c e Let_def p_def [symmetric]
          MAX_PATH_BYTES_def) (auto simp: nat_mult_distrib algebra_simps e)
  qed
qed

text \<open>C20: the app's two readers of a packet's preamble agree: for every byte string, the payload the
  messaging app takes from the hex text is the payload the wardrive page's frame walk finds, and
  where the one refuses the packet so does the other.\<close>

theorem payload_readers_agree:
  "extractPacketPayloadHex (bytesToHex raw)
   = map_option (\<lambda>w. toUpperCase (bytesToHex (drop (fw_payloadStart w) raw))) (frameWalk raw)"
proof (cases "length raw < 2")
  case True
  then show ?thesis by (simp add: extractPacketPayloadHex_def frameWalk_def)
next
  case False
  then have "2 \<le> length raw" by simp
  from extract_from_bytes [OF this refl refl] False show ?thesis
    by (simp add: frameWalk_def Let_def MAX_PATH_SIZE_def mult.commute)
qed

subsection \<open>The total and the legs shown\<close>

definition hop_lat :: "path_hop \<Rightarrow> real option" where "hop_lat h = ct_lat (hd (ph_matches h))"
definition hop_lon :: "path_hop \<Rightarrow> real option" where "hop_lon h = ct_lon (hd (ph_matches h))"

definition legs_shown :: "path_hop list \<Rightarrow> real list" where
  "legs_shown hops = List.map_filter ph_distance hops"

lemma legs_shown_simps [simp]:
  "legs_shown [] = []"
  "legs_shown (h # hs) = (case ph_distance h of None \<Rightarrow> legs_shown hs | Some d \<Rightarrow> d # legs_shown hs)"
  by (simp_all add: legs_shown_def map_filter_simps split: option.split)

lemma calculateDistance_some: "(calculateDistance a b c d \<noteq> None) \<longleftrightarrow> (a \<noteq> None \<and> b \<noteq> None \<and> c \<noteq> None \<and> d \<noteq> None)"
  by (simp add: calculateDistance_def Let_def split: option.split)

lemma distance_known [intro]:
  "a \<noteq> None \<and> b \<noteq> None \<Longrightarrow> c \<noteq> None \<and> d \<noteq> None \<Longrightarrow> calculateDistance a b c d \<noteq> None"
  by (simp only: calculateDistance_some simp_thms)

lemma valid_some: "isValidLocation a b \<Longrightarrow> a \<noteq> None \<and> b \<noteq> None"
  by (simp add: isValidLocation_def split: option.splits)

text \<open>Where the walk stands: the place and certainty it carries, and the place the sum carries.\<close>

definition same_place ::
  "real option \<Rightarrow> real option \<Rightarrow> bool \<Rightarrow> real option \<Rightarrow> real option \<Rightarrow> bool" where
  "same_place lat lon uncertain lat' lon' \<longleftrightarrow>
     (if uncertain then lat' = None \<and> lon' = None
      else lat' = lat \<and> lon' = lon \<and> lat \<noteq> None \<and> lon \<noteq> None)"

lemma total_of_walk:
  assumes "same_place lat lon uncertain lat' lon'" "hops = resolve_loop contacts lat lon uncertain prefixes"
  shows "total_loop lat' lon' t anyD ok hops =
    (t + sum_list (legs_shown hops), anyD \<or> legs_shown hops \<noteq> [],
     if hops = [] then ok else located_hop (ph_matches (last hops)),
     if hops = [] then lat' else if located_hop (ph_matches (last hops)) then hop_lat (last hops) else None,
     if hops = [] then lon' else if located_hop (ph_matches (last hops)) then hop_lon (last hops) else None)"
  using assms
proof (induction prefixes arbitrary: lat lon uncertain lat' lon' t anyD ok hops)
  case Nil
  then show ?case by simp
next
  case (Cons p ps)
  define ranked where "ranked = sortContactsByDistance
    (map withEffectiveContactCoords (findContactsByPrefix p contacts True)) lat lon"
  define first where "first = hd ranked"
  define valid where "valid = (ranked \<noteq> [] \<and> isValidLocation (ct_lat first) (ct_lon first))"
  define dist where "dist = (if \<not> uncertain \<and> located_hop ranked
    then calculateDistance lat lon (ct_lat first) (ct_lon first) else None)"
  define la where "la = (if valid then ct_lat first else None)"
  define lo where "lo = (if valid then ct_lon first else None)"
  define rest where "rest = resolve_loop contacts la lo (\<not> (length ranked = 1 \<and> valid)) ps"
  have hops: "hops = \<lparr>ph_prefix = p, ph_matches = ranked, ph_distance = dist\<rparr> # rest"
    using Cons.prems(2) by (simp add: ranked_def first_def valid_def dist_def la_def lo_def rest_def Let_def)
  have loc: "located_hop ranked \<longleftrightarrow> length ranked = 1 \<and> valid"
    by (auto simp: located_hop_def valid_def first_def)
  have dist': "dist = (if located_hop ranked \<and> lat' \<noteq> None \<and> lon' \<noteq> None
      then calculateDistance lat' lon' (ct_lat first) (ct_lon first) else None)"
    using Cons.prems(1) by (auto simp: dist_def same_place_def split: if_splits)
  show ?case
  proof (cases "located_hop ranked")
    case True
    then have sp: "same_place la lo (\<not> (length ranked = 1 \<and> valid)) (ct_lat first) (ct_lon first)"
      using loc valid_some [of "ct_lat first" "ct_lon first"] by (simp add: same_place_def la_def lo_def valid_def)
    show ?thesis
      using Cons.IH [OF sp rest_def] True dist'
      by (auto simp: hops Let_def hop_lat_def hop_lon_def first_def algebra_simps split: option.split)
  next
    case False
    then have sp: "same_place la lo (\<not> (length ranked = 1 \<and> valid)) None None"
      using loc by (simp add: same_place_def)
    show ?thesis
      using Cons.IH [OF sp rest_def] False dist' by (auto simp: hops)
  qed
qed

text \<open>The distance a hop shows is the one from the node before it, when both are located.\<close>

definition distance_between :: "path_hop \<Rightarrow> path_hop \<Rightarrow> real option" where
  "distance_between g h =
     (if located_hop (ph_matches g) \<and> located_hop (ph_matches h)
      then calculateDistance (hop_lat g) (hop_lon g) (hop_lat h) (hop_lon h) else None)"

lemma walk_distances:
  assumes "hops = resolve_loop contacts lat lon uncertain prefixes" "i < length hops"
  shows "ph_distance (hops ! i) =
    (if i = 0 then if \<not> uncertain \<and> located_hop (ph_matches (hops ! 0))
       then calculateDistance lat lon (hop_lat (hops ! 0)) (hop_lon (hops ! 0)) else None
     else distance_between (hops ! (i - 1)) (hops ! i))"
  using assms
proof (induction prefixes arbitrary: lat lon uncertain hops i)
  case Nil
  then show ?case by simp
next
  case (Cons p ps)
  define ranked where "ranked = sortContactsByDistance
    (map withEffectiveContactCoords (findContactsByPrefix p contacts True)) lat lon"
  define valid where "valid = (ranked \<noteq> [] \<and> isValidLocation (ct_lat (hd ranked)) (ct_lon (hd ranked)))"
  define la where "la = (if valid then ct_lat (hd ranked) else None)"
  define lo where "lo = (if valid then ct_lon (hd ranked) else None)"
  define rest where "rest = resolve_loop contacts la lo (\<not> (length ranked = 1 \<and> valid)) ps"
  define h where "h = \<lparr>ph_prefix = p, ph_matches = ranked,
    ph_distance = (if \<not> uncertain \<and> located_hop ranked
      then calculateDistance lat lon (ct_lat (hd ranked)) (ct_lon (hd ranked)) else None)\<rparr>"
  have hops: "hops = h # rest"
    using Cons.prems(1) by (simp add: ranked_def valid_def la_def lo_def rest_def h_def Let_def)
  have loc: "located_hop ranked \<longleftrightarrow> length ranked = 1 \<and> valid"
    by (auto simp: located_hop_def valid_def)
  have h_fields: "ph_matches h = ranked" "hop_lat h = ct_lat (hd ranked)" "hop_lon h = ct_lon (hd ranked)"
    by (simp_all add: h_def hop_lat_def hop_lon_def)
  show ?case
  proof (cases i)
    case 0
    then show ?thesis by (simp add: hops h_def hop_lat_def hop_lon_def)
  next
    case (Suc j)
    with Cons.prems(2) have j: "j < length rest" by (simp add: hops)
    from Cons.IH [OF rest_def j] show ?thesis
      by (cases j) (auto simp: Suc hops distance_between_def h_fields loc la_def lo_def)
  qed
qed

definition last_leg :: "resolved_path \<Rightarrow> real option" where
  "last_leg r =
     (let hops = rp_hops r; tx = rp_sender r; rx = rp_receiver r in
      if \<not> isValidLocation (pe_lat rx) (pe_lon rx) then None
      else if hops = [] then calculateDistance (pe_lat tx) (pe_lon tx) (pe_lat rx) (pe_lon rx)
      else if located_hop (ph_matches (last hops))
      then calculateDistance (hop_lat (last hops)) (hop_lon (last hops)) (pe_lat rx) (pe_lon rx)
      else None)"

definition all_legs :: "resolved_path \<Rightarrow> real list" where
  "all_legs r = legs_shown (rp_hops r) @ (case last_leg r of None \<Rightarrow> [] | Some d \<Rightarrow> [d])"

lemma total_all_legs:
  assumes "isValidLocation (si_lat sender) (si_lon sender)" "r = resolvePath path sender contacts config hopCount"
  shows "rp_totalDistances r = (if all_legs r = [] then None else Some [sum_list (all_legs r)])"
proof -
  let ?la = "si_lat sender" and ?lo = "si_lon sender"
  define hops where "hops = resolve_loop contacts ?la ?lo False (parsePathHops path hopCount)"
  have sp: "same_place ?la ?lo False ?la ?lo" using valid_some [OF assms(1)] by (simp add: same_place_def)
  note walk = total_of_walk [OF sp hops_def]
  have s: "rp_hops r = hops" "pe_lat (rp_sender r) = ?la" "pe_lon (rp_sender r) = ?lo"
    "rp_totalDistances r = calculateTotalDistances (rp_sender r) hops (rp_receiver r)"
    using assms by (simp_all add: resolvePath_def Let_def hops_def)
  show ?thesis
  proof (cases "hops = []")
    case True
    then show ?thesis using assms(1) valid_some [OF assms(1)]
      by (auto simp: s calculateTotalDistances_def all_legs_def last_leg_def Let_def
          dest: valid_some split: option.split)
  next
    case False
    let ?last = "last hops"
    have v: "hop_lat ?last \<noteq> None \<and> hop_lon ?last \<noteq> None" if "located_hop (ph_matches ?last)"
      using that valid_some by (auto simp: located_hop_def hop_lat_def hop_lon_def)
    show ?thesis
      using False assms(1) v
      by (auto simp: s calculateTotalDistances_def all_legs_def last_leg_def walk Let_def split: option.split)
  qed
qed

lemma length_legs_shown: "length (legs_shown hs) = length (filter (\<lambda>h. ph_distance h \<noteq> None) hs)"
  by (induction hs) (auto split: option.split)

lemma located_place:
  "located_hop (ph_matches h) \<Longrightarrow> hop_lat h \<noteq> None \<and> hop_lon h \<noteq> None"
  using valid_some by (auto simp: located_hop_def hop_lat_def hop_lon_def)

lemma gap_free_legs:
  assumes "r = resolvePath path sender contacts config hopCount" "\<not> rp_hasGaps r"
  shows "length (all_legs r) = length (rp_hops r) + 1"
proof -
  let ?la = "si_lat sender" and ?lo = "si_lon sender" and ?hops = "rp_hops r"
  have s: "?hops = resolve_loop contacts ?la ?lo (\<not> isValidLocation ?la ?lo) (parsePathHops path hopCount)"
    "pe_lat (rp_sender r) = ?la" "pe_lon (rp_sender r) = ?lo"
    and g: "isValidLocation ?la ?lo" "isValidLocation (pe_lat (rp_receiver r)) (pe_lon (rp_receiver r))"
    "\<forall>h \<in> set ?hops. located_hop (ph_matches h)"
    using assms by (auto simp: resolvePath_def Let_def list_ex_iff)
  have "ph_distance (?hops ! i) \<noteq> None" if i: "i < length ?hops" for i
  proof -
    have "located_hop (ph_matches (?hops ! i))" "located_hop (ph_matches (?hops ! (i - 1)))"
      "located_hop (ph_matches (?hops ! 0))"
      using g(3) i order.strict_trans1 [OF le0 i] nth_mem [of 0 ?hops] by (simp_all add: less_imp_diff_less)
    then show ?thesis
      unfolding walk_distances [OF s(1) i] distance_between_def
      using g(1) distance_known [OF valid_some [OF g(1)] located_place] distance_known [OF located_place located_place]
      by auto
  qed
  then have "filter (\<lambda>h. ph_distance h \<noteq> None) ?hops = ?hops"
    by (simp add: all_set_conv_all_nth filter_id_conv)
  moreover have "last_leg r \<noteq> None"
    unfolding last_leg_def Let_def s(2,3)
    using g(2,3) distance_known [OF valid_some [OF g(1)] valid_some [OF g(2)]]
      distance_known [OF located_place valid_some [OF g(2)]] by auto
  ultimately show ?thesis by (auto simp: all_legs_def length_legs_shown)
qed

text \<open>A resolved path's total is the sum of what its rows show. From a located sender, the distance
  shown at a hop is the one from the node before it and is shown only when both are one known, located
  repeater (or the sender); the total is the sum of exactly these distances and the leg to
  the receiver, absent when there is none; and a path without gaps has one leg more than hops.\<close>

theorem total_is_sum_of_legs:
  assumes "isValidLocation (si_lat sender) (si_lon sender)"
  shows "let r = resolvePath path sender contacts config hopCount; hops = rp_hops r in
    rp_totalDistances r = (if all_legs r = [] then None else Some [sum_list (all_legs r)])
    \<and> (\<not> rp_hasGaps r \<longrightarrow> length (all_legs r) = length hops + 1)
    \<and> (\<forall>i. 0 < i \<and> i < length hops \<longrightarrow> ph_distance (hops ! i) = distance_between (hops ! (i - 1)) (hops ! i))
    \<and> map ph_prefix hops = parsePathHops path hopCount"
proof -
  define r where "r = resolvePath path sender contacts config hopCount"
  have h: "rp_hops r = resolve_loop contacts (si_lat sender) (si_lon sender)
      (\<not> isValidLocation (si_lat sender) (si_lon sender)) (parsePathHops path hopCount)"
    by (simp add: r_def resolvePath_def Let_def)
  have "map ph_prefix (resolve_loop contacts la lo u ps) = ps" for la lo u ps
    by (induction ps arbitrary: la lo u) (simp_all add: Let_def)
  then show ?thesis
    unfolding r_def [symmetric] Let_def
    using total_all_legs [OF assms r_def] gap_free_legs [OF r_def] walk_distances [OF h] h by simp
qed

definition sample_sender :: sender_info where
  "sample_sender = \<lparr>si_name = str ''a'', si_key = str ''ab'', si_lat = Some 51, si_lon = Some 5, si_pathHashMode = None\<rparr>"

theorem total_is_sum_of_legs_witness:
  "rp_totalDistances (resolvePath (Some (str ''abcd'')) sample_sender [] None (Some 2)) = None"
proof -
  have v: "isValidLocation (si_lat sample_sender) (si_lon sample_sender)"
    by (simp add: sample_sender_def isValidLocation_def)
  have "all_legs (resolvePath (Some (str ''abcd'')) sample_sender [] None (Some 2)) = []"
  proof -
    have "legs_shown (resolve_loop [] la lo u ps) = []" for la lo u ps
      by (induction ps arbitrary: la lo u)
        (simp_all add: findContactsByPrefix_def sortContactsByDistance_def located_hop_def Let_def)
    then show ?thesis by (simp add: all_legs_def last_leg_def resolvePath_def Let_def isValidLocation_def)
  qed
  then show ?thesis
    using total_is_sum_of_legs [OF v, of "Some (str ''abcd'')" "[]" None "Some 2"] by (simp add: Let_def)
qed

lemma first_located_skips:
  "\<forall>u \<in> set us. \<not> located_hop (ph_matches u) \<Longrightarrow> first_located (us @ hs) = first_located hs"
  by (induction us) auto

text \<open>From a sender without a place, the leg from the last hop to the receiver is lost when that
  hop is the first located one: both ends of the leg are known, and the same leg counts when any
  located repeater stands before it.\<close>

theorem unlocated_sender_loses_last_leg:
  assumes "\<not> isValidLocation (pe_lat tx) (pe_lon tx)" "isValidLocation (pe_lat rx) (pe_lon rx)"
    "\<forall>u \<in> set us. \<not> located_hop (ph_matches u)"
    "located_hop (ph_matches g)" "located_hop (ph_matches h)"
  shows "calculateTotalDistances tx (us @ [h]) rx = None
    \<and> calculateTotalDistances tx (us @ [g, h]) rx
      = Some [the (distance_between g h) + the (calculateDistance (hop_lat h) (hop_lon h) (pe_lat rx) (pe_lon rx))]"
proof -
  have "calculateDistance (hop_lat g) (hop_lon g) (hop_lat h) (hop_lon h) \<noteq> None"
    "calculateDistance (hop_lat h) (hop_lon h) (pe_lat rx) (pe_lon rx) \<noteq> None"
    using located_place [OF assms(4)] located_place [OF assms(5)] valid_some [OF assms(2)]
    unfolding calculateDistance_some by blast+
  then show ?thesis
    using assms located_place [OF assms(4)] located_place [OF assms(5)]
    by (auto simp: calculateTotalDistances_def first_located_skips distance_between_def
        hop_lat_def [symmetric] hop_lon_def [symmetric] Let_def)
qed

definition known_repeater :: contact where
  "known_repeater =
     \<lparr>ct_public_key = str ''abcd'', ct_type = 2, ct_direct_path = None, ct_direct_path_len = -1,
      ct_direct_path_hash_mode = None, ct_route_override_path = None, ct_route_override_len = None,
      ct_route_override_hash_mode = None, ct_effective_route = None, ct_effective_route_source = None,
      ct_direct_route = None, ct_route_override = None, ct_lat = Some 51, ct_lon = Some 5,
      ct_manual_lat = None, ct_manual_lon = None\<rparr>"

definition known_hop :: path_hop where
  "known_hop = \<lparr>ph_prefix = str ''AB'', ph_matches = [known_repeater], ph_distance = None\<rparr>"

theorem unlocated_sender_loses_last_leg_witness:
  "let rx = \<lparr>pe_name = [], pe_prefix = [], pe_lat = Some 52, pe_lon = Some 5\<rparr>;
       tx = \<lparr>pe_name = [], pe_prefix = [], pe_lat = None, pe_lon = None\<rparr>
   in calculateTotalDistances tx [known_hop] rx = None
      \<and> calculateTotalDistances tx [known_hop, known_hop] rx \<noteq> None"
proof -
  have "located_hop (ph_matches known_hop)"
    by (simp add: located_hop_def known_hop_def known_repeater_def isValidLocation_def)
  then show ?thesis
    using unlocated_sender_loses_last_leg [of "\<lparr>pe_name = [], pe_prefix = [], pe_lat = None, pe_lon = None\<rparr>"
        "\<lparr>pe_name = [], pe_prefix = [], pe_lat = Some 52, pe_lon = Some 5\<rparr>" "[]" known_hop known_hop]
    by (simp add: isValidLocation_def Let_def)
qed

subsection \<open>Hops\<close>

lemma hop_loop_parts:
  assumes "0 < w" "length s mod w = 0"
  shows "concat (hop_loop w s) = s \<and> (\<forall>h \<in> set (hop_loop w s). length h = w)
    \<and> length (hop_loop w s) = length s div w"
  using assms
proof (induction w s rule: hop_loop.induct)
  case (1 w s)
  show ?case
  proof (cases "length s < w")
    case True
    with 1(2,3) have "s = []" by simp
    with 1(2) show ?thesis by (simp add: hop_loop.simps [of w "[]"])
  next
    case False
    define t where "t = drop w s"
    have hl: "hop_loop w s = take w s # hop_loop w t"
      using False 1(2) by (simp add: hop_loop.simps [of w s] t_def)
    have lt: "length s = w + length t" using False by (simp add: t_def)
    have "length t mod w = 0" using 1(3) by (simp add: lt)
    moreover have nz: "\<not> (w = 0 \<or> length s < w)" using False 1(2) by simp
    ultimately have ih: "concat (hop_loop w t) = t \<and> (\<forall>h \<in> set (hop_loop w t). length h = w)
      \<and> length (hop_loop w t) = length t div w"
      unfolding t_def by (intro 1(1) [OF nz 1(2)])
    have "length s div w = Suc (length t div w)" using 1(2) by (simp add: lt)
    moreover have "take w s @ t = s" by (simp add: t_def)
    ultimately show ?thesis using ih False by (simp add: hl)
  qed
qed

lemma chars_per_hop_divides:
  assumes "even (length s)"
  shows "0 < chars_per_hop s n \<and> length s mod chars_per_hop s n = 0"
proof (cases "chars_per_hop s n = 2")
  case True
  with assms show ?thesis by (simp add: even_iff_mod_2_eq_zero)
next
  case False
  then obtain h where h: "0 < h" "int (length s) mod h = 0" "int (length s) div h \<ge> 2"
    and w: "chars_per_hop s n = nat (int (length s) div h)"
    by (auto simp: chars_per_hop_def split: option.splits if_splits)
  define k where "k = nat h"
  have k: "h = int k" using h(1) by (simp add: k_def)
  have d: "chars_per_hop s n = length s div k" by (simp add: w k nat_div_distrib)
  have "k dvd length s" using h(2) by (simp add: k flip: dvd_eq_mod_eq_0)
  then have "length s = length s div k * k" by simp
  then have "(length s div k) dvd length s" by (metis dvd_triv_left)
  moreover have "0 < length s div k" using h(3) unfolding k by (simp flip: of_nat_div)
  ultimately show ?thesis by (simp add: d)
qed

text \<open>A path of whole bytes is cut into hops of one width without losing a character.\<close>

lemma parsePathHops_cuts:
  assumes "even (length p)"
  shows "concat (parsePathHops (Some p) n) = toUpperCase p
    \<and> (\<forall>h \<in> set (parsePathHops (Some p) n). length h = chars_per_hop (toUpperCase p) n)"
proof (cases "p = []")
  case True
  then show ?thesis by (simp add: parsePathHops_def toUpperCase_def)
next
  case False
  have "even (length (toUpperCase p))" using assms by simp
  from hop_loop_parts [OF conjunct1 [OF chars_per_hop_divides [OF this]] conjunct2 [OF chars_per_hop_divides [OF this]]]
  show ?thesis using False by (simp only: parsePathHops_def option.case if_False Let_def) blast
qed

text \<open>A message is hidden by hop width only when one of its paths has a hidden width; a message without
  a derivable width stays.\<close>

lemma set_map_filter_iff: "y \<in> set (List.map_filter f xs) \<longleftrightarrow> (\<exists>x \<in> set xs. f x = Some y)"
  by (induction xs) (auto simp: map_filter_simps split: option.split)

definition width_of :: "message_path \<Rightarrow> int option" where
  "width_of p = inferPathHashMode (Some (mp_path p)) (map_option int (mp_path_len p))"

lemma hidden_by_a_width:
  "isMessageHiddenByHopWidth (Some ps) hidden \<longleftrightarrow>
     (\<exists>m. (\<exists>p \<in> set ps. width_of p = Some m) \<and> m + 1 \<in> set hidden)"
proof -
  have "isMessageHiddenByHopWidth (Some ps) hidden \<longleftrightarrow> (\<exists>w \<in> set (pathHopWidths (Some ps)). w \<in> set hidden)"
    by (auto simp: isMessageHiddenByHopWidth_def list_ex_iff Let_def)
  also have "set (pathHopWidths (Some ps)) = (\<lambda>m. m + 1) ` set (List.map_filter width_of ps)"
    by (simp add: pathHopWidths_def width_of_def [abs_def])
  finally show ?thesis by (simp add: Bex_def set_map_filter_iff)
qed

end
