(* ===== verification/Decoder.thy ===== *)
theory Decoder
imports Json Packet
begin

text \<open>What the packet decoder library hands over. The library is not part of the repository: a decoder is a
  parameter of what uses it, a function from the packet's text to this record, \<open>None\<close> when it
  throws. The payload's own fields are a JSON value, read by name; the numbers of the payload and
  route types are those of the frame header (also \<^verbatim>\<open>app/decoder.py\<close>).\<close>

record decoded_packet =
  dp_isValid :: bool
  dp_payloadVersion :: nat
  dp_payloadType :: nat
  dp_routeType :: nat
  dp_pathLength :: nat
  dp_totalBytes :: "nat option"
  dp_path :: "jstr list option"
  dp_pathHashSize :: "nat option"
  dp_raw :: jstr
  dp_decoded :: "json option"

definition PT_Request :: nat where "PT_Request = 0"
definition PT_Response :: nat where "PT_Response = 1"
definition PT_TextMessage :: nat where "PT_TextMessage = 2"
definition PT_Advert :: nat where "PT_Advert = 4"
definition PT_GroupText :: nat where "PT_GroupText = 5"
definition PT_AnonRequest :: nat where "PT_AnonRequest = 7"
definition PT_Trace :: nat where "PT_Trace = 9"
definition RT_TransportFlood :: nat where "RT_TransportFlood = 0"
definition RT_Flood :: nat where "RT_Flood = 1"

lemmas decoder_numbers =
  PT_Request_def PT_Response_def PT_TextMessage_def PT_Advert_def PT_GroupText_def PT_AnonRequest_def
  PT_Trace_def RT_TransportFlood_def RT_Flood_def

text \<open>A non-empty string field of a decoded payload.\<close>

definition text_field :: "json option \<Rightarrow> jstr option" where
  "text_field v = (case v of Some (JStr s) \<Rightarrow> if s = [] then None else Some s | _ \<Rightarrow> None)"

definition payload_field :: "decoded_packet \<Rightarrow> string \<Rightarrow> json option" where
  "payload_field d k = (case dp_decoded d of None \<Rightarrow> None | Some j \<Rightarrow> json_prop j (str k))"

end
