(* ===== verification/Foreign.thy ===== *)
theory Foreign
imports Decoder
begin

text \<open>Packets of other firmwares that the app labels (\<^verbatim>\<open>frontend/src/utils/fuotaPayload.ts\<close>,
  \<^verbatim>\<open>frontend/src/utils/thirdPartyPackets.ts\<close>): firmware updates over the air (FUOTA), MeshCoreNG's
  location and atlas, CubeCell's discovery answer, and the table of raw custom payloads, each with its
  breakdown into byte fields (\<^verbatim>\<open>PacketByteField\<close> of \<^verbatim>\<open>rawPacketInspector.ts\<close>, without the two fields only
  other breakdowns set). \<open>toFixed\<close> is the number method, on reals.\<close>

subsection \<open>Numbers and bytes\<close>

definition toFixed :: "real \<Rightarrow> nat \<Rightarrow> jstr" where
  "toFixed x f =
     (let n = nat \<lfloor>\<bar>x\<bar> * 10 ^ f + 1 / 2\<rfloor>;
          m = padStart (f + 1) 48 (decimal n);
          k = length m;
          body = (if f = 0 then m else take (k - f) m @ str ''.'' @ drop (k - f) m)
      in if x < 0 then 45 # body else body)"

definition hexBytes :: "jstr \<Rightarrow> bytes option" where
  "hexBytes txt =
     (if length txt mod 2 \<noteq> 0 \<or> \<not> list_all is_hex txt then None else Some (hexToBytes txt))"

fun le_bytes :: "bytes \<Rightarrow> nat \<Rightarrow> nat \<Rightarrow> nat" where
  "le_bytes bs start 0 = 0"
| "le_bytes bs start (Suc n) = le_bytes bs (start + 1) n * 256 + unat (bs ! start)"

fun ube_loop :: "bytes \<Rightarrow> nat \<Rightarrow> nat \<Rightarrow> nat \<Rightarrow> nat" where
  "ube_loop bs start 0 v = v"
| "ube_loop bs start (Suc n) v = ube_loop bs (start + 1) n (v * 256 + unat (bs ! start))"

definition ube :: "bytes \<Rightarrow> nat \<Rightarrow> nat \<Rightarrow> nat" where
  "ube bs start size' = ube_loop bs start size' 0"

definition sbe :: "bytes \<Rightarrow> nat \<Rightarrow> nat \<Rightarrow> int" where
  "sbe bs start size' =
     (let v = int (ube bs start size'); top = 2 ^ (size' * 8) in if v \<ge> top div 2 then v - top else v)"

definition ascii :: "bytes \<Rightarrow> jstr" where "ascii bs = map unat bs"

definition byte_at :: "bytes \<Rightarrow> nat \<Rightarrow> nat" where "byte_at bs i = unat (bs ! i)"

record byte_field =
  bf_id :: jstr
  bf_scope :: jstr
  bf_name :: jstr
  bf_description :: jstr
  bf_value :: jstr
  bf_start :: nat
  bf_end :: nat
  bf_absStart :: int
  bf_absEnd :: int

subsection \<open>FUOTA\<close>

datatype fuota_kind = Offer | FRequest | FData | Retract

record fuota_message =
  fm_kind :: fuota_kind
  fm_sender :: jstr
  fm_campaign :: "jstr option"
  fm_manifestLen :: "nat option"
  fm_patchSize :: "nat option"
  fm_target :: "nat option"
  fm_build :: "nat option"
  fm_sourcePrefix :: "jstr option"
  fm_tail :: "jstr option"
  fm_block :: "nat option"
  fm_missingMask :: "nat option"
  fm_fragment :: "nat option"
  fm_dataLen :: "nat option"
  fm_payloadLen :: nat

definition FUOTA_TYPE_NAME :: jstr where "FUOTA_TYPE_NAME = str ''FUOTA''"
definition FUOTA_PAYLOAD_TYPE :: nat where "FUOTA_PAYLOAD_TYPE = 14"
definition FUOTA_ROUTE_DIRECT :: nat where "FUOTA_ROUTE_DIRECT = 2"
definition PAYLOAD_OFFSET :: nat where "PAYLOAD_OFFSET = 2"

definition ASSUMED_LE :: jstr where
  "ASSUMED_LE = (str ''Byte order assumed little-endian (not stated in the protocol draft).'')"

fun KIND_LABEL :: "fuota_kind \<Rightarrow> jstr" where
  "KIND_LABEL Offer = str ''Offer''"
| "KIND_LABEL FRequest = str ''Request''"
| "KIND_LABEL FData = str ''Data''"
| "KIND_LABEL Retract = str ''Retract''"

definition fuota_empty :: "fuota_kind \<Rightarrow> bytes \<Rightarrow> fuota_message" where
  "fuota_empty kind p =
     \<lparr>fm_kind = kind, fm_sender = hex2 (byte_at p 1),
      fm_campaign = (if kind = Retract then None else Some (bytesToHex (subarr 2 6 p))),
      fm_manifestLen = None, fm_patchSize = None, fm_target = None, fm_build = None,
      fm_sourcePrefix = None, fm_tail = None, fm_block = None, fm_missingMask = None,
      fm_fragment = None, fm_dataLen = None, fm_payloadLen = length p\<rparr>"

definition parseFuotaPayload :: "bytes \<Rightarrow> fuota_message option" where
  "parseFuotaPayload p =
     (let n = length p in
      if n < 2 then None
      else
        let kind = byte_at p 0 in
        if kind = 1 \<and> n = 30 then
          Some ((fuota_empty Offer p)
            \<lparr>fm_manifestLen := Some (le_bytes p 6 2), fm_patchSize := Some (le_bytes p 8 4),
             fm_target := Some (le_bytes p 12 4), fm_build := Some (le_bytes p 16 4),
             fm_sourcePrefix := Some (bytesToHex (subarr 20 28 p)),
             fm_tail := Some (bytesToHex (subarr 28 30 p))\<rparr>)
        else if kind = 2 \<and> n = 12 then
          Some ((fuota_empty FRequest p)
            \<lparr>fm_block := Some (le_bytes p 6 2), fm_missingMask := Some (le_bytes p 8 2),
             fm_tail := Some (bytesToHex (subarr 10 12 p))\<rparr>)
        else if kind = 3 \<and> n > 8 \<and> n \<le> 184 then
          Some ((fuota_empty FData p)\<lparr>fm_fragment := Some (le_bytes p 6 2), fm_dataLen := Some (n - 8)\<rparr>)
        else if kind = 4 \<and> n = 82 then Some (fuota_empty Retract p)
        else None)"

definition parseFuotaPacket :: "jstr \<Rightarrow> fuota_message option" where
  "parseFuotaPacket rawHex =
     (case hexBytes rawHex of
        None \<Rightarrow> None
      | Some bs \<Rightarrow>
          if length bs < PAYLOAD_OFFSET + 1 then None
          else
            let header = byte_at bs 0;
                version = header div 64;
                payloadType = header div 4 mod 16;
                route = header mod 4;
                hops = byte_at bs 1 mod 64
            in if version \<noteq> 0 \<or> payloadType \<noteq> FUOTA_PAYLOAD_TYPE \<or> route \<noteq> FUOTA_ROUTE_DIRECT \<or> hops \<noteq> 0
            then None
            else parseFuotaPayload (drop PAYLOAD_OFFSET bs))"

definition fuotaFromDecoded :: "decoded_packet \<Rightarrow> fuota_message option" where
  "fuotaFromDecoded d =
     (if \<not> dp_isValid d \<or> dp_payloadVersion d \<noteq> 0 \<or> dp_payloadType d \<noteq> FUOTA_PAYLOAD_TYPE
        \<or> dp_routeType d \<noteq> FUOTA_ROUTE_DIRECT \<or> dp_pathLength d \<noteq> 0
      then None
      else case hexBytes (dp_raw d) of None \<Rightarrow> None | Some bs \<Rightarrow> parseFuotaPayload bs)"

text \<open>A number in a template literal; \<^verbatim>\<open>null\<close> reads \<open>null\<close>.\<close>

definition opt_number :: "nat option \<Rightarrow> jstr" where
  "opt_number v = (case v of None \<Rightarrow> str ''null'' | Some n \<Rightarrow> decimal n)"

definition opt_string :: "jstr option \<Rightarrow> jstr" where
  "opt_string v = (case v of None \<Rightarrow> str ''null'' | Some s \<Rightarrow> s)"

definition SEPARATOR :: jstr where "SEPARATOR = (str '' '' @ [183] @ str '' '')"

definition fuotaSummary :: "fuota_message \<Rightarrow> jstr" where
  "fuotaSummary msg =
     join_with SEPARATOR
       ([FUOTA_TYPE_NAME @ str '' '' @ KIND_LABEL (fm_kind msg)]
        @ (if fm_kind msg = Retract then [(str ''signed retract (not verified)'')]
           else [(str ''campaign '') @ opt_string (fm_campaign msg)]
             @ (if fm_kind msg = Offer then [(str ''build '') @ opt_number (fm_build msg)] else [])
             @ (if fm_kind msg = FData then [(str ''fragment '') @ opt_number (fm_fragment msg)] else [])
             @ (if fm_kind msg = FRequest then [(str ''block '') @ opt_number (fm_block msg)] else []))
        @ [(str ''from '') @ fm_sender msg])"

definition fuota_field :: "jstr \<Rightarrow> jstr \<Rightarrow> jstr \<Rightarrow> jstr \<Rightarrow> nat \<Rightarrow> nat \<Rightarrow> byte_field" where
  "fuota_field i name description v startByte endByte =
     \<lparr>bf_id = (str ''fuota-'') @ i, bf_scope = (str ''payload''), bf_name = name,
      bf_description = description, bf_value = v, bf_start = startByte, bf_end = endByte,
      bf_absStart = int (PAYLOAD_OFFSET + startByte), bf_absEnd = int (PAYLOAD_OFFSET + endByte)\<rparr>"

definition or_blank :: "jstr option \<Rightarrow> jstr" where
  "or_blank v = (case v of None \<Rightarrow> [] | Some s \<Rightarrow> s)"

definition fuota_head_fields :: "fuota_message \<Rightarrow> byte_field list" where
  "fuota_head_fields msg =
     [fuota_field (str ''kind'') (str ''Kind'') (str ''1 Offer, 2 Request, 3 Data, 4 Retract'') (KIND_LABEL (fm_kind msg)) 0 0,
      fuota_field (str ''sender'') (str ''Sender'')
        (str ''First byte of the sender's public key (unsigned). FUOTA is never forwarded, so this is a direct neighbour.'')
        (fm_sender msg) 1 1]"

definition fuotaPayloadFields :: "fuota_message \<Rightarrow> byte_field list" where
  "fuotaPayloadFields msg =
     (if fm_kind msg = Retract then
        fuota_head_fields msg
        @ [fuota_field (str ''retract'') (str ''Signed retract'')
             (str ''Stops a build. Signed with the release key, which is not public, so this is not verified.'')
             (decimal (fm_payloadLen msg - 2) @ (str '' bytes'')) 2 (fm_payloadLen msg - 1)]
      else
        fuota_head_fields msg
        @ [fuota_field (str ''campaign'') (str ''Campaign ID'') (str ''First 4 bytes of SHA-256 of the signed manifest.'')
             (or_blank (fm_campaign msg)) 2 5]
        @ (case fm_kind msg of
             Offer \<Rightarrow>
               [fuota_field (str ''manifest'') (str ''Manifest length'') ASSUMED_LE (opt_number (fm_manifestLen msg)) 6 7,
                fuota_field (str ''patch'') (str ''Patch size'') ((str ''Bytes. '') @ ASSUMED_LE) (opt_number (fm_patchSize msg)) 8 11,
                fuota_field (str ''target'') (str ''Target'') ((str ''Board or hardware target. '') @ ASSUMED_LE)
                  (opt_number (fm_target msg)) 12 15,
                fuota_field (str ''build'') (str ''Build'') ((str ''Build number being offered. '') @ ASSUMED_LE)
                  (opt_number (fm_build msg)) 16 19,
                fuota_field (str ''source'') (str ''Source image'')
                  (str ''First 8 bytes of SHA-256 of the running image this patch applies to.'')
                  (or_blank (fm_sourcePrefix msg)) 20 27,
                fuota_field (str ''tail'') (str ''Pages + nonce'') (str ''Split not published; shown raw.'') (or_blank (fm_tail msg)) 28 29]
           | FRequest \<Rightarrow>
               [fuota_field (str ''block'') (str ''Block'') ((str ''Block of 16 fragments. '') @ ASSUMED_LE)
                  (opt_number (fm_block msg)) 6 7,
                fuota_field (str ''mask'') (str ''Missing mask'') ((str ''Bitmap of missing fragments. '') @ ASSUMED_LE)
                  (opt_number (fm_missingMask msg)) 8 9,
                fuota_field (str ''tail'') (str ''Target + nonce'')
                  (str ''Provider asked (0xFF = anyone) and nonce; split not published, shown raw.'')
                  (or_blank (fm_tail msg)) 10 11]
           | _ \<Rightarrow>
               [fuota_field (str ''fragment'') (str ''Fragment'') ASSUMED_LE (opt_number (fm_fragment msg)) 6 7,
                fuota_field (str ''data'') (str ''Fragment data'') (str ''Patch or manifest bytes.'')
                  (opt_number (fm_dataLen msg) @ (str '' bytes'')) 8 (fm_payloadLen msg - 1)]))"

subsection \<open>Third-party formats\<close>

record third_party =
  tp_typeName :: jstr
  tp_summary :: jstr
  tp_headerTypeLabel :: "jstr option"
  tp_fields :: "byte_field list"

definition MESHCORENG_TYPE_NAME :: jstr where "MESHCORENG_TYPE_NAME = (str ''MeshCoreNG'')"
definition PAYLOAD_CONTROL :: nat where "PAYLOAD_CONTROL = 11"
definition PAYLOAD_ATLAS :: nat where "PAYLOAD_ATLAS = 12"
definition PAYLOAD_LOCATION :: nat where "PAYLOAD_LOCATION = 13"
definition PAYLOAD_RAW_CUSTOM :: nat where "PAYLOAD_RAW_CUSTOM = 15"

text \<open>\<^verbatim>\<open>name.toLowerCase().replace(/[^a-z0-9]+/g, '-')\<close>: each run of other characters is one dash.\<close>

definition slug_char :: "nat \<Rightarrow> bool" where
  "slug_char c \<longleftrightarrow> (97 \<le> c \<and> c \<le> 122) \<or> (48 \<le> c \<and> c \<le> 57)"

fun slug_go :: "bool \<Rightarrow> jstr \<Rightarrow> jstr" where
  "slug_go inRun [] = []"
| "slug_go inRun (c # s) =
     (if slug_char c then c # slug_go False s
      else if inRun then slug_go True s else 45 # slug_go True s)"

definition field_of :: "int \<Rightarrow> jstr \<Rightarrow> jstr \<Rightarrow> jstr \<Rightarrow> nat \<Rightarrow> nat \<Rightarrow> byte_field" where
  "field_of offset name description v start end' =
     \<lparr>bf_id = (str ''third-party-'') @ slug_go False (toLowerCase name), bf_scope = (str ''payload''),
      bf_name = name, bf_description = description, bf_value = v, bf_start = start, bf_end = end',
      bf_absStart = offset + int start, bf_absEnd = offset + int end'\<rparr>"

definition mcl1 :: "bytes \<Rightarrow> int \<Rightarrow> third_party option" where
  "mcl1 p offset =
     (if length p < 32 \<or> ascii (take 4 p) \<noteq> (str ''MCL1'') \<or> byte_at p 4 \<noteq> 1 then None
      else
        let nameLen = byte_at p 31 in
        if nameLen > 24 \<or> length p \<noteq> 32 + nameLen then None
        else
          let f = field_of offset;
              lat = real_of_int (sbe p 10 4) / 1000000;
              lon = real_of_int (sbe p 14 4) / 1000000;
              name = utf8_decode (drop 32 p);
              node = bytesToHex (subarr 6 10 p);
              parts = [(str ''MeshCoreNG Location''), (str ''node '') @ node, toFixed lat 6 @ (str '', '') @ toFixed lon 6]
                @ (if name \<noteq> [] then [name] else [])
          in Some
            \<lparr>tp_typeName = MESHCORENG_TYPE_NAME, tp_summary = join_with SEPARATOR parts,
             tp_headerTypeLabel = Some (str ''MeshCoreNG Location (not official)''),
             tp_fields =
               [f (str ''Magic'') (str ''MeshCoreNG compact tracker report'') (str ''MCL1'') 0 3,
                f (str ''Version'') [] (decimal (byte_at p 4)) 4 4,
                f (str ''Flags'') (str ''Reserved'') (decimal (byte_at p 5)) 5 5,
                f (str ''Node ID'') (str ''First 4 bytes of the sender's public key'') node 6 9,
                f (str ''Latitude'') (str ''Signed microdegrees, big-endian'') (toFixed lat 6) 10 13,
                f (str ''Longitude'') (str ''Signed microdegrees, big-endian'') (toFixed lon 6) 14 17,
                f (str ''Altitude'') (str ''Metres'') (decimal_int (sbe p 18 2) @ (str '' m'')) 18 19,
                f (str ''Speed'') (str ''Centimetres per second'') (decimal (ube p 20 2) @ (str '' cm/s'')) 20 21,
                f (str ''Heading'') (str ''Centidegrees'') (toFixed (real (ube p 22 2) / 100) 2 @ ([176])) 22 23,
                f (str ''Satellites'') [] (decimal (byte_at p 24)) 24 24,
                f (str ''Battery'') [] (decimal (ube p 25 2) @ (str '' mV'')) 25 26,
                f (str ''Time'') (str ''Unix time from the node clock'') (decimal (ube p 27 4)) 27 30,
                f (str ''Name length'') (str ''0-24'') (decimal nameLen) 31 31]
               @ (if nameLen > 0 then [f (str ''Name'') (str ''UTF-8'') name 32 (31 + nameLen)] else [])\<rparr>)"

fun ATLAS_SUBTYPE :: "nat \<Rightarrow> jstr" where
  "ATLAS_SUBTYPE n =
     (if n = 1 then (str ''position'') else if n = 2 then (str ''neighbours'')
      else if n = 3 then (str ''path sample'') else if n = 4 then (str ''stats'') else (str ''undefined''))"

definition atlas_valid :: "bytes \<Rightarrow> bool" where
  "atlas_valid p =
     (let sub = byte_at p 0; n = length p in
      if sub = 1 \<and> n \<ge> 2 then
        (let flags = byte_at p 1 mod 8
         in n = 14 + 2 * (flags mod 2 + flags div 2 mod 2 + flags div 4 mod 2))
      else if sub = 2 \<and> n \<ge> 2 then byte_at p 1 \<le> 12 \<and> n = 2 + 10 * byte_at p 1
      else if sub = 3 \<and> n \<ge> 10 then
        (let hops = byte_at p 9 in
         if hops \<le> 24 \<and> n \<ge> 11 + hops then
           (let hasLatency = byte_at p (10 + hops)
            in (hasLatency = 0 \<or> hasLatency = 1) \<and> n = 11 + hops + 4 * hasLatency)
         else False)
      else if sub = 4 then n = 33
      else False)"

definition atlas :: "bytes \<Rightarrow> int \<Rightarrow> third_party option" where
  "atlas p offset =
     (if p = [] \<or> \<not> atlas_valid p then None
      else
        let sub = byte_at p 0; n = length p; f = field_of offset in
        Some
          \<lparr>tp_typeName = MESHCORENG_TYPE_NAME,
           tp_summary = (str ''MeshCoreNG Atlas '' @ [183] @ str '' '') @ ATLAS_SUBTYPE sub,
           tp_headerTypeLabel = Some (str ''MeshCoreNG Atlas (not official)''),
           tp_fields =
             [f (str ''Atlas type'') (str ''1 position, 2 neighbours, 3 path sample, 4 stats'') (ATLAS_SUBTYPE sub) 0 0,
              f (str ''Atlas data'') (str ''Little-endian fields (src/helpers/Atlas.cpp)'') (decimal (n - 1) @ (str '' bytes'')) 1 (n - 1)]\<rparr>)"

definition cubecellDiscover :: "bytes \<Rightarrow> int \<Rightarrow> third_party option" where
  "cubecellDiscover p offset =
     (if length p \<noteq> 15 \<or> byte_at p 0 \<noteq> 129 then None
      else
        let f = field_of offset;
            key = bytesToHex (subarr 7 15 p);
            role = (if byte_at p 1 = 2 then (str ''repeater'') else (str ''type '') @ decimal (byte_at p 1))
        in Some
          \<lparr>tp_typeName = (str ''Control''),
           tp_summary = (str ''Discovery response (CubeCell layout) '' @ [183] @ str '' '') @ role @ (str '' '' @ [183] @ str '' SNR '') @ decimal (byte_at p 2)
             @ (str '' '' @ [183] @ str '' key '') @ key,
           tp_headerTypeLabel = None,
           tp_fields =
             [f (str ''Response flag'')
                (str ''CubeCell sends 0x81. Upstream answers with 0x90 | node type and reads 0x8x as a discovery request.'')
                (str ''0x81'') 0 0,
              f (str ''Node type'') (str ''2 = repeater'') (decimal (byte_at p 1)) 1 1,
              f (str ''SNR'') (str ''Inbound SNR as CubeCell sends it (raw byte)'') (decimal (byte_at p 2)) 2 2,
              f (str ''Tag'') (str ''The request's tag, little-endian'') (bytesToHex (subarr 3 7 p)) 3 6,
              f (str ''Key prefix'') (str ''First 8 bytes of the public key'') key 7 14]\<rparr>)"

definition unknown_of :: "jstr \<Rightarrow> byte_field list \<Rightarrow> third_party" where
  "unknown_of summary fields' =
     \<lparr>tp_typeName = (str ''Unknown''), tp_summary = summary, tp_headerTypeLabel = None, tp_fields = fields'\<rparr>"

definition sar_fragment :: "bytes \<Rightarrow> int \<Rightarrow> third_party" where
  "sar_fragment p offset =
     (let f = field_of offset; b0 = byte_at p 0; n = length p; sid = bytesToHex (subarr 1 5 p);
          what = (if b0 = 86 then (str ''voice'') else (str ''image''))
      in unknown_of ((str ''MeshCore SAR '') @ what @ (str '' fragment '' @ [183] @ str '' session '') @ sid @ (str '' '' @ [183] @ str '' #'') @ decimal (byte_at p 5))
        [f (str ''Magic'') (if b0 = 86 then ([39] @ str ''V' voice (Codec2)'') else ([39] @ str ''I' image (AVIF)'')) (bytesToHex (take 1 p)) 0 0,
         f (str ''Session'') [] sid 1 4,
         f (str ''Index'') [] (decimal (byte_at p 5)) 5 5,
         f (str ''Data'') [] (decimal (n - 6) @ (str '' bytes'')) 6 (n - 1)])"

definition sar_fetch :: "bytes \<Rightarrow> int \<Rightarrow> third_party" where
  "sar_fetch p offset =
     (let f = field_of offset; b0 = byte_at p 0; n = length p; sid = bytesToHex (subarr 1 5 p);
          what = (if b0 = 114 then (str ''voice'') else (str ''image''))
      in unknown_of
        ((str ''MeshCore SAR '') @ what @ (str '' fetch '' @ [183] @ str '' session '') @ sid @ (str '' '' @ [183] @ str '' '') @ decimal (byte_at p 12) @ (str '' missing''))
        [f (str ''Magic'') ([39] @ [b0] @ [39] @ (str '' '') @ what @ (str '' fetch request'')) (bytesToHex (take 1 p)) 0 0,
         f (str ''Session'') [] sid 1 4,
         f (str ''Flags'') [] (decimal (byte_at p 5)) 5 5,
         f (str ''Requester'') (str ''Key prefix'') (bytesToHex (subarr 6 12 p)) 6 11,
         f (str ''Missing'') (str ''Fragment indices'') (decimal (byte_at p 12)) 12 (n - 1)])"

definition sar_swarm :: "bytes \<Rightarrow> int \<Rightarrow> nat \<Rightarrow> third_party" where
  "sar_swarm p offset kind =
     (let f = field_of offset; swarmSid = bytesToHex (subarr 3 7 p)
      in if kind = 1 then
        unknown_of ((str ''MeshCore SAR swarm request '' @ [183] @ str '' session '') @ swarmSid)
          [f (str ''Magic'') ([39] @ str ''m' swarm'') (str ''6d'') 0 0,
           f (str ''Kind'') (str ''1 ask, 2 have'') (str ''1'') 1 1,
           f (str ''Session'') [] swarmSid 3 6,
           f (str ''Requester'') (str ''Key prefix'') (bytesToHex (subarr 7 13 p)) 7 12]
      else
        unknown_of ((str ''MeshCore SAR swarm answer '' @ [183] @ str '' session '') @ swarmSid)
          [f (str ''Magic'') ([39] @ str ''m' swarm'') (str ''6d'') 0 0,
           f (str ''Kind'') (str ''1 ask, 2 have'') (str ''2'') 1 1,
           f (str ''Session'') [] swarmSid 3 6,
           f (str ''Responder'') (str ''Key prefix'') (bytesToHex (subarr 13 19 p)) 13 18])"

definition sigurd :: "bytes \<Rightarrow> int \<Rightarrow> third_party option" where
  "sigurd p offset =
     (let f = field_of offset; n = length p; rest = ascii (drop 1 p) in
      if startsWith rest (str ''ING:'') then
        Some (unknown_of ((str ''SigurdOS ping '' @ [183] @ str '' tag '') @ drop 4 rest)
          [f (str ''Marker'') ([39] @ str ''P' with bit 7 set, zero hop'') (str ''0xD0'') 0 0,
           f (str ''Text'') [] ((str ''PING:'') @ drop 4 rest) 1 (n - 1)])
      else if startsWith rest (str ''ONG:'') then
        (let cells = split_on 58 (drop 4 rest);
             tag = hd cells;
             name = (if length cells > 1 then cells ! 1 else []);
             rssi = (if length cells > 2 then cells ! 2 else []);
             parts = [(str ''SigurdOS pong''), (str ''tag '') @ tag] @ (if name \<noteq> [] then [name] else [])
               @ (if rssi \<noteq> [] then [rssi @ (str '' dBm'')] else [])
         in Some (unknown_of (join_with SEPARATOR parts)
          [f (str ''Marker'') ([39] @ str ''P' with bit 7 set, zero hop'') (str ''0xD0'') 0 0,
           f (str ''Text'') (str ''Tag, responder name and the RSSI it heard'') ((str ''PONG:'') @ drop 4 rest) 1 (n - 1)]))
      else None)"

definition reticulum :: "bytes \<Rightarrow> int \<Rightarrow> third_party" where
  "reticulum p offset =
     (let f = field_of offset; n = length p; pkt = bytesToHex (subarr 5 7 p)
      in unknown_of
        ((str ''Reticulum fragment (likely) '' @ [183] @ str '' packet '') @ pkt @ (str '' '' @ [183] @ str '' '') @ decimal (byte_at p 7 + 1) @ (str ''/'') @ decimal (byte_at p 8))
        [f (str ''Version + flags'') (str ''v2 << 4 | parity 0x08 | report 0x04 | attempt'') (bytesToHex (take 1 p)) 0 0,
         f (str ''Destination'') (str ''Key prefix'') (bytesToHex (subarr 1 3 p)) 1 2,
         f (str ''Source'') (str ''Key prefix'') (bytesToHex (subarr 3 5 p)) 3 4,
         f (str ''Packet ID'') (str ''Big-endian'') pkt 5 6,
         f (str ''Fragment'') (str ''Index (or parity coverage mask)'') (decimal (byte_at p 7)) 7 7,
         f (str ''Fragments'') (str ''Total'') (decimal (byte_at p 8)) 8 8,
         f (str ''RNS chunk'') [] (decimal (n - 9) @ (str '' bytes'')) 9 (n - 1)])"

text \<open>The table of first bytes, tried in order; a SigurdOS marker without its text falls through.\<close>

definition rawCustom :: "bytes \<Rightarrow> int \<Rightarrow> third_party option" where
  "rawCustom p offset =
     (if p = [] then None
      else
        let b0 = byte_at p 0; n = length p in
        if (b0 = 86 \<or> b0 = 73) \<and> n \<ge> 7 \<and> (b0 = 86 \<or> n \<le> 158) then Some (sar_fragment p offset)
        else if (b0 = 114 \<or> b0 = 105) \<and> n \<ge> 13 \<and> n = 13 + byte_at p 12 then Some (sar_fetch p offset)
        else if b0 = 109 \<and> n \<ge> 14 \<and> byte_at p 1 = 1 \<and> n = 14 + byte_at p 13 then Some (sar_swarm p offset 1)
        else if b0 = 109 \<and> n \<ge> 14 \<and> byte_at p 1 = 2 \<and> n \<ge> 20 \<and> n = 20 + byte_at p 19
        then Some (sar_swarm p offset 2)
        else if b0 = 208 \<and> n \<ge> 5 \<and> sigurd p offset \<noteq> None then sigurd p offset
        else if b0 div 16 = 2 \<and> n \<ge> 10 then Some (reticulum p offset)
        else None)"

definition recognizeThirdParty :: "decoded_packet \<Rightarrow> third_party option" where
  "recognizeThirdParty d =
     (if \<not> dp_isValid d \<or> dp_payloadVersion d \<noteq> 0 then None
      else case hexBytes (dp_raw d) of
        None \<Rightarrow> None
      | Some p \<Rightarrow>
          let offset = (case dp_totalBytes d of None \<Rightarrow> 0 | Some n \<Rightarrow> int n) - int (length p) in
          if dp_payloadType d = PAYLOAD_LOCATION then mcl1 p offset
          else if dp_payloadType d = PAYLOAD_ATLAS then
            (if dp_routeType d = FUOTA_ROUTE_DIRECT \<and> dp_pathLength d = 0 then atlas p offset else None)
          else if dp_payloadType d = PAYLOAD_CONTROL then cubecellDiscover p offset
          else if dp_payloadType d = PAYLOAD_RAW_CUSTOM then rawCustom p offset
          else None)"

definition isNotEncrypted :: "(jstr \<Rightarrow> decoded_packet option) \<Rightarrow> jstr \<Rightarrow> bool" where
  "isNotEncrypted decode packetData =
     (case decode packetData of
        None \<Rightarrow> False
      | Some d \<Rightarrow> fuotaFromDecoded d \<noteq> None \<or> recognizeThirdParty d \<noteq> None)"

subsection \<open>Where the fields lie\<close>

text \<open>Fields in order, none overlapping, from \<open>a\<close> up to the payload's end; \<open>tiles_from\<close> leaves no byte out.\<close>

fun within_from :: "nat \<Rightarrow> byte_field list \<Rightarrow> nat \<Rightarrow> bool" where
  "within_from a [] n \<longleftrightarrow> a \<le> n"
| "within_from a (f # fs) n \<longleftrightarrow> a \<le> bf_start f \<and> bf_start f \<le> bf_end f \<and> within_from (bf_end f + 1) fs n"

fun tiles_from :: "nat \<Rightarrow> byte_field list \<Rightarrow> nat \<Rightarrow> bool" where
  "tiles_from a [] n \<longleftrightarrow> a = n"
| "tiles_from a (f # fs) n \<longleftrightarrow> bf_start f = a \<and> a \<le> bf_end f \<and> tiles_from (bf_end f + 1) fs n"

lemma field_of_simps [simp]:
  "bf_start (field_of offset name d v a b) = a" "bf_end (field_of offset name d v a b) = b"
  "bf_absStart (field_of offset name d v a b) = offset + int a"
  "bf_absEnd (field_of offset name d v a b) = offset + int b"
  by (simp_all add: field_of_def)

lemma fuota_field_simps [simp]:
  "bf_start (fuota_field i name d v a b) = a" "bf_end (fuota_field i name d v a b) = b"
  "bf_absStart (fuota_field i name d v a b) = int (PAYLOAD_OFFSET + a)"
  "bf_absEnd (fuota_field i name d v a b) = int (PAYLOAD_OFFSET + b)"
  by (simp_all add: fuota_field_def)

lemma fuota_empty_simps [simp]:
  "fm_kind (fuota_empty k p) = k" "fm_payloadLen (fuota_empty k p) = length p"
  by (simp_all add: fuota_empty_def)

lemma fuota_shapes:
  assumes "parseFuotaPayload p = Some m"
  shows "fm_payloadLen m = length p"
    "(case fm_kind m of Offer \<Rightarrow> length p = 30 | FRequest \<Rightarrow> length p = 12
      | FData \<Rightarrow> 8 < length p \<and> length p \<le> 184 | Retract \<Rightarrow> length p = 82)"
  using assms by (auto simp: parseFuotaPayload_def Let_def split: if_splits)

lemma fuota_tiles:
  assumes "parseFuotaPayload p = Some m"
  shows "tiles_from 0 (fuotaPayloadFields m) (length p)"
  using fuota_shapes [OF assms] unfolding fuotaPayloadFields_def fuota_head_fields_def
  by (cases "fm_kind m") auto

lemma mcl1_within: "mcl1 p offset = Some t \<Longrightarrow> tiles_from 0 (tp_fields t) (length p)"
  unfolding mcl1_def Let_def by (auto split: if_splits)

lemma atlas_within: "atlas p offset = Some t \<Longrightarrow> tiles_from 0 (tp_fields t) (length p)"
proof -
  assume a: "atlas p offset = Some t"
  then have "2 \<le> length p" by (cases p) (auto simp: atlas_def atlas_valid_def Let_def split: if_splits)
  with a show ?thesis unfolding atlas_def Let_def by (auto split: if_splits)
qed

lemma cubecell_within: "cubecellDiscover p offset = Some t \<Longrightarrow> tiles_from 0 (tp_fields t) (length p)"
  unfolding cubecellDiscover_def Let_def by (auto split: if_splits)

lemma tiles_within: "tiles_from a fs n \<Longrightarrow> within_from a fs n"
  by (induction fs arbitrary: a) auto

lemma raw_within:
  assumes "rawCustom p offset = Some t"
  shows "within_from 0 (tp_fields t) (length p)"
proof -
  have "within_from 0 (tp_fields (sar_fragment p offset)) (length p)" if "7 \<le> length p"
    using that by (auto simp: sar_fragment_def unknown_of_def Let_def)
  moreover have "within_from 0 (tp_fields (sar_fetch p offset)) (length p)" if "13 \<le> length p"
    using that by (auto simp: sar_fetch_def unknown_of_def Let_def)
  moreover have "within_from 0 (tp_fields (sar_swarm p offset k)) (length p)"
    if "14 \<le> length p" "k \<noteq> 1 \<longrightarrow> 20 \<le> length p" for k
    using that by (auto simp: sar_swarm_def unknown_of_def Let_def)
  moreover have "within_from 0 (tp_fields t') (length p)" if "sigurd p offset = Some t'" "5 \<le> length p" for t'
    using that by (auto simp: sigurd_def unknown_of_def Let_def split: if_splits)
  moreover have "within_from 0 (tp_fields (reticulum p offset)) (length p)" if "10 \<le> length p"
    using that by (auto simp: reticulum_def unknown_of_def Let_def)
  ultimately show ?thesis using assms unfolding rawCustom_def Let_def by (auto split: if_splits)
qed

lemma third_party_within:
  assumes "recognizeThirdParty d = Some t" "hexBytes (dp_raw d) = Some p"
  shows "within_from 0 (tp_fields t) (length p)"
  using assms raw_within [of p] tiles_within [OF mcl1_within [of p]] tiles_within [OF atlas_within [of p]]
    tiles_within [OF cubecell_within [of p]]
  by (auto simp: recognizeThirdParty_def Let_def split: if_splits)

text \<open>The byte breakdowns fit the packet: every byte of a recognised firmware-update payload lies in
  exactly one field; and the fields of every recognised third-party packet come in order, do not
  overlap and stay inside the payload.\<close>

theorem breakdown_fits_payload:
  assumes "hexBytes (dp_raw d) = Some p"
  shows "(\<forall>m. fuotaFromDecoded d = Some m \<longrightarrow> tiles_from 0 (fuotaPayloadFields m) (length p))
    \<and> (\<forall>t. recognizeThirdParty d = Some t \<longrightarrow> within_from 0 (tp_fields t) (length p))"
  using assms fuota_tiles [of p] third_party_within [OF _ assms]
  by (auto simp: fuotaFromDecoded_def split: if_splits)

definition retract_packet :: decoded_packet where
  "retract_packet = \<lparr>dp_isValid = True, dp_payloadVersion = 0, dp_payloadType = 14, dp_routeType = 2,
     dp_pathLength = 0, dp_totalBytes = None, dp_path = None, dp_pathHashSize = None,
     dp_raw = bytesToHex (4 # replicate 81 0), dp_decoded = None\<rparr>"

lemma hexBytes_bytesToHex [simp]: "hexBytes (bytesToHex bs) = Some bs"
  using bytesToHex_lower_hex [of bs] is_lower_hex_is_hex
  by (auto simp: hexBytes_def hexToBytes_bytesToHex list_all_iff)

theorem breakdown_fits_payload_witness:
  "\<exists>m. fuotaFromDecoded retract_packet = Some m \<and> tiles_from 0 (fuotaPayloadFields m) 82"
proof -
  have raw: "hexBytes (dp_raw retract_packet) = Some (4 # replicate 81 0)"
    by (simp only: retract_packet_def decoded_packet.select_convs hexBytes_bytesToHex)
  have "fuotaFromDecoded retract_packet = Some (fuota_empty Retract (4 # replicate 81 0))"
    unfolding fuotaFromDecoded_def raw
    by (simp add: retract_packet_def FUOTA_PAYLOAD_TYPE_def FUOTA_ROUTE_DIRECT_def parseFuotaPayload_def byte_at_def Let_def)
  with breakdown_fits_payload [OF raw] show ?thesis by fastforce
qed

lemma frameWalk_route: "frameWalk raw = Some w \<Longrightarrow> fw_routeType w = unat (raw ! 0) mod 4"
proof -
  have "frameWalk raw = None \<or> map_option fw_routeType (frameWalk raw) = Some (unat (raw ! 0) mod 4)"
    by (simp add: frameWalk_def Let_def)
  then show "frameWalk raw = Some w \<Longrightarrow> fw_routeType w = unat (raw ! 0) mod 4" by auto
qed

text \<open>A firmware-update packet is recognised from its raw text exactly as from the frame walk: version 0,
  type 14, direct, no hops, and the payload read from where the walk puts it. A path byte with the
  reserved hop size, which the walk refuses, is left out of the statement.\<close>

theorem fuota_readers_agree:
  assumes "unat (raw ! 1) div 64 \<noteq> 3"
  shows "parseFuotaPacket (bytesToHex raw) =
    (case frameWalk raw of
       None \<Rightarrow> None
     | Some w \<Rightarrow>
         if unat (raw ! 0) div 64 = 0 \<and> fw_payloadType w = FUOTA_PAYLOAD_TYPE
           \<and> fw_routeType w = FUOTA_ROUTE_DIRECT \<and> fw_hops w = []
         then parseFuotaPayload (drop (fw_payloadStart w) raw) else None)"
proof (cases "length raw < 3")
  case True
  show ?thesis
  proof (cases "length raw = 2")
    case True
    then show ?thesis
      by (auto simp: parseFuotaPacket_def PAYLOAD_OFFSET_def frameWalk_def Let_def transport_bytes_def)
  next
    case False
    with \<open>length raw < 3\<close> show ?thesis
      by (simp add: parseFuotaPacket_def PAYLOAD_OFFSET_def frameWalk_def)
  qed
next
  case False
  then have parse: "parseFuotaPacket (bytesToHex raw) =
    (if unat (raw ! 0) div 64 = 0 \<and> unat (raw ! 0) div 4 mod 16 = FUOTA_PAYLOAD_TYPE
       \<and> unat (raw ! 0) mod 4 = FUOTA_ROUTE_DIRECT \<and> unat (raw ! 1) mod 64 = 0
     then parseFuotaPayload (drop 2 raw) else None)"
    by (simp add: parseFuotaPacket_def PAYLOAD_OFFSET_def byte_at_def Let_def)
  show ?thesis
  proof (cases "unat (raw ! 0) mod 4 = 2")
    case True
    then have "transport_bytes (unat (raw ! 0) mod 4) = 0"
      by (simp add: transport_bytes_def ROUTE_TRANSPORT_FLOOD_def ROUTE_TRANSPORT_DIRECT_def)
    then have i: "1 + transport_bytes (unat (raw ! 0) mod 4) = 1" by simp
    define p where "p = unat (raw ! 1)"
    have len: "\<not> length raw < 2" "\<not> length raw \<le> 1" using False by simp_all
    have walk: "frameWalk raw =
      (if p div 64 + 1 = 4 \<or> p mod 64 * (p div 64 + 1) > MAX_PATH_SIZE
         \<or> length raw \<le> 1 + 1 + p mod 64 * (p div 64 + 1) then None
       else Some \<lparr>fw_routeType = unat (raw ! 0) mod 4, fw_payloadType = unat (raw ! 0) div 4 mod 16,
         fw_pathLen = p, fw_hops = map (\<lambda>k. bytesToHex (subarr (1 + 1 + k * (p div 64 + 1))
           (1 + 1 + (k + 1) * (p div 64 + 1)) raw)) [0..<p mod 64],
         fw_payloadStart = 1 + 1 + p mod 64 * (p div 64 + 1)\<rparr>)"
      unfolding frameWalk_def Let_def i p_def by (simp only: len if_False if_cancel) simp
    show ?thesis
    proof (cases "p mod 64 = 0")
      case hop: True
      have "drop (1 + 1 + p mod 64 * (p div 64 + 1)) raw = drop 2 raw" using hop by (simp add: numeral_2_eq_2)
      with hop True assms \<open>\<not> length raw < 3\<close> show ?thesis
        unfolding parse walk p_def by (simp add: FUOTA_ROUTE_DIRECT_def)
    next
      case False
      then show ?thesis unfolding parse walk by (simp add: p_def)
    qed
  next
    case False
    have "fw_routeType w \<noteq> FUOTA_ROUTE_DIRECT" if "frameWalk raw = Some w" for w
      using False by (simp add: frameWalk_route [OF that] FUOTA_ROUTE_DIRECT_def)
    with False show ?thesis unfolding parse by (cases "frameWalk raw") (simp_all add: FUOTA_ROUTE_DIRECT_def)
  qed
qed

theorem fuota_readers_agree_witness:
  "parseFuotaPacket (bytesToHex (58 # 0 # 4 # replicate 81 0)) = Some (fuota_empty Retract (4 # replicate 81 0))"
proof -
  let ?raw = "58 # 0 # 4 # replicate 81 0 :: bytes"
  have "unat (?raw ! 1) div 64 \<noteq> 3" by simp
  from fuota_readers_agree [OF this] show ?thesis
    by (simp add: frameWalk_def transport_bytes_def ROUTE_TRANSPORT_FLOOD_def ROUTE_TRANSPORT_DIRECT_def
        FUOTA_ROUTE_DIRECT_def FUOTA_PAYLOAD_TYPE_def MAX_PATH_SIZE_def parseFuotaPayload_def byte_at_def Let_def)
qed

end
