(* ===== verification/PacketStats.thy ===== *)
theory PacketStats
imports Foreign "HOL-Library.Multiset"
begin

text \<open>The raw packet feed (\<^verbatim>\<open>frontend/src/utils/rawPacketIdentity.ts\<close>,
  \<^verbatim>\<open>frontend/src/utils/rawPacketStats.ts\<close>, \<^verbatim>\<open>frontend/src/stores/rawPacketStore.ts\<close>): the identity of
  an observation, the rolling buffer, the statistics session, the summary of a packet and the snapshot
  the charts show. Parameters: the decoder library and its two name tables (\<open>packet_library\<close>), the browser's collation as a
  sort key (\<open>collate\<close>) and the rendering of a time of day (\<open>clock\<close>). Adapting a snapshot the server
  computed is left out.\<close>

subsection \<open>Packets\<close>

record decrypted_info =
  di_channel_name :: "jstr option"
  di_sender :: "jstr option"
  di_channel_key :: "jstr option"
  di_contact_key :: "jstr option"
  di_sender_timestamp :: "int option"
  di_message :: "jstr option"

record raw_packet =
  rk_id :: nat
  rk_observation_id :: "nat option"
  rk_timestamp :: int
  rk_data :: jstr
  rk_payload_type :: jstr
  rk_snr :: "real option"
  rk_rssi :: "real option"
  rk_decrypted :: bool
  rk_decrypted_info :: "decrypted_info option"

definition getRawPacketObservationKey :: "raw_packet \<Rightarrow> jstr" where
  "getRawPacketObservationKey p =
     (case rk_observation_id p of
        Some i \<Rightarrow> (str ''obs-'') @ decimal i
      | None \<Rightarrow> (str ''db-'') @ decimal (rk_id p))"

text \<open>\<^verbatim>\<open>slice(-n)\<close>: of zero, the whole array.\<close>

definition slice_last :: "nat \<Rightarrow> 'a list \<Rightarrow> 'a list" where
  "slice_last n xs = (if n = 0 then xs else last_n n xs)"

definition appendRawPacketUnique :: "raw_packet list \<Rightarrow> raw_packet \<Rightarrow> nat \<Rightarrow> raw_packet list" where
  "appendRawPacketUnique prev packet maxPackets =
     (let packetKey = getRawPacketObservationKey packet in
      if list_ex (\<lambda>p. getRawPacketObservationKey p = packetKey) prev then prev
      else
        let updated = prev @ [packet] in
        if length updated > maxPackets then slice_last maxPackets updated else updated)"

subsection \<open>The summary of a packet\<close>

record packet_library =
  pl_decode :: "jstr \<Rightarrow> decoded_packet option"
  pl_payloadTypeName :: "nat \<Rightarrow> jstr"
  pl_routeTypeName :: "nat \<Rightarrow> jstr"

definition OTHER_VERSION_TYPE :: jstr where "OTHER_VERSION_TYPE = (str ''OtherVersion'')"

definition KNOWN_PAYLOAD_TYPES :: "jstr list" where
  "KNOWN_PAYLOAD_TYPES =
     [(str ''Advert''), (str ''GroupText''), (str ''TextMessage''), (str ''Ack''), (str ''Request''), (str ''Response''), (str ''Trace''), (str ''Path''),
      (str ''Control''), OTHER_VERSION_TYPE, FUOTA_TYPE_NAME, MESHCORENG_TYPE_NAME, (str ''Unknown'')]"

definition KNOWN_ROUTE_TYPES :: "jstr list" where
  "KNOWN_ROUTE_TYPES =
     [(str ''Flood''), (str ''Direct''), (str ''TransportFlood''), (str ''TransportDirect''), (str ''Unknown'')]"

definition isOtherVersion :: "decoded_packet \<Rightarrow> bool" where
  "isOtherVersion d \<longleftrightarrow> dp_isValid d \<and> dp_payloadVersion d \<noteq> 0"

definition feedPayloadTypeName :: "packet_library \<Rightarrow> decoded_packet \<Rightarrow> jstr" where
  "feedPayloadTypeName lib d =
     (if \<not> dp_isValid d then (str ''Unknown'')
      else if isOtherVersion d then OTHER_VERSION_TYPE
      else if fuotaFromDecoded d \<noteq> None then FUOTA_TYPE_NAME
      else if map_option tp_typeName (recognizeThirdParty d) = Some MESHCORENG_TYPE_NAME then MESHCORENG_TYPE_NAME
      else pl_payloadTypeName lib (dp_payloadType d))"

record stats_observation =
  so_observationKey :: jstr
  so_timestamp :: int
  so_payloadType :: jstr
  so_routeType :: jstr
  so_decrypted :: bool
  so_rssi :: "real option"
  so_snr :: "real option"
  so_sourceKey :: "jstr option"
  so_sourceLabel :: "jstr option"
  so_pathTokenCount :: nat
  so_pathSignature :: "jstr option"
  so_hopByteWidth :: "nat option"

definition toSourceLabel :: "jstr \<Rightarrow> jstr" where
  "toSourceLabel sourceKey =
     (if startsWith sourceKey (str ''name:'') then drop 5 sourceKey else toUpperCase (take 12 sourceKey))"

fun json_text :: "json \<Rightarrow> jstr option" where
  "json_text (JStr s) = Some s"
| "json_text _ = None"

definition getPathTokens :: "decoded_packet \<Rightarrow> jstr list" where
  "getPathTokens d =
     (case (if dp_payloadType d = PT_Trace then payload_field d ''pathHashes'' else None) of
        Some (JArr hs) \<Rightarrow> List.map_filter json_text hs
      | _ \<Rightarrow> (case dp_path d of None \<Rightarrow> [] | Some p \<Rightarrow> p))"

definition filled :: "jstr option \<Rightarrow> jstr option" where
  "filled s = (case s of None \<Rightarrow> None | Some t \<Rightarrow> if t = [] then None else Some t)"

definition info_field :: "(decrypted_info \<Rightarrow> jstr option) \<Rightarrow> raw_packet \<Rightarrow> jstr option" where
  "info_field f p = (case rk_decrypted_info p of None \<Rightarrow> None | Some i \<Rightarrow> filled (f i))"

type_synonym source_info = "jstr option \<times> jstr option"

definition no_source :: source_info where "no_source = (None, None)"

definition contact_source :: "raw_packet \<Rightarrow> jstr \<Rightarrow> source_info" where
  "contact_source p key =
     (let contactKey = toUpperCase key in
      (Some contactKey,
       Some (case info_field di_sender p of Some s \<Rightarrow> s | None \<Rightarrow> toSourceLabel contactKey)))"

definition name_source :: "jstr \<Rightarrow> source_info" where
  "name_source sender = (Some ((str ''name:'') @ toLowerCase sender), Some sender)"

definition key_source :: "jstr option \<Rightarrow> source_info" where
  "key_source k =
     (case k of None \<Rightarrow> no_source | Some key \<Rightarrow> (Some (toUpperCase key), Some (toUpperCase (take 12 key))))"

definition getSourceInfo :: "raw_packet \<Rightarrow> decoded_packet \<Rightarrow> source_info" where
  "getSourceInfo p d =
     (let contactKey = info_field di_contact_key p; sender = info_field di_sender p; t = dp_payloadType d in
      if \<not> dp_isValid d \<or> dp_decoded d = None \<or> t = PT_GroupText then
        (case contactKey of
           Some k \<Rightarrow> contact_source p k
         | None \<Rightarrow> (case sender of Some s \<Rightarrow> name_source s | None \<Rightarrow> no_source))
      else if t = PT_Advert then key_source (text_field (payload_field d ''publicKey''))
      else if t = PT_TextMessage \<or> t = PT_Request \<or> t = PT_Response then
        (case contactKey of
           Some k \<Rightarrow> contact_source p k
         | None \<Rightarrow>
             (case text_field (payload_field d ''sourceHash'') of
                None \<Rightarrow> no_source
              | Some h \<Rightarrow> (Some ((str ''hash1:'') @ toUpperCase h), Some (toUpperCase h))))
      else if t = PT_AnonRequest then key_source (text_field (payload_field d ''senderPublicKey''))
      else (case contactKey of Some k \<Rightarrow> contact_source p k | None \<Rightarrow> no_source))"

definition summarizeRawPacketForStats :: "packet_library \<Rightarrow> raw_packet \<Rightarrow> stats_observation" where
  "summarizeRawPacketForStats lib p =
     (case pl_decode lib (rk_data p) of
        Some d \<Rightarrow>
          (let pathTokens = (if dp_isValid d then getPathTokens d else []);
               source = getSourceInfo p d
           in \<lparr>so_observationKey = getRawPacketObservationKey p, so_timestamp = rk_timestamp p,
               so_payloadType = (if dp_isValid d then feedPayloadTypeName lib d else rk_payload_type p),
               so_routeType = (if dp_isValid d then pl_routeTypeName lib (dp_routeType d) else (str ''Unknown'')),
               so_decrypted = rk_decrypted p, so_rssi = rk_rssi p, so_snr = rk_snr p,
               so_sourceKey = fst source, so_sourceLabel = snd source,
               so_pathTokenCount = length pathTokens,
               so_pathSignature = (if pathTokens \<noteq> [] then Some (join_with (str ''>'') pathTokens) else None),
               so_hopByteWidth =
                 (if pathTokens \<noteq> [] then Some (case dp_pathHashSize d of None \<Rightarrow> 1 | Some n \<Rightarrow> n) else None)\<rparr>)
      | None \<Rightarrow>
          \<lparr>so_observationKey = getRawPacketObservationKey p, so_timestamp = rk_timestamp p,
           so_payloadType = rk_payload_type p, so_routeType = (str ''Unknown''),
           so_decrypted = rk_decrypted p, so_rssi = rk_rssi p, so_snr = rk_snr p,
           so_sourceKey = None, so_sourceLabel = None, so_pathTokenCount = 0,
           so_pathSignature = None, so_hopByteWidth = None\<rparr>)"

subsection \<open>Hop widths\<close>

definition HOP_BYTE_WIDTH_BUCKETS :: "jstr list" where
  "HOP_BYTE_WIDTH_BUCKETS =
     [(str ''No path''), (str ''1 byte / hop''), (str ''2 bytes / hop''), (str ''3 bytes / hop''), (str ''Unknown width'')]"

definition inferHopByteWidthCore :: "nat \<Rightarrow> nat option \<Rightarrow> jstr option \<Rightarrow> nat option" where
  "inferHopByteWidthCore pathTokenCount hopByteWidth pathSignature =
     (if pathTokenCount = 0 then None
      else if (case hopByteWidth of Some w \<Rightarrow> w > 0 | None \<Rightarrow> False) then hopByteWidth
      else case pathSignature of
        None \<Rightarrow> None
      | Some s \<Rightarrow>
          (let firstToken = hd (split_on 62 s) in
           if firstToken = [] \<or> length firstToken mod 2 \<noteq> 0 then None
           else
             let inferred = length firstToken div 2 in
             if inferred \<ge> 1 \<and> inferred \<le> 3 then Some inferred else None))"

definition classifyHopByteWidth :: "nat \<Rightarrow> nat option \<Rightarrow> jstr option \<Rightarrow> jstr" where
  "classifyHopByteWidth pathTokenCount hopByteWidth pathSignature =
     (if pathTokenCount = 0 then (str ''No path'')
      else
        let width = inferHopByteWidthCore pathTokenCount hopByteWidth pathSignature in
        if width = Some 1 then (str ''1 byte / hop'')
        else if width = Some 2 then (str ''2 bytes / hop'')
        else if width = Some 3 then (str ''3 bytes / hop'')
        else (str ''Unknown width''))"

definition classifyDecodedHopByteWidth :: "decoded_packet \<Rightarrow> jstr" where
  "classifyDecodedHopByteWidth d =
     (let pathTokens = (if dp_isValid d then getPathTokens d else []);
          n = length pathTokens
      in classifyHopByteWidth n
        (if n > 0 then Some (case dp_pathHashSize d of None \<Rightarrow> 1 | Some w \<Rightarrow> w) else None)
        (if n > 0 then Some (join_with (str ''>'') pathTokens) else None))"

subsection \<open>The session and the store\<close>

definition MAX_RAW_PACKET_STATS_OBSERVATIONS :: nat where "MAX_RAW_PACKET_STATS_OBSERVATIONS = 20000"
definition MAX_RAW_PACKETS :: nat where "MAX_RAW_PACKETS = 500"

record stats_session =
  ss_startedAt :: int
  ss_total :: nat
  ss_trimmed :: nat
  ss_observations :: "stats_observation list"

record packet_store =
  ps_packets :: "raw_packet list"
  ps_session :: stats_session

definition createStatsSession :: "int \<Rightarrow> stats_session" where
  "createStatsSession now = \<lparr>ss_startedAt = now, ss_total = 0, ss_trimmed = 0, ss_observations = []\<rparr>"

definition observePacket :: "packet_library \<Rightarrow> stats_session \<Rightarrow> raw_packet \<Rightarrow> stats_session" where
  "observePacket lib session packet =
     (let observation = summarizeRawPacketForStats lib packet in
      if list_ex (\<lambda>c. so_observationKey c = so_observationKey observation) (ss_observations session)
      then session
      else
        let observations = ss_observations session @ [observation] in
        if length observations \<le> MAX_RAW_PACKET_STATS_OBSERVATIONS
        then session\<lparr>ss_total := ss_total session + 1, ss_observations := observations\<rparr>
        else
          let overflow = length observations - MAX_RAW_PACKET_STATS_OBSERVATIONS in
          session\<lparr>ss_total := ss_total session + 1, ss_trimmed := ss_trimmed session + overflow,
            ss_observations := drop overflow observations\<rparr>)"

text \<open>The first component says whether the listeners are told: whether either part is a new object.\<close>

definition recordRawPacket :: "packet_library \<Rightarrow> raw_packet \<Rightarrow> nat \<Rightarrow> packet_store \<Rightarrow> bool \<times> packet_store" where
  "recordRawPacket lib packet maxPackets st =
     (let key = getRawPacketObservationKey packet;
          nextPackets = appendRawPacketUnique (ps_packets st) packet maxPackets;
          nextStats = observePacket lib (ps_session st) packet;
          samePackets = list_ex (\<lambda>p. getRawPacketObservationKey p = key) (ps_packets st);
          sameStats = list_ex (\<lambda>c. so_observationKey c = key) (ss_observations (ps_session st))
      in if samePackets \<and> sameStats then (False, st)
         else (True, \<lparr>ps_packets = nextPackets, ps_session = nextStats\<rparr>))"

definition clearRawPackets :: "packet_store \<Rightarrow> bool \<times> packet_store" where
  "clearRawPackets st = (if ps_packets st = [] then (False, st) else (True, st\<lparr>ps_packets := []\<rparr>))"

definition resetRawPacketStore :: "int \<Rightarrow> packet_store \<Rightarrow> bool \<times> packet_store" where
  "resetRawPacketStore now st = (True, \<lparr>ps_packets = [], ps_session = createStatsSession now\<rparr>)"

definition seedRawPacketStore ::
  "raw_packet list option \<Rightarrow> stats_session option \<Rightarrow> packet_store \<Rightarrow> bool \<times> packet_store" where
  "seedRawPacketStore packets session st =
     (True, \<lparr>ps_packets = (case packets of None \<Rightarrow> ps_packets st | Some ps \<Rightarrow> ps),
             ps_session = (case session of None \<Rightarrow> ps_session st | Some s \<Rightarrow> s)\<rparr>)"

subsection \<open>The snapshot\<close>

record ranked_stat =
  rs_label :: jstr
  rs_count :: nat
  rs_share :: real

record neighbor_stat =
  ns_key :: jstr
  ns_label :: jstr
  ns_count :: nat
  ns_bestRssi :: "real option"
  ns_lastSeen :: int

record timeline_bin =
  tb_label :: jstr
  tb_total :: nat
  tb_countsByType :: "(jstr \<times> nat) list"

datatype stats_window = Win1m | Win5m | Win10m | Win30m | WinSession

fun windowSeconds :: "stats_window \<Rightarrow> int option" where
  "windowSeconds Win1m = Some 60"
| "windowSeconds Win5m = Some (5 * 60)"
| "windowSeconds Win10m = Some (10 * 60)"
| "windowSeconds Win30m = Some (30 * 60)"
| "windowSeconds WinSession = None"

definition share :: "nat \<Rightarrow> nat \<Rightarrow> real" where
  "share n tot = (if tot \<le> 0 then 0 else real n / real tot)"

definition createCountsMap :: "jstr list \<Rightarrow> (jstr \<times> nat) list" where
  "createCountsMap labels = fold (\<lambda>l m. amap_set l 0 m) labels []"

definition bump :: "jstr \<Rightarrow> (jstr \<times> nat) list \<Rightarrow> (jstr \<times> nat) list" where
  "bump k m = amap_set k ((case map_of m k of None \<Rightarrow> 0 | Some n \<Rightarrow> n) + 1) m"

definition stat_of :: "nat \<Rightarrow> jstr \<times> nat \<Rightarrow> ranked_stat" where
  "stat_of tot e = \<lparr>rs_label = fst e, rs_count = snd e, rs_share = share (snd e) tot\<rparr>"

text \<open>Two stable sorts: by label, then by count downwards.\<close>

definition rankedBreakdown :: "(jstr \<Rightarrow> 'c :: linorder) \<Rightarrow> (jstr \<times> nat) list \<Rightarrow> nat \<Rightarrow> ranked_stat list" where
  "rankedBreakdown collate counts tot =
     map (stat_of tot) (sort_key (\<lambda>e. - int (snd e)) (sort_key (\<lambda>e. collate (fst e)) counts))"

definition orderedBreakdown :: "(jstr \<times> nat) list \<Rightarrow> nat \<Rightarrow> ranked_stat list" where
  "orderedBreakdown counts tot = map (stat_of tot) counts"

definition stats_median :: "real list \<Rightarrow> real option" where
  "stats_median vs =
     (if vs = [] then None
      else
        let ranked = sort vs; mid = length ranked div 2 in
        if length ranked mod 2 = 1 then Some (ranked ! mid)
        else Some ((ranked ! (mid - 1) + ranked ! mid) / 2))"

definition getHopProfileBucket :: "nat \<Rightarrow> jstr" where
  "getHopProfileBucket n =
     (if n \<le> 0 then (str ''0'') else if n = 1 then (str ''1'') else if n \<le> 5 then (str ''2-5'') else if n \<le> 10 then (str ''6-10'')
      else if n \<le> 15 then (str ''11-15'') else if n \<le> 20 then (str ''16-20'') else if n \<le> 31 then (str ''21-31'') else (str ''32+''))"

definition HOP_LABELS :: "jstr list" where
  "HOP_LABELS = [(str ''0''), (str ''1''), (str ''2-5''), (str ''6-10''), (str ''11-15''), (str ''16-20''), (str ''21-31''), (str ''32+'')]"

definition RSSI_LABELS :: "jstr list" where
  "RSSI_LABELS = [(str ''Strong (>-70 dBm)''), (str ''Okay (-70 to -85 dBm)''), (str ''Weak (<-85 dBm)'')]"

definition rssi_bucket :: "real \<Rightarrow> jstr" where
  "rssi_bucket r =
     (if r > -70 then (str ''Strong (>-70 dBm)'')
      else if r \<ge> -85 then (str ''Okay (-70 to -85 dBm)'')
      else (str ''Weak (<-85 dBm)''))"

definition note_neighbor :: "stats_observation \<Rightarrow> (jstr \<times> neighbor_stat) list \<Rightarrow> (jstr \<times> neighbor_stat) list" where
  "note_neighbor p m =
     (case (filled (so_sourceKey p), filled (so_sourceLabel p)) of
        (Some k, Some l) \<Rightarrow>
          (case map_of m k of
             None \<Rightarrow> amap_set k \<lparr>ns_key = k, ns_label = l, ns_count = 1, ns_bestRssi = so_rssi p,
                       ns_lastSeen = so_timestamp p\<rparr> m
           | Some e \<Rightarrow>
               amap_set k (e\<lparr>ns_count := ns_count e + 1,
                 ns_lastSeen := max (ns_lastSeen e) (so_timestamp p),
                 ns_bestRssi := (case so_rssi p of
                     None \<Rightarrow> ns_bestRssi e
                   | Some r \<Rightarrow> (case ns_bestRssi e of
                       None \<Rightarrow> Some r
                     | Some b \<Rightarrow> if r > b then Some r else Some b))\<rparr>) m)
      | _ \<Rightarrow> m)"

text \<open>Stable sorts from the last criterion to the first; the five best.\<close>

definition neighbors_strongest :: "(jstr \<Rightarrow> 'c :: linorder) \<Rightarrow> neighbor_stat list \<Rightarrow> neighbor_stat list" where
  "neighbors_strongest collate ns =
     take 5 (sort_key (\<lambda>n. - the (ns_bestRssi n)) (sort_key (\<lambda>n. - int (ns_count n))
       (sort_key (\<lambda>n. collate (ns_label n)) (filter (\<lambda>n. ns_bestRssi n \<noteq> None) ns))))"

definition neighbors_active :: "(jstr \<Rightarrow> 'c :: linorder) \<Rightarrow> neighbor_stat list \<Rightarrow> neighbor_stat list" where
  "neighbors_active collate ns =
     take 5 (sort_key (\<lambda>n. - int (ns_count n)) (sort_key (\<lambda>n. - ns_lastSeen n)
       (sort_key (\<lambda>n. collate (ns_label n)) ns)))"

definition neighbors_newest :: "(jstr \<Rightarrow> 'c :: linorder) \<Rightarrow> neighbor_stat list \<Rightarrow> neighbor_stat list" where
  "neighbors_newest collate ns =
     take 5 (sort_key (\<lambda>n. - ns_lastSeen n) (sort_key (\<lambda>n. - int (ns_count n))
       (sort_key (\<lambda>n. collate (ns_label n)) ns)))"

definition TIMELINE_BINS :: nat where "TIMELINE_BINS = 10"

definition bin_index :: "int \<Rightarrow> real \<Rightarrow> int \<Rightarrow> nat" where
  "bin_index windowStart binWidth timestamp =
     (let rawIndex = \<lfloor>of_int (timestamp - windowStart) / binWidth\<rfloor>
      in nat (max 0 (min (int TIMELINE_BINS - 1) rawIndex)))"

definition count_in_bin :: "stats_observation \<Rightarrow> timeline_bin \<Rightarrow> timeline_bin" where
  "count_in_bin p b = b\<lparr>tb_total := tb_total b + 1, tb_countsByType := bump (so_payloadType p) (tb_countsByType b)\<rparr>"

definition fill_timeline ::
  "int \<Rightarrow> real \<Rightarrow> stats_observation list \<Rightarrow> timeline_bin list \<Rightarrow> timeline_bin list" where
  "fill_timeline windowStart binWidth packets timeline =
     fold (\<lambda>p bins. let i = bin_index windowStart binWidth (so_timestamp p)
                    in bins[i := count_in_bin p (bins ! i)]) packets timeline"

record stats_snapshot =
  sn_window :: stats_window
  sn_nowSec :: int
  sn_packets :: "stats_observation list"
  sn_packetCount :: nat
  sn_packetsPerMinute :: real
  sn_uniqueSources :: nat
  sn_decryptedCount :: nat
  sn_undecryptedCount :: nat
  sn_decryptRate :: real
  sn_pathBearingCount :: nat
  sn_pathBearingRate :: real
  sn_distinctPaths :: nat
  sn_payloadBreakdown :: "ranked_stat list"
  sn_routeBreakdown :: "ranked_stat list"
  sn_topPacketTypes :: "ranked_stat list"
  sn_hopProfile :: "ranked_stat list"
  sn_hopByteWidthProfile :: "ranked_stat list"
  sn_strongestNeighbors :: "neighbor_stat list"
  sn_mostActiveNeighbors :: "neighbor_stat list"
  sn_newestNeighbors :: "neighbor_stat list"
  sn_averageRssi :: "real option"
  sn_medianRssi :: "real option"
  sn_bestRssi :: "real option"
  sn_rssiBuckets :: "ranked_stat list"
  sn_coverageSeconds :: int
  sn_windowFullyCovered :: bool
  sn_oldestStoredTimestamp :: "int option"
  sn_timeline :: "timeline_bin list"

definition counts_of :: "(stats_observation \<Rightarrow> jstr) \<Rightarrow> jstr list \<Rightarrow> stats_observation list \<Rightarrow> (jstr \<times> nat) list" where
  "counts_of f labels packets = fold (\<lambda>p. bump (f p)) packets (createCountsMap labels)"

definition buildRawPacketStatsSnapshot ::
  "(jstr \<Rightarrow> 'c :: linorder) \<Rightarrow> (int \<Rightarrow> jstr) \<Rightarrow> stats_session \<Rightarrow> stats_window \<Rightarrow> int \<Rightarrow> stats_snapshot" where
  "buildRawPacketStatsSnapshot collate clock session window nowSec =
     (let sessionStartedSec = ss_startedAt session div 1000;
          windowStart = (case windowSeconds window of None \<Rightarrow> sessionStartedSec | Some s \<Rightarrow> nowSec - s);
          packets = filter (\<lambda>p. so_timestamp p \<ge> windowStart) (ss_observations session);
          packetCount = length packets;
          uniqueSources = length (remdups (List.map_filter (filled \<circ> so_sourceKey) packets));
          decryptedCount = length (filter so_decrypted packets);
          pathBearingCount = length (filter (\<lambda>p. so_pathTokenCount p > 0) packets);
          distinctPaths = length (remdups (List.map_filter (filled \<circ> so_pathSignature) packets));
          effectiveCoverageSeconds = (case windowSeconds window of
              Some s \<Rightarrow> s | None \<Rightarrow> max 1 (nowSec - min sessionStartedSec nowSec));
          packetsPerMinute = real packetCount / max (of_int effectiveCoverageSeconds / 60) (1 / 60);
          payloadCounts = counts_of so_payloadType KNOWN_PAYLOAD_TYPES packets;
          routeCounts = counts_of so_routeType KNOWN_ROUTE_TYPES packets;
          hopCounts = counts_of (\<lambda>p. getHopProfileBucket (so_pathTokenCount p)) HOP_LABELS packets;
          hopByteWidthCounts = counts_of (\<lambda>p. classifyHopByteWidth (so_pathTokenCount p) (so_hopByteWidth p)
            (so_pathSignature p)) HOP_BYTE_WIDTH_BUCKETS packets;
          neighbors = map snd (fold note_neighbor packets []);
          rssiValues = List.map_filter so_rssi packets;
          rssiBucketCounts = fold (\<lambda>r. bump (rssi_bucket r)) rssiValues (createCountsMap RSSI_LABELS);
          averageRssi = (if rssiValues \<noteq> [] then Some (sum_list rssiValues / real (length rssiValues)) else None);
          bestRssi = (if rssiValues \<noteq> [] then Some (Max (set rssiValues)) else None);
          oldestStoredTimestamp = (case ss_observations session of [] \<Rightarrow> None | x # xs \<Rightarrow> Some (so_timestamp x));
          detailedCoverageStart = (if ss_trimmed session > 0
            then (case oldestStoredTimestamp of None \<Rightarrow> nowSec | Some t \<Rightarrow> t) else sessionStartedSec);
          windowFullyCovered = (if window = WinSession then ss_trimmed session = 0
            else detailedCoverageStart \<le> windowStart);
          coverageStart = max windowStart detailedCoverageStart;
          coverageSeconds = (if window = WinSession then max 1 (nowSec - detailedCoverageStart)
            else max 1 (nowSec - coverageStart));
          timelineSpanSeconds = max (case windowSeconds window of
              Some s \<Rightarrow> s | None \<Rightarrow> max 60 (nowSec - sessionStartedSec)) 60;
          binWidth = max 1 (of_int timelineSpanSeconds / real TIMELINE_BINS);
          emptyTimeline = map (\<lambda>index. \<lparr>tb_label = clock \<lfloor>of_int windowStart + real index * binWidth\<rfloor>,
              tb_total = 0, tb_countsByType = []\<rparr>) [0..<TIMELINE_BINS]
      in \<lparr>sn_window = window, sn_nowSec = nowSec, sn_packets = packets, sn_packetCount = packetCount,
          sn_packetsPerMinute = packetsPerMinute, sn_uniqueSources = uniqueSources,
          sn_decryptedCount = decryptedCount, sn_undecryptedCount = packetCount - decryptedCount,
          sn_decryptRate = share decryptedCount packetCount, sn_pathBearingCount = pathBearingCount,
          sn_pathBearingRate = share pathBearingCount packetCount, sn_distinctPaths = distinctPaths,
          sn_payloadBreakdown = rankedBreakdown collate payloadCounts packetCount,
          sn_routeBreakdown = rankedBreakdown collate routeCounts packetCount,
          sn_topPacketTypes = take 5 (rankedBreakdown collate payloadCounts packetCount),
          sn_hopProfile = orderedBreakdown hopCounts packetCount,
          sn_hopByteWidthProfile = rankedBreakdown collate hopByteWidthCounts packetCount,
          sn_strongestNeighbors = neighbors_strongest collate neighbors,
          sn_mostActiveNeighbors = neighbors_active collate neighbors,
          sn_newestNeighbors = neighbors_newest collate neighbors,
          sn_averageRssi = averageRssi, sn_medianRssi = stats_median rssiValues, sn_bestRssi = bestRssi,
          sn_rssiBuckets = rankedBreakdown collate rssiBucketCounts (length rssiValues),
          sn_coverageSeconds = coverageSeconds, sn_windowFullyCovered = windowFullyCovered,
          sn_oldestStoredTimestamp = oldestStoredTimestamp,
          sn_timeline = fill_timeline windowStart binWidth packets emptyTimeline\<rparr>)"

subsection \<open>Every packet is counted once\<close>

definition counted :: "(jstr \<times> nat) list \<Rightarrow> nat" where
  "counted m = (\<Sum>e\<leftarrow>m. snd e)"

lemma counted_simps [simp]: "counted [] = 0" "counted (e # m) = snd e + counted m"
  by (simp_all add: counted_def)

lemma counted_bump: "counted (bump k m) = counted m + 1"
proof -
  have "counted (amap_set k (Suc (case map_of m k of None \<Rightarrow> 0 | Some n \<Rightarrow> n)) m) = counted m + 1" for m
    by (induction m) (auto split: option.split)
  then show ?thesis by (simp add: bump_def)
qed

lemma counted_zeros: "counted m = 0 \<Longrightarrow> counted (amap_set l 0 m) = 0"
  by (induction m) (auto split: if_splits)

lemma counted_fresh [simp]: "counted (createCountsMap labels) = 0"
proof -
  have "counted m = 0 \<Longrightarrow> counted (fold (\<lambda>l m. amap_set l 0 m) labels m) = 0" for m
    by (induction labels arbitrary: m) (auto simp: counted_zeros)
  then show ?thesis by (simp add: createCountsMap_def)
qed

lemma counted_fold_bump: "counted (fold (\<lambda>p. bump (f p)) ps m) = counted m + length ps"
  by (induction ps arbitrary: m) (auto simp: counted_bump)

lemma counted_counts_of: "counted (counts_of f labels ps) = length ps"
  by (simp add: counts_of_def counted_fold_bump)

definition stat_total :: "ranked_stat list \<Rightarrow> nat" where
  "stat_total rs = (\<Sum>r\<leftarrow>rs. rs_count r)"

lemma stat_total_ordered: "stat_total (orderedBreakdown m tot) = counted m"
  by (simp add: stat_total_def orderedBreakdown_def stat_of_def counted_def comp_def)

lemma stat_total_ranked: "stat_total (rankedBreakdown collate m tot) = counted m"
proof -
  have "(\<Sum>e\<leftarrow>sort_key g (sort_key h m). snd e) = (\<Sum>e\<leftarrow>m. snd e)" for g :: "_ \<Rightarrow> int" and h :: "_ \<Rightarrow> 'a"
    by (metis mset_map mset_sort sum_mset_sum_list)
  then show ?thesis by (simp add: stat_total_def rankedBreakdown_def stat_of_def counted_def comp_def)
qed

lemma bin_index_less: "bin_index w b t < TIMELINE_BINS"
  by (simp add: bin_index_def TIMELINE_BINS_def Let_def)

definition timeline_ok :: "timeline_bin list \<Rightarrow> bool" where
  "timeline_ok bins \<longleftrightarrow> length bins = TIMELINE_BINS \<and> (\<forall>b \<in> set bins. tb_total b = counted (tb_countsByType b))"

definition timeline_total :: "timeline_bin list \<Rightarrow> nat" where
  "timeline_total bins = sum_list (map tb_total bins)"

lemma timeline_count:
  assumes "timeline_ok bins" "i < TIMELINE_BINS"
  shows "timeline_ok (bins[i := count_in_bin p (bins ! i)])
    \<and> timeline_total (bins[i := count_in_bin p (bins ! i)]) = timeline_total bins + 1"
proof -
  have i: "i < length bins" using assms by (simp add: timeline_ok_def)
  then have b: "bins ! i \<in> set bins" by simp
  with assms(1) have "tb_total (count_in_bin p (bins ! i)) = counted (tb_countsByType (count_in_bin p (bins ! i)))"
    unfolding timeline_ok_def count_in_bin_def by (simp add: counted_bump)
  then have "timeline_ok (bins[i := count_in_bin p (bins ! i)])"
    using assms(1) set_update_subset_insert [of bins i] unfolding timeline_ok_def by fastforce
  moreover have "tb_total (bins ! i) \<le> timeline_total bins"
    using b by (auto simp: timeline_total_def intro: member_le_sum_list)
  then have "timeline_total (bins[i := count_in_bin p (bins ! i)]) = timeline_total bins + 1"
    using i by (simp add: timeline_total_def map_update sum_list_update count_in_bin_def)
  ultimately show ?thesis by blast
qed

lemma fill_timeline_ok:
  assumes "timeline_ok bins"
  shows "timeline_ok (fill_timeline w b ps bins)
    \<and> timeline_total (fill_timeline w b ps bins) = timeline_total bins + length ps"
  using assms unfolding fill_timeline_def
proof (induction ps arbitrary: bins)
  case Nil
  then show ?case by simp
next
  case (Cons p ps)
  let ?i = "bin_index w b (so_timestamp p)"
  from timeline_count [OF Cons.prems bin_index_less [of w b "so_timestamp p"], of p]
  show ?case using Cons.IH [of "bins[?i := count_in_bin p (bins ! ?i)]"] by (simp add: Let_def)
qed

definition neighbor_total :: "(jstr \<times> neighbor_stat) list \<Rightarrow> nat" where
  "neighbor_total m = sum_list (map (ns_count \<circ> snd) m)"

definition sourced :: "stats_observation \<Rightarrow> bool" where
  "sourced p \<longleftrightarrow> filled (so_sourceKey p) \<noteq> None \<and> filled (so_sourceLabel p) \<noteq> None"

lemma neighbor_total_set:
  "neighbor_total (amap_set k v m) + (case map_of m k of None \<Rightarrow> 0 | Some e \<Rightarrow> ns_count e)
   = neighbor_total m + ns_count v"
  by (induction m) (auto simp: neighbor_total_def split: option.splits)

lemma neighbor_total_note: "neighbor_total (note_neighbor p m) = neighbor_total m + (if sourced p then 1 else 0)"
proof (cases "filled (so_sourceKey p)")
  case (Some k)
  show ?thesis
  proof (cases "filled (so_sourceLabel p)")
    case l: (Some l)
    show ?thesis
    proof (cases "map_of m k")
      case None
      then show ?thesis using neighbor_total_set [of k _ m] by (simp add: note_neighbor_def sourced_def Some l)
    next
      case e: (Some e)
      then show ?thesis
        using neighbor_total_set [of k "e\<lparr>ns_count := ns_count e + 1, ns_lastSeen := x, ns_bestRssi := y\<rparr>" m for x y]
        by (auto simp: note_neighbor_def sourced_def Some l)
    qed
  qed (simp add: note_neighbor_def sourced_def Some)
qed (simp add: note_neighbor_def sourced_def)

lemma neighbor_total_fold: "neighbor_total (fold note_neighbor ps m) = neighbor_total m + length (filter sourced ps)"
  by (induction ps arbitrary: m) (auto simp: neighbor_total_note)

text \<open>A snapshot accounts for every packet of its window exactly once: the counts by payload type, by
  route, by hop count and by hop width each add up to the packets shown, so do the ten bins of the
  timeline, each of which is the sum of its types; the signal buckets add up to the packets with a
  signal; and these packets are exactly the stored observations of the window.\<close>

theorem snapshot_counts_each_packet_once:
  "let sn = buildRawPacketStatsSnapshot collate clock session window nowSec; n = sn_packetCount sn in
   stat_total (sn_payloadBreakdown sn) = n \<and> stat_total (sn_routeBreakdown sn) = n
   \<and> stat_total (sn_hopProfile sn) = n \<and> stat_total (sn_hopByteWidthProfile sn) = n
   \<and> length (sn_timeline sn) = 10 \<and> timeline_total (sn_timeline sn) = n
   \<and> list_all (\<lambda>b. tb_total b = counted (tb_countsByType b)) (sn_timeline sn)
   \<and> stat_total (sn_rssiBuckets sn) = length (filter (\<lambda>p. so_rssi p \<noteq> None) (sn_packets sn))
   \<and> sn_decryptedCount sn + sn_undecryptedCount sn = n
   \<and> sn_packets sn = filter (\<lambda>p. so_timestamp p \<ge> (case windowSeconds window of
        None \<Rightarrow> ss_startedAt session div 1000 | Some s \<Rightarrow> nowSec - s)) (ss_observations session)"
proof -
  define ws where "ws = (case windowSeconds window of None \<Rightarrow> ss_startedAt session div 1000 | Some s \<Rightarrow> nowSec - s)"
  define ps where "ps = filter (\<lambda>p. so_timestamp p \<ge> ws) (ss_observations session)"
  define bw where "bw = max 1 (real_of_int (max (case windowSeconds window of
      Some s \<Rightarrow> s | None \<Rightarrow> max 60 (nowSec - ss_startedAt session div 1000)) 60) / real TIMELINE_BINS)"
  define bins where "bins = map (\<lambda>index. \<lparr>tb_label = clock \<lfloor>of_int ws + real index * bw\<rfloor>,
              tb_total = 0, tb_countsByType = []\<rparr>) [0..<TIMELINE_BINS]"
  have "timeline_ok bins" "timeline_total bins = 0"
    by (auto simp: timeline_ok_def timeline_total_def bins_def comp_def)
  from fill_timeline_ok [OF this(1), of ws bw ps] this(2)
  have t: "timeline_ok (fill_timeline ws bw ps bins)" "timeline_total (fill_timeline ws bw ps bins) = length ps"
    by simp_all
  let ?sn = "buildRawPacketStatsSnapshot collate clock session window nowSec"
  have f: "sn_timeline ?sn = fill_timeline ws bw ps bins" "sn_packets ?sn = ps" "sn_packetCount ?sn = length ps"
    "stat_total (sn_rssiBuckets ?sn) = length (List.map_filter so_rssi ps)"
    "sn_decryptedCount ?sn = length (filter so_decrypted ps)"
    "sn_undecryptedCount ?sn = length ps - length (filter so_decrypted ps)"
    "stat_total (sn_payloadBreakdown ?sn) = length ps" "stat_total (sn_routeBreakdown ?sn) = length ps"
    "stat_total (sn_hopProfile ?sn) = length ps" "stat_total (sn_hopByteWidthProfile ?sn) = length ps"
    by (simp_all only: buildRawPacketStatsSnapshot_def Let_def stats_snapshot.select_convs ws_def ps_def bw_def bins_def
        stat_total_ranked stat_total_ordered counted_counts_of counted_fold_bump counted_fresh add_0)
  have "length (List.map_filter so_rssi ps) = length (filter (\<lambda>p. so_rssi p \<noteq> None) ps)"
    by (simp add: map_filter_def)
  then show ?thesis
    using t unfolding Let_def f timeline_ok_def list_all_iff
    by (simp add: TIMELINE_BINS_def ps_def [symmetric] ws_def [symmetric] le_add_diff_inverse)
qed

subsection \<open>The store over any run\<close>

datatype store_op =
    Record raw_packet
  | ClearPackets
  | ResetStore int

fun store_step :: "packet_library \<Rightarrow> packet_store \<Rightarrow> store_op \<Rightarrow> packet_store" where
  "store_step lib st (Record p) = snd (recordRawPacket lib p MAX_RAW_PACKETS st)"
| "store_step lib st ClearPackets = snd (clearRawPackets st)"
| "store_step lib st (ResetStore now) = snd (resetRawPacketStore now st)"

definition session_ok :: "stats_session \<Rightarrow> bool" where
  "session_ok s \<longleftrightarrow> ss_total s = ss_trimmed s + length (ss_observations s)
     \<and> distinct (map so_observationKey (ss_observations s))
     \<and> length (ss_observations s) \<le> MAX_RAW_PACKET_STATS_OBSERVATIONS
     \<and> (ss_trimmed s > 0 \<longrightarrow> length (ss_observations s) = MAX_RAW_PACKET_STATS_OBSERVATIONS)"

definition store_ok :: "packet_store \<Rightarrow> bool" where
  "store_ok st \<longleftrightarrow> session_ok (ps_session st) \<and> length (ps_packets st) \<le> MAX_RAW_PACKETS
     \<and> distinct (map getRawPacketObservationKey (ps_packets st))"

lemma list_ex_key: "list_ex (\<lambda>x. f x = k) xs \<longleftrightarrow> k \<in> f ` set xs"
  by (induction xs) auto

lemma summary_key [simp]:
  "so_observationKey (summarizeRawPacketForStats lib p) = getRawPacketObservationKey p"
  by (simp add: summarizeRawPacketForStats_def Let_def split: option.split)

lemma observe_ok: "session_ok s \<Longrightarrow> session_ok (observePacket lib s p)"
proof -
  assume s: "session_ok s"
  let ?o = "summarizeRawPacketForStats lib p" and ?obs = "ss_observations s"
  have d: "distinct (map so_observationKey (?obs @ [?o]))"
    if "\<not> list_ex (\<lambda>c. so_observationKey c = so_observationKey ?o) ?obs"
    using s that by (auto simp: session_ok_def list_ex_iff)
  show ?thesis
  proof (cases "list_ex (\<lambda>c. so_observationKey c = so_observationKey ?o) ?obs")
    case True
    then show ?thesis using s by (simp add: observePacket_def)
  next
    case False
    have "distinct (map so_observationKey (drop n (?obs @ [?o])))" for n
      by (rule distinct_map_drop [OF d [OF False]])
    then show ?thesis using s False d [OF False]
      by (auto simp: observePacket_def session_ok_def Let_def simp del: drop_append)
  qed
qed

lemma append_ok:
  assumes "length ps \<le> MAX_RAW_PACKETS" "distinct (map getRawPacketObservationKey ps)"
  shows "length (appendRawPacketUnique ps p MAX_RAW_PACKETS) \<le> MAX_RAW_PACKETS
    \<and> distinct (map getRawPacketObservationKey (appendRawPacketUnique ps p MAX_RAW_PACKETS))"
proof (cases "list_ex (\<lambda>q. getRawPacketObservationKey q = getRawPacketObservationKey p) ps")
  case True
  then show ?thesis using assms by (simp add: appendRawPacketUnique_def)
next
  case False
  then have "distinct (map getRawPacketObservationKey (ps @ [p]))"
    using assms(2) by (auto simp: list_ex_iff)
  from this distinct_map_last_n [OF this, of MAX_RAW_PACKETS] False assms(1) show ?thesis
    by (auto simp: appendRawPacketUnique_def slice_last_def MAX_RAW_PACKETS_def Let_def)
qed

lemma store_step_ok: "store_ok st \<Longrightarrow> store_ok (store_step lib st op)"
proof (cases op)
  case (Record p)
  assume "store_ok st"
  then show ?thesis
    using append_ok [of "ps_packets st" p] observe_ok [of "ps_session st" lib p]
    by (auto simp: Record store_ok_def recordRawPacket_def Let_def)
qed (auto simp: store_ok_def clearRawPackets_def resetRawPacketStore_def createStatsSession_def session_ok_def
    MAX_RAW_PACKET_STATS_OBSERVATIONS_def)

definition newPacketStore :: "int \<Rightarrow> packet_store" where
  "newPacketStore now = \<lparr>ps_packets = [], ps_session = createStatsSession now\<rparr>"

lemma store_run_ok: "store_ok (foldl (store_step lib) (newPacketStore now) ops)"
proof -
  have "store_ok st \<Longrightarrow> store_ok (foldl (store_step lib) st ops)" for st
    by (induction ops arbitrary: st) (auto simp: store_step_ok)
  moreover have "store_ok (newPacketStore now)"
    by (simp add: store_ok_def newPacketStore_def createStatsSession_def session_ok_def)
  ultimately show ?thesis by blast
qed

text \<open>Over any run of arriving packets, reconnects and resets, the feed holds at most 500 packets
  and the session at most 20000 observations, each observation key once; the session's total is what it holds
  plus what it dropped, and it drops only when full; a packet whose observation is in both is not
  announced again, and one that is in neither is counted and becomes the newest of both.\<close>

theorem feed_counts_arrivals:
  "let st = foldl (store_step lib) (newPacketStore now) ops; s = ps_session st;
       (told, after) = recordRawPacket lib p MAX_RAW_PACKETS st
   in ss_total s = ss_trimmed s + length (ss_observations s)
    \<and> length (ps_packets st) \<le> 500 \<and> length (ss_observations s) \<le> 20000
    \<and> distinct (map so_observationKey (ss_observations s))
    \<and> distinct (map getRawPacketObservationKey (ps_packets st))
    \<and> (ss_trimmed s = 0 \<or> length (ss_observations s) = 20000)
    \<and> (told \<longleftrightarrow> \<not> (getRawPacketObservationKey p \<in> getRawPacketObservationKey ` set (ps_packets st)
                \<and> getRawPacketObservationKey p \<in> so_observationKey ` set (ss_observations s)))
    \<and> (getRawPacketObservationKey p \<in> so_observationKey ` set (ss_observations s)
       \<or> ss_total (ps_session after) = ss_total s + 1
         \<and> last (ss_observations (ps_session after)) = summarizeRawPacketForStats lib p)"
proof -
  define st where "st = foldl (store_step lib) (newPacketStore now) ops"
  have ok: "store_ok st" unfolding st_def by (rule store_run_ok)
  let ?k = "getRawPacketObservationKey p" and ?s = "ps_session st"
  have seen: "list_ex (\<lambda>q. getRawPacketObservationKey q = ?k) (ps_packets st)
      \<longleftrightarrow> ?k \<in> getRawPacketObservationKey ` set (ps_packets st)"
    "list_ex (\<lambda>c. so_observationKey c = ?k) (ss_observations ?s)
      \<longleftrightarrow> ?k \<in> so_observationKey ` set (ss_observations ?s)"
    by (rule list_ex_key)+
  have new: "ss_total (observePacket lib ?s p) = ss_total ?s + 1
      \<and> last (ss_observations (observePacket lib ?s p)) = summarizeRawPacketForStats lib p"
    if "?k \<notin> so_observationKey ` set (ss_observations ?s)"
    using that by (simp add: observePacket_def seen Let_def MAX_RAW_PACKET_STATS_OBSERVATIONS_def)
  show ?thesis
    unfolding st_def [symmetric] Let_def recordRawPacket_def seen
    using ok new by (auto simp: store_ok_def session_ok_def MAX_RAW_PACKETS_def MAX_RAW_PACKET_STATS_OBSERVATIONS_def)
qed

end
