(* ===== verification/Reception.thy ===== *)
theory Reception
imports Decoder WdTypes
begin

text \<open>What the radio heard, read for the driver (\<^verbatim>\<open>decode/reception.ts\<close>, \<^verbatim>\<open>decode/channels.ts\<close>), and where the
  page's names come from (\<^verbatim>\<open>nodeSources.ts\<close>, without the database calls). The decoder library is the
  record \<open>library\<close>: decoding with a list of channel secrets, the check of an advert's
  signature, the decryption test of a channel message, and the names of types and roles. SHA-256 is a parameter.\<close>

subsection \<open>Channel keys\<close>

record channel =
  ch_name :: jstr
  ch_secret :: jstr

definition PUBLIC_CHANNEL :: channel where
  "PUBLIC_CHANNEL = \<lparr>ch_name = (str ''Public''), ch_secret = (str ''8b3387e9c5cdea6ac9e5edbaa115cd72'')\<rparr>"

definition MAX_NAME_BYTES :: nat where "MAX_NAME_BYTES = 32"

definition PUBLIC_HASH :: jstr where "PUBLIC_HASH = (str ''11'')"

text \<open>The options' key store is the list of secrets it is made of.\<close>

record channel_keys =
  ck_secrets :: "jstr list"
  ck_nameByHash :: "(jstr \<times> jstr) list"
  ck_byHash :: "(jstr \<times> channel list) list"

definition publicChannelKeys :: channel_keys where
  "publicChannelKeys =
     \<lparr>ck_secrets = [ch_secret PUBLIC_CHANNEL], ck_nameByHash = [(PUBLIC_HASH, ch_name PUBLIC_CHANNEL)],
      ck_byHash = [(PUBLIC_HASH, [PUBLIC_CHANNEL])]\<rparr>"

definition normalizeHashtag :: "jstr \<Rightarrow> jstr option" where
  "normalizeHashtag name =
     (let bare = trim (dropWhile (\<lambda>c. c = 35) (trim name)) in
      if bare = [] then None
      else
        let tagged = 35 # bare in
        if length (utf8_encode tagged) > MAX_NAME_BYTES then None else Some tagged)"

definition deriveChannelSecret :: "(bytes \<Rightarrow> bytes) \<Rightarrow> jstr \<Rightarrow> jstr" where
  "deriveChannelSecret sha name =
     (let tagged = (if startsWith name [35] then name else 35 # name)
      in bytesToHex (take 16 (sha (utf8_encode tagged))))"

definition channelHash :: "(bytes \<Rightarrow> bytes) \<Rightarrow> jstr \<Rightarrow> jstr" where
  "channelHash sha secretHex = bytesToHex (take 1 (sha (hexToBytes secretHex)))"

fun channels_loop :: "(bytes \<Rightarrow> bytes) \<Rightarrow> jstr list \<Rightarrow> channel list \<Rightarrow> jstr list \<Rightarrow> channel list" where
  "channels_loop sha seen channels [] = channels"
| "channels_loop sha seen channels (raw # hashtags) =
     (case normalizeHashtag raw of
        None \<Rightarrow> channels_loop sha seen channels hashtags
      | Some name \<Rightarrow>
          if name \<in> set seen then channels_loop sha seen channels hashtags
          else channels_loop sha (name # seen)
            (channels @ [\<lparr>ch_name = name, ch_secret = deriveChannelSecret sha name\<rparr>]) hashtags)"

definition add_hash :: "(bytes \<Rightarrow> bytes) \<Rightarrow> channel_keys \<Rightarrow> channel \<Rightarrow> channel_keys" where
  "add_hash sha k c =
     (let hash = channelHash sha (ch_secret c) in
      k\<lparr>ck_nameByHash := (if map_of (ck_nameByHash k) hash = None
          then amap_set hash (ch_name c) (ck_nameByHash k) else ck_nameByHash k),
        ck_byHash := amap_set hash
          ((case map_of (ck_byHash k) hash of None \<Rightarrow> [] | Some cs \<Rightarrow> cs) @ [c]) (ck_byHash k)\<rparr>)"

definition buildChannelKeys :: "(bytes \<Rightarrow> bytes) \<Rightarrow> jstr list \<Rightarrow> channel_keys" where
  "buildChannelKeys sha hashtags =
     (let channels = channels_loop sha [] [PUBLIC_CHANNEL] hashtags
      in foldl (add_hash sha)
        \<lparr>ck_secrets = map ch_secret channels, ck_nameByHash = [], ck_byHash = []\<rparr> channels)"

subsection \<open>The reading of a reception\<close>

record library =
  lb_decode :: "jstr list \<Rightarrow> jstr \<Rightarrow> decoded_packet option"
  lb_signatureValid :: "jstr list \<Rightarrow> jstr \<Rightarrow> bool option"
  lb_decrypts :: "jstr \<Rightarrow> jstr \<Rightarrow> jstr \<Rightarrow> bool"
  lb_payloadTypeName :: "nat \<Rightarrow> jstr"
  lb_roleName :: "jsnum \<Rightarrow> jstr"

record decoded =
  de_packetType :: jstr
  de_hops :: nat
  de_heardDirect :: bool
  de_sender :: sender
  de_channel :: "jstr option"
  de_text :: "jstr option"
  de_traceTag :: "jstr option"
  de_heardUsSnr :: "real option"

definition UNKNOWN_TYPE :: jstr where "UNKNOWN_TYPE = (str ''Unknown'')"

definition unknown_reception :: decoded where
  "unknown_reception =
     \<lparr>de_packetType = UNKNOWN_TYPE, de_hops = 0, de_heardDirect = False, de_sender = NO_SENDER,
      de_channel = None, de_text = None, de_traceTag = None, de_heardUsSnr = None\<rparr>"

definition typeName :: "library \<Rightarrow> nat \<Rightarrow> jstr" where
  "typeName lib payloadType =
     (let name = lb_payloadTypeName lib payloadType
      in if startsWith name UNKNOWN_TYPE then UNKNOWN_TYPE else name)"

definition isFlood :: "nat \<Rightarrow> bool" where
  "isFlood route \<longleftrightarrow> route = RT_Flood \<or> route = RT_TransportFlood"

text \<open>\<^verbatim>\<open>(v ?? {}).k\<close> of a field that may be absent, null or no object.\<close>

definition sub_field :: "json option \<Rightarrow> string \<Rightarrow> json option" where
  "sub_field v k = (case v of None \<Rightarrow> None | Some j \<Rightarrow> json_prop j (str k))"

definition sender_as :: "sender_kind \<Rightarrow> jstr \<Rightarrow> jstr option \<Rightarrow> jstr option \<Rightarrow> sender" where
  "sender_as k i label role = \<lparr>s_kind = Some k, s_id = Some i, s_label = label, s_role = role\<rparr>"

definition relay_of :: "decoded_packet \<Rightarrow> sender" where
  "relay_of d =
     (let last' = (if isFlood (dp_routeType d)
          then (case dp_path d of None \<Rightarrow> None | Some p \<Rightarrow> if p = [] then None else or_null (last p)) else None)
      in case last' of
           None \<Rightarrow> NO_SENDER
         | Some l \<Rightarrow>
             (let i = toLowerCase l in
              if length i \<ge> 4 then sender_as Relay i None None
              else if length i = 2 then sender_as PathHash i (Some i) None
              else NO_SENDER))"

text \<open>The last argument is the outcome of the signature check, made for adverts only.\<close>

definition advert_of :: "library \<Rightarrow> decoded_packet \<Rightarrow> bool \<Rightarrow> sender" where
  "advert_of lib d sigOk =
     (case text_field (payload_field d ''publicKey'') of
        None \<Rightarrow> NO_SENDER
      | Some key \<Rightarrow>
          if \<not> sigOk then NO_SENDER
          else
            let app = payload_field d ''appData'';
                role = (case sub_field app ''deviceRole'' of
                    Some (JNum n) \<Rightarrow> Some (lb_roleName lib n) | _ \<Rightarrow> None)
            in sender_as AdvertPubkey (toLowerCase key) (text_field (sub_field app ''name'')) role)"

definition senderOf :: "library \<Rightarrow> decoded_packet \<Rightarrow> nat \<Rightarrow> bool \<Rightarrow> sender" where
  "senderOf lib d hops sigOk =
     (if dp_payloadType d = PT_Trace then NO_SENDER
      else if hops > 0 then relay_of d
      else if dp_payloadType d = PT_Advert then advert_of lib d sigOk
      else if dp_payloadType d = PT_GroupText then
        (case text_field (sub_field (payload_field d ''decrypted'') ''sender'') of
           None \<Rightarrow> NO_SENDER
         | Some name \<Rightarrow> sender_as ChannelName name (Some name) None)
      else
        case text_field (payload_field d ''publicKey'') of
          Some key \<Rightarrow> sender_as DiscoverPubkey (toLowerCase key) None (text_field (payload_field d ''nodeTypeName''))
        | None \<Rightarrow>
            (case text_field (payload_field d ''sourceHash'') of
               Some source \<Rightarrow> sender_as DirectHash (toLowerCase source) (Some (toLowerCase source)) None
             | None \<Rightarrow> NO_SENDER))"

definition channelOf :: "library \<Rightarrow> decoded_packet \<Rightarrow> channel_keys \<Rightarrow> jstr option" where
  "channelOf lib d keys =
     (let candidates = (case text_field (payload_field d ''channelHash'') of
          None \<Rightarrow> []
        | Some h \<Rightarrow> (case map_of (ck_byHash keys) (toLowerCase h) of None \<Rightarrow> [] | Some cs \<Rightarrow> cs))
      in case candidates of
           [] \<Rightarrow> None
         | [c] \<Rightarrow> Some (ch_name c)
         | _ \<Rightarrow>
             (case (text_field (payload_field d ''ciphertext''), text_field (payload_field d ''cipherMac'')) of
                (Some ciphertext, Some mac) \<Rightarrow>
                  map_option ch_name (find (\<lambda>c. lb_decrypts lib ciphertext mac (ch_secret c)) candidates)
              | _ \<Rightarrow> None))"

fun truthy :: "json option \<Rightarrow> bool" where
  "truthy None = False"
| "truthy (Some JNull) = False"
| "truthy (Some (JBool b)) = b"
| "truthy (Some (JNum n)) = (n \<noteq> Fin 0 \<and> n \<noteq> NaN)"
| "truthy (Some (JStr s)) = (s \<noteq> [])"
| "truthy (Some _) = True"

definition traceTagOf :: "decoded_packet \<Rightarrow> jstr option" where
  "traceTagOf d =
     (case text_field (payload_field d ''traceTag'') of
        Some tag \<Rightarrow> if length tag \<le> 8 \<and> list_all is_hex tag then Some (padStart 8 48 (toLowerCase tag)) else None
      | None \<Rightarrow> None)"

definition heardUsSnrOf :: "decoded_packet \<Rightarrow> real option" where
  "heardUsSnrOf d =
     (case payload_field d ''snrValues'' of
        Some (JArr (JNum (Fin r) # _)) \<Rightarrow> Some r
      | _ \<Rightarrow> None)"

text \<open>What is decoded without an exception, with the outcome of the signature check.\<close>

definition decode_checked :: "library \<Rightarrow> bytes \<Rightarrow> channel_keys \<Rightarrow> (decoded_packet \<times> bool) option" where
  "decode_checked lib raw keys =
     (let hex = bytesToHex raw in
      if hex = [] then None
      else case lb_decode lib (ck_secrets keys) hex of
        None \<Rightarrow> None
      | Some d \<Rightarrow>
          if \<not> dp_isValid d \<or> payload_field d ''isValid'' = Some (JBool False) then None
          else if dp_payloadType d = PT_Advert \<and> truthy (dp_decoded d) then
            (case lb_signatureValid lib (ck_secrets keys) hex of
               None \<Rightarrow> None
             | Some sigOk \<Rightarrow> Some (d, sigOk))
          else Some (d, False))"

definition decodeReception :: "library \<Rightarrow> bytes \<Rightarrow> channel_keys \<Rightarrow> decoded" where
  "decodeReception lib raw keys =
     (case decode_checked lib raw keys of
        None \<Rightarrow> unknown_reception
      | Some (d, sigOk) \<Rightarrow>
          (let hops = dp_pathLength d;
               sender = senderOf lib d hops sigOk;
               decrypted = payload_field d ''decrypted'';
               readable = (dp_payloadType d = PT_GroupText \<and> truthy decrypted);
               trace = (dp_payloadType d = PT_Trace)
           in \<lparr>de_packetType = typeName lib (dp_payloadType d), de_hops = hops,
               de_heardDirect = (s_kind sender \<noteq> None), de_sender = sender,
               de_channel = (if readable then channelOf lib d keys else None),
               de_text = (if readable then text_field (sub_field decrypted ''message'') else None),
               de_traceTag = (if trace then traceTagOf d else None),
               de_heardUsSnr = (if trace then heardUsSnrOf d else None)\<rparr>))"

subsection \<open>Where the names come from\<close>

record node_box =
  nb_minLat :: real
  nb_maxLat :: real
  nb_minLon :: real
  nb_maxLon :: real

definition BOX_HALF_LAT :: real where "BOX_HALF_LAT = 1"
definition BOX_HALF_LON :: real where "BOX_HALF_LON = 16 / 10"

definition boxAround :: "real \<Rightarrow> real \<Rightarrow> node_box" where
  "boxAround lat lon =
     \<lparr>nb_minLat = lat - BOX_HALF_LAT, nb_maxLat = lat + BOX_HALF_LAT,
      nb_minLon = lon - BOX_HALF_LON, nb_maxLon = lon + BOX_HALF_LON\<rparr>"

definition needsNewBox :: "node_box option \<Rightarrow> real \<Rightarrow> real \<Rightarrow> bool" where
  "needsNewBox box lat lon =
     (case box of
        None \<Rightarrow> True
      | Some b \<Rightarrow>
          (let midLat = (nb_minLat b + nb_maxLat b) / 2;
               midLon = (nb_minLon b + nb_maxLon b) / 2;
               quarterLat = (nb_maxLat b - nb_minLat b) / 4;
               quarterLon = (nb_maxLon b - nb_minLon b) / 4
           in \<bar>lat - midLat\<bar> > quarterLat \<or> \<bar>lon - midLon\<bar> > quarterLon))"

definition servedToNode :: "directory_node \<Rightarrow> directory_node" where
  "servedToNode n = n\<lparr>dn_publicKey := toLowerCase (dn_publicKey n)\<rparr>"

lemma box_kept_in_the_middle:
  "needsNewBox (Some (boxAround a b)) lat lon \<longleftrightarrow> \<bar>lat - a\<bar> > 1 / 2 \<or> \<bar>lon - b\<bar> > 8 / 10"
  by (simp add: needsNewBox_def boxAround_def BOX_HALF_LAT_def BOX_HALF_LON_def Let_def)

fun string_value :: "json \<Rightarrow> jstr option" where
  "string_value (JStr s) = Some s"
| "string_value _ = None"

definition loadDriverChannels :: "jstr option \<Rightarrow> jstr list" where
  "loadDriverChannels stored =
     (case json_parse (case stored of None \<Rightarrow> (str ''[]'') | Some t \<Rightarrow> t) of
        Some (JArr xs) \<Rightarrow> List.map_filter string_value xs
      | _ \<Rightarrow> [])"

definition saveDriverChannels :: "jstr list \<Rightarrow> jstr" where
  "saveDriverChannels names = stringify (JArr (map JStr names))"

lemma driver_channels_survive: "loadDriverChannels (Some (saveDriverChannels names)) = names"
proof -
  have "json_parse (saveDriverChannels names) = Some (JArr (map JStr names))"
    unfolding saveDriverChannels_def by (rule json_parse_stringify) (simp add: list_all_iff)
  moreover have "List.map_filter string_value (map JStr names) = names"
    by (induction names) (simp_all add: map_filter_simps)
  ultimately show ?thesis by (simp add: loadDriverChannels_def)
qed

subsection \<open>Lemmas on the keys\<close>

lemma normalized_fits: "normalizeHashtag raw = Some n \<Longrightarrow> length (utf8_encode n) \<le> MAX_NAME_BYTES \<and> hd n = 35"
  by (auto simp: normalizeHashtag_def Let_def split: if_splits)

lemma channels_loop_members:
  assumes "c \<in> set (channels_loop sha seen channels tags)" "c \<notin> set channels"
  shows "\<exists>raw \<in> set tags. normalizeHashtag raw = Some (ch_name c) \<and> ch_secret c = deriveChannelSecret sha (ch_name c)"
  using assms
proof (induction tags arbitrary: seen channels)
  case (Cons t ts)
  show ?case
  proof (cases "normalizeHashtag t")
    case None
    then show ?thesis using Cons by simp
  next
    case (Some n)
    show ?thesis
    proof (cases "n \<in> set seen")
      case True
      then show ?thesis using Cons Some by simp
    next
      case False
      let ?new = "\<lparr>ch_name = n, ch_secret = deriveChannelSecret sha n\<rparr>"
      show ?thesis
      proof (cases "c = ?new")
        case True
        then show ?thesis using Some by simp
      next
        case new: False
        have "c \<in> set (channels_loop sha (n # seen) (channels @ [?new]) ts)"
          using Cons.prems(1) Some False by simp
        moreover have "c \<notin> set (channels @ [?new])" using Cons.prems(2) new by simp
        ultimately show ?thesis using Cons.IH by simp
      qed
    qed
  qed
qed simp

lemma channels_loop_keeps: "set channels \<subseteq> set (channels_loop sha seen channels tags)"
proof (induction tags arbitrary: seen channels)
  case (Cons t ts)
  show ?case
  proof (cases "normalizeHashtag t")
    case None
    then show ?thesis using Cons.IH [of channels seen] by simp
  next
    case (Some n)
    have "set channels \<subseteq> set (channels_loop sha (n # seen) (channels @ [c]) ts)" for c
      using Cons.IH [of "channels @ [c]" "n # seen"] by simp
    then show ?thesis using Some Cons.IH [of channels seen] by simp
  qed
qed simp

text \<open>The bucket of a hash is the channels with that hash, in order; its name is the first one's.\<close>

definition bucket_ok :: "(bytes \<Rightarrow> bytes) \<Rightarrow> channel list \<Rightarrow> channel_keys \<Rightarrow> bool" where
  "bucket_ok sha cs k \<longleftrightarrow>
     (\<forall>h. (case map_of (ck_byHash k) h of None \<Rightarrow> [] | Some l \<Rightarrow> l)
            = filter (\<lambda>c. channelHash sha (ch_secret c) = h) cs
        \<and> map_of (ck_nameByHash k) h
            = map_option ch_name (find (\<lambda>c. channelHash sha (ch_secret c) = h) cs))"

lemma bucket_add: "bucket_ok sha cs k \<Longrightarrow> bucket_ok sha (cs @ [c]) (add_hash sha k c)"
  unfolding bucket_ok_def add_hash_def Let_def
  by (auto simp: find_snoc split: option.splits)

lemma bucket_fold: "bucket_ok sha done k \<Longrightarrow> bucket_ok sha (done @ cs) (foldl (add_hash sha) k cs)"
proof (induction cs arbitrary: "done" k)
  case (Cons c cs)
  from Cons.IH [OF bucket_add [OF Cons.prems, of c]] show ?case by simp
qed simp

lemma built_buckets:
  "bucket_ok sha (channels_loop sha [] [PUBLIC_CHANNEL] tags) (buildChannelKeys sha tags)"
  using bucket_fold [of sha "[]" "\<lparr>ck_secrets = s, ck_nameByHash = [], ck_byHash = []\<rparr>"
      "channels_loop sha [] [PUBLIC_CHANNEL] tags" for s]
  by (simp add: buildChannelKeys_def Let_def bucket_ok_def)

lemma sender_cases:
  "senderOf lib d hops ok = NO_SENDER
   \<or> (s_kind (senderOf lib d hops ok) \<noteq> None \<and> s_id (senderOf lib d hops ok) \<noteq> None
      \<and> dp_payloadType d \<noteq> PT_Trace
      \<and> (if hops > 0 then s_kind (senderOf lib d hops ok) \<in> {Some Relay, Some PathHash}
         else s_kind (senderOf lib d hops ok) \<in> {Some AdvertPubkey, Some ChannelName, Some DiscoverPubkey, Some DirectHash}))"
  by (auto simp: senderOf_def relay_of_def advert_of_def sender_as_def Let_def split: option.split)

lemma relay_path:
  assumes "s_kind (senderOf lib d hops ok) \<in> {Some Relay, Some PathHash}"
  shows "\<exists>p. dp_path d = Some p \<and> p \<noteq> [] \<and> isFlood (dp_routeType d)
    \<and> s_id (senderOf lib d hops ok) = Some (toLowerCase (last p))"
  using assms
  by (auto simp: senderOf_def relay_of_def advert_of_def sender_as_def NO_SENDER_def or_null_def Let_def
      split: option.splits if_splits)

lemma advert_signed:
  assumes "s_kind (senderOf lib d hops ok) = Some AdvertPubkey"
  shows "hops = 0 \<and> ok \<and> dp_payloadType d = PT_Advert"
  using assms
  by (auto simp: senderOf_def relay_of_def advert_of_def sender_as_def NO_SENDER_def Let_def
      split: option.splits if_splits)


definition sample_library :: library where
  "sample_library =
     \<lparr>lb_decode = (\<lambda>secrets hex. Some
        \<lparr>dp_isValid = True, dp_payloadVersion = 0, dp_payloadType = PT_Advert, dp_routeType = RT_Flood,
         dp_pathLength = 1, dp_totalBytes = None, dp_path = Some [(str ''AB'')], dp_pathHashSize = None,
         dp_raw = [], dp_decoded = Some (JObj [((str ''publicKey''), JStr (str ''CD''))])\<rparr>),
      lb_signatureValid = (\<lambda>secrets hex. Some True), lb_decrypts = (\<lambda>c m k. False),
      lb_payloadTypeName = (\<lambda>n. (str ''Advert'')), lb_roleName = (\<lambda>n. [])\<rparr>"


definition hashed_as :: "decoded_packet \<Rightarrow> jstr option" where
  "hashed_as d = map_option toLowerCase (text_field (payload_field d ''channelHash''))"

text \<open>C19: a channel message is labelled with a channel whose key it fits. Over the keys built from any list of
  hashtags: the label is the name of a known channel whose hash the packet carries, which is
  the only one with that hash or whose key decrypts the message; when exactly one known channel has the
  hash, it is the label; every known channel is Public or a listed hashtag of at most 32 bytes with
  the secret of its name.\<close>

theorem channel_label_fits_key:
  "let cs = channels_loop sha [] [PUBLIC_CHANNEL] tags; keys = buildChannelKeys sha tags;
       same = filter (\<lambda>c. Some (channelHash sha (ch_secret c)) = hashed_as d) cs
   in (\<forall>n. channelOf lib d keys = Some n \<longrightarrow>
        (\<exists>c \<in> set same. ch_name c = n \<and> (same = [c] \<or> (\<exists>t mac.
           text_field (payload_field d ''ciphertext'') = Some t
           \<and> text_field (payload_field d ''cipherMac'') = Some mac \<and> lb_decrypts lib t mac (ch_secret c)))))
    \<and> (\<forall>c. same = [c] \<longrightarrow> channelOf lib d keys = Some (ch_name c))
    \<and> (\<forall>c \<in> set cs. c = PUBLIC_CHANNEL \<or> (\<exists>raw \<in> set tags. normalizeHashtag raw = Some (ch_name c))
         \<and> ch_secret c = deriveChannelSecret sha (ch_name c) \<and> length (utf8_encode (ch_name c)) \<le> MAX_NAME_BYTES)"
proof -
  define cs where "cs = channels_loop sha [] [PUBLIC_CHANNEL] tags"
  define keys where "keys = buildChannelKeys sha tags"
  define same where "same = filter (\<lambda>c. Some (channelHash sha (ch_secret c)) = hashed_as d) cs"
  have bucket: "(case map_of (ck_byHash keys) h of None \<Rightarrow> [] | Some l \<Rightarrow> l)
      = filter (\<lambda>c. channelHash sha (ch_secret c) = h) cs" for h
    using built_buckets [of sha tags] unfolding bucket_ok_def cs_def keys_def by blast
  have candidates: "(case text_field (payload_field d ''channelHash'') of None \<Rightarrow> []
      | Some h \<Rightarrow> (case map_of (ck_byHash keys) (toLowerCase h) of None \<Rightarrow> [] | Some l \<Rightarrow> l)) = same"
    using bucket by (auto simp: same_def hashed_as_def split: option.split)
  note label = channelOf_def [of lib d keys, unfolded Let_def candidates]
  have single: "channelOf lib d keys = Some (ch_name c)" if "same = [c]" for c
    unfolding label that by simp
  have found: "\<exists>c \<in> set same. ch_name c = n \<and> (same = [c] \<or> (\<exists>t mac.
           text_field (payload_field d ''ciphertext'') = Some t
           \<and> text_field (payload_field d ''cipherMac'') = Some mac \<and> lb_decrypts lib t mac (ch_secret c)))"
    if l: "channelOf lib d keys = Some n" for n
  proof (cases "\<exists>c. same = [c]")
    case True
    then obtain c where "same = [c]" by blast
    with l single show ?thesis by simp
  next
    case False
    with l obtain t mac where "text_field (payload_field d ''ciphertext'') = Some t"
      "text_field (payload_field d ''cipherMac'') = Some mac"
      and f: "map_option ch_name (find (\<lambda>c. lb_decrypts lib t mac (ch_secret c)) same) = Some n"
      unfolding label by (auto split: list.splits option.splits)
    then show ?thesis using f find_Some_set [of _ same] by (fastforce simp: map_option_case split: option.splits)
  qed
  have "c = PUBLIC_CHANNEL \<or> (\<exists>raw \<in> set tags. normalizeHashtag raw = Some (ch_name c))
         \<and> ch_secret c = deriveChannelSecret sha (ch_name c) \<and> length (utf8_encode (ch_name c)) \<le> MAX_NAME_BYTES"
    if "c \<in> set cs" for c
    using channels_loop_members [of c sha "[]" "[PUBLIC_CHANNEL]" tags] that normalized_fits
    unfolding cs_def by auto
  then show ?thesis
    unfolding Let_def cs_def [symmetric] keys_def [symmetric] same_def [symmetric]
    using single found by blast
qed

definition public_message :: decoded_packet where
  "public_message =
     \<lparr>dp_isValid = True, dp_payloadVersion = 0, dp_payloadType = PT_GroupText, dp_routeType = RT_Flood,
      dp_pathLength = 0, dp_totalBytes = None, dp_path = None, dp_pathHashSize = None, dp_raw = [],
      dp_decoded = Some (JObj [((str ''channelHash''), JStr (str ''11''))])\<rparr>"

theorem channel_label_fits_key_witness:
  "channelOf sample_library public_message (buildChannelKeys (\<lambda>b. [17]) []) = Some (ch_name PUBLIC_CHANNEL)"
proof -
  have h: "channelHash (\<lambda>b. [17]) k = (str ''11'')" for k
    by (simp add: channelHash_def bytesToHex_Cons hex2_digits hex_digit_def)
  have "hashed_as public_message = Some (str ''11'')"
    by (simp add: hashed_as_def public_message_def payload_field_def text_field_def toLowerCase_def lower_char_def)
  with h have "filter (\<lambda>c. Some (channelHash (\<lambda>b. [17]) (ch_secret c)) = hashed_as public_message)
      (channels_loop (\<lambda>b. [17]) [] [PUBLIC_CHANNEL] []) = [PUBLIC_CHANNEL]" by simp
  then show ?thesis
    using channel_label_fits_key [of "\<lambda>b. [17]" "[]" public_message sample_library] unfolding Let_def by blast
qed

end
