(* ===== verification/Visual.thy ===== *)
theory Visual
imports PacketStats Reception Paths "HOL-Library.List_Lexorder" "HOL-Library.Word"
begin

text \<open>The data layer of the network views (\<^verbatim>\<open>frontend/src/utils/visualizerUtils.ts\<close>, with
  \<^verbatim>\<open>hashString\<close> of \<^verbatim>\<open>contactAvatar.ts\<close> and \<^verbatim>\<open>normalizePacketTimestampMs\<close> of
  \<^verbatim>\<open>components/visualizer/shared.ts\<close>): a packet read for the graph, its key and label, link keys, compacting a
  path whose hidden hops leave a dashed link, and the traffic record that decides whether an
  ambiguous repeater is shown as several. The decoder and its message hash are parameters. Strings are ordered by code point.\<close>

subsection \<open>Sets and texts\<close>

text \<open>\<^verbatim>\<open>x || null\<close> of a text: the empty one counts as absent.\<close>

definition nonempty :: "jstr option \<Rightarrow> jstr option" where
  "nonempty v = (case v of Some s \<Rightarrow> if s = [] then None else Some s | None \<Rightarrow> None)"

lemma nonempty_Some [simp]: "nonempty v = Some s \<longleftrightarrow> v = Some s \<and> s \<noteq> []"
  by (auto simp: nonempty_def split: option.splits)

subsection \<open>Node ids and labels\<close>

datatype node_type = NSelf | NRepeater | NClient

definition normalizeHopToken :: "jstr option \<Rightarrow> jstr option" where
  "normalizeHopToken hop =
     (let normalized = (case hop of Some h \<Rightarrow> toLowerCase (trim h) | None \<Rightarrow> [])
      in if length normalized > 0 then Some normalized else None)"

definition buildAmbiguousRepeaterNodeId :: "jstr \<Rightarrow> jstr option \<Rightarrow> jstr" where
  "buildAmbiguousRepeaterNodeId hop nextHop =
     (case normalizeHopToken (Some hop) of
        None \<Rightarrow> (str ''?'')
      | Some hopKey \<Rightarrow>
          (case normalizeHopToken nextHop of
             Some nextHopKey \<Rightarrow> (str ''?'') @ hopKey @ (str '':>'') @ nextHopKey
           | None \<Rightarrow> (str ''?'') @ hopKey))"

definition buildAmbiguousRepeaterLabel :: "jstr \<Rightarrow> jstr option \<Rightarrow> jstr" where
  "buildAmbiguousRepeaterLabel hop nextHop =
     (case normalizeHopToken (Some hop) of
        None \<Rightarrow> (str ''?'')
      | Some hopKey \<Rightarrow>
          (case normalizeHopToken nextHop of
             Some nextHopKey \<Rightarrow> toUpperCase hopKey @ (str '':>'') @ toUpperCase nextHopKey
           | None \<Rightarrow> toUpperCase hopKey))"

subsection \<open>Packets\<close>

record parsed_packet =
  pp_payloadType :: nat
  pp_messageHash :: "jstr option"
  pp_pathBytes :: "jstr list"
  pp_srcHash :: "jstr option"
  pp_dstHash :: "jstr option"
  pp_advertPubkey :: "jstr option"
  pp_groupTextSender :: "jstr option"
  pp_anonRequestPubkey :: "jstr option"

record graph_decoder =
  gd_decode :: "jstr \<Rightarrow> decoded_packet option"
  gd_messageHash :: "decoded_packet \<Rightarrow> jstr option"

definition PT_Ack :: nat where "PT_Ack = 3"

text \<open>The hop hashes of a trace, when the decoded payload has the list (an empty list is truthy).\<close>

definition trace_hashes :: "decoded_packet \<Rightarrow> jstr list option" where
  "trace_hashes d =
     (if dp_payloadType d = PT_Trace
      then (case payload_field d ''pathHashes'' of
              Some (JArr vs) \<Rightarrow> Some (List.map_filter (\<lambda>v. case v of JStr s \<Rightarrow> Some s | _ \<Rightarrow> None) vs)
            | _ \<Rightarrow> None)
      else None)"

definition parsePacket :: "graph_decoder \<Rightarrow> jstr \<Rightarrow> parsed_packet option" where
  "parsePacket lib hexData =
     (case gd_decode lib hexData of
        None \<Rightarrow> None
      | Some d \<Rightarrow>
          if \<not> dp_isValid d then None
          else
            let t = dp_payloadType d;
                result =
                  \<lparr>pp_payloadType = t,
                   pp_messageHash = nonempty (gd_messageHash lib d),
                   pp_pathBytes =
                     (case trace_hashes d of
                        Some hs \<Rightarrow> hs
                      | None \<Rightarrow> (case dp_path d of Some p \<Rightarrow> p | None \<Rightarrow> [])),
                   pp_srcHash = None, pp_dstHash = None, pp_advertPubkey = None,
                   pp_groupTextSender = None, pp_anonRequestPubkey = None\<rparr>
            in Some
              (if t = PT_TextMessage then
                 result\<lparr>pp_srcHash := text_field (payload_field d ''sourceHash''),
                        pp_dstHash := text_field (payload_field d ''destinationHash'')\<rparr>
               else if t = PT_Advert then
                 result\<lparr>pp_advertPubkey := text_field (payload_field d ''publicKey'')\<rparr>
               else if t = PT_GroupText then
                 result\<lparr>pp_groupTextSender :=
                   text_field (sub_field (payload_field d ''decrypted'') ''sender'')\<rparr>
               else if t = PT_AnonRequest then
                 result\<lparr>pp_anonRequestPubkey := text_field (payload_field d ''senderPublicKey'')\<rparr>
               else result))"

definition getPacketLabel :: "nat \<Rightarrow> jstr" where
  "getPacketLabel t =
     (if t = PT_Advert then (str ''AD'')
      else if t = PT_GroupText then (str ''GT'')
      else if t = PT_TextMessage then (str ''DM'')
      else if t = PT_Ack then (str ''ACK'')
      else if t = PT_Trace then (str ''TR'')
      else if t = PT_Request \<or> t = PT_AnonRequest then (str ''RQ'')
      else if t = PT_Response then (str ''RS'')
      else (str ''?''))"

text \<open>The DJB2 hash in 32-bit arithmetic: \<^verbatim>\<open>hash & hash\<close> wraps, and \<^verbatim>\<open>Math.abs\<close> of
  the smallest number is representable.\<close>

definition hashString :: "jstr \<Rightarrow> nat" where
  "hashString s =
     nat \<bar>sint (foldl (\<lambda>hash c. push_bit 5 hash - hash + of_nat c) (0 :: 32 word) s)\<bar>"

definition generatePacketKey :: "parsed_packet \<Rightarrow> raw_packet \<Rightarrow> jstr" where
  "generatePacketKey p rawPacket =
     (let contentHash =
            take 8 (case nonempty (pp_messageHash p) of
                      Some h \<Rightarrow> h
                    | None \<Rightarrow> padStart 8 48 (toString16 (hashString (rk_data rawPacket))));
          info = rk_decrypted_info rawPacket;
          or_mark = (\<lambda>v. case nonempty v of Some s \<Rightarrow> s | None \<Rightarrow> (str ''?''))
      in if pp_payloadType p = PT_Advert \<and> nonempty (pp_advertPubkey p) \<noteq> None
         then (str ''ad:'') @ take 12 (the (pp_advertPubkey p))
         else if pp_payloadType p = PT_GroupText then
           let sender = (case nonempty (pp_groupTextSender p) of
                           Some s \<Rightarrow> s
                         | None \<Rightarrow> or_mark (case info of Some i \<Rightarrow> di_sender i | None \<Rightarrow> None));
               channel = or_mark (case info of Some i \<Rightarrow> di_channel_name i | None \<Rightarrow> None)
           in (str ''gt:'') @ channel @ (str '':'') @ sender @ (str '':'') @ contentHash
         else if pp_payloadType p = PT_TextMessage
         then (str ''dm:'') @ or_mark (pp_srcHash p) @ (str '':'') @ or_mark (pp_dstHash p) @ (str '':'') @ contentHash
         else if pp_payloadType p = PT_AnonRequest \<and> nonempty (pp_anonRequestPubkey p) \<noteq> None
         then (str ''rq:'') @ take 12 (the (pp_anonRequestPubkey p)) @ (str '':'') @ contentHash
         else (str ''other:'') @ contentHash)"

definition normalizePacketTimestampMs :: "int \<Rightarrow> int option \<Rightarrow> int" where
  "normalizePacketTimestampMs now timestamp =
     (case timestamp of
        None \<Rightarrow> now
      | Some ts \<Rightarrow>
          if ts \<le> 0 then now
          else if ts > 1000000000000 then ts else ts * 1000)"

subsection \<open>Links\<close>

definition buildLinkKey :: "jstr \<Rightarrow> jstr \<Rightarrow> jstr" where
  "buildLinkKey sourceId targetId =
     (if targetId < sourceId then targetId @ (str ''->'') @ sourceId else sourceId @ (str ''->'') @ targetId)"

lemma buildLinkKey_sym: "buildLinkKey a b = buildLinkKey b a"
  by (auto simp: buildLinkKey_def)

text \<open>\<^verbatim>\<open>filter\<close> against the element before, in the array as given.\<close>

definition dedupeConsecutive :: "'a list \<Rightarrow> 'a list" where
  "dedupeConsecutive arr =
     (case arr of
        [] \<Rightarrow> []
      | x # xs \<Rightarrow> x # map snd (filter (\<lambda>(prev, item). item \<noteq> prev) (zip arr xs)))"

lemma dedupe_zip:
  "x # map snd (filter (\<lambda>(prev, item). item \<noteq> prev) (zip (x # xs) xs)) = remdups_adj (x # xs)"
proof (induction xs arbitrary: x)
  case Nil
  then show ?case by simp
next
  case (Cons y xs)
  show ?case using Cons [of y] by (cases "x = y") simp_all
qed

lemma dedupeConsecutive_remdups_adj: "dedupeConsecutive xs = remdups_adj xs"
  by (cases xs) (simp_all add: dedupeConsecutive_def dedupe_zip del: zip_Cons_Cons)

record path_step =
  ps_nodeId :: "jstr option"
  ps_markHidden :: bool
  ps_hiddenLabel :: "jstr option"

record compact_state =
  cs_nodes :: "jstr list"
  cs_dashed :: "(jstr \<times> jstr list) list"
  cs_pendingLink :: bool
  cs_pendingLabels :: "jstr list"

definition push_labels :: "jstr list \<Rightarrow> jstr list \<Rightarrow> jstr list" where
  "push_labels new existing = foldl (\<lambda>acc label. set_add label acc) existing new"

definition compact_step :: "compact_state \<Rightarrow> path_step \<Rightarrow> compact_state" where
  "compact_step s step =
     (case nonempty (ps_nodeId step) of
        Some nodeId \<Rightarrow>
          let previous = (if cs_nodes s = [] then None else nonempty (Some (last (cs_nodes s))));
              dashed =
                (if previous \<noteq> None \<and> cs_pendingLink s \<and> previous \<noteq> Some nodeId
                 then let key = buildLinkKey (the previous) nodeId in
                      amap_set key (push_labels (cs_pendingLabels s) (entry_or [] key (cs_dashed s))) (cs_dashed s)
                 else cs_dashed s)
          in \<lparr>cs_nodes = (if previous \<noteq> Some nodeId then cs_nodes s @ [nodeId] else cs_nodes s),
              cs_dashed = dashed, cs_pendingLink = False, cs_pendingLabels = []\<rparr>
      | None \<Rightarrow>
          if ps_markHidden step \<and> cs_nodes s \<noteq> []
          then s\<lparr>cs_pendingLink := True,
                 cs_pendingLabels :=
                   (case nonempty (ps_hiddenLabel step) of
                      Some label \<Rightarrow> set_add label (cs_pendingLabels s)
                    | None \<Rightarrow> cs_pendingLabels s)\<rparr>
          else s)"

definition compactPathSteps :: "path_step list \<Rightarrow> jstr list \<times> (jstr \<times> jstr list) list" where
  "compactPathSteps steps =
     (let s = foldl compact_step
                \<lparr>cs_nodes = [], cs_dashed = [], cs_pendingLink = False, cs_pendingLabels = []\<rparr> steps
      in (cs_nodes s, cs_dashed s))"

subsection \<open>Traffic through an ambiguous repeater\<close>

record traffic_observation =
  to_source :: jstr
  to_nextHop :: "jstr option"
  to_timestamp :: int

record repeater_traffic =
  rt_hopKey :: jstr
  rt_observations :: "traffic_observation list"

definition MIN_OBSERVATIONS_TO_SPLIT :: nat where "MIN_OBSERVATIONS_TO_SPLIT = 20"
definition MAX_TRAFFIC_OBSERVATIONS :: nat where "MAX_TRAFFIC_OBSERVATIONS = 200"
definition TRAFFIC_OBSERVATION_MAX_AGE_MS :: int where "TRAFFIC_OBSERVATION_MAX_AGE_MS = 30 * 60 * 1000"

definition recent_traffic :: "int \<Rightarrow> traffic_observation list \<Rightarrow> traffic_observation list" where
  "recent_traffic now obs = filter (\<lambda>ob. now - to_timestamp ob < TRAFFIC_OBSERVATION_MAX_AGE_MS) obs"

definition hop_key_of :: "traffic_observation \<Rightarrow> jstr" where
  "hop_key_of ob = (case to_nextHop ob of Some h \<Rightarrow> h | None \<Rightarrow> (str ''self''))"

definition group_by_next :: "traffic_observation list \<Rightarrow> (jstr \<times> jstr list) list" where
  "group_by_next obs =
     foldl (\<lambda>m ob. amap_set (hop_key_of ob) (set_add (to_source ob) (entry_or [] (hop_key_of ob) m)) m) [] obs"

text \<open>The next hops each source uses.\<close>

definition hops_of_sources :: "(jstr \<times> jstr list) list \<Rightarrow> (jstr \<times> jstr list) list" where
  "hops_of_sources groups =
     foldl (\<lambda>m (nextHop, sources).
              foldl (\<lambda>m source. amap_set source (entry_or [] source m @ [nextHop]) m) m sources) [] groups"

definition analyzeRepeaterTraffic :: "int \<Rightarrow> repeater_traffic \<Rightarrow> bool \<times> (jstr \<times> jstr list) list option" where
  "analyzeRepeaterTraffic now data =
     (let byNextHop = group_by_next (recent_traffic now (rt_observations data)) in
      if length byNextHop \<le> 1 then (False, None)
      else if list_ex (\<lambda>(source, nextHops). length nextHops > 1) (hops_of_sources byNextHop) then (False, None)
      else if list_ex (\<lambda>(nextHop, sources). length sources < MIN_OBSERVATIONS_TO_SPLIT) byNextHop then (False, None)
      else (True, Some byNextHop))"

definition recordTrafficObservation ::
    "int \<Rightarrow> (jstr \<times> repeater_traffic) list \<Rightarrow> jstr \<Rightarrow> jstr \<Rightarrow> jstr option \<Rightarrow> (jstr \<times> repeater_traffic) list" where
  "recordTrafficObservation now trafficData hopKey source nextHop =
     (case normalizeHopToken (Some hopKey) of
        None \<Rightarrow> trafficData
      | Some key \<Rightarrow>
          let data = entry_or \<lparr>rt_hopKey = key, rt_observations = []\<rparr> key trafficData;
              added = rt_observations data @
                [\<lparr>to_source = source, to_nextHop = normalizeHopToken nextHop, to_timestamp = now\<rparr>];
              young = recent_traffic now added;
              kept = (if length young > MAX_TRAFFIC_OBSERVATIONS then last_n MAX_TRAFFIC_OBSERVATIONS young else young)
          in amap_set key (data\<lparr>rt_observations := kept\<rparr>) trafficData)"

subsection \<open>What the traffic record decides\<close>

definition groups_ok :: "traffic_observation list \<Rightarrow> (jstr \<times> jstr list) list \<Rightarrow> bool" where
  "groups_ok obs m \<longleftrightarrow> amap_ok m \<and> (\<forall>(k, v) \<in> set m. distinct v \<and> v \<noteq> []) \<and>
     (\<forall>k s. s \<in> set (entry_or [] k m) \<longleftrightarrow> (\<exists>ob \<in> set obs. hop_key_of ob = k \<and> to_source ob = s))"

lemma groups_ok_step:
  assumes ok: "groups_ok obs m"
  shows "groups_ok (obs @ [ob])
           (amap_set (hop_key_of ob) (set_add (to_source ob) (entry_or [] (hop_key_of ob) m)) m)"
proof -
  have d: "distinct (entry_or [] k m)" for k
    using ok entry_or_not_default [of "[]" k m] by (cases "entry_or [] k m = []") (auto simp: groups_ok_def)
  have "distinct v \<and> v \<noteq> []"
    if "(k, v) \<in> set (amap_set (hop_key_of ob) (set_add (to_source ob) (entry_or [] (hop_key_of ob) m)) m)" for k v
    using set_amap_set_cases [OF that] ok d by (auto simp: groups_ok_def)
  moreover have "s \<in> set (entry_or [] k (amap_set (hop_key_of ob) (set_add (to_source ob) (entry_or [] (hop_key_of ob) m)) m))
      \<longleftrightarrow> (\<exists>b \<in> set (obs @ [ob]). hop_key_of b = k \<and> to_source b = s)" for k s
    using ok by (auto simp: groups_ok_def entry_or_set)
  ultimately show ?thesis using ok by (auto simp: groups_ok_def)
qed

lemma group_by_next_ok: "groups_ok obs (group_by_next obs)"
  unfolding group_by_next_def
proof (induction obs rule: rev_induct)
  case Nil
  show ?case by (simp add: groups_ok_def)
next
  case (snoc ob obs)
  then show ?case by (simp add: groups_ok_step)
qed

definition hops_using :: "jstr \<Rightarrow> (jstr \<times> jstr list) list \<Rightarrow> jstr list" where
  "hops_using s groups = map fst (filter (\<lambda>(k, ss). s \<in> set ss) groups)"

lemma inner_hops:
  assumes "distinct sources"
  shows "entry_or [] s (foldl (\<lambda>m source. amap_set source (entry_or [] source m @ [h]) m) m sources)
           = entry_or [] s m @ (if s \<in> set sources then [h] else [])"
  using assms by (induction sources rule: rev_induct) (auto simp: entry_or_set)

lemma inner_ok: "amap_ok m \<Longrightarrow> amap_ok (foldl (\<lambda>m source. amap_set source (entry_or [] source m @ [h]) m) m sources)"
  by (induction sources rule: rev_induct) simp_all

lemma hops_of_sources_entry:
  assumes "\<forall>(k, v) \<in> set groups. distinct v"
  shows "amap_ok (hops_of_sources groups) \<and> entry_or [] s (hops_of_sources groups) = hops_using s groups"
  using assms unfolding hops_of_sources_def
proof (induction groups rule: rev_induct)
  case Nil
  show ?case by (simp add: hops_using_def)
next
  case (snoc g groups)
  then show ?case by (cases g) (auto simp: inner_hops inner_ok hops_using_def)
qed

lemma two_of_filter:
  assumes "distinct (map f xs)" "length (filter P xs) > 1"
  shows "\<exists>x \<in> set xs. \<exists>y \<in> set xs. P x \<and> P y \<and> f x \<noteq> f y"
proof -
  obtain a b zs where f: "filter P xs = a # b # zs"
    using assms(2) by (cases "filter P xs"; cases "tl (filter P xs)") auto
  have "distinct (map f (filter P xs))" using assms(1) by (rule distinct_map_filter)
  then have "f a \<noteq> f b" by (simp add: f)
  moreover have "set (filter P xs) \<subseteq> set xs" "\<forall>x \<in> set (filter P xs). P x" by auto
  ultimately show ?thesis using f by (metis list.set_intros(1) list.set_intros(2) subset_iff)
qed

lemma filter_of_two:
  assumes "distinct (map f xs)" "x \<in> set xs" "y \<in> set xs" "P x" "P y" "f x \<noteq> f y"
  shows "length (filter P xs) > 1"
proof (rule ccontr)
  assume "\<not> ?thesis"
  moreover have "x \<in> set (filter P xs)" "y \<in> set (filter P xs)" using assms by auto
  ultimately show False using assms(6)
    by (cases "filter P xs"; cases "tl (filter P xs)") auto
qed

text \<open>The groups of recent traffic, and when two of them share no source.\<close>

definition sources_via :: "int \<Rightarrow> repeater_traffic \<Rightarrow> jstr \<Rightarrow> jstr set" where
  "sources_via now data k =
     to_source ` {ob \<in> set (rt_observations data).
                    now - to_timestamp ob < TRAFFIC_OBSERVATION_MAX_AGE_MS \<and> hop_key_of ob = k}"

lemma group_sources:
  "set (entry_or [] k (group_by_next (recent_traffic now (rt_observations data)))) = sources_via now data k"
  using group_by_next_ok [of "recent_traffic now (rt_observations data)"]
  by (auto simp: groups_ok_def sources_via_def recent_traffic_def set_eq_iff)

lemma group_member:
  assumes "(k, v) \<in> set (group_by_next (recent_traffic now (rt_observations data)))"
  shows "set v = sources_via now data k" "distinct v"
  using assms group_by_next_ok [of "recent_traffic now (rt_observations data)"]
    group_sources [of k now data] entry_or_mem [of _ k v "[]"]
  by (auto simp: groups_ok_def)

definition next_hops :: "int \<Rightarrow> repeater_traffic \<Rightarrow> jstr set" where
  "next_hops now data = {k. sources_via now data k \<noteq> {}}"

lemma group_keys:
  "set (amap_keys (group_by_next (recent_traffic now (rt_observations data)))) = next_hops now data"
proof -
  let ?g = "group_by_next (recent_traffic now (rt_observations data))"
  have ok: "amap_ok ?g" "\<forall>(k, v) \<in> set ?g. v \<noteq> []"
    using group_by_next_ok [of "recent_traffic now (rt_observations data)"] by (auto simp: groups_ok_def)
  show ?thesis
  proof (intro equalityI subsetI)
    fix k assume "k \<in> set (amap_keys ?g)"
    then obtain v where kv: "(k, v) \<in> set ?g" by auto
    with ok(2) have "v \<noteq> []" by auto
    then have "set v \<noteq> {}" by (cases v) auto
    then show "k \<in> next_hops now data" by (simp add: next_hops_def flip: group_member(1) [OF kv])
  next
    fix k assume "k \<in> next_hops now data"
    then have "set (entry_or [] k ?g) \<noteq> {}" unfolding group_sources by (simp add: next_hops_def)
    then have "entry_or [] k ?g \<noteq> []" by auto
    from entry_or_not_default [OF this] show "k \<in> set (amap_keys ?g)" by force
  qed
qed

lemma hub_iff:
  assumes "amap_ok g" "\<forall>(k, v) \<in> set g. distinct v"
  shows "list_ex (\<lambda>(source, nextHops). length nextHops > 1) (hops_of_sources g)
    \<longleftrightarrow> (\<exists>p \<in> set g. \<exists>q \<in> set g. fst p \<noteq> fst q \<and> set (snd p) \<inter> set (snd q) \<noteq> {})" (is "?L \<longleftrightarrow> ?R")
proof
  assume ?L
  then obtain s hs where m: "(s, hs) \<in> set (hops_of_sources g)" "length hs > 1" by (auto simp: list_ex_iff)
  have "hs = hops_using s g"
    using entry_or_mem [OF conjunct1 [OF hops_of_sources_entry [OF assms(2), of s]] m(1), of "[]"]
      hops_of_sources_entry [OF assms(2), of s] by simp
  with m(2) have "length (filter (\<lambda>(k, ss). s \<in> set ss) g) > 1" by (simp add: hops_using_def)
  from two_of_filter [OF assms(1) this] show ?R by (auto simp: split_beta)
next
  assume ?R
  then obtain p q s where pq: "p \<in> set g" "q \<in> set g" "fst p \<noteq> fst q" "s \<in> set (snd p)" "s \<in> set (snd q)"
    by blast
  then have "length (filter (\<lambda>(k, ss). s \<in> set ss) g) > 1"
    using filter_of_two [OF assms(1) pq(1,2), of "\<lambda>(k, ss). s \<in> set ss"] by (auto simp: split_beta)
  then have l: "length (hops_using s g) > 1" by (simp add: hops_using_def)
  then have "entry_or [] s (hops_of_sources g) \<noteq> []"
    using hops_of_sources_entry [OF assms(2), of s] by auto
  from entry_or_not_default [OF this] l hops_of_sources_entry [OF assms(2), of s]
  show ?L by (auto simp: list_ex_iff)
qed

text \<open>An ambiguous repeater is split exactly when its recent traffic leaves over at least two next
  hops, every one of them carries at least 20 different sources, and no source uses two of them;
  the groups handed back are then those sources.\<close>

theorem split_needs_disjoint_traffic:
  "fst (analyzeRepeaterTraffic now data) \<longleftrightarrow>
     card (next_hops now data) \<ge> 2 \<and>
     (\<forall>k \<in> next_hops now data. card (sources_via now data k) \<ge> MIN_OBSERVATIONS_TO_SPLIT) \<and>
     (\<forall>k \<in> next_hops now data. \<forall>l \<in> next_hops now data.
        k \<noteq> l \<longrightarrow> sources_via now data k \<inter> sources_via now data l = {})"
proof -
  let ?g = "group_by_next (recent_traffic now (rt_observations data))"
  have ok: "amap_ok ?g" "\<forall>(k, v) \<in> set ?g. distinct v"
    using group_by_next_ok [of "recent_traffic now (rt_observations data)"] by (auto simp: groups_ok_def)
  have mem: "set (snd p) = sources_via now data (fst p)" if "p \<in> set ?g" for p
    using that group_member(1) [of "fst p" "snd p" now data] by simp
  have len: "card (sources_via now data (fst p)) = length (snd p)" if "p \<in> set ?g" for p
    using that group_member [of "fst p" "snd p" now data] by (metis distinct_card prod.collapse)
  have n: "card (next_hops now data) = length ?g"
    using distinct_card [OF ok(1)] by (simp only: group_keys length_map)
  have "fst (analyzeRepeaterTraffic now data) \<longleftrightarrow> length ?g \<ge> 2 \<and>
      \<not> (\<exists>p \<in> set ?g. \<exists>q \<in> set ?g. fst p \<noteq> fst q \<and> set (snd p) \<inter> set (snd q) \<noteq> {}) \<and>
      (\<forall>p \<in> set ?g. length (snd p) \<ge> MIN_OBSERVATIONS_TO_SPLIT)"
    using hub_iff [OF ok]
    by (simp add: analyzeRepeaterTraffic_def Let_def not_le not_less numeral_2_eq_2 list_ex_iff split_beta Bex_def Ball_def)
  also have "\<dots> \<longleftrightarrow> card (next_hops now data) \<ge> 2 \<and>
      \<not> (\<exists>k \<in> next_hops now data. \<exists>l \<in> next_hops now data.
           k \<noteq> l \<and> sources_via now data k \<inter> sources_via now data l \<noteq> {}) \<and>
      (\<forall>k \<in> next_hops now data. card (sources_via now data k) \<ge> MIN_OBSERVATIONS_TO_SPLIT)"
    proof -
    have "card (fst ` set ?g) = length ?g" using n by (simp flip: group_keys)
    then show ?thesis by (simp add: mem len flip: group_keys)
  qed
  finally show ?thesis by blast
qed

subsection \<open>The size of the traffic record\<close>

definition traffic_ok :: "int \<Rightarrow> (jstr \<times> repeater_traffic) list \<Rightarrow> bool" where
  "traffic_ok now m \<longleftrightarrow> amap_ok m \<and>
     (\<forall>(k, d) \<in> set m. rt_hopKey d = k \<and> k \<noteq> [] \<and> toLowerCase k = k \<and>
        rt_observations d \<noteq> [] \<and> length (rt_observations d) \<le> MAX_TRAFFIC_OBSERVATIONS \<and>
        (\<forall>ob \<in> set (rt_observations d). to_timestamp ob \<le> now))"

lemma normalizeHopToken_Some:
  "normalizeHopToken h = Some k \<Longrightarrow> k \<noteq> [] \<and> toLowerCase k = k"
  by (auto simp: normalizeHopToken_def Let_def split: option.splits if_splits)

lemma traffic_ok_later: "traffic_ok now m \<Longrightarrow> now \<le> now' \<Longrightarrow> traffic_ok now' m"
  by (force simp: traffic_ok_def)

lemma kept_traffic:
  assumes "\<forall>ob \<in> set obs. to_timestamp ob \<le> now" "to_timestamp new = now"
  defines "young \<equiv> recent_traffic now (obs @ [new])"
  defines "kept \<equiv> if length young > MAX_TRAFFIC_OBSERVATIONS then last_n MAX_TRAFFIC_OBSERVATIONS young else young"
  shows "kept \<noteq> [] \<and> length kept \<le> MAX_TRAFFIC_OBSERVATIONS \<and> (\<forall>ob \<in> set kept. to_timestamp ob \<le> now)"
proof (intro conjI)
  have "now - to_timestamp new < TRAFFIC_OBSERVATION_MAX_AGE_MS"
    by (simp add: assms(2) TRAFFIC_OBSERVATION_MAX_AGE_MS_def)
  then have y: "young = recent_traffic now obs @ [new]" by (simp add: young_def recent_traffic_def)
  show "kept \<noteq> []" using y by (auto simp: kept_def last_n_def MAX_TRAFFIC_OBSERVATIONS_def)
  show "length kept \<le> MAX_TRAFFIC_OBSERVATIONS" by (simp add: kept_def)
  have "set kept \<subseteq> set young" using set_last_n_subset [of MAX_TRAFFIC_OBSERVATIONS young] by (auto simp: kept_def)
  moreover have "\<forall>ob \<in> set young. to_timestamp ob \<le> now" using y assms(1,2) by (auto simp: recent_traffic_def)
  ultimately show "\<forall>ob \<in> set kept. to_timestamp ob \<le> now" by blast
qed

lemma recordTraffic_ok:
  assumes ok: "traffic_ok now m"
  shows "traffic_ok now (recordTrafficObservation now m hopKey source nextHop)"
proof (cases "normalizeHopToken (Some hopKey)")
  case None
  with ok show ?thesis by (simp add: recordTrafficObservation_def)
next
  case (Some key)
  define d where "d = entry_or \<lparr>rt_hopKey = key, rt_observations = []\<rparr> key m"
  define new where "new = \<lparr>to_source = source, to_nextHop = normalizeHopToken nextHop, to_timestamp = now\<rparr>"
  define young where "young = recent_traffic now (rt_observations d @ [new])"
  define kept where "kept = (if length young > MAX_TRAFFIC_OBSERVATIONS then last_n MAX_TRAFFIC_OBSERVATIONS young else young)"
  have key: "key \<noteq> [] \<and> toLowerCase key = key" using normalizeHopToken_Some [OF Some] .
  have d: "rt_hopKey d = key \<and> (\<forall>ob \<in> set (rt_observations d). to_timestamp ob \<le> now)"
    using ok by (auto simp: d_def traffic_ok_def entry_or_def dest: map_of_SomeD split: option.splits)
  have "kept \<noteq> [] \<and> length kept \<le> MAX_TRAFFIC_OBSERVATIONS \<and> (\<forall>ob \<in> set kept. to_timestamp ob \<le> now)"
    unfolding kept_def young_def by (rule kept_traffic) (simp_all add: d new_def)
  with d key have new_ok: "rt_hopKey (d\<lparr>rt_observations := kept\<rparr>) = key \<and> key \<noteq> [] \<and> toLowerCase key = key \<and>
      rt_observations (d\<lparr>rt_observations := kept\<rparr>) \<noteq> [] \<and>
      length (rt_observations (d\<lparr>rt_observations := kept\<rparr>)) \<le> MAX_TRAFFIC_OBSERVATIONS \<and>
      (\<forall>ob \<in> set (rt_observations (d\<lparr>rt_observations := kept\<rparr>)). to_timestamp ob \<le> now)" by simp
  have r: "recordTrafficObservation now m hopKey source nextHop = amap_set key (d\<lparr>rt_observations := kept\<rparr>) m"
    by (simp add: recordTrafficObservation_def Some Let_def d_def new_def young_def kept_def)
  from ok show ?thesis unfolding r traffic_ok_def
    by (elim conjE, intro conjI) (simp, rule amap_set_all, assumption, rule new_ok)
qed

subsection \<open>Compacting a path\<close>

definition step_ids :: "path_step list \<Rightarrow> jstr list" where
  "step_ids steps = concat (map (\<lambda>s. case nonempty (ps_nodeId s) of Some n \<Rightarrow> [n] | None \<Rightarrow> []) steps)"

definition adjacent_key :: "jstr list \<Rightarrow> jstr \<Rightarrow> bool" where
  "adjacent_key xs k \<longleftrightarrow> (\<exists>i. Suc i < length xs \<and> k = buildLinkKey (xs ! i) (xs ! Suc i))"

definition compact_ok :: "path_step list \<Rightarrow> compact_state \<Rightarrow> bool" where
  "compact_ok steps s \<longleftrightarrow> cs_nodes s = remdups_adj (step_ids steps) \<and> [] \<notin> set (cs_nodes s) \<and>
     amap_ok (cs_dashed s) \<and>
     (\<forall>p \<in> set (cs_dashed s). adjacent_key (cs_nodes s) (fst p))"

lemma remdups_adj_snoc:
  "remdups_adj (xs @ [y]) = (if xs \<noteq> [] \<and> last (remdups_adj xs) = y then remdups_adj xs else remdups_adj xs @ [y])"
proof (cases xs rule: rev_cases)
  case Nil
  then show ?thesis by simp
next
  case (snoc ys x)
  then show ?thesis by (simp add: remdups_adj_append_two)
qed

lemma step_ids_snoc:
  "step_ids (steps @ [st]) = step_ids steps @ (case nonempty (ps_nodeId st) of Some n \<Rightarrow> [n] | None \<Rightarrow> [])"
  by (simp add: step_ids_def)

lemma adjacent_snoc: "adjacent_key xs k \<Longrightarrow> adjacent_key (xs @ [y]) k"
  unfolding adjacent_key_def by (auto simp: nth_append intro: Suc_lessD)

lemma adjacent_last: "xs \<noteq> [] \<Longrightarrow> adjacent_key (xs @ [y]) (buildLinkKey (last xs) y)"
  unfolding adjacent_key_def
  by (intro exI [of _ "length xs - 1"]) (auto simp: nth_append last_conv_nth)

lemma compact_ok_step:
  assumes ok: "compact_ok steps s"
  shows "compact_ok (steps @ [st]) (compact_step s st)"
proof -
  note ok' = ok [unfolded compact_ok_def]
  have ids: "step_ids (steps @ [st]) = step_ids steps @ (case nonempty (ps_nodeId st) of Some n \<Rightarrow> [n] | None \<Rightarrow> [])"
    by (rule step_ids_snoc)
  have same: "compact_ok (steps @ [st]) s'"
    if "cs_nodes s' = cs_nodes s" "cs_dashed s' = cs_dashed s"
      "remdups_adj (step_ids (steps @ [st])) = remdups_adj (step_ids steps)" for s'
    unfolding compact_ok_def that by (rule ok')
  show ?thesis
  proof (cases "nonempty (ps_nodeId st)")
    case None
    show ?thesis by (rule same) (simp_all add: compact_step_def None ids)
  next
    case (Some n)
    have n: "n \<noteq> []" using Some by simp
    let ?prev = "if cs_nodes s = [] then None else nonempty (Some (last (cs_nodes s)))"
    have prev: "?prev = (if cs_nodes s = [] then None else Some (last (cs_nodes s)))"
    proof (cases "cs_nodes s = []")
      case False
      then have "last (cs_nodes s) \<noteq> []" using ok' last_in_set [of "cs_nodes s"] by metis
      then show ?thesis by (simp add: nonempty_def)
    qed simp
    have ne: "step_ids steps \<noteq> [] \<longleftrightarrow> cs_nodes s \<noteq> []" using conjunct1 [OF ok'] by simp
    have dedup: "remdups_adj (step_ids (steps @ [st]))
        = (if cs_nodes s \<noteq> [] \<and> last (cs_nodes s) = n then cs_nodes s else cs_nodes s @ [n])"
      unfolding ids Some option.case remdups_adj_snoc ne conjunct1 [OF ok', symmetric] ..
    show ?thesis
    proof (cases "cs_nodes s \<noteq> [] \<and> last (cs_nodes s) = n")
      case True
      show ?thesis
      proof (rule same)
        show "remdups_adj (step_ids (steps @ [st])) = remdups_adj (step_ids steps)"
          using True unfolding dedup conjunct1 [OF ok', symmetric] by simp
      qed (use True prev in \<open>simp_all add: compact_step_def Some Let_def\<close>)
    next
      case False
      have nodes: "cs_nodes (compact_step s st) = cs_nodes s @ [n]"
        using False prev by (auto simp: compact_step_def Some Let_def)
      have key: "adjacent_key (cs_nodes s @ [n]) (fst p)" if "p \<in> set (cs_dashed (compact_step s st))" for p
      proof (cases "p \<in> set (cs_dashed s)")
        case True
        with ok' show ?thesis by (intro adjacent_snoc) blast
      next
        case False
        have "p \<in> set (cs_dashed s) \<or> cs_nodes s \<noteq> [] \<and> fst p = buildLinkKey (last (cs_nodes s)) n"
          using that prev by (auto simp: compact_step_def Some Let_def split: if_splits dest!: set_amap_set_cases)
        with False show ?thesis using adjacent_last by metis
      qed
      have "amap_ok (cs_dashed (compact_step s st))"
        using ok' by (auto simp: compact_step_def Some Let_def)
      moreover have "[] \<notin> set (cs_nodes s @ [n])" using ok' n by auto
      moreover have d2: "remdups_adj (step_ids (steps @ [st])) = cs_nodes s @ [n]" unfolding dedup using False by simp
      ultimately show ?thesis using key unfolding compact_ok_def nodes d2 by blast
    qed
  qed
qed

lemma compact_run:
  assumes "compact_ok done s"
  shows "compact_ok (done @ steps) (foldl compact_step s steps)"
  using assms
proof (induction steps arbitrary: "done" s)
  case Nil
  then show ?case by simp
next
  case (Cons st steps)
  from Cons.IH [OF compact_ok_step [OF Cons.prems]] show ?case by simp
qed

text \<open>Compacting keeps the visible nodes without immediate repeats, and a dashed link always stands
  between two nodes that are neighbours in the result.\<close>

theorem compact_keeps_visible:
  "fst (compactPathSteps steps) = remdups_adj (step_ids steps) \<and>
   (\<forall>p \<in> set (snd (compactPathSteps steps)). adjacent_key (fst (compactPathSteps steps)) (fst p))"
proof -
  let ?s = "\<lparr>cs_nodes = [], cs_dashed = [], cs_pendingLink = False, cs_pendingLabels = []\<rparr>"
  have "compact_ok [] ?s" by (simp add: compact_ok_def step_ids_def)
  from compact_run [OF this, of steps] have c: "compact_ok steps (foldl compact_step ?s steps)" by simp
  then have "cs_nodes (foldl compact_step ?s steps) = remdups_adj (step_ids steps)" by (simp add: compact_ok_def)
  moreover have "\<forall>p \<in> set (cs_dashed (foldl compact_step ?s steps)).
      adjacent_key (cs_nodes (foldl compact_step ?s steps)) (fst p)" using c unfolding compact_ok_def by (elim conjE)
  ultimately show ?thesis
    by (simp only: compactPathSteps_def Let_def fst_conv snd_conv)
qed

subsection \<open>A repeater that is split\<close>

definition demo_traffic :: repeater_traffic where
  "demo_traffic = \<lparr>rt_hopKey = [97], rt_observations =
     map (\<lambda>i. \<lparr>to_source = [i], to_nextHop = Some [98], to_timestamp = 0\<rparr>) [0..<20] @
     map (\<lambda>i. \<lparr>to_source = [i + 20], to_nextHop = None, to_timestamp = 0\<rparr>) [0..<20]\<rparr>"

lemma demo_split: "fst (analyzeRepeaterTraffic 1 demo_traffic)"
  by code_simp

theorem split_needs_disjoint_traffic_witness:
  "2 \<le> card (next_hops 1 demo_traffic)"
  using split_needs_disjoint_traffic [of 1 demo_traffic] demo_split by simp

end
