(* ===== verification/Network.thy ===== *)
theory Network
imports Visual
begin

text \<open>The graph of the network view (\<^verbatim>\<open>frontend/src/networkGraph/packetNetworkGraph.ts\<close>): the context of
  known contacts, resolving a hop to a node, ingesting a packet, the links and neighbours it leaves,
  pruning, and the projection that is drawn. The state's maps are association lists in insertion
  order; a packet is ingested at one reading of the clock (\<open>now\<close>). \<open>collate\<close> is the browser's collation as a
  sort key. A field that can be \<^verbatim>\<open>undefined\<close> apart from \<^verbatim>\<open>null\<close> is an option of an option.\<close>

subsection \<open>Contacts and the context\<close>

record app_contact = contact +
  ct_name :: "jstr option"
  ct_last_seen :: "int option"

record advert_path =
  ap_next_hop :: "jstr option"
  ap_heard_count :: nat

record advert_summary =
  as_public_key :: jstr
  as_paths :: "advert_path list"

record soft_link =
  sl_resolved_pubkey :: jstr
  sl_resolved_name :: "jstr option"

record contact_index =
  ci_byPrefix12 :: "(jstr \<times> app_contact) list"
  ci_byName :: "(jstr \<times> app_contact) list"
  ci_byPrefix :: "(jstr \<times> app_contact list) list"

record network_context =
  nx_byRepeater :: "(jstr \<times> advert_path list) list"
  nx_contactIndex :: contact_index
  nx_softLinks :: "(jstr \<times> soft_link) list"
  nx_myPrefix :: "jstr option"
  nx_splitAmbiguous :: bool
  nx_useAdvertPathHints :: bool

definition key12 :: "jstr \<Rightarrow> jstr" where
  "key12 k = toLowerCase (take 12 k)"

definition push_entry :: "'k \<Rightarrow> 'v \<Rightarrow> ('k \<times> 'v list) list \<Rightarrow> ('k \<times> 'v list) list" where
  "push_entry k v m = amap_set k (entry_or [] k m @ [v]) m"

text \<open>\<^verbatim>\<open>for (let len = 1; len <= 12; len++)\<close>\<close>

definition index_prefixes :: "app_contact \<Rightarrow> (jstr \<times> app_contact list) list \<Rightarrow> (jstr \<times> app_contact list) list" where
  "index_prefixes c m =
     foldl (\<lambda>m len. push_entry (take len (key12 (ct_public_key c))) c m) m [1..<13]"

definition index_contact :: "contact_index \<Rightarrow> app_contact \<Rightarrow> contact_index" where
  "index_contact ci c =
     \<lparr>ci_byPrefix12 = amap_set (key12 (ct_public_key c)) c (ci_byPrefix12 ci),
      ci_byName =
        (case nonempty (ct_name c) of
           Some n \<Rightarrow> if map_of (ci_byName ci) n = None then amap_set n c (ci_byName ci) else ci_byName ci
         | None \<Rightarrow> ci_byName ci),
      ci_byPrefix = index_prefixes c (ci_byPrefix ci)\<rparr>"

definition index_contacts :: "app_contact list \<Rightarrow> contact_index" where
  "index_contacts contacts =
     foldl index_contact \<lparr>ci_byPrefix12 = [], ci_byName = [], ci_byPrefix = []\<rparr> contacts"

definition buildPacketNetworkContext ::
    "jstr option \<Rightarrow> app_contact list \<Rightarrow> advert_summary list \<Rightarrow> (jstr \<times> soft_link) list \<Rightarrow> bool \<Rightarrow> bool
      \<Rightarrow> network_context" where
  "buildPacketNetworkContext myKey contacts repeaterAdvertPaths softLinks splitAmbiguous useAdvertPathHints =
     \<lparr>nx_byRepeater =
        foldl (\<lambda>m s. amap_set (key12 (as_public_key s)) (as_paths s) m) [] repeaterAdvertPaths,
      nx_contactIndex = index_contacts contacts,
      nx_softLinks = softLinks,
      nx_myPrefix = nonempty (map_option key12 myKey),
      nx_splitAmbiguous = splitAmbiguous,
      nx_useAdvertPathHints = useAdvertPathHints\<rparr>"

subsection \<open>The state\<close>

record network_node =
  nn_id :: jstr
  nn_name :: "jstr option"
  nn_type :: node_type
  nn_isAmbiguous :: bool
  nn_lastActivity :: int
  nn_lastActivityReason :: "jstr option"
  nn_lastSeen :: "int option option"
  nn_probableIdentity :: "jstr option option"
  nn_probableIdentityNodeId :: "jstr option option"
  nn_ambiguousNames :: "jstr list option"

record network_link =
  nl_sourceId :: jstr
  nl_targetId :: jstr
  nl_lastActivity :: int

record network_observation =
  no_activityAtMs :: int
  no_nodes :: "jstr list"

record network_state =
  ns_links :: "(jstr \<times> network_link) list"
  ns_neighborIds :: "(jstr \<times> jstr list) list"
  ns_nodes :: "(jstr \<times> network_node) list"
  ns_observations :: "network_observation list"
  ns_trafficPatterns :: "(jstr \<times> repeater_traffic) list"

definition SELF :: jstr where "SELF = (str ''self'')"

definition self_node :: "int \<Rightarrow> jstr \<Rightarrow> network_node" where
  "self_node now selfName =
     \<lparr>nn_id = SELF, nn_name = Some selfName, nn_type = NSelf, nn_isAmbiguous = False,
      nn_lastActivity = now, nn_lastActivityReason = None, nn_lastSeen = None,
      nn_probableIdentity = None, nn_probableIdentityNodeId = None, nn_ambiguousNames = None\<rparr>"

definition createPacketNetworkState :: "int \<Rightarrow> jstr \<Rightarrow> network_state" where
  "createPacketNetworkState now selfName =
     \<lparr>ns_links = [], ns_neighborIds = [], ns_nodes = [(SELF, self_node now selfName)],
      ns_observations = [], ns_trafficPatterns = []\<rparr>"

definition ensureSelfNode :: "int \<Rightarrow> jstr \<Rightarrow> network_state \<Rightarrow> network_state" where
  "ensureSelfNode now selfName st =
     (case map_of (ns_nodes st) SELF of
        Some existing \<Rightarrow>
          st\<lparr>ns_nodes := amap_set SELF (existing\<lparr>nn_name := Some selfName\<rparr>) (ns_nodes st)\<rparr>
      | None \<Rightarrow> st\<lparr>ns_nodes := amap_set SELF (self_node now selfName) (ns_nodes st)\<rparr>)"

text \<open>The last statement of the code gives the fresh node the name it was just created with.\<close>

definition clearPacketNetworkState :: "int \<Rightarrow> jstr \<Rightarrow> network_state \<Rightarrow> network_state" where
  "clearPacketNetworkState now selfName st =
     st\<lparr>ns_links := [], ns_neighborIds := [], ns_observations := [], ns_trafficPatterns := [],
        ns_nodes := [(SELF, (self_node now selfName)\<lparr>nn_lastSeen := Some None\<rparr>)]\<rparr>"

record node_update =
  nu_id :: jstr
  nu_name :: "jstr option"
  nu_type :: node_type
  nu_isAmbiguous :: bool
  nu_lastSeen :: "int option option"
  nu_probableIdentity :: "jstr option option"
  nu_probableIdentityNodeId :: "jstr option option"
  nu_ambiguousNames :: "jstr list option"

definition addOrUpdateNode :: "int \<Rightarrow> node_update \<Rightarrow> network_state \<Rightarrow> network_state" where
  "addOrUpdateNode activityAtMs u st =
     (let node =
        (case map_of (ns_nodes st) (nu_id u) of
           Some existing \<Rightarrow>
             existing
               \<lparr>nn_lastActivity := max (nn_lastActivity existing) activityAtMs,
                nn_name := (case nonempty (nu_name u) of Some n \<Rightarrow> Some n | None \<Rightarrow> nn_name existing),
                nn_probableIdentity := first_of (nu_probableIdentity u) (nn_probableIdentity existing),
                nn_probableIdentityNodeId :=
                  first_of (nu_probableIdentityNodeId u) (nn_probableIdentityNodeId existing),
                nn_ambiguousNames := first_of (nu_ambiguousNames u) (nn_ambiguousNames existing),
                nn_lastSeen := first_of (nu_lastSeen u) (nn_lastSeen existing)\<rparr>
         | None \<Rightarrow>
             \<lparr>nn_id = nu_id u, nn_name = nu_name u, nn_type = nu_type u,
              nn_isAmbiguous = nu_isAmbiguous u, nn_lastActivity = activityAtMs,
              nn_lastActivityReason = None, nn_lastSeen = nu_lastSeen u,
              nn_probableIdentity = nu_probableIdentity u,
              nn_probableIdentityNodeId = nu_probableIdentityNodeId u,
              nn_ambiguousNames = nu_ambiguousNames u\<rparr>)
      in st\<lparr>ns_nodes := amap_set (nu_id u) node (ns_nodes st)\<rparr>)"

definition addCanonicalLink :: "jstr \<Rightarrow> jstr \<Rightarrow> int \<Rightarrow> network_state \<Rightarrow> network_state" where
  "addCanonicalLink sourceId targetId activityAtMs st =
     (let key = buildLinkKey sourceId targetId in
      st\<lparr>ns_links := amap_set key
           (case map_of (ns_links st) key of
              Some existing \<Rightarrow> existing\<lparr>nl_lastActivity := max (nl_lastActivity existing) activityAtMs\<rparr>
            | None \<Rightarrow> \<lparr>nl_sourceId = sourceId, nl_targetId = targetId, nl_lastActivity = activityAtMs\<rparr>)
           (ns_links st)\<rparr>)"

text \<open>\<open>ensureSet(id).add(x)\<close>\<close>

definition ensure_add :: "jstr \<Rightarrow> jstr \<Rightarrow> (jstr \<times> jstr list) list \<Rightarrow> (jstr \<times> jstr list) list" where
  "ensure_add k x m = amap_set k (set_add x (entry_or [] k m)) m"

definition upsertNeighbor :: "jstr \<Rightarrow> jstr \<Rightarrow> network_state \<Rightarrow> network_state" where
  "upsertNeighbor sourceId targetId st =
     st\<lparr>ns_neighborIds := ensure_add targetId sourceId (ensure_add sourceId targetId (ns_neighborIds st))\<rparr>"

subsection \<open>Which repeater an advert path points to\<close>

record scored_candidate =
  sd_candidate :: app_contact
  sd_match :: nat
  sd_total :: nat

definition score_candidate :: "network_context \<Rightarrow> jstr option \<Rightarrow> app_contact \<Rightarrow> scored_candidate" where
  "score_candidate ctx nextHop c =
     (let paths = entry_or [] (key12 (ct_public_key c)) (nx_byRepeater ctx) in
      \<lparr>sd_candidate = c,
       sd_match = sum_list (map ap_heard_count
         (filter (\<lambda>p. map_option toLowerCase (ap_next_hop p) = nextHop) paths)),
       sd_total = sum_list (map ap_heard_count paths)\<rparr>)"

definition scored_list ::
    "(jstr \<Rightarrow> jstr) \<Rightarrow> network_context \<Rightarrow> app_contact list \<Rightarrow> jstr option \<Rightarrow> scored_candidate list" where
  "scored_list collate ctx candidates nextPrefix =
     sort_key (\<lambda>e. - int (sd_match e)) (sort_key (\<lambda>e. - int (sd_total e))
       (sort_key (\<lambda>e. collate (ct_public_key (sd_candidate e)))
         (filter (\<lambda>e. sd_total e > 0)
           (map (score_candidate ctx (map_option toLowerCase nextPrefix)) candidates))))"

definition pickLikelyRepeaterByAdvertPath ::
    "(jstr \<Rightarrow> jstr) \<Rightarrow> network_context \<Rightarrow> app_contact list \<Rightarrow> jstr option \<Rightarrow> app_contact option" where
  "pickLikelyRepeaterByAdvertPath collate ctx candidates nextPrefix =
     (case scored_list collate ctx candidates nextPrefix of
        [] \<Rightarrow> None
      | best # rest \<Rightarrow>
          if sd_match best < 2 then None
          else if rest \<noteq> [] \<and> sd_match best < sd_match (hd rest) * 2 then None
          else Some (sd_candidate best))"

subsection \<open>Resolving a hop\<close>

datatype source_kind = ByPrefix | ByPubkey | ByName

definition getNodeType :: "app_contact option \<Rightarrow> node_type" where
  "getNodeType c = (if map_option ct_type c = Some CONTACT_TYPE_REPEATER then NRepeater else NClient)"

definition known_update :: "app_contact \<Rightarrow> node_update" where
  "known_update c =
     \<lparr>nu_id = key12 (ct_public_key c), nu_name = ct_name c, nu_type = getNodeType (Some c),
      nu_isAmbiguous = False, nu_lastSeen = Some (ct_last_seen c), nu_probableIdentity = None,
      nu_probableIdentityNodeId = None, nu_ambiguousNames = None\<rparr>"

definition is_me :: "network_context \<Rightarrow> jstr \<Rightarrow> bool" where
  "is_me ctx nodeId \<longleftrightarrow> nx_myPrefix ctx \<noteq> None \<and> nx_myPrefix ctx = Some nodeId"

definition resolve_pubkey :: "network_context \<Rightarrow> jstr \<Rightarrow> int \<Rightarrow> network_state \<Rightarrow> network_state \<times> jstr option" where
  "resolve_pubkey ctx v activityAtMs st =
     (if length v < 12 then (st, None)
      else
        let nodeId = key12 v in
        if is_me ctx nodeId then (st, Some SELF)
        else
          let c = map_of (ci_byPrefix12 (nx_contactIndex ctx)) nodeId in
          (addOrUpdateNode activityAtMs
             \<lparr>nu_id = nodeId, nu_name = nonempty (Option.bind c ct_name), nu_type = getNodeType c,
              nu_isAmbiguous = False, nu_lastSeen = map_option ct_last_seen c, nu_probableIdentity = None,
              nu_probableIdentityNodeId = None, nu_ambiguousNames = None\<rparr> st,
           Some nodeId))"

definition resolve_name :: "network_context \<Rightarrow> jstr \<Rightarrow> int \<Rightarrow> network_state \<Rightarrow> network_state \<times> jstr option" where
  "resolve_name ctx v activityAtMs st =
     (case map_of (ci_byName (nx_contactIndex ctx)) v of
        Some c \<Rightarrow>
          let nodeId = key12 (ct_public_key c) in
          if is_me ctx nodeId then (st, Some SELF)
          else (addOrUpdateNode activityAtMs (known_update c) st, Some nodeId)
      | None \<Rightarrow>
          let nodeId = (str ''name:'') @ v in
          (addOrUpdateNode activityAtMs
             \<lparr>nu_id = nodeId, nu_name = Some v, nu_type = NClient, nu_isAmbiguous = False,
              nu_lastSeen = None, nu_probableIdentity = None, nu_probableIdentityNodeId = None,
              nu_ambiguousNames = None\<rparr> st,
           Some nodeId))"

text \<open>\<^verbatim>\<open>candidate.name || candidate.public_key.slice(0, 8)\<close>, the newest sighting of several
  candidates, and what an ambiguous node is called.\<close>

definition candidate_name :: "app_contact \<Rightarrow> jstr" where
  "candidate_name c = (case nonempty (ct_name c) of Some n \<Rightarrow> n | None \<Rightarrow> take 8 (ct_public_key c))"

definition newest_seen :: "app_contact list \<Rightarrow> int option" where
  "newest_seen cs =
     foldl (\<lambda>mx c. case ct_last_seen c of
              None \<Rightarrow> mx
            | Some s \<Rightarrow>
                if s \<noteq> 0 \<and> (case mx of None \<Rightarrow> True | Some m \<Rightarrow> m = 0 \<or> s > m) then Some s else mx) None cs"

record hop_context =
  hx_packetSource :: "jstr option"
  hx_nextPrefix :: "jstr option"

record ambiguous_naming =
  an_displayName :: jstr
  an_probableIdentity :: "jstr option"
  an_probableIdentityNodeId :: "jstr option"
  an_ambiguousNames :: "jstr list option"

definition some_names :: "jstr list \<Rightarrow> jstr list option" where
  "some_names ns = (if length ns > 0 then Some ns else None)"

definition name_ambiguous ::
    "(jstr \<Rightarrow> jstr) \<Rightarrow> network_context \<Rightarrow> jstr \<Rightarrow> app_contact list \<Rightarrow> bool \<Rightarrow> hop_context option
      \<Rightarrow> ambiguous_naming" where
  "name_ambiguous collate ctx lookupValue filtered isRepeater traffic =
     (let plain = \<lparr>an_displayName = buildAmbiguousRepeaterLabel lookupValue None,
                   an_probableIdentity = None, an_probableIdentityNodeId = None,
                   an_ambiguousNames = some_names (map candidate_name filtered)\<rparr>
      in case map_of (nx_softLinks ctx) lookupValue of
           Some link \<Rightarrow>
             let linkedKey = toLowerCase (sl_resolved_pubkey link);
                 linkedName = (case nonempty (sl_resolved_name link) of
                                 Some n \<Rightarrow> n | None \<Rightarrow> toUpperCase (take 12 linkedKey))
             in \<lparr>an_displayName = linkedName, an_probableIdentity = Some linkedName,
                 an_probableIdentityNodeId = Some (take 12 linkedKey),
                 an_ambiguousNames = some_names (map candidate_name
                   (filter (\<lambda>c. toLowerCase (ct_public_key c) \<noteq> linkedKey) filtered))\<rparr>
         | None \<Rightarrow>
             (case traffic of
                Some hx \<Rightarrow>
                  if nx_useAdvertPathHints ctx \<and> isRepeater then
                    (case pickLikelyRepeaterByAdvertPath collate ctx filtered (hx_nextPrefix hx) of
                       Some likely \<Rightarrow>
                         let likelyName = (case nonempty (ct_name likely) of
                               Some n \<Rightarrow> n | None \<Rightarrow> toUpperCase (take 12 (ct_public_key likely)))
                         in \<lparr>an_displayName = likelyName, an_probableIdentity = Some likelyName,
                             an_probableIdentityNodeId = Some (key12 (ct_public_key likely)),
                             an_ambiguousNames = Some (map candidate_name
                               (filter (\<lambda>c. ct_public_key c \<noteq> ct_public_key likely) filtered))\<rparr>
                     | None \<Rightarrow> plain)
                  else plain
              | None \<Rightarrow> plain))"

text \<open>Recording the traffic, and the id and label of the split node when it warrants one.\<close>

definition record_traffic ::
    "int \<Rightarrow> network_context \<Rightarrow> jstr \<Rightarrow> bool \<Rightarrow> hop_context option \<Rightarrow> network_state \<Rightarrow> network_state" where
  "record_traffic now ctx lookupValue isRepeater traffic st =
     (case traffic of
        Some hx \<Rightarrow>
          if nx_splitAmbiguous ctx \<and> isRepeater then
            (case nonempty (hx_packetSource hx) of
               Some src \<Rightarrow>
                 st\<lparr>ns_trafficPatterns :=
                      recordTrafficObservation now (ns_trafficPatterns st) lookupValue src
                        (map_option toLowerCase (hx_nextPrefix hx))\<rparr>
             | None \<Rightarrow> st)
          else st
      | None \<Rightarrow> st)"

definition split_next ::
    "int \<Rightarrow> network_context \<Rightarrow> jstr \<Rightarrow> bool \<Rightarrow> hop_context option \<Rightarrow> network_state \<Rightarrow> jstr option" where
  "split_next now ctx lookupValue isRepeater traffic st =
     (case traffic of
        Some hx \<Rightarrow>
          if nx_splitAmbiguous ctx \<and> isRepeater then
            (case map_of (ns_trafficPatterns st) lookupValue of
               Some data \<Rightarrow>
                 (if fst (analyzeRepeaterTraffic now data)
                  then nonempty (map_option toLowerCase (hx_nextPrefix hx)) else None)
             | None \<Rightarrow> None)
          else None
      | None \<Rightarrow> None)"

definition resolve_ambiguous ::
    "(jstr \<Rightarrow> jstr) \<Rightarrow> int \<Rightarrow> network_context \<Rightarrow> jstr \<Rightarrow> app_contact list \<Rightarrow> bool \<Rightarrow> int \<Rightarrow> hop_context option
      \<Rightarrow> network_state \<Rightarrow> network_state \<times> jstr option" where
  "resolve_ambiguous collate now ctx lookupValue filtered isRepeater activityAtMs traffic st =
     (let naming = name_ambiguous collate ctx lookupValue filtered isRepeater traffic;
          st1 = record_traffic now ctx lookupValue isRepeater traffic st;
          split = split_next now ctx lookupValue isRepeater traffic st1;
          nodeId = buildAmbiguousRepeaterNodeId lookupValue split;
          displayName =
            (if split \<noteq> None \<and> nonempty (an_probableIdentity naming) = None
             then buildAmbiguousRepeaterLabel lookupValue split else an_displayName naming)
      in (addOrUpdateNode activityAtMs
            \<lparr>nu_id = nodeId, nu_name = Some displayName,
             nu_type = (if isRepeater then NRepeater else NClient), nu_isAmbiguous = True,
             nu_lastSeen = Some (newest_seen filtered),
             nu_probableIdentity = Some (an_probableIdentity naming),
             nu_probableIdentityNodeId = Some (an_probableIdentityNodeId naming),
             nu_ambiguousNames = an_ambiguousNames naming\<rparr> st1,
          Some nodeId))"

definition resolve_prefix ::
    "(jstr \<Rightarrow> jstr) \<Rightarrow> int \<Rightarrow> network_context \<Rightarrow> jstr \<Rightarrow> bool \<Rightarrow> bool \<Rightarrow> int \<Rightarrow> hop_context option
      \<Rightarrow> network_state \<Rightarrow> network_state \<times> jstr option" where
  "resolve_prefix collate now ctx v isRepeater showAmbiguous activityAtMs traffic st =
     (let lookupValue = toLowerCase v;
          matches = entry_or [] lookupValue (ci_byPrefix (nx_contactIndex ctx));
          filtered = filter (\<lambda>c. (ct_type c = CONTACT_TYPE_REPEATER) = isRepeater) matches
      in if length matches = 1 then
           let c = hd matches; nodeId = key12 (ct_public_key c) in
           if is_me ctx nodeId then (st, Some SELF)
           else (addOrUpdateNode activityAtMs (known_update c) st, Some nodeId)
         else if \<not> showAmbiguous then (st, None)
         else if length filtered = 1 then
           (addOrUpdateNode activityAtMs (known_update (hd filtered)) st, Some (key12 (ct_public_key (hd filtered))))
         else if filtered = [] \<and> \<not> isRepeater then (st, None)
         else resolve_ambiguous collate now ctx lookupValue filtered isRepeater activityAtMs traffic st)"

definition resolveNode ::
    "(jstr \<Rightarrow> jstr) \<Rightarrow> int \<Rightarrow> network_context \<Rightarrow> source_kind \<Rightarrow> jstr \<Rightarrow> bool \<Rightarrow> bool \<Rightarrow> int \<Rightarrow> hop_context option
      \<Rightarrow> network_state \<Rightarrow> network_state \<times> jstr option" where
  "resolveNode collate now ctx kind v isRepeater showAmbiguous activityAtMs traffic st =
     (case kind of
        ByPubkey \<Rightarrow> resolve_pubkey ctx v activityAtMs st
      | ByName \<Rightarrow> resolve_name ctx v activityAtMs st
      | ByPrefix \<Rightarrow> resolve_prefix collate now ctx v isRepeater showAmbiguous activityAtMs traffic st)"

subsection \<open>Ingesting a packet\<close>

text \<open>The packet's source: the first node of its path, if the packet names one.\<close>

definition source_node ::
    "(jstr \<Rightarrow> jstr) \<Rightarrow> int \<Rightarrow> network_context \<Rightarrow> parsed_packet \<Rightarrow> raw_packet \<Rightarrow> int \<Rightarrow> network_state
      \<Rightarrow> network_state \<times> jstr option" where
  "source_node collate now ctx p packet activityAtMs st =
     (let t = pp_payloadType p in
      if t = PT_Advert \<and> nonempty (pp_advertPubkey p) \<noteq> None then
        resolveNode collate now ctx ByPubkey (the (pp_advertPubkey p)) False False activityAtMs None st
      else if t = PT_AnonRequest \<and> nonempty (pp_anonRequestPubkey p) \<noteq> None then
        resolveNode collate now ctx ByPubkey (the (pp_anonRequestPubkey p)) False False activityAtMs None st
      else if t = PT_TextMessage \<and> nonempty (pp_srcHash p) \<noteq> None then
        (if is_me ctx (toLowerCase (the (pp_srcHash p))) then (st, Some SELF)
         else resolveNode collate now ctx ByPrefix (the (pp_srcHash p)) False True activityAtMs None st)
      else if t = PT_GroupText then
        (case nonempty (first_of (nonempty (pp_groupTextSender p))
                          (Option.bind (rk_decrypted_info packet) di_sender)) of
           Some senderName \<Rightarrow> resolveNode collate now ctx ByName senderName False False activityAtMs None st
         | None \<Rightarrow> (st, None))
      else (st, None))"

text \<open>\<^verbatim>\<open>if (nodeId)\<close>: an id is pushed unless it is missing or empty.\<close>

definition push_id :: "jstr option \<Rightarrow> jstr list \<Rightarrow> jstr list" where
  "push_id nodeId path = (case nonempty nodeId of Some n \<Rightarrow> path @ [n] | None \<Rightarrow> path)"

fun hop_nodes ::
    "(jstr \<Rightarrow> jstr) \<Rightarrow> int \<Rightarrow> network_context \<Rightarrow> jstr option \<Rightarrow> int \<Rightarrow> jstr list \<Rightarrow> network_state \<Rightarrow> jstr list
      \<Rightarrow> network_state \<times> jstr list" where
  "hop_nodes collate now ctx src activityAtMs [] st path = (st, path)"
| "hop_nodes collate now ctx src activityAtMs (hop # hops) st path =
     (let (st', nodeId) = resolveNode collate now ctx ByPrefix hop True True activityAtMs
            (Some \<lparr>hx_packetSource = src,
                   hx_nextPrefix = nonempty (case hops of [] \<Rightarrow> None | h # _ \<Rightarrow> Some h)\<rparr>) st
      in hop_nodes collate now ctx src activityAtMs hops st' (push_id nodeId path))"

definition is_my_hash :: "network_context \<Rightarrow> jstr option \<Rightarrow> bool" where
  "is_my_hash ctx h \<longleftrightarrow> nx_myPrefix ctx \<noteq> None \<and> map_option toLowerCase h = nx_myPrefix ctx"

definition close_path :: "network_context \<Rightarrow> parsed_packet \<Rightarrow> jstr list \<Rightarrow> jstr list" where
  "close_path ctx p path =
     (let isDm = (pp_payloadType p = PT_TextMessage);
          isOutgoingDm = (isDm \<and> is_my_hash ctx (pp_srcHash p))
      in if isDm \<and> nonempty (pp_dstHash p) \<noteq> None then
           (if is_my_hash ctx (pp_dstHash p) then path @ [SELF]
            else if \<not> isOutgoingDm \<and> length path > 0 then path @ [SELF]
            else path)
         else if length path > 0 then path @ [SELF]
         else path)"

definition buildCanonicalPathForPacket ::
    "(jstr \<Rightarrow> jstr) \<Rightarrow> int \<Rightarrow> network_context \<Rightarrow> parsed_packet \<Rightarrow> raw_packet \<Rightarrow> int \<Rightarrow> network_state
      \<Rightarrow> network_state \<times> jstr list" where
  "buildCanonicalPathForPacket collate now ctx p packet activityAtMs st =
     (let (st1, src) = source_node collate now ctx p packet activityAtMs st;
          (st2, path) = hop_nodes collate now ctx (nonempty src) activityAtMs (pp_pathBytes p) st1 (push_id src [])
      in (st2, dedupeConsecutive (close_path ctx p path)))"

definition set_reason :: "jstr \<Rightarrow> nat \<Rightarrow> jstr \<Rightarrow> network_state \<Rightarrow> network_state" where
  "set_reason label i nodeId st =
     (case map_of (ns_nodes st) nodeId of
        Some node \<Rightarrow>
          if nn_id node \<noteq> SELF then
            st\<lparr>ns_nodes := amap_set nodeId
                 (node\<lparr>nn_lastActivityReason :=
                    Some (if i = 0 then label @ (str '' source'') else (str ''Relayed '') @ label)\<rparr>) (ns_nodes st)\<rparr>
          else st
      | None \<Rightarrow> st)"

fun set_reasons :: "jstr \<Rightarrow> nat \<Rightarrow> jstr list \<Rightarrow> network_state \<Rightarrow> network_state" where
  "set_reasons label i [] st = st"
| "set_reasons label i (n # ns) st = set_reasons label (Suc i) ns (set_reason label i n st)"

definition link_pair :: "int \<Rightarrow> network_state \<Rightarrow> jstr \<times> jstr \<Rightarrow> network_state" where
  "link_pair activityAtMs st ab =
     (if fst ab \<noteq> snd ab
      then upsertNeighbor (fst ab) (snd ab) (addCanonicalLink (fst ab) (snd ab) activityAtMs st)
      else st)"

definition pairs_of :: "'a list \<Rightarrow> ('a \<times> 'a) list" where
  "pairs_of xs = zip xs (tl xs)"

record ingest_result =
  ig_activityAtMs :: int
  ig_canonicalPath :: "jstr list"
  ig_label :: jstr
  ig_parsed :: parsed_packet

text \<open>Nodes are added while the path is built, also when the packet is then refused.\<close>

definition ingestPacketIntoPacketNetwork ::
    "graph_decoder \<Rightarrow> (jstr \<Rightarrow> jstr) \<Rightarrow> int \<Rightarrow> network_context \<Rightarrow> raw_packet \<Rightarrow> network_state
      \<Rightarrow> network_state \<times> ingest_result option" where
  "ingestPacketIntoPacketNetwork lib collate now ctx packet st =
     (case parsePacket lib (rk_data packet) of
        None \<Rightarrow> (st, None)
      | Some p \<Rightarrow>
          let activityAtMs = normalizePacketTimestampMs now (Some (rk_timestamp packet));
              (st1, path) = buildCanonicalPathForPacket collate now ctx p packet activityAtMs st
          in if length path < 2 then (st1, None)
             else
               let label = getPacketLabel (pp_payloadType p);
                   st2 = set_reasons label 0 path st1;
                   st3 = st2\<lparr>ns_observations := ns_observations st2 @
                             [\<lparr>no_activityAtMs = activityAtMs, no_nodes = path\<rparr>]\<rparr>
               in (foldl (link_pair activityAtMs) st3 (pairs_of path),
                   Some \<lparr>ig_activityAtMs = activityAtMs, ig_canonicalPath = path, ig_label = label, ig_parsed = p\<rparr>))"

subsection \<open>Pruning\<close>

definition stale_node :: "int \<Rightarrow> jstr \<times> network_node \<Rightarrow> bool" where
  "stale_node cutoff e \<longleftrightarrow> fst e \<noteq> SELF \<and> nn_lastActivity (snd e) < cutoff"

definition has_node :: "network_state \<Rightarrow> jstr \<Rightarrow> bool" where
  "has_node st n \<longleftrightarrow> n \<in> set (amap_keys (ns_nodes st))"

definition prunePacketNetworkState :: "int \<Rightarrow> network_state \<Rightarrow> network_state \<times> bool" where
  "prunePacketNetworkState cutoff st =
     (let st1 = st\<lparr>ns_nodes := filter (\<lambda>e. \<not> stale_node cutoff e) (ns_nodes st)\<rparr> in
      if \<not> list_ex (stale_node cutoff) (ns_nodes st) then (st, False)
      else
        let links = filter (\<lambda>(k, l). has_node st1 (nl_sourceId l) \<and> has_node st1 (nl_targetId l)) (ns_links st);
            st2 = st1\<lparr>ns_links := links,
                      ns_observations := filter (\<lambda>ob. list_all (has_node st1) (no_nodes ob)) (ns_observations st),
                      ns_neighborIds := []\<rparr>
        in (foldl (\<lambda>s (k, l). upsertNeighbor (nl_sourceId l) (nl_targetId l) s) st2 links, True))"

definition snapshotNeighborIds :: "network_state \<Rightarrow> (jstr \<times> jstr list) list" where
  "snapshotNeighborIds st = map (\<lambda>(k, ids). (k, sort ids)) (ns_neighborIds st)"

subsection \<open>The projection\<close>

record visibility =
  vo_showAmbiguousNodes :: bool
  vo_showAmbiguousPaths :: bool
  vo_collapseSiblings :: bool

definition isPacketNetworkNodeVisible :: "network_node option \<Rightarrow> visibility \<Rightarrow> bool" where
  "isPacketNetworkNodeVisible node vis =
     (case node of
        None \<Rightarrow> False
      | Some n \<Rightarrow>
          if nn_id n = SELF then True
          else if \<not> nn_isAmbiguous n then True
          else if nn_type n = NRepeater then vo_showAmbiguousPaths vis
          else vo_showAmbiguousNodes vis)"

text \<open>Every step of every observation: a node and the node after it.\<close>

definition all_steps :: "network_state \<Rightarrow> (jstr \<times> jstr) list" where
  "all_steps st = concat (map (\<lambda>ob. pairs_of (no_nodes ob)) (ns_observations st))"

definition known_next_hops :: "network_state \<Rightarrow> (jstr \<times> jstr list) list" where
  "known_next_hops st =
     foldl (\<lambda>m (cur, nxt).
              case map_of (ns_nodes st) cur of
                None \<Rightarrow> m
              | Some node \<Rightarrow>
                  if nn_type node \<noteq> NRepeater \<or> nn_isAmbiguous node then m
                  else ensure_add (nn_id node) nxt m) [] (all_steps st)"

definition alias_of :: "network_state \<Rightarrow> (jstr \<times> jstr list) list \<Rightarrow> jstr \<times> jstr \<Rightarrow> jstr option" where
  "alias_of st nextHops step =
     (case map_of (ns_nodes st) (fst step) of
        None \<Rightarrow> None
      | Some node \<Rightarrow>
          if nn_type node \<noteq> NRepeater \<or> \<not> nn_isAmbiguous node then None
          else
            (case nonempty (Option.bind (nn_probableIdentityNodeId node) id) of
               None \<Rightarrow> None
             | Some probable \<Rightarrow>
                 (case map_of (ns_nodes st) probable of
                    None \<Rightarrow> None
                  | Some pn \<Rightarrow>
                      if nn_type pn \<noteq> NRepeater \<or> nn_isAmbiguous pn then None
                      else if snd step \<in> set (entry_or [] (nn_id pn) nextHops) then Some (nn_id pn)
                      else None)))"

definition buildKnownSiblingRepeaterAliasMap :: "network_state \<Rightarrow> visibility \<Rightarrow> (jstr \<times> jstr) list" where
  "buildKnownSiblingRepeaterAliasMap st vis =
     (if \<not> vo_collapseSiblings vis \<or> \<not> vo_showAmbiguousPaths vis then []
      else
        foldl (\<lambda>m step. case alias_of st (known_next_hops st) step of
                 Some a \<Rightarrow> amap_set (fst step) a m | None \<Rightarrow> m) [] (all_steps st))"

definition step_of ::
    "network_state \<Rightarrow> visibility \<Rightarrow> (jstr \<times> jstr) list \<Rightarrow> nat \<Rightarrow> nat \<times> jstr \<Rightarrow> path_step" where
  "step_of st vis aliases len ix =
     (let node = map_of (ns_nodes st) (snd ix);
          visible = isPacketNetworkNodeVisible node vis
      in \<lparr>ps_nodeId = (if visible then Some (entry_or (snd ix) (snd ix) aliases) else None),
          ps_markHidden = (\<not> visible \<and> node \<noteq> None \<and> map_option nn_type node = Some NRepeater \<and>
                           fst ix > 0 \<and> fst ix < len - 1),
          ps_hiddenLabel = None\<rparr>)"

definition project_with_aliases ::
    "network_state \<Rightarrow> jstr list \<Rightarrow> visibility \<Rightarrow> (jstr \<times> jstr) list \<Rightarrow> jstr list \<times> (jstr \<times> jstr list) list" where
  "project_with_aliases st path vis aliases =
     (let r = compactPathSteps (map (step_of st vis aliases (length path)) (enumerate 0 path))
      in (dedupeConsecutive (fst r), snd r))"

definition projectCanonicalPath ::
    "network_state \<Rightarrow> jstr list \<Rightarrow> visibility \<Rightarrow> jstr list \<times> (jstr \<times> jstr list) list" where
  "projectCanonicalPath st path vis =
     project_with_aliases st path vis (buildKnownSiblingRepeaterAliasMap st vis)"

record projected_link =
  pj_sourceId :: jstr
  pj_targetId :: jstr
  pj_lastActivity :: int
  pj_hasDirect :: bool
  pj_hasHidden :: bool
  pj_hiddenLabels :: "jstr list"

record network_projection =
  np_links :: "(jstr \<times> projected_link) list"
  np_nodes :: "(jstr \<times> network_node) list"

definition project_link ::
    "int \<Rightarrow> (jstr \<times> jstr list) list \<Rightarrow> (jstr \<times> projected_link) list \<Rightarrow> jstr \<times> jstr
      \<Rightarrow> (jstr \<times> projected_link) list" where
  "project_link activityAtMs dashed links ab =
     (if fst ab = snd ab then links
      else
        let key = buildLinkKey (fst ab) (snd ab);
            hidden = (map_of dashed key \<noteq> None);
            labels = entry_or [] key dashed
        in amap_set key
             (case map_of links key of
                Some ex \<Rightarrow>
                  (let ex' = ex\<lparr>pj_lastActivity := max (pj_lastActivity ex) activityAtMs\<rparr> in
                   if hidden
                   then ex'\<lparr>pj_hasHidden := True, pj_hiddenLabels := push_labels labels (pj_hiddenLabels ex)\<rparr>
                   else ex'\<lparr>pj_hasDirect := True\<rparr>)
              | None \<Rightarrow>
                  \<lparr>pj_sourceId = fst ab, pj_targetId = snd ab, pj_lastActivity = activityAtMs,
                   pj_hasDirect = (\<not> hidden), pj_hasHidden = hidden, pj_hiddenLabels = labels\<rparr>) links)"

definition show_node :: "network_state \<Rightarrow> (jstr \<times> network_node) list \<Rightarrow> jstr \<Rightarrow> (jstr \<times> network_node) list" where
  "show_node st nodes n =
     (case map_of (ns_nodes st) n of Some node \<Rightarrow> amap_set n node nodes | None \<Rightarrow> nodes)"

definition project_observation ::
    "network_state \<Rightarrow> visibility \<Rightarrow> (jstr \<times> jstr) list \<Rightarrow> network_projection \<Rightarrow> network_observation
      \<Rightarrow> network_projection" where
  "project_observation st vis aliases pr ob =
     (let (ns, dashed) = project_with_aliases st (no_nodes ob) vis aliases in
      if length ns < 2 then pr
      else \<lparr>np_links = foldl (project_link (no_activityAtMs ob) dashed) (np_links pr) (pairs_of ns),
            np_nodes = foldl (show_node st) (np_nodes pr) ns\<rparr>)"

definition projectPacketNetwork :: "network_state \<Rightarrow> visibility \<Rightarrow> network_projection" where
  "projectPacketNetwork st vis =
     foldl (project_observation st vis (buildKnownSiblingRepeaterAliasMap st vis))
       \<lparr>np_links = [], np_nodes = (case map_of (ns_nodes st) SELF of Some n \<Rightarrow> [(SELF, n)] | None \<Rightarrow> [])\<rparr>
       (ns_observations st)"

subsection \<open>What the graph keeps\<close>

definition nodes_ok :: "(jstr \<times> network_node) list \<Rightarrow> bool" where
  "nodes_ok m \<longleftrightarrow> amap_ok m \<and> SELF \<in> set (amap_keys m) \<and> (\<forall>e \<in> set m. nn_id (snd e) = fst e)"

definition neighbours_of :: "network_state \<Rightarrow> jstr \<Rightarrow> jstr set" where
  "neighbours_of st c = set (entry_or [] c (ns_neighborIds st))"

definition links_ok :: "network_state \<Rightarrow> bool" where
  "links_ok st \<longleftrightarrow> amap_ok (ns_links st) \<and>
     (\<forall>e \<in> set (ns_links st).
        fst e = buildLinkKey (nl_sourceId (snd e)) (nl_targetId (snd e)) \<and>
        nl_sourceId (snd e) \<noteq> nl_targetId (snd e) \<and>
        has_node st (nl_sourceId (snd e)) \<and> has_node st (nl_targetId (snd e)) \<and>
        nl_targetId (snd e) \<in> neighbours_of st (nl_sourceId (snd e)))"

definition neighbours_ok :: "network_state \<Rightarrow> bool" where
  "neighbours_ok st \<longleftrightarrow>
     (\<forall>a b. b \<in> neighbours_of st a \<longrightarrow>
        a \<noteq> b \<and> a \<in> neighbours_of st b \<and> has_node st a \<and> has_node st b \<and>
        buildLinkKey a b \<in> set (amap_keys (ns_links st)))"

definition observation_ok :: "network_state \<Rightarrow> network_observation \<Rightarrow> bool" where
  "observation_ok st ob \<longleftrightarrow> length (no_nodes ob) \<ge> 2 \<and> remdups_adj (no_nodes ob) = no_nodes ob \<and>
     (\<forall>n \<in> set (no_nodes ob). has_node st n)"

definition network_ok :: "network_state \<Rightarrow> bool" where
  "network_ok st \<longleftrightarrow> nodes_ok (ns_nodes st) \<and> links_ok st \<and> neighbours_ok st \<and>
     (\<forall>ob \<in> set (ns_observations st). observation_ok st ob)"

lemma nodes_ok_set: "nodes_ok m \<Longrightarrow> nn_id n = k \<Longrightarrow> nodes_ok (amap_set k n m)"
  unfolding nodes_ok_def
  by (elim conjE, intro conjI, simp, simp add: amap_keys_set del: set_map,
      rule amap_set_entries [where P = "\<lambda>k n. nn_id n = k"]) auto

lemma nodes_ok_map_of: "nodes_ok m \<Longrightarrow> map_of m k = Some n \<Longrightarrow> nn_id n = k"
  unfolding nodes_ok_def by (metis fst_conv map_of_SomeD snd_conv)

subsubsection \<open>Steps that only touch nodes\<close>

definition grows :: "network_state \<Rightarrow> network_state \<Rightarrow> bool" where
  "grows st st' \<longleftrightarrow> ns_links st' = ns_links st \<and> ns_neighborIds st' = ns_neighborIds st \<and>
     ns_observations st' = ns_observations st \<and>
     set (amap_keys (ns_nodes st)) \<subseteq> set (amap_keys (ns_nodes st')) \<and>
     (nodes_ok (ns_nodes st) \<longrightarrow> nodes_ok (ns_nodes st'))"

lemma grows_refl [simp]: "grows st st"
  by (simp add: grows_def)

lemma grows_trans: "grows a b \<Longrightarrow> grows b c \<Longrightarrow> grows a c"
  unfolding grows_def by auto

lemma grows_has_node: "grows st st' \<Longrightarrow> has_node st n \<Longrightarrow> has_node st' n"
  unfolding grows_def has_node_def by (elim conjE) (rule subsetD)

lemma grows_ok:
  assumes "network_ok st" "grows st st'"
  shows "network_ok st'"
proof -
  note g = assms(2) [unfolded grows_def]
  have n: "neighbours_of st' = neighbours_of st" using g by (simp add: neighbours_of_def fun_eq_iff)
  have l: "ns_links st' = ns_links st" and ob: "ns_observations st' = ns_observations st" using g by simp_all
  have h: "has_node st' m" if "has_node st m" for m using that assms(2) by (rule grows_has_node [rotated])
  have "nodes_ok (ns_nodes st')" using assms(1) g unfolding network_ok_def by (elim conjE) simp
  moreover have "links_ok st'" using assms(1) h unfolding network_ok_def links_ok_def n l by (elim conjE) simp
  moreover have "neighbours_ok st'"
    using assms(1) h unfolding network_ok_def neighbours_ok_def n l by (elim conjE) blast
  moreover have "\<forall>b \<in> set (ns_observations st'). observation_ok st' b"
    using assms(1) h unfolding network_ok_def observation_ok_def ob by (elim conjE) simp
  ultimately show ?thesis by (simp add: network_ok_def)
qed

lemma grows_set_node:
  assumes "nodes_ok (ns_nodes st) \<longrightarrow> nn_id n = k" "ns_nodes st' = amap_set k n (ns_nodes st)"
    "ns_links st' = ns_links st" "ns_neighborIds st' = ns_neighborIds st" "ns_observations st' = ns_observations st"
  shows "grows st st'"
  using assms nodes_ok_set unfolding grows_def by (auto simp: amap_keys_set simp del: set_map)

lemma addOrUpdate_grows: "grows st (addOrUpdateNode t u st)"
  by (rule grows_set_node [where k = "nu_id u"])
    (auto simp: addOrUpdateNode_def Let_def dest: nodes_ok_map_of split: option.split)

lemma addOrUpdate_has_node: "has_node (addOrUpdateNode t u st) (nu_id u)"
  by (simp add: addOrUpdateNode_def Let_def has_node_def amap_keys_set del: set_map)

lemma record_traffic_grows: "grows st (record_traffic now ctx v r hx st)"
  by (auto simp: record_traffic_def grows_def split: option.split)

lemma set_reason_grows: "grows st (set_reason label i n st)"
proof (cases "map_of (ns_nodes st) n")
  case None
  then show ?thesis by (simp add: set_reason_def)
next
  case (Some node)
  show ?thesis
  proof (cases "nn_id node \<noteq> SELF")
    case True
    show ?thesis
      by (rule grows_set_node [where k = n])
        (use Some True in \<open>auto simp: set_reason_def dest: nodes_ok_map_of\<close>)
  next
    case False
    with Some show ?thesis by (simp add: set_reason_def)
  qed
qed

lemma set_reasons_grows: "grows st (set_reasons label i ns st)"
proof (induction ns arbitrary: i st)
  case (Cons n ns)
  show ?case using grows_trans [OF set_reason_grows Cons.IH] by simp
qed simp

lemma ensureSelf_grows: "grows st (ensureSelfNode now name st)"
proof (cases "map_of (ns_nodes st) SELF")
  case None
  then show ?thesis
    by (intro grows_set_node [where k = SELF and n = "self_node now name"])
      (auto simp: ensureSelfNode_def self_node_def)
next
  case (Some n)
  then show ?thesis
    by (intro grows_set_node [where k = SELF and n = "n\<lparr>nn_name := Some name\<rparr>"])
      (auto simp: ensureSelfNode_def dest: nodes_ok_map_of)
qed

text \<open>Resolving a hop adds at most nodes, and the id it answers is one of them or the own node.\<close>

definition resolves :: "network_state \<Rightarrow> network_state \<times> jstr option \<Rightarrow> bool" where
  "resolves st r \<longleftrightarrow> grows st (fst r) \<and> (\<forall>n. snd r = Some n \<longrightarrow> n = SELF \<or> has_node (fst r) n)"

lemma resolves_update: "nu_id u = n \<Longrightarrow> resolves st (addOrUpdateNode t u st, Some n)"
  using addOrUpdate_grows addOrUpdate_has_node by (auto simp: resolves_def)

lemma resolves_self [simp]: "resolves st (st, Some SELF)"
  by (simp add: resolves_def)

lemma resolves_None [simp]: "resolves st (st, None)"
  by (simp add: resolves_def)

lemma resolve_ambiguous_resolves: "resolves st (resolve_ambiguous collate now ctx v fs r t hx st)"
proof -
  have "resolves (record_traffic now ctx v r hx st) (resolve_ambiguous collate now ctx v fs r t hx st)"
    unfolding resolve_ambiguous_def Let_def by (rule resolves_update) simp
  then show ?thesis using grows_trans [OF record_traffic_grows] by (auto simp: resolves_def)
qed

lemma resolve_resolves: "resolves st (resolveNode collate now ctx kind v r sa t hx st)"
  by (cases kind)
    (auto simp: resolveNode_def resolve_pubkey_def resolve_name_def resolve_prefix_def Let_def known_update_def
       resolve_ambiguous_resolves split: option.split intro!: resolves_update)

lemma source_resolves: "resolves st (source_node collate now ctx p packet t st)"
  by (auto simp: source_node_def Let_def resolve_resolves split: option.split)

definition path_known :: "network_state \<Rightarrow> jstr list \<Rightarrow> bool" where
  "path_known st path \<longleftrightarrow> (\<forall>n \<in> set path. n = SELF \<or> has_node st n)"

lemma path_known_grows: "grows st st' \<Longrightarrow> path_known st path \<Longrightarrow> path_known st' path"
  using grows_has_node unfolding path_known_def by blast

lemma push_id_known:
  assumes "resolves st r" "path_known st path"
  shows "path_known (fst r) (push_id (snd r) path)"
proof -
  have "path_known (fst r) path" using assms path_known_grows [of st "fst r" path] by (simp add: resolves_def)
  then show ?thesis using assms(1) by (auto simp: resolves_def push_id_def path_known_def split: option.split)
qed

lemma hop_nodes_known:
  assumes "path_known st path"
  shows "grows st (fst (hop_nodes collate now ctx src t hops st path)) \<and>
    path_known (fst (hop_nodes collate now ctx src t hops st path)) (snd (hop_nodes collate now ctx src t hops st path))"
  using assms
proof (induction hops arbitrary: st path)
  case Nil
  then show ?case by simp
next
  case (Cons hop hops)
  let ?hx = "Some \<lparr>hx_packetSource = src, hx_nextPrefix = nonempty (case hops of [] \<Rightarrow> None | h # _ \<Rightarrow> Some h)\<rparr>"
  let ?r = "resolveNode collate now ctx ByPrefix hop True True t ?hx st"
  have r: "resolves st ?r" by (rule resolve_resolves)
  have g: "grows st (fst ?r)" using r by (simp add: resolves_def)
  from Cons.IH [OF push_id_known [OF r Cons.prems]] g show ?case
    by (auto simp: split_beta Let_def intro: grows_trans)
qed

lemma remdups_adj_idem [simp]: "remdups_adj (remdups_adj xs) = remdups_adj xs"
proof (induction xs rule: remdups_adj.induct)
  case (3 x y xs)
  obtain zs where zs: "remdups_adj (y # xs) = y # zs"
    by (metis hd_remdups_adj list.collapse list.sel(1) remdups_adj_Nil_iff list.distinct(1))
  show ?case
  proof (cases "x = y")
    case True
    with 3 show ?thesis by simp
  next
    case False
    then have "remdups_adj (remdups_adj (x # y # xs)) = x # remdups_adj (y # zs)" by (simp add: zs)
    also have "\<dots> = x # y # zs" using 3(2) [OF False] by (simp only: zs)
    finally show ?thesis using False by (simp add: zs)
  qed
qed simp_all

lemma canonical_path_known:
  fixes collate now ctx p packet t st
  defines "b \<equiv> buildCanonicalPathForPacket collate now ctx p packet t st"
  shows "grows st (fst b)" "nodes_ok (ns_nodes st) \<Longrightarrow> \<forall>n \<in> set (snd b). has_node (fst b) n"
    "remdups_adj (snd b) = snd b"
proof -
  let ?s = "source_node collate now ctx p packet t st"
  let ?h = "hop_nodes collate now ctx (nonempty (snd ?s)) t (pp_pathBytes p) (fst ?s) (push_id (snd ?s) [])"
  have s: "resolves st ?s" by (rule source_resolves)
  have h: "grows (fst ?s) (fst ?h) \<and> path_known (fst ?h) (snd ?h)"
    by (rule hop_nodes_known, rule push_id_known [OF s]) (simp add: path_known_def)
  have b: "b = (fst ?h, dedupeConsecutive (close_path ctx p (snd ?h)))"
    by (simp add: b_def buildCanonicalPathForPacket_def split_beta)
  show g: "grows st (fst b)" using s h by (auto simp: b resolves_def intro: grows_trans)
  show "remdups_adj (snd b) = snd b" by (simp add: b dedupeConsecutive_remdups_adj)
  assume "nodes_ok (ns_nodes st)"
  then have "nodes_ok (ns_nodes (fst b))" using g by (simp add: grows_def)
  then have self: "has_node (fst b) SELF" by (simp add: nodes_ok_def has_node_def del: set_map)
  have "set (close_path ctx p (snd ?h)) \<subseteq> insert SELF (set (snd ?h))"
    by (auto simp: close_path_def Let_def)
  with h self show "\<forall>n \<in> set (snd b). has_node (fst b) n"
    by (auto simp: b dedupeConsecutive_remdups_adj path_known_def)
qed

subsubsection \<open>Links and neighbours\<close>

lemma entry_ensure_add: "set (entry_or [] c (ensure_add k x m)) = (if c = k then insert x (set (entry_or [] c m)) else set (entry_or [] c m))"
  by (simp add: ensure_add_def entry_or_set)

lemma neighbours_upsert:
  "neighbours_of (upsertNeighbor a b st) c =
     neighbours_of st c \<union> (if c = a then {b} else {}) \<union> (if c = b then {a} else {})"
  by (auto simp: neighbours_of_def upsertNeighbor_def entry_ensure_add)

lemma upsert_fields [simp]:
  "ns_links (upsertNeighbor a b st) = ns_links st" "ns_nodes (upsertNeighbor a b st) = ns_nodes st"
  "ns_observations (upsertNeighbor a b st) = ns_observations st"
  by (simp_all add: upsertNeighbor_def)

lemma link_pair_fields [simp]:
  "ns_nodes (link_pair t st ab) = ns_nodes st" "ns_observations (link_pair t st ab) = ns_observations st"
  by (simp_all add: link_pair_def addCanonicalLink_def Let_def)

lemma has_node_link_pair [simp]: "has_node (link_pair t st ab) n = has_node st n"
  by (simp add: has_node_def)

definition graph_ok :: "network_state \<Rightarrow> bool" where
  "graph_ok st \<longleftrightarrow> links_ok st \<and> neighbours_ok st"

lemma link_pair_ok:
  assumes ok: "graph_ok st" and h: "has_node st a" "has_node st b"
  shows "graph_ok (link_pair t st (a, b))"
proof (cases "a = b")
  case True
  with ok show ?thesis by (simp add: link_pair_def)
next
  case False
  let ?st = "link_pair t st (a, b)"
  let ?key = "buildLinkKey a b"
  let ?new = "case map_of (ns_links st) ?key of
      Some ex \<Rightarrow> ex\<lparr>nl_lastActivity := max (nl_lastActivity ex) t\<rparr>
    | None \<Rightarrow> \<lparr>nl_sourceId = a, nl_targetId = b, nl_lastActivity = t\<rparr>"
  have links: "ns_links ?st = amap_set ?key ?new (ns_links st)"
    using False by (simp add: link_pair_def addCanonicalLink_def Let_def)
  have nb: "neighbours_of ?st c = neighbours_of st c \<union> (if c = a then {b} else {}) \<union> (if c = b then {a} else {})" for c
    using False by (simp add: link_pair_def neighbours_upsert) (simp add: neighbours_of_def addCanonicalLink_def Let_def)
  let ?P = "\<lambda>k l. k = buildLinkKey (nl_sourceId l) (nl_targetId l) \<and> nl_sourceId l \<noteq> nl_targetId l \<and>
      has_node st (nl_sourceId l) \<and> has_node st (nl_targetId l) \<and> nl_targetId l \<in> neighbours_of ?st (nl_sourceId l)"
  have old: "\<forall>e \<in> set (ns_links st). ?P (fst e) (snd e)"
    using ok unfolding graph_ok_def links_ok_def nb by (elim conjE) simp
  have "?P ?key ?new"
  proof (cases "map_of (ns_links st) ?key")
    case None
    then show ?thesis using False h by (simp add: nb)
  next
    case (Some ex)
    have new: "nl_sourceId ?new = nl_sourceId ex" "nl_targetId ?new = nl_targetId ex" by (simp_all add: Some)
    show ?thesis using bspec [OF old map_of_SomeD [OF Some]] unfolding new fst_conv snd_conv .
  qed
  from amap_set_entries [where P = ?P, OF old this]
  have "links_ok ?st" using ok by (simp add: links_ok_def links graph_ok_def)
  moreover have "neighbours_ok ?st"
  proof -
    have keys: "buildLinkKey x y \<in> set (amap_keys (ns_links ?st))"
      if "buildLinkKey x y \<in> set (amap_keys (ns_links st)) \<or> buildLinkKey x y = ?key" for x y
      using that unfolding links by (auto simp: amap_keys_set simp del: set_map)
    show ?thesis unfolding neighbours_ok_def
    proof (intro allI impI)
      fix x y
      assume y: "y \<in> neighbours_of ?st x"
      then consider "y \<in> neighbours_of st x" | "x = a \<and> y = b" | "x = b \<and> y = a"
        by (auto simp: nb split: if_splits)
      then show "x \<noteq> y \<and> x \<in> neighbours_of ?st y \<and> has_node ?st x \<and> has_node ?st y \<and>
          buildLinkKey x y \<in> set (amap_keys (ns_links ?st))"
      proof cases
        case 1
        with ok have "x \<noteq> y \<and> x \<in> neighbours_of st y \<and> has_node st x \<and> has_node st y \<and>
            buildLinkKey x y \<in> set (amap_keys (ns_links st))"
          unfolding graph_ok_def neighbours_ok_def by (elim conjE) blast
        then show ?thesis using keys by (simp add: nb del: set_map)
      next
        case 2
        then show ?thesis using False h keys by (simp add: nb del: set_map)
      next
        case 3
        then show ?thesis using False h keys buildLinkKey_sym [of b a] by (simp add: nb del: set_map)
      qed
    qed
  qed
  ultimately show ?thesis by (simp add: graph_ok_def)
qed

lemma link_pairs_ok:
  assumes "graph_ok st" "\<forall>e \<in> set ps. has_node st (fst e) \<and> has_node st (snd e)"
  shows "graph_ok (foldl (link_pair t) st ps) \<and>
    ns_nodes (foldl (link_pair t) st ps) = ns_nodes st \<and>
    ns_observations (foldl (link_pair t) st ps) = ns_observations st"
  using assms
proof (induction ps arbitrary: st)
  case Nil
  then show ?case by simp
next
  case (Cons p ps)
  have "graph_ok (link_pair t st p)"
    using link_pair_ok [OF Cons.prems(1), of "fst p" "snd p"] Cons.prems(2) by simp
  from Cons.IH [OF this] Cons.prems(2) show ?case by simp
qed

lemma set_pairs_of: "p \<in> set (pairs_of xs) \<Longrightarrow> fst p \<in> set xs \<and> snd p \<in> set xs"
  unfolding pairs_of_def by (cases xs; cases p) (auto dest: set_zip_leftD set_zip_rightD)

lemma has_node_cong: "ns_nodes st = ns_nodes st' \<Longrightarrow> has_node st = has_node st'"
  by (simp add: has_node_def fun_eq_iff)

lemma ingest_ok:
  assumes ok: "network_ok st"
  shows "network_ok (fst (ingestPacketIntoPacketNetwork lib collate now ctx packet st))"
proof (cases "parsePacket lib (rk_data packet)")
  case None
  with ok show ?thesis by (simp add: ingestPacketIntoPacketNetwork_def)
next
  case (Some p)
  let ?t = "normalizePacketTimestampMs now (Some (rk_timestamp packet))"
  let ?b = "buildCanonicalPathForPacket collate now ctx p packet ?t st"
  note b = canonical_path_known [where st = st and collate = collate and now = now and ctx = ctx and p = p
    and packet = packet and t = ?t]
  have nok: "nodes_ok (ns_nodes st)" using ok by (simp add: network_ok_def)
  show ?thesis
  proof (cases "length (snd ?b) < 2")
    case True
    with grows_ok [OF ok b(1)] Some show ?thesis
      by (simp add: ingestPacketIntoPacketNetwork_def split_beta Let_def)
  next
    case False
    define ob where "ob = \<lparr>no_activityAtMs = ?t, no_nodes = snd ?b\<rparr>"
    let ?label = "getPacketLabel (pp_payloadType p)"
    define st2 where "st2 = set_reasons ?label 0 (snd ?b) (fst ?b)"
    define st3 where "st3 = st2\<lparr>ns_observations := ns_observations st2 @ [ob]\<rparr>"
    have g2: "grows (fst ?b) st2" unfolding st2_def by (rule set_reasons_grows)
    have ok2: "network_ok st2" using grows_ok [OF grows_ok [OF ok b(1)] g2] .
    have h2: "\<forall>n \<in> set (snd ?b). has_node st2 n" using b(2) [OF nok] grows_has_node [OF g2] by blast
    have n3: "has_node st3 = has_node st2" by (rule has_node_cong) (simp add: st3_def)
    have graph3: "graph_ok st3"
      using ok2 unfolding network_ok_def graph_ok_def links_ok_def neighbours_ok_def n3
      by (elim conjE) (simp add: st3_def neighbours_of_def)
    let ?st4 = "foldl (link_pair ?t) st3 (pairs_of (snd ?b))"
    have h3: "\<forall>e \<in> set (pairs_of (snd ?b)). has_node st3 (fst e) \<and> has_node st3 (snd e)"
      using h2 set_pairs_of unfolding n3 by blast
    have f: "graph_ok ?st4 \<and> ns_nodes ?st4 = ns_nodes st3 \<and> ns_observations ?st4 = ns_observations st3"
      by (rule link_pairs_ok [OF graph3 h3])
    then have n4: "has_node ?st4 = has_node st2" using has_node_cong n3 by metis
    have "observation_ok st2 ob"
      using False h2 b(3) by (simp add: observation_ok_def ob_def)
    then have "\<forall>o' \<in> set (ns_observations ?st4). observation_ok ?st4 o'"
      using ok2 f unfolding observation_ok_def n4 network_ok_def by (auto simp: st3_def)
    with f ok2 have "network_ok ?st4"
      unfolding network_ok_def graph_ok_def by (elim conjE) (simp add: st3_def)
    with Some False show ?thesis
      by (simp add: ingestPacketIntoPacketNetwork_def split_beta Let_def st3_def st2_def ob_def)
  qed
qed

subsubsection \<open>Pruning\<close>

definition joins :: "network_link \<Rightarrow> jstr \<Rightarrow> jstr \<Rightarrow> bool" where
  "joins l a b \<longleftrightarrow> (nl_sourceId l = a \<and> nl_targetId l = b) \<or> (nl_sourceId l = b \<and> nl_targetId l = a)"

lemma joins_sym: "joins l a b \<Longrightarrow> joins l b a"
  by (auto simp: joins_def)

abbreviation upsert_link :: "network_state \<Rightarrow> jstr \<times> network_link \<Rightarrow> network_state" where
  "upsert_link s e \<equiv> (case e of (k, l) \<Rightarrow> upsertNeighbor (nl_sourceId l) (nl_targetId l) s)"

lemma upsert_links:
  "b \<in> neighbours_of (foldl upsert_link s es) a \<longleftrightarrow> b \<in> neighbours_of s a \<or> list_ex (\<lambda>e. joins (snd e) a b) es"
proof (induction es arbitrary: s)
  case Nil
  then show ?case by simp
next
  case (Cons e es)
  show ?case using Cons [of "upsert_link s e"] by (cases e) (auto simp: neighbours_upsert joins_def)
qed

lemma upsert_links_fields:
  "ns_links (foldl upsert_link s es) = ns_links s \<and> ns_nodes (foldl upsert_link s es) = ns_nodes s \<and>
   ns_observations (foldl upsert_link s es) = ns_observations s"
proof (induction es arbitrary: s)
  case Nil
  then show ?case by simp
next
  case (Cons e es)
  then show ?case by (cases e) simp
qed

lemma neighbours_Nil: "ns_neighborIds s = [] \<Longrightarrow> neighbours_of s a = {}"
  by (simp add: neighbours_of_def)

definition pruned_links :: "int \<Rightarrow> network_state \<Rightarrow> (jstr \<times> network_link) list" where
  "pruned_links cutoff st =
     (let st1 = st\<lparr>ns_nodes := filter (\<lambda>e. \<not> stale_node cutoff e) (ns_nodes st)\<rparr>
      in filter (\<lambda>(k, l). has_node st1 (nl_sourceId l) \<and> has_node st1 (nl_targetId l)) (ns_links st))"

text \<open>What pruning leaves, when something was stale.\<close>

lemma prune_result:
  assumes stale: "list_ex (stale_node cutoff) (ns_nodes st)"
  defines "r \<equiv> fst (prunePacketNetworkState cutoff st)"
  shows "ns_nodes r = filter (\<lambda>e. \<not> stale_node cutoff e) (ns_nodes st)"
    "ns_links r = pruned_links cutoff st"
    "ns_observations r = filter (\<lambda>ob. list_all (has_node r) (no_nodes ob)) (ns_observations st)"
    "b \<in> neighbours_of r a \<longleftrightarrow> list_ex (\<lambda>e. joins (snd e) a b) (ns_links r)"
    "snd (prunePacketNetworkState cutoff st)"
proof -
  define st1 where "st1 = st\<lparr>ns_nodes := filter (\<lambda>e. \<not> stale_node cutoff e) (ns_nodes st)\<rparr>"
  define st2 where "st2 = st1\<lparr>ns_links := pruned_links cutoff st,
      ns_observations := filter (\<lambda>ob. list_all (has_node st1) (no_nodes ob)) (ns_observations st),
      ns_neighborIds := []\<rparr>"
  have p: "prunePacketNetworkState cutoff st = (foldl upsert_link st2 (pruned_links cutoff st), True)"
    using stale by (simp add: prunePacketNetworkState_def Let_def st2_def st1_def pruned_links_def)
  have r: "r = foldl upsert_link st2 (pruned_links cutoff st)" by (simp add: r_def p)
  note f = upsert_links_fields [of st2 "pruned_links cutoff st", folded r]
  show "ns_nodes r = filter (\<lambda>e. \<not> stale_node cutoff e) (ns_nodes st)" using f by (simp add: st2_def st1_def)
  show "ns_links r = pruned_links cutoff st" using f by (simp add: st2_def)
  have "has_node r = has_node st1" using f by (intro has_node_cong) (simp add: st2_def st1_def)
  then show "ns_observations r = filter (\<lambda>ob. list_all (has_node r) (no_nodes ob)) (ns_observations st)"
    using f by (simp add: st2_def)
  show "b \<in> neighbours_of r a \<longleftrightarrow> list_ex (\<lambda>e. joins (snd e) a b) (ns_links r)"
    using f unfolding r upsert_links by (simp add: st2_def neighbours_of_def)
  show "snd (prunePacketNetworkState cutoff st)" by (simp add: p)
qed

lemma distinct_keys_filter: "amap_ok m \<Longrightarrow> amap_ok (filter P m)"
  by (rule distinct_map_filter)

lemma keys_filter_keep:
  "e \<in> set m \<Longrightarrow> P e \<Longrightarrow> fst e \<in> set (amap_keys (filter P m))"
  by force

lemma prune_ok:
  assumes ok: "network_ok st"
  shows "network_ok (fst (prunePacketNetworkState cutoff st))"
proof (cases "list_ex (stale_node cutoff) (ns_nodes st)")
  case False
  with ok show ?thesis by (simp add: prunePacketNetworkState_def Let_def)
next
  case stale: True
  define r where "r = fst (prunePacketNetworkState cutoff st)"
  note pr = prune_result [OF stale, folded r_def]
  have lk: "e \<in> set (ns_links r) \<longleftrightarrow> e \<in> set (ns_links st) \<and> has_node r (nl_sourceId (snd e)) \<and> has_node r (nl_targetId (snd e))" for e
    unfolding pr(2) pruned_links_def Let_def
    by (cases e) (simp add: has_node_def pr(1) del: set_map)
  have nok: "nodes_ok (ns_nodes r)"
  proof -
    have n: "nodes_ok (ns_nodes st)" using ok by (simp add: network_ok_def)
    then obtain e where "e \<in> set (ns_nodes st)" "fst e = SELF" unfolding nodes_ok_def by auto
    then have "SELF \<in> set (amap_keys (ns_nodes r))"
      unfolding pr(1) using keys_filter_keep [of e "ns_nodes st" "\<lambda>e. \<not> stale_node cutoff e"]
      by (simp add: stale_node_def del: set_map)
    with n show ?thesis unfolding nodes_ok_def pr(1) by (simp add: distinct_keys_filter del: set_map)
  qed
  have nb: "b \<in> neighbours_of r a \<longleftrightarrow> (\<exists>e \<in> set (ns_links r). joins (snd e) a b)" for a b
    using pr(4) [of b a] by (simp only: list_ex_iff)
  have lok: "links_ok st" using ok by (simp add: network_ok_def)
  have "links_ok r"
  proof -
    have "amap_ok (ns_links r)" using lok unfolding pr(2) pruned_links_def Let_def links_ok_def
      by (elim conjE) (rule distinct_keys_filter)
    moreover have "nl_targetId (snd e) \<in> neighbours_of r (nl_sourceId (snd e))" if "e \<in> set (ns_links r)" for e
      using that unfolding nb by (intro bexI [of _ e]) (simp_all add: joins_def)
    ultimately show ?thesis using lok lk unfolding links_ok_def by (elim conjE) simp
  qed
  moreover have "neighbours_ok r" unfolding neighbours_ok_def
  proof (intro allI impI)
    fix a b
    assume "b \<in> neighbours_of r a"
    then obtain e where e: "e \<in> set (ns_links r)" "joins (snd e) a b" unfolding nb by (elim bexE)
    have "fst e = buildLinkKey (nl_sourceId (snd e)) (nl_targetId (snd e)) \<and>
        nl_sourceId (snd e) \<noteq> nl_targetId (snd e) \<and> has_node r (nl_sourceId (snd e)) \<and> has_node r (nl_targetId (snd e))"
      using e(1) \<open>links_ok r\<close> unfolding links_ok_def by (elim conjE) simp
    moreover have "a \<in> neighbours_of r b" unfolding nb using e joins_sym by (intro bexI [of _ e])
    moreover have "fst e \<in> set (amap_keys (ns_links r))" using e(1) by simp
    ultimately show "a \<noteq> b \<and> a \<in> neighbours_of r b \<and> has_node r a \<and> has_node r b \<and>
        buildLinkKey a b \<in> set (amap_keys (ns_links r))"
      using e(2) buildLinkKey_sym [of a b] unfolding joins_def by (auto simp del: set_map)
  qed
  moreover have "\<forall>ob \<in> set (ns_observations r). observation_ok r ob"
    using ok unfolding pr(3) network_ok_def observation_ok_def by (elim conjE) (simp add: list_all_iff)
  ultimately show ?thesis using nok unfolding r_def [symmetric] network_ok_def by simp
qed

lemma create_ok: "network_ok (createPacketNetworkState now name)"
  by (simp add: network_ok_def createPacketNetworkState_def nodes_ok_def self_node_def links_ok_def neighbours_ok_def neighbours_of_def)

lemma clear_ok: "network_ok (clearPacketNetworkState now name st)"
  by (simp add: network_ok_def clearPacketNetworkState_def nodes_ok_def self_node_def links_ok_def neighbours_ok_def neighbours_of_def)

datatype network_op =
  OpIngest network_context int raw_packet | OpPrune int | OpSelf int jstr | OpClear int jstr

definition network_step :: "graph_decoder \<Rightarrow> (jstr \<Rightarrow> jstr) \<Rightarrow> network_state \<Rightarrow> network_op \<Rightarrow> network_state" where
  "network_step lib collate st op' =
     (case op' of
        OpIngest ctx now packet \<Rightarrow> fst (ingestPacketIntoPacketNetwork lib collate now ctx packet st)
      | OpPrune cutoff \<Rightarrow> fst (prunePacketNetworkState cutoff st)
      | OpSelf now name \<Rightarrow> ensureSelfNode now name st
      | OpClear now name \<Rightarrow> clearPacketNetworkState now name st)"

lemma network_step_ok: "network_ok st \<Longrightarrow> network_ok (network_step lib collate st op')"
  by (cases op')
    (simp_all add: network_step_def ingest_ok prune_ok clear_ok grows_ok [OF _ ensureSelf_grows])

text \<open>C21: Whatever packets arrive, whatever contexts they are read in and whenever the graph is pruned,
  renamed or cleared, it stays consistent: every link and neighbour pair joins two different existing nodes
  and is recorded both ways, every neighbour pair has its link, every remembered path has at
  least two nodes, repeats none and names only existing ones.\<close>

theorem network_stays_consistent:
  "network_ok (foldl (network_step lib collate) (createPacketNetworkState now name) ops)"
proof (induction ops rule: rev_induct)
  case Nil
  show ?case by (simp add: create_ok)
next
  case (snoc op' ops)
  then show ?case by (simp add: network_step_ok)
qed

text \<open>Pruning reports a change exactly when some node other than the own one was last active before the
  cutoff, and then leaves exactly the others, the links and paths between them, and as
  neighbours exactly what the remaining links join; otherwise it changes nothing.\<close>

theorem prune_keeps_the_active:
  fixes st cutoff
  defines "r \<equiv> fst (prunePacketNetworkState cutoff st)"
    and "changed \<equiv> snd (prunePacketNetworkState cutoff st)"
  shows "changed = (\<exists>e \<in> set (ns_nodes st). fst e \<noteq> SELF \<and> nn_lastActivity (snd e) < cutoff)"
    and "\<not> changed \<Longrightarrow> r = st"
    and "changed \<Longrightarrow>
      ns_nodes r = filter (\<lambda>e. fst e = SELF \<or> nn_lastActivity (snd e) \<ge> cutoff) (ns_nodes st) \<and>
      ns_links r = filter (\<lambda>e. has_node r (nl_sourceId (snd e)) \<and> has_node r (nl_targetId (snd e))) (ns_links st) \<and>
      ns_observations r = filter (\<lambda>ob. \<forall>n \<in> set (no_nodes ob). has_node r n) (ns_observations st) \<and>
      (\<forall>a b. b \<in> neighbours_of r a \<longleftrightarrow> (\<exists>e \<in> set (ns_links r). joins (snd e) a b))"
proof -
  have c: "changed = list_ex (stale_node cutoff) (ns_nodes st)"
    by (simp add: changed_def prunePacketNetworkState_def Let_def)
  show "changed = (\<exists>e \<in> set (ns_nodes st). fst e \<noteq> SELF \<and> nn_lastActivity (snd e) < cutoff)"
    unfolding c list_ex_iff Bex_def stale_node_def ..
  show "\<not> changed \<Longrightarrow> r = st" by (simp add: c r_def prunePacketNetworkState_def Let_def)
  assume "changed"
  then have s: "list_ex (stale_node cutoff) (ns_nodes st)" by (simp add: c)
  note pr = prune_result [OF s, folded r_def]
  have "(\<lambda>e. \<not> stale_node cutoff e) = (\<lambda>e. fst e = SELF \<or> nn_lastActivity (snd e) \<ge> cutoff)"
    by (auto simp: stale_node_def)
  moreover have "ns_links r = filter (\<lambda>e. has_node r (nl_sourceId (snd e)) \<and> has_node r (nl_targetId (snd e))) (ns_links st)"
    unfolding pr(2) pruned_links_def Let_def
    by (rule filter_cong) (simp_all add: has_node_def pr(1) split_beta del: set_map)
  moreover have "ns_observations r = filter (\<lambda>ob. \<forall>n \<in> set (no_nodes ob). has_node r n) (ns_observations st)"
    using pr(3) by (simp only: list_all_iff)
  moreover have "\<forall>a b. b \<in> neighbours_of r a \<longleftrightarrow> (\<exists>e \<in> set (ns_links r). joins (snd e) a b)"
    unfolding pr(4) list_ex_iff by (intro allI refl)
  ultimately show "ns_nodes r = filter (\<lambda>e. fst e = SELF \<or> nn_lastActivity (snd e) \<ge> cutoff) (ns_nodes st) \<and>
      ns_links r = filter (\<lambda>e. has_node r (nl_sourceId (snd e)) \<and> has_node r (nl_targetId (snd e))) (ns_links st) \<and>
      ns_observations r = filter (\<lambda>ob. \<forall>n \<in> set (no_nodes ob). has_node r n) (ns_observations st) \<and>
      (\<forall>a b. b \<in> neighbours_of r a \<longleftrightarrow> (\<exists>e \<in> set (ns_links r). joins (snd e) a b))"
    using pr(1) by simp
qed

subsection \<open>What is drawn\<close>

definition shown :: "network_state \<Rightarrow> visibility \<Rightarrow> jstr \<Rightarrow> bool" where
  "shown st vis n \<longleftrightarrow> n \<in> set (amap_keys (ns_nodes st)) \<and> isPacketNetworkNodeVisible (map_of (ns_nodes st) n) vis"

lemma shown_some: "shown st vis n \<Longrightarrow> \<exists>nd. map_of (ns_nodes st) n = Some nd \<and> isPacketNetworkNodeVisible (Some nd) vis"
  unfolding shown_def isPacketNetworkNodeVisible_def by (auto split: option.splits)

lemma shown_iff_visible: "shown st vis n \<longleftrightarrow> isPacketNetworkNodeVisible (map_of (ns_nodes st) n) vis"
  unfolding shown_def isPacketNetworkNodeVisible_def
  by (auto split: option.splits dest: map_of_SomeD simp: rev_image_eqI)

lemma alias_of_shown:
  assumes "nodes_ok (ns_nodes st)" "alias_of st nh step = Some a"
  shows "shown st vis a"
proof -
  from assms(2) obtain probable pn where p: "map_of (ns_nodes st) probable = Some pn" "\<not> nn_isAmbiguous pn" "a = nn_id pn"
    by (auto simp: alias_of_def split: option.splits if_splits)
  then have "a = probable" using nodes_ok_map_of [OF assms(1)] by simp
  with p show ?thesis by (simp add: shown_iff_visible isPacketNetworkNodeVisible_def)
qed

lemma aliases_shown:
  assumes "nodes_ok (ns_nodes st)"
  shows "\<forall>e \<in> set (buildKnownSiblingRepeaterAliasMap st vis). shown st vis (snd e)"
proof -
  have "\<forall>e \<in> set (foldl (\<lambda>m step. case alias_of st nh step of Some a \<Rightarrow> amap_set (fst step) a m | None \<Rightarrow> m) m ss).
      shown st vis (snd e)" if "\<forall>e \<in> set m. shown st vis (snd e)" for nh m ss
    using that
  proof (induction ss arbitrary: m)
    case Nil
    then show ?case by simp
  next
    case (Cons s ss)
    have "\<forall>e \<in> set (case alias_of st nh s of Some a \<Rightarrow> amap_set (fst s) a m | None \<Rightarrow> m). shown st vis (snd e)"
    proof (cases "alias_of st nh s")
      case None
      with Cons.prems show ?thesis by simp
    next
      case (Some a)
      have "\<forall>e \<in> set (amap_set (fst s) a m). shown st vis (snd e)"
        by (rule amap_set_entries [where P = "\<lambda>k v. shown st vis v", OF Cons.prems])
          (rule alias_of_shown [OF assms Some])
      with Some show ?thesis by simp
    qed
    from Cons.IH [OF this] show ?case by simp
  qed
  from this [of "[]"] show ?thesis by (simp add: buildKnownSiblingRepeaterAliasMap_def)
qed

lemma projected_shown:
  assumes "\<forall>e \<in> set aliases. shown st vis (snd e)"
    "n \<in> set (fst (project_with_aliases st path vis aliases))"
  shows "shown st vis n"
proof -
  let ?steps = "map (step_of st vis aliases (length path)) (enumerate 0 path)"
  have "n \<in> set (step_ids ?steps)"
    using assms(2) compact_keeps_visible [of ?steps]
    by (simp add: project_with_aliases_def Let_def dedupeConsecutive_remdups_adj)
  then obtain ix where ix: "nonempty (ps_nodeId (step_of st vis aliases (length path) ix)) = Some n"
    unfolding step_ids_def by (auto split: option.splits simp del: nonempty_Some)
  then have v: "shown st vis (snd ix)" "n = entry_or (snd ix) (snd ix) aliases"
    by (auto simp: step_of_def Let_def shown_iff_visible split: if_splits)
  show ?thesis
  proof (cases "map_of aliases (snd ix)")
    case None
    with v show ?thesis by (simp add: entry_or_def)
  next
    case (Some a)
    from bspec [OF assms(1) map_of_SomeD [OF Some]] v Some show ?thesis by (simp add: entry_or_def)
  qed
qed

definition projection_ok :: "network_state \<Rightarrow> visibility \<Rightarrow> network_projection \<Rightarrow> bool" where
  "projection_ok st vis pr \<longleftrightarrow>
     (\<forall>e \<in> set (np_nodes pr). map_of (ns_nodes st) (fst e) = Some (snd e) \<and> isPacketNetworkNodeVisible (Some (snd e)) vis) \<and>
     (\<forall>e \<in> set (np_links pr).
        fst e = buildLinkKey (pj_sourceId (snd e)) (pj_targetId (snd e)) \<and>
        pj_sourceId (snd e) \<noteq> pj_targetId (snd e) \<and>
        pj_sourceId (snd e) \<in> set (amap_keys (np_nodes pr)) \<and> pj_targetId (snd e) \<in> set (amap_keys (np_nodes pr)) \<and>
        (pj_hasDirect (snd e) \<or> pj_hasHidden (snd e)))"

lemma show_nodes:
  assumes "\<forall>n \<in> set ns. shown st vis n"
    "\<forall>e \<in> set m. map_of (ns_nodes st) (fst e) = Some (snd e) \<and> isPacketNetworkNodeVisible (Some (snd e)) vis"
  shows "(\<forall>e \<in> set (foldl (show_node st) m ns).
      map_of (ns_nodes st) (fst e) = Some (snd e) \<and> isPacketNetworkNodeVisible (Some (snd e)) vis) \<and>
    set (amap_keys (foldl (show_node st) m ns)) = set (amap_keys m) \<union> set ns"
  using assms
proof (induction ns arbitrary: m)
  case Nil
  then show ?case by simp
next
  case (Cons n ns)
  have "shown st vis n" using Cons.prems(1) by simp
  then obtain nd where nd: "map_of (ns_nodes st) n = Some nd" "isPacketNetworkNodeVisible (Some nd) vis"
    using shown_some by blast
  have "\<forall>e \<in> set (show_node st m n). map_of (ns_nodes st) (fst e) = Some (snd e) \<and> isPacketNetworkNodeVisible (Some (snd e)) vis"
    unfolding show_node_def nd option.case
    by (rule amap_set_entries [where P = "\<lambda>k v. map_of (ns_nodes st) k = Some v \<and> isPacketNetworkNodeVisible (Some v) vis",
          OF Cons.prems(2)]) (simp add: nd)
  note ih = Cons.IH [OF _ this]
  have ns: "\<forall>n \<in> set ns. shown st vis n" using Cons.prems(1) by simp
  have k: "set (amap_keys (show_node st m n)) = insert n (set (amap_keys m))"
    by (auto simp: show_node_def nd amap_keys_set simp del: set_map)
  show ?case
    unfolding foldl_Cons conjunct2 [OF ih [OF ns]] k
    by (rule conjI [OF conjunct1 [OF ih [OF ns]]]) simp
qed

definition drawn_link :: "jstr set \<Rightarrow> jstr \<Rightarrow> projected_link \<Rightarrow> bool" where
  "drawn_link ns k l \<longleftrightarrow> k = buildLinkKey (pj_sourceId l) (pj_targetId l) \<and> pj_sourceId l \<noteq> pj_targetId l \<and>
     pj_sourceId l \<in> ns \<and> pj_targetId l \<in> ns \<and> (pj_hasDirect l \<or> pj_hasHidden l)"

lemma project_link_drawn:
  assumes "\<forall>e \<in> set links. drawn_link ns (fst e) (snd e)" "fst ab \<in> ns" "snd ab \<in> ns"
  shows "\<forall>e \<in> set (project_link t dashed links ab). drawn_link ns (fst e) (snd e)"
proof (cases "fst ab = snd ab")
  case True
  with assms show ?thesis by (simp add: project_link_def)
next
  case False
  let ?key = "buildLinkKey (fst ab) (snd ab)"
  show ?thesis
  proof (cases "map_of links ?key")
    case None
    show ?thesis unfolding project_link_def Let_def None option.case if_not_P [OF False]
      by (rule amap_set_entries [where P = "drawn_link ns", OF assms(1)]) (use False assms in \<open>cases "map_of dashed ?key"; simp add: drawn_link_def\<close>)
  next
    case (Some ex)
    have "drawn_link ns ?key ex" using bspec [OF assms(1) map_of_SomeD [OF Some]] by simp
    then show ?thesis unfolding project_link_def Let_def Some option.case if_not_P [OF False]
      by (intro amap_set_entries [where P = "drawn_link ns", OF assms(1)]) (simp add: drawn_link_def)
  qed
qed

lemma project_links_drawn:
  assumes "\<forall>e \<in> set links. drawn_link ns (fst e) (snd e)" "\<forall>p \<in> set ps. fst p \<in> ns \<and> snd p \<in> ns"
  shows "\<forall>e \<in> set (foldl (project_link t dashed) links ps). drawn_link ns (fst e) (snd e)"
  using assms
proof (induction ps arbitrary: links)
  case Nil
  then show ?case by simp
next
  case (Cons p ps)
  have "\<forall>e \<in> set (project_link t dashed links p). drawn_link ns (fst e) (snd e)"
    by (rule project_link_drawn [OF Cons.prems(1)]) (use Cons.prems(2) in simp_all)
  from Cons.IH [OF this] Cons.prems(2) show ?case by simp
qed

lemma drawn_link_mono: "drawn_link ns k l \<Longrightarrow> ns \<subseteq> ns' \<Longrightarrow> drawn_link ns' k l"
  by (auto simp: drawn_link_def)

lemma projection_ok_drawn:
  "projection_ok st vis pr \<longleftrightarrow>
     (\<forall>e \<in> set (np_nodes pr). map_of (ns_nodes st) (fst e) = Some (snd e) \<and> isPacketNetworkNodeVisible (Some (snd e)) vis) \<and>
     (\<forall>e \<in> set (np_links pr). drawn_link (set (amap_keys (np_nodes pr))) (fst e) (snd e))"
  by (simp only: projection_ok_def drawn_link_def)

lemma project_observation_ok:
  assumes a: "\<forall>e \<in> set aliases. shown st vis (snd e)" and ok: "projection_ok st vis pr"
  shows "projection_ok st vis (project_observation st vis aliases pr ob) \<and>
    set (amap_keys (np_nodes pr)) \<subseteq> set (amap_keys (np_nodes (project_observation st vis aliases pr ob)))"
proof -
  let ?p = "project_with_aliases st (no_nodes ob) vis aliases"
  show ?thesis
  proof (cases "length (fst ?p) < 2")
    case True
    with ok show ?thesis by (simp add: project_observation_def split_beta)
  next
    case False
    define r where "r = project_observation st vis aliases pr ob"
    have r: "np_nodes r = foldl (show_node st) (np_nodes pr) (fst ?p)"
      "np_links r = foldl (project_link (no_activityAtMs ob) (snd ?p)) (np_links pr) (pairs_of (fst ?p))"
      using False by (simp_all add: r_def project_observation_def split_beta)
    have nodes: "(\<forall>e \<in> set (np_nodes r). map_of (ns_nodes st) (fst e) = Some (snd e) \<and> isPacketNetworkNodeVisible (Some (snd e)) vis) \<and>
        set (amap_keys (np_nodes r)) = set (amap_keys (np_nodes pr)) \<union> set (fst ?p)"
      unfolding r by (rule show_nodes) (use projected_shown [OF a] ok in \<open>simp_all add: projection_ok_drawn\<close>)
    have "\<forall>e \<in> set (np_links r). drawn_link (set (amap_keys (np_nodes r))) (fst e) (snd e)"
      unfolding r(2)
    proof (rule project_links_drawn)
      show "\<forall>e \<in> set (np_links pr). drawn_link (set (amap_keys (np_nodes r))) (fst e) (snd e)"
        using ok nodes drawn_link_mono unfolding projection_ok_drawn by blast
      show "\<forall>p \<in> set (pairs_of (fst ?p)). fst p \<in> set (amap_keys (np_nodes r)) \<and> snd p \<in> set (amap_keys (np_nodes r))"
        using nodes set_pairs_of by blast
    qed
    with nodes show ?thesis unfolding r_def [symmetric] projection_ok_drawn by blast
  qed
qed

text \<open>The drawn graph shows only nodes of the state that the options let through, always the own node, and
  only links between two different drawn nodes, each seen directly or across hidden hops.\<close>

theorem projection_shows_only_visible:
  assumes "network_ok st"
  shows "projection_ok st vis (projectPacketNetwork st vis) \<and>
    SELF \<in> set (amap_keys (np_nodes (projectPacketNetwork st vis)))"
proof -
  have n: "nodes_ok (ns_nodes st)" using assms by (simp add: network_ok_def)
  let ?al = "buildKnownSiblingRepeaterAliasMap st vis"
  let ?start = "\<lparr>np_links = [], np_nodes = (case map_of (ns_nodes st) SELF of Some n \<Rightarrow> [(SELF, n)] | None \<Rightarrow> [])\<rparr>"
  have "SELF \<in> set (amap_keys (ns_nodes st))" using n by (simp add: nodes_ok_def)
  then obtain self where self: "map_of (ns_nodes st) SELF = Some self"
    by (metis map_of_eq_None_iff not_None_eq set_map)
  have "nn_id self = SELF" by (rule nodes_ok_map_of [OF n self])
  then have start: "projection_ok st vis ?start \<and> SELF \<in> set (amap_keys (np_nodes ?start))"
    by (simp add: projection_ok_def self isPacketNetworkNodeVisible_def)
  have "projection_ok st vis (foldl (project_observation st vis ?al) pr obs) \<and>
      SELF \<in> set (amap_keys (np_nodes (foldl (project_observation st vis ?al) pr obs)))"
    if "projection_ok st vis pr \<and> SELF \<in> set (amap_keys (np_nodes pr))" for pr obs
    using that
  proof (induction obs arbitrary: pr)
    case Nil
    then show ?case by simp
  next
    case (Cons ob obs)
    from project_observation_ok [OF aliases_shown [OF n], of vis pr ob] Cons
    show ?case by (simp del: set_map) blast
  qed
  from this [OF start] show ?thesis by (simp add: projectPacketNetwork_def)
qed

subsection \<open>The context's indexes\<close>

lemma push_entries:
  "entry_or [] p (foldl (\<lambda>m l. push_entry (f l) c m) m ls) = entry_or [] p m @ map (\<lambda>_. c) (filter (\<lambda>l. f l = p) ls)"
  by (induction ls arbitrary: m) (simp_all add: push_entry_def entry_or_set)

lemma filter_eq_upt: "filter (\<lambda>l. l = n) [a..<b] = (if a \<le> n \<and> n < b then [n] else [])"
  by (induction b) (auto simp: less_Suc_eq)

lemma index_prefixes_entry:
  assumes "12 \<le> length (ct_public_key c)" "1 \<le> length p" "length p \<le> 12"
  shows "entry_or [] p (index_prefixes c m) =
    entry_or [] p m @ (if take (length p) (key12 (ct_public_key c)) = p then [c] else [])"
proof -
  let ?k = "key12 (ct_public_key c)"
  have k: "length ?k = 12" using assms(1) by (simp add: key12_def)
  have "filter (\<lambda>l. take l ?k = p) [1..<13] = filter (\<lambda>l. l = length p \<and> take (length p) ?k = p) [1..<13]"
    using k by (intro filter_cong) auto
  also have "\<dots> = (if take (length p) ?k = p then [length p] else [])"
    using assms filter_eq_upt [of "length p" 1 13] by auto
  finally show ?thesis by (simp add: index_prefixes_def push_entries)
qed

text \<open>The indexes answer what a scan of the contact list would: all contacts with the prefix in list order, the last
  contact with the key, the first contact with the name.\<close>

theorem context_indexes_contacts:
  assumes "\<forall>c \<in> set contacts. 12 \<le> length (ct_public_key c)"
  shows "1 \<le> length p \<Longrightarrow> length p \<le> 12 \<Longrightarrow>
      entry_or [] p (ci_byPrefix (index_contacts contacts)) =
        filter (\<lambda>c. take (length p) (key12 (ct_public_key c)) = p) contacts"
    and "map_of (ci_byPrefix12 (index_contacts contacts)) k = find (\<lambda>c. key12 (ct_public_key c) = k) (rev contacts)"
    and "map_of (ci_byName (index_contacts contacts)) n = find (\<lambda>c. nonempty (ct_name c) = Some n) contacts"
proof -
  have s: "index_contacts (cs @ [c]) = index_contact (index_contacts cs) c" for cs c
    by (simp add: index_contacts_def)
  have nil: "index_contacts [] = \<lparr>ci_byPrefix12 = [], ci_byName = [], ci_byPrefix = []\<rparr>"
    by (simp add: index_contacts_def)
  show "entry_or [] p (ci_byPrefix (index_contacts contacts)) =
      filter (\<lambda>c. take (length p) (key12 (ct_public_key c)) = p) contacts"
    if "1 \<le> length p" "length p \<le> 12"
    using assms
  proof (induction contacts rule: rev_induct)
    case (snoc c cs)
    then have "12 \<le> length (ct_public_key c)" by simp
    from index_prefixes_entry [OF this that] snoc show ?case by (simp add: s index_contact_def)
  qed (simp add: nil)
  show "map_of (ci_byPrefix12 (index_contacts contacts)) k = find (\<lambda>c. key12 (ct_public_key c) = k) (rev contacts)"
    by (induction contacts rule: rev_induct) (simp_all add: nil s index_contact_def)
  show "map_of (ci_byName (index_contacts contacts)) n = find (\<lambda>c. nonempty (ct_name c) = Some n) contacts"
  proof (induction contacts rule: rev_induct)
    case (snoc c cs)
    then show ?case
      by (cases "nonempty (ct_name c)") (auto simp: s index_contact_def find_snoc simp del: nonempty_Some split: option.split)
  qed (simp add: nil)
qed

subsection \<open>When a hop is named\<close>

lemma ambiguous_id_marked: "hd (buildAmbiguousRepeaterNodeId h n) = 63 \<and> buildAmbiguousRepeaterNodeId h n \<noteq> []"
  by (auto simp: buildAmbiguousRepeaterNodeId_def split: option.split)

definition with_prefix :: "app_contact list \<Rightarrow> jstr \<Rightarrow> app_contact list" where
  "with_prefix contacts v = filter (\<lambda>c. take (length v) (key12 (ct_public_key c)) = toLowerCase v) contacts"

text \<open>A hop of a path is drawn as a known node only if a single contact carries its prefix, or a single
  one of the kind the hop must be (a repeater on the way, another at the ends); otherwise the
  node it becomes is marked ambiguous.\<close>

theorem hop_named_only_when_unique:
  assumes "\<forall>c \<in> set contacts. 12 \<le> length (ct_public_key c)" "1 \<le> length v" "length v \<le> 12"
    and "nx_contactIndex ctx = index_contacts contacts"
    and "snd (resolveNode collate now ctx ByPrefix v isRepeater showAmbiguous t hx st) = Some n"
  shows "hd n = 63 \<or>
    (\<exists>c \<in> set contacts. (n = key12 (ct_public_key c) \<or> n = SELF \<and> nx_myPrefix ctx = Some (key12 (ct_public_key c))) \<and>
       (with_prefix contacts v = [c] \<or>
        filter (\<lambda>c. (ct_type c = CONTACT_TYPE_REPEATER) = isRepeater) (with_prefix contacts v) = [c]))"
proof -
  let ?m = "with_prefix contacts v"
  let ?f = "filter (\<lambda>c. (ct_type c = CONTACT_TYPE_REPEATER) = isRepeater) ?m"
  have m: "entry_or [] (toLowerCase v) (ci_byPrefix (nx_contactIndex ctx)) = ?m"
    using context_indexes_contacts(1) [OF assms(1), of "toLowerCase v"] assms(2,3,4) by (simp add: with_prefix_def)
  have r: "snd (resolve_prefix collate now ctx v isRepeater showAmbiguous t hx st) = Some n"
    using assms(5) by (simp add: resolveNode_def)
  have sub: "set ?m \<subseteq> set contacts" "set ?f \<subseteq> set contacts" by (auto simp: with_prefix_def)
  consider (one) "length ?m = 1" | (kind) "length ?m \<noteq> 1" "length ?f = 1" | (amb) "length ?m \<noteq> 1" "length ?f \<noteq> 1"
    by blast
  then show ?thesis
  proof cases
    case one
    then obtain c where c: "?m = [c]" by (auto simp: length_Suc_conv)
    with r m have "n = key12 (ct_public_key c) \<or> n = SELF \<and> nx_myPrefix ctx = Some (key12 (ct_public_key c))"
      by (auto simp: resolve_prefix_def Let_def is_me_def split: if_splits)
    moreover have "c \<in> set contacts" using sub(1) unfolding c by simp
    ultimately show ?thesis using c by (intro disjI2 bexI [of _ c]) simp_all
  next
    case kind
    then obtain c where c: "?f = [c]" by (auto simp: length_Suc_conv)
    with r m kind have "n = key12 (ct_public_key c)"
      by (auto simp: resolve_prefix_def Let_def split: if_splits)
    moreover have "c \<in> set contacts" using sub(2) unfolding c by simp
    ultimately show ?thesis using c by (intro disjI2 bexI [of _ c]) simp_all
  next
    case amb
    with r have "\<exists>h s. n = buildAmbiguousRepeaterNodeId h s"
      unfolding resolve_prefix_def Let_def m
      by (auto simp: resolve_ambiguous_def Let_def split: if_splits)
    then show ?thesis using ambiguous_id_marked by blast
  qed
qed

subsection \<open>A clear majority\<close>

lemma match_le_total: "sd_match (score_candidate ctx h c) \<le> sd_total (score_candidate ctx h c)"
proof -
  have "sum_list (map ap_heard_count (filter P ps)) \<le> sum_list (map ap_heard_count ps)" for P ps
    by (induction ps) auto
  then show ?thesis by (simp add: score_candidate_def Let_def)
qed

lemma scored_list_set:
  "set (scored_list collate ctx cands nextPrefix) =
     {e \<in> score_candidate ctx (map_option toLowerCase nextPrefix) ` set cands. sd_total e > 0}"
  by (auto simp: scored_list_def)

lemma scored_list_falls: "sorted (map (\<lambda>e. - int (sd_match e)) (scored_list collate ctx cands nextPrefix))"
  unfolding scored_list_def by (rule sorted_sort_key)

text \<open>The repeater guessed from its advert paths is one of the candidates, was heard going to that next hop at
  least twice, and at least twice as often as any other candidate.\<close>

theorem guessed_repeater_leads:
  fixes ctx nextPrefix
  defines "heard \<equiv> \<lambda>d. sd_match (score_candidate ctx (map_option toLowerCase nextPrefix) d)"
  assumes pick: "pickLikelyRepeaterByAdvertPath collate ctx cands nextPrefix = Some c"
  shows "c \<in> set cands \<and> heard c \<ge> 2 \<and> (\<forall>d \<in> set cands. d \<noteq> c \<longrightarrow> 2 * heard d \<le> heard c)"
proof -
  let ?sc = "score_candidate ctx (map_option toLowerCase nextPrefix)"
  obtain best rest where s: "scored_list collate ctx cands nextPrefix = best # rest"
    using pick by (cases "scored_list collate ctx cands nextPrefix") (auto simp: pickLikelyRepeaterByAdvertPath_def)
  have p: "2 \<le> sd_match best" "rest \<noteq> [] \<Longrightarrow> sd_match (hd rest) * 2 \<le> sd_match best" "sd_candidate best = c"
    using pick by (auto simp: pickLikelyRepeaterByAdvertPath_def s split: if_splits)
  have "best \<in> set (scored_list collate ctx cands nextPrefix)" by (simp add: s)
  then obtain c' where c': "c' \<in> set cands" "best = ?sc c'" unfolding scored_list_set by auto
  have "sd_candidate (?sc c') = c'" by (simp add: score_candidate_def Let_def)
  with c' p(3) have c: "c \<in> set cands" "best = ?sc c" by simp_all
  have h: "heard c = sd_match best" by (simp add: heard_def c(2))
  have "2 * heard d \<le> heard c" if d: "d \<in> set cands" "d \<noteq> c" for d
  proof (cases "sd_total (?sc d) > 0")
    case False
    then show ?thesis using match_le_total [of ctx "map_option toLowerCase nextPrefix" d] by (simp add: heard_def)
  next
    case True
    have "?sc d \<in> set (best # rest)" using d(1) True unfolding s [symmetric] scored_list_set by simp
    moreover have "?sc d \<noteq> best"
    proof
      assume "?sc d = best"
      then have "sd_candidate (?sc d) = c" using p(3) by simp
      with d(2) show False by (simp add: score_candidate_def Let_def)
    qed
    ultimately have r: "?sc d \<in> set rest" by simp
    then obtain r0 rs where rest: "rest = r0 # rs" by (cases rest) auto
    have "sorted (map (\<lambda>e. - int (sd_match e)) (best # rest))"
      using scored_list_falls [of collate ctx cands nextPrefix] by (simp only: s)
    with r have "heard d \<le> sd_match r0" by (auto simp: rest heard_def)
    then show ?thesis using p(2) by (simp add: h rest)
  qed
  with c(1) p(1) show ?thesis by (simp add: h)
qed

subsection \<open>Examples\<close>

definition demo_contact :: "string \<Rightarrow> string \<Rightarrow> nat \<Rightarrow> app_contact" where
  "demo_contact k n t =
     \<lparr>ct_public_key = str k, ct_type = t, ct_direct_path = None, ct_direct_path_len = 0,
      ct_direct_path_hash_mode = None, ct_route_override_path = None, ct_route_override_len = None,
      ct_route_override_hash_mode = None, ct_effective_route = None, ct_effective_route_source = None,
      ct_direct_route = None, ct_route_override = None, ct_lat = None, ct_lon = None,
      ct_manual_lat = None, ct_manual_lon = None, ct_name = Some (str n), ct_last_seen = Some 5\<rparr>"

definition demo_contacts :: "app_contact list" where
  "demo_contacts = [demo_contact ''aa11223344556677'' ''Hill'' 2, demo_contact ''bb11223344556677'' ''Ann'' 1,
     demo_contact ''aa99887766554433'' ''Tower'' 2]"

definition demo_context :: network_context where
  "demo_context = buildPacketNetworkContext (Some (str ''ffeeddccbbaa9988'')) demo_contacts
     [\<lparr>as_public_key = str ''aa11223344556677'', as_paths = [\<lparr>ap_next_hop = Some (str ''BB''), ap_heard_count = 4\<rparr>]\<rparr>,
      \<lparr>as_public_key = str ''aa99887766554433'', as_paths = [\<lparr>ap_next_hop = Some (str ''bb''), ap_heard_count = 1\<rparr>]\<rparr>]
     [] False True"

definition demo_decoder :: graph_decoder where
  "demo_decoder =
     \<lparr>gd_decode = \<lambda>hex. Some
        \<lparr>dp_isValid = True, dp_payloadVersion = 0, dp_payloadType = 4, dp_routeType = 1, dp_pathLength = 2,
         dp_totalBytes = None, dp_path = Some [str ''aa'', str ''bb''], dp_pathHashSize = Some 1, dp_raw = hex,
         dp_decoded = Some (JObj [(str ''publicKey'', JStr (str ''cc11223344556677''))])\<rparr>,
      gd_messageHash = \<lambda>_. None\<rparr>"

definition demo_packet :: raw_packet where
  "demo_packet = \<lparr>rk_id = 1, rk_observation_id = None, rk_timestamp = 100, rk_data = str ''00'', rk_payload_type = [],
     rk_snr = None, rk_rssi = None, rk_decrypted = False, rk_decrypted_info = None\<rparr>"

definition demo_state :: network_state where
  "demo_state = fst (ingestPacketIntoPacketNetwork demo_decoder id 7 demo_context demo_packet
     (createPacketNetworkState 0 (str ''Me'')))"

lemma demo_state_ok: "network_ok demo_state"
  unfolding demo_state_def by (rule ingest_ok [OF create_ok])

definition demo_stale :: network_state where
  "demo_stale = addOrUpdateNode 1 (known_update (demo_contact ''aa11223344556677'' ''Hill'' 2))
     (createPacketNetworkState 0 (str ''Me''))"

theorem prune_keeps_the_active_witness:
  "fst (prunePacketNetworkState 0 demo_stale) = demo_stale \<and>
   ns_nodes (fst (prunePacketNetworkState 2 demo_stale)) =
     filter (\<lambda>e. fst e = SELF \<or> nn_lastActivity (snd e) \<ge> 2) (ns_nodes demo_stale)"
proof
  have "\<not> snd (prunePacketNetworkState 0 demo_stale)" by code_simp
  from prune_keeps_the_active(2) [OF this] show "fst (prunePacketNetworkState 0 demo_stale) = demo_stale" .
  have "snd (prunePacketNetworkState 2 demo_stale)" by code_simp
  from prune_keeps_the_active(3) [OF this] show "ns_nodes (fst (prunePacketNetworkState 2 demo_stale)) =
     filter (\<lambda>e. fst e = SELF \<or> nn_lastActivity (snd e) \<ge> 2) (ns_nodes demo_stale)" by (elim conjE)
qed

theorem projection_shows_only_visible_witness:
  "projection_ok demo_state \<lparr>vo_showAmbiguousNodes = True, vo_showAmbiguousPaths = False, vo_collapseSiblings = False\<rparr>
     (projectPacketNetwork demo_state \<lparr>vo_showAmbiguousNodes = True, vo_showAmbiguousPaths = False, vo_collapseSiblings = False\<rparr>)"
  using projection_shows_only_visible [OF demo_state_ok] by blast

theorem hop_named_only_when_unique_witness:
  "snd (resolveNode id 0 demo_context ByPrefix (str ''bb'') True True 5 None (createPacketNetworkState 0 []))
     = Some (str ''bb1122334455'') \<and>
   (\<exists>c \<in> set demo_contacts. with_prefix demo_contacts (str ''bb'') = [c] \<or>
      filter (\<lambda>c. (ct_type c = CONTACT_TYPE_REPEATER) = True) (with_prefix demo_contacts (str ''bb'')) = [c])"
proof
  show r: "snd (resolveNode id 0 demo_context ByPrefix (str ''bb'') True True 5 None (createPacketNetworkState 0 []))
     = Some (str ''bb1122334455'')" by code_simp
  have "\<forall>c \<in> set demo_contacts. 12 \<le> length (ct_public_key c)" by (simp add: demo_contacts_def demo_contact_def)
  moreover have "nx_contactIndex demo_context = index_contacts demo_contacts"
    by (simp add: demo_context_def buildPacketNetworkContext_def)
  moreover have "hd (str ''bb1122334455'') \<noteq> 63" by simp
  ultimately show "\<exists>c \<in> set demo_contacts. with_prefix demo_contacts (str ''bb'') = [c] \<or>
      filter (\<lambda>c. (ct_type c = CONTACT_TYPE_REPEATER) = True) (with_prefix demo_contacts (str ''bb'')) = [c]"
    using hop_named_only_when_unique [OF _ _ _ _ r] by auto
qed

theorem guessed_repeater_leads_witness:
  "\<exists>c. pickLikelyRepeaterByAdvertPath id demo_context [hd demo_contacts, demo_contacts ! 2] (Some (str ''bb'')) = Some c \<and>
     sd_match (score_candidate demo_context (map_option toLowerCase (Some (str ''bb''))) c) \<ge> 2"
proof -
  have "map_option ct_type (pickLikelyRepeaterByAdvertPath id demo_context [hd demo_contacts, demo_contacts ! 2]
      (Some (str ''bb''))) = Some 2" by code_simp
  then obtain c where c: "pickLikelyRepeaterByAdvertPath id demo_context [hd demo_contacts, demo_contacts ! 2]
      (Some (str ''bb'')) = Some c" by blast
  from guessed_repeater_leads [OF c] c show ?thesis by blast
qed

end
