(* ===== verification/Unread.thy ===== *)
theory Unread
imports Conversations
begin

text \<open>Unread counts (\<^verbatim>\<open>frontend/src/hooks/useUnreadCounts.ts\<close>, with the times of
  \<^verbatim>\<open>frontend/src/utils/conversationState.ts\<close>): the hook as a state machine over what happens to it, which
  are its callbacks, the renders that show a conversation, the answers of the server and its debounce timer. A
  step yields the next state and the calls made to the server. The refs and the React states are fields of one
  state; a state setter takes effect at once. A request in flight is an entry of \<open>ur_loads\<close>.
  The delays of the timer and the logging of failed calls are left out.\<close>

subsection \<open>Times and keys\<close>

datatype conversation_type = ContactConv | ChannelConv | OtherView

record conversation =
  cv_type :: conversation_type
  cv_id :: jstr

datatype tracked_type = TContact | TChannel

definition getStateKey :: "tracked_type \<Rightarrow> jstr \<Rightarrow> jstr" where
  "getStateKey t ident = (case t of TContact \<Rightarrow> (str ''contact-'') | TChannel \<Rightarrow> (str ''channel-'')) @ ident"

type_synonym conversation_times = "jstr \<Rightarrow> int option"

definition setLastMessageTime :: "jstr \<Rightarrow> int \<Rightarrow> conversation_times \<Rightarrow> conversation_times" where
  "setLastMessageTime k t m = m(k \<mapsto> t)"

definition renameConversationTimeKey :: "jstr \<Rightarrow> jstr \<Rightarrow> conversation_times \<Rightarrow> conversation_times" where
  "renameConversationTimeKey oldKey newKey m =
     (if oldKey = newKey then m
      else
        (case m oldKey of
           Some oldTimestamp \<Rightarrow>
             (m(newKey \<mapsto> (case m newKey of None \<Rightarrow> oldTimestamp | Some n \<Rightarrow> max n oldTimestamp)))(oldKey := None)
         | None \<Rightarrow> m))"

definition tracked :: "conversation option \<Rightarrow> (tracked_type \<times> jstr) option" where
  "tracked c =
     (case c of
        None \<Rightarrow> None
      | Some cv \<Rightarrow>
          (case cv_type cv of
             ContactConv \<Rightarrow> Some (TContact, cv_id cv)
           | ChannelConv \<Rightarrow> Some (TChannel, cv_id cv)
           | OtherView \<Rightarrow> None))"

definition key_of :: "(tracked_type \<times> jstr) option \<Rightarrow> jstr option" where
  "key_of t = map_option (\<lambda>(ty, ident). getStateKey ty ident) t"

lemma getStateKey_inject [simp]: "getStateKey t a = getStateKey u b \<longleftrightarrow> t = u \<and> a = b"
  by (cases t; cases u) (simp_all add: getStateKey_def)

subsection \<open>The state\<close>

record unread_data =
  ud_counts :: "jstr \<Rightarrow> int option"
  ud_mentions :: "jstr \<Rightarrow> bool option"
  ud_times :: "(jstr \<times> int) list"
  ud_lastReadAts :: "jstr \<Rightarrow> int option option"
  ud_firstUnreadIds :: "jstr \<Rightarrow> nat option option"

record read_boundary =
  rb_type :: tracked_type
  rb_id :: jstr
  rb_messageId :: nat
  rb_receivedAt :: int

record load =
  ld_request :: nat
  ld_attempt :: nat
  ld_mutation :: nat
  ld_remark :: bool

datatype server_call =
  MarkRead tracked_type jstr "nat option" | MarkUnread tracked_type jstr nat | MarkAllRead | GetUnreads

record unreads =
  ur_counts :: "jstr \<Rightarrow> int option"
  ur_mentions :: "jstr \<Rightarrow> bool option"
  ur_timesCache :: conversation_times
  ur_times :: conversation_times
  ur_lastReadAts :: "jstr \<Rightarrow> int option option"
  ur_firstUnreadIds :: "jstr \<Rightarrow> nat option option"
  ur_active :: "conversation option"
  ur_pending :: "read_boundary option"
  ur_timer :: bool
  ur_suppress :: "jstr option"
  ur_prevActive :: "jstr option"
  ur_cleanup :: bool
  ur_mutation :: nat
  ur_request :: nat
  ur_loads :: "load list"

definition UNREAD_FETCH_MAX_ATTEMPTS :: nat where "UNREAD_FETCH_MAX_ATTEMPTS = 3"

definition fresh_unreads :: "conversation_times \<Rightarrow> unreads" where
  "fresh_unreads ts =
     \<lparr>ur_counts = Map.empty, ur_mentions = Map.empty, ur_timesCache = ts, ur_times = ts,
      ur_lastReadAts = Map.empty, ur_firstUnreadIds = Map.empty, ur_active = None, ur_pending = None,
      ur_timer = False, ur_suppress = None, ur_prevActive = None, ur_cleanup = False, ur_mutation = 0,
      ur_request = 0, ur_loads = []\<rparr>"

definition bump_mutation :: "unreads \<Rightarrow> unreads" where
  "bump_mutation u = u\<lparr>ur_mutation := ur_mutation u + 1\<rparr>"

subsection \<open>The read boundary of the open conversation\<close>

definition flushPendingRead :: "unreads \<Rightarrow> unreads \<times> server_call list" where
  "flushPendingRead u =
     (u\<lparr>ur_timer := False, ur_pending := None\<rparr>,
      case ur_pending u of
        Some b \<Rightarrow> [MarkRead (rb_type b) (rb_id b) (Some (rb_messageId b))]
      | None \<Rightarrow> [])"

definition newer_boundary :: "read_boundary \<Rightarrow> read_boundary \<Rightarrow> bool" where
  "newer_boundary b current \<longleftrightarrow> rb_receivedAt b > rb_receivedAt current \<or>
     (rb_receivedAt b = rb_receivedAt current \<and> rb_messageId b > rb_messageId current)"

definition scheduleReadBoundary :: "read_boundary \<Rightarrow> unreads \<Rightarrow> unreads \<times> server_call list" where
  "scheduleReadBoundary b u =
     (let (u1, calls) =
            (case ur_pending u of
               Some p \<Rightarrow>
                 if rb_type p \<noteq> rb_type b \<or> rb_id p \<noteq> rb_id b then flushPendingRead u else (u, [])
             | None \<Rightarrow> (u, []));
          u2 = (case ur_pending u1 of
                  None \<Rightarrow> u1\<lparr>ur_pending := Some b\<rparr>
                | Some current \<Rightarrow> if newer_boundary b current then u1\<lparr>ur_pending := Some b\<rparr> else u1)
      in (u2\<lparr>ur_timer := True\<rparr>, calls))"

subsection \<open>Loading the counts\<close>

definition applyUnreads :: "unread_data \<Rightarrow> unreads \<Rightarrow> unreads" where
  "applyUnreads d u =
     (let activeKey = key_of (tracked (ur_active u));
          u1 = (case activeKey of
                  Some k \<Rightarrow> u\<lparr>ur_counts := (ud_counts d)(k := None), ur_mentions := (ud_mentions d)(k := None)\<rparr>
                | None \<Rightarrow> u\<lparr>ur_counts := ud_counts d, ur_mentions := ud_mentions d\<rparr>);
          u2 = u1\<lparr>ur_lastReadAts := ud_lastReadAts d, ur_firstUnreadIds := ud_firstUnreadIds d\<rparr>
      in if length (ud_times d) > 0
         then (let cache = foldl (\<lambda>m (k, t). setLastMessageTime k t m) (ur_timesCache u2) (ud_times d)
               in u2\<lparr>ur_timesCache := cache, ur_times := cache\<rparr>)
         else u2)"

text \<open>A call of \<^verbatim>\<open>loadUnreads\<close>: the request is counted, and asked for unless the prefetched one is used.\<close>

definition start_load :: "bool \<Rightarrow> bool \<Rightarrow> unreads \<Rightarrow> unreads \<times> server_call list" where
  "start_load prefetched remark u =
     (let request = ur_request u + 1 in
      (u\<lparr>ur_request := request,
         ur_loads := ur_loads u @
           [\<lparr>ld_request = request, ld_attempt = 1, ld_mutation = ur_mutation u, ld_remark = remark\<rparr>]\<rparr>,
       if prefetched then [] else [GetUnreads]))"

definition drop_load :: "nat \<Rightarrow> unreads \<Rightarrow> unreads" where
  "drop_load i u = u\<lparr>ur_loads := take i (ur_loads u) @ drop (Suc i) (ur_loads u)\<rparr>"

text \<open>The rest of \<^verbatim>\<open>fetchUnreads\<close>, after its load is done.\<close>

definition remark_active :: "unreads \<Rightarrow> server_call list" where
  "remark_active u =
     (case tracked (ur_active u) of
        None \<Rightarrow> []
      | Some (t, ident) \<Rightarrow>
          if ur_suppress u = Some (getStateKey t ident) then [] else [MarkRead t ident None])"

definition end_load :: "load \<Rightarrow> unreads \<Rightarrow> unreads \<times> server_call list" where
  "end_load l u = (u, if ld_remark l then remark_active u else [])"

definition load_answered :: "nat \<Rightarrow> unread_data \<Rightarrow> unreads \<Rightarrow> unreads \<times> server_call list" where
  "load_answered i d u =
     (if i < length (ur_loads u) then
        (let l = ur_loads u ! i in
         if ld_request l \<noteq> ur_request u then end_load l (drop_load i u)
         else if ld_mutation l = ur_mutation u \<or> ld_attempt l \<ge> UNREAD_FETCH_MAX_ATTEMPTS
         then end_load l (applyUnreads d (drop_load i u))
         else
           (u\<lparr>ur_loads := (ur_loads u)[i := l\<lparr>ld_attempt := ld_attempt l + 1, ld_mutation := ur_mutation u\<rparr>]\<rparr>,
            [GetUnreads]))
      else (u, []))"

definition load_failed :: "nat \<Rightarrow> unreads \<Rightarrow> unreads \<times> server_call list" where
  "load_failed i u =
     (if i < length (ur_loads u) then end_load (ur_loads u ! i) (drop_load i u) else (u, []))"

subsection \<open>Showing a conversation\<close>

definition truthy_count :: "int option \<Rightarrow> bool" where
  "truthy_count v \<longleftrightarrow> (case v of Some n \<Rightarrow> n \<noteq> 0 | None \<Rightarrow> False)"

text \<open>A render with a new conversation object: the clean-up of the previous effect, then the
  effect. The early return of the effect leaves no clean-up behind.\<close>

definition show_effect :: "unreads \<Rightarrow> unreads \<times> server_call list" where
  "show_effect u =
     (let tr = tracked (ur_active u);
          key = key_of tr;
          isNavigation = (ur_prevActive u \<noteq> key);
          u1 = u\<lparr>ur_prevActive := key\<rparr>;
          u2 = (if isNavigation then bump_mutation u1 else u1)
      in case tr of
           None \<Rightarrow> (u2\<lparr>ur_cleanup := True\<rparr>, [])
         | Some (t, ident) \<Rightarrow>
             if \<not> isNavigation \<and> ur_suppress u2 = key then (u2\<lparr>ur_cleanup := False\<rparr>, [])
             else
               let k = getStateKey t ident;
                   u3 = (if isNavigation \<and> ur_suppress u2 = key then u2\<lparr>ur_suppress := None\<rparr> else u2);
                   u4 = (if truthy_count (ur_counts u3 k) then u3\<lparr>ur_counts := (ur_counts u3)(k := None)\<rparr> else u3);
                   u5 = (if ur_mentions u4 k = Some True then u4\<lparr>ur_mentions := (ur_mentions u4)(k := None)\<rparr> else u4)
               in (u5\<lparr>ur_cleanup := True\<rparr>, [MarkRead t ident None]))"

definition show_conversation :: "conversation option \<Rightarrow> unreads \<Rightarrow> unreads \<times> server_call list" where
  "show_conversation c u =
     (let u1 = u\<lparr>ur_active := c\<rparr>;
          (u2, calls) = (if ur_cleanup u1 then flushPendingRead u1 else (u1, []));
          (u3, calls') = show_effect u2
      in (u3, calls @ calls'))"

subsection \<open>Messages and user actions\<close>

definition incrementUnread :: "jstr \<Rightarrow> nat \<Rightarrow> bool \<Rightarrow> unreads \<Rightarrow> unreads" where
  "incrementUnread k messageId hasMention u =
     (let u1 = bump_mutation u;
          u2 = u1\<lparr>ur_counts := (ur_counts u1)(k \<mapsto> (case ur_counts u1 k of Some n \<Rightarrow> n | None \<Rightarrow> 0) + 1)\<rparr>;
          u3 = (case ur_firstUnreadIds u2 k of
                  Some (Some _) \<Rightarrow> u2
                | _ \<Rightarrow> u2\<lparr>ur_firstUnreadIds := (ur_firstUnreadIds u2)(k \<mapsto> Some messageId)\<rparr>)
      in if hasMention then u3\<lparr>ur_mentions := (ur_mentions u3)(k \<mapsto> True)\<rparr> else u3)"

definition message_target :: "message \<Rightarrow> tracked_type" where
  "message_target m = (if ms_type m = Chan then TChannel else TContact)"

definition recordMessageEvent :: "int \<Rightarrow> message \<Rightarrow> bool \<Rightarrow> bool \<Rightarrow> bool \<Rightarrow> unreads \<Rightarrow> unreads \<times> server_call list" where
  "recordMessageEvent now m isActive isNew hasMention u =
     (if ms_conversation_key m = [] then (u, [])
      else
        let k = getStateKey (message_target m) (ms_conversation_key m);
            timestamp = (if ms_received_at m \<noteq> 0 then ms_received_at m else now);
            cache = setLastMessageTime k timestamp (ur_timesCache u);
            u1 = u\<lparr>ur_timesCache := cache, ur_times := cache\<rparr>
        in if isActive \<and> \<not> ms_outgoing m \<and> isNew then
             (if ur_suppress u1 \<noteq> Some k
              then scheduleReadBoundary
                \<lparr>rb_type = message_target m, rb_id = ms_conversation_key m, rb_messageId = ms_id m,
                 rb_receivedAt = timestamp\<rparr> u1
              else (u1, []))
           else if \<not> isActive \<and> \<not> ms_outgoing m \<and> isNew then (incrementUnread k (ms_id m) hasMention u1, [])
           else (u1, []))"

definition renameConversationState :: "jstr \<Rightarrow> jstr \<Rightarrow> unreads \<Rightarrow> unreads" where
  "renameConversationState oldKey newKey u =
     (if oldKey = newKey then u
      else
        let u1 = bump_mutation u;
            counts = (case ur_counts u1 oldKey of
                None \<Rightarrow> ur_counts u1
              | Some n \<Rightarrow>
                  ((ur_counts u1)(newKey \<mapsto> (case ur_counts u1 newKey of Some c \<Rightarrow> c | None \<Rightarrow> 0) + n))(oldKey := None));
            mentions = (case ur_mentions u1 oldKey of
                None \<Rightarrow> ur_mentions u1
              | Some b \<Rightarrow>
                  ((ur_mentions u1)(newKey \<mapsto> (if ur_mentions u1 newKey = Some True then True else b)))(oldKey := None));
            firsts = (case ur_firstUnreadIds u1 oldKey of
                None \<Rightarrow> ur_firstUnreadIds u1
              | Some f \<Rightarrow>
                  ((ur_firstUnreadIds u1)(newKey \<mapsto>
                     (case ur_firstUnreadIds u1 newKey of Some (Some g) \<Rightarrow> Some g | _ \<Rightarrow> f)))(oldKey := None));
            cache = renameConversationTimeKey oldKey newKey (ur_timesCache u1)
        in u1\<lparr>ur_counts := counts, ur_mentions := mentions, ur_firstUnreadIds := firsts,
              ur_timesCache := cache, ur_times := cache\<rparr>)"

definition removeConversationState :: "jstr \<Rightarrow> unreads \<Rightarrow> unreads" where
  "removeConversationState k u =
     (bump_mutation u)
       \<lparr>ur_counts := (ur_counts u)(k := None), ur_mentions := (ur_mentions u)(k := None),
        ur_firstUnreadIds := (ur_firstUnreadIds u)(k := None), ur_lastReadAts := (ur_lastReadAts u)(k := None)\<rparr>"

definition markAllRead :: "unreads \<Rightarrow> unreads \<times> server_call list" where
  "markAllRead u =
     ((bump_mutation u)\<lparr>ur_counts := Map.empty, ur_mentions := Map.empty, ur_lastReadAts := Map.empty,
        ur_firstUnreadIds := Map.empty\<rparr>, [MarkAllRead])"

definition clear_keys :: "jstr list \<Rightarrow> (jstr \<Rightarrow> 'a option) \<Rightarrow> jstr \<Rightarrow> 'a option" where
  "clear_keys keys prev = foldl (\<lambda>m k. m(k := None)) prev keys"

definition markConversationsRead :: "(tracked_type \<times> jstr) list \<Rightarrow> unreads \<Rightarrow> unreads \<times> server_call list" where
  "markConversationsRead items u =
     (if length items = 0 then (u, [])
      else
        let keys = map (\<lambda>(t, ident). getStateKey t ident) items in
        ((bump_mutation u)
           \<lparr>ur_counts := clear_keys keys (ur_counts u), ur_mentions := clear_keys keys (ur_mentions u),
            ur_firstUnreadIds := clear_keys keys (ur_firstUnreadIds u)\<rparr>,
         map (\<lambda>(t, ident). MarkRead t ident None) items))"

text \<open>\<^verbatim>\<open>markConversationUnreadFromMessage\<close> up to its call, and from the server's answer on.\<close>

definition mark_unread_done :: "tracked_type \<Rightarrow> jstr \<Rightarrow> unreads \<Rightarrow> unreads \<times> server_call list" where
  "mark_unread_done t ident u =
     (let key = getStateKey t ident;
          u1 = (if key_of (tracked (ur_active u)) = Some key then u\<lparr>ur_suppress := Some key\<rparr> else u)
      in start_load False True u1)"

datatype unread_event =
  Mounted | CountsChanged | Answered nat unread_data | Failed_load nat
  | Show "conversation option" | TimerFires
  | MessageEvent int message bool bool bool
  | RenameState jstr jstr | RemoveState jstr | AllRead | TheseRead "(tracked_type \<times> jstr) list"
  | UnreadFrom tracked_type jstr nat | UnreadFromDone tracked_type jstr

definition unread_step :: "unread_event \<Rightarrow> unreads \<Rightarrow> unreads \<times> server_call list" where
  "unread_step e u =
     (case e of
        Mounted \<Rightarrow> start_load True False u
      | CountsChanged \<Rightarrow> start_load False True u
      | Answered i d \<Rightarrow> load_answered i d u
      | Failed_load i \<Rightarrow> load_failed i u
      | Show c \<Rightarrow> show_conversation c u
      | TimerFires \<Rightarrow> if ur_timer u then flushPendingRead u else (u, [])
      | MessageEvent now m isActive isNew hasMention \<Rightarrow> recordMessageEvent now m isActive isNew hasMention u
      | RenameState oldKey newKey \<Rightarrow> (renameConversationState oldKey newKey u, [])
      | RemoveState k \<Rightarrow> (removeConversationState k u, [])
      | AllRead \<Rightarrow> markAllRead u
      | TheseRead items \<Rightarrow> markConversationsRead items u
      | UnreadFrom t ident messageId \<Rightarrow> (u, [MarkUnread t ident messageId])
      | UnreadFromDone t ident \<Rightarrow> mark_unread_done t ident u)"

fun unread_run :: "unread_event list \<Rightarrow> unreads \<Rightarrow> unreads \<times> server_call list" where
  "unread_run [] u = (u, [])"
| "unread_run (e # es) u =
     (let (u1, calls) = unread_step e u; (u2, calls') = unread_run es u1 in (u2, calls @ calls'))"

subsection \<open>A conversation marked unread stays so\<close>

definition reads :: "tracked_type \<Rightarrow> jstr \<Rightarrow> server_call \<Rightarrow> bool" where
  "reads t ident c \<longleftrightarrow> (case c of MarkRead t' i _ \<Rightarrow> t' = t \<and> i = ident | MarkAllRead \<Rightarrow> True | _ \<Rightarrow> False)"

lemma reads_simps [simp]:
  "reads t ident (MarkRead t' i m) \<longleftrightarrow> t' = t \<and> i = ident" "reads t ident MarkAllRead"
  "\<not> reads t ident (MarkUnread t' i n)" "\<not> reads t ident GetUnreads"
  by (simp_all add: reads_def)

definition boundary_for :: "tracked_type \<Rightarrow> jstr \<Rightarrow> read_boundary option \<Rightarrow> bool" where
  "boundary_for t ident b \<longleftrightarrow> (case b of Some x \<Rightarrow> rb_type x = t \<and> rb_id x = ident | None \<Rightarrow> False)"

lemma boundary_for_None [simp]: "\<not> boundary_for t ident None"
  by (simp add: boundary_for_def)

definition held_unread :: "tracked_type \<Rightarrow> jstr \<Rightarrow> unreads \<Rightarrow> bool" where
  "held_unread t ident u \<longleftrightarrow>
     tracked (ur_active u) = Some (t, ident) \<and> ur_suppress u = Some (getStateKey t ident) \<and>
     ur_prevActive u = Some (getStateKey t ident) \<and> \<not> boundary_for t ident (ur_pending u)"

text \<open>What may happen while the conversation stays open: not going elsewhere, and no explicit mark as read.\<close>

definition stays_open :: "tracked_type \<Rightarrow> jstr \<Rightarrow> unread_event \<Rightarrow> bool" where
  "stays_open t ident e \<longleftrightarrow>
     (case e of Show c \<Rightarrow> tracked c = Some (t, ident) | AllRead \<Rightarrow> False
      | TheseRead items \<Rightarrow> (t, ident) \<notin> set items | _ \<Rightarrow> True)"

abbreviation quiet :: "tracked_type \<Rightarrow> jstr \<Rightarrow> unreads \<times> server_call list \<Rightarrow> bool" where
  "quiet t ident r \<equiv> held_unread t ident (fst r) \<and> (\<forall>c \<in> set (snd r). \<not> reads t ident c)"

lemma held_cong:
  assumes "held_unread t ident u" "ur_active u' = ur_active u" "ur_suppress u' = ur_suppress u"
    "ur_prevActive u' = ur_prevActive u" "ur_pending u' = ur_pending u"
  shows "held_unread t ident u'"
  using assms by (simp add: held_unread_def)

lemma flush_quiet: "held_unread t ident u \<Longrightarrow> quiet t ident (flushPendingRead u)"
  by (auto simp: held_unread_def flushPendingRead_def boundary_for_def split: option.splits)

lemma drop_load_fields [simp]:
  "ur_active (drop_load i u) = ur_active u" "ur_suppress (drop_load i u) = ur_suppress u"
  "ur_prevActive (drop_load i u) = ur_prevActive u" "ur_pending (drop_load i u) = ur_pending u"
  by (simp_all add: drop_load_def)

lemma applyUnreads_fields [simp]:
  "ur_active (applyUnreads d u) = ur_active u" "ur_suppress (applyUnreads d u) = ur_suppress u"
  "ur_prevActive (applyUnreads d u) = ur_prevActive u" "ur_pending (applyUnreads d u) = ur_pending u"
  "ur_loads (applyUnreads d u) = ur_loads u" "ur_request (applyUnreads d u) = ur_request u"
  "ur_mutation (applyUnreads d u) = ur_mutation u"
  by (simp_all add: applyUnreads_def Let_def split: option.split)

lemma end_load_quiet: "held_unread t ident u \<Longrightarrow> quiet t ident (end_load l u)"
  by (simp add: end_load_def remark_active_def held_unread_def)

lemma answered_quiet:
  assumes "held_unread t ident u"
  shows "quiet t ident (load_answered i d u)"
proof -
  have d: "held_unread t ident (drop_load i u)" by (rule held_cong [OF assms]) simp_all
  have a: "held_unread t ident (applyUnreads d (drop_load i u))" by (rule held_cong [OF assms]) simp_all
  show ?thesis
    using assms end_load_quiet [OF d] end_load_quiet [OF a]
    by (auto simp: load_answered_def Let_def elim!: held_cong)
qed

lemma failed_quiet:
  assumes "held_unread t ident u"
  shows "quiet t ident (load_failed i u)"
proof -
  have d: "held_unread t ident (drop_load i u)" by (rule held_cong [OF assms]) simp_all
  show ?thesis using assms end_load_quiet [OF d] by (auto simp: load_failed_def)
qed

lemma start_load_quiet: "held_unread t ident u \<Longrightarrow> quiet t ident (start_load p r u)"
  by (auto simp: start_load_def Let_def elim: held_cong)

lemma show_effect_quiet:
  assumes "held_unread t ident u"
  shows "quiet t ident (show_effect u)"
  using assms by (simp add: show_effect_def Let_def held_unread_def key_of_def)

lemma show_quiet:
  assumes "held_unread t ident u" "tracked c = Some (t, ident)"
  shows "quiet t ident (show_conversation c u)"
proof -
  let ?u = "u\<lparr>ur_active := c\<rparr>"
  have u: "held_unread t ident ?u" using assms by (simp add: held_unread_def)
  let ?r = "if ur_cleanup ?u then flushPendingRead ?u else (?u, [])"
  have r: "quiet t ident ?r" using u flush_quiet [OF u] by simp
  have "quiet t ident (show_effect (fst ?r))" using r by (intro show_effect_quiet) blast
  with r show ?thesis by (auto simp: show_conversation_def Let_def split_beta)
qed

lemma message_quiet:
  assumes "held_unread t ident u"
  shows "quiet t ident (recordMessageEvent now m isActive isNew hasMention u)"
proof -
  let ?k = "getStateKey (message_target m) (ms_conversation_key m)"
  let ?ts = "if ms_received_at m \<noteq> 0 then ms_received_at m else now"
  let ?c = "setLastMessageTime ?k ?ts (ur_timesCache u)"
  let ?u = "u\<lparr>ur_timesCache := ?c, ur_times := ?c\<rparr>"
  let ?b = "\<lparr>rb_type = message_target m, rb_id = ms_conversation_key m, rb_messageId = ms_id m, rb_receivedAt = ?ts\<rparr>"
  have u: "held_unread t ident ?u" by (rule held_cong [OF assms]) simp_all
  have inc: "held_unread t ident (incrementUnread k n h ?u)" for k n h
    by (rule held_cong [OF u]) (simp_all add: incrementUnread_def bump_mutation_def Let_def split: option.split)
  have s: "quiet t ident (scheduleReadBoundary ?b ?u)" if "ur_suppress ?u \<noteq> Some ?k"
  proof -
    have other: "\<not> (message_target m = t \<and> ms_conversation_key m = ident)"
      using that u by (auto simp: held_unread_def)
    show ?thesis using u other
      by (auto simp: scheduleReadBoundary_def Let_def split_beta flushPendingRead_def held_unread_def
          boundary_for_def split: option.split)
  qed
  show ?thesis using assms u inc s by (simp add: recordMessageEvent_def Let_def)
qed

lemma step_quiet:
  assumes h: "held_unread t ident u" and s: "stays_open t ident e"
  shows "quiet t ident (unread_step e u)"
proof (cases e)
  case (Show c)
  with assms show ?thesis by (simp add: unread_step_def stays_open_def show_quiet)
next
  case (TheseRead items)
  have "held_unread t ident (fst (markConversationsRead items u))"
    by (rule held_cong [OF h]) (simp_all add: markConversationsRead_def bump_mutation_def Let_def)
  with TheseRead s show ?thesis
    by (auto simp: unread_step_def stays_open_def markConversationsRead_def Let_def)
next
  case (RenameState a b)
  have "held_unread t ident (renameConversationState a b u)"
    by (rule held_cong [OF h]) (simp_all add: renameConversationState_def bump_mutation_def Let_def)
  with RenameState show ?thesis by (simp add: unread_step_def)
next
  case (RemoveState k)
  have "held_unread t ident (removeConversationState k u)"
    by (rule held_cong [OF h]) (simp_all add: removeConversationState_def bump_mutation_def)
  with RemoveState show ?thesis by (simp add: unread_step_def)
next
  case (UnreadFromDone ty i)
  let ?u = "if key_of (tracked (ur_active u)) = Some (getStateKey ty i) then u\<lparr>ur_suppress := Some (getStateKey ty i)\<rparr> else u"
  have "held_unread t ident ?u" using h by (auto simp: held_unread_def key_of_def)
  from start_load_quiet [OF this] UnreadFromDone show ?thesis
    by (simp add: unread_step_def mark_unread_done_def Let_def)
qed (use assms in \<open>simp_all add: unread_step_def stays_open_def start_load_quiet answered_quiet failed_quiet
      flush_quiet message_quiet\<close>)

text \<open>C22: Once the open conversation is marked unread and no read of it is pending, nothing that happens while it
  stays open marks it read: no refresh, answer, timer, message, re-render or action on other conversations.\<close>

theorem marked_unread_stays:
  assumes "held_unread t ident u" "\<forall>e \<in> set es. stays_open t ident e"
  shows "filter (reads t ident) (snd (unread_run es u)) = [] \<and>
    ur_suppress (fst (unread_run es u)) = Some (getStateKey t ident)"
proof -
  have "quiet t ident (unread_run es u)"
    using assms
  proof (induction es arbitrary: u)
    case Nil
    then show ?case by simp
  next
    case (Cons e es)
    have q: "quiet t ident (unread_step e u)" by (rule step_quiet) (use Cons.prems in simp_all)
    from Cons.IH [OF conjunct1 [OF q]] Cons.prems(2) q show ?case by (auto simp: split_beta)
  qed
  then show ?thesis by (simp add: held_unread_def filter_empty_conv)
qed

text \<open>A read boundary still waiting for its timer is not dropped when the user marks the conversation
  unread: the timer then marks it read again, up to the newest message.\<close>

theorem pending_read_undoes_mark:
  assumes "ur_pending u = Some b" "ur_timer u" "rb_type b = t" "rb_id b = ident"
    and "tracked (ur_active u) = Some (t, ident)"
  shows "snd (unread_run [UnreadFrom t ident m, UnreadFromDone t ident, TimerFires] u) =
    [MarkUnread t ident m, GetUnreads, MarkRead t ident (Some (rb_messageId b))]"
  using assms
  by (simp add: unread_step_def mark_unread_done_def start_load_def flushPendingRead_def Let_def key_of_def)

subsection \<open>Requests for the counts\<close>

definition load_ok :: "unreads \<Rightarrow> bool" where
  "load_ok u \<longleftrightarrow> (\<forall>l \<in> set (ur_loads u). 1 \<le> ld_attempt l \<and> ld_attempt l \<le> UNREAD_FETCH_MAX_ATTEMPTS)"

definition asks :: "server_call list \<Rightarrow> nat" where
  "asks cs = length (filter (\<lambda>c. c = GetUnreads) cs)"

definition starts_load :: "unread_event \<Rightarrow> bool" where
  "starts_load e \<longleftrightarrow> (case e of Mounted \<Rightarrow> True | CountsChanged \<Rightarrow> True | UnreadFromDone _ _ \<Rightarrow> True | _ \<Rightarrow> False)"

definition left :: "load list \<Rightarrow> nat" where
  "left ls = sum_list (map (\<lambda>l. UNREAD_FETCH_MAX_ATTEMPTS - ld_attempt l) ls)"

lemma left_append [simp]: "left (a @ b) = left a + left b"
  by (simp add: left_def)

lemma asks_append [simp]: "asks (a @ b) = asks a + asks b"
  by (simp add: asks_def)

lemma asks_Nil [simp]: "asks [] = 0"
  by (simp add: asks_def)

lemma asks_remark: "asks (if b then remark_active u else []) = 0"
  by (simp add: asks_def remark_active_def split: option.split prod.split)

lemma split_nth: "i < length xs \<Longrightarrow> xs = take i xs @ xs ! i # drop (Suc i) xs"
  by (rule id_take_nth_drop)

lemma left_split:
  assumes "i < length ls"
  shows "left ls = left (take i ls) + (UNREAD_FETCH_MAX_ATTEMPTS - ld_attempt (ls ! i)) + left (drop (Suc i) ls)"
proof -
  have "left ls = left (take i ls @ ls ! i # drop (Suc i) ls)" using id_take_nth_drop [OF assms] by simp
  also have "\<dots> = left (take i ls) + (left [ls ! i] + left (drop (Suc i) ls))" by (simp add: left_def)
  finally show ?thesis by (simp add: left_def)
qed

definition budget :: "unreads \<Rightarrow> unreads \<times> server_call list \<Rightarrow> nat \<Rightarrow> bool" where
  "budget u r n \<longleftrightarrow> load_ok (fst r) \<and> asks (snd r) + left (ur_loads (fst r)) \<le> left (ur_loads u) + n"

lemma budget_same:
  "load_ok u \<Longrightarrow> ur_loads (fst r) = ur_loads u \<Longrightarrow> asks (snd r) = 0 \<Longrightarrow> budget u r n"
  by (simp add: budget_def load_ok_def)

lemma drop_budget:
  assumes "load_ok u" "i < length (ur_loads u)" "ur_loads u' = ur_loads (drop_load i u)"
  shows "budget u (end_load l u') 0"
proof -
  have "set (ur_loads u') \<subseteq> set (ur_loads u)"
    unfolding assms(3) by (auto simp: drop_load_def dest: in_set_takeD in_set_dropD)
  moreover have "left (ur_loads u') \<le> left (ur_loads u)"
    unfolding assms(3) left_split [OF assms(2)] by (simp add: drop_load_def)
  ultimately show ?thesis using assms(1) by (auto simp: budget_def load_ok_def end_load_def asks_remark)
qed

lemma answered_budget:
  assumes "load_ok u"
  shows "budget u (load_answered i d u) 0"
proof (cases "i < length (ur_loads u)")
  case False
  with assms show ?thesis by (simp add: load_answered_def budget_same)
next
  case i: True
  let ?l = "ur_loads u ! i"
  consider (old) "ld_request ?l \<noteq> ur_request u"
    | (settled) "ld_request ?l = ur_request u" "ld_mutation ?l = ur_mutation u \<or> ld_attempt ?l \<ge> UNREAD_FETCH_MAX_ATTEMPTS"
    | (again) "ld_request ?l = ur_request u" "ld_mutation ?l \<noteq> ur_mutation u" "ld_attempt ?l < UNREAD_FETCH_MAX_ATTEMPTS"
    by linarith
  then show ?thesis
  proof cases
    case old
    then show ?thesis using i drop_budget [OF assms i, of "drop_load i u"] by (simp add: load_answered_def Let_def)
  next
    case settled
    then show ?thesis using i drop_budget [OF assms i, of "applyUnreads d (drop_load i u)"]
      by (simp add: load_answered_def Let_def)
  next
    case again
    let ?l' = "?l\<lparr>ld_attempt := ld_attempt ?l + 1, ld_mutation := ur_mutation u\<rparr>"
    let ?ls = "(ur_loads u)[i := ?l']"
    have "set ?ls \<subseteq> insert ?l' (set (ur_loads u))" by (rule set_update_subset_insert)
    then have ok: "load_ok (u\<lparr>ur_loads := ?ls\<rparr>)" using assms again(3) by (auto simp: load_ok_def)
    have "left ?ls = left (take i (ur_loads u)) + (UNREAD_FETCH_MAX_ATTEMPTS - ld_attempt ?l') + left (drop (Suc i) (ur_loads u))"
      using left_split [of i ?ls] i by simp
    with again(3) left_split [OF i] have "1 + left ?ls = left (ur_loads u)" by simp
    with ok again i show ?thesis by (simp add: load_answered_def Let_def budget_def asks_def)
  qed
qed

lemma start_budget:
  assumes "load_ok u" "ur_loads u' = ur_loads u"
  shows "budget u (start_load p r u') UNREAD_FETCH_MAX_ATTEMPTS"
  using assms by (auto simp: budget_def start_load_def Let_def load_ok_def asks_def left_def UNREAD_FETCH_MAX_ATTEMPTS_def)

definition keeps_loads :: "unreads \<Rightarrow> unreads \<times> server_call list \<Rightarrow> bool" where
  "keeps_loads u r \<longleftrightarrow> ur_loads (fst r) = ur_loads u \<and> asks (snd r) = 0"

lemma keeps_budget: "load_ok u \<Longrightarrow> keeps_loads u r \<Longrightarrow> budget u r n"
  by (simp add: keeps_loads_def budget_same)

lemma flush_keeps: "keeps_loads u (flushPendingRead u)"
  by (simp add: keeps_loads_def flushPendingRead_def asks_def split: option.split)

lemma schedule_keeps: "keeps_loads u (scheduleReadBoundary b u)"
  by (simp add: keeps_loads_def scheduleReadBoundary_def flushPendingRead_def asks_def Let_def split: option.split)

lemma message_keeps: "keeps_loads u (recordMessageEvent now m a i h u)"
proof -
  have s: "keeps_loads u (scheduleReadBoundary b (u\<lparr>ur_timesCache := c, ur_times := c'\<rparr>))" for b c c'
    using schedule_keeps [of "u\<lparr>ur_timesCache := c, ur_times := c'\<rparr>" b] by (simp add: keeps_loads_def)
  have "ur_loads (incrementUnread k n h w) = ur_loads w" for k n w
    by (simp add: incrementUnread_def bump_mutation_def Let_def split: option.split)
  with s show ?thesis unfolding recordMessageEvent_def Let_def by (simp add: keeps_loads_def)
qed

lemma show_effect_keeps: "keeps_loads u (show_effect u)"
  by (simp add: keeps_loads_def show_effect_def bump_mutation_def asks_def Let_def split: option.split prod.split)

lemma show_keeps: "keeps_loads u (show_conversation c u)"
proof -
  let ?u = "u\<lparr>ur_active := c\<rparr>"
  let ?r = "if ur_cleanup ?u then flushPendingRead ?u else (?u, [])"
  have r: "ur_loads (fst ?r) = ur_loads u \<and> asks (snd ?r) = 0"
    using flush_keeps [of ?u] by (simp add: keeps_loads_def)
  have e: "ur_loads (fst (show_effect (fst ?r))) = ur_loads (fst ?r) \<and> asks (snd (show_effect (fst ?r))) = 0"
    using show_effect_keeps [of "fst ?r"] by (simp only: keeps_loads_def)
  show ?thesis using r e by (simp add: keeps_loads_def show_conversation_def Let_def split_beta del: if_split)
qed

lemma asks_marks: "asks (map (\<lambda>(t, ident). MarkRead t ident None) items) = 0"
  by (simp add: asks_def split_beta)

lemma other_keeps:
  "keeps_loads u (markAllRead u)" "keeps_loads u (markConversationsRead items u)"
  "keeps_loads u (renameConversationState a b u, [])" "keeps_loads u (removeConversationState k u, [])"
  "keeps_loads u (u, [MarkUnread t ident m])" "keeps_loads u (u, [])"
  by (simp_all add: keeps_loads_def markAllRead_def markConversationsRead_def renameConversationState_def
      removeConversationState_def bump_mutation_def Let_def asks_marks) (simp_all add: asks_def)

lemma step_budget:
  assumes ok: "load_ok u"
  shows "budget u (unread_step e u) (if starts_load e then UNREAD_FETCH_MAX_ATTEMPTS else 0)"
proof (cases e)
  case (Failed_load i)
  then show ?thesis using ok drop_budget [OF ok, of i "drop_load i u"]
    by (cases "i < length (ur_loads u)") (simp_all add: unread_step_def starts_load_def load_failed_def budget_same)
next
  case (UnreadFromDone t i)
  then show ?thesis by (auto simp: unread_step_def starts_load_def mark_unread_done_def Let_def intro!: start_budget ok)
qed (use ok in \<open>simp_all add: unread_step_def starts_load_def start_budget answered_budget keeps_budget
      flush_keeps message_keeps show_keeps other_keeps\<close>)

lemma run_budget:
  assumes "load_ok u"
  shows "budget u (unread_run es u) (UNREAD_FETCH_MAX_ATTEMPTS * length (filter starts_load es))"
  using assms
proof (induction es arbitrary: u)
  case Nil
  then show ?case by (simp add: budget_same)
next
  case (Cons e es)
  have s: "budget u (unread_step e u) (if starts_load e then UNREAD_FETCH_MAX_ATTEMPTS else 0)"
    by (rule step_budget [OF Cons.prems])
  from Cons.IH [of "fst (unread_step e u)"] s show ?case
    by (cases "starts_load e") (auto simp: budget_def split_beta)
qed

text \<open>C23: Whatever happens, the counts are asked for at most three times for each load started; a busy mesh cannot
  keep a load asking.\<close>

theorem loads_ask_at_most_thrice:
  "asks (snd (unread_run es (fresh_unreads ts))) \<le> 3 * length (filter starts_load es)"
  using run_budget [of "fresh_unreads ts" es]
  by (simp add: budget_def load_ok_def fresh_unreads_def left_def UNREAD_FETCH_MAX_ATTEMPTS_def)

text \<open>When an answer may change the counts, and what they then are.\<close>

theorem answer_applied_when_current:
  fixes d
  assumes "i < length (ur_loads u)"
  defines "l \<equiv> ur_loads u ! i" and "v \<equiv> fst (load_answered i d u)"
  shows "ld_request l \<noteq> ur_request u \<or> (ld_mutation l \<noteq> ur_mutation u \<and> ld_attempt l < UNREAD_FETCH_MAX_ATTEMPTS)
      \<Longrightarrow> ur_counts v = ur_counts u \<and> ur_mentions v = ur_mentions u \<and> ur_firstUnreadIds v = ur_firstUnreadIds u"
    and "ld_request l = ur_request u \<Longrightarrow> ld_mutation l = ur_mutation u \<or> ld_attempt l \<ge> UNREAD_FETCH_MAX_ATTEMPTS
      \<Longrightarrow> (\<forall>k. ur_counts v k = (if key_of (tracked (ur_active u)) = Some k then None else ud_counts d k)) \<and>
        ur_firstUnreadIds v = ud_firstUnreadIds d \<and> length (ur_loads v) = length (ur_loads u) - 1"
  using assms(1) unfolding l_def v_def
  by (auto simp: load_answered_def Let_def end_load_def drop_load_def applyUnreads_def split: option.split)

subsection \<open>The boundary reported\<close>

definition open_message :: "tracked_type \<Rightarrow> jstr \<Rightarrow> unread_event \<Rightarrow> bool" where
  "open_message t ident e \<longleftrightarrow>
     (case e of
        MessageEvent now m isActive isNew hasMention \<Rightarrow>
          isActive \<and> isNew \<and> \<not> ms_outgoing m \<and> message_target m = t \<and> ms_conversation_key m = ident \<and> ident \<noteq> []
      | _ \<Rightarrow> False)"

definition stamp_of :: "unread_event \<Rightarrow> int \<times> nat" where
  "stamp_of e =
     (case e of
        MessageEvent now m _ _ _ \<Rightarrow> (if ms_received_at m \<noteq> 0 then ms_received_at m else now, ms_id m)
      | _ \<Rightarrow> (0, 0))"

definition later :: "int \<times> nat \<Rightarrow> int \<times> nat \<Rightarrow> bool" where
  "later a b \<longleftrightarrow> fst a > fst b \<or> (fst a = fst b \<and> snd a > snd b)"

lemma later_trans: "\<not> later a b \<Longrightarrow> \<not> later b c \<Longrightarrow> \<not> later a c"
  by (auto simp: later_def)

definition pending_is :: "tracked_type \<Rightarrow> jstr \<Rightarrow> int \<times> nat \<Rightarrow> unreads \<Rightarrow> bool" where
  "pending_is t ident s u \<longleftrightarrow>
     ur_pending u = Some \<lparr>rb_type = t, rb_id = ident, rb_messageId = snd s, rb_receivedAt = fst s\<rparr> \<and> ur_timer u"

lemma open_message_first:
  assumes "open_message t ident e" "ur_pending u = None" "ur_suppress u \<noteq> Some (getStateKey t ident)"
  shows "pending_is t ident (stamp_of e) (fst (unread_step e u)) \<and> snd (unread_step e u) = [] \<and>
    ur_suppress (fst (unread_step e u)) = ur_suppress u"
  using assms
  by (auto simp: open_message_def unread_step_def recordMessageEvent_def Let_def scheduleReadBoundary_def
      pending_is_def stamp_of_def split: unread_event.splits)

lemma open_message_next:
  assumes "open_message t ident e" "pending_is t ident s u" "ur_suppress u \<noteq> Some (getStateKey t ident)"
  shows "pending_is t ident (if later (stamp_of e) s then stamp_of e else s) (fst (unread_step e u)) \<and>
    snd (unread_step e u) = [] \<and> ur_suppress (fst (unread_step e u)) = ur_suppress u"
  using assms
  by (auto simp: open_message_def unread_step_def recordMessageEvent_def Let_def scheduleReadBoundary_def
      pending_is_def stamp_of_def later_def newer_boundary_def split: unread_event.splits)

lemma open_messages_run:
  assumes "\<forall>e \<in> set es. open_message t ident e" "pending_is t ident s u"
    "ur_suppress u \<noteq> Some (getStateKey t ident)"
  shows "\<exists>b. b \<in> insert s (stamp_of ` set es) \<and> (\<forall>x \<in> insert s (stamp_of ` set es). \<not> later x b) \<and>
    pending_is t ident b (fst (unread_run es u)) \<and> snd (unread_run es u) = []"
  using assms
proof (induction es arbitrary: s u)
  case Nil
  then show ?case by (simp add: later_def)
next
  case (Cons e es)
  let ?s = "if later (stamp_of e) s then stamp_of e else s"
  have n: "pending_is t ident ?s (fst (unread_step e u)) \<and> snd (unread_step e u) = [] \<and>
      ur_suppress (fst (unread_step e u)) = ur_suppress u"
    by (rule open_message_next) (use Cons.prems in simp_all)
  have "\<exists>b. b \<in> insert ?s (stamp_of ` set es) \<and> (\<forall>x \<in> insert ?s (stamp_of ` set es). \<not> later x b) \<and>
      pending_is t ident b (fst (unread_run es (fst (unread_step e u)))) \<and>
      snd (unread_run es (fst (unread_step e u))) = []"
    by (rule Cons.IH) (use Cons.prems n in simp_all)
  then obtain b where b: "b \<in> insert ?s (stamp_of ` set es)" "\<forall>x \<in> insert ?s (stamp_of ` set es). \<not> later x b"
      "pending_is t ident b (fst (unread_run es (fst (unread_step e u))))"
      "snd (unread_run es (fst (unread_step e u))) = []" by blast
  have "\<not> later s ?s" "\<not> later (stamp_of e) ?s" by (auto simp: later_def)
  then have "\<not> later s b" "\<not> later (stamp_of e) b" using b(2) later_trans by blast+
  moreover have "b \<in> insert s (stamp_of ` set (e # es))" using b(1) by (auto split: if_splits)
  ultimately show ?case using b n by (intro exI [of _ b]) (auto simp: split_beta)
qed

text \<open>Messages that arrive in the open conversation are reported read once the timer fires: one call, naming the
  newest of them by time and then id, in whatever order they came.\<close>

theorem newest_boundary_reported:
  assumes "es \<noteq> []" "\<forall>e \<in> set es. open_message t ident e"
    and "ur_pending u = None" "ur_suppress u \<noteq> Some (getStateKey t ident)"
  shows "\<exists>b \<in> stamp_of ` set es. (\<forall>x \<in> stamp_of ` set es. \<not> later x b) \<and>
    snd (unread_run (es @ [TimerFires]) u) = [MarkRead t ident (Some (snd b))]"
proof -
  obtain e es' where es: "es = e # es'" using assms(1) by (cases es) auto
  have f: "pending_is t ident (stamp_of e) (fst (unread_step e u)) \<and> snd (unread_step e u) = [] \<and>
      ur_suppress (fst (unread_step e u)) = ur_suppress u"
    by (rule open_message_first) (use assms es in simp_all)
  have "\<exists>b. b \<in> insert (stamp_of e) (stamp_of ` set es') \<and>
      (\<forall>x \<in> insert (stamp_of e) (stamp_of ` set es'). \<not> later x b) \<and>
      pending_is t ident b (fst (unread_run es' (fst (unread_step e u)))) \<and>
      snd (unread_run es' (fst (unread_step e u))) = []"
    by (rule open_messages_run) (use assms es f in simp_all)
  then obtain b where b: "b \<in> insert (stamp_of e) (stamp_of ` set es')"
      "\<forall>x \<in> insert (stamp_of e) (stamp_of ` set es'). \<not> later x b"
      "pending_is t ident b (fst (unread_run es' (fst (unread_step e u))))"
      "snd (unread_run es' (fst (unread_step e u))) = []" by blast
  have app: "unread_run (xs @ ys) w =
      (let (w1, c) = unread_run xs w; (w2, c') = unread_run ys w1 in (w2, c @ c'))" for xs ys w
    by (induction xs arbitrary: w) (simp_all add: split_beta)
  have "snd (unread_step TimerFires (fst (unread_run es' (fst (unread_step e u))))) = [MarkRead t ident (Some (snd b))]"
    using b(3) by (simp add: pending_is_def unread_step_def flushPendingRead_def)
  then have "snd (unread_run (es @ [TimerFires]) u) = [MarkRead t ident (Some (snd b))]"
    using b(4) f by (simp add: es app split_beta)
  with b(1,2) show ?thesis by (auto simp: es)
qed

subsection \<open>Counts of other conversations\<close>

text \<open>Messages of a conversation that is not open: each adds one, the first of them stays the first unread, and a
  mention is remembered.\<close>

theorem first_unread_is_first:
  fixes now
  assumes "ms \<noteq> []" "\<forall>m \<in> set ms. ms_conversation_key m = ident \<and> ident \<noteq> [] \<and> message_target m = t \<and> \<not> ms_outgoing m"
    and "ur_firstUnreadIds u (getStateKey t ident) = None" "ur_counts u (getStateKey t ident) = Some n"
  defines "v \<equiv> fst (unread_run (map (\<lambda>m. MessageEvent now m False True False) ms) u)"
  shows "ur_firstUnreadIds v (getStateKey t ident) = Some (Some (ms_id (hd ms)))"
    and "ur_counts v (getStateKey t ident) = Some (n + int (length ms))"
    and "k \<noteq> getStateKey t ident \<Longrightarrow> ur_counts v k = ur_counts u k"
proof -
  let ?key = "getStateKey t ident"
  define step where "step m w = fst (unread_step (MessageEvent now m False True False) w)" for m w
  have one: "ur_counts (step m w) = (ur_counts w)(?key \<mapsto> (case ur_counts w ?key of Some n \<Rightarrow> n | None \<Rightarrow> 0) + 1) \<and>
      ur_firstUnreadIds (step m w) ?key =
        (case ur_firstUnreadIds w ?key of Some (Some i) \<Rightarrow> Some (Some i) | _ \<Rightarrow> Some (Some (ms_id m)))"
    if "m \<in> set ms" for m w
    using that assms(2)
    by (auto simp: step_def unread_step_def recordMessageEvent_def incrementUnread_def bump_mutation_def Let_def
        split: option.split)
  have run: "fst (unread_run (map (\<lambda>m. MessageEvent now m False True False) xs) w) = foldl (\<lambda>w m. step m w) w xs" for xs w
    by (induction xs arbitrary: w) (simp_all add: step_def split_beta)
  have fold: "(\<forall>i. ur_firstUnreadIds w ?key = Some (Some i) \<longrightarrow>
        ur_firstUnreadIds (foldl (\<lambda>w m. step m w) w xs) ?key = Some (Some i)) \<and>
      (\<forall>n. ur_counts w ?key = Some n \<longrightarrow> ur_counts (foldl (\<lambda>w m. step m w) w xs) ?key = Some (n + int (length xs))) \<and>
      (\<forall>k. k \<noteq> ?key \<longrightarrow> ur_counts (foldl (\<lambda>w m. step m w) w xs) k = ur_counts w k)" if "set xs \<subseteq> set ms" for xs w
    using that
  proof (induction xs arbitrary: w)
    case Nil
    then show ?case by simp
  next
    case (Cons m xs)
    from Cons.IH [of "step m w"] one [of m w] Cons.prems show ?case by (auto split: option.splits)
  qed
  obtain m ms' where ms: "ms = m # ms'" using assms(1) by (cases ms) auto
  have v: "v = foldl (\<lambda>w m. step m w) (step m u) ms'" unfolding v_def run unfolding ms by simp
  have o: "ur_firstUnreadIds (step m u) ?key = Some (Some (ms_id m))" "ur_counts (step m u) ?key = Some (n + 1)"
      "k \<noteq> ?key \<Longrightarrow> ur_counts (step m u) k = ur_counts u k" for k
    using one [of m u] assms(3,4) ms by auto
  note f = fold [of ms' "step m u"]
  show "ur_firstUnreadIds v ?key = Some (Some (ms_id (hd ms)))" using f o(1) by (auto simp: v ms)
  show "ur_counts v ?key = Some (n + int (length ms))" using f o(2) by (auto simp: v ms add.assoc)
  show "k \<noteq> ?key \<Longrightarrow> ur_counts v k = ur_counts u k" using f o(3) by (auto simp: v ms)
qed

text \<open>Renaming a conversation's state adds up its counts, keeps a mention of either and the first unread already
  known, and leaves other conversations as they are.\<close>

theorem rename_adds_counts:
  assumes "a \<noteq> b" "ur_counts u a = Some n"
  shows "ur_counts (renameConversationState a b u) b = Some ((case ur_counts u b of Some c \<Rightarrow> c | None \<Rightarrow> 0) + n)"
    and "ur_counts (renameConversationState a b u) a = None"
    and "k \<noteq> a \<Longrightarrow> k \<noteq> b \<Longrightarrow> ur_counts (renameConversationState a b u) k = ur_counts u k"
    and "ur_timesCache u a = Some x \<Longrightarrow> ur_timesCache u b = Some y \<Longrightarrow>
      ur_times (renameConversationState a b u) b = Some (max x y)"
  using assms by (auto simp: renameConversationState_def Let_def bump_mutation_def renameConversationTimeKey_def max.commute)

subsection \<open>Examples\<close>

definition demo_message :: "nat \<Rightarrow> int \<Rightarrow> message" where
  "demo_message i t =
     \<lparr>ms_id = i, ms_type = Chan, ms_conversation_key = str ''AB'', ms_text = [], ms_sender_timestamp = None,
      ms_received_at = t, ms_paths = None, ms_txt_type = 0, ms_signature = None, ms_sender_key = None,
      ms_outgoing = False, ms_acked = 0, ms_send_status = None, ms_sender_name = None, ms_channel_name = None,
      ms_packet_id = None, ms_transport_code = None, ms_region = None, ms_radio_stamp = None, ms_failed_at = None,
      ms_malformed = False, ms_name_filtered = False, ms_spam = False, ms_duplicate = False, ms_cli_permitted = None\<rparr>"

definition demo_shown :: unreads where
  "demo_shown = fst (unread_run [Show (Some \<lparr>cv_type = ChannelConv, cv_id = str ''AB''\<rparr>)] (fresh_unreads Map.empty))"

definition demo_held :: unreads where
  "demo_held = fst (unread_run [UnreadFromDone TChannel (str ''AB'')] demo_shown)"

lemmas demo_unread = demo_held_def demo_shown_def demo_message_def fresh_unreads_def unread_step_def show_conversation_def
  show_effect_def tracked_def key_of_def bump_mutation_def truthy_count_def mark_unread_done_def start_load_def Let_def

theorem marked_unread_stays_witness:
  "filter (reads TChannel (str ''AB''))
     (snd (unread_run [CountsChanged, MessageEvent 9 (demo_message 4 8) True True False, TimerFires] demo_held)) = []"
proof (rule conjunct1 [OF marked_unread_stays])
  show "held_unread TChannel (str ''AB'') demo_held" by (simp add: held_unread_def demo_unread)
qed (simp add: stays_open_def)

theorem pending_read_undoes_mark_witness:
  "snd (unread_run [UnreadFrom TChannel (str ''AB'') 4, UnreadFromDone TChannel (str ''AB''), TimerFires]
      (fst (unread_run [MessageEvent 9 (demo_message 4 8) True True False] demo_shown))) =
   [MarkUnread TChannel (str ''AB'') 4, GetUnreads, MarkRead TChannel (str ''AB'') (Some 4)]"
  by (subst pending_read_undoes_mark [where b = "\<lparr>rb_type = TChannel, rb_id = str ''AB'', rb_messageId = 4, rb_receivedAt = 8\<rparr>"])
    (simp_all add: demo_unread recordMessageEvent_def scheduleReadBoundary_def message_target_def)

theorem newest_boundary_reported_witness:
  "snd (unread_run ([MessageEvent 9 (demo_message 5 8) True True False, MessageEvent 9 (demo_message 4 8) True True False]
      @ [TimerFires]) demo_shown) = [MarkRead TChannel (str ''AB'') (Some 5)]"
proof -
  have "\<exists>b \<in> stamp_of ` set [MessageEvent 9 (demo_message 5 8) True True False, MessageEvent 9 (demo_message 4 8) True True False].
      (\<forall>x \<in> stamp_of ` set [MessageEvent 9 (demo_message 5 8) True True False, MessageEvent 9 (demo_message 4 8) True True False].
        \<not> later x b) \<and>
      snd (unread_run ([MessageEvent 9 (demo_message 5 8) True True False, MessageEvent 9 (demo_message 4 8) True True False]
        @ [TimerFires]) demo_shown) = [MarkRead TChannel (str ''AB'') (Some (snd b))]"
    by (rule newest_boundary_reported) (simp_all add: open_message_def message_target_def demo_unread)
  then show ?thesis by (auto simp: stamp_of_def later_def demo_message_def)
qed

end
