(* ===== verification/Sidebar.thy ===== *)
theory Sidebar
imports Json "HOL-Library.Sublist"
begin

text \<open>The layout of the sidebar (\<^verbatim>\<open>frontend/src/utils/sidebarLayout.ts\<close>) and its sort orders
  (\<^verbatim>\<open>frontend/src/utils/conversationState.ts\<close>): what a stored order or hidden list becomes, the
  contact groups, and what the browser keeps of it. A value of unknown shape (from the server or parsed from
  storage) is a \<open>json option\<close>, a text in storage a \<open>jstr option\<close>. A fresh group id is an argument. A section
  key is its text. Failures of the storage are left out: a read that fails is an absent text.\<close>

subsection \<open>Keys\<close>

definition ALL_SECTION_KEYS :: "jstr list" where
  "ALL_SECTION_KEYS = [(str ''tools''), (str ''favorites''), (str ''owned''), (str ''channels''), (str ''contacts'')]"

definition GROUP_SECTION_PREFIX :: jstr where "GROUP_SECTION_PREFIX = (str ''group:'')"

definition groupSectionKey :: "jstr \<Rightarrow> jstr" where
  "groupSectionKey groupId = GROUP_SECTION_PREFIX @ groupId"

definition isGroupSectionKey :: "jstr \<Rightarrow> bool" where
  "isGroupSectionKey key \<longleftrightarrow> startsWith key GROUP_SECTION_PREFIX"

definition groupIdFromSectionKey :: "jstr \<Rightarrow> jstr" where
  "groupIdFromSectionKey key = drop (length GROUP_SECTION_PREFIX) key"

definition ALL_TOOL_KEYS :: "jstr list" where
  "ALL_TOOL_KEYS =
     [(str ''my-node''), (str ''mesh-health''), (str ''mesh-trends''), (str ''mesh-discovery''), (str ''snmp''), (str ''lan-scan''), (str ''fleet''),
      (str ''spam-guard''), (str ''wardrive''), (str ''performance''), (str ''raw''), (str ''packet-history''), (str ''analyze''), (str ''map''),
      (str ''visualizer''), (str ''trace''), (str ''search''), (str ''mentions''), (str ''channel-registry''), (str ''cracker''),
      (str ''knowledge-base''), (str ''manual'')]"

definition ALL_FAVORITE_GROUP_KEYS :: "jstr list" where
  "ALL_FAVORITE_GROUP_KEYS = [(str ''channels''), (str ''companions''), (str ''repeaters''), (str ''rooms''), (str ''sensors'')]"

subsection \<open>Orders\<close>

text \<open>The texts of an array; the other elements are in no list of keys.\<close>

definition json_texts :: "json list \<Rightarrow> jstr list" where
  "json_texts vs = List.map_filter (\<lambda>v. case v of JStr s \<Rightarrow> Some s | _ \<Rightarrow> None) vs"

definition reconcile :: "json option \<Rightarrow> jstr list \<Rightarrow> jstr list" where
  "reconcile stored all =
     (case stored of
        Some (JArr vs) \<Rightarrow>
          let valid = filter (\<lambda>k. k \<in> set all) (json_texts vs);
              missing = filter (\<lambda>k. k \<notin> set valid) all
          in valid @ missing
      | _ \<Rightarrow> all)"

definition RENAMED_TOOLS :: "(jstr \<times> jstr) list" where
  "RENAMED_TOOLS = [((str ''wardrive-map''), (str ''wardrive'')), ((str ''wardrive-reports''), (str ''wardrive''))]"

definition renameTool :: "jstr \<Rightarrow> jstr" where
  "renameTool k = entry_or k k RENAMED_TOOLS"

fun indexOf :: "'a list \<Rightarrow> 'a \<Rightarrow> nat" where
  "indexOf [] k = 0"
| "indexOf (x # xs) k = (if x = k then 0 else Suc (indexOf xs k))"

definition splice_in :: "nat \<Rightarrow> 'a \<Rightarrow> 'a list \<Rightarrow> 'a list" where
  "splice_in i x xs = take i xs @ x # drop i xs"

text \<open>A key that is missing goes right after its nearest default neighbour before it that is there.\<close>

definition place_key :: "jstr list \<Rightarrow> jstr list \<Rightarrow> nat \<Rightarrow> jstr list" where
  "place_key all out i =
     (if all ! i \<in> set out then out
      else
        (case find (\<lambda>k. k \<in> set out) (rev (take i all)) of
           None \<Rightarrow> splice_in 0 (all ! i) out
         | Some before \<Rightarrow> splice_in (indexOf out before + 1) (all ! i) out))"

definition reconcileInPlace :: "json option \<Rightarrow> jstr list \<Rightarrow> jstr list" where
  "reconcileInPlace stored all =
     (case stored of
        Some (JArr vs) \<Rightarrow>
          foldl (place_key all) (filter (\<lambda>k. k \<in> set all) (js_set (map renameTool (json_texts vs)))) [0..<length all]
      | _ \<Rightarrow> all)"

definition resolveSectionOrder :: "json option \<Rightarrow> jstr list \<Rightarrow> jstr list" where
  "resolveSectionOrder serverValue groupIds =
     reconcile serverValue (ALL_SECTION_KEYS @ map groupSectionKey groupIds)"

definition resolveToolOrder :: "json option \<Rightarrow> jstr list" where
  "resolveToolOrder serverValue = reconcileInPlace serverValue ALL_TOOL_KEYS"

definition resolveFavoritesOrder :: "json option \<Rightarrow> jstr list" where
  "resolveFavoritesOrder serverValue = reconcile serverValue ALL_FAVORITE_GROUP_KEYS"

datatype sort_order = Recent | Alpha

definition section_field :: "json option \<Rightarrow> jstr \<Rightarrow> json option" where
  "section_field v k = Option.bind v (\<lambda>j. json_prop j k)"

definition coerce_order :: "json option \<Rightarrow> sort_order" where
  "coerce_order v = (if v = Some (JStr (str ''alpha'')) then Alpha else Recent)"

definition resolveFavoriteSortOrders :: "json option \<Rightarrow> (jstr \<times> sort_order) list" where
  "resolveFavoriteSortOrders serverValue =
     map (\<lambda>k. (k, coerce_order (section_field serverValue k))) ALL_FAVORITE_GROUP_KEYS"

record sidebar_hidden =
  sh_sections :: "jstr list"
  sh_tools :: "jstr list"
  sh_favorites :: "jstr list"

definition keep_keys :: "jstr list \<Rightarrow> jstr list \<Rightarrow> jstr list" where
  "keep_keys ks all = filter (\<lambda>k. k \<in> set all) ks"

definition texts_of :: "json option \<Rightarrow> jstr list" where
  "texts_of v = (case v of Some (JArr vs) \<Rightarrow> json_texts vs | _ \<Rightarrow> [])"

definition resolveHidden :: "json option \<Rightarrow> sidebar_hidden" where
  "resolveHidden serverValue =
     \<lparr>sh_sections = keep_keys (texts_of (section_field serverValue (str ''sections''))) ALL_SECTION_KEYS,
      sh_tools = js_set (keep_keys (map renameTool (texts_of (section_field serverValue (str ''tools'')))) ALL_TOOL_KEYS),
      sh_favorites = keep_keys (texts_of (section_field serverValue (str ''favorites''))) ALL_FAVORITE_GROUP_KEYS\<rparr>"

subsection \<open>What the browser keeps\<close>

definition read_legacy :: "jstr option \<Rightarrow> jstr list \<Rightarrow> jstr list option" where
  "read_legacy raw all =
     (case raw of
        None \<Rightarrow> None
      | Some txt \<Rightarrow>
          if txt = [] then None
          else (case json_parse txt of None \<Rightarrow> None | Some j \<Rightarrow> Some (reconcile (Some j) all)))"

definition readLegacyLocalOrders :: "jstr option \<Rightarrow> jstr option \<Rightarrow> jstr list option \<times> jstr list option" where
  "readLegacyLocalOrders rawSection rawTool =
     (read_legacy rawSection ALL_SECTION_KEYS, read_legacy rawTool ALL_TOOL_KEYS)"

definition loadRailCollapsed :: "jstr option \<Rightarrow> bool" where
  "loadRailCollapsed raw \<longleftrightarrow> raw = Some (str ''true'')"

definition saveRailCollapsed :: "bool \<Rightarrow> jstr" where
  "saveRailCollapsed b = stringify (JBool b)"

text \<open>\<^verbatim>\<open>Object.entries\<close> of an object or an array, as a lookup.\<close>

definition entry_of :: "json \<Rightarrow> jstr \<Rightarrow> json option" where
  "entry_of j k =
     (case j of
        JArr vs \<Rightarrow> map_of (zip (map decimal [0..<length vs]) vs) k
      | _ \<Rightarrow> json_prop j k)"

definition loadGroupCollapsed :: "jstr option \<Rightarrow> jstr \<Rightarrow> bool option" where
  "loadGroupCollapsed raw k =
     (case raw of
        None \<Rightarrow> None
      | Some txt \<Rightarrow>
          (case json_parse txt of
             None \<Rightarrow> None
           | Some j \<Rightarrow> (case entry_of j k of Some (JBool b) \<Rightarrow> Some b | _ \<Rightarrow> None)))"

definition saveGroupCollapsed :: "(jstr \<times> bool) list \<Rightarrow> jstr" where
  "saveGroupCollapsed state = stringify (JObj (map (\<lambda>(k, b). (k, JBool b)) state))"

record section_orders =
  so_favorites :: sort_order
  so_channels :: sort_order
  so_contacts :: sort_order
  so_rooms :: sort_order
  so_repeaters :: sort_order

definition buildSidebarSectionSortOrders :: "sort_order \<Rightarrow> section_orders" where
  "buildSidebarSectionSortOrders d =
     \<lparr>so_favorites = d, so_channels = d, so_contacts = d, so_rooms = d, so_repeaters = d\<rparr>"

definition coerceFavoritesSortOrder :: "json option \<Rightarrow> sort_order" where
  "coerceFavoritesSortOrder v =
     (if v = Some (JStr (str ''alpha'')) \<or> v = Some (JStr (str ''type-alpha'')) then Alpha else Recent)"

definition loadLegacyLocalStorageSortOrder :: "jstr option \<Rightarrow> sort_order option" where
  "loadLegacyLocalStorageSortOrder stored =
     (case stored of
        None \<Rightarrow> None
      | Some s \<Rightarrow> if s = [] then None else if s = (str ''alpha'') then Some Alpha else Some Recent)"

text \<open>Reading a property of \<^verbatim>\<open>null\<close> throws; of any other value it does not.\<close>

definition loadLocalStorageSidebarSectionSortOrders :: "jstr option \<Rightarrow> section_orders option" where
  "loadLocalStorageSidebarSectionSortOrders stored =
     (case stored of
        None \<Rightarrow> None
      | Some s \<Rightarrow>
          if s = [] then None
          else
            (case json_parse s of
               None \<Rightarrow> None
             | Some JNull \<Rightarrow> None
             | Some j \<Rightarrow> Some
                 \<lparr>so_favorites = coerceFavoritesSortOrder (json_prop j (str ''favorites'')),
                  so_channels = coerce_order (json_prop j (str ''channels'')),
                  so_contacts = coerce_order (json_prop j (str ''contacts'')),
                  so_rooms = coerce_order (json_prop j (str ''rooms'')),
                  so_repeaters = coerce_order (json_prop j (str ''repeaters''))\<rparr>))"

definition order_text :: "sort_order \<Rightarrow> jstr" where
  "order_text ord = (case ord of Recent \<Rightarrow> (str ''recent'') | Alpha \<Rightarrow> (str ''alpha''))"

definition saveLocalStorageSidebarSectionSortOrders :: "section_orders \<Rightarrow> jstr" where
  "saveLocalStorageSidebarSectionSortOrders orders =
     stringify (JObj
       [((str ''favorites''), JStr (order_text (so_favorites orders))), ((str ''channels''), JStr (order_text (so_channels orders))),
        ((str ''contacts''), JStr (order_text (so_contacts orders))), ((str ''rooms''), JStr (order_text (so_rooms orders))),
        ((str ''repeaters''), JStr (order_text (so_repeaters orders)))])"

subsection \<open>Contact groups\<close>

record contact_group =
  cg_id :: jstr
  cg_name :: jstr
  cg_contact_keys :: "jstr list"
  cg_channel_keys :: "jstr list"
  cg_sort_order :: "sort_order option"

datatype member_kind = ContactMember | ChannelMember

definition createContactGroup :: "jstr \<Rightarrow> jstr \<Rightarrow> contact_group" where
  "createContactGroup newId name =
     \<lparr>cg_id = newId, cg_name = trim name, cg_contact_keys = [], cg_channel_keys = [], cg_sort_order = None\<rparr>"

definition renameContactGroup :: "contact_group list \<Rightarrow> jstr \<Rightarrow> jstr \<Rightarrow> contact_group list" where
  "renameContactGroup groups groupId name =
     (let trimmed = trim name in
      if trimmed = [] then groups
      else map (\<lambda>g. if cg_id g = groupId then g\<lparr>cg_name := trimmed\<rparr> else g) groups)"

definition deleteContactGroup :: "contact_group list \<Rightarrow> jstr \<Rightarrow> contact_group list" where
  "deleteContactGroup groups groupId = filter (\<lambda>g. cg_id g \<noteq> groupId) groups"

definition toggle_key :: "jstr \<Rightarrow> jstr list \<Rightarrow> jstr list" where
  "toggle_key k current = (if k \<in> set current then filter (\<lambda>x. x \<noteq> k) current else current @ [k])"

definition toggleGroupMember :: "contact_group list \<Rightarrow> jstr \<Rightarrow> member_kind \<Rightarrow> jstr \<Rightarrow> contact_group list" where
  "toggleGroupMember groups groupId kind key =
     (let normalized = (if kind = ContactMember then toLowerCase key else key) in
      map (\<lambda>g. if cg_id g \<noteq> groupId then g
               else (case kind of
                       ContactMember \<Rightarrow> g\<lparr>cg_contact_keys := toggle_key normalized (cg_contact_keys g)\<rparr>
                     | ChannelMember \<Rightarrow> g\<lparr>cg_channel_keys := toggle_key normalized (cg_channel_keys g)\<rparr>)) groups)"

definition groupsContainingContact :: "contact_group list \<Rightarrow> jstr \<Rightarrow> contact_group list" where
  "groupsContainingContact groups contactKey =
     (let key = toLowerCase contactKey in filter (\<lambda>g. key \<in> set (cg_contact_keys g)) groups)"

definition groupsContainingChannel :: "contact_group list \<Rightarrow> jstr \<Rightarrow> contact_group list" where
  "groupsContainingChannel groups channelKey = filter (\<lambda>g. channelKey \<in> set (cg_channel_keys g)) groups"

definition isContactGrouped :: "contact_group list \<Rightarrow> jstr \<Rightarrow> bool" where
  "isContactGrouped groups contactKey \<longleftrightarrow> length (groupsContainingContact groups contactKey) > 0"

definition isChannelGrouped :: "contact_group list \<Rightarrow> jstr \<Rightarrow> bool" where
  "isChannelGrouped groups channelKey \<longleftrightarrow> length (groupsContainingChannel groups channelKey) > 0"

subsection \<open>Orders are complete\<close>

lemma indexOf_less: "k \<in> set xs \<Longrightarrow> indexOf xs k < length xs"
  by (induction xs) auto

lemma set_splice [simp]: "set (splice_in i x xs) = insert x (set xs)"
  unfolding splice_in_def by (metis Un_insert_right append_take_drop_id list.simps(15) set_append)

lemma distinct_splice: "distinct xs \<Longrightarrow> x \<notin> set xs \<Longrightarrow> distinct (splice_in i x xs)"
  unfolding splice_in_def
  by (metis distinct_append distinct.simps(2) append_take_drop_id Int_insert_right disjoint_iff in_set_takeD in_set_dropD list.simps(15) set_append)

lemma subseq_splice: "subseq xs (splice_in i x xs)"
proof -
  have "subseq (take i xs @ drop i xs) (take i xs @ x # drop i xs)"
    by (rule list_emb_append_mono) (simp_all add: list_emb.list_emb_Cons)
  then show ?thesis by (simp add: splice_in_def)
qed

lemma place_key_ok:
  assumes "distinct out" "set out \<subseteq> set all" "i < length all"
  shows "distinct (place_key all out i) \<and> set (place_key all out i) = insert (all ! i) (set out) \<and>
    subseq out (place_key all out i)"
  using assms by (auto simp: place_key_def distinct_splice subseq_splice split: option.split)

lemma place_keys:
  assumes "distinct out" "set out \<subseteq> set all" "n \<le> length all"
  shows "distinct (foldl (place_key all) out [0..<n]) \<and>
    set (foldl (place_key all) out [0..<n]) = set out \<union> set (take n all) \<and>
    subseq out (foldl (place_key all) out [0..<n])"
  using assms
proof (induction n)
  case 0
  then show ?case by simp
next
  case (Suc n)
  let ?f = "foldl (place_key all) out [0..<n]"
  have ih: "distinct ?f \<and> set ?f = set out \<union> set (take n all) \<and> subseq out ?f" using Suc by simp
  have "set ?f \<subseteq> set all" using ih Suc.prems(2) set_take_subset [of n all] by auto
  from place_key_ok [OF _ this, of n] ih Suc.prems(3)
  show ?case by (auto simp: take_Suc_conv_app_nth intro: subseq_order.trans)
qed

text \<open>Whatever the server stored as the tool order, the resolved order holds every tool exactly once, the stored
  tools (renamed, first occurrences, known ones only) keep their relative order, and resolving the resolved order
  again changes nothing.\<close>

theorem tool_order_complete:
  fixes v
  defines "stored \<equiv> filter (\<lambda>k. k \<in> set ALL_TOOL_KEYS) (js_set (map renameTool (texts_of v)))"
  shows "distinct (resolveToolOrder v) \<and> set (resolveToolOrder v) = set ALL_TOOL_KEYS \<and>
    subseq stored (resolveToolOrder v) \<and>
    resolveToolOrder (Some (JArr (map JStr (resolveToolOrder v)))) = resolveToolOrder v"
proof -
  have all: "distinct ALL_TOOL_KEYS" by (simp add: ALL_TOOL_KEYS_def)
  have ok: "distinct (resolveToolOrder v) \<and> set (resolveToolOrder v) = set ALL_TOOL_KEYS \<and>
      subseq stored (resolveToolOrder v)"
  proof (cases "\<exists>vs. v = Some (JArr vs)")
    case True
    then obtain vs where v: "v = Some (JArr vs)" by blast
    have st: "stored = filter (\<lambda>k. k \<in> set ALL_TOOL_KEYS) (js_set (map renameTool (json_texts vs)))"
      by (simp add: stored_def v texts_of_def)
    have s: "distinct stored" "set stored \<subseteq> set ALL_TOOL_KEYS" by (auto simp: st)
    then have "set stored \<union> set ALL_TOOL_KEYS = set ALL_TOOL_KEYS" by blast
    with place_keys [OF s order_refl] show ?thesis
      by (simp add: resolveToolOrder_def reconcileInPlace_def v st [symmetric])
  next
    case False
    then have "resolveToolOrder v = ALL_TOOL_KEYS" "stored = []"
      by (auto simp: resolveToolOrder_def reconcileInPlace_def stored_def texts_of_def split: option.splits json.splits)
    with all show ?thesis by simp
  qed
  let ?r = "resolveToolOrder v"
  have jt: "json_texts (map JStr xs) = xs" for xs
    by (induction xs) (simp_all add: json_texts_def map_filter_simps)
  have rn: "renameTool k = k" if "k \<in> set ALL_TOOL_KEYS" for k
  proof -
    have "(str ''wardrive-map'') \<notin> set ALL_TOOL_KEYS" "(str ''wardrive-reports'') \<notin> set ALL_TOOL_KEYS" by code_simp+
    with that have "k \<noteq> (str ''wardrive-map'')" "k \<noteq> (str ''wardrive-reports'')" by blast+
    then show ?thesis by (simp only: renameTool_def entry_or_def RENAMED_TOOLS_def map_of.simps fun_upd_def) simp
  qed
  have "map renameTool ?r = ?r" using ok rn by (intro map_idI) auto
  then have start: "filter (\<lambda>k. k \<in> set ALL_TOOL_KEYS) (js_set (map renameTool (json_texts (map JStr ?r)))) = ?r"
    using ok by (simp add: jt js_set_distinct)
  have "foldl (place_key ALL_TOOL_KEYS) out is = out"
    if "set out = set ALL_TOOL_KEYS" "\<forall>i \<in> set is. i < length ALL_TOOL_KEYS" for out "is"
    using that by (induction "is") (auto simp: place_key_def)
  then have "foldl (place_key ALL_TOOL_KEYS) ?r [0..<length ALL_TOOL_KEYS] = ?r" using ok by simp
  with ok start show ?thesis by (simp add: resolveToolOrder_def reconcileInPlace_def)
qed

lemma reconcile_complete: "set (reconcile v all) = set all"
  by (auto simp: reconcile_def Let_def split: option.split json.split)

lemma reconcile_distinct:
  "distinct all \<Longrightarrow> distinct (texts_of v) \<Longrightarrow> distinct (reconcile v all)"
  by (auto simp: reconcile_def Let_def texts_of_def split: option.split json.split)

text \<open>The section order holds every built-in section and every current group, and each once when the stored order
  repeats none; the favourites likewise.\<close>

theorem section_order_complete:
  "set (resolveSectionOrder v ids) = set ALL_SECTION_KEYS \<union> groupSectionKey ` set ids"
  "distinct ids \<Longrightarrow> distinct (texts_of v) \<Longrightarrow> distinct (resolveSectionOrder v ids)"
  "set (resolveFavoritesOrder v) = set ALL_FAVORITE_GROUP_KEYS"
proof -
  show "set (resolveSectionOrder v ids) = set ALL_SECTION_KEYS \<union> groupSectionKey ` set ids"
    by (simp add: resolveSectionOrder_def reconcile_complete)
  show "set (resolveFavoritesOrder v) = set ALL_FAVORITE_GROUP_KEYS"
    by (simp add: resolveFavoritesOrder_def reconcile_complete)
  assume d: "distinct ids" "distinct (texts_of v)"
  have "distinct (ALL_SECTION_KEYS @ map groupSectionKey ids)"
    using d(1) by (auto simp: ALL_SECTION_KEYS_def distinct_map inj_on_def groupSectionKey_def GROUP_SECTION_PREFIX_def)
  then show "distinct (resolveSectionOrder v ids)"
    unfolding resolveSectionOrder_def using d(2) by (rule reconcile_distinct)
qed

text \<open>A group's section is in every resolved section order while its group exists, but never in a resolved hidden
  list: a group hidden by the user is shown again as soon as the settings come back from the server.\<close>

theorem hidden_group_comes_back:
  assumes "g \<in> set groupIds"
  shows "groupSectionKey g \<in> set (resolveSectionOrder order groupIds)"
    and "groupSectionKey g \<notin> set (sh_sections (resolveHidden hidden))"
proof -
  show "groupSectionKey g \<in> set (resolveSectionOrder order groupIds)"
    using assms by (simp add: section_order_complete)
  show "groupSectionKey g \<notin> set (sh_sections (resolveHidden hidden))"
    by (auto simp: resolveHidden_def keep_keys_def ALL_SECTION_KEYS_def groupSectionKey_def GROUP_SECTION_PREFIX_def)
qed

theorem hidden_group_comes_back_witness:
  "groupSectionKey (str ''g1'') \<in> set (resolveSectionOrder None [str ''g1'']) \<and>
   groupSectionKey (str ''g1'') \<notin> set (sh_sections (resolveHidden
     (Some (JObj [(str ''sections'', JArr [JStr (str ''group:g1'')])]))))"
  using hidden_group_comes_back [of "str ''g1''" "[str ''g1'']"] by simp

subsection \<open>Storage and groups\<close>

lemma map_of_rev_ok: "amap_ok m \<Longrightarrow> map_of (rev m) = map_of m"
  by (subst map_of_inject_set) (simp_all flip: rev_map)

text \<open>What is saved of the layout comes back.\<close>

theorem layout_survives_storage:
  "loadRailCollapsed (Some (saveRailCollapsed b)) = b"
  "loadLocalStorageSidebarSectionSortOrders (Some (saveLocalStorageSidebarSectionSortOrders orders)) = Some orders"
  "amap_ok state \<Longrightarrow> loadGroupCollapsed (Some (saveGroupCollapsed state)) k = map_of state k"
proof -
  show "loadRailCollapsed (Some (saveRailCollapsed b)) = b"
    by (cases b) (simp_all add: loadRailCollapsed_def saveRailCollapsed_def)
  have ot: "coerce_order (Some (JStr (order_text x))) = x" "coerceFavoritesSortOrder (Some (JStr (order_text x))) = x" for x
    by (cases x; simp add: coerce_order_def coerceFavoritesSortOrder_def order_text_def)+
  let ?j = "JObj [((str ''favorites''), JStr (order_text (so_favorites orders))), ((str ''channels''), JStr (order_text (so_channels orders))),
        ((str ''contacts''), JStr (order_text (so_contacts orders))), ((str ''rooms''), JStr (order_text (so_rooms orders))),
        ((str ''repeaters''), JStr (order_text (so_repeaters orders)))]"
  have "json_parse (stringify ?j) = Some ?j" by (rule json_parse_stringify) simp
  moreover have "stringify ?j \<noteq> []" by simp
  ultimately show "loadLocalStorageSidebarSectionSortOrders (Some (saveLocalStorageSidebarSectionSortOrders orders)) = Some orders"
    unfolding saveLocalStorageSidebarSectionSortOrders_def loadLocalStorageSidebarSectionSortOrders_def option.case
    by (simp add: ot del: stringify.simps)
  assume ok: "amap_ok state"
  let ?o = "JObj (map (\<lambda>(k, b). (k, JBool b)) state)"
  have "json_parse (stringify ?o) = Some ?o"
    by (rule json_parse_stringify) (auto simp: list_all_iff)
  moreover have "map_of (rev (map (\<lambda>(k, b). (k, JBool b)) state)) k = map_option JBool (map_of state k)"
  proof -
    have "map_of (rev (map (\<lambda>(k, b). (k, JBool b)) state)) k = map_of (map (\<lambda>(k, b). (k, JBool b)) state) k"
      using ok by (subst map_of_rev_ok) (simp_all add: comp_def split_beta)
    then show ?thesis by (simp add: map_of_map)
  qed
  ultimately show "loadGroupCollapsed (Some (saveGroupCollapsed state)) k = map_of state k"
    by (cases "map_of state k") (simp_all add: loadGroupCollapsed_def saveGroupCollapsed_def entry_of_def del: stringify.simps)
qed

lemma toggle_key_mem: "x \<in> set (toggle_key k ks) \<longleftrightarrow> (if x = k then k \<notin> set ks else x \<in> set ks)"
  by (auto simp: toggle_key_def)

text \<open>Toggling a contact in a group, spelled in any case, flips exactly its membership of that group.\<close>

theorem toggle_flips_member:
  assumes "g \<in> set groups" "distinct (map cg_id groups)"
  shows "\<exists>g' \<in> set (toggleGroupMember groups (cg_id g) ContactMember key).
      cg_id g' = cg_id g \<and> cg_channel_keys g' = cg_channel_keys g \<and>
      (toLowerCase key \<in> set (cg_contact_keys g') \<longleftrightarrow> toLowerCase key \<notin> set (cg_contact_keys g)) \<and>
      (\<forall>k. k \<noteq> toLowerCase key \<longrightarrow> k \<in> set (cg_contact_keys g') \<longleftrightarrow> k \<in> set (cg_contact_keys g))"
    and "\<forall>h \<in> set groups. h \<noteq> g \<longrightarrow> h \<in> set (toggleGroupMember groups (cg_id g) ContactMember key)"
proof -
  let ?g = "g\<lparr>cg_contact_keys := toggle_key (toLowerCase key) (cg_contact_keys g)\<rparr>"
  have "?g \<in> set (toggleGroupMember groups (cg_id g) ContactMember key)"
    using assms(1) by (auto simp: toggleGroupMember_def Let_def image_iff intro!: bexI [of _ g])
  then show "\<exists>g' \<in> set (toggleGroupMember groups (cg_id g) ContactMember key).
      cg_id g' = cg_id g \<and> cg_channel_keys g' = cg_channel_keys g \<and>
      (toLowerCase key \<in> set (cg_contact_keys g') \<longleftrightarrow> toLowerCase key \<notin> set (cg_contact_keys g)) \<and>
      (\<forall>k. k \<noteq> toLowerCase key \<longrightarrow> k \<in> set (cg_contact_keys g') \<longleftrightarrow> k \<in> set (cg_contact_keys g))"
    by (intro bexI [of _ ?g]) (auto simp: toggle_key_mem)
  have key: "a = b" if "a \<in> set groups" "b \<in> set groups" "cg_id a = cg_id b" for a b
    using that assms(2) by (metis distinct_map inj_onD)
  show "\<forall>h \<in> set groups. h \<noteq> g \<longrightarrow> h \<in> set (toggleGroupMember groups (cg_id g) ContactMember key)"
  proof (intro ballI impI)
    fix h
    assume h: "h \<in> set groups" "h \<noteq> g"
    then have "cg_id h \<noteq> cg_id g" using key assms(1) by blast
    then show "h \<in> set (toggleGroupMember groups (cg_id g) ContactMember key)"
      using h(1) by (auto simp: toggleGroupMember_def Let_def image_iff intro!: bexI [of _ h])
  qed
qed

end
