(* ===== verification/Registry.thy ===== *)
theory Registry
imports Payloads "HOL-Library.List_Lexorder"
begin

text \<open>The channel registry (\<^verbatim>\<open>frontend/src/lib/channelManager.ts\<close>): what the channel finder, the user, an
  import, a sync, a chat mention, the radio's channel list and the server's statistics do to it, and its export. A
  registry is the list of its entries; the clock (\<open>now\<close>, in milliseconds) is an argument. ISO times are texts and
  compare as such. \<open>toISOString\<close> is that of the years 0 to 9999, which Unix seconds of the server lie in. Reading
  and writing the browser's copy, an unchecked cast of parsed JSON, is left out.\<close>

subsection \<open>Entries\<close>

datatype registry_status = Active | Inactive | Dormant | Experimental
datatype registry_source = Finder | Manual | Imported | Radio | Mention

record registry_channel =
  rg_channel :: jstr
  rg_category :: jstr
  rg_subcategory :: jstr
  rg_region :: jstr
  rg_language :: "jstr list"
  rg_status :: registry_status
  rg_verified :: bool
  rg_recommended :: bool
  rg_alias_of :: "jstr option"
  rg_notes :: jstr
  rg_tags :: "jstr list"
  rg_scopes :: "jstr list"
  rg_country :: jstr
  rg_firstSeen :: "jstr option"
  rg_lastHeard :: "jstr option"
  rg_added :: "jstr option"
  rg_packets :: int
  rg_source :: registry_source
  rg_private :: "bool option"

definition toISOString :: "int \<Rightarrow> jstr" where
  "toISOString ms =
     padStart 4 48 (decimal_int (getUTCFullYear ms)) @ (str ''-'') @ pad2 (utc_month ms) @ (str ''-'') @ pad2 (getUTCDate ms)
       @ (str ''T'') @ pad2 (getUTCHours ms) @ (str '':'') @ pad2 (getUTCMinutes ms) @ (str '':'') @ pad2 (getUTCSeconds ms)
       @ (str ''.'') @ padStart 3 48 (decimal_int (ms mod 1000)) @ (str ''Z'')"

definition normalizeChannelName :: "jstr \<Rightarrow> jstr" where
  "normalizeChannelName name = (let n = trim name in if startsWith n (str ''#'') then n else (str ''#'') @ n)"

definition emptyEntry :: "jstr \<Rightarrow> registry_source \<Rightarrow> jstr \<Rightarrow> registry_channel" where
  "emptyEntry name source now =
     (let isLive = (source = Finder) in
      \<lparr>rg_channel = name, rg_category = [], rg_subcategory = [], rg_region = [], rg_language = [],
       rg_status = Active, rg_verified = False, rg_recommended = False, rg_alias_of = None, rg_notes = [],
       rg_tags = [], rg_scopes = [], rg_country = [],
       rg_firstSeen = (if isLive then Some now else None), rg_lastHeard = (if isLive then Some now else None),
       rg_added = Some (if isLive then now else take 10 now), rg_packets = (if isLive then 1 else 0),
       rg_source = source, rg_private = None\<rparr>)"

definition addableRegistryChannelNames :: "registry_channel list \<Rightarrow> jstr list" where
  "addableRegistryChannelNames entries =
     map rg_channel (filter (\<lambda>e. rg_private e \<noteq> Some True \<and> startsWith (rg_channel e) (str ''#'')) entries)"

definition lower_name :: "registry_channel \<Rightarrow> jstr" where
  "lower_name e = toLowerCase (rg_channel e)"

fun findIndex :: "('a \<Rightarrow> bool) \<Rightarrow> 'a list \<Rightarrow> nat option" where
  "findIndex P [] = None"
| "findIndex P (x # xs) = (if P x then Some 0 else map_option Suc (findIndex P xs))"

subsection \<open>Finder and user\<close>

definition recordFinderDiscovery :: "int \<Rightarrow> jstr \<Rightarrow> registry_channel list \<Rightarrow> registry_channel list" where
  "recordFinderDiscovery clock channelName existing =
     (let name = normalizeChannelName channelName; now = toISOString clock in
      case findIndex (\<lambda>e. lower_name e = toLowerCase name) existing of
        None \<Rightarrow> existing @ [emptyEntry name Finder now]
      | Some idx \<Rightarrow>
          existing[idx := (existing ! idx)\<lparr>rg_lastHeard := Some now, rg_packets := rg_packets (existing ! idx) + 1\<rparr>])"

text \<open>Metadata a form may give; a field left out is \<open>None\<close>.\<close>

record channel_meta =
  me_category :: "jstr option"
  me_subcategory :: "jstr option"
  me_region :: "jstr option"
  me_language :: "jstr list option"
  me_status :: "registry_status option"
  me_verified :: "bool option"
  me_recommended :: "bool option"
  me_alias_of :: "jstr option option"
  me_notes :: "jstr option"
  me_tags :: "jstr list option"
  me_scopes :: "jstr list option"
  me_country :: "jstr option"
  me_added :: "jstr option option"
  me_private :: "bool option"

record channel_patch = channel_meta +
  pt_firstSeen :: "jstr option option"
  pt_lastHeard :: "jstr option option"
  pt_packets :: "int option"
  pt_source :: "registry_source option"

text \<open>\<^verbatim>\<open>v ?? d\<close> for a default that is a value, and for one that may be absent.\<close>

definition or_old :: "'a option \<Rightarrow> 'a \<Rightarrow> 'a" where
  "or_old v d = (case v of Some x \<Rightarrow> x | None \<Rightarrow> d)"

definition first_some :: "'a option \<Rightarrow> 'a option \<Rightarrow> 'a option" where
  "first_some a b = (case a of Some x \<Rightarrow> Some x | None \<Rightarrow> b)"

definition join_option :: "'a option option \<Rightarrow> 'a option" where
  "join_option v = (case v of Some x \<Rightarrow> x | None \<Rightarrow> None)"

text \<open>A text that is not empty.\<close>

definition present :: "jstr option \<Rightarrow> jstr option" where
  "present v = (case v of Some s \<Rightarrow> if s = [] then None else Some s | None \<Rightarrow> None)"

text \<open>\<^verbatim>\<open>{ ...e, ...meta }\<close>\<close>

definition apply_meta :: "'a channel_meta_scheme \<Rightarrow> registry_channel \<Rightarrow> registry_channel" where
  "apply_meta m e = e
     \<lparr>rg_category := or_old (me_category m) (rg_category e),
      rg_subcategory := or_old (me_subcategory m) (rg_subcategory e),
      rg_region := or_old (me_region m) (rg_region e),
      rg_language := or_old (me_language m) (rg_language e),
      rg_status := or_old (me_status m) (rg_status e),
      rg_verified := or_old (me_verified m) (rg_verified e),
      rg_recommended := or_old (me_recommended m) (rg_recommended e),
      rg_alias_of := or_old (me_alias_of m) (rg_alias_of e),
      rg_notes := or_old (me_notes m) (rg_notes e),
      rg_tags := or_old (me_tags m) (rg_tags e),
      rg_scopes := or_old (me_scopes m) (rg_scopes e),
      rg_country := or_old (me_country m) (rg_country e),
      rg_added := or_old (me_added m) (rg_added e),
      rg_private := first_some (me_private m) (rg_private e)\<rparr>"

definition apply_patch :: "channel_patch \<Rightarrow> registry_channel \<Rightarrow> registry_channel" where
  "apply_patch p e = (apply_meta p e)
     \<lparr>rg_firstSeen := or_old (pt_firstSeen p) (rg_firstSeen e),
      rg_lastHeard := or_old (pt_lastHeard p) (rg_lastHeard e),
      rg_packets := or_old (pt_packets p) (rg_packets e),
      rg_source := or_old (pt_source p) (rg_source e)\<rparr>"

definition addManualChannel :: "int \<Rightarrow> jstr \<Rightarrow> channel_meta \<Rightarrow> registry_channel list \<Rightarrow> registry_channel list" where
  "addManualChannel clock channelName meta existing =
     (let name = normalizeChannelName channelName; now = toISOString clock in
      case findIndex (\<lambda>e. lower_name e = toLowerCase name) existing of
        Some idx \<Rightarrow> existing[idx := apply_meta meta (existing ! idx)]
      | None \<Rightarrow>
          existing @
            [(apply_meta meta (emptyEntry name Manual now))
               \<lparr>rg_channel := name, rg_firstSeen := None, rg_lastHeard := None,
                rg_added := Some (or_old (join_option (me_added meta)) (take 10 now)),
                rg_packets := 0, rg_source := Manual\<rparr>])"

definition updateChannel :: "jstr \<Rightarrow> channel_patch \<Rightarrow> registry_channel list \<Rightarrow> registry_channel list" where
  "updateChannel channelName p existing =
     (let key = toLowerCase channelName in
      map (\<lambda>e. if lower_name e = key then apply_patch p e else e) existing)"

subsection \<open>Imports\<close>

record import_entry =
  im_channel :: "jstr option"
  im_category :: "jstr option"
  im_subcategory :: "jstr option"
  im_region :: "jstr option"
  im_language :: "jstr list option"
  im_status :: "registry_status option"
  im_verified :: "bool option"
  im_recommended :: "bool option"
  im_alias_of :: "jstr option"
  im_notes :: "jstr option"
  im_tags :: "jstr list option"
  im_scopes :: "jstr list option"
  im_country :: "jstr option"
  im_firstSeen :: "jstr option"
  im_lastHeard :: "jstr option"
  im_last_seen :: "jstr option"
  im_added :: "jstr option"
  im_packets :: "int option"

definition pickNewer :: "jstr option \<Rightarrow> jstr option \<Rightarrow> jstr option" where
  "pickNewer a b =
     (case (present a, present b) of
        (None, _) \<Rightarrow> b
      | (Some x, None) \<Rightarrow> a
      | (Some x, Some y) \<Rightarrow> if x \<ge> y then a else b)"

definition pickEarlier :: "jstr option \<Rightarrow> jstr option \<Rightarrow> jstr option" where
  "pickEarlier a b =
     (case (present a, present b) of
        (None, _) \<Rightarrow> b
      | (Some x, None) \<Rightarrow> a
      | (Some x, Some y) \<Rightarrow> if x \<le> y then a else b)"

definition imported_entry :: "jstr \<Rightarrow> jstr \<Rightarrow> import_entry \<Rightarrow> registry_channel" where
  "imported_entry now name raw =
     (let heard = first_some (im_lastHeard raw) (im_last_seen raw) in
      \<lparr>rg_channel = name, rg_category = or_old (im_category raw) [], rg_subcategory = or_old (im_subcategory raw) [],
       rg_region = or_old (im_region raw) [], rg_language = or_old (im_language raw) [],
       rg_status = or_old (im_status raw) Active, rg_verified = or_old (im_verified raw) False,
       rg_recommended = or_old (im_recommended raw) False, rg_alias_of = im_alias_of raw,
       rg_notes = or_old (im_notes raw) [], rg_tags = or_old (im_tags raw) [],
       rg_scopes = or_old (im_scopes raw) [], rg_country = or_old (im_country raw) [],
       rg_firstSeen = first_some (im_firstSeen raw) heard, rg_lastHeard = heard,
       rg_added = Some (or_old (im_added raw) now), rg_packets = or_old (im_packets raw) 0,
       rg_source = Imported, rg_private = None\<rparr>)"

text \<open>\<^verbatim>\<open>current.x || raw.x || ''\<close>\<close>

definition fill_text :: "jstr \<Rightarrow> jstr option \<Rightarrow> jstr" where
  "fill_text cur new = (if cur \<noteq> [] then cur else or_old new [])"

definition merge_entry :: "registry_channel \<Rightarrow> import_entry \<Rightarrow> registry_channel" where
  "merge_entry cur raw = cur
     \<lparr>rg_category := fill_text (rg_category cur) (im_category raw),
      rg_subcategory := fill_text (rg_subcategory cur) (im_subcategory raw),
      rg_region := fill_text (rg_region cur) (im_region raw),
      rg_language := (if length (rg_language cur) > 0 then rg_language cur else or_old (im_language raw) []),
      rg_verified := (rg_verified cur \<or> or_old (im_verified raw) False),
      rg_recommended := (rg_recommended cur \<or> or_old (im_recommended raw) False),
      rg_notes := fill_text (rg_notes cur) (im_notes raw),
      rg_tags := js_set (rg_tags cur @ or_old (im_tags raw) []),
      rg_scopes := js_set (rg_scopes cur @ or_old (im_scopes raw) []),
      rg_country := fill_text (rg_country cur) (im_country raw),
      rg_lastHeard := pickNewer (rg_lastHeard cur) (first_some (im_lastHeard raw) (im_last_seen raw)),
      rg_packets := rg_packets cur + or_old (im_packets raw) 0\<rparr>"

definition by_name :: "registry_channel list \<Rightarrow> (jstr \<times> registry_channel) list" where
  "by_name existing = foldl (\<lambda>m e. amap_set (lower_name e) e m) [] existing"

type_synonym merge_state = "(jstr \<times> registry_channel) list \<times> nat \<times> nat"

definition merge_step :: "jstr \<Rightarrow> merge_state \<Rightarrow> import_entry \<Rightarrow> merge_state" where
  "merge_step now s raw =
     (let (m, added, updated) = s in
      case present (im_channel raw) of
        None \<Rightarrow> (m, added, updated)
      | Some c \<Rightarrow>
          let name = normalizeChannelName c; key = toLowerCase name in
          case map_of m key of
            None \<Rightarrow> (amap_set key (imported_entry now name raw) m, added + 1, updated)
          | Some cur \<Rightarrow> (amap_set key (merge_entry cur raw) m, added, updated + 1))"

definition mergeImport :: "int \<Rightarrow> import_entry list \<Rightarrow> registry_channel list \<Rightarrow> registry_channel list \<times> nat \<times> nat" where
  "mergeImport clock incoming existing =
     (let (m, added, updated) = foldl (merge_step (toISOString clock)) (by_name existing, 0, 0) incoming
      in (map snd m, added, updated))"

subsection \<open>Sync, mentions, the radio's list\<close>

definition add_missing_step ::
    "(jstr \<times> registry_channel) list \<times> nat \<Rightarrow> jstr \<Rightarrow> registry_channel \<Rightarrow> (jstr \<times> registry_channel) list \<times> nat" where
  "add_missing_step s key e =
     (if map_of (fst s) key \<noteq> None then s else (amap_set key e (fst s), snd s + 1))"

definition addMissingFromSync :: "int \<Rightarrow> jstr list \<Rightarrow> registry_channel list \<Rightarrow> registry_channel list \<times> nat" where
  "addMissingFromSync clock names existing =
     (let now = toISOString clock;
          (m, added) = foldl (\<lambda>s name.
            let normalized = normalizeChannelName name in
            add_missing_step s (toLowerCase normalized)
              ((emptyEntry normalized Imported now)
                 \<lparr>rg_firstSeen := None, rg_lastHeard := None, rg_added := Some (take 10 now), rg_packets := 0\<rparr>))
            (by_name existing, 0) names
      in (map snd m, added))"

definition recordMention :: "int \<Rightarrow> jstr \<Rightarrow> registry_channel list \<Rightarrow> registry_channel list \<times> bool" where
  "recordMention clock channelName existing =
     (let name = normalizeChannelName channelName; key = toLowerCase name; now = toISOString clock in
      if list_ex (\<lambda>e. lower_name e = key) existing then (existing, False)
      else
        (existing @ [(emptyEntry name Mention now)
           \<lparr>rg_firstSeen := None, rg_lastHeard := None, rg_added := Some (take 10 now), rg_packets := 0\<rparr>], True))"

record radio_seed =
  se_name :: jstr
  se_key :: jstr
  se_is_hashtag :: "bool option"
  se_created_at :: "int option"

definition registryNameForRadioChannel :: "radio_seed \<Rightarrow> jstr" where
  "registryNameForRadioChannel rc =
     (if se_is_hashtag rc = Some False then trim (se_name rc) else normalizeChannelName (se_name rc))"

definition seeded_entry :: "int \<Rightarrow> radio_seed \<Rightarrow> registry_channel" where
  "seeded_entry clock rc =
     (let createdDate =
            take 10 (toISOString (case se_created_at rc of
                                    Some c \<Rightarrow> if c \<noteq> 0 then c * 1000 else clock
                                  | None \<Rightarrow> clock))
      in \<lparr>rg_channel = registryNameForRadioChannel rc, rg_category = [], rg_subcategory = [], rg_region = [],
          rg_language = [], rg_status = Active, rg_verified = False, rg_recommended = False, rg_alias_of = None,
          rg_notes = [], rg_tags = [], rg_scopes = [], rg_country = [], rg_firstSeen = None, rg_lastHeard = None,
          rg_added = Some createdDate, rg_packets = 0, rg_source = Radio, rg_private = None\<rparr>)"

definition seedFromRadioChannels :: "int \<Rightarrow> radio_seed list \<Rightarrow> registry_channel list \<Rightarrow> registry_channel list \<times> nat" where
  "seedFromRadioChannels clock radioChannels existing =
     (let (m, added) = foldl (\<lambda>s rc.
            add_missing_step s (toLowerCase (registryNameForRadioChannel rc)) (seeded_entry clock rc))
            (by_name existing, 0) radioChannels
      in (map snd m, added))"

subsection \<open>Statistics of the server, and the export\<close>

record bulk_stats =
  bs_count :: int
  bs_first_at :: "int option"
  bs_last_at :: "int option"

definition iso_of :: "int option \<Rightarrow> jstr option" where
  "iso_of t = (case t of Some x \<Rightarrow> if x \<noteq> 0 then Some (toISOString (x * 1000)) else None | None \<Rightarrow> None)"

definition stat_for ::
    "(jstr \<Rightarrow> bulk_stats option) \<Rightarrow> (jstr \<times> jstr) list \<Rightarrow> registry_channel \<Rightarrow> bulk_stats option" where
  "stat_for stats nameByKey e =
     (case find (\<lambda>(k, n). toLowerCase n = lower_name e) nameByKey of
        None \<Rightarrow> None
      | Some (hexKey, n) \<Rightarrow>
          if hexKey = [] then None else first_some (stats hexKey) (stats (toLowerCase hexKey)))"

definition apply_stat :: "bulk_stats \<Rightarrow> registry_channel \<Rightarrow> registry_channel" where
  "apply_stat st e =
     (let dbFirstIso = iso_of (bs_first_at st); dbLastIso = iso_of (bs_last_at st) in
      e\<lparr>rg_firstSeen :=
          (if pickNewer dbFirstIso None = dbFirstIso then pickEarlier (rg_firstSeen e) dbFirstIso else rg_firstSeen e),
        rg_added := first_some (rg_added e) (map_option (take 10) dbFirstIso),
        rg_lastHeard := pickNewer (rg_lastHeard e) dbLastIso,
        rg_packets := bs_count st\<rparr>)"

definition stat_dirty :: "registry_channel \<Rightarrow> registry_channel \<Rightarrow> bool" where
  "stat_dirty e e' \<longleftrightarrow> rg_firstSeen e' \<noteq> rg_firstSeen e \<or> rg_added e' \<noteq> rg_added e \<or>
     rg_lastHeard e' \<noteq> rg_lastHeard e \<or> rg_packets e' \<noteq> rg_packets e"

definition update_stat :: "(jstr \<Rightarrow> bulk_stats option) \<Rightarrow> (jstr \<times> jstr) list \<Rightarrow> registry_channel \<Rightarrow> registry_channel" where
  "update_stat stats nameByKey e =
     (case stat_for stats nameByKey e of
        None \<Rightarrow> e
      | Some st \<Rightarrow> if stat_dirty e (apply_stat st e) then apply_stat st e else e)"

definition applyChannelStats ::
    "(jstr \<Rightarrow> bulk_stats option) \<Rightarrow> (jstr \<times> jstr) list \<Rightarrow> registry_channel list \<Rightarrow> registry_channel list \<times> nat" where
  "applyChannelStats stats nameByKey existing =
     (map (update_stat stats nameByKey) existing,
      length (filter (\<lambda>e. case stat_for stats nameByKey e of
                None \<Rightarrow> False | Some st \<Rightarrow> stat_dirty e (apply_stat st e)) existing))"

record exported_channel =
  ex_entry :: registry_channel
  ex_channel_hash :: "jstr option"
  ex_first_seen :: "jstr option"
  ex_last_seen :: "jstr option"
  ex_message_amount :: int

text \<open>An exported row: the entry's own columns, which keep their names, and those that are renamed or added.\<close>

definition toProjectAFormat :: "registry_channel list \<Rightarrow> (jstr \<Rightarrow> jstr option) option \<Rightarrow> exported_channel list" where
  "toProjectAFormat entries keyByName =
     map (\<lambda>e. \<lparr>ex_entry = e,
               ex_channel_hash = Option.bind keyByName (\<lambda>f. f (lower_name e)),
               ex_first_seen = rg_firstSeen e,
               ex_last_seen = first_some (rg_lastHeard e) (rg_firstSeen e),
               ex_message_amount = rg_packets e\<rparr>) entries"

subsection \<open>Names stay unique\<close>

definition registry_ok :: "registry_channel list \<Rightarrow> bool" where
  "registry_ok es \<longleftrightarrow> distinct (map lower_name es)"

definition keyed :: "(jstr \<times> registry_channel) list \<Rightarrow> bool" where
  "keyed m \<longleftrightarrow> amap_ok m \<and> (\<forall>p \<in> set m. lower_name (snd p) = fst p)"

lemma keyed_Nil [simp]: "keyed []"
  by (simp add: keyed_def)

lemma keyed_set:
  assumes "keyed m" "lower_name e = k"
  shows "keyed (amap_set k e m)"
proof -
  have "\<forall>p \<in> set (amap_set k e m). lower_name (snd p) = fst p"
    by (rule amap_set_entries [where P = "\<lambda>k e. lower_name e = k"]) (use assms in \<open>auto simp: keyed_def\<close>)
  with assms(1) show ?thesis by (simp add: keyed_def)
qed

lemma keyed_names: "keyed m \<Longrightarrow> map lower_name (map snd m) = amap_keys m"
  by (simp add: keyed_def)

lemma keyed_registry_ok: "keyed m \<Longrightarrow> registry_ok (map snd m)"
  unfolding registry_ok_def by (simp only: keyed_names) (simp add: keyed_def)

lemma keyed_map_of: "keyed m \<Longrightarrow> map_of m k = Some e \<Longrightarrow> lower_name e = k"
  unfolding keyed_def by (metis fst_conv map_of_SomeD snd_conv)

lemma by_name_snoc: "by_name (es @ [e]) = amap_set (lower_name e) e (by_name es)"
  by (simp add: by_name_def)

lemma by_name_keyed: "keyed (by_name es) \<and> set (amap_keys (by_name es)) = lower_name ` set es"
proof (induction es rule: rev_induct)
  case Nil
  show ?case by (simp add: by_name_def)
next
  case (snoc e es)
  then show ?case by (auto simp: by_name_snoc keyed_set amap_keys_set simp del: set_map)
qed

lemma by_name_ok: "registry_ok es \<Longrightarrow> by_name es = map (\<lambda>e. (lower_name e, e)) es"
proof (induction es rule: rev_induct)
  case Nil
  show ?case by (simp add: by_name_def)
next
  case (snoc e es)
  have "lower_name e \<notin> set (amap_keys (map (\<lambda>e. (lower_name e, e)) es))"
    using snoc.prems by (auto simp: registry_ok_def)
  with snoc show ?case by (simp add: by_name_snoc amap_set_append_new registry_ok_def del: set_map)
qed

text \<open>A step through a map by name: well keyed, and no name lost.\<close>

definition map_grows :: "(jstr \<times> registry_channel) list \<Rightarrow> (jstr \<times> registry_channel) list \<Rightarrow> bool" where
  "map_grows m m' \<longleftrightarrow> (keyed m \<longrightarrow> keyed m') \<and> set (amap_keys m) \<subseteq> set (amap_keys m')"

lemma map_grows_refl [simp]: "map_grows m m"
  by (simp add: map_grows_def)

lemma map_grows_trans: "map_grows a b \<Longrightarrow> map_grows b c \<Longrightarrow> map_grows a c"
  by (auto simp: map_grows_def)

lemma map_grows_set: "lower_name e = k \<Longrightarrow> map_grows m (amap_set k e m)"
  by (auto simp: map_grows_def keyed_set amap_keys_set simp del: set_map)

lemma foldl_grows:
  assumes "\<And>s x. map_grows (f s) (f (step s x))"
  shows "map_grows (f s) (f (foldl step s xs))"
  by (induction xs arbitrary: s) (auto intro: map_grows_trans assms)

lemma lower_entry [simp]:
  "lower_name (emptyEntry name src now) = toLowerCase name"
  "lower_name (imported_entry now name raw) = toLowerCase name"
  "lower_name (merge_entry e raw) = lower_name e"
  "lower_name (seeded_entry clock rc) = toLowerCase (registryNameForRadioChannel rc)"
  "lower_name (apply_meta m e) = lower_name e"
  "lower_name (apply_patch p e) = lower_name e"
  "lower_name (apply_stat st e) = lower_name e"
  by (simp_all add: lower_name_def emptyEntry_def imported_entry_def merge_entry_def seeded_entry_def
      apply_meta_def apply_patch_def apply_stat_def Let_def)

lemma lower_update [simp]:
  "lower_name (e\<lparr>rg_firstSeen := a\<rparr>) = lower_name e" "lower_name (e\<lparr>rg_lastHeard := a\<rparr>) = lower_name e"
  "lower_name (e\<lparr>rg_added := a\<rparr>) = lower_name e" "lower_name (e\<lparr>rg_packets := n\<rparr>) = lower_name e"
  "lower_name (e\<lparr>rg_source := s\<rparr>) = lower_name e" "lower_name (e\<lparr>rg_channel := c\<rparr>) = toLowerCase c"
  by (simp_all add: lower_name_def)

lemma merge_step_grows: "map_grows (fst s) (fst (merge_step now s raw))"
proof -
  obtain m a u where s: "s = (m, a, u)" by (cases s)
  show ?thesis
  proof (cases "present (im_channel raw)")
    case None
    then show ?thesis by (simp add: merge_step_def s)
  next
    case (Some c)
    let ?k = "toLowerCase (normalizeChannelName c)"
    show ?thesis
    proof (cases "map_of m ?k")
      case None
      then show ?thesis by (simp add: merge_step_def s Some Let_def map_grows_set)
    next
      case (Some cur)
      have "keyed m \<Longrightarrow> lower_name cur = ?k" using Some by (intro keyed_map_of)
      then have "map_grows m (amap_set ?k (merge_entry cur raw) m)"
        unfolding map_grows_def by (auto simp: keyed_set amap_keys_set simp del: set_map)
      then show ?thesis using \<open>present (im_channel raw) = Some c\<close> Some by (simp add: merge_step_def s Let_def)
    qed
  qed
qed

lemma add_missing_grows: "lower_name e = k \<Longrightarrow> map_grows (fst s) (fst (add_missing_step s k e))"
  by (simp add: add_missing_step_def map_grows_set)

definition names_grow :: "registry_channel list \<Rightarrow> registry_channel list \<Rightarrow> bool" where
  "names_grow es es' \<longleftrightarrow> (registry_ok es \<longrightarrow> registry_ok es') \<and> lower_name ` set es \<subseteq> lower_name ` set es'"

lemma map_grows_names:
  assumes "map_grows (by_name es) m"
  shows "registry_ok (map snd m) \<and> lower_name ` set es \<subseteq> lower_name ` set (map snd m)"
proof -
  note b = by_name_keyed [of es]
  have k: "keyed m" "set (amap_keys (by_name es)) \<subseteq> set (amap_keys m)" using assms b by (auto simp: map_grows_def)
  have "lower_name ` set (map snd m) = set (amap_keys m)"
    by (metis keyed_names [OF k(1)] set_map)
  with k b show ?thesis by (simp add: keyed_registry_ok del: set_map)
qed

lemma names_grow_same: "map lower_name es' = map lower_name es \<Longrightarrow> names_grow es es'"
  unfolding names_grow_def registry_ok_def by (metis order_refl set_map)

lemma names_grow_append: "lower_name e \<notin> lower_name ` set es \<Longrightarrow> names_grow es (es @ [e])"
  by (auto simp: names_grow_def registry_ok_def)

lemma findIndex_None: "findIndex P xs = None \<longleftrightarrow> (\<forall>x \<in> set xs. \<not> P x)"
  by (induction xs) auto

lemma findIndex_Some: "findIndex P xs = Some i \<Longrightarrow> i < length xs \<and> P (xs ! i)"
  by (induction xs arbitrary: i) (auto split: if_splits)

lemma names_grow_update:
  assumes "i < length es" "lower_name e = lower_name (es ! i)"
  shows "names_grow es (es[i := e])"
proof (rule names_grow_same)
  have "map lower_name (es[i := e]) = (map lower_name es)[i := map lower_name es ! i]"
    using assms by (simp add: map_update)
  then show "map lower_name (es[i := e]) = map lower_name es" by simp
qed

datatype registry_op =
  Found int jstr | AddedByHand int jstr channel_meta | Patched jstr channel_patch
  | ImportedList int "import_entry list" | Synced int "jstr list" | Mentioned int jstr
  | SeededFrom int "radio_seed list" | Stats "jstr \<Rightarrow> bulk_stats option" "(jstr \<times> jstr) list"

definition registry_step :: "registry_channel list \<Rightarrow> registry_op \<Rightarrow> registry_channel list" where
  "registry_step es op' =
     (case op' of
        Found clock name \<Rightarrow> recordFinderDiscovery clock name es
      | AddedByHand clock name meta \<Rightarrow> addManualChannel clock name meta es
      | Patched name p \<Rightarrow> updateChannel name p es
      | ImportedList clock incoming \<Rightarrow> fst (mergeImport clock incoming es)
      | Synced clock names \<Rightarrow> fst (addMissingFromSync clock names es)
      | Mentioned clock name \<Rightarrow> fst (recordMention clock name es)
      | SeededFrom clock seeds \<Rightarrow> fst (seedFromRadioChannels clock seeds es)
      | Stats stats nameByKey \<Rightarrow> fst (applyChannelStats stats nameByKey es))"

lemma merge_names: "registry_ok (fst (mergeImport clock incoming es)) \<and>
    lower_name ` set es \<subseteq> lower_name ` set (fst (mergeImport clock incoming es))"
proof -
  let ?s = "foldl (merge_step (toISOString clock)) (by_name es, 0, 0) incoming"
  have "map_grows (fst (by_name es, 0 :: nat, 0 :: nat)) (fst ?s)"
    by (rule foldl_grows) (rule merge_step_grows)
  then have "map_grows (by_name es) (fst ?s)" by simp
  moreover have "fst (mergeImport clock incoming es) = map snd (fst ?s)" by (simp add: mergeImport_def split_beta)
  ultimately show ?thesis using map_grows_names by simp
qed

lemma missing_names:
  assumes "\<And>x. lower_name (e x) = k x"
  shows "registry_ok (map snd (fst (foldl (\<lambda>s x. add_missing_step s (k x) (e x)) (by_name es, 0) xs))) \<and>
    lower_name ` set es \<subseteq> lower_name ` set (map snd (fst (foldl (\<lambda>s x. add_missing_step s (k x) (e x)) (by_name es, 0) xs)))"
proof -
  let ?s = "foldl (\<lambda>s x. add_missing_step s (k x) (e x)) (by_name es, 0) xs"
  have "map_grows (fst (by_name es, 0 :: nat)) (fst ?s)"
    by (rule foldl_grows) (rule add_missing_grows, rule assms)
  then show ?thesis by (intro map_grows_names) simp
qed

lemma registry_step_names: "names_grow es (registry_step es op')"
proof (cases op')
  case (Found clock name)
  then show ?thesis
    by (auto simp: registry_step_def recordFinderDiscovery_def Let_def findIndex_None
        intro!: names_grow_append names_grow_update dest: findIndex_Some split: option.split)
next
  case (AddedByHand clock name meta)
  then show ?thesis
    by (auto simp: registry_step_def addManualChannel_def Let_def findIndex_None
        intro!: names_grow_append names_grow_update dest: findIndex_Some split: option.split)
next
  case (Patched name p)
  then show ?thesis by (auto simp: registry_step_def updateChannel_def Let_def intro!: names_grow_same)
next
  case (ImportedList clock incoming)
  then show ?thesis using merge_names [of clock incoming es] by (simp add: registry_step_def names_grow_def)
next
  case (Synced clock names)
  let ?e = "\<lambda>name. (emptyEntry (normalizeChannelName name) Imported (toISOString clock))
    \<lparr>rg_firstSeen := None, rg_lastHeard := None, rg_added := Some (take 10 (toISOString clock)), rg_packets := 0\<rparr>"
  have "fst (addMissingFromSync clock names es) = map snd (fst (foldl (\<lambda>s name.
      add_missing_step s (toLowerCase (normalizeChannelName name)) (?e name)) (by_name es, 0) names))"
    by (simp add: addMissingFromSync_def Let_def split_beta)
  with Synced show ?thesis
    using missing_names [of ?e "\<lambda>name. toLowerCase (normalizeChannelName name)" es names]
    by (simp add: registry_step_def names_grow_def)
next
  case (Mentioned clock name)
  then show ?thesis
    by (auto simp: registry_step_def recordMention_def Let_def list_ex_iff names_grow_same intro!: names_grow_append)
next
  case (SeededFrom clock seeds)
  then show ?thesis
    using missing_names [of "seeded_entry clock" "\<lambda>rc. toLowerCase (registryNameForRadioChannel rc)" es seeds]
    by (simp add: registry_step_def seedFromRadioChannels_def names_grow_def split_beta)
next
  case (Stats stats nameByKey)
  then show ?thesis
    by (auto simp: registry_step_def applyChannelStats_def update_stat_def intro!: names_grow_same split: option.split)
qed

text \<open>However the registry is fed, no channel is in it twice under names that differ only in case, and no channel
  once in it is lost.\<close>

theorem registry_names_unique:
  "registry_ok (foldl registry_step [] ops)"
  "lower_name ` set es \<subseteq> lower_name ` set (foldl registry_step es ops)"
proof -
  show "registry_ok (foldl registry_step [] ops)"
  proof (induction ops rule: rev_induct)
    case Nil
    show ?case by (simp add: registry_ok_def)
  next
    case (snoc op' ops)
    then show ?case using registry_step_names by (simp add: names_grow_def)
  qed
  show "lower_name ` set es \<subseteq> lower_name ` set (foldl registry_step es ops)"
  proof (induction ops rule: rev_induct)
    case (snoc op' ops)
    then show ?case using registry_step_names [of "foldl registry_step es ops" op']
      unfolding names_grow_def foldl_append by (elim conjE) (simp add: order_trans)
  qed simp
qed


subsection \<open>An import adds up\<close>

text \<open>What an import never takes from an entry.\<close>

definition entry_kept :: "registry_channel \<Rightarrow> registry_channel \<Rightarrow> bool" where
  "entry_kept e e' \<longleftrightarrow>
     rg_channel e' = rg_channel e \<and> rg_firstSeen e' = rg_firstSeen e \<and> rg_source e' = rg_source e \<and>
     (rg_category e \<noteq> [] \<longrightarrow> rg_category e' = rg_category e) \<and> (rg_notes e \<noteq> [] \<longrightarrow> rg_notes e' = rg_notes e) \<and>
     (rg_verified e \<longrightarrow> rg_verified e') \<and> set (rg_tags e) \<subseteq> set (rg_tags e') \<and> set (rg_scopes e) \<subseteq> set (rg_scopes e')"

lemma entry_kept_refl [simp]: "entry_kept e e"
  by (simp add: entry_kept_def)

lemma entry_kept_trans: "entry_kept a b \<Longrightarrow> entry_kept b c \<Longrightarrow> entry_kept a c"
  unfolding entry_kept_def by (elim conjE, intro conjI impI) (simp_all add: order_trans)

lemma entry_kept_merge: "entry_kept e (merge_entry e raw)"
  by (auto simp: entry_kept_def merge_entry_def fill_text_def)

abbreviation packets_in :: "('k \<times> registry_channel) list \<Rightarrow> int" where
  "packets_in m \<equiv> sum_list (map (\<lambda>p. rg_packets (snd p)) m)"

abbreviation named_imports :: "import_entry list \<Rightarrow> import_entry list" where
  "named_imports raws \<equiv> filter (\<lambda>r. present (im_channel r) \<noteq> None) raws"

lemma packets_amap_set:
  "packets_in (amap_set k v m) = packets_in m + rg_packets v - (case map_of m k of Some old \<Rightarrow> rg_packets old | None \<Rightarrow> 0)"
  by (induction k v m rule: amap_set.induct) auto

lemma packets_imported [simp]:
  "rg_packets (imported_entry now name raw) = or_old (im_packets raw) 0"
  "rg_packets (merge_entry e raw) = rg_packets e + or_old (im_packets raw) 0"
  by (simp_all add: imported_entry_def merge_entry_def Let_def)

definition merged_from :: "(jstr \<times> registry_channel) list \<Rightarrow> import_entry list \<Rightarrow> merge_state \<Rightarrow> bool" where
  "merged_from m0 raws s \<longleftrightarrow>
     length (fst s) = length m0 + fst (snd s) \<and>
     fst (snd s) + snd (snd s) = length (named_imports raws) \<and>
     packets_in (fst s) = packets_in m0 + sum_list (map (\<lambda>r. or_old (im_packets r) 0) (named_imports raws)) \<and>
     (\<forall>k e. map_of m0 k = Some e \<longrightarrow> (\<exists>e'. map_of (fst s) k = Some e' \<and> entry_kept e e'))"

lemma kept_in_set:
  assumes "\<forall>k e. map_of m0 k = Some e \<longrightarrow> (\<exists>e'. map_of m k = Some e' \<and> entry_kept e e')"
    and "\<And>old. map_of m key = Some old \<Longrightarrow> entry_kept old new"
  shows "\<forall>k e. map_of m0 k = Some e \<longrightarrow> (\<exists>e'. map_of (amap_set key new m) k = Some e' \<and> entry_kept e e')"
proof (intro allI impI)
  fix k e
  assume "map_of m0 k = Some e"
  then obtain e' where e': "map_of m k = Some e'" "entry_kept e e'" using assms(1) by blast
  show "\<exists>e'. map_of (amap_set key new m) k = Some e' \<and> entry_kept e e'"
  proof (cases "k = key")
    case True
    then have "entry_kept e' new" using assms(2) e'(1) by simp
    with True e'(2) show ?thesis by (auto intro: entry_kept_trans)
  next
    case False
    with e' show ?thesis by auto
  qed
qed

lemma merged_from_step:
  assumes "merged_from m0 raws s"
  shows "merged_from m0 (raws @ [raw]) (merge_step now s raw)"
proof -
  obtain m a u where s: "s = (m, a, u)" by (cases s)
  note l = assms [unfolded merged_from_def s fst_conv snd_conv]
  note kept = l [THEN conjunct2, THEN conjunct2, THEN conjunct2]
  show ?thesis
  proof (cases "present (im_channel raw)")
    case None
    then show ?thesis using assms by (simp add: merge_step_def s merged_from_def)
  next
    case c: (Some c)
    let ?name = "normalizeChannelName c"
    let ?k = "toLowerCase ?name"
    show ?thesis
    proof (cases "map_of m ?k")
      case None
      have n: "?k \<notin> set (amap_keys m)" using None by (simp add: map_of_eq_None_iff)
      have step: "merge_step now s raw = (amap_set ?k (imported_entry now ?name raw) m, a + 1, u)"
        by (simp add: merge_step_def s c None Let_def)
      have "\<forall>k e. map_of m0 k = Some e \<longrightarrow>
          (\<exists>e'. map_of (amap_set ?k (imported_entry now ?name raw) m) k = Some e' \<and> entry_kept e e')"
        by (rule kept_in_set [OF kept]) (simp add: None)
      then show ?thesis using l c n None unfolding step merged_from_def fst_conv snd_conv
        by (simp add: packets_amap_set length_amap_set del: map_of_amap_set set_map)
    next
      case (Some cur)
      have n: "?k \<in> set (amap_keys m)" using Some by (metis map_of_eq_None_iff option.distinct(1) set_map)
      have step: "merge_step now s raw = (amap_set ?k (merge_entry cur raw) m, a, u + 1)"
        by (simp add: merge_step_def s c Some Let_def)
      have "\<forall>k e. map_of m0 k = Some e \<longrightarrow>
          (\<exists>e'. map_of (amap_set ?k (merge_entry cur raw) m) k = Some e' \<and> entry_kept e e')"
        by (rule kept_in_set [OF kept]) (simp add: Some entry_kept_merge)
      then show ?thesis using l c n Some unfolding step merged_from_def fst_conv snd_conv
        by (simp add: packets_amap_set length_amap_set del: map_of_amap_set set_map)
    qed
  qed
qed

lemma merged_from_all: "merged_from m0 raws (foldl (merge_step now) (m0, 0, 0) raws)"
proof (induction raws rule: rev_induct)
  case Nil
  show ?case by (simp add: merged_from_def)
next
  case (snoc raw raws)
  then show ?case by (simp add: merged_from_step)
qed

text \<open>An import into a registry without duplicates adds up: each named row is counted once, as added or as
  updated; the registry grows by those added; the packets of all rows join those of the registry; and every entry it
  had is kept, with its name, first sighting, source, tags, scopes, and any category, notes or verification it had.\<close>

theorem merge_accounts:
  assumes "registry_ok existing"
  shows "let (r, added, updated) = mergeImport clock incoming existing in
     added + updated = length (named_imports incoming) \<and>
     length r = length existing + added \<and>
     sum_list (map rg_packets r) =
       sum_list (map rg_packets existing) + sum_list (map (\<lambda>i. or_old (im_packets i) 0) (named_imports incoming)) \<and>
     (\<forall>e \<in> set existing. \<exists>e' \<in> set r. entry_kept e e')"
proof -
  let ?s = "foldl (merge_step (toISOString clock)) (by_name existing, 0, 0) incoming"
  obtain m a u where s: "?s = (m, a, u)" by (cases ?s)
  note l = merged_from_all [of "by_name existing" incoming "toISOString clock", unfolded s merged_from_def fst_conv snd_conv]
  have b: "by_name existing = map (\<lambda>e. (lower_name e, e)) existing" by (rule by_name_ok [OF assms])
  have pb: "packets_in (by_name existing) = sum_list (map rg_packets existing)" by (simp add: b comp_def)
  have pm: "sum_list (map rg_packets (map snd m)) = packets_in m" by (simp add: comp_def)
  have "\<exists>e' \<in> set (map snd m). entry_kept e e'" if "e \<in> set existing" for e
  proof -
    have "amap_ok (by_name existing)" "(lower_name e, e) \<in> set (by_name existing)"
      using that assms by (auto simp: b registry_ok_def comp_def)
    then have "map_of (by_name existing) (lower_name e) = Some e" by simp
    then obtain e' where e': "map_of m (lower_name e) = Some e'" "entry_kept e e'" using l by blast
    have "(lower_name e, e') \<in> set m" by (rule map_of_SomeD [OF e'(1)])
    then have "e' \<in> set (map snd m)" by force
    with e'(2) show ?thesis by blast
  qed
  then have kept: "\<forall>e \<in> set existing. \<exists>e' \<in> set (map snd m). entry_kept e e'" by blast
  have len: "length (by_name existing) = length existing" by (simp add: b)
  have r: "mergeImport clock incoming existing = (map snd m, a, u)" by (simp add: mergeImport_def s)
  show ?thesis unfolding r Let_def prod.case
    using l kept unfolding pb pm len length_map by (intro conjI) (elim conjE, assumption)+
qed

definition sample_import :: "nat list \<Rightarrow> int \<Rightarrow> import_entry" where
  "sample_import name n = \<lparr>im_channel = Some name, im_category = None, im_subcategory = None, im_region = None,
     im_language = None, im_status = None, im_verified = None, im_recommended = None, im_alias_of = None,
     im_notes = None, im_tags = None, im_scopes = None, im_country = None, im_firstSeen = None, im_lastHeard = None,
     im_last_seen = None, im_added = None, im_packets = Some n\<rparr>"

lemma merge_accounts_witness:
  "fst (snd (mergeImport 0 [sample_import (str ''#B'') 4] [emptyEntry (str ''#a'') Finder []])) +
   snd (snd (mergeImport 0 [sample_import (str ''#B'') 4] [emptyEntry (str ''#a'') Finder []])) = 1"
  using merge_accounts [of "[emptyEntry (str ''#a'') Finder []]" 0 "[sample_import (str ''#B'') 4]"]
  by (simp add: registry_ok_def split_beta Let_def sample_import_def present_def)

subsection \<open>Statistics settle\<close>

lemma pickNewer_again [simp]: "pickNewer (pickNewer a b) b = pickNewer a b"
  by (auto simp: pickNewer_def present_def split: option.splits if_splits)

lemma pickEarlier_again [simp]: "pickEarlier (pickEarlier a b) b = pickEarlier a b"
  by (auto simp: pickEarlier_def present_def split: option.splits if_splits)

lemma first_some_again [simp]: "first_some (first_some a b) b = first_some a b"
  by (auto simp: first_some_def split: option.splits)

lemma apply_stat_again: "apply_stat st (apply_stat st e) = apply_stat st e"
  by (simp add: apply_stat_def Let_def)

lemma stat_for_update: "stat_for stats nameByKey (update_stat stats nameByKey e) = stat_for stats nameByKey e"
proof -
  have "lower_name (update_stat stats nameByKey e) = lower_name e"
    by (simp add: update_stat_def split: option.split)
  then show ?thesis unfolding stat_for_def by (simp only:)
qed

lemma stat_dirty_refl [simp]: "\<not> stat_dirty e e"
  by (simp add: stat_dirty_def)

lemma stat_settled:
  "stat_for stats nameByKey e = Some st \<Longrightarrow> \<not> stat_dirty (update_stat stats nameByKey e) (apply_stat st (update_stat stats nameByKey e))"
  by (simp add: update_stat_def apply_stat_again)

text \<open>The server's statistics settle at once: applied a second time they change no entry and report none as
  changed.\<close>

theorem stats_settle:
  assumes "r = fst (applyChannelStats stats nameByKey existing)"
  shows "applyChannelStats stats nameByKey r = (r, 0)"
proof -
  have again: "update_stat stats nameByKey (update_stat stats nameByKey e) = update_stat stats nameByKey e" for e
  proof (cases "stat_for stats nameByKey e")
    case None
    then show ?thesis by (simp add: update_stat_def)
  next
    case (Some st)
    note s = Some [folded stat_for_update [of _ _ e]]
    show ?thesis using stat_settled [OF Some] unfolding update_stat_def [of _ _ "update_stat stats nameByKey e"] s
      by simp
  qed
  have clean: "\<not> (case stat_for stats nameByKey (update_stat stats nameByKey e) of None \<Rightarrow> False
      | Some st \<Rightarrow> stat_dirty (update_stat stats nameByKey e) (apply_stat st (update_stat stats nameByKey e)))" for e
    by (cases "stat_for stats nameByKey e") (simp_all add: stat_for_update stat_settled)
  show ?thesis unfolding assms applyChannelStats_def fst_conv
    by (simp add: again clean filter_False comp_def)
qed

end
