(* ===== verification/Lzw.thy ===== *)
theory Lzw
imports Bytes
begin

text \<open>The LZW compressor of the share-card animations (\<^verbatim>\<open>lzwEncode\<close> of
  \<^verbatim>\<open>frontend/src/share/gifEncoder.ts\<close>): its bit buffer, kept as the 32-bit integer it is, the code table, and the
  code sizes that grow with it. A reader of the format, written from its own rules and not from the
  encoder, says what the bytes mean. Indices are naturals; the round trip needs them below \<open>2 ^ minCodeSize\<close>, as the
  caller has them.\<close>

unbundle bit_operations_syntax

subsection \<open>The bit buffer\<close>

record emitter =
  em_out :: bytes
  em_bitBuf :: "32 word"
  em_bitCount :: nat

text \<open>\<^verbatim>\<open>while (bitCount >= 8)\<close>\<close>

function drain_bits :: "emitter \<Rightarrow> emitter" where
  "drain_bits s =
     (if em_bitCount s \<ge> 8
      then drain_bits
             \<lparr>em_out = em_out s @ [ucast (em_bitBuf s AND 255)], em_bitBuf = drop_bit 8 (em_bitBuf s),
              em_bitCount = em_bitCount s - 8\<rparr>
      else s)"
  by pat_completeness auto
termination by (relation "measure em_bitCount") auto

declare drain_bits.simps [simp del]

definition emit_code :: "nat \<Rightarrow> nat \<Rightarrow> emitter \<Rightarrow> emitter" where
  "emit_code codeSize code s =
     drain_bits
       (s\<lparr>em_bitBuf := em_bitBuf s OR push_bit (em_bitCount s) (word_of_nat code),
          em_bitCount := em_bitCount s + codeSize\<rparr>)"

definition new_emitter :: emitter where
  "new_emitter = \<lparr>em_out = [], em_bitBuf = 0, em_bitCount = 0\<rparr>"

text \<open>\<^verbatim>\<open>if (bitCount > 0) out.push(bitBuf & 0xff)\<close>\<close>

definition flush_bits :: "emitter \<Rightarrow> bytes" where
  "flush_bits s =
     (if em_bitCount s > 0 then em_out s @ [ucast (em_bitBuf s AND 255)] else em_out s)"

subsection \<open>The encoder\<close>

definition MAX_CODES :: nat where "MAX_CODES = 4096"

definition clear_code :: "nat \<Rightarrow> nat" where "clear_code minCodeSize = push_bit minCodeSize 1"
definition end_code :: "nat \<Rightarrow> nat" where "end_code minCodeSize = clear_code minCodeSize + 1"

record lzw_state =
  lz_em :: emitter
  lz_codeSize :: nat
  lz_table :: "nat \<Rightarrow> nat option"
  lz_nextCode :: nat
  lz_prefix :: nat

definition table_key :: "nat \<Rightarrow> nat \<Rightarrow> nat" where
  "table_key prefix k = push_bit 8 prefix OR k"

definition lzw_step :: "nat \<Rightarrow> lzw_state \<Rightarrow> nat \<Rightarrow> lzw_state" where
  "lzw_step minCodeSize s k =
     (let tkey = table_key (lz_prefix s) k in
      case lz_table s tkey of
        Some found \<Rightarrow> s\<lparr>lz_prefix := found\<rparr>
      | None \<Rightarrow>
          let em = emit_code (lz_codeSize s) (lz_prefix s) (lz_em s) in
          if lz_nextCode s = MAX_CODES then
            \<lparr>lz_em = emit_code (lz_codeSize s) (clear_code minCodeSize) em, lz_codeSize = minCodeSize + 1,
             lz_table = (\<lambda>_. None), lz_nextCode = end_code minCodeSize + 1, lz_prefix = k\<rparr>
          else
            \<lparr>lz_em = em,
             lz_codeSize = (if lz_nextCode s \<ge> push_bit (lz_codeSize s) 1 then lz_codeSize s + 1 else lz_codeSize s),
             lz_table = (lz_table s)(tkey \<mapsto> lz_nextCode s), lz_nextCode = lz_nextCode s + 1, lz_prefix = k\<rparr>)"

definition lzw_start :: "nat \<Rightarrow> nat \<Rightarrow> lzw_state" where
  "lzw_start minCodeSize i0 =
     \<lparr>lz_em = emit_code (minCodeSize + 1) (clear_code minCodeSize) new_emitter, lz_codeSize = minCodeSize + 1,
      lz_table = (\<lambda>_. None), lz_nextCode = end_code minCodeSize + 1, lz_prefix = i0\<rparr>"

definition lzw_finish :: "nat \<Rightarrow> lzw_state \<Rightarrow> bytes" where
  "lzw_finish minCodeSize s =
     flush_bits (emit_code (lz_codeSize s) (end_code minCodeSize)
       (emit_code (lz_codeSize s) (lz_prefix s) (lz_em s)))"

definition lzwEncode :: "nat list \<Rightarrow> nat \<Rightarrow> bytes" where
  "lzwEncode indices minCodeSize =
     (case indices of
        [] \<Rightarrow>
          flush_bits (emit_code (minCodeSize + 1) (end_code minCodeSize)
            (emit_code (minCodeSize + 1) (clear_code minCodeSize) new_emitter))
      | i0 # rest \<Rightarrow> lzw_finish minCodeSize (foldl (lzw_step minCodeSize) (lzw_start minCodeSize i0) rest))"

subsection \<open>A reader of the format\<close>

text \<open>The rules of the format: codes are read from the lowest bit up; the clear code empties the table; each code
  after the first adds the previous string and the first index of its own, also when it is that
  very string; the code size grows when the table fills it, up to 12 bits; the end code or the end of the data stops
  the reader.\<close>

record lzw_reader =
  dz_size :: nat
  dz_table :: "nat list list"
  dz_prev :: "nat list option"

definition fresh_reader :: "nat \<Rightarrow> lzw_reader" where
  "fresh_reader m = \<lparr>dz_size = m + 1, dz_table = [], dz_prev = None\<rparr>"

definition string_of :: "nat \<Rightarrow> nat list list \<Rightarrow> nat \<Rightarrow> nat list" where
  "string_of m t c = (if c < 2 ^ m then [c] else t ! (c - (2 ^ m + 2)))"

definition read_string_code :: "nat \<Rightarrow> lzw_reader \<Rightarrow> nat \<Rightarrow> nat list \<times> lzw_reader" where
  "read_string_code m d c =
     (case dz_prev d of
        None \<Rightarrow> (string_of m (dz_table d) c, d\<lparr>dz_prev := Some (string_of m (dz_table d) c)\<rparr>)
      | Some w \<Rightarrow>
          let known = 2 ^ m + 2 + length (dz_table d);
              e = (if c < known then string_of m (dz_table d) c else w @ [hd w]);
              t = (if known < 4096 then dz_table d @ [w @ [hd e]] else dz_table d)
          in (e, \<lparr>dz_size = (if 2 ^ m + 2 + length t = 2 ^ dz_size d \<and> dz_size d < 12 then dz_size d + 1 else dz_size d),
                  dz_table = t, dz_prev = Some e\<rparr>))"

function read_codes :: "nat \<Rightarrow> lzw_reader \<Rightarrow> bool list \<Rightarrow> nat list" where
  "read_codes m d bs =
     (if dz_size d = 0 \<or> length bs < dz_size d then []
      else
        let c = horner_sum of_bool 2 (take (dz_size d) bs); rest = drop (dz_size d) bs in
        if c = 2 ^ m then read_codes m (fresh_reader m) rest
        else if c = 2 ^ m + 1 then []
        else let (e, d') = read_string_code m d c in e @ read_codes m d' rest)"
  by pat_completeness auto
termination by (relation "measure (\<lambda>(m, d, bs). length bs)") auto

declare read_codes.simps [simp del]

definition byte_bits :: "u8 \<Rightarrow> bool list" where
  "byte_bits b = map (bit b) [0..<8]"

definition lzwDecode :: "bytes \<Rightarrow> nat \<Rightarrow> nat list" where
  "lzwDecode bs m = read_codes m (fresh_reader m) (concat (map byte_bits bs))"

subsection \<open>The bits that are written\<close>

definition bits_of :: "nat \<Rightarrow> nat \<Rightarrow> bool list" where
  "bits_of n c = map (bit c) [0..<n]"

definition stream :: "emitter \<Rightarrow> bool list" where
  "stream s = concat (map byte_bits (em_out s)) @ map (bit (em_bitBuf s)) [0..<em_bitCount s]"

definition buffer_ok :: "emitter \<Rightarrow> bool" where
  "buffer_ok s \<longleftrightarrow> (\<forall>i \<ge> em_bitCount s. \<not> bit (em_bitBuf s) i)"

lemma length_bits_of [simp]: "length (bits_of n c) = n"
  by (simp add: bits_of_def)

lemma byte_of_buffer: "byte_bits (ucast (w AND 255 :: 32 word)) = map (bit w) [0..<8]"
proof -
  have "bit (w AND 255) i = bit w i" if "i < 8" for i
  proof -
    have m: "(255 :: 32 word) = mask 8" by (simp add: mask_eq_exp_minus_1)
    show ?thesis unfolding m using that by (simp add: bit_simps)
  qed
  then show ?thesis by (simp add: byte_bits_def bit_simps)
qed

lemma map_upt_split: "n \<le> k \<Longrightarrow> map f [0..<k] = map f [0..<n] @ map (\<lambda>i. f (i + n)) [0..<k - n]"
  by (rule nth_equalityI) (auto simp: nth_append)

lemma drain_bits_ok:
  "buffer_ok s \<Longrightarrow> buffer_ok (drain_bits s) \<and> stream (drain_bits s) = stream s \<and> em_bitCount (drain_bits s) < 8"
proof (induction s rule: drain_bits.induct)
  case (1 s)
  show ?case
  proof (cases "em_bitCount s \<ge> 8")
    case True
    let ?t = "\<lparr>em_out = em_out s @ [ucast (em_bitBuf s AND 255)], em_bitBuf = drop_bit 8 (em_bitBuf s),
      em_bitCount = em_bitCount s - 8\<rparr>"
    have ok: "buffer_ok ?t" using 1(2) True by (auto simp: buffer_ok_def bit_simps)
    have "stream ?t = stream s"
      using map_upt_split [OF True, of "bit (em_bitBuf s)"]
      by (simp add: stream_def byte_of_buffer bit_simps add.commute)
    with 1(1) [OF True ok] True show ?thesis by (subst (1 2 3) drain_bits.simps) simp
  next
    case False
    then show ?thesis using 1(2) by (subst (1 2 3) drain_bits.simps) simp
  qed
qed

lemma bit_below: "c < 2 ^ n \<Longrightarrow> n \<le> i \<Longrightarrow> \<not> bit (c :: nat) i"
  by (metis bit_take_bit_iff not_less take_bit_nat_eq_self_iff)

lemma emit_code_ok:
  assumes "buffer_ok s" "em_bitCount s < 8" "c < 2 ^ n" "n \<le> 12"
  shows "buffer_ok (emit_code n c s) \<and> stream (emit_code n c s) = stream s @ bits_of n c \<and>
    em_bitCount (emit_code n c s) < 8"
proof -
  let ?b = "em_bitBuf s OR push_bit (em_bitCount s) (word_of_nat c)"
  let ?t = "s\<lparr>em_bitBuf := ?b, em_bitCount := em_bitCount s + n\<rparr>"
  have low: "bit ?b i = bit (em_bitBuf s) i" if "i < em_bitCount s" for i
    using that assms(2) by (simp add: bit_simps)
  have high: "bit ?b (i + em_bitCount s) = bit c i" if "i < n" for i
    using that assms by (auto simp: buffer_ok_def bit_simps)
  have "\<not> bit ?b i" if "em_bitCount s + n \<le> i" for i
    using that assms bit_below [OF assms(3), of "i - em_bitCount s"] by (auto simp: buffer_ok_def bit_simps)
  then have ok: "buffer_ok ?t" by (simp add: buffer_ok_def)
  have "map (bit ?b) [0..<em_bitCount s + n] = map (bit (em_bitBuf s)) [0..<em_bitCount s] @ bits_of n c"
    using map_upt_split [of "em_bitCount s" "em_bitCount s + n" "bit ?b"] low high by (simp add: bits_of_def)
  then have "stream ?t = stream s @ bits_of n c" by (simp add: stream_def)
  with drain_bits_ok [OF ok] show ?thesis by (simp add: emit_code_def)
qed

lemma flush_bits_stream:
  assumes "buffer_ok s" "em_bitCount s < 8"
  shows "\<exists>pad. concat (map byte_bits (flush_bits s)) = stream s @ replicate pad False"
proof (cases "em_bitCount s > 0")
  case True
  have "map (bit (em_bitBuf s)) [0..<8] =
      map (bit (em_bitBuf s)) [0..<em_bitCount s] @ replicate (8 - em_bitCount s) False"
    using assms map_upt_split [of "em_bitCount s" 8 "bit (em_bitBuf s)"]
    by (auto simp: buffer_ok_def intro: nth_equalityI)
  with True show ?thesis by (auto simp: flush_bits_def stream_def byte_of_buffer)
next
  case False
  then show ?thesis by (auto simp: flush_bits_def stream_def intro: exI [of _ 0])
qed

subsection \<open>The codes that are read\<close>

lemma code_of_bits: "c < 2 ^ n \<Longrightarrow> horner_sum of_bool 2 (bits_of n c) = (c :: nat)"
  by (simp add: bits_of_def horner_sum_bit_eq_take_bit take_bit_nat_eq_self)

lemma read_code:
  assumes "c < 2 ^ dz_size d" "dz_size d > 0"
  shows "read_codes m d (bits_of (dz_size d) c @ rest) =
    (if c = 2 ^ m then read_codes m (fresh_reader m) rest
     else if c = 2 ^ m + 1 then []
     else fst (read_string_code m d c) @ read_codes m (snd (read_string_code m d c)) rest)"
  using assms by (subst read_codes.simps) (simp add: code_of_bits Let_def split_beta)

text \<open>The last code may be read a bit wider than it was written: the added bit is padding.\<close>

lemma read_end:
  assumes "2 ^ m + 1 < (2 :: nat) ^ n" "n > 0" "dz_size d = n \<or> dz_size d = n + 1"
  shows "read_codes m d (bits_of n (2 ^ m + 1) @ replicate pad False) = []"
proof (cases "dz_size d = n")
  case True
  then show ?thesis using read_code [of "2 ^ m + 1" d m] assms by simp
next
  case False
  then have n: "dz_size d = n + 1" using assms(3) by simp
  show ?thesis
  proof (cases "pad = 0")
    case True
    then show ?thesis using n by (subst read_codes.simps) simp
  next
    case False
    then have "take (n + 1) (bits_of n (2 ^ m + 1) @ replicate pad False) = bits_of n (2 ^ m + 1) @ [False]"
      by (cases pad) simp_all
    moreover have "horner_sum of_bool 2 (bits_of n (2 ^ m + 1) @ [False]) = (2 ^ m + 1 :: nat)"
      using assms(1) by (simp add: horner_sum_append code_of_bits)
    ultimately show ?thesis using n by (subst read_codes.simps) (simp add: Let_def)
  qed
qed

subsection \<open>The reader follows the encoder\<close>

text \<open>What a key of the table stands for.\<close>

lemma table_key_parts:
  assumes "k < 256"
  shows "drop_bit 8 (table_key p k) = p" "take_bit 8 (table_key p k) = k"
proof -
  have "\<not> bit k i" if "8 \<le> i" for i using bit_below [of k 8 i] assms that by simp
  then show "drop_bit 8 (table_key p k) = p" by (auto simp: table_key_def bit_eq_iff bit_simps)
  have "take_bit 8 k = k" using assms by (simp add: take_bit_nat_eq_self_iff)
  moreover have "take_bit 8 (push_bit 8 p) = (0 :: nat)" by (simp add: take_bit_push_bit)
  ultimately show "take_bit 8 (table_key p k) = k" by (simp add: table_key_def)
qed

text \<open>The codes in use, and the table: each entry extends the string of its prefix by one index.\<close>

definition code_in :: "nat \<Rightarrow> nat list list \<Rightarrow> nat \<Rightarrow> bool" where
  "code_in m es c \<longleftrightarrow> c < 2 ^ m \<or> (2 ^ m + 2 \<le> c \<and> c < 2 ^ m + 2 + length es)"

definition table_ok :: "nat \<Rightarrow> nat list list \<Rightarrow> (nat \<Rightarrow> nat option) \<Rightarrow> bool" where
  "table_ok m es t \<longleftrightarrow>
     (\<forall>x c. t x = Some c \<longrightarrow> code_in m es c \<and> code_in m es (drop_bit 8 x) \<and>
        string_of m es c = string_of m es (drop_bit 8 x) @ [take_bit 8 x])"

lemma code_in_append: "code_in m es c \<Longrightarrow> code_in m (es @ [e]) c \<and> string_of m (es @ [e]) c = string_of m es c"
  by (auto simp: code_in_def string_of_def nth_append)

lemma string_nonempty: "code_in m es c \<Longrightarrow> \<forall>e \<in> set es. e \<noteq> [] \<Longrightarrow> string_of m es c \<noteq> []"
  by (auto simp: code_in_def string_of_def)

text \<open>The reader is one string behind: it adds a string when it has read the index that ends it.\<close>

definition reader_behind :: "nat \<Rightarrow> lzw_state \<Rightarrow> nat list list \<Rightarrow> lzw_reader \<Rightarrow> bool" where
  "reader_behind m s es d \<longleftrightarrow>
     dz_size d = lz_codeSize s \<and>
     (case dz_prev d of
        None \<Rightarrow> es = [] \<and> dz_table d = [] \<and> lz_codeSize s = m + 1
      | Some w \<Rightarrow> w \<noteq> [] \<and> es = dz_table d @ [w @ [hd (string_of m es (lz_prefix s))]] \<and>
          lz_nextCode s \<le> 2 ^ lz_codeSize s \<and> m + 1 \<le> lz_codeSize s \<and> lz_codeSize s \<le> 12)"

definition encoder_ok :: "nat \<Rightarrow> lzw_state \<Rightarrow> nat list list \<Rightarrow> bool" where
  "encoder_ok m s es \<longleftrightarrow>
     buffer_ok (lz_em s) \<and> em_bitCount (lz_em s) < 8 \<and>
     lz_nextCode s = 2 ^ m + 2 + length es \<and> lz_nextCode s \<le> 4096 \<and>
     code_in m es (lz_prefix s) \<and> table_ok m es (lz_table s) \<and> (\<forall>e \<in> set es. e \<noteq> [])"

definition in_step :: "nat \<Rightarrow> nat list \<Rightarrow> lzw_state \<Rightarrow> nat list list \<Rightarrow> lzw_reader \<Rightarrow> bool" where
  "in_step m ys s es d \<longleftrightarrow>
     encoder_ok m s es \<and> reader_behind m s es d \<and>
     (\<exists>done'. ys = done' @ string_of m es (lz_prefix s) \<and>
        (\<forall>rest. read_codes m (fresh_reader m) (stream (lz_em s) @ rest) = done' @ read_codes m d rest))"

text \<open>A size that suits the code format.\<close>

definition size_ok :: "nat \<Rightarrow> bool" where
  "size_ok m \<longleftrightarrow> 2 \<le> m \<and> m \<le> 8"

lemma size_bounds: "size_ok m \<Longrightarrow> (2 :: nat) ^ m + 2 < 2 ^ (m + 1) \<and> (2 :: nat) ^ m \<le> 256"
proof -
  assume "size_ok m"
  then have m: "2 \<le> m" "m \<le> 8" by (simp_all add: size_ok_def)
  have "(2 :: nat) ^ 2 \<le> 2 ^ m" "(2 :: nat) ^ m \<le> 2 ^ 8"
    by (rule power_increasing, rule m, simp)+
  then show ?thesis by simp
qed

text \<open>Reading the code of the prefix: the reader gets its string and catches up with the table.\<close>

lemma read_prefix:
  assumes "size_ok m" "encoder_ok m s es" "reader_behind m s es d"
  shows "lz_prefix s < 2 ^ dz_size d \<and> 0 < dz_size d \<and> dz_size d \<le> 12 \<and>
    fst (read_string_code m d (lz_prefix s)) = string_of m es (lz_prefix s) \<and>
    dz_prev (snd (read_string_code m d (lz_prefix s))) = Some (string_of m es (lz_prefix s)) \<and>
    dz_table (snd (read_string_code m d (lz_prefix s))) = es \<and>
    dz_size (snd (read_string_code m d (lz_prefix s))) =
      (if dz_prev d \<noteq> None \<and> lz_nextCode s = 2 ^ lz_codeSize s \<and> lz_codeSize s < 12
       then lz_codeSize s + 1 else lz_codeSize s)"
proof (cases "dz_prev d")
  case None
  then have b: "es = []" "dz_table d = []" "dz_size d = m + 1" "lz_codeSize s = m + 1"
    using assms(3) by (auto simp: reader_behind_def)
  have "lz_prefix s < 2 ^ m" using assms(2) b by (auto simp: encoder_ok_def code_in_def)
  then show ?thesis using assms(1) None b size_bounds [OF assms(1)]
    by (simp add: read_string_code_def size_ok_def)
next
  case (Some w)
  let ?p = "lz_prefix s"
  let ?e = "string_of m es ?p"
  have b: "w \<noteq> []" "es = dz_table d @ [w @ [hd ?e]]" "lz_nextCode s \<le> 2 ^ lz_codeSize s"
      "m + 1 \<le> lz_codeSize s" "lz_codeSize s \<le> 12" "dz_size d = lz_codeSize s"
    using assms(3) Some by (auto simp: reader_behind_def)
  have n: "lz_nextCode s = 2 ^ m + 2 + length es" "lz_nextCode s \<le> 4096" "code_in m es ?p"
    using assms(2) by (auto simp: encoder_ok_def)
  have len: "length es = Suc (length (dz_table d))" using arg_cong [OF b(2), of length] by simp
  have string: "(if ?p < 2 ^ m + 2 + length (dz_table d) then string_of m (dz_table d) ?p else w @ [hd w]) = ?e"
  proof (cases "?p < 2 ^ m + 2 + length (dz_table d)")
    case True
    then have "code_in m (dz_table d) ?p" using n(3) by (auto simp: code_in_def)
    from code_in_append [OF this, of "w @ [hd ?e]"] True show ?thesis by (simp add: b(2) [symmetric])
  next
    case False
    then have p: "?p = 2 ^ m + 2 + length (dz_table d)" using n(3) len by (auto simp: code_in_def)
    have "?e = es ! length (dz_table d)" using p by (simp add: string_of_def)
    also have "\<dots> = w @ [hd ?e]" by (subst b(2)) simp
    finally have e: "?e = w @ [hd ?e]" .
    then have "hd ?e = hd w" using b(1) by (metis hd_append2)
    with e False show ?thesis by simp
  qed
  have "?p < lz_nextCode s"
    using n(1,3) by (auto simp: code_in_def)
  then have "?p < 2 ^ dz_size d" using b(3,6) by simp
  moreover have k: "(2 ^ m + 2 + length (dz_table d) < 4096) = True" using n len by simp
  have "read_string_code m d ?p = (?e, \<lparr>dz_size = (if lz_nextCode s = 2 ^ lz_codeSize s \<and> lz_codeSize s < 12
      then lz_codeSize s + 1 else lz_codeSize s), dz_table = es, dz_prev = Some ?e\<rparr>)"
    unfolding read_string_code_def Some option.case Let_def string k if_True b(2) [symmetric] b(6) n(1) by (rule refl)
  ultimately show ?thesis using b(4-6) Some by simp
qed

text \<open>Emitting the prefix while the table still grows.\<close>

lemma emit_prefix:
  assumes "size_ok m" "in_step m ys s es d" "c = lz_prefix s"
  defines "d' \<equiv> snd (read_string_code m d c)"
    and "em \<equiv> emit_code (lz_codeSize s) c (lz_em s)"
  shows "buffer_ok em \<and> em_bitCount em < 8 \<and>
    (\<forall>rest. read_codes m (fresh_reader m) (stream em @ rest) = ys @ read_codes m d' rest)"
proof -
  have e: "encoder_ok m s es" and b: "reader_behind m s es d" using assms(2) by (auto simp: in_step_def)
  obtain done' where run: "ys = done' @ string_of m es c"
      "\<And>rest. read_codes m (fresh_reader m) (stream (lz_em s) @ rest) = done' @ read_codes m d rest"
    using assms(2,3) by (auto simp: in_step_def)
  note p = read_prefix [OF assms(1) e b, folded assms(3)]
  have sz: "lz_codeSize s = dz_size d" using b by (simp add: reader_behind_def)
  have em: "buffer_ok em \<and> stream em = stream (lz_em s) @ bits_of (dz_size d) c \<and> em_bitCount em < 8"
    unfolding em_def sz by (rule emit_code_ok) (use e p in \<open>auto simp: encoder_ok_def\<close>)
  have "c \<noteq> 2 ^ m" "c \<noteq> 2 ^ m + 1" using e assms(3) by (auto simp: encoder_ok_def code_in_def)
  then have "read_codes m d (bits_of (dz_size d) c @ rest) = string_of m es c @ read_codes m d' rest" for rest
    using p by (subst read_code) (simp_all add: d'_def)
  then show ?thesis using em by (simp add: run)
qed

lemma clear_starts:
  assumes "size_ok m"
  defines "em \<equiv> emit_code (m + 1) (clear_code m) new_emitter"
  shows "buffer_ok em \<and> em_bitCount em < 8 \<and>
    (\<forall>rest. read_codes m (fresh_reader m) (stream em @ rest) = read_codes m (fresh_reader m) rest)"
proof -
  have c: "clear_code m = 2 ^ m" by (simp add: clear_code_def)
  have em: "buffer_ok em \<and> stream em = stream new_emitter @ bits_of (m + 1) (clear_code m) \<and> em_bitCount em < 8"
    unfolding em_def by (rule emit_code_ok) (use assms in \<open>auto simp: buffer_ok_def new_emitter_def c size_ok_def\<close>)
  have "stream em = bits_of (m + 1) (2 ^ m)" using em by (simp add: c stream_def new_emitter_def)
  moreover have "read_codes m (fresh_reader m) (bits_of (m + 1) (2 ^ m) @ rest) = read_codes m (fresh_reader m) rest" for rest
    using read_code [of "2 ^ m" "fresh_reader m" m rest] by (simp add: fresh_reader_def)
  ultimately show ?thesis using em by simp
qed

lemma in_step_start:
  assumes "size_ok m" "i0 < 2 ^ m"
  shows "in_step m [i0] (lzw_start m i0) [] (fresh_reader m)"
  using assms(2) clear_starts [OF assms(1)] size_bounds [OF assms(1)]
  by (simp add: in_step_def lzw_start_def encoder_ok_def reader_behind_def fresh_reader_def end_code_def clear_code_def
      code_in_def table_ok_def string_of_def)

lemma in_step_found:
  assumes "in_step m ys s es d" "lz_table s (table_key (lz_prefix s) k) = Some found" "k < 256"
  shows "in_step m (ys @ [k]) (s\<lparr>lz_prefix := found\<rparr>) es d"
proof -
  have e: "encoder_ok m s es" using assms(1) by (simp add: in_step_def)
  have f: "code_in m es found" "string_of m es found = string_of m es (lz_prefix s) @ [k]"
    using e assms(2,3) table_key_parts [OF assms(3), of "lz_prefix s"] by (auto simp: encoder_ok_def table_ok_def)
  have "string_of m es (lz_prefix s) \<noteq> []" using e by (intro string_nonempty) (auto simp: encoder_ok_def)
  then have "hd (string_of m es found) = hd (string_of m es (lz_prefix s))" by (simp add: f(2))
  then show ?thesis using assms(1) f
    by (auto simp: in_step_def encoder_ok_def reader_behind_def split: option.splits)
qed

lemma table_ok_add:
  assumes "table_ok m es t" "k < 256" "code_in m es p"
  shows "table_ok m (es @ [string_of m es p @ [k]]) (t(table_key p k \<mapsto> 2 ^ m + 2 + length es))"
  unfolding table_ok_def
proof (intro allI impI)
  fix x c
  let ?es = "es @ [string_of m es p @ [k]]"
  assume x: "(t(table_key p k \<mapsto> 2 ^ m + 2 + length es)) x = Some c"
  have key: "drop_bit 8 (table_key p k) = p" "take_bit 8 (table_key p k) = k" by (rule table_key_parts [OF assms(2)])+
  show "code_in m ?es c \<and> code_in m ?es (drop_bit 8 x) \<and>
      string_of m ?es c = string_of m ?es (drop_bit 8 x) @ [take_bit 8 x]"
  proof (cases "x = table_key p k")
    case True
    then have "c = 2 ^ m + 2 + length es" using x by simp
    then show ?thesis using True key code_in_append [OF assms(3)]
      by (auto simp: code_in_def string_of_def nth_append)
  next
    case False
    then have "t x = Some c" using x by simp
    then have c: "code_in m es c" "code_in m es (drop_bit 8 x)"
        "string_of m es c = string_of m es (drop_bit 8 x) @ [take_bit 8 x]"
      using assms(1) by (auto simp: table_ok_def)
    with code_in_append [OF c(1)] code_in_append [OF c(2)] show ?thesis by simp
  qed
qed

lemma below_12: "(2 :: nat) ^ n < 4096 \<Longrightarrow> n < 12"
  using power_less_imp_less_exp [of "2 :: nat" n 12] by simp

lemma in_step_added:
  assumes "size_ok m" "in_step m ys s es d" "lz_table s (table_key (lz_prefix s) k) = None"
    and "k < 2 ^ m" "lz_nextCode s \<noteq> MAX_CODES"
  defines "w \<equiv> string_of m es (lz_prefix s)"
  shows "in_step m (ys @ [k]) (lzw_step m s k) (es @ [w @ [k]]) (snd (read_string_code m d (lz_prefix s)))"
proof -
  let ?d = "snd (read_string_code m d (lz_prefix s))"
  let ?es = "es @ [w @ [k]]"
  have k: "k < 256" using assms(4) size_bounds [OF assms(1)] by simp
  have e: "encoder_ok m s es" and b: "reader_behind m s es d" using assms(2) by (auto simp: in_step_def)
  note p = read_prefix [OF assms(1) e b, folded w_def]
  note em = emit_prefix [OF assms(1,2) refl]
  have n: "lz_nextCode s = 2 ^ m + 2 + length es" "lz_nextCode s < 4096" "code_in m es (lz_prefix s)"
    using e assms(5) by (auto simp: encoder_ok_def MAX_CODES_def)
  have w: "w \<noteq> []" unfolding w_def using e by (intro string_nonempty) (auto simp: encoder_ok_def)
  have step: "lzw_step m s k =
      \<lparr>lz_em = emit_code (lz_codeSize s) (lz_prefix s) (lz_em s),
       lz_codeSize = (if lz_nextCode s \<ge> 2 ^ lz_codeSize s then lz_codeSize s + 1 else lz_codeSize s),
       lz_table = (lz_table s)(table_key (lz_prefix s) k \<mapsto> lz_nextCode s), lz_nextCode = lz_nextCode s + 1,
       lz_prefix = k\<rparr>"
    using assms(3,5) by (simp add: lzw_step_def Let_def)
  have hk: "string_of m ?es k = [k]" using assms(4) by (simp add: string_of_def)
  have size: "lz_nextCode s \<le> 2 ^ lz_codeSize s \<and> m + 1 \<le> lz_codeSize s \<and> lz_codeSize s \<le> 12 \<and>
      (dz_prev d = None \<longrightarrow> lz_nextCode s < 2 ^ lz_codeSize s)"
    using b size_bounds [OF assms(1)] assms(1) n(1)
    by (auto simp: reader_behind_def size_ok_def split: option.splits)
  have grow: "lz_codeSize s < 12" if "lz_nextCode s = 2 ^ lz_codeSize s"
    using that n(2) by (intro below_12) simp
  have dsize: "dz_size ?d = (if lz_nextCode s \<ge> 2 ^ lz_codeSize s then lz_codeSize s + 1 else lz_codeSize s)"
    using p size grow by auto
  have enc: "encoder_ok m (lzw_step m s k) ?es"
    using e em n w assms(4) table_ok_add [OF _ k n(3), of "lz_table s"]
    by (auto simp: encoder_ok_def step w_def code_in_def)
  have behind: "reader_behind m (lzw_step m s k) ?es ?d"
    using p w size grow dsize by (auto simp: reader_behind_def step hk)
  show ?thesis unfolding in_step_def
    using enc behind em by (auto simp: step hk)
qed

lemma in_step_full:
  assumes "size_ok m" "in_step m ys s es d" "lz_table s (table_key (lz_prefix s) k) = None"
    and "k < 2 ^ m" "lz_nextCode s = MAX_CODES"
  shows "in_step m (ys @ [k]) (lzw_step m s k) [] (fresh_reader m)"
proof -
  let ?d = "snd (read_string_code m d (lz_prefix s))"
  let ?em = "emit_code (lz_codeSize s) (lz_prefix s) (lz_em s)"
  let ?em2 = "emit_code (lz_codeSize s) (clear_code m) ?em"
  have e: "encoder_ok m s es" and b: "reader_behind m s es d" using assms(2) by (auto simp: in_step_def)
  note p = read_prefix [OF assms(1) e b]
  note em = emit_prefix [OF assms(1,2) refl]
  have c: "clear_code m = 2 ^ m" by (simp add: clear_code_def)
  have full: "length es = 4094 - 2 ^ m" "lz_nextCode s = 4096" using e assms(5) by (auto simp: encoder_ok_def MAX_CODES_def)
  then have "es \<noteq> []" using size_bounds [OF assms(1)] by auto
  then have "4096 \<le> (2 :: nat) ^ lz_codeSize s" "lz_codeSize s \<le> 12"
    using b full(2) by (auto simp: reader_behind_def split: option.splits)
  then have "lz_codeSize s = 12" using below_12 [of "lz_codeSize s"] power_strict_increasing [of "lz_codeSize s" 12 "2 :: nat"] by force
  then have sz: "dz_size ?d = 12 \<and> lz_codeSize s = 12" using p by simp
  have m: "2 ^ m < (2 :: nat) ^ 12" using size_bounds [OF assms(1)] by simp
  have em2: "buffer_ok ?em2 \<and> stream ?em2 = stream ?em @ bits_of (lz_codeSize s) (clear_code m) \<and> em_bitCount ?em2 < 8"
    by (rule emit_code_ok) (use em m sz in \<open>auto simp: c\<close>)
  have "read_codes m ?d (bits_of 12 (2 ^ m) @ rest) = read_codes m (fresh_reader m) rest" for rest
    using read_code [of "2 ^ m" ?d m rest] m sz by simp
  then have run: "read_codes m (fresh_reader m) (stream ?em2 @ rest) = ys @ read_codes m (fresh_reader m) rest" for rest
    using em em2 sz by (simp add: c)
  have "lzw_step m s k = \<lparr>lz_em = ?em2, lz_codeSize = m + 1, lz_table = (\<lambda>_. None), lz_nextCode = end_code m + 1, lz_prefix = k\<rparr>"
    using assms(3,5) by (simp add: lzw_step_def Let_def)
  then show ?thesis using run em2 assms(4) size_bounds [OF assms(1)]
    by (simp add: in_step_def encoder_ok_def reader_behind_def fresh_reader_def end_code_def c code_in_def table_ok_def
        string_of_def)
qed

lemma in_step_next:
  assumes "size_ok m" "in_step m ys s es d" "k < 2 ^ m"
  shows "\<exists>es' d'. in_step m (ys @ [k]) (lzw_step m s k) es' d'"
proof (cases "lz_table s (table_key (lz_prefix s) k)")
  case None
  show ?thesis
    using in_step_full [OF assms(1,2) None assms(3)] in_step_added [OF assms(1,2) None assms(3)] by blast
next
  case (Some found)
  have "k < 256" using assms(3) size_bounds [OF assms(1)] by simp
  from in_step_found [OF assms(2) Some this] show ?thesis by (auto simp: lzw_step_def Some Let_def)
qed

lemma in_step_run:
  assumes "size_ok m" "i0 < 2 ^ m" "\<forall>k \<in> set ks. k < 2 ^ m"
  shows "\<exists>es d. in_step m (i0 # ks) (foldl (lzw_step m) (lzw_start m i0) ks) es d"
  using assms(3)
proof (induction ks rule: rev_induct)
  case Nil
  show ?case using in_step_start [OF assms(1,2)] by auto
next
  case (snoc k ks)
  then obtain es d where "in_step m (i0 # ks) (foldl (lzw_step m) (lzw_start m i0) ks) es d" by auto
  from in_step_next [OF assms(1) this] snoc.prems show ?case by auto
qed

lemma finish_reads:
  assumes "size_ok m" "in_step m ys s es d"
  shows "lzwDecode (lzw_finish m s) m = ys"
proof -
  let ?d = "snd (read_string_code m d (lz_prefix s))"
  let ?em = "emit_code (lz_codeSize s) (lz_prefix s) (lz_em s)"
  let ?em2 = "emit_code (lz_codeSize s) (end_code m) ?em"
  have e: "encoder_ok m s es" and b: "reader_behind m s es d" using assms(2) by (auto simp: in_step_def)
  note p = read_prefix [OF assms(1) e b]
  note em = emit_prefix [OF assms refl]
  have c: "end_code m = 2 ^ m + 1" by (simp add: end_code_def clear_code_def)
  have sz: "m + 1 \<le> lz_codeSize s" "lz_codeSize s \<le> 12" "dz_size ?d = lz_codeSize s \<or> dz_size ?d = lz_codeSize s + 1"
    using b p assms(1) by (auto simp: reader_behind_def size_ok_def split: option.splits)
  have "(2 :: nat) ^ (m + 1) \<le> 2 ^ lz_codeSize s" using sz(1) by (rule power_increasing) simp
  then have m: "2 ^ m + 1 < (2 :: nat) ^ lz_codeSize s" using size_bounds [OF assms(1)] by simp
  have em2: "buffer_ok ?em2 \<and> stream ?em2 = stream ?em @ bits_of (lz_codeSize s) (end_code m) \<and> em_bitCount ?em2 < 8"
    by (rule emit_code_ok) (use em m sz in \<open>auto simp: c\<close>)
  obtain pad where "concat (map byte_bits (flush_bits ?em2)) = stream ?em2 @ replicate pad False"
    using flush_bits_stream [of ?em2] em2 by blast
  moreover have "read_codes m ?d (bits_of (lz_codeSize s) (2 ^ m + 1) @ replicate pad False) = []"
    using m sz by (intro read_end) auto
  ultimately show ?thesis using em em2 by (simp add: lzwDecode_def lzw_finish_def c)
qed

text \<open>C24: The compressed indices read back: a reader of the format gets exactly the indices that were encoded, through
  every change of the code size, the emptying of a full table, and the padding at the end.\<close>

theorem lzw_round_trip:
  assumes "2 \<le> m" "m \<le> 8" "\<forall>k \<in> set indices. k < 2 ^ m"
  shows "lzwDecode (lzwEncode indices m) m = indices"
proof -
  have s: "size_ok m" using assms by (simp add: size_ok_def)
  show ?thesis
  proof (cases indices)
    case Nil
    let ?em = "emit_code (m + 1) (clear_code m) new_emitter"
    let ?em2 = "emit_code (m + 1) (end_code m) ?em"
    have c: "end_code m = 2 ^ m + 1" by (simp add: clear_code_def end_code_def)
    have m: "2 ^ m + 1 < (2 :: nat) ^ (m + 1)" using size_bounds [OF s] by simp
    note em = clear_starts [OF s]
    have em2: "buffer_ok ?em2 \<and> stream ?em2 = stream ?em @ bits_of (m + 1) (end_code m) \<and> em_bitCount ?em2 < 8"
      by (rule emit_code_ok) (use em m assms in \<open>auto simp: c\<close>)
    obtain pad where pad: "concat (map byte_bits (flush_bits ?em2)) = stream ?em2 @ replicate pad False"
      using flush_bits_stream [of ?em2] em2 by blast
    have "read_codes m (fresh_reader m) (bits_of (m + 1) (2 ^ m + 1) @ replicate pad False) = []"
      using m by (intro read_end) (auto simp: fresh_reader_def)
    then have "read_codes m (fresh_reader m) (stream ?em2 @ replicate pad False) = []" using em em2 by (simp add: c)
    then have "lzwDecode (flush_bits ?em2) m = []" by (simp only: lzwDecode_def pad)
    then show ?thesis by (simp add: Nil lzwEncode_def)
  next
    case (Cons i0 ks)
    obtain es d where "in_step m (i0 # ks) (foldl (lzw_step m) (lzw_start m i0) ks) es d"
      using in_step_run [OF s, of i0 ks] assms(3) Cons by auto
    from finish_reads [OF s this] show ?thesis by (simp add: Cons lzwEncode_def)
  qed
qed

lemma lzw_round_trip_witness: "lzwDecode (lzwEncode [1, 1, 1, 1, 2, 1, 1, 1, 1, 2, 0] 2) 2 = [1, 1, 1, 1, 2, 1, 1, 1, 1, 2, 0]"
  by (rule lzw_round_trip) simp_all

end
