(* ===== verification/Gif.thy ===== *)
theory Gif
imports Lzw WdTypes
begin

text \<open>The GIF encoder of the share-card animations (\<^verbatim>\<open>frontend/src/share/gifEncoder.ts\<close>): the palette of the most used
  colours, the byte sink, and the writer, which marks a pixel that did not change as transparent. The compressor is
  Lzw's. A picture is a list of bytes, four to a pixel; a list of another length than the canvas has (which would
  read undefined entries) is excluded where it matters. Sums and averages of colours are exact.\<close>

unbundle bit_operations_syntax

subsection \<open>Colours and the palette\<close>

definition TRANSPARENT_INDEX :: nat where "TRANSPARENT_INDEX = 255"

type_synonym rgb = "u8 \<times> u8 \<times> u8"

definition key15 :: "rgb \<Rightarrow> nat" where
  "key15 c = (let (r, g, b) = c in
     push_bit 10 (drop_bit 3 (unat r)) OR push_bit 5 (drop_bit 3 (unat g)) OR drop_bit 3 (unat b))"

definition pixel :: "bytes \<Rightarrow> nat \<Rightarrow> rgb" where
  "pixel rgba i = (rgba ! (4 * i), rgba ! (4 * i + 1), rgba ! (4 * i + 2))"

definition pixels :: "bytes \<Rightarrow> rgb list" where
  "pixels rgba = map (pixel rgba) [0..<length rgba div 4]"

record color_bucket =
  bk_count :: nat
  bk_r :: nat
  bk_g :: nat
  bk_b :: nat

definition count_pixel :: "(nat \<Rightarrow> color_bucket) \<Rightarrow> rgb \<Rightarrow> nat \<Rightarrow> color_bucket" where
  "count_pixel bs c =
     (let (r, g, b) = c; k = key15 c; old = bs k in
      bs(k := \<lparr>bk_count = bk_count old + 1, bk_r = bk_r old + unat r, bk_g = bk_g old + unat g,
                bk_b = bk_b old + unat b\<rparr>))"

definition empty_buckets :: "nat \<Rightarrow> color_bucket" where
  "empty_buckets k = \<lparr>bk_count = 0, bk_r = 0, bk_g = 0, bk_b = 0\<rparr>"

definition average :: "nat \<Rightarrow> nat \<Rightarrow> u8" where
  "average s n = word_of_int (js_round (real s / real n))"

definition bucket_color :: "color_bucket \<Rightarrow> rgb" where
  "bucket_color bk = (average (bk_r bk) (bk_count bk), average (bk_g bk) (bk_count bk), average (bk_b bk) (bk_count bk))"

definition used_buckets :: "(nat \<Rightarrow> color_bucket) \<Rightarrow> nat list" where
  "used_buckets bs = sort_key (\<lambda>k. - int (bk_count (bs k))) (filter (\<lambda>k. bk_count (bs k) > 0) [0..<32768])"

definition palette_buckets :: "(nat \<Rightarrow> color_bucket) \<Rightarrow> nat \<Rightarrow> nat list" where
  "palette_buckets bs maxColors = take (min maxColors TRANSPARENT_INDEX) (used_buckets bs)"

definition rgb_bytes :: "rgb \<Rightarrow> bytes" where
  "rgb_bytes c = (let (r, g, b) = c in [r, g, b])"

definition buildPalette :: "bytes list \<Rightarrow> nat \<Rightarrow> bytes" where
  "buildPalette samples maxColors =
     (let bs = foldl count_pixel empty_buckets (concat (map pixels samples))
      in concat (map (\<lambda>k. rgb_bytes (bucket_color (bs k))) (palette_buckets bs maxColors)))"

subsection \<open>The byte sink\<close>

record byte_sink =
  sk_chunks :: "bytes list"
  sk_cur :: bytes

definition sink_flush :: "byte_sink \<Rightarrow> byte_sink" where
  "sink_flush s = (if sk_cur s \<noteq> [] then \<lparr>sk_chunks = sk_chunks s @ [sk_cur s], sk_cur = []\<rparr> else s)"

definition sink_byte :: "nat \<Rightarrow> byte_sink \<Rightarrow> byte_sink" where
  "sink_byte b s =
     (let s' = s\<lparr>sk_cur := sk_cur s @ [word_of_nat b]\<rparr>
      in if length (sk_cur s') \<ge> 65536 then sink_flush s' else s')"

definition sink_word :: "nat \<Rightarrow> byte_sink \<Rightarrow> byte_sink" where
  "sink_word w s = sink_byte (drop_bit 8 w) (sink_byte w s)"

definition sink_bytes :: "bytes \<Rightarrow> byte_sink \<Rightarrow> byte_sink" where
  "sink_bytes arr s = (let s' = sink_flush s in s'\<lparr>sk_chunks := sk_chunks s' @ [arr]\<rparr>)"

definition sink_ascii :: "jstr \<Rightarrow> byte_sink \<Rightarrow> byte_sink" where
  "sink_ascii t s = foldl (\<lambda>s c. sink_byte c s) s t"

definition sink_result :: "byte_sink \<Rightarrow> bytes" where
  "sink_result s = concat (sk_chunks (sink_flush s))"

subsection \<open>The writer\<close>

record gif_writer =
  gw_width :: nat
  gw_height :: nat
  gw_palette :: bytes
  gw_colors :: nat
  gw_sink :: byte_sink
  gw_prev :: "bytes option"
  gw_cache :: "nat \<Rightarrow> nat option"

definition gif_preamble :: "nat \<Rightarrow> nat \<Rightarrow> bytes \<Rightarrow> nat \<Rightarrow> byte_sink \<Rightarrow> byte_sink" where
  "gif_preamble width height palette colors s =
     (let s1 = sink_word height (sink_word width (sink_ascii (str ''GIF89a'') s));
          s2 = sink_byte 0 (sink_byte 0 (sink_byte 0xf7 s1));
          table = take (colors * 3) palette;
          s3 = sink_bytes (table @ replicate (256 * 3 - length table) 0) s2;
          s4 = sink_ascii (str ''NETSCAPE2.0'') (sink_byte 11 (sink_byte 0xff (sink_byte 0x21 s3)))
      in sink_byte 0 (sink_word 0 (sink_byte 1 (sink_byte 3 s4))))"

definition newGifWriter :: "nat \<Rightarrow> nat \<Rightarrow> bytes \<Rightarrow> gif_writer" where
  "newGifWriter width height palette =
     (let colors = min TRANSPARENT_INDEX (length palette div 3) in
      \<lparr>gw_width = width, gw_height = height, gw_palette = palette, gw_colors = colors,
       gw_sink = gif_preamble width height palette colors \<lparr>sk_chunks = [], sk_cur = []\<rparr>,
       gw_prev = None, gw_cache = (\<lambda>_. None)\<rparr>)"

definition color_distance :: "bytes \<Rightarrow> rgb \<Rightarrow> nat \<Rightarrow> int" where
  "color_distance pal c i =
     (let (r, g, b) = c;
          dr = int (unat (pal ! (i * 3))) - int (unat r);
          dg = int (unat (pal ! (i * 3 + 1))) - int (unat g);
          db = int (unat (pal ! (i * 3 + 2))) - int (unat b)
      in dr * dr + dg * dg + db * db)"

text \<open>The best entry so far and its distance, infinite at first.\<close>

definition nearer :: "bytes \<Rightarrow> rgb \<Rightarrow> nat \<times> int option \<Rightarrow> nat \<Rightarrow> nat \<times> int option" where
  "nearer pal c best i =
     (let d = color_distance pal c i in
      case snd best of
        None \<Rightarrow> (i, Some d)
      | Some bestD \<Rightarrow> if d < bestD then (i, Some d) else best)"

definition nearest :: "rgb \<Rightarrow> gif_writer \<Rightarrow> nat \<times> gif_writer" where
  "nearest c gw =
     (case gw_cache gw (key15 c) of
        Some cached \<Rightarrow> (cached, gw)
      | None \<Rightarrow>
          let best = fst (foldl (nearer (gw_palette gw) c) (0, None) [0..<gw_colors gw])
          in (best, gw\<lparr>gw_cache := (gw_cache gw)(key15 c \<mapsto> best)\<rparr>))"

definition frame_pixel :: "bytes \<Rightarrow> nat list \<times> gif_writer \<Rightarrow> nat \<Rightarrow> nat list \<times> gif_writer" where
  "frame_pixel rgba s i =
     (let (idx, gw) = s in
      if (case gw_prev gw of Some prev \<Rightarrow> pixel prev i = pixel rgba i | None \<Rightarrow> False)
      then (idx @ [TRANSPARENT_INDEX], gw)
      else let (c, gw') = nearest (pixel rgba i) gw in (idx @ [c], gw'))"

text \<open>\<^verbatim>\<open>for (let p = 0; p < data.length; p += 255)\<close>\<close>

function sub_blocks :: "bytes \<Rightarrow> bytes" where
  "sub_blocks data =
     (if data = [] then []
      else word_of_nat (min 255 (length data)) # take 255 data @ sub_blocks (drop 255 data))"
  by pat_completeness auto
termination by (relation "measure length") auto

declare sub_blocks.simps [simp del]

definition write_frame :: "nat \<Rightarrow> nat \<Rightarrow> real \<Rightarrow> nat list \<Rightarrow> byte_sink \<Rightarrow> byte_sink" where
  "write_frame width height delayCs idx s =
     (let s1 = sink_byte 5 (sink_byte 4 (sink_byte 0xf9 (sink_byte 0x21 s)));
          s2 = sink_byte 0 (sink_byte TRANSPARENT_INDEX (sink_word (nat (max 0 (js_round delayCs))) s1));
          s3 = sink_word height (sink_word width (sink_word 0 (sink_word 0 (sink_byte 0x2c s2))))
      in sink_bytes (sub_blocks (lzwEncode idx 8) @ [0]) (sink_byte 8 (sink_byte 0 s3)))"

definition addFrame :: "bytes \<Rightarrow> real \<Rightarrow> gif_writer \<Rightarrow> gif_writer" where
  "addFrame rgba delayCs gw =
     (let (idx, gw') = foldl (frame_pixel rgba) ([], gw) [0..<gw_width gw * gw_height gw]
      in gw'\<lparr>gw_prev := Some rgba,
             gw_sink := write_frame (gw_width gw) (gw_height gw) delayCs idx (gw_sink gw)\<rparr>)"

definition gif_finish :: "gif_writer \<Rightarrow> bytes" where
  "gif_finish gw = sink_result (sink_byte 0x3b (gw_sink gw))"

subsection \<open>A viewer\<close>

text \<open>What a viewer of the format does with the frames: it reads the control extension (flags and transparent
  index), the image descriptor, the minimum code size and the data blocks, and draws every
  index that is not the transparent one over what is there; it stops at the trailer or at anything else.\<close>

function read_blocks :: "bytes \<Rightarrow> (bytes \<times> bytes) option" where
  "read_blocks bs =
     (case bs of
        [] \<Rightarrow> None
      | n # rest \<Rightarrow>
          if n = 0 then Some ([], rest)
          else if length rest < unat n then None
          else map_option (\<lambda>(d, r). (take (unat n) rest @ d, r)) (read_blocks (drop (unat n) rest)))"
  by pat_completeness auto
termination by (relation "measure length") auto

declare read_blocks.simps [simp del]

definition overlay :: "nat option \<Rightarrow> nat list \<Rightarrow> nat list \<Rightarrow> nat list" where
  "overlay transparent idx canvas = map2 (\<lambda>i c. if Some i = transparent then c else i) idx canvas"

lemma read_blocks_shorter: "read_blocks bs = Some (d, rest) \<Longrightarrow> length rest < length bs"
proof (induction bs arbitrary: d rest rule: read_blocks.induct)
  case (1 bs)
  show ?case
  proof (cases bs)
    case Nil
    then show ?thesis using 1(2) by (subst (asm) read_blocks.simps) simp
  next
    case (Cons n r)
    show ?thesis
    proof (cases "n = 0 \<or> length r < unat n")
      case True
      then show ?thesis using 1(2) Cons by (subst (asm) read_blocks.simps) (auto split: if_splits)
    next
      case False
      then obtain d' where "read_blocks (drop (unat n) r) = Some (d', rest)"
        using 1(2) Cons by (subst (asm) read_blocks.simps) auto
      then have "length rest < length (drop (unat n) r)" using 1(1) [OF Cons] False by blast
      then show ?thesis using Cons by simp
    qed
  qed
qed

function view_frames :: "nat list \<Rightarrow> bytes \<Rightarrow> nat list list" where
  "view_frames canvas bs =
     (if length bs < 19 \<or> bs ! 0 \<noteq> 0x21 \<or> bs ! 1 \<noteq> 0xf9 \<or> bs ! 8 \<noteq> 0x2c then []
      else
        let transparent = (if bit (bs ! 3) 0 then Some (unat (bs ! 6)) else None) in
        case read_blocks (drop 19 bs) of
          None \<Rightarrow> []
        | Some (d, rest) \<Rightarrow>
            let shown = overlay transparent (lzwDecode d (unat (bs ! 18))) canvas
            in shown # view_frames shown rest)"
  by pat_completeness auto
termination by (relation "measure (\<lambda>(c, bs). length bs)") (auto dest!: read_blocks_shorter)

declare view_frames.simps [simp del]

subsection \<open>What is written\<close>

definition sink_content :: "byte_sink \<Rightarrow> bytes" where
  "sink_content s = concat (sk_chunks s) @ sk_cur s"

lemma content_flush [simp]: "sink_content (sink_flush s) = sink_content s"
  by (simp add: sink_content_def sink_flush_def)

lemma content_byte [simp]: "sink_content (sink_byte b s) = sink_content s @ [word_of_nat b]"
proof -
  let ?s = "s\<lparr>sk_cur := sk_cur s @ [word_of_nat b]\<rparr>"
  have "sink_content ?s = sink_content s @ [word_of_nat b]" by (simp add: sink_content_def)
  then show ?thesis by (simp add: sink_byte_def Let_def)
qed

lemma content_word [simp]:
  "sink_content (sink_word w s) = sink_content s @ [word_of_nat w, word_of_nat (drop_bit 8 w)]"
  by (simp add: sink_word_def)

lemma content_bytes [simp]: "sink_content (sink_bytes arr s) = sink_content s @ arr"
  by (simp add: sink_bytes_def sink_content_def sink_flush_def)

lemma content_ascii [simp]: "sink_content (sink_ascii t s) = sink_content s @ map word_of_nat t"
  unfolding sink_ascii_def by (induction t arbitrary: s) simp_all

lemma sink_result_content [simp]: "sink_result s = sink_content s"
  by (simp add: sink_result_def sink_content_def sink_flush_def)

lemma length_preamble:
  assumes "colors \<le> 255"
  shows "length (sink_content (gif_preamble w h pal colors \<lparr>sk_chunks = [], sk_cur = []\<rparr>)) = 800"
proof -
  have "length (take (colors * 3) pal) \<le> 768" using assms by simp
  then show ?thesis by (simp add: gif_preamble_def Let_def sink_content_def [of "\<lparr>sk_chunks = [], sk_cur = []\<rparr>"])
qed

lemma take_own: "take (length a) (a @ r) = a"
  by simp

lemma drop_own: "drop (length a) (a @ r) = r"
  by simp

lemma read_sub_blocks: "read_blocks (sub_blocks data @ 0 # rest) = Some (data, rest)"
proof (induction data rule: sub_blocks.induct)
  case (1 data)
  show ?case
  proof (cases "data = []")
    case True
    then show ?thesis by (simp add: sub_blocks.simps read_blocks.simps)
  next
    case False
    let ?n = "word_of_nat (min 255 (length data)) :: u8"
    have n: "unat ?n = min 255 (length data)" by (simp add: unsigned_of_nat take_bit_nat_eq_self)
    have "0 < unat ?n" using n False by simp
    then have n0: "?n \<noteq> 0" by auto
    have n': "unat ?n = length (take 255 data)" using n by simp
    have t: "take (unat ?n) (take 255 data @ r) = take 255 data" "drop (unat ?n) (take 255 data @ r) = r" for r
      unfolding n' by (rule take_own drop_own)+
    have "sub_blocks data @ 0 # rest = ?n # take 255 data @ (sub_blocks (drop 255 data) @ 0 # rest)"
      using False by (subst sub_blocks.simps) simp
    moreover have "\<not> length (take 255 data @ (sub_blocks (drop 255 data) @ 0 # rest)) < unat ?n" using n by simp
    ultimately show ?thesis using 1 [OF False] n0
      by (subst read_blocks.simps) (simp only: list.case if_False t option.map prod.case append_take_drop_id)
  qed
qed

subsection \<open>A frame reads back\<close>

definition frame_head :: "nat \<Rightarrow> nat \<Rightarrow> real \<Rightarrow> bytes" where
  "frame_head w h delayCs =
     [0x21, 0xf9, 4, 5, word_of_nat (nat (max 0 (js_round delayCs))),
      word_of_nat (drop_bit 8 (nat (max 0 (js_round delayCs)))), 255, 0, 0x2c, 0, 0, 0, 0,
      word_of_nat w, word_of_nat (drop_bit 8 w), word_of_nat h, word_of_nat (drop_bit 8 h), 0, 8]"

lemma content_write_frame:
  "sink_content (write_frame w h delayCs idx s) =
    sink_content s @ frame_head w h delayCs @ sub_blocks (lzwEncode idx 8) @ [0]"
  by (simp add: write_frame_def frame_head_def TRANSPARENT_INDEX_def Let_def)

lemma view_frame:
  assumes "\<forall>k \<in> set idx. k < 256"
  shows "view_frames canvas (frame_head w h delayCs @ sub_blocks (lzwEncode idx 8) @ 0 # rest) =
    overlay (Some TRANSPARENT_INDEX) idx canvas # view_frames (overlay (Some TRANSPARENT_INDEX) idx canvas) rest"
proof -
  let ?bs = "frame_head w h delayCs @ sub_blocks (lzwEncode idx 8) @ 0 # rest"
  have l: "length (frame_head w h delayCs) = 19" by (simp add: frame_head_def)
  have at': "?bs ! 0 = 0x21" "?bs ! 1 = 0xf9" "?bs ! 3 = 5" "?bs ! 6 = 255" "?bs ! 8 = 0x2c" "?bs ! 18 = 8"
    by (simp_all add: frame_head_def)
  have d: "drop 19 ?bs = sub_blocks (lzwEncode idx 8) @ 0 # rest" using l by simp
  have "\<not> length ?bs < 19" using l by simp
  moreover have "bit (5 :: u8) 0" "unat (255 :: u8) = TRANSPARENT_INDEX" "unat (8 :: u8) = 8"
    by (simp_all add: TRANSPARENT_INDEX_def)
  moreover have "lzwDecode (lzwEncode idx 8) 8 = idx" by (rule lzw_round_trip) (use assms in simp_all)
  ultimately show ?thesis
    by (subst view_frames.simps) (simp only: at' d read_sub_blocks if_True if_False option.case prod.case Let_def simp_thms)
qed

subsection \<open>The colours that are chosen\<close>

lemma nearer_best:
  fixes pal c n
  defines "r \<equiv> foldl (nearer pal c) (0, None) [0..<n]"
  shows "snd r = (if n = 0 then None else Some (color_distance pal c (fst r))) \<and> (n = 0 \<longrightarrow> fst r = 0) \<and>
    (0 < n \<longrightarrow> fst r < n) \<and> (\<forall>i < n. color_distance pal c (fst r) \<le> color_distance pal c i)"
  unfolding r_def
proof (induction n)
  case 0
  show ?case by simp
next
  case (Suc n)
  obtain b d where r: "foldl (nearer pal c) (0, None) [0..<n] = (b, d)" by fastforce
  from Suc show ?case unfolding upt_Suc_append [OF le0] foldl_append r foldl_Cons foldl_Nil
    by (cases "n = 0") (auto simp: nearer_def Let_def less_Suc_eq)
qed

text \<open>A cached choice: an entry of the palette, nearest to some colour of its color_bucket.\<close>

definition chosen :: "gif_writer \<Rightarrow> nat \<Rightarrow> nat \<Rightarrow> bool" where
  "chosen gw k b \<longleftrightarrow> (gw_colors gw = 0 \<and> b = 0) \<or>
     (b < gw_colors gw \<and> (\<exists>c. key15 c = k \<and>
        (\<forall>i < gw_colors gw. color_distance (gw_palette gw) c b \<le> color_distance (gw_palette gw) c i)))"

definition writer_ok :: "gif_writer \<Rightarrow> bool" where
  "writer_ok gw \<longleftrightarrow> gw_colors gw \<le> 255 \<and> (\<forall>k b. gw_cache gw k = Some b \<longrightarrow> chosen gw k b)"

lemma chosen_less: "writer_ok gw \<Longrightarrow> gw_cache gw k = Some b \<Longrightarrow> b < 255"
  by (fastforce simp: writer_ok_def chosen_def)

text \<open>What drawing pixels leaves alone.\<close>

definition keeps_writer :: "gif_writer \<Rightarrow> gif_writer \<Rightarrow> bool" where
  "keeps_writer gw gw' \<longleftrightarrow>
     gw_width gw' = gw_width gw \<and> gw_height gw' = gw_height gw \<and> gw_palette gw' = gw_palette gw \<and>
     gw_colors gw' = gw_colors gw \<and> gw_cache gw \<subseteq>\<^sub>m gw_cache gw'"

lemma keeps_refl [simp]: "keeps_writer gw gw"
  by (simp add: keeps_writer_def)

lemma keeps_trans: "keeps_writer a b \<Longrightarrow> keeps_writer b c \<Longrightarrow> keeps_writer a c"
  unfolding keeps_writer_def by (elim conjE, intro conjI) (simp_all, rule map_le_trans)

lemma nearest_ok:
  fixes c
  assumes "writer_ok gw"
  defines "r \<equiv> nearest c gw"
  shows "writer_ok (snd r) \<and> keeps_writer gw (snd r) \<and> gw_cache (snd r) (key15 c) = Some (fst r) \<and>
    gw_prev (snd r) = gw_prev gw \<and> gw_sink (snd r) = gw_sink gw"
proof (cases "gw_cache gw (key15 c)")
  case (Some b)
  then show ?thesis using assms by (simp add: nearest_def)
next
  case None
  let ?b = "fst (foldl (nearer (gw_palette gw) c) (0, None) [0..<gw_colors gw])"
  have "chosen gw (key15 c) ?b" using nearer_best [of "gw_palette gw" c "gw_colors gw"]
    unfolding chosen_def by blast
  then have "writer_ok (gw\<lparr>gw_cache := (gw_cache gw)(key15 c \<mapsto> ?b)\<rparr>)" using assms(1)
    by (simp add: writer_ok_def chosen_def)
  moreover have "gw_cache gw \<subseteq>\<^sub>m (gw_cache gw)(key15 c \<mapsto> ?b)" using None by (auto simp: map_le_def)
  ultimately show ?thesis by (simp add: r_def nearest_def None Let_def keeps_writer_def)
qed

text \<open>The pixels drawn so far: each is transparent where the picture did not change, and otherwise the choice for its
  colour.\<close>

definition drawn :: "bytes \<Rightarrow> gif_writer \<Rightarrow> nat \<Rightarrow> nat list \<times> gif_writer \<Rightarrow> bool" where
  "drawn rgba gw n s \<longleftrightarrow>
     writer_ok (snd s) \<and> keeps_writer gw (snd s) \<and> gw_prev (snd s) = gw_prev gw \<and> gw_sink (snd s) = gw_sink gw \<and>
     length (fst s) = n \<and>
     (\<forall>i < n. (fst s ! i = TRANSPARENT_INDEX \<and> (\<exists>p. gw_prev gw = Some p \<and> pixel p i = pixel rgba i)) \<or>
        (fst s ! i < TRANSPARENT_INDEX \<and> gw_cache (snd s) (key15 (pixel rgba i)) = Some (fst s ! i)))"

lemma drawn_more:
  assumes "drawn rgba gw n (idx, g)" "writer_ok g'" "keeps_writer g g'" "gw_prev g' = gw_prev g" "gw_sink g' = gw_sink g"
    and "(x = TRANSPARENT_INDEX \<and> (\<exists>p. gw_prev gw = Some p \<and> pixel p n = pixel rgba n)) \<or>
      (x < TRANSPARENT_INDEX \<and> gw_cache g' (key15 (pixel rgba n)) = Some x)"
  shows "drawn rgba gw (Suc n) (idx @ [x], g')"
proof -
  note d = assms(1) [unfolded drawn_def fst_conv snd_conv]
  have "gw_cache g' k = Some b" if "gw_cache g k = Some b" for k b
    using assms(3) that unfolding keeps_writer_def map_le_def by (metis domI)
  then have "\<forall>i < Suc n. ((idx @ [x]) ! i = TRANSPARENT_INDEX \<and> (\<exists>p. gw_prev gw = Some p \<and> pixel p i = pixel rgba i)) \<or>
      ((idx @ [x]) ! i < TRANSPARENT_INDEX \<and> gw_cache g' (key15 (pixel rgba i)) = Some ((idx @ [x]) ! i))"
    using d assms(6) by (auto simp: nth_append less_Suc_eq)
  then show ?thesis using d assms(2-5) keeps_trans [of gw g g'] by (simp add: drawn_def)
qed

lemma frame_pixel_drawn:
  assumes "drawn rgba gw n s"
  shows "drawn rgba gw (Suc n) (frame_pixel rgba s n)"
proof -
  obtain idx g where s: "s = (idx, g)" by (cases s)
  note d = assms [unfolded s drawn_def fst_conv snd_conv]
  show ?thesis
  proof (cases "case gw_prev g of Some prev \<Rightarrow> pixel prev n = pixel rgba n | None \<Rightarrow> False")
    case True
    then have "\<exists>p. gw_prev gw = Some p \<and> pixel p n = pixel rgba n" using d by (auto split: option.splits)
    with drawn_more [OF assms [unfolded s], of g TRANSPARENT_INDEX] d True show ?thesis
      by (simp add: frame_pixel_def s)
  next
    case False
    have r: "writer_ok g" using d by simp
    note n = nearest_ok [OF r, of "pixel rgba n"]
    then have "fst (nearest (pixel rgba n) g) < TRANSPARENT_INDEX"
      unfolding TRANSPARENT_INDEX_def by (elim conjE) (rule chosen_less)
    with drawn_more [OF assms [unfolded s], of "snd (nearest (pixel rgba n) g)" "fst (nearest (pixel rgba n) g)"] n False
    show ?thesis by (simp add: frame_pixel_def s split_beta)
  qed
qed

lemma frame_drawn:
  assumes "writer_ok gw"
  shows "drawn rgba gw n (foldl (frame_pixel rgba) ([], gw) [0..<n])"
proof (induction n)
  case 0
  show ?case using assms by (simp add: drawn_def)
next
  case (Suc n)
  then show ?case by (simp add: frame_pixel_drawn)
qed

subsection \<open>The whole clip\<close>

text \<open>The canvas a viewer has after the frames so far.\<close>

definition shows_canvas :: "gif_writer \<Rightarrow> nat list \<Rightarrow> bool" where
  "shows_canvas gw canvas \<longleftrightarrow>
     writer_ok gw \<and> length canvas = gw_width gw * gw_height gw \<and>
     (\<forall>p. gw_prev gw = Some p \<longrightarrow>
        (\<forall>i < gw_width gw * gw_height gw. gw_cache gw (key15 (pixel p i)) = Some (canvas ! i)))"

definition frame_indices :: "bytes \<Rightarrow> gif_writer \<Rightarrow> nat list" where
  "frame_indices rgba gw = fst (foldl (frame_pixel rgba) ([], gw) [0..<gw_width gw * gw_height gw])"

lemma addFrame_ok:
  fixes rgba delayCs
  assumes "shows_canvas gw canvas"
  defines "gw' \<equiv> addFrame rgba delayCs gw" and "idx \<equiv> frame_indices rgba gw"
  shows "keeps_writer gw gw' \<and> gw_prev gw' = Some rgba \<and> (\<forall>k \<in> set idx. k < 256) \<and>
    gw_sink gw' = write_frame (gw_width gw) (gw_height gw) delayCs idx (gw_sink gw) \<and>
    shows_canvas gw' (overlay (Some TRANSPARENT_INDEX) idx canvas)"
proof -
  let ?n = "gw_width gw * gw_height gw"
  obtain g where s: "foldl (frame_pixel rgba) ([], gw) [0..<?n] = (idx, g)"
    by (metis idx_def frame_indices_def prod.collapse)
  have "writer_ok gw" using assms(1) by (simp add: shows_canvas_def)
  from frame_drawn [OF this, of rgba ?n] have d: "drawn rgba gw ?n (idx, g)" by (simp only: s)
  note d' = d [unfolded drawn_def fst_conv snd_conv]
  have gw': "gw' = g\<lparr>gw_prev := Some rgba, gw_sink := write_frame (gw_width gw) (gw_height gw) delayCs idx (gw_sink gw)\<rparr>"
    by (simp add: gw'_def addFrame_def s)
  have keeps: "keeps_writer gw gw'" using d' by (simp add: gw' keeps_writer_def)
  have small: "\<forall>k \<in> set idx. k < 256"
    using d' by (fastforce simp: in_set_conv_nth TRANSPARENT_INDEX_def)
  have canvas: "gw_cache g (key15 (pixel rgba i)) = Some (overlay (Some TRANSPARENT_INDEX) idx canvas ! i)" if i: "i < ?n" for i
  proof (cases "idx ! i = TRANSPARENT_INDEX")
    case True
    then obtain p where p: "gw_prev gw = Some p" "pixel p i = pixel rgba i" using d' i by auto
    then have "gw_cache gw (key15 (pixel rgba i)) = Some (canvas ! i)" using assms(1) i
      by (metis shows_canvas_def)
    then have "gw_cache g (key15 (pixel rgba i)) = Some (canvas ! i)"
      using d' unfolding keeps_writer_def map_le_def by (metis domI)
    moreover have "overlay (Some TRANSPARENT_INDEX) idx canvas ! i = canvas ! i"
      using True i d' assms(1) by (simp add: overlay_def shows_canvas_def)
    ultimately show ?thesis by simp
  next
    case False
    then show ?thesis using i d' assms(1) by (auto simp: overlay_def shows_canvas_def)
  qed
  have "writer_ok gw'" using d' by (simp add: gw' writer_ok_def chosen_def)
  moreover have "length (overlay (Some TRANSPARENT_INDEX) idx canvas) = ?n"
    using d' assms(1) by (simp add: overlay_def shows_canvas_def)
  ultimately have "shows_canvas gw' (overlay (Some TRANSPARENT_INDEX) idx canvas)"
    using canvas d' by (simp add: shows_canvas_def gw' keeps_writer_def)
  then show ?thesis using keeps small by (simp add: gw')
qed

definition add_frames :: "(bytes \<times> real) list \<Rightarrow> gif_writer \<Rightarrow> gif_writer" where
  "add_frames frames gw = foldl (\<lambda>gw (rgba, delayCs). addFrame rgba delayCs gw) gw frames"

lemma add_frames_Cons [simp]: "add_frames (f # fs) gw = add_frames fs (addFrame (fst f) (snd f) gw)"
  by (simp add: add_frames_def split_beta)

text \<open>The picture shown for one: for each pixel the choice for its colour.\<close>

definition shown_picture :: "gif_writer \<Rightarrow> bytes \<Rightarrow> nat list" where
  "shown_picture gw rgba = map (\<lambda>c. the (gw_cache gw (key15 c))) (pixels rgba)"

lemma shown_picture_eq:
  assumes "shows_canvas g1 canvas" "gw_prev g1 = Some rgba" "keeps_writer g1 gw"
    and "length rgba = 4 * (gw_width g1 * gw_height g1)"
  shows "canvas = shown_picture gw rgba"
proof (rule nth_equalityI)
  show "length canvas = length (shown_picture gw rgba)"
    using assms(1,4) by (simp add: shows_canvas_def shown_picture_def pixels_def)
  fix i
  assume i: "i < length canvas"
  then have "gw_cache g1 (key15 (pixel rgba i)) = Some (canvas ! i)" using assms(1,2) by (simp add: shows_canvas_def)
  then have "gw_cache gw (key15 (pixel rgba i)) = Some (canvas ! i)"
    using assms(3) unfolding keeps_writer_def map_le_def by (metis domI)
  then show "canvas ! i = shown_picture gw rgba ! i"
    using i assms(1,4) by (simp add: shown_picture_def pixels_def shows_canvas_def)
qed

lemma frames_view:
  assumes "shows_canvas gw canvas" "\<forall>f \<in> set frames. length (fst f) = 4 * (gw_width gw * gw_height gw)"
  shows "keeps_writer gw (add_frames frames gw) \<and> writer_ok (add_frames frames gw) \<and>
    (\<exists>bs. sink_content (gw_sink (add_frames frames gw)) = sink_content (gw_sink gw) @ bs \<and>
       view_frames canvas (bs @ [0x3b]) = map (\<lambda>f. shown_picture (add_frames frames gw) (fst f)) frames)"
  using assms
proof (induction frames arbitrary: gw canvas)
  case Nil
  then show ?case by (simp add: add_frames_def shows_canvas_def view_frames.simps)
next
  case (Cons f fs)
  let ?g = "addFrame (fst f) (snd f) gw"
  let ?idx = "frame_indices (fst f) gw"
  let ?canvas = "overlay (Some TRANSPARENT_INDEX) ?idx canvas"
  note a = addFrame_ok [OF Cons.prems(1), of "fst f" "snd f"]
  have dims: "gw_width ?g = gw_width gw" "gw_height ?g = gw_height gw" using a by (auto simp: keeps_writer_def)
  obtain bs where ih: "keeps_writer ?g (add_frames fs ?g)" "writer_ok (add_frames fs ?g)"
      "sink_content (gw_sink (add_frames fs ?g)) = sink_content (gw_sink ?g) @ bs"
      "view_frames ?canvas (bs @ [0x3b]) = map (\<lambda>f. shown_picture (add_frames fs ?g) (fst f)) fs"
    using Cons.IH [of ?g ?canvas] a Cons.prems(2) dims by auto
  let ?fb = "frame_head (gw_width gw) (gw_height gw) (snd f) @ sub_blocks (lzwEncode ?idx 8) @ 0 # bs"
  have "sink_content (gw_sink (add_frames fs ?g)) = sink_content (gw_sink gw) @ ?fb"
    using a by (simp add: ih(3) content_write_frame)
  moreover have "view_frames canvas (?fb @ [0x3b]) = ?canvas # view_frames ?canvas (bs @ [0x3b])"
    using view_frame [of ?idx canvas "gw_width gw" "gw_height gw" "snd f" "bs @ [0x3b]"] a by simp
  moreover have "?canvas = shown_picture (add_frames fs ?g) (fst f)"
    by (rule shown_picture_eq [of ?g]) (use a ih(1) Cons.prems(2) dims in auto)
  moreover have "keeps_writer gw (add_frames fs ?g)" using a ih(1) keeps_trans by blast
  ultimately show ?case using ih(2,4) by auto
qed



subsection \<open>The palette holds the most used colours\<close>

text \<open>A color_bucket's sums lie between its bounds, so its average lies in it.\<close>

definition channel_in :: "nat \<Rightarrow> nat \<Rightarrow> nat \<Rightarrow> bool" where
  "channel_in f n s \<longleftrightarrow> f < 32 \<and> 8 * f * n \<le> s \<and> s \<le> (8 * f + 7) * n"

lemma u8_field: "drop_bit 3 (unat (x :: u8)) < 32"
  by (simp add: drop_bit_eq_div less_mult_imp_div_less)

lemma channel_in_add:
  "channel_in f n s \<or> n = 0 \<and> s = 0 \<Longrightarrow> drop_bit 3 (unat (x :: u8)) = f \<Longrightarrow> channel_in f (n + 1) (s + unat x)"
  using u8_field [of x] by (auto simp: channel_in_def drop_bit_eq_div algebra_simps)

lemma channel_average:
  assumes "channel_in f n s" "0 < n"
  shows "drop_bit 3 (unat (average s n)) = f"
proof -
  let ?r = "js_round (real s / real n)"
  have "real (8 * f * n) \<le> real s" "real s \<le> real ((8 * f + 7) * n)"
    using assms(1) unfolding channel_in_def of_nat_le_iff by simp_all
  then have "real (8 * f) \<le> real s / real n" "real s / real n \<le> real (8 * f + 7)"
    using assms(2) by (simp_all add: field_simps)
  then have r: "int (8 * f) \<le> ?r" "?r \<le> int (8 * f + 7)"
    unfolding js_round_def by linarith+
  have "f < 32" using assms(1) by (simp add: channel_in_def)
  then have "unat (average s n) = nat ?r" using r
    by (simp add: average_def unsigned_of_int take_bit_int_eq_self)
  then show ?thesis using r by (simp add: drop_bit_eq_div)
qed

definition bucket_in :: "nat \<Rightarrow> color_bucket \<Rightarrow> bool" where
  "bucket_in k b \<longleftrightarrow>
     (\<exists>c. key15 c = k \<and> (let (x, y, z) = c in channel_in (drop_bit 3 (unat x)) (bk_count b) (bk_r b) \<and>
        channel_in (drop_bit 3 (unat y)) (bk_count b) (bk_g b) \<and> channel_in (drop_bit 3 (unat z)) (bk_count b) (bk_b b)))"

lemma key15_parts:
  assumes "key15 (r, g, b) = key15 (r', g', b')"
  shows "drop_bit 3 (unat r) = drop_bit 3 (unat r') \<and> drop_bit 3 (unat g) = drop_bit 3 (unat g') \<and>
    drop_bit 3 (unat b) = drop_bit 3 (unat b')"
proof -
  have small: "\<not> bit (drop_bit 3 (unat (x :: u8))) i" if "5 \<le> i" for x i
    using bit_below [of "unat x" 8 "3 + i"] unat_u8_less [of x] that by (simp add: bit_simps)
  have key: "bit (key15 (x, y, z)) i =
      (if i < 5 then bit (drop_bit 3 (unat z)) i else if i < 10 then bit (drop_bit 3 (unat y)) (i - 5)
       else bit (drop_bit 3 (unat x)) (i - 10))" for x y z :: u8 and i
    using small [of i z] small [of "i - 5" y] by (auto simp: key15_def Let_def bit_push_bit_iff bit_or_iff)
  have same: "bit (key15 (r, g, b)) i = bit (key15 (r', g', b')) i" for i by (simp only: assms)
  have "bit (drop_bit 3 (unat r)) i = bit (drop_bit 3 (unat r')) i" for i
    using same [of "i + 10"] unfolding key by simp
  moreover have "bit (drop_bit 3 (unat g)) i = bit (drop_bit 3 (unat g')) i" for i
    using same [of "i + 5"] small [of i g] small [of i g'] unfolding key by (cases "i < 5") auto
  moreover have "bit (drop_bit 3 (unat b)) i = bit (drop_bit 3 (unat b')) i" for i
    using same [of i] small [of i b] small [of i b'] unfolding key by (cases "i < 5") auto
  ultimately show ?thesis by (simp add: bit_eq_iff)
qed

lemma key15_less: "key15 c < 32768"
proof -
  obtain r g b where c: "c = (r, g, b)" by (cases c)
  have d: "drop_bit 3 (unat (x :: u8)) < 2 ^ 5" for x using u8_field [of x] by simp
  have "\<not> bit (key15 c) i" if "15 \<le> i" for i
    using that bit_below [OF d, of "i - 10" r] bit_below [OF d, of "i - 5" g] bit_below [OF d, of i b]
    by (simp add: c key15_def Let_def bit_push_bit_iff bit_or_iff)
  then have "take_bit 15 (key15 c) = key15 c" by (auto simp: bit_eq_iff bit_take_bit_iff) (meson not_le)
  then have "key15 c < 2 ^ 15" by (simp only: take_bit_nat_eq_self_iff)
  then show ?thesis by simp
qed

definition uses :: "rgb list \<Rightarrow> nat \<Rightarrow> nat" where
  "uses cs k = length (filter (\<lambda>c. key15 c = k) cs)"

lemma bucket_in_add:
  assumes "bucket_in (key15 (r, g, b)) old \<or> old = empty_buckets k"
  shows "bucket_in (key15 (r, g, b)) \<lparr>bk_count = bk_count old + 1, bk_r = bk_r old + unat r, bk_g = bk_g old + unat g,
    bk_b = bk_b old + unat b\<rparr>"
proof -
  have "(channel_in (drop_bit 3 (unat r)) (bk_count old) (bk_r old) \<or> bk_count old = 0 \<and> bk_r old = 0) \<and>
      (channel_in (drop_bit 3 (unat g)) (bk_count old) (bk_g old) \<or> bk_count old = 0 \<and> bk_g old = 0) \<and>
      (channel_in (drop_bit 3 (unat b)) (bk_count old) (bk_b old) \<or> bk_count old = 0 \<and> bk_b old = 0)"
    using assms
  proof
    assume "bucket_in (key15 (r, g, b)) old"
    then obtain x y z where "key15 (x, y, z) = key15 (r, g, b)"
        "channel_in (drop_bit 3 (unat x)) (bk_count old) (bk_r old)"
        "channel_in (drop_bit 3 (unat y)) (bk_count old) (bk_g old)"
        "channel_in (drop_bit 3 (unat z)) (bk_count old) (bk_b old)"
      by (auto simp: bucket_in_def)
    with key15_parts [OF this(1)] show ?thesis by simp
  qed (simp add: empty_buckets_def)
  then show ?thesis unfolding bucket_in_def
    by (intro exI [of _ "(r, g, b)"]) (simp add: channel_in_add [simplified])
qed

lemma buckets_count:
  fixes cs
  defines "bs \<equiv> foldl count_pixel empty_buckets cs"
  shows "bk_count (bs k) = uses cs k \<and> (if uses cs k = 0 then bs k = empty_buckets k else bucket_in k (bs k))"
  unfolding bs_def
proof (induction cs rule: rev_induct)
  case Nil
  show ?case by (simp add: uses_def empty_buckets_def)
next
  case (snoc c cs)
  obtain r g b where c: "c = (r, g, b)" by (cases c)
  let ?o = "foldl count_pixel empty_buckets cs (key15 c)"
  show ?case
  proof (cases "k = key15 c")
    case True
    have "bucket_in (key15 (r, g, b)) ?o \<or> ?o = empty_buckets k" using snoc True by (auto simp: c split: if_splits)
    from bucket_in_add [OF this] show ?thesis using snoc True by (simp add: count_pixel_def Let_def uses_def c)
  next
    case False
    then show ?thesis using snoc by (auto simp: count_pixel_def Let_def uses_def split_beta)
  qed
qed

lemma average_in_bucket:
  assumes "bucket_in k b" "0 < bk_count b"
  shows "key15 (bucket_color b) = k"
proof -
  obtain x y z where "key15 (x, y, z) = k" "channel_in (drop_bit 3 (unat x)) (bk_count b) (bk_r b)"
      "channel_in (drop_bit 3 (unat y)) (bk_count b) (bk_g b)" "channel_in (drop_bit 3 (unat z)) (bk_count b) (bk_b b)"
    using assms(1) by (auto simp: bucket_in_def)
  with channel_average [OF _ assms(2)] show ?thesis by (simp add: key15_def bucket_color_def)
qed

lemma sort_key_take_best:
  fixes f :: "'a \<Rightarrow> int"
  assumes "x \<in> set (take n (sort_key f xs))" "y \<in> set xs" "y \<notin> set (take n (sort_key f xs))"
  shows "f x \<le> f y"
proof -
  let ?s = "sort_key f xs"
  obtain i where i: "i < n" "i < length ?s" "x = ?s ! i" using assms(1) by (auto simp: in_set_conv_nth)
  have "y \<in> set ?s" using assms(2) by simp
  then obtain j where j: "j < length ?s" "y = ?s ! j" by (metis in_set_conv_nth)
  have "\<not> j < n" using assms(3) j by (metis in_set_conv_nth length_take min_less_iff_conj nth_take)
  then have "map f ?s ! i \<le> map f ?s ! j" using i j sorted_sort_key [of f xs]
    by (intro sorted_nth_mono) simp_all
  with i j show ?thesis by simp
qed

text \<open>The palette's colours lie in different buckets, each in a color_bucket that pixels of the samples use, and no color_bucket
  left out is used more than one taken; every color_bucket in use is taken while there is room.\<close>

theorem palette_most_used:
  fixes samples maxColors
  defines "cs \<equiv> concat (map pixels samples)" and "room \<equiv> min maxColors TRANSPARENT_INDEX"
  shows "\<exists>cols. buildPalette samples maxColors = concat (map rgb_bytes cols) \<and> distinct (map key15 cols) \<and>
    length cols \<le> room \<and>
    (\<forall>c \<in> set cols. 0 < uses cs (key15 c)) \<and>
    (\<forall>c \<in> set cols. \<forall>k. k \<notin> key15 ` set cols \<longrightarrow> uses cs k \<le> uses cs (key15 c)) \<and>
    (length cols < room \<longrightarrow> key15 ` set cols = key15 ` set cs)"
proof -
  let ?bs = "foldl count_pixel empty_buckets cs"
  let ?used = "filter (\<lambda>k. bk_count (?bs k) > 0) [0..<32768]"
  let ?ks = "palette_buckets ?bs maxColors"
  let ?cols = "map (\<lambda>k. bucket_color (?bs k)) ?ks"
  have ks: "?ks = take room (sort_key (\<lambda>k. - int (bk_count (?bs k))) ?used)"
    by (simp only: palette_buckets_def used_buckets_def room_def)
  have n: "bk_count (?bs k) = uses cs k" for k using buckets_count [of cs k] by simp
  have mem: "k \<in> set ?used \<longleftrightarrow> 0 < uses cs k" for k
  proof -
    have "k < 32768" if "0 < uses cs k"
    proof -
      obtain c where "key15 c = k" using \<open>0 < uses cs k\<close> unfolding uses_def by (auto simp: filter_empty_conv)
      then show ?thesis using key15_less [of c] by simp
    qed
    then show ?thesis by (auto simp: n)
  qed
  have used: "0 < uses cs k" if "k \<in> set ?ks" for k
    using that set_take_subset [of room "sort_key (\<lambda>k. - int (bk_count (?bs k))) ?used"] mem unfolding ks set_sort by blast
  have key: "key15 (bucket_color (?bs k)) = k" if "k \<in> set ?ks" for k
    using used [OF that] buckets_count [of cs k] by (intro average_in_bucket) (simp_all add: n)
  have keys: "map key15 ?cols = ?ks" using key by (simp add: map_idI)
  then have set_keys: "key15 ` set ?cols = set ?ks" by (metis set_map)
  have "distinct ?ks" unfolding ks by simp
  then have "distinct (map key15 ?cols)" by (simp only: keys)
  moreover have "length ?cols \<le> room" by (simp add: ks)
  moreover have "buildPalette samples maxColors = concat (map rgb_bytes ?cols)"
    by (simp add: buildPalette_def cs_def Let_def comp_def)
  moreover have "\<forall>c \<in> set ?cols. 0 < uses cs (key15 c)" using used key by auto
  moreover have "\<forall>c \<in> set ?cols. \<forall>k. k \<notin> key15 ` set ?cols \<longrightarrow> uses cs k \<le> uses cs (key15 c)"
  proof (intro ballI allI impI)
    fix c k
    assume c: "c \<in> set ?cols" and k: "k \<notin> key15 ` set ?cols"
    have kc: "key15 c \<in> set ?ks" using c set_keys by blast
    have k': "k \<notin> set ?ks" using k unfolding set_keys .
    show "uses cs k \<le> uses cs (key15 c)"
    proof (cases "0 < uses cs k")
      case True
      then have "k \<in> set ?used" by (simp only: mem)
      then have "- int (bk_count (?bs (key15 c))) \<le> - int (bk_count (?bs k))"
        by (rule sort_key_take_best [where f = "\<lambda>k. - int (bk_count (?bs k))", OF kc [unfolded ks] _ k' [unfolded ks]])
      then show ?thesis by (simp add: n)
    qed simp
  qed
  moreover have "key15 ` set ?cols = key15 ` set cs" if "length ?cols < room"
  proof -
    have "?ks = sort_key (\<lambda>k. - int (bk_count (?bs k))) ?used" using that unfolding ks by simp
    then have "set ?ks = set ?used" by simp
    also have "\<dots> = key15 ` set cs" using mem by (auto simp: uses_def filter_empty_conv)
    finally show ?thesis by (simp only: set_keys)
  qed
  ultimately show ?thesis by blast
qed

end
