(* ===== verification/Guess.thy ===== *)
theory Guess
imports Network
begin

text \<open>Guessed positions (\<^verbatim>\<open>frontend/src/map/guessedLocations.ts\<close>): where the map draws a node that told no location,
  from the located repeaters that were the first hop of its adverts. Coordinates are reals, the seed that turns the
  guess aside is the 32-bit integer the code computes. \<^verbatim>\<open>b !== a\<close> compares objects; the anchors of
  one node are different objects, so it compares their indices here.\<close>

unbundle bit_operations_syntax

subsection \<open>Anchors\<close>

definition GUESSED_LOCATION_STALE_SECONDS :: int where "GUESSED_LOCATION_STALE_SECONDS = 24 * 60 * 60"
definition ESTIMATED_LORA_RANGE_KM :: real where "ESTIMATED_LORA_RANGE_KM = 15"
definition USABLE_HOP_HEX_LENGTHS :: "nat list" where "USABLE_HOP_HEX_LENGTHS = [4, 6]"
definition SINGLE_ANCHOR_OFFSET_M :: real where "SINGLE_ANCHOR_OFFSET_M = 330"
definition FEW_ANCHOR_OFFSET_M :: real where "FEW_ANCHOR_OFFSET_M = 120"
definition MANY_ANCHOR_OFFSET_M :: real where "MANY_ANCHOR_OFFSET_M = 80"
definition METRES_PER_DEGREE :: real where "METRES_PER_DEGREE = 111320"

record guess_anchor =
  ga_public_key :: jstr
  ga_lat :: real
  ga_lon :: real
  ga_isSelf :: bool

record guessed_location =
  gl_public_key :: jstr
  gl_lat :: real
  gl_lon :: real
  gl_anchors :: "guess_anchor list"
  gl_highConfidence :: bool

record heard_path = advert_path +
  hp_path_len :: int
  hp_last_seen :: int

record heard_summary =
  hs_public_key :: jstr
  hs_paths :: "heard_path list"

definition effective_place :: "app_contact \<Rightarrow> (real \<times> real) option" where
  "effective_place c = getEffectiveLocation (contact.truncate c)"

definition index_anchor :: "app_contact \<Rightarrow> (jstr \<times> guess_anchor) list \<Rightarrow> nat \<Rightarrow> (jstr \<times> guess_anchor) list" where
  "index_anchor c index hexLen =
     (let pk = toLowerCase (ct_public_key c) in
      case effective_place c of
        None \<Rightarrow> index
      | Some (lat, lon) \<Rightarrow>
          if length pk < hexLen then index
          else if map_of index (take hexLen pk) \<noteq> None then index
          else amap_set (take hexLen pk)
            \<lparr>ga_public_key = ct_public_key c, ga_lat = lat, ga_lon = lon, ga_isSelf = False\<rparr> index)"

definition buildRepeaterAnchorIndex :: "app_contact list \<Rightarrow> (jstr \<times> guess_anchor) list" where
  "buildRepeaterAnchorIndex contacts =
     foldl (\<lambda>index c.
              if ct_type c \<noteq> CONTACT_TYPE_REPEATER then index
              else foldl (index_anchor c) index USABLE_HOP_HEX_LENGTHS) [] contacts"

definition add_anchor :: "guess_anchor \<Rightarrow> (jstr \<times> guess_anchor) list \<Rightarrow> (jstr \<times> guess_anchor) list" where
  "add_anchor a chosenAnchors =
     (if map_of chosenAnchors (ga_public_key a) \<noteq> None then chosenAnchors else amap_set (ga_public_key a) a chosenAnchors)"

definition anchor_step ::
    "(jstr \<times> guess_anchor) list \<Rightarrow> guess_anchor option \<Rightarrow> int \<Rightarrow> (jstr \<times> guess_anchor) list \<Rightarrow> heard_path
      \<Rightarrow> (jstr \<times> guess_anchor) list" where
  "anchor_step index self directHeardSince chosenAnchors p =
     (if hp_path_len p = 0 then
        (case self of
           Some s \<Rightarrow> if hp_last_seen p \<ge> directHeardSince then add_anchor (s\<lparr>ga_isSelf := True\<rparr>) chosenAnchors else chosenAnchors
         | None \<Rightarrow> chosenAnchors)
      else
        case ap_next_hop p of
          None \<Rightarrow> chosenAnchors
        | Some hop \<Rightarrow>
            if length hop \<notin> set USABLE_HOP_HEX_LENGTHS then chosenAnchors
            else
              case map_of index (toLowerCase hop) of
                Some anchor \<Rightarrow> add_anchor anchor chosenAnchors
              | None \<Rightarrow> chosenAnchors)"

definition anchorsForPaths ::
    "heard_path list \<Rightarrow> (jstr \<times> guess_anchor) list \<Rightarrow> guess_anchor option \<Rightarrow> int \<Rightarrow> guess_anchor list" where
  "anchorsForPaths paths index self directHeardSince =
     map snd (foldl (anchor_step index self directHeardSince) [] paths)"

definition anchor_near :: "real \<Rightarrow> guess_anchor \<Rightarrow> guess_anchor \<Rightarrow> bool" where
  "anchor_near maxDistKm a b \<longleftrightarrow>
     (case calculateDistance (Some (ga_lat a)) (Some (ga_lon a)) (Some (ga_lat b)) (Some (ga_lon b)) of
        Some d \<Rightarrow> d \<le> maxDistKm | None \<Rightarrow> False)"

definition filterConsistentAnchors :: "guess_anchor list \<Rightarrow> real \<Rightarrow> guess_anchor list" where
  "filterConsistentAnchors anchors maxRangeKm =
     (if length anchors \<le> 1 then anchors
      else
        map ((!) anchors)
          (filter (\<lambda>i. list_ex (\<lambda>j. j \<noteq> i \<and> anchor_near (maxRangeKm * 2) (anchors ! i) (anchors ! j))
                     [0..<length anchors])
            [0..<length anchors]))"

subsection \<open>The guess\<close>

record centre_sum =
  cn_lat :: real
  cn_lon :: real
  cn_total :: real
  cn_weight :: real

definition centre_step :: "centre_sum \<Rightarrow> guess_anchor \<Rightarrow> centre_sum" where
  "centre_step s a =
     \<lparr>cn_lat = cn_lat s + ga_lat a * cn_weight s, cn_lon = cn_lon s + ga_lon a * cn_weight s,
      cn_total = cn_total s + cn_weight s, cn_weight = cn_weight s / 2\<rparr>"

definition weightedCentre :: "guess_anchor list \<Rightarrow> real \<times> real" where
  "weightedCentre anchors =
     (let s = foldl centre_step \<lparr>cn_lat = 0, cn_lon = 0, cn_total = 0, cn_weight = 1\<rparr> anchors
      in (cn_lat s / cn_total s, cn_lon s / cn_total s))"

text \<open>\<^verbatim>\<open>for (let i = 0; i + 1 < publicKeyHex.length; i += 2)\<close>\<close>

definition seed_step :: "jstr \<Rightarrow> 32 word \<Rightarrow> nat \<Rightarrow> 32 word" where
  "seed_step hex seed i =
     (case parseInt16 (take 2 (drop (2 * i) hex)) of
        None \<Rightarrow> seed
      | Some byte \<Rightarrow> ((seed XOR word_of_int byte) * 0x01000193) AND 0x7fffffff)"

definition guessSeed :: "jstr \<Rightarrow> nat" where
  "guessSeed publicKeyHex =
     unat (foldl (seed_step publicKeyHex) (0x811c9dc5 :: 32 word) [0..<length publicKeyHex div 2])"

definition guess_angle :: "jstr \<Rightarrow> real" where
  "guess_angle publicKeyHex = real (guessSeed publicKeyHex AND 0xffff) / 0x10000 * 2 * pi"

definition offsetGuessedPosition :: "real \<times> real \<Rightarrow> jstr \<Rightarrow> real \<Rightarrow> real \<times> real" where
  "offsetGuessedPosition anchor publicKeyHex radiusMeters =
     (let angle = guess_angle publicKeyHex;
          latOffsetDeg = radiusMeters / METRES_PER_DEGREE * cos angle;
          lonScale = max \<bar>cos (fst anchor * pi / 180)\<bar> (1 / 5);
          lonOffsetDeg = radiusMeters / (METRES_PER_DEGREE * lonScale) * sin angle
      in (fst anchor + latOffsetDeg, snd anchor + lonOffsetDeg))"

text \<open>Coordinates here are always finite, so of the check only the ranges are left.\<close>

definition isFinitePosition :: "real \<times> real \<Rightarrow> bool" where
  "isFinitePosition p \<longleftrightarrow> fst p \<ge> -90 \<and> fst p \<le> 90 \<and> snd p \<ge> -180 \<and> snd p \<le> 180"

definition offset_radius :: "guess_anchor list \<Rightarrow> real" where
  "offset_radius anchors =
     (if length anchors = 1 then SINGLE_ANCHOR_OFFSET_M
      else if length anchors = 2 then FEW_ANCHOR_OFFSET_M else MANY_ANCHOR_OFFSET_M)"

definition guess_base :: "guess_anchor list \<Rightarrow> real \<times> real" where
  "guess_base anchors =
     (if length anchors = 1 then (ga_lat (hd anchors), ga_lon (hd anchors)) else weightedCentre anchors)"

definition guess_for ::
    "(jstr \<times> guess_anchor) list \<Rightarrow> (jstr \<times> app_contact) list \<Rightarrow> guess_anchor option \<Rightarrow> int \<Rightarrow> real \<Rightarrow> heard_summary
      \<Rightarrow> guessed_location option" where
  "guess_for anchorIndex contactsByKey self nowSec maxRangeKm summary =
     (case map_of contactsByKey (toLowerCase (hs_public_key summary)) of
        None \<Rightarrow> None
      | Some c \<Rightarrow>
          if map_option (\<lambda>s. toLowerCase (ga_public_key s)) self = Some (toLowerCase (ct_public_key c)) then None
          else if effective_place c \<noteq> None then None
          else
            case ct_last_seen c of
              None \<Rightarrow> None
            | Some seen \<Rightarrow>
                if nowSec - seen > GUESSED_LOCATION_STALE_SECONDS then None
                else
                  let candidates = anchorsForPaths (hs_paths summary) anchorIndex self
                        (nowSec - GUESSED_LOCATION_STALE_SECONDS);
                      anchors = filterConsistentAnchors candidates maxRangeKm
                  in if length anchors = 0 then None
                     else
                       let position = offsetGuessedPosition (guess_base anchors) (ct_public_key c) (offset_radius anchors)
                       in if \<not> isFinitePosition position then None
                          else Some \<lparr>gl_public_key = ct_public_key c, gl_lat = fst position, gl_lon = snd position,
                                     gl_anchors = anchors, gl_highConfidence = length anchors \<ge> 2\<rparr>)"

definition computeGuessedLocations ::
    "app_contact list \<Rightarrow> heard_summary list \<Rightarrow> int \<Rightarrow> guess_anchor option \<Rightarrow> real \<Rightarrow> guessed_location list" where
  "computeGuessedLocations contacts pathSummaries nowSec self maxRangeKm =
     (let anchorIndex = buildRepeaterAnchorIndex contacts in
      if length anchorIndex = 0 \<and> self = None then []
      else
        let contactsByKey = foldl (\<lambda>m c. amap_set (toLowerCase (ct_public_key c)) c m) [] contacts
        in List.map_filter (guess_for anchorIndex contactsByKey self nowSec maxRangeKm) pathSummaries)"

subsection \<open>Where anchors come from\<close>

text \<open>A repeater of the contacts with a location, found by a prefix of its key.\<close>

definition located_repeater :: "app_contact list \<Rightarrow> jstr \<Rightarrow> guess_anchor \<Rightarrow> bool" where
  "located_repeater contacts prefix a \<longleftrightarrow>
     (\<exists>c \<in> set contacts. ct_type c = CONTACT_TYPE_REPEATER \<and> ga_public_key a = ct_public_key c \<and>
        effective_place c = Some (ga_lat a, ga_lon a) \<and> prefix = take (length prefix) (toLowerCase (ct_public_key c)) \<and>
        length prefix \<in> {4, 6} \<and> \<not> ga_isSelf a)"

lemma index_anchor_located:
  assumes "\<forall>(k, a) \<in> set index. located_repeater cs k a" "c \<in> set cs" "ct_type c = CONTACT_TYPE_REPEATER" "n \<in> {4, 6}"
  shows "\<forall>(k, a) \<in> set (index_anchor c index n). located_repeater cs k a"
proof (cases "effective_place c")
  case (Some p)
  obtain lat lon where p: "p = (lat, lon)" by (cases p)
  let ?a = "\<lparr>ga_public_key = ct_public_key c, ga_lat = lat, ga_lon = lon, ga_isSelf = False\<rparr>"
  let ?k = "take n (toLowerCase (ct_public_key c))"
  have new: "located_repeater cs ?k ?a" if "n \<le> length (toLowerCase (ct_public_key c))"
    using assms(2-4) that Some unfolding located_repeater_def by (intro bexI [of _ c]) (auto simp: p min_absorb2)
  show ?thesis
  proof (cases "length (toLowerCase (ct_public_key c)) < n \<or> map_of index ?k \<noteq> None")
    case True
    then show ?thesis using assms(1) Some by (auto simp: index_anchor_def p Let_def)
  next
    case False
    then have "index_anchor c index n = amap_set ?k ?a index" by (simp add: index_anchor_def Some p Let_def)
    then show ?thesis using amap_set_all [where P = "located_repeater cs", OF assms(1)] new False by simp
  qed
qed (use assms(1) in \<open>simp add: index_anchor_def\<close>)

lemma anchor_index_located:
  "set cs \<subseteq> set contacts \<Longrightarrow>
   \<forall>(k, a) \<in> set (buildRepeaterAnchorIndex cs). located_repeater contacts k a"
  unfolding buildRepeaterAnchorIndex_def
proof (induction cs rule: rev_induct)
  case Nil
  show ?case by simp
next
  case (snoc c cs)
  let ?m = "foldl (\<lambda>index c. if ct_type c \<noteq> CONTACT_TYPE_REPEATER then index
      else foldl (index_anchor c) index USABLE_HOP_HEX_LENGTHS) [] cs"
  have m: "\<forall>(k, a) \<in> set ?m. located_repeater contacts k a" using snoc by simp
  have c: "c \<in> set contacts" using snoc.prems by simp
  show ?case
  proof (cases "ct_type c = CONTACT_TYPE_REPEATER")
    case True
    have "\<forall>(k, a) \<in> set (index_anchor c ?m 4). located_repeater contacts k a"
      by (rule index_anchor_located [OF m c True]) simp
    then have "\<forall>(k, a) \<in> set (index_anchor c (index_anchor c ?m 4) 6). located_repeater contacts k a"
      by (rule index_anchor_located [OF _ c True]) simp
    then show ?thesis using True by (simp add: USABLE_HOP_HEX_LENGTHS_def)
  next
    case False
    then show ?thesis using m by simp
  qed
qed

text \<open>An anchor taken from a path.\<close>

definition path_anchor ::
    "app_contact list \<Rightarrow> guess_anchor option \<Rightarrow> int \<Rightarrow> heard_path list \<Rightarrow> guess_anchor \<Rightarrow> bool" where
  "path_anchor contacts self since paths a \<longleftrightarrow>
     (\<exists>p \<in> set paths.
        (hp_path_len p = 0 \<and> since \<le> hp_last_seen p \<and> (\<exists>s. self = Some s \<and> a = s\<lparr>ga_isSelf := True\<rparr>)) \<or>
        (hp_path_len p \<noteq> 0 \<and> (\<exists>hop. ap_next_hop p = Some hop \<and> located_repeater contacts (toLowerCase hop) a)))"

lemma add_anchor_all:
  "\<forall>(k, x) \<in> set m. P x \<Longrightarrow> P a \<Longrightarrow> \<forall>(k, x) \<in> set (add_anchor a m). P x"
  using amap_set_all [where P = "\<lambda>k. P" and key = "ga_public_key a" and new = a and m = m] by (simp add: add_anchor_def)

lemma path_anchor_mono: "path_anchor contacts self since ps a \<Longrightarrow> set ps \<subseteq> set qs \<Longrightarrow> path_anchor contacts self since qs a"
  unfolding path_anchor_def by blast

lemma anchors_from_paths:
  assumes "\<forall>(k, a) \<in> set index. located_repeater contacts k a"
  shows "\<forall>a \<in> set (anchorsForPaths paths index self since). path_anchor contacts self since paths a"
proof -
  have "\<forall>(k, a) \<in> set (foldl (anchor_step index self since) [] paths). path_anchor contacts self since paths a"
  proof (induction paths rule: rev_induct)
    case Nil
    show ?case by simp
  next
    case (snoc p ps)
    let ?m = "foldl (anchor_step index self since) [] ps"
    let ?P = "path_anchor contacts self since (ps @ [p])"
    have old: "\<forall>(k, a) \<in> set ?m. ?P a" using snoc path_anchor_mono [of contacts self since ps _ "ps @ [p]"] by fastforce
    have "\<forall>(k, a) \<in> set (anchor_step index self since ?m p). ?P a"
    proof (cases "hp_path_len p = 0")
      case True
      show ?thesis
      proof (cases self)
        case None
        then show ?thesis using old True by (simp add: anchor_step_def)
      next
        case (Some s)
        have "?P (s\<lparr>ga_isSelf := True\<rparr>)" if "since \<le> hp_last_seen p"
          unfolding path_anchor_def using True that Some by (intro bexI [of _ p]) simp_all
        then have "\<forall>(k, a) \<in> set (add_anchor (s\<lparr>ga_isSelf := True\<rparr>) ?m). ?P a" if "since \<le> hp_last_seen p"
          using that by (intro add_anchor_all [OF old])
        then show ?thesis using old True Some by (cases "since \<le> hp_last_seen p") (simp_all add: anchor_step_def)
      qed
    next
      case False
      show ?thesis
      proof (cases "\<exists>hop a. ap_next_hop p = Some hop \<and> map_of index (toLowerCase hop) = Some a")
        case True
        then obtain hop a where hop: "ap_next_hop p = Some hop" "map_of index (toLowerCase hop) = Some a" by blast
        have "located_repeater contacts (toLowerCase hop) a" using assms map_of_SomeD [OF hop(2)] by blast
        then have "?P a" unfolding path_anchor_def using False hop(1) by (intro bexI [of _ p]) simp_all
        then show ?thesis using old add_anchor_all [OF old] False hop by (simp add: anchor_step_def)
      next
        case no: False
        have "anchor_step index self since ?m p = ?m"
          using False no by (auto simp: anchor_step_def split: option.split)
        then show ?thesis using old by simp
      qed
    qed
    then show ?case by simp
  qed
  then show ?thesis unfolding anchorsForPaths_def by auto
qed

lemma consistent_anchors:
  assumes "a \<in> set (filterConsistentAnchors anchors r)"
  shows "a \<in> set anchors \<and> (2 \<le> length anchors \<longrightarrow> (\<exists>b \<in> set anchors. anchor_near (r * 2) a b))"
proof (cases "length anchors \<le> 1")
  case True
  then show ?thesis using assms by (simp add: filterConsistentAnchors_def)
next
  case False
  then obtain i j where "i < length anchors" "j < length anchors" "a = anchors ! i" "anchor_near (r * 2) a (anchors ! j)"
    using assms by (auto simp: filterConsistentAnchors_def list_ex_iff)
  then show ?thesis by auto
qed

subsection \<open>How far a guess lies from its anchors\<close>

definition lats_between :: "real \<Rightarrow> real \<Rightarrow> guess_anchor list \<Rightarrow> bool" where
  "lats_between lo hi as \<longleftrightarrow> (\<forall>a \<in> set as. lo \<le> ga_lat a \<and> ga_lat a \<le> hi)"

definition lons_between :: "real \<Rightarrow> real \<Rightarrow> guess_anchor list \<Rightarrow> bool" where
  "lons_between lo hi as \<longleftrightarrow> (\<forall>a \<in> set as. lo \<le> ga_lon a \<and> ga_lon a \<le> hi)"

definition centre_ok :: "real \<Rightarrow> real \<Rightarrow> real \<Rightarrow> real \<Rightarrow> centre_sum \<Rightarrow> bool" where
  "centre_ok lo hi wl wh s \<longleftrightarrow>
     0 < cn_weight s \<and> 0 \<le> cn_total s \<and> lo * cn_total s \<le> cn_lat s \<and> cn_lat s \<le> hi * cn_total s \<and>
     wl * cn_total s \<le> cn_lon s \<and> cn_lon s \<le> wh * cn_total s"

lemma centre_step_ok:
  assumes "centre_ok lo hi wl wh s" "lo \<le> ga_lat a" "ga_lat a \<le> hi" "wl \<le> ga_lon a" "ga_lon a \<le> wh"
  shows "centre_ok lo hi wl wh (centre_step s a) \<and> 0 < cn_total (centre_step s a)"
proof -
  have w: "0 < cn_weight s" using assms(1) by (simp add: centre_ok_def)
  have m: "lo * cn_weight s \<le> ga_lat a * cn_weight s" "ga_lat a * cn_weight s \<le> hi * cn_weight s"
      "wl * cn_weight s \<le> ga_lon a * cn_weight s" "ga_lon a * cn_weight s \<le> wh * cn_weight s"
    using assms w by (simp_all add: mult_right_mono)
  have e: "cn_lat (centre_step s a) = cn_lat s + ga_lat a * cn_weight s"
      "cn_lon (centre_step s a) = cn_lon s + ga_lon a * cn_weight s"
      "cn_total (centre_step s a) = cn_total s + cn_weight s" "cn_weight (centre_step s a) = cn_weight s / 2"
    by (simp_all add: centre_step_def)
  show ?thesis using assms(1) m w unfolding centre_ok_def e distrib_left
    by (elim conjE, intro conjI) linarith+
qed

lemma centre_sum_ok:
  assumes "lats_between lo hi as" "lons_between wl wh as"
  defines "s \<equiv> foldl centre_step \<lparr>cn_lat = 0, cn_lon = 0, cn_total = 0, cn_weight = 1\<rparr> as"
  shows "centre_ok lo hi wl wh s \<and> (as \<noteq> [] \<longrightarrow> 0 < cn_total s)"
  using assms(1,2) unfolding s_def
proof (induction as rule: rev_induct)
  case Nil
  show ?case by (simp add: centre_ok_def)
next
  case (snoc a as)
  then have "centre_ok lo hi wl wh (foldl centre_step \<lparr>cn_lat = 0, cn_lon = 0, cn_total = 0, cn_weight = 1\<rparr> as)"
    by (simp add: lats_between_def lons_between_def)
  from centre_step_ok [OF this, of a] snoc.prems show ?case by (simp add: lats_between_def lons_between_def)
qed

lemma base_between:
  assumes "as \<noteq> []" "lats_between lo hi as" "lons_between wl wh as"
  shows "lo \<le> fst (guess_base as) \<and> fst (guess_base as) \<le> hi \<and> wl \<le> snd (guess_base as) \<and> snd (guess_base as) \<le> wh"
proof (cases "length as = 1")
  case True
  then show ?thesis using assms by (cases as) (simp_all add: guess_base_def lats_between_def lons_between_def)
next
  case False
  then show ?thesis using centre_sum_ok [OF assms(2,3)] assms(1)
    by (simp add: guess_base_def weightedCentre_def Let_def centre_ok_def pos_le_divide_eq pos_divide_le_eq)
qed

lemma radius_bounds: "0 \<le> offset_radius as \<and> offset_radius as \<le> 330"
  by (simp add: offset_radius_def SINGLE_ANCHOR_OFFSET_M_def FEW_ANCHOR_OFFSET_M_def MANY_ANCHOR_OFFSET_M_def)

lemma offset_bounds:
  assumes "0 \<le> r"
  shows "\<bar>fst (offsetGuessedPosition p key r) - fst p\<bar> \<le> r / METRES_PER_DEGREE"
    and "\<bar>snd (offsetGuessedPosition p key r) - snd p\<bar> \<le> 5 * r / METRES_PER_DEGREE"
proof -
  have m: "0 < METRES_PER_DEGREE" by (simp add: METRES_PER_DEGREE_def)
  let ?c = "cos (guess_angle key)"
  let ?s = "sin (guess_angle key)"
  let ?k = "max \<bar>cos (fst p * pi / 180)\<bar> (1 / 5)"
  have "\<bar>r / METRES_PER_DEGREE * ?c\<bar> \<le> r / METRES_PER_DEGREE"
    using assms m mult_left_mono [OF abs_cos_le_one [of "guess_angle key"], of "r / METRES_PER_DEGREE"]
    by (simp add: abs_mult)
  then show "\<bar>fst (offsetGuessedPosition p key r) - fst p\<bar> \<le> r / METRES_PER_DEGREE"
    by (simp add: offsetGuessedPosition_def Let_def)
  have k: "1 / 5 \<le> ?k" by simp
  have "METRES_PER_DEGREE * (1 / 5) \<le> METRES_PER_DEGREE * ?k" using m k by (intro mult_left_mono) simp_all
  then have "r / (METRES_PER_DEGREE * ?k) \<le> r / (METRES_PER_DEGREE * (1 / 5))"
    using assms m by (intro divide_left_mono) simp_all
  then have q: "r / (METRES_PER_DEGREE * ?k) \<le> 5 * r / METRES_PER_DEGREE" by (simp add: mult.commute)
  have "0 \<le> r / (METRES_PER_DEGREE * ?k)" using assms m by simp
  then have "\<bar>r / (METRES_PER_DEGREE * ?k) * ?s\<bar> \<le> r / (METRES_PER_DEGREE * ?k)"
    using mult_left_mono [OF abs_sin_le_one [of "guess_angle key"], of "r / (METRES_PER_DEGREE * ?k)"]
    by (simp only: abs_mult [of "r / (METRES_PER_DEGREE * ?k)"] abs_of_nonneg mult_1_right)
  with q have "\<bar>r / (METRES_PER_DEGREE * ?k) * ?s\<bar> \<le> 5 * r / METRES_PER_DEGREE" by linarith
  then show "\<bar>snd (offsetGuessedPosition p key r) - snd p\<bar> \<le> 5 * r / METRES_PER_DEGREE"
    by (simp add: offsetGuessedPosition_def Let_def)
qed

subsection \<open>What a guess rests on\<close>

text \<open>The contact that a summary is about: the last of the list with its key.\<close>

definition guess_ok ::
    "app_contact list \<Rightarrow> heard_summary list \<Rightarrow> int \<Rightarrow> guess_anchor option \<Rightarrow> real \<Rightarrow> guessed_location \<Rightarrow> bool" where
  "guess_ok contacts summaries nowSec self maxKm g \<longleftrightarrow>
     (\<exists>c \<in> set contacts. \<exists>sm \<in> set summaries.
        gl_public_key g = ct_public_key c \<and> toLowerCase (ct_public_key c) = toLowerCase (hs_public_key sm) \<and>
        effective_place c = None \<and> (\<exists>t. ct_last_seen c = Some t \<and> nowSec - t \<le> GUESSED_LOCATION_STALE_SECONDS) \<and>
        gl_anchors g \<noteq> [] \<and>
        (\<forall>a \<in> set (gl_anchors g).
           path_anchor contacts self (nowSec - GUESSED_LOCATION_STALE_SECONDS) (hs_paths sm) a)) \<and>
     gl_highConfidence g = (2 \<le> length (gl_anchors g)) \<and> isFinitePosition (gl_lat g, gl_lon g)"

text \<open>A guess lies beside its anchors: at most 330 m north or south of the latitudes they span, and 1650 m in degrees
  of longitude at the equator.\<close>

definition beside_anchors :: "guessed_location \<Rightarrow> bool" where
  "beside_anchors g \<longleftrightarrow>
     (\<forall>lo hi. lats_between lo hi (gl_anchors g) \<longrightarrow>
        lo - 330 / METRES_PER_DEGREE \<le> gl_lat g \<and> gl_lat g \<le> hi + 330 / METRES_PER_DEGREE) \<and>
     (\<forall>lo hi. lons_between lo hi (gl_anchors g) \<longrightarrow>
        lo - 1650 / METRES_PER_DEGREE \<le> gl_lon g \<and> gl_lon g \<le> hi + 1650 / METRES_PER_DEGREE)"

lemma wide_lats: "\<exists>lo hi. lats_between lo hi as" and wide_lons: "\<exists>lo hi. lons_between lo hi as"
proof -
  have f: "\<exists>lo hi. \<forall>a \<in> set as. lo \<le> f a \<and> f a \<le> (hi :: real)" for f :: "guess_anchor \<Rightarrow> real"
  proof (induction as)
    case Nil
    show ?case by simp
  next
    case (Cons b bs)
    then obtain lo hi where "\<forall>a \<in> set bs. lo \<le> f a \<and> f a \<le> hi" by blast
    then show ?case by (intro exI [of _ "min lo (f b)"] exI [of _ "max hi (f b)"]) auto
  qed
  show "\<exists>lo hi. lats_between lo hi as" unfolding lats_between_def by (rule f)
  show "\<exists>lo hi. lons_between lo hi as" unfolding lons_between_def by (rule f)
qed

lemma offset_beside:
  assumes "as \<noteq> []" "p = offsetGuessedPosition (guess_base as) key (offset_radius as)"
  shows "(\<forall>lo hi. lats_between lo hi as \<longrightarrow>
      lo - 330 / METRES_PER_DEGREE \<le> fst p \<and> fst p \<le> hi + 330 / METRES_PER_DEGREE) \<and>
    (\<forall>lo hi. lons_between lo hi as \<longrightarrow>
      lo - 1650 / METRES_PER_DEGREE \<le> snd p \<and> snd p \<le> hi + 1650 / METRES_PER_DEGREE)"
proof -
  let ?r = "offset_radius as"
  have m: "0 < METRES_PER_DEGREE" by (simp add: METRES_PER_DEGREE_def)
  have r: "?r / METRES_PER_DEGREE \<le> 330 / METRES_PER_DEGREE" "5 * ?r / METRES_PER_DEGREE \<le> 1650 / METRES_PER_DEGREE"
    using radius_bounds [of as] m by (simp_all add: divide_right_mono)
  note off = offset_bounds [of ?r "guess_base as" key, folded assms(2), OF conjunct1 [OF radius_bounds]]
  obtain la lb where lats: "lats_between la lb as" using wide_lats by blast
  obtain wa wb where lons: "lons_between wa wb as" using wide_lons by blast
  have "lo - 330 / METRES_PER_DEGREE \<le> fst p \<and> fst p \<le> hi + 330 / METRES_PER_DEGREE" if "lats_between lo hi as" for lo hi
    using base_between [OF assms(1) that lons] off(1) r(1) by linarith
  moreover have "lo - 1650 / METRES_PER_DEGREE \<le> snd p \<and> snd p \<le> hi + 1650 / METRES_PER_DEGREE"
    if "lons_between lo hi as" for lo hi
    using base_between [OF assms(1) lats that] off(2) r(2) by linarith
  ultimately show ?thesis by blast
qed

lemma contacts_by_key:
  "\<forall>(k, c) \<in> set (foldl (\<lambda>m c. amap_set (toLowerCase (ct_public_key c)) c m) [] cs).
     c \<in> set cs \<and> k = toLowerCase (ct_public_key (c :: app_contact))"
proof (induction cs rule: rev_induct)
  case Nil
  show ?case by simp
next
  case (snoc c cs)
  let ?m = "foldl (\<lambda>m c. amap_set (toLowerCase (ct_public_key c)) c m) [] cs"
  have "\<forall>(k, d) \<in> set ?m. d \<in> set (cs @ [c]) \<and> k = toLowerCase (ct_public_key d)" using snoc by auto
  then have "\<forall>(k, d) \<in> set (amap_set (toLowerCase (ct_public_key c)) c ?m).
      d \<in> set (cs @ [c]) \<and> k = toLowerCase (ct_public_key d)"
    by (rule amap_set_all) simp
  then show ?case by simp
qed


subsection \<open>A node beside its repeater\<close>

definition guess_demo_repeater :: app_contact where
  "guess_demo_repeater = (demo_contact ''AABBCCDDEEFF'' ''Hill'' 2)\<lparr>ct_lat := Some 52, ct_lon := Some 5\<rparr>"

definition guess_demo_node :: app_contact where
  "guess_demo_node = (demo_contact ''112233445566'' ''Ann'' 1)\<lparr>ct_lat := None, ct_lon := None, ct_last_seen := Some 1000\<rparr>"

definition guess_demo_paths :: "heard_summary list" where
  "guess_demo_paths = [\<lparr>hs_public_key = (str ''112233445566''), hs_paths =
     [\<lparr>ap_next_hop = Some (str ''AABB''), ap_heard_count = 3, hp_path_len = 2, hp_last_seen = 900\<rparr>]\<rparr>]"

definition guess_demo :: "guessed_location list" where
  "guess_demo = computeGuessedLocations [guess_demo_repeater, guess_demo_node] guess_demo_paths 2000 None 15"

lemma guess_demo_anchors:
  "buildRepeaterAnchorIndex [guess_demo_repeater, guess_demo_node] =
     [((str ''aabb''), \<lparr>ga_public_key = (str ''AABBCCDDEEFF''), ga_lat = 52, ga_lon = 5, ga_isSelf = False\<rparr>),
      ((str ''aabbcc''), \<lparr>ga_public_key = (str ''AABBCCDDEEFF''), ga_lat = 52, ga_lon = 5, ga_isSelf = False\<rparr>)]"
  by (simp add: buildRepeaterAnchorIndex_def guess_demo_repeater_def guess_demo_node_def demo_contact_def
      CONTACT_TYPE_REPEATER_def USABLE_HOP_HEX_LENGTHS_def index_anchor_def effective_place_def contact.defs
      getEffectiveLocation_def isValidLocation_def toLowerCase_def lower_char_def str_def)

lemma guess_demo_place: "isFinitePosition (offsetGuessedPosition (52, 5) key 330)"
proof -
  have "\<bar>fst (offsetGuessedPosition (52, 5) key 330) - 52\<bar> \<le> 1" "\<bar>snd (offsetGuessedPosition (52, 5) key 330) - 5\<bar> \<le> 1"
    using offset_bounds [of 330 "(52, 5)" key] by (simp_all add: METRES_PER_DEGREE_def)
  then show ?thesis unfolding isFinitePosition_def by linarith
qed

lemma guess_demo_found: "guess_demo \<noteq> []"
proof -
  let ?by = "foldl (\<lambda>m c. amap_set (toLowerCase (ct_public_key c)) c m) [] [guess_demo_repeater, guess_demo_node]"
  let ?index = "buildRepeaterAnchorIndex [guess_demo_repeater, guess_demo_node]"
  have c: "map_of ?by (str ''112233445566'') = Some guess_demo_node"
    by (simp add: guess_demo_repeater_def guess_demo_node_def demo_contact_def toLowerCase_def lower_char_def str_def)
  have a: "anchorsForPaths (hs_paths (hd guess_demo_paths)) ?index None (2000 - GUESSED_LOCATION_STALE_SECONDS) =
      [\<lparr>ga_public_key = (str ''AABBCCDDEEFF''), ga_lat = 52, ga_lon = 5, ga_isSelf = False\<rparr>]"
    unfolding guess_demo_anchors
    by (simp add: guess_demo_paths_def anchorsForPaths_def anchor_step_def USABLE_HOP_HEX_LENGTHS_def add_anchor_def
        toLowerCase_def lower_char_def str_def)
  have "guess_for ?index ?by None 2000 15 (hd guess_demo_paths) \<noteq> None"
  proof -
    have k: "toLowerCase (hs_public_key (hd guess_demo_paths)) = (str ''112233445566'')"
      by (simp add: guess_demo_paths_def toLowerCase_def lower_char_def str_def)
    have n: "effective_place guess_demo_node = None" "ct_last_seen guess_demo_node = Some 1000"
      by (simp_all add: guess_demo_node_def demo_contact_def effective_place_def contact.defs getEffectiveLocation_def
          isValidLocation_def)
    show ?thesis unfolding guess_for_def k c option.case a
      by (simp add: n GUESSED_LOCATION_STALE_SECONDS_def Let_def filterConsistentAnchors_def guess_base_def
          offset_radius_def SINGLE_ANCHOR_OFFSET_M_def guess_demo_place)
  qed
  then show ?thesis using guess_demo_anchors
    by (auto simp: guess_demo_def computeGuessedLocations_def Let_def map_filter_def guess_demo_paths_def)
qed


end
