(* ===== verification/LiveMap.thy ===== *)
theory LiveMap
imports Network
begin

text \<open>The live packet map (\<^verbatim>\<open>frontend/src/map/packets/\<close>): \<^verbatim>\<open>packetAnimMath.ts\<close>, the time-indexed buffer of
  \<^verbatim>\<open>packetTimeline.ts\<close> and the clock of \<^verbatim>\<open>playbackController.ts\<close>. The buffer's network state is Network's and is passed
  through; the resolver of coordinates, the height of the ground and the colours of a user's palette are arguments. Times of
  packets are whole milliseconds; the clock, opacities and places are reals. The bounds \<open>None\<close> of the clock are the
  infinities.\<close>

unbundle bit_operations_syntax

subsection \<open>Animation\<close>

definition PULSE_MS :: real where "PULSE_MS = 1500"
definition GLOW_MS :: real where "GLOW_MS = 400"
definition LINK_FRESH_MS :: real where "LINK_FRESH_MS = 60000"
definition LINK_DIM_MS :: real where "LINK_DIM_MS = 900000"
definition LINK_FLOOR :: real where "LINK_FLOOR = 15 / 100"
definition DEFAULT_ARC_FADE_MS :: real where "DEFAULT_ARC_FADE_MS = LINK_DIM_MS"
definition BUFFER_MAX_MS :: real where "BUFFER_MAX_MS = 12000"

definition arcFreshMs :: "real \<Rightarrow> real" where
  "arcFreshMs fadeMs = fadeMs * LINK_FRESH_MS / LINK_DIM_MS"

definition clamp01 :: "real \<Rightarrow> real" where
  "clamp01 x = (if x < 0 then 0 else if x > 1 then 1 else x)"

definition livenessOpacity :: "real \<Rightarrow> real \<Rightarrow> real \<Rightarrow> real \<Rightarrow> real" where
  "livenessOpacity ageMs freshMs dimMs low =
     (if ageMs \<le> freshMs then 1
      else if ageMs \<ge> dimMs then low
      else 1 - (ageMs - freshMs) / (dimMs - freshMs) * (1 - low))"

definition pulseProgress :: "real \<Rightarrow> real \<Rightarrow> real \<Rightarrow> real" where
  "pulseProgress startMs nowMs durMs = clamp01 ((nowMs - startMs) / durMs)"

definition haversineMeters :: "real \<times> real \<Rightarrow> real \<times> real \<Rightarrow> real" where
  "haversineMeters a b =
     (let rad = pi / 180;
          dLat = (snd b - snd a) * rad; dLon = (fst b - fst a) * rad;
          la1 = snd a * rad; la2 = snd b * rad;
          h = (sin (dLat / 2))\<^sup>2 + cos la1 * cos la2 * (sin (dLon / 2))\<^sup>2
      in 2 * 6371000 * arcsin (min 1 (sqrt h)))"

definition pulsePosition :: "real \<times> real \<Rightarrow> real \<times> real \<Rightarrow> real \<Rightarrow> real \<Rightarrow> real \<times> real \<times> real" where
  "pulsePosition a b t bow =
     (let h = 2 * sqrt (max 0 (t * (1 - t)));
          chord = (if bow \<noteq> 0 then bow else haversineMeters a b * (15 / 100))
      in (fst a + (fst b - fst a) * t, snd a + (snd b - snd a) * t, h * chord))"

definition glowIntensity :: "real \<Rightarrow> real \<Rightarrow> real" where
  "glowIntensity ageMs durMs = (if ageMs < 0 then 1 else if ageMs \<ge> durMs then 0 else 1 - ageMs / durMs)"

type_synonym color = "int \<times> int \<times> int"

text \<open>\<^verbatim>\<open>h.replace(/./g, (c) => c + c)\<close>: the dot matches no line end.\<close>

definition double_char :: "nat \<Rightarrow> jstr" where
  "double_char c = (if c \<in> {10, 13, 8232, 8233} then [c] else [c, c])"

definition drop_hash :: "jstr \<Rightarrow> jstr" where
  "drop_hash h = takeWhile (\<lambda>c. c \<noteq> 35) h @ drop 1 (dropWhile (\<lambda>c. c \<noteq> 35) h)"

definition hexToRgb :: "jstr \<Rightarrow> color" where
  "hexToRgb hex =
     (let h = drop_hash hex;
          full = (if length h = 3 then concat (map double_char h) else h)
      in case parseInt16 full of
           None \<Rightarrow> (255, 255, 255)
         | Some n \<Rightarrow>
             if length full \<noteq> 6 then (255, 255, 255)
             else (drop_bit 16 n AND 255, drop_bit 8 n AND 255, n AND 255))"

record signal_colors =
  sc_bad :: jstr
  sc_mid :: jstr
  sc_good :: jstr

definition snr_stops :: "signal_colors option \<Rightarrow> (real \<times> color) list" where
  "snr_stops colors =
     (case colors of
        Some c \<Rightarrow> [(-20, hexToRgb (sc_bad c)), (0, hexToRgb (sc_mid c)), (10, hexToRgb (sc_good c))]
      | None \<Rightarrow> [(-20, (245, 158, 11)), (0, (59, 130, 246)), (10, (34, 197, 94))])"

definition mix :: "int \<Rightarrow> int \<Rightarrow> real \<Rightarrow> int" where
  "mix c0 c1 f = js_round (real_of_int c0 + (real_of_int c1 - real_of_int c0) * f)"

fun ramp :: "real \<Rightarrow> (real \<times> color) list \<Rightarrow> color" where
  "ramp snr ((x0, c0) # (x1, c1) # stops) =
     (if x0 \<le> snr \<and> snr \<le> x1 then
        (let f = (snr - x0) / (x1 - x0) in
         (mix (fst c0) (fst c1) f, mix (fst (snd c0)) (fst (snd c1)) f, mix (snd (snd c0)) (snd (snd c1)) f))
      else ramp snr ((x1, c1) # stops))"
| "ramp snr stops = (150, 150, 150)"

definition snrColor :: "real option \<Rightarrow> signal_colors option \<Rightarrow> color" where
  "snrColor snr colors =
     (case snr of
        None \<Rightarrow> (150, 150, 150)
      | Some s \<Rightarrow>
          let stops = snr_stops colors in
          if s \<le> fst (hd stops) then snd (hd stops)
          else if s \<ge> fst (last stops) then snd (last stops)
          else ramp s stops)"

definition PARTICLE_COLOR_MAP :: "(jstr \<times> jstr) list" where
  "PARTICLE_COLOR_MAP =
     [((str ''AD''), (str ''#f59e0b'')), ((str ''GT''), (str ''#06b6d4'')), ((str ''DM''), (str ''#8b5cf6'')), ((str ''ACK''), (str ''#22c55e'')), ((str ''TR''), (str ''#f97316'')),
      ((str ''RQ''), (str ''#ec4899'')), ((str ''RS''), (str ''#14b8a6'')), ((str ''?''), (str ''#6b7280''))]"

subsection \<open>The timeline\<close>

record arc_datum =
  ad_s :: "real \<times> real \<times> real"
  ad_t :: "real \<times> real \<times> real"
  ad_color :: color
  ad_opacity :: real
  ad_width :: real
  ad_witnessed :: bool

record pulse_datum =
  pu_pos :: "real \<times> real \<times> real"
  pu_color :: color
  pu_k :: real

record glow_datum =
  gd_pos :: "real \<times> real \<times> real"
  gd_color :: color
  gd_intensity :: real

record render_model =
  rm_arcs :: "arc_datum list"
  rm_pulses :: "pulse_datum list"
  rm_glows :: "glow_datum list"

record segment =
  sg_a :: "real \<times> real"
  sg_b :: "real \<times> real"
  sg_aId :: jstr
  sg_bId :: jstr
  sg_witnessed :: bool

record timeline_entry =
  te_heardMs :: int
  te_snrCol :: color
  te_typeCol :: color
  te_segments :: "segment list"
  te_glowPos :: "(real \<times> real) option"

record timeline =
  tl_seen :: "jstr list"
  tl_entries :: "timeline_entry list"
  tl_network :: network_state

record timeline_deps =
  td_resolveCoord :: "jstr \<Rightarrow> (real \<times> real) option"
  td_lib :: graph_decoder
  td_collate :: "jstr \<Rightarrow> jstr"
  td_selfName :: jstr
  td_maxEntries :: nat
  td_signalColors :: "signal_colors option"

definition coord_text :: "real \<times> real \<Rightarrow> jstr" where
  "coord_text a = toFixed (fst a) 5 @ (str '','') @ toFixed (snd a) 5"

definition segKey :: "real \<times> real \<Rightarrow> real \<times> real \<Rightarrow> jstr" where
  "segKey a b =
     (let ka = coord_text a; kb = coord_text b
      in if ka < kb then ka @ (str ''|'') @ kb else kb @ (str ''|'') @ ka)"

definition headPos :: "segment list \<Rightarrow> real \<Rightarrow> (real \<Rightarrow> real \<Rightarrow> real) \<Rightarrow> real \<times> real \<times> real" where
  "headPos segments t heightAt =
     (let n = length segments;
          scaled = min (max t 0) (999999 / 1000000) * real n;
          idx = min (nat \<lfloor>scaled\<rfloor>) (n - 1);
          part = scaled - real idx;
          sg = segments ! idx;
          (lon, lat, h) = pulsePosition (sg_a sg) (sg_b sg) part 0;
          ha = heightAt (fst (sg_a sg)) (snd (sg_a sg));
          hb = heightAt (fst (sg_b sg)) (snd (sg_b sg))
      in (lon, lat, h + (ha + (hb - ha) * part)))"

text \<open>The nodes of a path that have coordinates, as (longitude, latitude).\<close>

definition placed_nodes :: "timeline_deps \<Rightarrow> jstr list \<Rightarrow> (jstr \<times> real \<times> real) list" where
  "placed_nodes deps path =
     List.map_filter (\<lambda>i. map_option (\<lambda>(lat, lon). (i, lon, lat)) (td_resolveCoord deps i)) path"

definition make_segment :: "(jstr \<times> real \<times> real) \<times> (jstr \<times> real \<times> real) \<Rightarrow> segment" where
  "make_segment p =
     (let ((ia, a), (ib, b)) = p
      in \<lparr>sg_a = a, sg_b = b, sg_aId = ia, sg_bId = ib, sg_witnessed = (ia = SELF \<or> ib = SELF)\<rparr>)"

definition buildSegments :: "timeline_deps \<Rightarrow> jstr list \<Rightarrow> segment list \<times> (real \<times> real) option" where
  "buildSegments deps canonicalPath =
     (let pts = placed_nodes deps canonicalPath;
          segments = map make_segment (pairs_of pts);
          glowPos =
            (case find sg_witnessed segments of
               Some w \<Rightarrow> Some (if sg_aId w = SELF then sg_b w else sg_a w)
             | None \<Rightarrow> if length pts > 0 then Some (snd (last pts)) else None)
      in (segments, glowPos))"

definition ingest_packet ::
    "timeline_deps \<Rightarrow> int \<Rightarrow> network_context \<Rightarrow> timeline \<times> nat \<Rightarrow> raw_packet \<Rightarrow> timeline \<times> nat" where
  "ingest_packet deps now ctx s pkt =
     (let (tm, added) = s; key = getRawPacketObservationKey pkt in
      if key \<in> set (tl_seen tm) then (tm, added)
      else
        let (st, r) = ingestPacketIntoPacketNetwork (td_lib deps) (td_collate deps) now ctx pkt (tl_network tm);
            tm1 = tm\<lparr>tl_seen := tl_seen tm @ [key], tl_network := st\<rparr>
        in case r of
             None \<Rightarrow> (tm1, added)
           | Some res \<Rightarrow>
               let (segments, glowPos) = buildSegments deps (ig_canonicalPath res);
                   e = \<lparr>te_heardMs = ig_activityAtMs res, te_snrCol = snrColor (rk_snr pkt) (td_signalColors deps),
                        te_typeCol = hexToRgb (case map_of PARTICLE_COLOR_MAP (ig_label res) of
                                                 Some c \<Rightarrow> c | None \<Rightarrow> (str ''#ffffff'')),
                        te_segments = segments, te_glowPos = glowPos\<rparr>
               in (tm1\<lparr>tl_entries := tl_entries tm1 @ [e]\<rparr>, added + 1))"

definition timeline_ingest :: "timeline_deps \<Rightarrow> int \<Rightarrow> network_context \<Rightarrow> raw_packet list \<Rightarrow> timeline \<Rightarrow> timeline \<times> nat" where
  "timeline_ingest deps now ctx packets tm =
     (if packets = [] then (tm, 0)
      else
        let tm0 = tm\<lparr>tl_network := ensureSelfNode now (td_selfName deps) (tl_network tm)\<rparr>;
            (tm1, added) = foldl (ingest_packet deps now ctx) (tm0, 0) packets;
            tm2 = (if length (tl_entries tm1) > td_maxEntries deps
                   then tm1\<lparr>tl_entries := slice_last (td_maxEntries deps) (tl_entries tm1)\<rparr> else tm1);
            tm3 = (if length (tl_seen tm2) > td_maxEntries deps * 2 then tm2\<lparr>tl_seen := []\<rparr> else tm2)
        in (tm3, added))"

definition timeline_range :: "timeline \<Rightarrow> int \<times> int" where
  "timeline_range tm =
     (if tl_entries tm = [] then (0, 0)
      else (Min (set (map te_heardMs (tl_entries tm))), Max (set (map te_heardMs (tl_entries tm)))))"

definition timeline_prune :: "int \<Rightarrow> timeline \<Rightarrow> timeline" where
  "timeline_prune lookbackMs tm =
     (if tl_entries tm = [] then tm
      else
        let cutoff = Max (set (map te_heardMs (tl_entries tm))) - lookbackMs
        in tm\<lparr>tl_entries := filter (\<lambda>e. te_heardMs e \<ge> cutoff) (tl_entries tm),
              tl_network := fst (prunePacketNetworkState cutoff (tl_network tm))\<rparr>)"

definition timeline_reset :: "timeline \<Rightarrow> timeline" where
  "timeline_reset tm = tm\<lparr>tl_entries := [], tl_seen := []\<rparr>"

subsection \<open>What is on screen at a time\<close>

record render_options =
  ro_pulses :: bool
  ro_glows :: bool
  ro_fadeMs :: real
  ro_heightAt :: "real \<Rightarrow> real \<Rightarrow> real"

definition arc_of :: "render_options \<Rightarrow> real \<Rightarrow> timeline_entry \<Rightarrow> segment \<Rightarrow> arc_datum" where
  "arc_of opts opacity e s =
     (let lift = (\<lambda>p. (fst p, snd p, ro_heightAt opts (fst p) (snd p))) in
      \<lparr>ad_s = lift (sg_a s), ad_t = lift (sg_b s), ad_color = te_snrCol e, ad_opacity = opacity,
       ad_width = (if sg_witnessed s then 3 else 3 / 2), ad_witnessed = sg_witnessed s\<rparr>)"

definition add_arc ::
    "render_options \<Rightarrow> real \<Rightarrow> timeline_entry \<Rightarrow> (jstr \<times> int \<times> arc_datum) list \<Rightarrow> segment \<Rightarrow> (jstr \<times> int \<times> arc_datum) list" where
  "add_arc opts opacity e acc s =
     (let key = segKey (sg_a s) (sg_b s) in
      case map_of acc key of
        Some prev \<Rightarrow> if te_heardMs e > fst prev then amap_set key (te_heardMs e, arc_of opts opacity e s) acc else acc
      | None \<Rightarrow> amap_set key (te_heardMs e, arc_of opts opacity e s) acc)"

type_synonym screen = "(jstr \<times> int \<times> arc_datum) list \<times> pulse_datum list \<times> glow_datum list"

definition show_entry :: "render_options \<Rightarrow> real \<Rightarrow> screen \<Rightarrow> timeline_entry \<Rightarrow> screen" where
  "show_entry opts currentMs scr e =
     (let (arcs, pulses, glows) = scr; heard = real_of_int (te_heardMs e) in
      if heard > currentMs then scr
      else
        let age = currentMs - heard;
            arcs' =
              (if age < ro_fadeMs opts
               then foldl (add_arc opts (livenessOpacity age (arcFreshMs (ro_fadeMs opts)) (ro_fadeMs opts) LINK_FLOOR) e)
                      arcs (te_segments e)
               else arcs);
            p = pulseProgress heard currentMs PULSE_MS;
            pulses' =
              (if ro_pulses opts \<and> length (te_segments e) > 0 \<and> 0 < p \<and> p < 1
               then pulses @ [\<lparr>pu_pos = headPos (te_segments e) p (ro_heightAt opts), pu_color = te_typeCol e,
                               pu_k = sin (pi * p)\<rparr>]
               else pulses);
            glows' =
              (case te_glowPos e of
                 Some g \<Rightarrow>
                   if ro_glows opts \<and> 0 \<le> age \<and> age < GLOW_MS
                   then glows @ [\<lparr>gd_pos = (fst g, snd g, ro_heightAt opts (fst g) (snd g)), gd_color = te_typeCol e,
                                  gd_intensity = glowIntensity age GLOW_MS\<rparr>]
                   else glows
               | None \<Rightarrow> glows)
        in (arcs', pulses', glows'))"

definition stateAsOf :: "real \<Rightarrow> render_options \<Rightarrow> timeline \<Rightarrow> render_model" where
  "stateAsOf currentMs opts tm =
     (let (arcs, pulses, glows) = foldl (show_entry opts currentMs) ([], [], []) (tl_entries tm)
      in \<lparr>rm_arcs = map (\<lambda>(k, h, d). d) arcs, rm_pulses = pulses, rm_glows = glows\<rparr>)"

subsection \<open>The clock\<close>

datatype playback_mode = Live | Replay

record playback_snapshot =
  ps_mode :: playback_mode
  ps_currentMs :: real
  ps_rate :: real
  ps_playing :: bool

record playback =
  pb_now :: playback_snapshot
  pb_bufferMs :: real
  pb_minMs :: "real option"
  pb_maxMs :: "real option"
  pb_lastWallMs :: "real option"
  pb_emitted :: playback_snapshot

definition clamp :: "real \<Rightarrow> real option \<Rightarrow> real option \<Rightarrow> real" where
  "clamp x lo hi =
     (case (lo, hi) of
        (Some l, Some h) \<Rightarrow> if h < l then l else if x < l then l else if x > h then h else x
      | (Some l, None) \<Rightarrow> if x < l then l else x
      | (None, Some h) \<Rightarrow> if x > h then h else x
      | (None, None) \<Rightarrow> x)"

definition createPlaybackController :: "playback_snapshot \<Rightarrow> playback" where
  "createPlaybackController init =
     \<lparr>pb_now = init, pb_bufferMs = 0, pb_minMs = None, pb_maxMs = None, pb_lastWallMs = None, pb_emitted = init\<rparr>"

text \<open>A step yields the next state and the snapshot its subscribers are given, if any.\<close>

definition notify :: "playback \<Rightarrow> playback \<times> playback_snapshot option" where
  "notify pb = (if pb_now pb = pb_emitted pb then (pb, None) else (pb\<lparr>pb_emitted := pb_now pb\<rparr>, Some (pb_now pb)))"

definition set_clock :: "real \<Rightarrow> playback \<Rightarrow> playback" where
  "set_clock t pb = pb\<lparr>pb_now := (pb_now pb)\<lparr>ps_currentMs := t\<rparr>\<rparr>"

definition pb_tick :: "real \<Rightarrow> playback \<Rightarrow> playback \<times> playback_snapshot option" where
  "pb_tick wallMs pb =
     (let n = pb_now pb; pb1 = pb\<lparr>pb_lastWallMs := Some wallMs\<rparr> in
      if ps_mode n = Live then
        (let t = wallMs - pb_bufferMs pb in if t \<noteq> ps_currentMs n then notify (set_clock t pb1) else (pb1, None))
      else if \<not> ps_playing n then (pb1, None)
      else
        case pb_lastWallMs pb of
          None \<Rightarrow> (pb1, None)
        | Some lastWall \<Rightarrow>
            let t = ps_currentMs n + (wallMs - lastWall) * ps_rate n;
                ended = (case pb_maxMs pb of Some m \<Rightarrow> t \<ge> m | None \<Rightarrow> False);
                t' = (if ended then the (pb_maxMs pb) else t);
                pb2 = (if ended then pb1\<lparr>pb_now := n\<lparr>ps_playing := False\<rparr>\<rparr> else pb1)
            in notify (set_clock (clamp t' (pb_minMs pb) (pb_maxMs pb)) pb2))"

definition pb_setNewest :: "real \<Rightarrow> playback \<Rightarrow> playback \<times> playback_snapshot option" where
  "pb_setNewest newest pb =
     (case pb_maxMs pb of
        None \<Rightarrow> (pb\<lparr>pb_maxMs := Some newest\<rparr>, None)
      | Some m \<Rightarrow> (if newest > m then pb\<lparr>pb_maxMs := Some newest\<rparr> else pb, None))"

definition pb_setBufferMs :: "real \<Rightarrow> playback \<Rightarrow> playback \<times> playback_snapshot option" where
  "pb_setBufferMs ms pb = (pb\<lparr>pb_bufferMs := clamp ms (Some 0) (Some BUFFER_MAX_MS)\<rparr>, None)"

definition pb_goLive :: "playback \<Rightarrow> playback \<times> playback_snapshot option" where
  "pb_goLive pb =
     notify (pb\<lparr>pb_now := (pb_now pb)\<lparr>ps_mode := Live, ps_playing := True\<rparr>, pb_lastWallMs := None\<rparr>)"

definition pb_pause :: "playback \<Rightarrow> playback \<times> playback_snapshot option" where
  "pb_pause pb = notify (pb\<lparr>pb_now := (pb_now pb)\<lparr>ps_mode := Replay, ps_playing := False\<rparr>\<rparr>)"

definition pb_play :: "playback \<Rightarrow> playback \<times> playback_snapshot option" where
  "pb_play pb = notify (pb\<lparr>pb_now := (pb_now pb)\<lparr>ps_playing := True\<rparr>, pb_lastWallMs := None\<rparr>)"

definition pb_setRate :: "real \<Rightarrow> playback \<Rightarrow> playback \<times> playback_snapshot option" where
  "pb_setRate r pb = notify (pb\<lparr>pb_now := (pb_now pb)\<lparr>ps_rate := r\<rparr>\<rparr>)"

definition pb_seek :: "real \<Rightarrow> playback \<Rightarrow> playback \<times> playback_snapshot option" where
  "pb_seek ms pb =
     notify (pb\<lparr>pb_now := (pb_now pb)\<lparr>ps_mode := Replay, ps_currentMs := clamp ms (pb_minMs pb) (pb_maxMs pb)\<rparr>,
                pb_lastWallMs := None\<rparr>)"

definition pb_setRange :: "real \<Rightarrow> real \<Rightarrow> playback \<Rightarrow> playback \<times> playback_snapshot option" where
  "pb_setRange lo hi pb =
     (let pb1 = pb\<lparr>pb_minMs := Some lo, pb_maxMs := Some hi\<rparr> in
      notify (if ps_mode (pb_now pb) = Replay
              then set_clock (clamp (ps_currentMs (pb_now pb)) (Some lo) (Some hi)) pb1 else pb1))"

subsection \<open>The screen is a picture of the past\<close>

lemma show_entry_future: "real_of_int (te_heardMs e) > t \<Longrightarrow> show_entry opts t scr e = scr"
  by (simp add: show_entry_def split_beta)

lemma show_past:
  "foldl (show_entry opts t) scr es = foldl (show_entry opts t) scr (filter (\<lambda>e. real_of_int (te_heardMs e) \<le> t) es)"
  by (induction es arbitrary: scr) (simp_all add: show_entry_future)

text \<open>What is shown at a time depends only on what was heard until then: packets ingested later never change it.\<close>

theorem screen_of_the_past:
  "stateAsOf t opts tm = stateAsOf t opts (tm\<lparr>tl_entries := filter (\<lambda>e. real_of_int (te_heardMs e) \<le> t) (tl_entries tm)\<rparr>)"
  unfolding stateAsOf_def by (simp add: show_past [symmetric])

text \<open>An entry whose arcs are shown.\<close>

definition fresh_entry :: "render_options \<Rightarrow> real \<Rightarrow> timeline_entry \<Rightarrow> bool" where
  "fresh_entry opts t e \<longleftrightarrow> real_of_int (te_heardMs e) \<le> t \<and> t - real_of_int (te_heardMs e) < ro_fadeMs opts"

definition opacity_at :: "render_options \<Rightarrow> real \<Rightarrow> timeline_entry \<Rightarrow> real" where
  "opacity_at opts t e =
     livenessOpacity (t - real_of_int (te_heardMs e)) (arcFreshMs (ro_fadeMs opts)) (ro_fadeMs opts) LINK_FLOOR"

text \<open>The arcs so far, of the segments seen so far: each stretch once, by the newest entry that has it.\<close>

definition arc_from :: "render_options \<Rightarrow> real \<Rightarrow> (timeline_entry \<times> segment) list \<Rightarrow> jstr \<Rightarrow> int \<times> arc_datum \<Rightarrow> bool" where
  "arc_from opts t seen k v \<longleftrightarrow>
     (\<exists>(e, s) \<in> set seen. segKey (sg_a s) (sg_b s) = k \<and> v = (te_heardMs e, arc_of opts (opacity_at opts t e) e s)) \<and>
     (\<forall>(e, s) \<in> set seen. segKey (sg_a s) (sg_b s) = k \<longrightarrow> te_heardMs e \<le> fst v)"

definition arcs_ok :: "render_options \<Rightarrow> real \<Rightarrow> (timeline_entry \<times> segment) list \<Rightarrow> (jstr \<times> int \<times> arc_datum) list \<Rightarrow> bool" where
  "arcs_ok opts t seen acc \<longleftrightarrow>
     amap_ok acc \<and> (\<forall>k v. map_of acc k = Some v \<longrightarrow> arc_from opts t seen k v) \<and>
     (\<forall>(e, s) \<in> set seen. map_of acc (segKey (sg_a s) (sg_b s)) \<noteq> None)"

lemma arc_from_other:
  "arc_from opts t seen k v \<Longrightarrow> segKey (sg_a s) (sg_b s) \<noteq> k \<Longrightarrow> arc_from opts t (seen @ [(e, s)]) k v"
  by (auto simp: arc_from_def)

lemma arc_from_newer:
  assumes "\<And>v. map_of acc k = Some v \<Longrightarrow> arc_from opts t seen k v" "segKey (sg_a s) (sg_b s) = k"
    and "map_of acc k = None \<Longrightarrow> \<forall>(e, s) \<in> set seen. segKey (sg_a s) (sg_b s) \<noteq> k"
    and "\<And>v. map_of acc k = Some v \<Longrightarrow> fst v < te_heardMs e"
  shows "arc_from opts t (seen @ [(e, s)]) k (te_heardMs e, arc_of opts (opacity_at opts t e) e s)"
proof (cases "map_of acc k")
  case None
  then show ?thesis using assms(2,3) by (auto simp: arc_from_def)
next
  case (Some v)
  then have "\<forall>(e', s') \<in> set seen. segKey (sg_a s') (sg_b s') = k \<longrightarrow> te_heardMs e' \<le> te_heardMs e"
    using assms(1) [OF Some] assms(4) [OF Some] by (fastforce simp: arc_from_def)
  then show ?thesis using assms(2) by (auto simp: arc_from_def)
qed

lemma arc_from_older:
  "arc_from opts t seen k v \<Longrightarrow> te_heardMs e \<le> fst v \<Longrightarrow> arc_from opts t (seen @ [(e, s)]) k v"
  unfolding arc_from_def by auto

lemma add_arc_ok:
  assumes "arcs_ok opts t seen acc"
  shows "arcs_ok opts t (seen @ [(e, s)]) (add_arc opts (opacity_at opts t e) e acc s)"
proof -
  let ?k = "segKey (sg_a s) (sg_b s)"
  let ?v = "(te_heardMs e, arc_of opts (opacity_at opts t e) e s)"
  have ok: "amap_ok acc" and from': "\<And>k v. map_of acc k = Some v \<Longrightarrow> arc_from opts t seen k v"
    and all: "\<forall>(e, s) \<in> set seen. map_of acc (segKey (sg_a s) (sg_b s)) \<noteq> None"
    using assms by (auto simp: arcs_ok_def)
  show ?thesis
  proof (cases "\<exists>prev. map_of acc ?k = Some prev \<and> te_heardMs e \<le> fst prev")
    case True
    then obtain prev where prev: "map_of acc ?k = Some prev" "te_heardMs e \<le> fst prev" by blast
    have step: "add_arc opts (opacity_at opts t e) e acc s = acc" using prev by (simp add: add_arc_def)
    have "arc_from opts t (seen @ [(e, s)]) k v" if "map_of acc k = Some v" for k v
      using arc_from_other [OF from' [OF that], of s e] arc_from_older [OF from' [OF that], of e s] that prev
      by (cases "k = ?k") auto
    moreover have "map_of acc (segKey (sg_a s) (sg_b s)) \<noteq> None" using prev by simp
    ultimately show ?thesis unfolding step arcs_ok_def using ok all by (simp del: map_of_eq_Some_iff)
  next
    case False
    then have step: "add_arc opts (opacity_at opts t e) e acc s = amap_set ?k ?v acc"
      by (auto simp: add_arc_def Let_def split: option.split)
    have new: "arc_from opts t (seen @ [(e, s)]) ?k ?v"
      by (rule arc_from_newer [of acc]) (use from' all False in \<open>auto simp: not_le\<close>)
    have "arc_from opts t (seen @ [(e, s)]) k v" if "map_of (amap_set ?k ?v acc) k = Some v" for k v
      using arc_from_other [of opts t seen k v s e] from' [of k v] new that by (cases "k = ?k") auto
    then show ?thesis unfolding step arcs_ok_def using ok all by auto
  qed
qed

lemma add_arcs_ok:
  "arcs_ok opts t seen acc \<Longrightarrow>
   arcs_ok opts t (seen @ map (Pair e) ss) (foldl (add_arc opts (opacity_at opts t e) e) acc ss)"
proof (induction ss rule: rev_induct)
  case Nil
  then show ?case by simp
next
  case (snoc s ss)
  from add_arc_ok [OF snoc.IH [OF snoc.prems], of e s] show ?case by simp
qed

definition shown_segments :: "render_options \<Rightarrow> real \<Rightarrow> timeline_entry list \<Rightarrow> (timeline_entry \<times> segment) list" where
  "shown_segments opts t es = concat (map (\<lambda>e. map (Pair e) (te_segments e)) (filter (fresh_entry opts t) es))"

definition pulse_ok :: "pulse_datum \<Rightarrow> bool" where "pulse_ok p \<longleftrightarrow> 0 < pu_k p \<and> pu_k p \<le> 1"
definition glow_ok :: "glow_datum \<Rightarrow> bool" where "glow_ok g \<longleftrightarrow> 0 < gd_intensity g \<and> gd_intensity g \<le> 1"

definition screen_ok :: "render_options \<Rightarrow> real \<Rightarrow> timeline_entry list \<Rightarrow> screen \<Rightarrow> bool" where
  "screen_ok opts t es scr \<longleftrightarrow>
     arcs_ok opts t (shown_segments opts t es) (fst scr) \<and>
     (\<forall>p \<in> set (fst (snd scr)). pulse_ok p) \<and> (\<forall>g \<in> set (snd (snd scr)). glow_ok g)"

lemma sin_envelope: "0 < p \<Longrightarrow> p < 1 \<Longrightarrow> 0 < sin (pi * p) \<and> sin (pi * p) \<le> 1"
  by (simp add: sin_gt_zero)

lemma show_entry_parts:
  assumes "real_of_int (te_heardMs e) \<le> t"
  shows "fst (show_entry opts t scr e) =
      (if t - real_of_int (te_heardMs e) < ro_fadeMs opts
       then foldl (add_arc opts (opacity_at opts t e) e) (fst scr) (te_segments e) else fst scr)"
    and "\<exists>ps. fst (snd (show_entry opts t scr e)) = fst (snd scr) @ ps \<and> (\<forall>p \<in> set ps. pulse_ok p)"
    and "\<exists>gs. snd (snd (show_entry opts t scr e)) = snd (snd scr) @ gs \<and> (\<forall>g \<in> set gs. glow_ok g)"
proof -
  obtain arcs pulses glows where scr: "scr = (arcs, pulses, glows)" by (cases scr)
  have not_gt: "\<not> real_of_int (te_heardMs e) > t" using assms by simp
  let ?p = "pulseProgress (real_of_int (te_heardMs e)) t PULSE_MS"
  let ?age = "t - real_of_int (te_heardMs e)"
  show "fst (show_entry opts t scr e) =
      (if ?age < ro_fadeMs opts
       then foldl (add_arc opts (opacity_at opts t e) e) (fst scr) (te_segments e) else fst scr)"
    using not_gt by (simp add: show_entry_def scr Let_def opacity_at_def)
  have p: "fst (snd (show_entry opts t scr e)) =
      (if ro_pulses opts \<and> length (te_segments e) > 0 \<and> 0 < ?p \<and> ?p < 1
       then pulses @ [\<lparr>pu_pos = headPos (te_segments e) ?p (ro_heightAt opts), pu_color = te_typeCol e, pu_k = sin (pi * ?p)\<rparr>]
       else pulses)"
    using not_gt by (simp only: show_entry_def scr Let_def prod.case if_False fst_conv snd_conv)
  show "\<exists>ps. fst (snd (show_entry opts t scr e)) = fst (snd scr) @ ps \<and> (\<forall>p \<in> set ps. pulse_ok p)"
  proof (cases "ro_pulses opts \<and> length (te_segments e) > 0 \<and> 0 < ?p \<and> ?p < 1")
    case True
    with p have "fst (snd (show_entry opts t scr e)) =
        pulses @ [\<lparr>pu_pos = headPos (te_segments e) ?p (ro_heightAt opts), pu_color = te_typeCol e, pu_k = sin (pi * ?p)\<rparr>]"
      by presburger
    moreover have "0 < sin (pi * ?p) \<and> sin (pi * ?p) \<le> 1" using True sin_envelope by blast
    ultimately show ?thesis by (simp add: scr pulse_ok_def)
  next
    case False
    with p have "fst (snd (show_entry opts t scr e)) = pulses" by presburger
    then show ?thesis by (simp add: scr)
  qed
  have g: "snd (snd (show_entry opts t scr e)) =
      (case te_glowPos e of
         Some g \<Rightarrow>
           if ro_glows opts \<and> 0 \<le> ?age \<and> ?age < GLOW_MS
           then glows @ [\<lparr>gd_pos = (fst g, snd g, ro_heightAt opts (fst g) (snd g)), gd_color = te_typeCol e,
                          gd_intensity = glowIntensity ?age GLOW_MS\<rparr>]
           else glows
       | None \<Rightarrow> glows)"
    using not_gt by (simp only: show_entry_def scr Let_def prod.case if_False fst_conv snd_conv)
  have intensity: "0 < glowIntensity ?age GLOW_MS \<and> glowIntensity ?age GLOW_MS \<le> 1" if "0 \<le> ?age" "?age < GLOW_MS"
    using that by (simp add: glowIntensity_def GLOW_MS_def)
  show "\<exists>gs. snd (snd (show_entry opts t scr e)) = snd (snd scr) @ gs \<and> (\<forall>g \<in> set gs. glow_ok g)"
    unfolding g using intensity by (simp add: scr glow_ok_def split: option.split)
qed

lemma show_entry_ok:
  assumes "screen_ok opts t es scr"
  shows "screen_ok opts t (es @ [e]) (show_entry opts t scr e)"
proof (cases "real_of_int (te_heardMs e) > t")
  case True
  then have "\<not> fresh_entry opts t e" by (simp add: fresh_entry_def)
  with True assms show ?thesis by (simp add: show_entry_future screen_ok_def shown_segments_def)
next
  case False
  then have past: "real_of_int (te_heardMs e) \<le> t" by simp
  have "arcs_ok opts t (shown_segments opts t es) (fst scr)" using assms by (simp add: screen_ok_def)
  then have "arcs_ok opts t (shown_segments opts t (es @ [e])) (fst (show_entry opts t scr e))"
    unfolding show_entry_parts(1) [OF past] using add_arcs_ok past by (simp add: shown_segments_def fresh_entry_def)
  moreover have "\<forall>p \<in> set (fst (snd (show_entry opts t scr e))). pulse_ok p"
    using show_entry_parts(2) [OF past, of opts scr] assms by (auto simp: screen_ok_def)
  moreover have "\<forall>g \<in> set (snd (snd (show_entry opts t scr e))). glow_ok g"
    using show_entry_parts(3) [OF past, of opts scr] assms by (auto simp: screen_ok_def)
  ultimately show ?thesis by (simp add: screen_ok_def)
qed

lemma screen_run: "screen_ok opts t es (foldl (show_entry opts t) ([], [], []) es)"
proof (induction es rule: rev_induct)
  case Nil
  show ?case by (simp add: screen_ok_def arcs_ok_def shown_segments_def)
next
  case (snoc e es)
  then show ?case by (simp add: show_entry_ok)
qed

lemma livenessOpacity_bounds:
  assumes "fresh < gone" "x < gone" "0 \<le> low" "low \<le> 1"
  shows "low \<le> livenessOpacity x fresh gone low \<and> livenessOpacity x fresh gone low \<le> 1"
proof (cases "x \<le> fresh")
  case True
  then show ?thesis using assms by (simp add: livenessOpacity_def)
next
  case False
  define f where "f = (x - fresh) / (gone - fresh)"
  have f: "0 \<le> f" "f \<le> 1" using False assms by (simp_all add: f_def field_simps)
  have "f * (1 - low) \<le> 1 * (1 - low)" using f assms by (intro mult_right_mono) simp_all
  moreover have "0 \<le> f * (1 - low)" using f assms by simp
  moreover have "livenessOpacity x fresh gone low = 1 - f * (1 - low)"
    using False assms by (simp add: livenessOpacity_def f_def)
  ultimately show ?thesis by simp
qed

lemma opacity_bounds:
  assumes "real_of_int (te_heardMs e) \<le> t" "t - real_of_int (te_heardMs e) < ro_fadeMs opts"
  shows "LINK_FLOOR \<le> opacity_at opts t e \<and> opacity_at opts t e \<le> 1"
proof -
  have fade: "0 < ro_fadeMs opts" using assms by linarith
  then have "arcFreshMs (ro_fadeMs opts) < ro_fadeMs opts"
    by (simp add: arcFreshMs_def LINK_FRESH_MS_def LINK_DIM_MS_def)
  then show ?thesis unfolding opacity_at_def
    by (rule livenessOpacity_bounds) (use assms in \<open>simp_all add: LINK_FLOOR_def\<close>)
qed

text \<open>On the screen at a time, every arc is a stretch of a path that was heard before, within the arcs' lifetime, by
  the newest packet that took it, never fainter than the floor; every such stretch has its arc, and no stretch has two.\<close>

definition true_screen :: "render_options \<Rightarrow> real \<Rightarrow> (timeline_entry \<times> segment) list \<Rightarrow> render_model \<Rightarrow> bool" where
  "true_screen opts t heard m \<longleftrightarrow>
     (\<exists>acc. rm_arcs m = map (\<lambda>(k, h, d). d) acc \<and> amap_ok acc \<and>
       (\<forall>(k, h, d) \<in> set acc. LINK_FLOOR \<le> ad_opacity d \<and> ad_opacity d \<le> 1 \<and> arc_from opts t heard k (h, d)) \<and>
       (\<forall>(e, s) \<in> set heard. segKey (sg_a s) (sg_b s) \<in> set (amap_keys acc))) \<and>
     (\<forall>p \<in> set (rm_pulses m). pulse_ok p) \<and> (\<forall>g \<in> set (rm_glows m). glow_ok g)"

text \<open>C27: On the screen at a time, every arc is a stretch of a path that was heard before, within the arcs' lifetime, by
  the newest packet that took it, never fainter than the floor; every such stretch has its arc, and no stretch has two;
  pulses and glows lie strictly between gone and full.\<close>

theorem screen_shows_newest:
  "true_screen opts t (shown_segments opts t (tl_entries tm)) (stateAsOf t opts tm)"
proof -
  let ?heard = "shown_segments opts t (tl_entries tm)"
  let ?scr = "foldl (show_entry opts t) ([], [], []) (tl_entries tm)"
  let ?acc = "fst ?scr"
  have ok: "screen_ok opts t (tl_entries tm) ?scr" by (rule screen_run)
  then have arcs: "arcs_ok opts t ?heard ?acc" by (simp add: screen_ok_def)
  then have am: "amap_ok ?acc" by (simp add: arcs_ok_def)
  have m: "rm_arcs (stateAsOf t opts tm) = map (\<lambda>(k, h, d). d) ?acc" "rm_pulses (stateAsOf t opts tm) = fst (snd ?scr)"
      "rm_glows (stateAsOf t opts tm) = snd (snd ?scr)"
    by (simp_all add: stateAsOf_def split_beta)
  have each: "LINK_FLOOR \<le> ad_opacity d \<and> ad_opacity d \<le> 1 \<and> arc_from opts t ?heard k (h, d)"
    if "(k, h, d) \<in> set ?acc" for k h d
  proof -
    have "map_of ?acc k = Some (h, d)" using that am by simp
    then have af: "arc_from opts t ?heard k (h, d)" using arcs by (simp add: arcs_ok_def)
    then obtain e s where es: "(e, s) \<in> set ?heard" "d = arc_of opts (opacity_at opts t e) e s"
      by (auto simp: arc_from_def)
    have "fresh_entry opts t e" using es(1) by (auto simp: shown_segments_def)
    then have "LINK_FLOOR \<le> ad_opacity d \<and> ad_opacity d \<le> 1"
      using opacity_bounds by (simp add: es(2) arc_of_def Let_def fresh_entry_def)
    then show ?thesis using af by blast
  qed
  have "\<forall>(e, s) \<in> set ?heard. segKey (sg_a s) (sg_b s) \<in> set (amap_keys ?acc)"
    using arcs unfolding arcs_ok_def by (auto simp: map_of_eq_None_iff)
  then show ?thesis unfolding true_screen_def m using am each ok by (auto simp: screen_ok_def)
qed

subsection \<open>The timeline stays within its bounds\<close>

datatype timeline_op =
  TlIngest network_context int "raw_packet list" | TlPrune int | TlReset

definition timeline_step :: "timeline_deps \<Rightarrow> timeline \<Rightarrow> timeline_op \<Rightarrow> timeline" where
  "timeline_step deps tm op' =
     (case op' of
        TlIngest ctx now packets \<Rightarrow> fst (timeline_ingest deps now ctx packets tm)
      | TlPrune lookback \<Rightarrow> timeline_prune lookback tm
      | TlReset \<Rightarrow> timeline_reset tm)"

definition timeline_ok :: "timeline \<Rightarrow> bool" where
  "timeline_ok tm \<longleftrightarrow> distinct (tl_seen tm) \<and> network_ok (tl_network tm)"

lemma ingest_packet_ok:
  assumes "timeline_ok (fst s)"
  shows "timeline_ok (fst (ingest_packet deps now ctx s pkt)) \<and>
    (\<exists>es. tl_entries (fst (ingest_packet deps now ctx s pkt)) = tl_entries (fst s) @ es \<and>
          snd (ingest_packet deps now ctx s pkt) = snd s + length es) \<and>
    set (tl_seen (fst s)) \<subseteq> set (tl_seen (fst (ingest_packet deps now ctx s pkt)))"
proof -
  have "network_ok (fst (ingestPacketIntoPacketNetwork (td_lib deps) (td_collate deps) now ctx pkt (tl_network (fst s))))"
    using assms by (simp add: timeline_ok_def ingest_ok)
  with assms show ?thesis
    by (auto simp: ingest_packet_def timeline_ok_def split_beta Let_def split: option.split)
qed

lemma ingest_packets_ok:
  assumes "timeline_ok (fst s)"
  shows "timeline_ok (fst (foldl (ingest_packet deps now ctx) s pkts)) \<and>
    (\<exists>es. tl_entries (fst (foldl (ingest_packet deps now ctx) s pkts)) = tl_entries (fst s) @ es \<and>
          snd (foldl (ingest_packet deps now ctx) s pkts) = snd s + length es)"
proof (induction pkts rule: rev_induct)
  case Nil
  with assms show ?case by simp
next
  case (snoc p ps)
  then obtain es where es: "tl_entries (fst (foldl (ingest_packet deps now ctx) s ps)) = tl_entries (fst s) @ es"
      "snd (foldl (ingest_packet deps now ctx) s ps) = snd s + length es" by blast
  from ingest_packet_ok [of "foldl (ingest_packet deps now ctx) s ps" deps now ctx p] snoc
  obtain fs where "timeline_ok (fst (foldl (ingest_packet deps now ctx) s (ps @ [p])))"
      "tl_entries (fst (foldl (ingest_packet deps now ctx) s (ps @ [p]))) = (tl_entries (fst s) @ es) @ fs"
      "snd (foldl (ingest_packet deps now ctx) s (ps @ [p])) = (snd s + length es) + length fs"
    unfolding es [symmetric] by auto
  then show ?case by (intro conjI exI [of _ "es @ fs"]) simp_all
qed

definition within_limits :: "nat \<Rightarrow> timeline \<Rightarrow> bool" where
  "within_limits n tm \<longleftrightarrow> length (tl_entries tm) \<le> n \<and> length (tl_seen tm) \<le> 2 * n"

lemma ingest_ok_limits:
  assumes "timeline_ok tm" "within_limits (td_maxEntries deps) tm" "0 < td_maxEntries deps"
  shows "timeline_ok (fst (timeline_ingest deps now ctx pkts tm)) \<and>
         within_limits (td_maxEntries deps) (fst (timeline_ingest deps now ctx pkts tm))"
proof (cases "pkts = []")
  case True
  with assms show ?thesis by (simp add: timeline_ingest_def)
next
  case False
  let ?tm0 = "tm\<lparr>tl_network := ensureSelfNode now (td_selfName deps) (tl_network tm)\<rparr>"
  have "timeline_ok ?tm0" using assms(1) grows_ok [OF _ ensureSelf_grows] by (simp add: timeline_ok_def)
  then have "timeline_ok (fst (foldl (ingest_packet deps now ctx) (?tm0, 0) pkts))"
    using ingest_packets_ok [of "(?tm0, 0)"] by simp
  then show ?thesis using False assms(3)
    by (simp add: timeline_ingest_def split_beta Let_def timeline_ok_def within_limits_def slice_last_def last_n_def)
qed

lemma timeline_step_ok:
  assumes "timeline_ok tm" "within_limits (td_maxEntries deps) tm" "0 < td_maxEntries deps"
  shows "timeline_ok (timeline_step deps tm op') \<and> within_limits (td_maxEntries deps) (timeline_step deps tm op')"
proof (cases op')
  case (TlIngest ctx now pkts)
  with ingest_ok_limits [OF assms] show ?thesis by (simp add: timeline_step_def)
next
  case (TlPrune lookback)
  have "length (filter (\<lambda>e. c \<le> te_heardMs e) (tl_entries tm)) \<le> td_maxEntries deps" for c
    using assms(2) length_filter_le le_trans unfolding within_limits_def by blast
  with TlPrune assms show ?thesis
    by (simp add: timeline_step_def timeline_prune_def timeline_ok_def within_limits_def Let_def prune_ok)
next
  case TlReset
  with assms show ?thesis by (simp add: timeline_step_def timeline_reset_def timeline_ok_def within_limits_def)
qed

text \<open>However long the map is live, it remembers at most the configured number of packets and twice as many
  observation keys, each once, over a consistent graph.\<close>

theorem timeline_stays_bounded:
  assumes "0 < td_maxEntries deps"
  shows "let tm = foldl (timeline_step deps) \<lparr>tl_seen = [], tl_entries = [], tl_network = createPacketNetworkState now name\<rparr> ops
    in length (tl_entries tm) \<le> td_maxEntries deps \<and> length (tl_seen tm) \<le> 2 * td_maxEntries deps \<and>
       distinct (tl_seen tm) \<and> network_ok (tl_network tm)"
proof -
  let ?tm = "\<lparr>tl_seen = [], tl_entries = [], tl_network = createPacketNetworkState now name\<rparr>"
  have "timeline_ok (foldl (timeline_step deps) ?tm ops) \<and>
        within_limits (td_maxEntries deps) (foldl (timeline_step deps) ?tm ops)"
    by (induction ops rule: rev_induct)
      (simp_all add: timeline_step_ok assms, simp add: timeline_ok_def within_limits_def create_ok)
  then show ?thesis by (simp add: timeline_ok_def within_limits_def Let_def)
qed

subsection \<open>The clock runs at its rate\<close>

lemma notify_now [simp]: "pb_now (fst (notify pb)) = pb_now pb" "pb_minMs (fst (notify pb)) = pb_minMs pb"
    "pb_maxMs (fst (notify pb)) = pb_maxMs pb" "pb_lastWallMs (fst (notify pb)) = pb_lastWallMs pb"
    "pb_emitted (fst (notify pb)) = pb_now pb"
  by (simp_all add: notify_def)

lemma set_clock_simps [simp]: "pb_now (set_clock t pb) = (pb_now pb)\<lparr>ps_currentMs := t\<rparr>" "pb_minMs (set_clock t pb) = pb_minMs pb"
    "pb_maxMs (set_clock t pb) = pb_maxMs pb" "pb_lastWallMs (set_clock t pb) = pb_lastWallMs pb"
  by (simp_all add: set_clock_def)

definition replaying :: "real \<Rightarrow> real \<Rightarrow> playback \<Rightarrow> bool" where
  "replaying lo hi pb \<longleftrightarrow>
     ps_mode (pb_now pb) = Replay \<and> pb_minMs pb = Some lo \<and> pb_maxMs pb = Some hi \<and>
     lo \<le> ps_currentMs (pb_now pb) \<and> ps_currentMs (pb_now pb) \<le> hi \<and>
     (\<not> ps_playing (pb_now pb) \<longrightarrow> ps_currentMs (pb_now pb) = hi)"

lemma tick_replays:
  assumes "replaying lo hi pb" "pb_lastWallMs pb = Some w0" "w0 \<le> w" "0 \<le> ps_rate (pb_now pb)"
  shows "let pb' = fst (pb_tick w pb)
    in replaying lo hi pb' \<and> pb_lastWallMs pb' = Some w \<and> ps_rate (pb_now pb') = ps_rate (pb_now pb) \<and>
       ps_currentMs (pb_now pb') = min hi (ps_currentMs (pb_now pb) + (w - w0) * ps_rate (pb_now pb))"
proof -
  let ?n = "pb_now pb"
  have pos: "0 \<le> (w - w0) * ps_rate ?n" using assms by simp
  show ?thesis
  proof (cases "ps_playing ?n")
    case False
    with assms pos show ?thesis by (simp add: pb_tick_def replaying_def Let_def)
  next
    case True
    define t where "t = ps_currentMs ?n + (w - w0) * ps_rate ?n"
    have "lo \<le> ps_currentMs ?n" using assms(1) by (simp add: replaying_def)
    then have "lo \<le> t" using pos unfolding t_def by linarith
    with assms True show ?thesis
      by (cases "hi \<le> t") (simp_all add: pb_tick_def replaying_def Let_def clamp_def flip: t_def)
  qed
qed

text \<open>A replay does not depend on the frame rate: whatever frames are drawn in between, the clock stands where
  the wall time passed since the last one takes it, and at the end of the range it stays.\<close>

theorem replay_independent_of_frames:
  assumes "replaying lo hi pb" "pb_lastWallMs pb = Some w0" "sorted_wrt (\<le>) (w0 # walls)" "0 \<le> ps_rate (pb_now pb)"
  shows "ps_currentMs (pb_now (foldl (\<lambda>p w. fst (pb_tick w p)) pb walls)) =
    min hi (ps_currentMs (pb_now pb) + (last (w0 # walls) - w0) * ps_rate (pb_now pb))"
  using assms
proof (induction walls arbitrary: pb w0)
  case Nil
  then show ?case by (simp add: replaying_def)
next
  case (Cons w walls)
  let ?n = "pb_now pb"
  let ?pb = "fst (pb_tick w pb)"
  have le: "w0 \<le> w" "sorted_wrt (\<le>) (w # walls)" using Cons.prems(3) by auto
  from tick_replays [OF Cons.prems(1,2) le(1) Cons.prems(4)]
  have s: "replaying lo hi ?pb" "pb_lastWallMs ?pb = Some w" "ps_rate (pb_now ?pb) = ps_rate ?n"
      "ps_currentMs (pb_now ?pb) = min hi (ps_currentMs ?n + (w - w0) * ps_rate ?n)"
    by (simp_all add: Let_def)
  have "w \<le> last (w # walls)" using le(2) by (cases walls) auto
  then have pos: "0 \<le> (last (w # walls) - w) * ps_rate ?n" using Cons.prems(4) by simp
  have split: "(last (w # walls) - w0) * ps_rate ?n = (w - w0) * ps_rate ?n + (last (w # walls) - w) * ps_rate ?n"
    by (simp add: algebra_simps)
  have "ps_currentMs (pb_now (foldl (\<lambda>p w. fst (pb_tick w p)) ?pb walls)) =
      min hi (min hi (ps_currentMs ?n + (w - w0) * ps_rate ?n) + (last (w # walls) - w) * ps_rate ?n)"
    using Cons.IH [OF s(1,2) le(2)] s(3,4) Cons.prems(4) by simp
  also have "\<dots> = min hi (ps_currentMs ?n + ((last (w # walls) - w0) * ps_rate ?n))"
    unfolding split using pos by (auto simp: min_def)
  finally show ?case by simp
qed

datatype playback_op =
  PbTick real | PbNewest real | PbBuffer real | PbLive | PbPause | PbPlay | PbRate real | PbSeek real | PbRange real real

definition playback_step :: "playback \<Rightarrow> playback_op \<Rightarrow> playback" where
  "playback_step pb op' =
     fst (case op' of PbTick w \<Rightarrow> pb_tick w pb | PbNewest t \<Rightarrow> pb_setNewest t pb | PbBuffer ms \<Rightarrow> pb_setBufferMs ms pb
       | PbLive \<Rightarrow> pb_goLive pb | PbPause \<Rightarrow> pb_pause pb | PbPlay \<Rightarrow> pb_play pb | PbRate r \<Rightarrow> pb_setRate r pb
       | PbSeek ms \<Rightarrow> pb_seek ms pb | PbRange lo hi \<Rightarrow> pb_setRange lo hi pb)"

text \<open>Whoever listens knows the clock: after any operations the snapshot last given out is the present one.\<close>

theorem listeners_know_the_clock:
  "pb_emitted (foldl playback_step (createPlaybackController init) ops) =
   pb_now (foldl playback_step (createPlaybackController init) ops)"
proof (induction ops rule: rev_induct)
  case Nil
  show ?case by (simp add: createPlaybackController_def)
next
  case (snoc op' ops)
  then show ?case
    by (cases op')
      (simp_all add: playback_step_def pb_tick_def pb_setNewest_def pb_setBufferMs_def pb_goLive_def pb_pause_def
        pb_play_def pb_setRate_def pb_seek_def pb_setRange_def Let_def split: option.split)
qed

end
