(* ===== verification/Chat.thy ===== *)
theory Chat
imports Unread
begin

text \<open>The open conversation (the hook of \<^verbatim>\<open>frontend/src/hooks/useConversationMessages.ts\<close>) as a state machine over
  what happens to it: its callbacks, the renders of the page, and the answers of the server to the requests in
  flight. The cache, the reconciliation and the early acknowledgements it uses are those of Conversations. The fields
  \<open>ch_\<close> are the React states with every queued update applied; the fields \<open>cr_\<close> are the refs that follow them at
  the next render only, and that the callbacks read. An abort controller is the number of its request. A step yields
  the next state and the calls made: requests to the server and error toasts.\<close>

subsection \<open>The state\<close>

datatype view_type = ContactChat | ChannelChat | ContactPage | OtherPage jstr

record view =
  vw_type :: view_type
  vw_id :: jstr

definition isMessageConversation :: "view option \<Rightarrow> bool" where
  "isMessageConversation v = (case v of None \<Rightarrow> False | Some w \<Rightarrow> vw_type w \<in> {ContactChat, ChannelChat, ContactPage})"

definition isActiveConversationMessage :: "view option \<Rightarrow> message \<Rightarrow> bool" where
  "isActiveConversationMessage v m =
     (case v of
        None \<Rightarrow> False
      | Some w \<Rightarrow>
          if ms_type m = Chan \<and> vw_type w = ChannelChat then ms_conversation_key m = vw_id w
          else if ms_type m = Priv \<and> vw_type w = ContactChat then ms_conversation_key m = vw_id w
          else False)"

definition MESSAGE_PAGE_SIZE :: nat where "MESSAGE_PAGE_SIZE = 200"

text \<open>What is asked of the server: the latest page, the page before or after a message, or the page around one.\<close>

datatype page = LatestPage | BeforePage int nat | AfterPage int nat | AroundPage nat

record query =
  qu_type :: message_type
  qu_key :: jstr
  qu_page :: page

text \<open>What the code does with the answer.\<close>

datatype purpose = ShowLatest bool "nat list" | Reconcile "nat list" nat | ShowOlder | ShowNewer | ShowAround

record fetch =
  ft_view :: view
  ft_query :: query
  ft_purpose :: purpose
  ft_aborted :: bool

datatype chat_call = Ask query | ToastError purpose

record chat =
  ch_messages :: "message list"
  ch_messagesLoading :: bool
  ch_loadingOlder :: bool
  ch_hasOlder :: bool
  ch_hasNewer :: bool
  ch_loadingNewer :: bool
  ch_reloadVersion :: nat
  cr_messages :: "message list"
  cr_loadingOlder :: bool
  cr_loadingNewer :: bool
  cr_hasOlder :: bool
  cr_hasNewer :: bool
  ch_seen :: "jstr list"
  ch_acks :: pending_acks
  ch_cache :: message_cache
  ch_active :: "view option"
  ch_target :: "nat option"
  ch_shown :: "(jstr option \<times> view_type option \<times> nat option \<times> nat) option"
  ch_fetching :: "jstr option"
  ch_latestRequest :: nat
  ch_pendingReconcile :: bool
  ch_prevId :: "jstr option"
  ch_prevIsMessage :: bool
  ch_prevReload :: nat
  ch_abort :: "nat option"
  ch_abortOlder :: "nat option"
  ch_abortNewer :: "nat option"
  ch_fetches :: "(nat \<times> fetch) list"
  ch_serial :: nat

definition fresh_chat :: "message_cache \<Rightarrow> chat" where
  "fresh_chat c =
     \<lparr>ch_messages = [], ch_messagesLoading = False, ch_loadingOlder = False, ch_hasOlder = False, ch_hasNewer = False,
      ch_loadingNewer = False, ch_reloadVersion = 0, cr_messages = [], cr_loadingOlder = False,
      cr_loadingNewer = False, cr_hasOlder = False, cr_hasNewer = False, ch_seen = [], ch_acks = [], ch_cache = c,
      ch_active = None, ch_target = None, ch_shown = None, ch_fetching = None, ch_latestRequest = 0,
      ch_pendingReconcile = False, ch_prevId = None, ch_prevIsMessage = False, ch_prevReload = 0, ch_abort = None,
      ch_abortOlder = None, ch_abortNewer = None, ch_fetches = [], ch_serial = 0\<rparr>"

subsection \<open>Requests\<close>

definition query_for :: "view \<Rightarrow> page \<Rightarrow> query" where
  "query_for w p = \<lparr>qu_type = (if vw_type w = ChannelChat then Chan else Priv), qu_key = vw_id w, qu_page = p\<rparr>"

text \<open>A request goes out under the next number.\<close>

definition send_fetch :: "view \<Rightarrow> page \<Rightarrow> purpose \<Rightarrow> chat \<Rightarrow> chat \<times> chat_call list" where
  "send_fetch w p why s =
     (let f = \<lparr>ft_view = w, ft_query = query_for w p, ft_purpose = why, ft_aborted = False\<rparr>
      in (s\<lparr>ch_fetches := ch_fetches s @ [(ch_serial s, f)], ch_serial := ch_serial s + 1\<rparr>, [Ask (ft_query f)]))"

definition abort_fetch :: "nat option \<Rightarrow> chat \<Rightarrow> chat" where
  "abort_fetch n s =
     (case n of
        None \<Rightarrow> s
      | Some k \<Rightarrow> s\<lparr>ch_fetches := map (\<lambda>(i, f). (i, if i = k then f\<lparr>ft_aborted := True\<rparr> else f)) (ch_fetches s)\<rparr>)"

definition end_fetch :: "nat \<Rightarrow> chat \<Rightarrow> chat" where
  "end_fetch n s = s\<lparr>ch_fetches := amap_delete n (ch_fetches s)\<rparr>"

definition syncSeenContent :: "message list \<Rightarrow> chat \<Rightarrow> chat" where
  "syncSeenContent ms s = s\<lparr>ch_seen := js_set (content_keys ms)\<rparr>"

fun apply_acks :: "message list \<Rightarrow> pending_acks \<Rightarrow> message list \<times> pending_acks" where
  "apply_acks [] acks = ([], acks)"
| "apply_acks (m # ms) acks =
     (let (m', acks1) = applyPendingAck m acks; (ms', acks2) = apply_acks ms acks1 in (m' # ms', acks2))"

definition fetchLatestMessages :: "bool \<Rightarrow> chat \<Rightarrow> chat \<times> chat_call list" where
  "fetchLatestMessages showLoading s =
     (case ch_active s of
        Some w \<Rightarrow>
          if isMessageConversation (Some w) then
            (let s1 = s\<lparr>ch_pendingReconcile := False\<rparr>;
                 s2 = (if showLoading then s1\<lparr>ch_messagesLoading := True, ch_messages := []\<rparr> else s1)
             in send_fetch w LatestPage (ShowLatest showLoading (map ms_id (cr_messages s))) s2)
          else (s\<lparr>ch_messages := [], ch_hasOlder := False\<rparr>, [])
      | None \<Rightarrow> (s\<lparr>ch_messages := [], ch_hasOlder := False\<rparr>, []))"

definition reconcileFromBackend :: "view \<Rightarrow> nat \<Rightarrow> chat \<Rightarrow> chat \<times> chat_call list" where
  "reconcileFromBackend w requestId s =
     send_fetch w LatestPage (Reconcile (map ms_id (cr_messages s)) requestId) s"

definition next_reconcile :: "view \<Rightarrow> chat \<Rightarrow> chat \<times> chat_call list" where
  "next_reconcile w s =
     (let requestId = ch_latestRequest s + 1 in reconcileFromBackend w requestId (s\<lparr>ch_latestRequest := requestId\<rparr>))"

definition fetchOlderMessages :: "chat \<Rightarrow> chat \<times> chat_call list" where
  "fetchOlderMessages s =
     (if \<not> isMessageConversation (ch_active s) \<or> cr_loadingOlder s \<or> \<not> cr_hasOlder s then (s, [])
      else
        case oldest_of (cr_messages s) of
          None \<Rightarrow> (s, [])
        | Some m \<Rightarrow>
            send_fetch (the (ch_active s)) (BeforePage (ms_received_at m) (ms_id m)) ShowOlder
              (s\<lparr>cr_loadingOlder := True, ch_loadingOlder := True, ch_abortOlder := Some (ch_serial s)\<rparr>))"

definition fetchNewerMessages :: "chat \<Rightarrow> chat \<times> chat_call list" where
  "fetchNewerMessages s =
     (if \<not> isMessageConversation (ch_active s) \<or> cr_loadingNewer s \<or> \<not> cr_hasNewer s then (s, [])
      else
        case newest_of (cr_messages s) of
          None \<Rightarrow> (s, [])
        | Some m \<Rightarrow>
            send_fetch (the (ch_active s)) (AfterPage (ms_received_at m) (ms_id m)) ShowNewer
              (s\<lparr>cr_loadingNewer := True, ch_loadingNewer := True, ch_abortNewer := Some (ch_serial s)\<rparr>))"

subsection \<open>Answers\<close>

text \<open>\<^verbatim>\<open>setMessages(merged)\<close>, when there is something to change.\<close>

definition take_page :: "message list \<Rightarrow> nat list \<Rightarrow> chat \<Rightarrow> message list option" where
  "take_page ms ids s =
     reconcileConversationMessages (cr_messages s) ms (length ms \<ge> MESSAGE_PAGE_SIZE) (Some ids)"

definition latest_answered :: "fetch \<Rightarrow> nat list \<Rightarrow> message list \<Rightarrow> chat \<Rightarrow> chat" where
  "latest_answered f ids data s =
     (if ch_fetching s \<noteq> Some (vw_id (ft_view f)) then s
      else
        let (ms, acks) = apply_acks data (ch_acks s);
            s1 = s\<lparr>ch_acks := acks\<rparr>;
            merged = take_page ms ids s1;
            s2 = (case merged of Some l \<Rightarrow> s1\<lparr>ch_messages := l\<rparr> | None \<Rightarrow> s1);
            s3 = syncSeenContent (case merged of Some l \<Rightarrow> l | None \<Rightarrow> cr_messages s1) s2
        in s3\<lparr>ch_hasOlder := (length ms \<ge> MESSAGE_PAGE_SIZE)\<rparr>)"

definition reconcile_answered :: "fetch \<Rightarrow> nat list \<Rightarrow> nat \<Rightarrow> message list \<Rightarrow> chat \<Rightarrow> chat" where
  "reconcile_answered f ids requestId data s =
     (if ch_fetching s \<noteq> Some (vw_id (ft_view f)) \<or> ch_latestRequest s \<noteq> requestId then s
      else
        let (ms, acks) = apply_acks data (ch_acks s);
            s1 = s\<lparr>ch_acks := acks, ch_hasOlder := (length ms \<ge> MESSAGE_PAGE_SIZE)\<rparr>
        in case take_page ms ids s1 of
             None \<Rightarrow> s1
           | Some merged \<Rightarrow> syncSeenContent merged (s1\<lparr>ch_messages := merged\<rparr>))"

text \<open>React runs the updater of \<^verbatim>\<open>setMessages\<close> at once only when no other update is queued
  (\<open>eager\<close>); otherwise it runs at the next render and \<^verbatim>\<open>nextMessages\<close> is still null here.\<close>

definition older_answered :: "fetch \<Rightarrow> bool \<Rightarrow> message list \<Rightarrow> chat \<Rightarrow> chat" where
  "older_answered f eager data s =
     (if ch_fetching s \<noteq> Some (vw_id (ft_view f)) then s
      else
        let (ms, acks) = apply_acks data (ch_acks s);
            s1 = s\<lparr>ch_acks := acks\<rparr>;
            merged = appendUniqueMessages (ch_messages s1) ms;
            s2 = (if length ms > 0 then s1\<lparr>ch_messages := merged\<rparr> else s1);
            s3 = (if length ms > 0 \<and> eager \<and> merged \<noteq> ch_messages s1
                  then syncSeenContent merged (s2\<lparr>cr_messages := merged\<rparr>) else s2)
        in s3\<lparr>ch_hasOlder := (length ms \<ge> MESSAGE_PAGE_SIZE)\<rparr>)"

definition newer_answered :: "fetch \<Rightarrow> message list \<Rightarrow> chat \<Rightarrow> chat \<times> chat_call list" where
  "newer_answered f data s =
     (if ch_fetching s \<noteq> Some (vw_id (ft_view f)) then (s, [])
      else
        let (ms, acks) = apply_acks data (ch_acks s);
            newMessages = filter (\<lambda>m. getMessageContentKey m \<notin> set (ch_seen s)) ms;
            s1 = s\<lparr>ch_acks := acks\<rparr>;
            s2 = (if length newMessages > 0
                  then s1\<lparr>ch_messages := ch_messages s1 @ newMessages,
                         ch_seen := foldl (\<lambda>seen m. set_add (getMessageContentKey m) seen) (ch_seen s1) newMessages\<rparr>
                  else s1);
            still = (length ms \<ge> MESSAGE_PAGE_SIZE);
            s3 = s2\<lparr>ch_hasNewer := still\<rparr>
        in if \<not> still \<and> ch_pendingReconcile s3
           then next_reconcile (ft_view f) (s3\<lparr>ch_pendingReconcile := False\<rparr>)
           else (s3, []))"

definition around_answered :: "fetch \<Rightarrow> message list \<Rightarrow> bool \<Rightarrow> bool \<Rightarrow> chat \<Rightarrow> chat" where
  "around_answered f data has_older has_newer s =
     (if ch_fetching s \<noteq> Some (vw_id (ft_view f)) then s
      else
        let (ms, acks) = apply_acks data (ch_acks s)
        in (syncSeenContent ms (s\<lparr>ch_acks := acks, ch_messages := ms\<rparr>))
             \<lparr>ch_hasOlder := has_older, ch_hasNewer := has_newer\<rparr>)"

text \<open>The \<^verbatim>\<open>finally\<close> of each request.\<close>

definition settle :: "nat \<Rightarrow> fetch \<Rightarrow> chat \<Rightarrow> chat" where
  "settle n f s =
     (case ft_purpose f of
        ShowLatest showLoading ids \<Rightarrow> if showLoading then s\<lparr>ch_messagesLoading := False\<rparr> else s
      | Reconcile ids requestId \<Rightarrow> s
      | ShowOlder \<Rightarrow>
          s\<lparr>ch_abortOlder := (if ch_abortOlder s = Some n then None else ch_abortOlder s),
            cr_loadingOlder := False, ch_loadingOlder := False\<rparr>
      | ShowNewer \<Rightarrow>
          s\<lparr>ch_abortNewer := (if ch_abortNewer s = Some n then None else ch_abortNewer s),
            cr_loadingNewer := False, ch_loadingNewer := False\<rparr>
      | ShowAround \<Rightarrow> s\<lparr>ch_messagesLoading := False\<rparr>)"

record answer =
  an_messages :: "message list"
  an_hasOlder :: bool
  an_hasNewer :: bool

definition use_answer :: "fetch \<Rightarrow> bool \<Rightarrow> answer \<Rightarrow> chat \<Rightarrow> chat \<times> chat_call list" where
  "use_answer f eager a s =
     (case ft_purpose f of
        ShowLatest showLoading ids \<Rightarrow> (latest_answered f ids (an_messages a) s, [])
      | Reconcile ids requestId \<Rightarrow> (reconcile_answered f ids requestId (an_messages a) s, [])
      | ShowOlder \<Rightarrow> (older_answered f eager (an_messages a) s, [])
      | ShowNewer \<Rightarrow> newer_answered f (an_messages a) s
      | ShowAround \<Rightarrow> (around_answered f (an_messages a) (an_hasOlder a) (an_hasNewer a) s, []))"

text \<open>An aborted request ends with an abort error, which is not reported; a background reconciliation that
  fails is only logged.\<close>

definition fetch_answered :: "nat \<Rightarrow> bool \<Rightarrow> answer \<Rightarrow> chat \<Rightarrow> chat \<times> chat_call list" where
  "fetch_answered n eager a s =
     (case map_of (ch_fetches s) n of
        None \<Rightarrow> (s, [])
      | Some f \<Rightarrow>
          if ft_aborted f then (settle n f (end_fetch n s), [])
          else let (s1, calls) = use_answer f eager a (end_fetch n s) in (settle n f s1, calls))"

definition fetch_failed :: "nat \<Rightarrow> chat \<Rightarrow> chat \<times> chat_call list" where
  "fetch_failed n s =
     (case map_of (ch_fetches s) n of
        None \<Rightarrow> (s, [])
      | Some f \<Rightarrow>
          (settle n f (end_fetch n s),
           if ft_aborted f then []
           else (case ft_purpose f of Reconcile ids requestId \<Rightarrow> [] | why \<Rightarrow> [ToastError why])))"

subsection \<open>Renders\<close>

text \<open>The effects that let the refs follow the states.\<close>

definition sync_refs :: "chat \<Rightarrow> chat" where
  "sync_refs s =
     s\<lparr>cr_messages := ch_messages s, cr_loadingOlder := ch_loadingOlder s, cr_loadingNewer := ch_loadingNewer s,
       cr_hasOlder := ch_hasOlder s, cr_hasNewer := ch_hasNewer s\<rparr>"

definition show_target :: "view \<Rightarrow> nat \<Rightarrow> chat \<Rightarrow> chat \<times> chat_call list" where
  "show_target w target s =
     send_fetch w (AroundPage target) ShowAround (s\<lparr>ch_messagesLoading := True, ch_messages := []\<rparr>)"

definition show_chat :: "view \<Rightarrow> chat \<Rightarrow> chat \<times> chat_call list" where
  "show_chat w s =
     (case cache_get (vw_id w) (ch_cache s) of
        (Some e, c) \<Rightarrow>
          next_reconcile w
            (s\<lparr>ch_cache := c, ch_messages := ce_messages e, ch_seen := js_set (content_keys (ce_messages e)),
               ch_hasOlder := ce_hasOlder e, ch_messagesLoading := False\<rparr>)
      | (None, c) \<Rightarrow> fetchLatestMessages True (s\<lparr>ch_cache := c\<rparr>))"

definition leave_chat :: "jstr option \<Rightarrow> chat \<Rightarrow> chat" where
  "leave_chat prevId s =
     (case prevId of
        Some p \<Rightarrow>
          if p \<noteq> [] \<and> length (cr_messages s) > 0 \<and> \<not> cr_hasNewer s
          then s\<lparr>ch_cache := cache_set p \<lparr>ce_messages = cr_messages s, ce_hasOlder = cr_hasOlder s\<rparr> (ch_cache s)\<rparr>
          else s
      | None \<Rightarrow> s)"

definition abort_running :: "chat \<Rightarrow> chat" where
  "abort_running s =
     (abort_fetch (ch_abortNewer s) (abort_fetch (ch_abortOlder s) (abort_fetch (ch_abort s) s)))
       \<lparr>ch_abortOlder := None, ch_abortNewer := None\<rparr>"

definition switch_effect :: "chat \<Rightarrow> chat \<times> chat_call list" where
  "switch_effect s =
     (let s1 = abort_running s;
          prevId = ch_prevId s;
          newId = map_option vw_id (ch_active s);
          isMessage = isMessageConversation (ch_active s);
          conversationChanged = (prevId \<noteq> newId \<or> ch_prevIsMessage s \<noteq> isMessage);
          reloadRequested = (ch_prevReload s \<noteq> ch_reloadVersion s);
          s2 = s1\<lparr>ch_prevIsMessage := isMessage, ch_fetching := newId, ch_prevId := newId,
                  ch_prevReload := ch_reloadVersion s, ch_latestRequest := 0, ch_pendingReconcile := False\<rparr>
      in if \<not> conversationChanged \<and> ch_target s = None \<and> \<not> reloadRequested then (s2, [])
         else
           let s3 = s2\<lparr>ch_loadingOlder := False, cr_loadingOlder := False, ch_loadingNewer := False,
                      ch_hasNewer := (if conversationChanged then False else ch_hasNewer s2)\<rparr>;
               s4 = (if conversationChanged then leave_chat prevId s3 else s3)
           in if \<not> isMessage then (s4\<lparr>ch_messages := [], ch_hasOlder := False\<rparr>, [])
              else
                let s5 = s4\<lparr>ch_abort := Some (ch_serial s4)\<rparr>; w = the (ch_active s)
                in case ch_target s of
                     Some t \<Rightarrow> show_target w t s5
                   | None \<Rightarrow> show_chat w s5)"

text \<open>A render of the page: the effects above, and the switch when something it depends on has changed. What
  the switch itself sets is rendered before anything else happens to the hook.\<close>

definition render :: "view option \<Rightarrow> nat option \<Rightarrow> chat \<Rightarrow> chat \<times> chat_call list" where
  "render v target s =
     (let s1 = sync_refs (s\<lparr>ch_active := v, ch_target := target\<rparr>);
          deps = (map_option vw_id v, map_option vw_type v, target, ch_reloadVersion s1)
      in if ch_shown s1 = Some deps then (s1, [])
         else let (s2, calls) = switch_effect (s1\<lparr>ch_shown := Some deps\<rparr>) in (sync_refs s2, calls))"

subsection \<open>Callbacks\<close>

definition jumpToBottom :: "chat \<Rightarrow> chat \<times> chat_call list" where
  "jumpToBottom s =
     (case ch_active s of
        None \<Rightarrow> (s, [])
      | Some w \<Rightarrow> fetchLatestMessages True (s\<lparr>ch_hasNewer := False, ch_cache := cache_remove (vw_id w) (ch_cache s)\<rparr>))"

definition reloadCurrentConversation :: "chat \<Rightarrow> chat" where
  "reloadCurrentConversation s =
     (if \<not> isMessageConversation (ch_active s) then s
      else s\<lparr>ch_hasNewer := False, ch_cache := cache_remove (vw_id (the (ch_active s))) (ch_cache s),
             ch_reloadVersion := ch_reloadVersion s + 1\<rparr>)"

definition reconcileOnReconnect :: "chat \<Rightarrow> chat \<times> chat_call list" where
  "reconcileOnReconnect s =
     (if \<not> isMessageConversation (ch_active s) then (s, [])
      else if cr_hasNewer s then (s\<lparr>ch_pendingReconcile := True\<rparr>, [])
      else next_reconcile (the (ch_active s)) (s\<lparr>ch_pendingReconcile := False\<rparr>))"

definition appendActiveMessageIfNew :: "message \<Rightarrow> chat \<Rightarrow> bool \<times> chat" where
  "appendActiveMessageIfNew msg s =
     (let (m, acks) = applyPendingAck msg (ch_acks s);
          s1 = s\<lparr>ch_acks := acks\<rparr>;
          k = getMessageContentKey m
      in if k \<in> set (ch_seen s1) then (False, s1)
         else
           let seen = set_add k (ch_seen s1);
               seen' = (if length seen > 1000 then set_add k (js_set (content_keys (cr_messages s1))) else seen)
           in (True, s1\<lparr>ch_seen := seen',
                        ch_messages := (if list_ex (\<lambda>x. ms_id x = ms_id m) (ch_messages s1) then ch_messages s1
                                        else ch_messages s1 @ [m])\<rparr>))"

definition updateMessageAck ::
    "nat \<Rightarrow> nat \<Rightarrow> message_path list option \<Rightarrow> nat option option \<Rightarrow> chat \<Rightarrow> chat" where
  "updateMessageAck i ackCount paths packetId s =
     (if \<not> list_ex (\<lambda>m. ms_id m = i) (cr_messages s)
      then s\<lparr>ch_acks := setPendingAck i ackCount paths packetId (ch_acks s)\<rparr>
      else
        let s1 = s\<lparr>ch_acks := amap_delete i (ch_acks s)\<rparr>
        in if list_ex (\<lambda>m. ms_id m = i) (ch_messages s1)
           then s1\<lparr>ch_messages := update_msg i (ack_msg ackCount paths packetId) (ch_messages s1)\<rparr>
           else s1\<lparr>ch_acks := setPendingAck i ackCount paths packetId (ch_acks s1)\<rparr>)"

definition receiveMessageAck ::
    "nat \<Rightarrow> nat \<Rightarrow> message_path list option \<Rightarrow> nat option option \<Rightarrow> chat \<Rightarrow> chat" where
  "receiveMessageAck i ackCount paths packetId s =
     (let s1 = updateMessageAck i ackCount paths packetId s
      in s1\<lparr>ch_cache := cache_updateAck i ackCount paths packetId (ch_cache s1)\<rparr>)"

definition receiveMessageFailed :: "nat \<Rightarrow> int \<Rightarrow> chat \<Rightarrow> chat" where
  "receiveMessageFailed i failedAt s =
     s\<lparr>ch_messages :=
         (case find (\<lambda>m. ms_id m = i) (ch_messages s) of
            None \<Rightarrow> ch_messages s
          | Some m \<Rightarrow>
              if ms_acked m > 0 then ch_messages s
              else update_msg i (\<lambda>m. m\<lparr>ms_failed_at := Some failedAt\<rparr>) (ch_messages s)),
       ch_cache := cache_updateFailed i failedAt (ch_cache s)\<rparr>"

definition spam_differs :: "bool \<Rightarrow> bool option \<Rightarrow> message \<Rightarrow> bool" where
  "spam_differs spam duplicate m \<longleftrightarrow>
     ms_spam m \<noteq> spam \<or> (case duplicate of None \<Rightarrow> False | Some d \<Rightarrow> ms_duplicate m \<noteq> d)"

definition receiveMessageSpam :: "nat list \<Rightarrow> bool \<Rightarrow> bool option \<Rightarrow> chat \<Rightarrow> chat" where
  "receiveMessageSpam ids spam duplicate s =
     s\<lparr>ch_messages :=
         (if list_ex (\<lambda>m. ms_id m \<in> set ids \<and> spam_differs spam duplicate m) (ch_messages s)
          then map (\<lambda>m. if ms_id m \<in> set ids then mark_spam spam duplicate m else m) (ch_messages s)
          else ch_messages s),
       ch_cache := cache_updateSpam ids spam duplicate (ch_cache s)\<rparr>"

definition removeMessage :: "nat \<Rightarrow> chat \<Rightarrow> chat" where
  "removeMessage i s =
     s\<lparr>ch_seen := (case find (\<lambda>m. ms_id m = i) (cr_messages s) of
                     None \<Rightarrow> ch_seen s
                   | Some m \<Rightarrow> filter (\<lambda>k. k \<noteq> getMessageContentKey m) (ch_seen s)),
       ch_messages := filter (\<lambda>m. ms_id m \<noteq> i) (ch_messages s),
       ch_acks := amap_delete i (ch_acks s), ch_cache := cache_removeMessage i (ch_cache s)\<rparr>"

text \<open>Whether the message was added, and whether it is of the open conversation.\<close>

definition observeMessage :: "message \<Rightarrow> chat \<Rightarrow> (bool \<times> bool) \<times> chat" where
  "observeMessage msg s =
     (let (m, acks) = applyPendingAck msg (ch_acks s); s1 = s\<lparr>ch_acks := acks\<rparr> in
      if isActiveConversationMessage (ch_active s1) m then
        (if cr_hasNewer s1 then ((False, True), s1)
         else let (added, s2) = appendActiveMessageIfNew m s1 in ((added, True), s2))
      else
        let (added, c) = addMessage (ms_conversation_key m) m (ch_cache s1) in ((added, False), s1\<lparr>ch_cache := c\<rparr>))"

datatype chat_event =
    Render "view option" "nat option"
  | FetchOlder | FetchNewer | JumpToBottom | ReloadChat | Reconnected
  | AnswerOf nat bool answer | FailureOf nat
  | Observe message
  | AckEvent nat nat "message_path list option" "nat option option" | FailEvent nat int
  | SpamEvent "nat list" bool "bool option" | RemoveEvent nat
  | RenameChat jstr jstr | RemoveChat jstr | ClearChats

definition chat_step :: "chat_event \<Rightarrow> chat \<Rightarrow> chat \<times> chat_call list" where
  "chat_step e s =
     (case e of
        Render v target \<Rightarrow> render v target s
      | FetchOlder \<Rightarrow> fetchOlderMessages s
      | FetchNewer \<Rightarrow> fetchNewerMessages s
      | JumpToBottom \<Rightarrow> jumpToBottom s
      | ReloadChat \<Rightarrow> (reloadCurrentConversation s, [])
      | Reconnected \<Rightarrow> reconcileOnReconnect s
      | AnswerOf n eager a \<Rightarrow> fetch_answered n eager a s
      | FailureOf n \<Rightarrow> fetch_failed n s
      | Observe m \<Rightarrow> (snd (observeMessage m s), [])
      | AckEvent i n ps q \<Rightarrow> (receiveMessageAck i n ps q s, [])
      | FailEvent i t \<Rightarrow> (receiveMessageFailed i t s, [])
      | SpamEvent ids b d \<Rightarrow> (receiveMessageSpam ids b d s, [])
      | RemoveEvent i \<Rightarrow> (removeMessage i s, [])
      | RenameChat a b \<Rightarrow> (s\<lparr>ch_cache := cache_rename a b (ch_cache s)\<rparr>, [])
      | RemoveChat k \<Rightarrow> (s\<lparr>ch_cache := cache_remove k (ch_cache s)\<rparr>, [])
      | ClearChats \<Rightarrow> (s\<lparr>ch_cache := cache_clear (ch_cache s)\<rparr>, []))"

abbreviation chat_run :: "chat_event list \<Rightarrow> chat \<Rightarrow> chat" where
  "chat_run es s \<equiv> foldl (\<lambda>s e. fst (chat_step e s)) s es"

subsection \<open>Only the open conversation is on screen\<close>

text \<open>A contact that was known by a part of its key takes its full one later, and its messages with it: \<open>party\<close> maps
  both to one identity.\<close>

definition in_chat :: "(jstr \<Rightarrow> 'a) \<Rightarrow> jstr option \<Rightarrow> message list \<Rightarrow> bool" where
  "in_chat party k ms \<longleftrightarrow>
     (case k of None \<Rightarrow> ms = [] | Some i \<Rightarrow> \<forall>m \<in> set ms. party (ms_conversation_key m) = party i)"

lemma in_chat_Nil [simp]: "in_chat party k []"
  by (simp add: in_chat_def split: option.split)

lemma in_chat_subset: "in_chat party k ms \<Longrightarrow> set ms' \<subseteq> set ms \<Longrightarrow> in_chat party k ms'"
  by (auto simp: in_chat_def split: option.splits)

lemma in_chat_keys:
  "in_chat party k ms \<Longrightarrow> ms_conversation_key ` set ms' \<subseteq> ms_conversation_key ` set ms \<Longrightarrow> in_chat party k ms'"
  by (cases k) (auto simp: in_chat_def)

lemma in_chat_append [simp]: "in_chat party k (xs @ ys) \<longleftrightarrow> in_chat party k xs \<and> in_chat party k ys"
  by (auto simp: in_chat_def split: option.split)

definition cache_in_chat :: "(jstr \<Rightarrow> 'a) \<Rightarrow> message_cache \<Rightarrow> bool" where
  "cache_in_chat party c \<longleftrightarrow> (\<forall>(k, e) \<in> set c. in_chat party (Some k) (ce_messages e))"

definition asks_own :: "(nat \<times> fetch) list \<Rightarrow> bool" where
  "asks_own fs \<longleftrightarrow> (\<forall>(n, f) \<in> set fs. qu_key (ft_query f) = vw_id (ft_view f))"

definition home :: "jstr option \<Rightarrow> jstr option \<Rightarrow> view option \<Rightarrow>
    (jstr option \<times> view_type option \<times> nat option \<times> nat) option \<Rightarrow> bool" where
  "home prevId fetching active what \<longleftrightarrow> prevId = map_option vw_id active \<and> fetching = prevId \<and>
     (case what of None \<Rightarrow> active = None
      | Some (i, t, target, v) \<Rightarrow> i = map_option vw_id active \<and> t = map_option vw_type active)"

abbreviation at_home :: "chat \<Rightarrow> bool" where
  "at_home s \<equiv> home (ch_prevId s) (ch_fetching s) (ch_active s) (ch_shown s)"

definition chat_ok :: "(jstr \<Rightarrow> 'a) \<Rightarrow> chat \<Rightarrow> bool" where
  "chat_ok party s \<longleftrightarrow>
     at_home s \<and> in_chat party (ch_prevId s) (ch_messages s) \<and> in_chat party (ch_prevId s) (cr_messages s) \<and>
     cache_in_chat party (ch_cache s) \<and> asks_own (ch_fetches s)"

text \<open>The server answers with messages of the conversation it was asked for, and renames are of one contact.\<close>

definition honest :: "(jstr \<Rightarrow> 'a) \<Rightarrow> chat \<Rightarrow> chat_event \<Rightarrow> bool" where
  "honest party s e \<longleftrightarrow>
     (case e of
        AnswerOf n eager a \<Rightarrow>
          (case map_of (ch_fetches s) n of
             None \<Rightarrow> True
           | Some f \<Rightarrow> in_chat party (Some (qu_key (ft_query f))) (an_messages a))
      | RenameChat a b \<Rightarrow> party a = party b
      | _ \<Rightarrow> True)"

fun honest_run :: "(jstr \<Rightarrow> 'a) \<Rightarrow> chat \<Rightarrow> chat_event list \<Rightarrow> bool" where
  "honest_run party s [] = True"
| "honest_run party s (e # es) = (honest party s e \<and> honest_run party (fst (chat_step e s)) es)"

lemma apply_ack_key [simp]: "ms_conversation_key (fst (applyPendingAck m acks)) = ms_conversation_key m"
  by (simp add: applyPendingAck_def split: option.split)

lemma apply_acks_keys:
  "map ms_conversation_key (fst (apply_acks ms acks)) = map ms_conversation_key ms"
  by (induction ms arbitrary: acks) (simp_all add: split_beta)

lemma in_chat_apply_acks [simp]: "in_chat party k (fst (apply_acks ms acks)) \<longleftrightarrow> in_chat party k ms"
proof -
  have "ms_conversation_key ` set (fst (apply_acks ms acks)) = ms_conversation_key ` set ms"
    using apply_acks_keys [of ms acks] by (metis list.set_map)
  then show ?thesis using in_chat_keys by (metis order_refl)
qed

lemma in_chat_update [simp]:
  "(\<And>m. ms_conversation_key (f m) = ms_conversation_key m) \<Longrightarrow>
   in_chat party k (update_msg i f ms) \<longleftrightarrow> in_chat party k ms"
  by (induction ms) (auto simp: in_chat_def split: option.splits)

lemma ack_msg_conv [simp]: "ms_conversation_key (ack_msg n ps q m) = ms_conversation_key m"
    "ms_conversation_key (mark_spam b d m) = ms_conversation_key m"
  by (simp_all add: ack_msg_def mark_spam_def Let_def split: option.split)

lemma in_chat_map [simp]:
  "(\<And>m. ms_conversation_key (f m) = ms_conversation_key m) \<Longrightarrow> in_chat party k (map f ms) \<longleftrightarrow> in_chat party k ms"
  by (cases k) (auto simp: in_chat_def)

lemma take_page_in:
  assumes "in_chat party k (cr_messages s)" "in_chat party k ms" "take_page ms ids s = Some l"
  shows "in_chat party k l"
proof -
  have "set l \<subseteq> set (ms @ cr_messages s)"
    using assms(3) by (auto simp: take_page_def reconcileConversationMessages_def Let_def split: if_splits)
  with assms(1,2) show ?thesis using in_chat_subset [of party k "ms @ cr_messages s" l] by simp
qed

subsubsection \<open>The cache\<close>

lemma cache_in_delete: "cache_in_chat party c \<Longrightarrow> cache_in_chat party (amap_delete k c)"
  using set_amap_delete [of k c] unfolding cache_in_chat_def by blast

lemma cache_in_set:
  "cache_in_chat party c \<Longrightarrow> in_chat party (Some k) (ce_messages e) \<Longrightarrow> cache_in_chat party (amap_set k e c)"
  unfolding cache_in_chat_def by (auto dest: set_amap_set_cases)

lemma cache_in_touch:
  "cache_in_chat party c \<Longrightarrow> in_chat party (Some k) (ce_messages e) \<Longrightarrow> cache_in_chat party (touch k e c)"
  by (simp add: touch_def cache_in_set cache_in_delete)

lemma cache_in_evict: "cache_in_chat party c \<Longrightarrow> cache_in_chat party (evict c)"
  by (simp add: evict_def cache_in_delete)

lemma normalize_subset: "set (ce_messages (normalizeEntry e)) \<subseteq> set (ce_messages e)"
  by (auto simp: normalizeEntry_def Let_def dest: in_set_takeD)

lemma in_chat_normalize: "in_chat party k (ce_messages e) \<Longrightarrow> in_chat party k (ce_messages (normalizeEntry e))"
  using in_chat_subset normalize_subset by blast

lemma cache_in_lookup: "cache_in_chat party c \<Longrightarrow> map_of c k = Some e \<Longrightarrow> in_chat party (Some k) (ce_messages e)"
  unfolding cache_in_chat_def by (auto dest!: map_of_SomeD)

lemma cache_in_get:
  assumes "cache_in_chat party c"
  shows "cache_in_chat party (snd (cache_get k c))"
    and "fst (cache_get k c) = Some e \<Longrightarrow> in_chat party (Some k) (ce_messages e)"
  using assms cache_in_lookup [OF assms, of k]
  by (auto simp: cache_get_def cache_in_touch cached_entry.truncate_def split: option.splits)

lemma cache_in_put:
  "cache_in_chat party c \<Longrightarrow> in_chat party (Some k) (ce_messages e) \<Longrightarrow> cache_in_chat party (cache_set k e c)"
  by (simp add: cache_set_def cache_in_evict cache_in_touch in_chat_normalize)

lemma cache_in_add:
  assumes "cache_in_chat party c"
  shows "cache_in_chat party (snd (addMessage (ms_conversation_key m) m c))"
proof -
  have one: "in_chat party (Some (ms_conversation_key m)) [m]" by (simp add: in_chat_def)
  have grown: "in_chat party (Some (ms_conversation_key m)) (ce_messages e @ [m])"
    if "map_of c (ms_conversation_key m) = Some e" for e
    using cache_in_lookup [OF assms that] one by simp
  show ?thesis using assms one grown
    by (auto simp: addMessage_def Let_def split: option.split
        intro!: cache_in_evict cache_in_set cache_in_touch in_chat_normalize)
qed

lemma cache_in_holder:
  "cache_in_chat party c \<Longrightarrow>
   (\<And>k e. in_chat party (Some k) (ce_messages e) \<Longrightarrow> in_chat party (Some k) (ce_messages (f e))) \<Longrightarrow>
   cache_in_chat party (update_holder i f c)"
  by (induction i f c rule: update_holder.induct) (auto simp: cache_in_chat_def)

lemma cache_in_spam: "cache_in_chat party c \<Longrightarrow> cache_in_chat party (cache_updateSpam ids b d c)"
  by (auto simp: cache_in_chat_def cache_updateSpam_def)

lemma merge_new_subset: "set (merge_new xs ys) \<subseteq> set xs \<union> set ys"
  by (induction xs ys rule: merge_new.induct) auto

lemma cache_in_rename:
  assumes "cache_in_chat party c" "party a = party b"
  shows "cache_in_chat party (cache_rename a b c)"
proof -
  have moved: "in_chat party (Some b) (ce_messages e)" if "map_of c a = Some e" for e
    using cache_in_lookup [OF assms(1) that] assms(2) by (simp add: in_chat_def)
  have merged: "in_chat party (Some b) (merge_new (ce_messages n) (ce_messages e))"
    if "map_of c a = Some e" "map_of c b = Some n" for e n
    using in_chat_subset [of party "Some b" "ce_messages n @ ce_messages e"] merge_new_subset moved [OF that(1)]
      cache_in_lookup [OF assms(1) that(2)] by simp
  show ?thesis using assms(1) moved merged
    by (auto simp: cache_rename_def cache_in_delete split: option.split
        intro!: cache_in_set cache_in_delete in_chat_normalize)
qed

lemma in_chat_drop: "in_chat party k (ce_messages e) \<Longrightarrow> in_chat party k (ce_messages (drop_msg i e))"
  by (auto simp: drop_msg_def elim: in_chat_subset split: option.split)

lemma cache_in_step:
  assumes "cache_in_chat party c"
  shows "cache_in_chat party (cache_updateAck i n ps q c)" "cache_in_chat party (cache_updateFailed i t c)"
    "cache_in_chat party (cache_removeMessage i c)" "cache_in_chat party (cache_remove k c)"
  using assms cache_in_delete [OF assms]
  by (simp_all add: cache_updateAck_def cache_updateFailed_def cache_removeMessage_def cache_remove_def
      cache_in_holder in_chat_drop)

subsubsection \<open>Every step\<close>

lemma send_fetch_fields [simp]:
  "ch_messages (fst (send_fetch w p y s)) = ch_messages s" "cr_messages (fst (send_fetch w p y s)) = cr_messages s"
  "ch_cache (fst (send_fetch w p y s)) = ch_cache s" "ch_fetching (fst (send_fetch w p y s)) = ch_fetching s"
  "ch_active (fst (send_fetch w p y s)) = ch_active s" "ch_shown (fst (send_fetch w p y s)) = ch_shown s"
  "ch_prevId (fst (send_fetch w p y s)) = ch_prevId s" "asks_own (ch_fetches (fst (send_fetch w p y s))) = asks_own (ch_fetches s)"
  by (simp_all add: send_fetch_def Let_def asks_own_def query_for_def)

lemma asks_own_abort [simp]: "asks_own (ch_fetches (abort_fetch n s)) = asks_own (ch_fetches s)"
  by (cases n) (auto simp: abort_fetch_def asks_own_def split: if_splits)

lemma asks_own_end: "asks_own (ch_fetches s) \<Longrightarrow> asks_own (ch_fetches (end_fetch n s))"
  using set_amap_delete [of n "ch_fetches s"] by (auto simp: end_fetch_def asks_own_def)

lemma settle_fields [simp]:
  "ch_messages (settle n f s) = ch_messages s" "cr_messages (settle n f s) = cr_messages s"
  "ch_cache (settle n f s) = ch_cache s" "ch_fetching (settle n f s) = ch_fetching s" "ch_active (settle n f s) = ch_active s"
  "ch_shown (settle n f s) = ch_shown s" "ch_prevId (settle n f s) = ch_prevId s"
  "ch_fetches (settle n f s) = ch_fetches s"
  by (simp_all add: settle_def split: purpose.split)

lemma chat_ok_cong:
  assumes "chat_ok party s" "ch_messages s' = ch_messages s" "cr_messages s' = cr_messages s" "ch_cache s' = ch_cache s"
    "ch_prevId s' = ch_prevId s" "at_home s' = at_home s" "asks_own (ch_fetches s) \<Longrightarrow> asks_own (ch_fetches s')"
  shows "chat_ok party s'"
  using assms by (simp add: chat_ok_def)

lemma send_ok: "chat_ok party s \<Longrightarrow> chat_ok party (fst (send_fetch w p y s))"
  by (erule chat_ok_cong) simp_all

lemma next_reconcile_ok: "chat_ok party s \<Longrightarrow> chat_ok party (fst (next_reconcile w s))"
  unfolding next_reconcile_def Let_def reconcileFromBackend_def
  by (rule send_ok, erule chat_ok_cong) simp_all

lemma fetchLatest_ok: "chat_ok party s \<Longrightarrow> chat_ok party (fst (fetchLatestMessages b s))"
  unfolding fetchLatestMessages_def Let_def
  by (auto intro!: send_ok simp: chat_ok_def split: option.split)

lemma use_answer_ok:
  assumes ok: "chat_ok party s" and a: "in_chat party (Some (vw_id (ft_view f))) (an_messages a)"
  shows "chat_ok party (fst (use_answer f eager a s))"
proof (cases "ch_fetching s = Some (vw_id (ft_view f))")
  case False
  then show ?thesis using ok
    by (simp add: use_answer_def latest_answered_def reconcile_answered_def older_answered_def newer_answered_def
        around_answered_def split: purpose.split)
next
  case True
  let ?k = "Some (vw_id (ft_view f))"
  have k: "ch_prevId s = ?k" using ok True by (simp add: chat_ok_def home_def)
  note parts = ok [unfolded chat_ok_def k]
  obtain ms acks where ms: "apply_acks (an_messages a) (ch_acks s) = (ms, acks)" by fastforce
  have msin: "in_chat party ?k ms" using a ms in_chat_apply_acks [of party ?k "an_messages a" "ch_acks s"] by simp
  have page: "in_chat party ?k l" if "take_page ms ids s' = Some l" "cr_messages s' = cr_messages s" for ids s' l
    using take_page_in [of party ?k s' ms ids l] that parts msin by simp
  show ?thesis
  proof (cases "ft_purpose f")
    case (ShowLatest b ids)
    then show ?thesis using parts True page [of ids] k
      by (auto simp: use_answer_def latest_answered_def ms Let_def chat_ok_def syncSeenContent_def
          split: option.split)
  next
    case (Reconcile ids r)
    then show ?thesis using parts True page [of ids] k
      by (auto simp: use_answer_def reconcile_answered_def ms Let_def chat_ok_def syncSeenContent_def
          split: option.split)
  next
    case ShowOlder
    have "in_chat party ?k (appendUniqueMessages (ch_messages s) ms)"
    proof -
      have "set (append_loop ids keys xs) \<subseteq> set xs" for ids keys xs
        by (induction ids keys xs rule: append_loop.induct) (auto simp: Let_def)
      then show ?thesis using parts msin in_chat_subset [of party ?k ms] by (simp add: appendUniqueMessages_def)
    qed
    then show ?thesis using parts True k ShowOlder
      by (auto simp: use_answer_def older_answered_def ms Let_def chat_ok_def syncSeenContent_def)
  next
    case ShowNewer
    have new: "in_chat party ?k (filter P ms)" for P using in_chat_subset [OF msin] by auto
    have base: "chat_ok party s'"
      if "ch_messages s' = ch_messages s \<or> ch_messages s' = ch_messages s @ filter (\<lambda>m. getMessageContentKey m \<notin> set (ch_seen s)) ms"
        "cr_messages s' = cr_messages s" "ch_cache s' = ch_cache s" "ch_prevId s' = ch_prevId s" "at_home s' = at_home s"
        "ch_fetches s' = ch_fetches s" for s'
      using that parts new k by (auto simp: chat_ok_def)
    show ?thesis
      by (auto simp: use_answer_def newer_answered_def ms Let_def ShowNewer True
          intro!: next_reconcile_ok base)
  next
    case ShowAround
    then show ?thesis using parts True k msin
      by (auto simp: use_answer_def around_answered_def ms Let_def chat_ok_def syncSeenContent_def)
  qed
qed

lemma answered_ok:
  assumes "chat_ok party s" "honest party s (AnswerOf n eager a)"
  shows "chat_ok party (fst (fetch_answered n eager a s))"
proof (cases "map_of (ch_fetches s) n")
  case None
  with assms show ?thesis by (simp add: fetch_answered_def)
next
  case (Some f)
  have ended: "chat_ok party (end_fetch n s)"
    using assms(1) asks_own_end [of s n] by (auto simp: chat_ok_def end_fetch_def)
  have "qu_key (ft_query f) = vw_id (ft_view f)"
    using assms(1) Some by (auto simp: chat_ok_def asks_own_def dest!: map_of_SomeD)
  then have "chat_ok party (fst (use_answer f eager a (end_fetch n s)))"
    using use_answer_ok [OF ended] assms(2) Some by (simp add: honest_def)
  then have "chat_ok party (settle n f (fst (use_answer f eager a (end_fetch n s))))"
    by (rule chat_ok_cong) simp_all
  moreover have "chat_ok party (settle n f (end_fetch n s))" by (rule chat_ok_cong [OF ended]) simp_all
  ultimately show ?thesis using Some by (simp add: fetch_answered_def split_beta)
qed

lemma failed_ok: "chat_ok party s \<Longrightarrow> chat_ok party (fst (fetch_failed n s))"
  by (auto simp: fetch_failed_def chat_ok_def end_fetch_def asks_own_end [unfolded end_fetch_def, simplified]
      split: option.split)

lemma abort_fields [simp]:
  "ch_messages (abort_fetch n s) = ch_messages s" "cr_messages (abort_fetch n s) = cr_messages s"
  "ch_cache (abort_fetch n s) = ch_cache s" "ch_prevId (abort_fetch n s) = ch_prevId s"
  "ch_prevIsMessage (abort_fetch n s) = ch_prevIsMessage s" "ch_active (abort_fetch n s) = ch_active s"
  "ch_shown (abort_fetch n s) = ch_shown s" "ch_fetching (abort_fetch n s) = ch_fetching s"
  by (cases n; simp add: abort_fetch_def)+

text \<open>While the switch is under way the page shown is already the new one, but not the conversation.\<close>

definition leaving_ok :: "(jstr \<Rightarrow> 'a) \<Rightarrow> chat \<Rightarrow> bool" where
  "leaving_ok party s \<longleftrightarrow> in_chat party (ch_prevId s) (ch_messages s) \<and> in_chat party (ch_prevId s) (cr_messages s) \<and>
     cache_in_chat party (ch_cache s) \<and> asks_own (ch_fetches s)"

lemma leave_chat_cache:
  assumes "in_chat party prevId (cr_messages s)" "cache_in_chat party (ch_cache s)"
  shows "cache_in_chat party (ch_cache (leave_chat prevId s))"
  using assms by (cases prevId) (simp_all add: leave_chat_def cache_in_put)

lemma leave_chat_fields [simp]:
  "ch_active (leave_chat p s) = ch_active s" "ch_shown (leave_chat p s) = ch_shown s"
  "ch_prevId (leave_chat p s) = ch_prevId s" "ch_fetching (leave_chat p s) = ch_fetching s"
  "ch_messages (leave_chat p s) = ch_messages s" "cr_messages (leave_chat p s) = cr_messages s"
  "ch_fetches (leave_chat p s) = ch_fetches s"
  by (simp_all add: leave_chat_def split: option.split)

definition showing_ok :: "(jstr \<Rightarrow> 'a) \<Rightarrow> chat \<Rightarrow> bool" where
  "showing_ok party s \<longleftrightarrow> at_home s \<and> in_chat party (ch_prevId s) (ch_messages s) \<and>
     cache_in_chat party (ch_cache s) \<and> asks_own (ch_fetches s)"

lemma send_showing: "showing_ok party s \<Longrightarrow> showing_ok party (fst (send_fetch w p y s))"
  by (simp add: showing_ok_def)

text \<open>What the new conversation shows first does not depend on what the old one left on the screen.\<close>

lemma show_chat_ok:
  assumes "at_home s" "ch_active s = Some w" "isMessageConversation (Some w)" "cache_in_chat party (ch_cache s)"
    "asks_own (ch_fetches s)"
  shows "showing_ok party (fst (show_chat w s))"
proof -
  have prev: "ch_prevId s = Some (vw_id w)" using assms(1,2) by (simp add: home_def)
  note cache = cache_in_get [OF assms(4), of "vw_id w"]
  show ?thesis
  proof (cases "cache_get (vw_id w) (ch_cache s)")
    case (Pair e c)
    show ?thesis
    proof (cases e)
      case None
      then show ?thesis using assms cache(1) Pair
        by (auto simp: show_chat_def fetchLatestMessages_def Let_def showing_ok_def)
    next
      case (Some entry)
      then show ?thesis using assms cache(1) cache(2) [of entry] Pair prev
        by (simp add: show_chat_def next_reconcile_def Let_def reconcileFromBackend_def showing_ok_def)
    qed
  qed
qed

lemma show_target_ok:
  "at_home s \<Longrightarrow> cache_in_chat party (ch_cache s) \<Longrightarrow> asks_own (ch_fetches s) \<Longrightarrow>
   showing_ok party (fst (show_target w t s))"
  by (simp add: show_target_def showing_ok_def)

lemma switch_ok:
  assumes old: "leaving_ok party s"
    and now: "ch_shown s = Some (map_option vw_id (ch_active s), map_option vw_type (ch_active s), t, v)"
  shows "showing_ok party (fst (switch_effect s))"
proof -
  let ?new = "map_option vw_id (ch_active s)"
  let ?isM = "isMessageConversation (ch_active s)"
  let ?changed = "ch_prevId s \<noteq> ?new \<or> ch_prevIsMessage s \<noteq> ?isM"
  define s2 where "s2 = (abort_running s)\<lparr>ch_prevIsMessage := ?isM, ch_fetching := ?new, ch_prevId := ?new,
      ch_prevReload := ch_reloadVersion s, ch_latestRequest := 0, ch_pendingReconcile := False\<rparr>"
  define s3 where "s3 = s2\<lparr>ch_loadingOlder := False, cr_loadingOlder := False, ch_loadingNewer := False,
      ch_hasNewer := (if ?changed then False else ch_hasNewer s2)\<rparr>"
  define s4 where "s4 = (if ?changed then leave_chat (ch_prevId s) s3 else s3)"
  have same: "ch_messages s2 = ch_messages s" "cr_messages s3 = cr_messages s" "ch_cache s3 = ch_cache s"
      "ch_active s2 = ch_active s" "ch_active s3 = ch_active s" "asks_own (ch_fetches s2)" "asks_own (ch_fetches s3)" "at_home s2" "at_home s3"
    using old now by (simp_all add: s2_def s3_def abort_running_def leaving_ok_def home_def)
  have four: "at_home s4" "ch_active s4 = ch_active s" "asks_own (ch_fetches s4)" "cache_in_chat party (ch_cache s4)"
    using same leave_chat_cache [of party "ch_prevId s" s3] old by (auto simp: s4_def leaving_ok_def)
  have stay: "showing_ok party s2" if "\<not> ?changed"
    using that old same by (auto simp: showing_ok_def leaving_ok_def s2_def abort_running_def)
  have other: "showing_ok party (s4\<lparr>ch_messages := [], ch_hasOlder := False\<rparr>)"
    using four by (simp add: showing_ok_def)
  have chat: "showing_ok party (fst (case ch_target s of Some t \<Rightarrow> show_target (the (ch_active s)) t (s4\<lparr>ch_abort := Some (ch_serial s4)\<rparr>)
      | None \<Rightarrow> show_chat (the (ch_active s)) (s4\<lparr>ch_abort := Some (ch_serial s4)\<rparr>)))" if m: "?isM"
  proof -
    obtain w where w: "ch_active s = Some w" using m by (cases "ch_active s") (simp_all add: isMessageConversation_def)
    show ?thesis using four w m by (cases "ch_target s") (auto intro!: show_chat_ok show_target_ok)
  qed
  have "switch_effect s =
      (if \<not> ?changed \<and> ch_target s = None \<and> \<not> ch_prevReload s \<noteq> ch_reloadVersion s then (s2, [])
       else if \<not> ?isM then (s4\<lparr>ch_messages := [], ch_hasOlder := False\<rparr>, [])
       else case ch_target s of Some t \<Rightarrow> show_target (the (ch_active s)) t (s4\<lparr>ch_abort := Some (ch_serial s4)\<rparr>)
            | None \<Rightarrow> show_chat (the (ch_active s)) (s4\<lparr>ch_abort := Some (ch_serial s4)\<rparr>))"
    unfolding switch_effect_def Let_def s2_def [symmetric] s3_def [symmetric] s4_def [symmetric] by simp
  then show ?thesis using stay other chat by auto
qed

lemma showing_synced: "showing_ok party s \<Longrightarrow> chat_ok party (sync_refs s)"
  by (simp add: showing_ok_def chat_ok_def sync_refs_def)

lemma render_ok:
  assumes "chat_ok party s"
  shows "chat_ok party (fst (render v target s))"
proof -
  define s1 where "s1 = sync_refs (s\<lparr>ch_active := v, ch_target := target\<rparr>)"
  let ?deps = "(map_option vw_id v, map_option vw_type v, target, ch_reloadVersion s1)"
  have r: "render v target s = (if ch_shown s1 = Some ?deps then (s1, [])
      else let (s2, calls) = switch_effect (s1\<lparr>ch_shown := Some ?deps\<rparr>) in (sync_refs s2, calls))"
    by (simp add: render_def s1_def Let_def)
  have leaving: "leaving_ok party (s1\<lparr>ch_shown := Some ?deps\<rparr>)"
    using assms by (simp add: leaving_ok_def chat_ok_def s1_def sync_refs_def)
  have act: "ch_active s1 = v" by (simp add: s1_def sync_refs_def)
  show ?thesis
  proof (cases "ch_shown s1 = Some ?deps")
    case True
    have "ch_shown s = Some ?deps" using True by (simp add: s1_def sync_refs_def)
    with assms have "chat_ok party s1" by (auto simp: chat_ok_def s1_def sync_refs_def home_def)
    then show ?thesis using True r by simp
  next
    case False
    have "showing_ok party (fst (switch_effect (s1\<lparr>ch_shown := Some ?deps\<rparr>)))"
      by (rule switch_ok [OF leaving]) (simp add: act)
    then show ?thesis using False r showing_synced by (simp add: split_beta)
  qed
qed

lemma observe_chat_ok:
  assumes "chat_ok party s"
  shows "chat_ok party (snd (observeMessage m s))"
proof -
  obtain m1 a1 where m1: "applyPendingAck m (ch_acks s) = (m1, a1)" by fastforce
  obtain m2 a2 where m2: "applyPendingAck m1 a1 = (m2, a2)" by fastforce
  have keys: "ms_conversation_key m1 = ms_conversation_key m" "ms_conversation_key m2 = ms_conversation_key m"
    using apply_ack_key [of m "ch_acks s"] apply_ack_key [of m1 a1] m1 m2 by simp_all
  show ?thesis
  proof (cases "isActiveConversationMessage (ch_active s) m1")
    case True
    then obtain w where "ch_active s = Some w" "vw_id w = ms_conversation_key m1"
      by (auto simp: isActiveConversationMessage_def split: option.splits if_splits)
    moreover have "ch_prevId s = map_option vw_id (ch_active s)" using assms by (simp add: chat_ok_def home_def)
    ultimately have "in_chat party (ch_prevId s) [m2]" using keys by (simp add: in_chat_def)
    then show ?thesis using assms True
      by (auto simp: observeMessage_def appendActiveMessageIfNew_def m1 m2 Let_def chat_ok_def)
  next
    case False
    then show ?thesis using assms cache_in_add [of party "ch_cache s" m1] keys
      by (auto simp: observeMessage_def m1 Let_def split_beta chat_ok_def)
  qed
qed

lemma callbacks_ok:
  assumes "chat_ok party s"
  shows "chat_ok party (fst (fetchOlderMessages s))" "chat_ok party (fst (fetchNewerMessages s))"
    "chat_ok party (fst (jumpToBottom s))" "chat_ok party (reloadCurrentConversation s)"
    "chat_ok party (fst (reconcileOnReconnect s))"
proof -
  show "chat_ok party (fst (fetchOlderMessages s))" "chat_ok party (fst (fetchNewerMessages s))"
    using assms by (auto simp: fetchOlderMessages_def fetchNewerMessages_def chat_ok_def split: option.split)
  have removed: "chat_ok party (s\<lparr>ch_hasNewer := False, ch_cache := cache_remove k (ch_cache s)\<rparr>)" for k
    using assms cache_in_step(4) by (auto simp: chat_ok_def)
  then show "chat_ok party (fst (jumpToBottom s))"
    using assms by (simp add: jumpToBottom_def fetchLatest_ok split: option.split)
  show "chat_ok party (reloadCurrentConversation s)"
    using assms cache_in_step(4) [of party "ch_cache s"] by (simp add: reloadCurrentConversation_def chat_ok_def)
  have "chat_ok party (s\<lparr>ch_pendingReconcile := b\<rparr>)" for b using assms by (simp add: chat_ok_def)
  then show "chat_ok party (fst (reconcileOnReconnect s))"
    using assms by (simp add: reconcileOnReconnect_def next_reconcile_ok)
qed

lemma marks_ok:
  assumes "chat_ok party s"
  shows "chat_ok party (receiveMessageAck i n ps q s)" "chat_ok party (receiveMessageFailed i t s)"
    "chat_ok party (receiveMessageSpam ids b d s)" "chat_ok party (removeMessage i s)"
proof -
  note cache = cache_in_step [of party "ch_cache s"] cache_in_spam [of party "ch_cache s"]
  show "chat_ok party (receiveMessageAck i n ps q s)" "chat_ok party (receiveMessageFailed i t s)"
    "chat_ok party (receiveMessageSpam ids b d s)" "chat_ok party (removeMessage i s)"
    using assms cache
    by (auto simp: chat_ok_def receiveMessageAck_def updateMessageAck_def receiveMessageFailed_def receiveMessageSpam_def
        removeMessage_def Let_def elim: in_chat_subset split: option.split)
qed

lemma chat_step_ok:
  assumes "chat_ok party s" "honest party s e"
  shows "chat_ok party (fst (chat_step e s))"
proof (cases e)
  case (RenameChat a b)
  with assms cache_in_rename [of party "ch_cache s" a b] show ?thesis by (simp add: chat_step_def chat_ok_def honest_def)
next
  case (RemoveChat k)
  with assms cache_in_step(4) [of party "ch_cache s" k] show ?thesis by (auto simp: chat_step_def chat_ok_def)
next
  case ClearChats
  with assms show ?thesis by (simp add: chat_step_def chat_ok_def cache_clear_def cache_in_chat_def)
next
  case (AnswerOf n eager a)
  with assms answered_ok show ?thesis by (simp add: chat_step_def)
qed (use assms in \<open>simp_all add: chat_step_def render_ok callbacks_ok failed_ok observe_chat_ok marks_ok\<close>)

lemma chat_run_ok: "chat_ok party s \<Longrightarrow> honest_run party s es \<Longrightarrow> chat_ok party (chat_run es s)"
  by (induction es arbitrary: s) (simp_all add: chat_step_ok)

lemma fresh_chat_ok: "chat_ok party (fresh_chat [])"
  by (simp add: fresh_chat_def chat_ok_def home_def cache_in_chat_def asks_own_def)

text \<open>C28: However pages are opened, however late the server answers and whatever arrives meanwhile, every message
  on screen is one of the conversation that is open, as long as the server answers with messages of the
  conversation it was asked for and a renamed contact stays the same one.\<close>

theorem chat_shows_open_conversation:
  assumes "honest_run party (fresh_chat []) es" "s = chat_run es (fresh_chat [])" "m \<in> set (ch_messages s)"
  shows "\<exists>w. ch_active s = Some w \<and> party (ms_conversation_key m) = party (vw_id w)"
proof -
  have ok: "chat_ok party s" using chat_run_ok [OF fresh_chat_ok assms(1)] assms(2) by simp
  then have "in_chat party (map_option vw_id (ch_active s)) (ch_messages s)" by (auto simp: chat_ok_def home_def)
  then show ?thesis using assms(3) by (cases "ch_active s") (auto simp: in_chat_def)
qed

definition chat_demo_message :: "nat \<Rightarrow> int \<Rightarrow> message" where
  "chat_demo_message i t = (sample_message i t)\<lparr>ms_type := Chan, ms_conversation_key := (str ''aa'')\<rparr>"

definition chat_demo_page :: "message list \<Rightarrow> answer" where
  "chat_demo_page ms = \<lparr>an_messages = ms, an_hasOlder = False, an_hasNewer = False\<rparr>"

definition chat_demo_view :: "jstr \<Rightarrow> view" where
  "chat_demo_view i = \<lparr>vw_type = ChannelChat, vw_id = i\<rparr>"

text \<open>A run: a channel is opened, its page arrives, and then a new message.\<close>

definition chat_demo_run :: "chat_event list" where
  "chat_demo_run =
     [Render (Some (chat_demo_view (str ''aa''))) None, AnswerOf 0 True (chat_demo_page [chat_demo_message 1 5]),
      Render (Some (chat_demo_view (str ''aa''))) None, Observe (chat_demo_message 2 9)]"

lemmas chat_eval = chat_step_def render_def switch_effect_def abort_running_def abort_fetch_def leave_chat_def show_chat_def
  fetchLatestMessages_def send_fetch_def query_for_def sync_refs_def fetch_answered_def fetch_failed_def use_answer_def
  latest_answered_def reconcile_answered_def take_page_def settle_def end_fetch_def observeMessage_def
  appendActiveMessageIfNew_def isMessageConversation_def isActiveConversationMessage_def fresh_chat_def
  syncSeenContent_def cache_get_def next_reconcile_def reconcileFromBackend_def reconcileOnReconnect_def

theorem chat_shows_open_conversation_witness:
  "\<exists>w. ch_active (chat_run chat_demo_run (fresh_chat [])) = Some w \<and>
     ms_conversation_key (chat_demo_message 2 9) = vw_id w"
  by (rule chat_shows_open_conversation [where party = "\<lambda>k. k" and es = chat_demo_run, OF _ refl]) (code_simp, code_simp)

subsection \<open>Loading ends\<close>

definition loads_page :: "fetch \<Rightarrow> bool" where
  "loads_page f \<longleftrightarrow> (case ft_purpose f of ShowLatest b ids \<Rightarrow> b | ShowAround \<Rightarrow> True | _ \<Rightarrow> False)"

definition in_flight :: "(fetch \<Rightarrow> bool) \<Rightarrow> (nat \<times> fetch) list \<Rightarrow> bool" where
  "in_flight P fs \<longleftrightarrow> (\<exists>(n, f) \<in> set fs. P f)"

definition awaited :: "chat \<Rightarrow> bool" where
  "awaited s \<longleftrightarrow>
     (ch_messagesLoading s \<longrightarrow> in_flight loads_page (ch_fetches s)) \<and>
     (ch_loadingOlder s \<or> cr_loadingOlder s \<longrightarrow> in_flight (\<lambda>f. ft_purpose f = ShowOlder) (ch_fetches s)) \<and>
     (ch_loadingNewer s \<or> cr_loadingNewer s \<longrightarrow> in_flight (\<lambda>f. ft_purpose f = ShowNewer) (ch_fetches s))"

lemma in_flight_append [simp]: "in_flight P (fs @ [(n, f)]) \<longleftrightarrow> in_flight P fs \<or> P f"
  by (auto simp: in_flight_def)

lemma in_flight_Nil [simp]: "\<not> in_flight P []"
  by (simp add: in_flight_def)

lemma in_flight_map:
  "(\<And>f. P (f\<lparr>ft_aborted := True\<rparr>) = P f) \<Longrightarrow> in_flight P (ch_fetches (abort_fetch k s)) = in_flight P (ch_fetches s)"
  unfolding in_flight_def abort_fetch_def by (cases k) (force simp: split_beta image_iff split: if_splits)+

lemma in_flight_abort [simp]:
  "in_flight loads_page (ch_fetches (abort_fetch k s)) = in_flight loads_page (ch_fetches s)"
  "in_flight (\<lambda>f. ft_purpose f = y) (ch_fetches (abort_fetch k s)) = in_flight (\<lambda>f. ft_purpose f = y) (ch_fetches s)"
  by (rule in_flight_map; simp add: loads_page_def)+

lemma in_flight_delete:
  "in_flight P (ch_fetches s) \<Longrightarrow> map_of (ch_fetches s) n = Some f \<Longrightarrow> amap_ok (ch_fetches s) \<Longrightarrow> \<not> P f \<Longrightarrow>
   in_flight P (amap_delete n (ch_fetches s))"
proof -
  assume a: "in_flight P (ch_fetches s)" "map_of (ch_fetches s) n = Some f" "amap_ok (ch_fetches s)" "\<not> P f"
  then obtain k g where g: "(k, g) \<in> set (ch_fetches s)" "P g" by (auto simp: in_flight_def)
  have "map_of (ch_fetches s) k = Some g" using g(1) a(3) by simp
  then have "k \<noteq> n" using a(2,4) g(2) by auto
  then show ?thesis using g by (auto simp: in_flight_def amap_delete_def)
qed

lemma abort_loading [simp]:
  "ch_messagesLoading (abort_fetch k s) = ch_messagesLoading s" "ch_loadingOlder (abort_fetch k s) = ch_loadingOlder s"
  "ch_loadingNewer (abort_fetch k s) = ch_loadingNewer s" "cr_loadingOlder (abort_fetch k s) = cr_loadingOlder s"
  "cr_loadingNewer (abort_fetch k s) = cr_loadingNewer s" "ch_serial (abort_fetch k s) = ch_serial s"
  "amap_keys (ch_fetches (abort_fetch k s)) = amap_keys (ch_fetches s)"
  by (cases k; simp add: abort_fetch_def split_beta comp_def)+

text \<open>Numbers of requests are fresh, so each stands for one.\<close>

definition numbered :: "chat \<Rightarrow> bool" where
  "numbered s \<longleftrightarrow> amap_ok (ch_fetches s) \<and> (\<forall>n \<in> set (amap_keys (ch_fetches s)). n < ch_serial s)"

definition flights_ok :: "chat \<Rightarrow> bool" where
  "flights_ok s \<longleftrightarrow> numbered s \<and> awaited s"

lemma flights_cong:
  assumes "flights_ok s" "ch_fetches s' = ch_fetches s" "ch_serial s' = ch_serial s"
    "ch_messagesLoading s' \<longrightarrow> ch_messagesLoading s"
    "ch_loadingOlder s' \<or> cr_loadingOlder s' \<longrightarrow> ch_loadingOlder s \<or> cr_loadingOlder s"
    "ch_loadingNewer s' \<or> cr_loadingNewer s' \<longrightarrow> ch_loadingNewer s \<or> cr_loadingNewer s"
  shows "flights_ok s'"
  using assms by (auto simp: flights_ok_def numbered_def awaited_def)

lemma send_flights:
  assumes "numbered s" "ch_messagesLoading s \<longrightarrow> in_flight loads_page (ch_fetches s) \<or> loads_page \<lparr>ft_view = w, ft_query = query_for w p, ft_purpose = y, ft_aborted = False\<rparr>"
    "ch_loadingOlder s \<or> cr_loadingOlder s \<longrightarrow> in_flight (\<lambda>f. ft_purpose f = ShowOlder) (ch_fetches s) \<or> y = ShowOlder"
    "ch_loadingNewer s \<or> cr_loadingNewer s \<longrightarrow> in_flight (\<lambda>f. ft_purpose f = ShowNewer) (ch_fetches s) \<or> y = ShowNewer"
  shows "flights_ok (fst (send_fetch w p y s))"
  using assms by (auto simp: send_fetch_def Let_def flights_ok_def numbered_def awaited_def less_Suc_eq)

lemma send_awaited: "flights_ok s \<Longrightarrow> flights_ok (fst (send_fetch w p y s))"
  by (rule send_flights) (auto simp: flights_ok_def awaited_def)

lemma next_reconcile_flights: "flights_ok s \<Longrightarrow> flights_ok (fst (next_reconcile w s))"
  unfolding next_reconcile_def Let_def reconcileFromBackend_def by (rule send_awaited, erule flights_cong) simp_all

lemma fetchLatest_flights:
  assumes "flights_ok s"
  shows "flights_ok (fst (fetchLatestMessages True s))"
proof -
  have none: "flights_ok (s\<lparr>ch_messages := [], ch_hasOlder := False\<rparr>)" by (rule flights_cong [OF assms]) simp_all
  have some: "flights_ok (fst (send_fetch w LatestPage (ShowLatest True ids)
      (s\<lparr>ch_pendingReconcile := False, ch_messagesLoading := True, ch_messages := []\<rparr>)))" for w ids
    by (rule send_flights) (use assms in \<open>auto simp: flights_ok_def numbered_def awaited_def loads_page_def\<close>)
  show ?thesis using none some by (simp add: fetchLatestMessages_def Let_def split: option.split)
qed

lemma settle_flights:
  assumes "numbered s" "map_of (ch_fetches s) n = Some f" "awaited s" "numbered s'"
    and kept: "\<And>P. in_flight P (amap_delete n (ch_fetches s)) \<Longrightarrow> in_flight P (ch_fetches s')"
    and flags: "ch_messagesLoading s' \<longrightarrow> ch_messagesLoading s"
      "ch_loadingOlder s' \<or> cr_loadingOlder s' \<longrightarrow> ch_loadingOlder s \<or> cr_loadingOlder s"
      "ch_loadingNewer s' \<or> cr_loadingNewer s' \<longrightarrow> ch_loadingNewer s \<or> cr_loadingNewer s"
  shows "flights_ok (settle n f s')"
proof -
  have other: "in_flight P (ch_fetches s')" if "in_flight P (ch_fetches s)" "\<not> P f" for P
    using kept in_flight_delete [OF that(1) assms(2) _ that(2)] assms(1) by (simp add: numbered_def)
  have num: "numbered (settle n f s')" using assms(4)
    by (simp add: numbered_def settle_def split: purpose.split)
  have page: "in_flight loads_page (ch_fetches s')" if "ch_messagesLoading s'" "\<not> loads_page f"
    using that flags(1) assms(3) other [of loads_page] by (simp add: awaited_def)
  have older: "in_flight (\<lambda>f. ft_purpose f = ShowOlder) (ch_fetches s')"
    if "ch_loadingOlder s' \<or> cr_loadingOlder s'" "ft_purpose f \<noteq> ShowOlder"
    using that flags(2) assms(3) other [of "\<lambda>f. ft_purpose f = ShowOlder"] by (simp add: awaited_def)
  have newer: "in_flight (\<lambda>f. ft_purpose f = ShowNewer) (ch_fetches s')"
    if "ch_loadingNewer s' \<or> cr_loadingNewer s'" "ft_purpose f \<noteq> ShowNewer"
    using that flags(3) assms(3) other [of "\<lambda>f. ft_purpose f = ShowNewer"] by (simp add: awaited_def)
  have "awaited (settle n f s')"
  proof (cases "ft_purpose f")
    case (ShowLatest b ids)
    then show ?thesis using page older newer by (cases b) (simp_all add: awaited_def settle_def loads_page_def)
  qed (use page older newer in \<open>simp_all add: awaited_def settle_def loads_page_def\<close>)
  with num show ?thesis by (simp add: flights_ok_def)
qed

lemma numbered_end: "numbered s \<Longrightarrow> numbered (end_fetch n s)"
  by (auto simp: numbered_def end_fetch_def amap_keys_delete)

lemma ended_fields [simp]:
  "ch_fetches (end_fetch n s) = amap_delete n (ch_fetches s)" "ch_messagesLoading (end_fetch n s) = ch_messagesLoading s"
  "ch_loadingOlder (end_fetch n s) = ch_loadingOlder s" "cr_loadingOlder (end_fetch n s) = cr_loadingOlder s"
  "ch_loadingNewer (end_fetch n s) = ch_loadingNewer s" "cr_loadingNewer (end_fetch n s) = cr_loadingNewer s"
  by (simp_all add: end_fetch_def)

lemma sent_fields [simp]:
  "ch_messagesLoading (fst (send_fetch w p y s)) = ch_messagesLoading s"
  "ch_loadingOlder (fst (send_fetch w p y s)) = ch_loadingOlder s"
  "cr_loadingOlder (fst (send_fetch w p y s)) = cr_loadingOlder s"
  "ch_loadingNewer (fst (send_fetch w p y s)) = ch_loadingNewer s"
  "cr_loadingNewer (fst (send_fetch w p y s)) = cr_loadingNewer s"
  by (simp_all add: send_fetch_def Let_def)

definition same_flags :: "chat \<Rightarrow> chat \<Rightarrow> bool" where
  "same_flags s s' \<longleftrightarrow> ch_messagesLoading s' = ch_messagesLoading s \<and> ch_loadingOlder s' = ch_loadingOlder s \<and>
     cr_loadingOlder s' = cr_loadingOlder s \<and> ch_loadingNewer s' = ch_loadingNewer s \<and>
     cr_loadingNewer s' = cr_loadingNewer s \<and> (numbered s \<longrightarrow> numbered s') \<and>
     (\<forall>P. in_flight P (ch_fetches s) \<longrightarrow> in_flight P (ch_fetches s'))"

lemma next_reconcile_flags: "same_flags s (fst (next_reconcile w s))"
  by (auto simp: same_flags_def next_reconcile_def Let_def reconcileFromBackend_def send_fetch_def numbered_def less_Suc_eq)

lemma use_answer_flags: "same_flags s (fst (use_answer f eager a s))"
proof -
  have newer: "same_flags s (fst (newer_answered f data s))" for data
  proof -
    have "same_flags s s1 \<Longrightarrow> same_flags s (fst (next_reconcile w s1))" for s1 w
      using next_reconcile_flags [of s1 w] by (auto simp: same_flags_def)
    then show ?thesis
      by (auto simp: newer_answered_def Let_def split_beta same_flags_def numbered_def)
  qed
  then show ?thesis
    by (cases "ft_purpose f")
      (simp_all add: use_answer_def latest_answered_def reconcile_answered_def older_answered_def
        around_answered_def Let_def split_beta same_flags_def numbered_def syncSeenContent_def split: option.split)
qed

lemma answered_flights:
  assumes "flights_ok s"
  shows "flights_ok (fst (fetch_answered n eager a s))" "flights_ok (fst (fetch_failed n s))"
proof -
  show "flights_ok (fst (fetch_answered n eager a s))"
  proof (cases "map_of (ch_fetches s) n")
    case None
    with assms show ?thesis by (simp add: fetch_answered_def)
  next
    case (Some f)
    note s = assms [unfolded flights_ok_def]
    have aborted: "flights_ok (settle n f (end_fetch n s))"
      by (rule settle_flights [of s]) (use s Some numbered_end in \<open>simp_all\<close>)
    have flags: "same_flags (end_fetch n s) (fst (use_answer f eager a (end_fetch n s)))" by (rule use_answer_flags)
    have "flights_ok (settle n f (fst (use_answer f eager a (end_fetch n s))))"
      by (rule settle_flights [of s]) (use s Some numbered_end flags in \<open>simp_all add: same_flags_def\<close>)
    with aborted Some show ?thesis by (simp add: fetch_answered_def split_beta)
  qed
  show "flights_ok (fst (fetch_failed n s))"
  proof (cases "map_of (ch_fetches s) n")
    case None
    with assms show ?thesis by (simp add: fetch_failed_def)
  next
    case (Some f)
    have "flights_ok (settle n f (end_fetch n s))"
      by (rule settle_flights [of s]) (use assms Some numbered_end in \<open>simp_all add: flights_ok_def\<close>)
    with Some show ?thesis by (simp add: fetch_failed_def)
  qed
qed

lemma render_flights:
  assumes "flights_ok s"
  shows "flights_ok (fst (render v target s))"
proof -
  have sync: "flights_ok (sync_refs s')" if "flights_ok s'" for s'
    by (rule flights_cong [OF that]) (simp_all add: sync_refs_def)
  have latest: "flights_ok (fst (show_chat w s'))" if s': "flights_ok s'" for w s'
  proof (cases "cache_get (vw_id w) (ch_cache s')")
    case (Pair e c)
    have "flights_ok (s'\<lparr>ch_cache := c\<rparr>)" by (rule flights_cong [OF s']) simp_all
    moreover have "flights_ok (s'\<lparr>ch_cache := c, ch_messages := ms, ch_seen := ks, ch_hasOlder := b, ch_messagesLoading := False\<rparr>)" for ms ks b
      by (rule flights_cong [OF s']) simp_all
    ultimately show ?thesis using Pair
      by (simp add: show_chat_def fetchLatest_flights next_reconcile_flights split: option.split)
  qed
  have around: "flights_ok (fst (show_target w t s'))" if "flights_ok s'" for w t s'
    unfolding show_target_def
    by (rule send_flights) (use that in \<open>auto simp: flights_ok_def numbered_def awaited_def loads_page_def\<close>)
  have abort: "flights_ok (abort_fetch k s')" if "flights_ok s'" for k s'
    using that by (simp add: flights_ok_def numbered_def awaited_def)
  have switch: "flights_ok (fst (switch_effect s'))" if s': "flights_ok s'" for s'
  proof -
    let ?changed = "ch_prevId s' \<noteq> map_option vw_id (ch_active s') \<or> ch_prevIsMessage s' \<noteq> isMessageConversation (ch_active s')"
    define s2 where "s2 = (abort_running s')\<lparr>ch_prevIsMessage := isMessageConversation (ch_active s'),
        ch_fetching := map_option vw_id (ch_active s'), ch_prevId := map_option vw_id (ch_active s'),
        ch_prevReload := ch_reloadVersion s', ch_latestRequest := 0, ch_pendingReconcile := False\<rparr>"
    define s3 where "s3 = s2\<lparr>ch_loadingOlder := False, cr_loadingOlder := False, ch_loadingNewer := False,
        ch_hasNewer := (if ?changed then False else ch_hasNewer s2)\<rparr>"
    define s4 where "s4 = (if ?changed then leave_chat (ch_prevId s') s3 else s3)"
    have 2: "flights_ok s2" unfolding s2_def abort_running_def
      by (rule flights_cong [of "abort_fetch (ch_abortNewer s') (abort_fetch (ch_abortOlder s') (abort_fetch (ch_abort s') s'))"])
        (simp_all add: abort s')
    have 3: "flights_ok s3" by (rule flights_cong [OF 2]) (simp_all add: s3_def)
    have 4: "flights_ok s4" by (rule flights_cong [OF 3]) (simp_all add: s4_def leave_chat_def split: option.split)
    have e1: "flights_ok (s4\<lparr>ch_messages := [], ch_hasOlder := False\<rparr>)" by (rule flights_cong [OF 4]) simp_all
    have e2: "flights_ok (s4\<lparr>ch_abort := Some (ch_serial s4)\<rparr>)" by (rule flights_cong [OF 4]) simp_all
    have "switch_effect s' =
      (if \<not> ?changed \<and> ch_target s' = None \<and> \<not> ch_prevReload s' \<noteq> ch_reloadVersion s' then (s2, [])
       else if \<not> isMessageConversation (ch_active s') then (s4\<lparr>ch_messages := [], ch_hasOlder := False\<rparr>, [])
       else case ch_target s' of Some t \<Rightarrow> show_target (the (ch_active s')) t (s4\<lparr>ch_abort := Some (ch_serial s4)\<rparr>)
            | None \<Rightarrow> show_chat (the (ch_active s')) (s4\<lparr>ch_abort := Some (ch_serial s4)\<rparr>))"
      unfolding switch_effect_def Let_def s2_def [symmetric] s3_def [symmetric] s4_def [symmetric] by simp
    then show ?thesis using 2 e1 latest [OF e2] around [OF e2] by (simp split: option.split)
  qed
  have "flights_ok (s\<lparr>ch_active := v, ch_target := target\<rparr>)" by (rule flights_cong [OF assms]) simp_all
  then have s1: "flights_ok (sync_refs (s\<lparr>ch_active := v, ch_target := target\<rparr>))" by (rule sync)
  have "flights_ok ((sync_refs (s\<lparr>ch_active := v, ch_target := target\<rparr>))\<lparr>ch_shown := d\<rparr>)" for d
    by (rule flights_cong [OF s1]) simp_all
  then show ?thesis using s1 sync [OF switch] by (simp add: render_def Let_def split_beta)
qed

lemma chat_step_flights:
  assumes "flights_ok s"
  shows "flights_ok (fst (chat_step e s))"
proof -
  have paging: "flights_ok (fst (fetchOlderMessages s))" "flights_ok (fst (fetchNewerMessages s))"
  proof -
    have older: "flights_ok (fst (send_fetch w p ShowOlder (s\<lparr>cr_loadingOlder := True, ch_loadingOlder := True, ch_abortOlder := k\<rparr>)))"
      and newer: "flights_ok (fst (send_fetch w p ShowNewer (s\<lparr>cr_loadingNewer := True, ch_loadingNewer := True, ch_abortNewer := k\<rparr>)))" for w p k
      by (rule send_flights; use assms in \<open>simp add: flights_ok_def numbered_def awaited_def\<close>)+
    then show "flights_ok (fst (fetchOlderMessages s))" "flights_ok (fst (fetchNewerMessages s))"
      using assms by (simp_all add: fetchOlderMessages_def fetchNewerMessages_def split: option.split)
  qed
  have cached: "flights_ok (s\<lparr>ch_hasNewer := b, ch_cache := c\<rparr>)" "flights_ok (s\<lparr>ch_cache := c\<rparr>)"
      "flights_ok (s\<lparr>ch_pendingReconcile := b\<rparr>)" for b c
    by (rule flights_cong [OF assms]; simp)+
  have others: "flights_ok (fst (jumpToBottom s))" "flights_ok (fst (reconcileOnReconnect s))"
    using assms cached
    by (simp_all add: jumpToBottom_def reconcileOnReconnect_def fetchLatest_flights next_reconcile_flights split: option.split)
  have quiet: "flights_ok (reloadCurrentConversation s)" "flights_ok (snd (observeMessage m s))"
      "flights_ok (receiveMessageAck i n ps q s)" "flights_ok (receiveMessageFailed i t s)"
      "flights_ok (receiveMessageSpam ids b d s)" "flights_ok (removeMessage i s)" for m i n ps q t ids b d
    by (rule flights_cong [OF assms]; simp add: reloadCurrentConversation_def observeMessage_def appendActiveMessageIfNew_def
        receiveMessageAck_def updateMessageAck_def receiveMessageFailed_def receiveMessageSpam_def removeMessage_def
        Let_def split_beta)+
  show ?thesis
    using assms paging others quiet cached answered_flights [OF assms] render_flights [OF assms]
    by (cases e) (simp_all add: chat_step_def)
qed

lemma chat_run_flights: "flights_ok s \<Longrightarrow> flights_ok (chat_run es s)"
  by (induction es arbitrary: s) (simp_all add: chat_step_flights)

text \<open>C29: No request leaves the chat loading: once every request has ended, answered or failed, aborted or not,
  the page, the older and the newer messages are no longer marked as loading and more can be asked for.\<close>

theorem loading_never_sticks:
  assumes "ch_fetches (chat_run es (fresh_chat c)) = []"
  shows "\<not> ch_messagesLoading (chat_run es (fresh_chat c)) \<and> \<not> ch_loadingOlder (chat_run es (fresh_chat c)) \<and>
    \<not> ch_loadingNewer (chat_run es (fresh_chat c)) \<and> \<not> cr_loadingOlder (chat_run es (fresh_chat c)) \<and>
    \<not> cr_loadingNewer (chat_run es (fresh_chat c))"
proof -
  have "flights_ok (fresh_chat c)" by (simp add: flights_ok_def numbered_def awaited_def fresh_chat_def)
  then have "awaited (chat_run es (fresh_chat c))" using chat_run_flights [of _ es] by (simp add: flights_ok_def)
  then show ?thesis using assms by (auto simp: awaited_def)
qed

theorem loading_never_sticks_witness:
  "\<not> ch_messagesLoading (chat_run chat_demo_run (fresh_chat [])) \<and> ch_fetches (chat_run chat_demo_run (fresh_chat [])) = []"
proof -
  have none: "ch_fetches (chat_run chat_demo_run (fresh_chat [])) = []" by code_simp
  from loading_never_sticks [OF none] none show ?thesis by blast
qed

subsection \<open>What an answer may take away\<close>

text \<open>A message that was on screen when the request went out, or the jump to a search result, which replaces the screen.\<close>

definition may_take :: "fetch \<Rightarrow> message \<Rightarrow> bool" where
  "may_take f m \<longleftrightarrow>
     (case ft_purpose f of ShowLatest b ids \<Rightarrow> ms_id m \<in> set ids | Reconcile ids r \<Rightarrow> ms_id m \<in> set ids
      | ShowAround \<Rightarrow> True | _ \<Rightarrow> False)"

lemma take_page_keeps:
  assumes "m \<in> set (cr_messages s)" "ms_id m \<notin> set ids" "take_page ms ids s = Some l"
  shows "ms_id m \<in> ms_id ` set l"
proof -
  have "l = ms @ filter (\<lambda>x. ms_id x \<notin> set (map ms_id ms) \<and> (\<not> mayRemove (Some ids) x \<or>
      \<not> isInsideFetchedRange ms (length ms \<ge> MESSAGE_PAGE_SIZE) x)) (cr_messages s)"
    using assms(3) by (simp add: take_page_def reconcileConversationMessages_def Let_def split: if_splits)
  then show ?thesis using assms(1,2) by (cases "ms_id m \<in> ms_id ` set ms") (auto simp: mayRemove_def)
qed

lemma next_reconcile_messages [simp]: "ch_messages (fst (next_reconcile w s)) = ch_messages s"
  by (simp add: next_reconcile_def Let_def reconcileFromBackend_def)

lemma use_answer_keeps:
  assumes "m \<in> set (ch_messages s)" "cr_messages s = ch_messages s" "\<not> may_take f m"
  shows "ms_id m \<in> ms_id ` set (ch_messages (fst (use_answer f eager a s)))"
proof -
  obtain ms acks where ms: "apply_acks (an_messages a) (ch_acks s) = (ms, acks)" by fastforce
  have page: "ms_id m \<in> ms_id ` set l"
    if "take_page ms ids s' = Some l" "cr_messages s' = ch_messages s" "ms_id m \<notin> set ids" for ids s' l
    using take_page_keeps [of m s' ids ms l] that assms(1) by simp
  show ?thesis
  proof (cases "ft_purpose f")
    case (ShowLatest b ids)
    then show ?thesis using assms page [of ids]
      by (auto simp: use_answer_def latest_answered_def ms Let_def syncSeenContent_def may_take_def split: option.split)
  next
    case (Reconcile ids r)
    then show ?thesis using assms page [of ids]
      by (auto simp: use_answer_def reconcile_answered_def ms Let_def syncSeenContent_def may_take_def split: option.split)
  next
    case ShowOlder
    then show ?thesis using assms
      by (auto simp: use_answer_def older_answered_def ms Let_def syncSeenContent_def appendUniqueMessages_def)
  next
    case ShowNewer
    then show ?thesis using assms by (auto simp: use_answer_def newer_answered_def ms Let_def)
  qed (use assms in \<open>simp add: may_take_def\<close>)
qed


text \<open>The channel is open, its messages are reconciled after a reconnect, and a message arrives meanwhile.\<close>

definition reconnect_run :: "chat_event list" where
  "reconnect_run =
     [Render (Some (chat_demo_view (str ''aa''))) None, AnswerOf 0 True (chat_demo_page [chat_demo_message 1 5]),
      Render (Some (chat_demo_view (str ''aa''))) None, Reconnected, Observe (chat_demo_message 2 9)]"

definition rerender :: chat_event where "rerender = Render (Some (chat_demo_view (str ''aa''))) None"


text \<open>Before that render the reconciliation reads the refs, which lack the message: it is dropped from the screen,
  although it was reported as added.\<close>

theorem unrendered_message_lost:
  "let s = chat_run reconnect_run (fresh_chat []); s' = fst (chat_step (AnswerOf 1 True (chat_demo_page [chat_demo_message 1 6])) s)
   in map ms_id (ch_messages s) = [1, 2] \<and> map ms_id (ch_messages s') = [1]"
  by code_simp

text \<open>A message that is stored after the server has read the last newer page, and is announced before that page
  arrives, is shown by neither, and nothing is left to load.\<close>

theorem last_page_race_drops_message:
  "let s = chat_run
       [Render (Some (chat_demo_view (str ''aa''))) (Some 1),
        AnswerOf 0 True \<lparr>an_messages = [chat_demo_message 1 5], an_hasOlder = False, an_hasNewer = True\<rparr>,
        Render (Some (chat_demo_view (str ''aa''))) None, FetchNewer, Observe (chat_demo_message 3 9),
        AnswerOf 1 True (chat_demo_page [chat_demo_message 2 7])] (fresh_chat [])
   in map ms_id (ch_messages s) = [1, 2] \<and> \<not> ch_hasNewer s \<and> ch_fetches s = []"
  by code_simp

text \<open>Opening another chat while one is still loading takes the loading mark off the new one: the abandoned request's
  clean-up clears the mark of its successor, whose page has not arrived.\<close>

theorem abandoned_load_clears_mark:
  "let s = chat_run [Render (Some (chat_demo_view (str ''aa''))) None, Render (Some (chat_demo_view (str ''bb''))) None, FailureOf 0] (fresh_chat [])
   in \<not> ch_messagesLoading s \<and> ch_messages s = [] \<and> map (ft_purpose \<circ> snd) (ch_fetches s) = [ShowLatest True []]"
  by code_simp

text \<open>An acknowledged message of a conversation that is not open is marked as failed in the cache, which the screen would not do.\<close>

theorem acked_message_marked_failed_in_cache:
  "let m = (chat_demo_message 1 5)\<lparr>ms_acked := 1\<rparr>;
       s = receiveMessageFailed 1 9 ((fresh_chat (snd (addMessage (str ''aa'') m []))))
   in map (ms_failed_at) (ce_messages (snd (hd (ch_cache s)))) = [Some 9] \<and>
      ch_messages (receiveMessageFailed 1 9 ((fresh_chat [])\<lparr>ch_messages := [m]\<rparr>)) = [m]"
  by code_simp

subsection \<open>Acknowledgements ahead of their message\<close>

lemma setPendingAck_kept: "map_of (setPendingAck i n ps q acks) i = Some (mergePendingAck (map_of acks i) n ps q)"
proof -
  let ?new = "amap_set i (mergePendingAck (map_of acks i) n ps q) (amap_delete i acks)"
  have key: "fst (hd ?new) \<noteq> i" if long: "length ?new > MAX_PENDING_ACKS"
  proof -
    have i: "i \<notin> set (amap_keys (amap_delete i acks))" by (auto simp: amap_keys_delete)
    then have new: "?new = amap_delete i acks @ [(i, mergePendingAck (map_of acks i) n ps q)]"
      by (rule amap_set_append_new)
    then obtain p rest where "amap_delete i acks = p # rest"
      using long by (cases "amap_delete i acks") (simp_all add: MAX_PENDING_ACKS_def)
    then show ?thesis using i new by auto
  qed
  show ?thesis using key by (auto simp: setPendingAck_def Let_def)
qed

text \<open>An acknowledgement that comes before its message is not lost: when the message arrives in the open chat it carries
  at least as many.\<close>

theorem early_ack_applied:
  assumes new: "ms_id m \<notin> ms_id ` set (cr_messages s)" "ms_id m \<notin> ms_id ` set (ch_messages s)"
      "getMessageContentKey m \<notin> set (ch_seen s)" and open': "isActiveConversationMessage (ch_active s) m" "\<not> cr_hasNewer s"
  shows "\<exists>m' \<in> set (ch_messages (snd (observeMessage m (receiveMessageAck (ms_id m) n ps q s)))).
    ms_id m' = ms_id m \<and> ms_acked m' \<ge> n"
proof -
  let ?p = "mergePendingAck (map_of (ch_acks s) (ms_id m)) n ps q"
  let ?acks = "setPendingAck (ms_id m) n ps q (ch_acks s)"
  define s1 where "s1 = receiveMessageAck (ms_id m) n ps q s"
  have s1: "ch_acks s1 = ?acks" "ch_messages s1 = ch_messages s" "ch_seen s1 = ch_seen s" "ch_active s1 = ch_active s"
      "cr_hasNewer s1 = cr_hasNewer s" "cr_messages s1 = cr_messages s"
    using new(1) by (auto simp: s1_def receiveMessageAck_def updateMessageAck_def list_ex_iff image_iff)
  obtain m1 a1 where m1: "applyPendingAck m ?acks = (m1, a1)" by fastforce
  obtain m2 a2 where m2: "applyPendingAck m1 a1 = (m2, a2)" by fastforce
  have content: "getMessageContentKey (m\<lparr>ms_acked := x, ms_paths := y, ms_packet_id := z\<rparr>) = getMessageContentKey m" for x y z
    by (simp add: getMessageContentKey_def Let_def split: option.split)
  have one: "ms_id m1 = ms_id m" "ms_type m1 = ms_type m" "ms_conversation_key m1 = ms_conversation_key m"
      "ms_acked m1 = max (ms_acked m) (pa_ackCount ?p)" "getMessageContentKey m1 = getMessageContentKey m" "map_of a1 (ms_id m) = None"
    using m1 setPendingAck_kept [of "ms_id m" n ps q "ch_acks s"]
    by (auto simp: applyPendingAck_def content)
  have two: "m2 = m1" using m2 one(1,6) by (simp add: applyPendingAck_def)
  have "n \<le> pa_ackCount ?p" by (auto simp: mergePendingAck_def Let_def split: option.split)
  moreover have "isActiveConversationMessage (ch_active s) m1" using open'(1)
    unfolding isActiveConversationMessage_def one(2,3) .
  moreover have "\<not> list_ex (\<lambda>x. ms_id x = ms_id m) (ch_messages s)" using new(2) by (auto simp: list_ex_iff image_iff)
  ultimately show ?thesis unfolding s1_def [symmetric]
    using open'(2) new(3) one two
    by (simp add: observeMessage_def appendActiveMessageIfNew_def s1 m1 m2 Let_def max.coboundedI2)
qed
end
