(* ===== verification/Realtime.thy ===== *)
theory Realtime
imports Chat PacketStats Paths "HOL-Library.List_Lexorder"
begin

text \<open>What the server announces (\<^verbatim>\<open>frontend/src/hooks/useRealtimeAppState.ts\<close>, called by
  \<^verbatim>\<open>frontend/src/useWebSocket.ts\<close>): the handlers of the socket's events, which join the open chat (Chat), the unread
  counts (Unread), the packet feed (PacketStats), the contacts and the channels. The refs the handlers
  read are one record of settings; whether a text mentions the user is a parameter (\<open>mentions\<close>), as it is an
  argument of the hook. A handler yields the next state and what it causes: requests, notifications, toasts.\<close>

subsection \<open>State\<close>

text \<open>A contact and a channel keep the fields the handlers read; the others are the object's remaining fields.\<close>

record live_contact =
  lc_public_key :: jstr
  lc_name :: "jstr option"
  lc_last_advert :: "int option"
  lc_fields :: "(jstr \<times> json) list"

record live_channel =
  ln_key :: jstr
  ln_name :: jstr
  ln_muted :: bool
  ln_fields :: "(jstr \<times> json) list"

datatype radio_state = RadioConnected | RadioInitializing | RadioConnecting | RadioDisconnected | RadioPaused

record health =
  hl_connected :: bool
  hl_initializing :: bool
  hl_state :: "radio_state option"
  hl_info :: "jstr option"

record live_settings =
  lg_blockedKeys :: "jstr list"
  lg_blockedNames :: "jstr list"
  lg_hiddenWidths :: "int list"
  lg_hiddenSfs :: "nat list"
  lg_hideMalformed :: bool
  lg_hideNameFiltered :: bool
  lg_hideSpam :: bool
  lg_hideBots :: bool
  lg_botNames :: "jstr list"
  lg_botKeys :: "jstr list"
  lg_mentions :: "jstr \<Rightarrow> bool"
  lg_maxRawPackets :: nat
  lg_library :: packet_library
  lg_collate :: "jstr \<Rightarrow> jstr"

record live =
  lv_chat :: chat
  lv_unreads :: unreads
  lv_store :: packet_store
  lv_contacts :: "live_contact list"
  lv_channels :: "live_channel list"
  lv_health :: "health option"
  lv_deleteFallback :: bool

record new_node =
  nd_count :: nat
  nd_public_key :: "jstr option"
  nd_name :: "jstr option"

datatype toast = ToastConnected "jstr option" | ToastPaused | ToastDisconnected | ToastText bool jstr "jstr option"

datatype buddy_event =
    BuddyRadio radio_state
  | BuddyDm jstr "jstr option"
  | BuddyMention jstr nat "jstr option"
  | BuddySendFailed jstr
  | BuddyNewNode nat "jstr option" "jstr option"

datatype live_call =
    CallChat chat_call | CallUnread server_call | CallConfig | CallRecentPackets nat | CallChannels | CallContacts
  | CallBotLists | CallTempRadio | Notify message | Sound message bool bool | MentionTicker message
  | NotifyNode new_node | Buddy buddy_event | Toast toast | Pulse jstr | ReloadMessages
  | OpenConversation "(jstr \<times> jstr) option"

subsection \<open>Messages\<close>

definition isMessageBlocked :: "message \<Rightarrow> jstr list \<Rightarrow> jstr list \<Rightarrow> bool" where
  "isMessageBlocked msg blockedKeys blockedNames =
     (if ms_outgoing msg then False
      else if length blockedKeys > 0 \<and> ms_type msg = Priv \<and> toLowerCase (ms_conversation_key msg) \<in> set blockedKeys
      then True
      else if length blockedKeys > 0 \<and> ms_type msg = Chan \<and>
        (case ms_sender_key msg of Some k \<Rightarrow> k \<noteq> [] \<and> toLowerCase k \<in> set blockedKeys | None \<Rightarrow> False)
      then True
      else length blockedNames > 0 \<and>
        (case ms_sender_name msg of Some n \<Rightarrow> n \<noteq> [] \<and> n \<in> set blockedNames | None \<Rightarrow> False))"

text \<open>\<^verbatim>\<open>text.indexOf(': ')\<close>\<close>

fun colon_at :: "jstr \<Rightarrow> nat option" where
  "colon_at (a # b # s) = (if a = 58 \<and> b = 32 then Some 0 else map_option Suc (colon_at (b # s)))"
| "colon_at _ = None"

definition parseSenderFromText :: "jstr \<Rightarrow> jstr option \<times> jstr" where
  "parseSenderFromText txt =
     (case colon_at txt of
        None \<Rightarrow> (None, txt)
      | Some i \<Rightarrow>
          if 0 < i \<and> i < 50 \<and> 58 \<notin> set (take i txt) then (Some (take i txt), drop (i + 2) txt) else (None, txt))"

definition botSenderName :: "message \<Rightarrow> jstr option" where
  "botSenderName msg =
     (case ms_sender_name msg of
        Some (c # n) \<Rightarrow> Some (c # n)
      | _ \<Rightarrow> if ms_type msg = Chan then fst (parseSenderFromText (ms_text msg)) else None)"

definition isBotName :: "live_settings \<Rightarrow> jstr option \<Rightarrow> bool" where
  "isBotName g n = (case n of None \<Rightarrow> False | Some x \<Rightarrow> x \<noteq> [] \<and> x \<in> set (lg_botNames g))"

definition isBotMessage :: "live_settings \<Rightarrow> message \<Rightarrow> bool" where
  "isBotMessage g msg =
     (if ms_outgoing msg then False
      else if isBotName g (botSenderName msg) then True
      else if (case ms_sender_key msg of Some k \<Rightarrow> k \<noteq> [] \<and> toLowerCase k \<in> set (lg_botKeys g) | None \<Rightarrow> False) then True
      else ms_type msg = Priv \<and> toLowerCase (ms_conversation_key msg) \<in> set (lg_botKeys g))"

text \<open>The lists the server serves: \<^verbatim>\<open>new Set(...)\<close>, the keys in lower case.\<close>

definition setBotListsState :: "(jstr list \<times> jstr list) option \<Rightarrow> live_settings \<Rightarrow> live_settings" where
  "setBotListsState next_lists g =
     g\<lparr>lg_botNames := js_set (case next_lists of None \<Rightarrow> [] | Some l \<Rightarrow> fst l),
       lg_botKeys := js_set (map toLowerCase (case next_lists of None \<Rightarrow> [] | Some l \<Rightarrow> snd l))\<rparr>"

definition sfBucket :: "radio_stamp option \<Rightarrow> nat" where
  "sfBucket stamp = (case stamp of None \<Rightarrow> 0 | Some st \<Rightarrow> ra_sf st)"

definition MESHCOMOD_COMMAND_CONTACT_PREFIX :: jstr where
  "MESHCOMOD_COMMAND_CONTACT_PREFIX = (str ''4d455348434d'')"

definition isMeshcomodCommandContact :: "jstr \<Rightarrow> bool" where
  "isMeshcomodCommandContact publicKey \<longleftrightarrow>
     publicKey \<noteq> [] \<and> startsWith (toLowerCase publicKey) MESHCOMOD_COMMAND_CONTACT_PREFIX"

definition TXT_TYPE_CLI_COMMAND :: nat where "TXT_TYPE_CLI_COMMAND = 3"

definition isSilenced :: "live_settings \<Rightarrow> live_channel list \<Rightarrow> message \<Rightarrow> bool" where
  "isSilenced g channels msg \<longleftrightarrow>
     (ms_type msg = Chan \<and> ms_conversation_key msg \<noteq> [] \<and>
        list_ex (\<lambda>c. ln_key c = ms_conversation_key msg \<and> ln_muted c) channels) \<or>
     (\<not> ms_outgoing msg \<and> isMessageHiddenByHopWidth (ms_paths msg) (lg_hiddenWidths g)) \<or>
     (\<not> ms_outgoing msg \<and> sfBucket (ms_radio_stamp msg) \<in> set (lg_hiddenSfs g)) \<or>
     (\<not> ms_outgoing msg \<and> ms_malformed msg \<and> lg_hideMalformed g) \<or>
     (\<not> ms_outgoing msg \<and> ms_name_filtered msg \<and> lg_hideNameFiltered g) \<or>
     (\<not> ms_outgoing msg \<and> ms_spam msg \<and> lg_hideSpam g) \<or>
     (lg_hideBots g \<and> isBotMessage g msg) \<or>
     ms_txt_type msg = TXT_TYPE_CLI_COMMAND"

text \<open>What a new message that may be announced causes besides the unread count.\<close>

definition announce :: "live_settings \<Rightarrow> message \<Rightarrow> bool \<Rightarrow> live_call list" where
  "announce g msg isForActive =
     (let isLocalCommandReply = (ms_type msg = Priv \<and> isMeshcomodCommandContact (ms_conversation_key msg)) in
      (if \<not> isLocalCommandReply
       then [Notify msg, Sound msg isForActive (ms_type msg = Chan \<and> lg_mentions g (ms_text msg))] else []) @
      (if ms_type msg = Priv \<and> \<not> isForActive \<and> \<not> isLocalCommandReply
       then [Buddy (BuddyDm (ms_conversation_key msg) (ms_sender_name msg))] else []) @
      (if ms_type msg = Chan \<and> \<not> isForActive \<and> lg_mentions g (ms_text msg)
       then [MentionTicker msg, Buddy (BuddyMention (ms_conversation_key msg) (ms_id msg) (ms_sender_name msg))] else []))"

definition onMessage :: "live_settings \<Rightarrow> int \<Rightarrow> message \<Rightarrow> live \<Rightarrow> live \<times> live_call list" where
  "onMessage g now msg s =
     (if isMessageBlocked msg (lg_blockedKeys g) (lg_blockedNames g) then (s, [])
      else
        let silenced = isSilenced g (lv_channels s) msg;
            ((isNew, isForActive), c) = observeMessage msg (lv_chat s);
            s1 = s\<lparr>lv_chat := c\<rparr>;
            (u, calls) = (if \<not> silenced
              then recordMessageEvent now msg isForActive isNew (lg_mentions g (ms_text msg)) (lv_unreads s1)
              else (lv_unreads s1, []))
        in (s1\<lparr>lv_unreads := u\<rparr>,
            map CallUnread calls @
            (if \<not> ms_outgoing msg \<and> isNew \<and> \<not> silenced then announce g msg isForActive else [])))"

subsection \<open>Contacts and channels\<close>

definition PUBKEY_PREFIX_LENGTH :: nat where "PUBKEY_PREFIX_LENGTH = 12"

definition isUnknownFullKeyContact :: "jstr \<Rightarrow> int option \<Rightarrow> bool" where
  "isUnknownFullKeyContact pubkey lastAdvert \<longleftrightarrow> length pubkey = 64 \<and> lastAdvert \<in> {None, Some 0}"

definition getContactDisplayName :: "jstr option \<Rightarrow> jstr \<Rightarrow> int option \<Rightarrow> jstr" where
  "getContactDisplayName name pubkey lastAdvert =
     (case name of
        Some (c # n) \<Rightarrow> c # n
      | _ \<Rightarrow> if isUnknownFullKeyContact pubkey lastAdvert then (str ''[unknown sender]'') else take PUBKEY_PREFIX_LENGTH pubkey)"

text \<open>\<^verbatim>\<open>{ ...existing, ...incoming }\<close>\<close>

definition merge_contact :: "live_contact \<Rightarrow> live_contact \<Rightarrow> live_contact" where
  "merge_contact existing incoming =
     incoming\<lparr>lc_fields := foldl (\<lambda>m (k, v). amap_set k v m) (lc_fields existing) (lc_fields incoming)\<rparr>"

fun merge_first :: "live_contact \<Rightarrow> live_contact list \<Rightarrow> live_contact list option" where
  "merge_first incoming [] = None"
| "merge_first incoming (c # cs) =
     (if lc_public_key c = lc_public_key incoming then Some (merge_contact c incoming # cs)
      else map_option ((#) c) (merge_first incoming cs))"

definition mergeContactIntoList :: "live_contact list \<Rightarrow> live_contact \<Rightarrow> live_contact list" where
  "mergeContactIntoList contacts incoming =
     (case merge_first incoming contacts of Some cs \<Rightarrow> cs | None \<Rightarrow> contacts @ [incoming])"

fun replace_first :: "live_channel \<Rightarrow> live_channel list \<Rightarrow> live_channel list option" where
  "replace_first updated [] = None"
| "replace_first updated (c # cs) =
     (if ln_key c = ln_key updated then Some (updated # cs) else map_option ((#) c) (replace_first updated cs))"

definition mergeChannelIntoList :: "(jstr \<Rightarrow> jstr) \<Rightarrow> live_channel list \<Rightarrow> live_channel \<Rightarrow> live_channel list" where
  "mergeChannelIntoList collate channels updated =
     (case replace_first updated channels of
        Some cs \<Rightarrow> cs | None \<Rightarrow> sort_key (\<lambda>c. collate (ln_name c)) (channels @ [updated]))"

definition on_cache :: "(message_cache \<Rightarrow> message_cache) \<Rightarrow> live \<Rightarrow> live" where
  "on_cache f s = s\<lparr>lv_chat := (lv_chat s)\<lparr>ch_cache := f (ch_cache (lv_chat s))\<rparr>\<rparr>"

definition is_open :: "view_type \<Rightarrow> jstr \<Rightarrow> live \<Rightarrow> bool" where
  "is_open t i s \<longleftrightarrow> ch_active (lv_chat s) = Some \<lparr>vw_type = t, vw_id = i\<rparr>"

definition onContactResolved :: "jstr \<Rightarrow> live_contact \<Rightarrow> live \<Rightarrow> live \<times> live_call list" where
  "onContactResolved previous c s =
     (let key = lc_public_key c;
          s1 = s\<lparr>lv_contacts := mergeContactIntoList (filter (\<lambda>x. lc_public_key x \<noteq> previous) (lv_contacts s)) c\<rparr>;
          s2 = on_cache (cache_rename previous key) s1;
          s3 = s2\<lparr>lv_unreads := renameConversationState (getStateKey TContact previous) (getStateKey TContact key)
                    (lv_unreads s2)\<rparr>
      in (s3, if is_open ContactChat previous s
              then [OpenConversation (Some (key, getContactDisplayName (lc_name c) key (lc_last_advert c)))] else []))"

definition forget :: "tracked_type \<Rightarrow> jstr \<Rightarrow> live \<Rightarrow> live" where
  "forget t i s =
     (let s1 = on_cache (cache_remove i) s
      in s1\<lparr>lv_unreads := removeConversationState (getStateKey t i) (lv_unreads s1)\<rparr>)"

definition onContactDeleted :: "jstr \<Rightarrow> live \<Rightarrow> live \<times> live_call list" where
  "onContactDeleted publicKey s =
     (let s1 = forget TContact publicKey
                 (s\<lparr>lv_contacts := filter (\<lambda>c. lc_public_key c \<noteq> publicKey) (lv_contacts s)\<rparr>)
      in if is_open ContactChat publicKey s then (s1\<lparr>lv_deleteFallback := True\<rparr>, [OpenConversation None]) else (s1, []))"

definition onChannelDeleted :: "jstr \<Rightarrow> live \<Rightarrow> live \<times> live_call list" where
  "onChannelDeleted key s =
     (let s1 = forget TChannel key (s\<lparr>lv_channels := filter (\<lambda>c. ln_key c \<noteq> key) (lv_channels s)\<rparr>)
      in if is_open ChannelChat key s then (s1\<lparr>lv_deleteFallback := True\<rparr>, [OpenConversation None]) else (s1, []))"

subsection \<open>The radio, the socket and the marks\<close>

definition next_radio_state :: "health \<Rightarrow> radio_state" where
  "next_radio_state h =
     (case hl_state h of
        Some r \<Rightarrow> r
      | None \<Rightarrow> if hl_initializing h then RadioInitializing else if hl_connected h then RadioConnected else RadioDisconnected)"

definition onHealth :: "health \<Rightarrow> live \<Rightarrow> live \<times> live_call list" where
  "onHealth h s =
     (s\<lparr>lv_health := Some h\<rparr>,
      case lv_health s of
        None \<Rightarrow> []
      | Some prev \<Rightarrow>
          (if hl_connected prev \<noteq> hl_connected h then
             (if hl_connected h
              then [Toast (ToastConnected (case hl_info h of Some (c # i) \<Rightarrow> Some (c # i) | _ \<Rightarrow> None)), CallConfig,
                    Buddy (BuddyRadio RadioConnected)]
              else [Buddy (BuddyRadio (if next_radio_state h = RadioPaused then RadioPaused else RadioDisconnected)),
                    Toast (if next_radio_state h = RadioPaused then ToastPaused else ToastDisconnected)])
           else []) @
          (if hl_connected prev \<and> hl_initializing prev \<and> hl_connected h \<and> \<not> hl_initializing h then [CallConfig] else []))"

definition on_chat :: "(chat \<Rightarrow> chat \<times> chat_call list) \<Rightarrow> live \<Rightarrow> live \<times> live_call list" where
  "on_chat f s = (let (c, calls) = f (lv_chat s) in (s\<lparr>lv_chat := c\<rparr>, map CallChat calls))"

definition on_unreads :: "(unreads \<Rightarrow> unreads \<times> server_call list) \<Rightarrow> live \<Rightarrow> live \<times> live_call list" where
  "on_unreads f s = (let (u, calls) = f (lv_unreads s) in (s\<lparr>lv_unreads := u\<rparr>, map CallUnread calls))"

definition refreshUnreads :: "live \<Rightarrow> live \<times> live_call list" where
  "refreshUnreads s = on_unreads (unread_step CountsChanged) s"

definition onReconnect :: "live_settings \<Rightarrow> live \<Rightarrow> live \<times> live_call list" where
  "onReconnect g s =
     (let (s1, calls1) = on_chat reconcileOnReconnect s; (s2, calls2) = refreshUnreads s1
      in (s2, [CallRecentPackets (lg_maxRawPackets g)] @ calls1 @ calls2 @
              [CallChannels, CallContacts, CallBotLists, CallTempRadio]))"

definition onMessageFailed :: "nat \<Rightarrow> int \<Rightarrow> live \<Rightarrow> live \<times> live_call list" where
  "onMessageFailed i failedAt s =
     (s\<lparr>lv_chat := receiveMessageFailed i failedAt (lv_chat s)\<rparr>,
      case cache_find i (ch_cache (lv_chat s)) of
        None \<Rightarrow> []
      | Some m \<Rightarrow>
          if ms_type m = Priv \<and> \<not> ms_acked m > 0 \<and> \<not> is_open ContactChat (ms_conversation_key m) s
          then [Buddy (BuddySendFailed (ms_conversation_key m))] else [])"

definition onMessageSpam :: "live_settings \<Rightarrow> nat list \<Rightarrow> bool \<Rightarrow> bool option \<Rightarrow> live \<Rightarrow> live \<times> live_call list" where
  "onMessageSpam g ids spam duplicate s =
     (let s1 = s\<lparr>lv_chat := receiveMessageSpam ids spam duplicate (lv_chat s)\<rparr>
      in if lg_hideSpam g then refreshUnreads s1 else (s1, []))"

definition onMessageDeleted :: "nat \<Rightarrow> live \<Rightarrow> live \<times> live_call list" where
  "onMessageDeleted i s = refreshUnreads (s\<lparr>lv_chat := removeMessage i (lv_chat s)\<rparr>)"

definition onRawPacket :: "live_settings \<Rightarrow> raw_packet \<Rightarrow> live \<Rightarrow> live \<times> live_call list" where
  "onRawPacket g p s =
     (s\<lparr>lv_store := snd (recordRawPacket (lg_library g) p (lg_maxRawPackets g) (lv_store s))\<rparr>, [Pulse (rk_payload_type p)])"

text \<open>The socket's events, and the answers to what a reconnect asks for; a packet history that cannot be had clears the feed.\<close>

datatype live_event =
    WsHealth health | WsMessage int message | WsContact live_contact | WsContactResolved jstr live_contact
  | WsChannel live_channel | WsContactDeleted jstr | WsChannelDeleted jstr | WsRawPacket raw_packet
  | WsMessageAcked nat nat "message_path list option" "nat option option" | WsMessageFailed nat int
  | WsMessageDeleted nat | WsNewNode new_node | WsMessageSpam "nat list" bool "bool option" | WsReload
  | WsError jstr "jstr option" | WsSuccess jstr "jstr option" | WsReconnected
  | GotPackets "raw_packet list option" | GotChannels "live_channel list" | GotContacts "live_contact list"
  | InChat chat_event | InUnreads unread_event

definition live_step :: "live_settings \<Rightarrow> live_event \<Rightarrow> live \<Rightarrow> live \<times> live_call list" where
  "live_step g e s =
     (case e of
        WsHealth h \<Rightarrow> onHealth h s
      | WsMessage now m \<Rightarrow> onMessage g now m s
      | WsContact c \<Rightarrow> (s\<lparr>lv_contacts := mergeContactIntoList (lv_contacts s) c\<rparr>, [])
      | WsContactResolved previous c \<Rightarrow> onContactResolved previous c s
      | WsChannel c \<Rightarrow> (s\<lparr>lv_channels := mergeChannelIntoList (lg_collate g) (lv_channels s) c\<rparr>, [])
      | WsContactDeleted k \<Rightarrow> onContactDeleted k s
      | WsChannelDeleted k \<Rightarrow> onChannelDeleted k s
      | WsRawPacket p \<Rightarrow> onRawPacket g p s
      | WsMessageAcked i n ps q \<Rightarrow> (s\<lparr>lv_chat := receiveMessageAck i n ps q (lv_chat s)\<rparr>, [])
      | WsMessageFailed i t \<Rightarrow> onMessageFailed i t s
      | WsMessageDeleted i \<Rightarrow> onMessageDeleted i s
      | WsNewNode n \<Rightarrow> (s, [NotifyNode n, Buddy (BuddyNewNode (nd_count n) (nd_public_key n) (nd_name n))])
      | WsMessageSpam ids b d \<Rightarrow> onMessageSpam g ids b d s
      | WsReload \<Rightarrow> (s, [ReloadMessages])
      | WsError m d \<Rightarrow> (s, [Toast (ToastText False m d)])
      | WsSuccess m d \<Rightarrow> (s, [Toast (ToastText True m d)])
      | WsReconnected \<Rightarrow> onReconnect g s
      | GotPackets r \<Rightarrow>
          (s\<lparr>lv_store := (case r of Some ps \<Rightarrow> snd (seedRawPacketStore (Some ps) None (lv_store s))
                                 | None \<Rightarrow> snd (clearRawPackets (lv_store s)))\<rparr>, [])
      | GotChannels cs \<Rightarrow> (s\<lparr>lv_channels := cs\<rparr>, [])
      | GotContacts cs \<Rightarrow> (s\<lparr>lv_contacts := cs\<rparr>, [])
      | InChat e' \<Rightarrow> on_chat (chat_step e') s
      | InUnreads e' \<Rightarrow> on_unreads (unread_step e') s)"

abbreviation live_run :: "live_settings \<Rightarrow> live_event list \<Rightarrow> live \<Rightarrow> live" where
  "live_run g es s \<equiv> foldl (\<lambda>s e. fst (live_step g e s)) s es"

subsection \<open>What a handler does to the open chat\<close>

text \<open>The events the chat of the page sees when the app handles a socket event.\<close>

definition chat_events :: "live_settings \<Rightarrow> live_event \<Rightarrow> chat_event list" where
  "chat_events g e =
     (case e of
        WsMessage now m \<Rightarrow> if isMessageBlocked m (lg_blockedKeys g) (lg_blockedNames g) then [] else [Observe m]
      | WsContactResolved previous c \<Rightarrow> [RenameChat previous (lc_public_key c)]
      | WsContactDeleted k \<Rightarrow> [RemoveChat k]
      | WsChannelDeleted k \<Rightarrow> [RemoveChat k]
      | WsMessageAcked i n ps q \<Rightarrow> [AckEvent i n ps q]
      | WsMessageFailed i t \<Rightarrow> [FailEvent i t]
      | WsMessageDeleted i \<Rightarrow> [RemoveEvent i]
      | WsMessageSpam ids b d \<Rightarrow> [SpamEvent ids b d]
      | WsReconnected \<Rightarrow> [Reconnected]
      | InChat e' \<Rightarrow> [e']
      | _ \<Rightarrow> [])"

lemma onMessage_chat [simp]:
  "lv_chat (fst (onMessage g now m s)) =
     (if isMessageBlocked m (lg_blockedKeys g) (lg_blockedNames g) then lv_chat s else snd (observeMessage m (lv_chat s)))"
  by (auto simp: onMessage_def Let_def split: prod.split)

lemma on_parts_chat [simp]:
  "lv_chat (fst (on_unreads f s)) = lv_chat s" "lv_chat (fst (on_chat h s)) = fst (h (lv_chat s))"
  "lv_chat (fst (refreshUnreads s)) = lv_chat s" "lv_chat (on_cache c s) = (lv_chat s)\<lparr>ch_cache := c (ch_cache (lv_chat s))\<rparr>"
  by (simp_all add: on_unreads_def on_chat_def refreshUnreads_def on_cache_def split: prod.split)

lemma live_step_chat: "lv_chat (fst (live_step g e s)) = chat_run (chat_events g e) (lv_chat s)"
  by (cases e) (auto simp: live_step_def chat_events_def chat_step_def onHealth_def onContactResolved_def onContactDeleted_def
      onChannelDeleted_def forget_def onRawPacket_def onMessageFailed_def onMessageSpam_def onMessageDeleted_def onReconnect_def
      Let_def on_unreads_def on_chat_def refreshUnreads_def on_cache_def split: prod.split)


subsection \<open>A message counts and notifies once\<close>

lemma incrementUnread_counts [simp]:
  "ur_counts (incrementUnread k i b u) =
     (ur_counts u)(k \<mapsto> (case ur_counts u k of Some n \<Rightarrow> n | None \<Rightarrow> 0) + 1)"
  by (auto simp: incrementUnread_def bump_mutation_def Let_def split: option.split)

lemma schedule_counts [simp]: "ur_counts (fst (scheduleReadBoundary b u)) = ur_counts u"
  by (auto simp: scheduleReadBoundary_def flushPendingRead_def Let_def split: option.split)

lemma record_counts:
  "ur_counts (fst (recordMessageEvent now m isActive isNew hasMention u)) k =
     (if ms_conversation_key m \<noteq> [] \<and> \<not> isActive \<and> \<not> ms_outgoing m \<and> isNew
          \<and> k = getStateKey (message_target m) (ms_conversation_key m)
      then Some ((case ur_counts u k of Some n \<Rightarrow> n | None \<Rightarrow> 0) + 1) else ur_counts u k)"
  by (simp add: recordMessageEvent_def Let_def)

lemma record_old_silent: "snd (recordMessageEvent now m isActive False hasMention u) = []"
  by (simp add: recordMessageEvent_def Let_def)

lemma acked_same [simp]:
  "ms_id (fst (applyPendingAck m acks)) = ms_id m" "ms_type (fst (applyPendingAck m acks)) = ms_type m"
  "getMessageContentKey (fst (applyPendingAck m acks)) = getMessageContentKey m"
  by (auto simp: applyPendingAck_def getMessageContentKey_def Let_def split: option.split)

lemma acked_active [simp]:
  "isActiveConversationMessage v (fst (applyPendingAck m acks)) = isActiveConversationMessage v m"
  by (simp add: isActiveConversationMessage_def split: option.split)

text \<open>Observing, over the message with the acknowledgements that were waiting.\<close>

lemma observe_cases:
  "observeMessage msg s =
     (let m = fst (applyPendingAck msg (ch_acks s)); s1 = s\<lparr>ch_acks := snd (applyPendingAck msg (ch_acks s))\<rparr>
      in if isActiveConversationMessage (ch_active s) msg then
           (if cr_hasNewer s then ((False, True), s1)
            else ((fst (appendActiveMessageIfNew m s1), True), snd (appendActiveMessageIfNew m s1)))
         else ((fst (addMessage (ms_conversation_key msg) m (ch_cache s)), False),
               s1\<lparr>ch_cache := snd (addMessage (ms_conversation_key msg) m (ch_cache s))\<rparr>))"
proof -
  obtain m acks where m: "applyPendingAck msg (ch_acks s) = (m, acks)" by fastforce
  have "isActiveConversationMessage (ch_active s) m = isActiveConversationMessage (ch_active s) msg"
      "ms_conversation_key m = ms_conversation_key msg"
    using acked_active [of "ch_active s" msg "ch_acks s"] apply_ack_key [of msg "ch_acks s"] by (simp_all add: m)
  then show ?thesis by (simp add: observeMessage_def m Let_def case_prod_beta)
qed

lemma observe_active [simp]: "snd (fst (observeMessage m s)) = isActiveConversationMessage (ch_active s) m"
  by (simp add: observe_cases Let_def)

lemma onMessage_parts:
  assumes "observeMessage m (lv_chat s) = ((isNew, isActive), c)"
    "\<not> isMessageBlocked m (lg_blockedKeys g) (lg_blockedNames g)"
  shows "lv_unreads (fst (onMessage g now m s)) =
      (if isSilenced g (lv_channels s) m then lv_unreads s
       else fst (recordMessageEvent now m isActive isNew (lg_mentions g (ms_text m)) (lv_unreads s)))"
    "snd (onMessage g now m s) =
      (if isSilenced g (lv_channels s) m then []
       else map CallUnread (snd (recordMessageEvent now m isActive isNew (lg_mentions g (ms_text m)) (lv_unreads s))) @
         (if \<not> ms_outgoing m \<and> isNew then announce g m isActive else []))"
  using assms by (simp_all add: onMessage_def Let_def case_prod_beta)

lemma onMessage_blocked [simp]:
  "isMessageBlocked m (lg_blockedKeys g) (lg_blockedNames g) \<Longrightarrow> onMessage g now m s = (s, [])"
  by (simp add: onMessage_def)

lemma notify_announce: "Notify x \<in> set (announce g m isActive) \<longleftrightarrow>
    x = m \<and> \<not> (ms_type m = Priv \<and> isMeshcomodCommandContact (ms_conversation_key m))"
  by (auto simp: announce_def Let_def)

definition announced :: "live_settings \<Rightarrow> message \<Rightarrow> live \<Rightarrow> bool" where
  "announced g m s \<longleftrightarrow>
     \<not> isMessageBlocked m (lg_blockedKeys g) (lg_blockedNames g) \<and> \<not> isSilenced g (lv_channels s) m \<and>
     \<not> ms_outgoing m \<and> fst (fst (observeMessage m (lv_chat s)))"

text \<open>C32: A message raises the unread count of its own conversation by one when it is announced (not from a blocked
  sender, not muted or hidden by a filter, not sent from here, and not seen before) and its conversation is not open, and
  no other count; it is notified exactly when it is announced and is not the reply to a command sent from here.\<close>

theorem message_counted_and_notified:
  "ur_counts (lv_unreads (fst (onMessage g now m s))) k =
     (if announced g m s \<and> \<not> isActiveConversationMessage (ch_active (lv_chat s)) m \<and> ms_conversation_key m \<noteq> []
          \<and> k = getStateKey (message_target m) (ms_conversation_key m)
      then Some ((case ur_counts (lv_unreads s) k of Some n \<Rightarrow> n | None \<Rightarrow> 0) + 1) else ur_counts (lv_unreads s) k) \<and>
   (Notify x \<in> set (snd (onMessage g now m s)) \<longleftrightarrow>
      x = m \<and> announced g m s \<and> \<not> (ms_type m = Priv \<and> isMeshcomodCommandContact (ms_conversation_key m)))"
proof -
  obtain isNew isForActive c where o: "observeMessage m (lv_chat s) = ((isNew, isForActive), c)" by (metis prod.collapse)
  have a: "isForActive = isActiveConversationMessage (ch_active (lv_chat s)) m"
    using observe_active [of m "lv_chat s"] by (simp add: o)
  show ?thesis
  proof (cases "isMessageBlocked m (lg_blockedKeys g) (lg_blockedNames g)")
    case False
    note parts = onMessage_parts [OF o False]
    have "Notify x \<notin> CallUnread ` A" for A by auto
    then show ?thesis unfolding parts by (auto simp: announced_def o False a record_counts notify_announce)
  qed (simp add: announced_def)
qed

text \<open>The same message a second time is refused: by its content where the chat is open, by the cache elsewhere.\<close>

definition has_room :: "jstr \<Rightarrow> message_cache \<Rightarrow> bool" where
  "has_room k c \<longleftrightarrow> (case map_of c k of None \<Rightarrow> True | Some e \<Rightarrow> length (ce_messages e) < MAX_MESSAGES_PER_ENTRY)"

lemma evict_keeps_last: "amap_ok c \<Longrightarrow> map_of c k = None \<Longrightarrow> map_of (evict (amap_set k e c)) k = Some e"
proof -
  assume ok: "amap_ok c" and none: "map_of c k = None"
  then have new: "k \<notin> set (amap_keys c)" by (simp add: map_of_eq_None_iff)
  show ?thesis
  proof (cases c)
    case Nil
    then show ?thesis by (simp add: evict_def MAX_CACHED_CONVERSATIONS_def)
  next
    case (Cons p ps)
    then have "map_of ps k = None" using new by (simp add: map_of_eq_None_iff)
    then show ?thesis using new Cons by (auto simp: evict_def amap_set_append_new map_add_def)
  qed
qed

lemma addMessage_twice:
  assumes ok: "cache_ok c" and room: "has_room k c" and same: "ms_id m' = ms_id m" "getMessageContentKey m' = getMessageContentKey m"
  shows "\<not> fst (addMessage k m' (snd (addMessage k m c)))"
proof (cases "map_of c k")
  case None
  have "amap_ok c" using ok by (simp add: cache_ok_def)
  from evict_keeps_last [OF this None] show ?thesis using None same by (simp add: addMessage_def Let_def)
next
  case (Some e)
  have short: "length (ce_messages e) < MAX_MESSAGES_PER_ENTRY" using room Some by (simp add: has_room_def)
  consider "fst (addMessage k m c)" | "addMessage k m c = (False, c)"
  proof (cases "fst (addMessage k m c)")
    case False
    then have "addMessage k m c = (False, c)" using Some by (auto simp: addMessage_def Let_def split: if_splits)
    then show ?thesis by (rule that(2))
  qed (rule that(1))
  then show ?thesis
  proof cases
    case 1
    then have "snd (addMessage k m c) = touch k (normalizeEntry \<lparr>ce_messages = ce_messages e @ [m], ce_hasOlder = ce_hasOlder e\<rparr>) c"
      using Some by (auto simp: addMessage_def Let_def split: if_splits)
    then show ?thesis using short same by (simp add: addMessage_def touch_def normalizeEntry_def content_keys_def Let_def)
  next
    case 2
    then show ?thesis using Some same by (auto simp: addMessage_def Let_def split: if_splits)
  qed
qed

lemma append_twice:
  assumes "getMessageContentKey m' = getMessageContentKey m"
  shows "\<not> fst (appendActiveMessageIfNew m' ((snd (appendActiveMessageIfNew m s))\<lparr>ch_acks := a\<rparr>))"
proof -
  have key: "getMessageContentKey m \<in> set (ch_seen (snd (appendActiveMessageIfNew m s)))"
  proof -
    have "getMessageContentKey (fst (applyPendingAck m (ch_acks s))) = getMessageContentKey m" by simp
    then show ?thesis by (auto simp: appendActiveMessageIfNew_def Let_def case_prod_beta set_add_def)
  qed
  show ?thesis using key assms by (simp add: appendActiveMessageIfNew_def Let_def case_prod_beta)
qed

lemma append_fields [simp]:
  "ch_active (snd (appendActiveMessageIfNew m s)) = ch_active s" "cr_hasNewer (snd (appendActiveMessageIfNew m s)) = cr_hasNewer s"
  by (simp_all add: appendActiveMessageIfNew_def Let_def case_prod_beta)

lemma observe_twice:
  assumes "cache_ok (ch_cache s)" "has_room (ms_conversation_key m) (ch_cache s)"
  shows "\<not> fst (fst (observeMessage m (snd (observeMessage m s))))"
  using assms by (auto simp: observe_cases Let_def append_twice addMessage_twice)

lemma record_again:
  "ur_counts (fst (recordMessageEvent now m isActive False hasMention u)) = ur_counts u"
  by (simp add: recordMessageEvent_def Let_def)


subsection \<open>Blocked and silenced\<close>

text \<open>A blocked message changes nothing. One that is only muted or hidden is kept as any other message is, but it
  touches no count, no time and no mention, and causes nothing.\<close>

theorem silenced_message_only_stored:
  assumes "isMessageBlocked m (lg_blockedKeys g) (lg_blockedNames g) \<or> isSilenced g (lv_channels s) m"
  shows "onMessage g now m s =
    (if isMessageBlocked m (lg_blockedKeys g) (lg_blockedNames g) then s
     else s\<lparr>lv_chat := snd (observeMessage m (lv_chat s))\<rparr>, [])"
  using assms  by (auto simp: onMessage_def Let_def case_prod_beta)

subsection \<open>Contacts and channels stay lists without repetition\<close>

lemma merge_first_keys:
  "merge_first c cs = Some cs' \<Longrightarrow> map lc_public_key cs' = map lc_public_key cs"
  "merge_first c cs = None \<longleftrightarrow> lc_public_key c \<notin> lc_public_key ` set cs"
  by (induction cs arbitrary: cs') (auto simp: merge_contact_def split: if_splits)

lemma replace_first_keys:
  "replace_first c cs = Some cs' \<Longrightarrow> map ln_key cs' = map ln_key cs"
  "replace_first c cs = None \<longleftrightarrow> ln_key c \<notin> ln_key ` set cs"
  by (induction cs arbitrary: cs') (auto split: if_splits)

lemma distinct_mergeContact:
  "distinct (map lc_public_key cs) \<Longrightarrow> distinct (map lc_public_key (mergeContactIntoList cs c))"
  using merge_first_keys by (auto simp: mergeContactIntoList_def split: option.split)

lemma distinct_map_sort: "distinct (map f (sort_key h xs)) \<longleftrightarrow> distinct (map f xs)"
  by (metis distinct_map distinct_sort set_sort)

lemma distinct_mergeChannel:
  "distinct (map ln_key cs) \<Longrightarrow> distinct (map ln_key (mergeChannelIntoList h cs c))"
  using replace_first_keys by (auto simp: mergeChannelIntoList_def distinct_map_sort split: option.split)

definition keys_ok :: "live \<Rightarrow> bool" where
  "keys_ok s \<longleftrightarrow> distinct (map lc_public_key (lv_contacts s)) \<and> distinct (map ln_key (lv_channels s))"

definition served_ok :: "live_event \<Rightarrow> bool" where
  "served_ok e = (case e of GotContacts cs \<Rightarrow> distinct (map lc_public_key cs) | GotChannels cs \<Rightarrow> distinct (map ln_key cs) | _ \<Rightarrow> True)"

lemma keys_ok_parts [simp]:
  "lv_contacts (fst (on_unreads f s)) = lv_contacts s" "lv_channels (fst (on_unreads f s)) = lv_channels s"
  "lv_contacts (fst (on_chat h s)) = lv_contacts s" "lv_channels (fst (on_chat h s)) = lv_channels s"
  "lv_contacts (forget t i s) = lv_contacts s" "lv_channels (forget t i s) = lv_channels s"
  "lv_contacts (fst (onMessage g now m s)) = lv_contacts s" "lv_channels (fst (onMessage g now m s)) = lv_channels s"
  by (simp_all add: on_unreads_def on_chat_def forget_def on_cache_def onMessage_def Let_def case_prod_beta)

lemma live_step_keys: "keys_ok s \<Longrightarrow> served_ok e \<Longrightarrow> keys_ok (fst (live_step g e s))"
  by (cases e) (simp_all add: live_step_def served_ok_def keys_ok_def onHealth_def onContactResolved_def onContactDeleted_def
      onChannelDeleted_def onRawPacket_def onMessageFailed_def onMessageSpam_def onMessageDeleted_def onReconnect_def
      refreshUnreads_def on_cache_def Let_def case_prod_beta distinct_mergeContact distinct_mergeChannel distinct_map_filter)

text \<open>The lists of contacts and of channels never hold one key twice, whatever is announced and deleted, as long as
  the lists the server serves do not.\<close>

theorem contacts_and_channels_distinct:
  assumes "keys_ok s" "\<forall>e \<in> set es. served_ok e"
  shows "distinct (map lc_public_key (lv_contacts (live_run g es s))) \<and> distinct (map ln_key (lv_channels (live_run g es s)))"
proof -
  have "keys_ok (live_run g es s)" using assms by (induction es arbitrary: s) (simp_all add: live_step_keys)
  then show ?thesis by (simp add: keys_ok_def)
qed

subsection \<open>Deletion\<close>

theorem deleted_contact_forgotten:
  fixes k :: jstr and s :: live
  defines "r \<equiv> onContactDeleted k s"
  shows "k \<notin> lc_public_key ` set (lv_contacts (fst r))" "map_of (ch_cache (lv_chat (fst r))) k = None"
    "ur_counts (lv_unreads (fst r)) (getStateKey TContact k) = None"
    "i \<noteq> k \<Longrightarrow> map_of (ch_cache (lv_chat (fst r))) i = map_of (ch_cache (lv_chat s)) i"
    "u \<noteq> getStateKey TContact k \<Longrightarrow> ur_counts (lv_unreads (fst r)) u = ur_counts (lv_unreads s) u"
  by (auto simp: r_def onContactDeleted_def forget_def on_cache_def cache_remove_def removeConversationState_def bump_mutation_def
      map_of_amap_delete Let_def)

lemma abort_refs:
  "cr_hasNewer (abort_fetch n c) = cr_hasNewer c" "cr_hasOlder (abort_fetch n c) = cr_hasOlder c"
  by (simp_all add: abort_fetch_def split: option.split)

lemma cache_set_present: "amap_ok c \<Longrightarrow> map_of (cache_set k e c) k = Some (normalizeEntry e)"
  unfolding cache_set_def touch_def
  by (rule evict_keeps_last) (auto simp: map_of_eq_None_iff amap_keys_delete simp flip: set_map)

text \<open>A contact that is deleted while its chat is open comes back into the message cache: the chat's messages are dropped
  from the cache first, and leaving the chat, which the deletion itself asks for, stores what is on screen again under
  the deleted key.\<close>

theorem deleted_open_chat_cached_again:
  assumes "is_open ContactChat k s" "at_home (lv_chat s)" "ch_prevIsMessage (lv_chat s)" "k \<noteq> []"
    "ch_messages (lv_chat s) \<noteq> []" "\<not> ch_hasNewer (lv_chat s)" "amap_ok (ch_cache (lv_chat s))"
  shows "snd (live_step g (WsContactDeleted k) s) = [OpenConversation None] \<and>
    map_of (ch_cache (lv_chat (live_run g [WsContactDeleted k, InChat (Render None None)] s))) k =
      Some (normalizeEntry \<lparr>ce_messages = ch_messages (lv_chat s), ce_hasOlder = ch_hasOlder (lv_chat s)\<rparr>)"
proof -
  let ?c = "(lv_chat s)\<lparr>ch_cache := cache_remove k (ch_cache (lv_chat s))\<rparr>"
  have c: "lv_chat (fst (live_step g (WsContactDeleted k) s)) = ?c" by (simp add: live_step_chat chat_events_def chat_step_def)
  obtain i t target v where shown: "ch_shown ?c = Some (Some k, t, target, v)" and prev: "ch_prevId ?c = Some k"
    using assms(1,2) by (auto simp: is_open_def home_def split: option.splits)
  have ok: "amap_ok (ch_cache ?c)" using assms(7) by (simp add: cache_remove_def amap_keys_delete)
  have "ch_cache (fst (render None None ?c)) =
      cache_set k \<lparr>ce_messages = ch_messages ?c, ce_hasOlder = ch_hasOlder ?c\<rparr> (ch_cache ?c)"
    using shown prev assms(4-6)
    by (simp add: abort_refs render_def switch_effect_def sync_refs_def leave_chat_def abort_running_def isMessageConversation_def Let_def)
  then have "map_of (ch_cache (fst (render None None ?c))) k =
      Some (normalizeEntry \<lparr>ce_messages = ch_messages ?c, ce_hasOlder = ch_hasOlder ?c\<rparr>)"
    by (simp only: cache_set_present [OF ok])
  moreover have "snd (live_step g (WsContactDeleted k) s) = [OpenConversation None]"
    using assms(1) by (simp add: live_step_def onContactDeleted_def Let_def)
  ultimately show ?thesis by (simp add: live_step_chat chat_events_def chat_step_def)
qed

subsection \<open>Examples\<close>

definition live_demo_settings :: live_settings where
  "live_demo_settings =
     \<lparr>lg_blockedKeys = [], lg_blockedNames = [str ''bad''], lg_hiddenWidths = [], lg_hiddenSfs = [], lg_hideMalformed = False,
      lg_hideNameFiltered = False, lg_hideSpam = True, lg_hideBots = False, lg_botNames = [], lg_botKeys = [],
      lg_mentions = (\<lambda>t. False), lg_maxRawPackets = 10,
      lg_library = \<lparr>pl_decode = (\<lambda>d. None), pl_payloadTypeName = (\<lambda>n. []), pl_routeTypeName = (\<lambda>n. [])\<rparr>, lg_collate = (\<lambda>n. n)\<rparr>"

definition live_demo :: live where
  "live_demo =
     \<lparr>lv_chat = fresh_chat [], lv_unreads = fresh_unreads Map.empty, lv_store = \<lparr>ps_packets = [], ps_session = createStatsSession 0\<rparr>, lv_contacts = [],
      lv_channels = [], lv_health = None, lv_deleteFallback = False\<rparr>"


definition live_contact_demo :: live_contact where
  "live_contact_demo = \<lparr>lc_public_key = str ''aa'', lc_name = None, lc_last_advert = None, lc_fields = []\<rparr>"

theorem contacts_and_channels_distinct_witness:
  "distinct (map lc_public_key (lv_contacts (live_run live_demo_settings
      [WsContact live_contact_demo, GotContacts [live_contact_demo], WsContact live_contact_demo] live_demo))) \<and>
   distinct (map ln_key (lv_channels (live_run live_demo_settings
      [WsContact live_contact_demo, GotContacts [live_contact_demo], WsContact live_contact_demo] live_demo)))"
  by (rule contacts_and_channels_distinct) (simp_all add: keys_ok_def served_ok_def live_demo_def)

definition live_demo_open :: live where
  "live_demo_open = live_demo\<lparr>lv_chat := fst (render (Some \<lparr>vw_type = ContactChat, vw_id = str ''aa''\<rparr>) None (fresh_chat []))
     \<lparr>ch_messages := [chat_demo_message 1 5]\<rparr>\<rparr>"

theorem deleted_open_chat_cached_again_witness:
  "snd (live_step live_demo_settings (WsContactDeleted (str ''aa'')) live_demo_open) = [OpenConversation None] \<and>
    map_of (ch_cache (lv_chat (live_run live_demo_settings [WsContactDeleted (str ''aa''), InChat (Render None None)] live_demo_open)))
      (str ''aa'') =
      Some (normalizeEntry \<lparr>ce_messages = ch_messages (lv_chat live_demo_open), ce_hasOlder = ch_hasOlder (lv_chat live_demo_open)\<rparr>)"
  by (rule deleted_open_chat_cached_again)
    (simp_all add: live_demo_open_def live_demo_def is_open_def home_def chat_eval Let_def)
end
