(* ===== verification/Team.thy ===== *)
theory Team
imports Paths Token Foreign
begin

text \<open>Tracking data in channel messages (\<^verbatim>\<open>frontend/src/utils/teamPayloads.ts\<close>): the formats of MeshCore TEAM
  and signalk-meshcore, and the two messages the composer can build. Coordinates are reals; the fresh mesh id is
  an argument. The properties are that what is built is read back, and that whatever anybody sends is read as something
  within its bounds.\<close>

subsection \<open>What is read\<close>

datatype beacon_kind = TelBeacon | TopologyBeacon
datatype beacon_source = FromTeam | FromSignalk

record beacon =
  tb_kind :: beacon_kind
  tb_source :: beacon_source
  tb_lat :: "real option"
  tb_lon :: "real option"
  tb_radioBatteryMv :: "int option"
  tb_phoneBatteryMv :: "int option"
  tb_phoneBatteryPct :: "nat option"
  tb_autonomous :: bool
  tb_needsForwarding :: "bool option"
  tb_maxPathObserved :: "nat option"
  tb_nodeCount :: "nat option"
  tb_neighborCount :: "nat option"

record waypoint =
  wy_meshId :: "jstr option"
  wy_name :: jstr
  wy_lat :: real
  wy_lon :: real
  wy_description :: jstr
  wy_waypointType :: jstr
  wy_color :: "jstr option"
  wy_routeChunk :: jstr
  wy_partNum :: "nat option"
  wy_totalParts :: "nat option"

record route_part =
  rt_meshId :: jstr
  rt_routeChunk :: jstr
  rt_partNum :: nat
  rt_totalParts :: nat

record capability =
  cp_version :: nat
  cp_flags :: nat
  cp_customFirmware :: bool
  cp_forwardingCapable :: bool
  cp_autonomousCapable :: bool
  cp_autonomousEnabled :: bool
  cp_smartForwardingActive :: bool
  cp_radioKeyPrefix :: "jstr option"
  cp_appId :: "jstr option"
  cp_alias :: "jstr option"

record capability_request =
  cq_targetKeyPrefix :: "jstr option"
  cq_targetRadioName :: jstr

datatype team_payload =
    TeamBeacon beacon | TeamWaypoint waypoint | TeamRoutePart route_part | TeamCapability capability
  | TeamCapabilityRequest capability_request

definition TEL_PREFIX :: jstr where "TEL_PREFIX = (str ''#TEL:'')"
definition TOPOLOGY_PREFIX :: jstr where "TOPOLOGY_PREFIX = (str ''#T:'')"
definition WAYPOINT_PREFIX :: jstr where "WAYPOINT_PREFIX = (str ''#WAY:'')"
definition ROUTE_PART_PREFIX :: jstr where "ROUTE_PART_PREFIX = (str ''#WRC:'')"
definition CAPABILITY_PREFIX :: jstr where "CAPABILITY_PREFIX = (str ''#CAP:'')"
definition CAPABILITY_REQUEST_PREFIX :: jstr where "CAPABILITY_REQUEST_PREFIX = (str ''#CAP:R:'')"

definition TEL_SIZE :: nat where "TEL_SIZE = 11"
definition TOPOLOGY_HEADER_SIZE :: nat where "TOPOLOGY_HEADER_SIZE = 11"
definition BATTERY_MIN_MV :: int where "BATTERY_MIN_MV = 2750"
definition BATTERY_STEP_MV :: int where "BATTERY_STEP_MV = 6"
definition AUTONOMOUS :: nat where "AUTONOMOUS = 255"
definition MAX_ALIAS_BYTES :: nat where "MAX_ALIAS_BYTES = 24"

subsection \<open>Patterns\<close>

definition BASE64_PATTERN :: "jstr \<Rightarrow> bool" where
  "BASE64_PATTERN s \<longleftrightarrow>
     takeWhile (\<lambda>c. b64_val c \<noteq> None) s \<noteq> [] \<and>
     dropWhile (\<lambda>c. b64_val c \<noteq> None) s \<in> {[], [61], [61, 61]}"

definition take_sign :: "jstr \<Rightarrow> bool \<times> jstr" where
  "take_sign s =
     (case s of [] \<Rightarrow> (False, []) | c # r \<Rightarrow> if c = 43 then (False, r) else if c = 45 then (True, r) else (False, s))"

text \<open>\<open>NUMBER_PATTERN s\<close> is what \<^verbatim>\<open>parseFloat\<close> makes of a text the pattern accepts.\<close>

definition number_exponent :: "jstr \<Rightarrow> int option" where
  "number_exponent s =
     (case s of
        [] \<Rightarrow> Some 0
      | c # r \<Rightarrow>
          if c \<noteq> 69 \<and> c \<noteq> 101 then None
          else
            let (neg, ds) = take_sign r
            in if ds \<noteq> [] \<and> list_all is_digit ds
               then Some (if neg then - int (decimal_val ds) else int (decimal_val ds)) else None)"

definition number_mantissa :: "jstr \<Rightarrow> (real \<times> jstr) option" where
  "number_mantissa s =
     (let ip = takeWhile is_digit s; r = dropWhile is_digit s in
      if r \<noteq> [] \<and> hd r = 46 then
        let fp = takeWhile is_digit (drop 1 r) in
        if ip = [] \<and> fp = [] then None
        else Some (real (decimal_val (ip @ fp)) / 10 ^ length fp, dropWhile is_digit (drop 1 r))
      else if ip = [] then None else Some (real (decimal_val ip), r))"

definition NUMBER_PATTERN :: "jstr \<Rightarrow> real option" where
  "NUMBER_PATTERN s =
     (let (neg, t) = take_sign s in
      case number_mantissa t of
        None \<Rightarrow> None
      | Some (m, r) \<Rightarrow>
          (case number_exponent r of
             None \<Rightarrow> None
           | Some e \<Rightarrow> Some ((if neg then - m else m) * (if e \<ge> 0 then 10 ^ nat e else 1 / 10 ^ nat (- e)))))"

definition PART_INFO_PATTERN :: "jstr \<Rightarrow> (nat \<times> nat) option" where
  "PART_INFO_PATTERN s =
     (let a = takeWhile is_digit s; b = drop 1 (dropWhile is_digit s) in
      if a \<noteq> [] \<and> startsWith (dropWhile is_digit s) [47] \<and> b \<noteq> [] \<and> list_all is_digit b
      then Some (decimal_val a, decimal_val b) else None)"

definition COLOR_PREFIX_PATTERN :: "jstr \<Rightarrow> jstr option" where
  "COLOR_PREFIX_PATTERN s =
     (if startsWith s (str ''@C:'') \<and> length s \<ge> 11 \<and> list_all is_hex (take 8 (drop 3 s))
      then Some (take 8 (drop 3 s)) else None)"

definition KEY_PREFIX_PATTERN :: "jstr \<Rightarrow> bool" where
  "KEY_PREFIX_PATTERN s \<longleftrightarrow> length s = 12 \<and> list_all is_lower_hex s"

definition APP_ID_PATTERN :: "jstr \<Rightarrow> bool" where
  "APP_ID_PATTERN s \<longleftrightarrow> length s = 16 \<and> list_all is_lower_hex s"

subsection \<open>Beacons\<close>

definition decodeBase64 :: "jstr \<Rightarrow> bytes option" where
  "decodeBase64 payload =
     (if \<not> BASE64_PATTERN payload then None
      else map_option (map of_nat) (atob (payload @ replicate ((4 - length payload mod 4) mod 4) 61)))"

definition batteryMv :: "nat \<Rightarrow> int option" where
  "batteryMv encoded =
     (if encoded \<le> 1 \<or> encoded = 255 then None else Some (BATTERY_MIN_MV + (int encoded - 2) * BATTERY_STEP_MV))"

definition int32_at :: "bytes \<Rightarrow> nat \<Rightarrow> int" where
  "int32_at raw i = (case getInt32 (rev (subarr i (i + 4) raw)) 0 of Some n \<Rightarrow> n | None \<Rightarrow> 0)"

definition team_position :: "bytes \<Rightarrow> real option \<times> real option" where
  "team_position raw =
     (let lat = of_int (int32_at raw 0) / 10 ^ 7; lon = of_int (int32_at raw 4) / 10 ^ 7
      in if isValidLocation (Some lat) (Some lon) then (Some lat, Some lon) else (None, None))"

definition parseTelemetry :: "jstr \<Rightarrow> beacon option" where
  "parseTelemetry payload =
     (case decodeBase64 payload of
        None \<Rightarrow> None
      | Some raw \<Rightarrow>
          if length raw \<noteq> TEL_SIZE then None
          else
            let radio = unat (raw ! 8); phone = unat (raw ! 9); forwarding = unat (raw ! 10);
                (lat, lon) = team_position raw
            in if forwarding = 0 then
                 Some \<lparr>tb_kind = TelBeacon, tb_source = FromSignalk, tb_lat = lat, tb_lon = lon,
                       tb_radioBatteryMv = batteryMv radio, tb_phoneBatteryMv = None,
                       tb_phoneBatteryPct = (if phone \<le> 100 then Some phone else None), tb_autonomous = False,
                       tb_needsForwarding = None, tb_maxPathObserved = None, tb_nodeCount = None, tb_neighborCount = None\<rparr>
               else
                 let autonomous = (phone = AUTONOMOUS); status = forwarding - 1
                 in Some \<lparr>tb_kind = TelBeacon, tb_source = FromTeam, tb_lat = lat, tb_lon = lon,
                          tb_radioBatteryMv = batteryMv radio,
                          tb_phoneBatteryMv = (if autonomous then None else batteryMv phone), tb_phoneBatteryPct = None,
                          tb_autonomous = autonomous, tb_needsForwarding = Some (status mod 2 = 1),
                          tb_maxPathObserved = Some (status div 2 mod 128), tb_nodeCount = None, tb_neighborCount = None\<rparr>)"

definition parseTopology :: "jstr \<Rightarrow> beacon option" where
  "parseTopology payload =
     (case decodeBase64 payload of
        None \<Rightarrow> None
      | Some raw \<Rightarrow>
          if length raw < TOPOLOGY_HEADER_SIZE then None
          else
            let nodeCount = unat (raw ! 10); bitmapSize = (nodeCount + 7) div 8
            in if length raw < TOPOLOGY_HEADER_SIZE + bitmapSize then None
               else
                 let neighborCount = length (filter
                       (\<lambda>i. bit (raw ! (TOPOLOGY_HEADER_SIZE + i div 8)) (i mod 8)) [0..<nodeCount]);
                     phone = unat (raw ! 9); autonomous = (phone = AUTONOMOUS); (lat, lon) = team_position raw
                 in Some \<lparr>tb_kind = TopologyBeacon, tb_source = FromTeam, tb_lat = lat, tb_lon = lon,
                          tb_radioBatteryMv = batteryMv (unat (raw ! 8)),
                          tb_phoneBatteryMv = (if autonomous then None else batteryMv phone), tb_phoneBatteryPct = None,
                          tb_autonomous = autonomous, tb_needsForwarding = None, tb_maxPathObserved = None,
                          tb_nodeCount = Some nodeCount, tb_neighborCount = Some neighborCount\<rparr>)"

subsection \<open>Waypoints and routes\<close>

definition coordinate :: "jstr \<Rightarrow> real option" where
  "coordinate txt = NUMBER_PATTERN (trim txt)"

definition splitColor :: "jstr \<Rightarrow> jstr \<times> jstr option" where
  "splitColor description =
     (case COLOR_PREFIX_PATTERN description of
        None \<Rightarrow> (description, None)
      | Some c \<Rightarrow> (drop 11 description, Some (35 # toLowerCase (drop 2 c))))"

definition read_waypoint :: "jstr \<Rightarrow> jstr list \<Rightarrow> jstr \<Rightarrow> (nat \<times> nat) option \<Rightarrow> waypoint option" where
  "read_waypoint meshId fs routeChunk partInfo =
     (case (coordinate (fs ! 1), coordinate (fs ! 2)) of
        (Some lat, Some lon) \<Rightarrow>
          if \<not> isValidLocation (Some lat) (Some lon) then None
          else
            let (description, color) = splitColor (fs ! 3)
            in Some \<lparr>wy_meshId = (if meshId = [] then None else Some meshId), wy_name = fs ! 0, wy_lat = lat, wy_lon = lon,
                     wy_description = description, wy_waypointType = fs ! 4, wy_color = color,
                     wy_routeChunk = routeChunk, wy_partNum = map_option fst partInfo, wy_totalParts = map_option snd partInfo\<rparr>
      | _ \<Rightarrow> None)"

definition parseWaypoint :: "jstr \<Rightarrow> waypoint option" where
  "parseWaypoint data =
     (let parts = split_on 124 data in
      if length parts \<ge> 6 then
        read_waypoint (parts ! 0) (subarr 1 6 parts) (if length parts \<ge> 7 then parts ! 6 else [])
          (if length parts \<ge> 8 then PART_INFO_PATTERN (parts ! 7) else None)
      else if length parts = 5 then read_waypoint [] parts [] None
      else None)"

definition parseRoutePart :: "jstr \<Rightarrow> route_part option" where
  "parseRoutePart data =
     (let parts = split_on 124 data in
      if length parts < 3 then None
      else map_option (\<lambda>(n, m). \<lparr>rt_meshId = parts ! 0, rt_routeChunk = parts ! 1, rt_partNum = n, rt_totalParts = m\<rparr>)
             (PART_INFO_PATTERN (parts ! 2)))"

definition decodeTeamRoute :: "jstr \<Rightarrow> (real \<times> real) list" where
  "decodeTeamRoute encoded =
     concat (map (\<lambda>chunk.
       let pair = split_on 44 chunk in
       if length pair \<noteq> 2 then []
       else case (coordinate (pair ! 0), coordinate (pair ! 1)) of
         (Some lat, Some lon) \<Rightarrow> if isValidLocation (Some lat) (Some lon) then [(lat, lon)] else []
       | _ \<Rightarrow> []) (split_on 126 encoded))"

subsection \<open>Capabilities\<close>

definition is_control :: "nat \<Rightarrow> bool" where
  "is_control c \<longleftrightarrow> c \<le> 31 \<or> c = 127"

fun alias_prefix :: "nat \<Rightarrow> jstr \<Rightarrow> jstr" where
  "alias_prefix used [] = []"
| "alias_prefix used (c # s) =
     (let size = length (utf8_char c)
      in if used + size > MAX_ALIAS_BYTES then [] else c # alias_prefix (used + size) s)"

definition sanitizeAlias :: "jstr \<Rightarrow> jstr" where
  "sanitizeAlias nick =
     (let cleaned = trim (filter (\<lambda>c. \<not> is_control c) nick)
      in if length (utf8_encode cleaned) \<le> MAX_ALIAS_BYTES then cleaned else trim (alias_prefix 0 cleaned))"

definition parseCapabilityRequest :: "jstr \<Rightarrow> capability_request option" where
  "parseCapabilityRequest data =
     (if 58 \<notin> set data then None
      else
        let keyField = toLowerCase (takeWhile (\<lambda>c. c \<noteq> 58) data);
            name = trim (drop 1 (dropWhile (\<lambda>c. c \<noteq> 58) data))
        in if name = [] then None
           else Some \<lparr>cq_targetKeyPrefix = (if KEY_PREFIX_PATTERN keyField then Some keyField else None),
                      cq_targetRadioName = name\<rparr>)"

definition parseCapability :: "jstr \<Rightarrow> capability option" where
  "parseCapability data =
     (let parts = split_on 58 data in
      if length parts < 2 \<or> \<not> (parts ! 0 \<noteq> [] \<and> list_all is_digit (parts ! 0))
         \<or> \<not> (parts ! 1 \<noteq> [] \<and> list_all is_hex (parts ! 1)) then None
      else
        let version = decimal_val (parts ! 0) in
        if version < 1 then None
        else
          let flags = digits_val (parts ! 1) mod 256;
              keyField = (if length parts > 2 then toLowerCase (parts ! 2) else []);
              appField = (if length parts \<ge> 5 then toLowerCase (parts ! 3) else []);
              hasApp = (length parts \<ge> 5 \<and> (appField = (str ''-'') \<or> APP_ID_PATTERN appField));
              aliasStart = (if hasApp then 4 else 3)
          in Some \<lparr>cp_version = version, cp_flags = flags,
                   cp_customFirmware = bit flags 0, cp_forwardingCapable = bit flags 1, cp_autonomousCapable = bit flags 2,
                   cp_autonomousEnabled = bit flags 3, cp_smartForwardingActive = bit flags 4,
                   cp_radioKeyPrefix = (if length parts > 2 \<and> KEY_PREFIX_PATTERN keyField then Some keyField else None),
                   cp_appId = (if hasApp \<and> appField \<noteq> (str ''-'') then Some appField else None),
                   cp_alias = (if length parts > 2
                     then Some (sanitizeAlias (join_with (str '':'') (drop aliasStart parts))) else None)\<rparr>)"

definition parseTeamPayload :: "jstr \<Rightarrow> team_payload option" where
  "parseTeamPayload txt =
     (let body = trim txt in
      if startsWith body TEL_PREFIX then map_option TeamBeacon (parseTelemetry (drop (length TEL_PREFIX) body))
      else if startsWith body TOPOLOGY_PREFIX
      then map_option TeamBeacon (parseTopology (drop (length TOPOLOGY_PREFIX) body))
      else if startsWith body WAYPOINT_PREFIX
      then map_option TeamWaypoint (parseWaypoint (drop (length WAYPOINT_PREFIX) body))
      else if startsWith body ROUTE_PART_PREFIX
      then map_option TeamRoutePart (parseRoutePart (drop (length ROUTE_PART_PREFIX) body))
      else if startsWith body CAPABILITY_REQUEST_PREFIX
      then map_option TeamCapabilityRequest (parseCapabilityRequest (drop (length CAPABILITY_REQUEST_PREFIX) body))
      else if startsWith body CAPABILITY_PREFIX
      then map_option TeamCapability (parseCapability (drop (length CAPABILITY_PREFIX) body))
      else None)"

subsection \<open>Icons\<close>

text \<open>A key that is also a property every object inherits is found by \<^verbatim>\<open>in\<close> and by an index, but has no
  text: of these, \<open>constructor\<close> and \<open>__proto__\<close> have no capital letter.\<close>

definition WAYPOINT_ICONS :: "(jstr \<times> jstr) list" where
  "WAYPOINT_ICONS =
     [((str ''camp''), [9978]), ((str ''meetup''), [128205]), ((str ''danger''), [9888, 65039]), ((str ''game''), [129420]), ((str ''stand''), [129681]),
      ((str ''water''), [128167]), ((str ''vehicle''), [128663]), ((str ''route''), [10548]), ((str ''custom''), [128204])]"

definition TEAM_WAYPOINT_TYPES :: "jstr list" where "TEAM_WAYPOINT_TYPES = map fst WAYPOINT_ICONS"

definition inherited_keys :: "jstr list" where "inherited_keys = [(str ''constructor''), (str ''__proto__'')]"

definition teamWaypointKind :: "jstr \<Rightarrow> jstr" where
  "teamWaypointKind waypointType =
     (let t = toLowerCase waypointType in if t \<in> set TEAM_WAYPOINT_TYPES \<or> t \<in> set inherited_keys then t else (str ''custom''))"

definition teamWaypointIcon :: "jstr \<Rightarrow> jstr option" where
  "teamWaypointIcon waypointType = map_of WAYPOINT_ICONS (teamWaypointKind waypointType)"

datatype beacon_sender = SenderBoat | SenderRadio | SenderPerson

definition teamBeaconKind :: "beacon \<Rightarrow> beacon_sender" where
  "teamBeaconKind b =
     (if tb_source b = FromSignalk then SenderBoat else if tb_autonomous b then SenderRadio else SenderPerson)"

fun BEACON_ICONS :: "beacon_sender \<Rightarrow> jstr" where
  "BEACON_ICONS SenderBoat = [9973]"
| "BEACON_ICONS SenderRadio = [128225]"
| "BEACON_ICONS SenderPerson = [128694]"

datatype vessel = Sailing | Motor | Fishing | Cargo | Passenger | Tug | Sar | OtherVessel

fun TEAM_VESSEL_ICONS :: "vessel \<Rightarrow> jstr" where
  "TEAM_VESSEL_ICONS Sailing = [9973]"
| "TEAM_VESSEL_ICONS Motor = [128676]"
| "TEAM_VESSEL_ICONS Fishing = [127907]"
| "TEAM_VESSEL_ICONS Cargo = [128674]"
| "TEAM_VESSEL_ICONS Passenger = [9972, 65039]"
| "TEAM_VESSEL_ICONS Tug = [9875]"
| "TEAM_VESSEL_ICONS Sar = [127384]"
| "TEAM_VESSEL_ICONS OtherVessel = [128741, 65039]"

definition teamBeaconIcon :: "beacon \<Rightarrow> vessel option \<Rightarrow> jstr" where
  "teamBeaconIcon b vesselType =
     (case vesselType of Some v \<Rightarrow> TEAM_VESSEL_ICONS v | None \<Rightarrow> BEACON_ICONS (teamBeaconKind b))"

definition formatTeamBatteryVolts :: "int \<Rightarrow> jstr" where
  "formatTeamBatteryVolts millivolts = toFixed (of_int millivolts / 1000) 2"

subsection \<open>What the composer builds\<close>

definition is_break :: "nat \<Rightarrow> bool" where "is_break c \<longleftrightarrow> c = 13 \<or> c = 10"

fun join_lines :: "jstr \<Rightarrow> jstr" where
  "join_lines [] = []"
| "join_lines (c # s) =
     (if is_break c then (case s of d # r \<Rightarrow> if is_break d then join_lines s else 32 # join_lines s | [] \<Rightarrow> [32])
      else c # join_lines s)"

definition waypoint_name :: "jstr \<Rightarrow> jstr" where
  "waypoint_name name = trim (join_lines (filter (\<lambda>c. c \<noteq> 124) name))"

definition buildTeamWaypointPayload :: "jstr option \<Rightarrow> jstr \<Rightarrow> jstr \<Rightarrow> real \<Rightarrow> real \<Rightarrow> jstr \<Rightarrow> jstr" where
  "buildTeamWaypointPayload meshId fresh name lat lon waypointType =
     WAYPOINT_PREFIX @ (case meshId of Some i \<Rightarrow> i | None \<Rightarrow> fresh) @ [124] @ waypoint_name name @ [124] @ toFixed lat 6
     @ [124] @ toFixed lon 6 @ [124, 124] @ toUpperCase waypointType @ [124]"

definition encodeBattery :: "int option \<Rightarrow> nat" where
  "encodeBattery millivolts =
     (case millivolts of
        None \<Rightarrow> 1
      | Some mv \<Rightarrow> if mv = 0 then 1 else nat (max 2 (min 254 ((mv - BATTERY_MIN_MV) div BATTERY_STEP_MV + 2))))"

definition int32_bytes :: "int \<Rightarrow> bytes" where
  "int32_bytes v = rev (u32le (nat (v mod 4294967296)))"

definition team_telemetry_bytes :: "real \<Rightarrow> real \<Rightarrow> int option \<Rightarrow> bytes" where
  "team_telemetry_bytes lat lon radioBatteryMv =
     int32_bytes (js_round (lat * 10 ^ 7)) @ int32_bytes (js_round (lon * 10 ^ 7)) @ [of_nat (encodeBattery radioBatteryMv), 1, 1]"

definition buildTeamTelemetryPayload :: "real \<Rightarrow> real \<Rightarrow> int option \<Rightarrow> jstr" where
  "buildTeamTelemetryPayload lat lon radioBatteryMv =
     TEL_PREFIX @ rev (dropWhile (\<lambda>c. c = 61) (rev (b64_groups (map unat (team_telemetry_bytes lat lon radioBatteryMv)))))"

subsection \<open>A beacon that is built is read back\<close>

lemma b64_digits_length: "length (b64_digits s) mod 4 = (if length s mod 3 = 0 then 0 else Suc (length s mod 3))"
proof (induction s rule: b64_digits.induct)
  case (4 a b c r)
  have "length (a # b # c # r) mod 3 = length r mod 3" "length (b64_digits (a # b # c # r)) mod 4 = length (b64_digits r) mod 4"
    by simp_all
  then show ?case using 4 by simp
qed simp_all

lemma b64_text:
  assumes "list_all (\<lambda>c. c < 256) s"
  defines "t \<equiv> map b64_char (b64_digits s)"
  shows "\<forall>c \<in> set t. b64_val c \<noteq> None \<and> \<not> b64_ws c \<and> \<not> is_ws c \<and> c \<noteq> 61"
proof -
  have "b64_val (b64_char d) \<noteq> None \<and> \<not> b64_ws (b64_char d) \<and> \<not> is_ws (b64_char d) \<and> b64_char d \<noteq> 61"
    if d: "d < 64" for d
  proof -
    have "\<not> is_ws (b64_char d)" using d by (auto simp: is_ws_def b64_char_def)
    then show ?thesis using b64_char_plain [OF d] b64_val_char [OF d] by simp
  qed
  then show ?thesis using b64_digits_less [OF assms(1)] by (auto simp: t_def list_all_iff)
qed

lemma drop_padding:
  assumes "list_all (\<lambda>c. c < 256) s"
  shows "rev (dropWhile (\<lambda>c. c = 61) (rev (b64_groups s))) = map b64_char (b64_digits s)"
proof -
  obtain k where k: "b64_groups s = map b64_char (b64_digits s) @ replicate k 61" using b64_groups_digits by blast
  have "dropWhile (\<lambda>c. c = 61) (rev t) = rev t" if "\<forall>c \<in> set t. c \<noteq> 61" for t :: jstr
    using that by (cases t rule: rev_cases) auto
  then show ?thesis using b64_text [OF assms] by (simp add: k dropWhile_replicate)
qed

lemma strip_pad_text:
  assumes "61 \<notin> set t" "k \<le> 2" "k = (4 - length t mod 4) mod 4"
  shows "strip_pad (t @ replicate k 61) = t"
proof -
  have "(n + (4 - n mod 4) mod 4) mod 4 = 0" for n :: nat
  proof -
    have "n mod 4 < 4" by simp
    then consider "n mod 4 = 0" | "n mod 4 = 1" | "n mod 4 = 2" | "n mod 4 = 3" by linarith
    moreover have "(n + (4 - n mod 4) mod 4) mod 4 = (n mod 4 + (4 - n mod 4) mod 4) mod 4" by (simp add: mod_add_left_eq)
    ultimately show ?thesis by cases simp_all
  qed
  then have four: "length (t @ replicate k 61) mod 4 = 0" by (simp add: assms(3))
  have ends: "t \<noteq> [] \<Longrightarrow> last t \<noteq> 61" using assms(1) last_in_set by metis
  consider "k = 0" | "k = 1" | "k = 2" using assms(2) by linarith
  then show ?thesis using ends four by cases (auto simp: strip_pad_def butlast_append numeral_2_eq_2)
qed

lemma decode_unpadded:
  assumes "list_all (\<lambda>c. c < 256) s" "s \<noteq> []"
  shows "decodeBase64 (map b64_char (b64_digits s)) = Some (map of_nat s)"
proof -
  let ?t = "map b64_char (b64_digits s)"
  let ?k = "(4 - length ?t mod 4) mod 4"
  have chars: "\<forall>c \<in> set ?t. b64_val c \<noteq> None \<and> \<not> b64_ws c \<and> \<not> is_ws c \<and> c \<noteq> 61" by (rule b64_text [OF assms(1)])
  have ne: "?t \<noteq> []" using assms(2) by (cases s rule: b64_digits.cases) simp_all
  have "takeWhile (\<lambda>c. b64_val c \<noteq> None) ?t = ?t" "dropWhile (\<lambda>c. b64_val c \<noteq> None) ?t = []"
    using chars by (simp_all add: takeWhile_eq_all_conv dropWhile_eq_Nil_conv)
  then have pat: "BASE64_PATTERN ?t" using ne unfolding BASE64_PATTERN_def by (simp only: insertI1 simp_thms)
  have "?k \<le> 2" using b64_digits_length [of s] by (auto split: if_splits)
  then have pad: "strip_pad (?t @ replicate ?k 61) = ?t"
    using chars by (intro strip_pad_text) auto
  have plain: "strip_pad ?t = ?t" using chars ne by (metis last_in_set strip_pad_def)
  have ws: "filter (\<lambda>c. \<not> b64_ws c) (?t @ replicate ?k 61) = ?t @ replicate ?k 61" "filter (\<lambda>c. \<not> b64_ws c) ?t = ?t"
    using chars by (auto simp: filter_id_conv b64_ws_def)
  have "atob (?t @ replicate ?k 61) = atob ?t" unfolding atob_def ws pad plain ..
  then show ?thesis using pat by (simp add: decodeBase64_def atob_digits [OF assms(1)])
qed

lemma int32_read:
  assumes "- 2147483648 \<le> v" "v < 2147483648"
  shows "(case getInt32 (u32le (nat (v mod 4294967296))) 0 of Some n \<Rightarrow> n | None \<Rightarrow> 0) = v"
proof -
  have "nat (v mod 4294967296) < 4294967296" by (simp add: nat_less_iff)
  from getUint32_u32le_small [OF this, of "[]" "[]"]
  have g: "getUint32 (u32le (nat (v mod 4294967296))) 0 = Some (nat (v mod 4294967296))" by simp
  have "(v + 4294967296) mod 4294967296 = v mod 4294967296" by simp
  then have "v mod 4294967296 = (if v < 0 then v + 4294967296 else v)"
    using assms mod_pos_pos_trivial [of v 4294967296] mod_pos_pos_trivial [of "v + 4294967296" 4294967296]
    by (cases "v < 0") simp_all
  then show ?thesis using assms unfolding getInt32_def g by (cases "v < 0") auto
qed

lemma u32le_bytes [simp]: "length (int32_bytes v) = 4"
  by (simp add: int32_bytes_def)

lemma int32_at_parts:
  assumes "- 2147483648 \<le> v" "v < 2147483648" "length xs = i"
  shows "int32_at (xs @ int32_bytes v @ ys) i = v"
proof -
  have "subarr i (i + 4) (xs @ int32_bytes v @ ys) = int32_bytes v" by (simp add: subarr_def assms(3) [symmetric])
  then show ?thesis using int32_read [OF assms(1,2)] by (simp add: int32_at_def int32_bytes_def)
qed

lemma trim_ends: "s \<noteq> [] \<Longrightarrow> \<not> is_ws (hd s) \<Longrightarrow> \<not> is_ws (last s) \<Longrightarrow> trim s = s"
proof -
  assume s: "s \<noteq> []" "\<not> is_ws (hd s)" "\<not> is_ws (last s)"
  then have "dropWhile is_ws s = s" by (cases s) auto
  moreover have "dropWhile is_ws (rev s) = rev s" using s by (cases s rule: rev_cases) auto
  ultimately show ?thesis by (simp add: trim_def)
qed

definition tenth_microdegrees :: "real \<Rightarrow> real" where
  "tenth_microdegrees x = of_int (js_round (x * 10 ^ 7)) / 10 ^ 7"

lemma tenth_microdegrees_range:
  assumes "- b \<le> x" "x \<le> b" "b = 90 \<or> b = 180"
  shows "- b \<le> tenth_microdegrees x" "tenth_microdegrees x \<le> b" "js_round (x * 10 ^ 7) < 2147483648"
    "- 2147483648 \<le> js_round (x * 10 ^ 7)" "\<bar>tenth_microdegrees x - x\<bar> \<le> 1 / (2 * 10 ^ 7)"
proof -
  have hi: "js_round (x * 10 ^ 7) \<le> js_round (of_int n)" if "x * 10 ^ 7 \<le> of_int n" for n :: int
    using that unfolding js_round_def by (intro floor_mono) simp
  have lo: "js_round (of_int n) \<le> js_round (x * 10 ^ 7)" if "of_int n \<le> x * 10 ^ 7" for n :: int
    using that unfolding js_round_def by (intro floor_mono) simp
  from assms(3) obtain n :: int where n: "of_int n = b * 10 ^ 7" "n = 900000000 \<or> n = 1800000000"
    by (auto intro: that [of 900000000] that [of 1800000000])
  have r: "js_round (x * 10 ^ 7) \<le> n" "- n \<le> js_round (x * 10 ^ 7)"
  proof -
    have "x * 10 ^ 7 \<le> of_int n" "of_int (- n) \<le> x * 10 ^ 7" using assms(1,2) n(1) by simp_all
    from hi [OF this(1)] lo [OF this(2)] show "js_round (x * 10 ^ 7) \<le> n" "- n \<le> js_round (x * 10 ^ 7)"
      by (simp_all only: js_round_of_int)
  qed
  then show "js_round (x * 10 ^ 7) < 2147483648" "- 2147483648 \<le> js_round (x * 10 ^ 7)" using n(2) by auto
  have "real_of_int (js_round (x * 10 ^ 7)) \<le> of_int n" "of_int (- n) \<le> real_of_int (js_round (x * 10 ^ 7))"
    using r by (simp_all only: of_int_le_iff)
  then show "tenth_microdegrees x \<le> b" "- b \<le> tenth_microdegrees x"
    using n(1) by (simp_all add: tenth_microdegrees_def field_simps)
  have d: "tenth_microdegrees x - x = (of_int (js_round (x * 10 ^ 7)) - x * 10 ^ 7) / 10 ^ 7"
    by (simp add: tenth_microdegrees_def field_simps)
  show "\<bar>tenth_microdegrees x - x\<bar> \<le> 1 / (2 * 10 ^ 7)" unfolding d abs_divide using js_round_diff [of "x * 10 ^ 7"] by simp
qed

lemma encodeBattery_range: "1 \<le> encodeBattery mv" "encodeBattery mv \<le> 254"
  by (auto simp: encodeBattery_def split: option.split)


subsection \<open>A waypoint that is built is read back\<close>

definition microdegree_steps :: "real \<Rightarrow> nat" where
  "microdegree_steps x = nat \<lfloor>\<bar>x\<bar> * 10 ^ 6 + 1 / 2\<rfloor>"

definition microdegrees :: "real \<Rightarrow> real" where
  "microdegrees x = (if x < 0 then - 1 else 1) * real (microdegree_steps x) / 10 ^ 6"

lemma decimal_val_replicate: "decimal_val (replicate n 48 @ s) = decimal_val s"
  unfolding decimal_val_def by (induction n) auto

lemma decimal_val_append: "decimal_val (s @ t) = decimal_val s * 10 ^ length t + decimal_val t"
proof (induction t rule: rev_induct)
  case (snoc c t)
  then show ?case by (simp add: algebra_simps flip: append_assoc)
qed simp

lemma fixed_text:
  "\<exists>ip fp. toFixed x 6 = (if x < 0 then [45] else []) @ ip @ 46 # fp \<and> ip \<noteq> [] \<and> list_all is_digit (ip @ fp) \<and>
     length fp = 6 \<and> decimal_val (ip @ fp) = microdegree_steps x"
proof -
  let ?n = "microdegree_steps x"
  define m where "m = padStart 7 48 (decimal ?n)"
  let ?m = m
  have m: "list_all is_digit ?m" "decimal_val ?m = ?n" "7 \<le> length ?m"
    using decimal_digits [of ?n] by (auto simp: m_def padStart_def decimal_val_replicate list_all_iff is_digit_def)
  let ?ip = "take (length ?m - 6) ?m" and ?fp = "drop (length ?m - 6) ?m"
  have "toFixed x 6 = (if x < 0 then [45] else []) @ ?ip @ 46 # ?fp"
    by (simp add: toFixed_def Let_def str_def m_def microdegree_steps_def)
  moreover have "?ip \<noteq> []" "length ?fp = 6" "?ip @ ?fp = ?m" using m(3) by auto
  ultimately show ?thesis using m(1,2) by metis
qed

lemma number_fixed: "NUMBER_PATTERN (toFixed x 6) = Some (microdegrees x)"
proof -
  obtain ip fp where t: "toFixed x 6 = (if x < 0 then [45] else []) @ ip @ 46 # fp" "ip \<noteq> []" "list_all is_digit (ip @ fp)"
      "length fp = 6" "decimal_val (ip @ fp) = microdegree_steps x" using fixed_text by blast
  have d: "\<forall>c \<in> set ip. is_digit c" "\<forall>c \<in> set fp. is_digit c" using t(3) by (simp_all add: list_all_iff)
  have dot: "\<not> is_digit 46" by (simp add: is_digit_def)
  have digits: "takeWhile is_digit (ip @ 46 # fp) = ip" "dropWhile is_digit (ip @ 46 # fp) = 46 # fp" "takeWhile is_digit fp = fp"
      "dropWhile is_digit fp = []"
    using d dot by (simp_all add: takeWhile_append2 dropWhile_append2 takeWhile_eq_all_conv dropWhile_eq_Nil_conv)
  have "number_mantissa (ip @ 46 # fp) = Some (real (decimal_val (ip @ fp)) / 10 ^ 6, [])"
    using t(2,4) by (simp add: number_mantissa_def Let_def digits)
  moreover have "take_sign ((if x < 0 then [45] else []) @ ip @ 46 # fp) = (x < 0, ip @ 46 # fp)"
    using t(2) d(1) by (cases ip) (auto simp: take_sign_def is_digit_def)
  ultimately show ?thesis
    by (simp add: NUMBER_PATTERN_def t(1) number_exponent_def microdegrees_def flip: t(5))
qed

lemma fixed_chars: "c \<in> set (toFixed x 6) \<Longrightarrow> is_digit c \<or> c = 45 \<or> c = 46"
  using fixed_text [of x] by (auto simp: list_all_iff split: if_splits)

lemma coordinate_fixed: "coordinate (toFixed x 6) = Some (microdegrees x)"
proof -
  have "trim (toFixed x 6) = toFixed x 6"
    by (rule trim_no_ws) (use fixed_chars in \<open>fastforce simp: is_ws_def is_digit_def\<close>)
  then show ?thesis by (simp add: coordinate_def number_fixed)
qed

lemma microdegrees_range:
  assumes "- b \<le> x" "x \<le> b" "b = 90 \<or> b = 180"
  shows "- b \<le> microdegrees x" "microdegrees x \<le> b"
proof -
  from assms(3) obtain n :: int where n: "of_int n = b * 10 ^ 6" "0 \<le> n"
    by (auto intro: that [of 90000000] that [of 180000000])
  have "\<lfloor>\<bar>x\<bar> * 10 ^ 6 + 1 / 2\<rfloor> \<le> \<lfloor>of_int n + 1 / 2 :: real\<rfloor>"
    using assms(1,2) n(1) by (intro floor_mono) simp
  also have "\<dots> = n" by (intro floor_unique) simp_all
  finally have "microdegree_steps x \<le> nat n" unfolding microdegree_steps_def by (rule nat_mono)
  then have "real (microdegree_steps x) \<le> real (nat n)" by (simp only: of_nat_le_iff)
  then have "real (microdegree_steps x) \<le> b * 10 ^ 6" "0 \<le> real (microdegree_steps x)" using n by simp_all
  then show "- b \<le> microdegrees x" "microdegrees x \<le> b" by (simp_all add: microdegrees_def field_simps)
qed

lemma set_trim: "set (trim s) \<subseteq> set s"
  by (auto simp: trim_def dest!: set_dropWhileD)

lemma set_join_lines: "set (join_lines s) \<subseteq> insert 32 (set s)"
proof (induction s)
  case (Cons c s)
  then show ?case by (cases s) auto
qed simp

lemma waypoint_name_plain: "124 \<notin> set (waypoint_name name)"
  using set_trim [of "join_lines (filter (\<lambda>c. c \<noteq> 124) name)"] set_join_lines [of "filter (\<lambda>c. c \<noteq> 124) name"]
  by (auto simp: waypoint_name_def)

lemma waypoint_fields:
  assumes "124 \<notin> set i" "124 \<notin> set n" "124 \<notin> set a" "124 \<notin> set o'" "124 \<notin> set t"
  shows "split_on 124 (i @ 124 # n @ 124 # a @ 124 # o' @ 124 # 124 # t @ [124]) = [i, n, a, o', [], t, []]"
  using assms by (simp add: split_on_append split_on_no_sep)

text \<open>C38: A waypoint the composer builds is read back as that waypoint: its id, its type in capitals, its name without
  separators and line breaks, and its place to half a microdegree, unless that is the exact origin, which is not read.\<close>

theorem waypoint_reads_back:
  assumes place: "- 90 \<le> lat" "lat \<le> 90" "- 180 \<le> lon" "lon \<le> 180"
    and id: "124 \<notin> set i" "i \<noteq> []" and kind: "124 \<notin> set (toUpperCase t)"
  shows "parseTeamPayload (buildTeamWaypointPayload (Some i) fresh name lat lon t) =
    (if microdegrees lat = 0 \<and> microdegrees lon = 0 then None
     else Some (TeamWaypoint \<lparr>wy_meshId = Some i, wy_name = waypoint_name name, wy_lat = microdegrees lat,
       wy_lon = microdegrees lon, wy_description = [], wy_waypointType = toUpperCase t, wy_color = None, wy_routeChunk = [],
       wy_partNum = None, wy_totalParts = None\<rparr>))"
proof -
  note la = microdegrees_range [OF place(1,2) disjI1 [OF refl]] and lo = microdegrees_range [OF place(3,4) disjI2 [OF refl]]
  let ?data = "i @ 124 # waypoint_name name @ 124 # toFixed lat 6 @ 124 # toFixed lon 6 @ 124 # 124 # toUpperCase t @ [124]"
  have built: "buildTeamWaypointPayload (Some i) fresh name lat lon t = WAYPOINT_PREFIX @ ?data"
    by (simp add: buildTeamWaypointPayload_def)
  have trim: "trim (WAYPOINT_PREFIX @ ?data) = WAYPOINT_PREFIX @ ?data"
    by (rule trim_ends) (simp_all add: WAYPOINT_PREFIX_def str_def is_ws_def)
  have nums: "124 \<notin> set (toFixed x 6)" for x using fixed_chars [of 124 x] by (auto simp: is_digit_def)
  have valid: "isValidLocation (Some (microdegrees lat)) (Some (microdegrees lon)) \<longleftrightarrow>
      \<not> (microdegrees lat = 0 \<and> microdegrees lon = 0)" using la lo by (auto simp: isValidLocation_def)
  have "parseWaypoint ?data = (if microdegrees lat = 0 \<and> microdegrees lon = 0 then None
      else Some \<lparr>wy_meshId = Some i, wy_name = waypoint_name name, wy_lat = microdegrees lat,
       wy_lon = microdegrees lon, wy_description = [], wy_waypointType = toUpperCase t, wy_color = None, wy_routeChunk = [],
       wy_partNum = None, wy_totalParts = None\<rparr>)"
    using id(2) by (simp add: parseWaypoint_def waypoint_fields [OF id(1) waypoint_name_plain nums nums kind] Let_def subarr_def
        read_waypoint_def coordinate_fixed valid splitColor_def COLOR_PREFIX_PATTERN_def startsWith_def str_def)
  moreover have "\<not> startsWith (WAYPOINT_PREFIX @ d) TEL_PREFIX" "\<not> startsWith (WAYPOINT_PREFIX @ d) TOPOLOGY_PREFIX" for d
    by (simp_all add: startsWith_def WAYPOINT_PREFIX_def TEL_PREFIX_def TOPOLOGY_PREFIX_def str_def)
  ultimately show ?thesis unfolding built by (simp add: parseTeamPayload_def trim Let_def)
qed

subsection \<open>Whatever is sent is read within its bounds\<close>

definition located_or_not :: "real option \<Rightarrow> real option \<Rightarrow> bool" where
  "located_or_not lat lon \<longleftrightarrow> lat = None \<and> lon = None \<or> isValidLocation lat lon"

definition battery_ok :: "int option \<Rightarrow> bool" where
  "battery_ok mv = (case mv of None \<Rightarrow> True | Some v \<Rightarrow> 2750 \<le> v \<and> v \<le> 4262)"

definition beacon_ok :: "beacon \<Rightarrow> bool" where
  "beacon_ok b \<longleftrightarrow>
     located_or_not (tb_lat b) (tb_lon b) \<and> battery_ok (tb_radioBatteryMv b) \<and> battery_ok (tb_phoneBatteryMv b) \<and>
     (case tb_phoneBatteryPct b of None \<Rightarrow> True | Some p \<Rightarrow> p \<le> 100) \<and>
     (case tb_maxPathObserved b of None \<Rightarrow> True | Some p \<Rightarrow> p \<le> 127) \<and>
     (case (tb_nodeCount b, tb_neighborCount b) of (Some n, Some k) \<Rightarrow> k \<le> n \<and> n \<le> 255 | (None, None) \<Rightarrow> True | _ \<Rightarrow> False)"

fun payload_ok :: "team_payload \<Rightarrow> bool" where
  "payload_ok (TeamBeacon b) = beacon_ok b"
| "payload_ok (TeamWaypoint w) =
     (isValidLocation (Some (wy_lat w)) (Some (wy_lon w)) \<and> wy_meshId w \<noteq> Some [] \<and>
      (wy_partNum w = None) = (wy_totalParts w = None) \<and>
      (case wy_color w of None \<Rightarrow> True | Some c \<Rightarrow> length c = 7 \<and> hd c = 35))"
| "payload_ok (TeamRoutePart r) = (124 \<notin> set (rt_routeChunk r))"
| "payload_ok (TeamCapability c) =
     (cp_version c \<ge> 1 \<and> cp_flags c < 256 \<and>
      (case cp_alias c of None \<Rightarrow> True | Some a \<Rightarrow> length (utf8_encode a) \<le> MAX_ALIAS_BYTES \<and> (\<forall>x \<in> set a. \<not> is_control x)))"
| "payload_ok (TeamCapabilityRequest q) = (cq_targetRadioName q \<noteq> [])"

lemma battery_ok_read: "e < 256 \<Longrightarrow> battery_ok (batteryMv e)"
  by (auto simp: battery_ok_def batteryMv_def BATTERY_MIN_MV_def BATTERY_STEP_MV_def)

lemma position_ok: "located_or_not (fst (team_position raw)) (snd (team_position raw))"
  by (auto simp: located_or_not_def team_position_def Let_def)

lemma telemetry_ok: "parseTelemetry t = Some b \<Longrightarrow> beacon_ok b"
  using position_ok
  by (auto simp: parseTelemetry_def beacon_ok_def battery_ok_read case_prod_beta Let_def split: option.splits if_splits)
    (simp_all add: battery_ok_def)

lemma topology_ok: "parseTopology t = Some b \<Longrightarrow> beacon_ok b"
proof -
  assume p: "parseTopology t = Some b"
  then obtain raw where raw: "decodeBase64 t = Some raw" by (auto simp: parseTopology_def split: option.splits)
  have n: "length (filter P [0..<k]) \<le> k" for P and k :: nat using length_filter_le [of P "[0..<k]"] by simp
  have "unat (raw ! 10) \<le> 255" using unat_u8_less [of "raw ! 10"] by linarith
  then show ?thesis using p position_ok [of raw] n
    by (auto simp: parseTopology_def raw beacon_ok_def battery_ok_read case_prod_beta Let_def split: if_splits)
      (simp_all add: battery_ok_def)
qed

lemma waypoint_ok: "read_waypoint i fs r p = Some w \<Longrightarrow> payload_ok (TeamWaypoint w)"
  by (auto simp: read_waypoint_def splitColor_def COLOR_PREFIX_PATTERN_def Let_def case_prod_beta split: option.splits if_splits)

lemma parsed_waypoint_ok: "parseWaypoint t = Some w \<Longrightarrow> payload_ok (TeamWaypoint w)"
  by (auto simp: parseWaypoint_def Let_def split: if_splits dest!: waypoint_ok)

lemma route_ok: "parseRoutePart t = Some r \<Longrightarrow> payload_ok (TeamRoutePart r)"
  using split_on_parts [OF nth_mem, of 1 124 t] by (auto simp: parseRoutePart_def Let_def split: if_splits)

lemma utf8_length_append: "length (utf8_encode (s @ t)) = length (utf8_encode s) + length (utf8_encode t)"
  by (simp add: utf8_encode_def)

lemma utf8_trim: "length (utf8_encode (trim s)) \<le> length (utf8_encode s)"
proof -
  have drop: "length (utf8_encode (dropWhile is_ws u)) \<le> length (utf8_encode u)" for u
    using utf8_length_append [of "takeWhile is_ws u" "dropWhile is_ws u"] by simp
  have rev: "length (utf8_encode (rev u)) = length (utf8_encode u)" for u
    by (simp add: utf8_encode_def length_concat sum_list_rev flip: rev_map)
  show ?thesis using drop [of "rev (dropWhile is_ws s)"] drop [of s] rev by (simp add: trim_def)
qed

lemma alias_prefix_bytes: "used \<le> MAX_ALIAS_BYTES \<Longrightarrow> used + length (utf8_encode (alias_prefix used s)) \<le> MAX_ALIAS_BYTES"
proof (induction s arbitrary: used)
  case (Cons c s)
  show ?case
  proof (cases "used + length (utf8_char c) > MAX_ALIAS_BYTES")
    case False
    then show ?thesis using Cons.IH [of "used + length (utf8_char c)"] by (simp add: utf8_encode_def)
  qed (use Cons.prems in \<open>simp add: utf8_encode_def\<close>)
qed (simp add: utf8_encode_def)

lemma alias_prefix_subset: "set (alias_prefix used s) \<subseteq> set s"
  by (induction used s rule: alias_prefix.induct) (auto simp: Let_def)

lemma sanitized_alias: "length (utf8_encode (sanitizeAlias a)) \<le> MAX_ALIAS_BYTES" "x \<in> set (sanitizeAlias a) \<Longrightarrow> \<not> is_control x"
proof -
  let ?c = "trim (filter (\<lambda>c. \<not> is_control c) a)"
  have "length (utf8_encode (trim (alias_prefix 0 ?c))) \<le> MAX_ALIAS_BYTES"
    using utf8_trim [of "alias_prefix 0 ?c"] alias_prefix_bytes [of 0 ?c] by simp
  then show "length (utf8_encode (sanitizeAlias a)) \<le> MAX_ALIAS_BYTES" by (simp add: sanitizeAlias_def Let_def)
  have "set (sanitizeAlias a) \<subseteq> set ?c"
    using set_trim [of "alias_prefix 0 ?c"] alias_prefix_subset [of 0 ?c] by (auto simp: sanitizeAlias_def Let_def)
  moreover have "set ?c \<subseteq> {c. \<not> is_control c}" using set_trim [of "filter (\<lambda>c. \<not> is_control c) a"] by auto
  ultimately show "x \<in> set (sanitizeAlias a) \<Longrightarrow> \<not> is_control x" by blast
qed

lemma capability_ok: "parseCapability t = Some c \<Longrightarrow> payload_ok (TeamCapability c)"
  by (auto simp: parseCapability_def Let_def sanitized_alias split: if_splits)

lemma request_ok: "parseCapabilityRequest t = Some q \<Longrightarrow> payload_ok (TeamCapabilityRequest q)"
  by (auto simp: parseCapabilityRequest_def Let_def split: if_splits)

text \<open>Whatever text anybody sends on the channel, what is read from it is within its bounds: a place is a valid one or
  absent, voltages, percentages and counts are in range, a name to be shown has at most 24 bytes and no control characters.\<close>

theorem read_payload_ok: "parseTeamPayload t = Some p \<Longrightarrow> payload_ok p"
  unfolding parseTeamPayload_def Let_def
  by (auto simp del: payload_ok.simps(2-) split: if_splits
      dest: telemetry_ok topology_ok parsed_waypoint_ok route_ok capability_ok request_ok)

text \<open>Every waypoint type has an icon but the two that are names of inherited properties.\<close>

theorem waypoint_icon_missing:
  "teamWaypointIcon t = None \<longleftrightarrow> toLowerCase t = str ''constructor'' \<or> toLowerCase t = str ''__proto__''"
proof -
  have own: "map_of WAYPOINT_ICONS k = None \<longleftrightarrow> k \<notin> set TEAM_WAYPOINT_TYPES" for k
    by (simp add: map_of_eq_None_iff TEAM_WAYPOINT_TYPES_def)
  have "str ''custom'' \<in> set TEAM_WAYPOINT_TYPES" "str ''constructor'' \<notin> set TEAM_WAYPOINT_TYPES"
      "str ''__proto__'' \<notin> set TEAM_WAYPOINT_TYPES" by (simp_all add: TEAM_WAYPOINT_TYPES_def WAYPOINT_ICONS_def str_def)
  then show ?thesis unfolding teamWaypointIcon_def own by (auto simp: teamWaypointKind_def inherited_keys_def Let_def)
qed

subsection \<open>Examples\<close>


theorem waypoint_reads_back_witness:
  "parseTeamPayload (buildTeamWaypointPayload (Some (str ''0a'')) [] (str ''Camp|1'') 52 5 (str ''camp'')) =
    (if microdegrees 52 = 0 \<and> microdegrees 5 = 0 then None
     else Some (TeamWaypoint \<lparr>wy_meshId = Some (str ''0a''), wy_name = waypoint_name (str ''Camp|1''), wy_lat = microdegrees 52,
       wy_lon = microdegrees 5, wy_description = [], wy_waypointType = toUpperCase (str ''camp''), wy_color = None,
       wy_routeChunk = [], wy_partNum = None, wy_totalParts = None\<rparr>))"
  by (rule waypoint_reads_back) (simp_all add: str_def toUpperCase_def upper_char_def)

theorem read_payload_ok_witness:
  "payload_ok (TeamCapabilityRequest \<lparr>cq_targetKeyPrefix = None, cq_targetRadioName = str ''x''\<rparr>)"
  by (rule read_payload_ok [of "str ''#CAP:R:-:x''"])
    (simp add: parseTeamPayload_def str_def trim_def is_ws_def startsWith_def TEL_PREFIX_def TOPOLOGY_PREFIX_def WAYPOINT_PREFIX_def
      ROUTE_PART_PREFIX_def CAPABILITY_PREFIX_def CAPABILITY_REQUEST_PREFIX_def parseCapabilityRequest_def toLowerCase_def
      lower_char_def KEY_PREFIX_PATTERN_def Let_def)
end
