(* ===== verification/UrlHash.thy ===== *)
theory UrlHash
imports Bytes Realtime
begin

text \<open>The address of the page (\<^verbatim>\<open>frontend/src/utils/urlHash.ts\<close>, \<^verbatim>\<open>utils/publicChannel.ts\<close>): which view a hash names, the
  hash of a view, and the contact or channel a hash stands for. \<open>encodeURIComponent\<close> and \<open>decodeURIComponent\<close> are the
  language's functions; a throw is \<open>None\<close>. How a number is written and read is a parameter (\<open>number_text\<close>). The main
  property is that every view's hash leads back to it.\<close>

subsection \<open>Percent-encoding\<close>

definition unreserved :: "nat \<Rightarrow> bool" where
  "unreserved c \<longleftrightarrow> (48 \<le> c \<and> c \<le> 57) \<or> (65 \<le> c \<and> c \<le> 90) \<or> (97 \<le> c \<and> c \<le> 122) \<or>
     c \<in> {45, 95, 46, 33, 126, 42, 39, 40, 41}"

definition upper_hex :: "nat \<Rightarrow> nat" where
  "upper_hex n = (if n < 10 then 48 + n else 55 + n)"

definition pct :: "nat \<Rightarrow> jstr" where
  "pct b = [37, upper_hex (b div 16), upper_hex (b mod 16)]"

definition pct_char :: "nat \<Rightarrow> jstr" where
  "pct_char c = concat (map (\<lambda>b. pct (unat b)) (utf8_char c))"

definition encodeURIComponent :: "jstr \<Rightarrow> jstr option" where
  "encodeURIComponent s =
     (if list_all scalar_value s then Some (concat (map (\<lambda>c. if unreserved c then [c] else pct_char c) s)) else None)"

definition pct_byte :: "jstr \<Rightarrow> (nat \<times> jstr) option" where
  "pct_byte s =
     (case s of
        c # a # b # r \<Rightarrow>
          if c = 37 then
            (case (hex_val a, hex_val b) of (Some x, Some y) \<Rightarrow> Some (16 * x + y, r) | _ \<Rightarrow> None)
          else None
      | _ \<Rightarrow> None)"

fun pct_tail :: "nat \<Rightarrow> nat \<Rightarrow> nat \<Rightarrow> nat \<Rightarrow> jstr \<Rightarrow> (nat \<times> jstr) option" where
  "pct_tail 0 lo hi acc s = Some (acc, s)"
| "pct_tail (Suc n) lo hi acc s =
     (case pct_byte s of
        None \<Rightarrow> None
      | Some (b, r) \<Rightarrow> if lo \<le> b \<and> b \<le> hi then pct_tail n 128 191 (acc * 64 + (b - 128)) r else None)"

text \<open>One character of the text, and what follows.\<close>

definition pct_next :: "jstr \<Rightarrow> (nat \<times> jstr) option" where
  "pct_next s =
     (case s of
        [] \<Rightarrow> None
      | c # r \<Rightarrow>
          if c \<noteq> 37 then Some (c, r)
          else
            case pct_byte s of
              None \<Rightarrow> None
            | Some (b, r') \<Rightarrow>
                if b < 128 then Some (b, r')
                else
                  case utf8_lead b of
                    None \<Rightarrow> None
                  | Some (n, lo, hi, acc) \<Rightarrow> pct_tail n lo hi acc r')"

lemma pct_byte_shorter: "pct_byte s = Some (b, r) \<Longrightarrow> length r < length s"
  by (auto simp: pct_byte_def split: list.splits if_splits option.splits)

lemma pct_tail_shorter: "pct_tail n lo hi acc s = Some (b, r) \<Longrightarrow> length r \<le> length s"
proof (induction n lo hi acc s rule: pct_tail.induct)
  case (2 n lo hi acc s)
  then show ?case by (force split: option.splits if_splits dest: pct_byte_shorter)
qed simp

lemma pct_next_shorter: "pct_next s = Some (b, r) \<Longrightarrow> length r < length s"
  by (auto simp: pct_next_def split: list.splits if_splits option.splits dest!: pct_byte_shorter pct_tail_shorter)

function decodeURIComponent :: "jstr \<Rightarrow> jstr option" where
  "decodeURIComponent s =
     (if s = [] then Some []
      else case pct_next s of None \<Rightarrow> None | Some (c, r) \<Rightarrow> map_option ((#) c) (decodeURIComponent r))"
  by pat_completeness auto
termination
  by (relation "measure length") (auto dest: pct_next_shorter)

declare decodeURIComponent.simps [simp del]

subsection \<open>Views\<close>

datatype page_type =
    PRaw | PMap | PVisualizer | PSearch | PTrace | PChannelRegistry | PNode | PMeshHealth | PMeshTrends | PMeshDiscovery
  | PSnmp | PSpamGuard | PPerformance | PLanScan | PWardrive | PMentions | PFleet | PAnalyze | PPacketHistory | PManual
  | PKnowledgeBase | PLink | PChannel | PContact | PContactInfo

fun page_text :: "page_type \<Rightarrow> jstr" where
  "page_text PRaw = (str ''raw'')"
| "page_text PMap = (str ''map'')"
| "page_text PVisualizer = (str ''visualizer'')"
| "page_text PSearch = (str ''search'')"
| "page_text PTrace = (str ''trace'')"
| "page_text PChannelRegistry = (str ''channel-registry'')"
| "page_text PNode = (str ''node'')"
| "page_text PMeshHealth = (str ''mesh-health'')"
| "page_text PMeshTrends = (str ''mesh-trends'')"
| "page_text PMeshDiscovery = (str ''mesh-discovery'')"
| "page_text PSnmp = (str ''snmp'')"
| "page_text PSpamGuard = (str ''spam-guard'')"
| "page_text PPerformance = (str ''performance'')"
| "page_text PLanScan = (str ''lan-scan'')"
| "page_text PWardrive = (str ''wardrive'')"
| "page_text PMentions = (str ''mentions'')"
| "page_text PFleet = (str ''fleet'')"
| "page_text PAnalyze = (str ''analyze'')"
| "page_text PPacketHistory = (str ''packet-history'')"
| "page_text PManual = (str ''manual'')"
| "page_text PKnowledgeBase = (str ''knowledge-base'')"
| "page_text PLink = (str ''link'')"
| "page_text PChannel = (str ''channel'')"
| "page_text PContact = (str ''contact'')"
| "page_text PContactInfo = (str ''contact-info'')"

record destination =
  de_type :: page_type
  de_id :: jstr
  de_name :: jstr
  de_focusKey :: "jstr option"
  de_focusAt :: "(real \<times> real) option"

record parsed_hash =
  ph_type :: page_type
  ph_name :: jstr
  ph_label :: "jstr option"
  ph_focusKey :: "jstr option"
  ph_focusAt :: "(real \<times> real) option"

record number_text =
  nt_show :: "real \<Rightarrow> jstr"
  nt_read :: "jstr \<Rightarrow> jsnum"

definition parsed :: "page_type \<Rightarrow> jstr \<Rightarrow> parsed_hash" where
  "parsed t name = \<lparr>ph_type = t, ph_name = name, ph_label = None, ph_focusKey = None, ph_focusAt = None\<rparr>"

subsection \<open>Reading a hash\<close>

text \<open>The views whose hash is their own name.\<close>

definition plain_pages :: "page_type list" where
  "plain_pages =
     [PRaw, PMap, PVisualizer, PSearch, PTrace, PChannelRegistry, PNode, PMeshHealth, PMeshTrends, PMeshDiscovery, PSnmp, PSpamGuard,
      PPerformance, PLanScan, PMentions, PFleet, PAnalyze, PPacketHistory, PManual, PKnowledgeBase]"

definition fleet_id :: "jstr \<Rightarrow> bool" where
  "fleet_id i \<longleftrightarrow>
     i \<in> {(str ''new''), (str ''templates''), (str ''onboard'')} \<or> (i \<noteq> [] \<and> list_all is_digit i \<and> hd i \<noteq> 48)"

definition parse_link :: "jstr \<Rightarrow> parsed_hash option option" where
  "parse_link rest =
     (case split_on 47 rest of
        a # b # _ \<Rightarrow>
          if a \<noteq> [] \<and> b \<noteq> [] then
            (case (decodeURIComponent a, decodeURIComponent b) of
               (Some x, Some y) \<Rightarrow> Some (Some (parsed PLink (x @ [126] @ y)))
             | _ \<Rightarrow> None)
          else Some None
      | _ \<Rightarrow> Some None)"

definition parse_map_at :: "number_text \<Rightarrow> jstr \<Rightarrow> parsed_hash" where
  "parse_map_at nt coords =
     (case split_on 44 coords of
        a # b # _ \<Rightarrow>
          let lat = nt_read nt a; lon = nt_read nt b
          in if isFinite lat \<and> isFinite lon then (parsed PMap (str ''map''))\<lparr>ph_focusAt := Some (fin_val lat, fin_val lon)\<rparr>
             else parsed PMap (str ''map'')
      | _ \<Rightarrow> parsed PMap (str ''map''))"

definition parse_entity :: "jstr \<Rightarrow> parsed_hash option option" where
  "parse_entity hash =
     (if 47 \<notin> set hash then Some None
      else
        let typ = takeWhile (\<lambda>c. c \<noteq> 47) hash; val = drop 1 (dropWhile (\<lambda>c. c \<noteq> 47) hash)
        in case find (\<lambda>p. page_text p = typ) [PChannel, PContact, PContactInfo] of
             None \<Rightarrow> Some None
           | Some p \<Rightarrow>
               if val = [] then Some None
               else
                 let tokenRaw = takeWhile (\<lambda>c. c \<noteq> 47) val; labelRaw = drop 1 (dropWhile (\<lambda>c. c \<noteq> 47) val)
                 in case decodeURIComponent tokenRaw of
                      None \<Rightarrow> None
                    | Some token \<Rightarrow>
                        if token = [] then Some None
                        else if labelRaw = [] then Some (Some (parsed p token))
                        else map_option (\<lambda>l. Some ((parsed p token)\<lparr>ph_label := Some l\<rparr>)) (decodeURIComponent labelRaw))"

definition parseHashConversation :: "number_text \<Rightarrow> jstr \<Rightarrow> parsed_hash option option" where
  "parseHashConversation nt location =
     (let hash = drop 1 location in
      if hash = [] then Some None
      else case find (\<lambda>p. page_text p = hash) plain_pages of
        Some p \<Rightarrow> Some (Some (parsed p (page_text p)))
      | None \<Rightarrow>
          if hash = (str ''wardrive'') \<or> hash = (str ''wardrive-map'') then Some (Some (parsed PWardrive (str ''map'')))
          else if hash = (str ''wardrive/reports'') \<or> hash = (str ''wardrive-reports'') then Some (Some (parsed PWardrive (str ''reports'')))
          else if hash = (str ''wardrive/drivers'') then Some (Some (parsed PWardrive (str ''drivers'')))
          else if startsWith hash (str ''snmp/'') then
            map_option (\<lambda>k. Some (parsed PSnmp (if k \<noteq> [] then k else (str ''snmp'')))) (decodeURIComponent (drop 5 hash))
          else if startsWith hash (str ''fleet/'') then
            Some (Some (parsed PFleet (if fleet_id (drop 6 hash) then drop 6 hash else (str ''fleet''))))
          else if startsWith hash (str ''link/'') then parse_link (drop 5 hash)
          else if startsWith hash (str ''map/at/'') then Some (Some (parse_map_at nt (drop 7 hash)))
          else if startsWith hash (str ''map/focus/'') then
            (if drop 10 hash \<noteq> [] then
               map_option (\<lambda>k. Some ((parsed PMap (str ''map''))\<lparr>ph_focusKey := Some k\<rparr>)) (decodeURIComponent (drop 10 hash))
             else Some (Some (parsed PMap (str ''map''))))
          else parse_entity hash)"

definition SETTINGS_SECTIONS :: "jstr list" where
  "SETTINGS_SECTIONS =
     [(str ''radio''), (str ''host-repeater''), (str ''local''), (str ''radio-app''), (str ''map''), (str ''fanout''), (str ''wardrive''), (str ''openhop''), (str ''database''), (str ''about'')]"

definition parseHashSettingsSection :: "jstr \<Rightarrow> jstr option option" where
  "parseHashSettingsSection location =
     (let hash = drop 1 location in
      if \<not> startsWith hash (str ''settings/'') then Some None
      else map_option (\<lambda>section. if section \<in> set SETTINGS_SECTIONS then Some section else None) (decodeURIComponent (drop 9 hash)))"

subsection \<open>Writing a hash\<close>

definition getSettingsHash :: "jstr \<Rightarrow> jstr option" where
  "getSettingsHash section = map_option ((@) (str ''#settings/'')) (encodeURIComponent section)"

definition getMapFocusHash :: "jstr \<Rightarrow> jstr option" where
  "getMapFocusHash publicKeyPrefix = map_option ((@) (str ''#map/focus/'')) (encodeURIComponent publicKeyPrefix)"

text \<open>\<^verbatim>\<open>#<prefix>/<a>/<b>\<close>, both encoded.\<close>

definition two_part_hash :: "jstr \<Rightarrow> jstr \<Rightarrow> jstr \<Rightarrow> jstr option" where
  "two_part_hash prefix a b =
     (case (encodeURIComponent a, encodeURIComponent b) of
        (Some x, Some y) \<Rightarrow> Some (prefix @ x @ [47] @ y) | _ \<Rightarrow> None)"

text \<open>The second half of an id without a separator is \<^verbatim>\<open>undefined\<close>, which is encoded as that word.\<close>

definition link_hash :: "jstr \<Rightarrow> jstr option" where
  "link_hash i =
     (case split_on 126 i of
        a # b # _ \<Rightarrow> two_part_hash (str ''#link/'') a b
      | a # _ \<Rightarrow> two_part_hash (str ''#link/'') a (str ''undefined'')
      | [] \<Rightarrow> None)"

definition getConversationHash :: "number_text \<Rightarrow> destination option \<Rightarrow> jstr option" where
  "getConversationHash nt conv =
     (case conv of
        None \<Rightarrow> Some []
      | Some d \<Rightarrow>
          (case de_type d of
             PMap \<Rightarrow> (case de_focusAt d of
                 Some (lat, lon) \<Rightarrow> Some ((str ''#map/at/'') @ nt_show nt lat @ [44] @ nt_show nt lon)
               | None \<Rightarrow> Some (str ''#map''))
           | PWardrive \<Rightarrow>
               Some (if de_id d = (str ''reports'') then (str ''#wardrive/reports'')
                     else if de_id d = (str ''drivers'') then (str ''#wardrive/drivers'') else (str ''#wardrive''))
           | PSnmp \<Rightarrow>
               (if de_id d = (str ''snmp'') then Some (str ''#snmp'') else map_option ((@) (str ''#snmp/'')) (encodeURIComponent (de_id d)))
           | PFleet \<Rightarrow>
               (if de_id d = (str ''fleet'') then Some (str ''#fleet'') else map_option ((@) (str ''#fleet/'')) (encodeURIComponent (de_id d)))
           | PLink \<Rightarrow> link_hash (de_id d)
           | PChannel \<Rightarrow>
               two_part_hash (str ''#channel/'') (de_id d) (if startsWith (de_name d) [35] then drop 1 (de_name d) else de_name d)
           | PContactInfo \<Rightarrow> two_part_hash (str ''#contact-info/'') (de_id d) (de_name d)
           | PContact \<Rightarrow> two_part_hash (str ''#contact/'') (de_id d) (de_name d)
           | p \<Rightarrow> Some (35 # page_text p)))"

subsection \<open>Contacts and channels of a hash\<close>

definition PUBLIC_CHANNEL_KEY :: jstr where "PUBLIC_CHANNEL_KEY = (str ''8B3387E9C5CDEA6AC9E5EDBAA115CD72'')"
definition PUBLIC_CHANNEL_NAME :: jstr where "PUBLIC_CHANNEL_NAME = (str ''Public'')"

definition isPublicChannelKey :: "jstr \<Rightarrow> bool" where
  "isPublicChannelKey key \<longleftrightarrow> toUpperCase key = PUBLIC_CHANNEL_KEY"

definition findPublicChannel :: "live_channel list \<Rightarrow> live_channel option" where
  "findPublicChannel channels = find (\<lambda>c. isPublicChannelKey (ln_key c)) channels"

definition channel_by_name :: "jstr \<Rightarrow> live_channel list \<Rightarrow> live_channel option" where
  "channel_by_name token channels = find (\<lambda>c. ln_name c = token \<or> ln_name c = 35 # token) channels"

definition resolveChannelFromHashToken :: "jstr \<Rightarrow> live_channel list \<Rightarrow> live_channel option" where
  "resolveChannelFromHashToken token channels =
     (let t = trim token in
      if t = [] then None
      else case find (\<lambda>c. toLowerCase (ln_key c) = toLowerCase t) channels of
        Some c \<Rightarrow> Some c
      | None \<Rightarrow>
          (case (if toLowerCase t = toLowerCase PUBLIC_CHANNEL_NAME then findPublicChannel channels else None) of
             Some c \<Rightarrow> Some c
           | None \<Rightarrow> channel_by_name t channels))"

definition contact_display :: "live_contact \<Rightarrow> jstr" where
  "contact_display c = getContactDisplayName (lc_name c) (lc_public_key c) (lc_last_advert c)"

definition resolveContactFromHashToken :: "jstr \<Rightarrow> live_contact list \<Rightarrow> live_contact option" where
  "resolveContactFromHashToken token contacts =
     (let t = trim token; low = toLowerCase t in
      if t = [] then None
      else case find (\<lambda>c. toLowerCase (lc_public_key c) = low) contacts of
        Some c \<Rightarrow> Some c
      | None \<Rightarrow> find (\<lambda>c. contact_display c = t \<or> startsWith (toLowerCase (lc_public_key c)) low) contacts)"

subsection \<open>What is encoded is decoded\<close>

lemma hex_val_upper: "n < 16 \<Longrightarrow> hex_val (upper_hex n) = Some n"
  by (auto simp: hex_val_def upper_hex_def)

lemma pct_byte_pct: "b < 256 \<Longrightarrow> pct_byte (pct b @ r) = Some (b, r)"
  by (simp add: pct_byte_def pct_def hex_val_upper div_less_iff_less_mult)

lemma pct_next_byte:
  "b < 256 \<Longrightarrow> pct_next (pct b @ r) =
     (if b < 128 then Some (b, r) else case utf8_lead b of None \<Rightarrow> None | Some (n, lo, hi, acc) \<Rightarrow> pct_tail n lo hi acc r)"
  using pct_byte_pct [of b r] by (simp add: pct_next_def pct_def)

lemma pct_tail_pct:
  "b < 256 \<Longrightarrow> pct_tail (Suc n) lo hi acc (pct b @ r) =
     (if lo \<le> b \<and> b \<le> hi then pct_tail n 128 191 (acc * 64 + (b - 128)) r else None)"
  by (simp add: pct_byte_pct)

lemma byte_of: "n < 256 \<Longrightarrow> unat (of_nat n :: u8) = n"
  by (simp add: unat_of_nat_u8)

lemma pct_next_char:
  assumes "scalar_value c"
  shows "pct_next (pct_char c @ r) = Some (c, r)"
proof -
  consider "c < 128" | "128 \<le> c" "c < 2048" | "2048 \<le> c" "c < 65536" | "65536 \<le> c" by linarith
  then show ?thesis
  proof cases
    case 1
    then show ?thesis by (simp add: pct_char_def utf8_char_def unat_of_nat_u8 pct_next_byte)
  next
    case 2
    then have hi: "2 \<le> c div 64" "c div 64 < 32" by (simp_all add: div_less_iff_less_mult less_eq_div_iff_mult_less_eq)
    have lead: "utf8_lead (192 + c div 64) = Some (1, 128, 191, c div 64)" using hi by (simp add: utf8_lead_def)
    have low: "c mod 64 < 64" by simp
    have "pct_char c = pct (192 + c div 64) @ pct (128 + c mod 64)"
      using 2 hi low by (simp add: pct_char_def utf8_char_def byte_of del: of_nat_add)
    moreover have "128 + c mod 64 < 256" using low by linarith
    ultimately show ?thesis using 2 hi low by (simp add: pct_next_byte lead pct_byte_pct)
  next
    case 3
    then have hi: "c div 4096 < 16" by (simp add: div_less_iff_less_mult)
    define m where "m = c div 64 mod 64"
    define k where "k = c mod 64"
    have m: "m < 64" "c div 64 = c div 4096 * 64 + m" "c = c div 64 * 64 + k" "k < 64"
      using div_mult_mod_eq [of "c div 64" 64] by (simp_all add: m_def k_def div_mult2_eq [symmetric])
    have first: "c div 4096 = 0 \<Longrightarrow> 32 \<le> m" using 3 m by linarith
    have last: "c div 4096 = 13 \<Longrightarrow> m < 32" using 3 m assms by (auto simp: scalar_value_def)
    have lead: "utf8_lead (224 + c div 4096) = Some (2, if c div 4096 = 0 then 160 else 128, if c div 4096 = 13 then 159 else 191, c div 4096)"
      using hi by (simp add: utf8_lead_def)
    have "pct_char c = pct (224 + c div 4096) @ pct (128 + m) @ pct (128 + k)"
      using 3 hi m(1,4) by (simp add: pct_char_def utf8_char_def byte_of m_def k_def del: of_nat_add)
    moreover have "(c div 4096 * 64 + m) * 64 + k = c" using m(2,3) by simp
    moreover have "c div 4096 = 0 \<Longrightarrow> 160 \<le> 128 + m" "c div 4096 = 13 \<Longrightarrow> 128 + m \<le> 159" "128 + m \<le> 191" "128 + k \<le> 191"
      using first last m(1,4) by simp_all
    ultimately show ?thesis using 3 hi m(1,4)
      by (simp add: pct_next_byte lead pct_byte_pct numeral_2_eq_2)
  next
    case 4
    then have c: "c < 1114112" using assms by (simp add: scalar_value_def)
    then have hi: "c div 262144 < 5" by (simp add: div_less_iff_less_mult)
    define l m k where "l = c div 4096 mod 64" and "m = c div 64 mod 64" and "k = c mod 64"
    have m: "l < 64" "m < 64" "c div 4096 = c div 262144 * 64 + l" "c div 64 = c div 4096 * 64 + m"
        "c = c div 64 * 64 + k" "k < 64"
      using div_mult_mod_eq [of "c div 64" 64] div_mult_mod_eq [of "c div 4096" 64]
      by (simp_all add: l_def m_def k_def div_mult2_eq [symmetric])
    have first: "c div 262144 = 0 \<Longrightarrow> 16 \<le> l" using 4 m by linarith
    have last: "c div 262144 = 4 \<Longrightarrow> l < 16" using c m by linarith
    have lead: "utf8_lead (240 + c div 262144) =
        Some (3, if c div 262144 = 0 then 144 else 128, if c div 262144 = 4 then 143 else 191, c div 262144)"
      using hi by (simp add: utf8_lead_def)
    have "pct_char c = pct (240 + c div 262144) @ pct (128 + l) @ pct (128 + m) @ pct (128 + k)"
      using 4 hi m(1,2,6) by (simp add: pct_char_def utf8_char_def byte_of l_def m_def k_def del: of_nat_add)
    moreover have "((c div 262144 * 64 + l) * 64 + m) * 64 + k = c" using m(3-5) by simp
    moreover have "c div 262144 = 0 \<Longrightarrow> 144 \<le> 128 + l" "c div 262144 = 4 \<Longrightarrow> 128 + l \<le> 143" "128 + l \<le> 191" "128 + m \<le> 191"
        "128 + k \<le> 191" using first last m(1,2,6) by simp_all
    ultimately show ?thesis using 4 hi m(1,2,6)
      by (simp add: pct_next_byte lead pct_byte_pct numeral_3_eq_3)
  qed
qed

definition url_char_of :: "nat \<Rightarrow> jstr" where
  "url_char_of c = (if unreserved c then [c] else pct_char c)"

lemma encode_eq: "encodeURIComponent s = (if list_all scalar_value s then Some (concat (map url_char_of s)) else None)"
  by (simp add: encodeURIComponent_def url_char_of_def [abs_def])

lemma pct_next_url: "scalar_value c \<Longrightarrow> pct_next (url_char_of c @ r) = Some (c, r)"
  by (simp add: url_char_of_def pct_next_char) (simp add: pct_next_def unreserved_def)

lemma url_char_nonempty: "url_char_of c \<noteq> []"
  by (auto simp: url_char_of_def pct_char_def utf8_char_def pct_def)

lemma decode_encoded: "encodeURIComponent s = Some x \<Longrightarrow> decodeURIComponent x = Some s"
proof (induction s arbitrary: x)
  case Nil
  then show ?case by (simp add: encode_eq decodeURIComponent.simps)
next
  case (Cons c s)
  then have ok: "scalar_value c" "list_all scalar_value s" and x: "x = url_char_of c @ concat (map url_char_of s)"
    by (auto simp: encode_eq split: if_splits)
  have "decodeURIComponent (concat (map url_char_of s)) = Some s" using Cons.IH ok(2) by (simp add: encode_eq)
  then show ?case using url_char_nonempty [of c]
    by (subst decodeURIComponent.simps) (simp add: x pct_next_url [OF ok(1)])
qed

lemma encoded_chars: "encodeURIComponent s = Some x \<Longrightarrow> c \<in> set x \<Longrightarrow> unreserved c \<or> c = 37"
proof -
  have "unreserved (upper_hex n)" if "n < 16" for n using that by (auto simp: unreserved_def upper_hex_def)
  then have pct: "c \<in> set (pct b) \<Longrightarrow> b < 256 \<Longrightarrow> unreserved c \<or> c = 37" for b c
    by (auto simp: pct_def div_less_iff_less_mult)
  have "c \<in> set (url_char_of d) \<Longrightarrow> unreserved c \<or> c = 37" for d
    using pct [OF _ unat_u8_less] by (fastforce simp: url_char_of_def pct_char_def split: if_splits)
  then show "encodeURIComponent s = Some x \<Longrightarrow> c \<in> set x \<Longrightarrow> unreserved c \<or> c = 37"
    by (auto simp: encode_eq split: if_splits)
qed

lemma encoded_empty: "encodeURIComponent s = Some x \<Longrightarrow> x = [] \<longleftrightarrow> s = []"
  using url_char_nonempty by (auto simp: encode_eq split: if_splits)

lemma encoded_no_slash: "encodeURIComponent s = Some x \<Longrightarrow> 47 \<notin> set x"
  using encoded_chars [of s x 47] by (auto simp: unreserved_def)

lemma encode_total: "list_all scalar_value s \<Longrightarrow> \<exists>x. encodeURIComponent s = Some x"
  by (simp add: encode_eq)

subsection \<open>Every view's hash leads back to it\<close>

text \<open>A view as the app makes them: of a fixed page the id is the page's name, of a link it is two keys.\<close>

definition number_ok :: "number_text \<Rightarrow> real \<Rightarrow> bool" where
  "number_ok nt x \<longleftrightarrow> nt_read nt (nt_show nt x) = Fin x \<and> 44 \<notin> set (nt_show nt x)"

definition link_id :: "jstr \<Rightarrow> bool" where
  "link_id i \<longleftrightarrow> (case split_on 126 i of [a, b] \<Rightarrow> a \<noteq> [] \<and> b \<noteq> [] | _ \<Rightarrow> False)"

definition proper :: "number_text \<Rightarrow> destination \<Rightarrow> bool" where
  "proper nt d \<longleftrightarrow>
     list_all scalar_value (de_id d) \<and> list_all scalar_value (de_name d) \<and>
     (case de_type d of
        PMap \<Rightarrow> de_id d = (str ''map'') \<and> (case de_focusAt d of None \<Rightarrow> True | Some (a, b) \<Rightarrow> number_ok nt a \<and> number_ok nt b)
      | PWardrive \<Rightarrow> de_id d \<in> {(str ''map''), (str ''reports''), (str ''drivers'')}
      | PSnmp \<Rightarrow> de_id d \<noteq> []
      | PFleet \<Rightarrow> de_id d = (str ''fleet'') \<or> fleet_id (de_id d)
      | PLink \<Rightarrow> link_id (de_id d)
      | PChannel \<Rightarrow> de_id d \<noteq> []
      | PContact \<Rightarrow> de_id d \<noteq> []
      | PContactInfo \<Rightarrow> de_id d \<noteq> []
      | p \<Rightarrow> de_id d = page_text p)"

definition names_view :: "number_text \<Rightarrow> jstr \<Rightarrow> destination \<Rightarrow> bool" where
  "names_view nt h d \<longleftrightarrow>
     (\<exists>p. parseHashConversation nt h = Some (Some p) \<and> ph_type p = de_type d \<and> ph_name p = de_id d \<and>
        ph_focusAt p = (if de_type d = PMap then de_focusAt d else None))"

lemma page_text_no_slash: "47 \<notin> set (page_text p)"
  by (cases p) (simp_all add: str_def)

lemma page_text_nonempty: "page_text p \<noteq> []"
  by (cases p) (simp_all add: str_def)

lemma not_plain: "47 \<in> set h \<Longrightarrow> find (\<lambda>p. page_text p = h) plain_pages = None"
  using page_text_no_slash by (auto simp: find_None_iff)

lemma plain_found: "p \<in> set plain_pages \<Longrightarrow> find (\<lambda>q. page_text q = page_text p) plain_pages = Some p"
  unfolding plain_pages_def list.set by (elim insertE emptyE) simp_all

lemma plain_parse: "p \<in> set plain_pages \<Longrightarrow> parseHashConversation nt (35 # page_text p) = Some (Some (parsed p (page_text p)))"
  using plain_found [of p] page_text_nonempty [of p] by (simp add: parseHashConversation_def del: page_text.simps)

lemma after_slash:
  assumes "47 \<notin> set (a :: jstr)"
  shows "takeWhile (\<lambda>c. c \<noteq> 47) (a @ 47 # r) = a" "dropWhile (\<lambda>c. c \<noteq> 47) (a @ 47 # r) = 47 # r"
  using assms by (induction a) auto

lemma entity_pages: "p \<in> {PChannel, PContact, PContactInfo} \<Longrightarrow> h = page_text p @ 47 # r \<Longrightarrow>
    h \<noteq> [] \<and> h \<noteq> str ''wardrive'' \<and> h \<noteq> str ''wardrive-map'' \<and> h \<noteq> str ''wardrive/reports'' \<and> h \<noteq> str ''wardrive-reports'' \<and>
    h \<noteq> str ''wardrive/drivers''"
  by (elim insertE emptyE) (simp_all add: str_def)

lemma entity_prefixes: "p \<in> {PChannel, PContact, PContactInfo} \<Longrightarrow> h = page_text p @ 47 # r \<Longrightarrow>
    \<not> startsWith h (str ''snmp/'') \<and> \<not> startsWith h (str ''fleet/'') \<and> \<not> startsWith h (str ''link/'') \<and>
    \<not> startsWith h (str ''map/at/'') \<and> \<not> startsWith h (str ''map/focus/'')"
  by (elim insertE emptyE) (simp_all add: str_def startsWith_def)

lemma entity_rest: "p \<in> {PChannel, PContact, PContactInfo} \<Longrightarrow> parseHashConversation nt (35 # page_text p @ 47 # r) = parse_entity (page_text p @ 47 # r)"
proof -
  assume p: "p \<in> {PChannel, PContact, PContactInfo}"
  define h where "h = page_text p @ 47 # r"
  have none: "find (\<lambda>p. page_text p = h) plain_pages = None" by (rule not_plain) (simp add: h_def)
  have first: "drop 1 (35 # h) = h" by simp
  show ?thesis unfolding h_def [symmetric] parseHashConversation_def first Let_def none
    using entity_pages [OF p h_def] entity_prefixes [OF p h_def] by simp
qed

lemma entity_parse:
  assumes p: "p \<in> {PChannel, PContact, PContactInfo}" and i: "encodeURIComponent i = Some x" "i \<noteq> []"
    and n: "encodeURIComponent n = Some y"
  shows "parseHashConversation nt (35 # page_text p @ 47 # x @ 47 # y) =
    Some (Some (if n = [] then parsed p i else (parsed p i)\<lparr>ph_label := Some n\<rparr>))"
proof -
  let ?h = "page_text p @ 47 # x @ 47 # y"
  have rest: "parseHashConversation nt (35 # ?h) = parse_entity ?h" using entity_rest [OF p] .
  have found: "find (\<lambda>q. page_text q = page_text p) [PChannel, PContact, PContactInfo] = Some p"
    using p by (elim insertE emptyE) simp_all
  have nx: "47 \<notin> set x" "x \<noteq> []" using encoded_no_slash [OF i(1)] encoded_empty [OF i(1)] i(2) by simp_all
  have slash: "takeWhile (\<lambda>c. c \<noteq> 47) ?h = page_text p" "drop 1 (dropWhile (\<lambda>c. c \<noteq> 47) ?h) = x @ 47 # y"
      "takeWhile (\<lambda>c. c \<noteq> 47) (x @ 47 # y) = x" "drop 1 (dropWhile (\<lambda>c. c \<noteq> 47) (x @ 47 # y)) = y"
    using after_slash [OF page_text_no_slash] after_slash [OF nx(1)] by (simp_all del: page_text.simps)
  have mem: "47 \<in> set ?h" by simp
  show ?thesis unfolding rest parse_entity_def Let_def slash found decode_encoded [OF i(1)] decode_encoded [OF n]
    using mem nx(2) i(2) encoded_empty [OF n] by simp
qed

lemma two_part_text: "encodeURIComponent i = Some x \<Longrightarrow> encodeURIComponent n = Some y \<Longrightarrow> two_part_hash p i n = Some (p @ x @ 47 # y)"
  by (simp add: two_part_hash_def)

lemma entity_hash:
  assumes "p \<in> {PChannel, PContact, PContactInfo}" "de_type d = p" "proper nt d"
  shows "\<exists>h. getConversationHash nt (Some d) = Some h \<and> names_view nt h d"
proof -
  define l where "l = (if p = PChannel \<and> startsWith (de_name d) [35] then drop 1 (de_name d) else de_name d)"
  have "list_all scalar_value l" using assms(3) by (auto simp: l_def proper_def list_all_iff dest: in_set_dropD)
  then obtain y where y: "encodeURIComponent l = Some y" using encode_total by blast
  have id: "list_all scalar_value (de_id d)" "de_id d \<noteq> []" using assms by (auto simp: proper_def)
  then obtain x where x: "encodeURIComponent (de_id d) = Some x" using encode_total by blast
  have "getConversationHash nt (Some d) = Some (35 # page_text p @ 47 # x @ 47 # y)"
    using assms(1,2) two_part_text [OF x y] by (elim insertE emptyE) (simp_all add: getConversationHash_def l_def str_def)
  then show ?thesis using entity_parse [OF assms(1) x id(2) y, of nt] assms(1,2) by (auto simp: names_view_def parsed_def)
qed

lemma prefix_page:
  assumes "pre \<in> {(str ''snmp/''), (str ''fleet/''), (str ''link/''), (str ''map/at/'')}"
  shows "find (\<lambda>p. page_text p = pre @ r) plain_pages = None \<and> pre @ r \<noteq> [] \<and> pre @ r \<noteq> (str ''wardrive'') \<and> pre @ r \<noteq> (str ''wardrive-map'') \<and>
    pre @ r \<noteq> (str ''wardrive/reports'') \<and> pre @ r \<noteq> (str ''wardrive-reports'') \<and> pre @ r \<noteq> (str ''wardrive/drivers'')"
proof -
  have "47 \<in> set (pre @ r)" using assms by (elim insertE emptyE) (simp_all add: str_def)
  moreover have "pre @ r \<noteq> [] \<and> pre @ r \<noteq> (str ''wardrive'') \<and> pre @ r \<noteq> (str ''wardrive-map'') \<and>
    pre @ r \<noteq> (str ''wardrive/reports'') \<and> pre @ r \<noteq> (str ''wardrive-reports'') \<and> pre @ r \<noteq> (str ''wardrive/drivers'')"
    using assms by (elim insertE emptyE) (simp_all add: str_def)
  ultimately show ?thesis using not_plain by blast
qed

lemma snmp_parse:
  "parseHashConversation nt (35 # (str ''snmp/'') @ r) =
     map_option (\<lambda>k. Some (parsed PSnmp (if k \<noteq> [] then k else (str ''snmp'')))) (decodeURIComponent r)"
proof -
  have "drop 1 (35 # (str ''snmp/'') @ r) = (str ''snmp/'') @ r" by simp
  then show ?thesis unfolding parseHashConversation_def Let_def using prefix_page [of "(str ''snmp/'')" r] by (simp only: insertI1 simp_thms if_True if_False option.case startsWith_append) (simp add: str_def)
qed

lemma fleet_parse:
  "parseHashConversation nt (35 # (str ''fleet/'') @ r) = Some (Some (parsed PFleet (if fleet_id r then r else (str ''fleet''))))"
proof -
  have "drop 1 (35 # (str ''fleet/'') @ r) = (str ''fleet/'') @ r" "\<not> startsWith ((str ''fleet/'') @ r) (str ''snmp/'')" "drop 6 ((str ''fleet/'') @ r) = r"
    by (simp_all add: str_def startsWith_def)
  then show ?thesis unfolding parseHashConversation_def Let_def using prefix_page [of "(str ''fleet/'')" r] by (simp only: insert_iff simp_thms if_True if_False option.case startsWith_append)
qed

lemma link_parse: "parseHashConversation nt (35 # (str ''link/'') @ r) = parse_link r"
proof -
  have "drop 1 (35 # (str ''link/'') @ r) = (str ''link/'') @ r" "\<not> startsWith ((str ''link/'') @ r) (str ''snmp/'')" "\<not> startsWith ((str ''link/'') @ r) (str ''fleet/'')"
      "drop 5 ((str ''link/'') @ r) = r"
    by (simp_all add: str_def startsWith_def)
  then show ?thesis unfolding parseHashConversation_def Let_def using prefix_page [of "(str ''link/'')" r] by (simp only: insert_iff simp_thms if_True if_False option.case startsWith_append)
qed

lemma map_at_parse: "parseHashConversation nt (35 # (str ''map/at/'') @ r) = Some (Some (parse_map_at nt r))"
proof -
  have "drop 1 (35 # (str ''map/at/'') @ r) = (str ''map/at/'') @ r" "\<not> startsWith ((str ''map/at/'') @ r) (str ''snmp/'')" "\<not> startsWith ((str ''map/at/'') @ r) (str ''fleet/'')"
      "\<not> startsWith ((str ''map/at/'') @ r) (str ''link/'')" "drop 7 ((str ''map/at/'') @ r) = r"
    by (simp_all add: str_def startsWith_def)
  then show ?thesis unfolding parseHashConversation_def Let_def using prefix_page [of "(str ''map/at/'')" r] by (simp only: insert_iff simp_thms if_True if_False option.case startsWith_append)
qed

lemma wardrive_parse:
  assumes "i \<in> {(str ''map''), (str ''reports''), (str ''drivers'')}"
  shows "parseHashConversation nt (if i = (str ''reports'') then (str ''#wardrive/reports'') else if i = (str ''drivers'') then (str ''#wardrive/drivers'') else (str ''#wardrive'')) =
    Some (Some (parsed PWardrive i))"
proof -
  have none: "find (\<lambda>p. page_text p = (str ''wardrive'')) plain_pages = None" by (simp add: plain_pages_def)
  have "find (\<lambda>p. page_text p = (str ''wardrive/reports'')) plain_pages = None" "find (\<lambda>p. page_text p = (str ''wardrive/drivers'')) plain_pages = None"
    by (rule not_plain, simp add: str_def)+
  moreover have "drop 1 (str ''#wardrive'') = (str ''wardrive'')" "drop 1 (str ''#wardrive/reports'') = (str ''wardrive/reports'')" "drop 1 (str ''#wardrive/drivers'') = (str ''wardrive/drivers'')"
    by (simp_all add: str_def)
  ultimately show ?thesis using assms none
    by (elim insertE emptyE) (simp_all add: parseHashConversation_def)
qed

lemma link_split:
  assumes "link_id i"
  shows "\<exists>a b. i = a @ 126 # b \<and> a \<noteq> [] \<and> b \<noteq> [] \<and> split_on 126 i = [a, b]"
proof -
  have "\<exists>a b. i = a @ 126 # b \<and> [a, b] = [x, y]" if "split_on 126 i = [x, y]" for i x y :: jstr
    using that
  proof (induction i arbitrary: x)
    case (Cons c i)
    show ?case
    proof (cases "c = 126")
      case True
      then have "split_on 126 i = [y]" "x = []" using Cons.prems by auto
      moreover have "split_on 126 i = [y] \<Longrightarrow> i = y" for i y :: jstr
        by (induction i arbitrary: y) (auto split: list.splits if_splits)
      ultimately show ?thesis using True by auto
    next
      case False
      then obtain x' where x: "split_on 126 i = [x', y]" "x = c # x'" using Cons.prems by (auto split: list.splits)
      from Cons.IH [OF x(1)] show ?thesis using x(2) by auto
    qed
  qed simp
  then show ?thesis using assms unfolding link_id_def by (auto split: list.splits)
qed

lemma link_view:
  assumes "list_all scalar_value i" "link_id i"
  shows "\<exists>h. link_hash i = Some h \<and> parseHashConversation nt h = Some (Some (parsed PLink i))"
proof -
  obtain a b where i: "i = a @ 126 # b" "a \<noteq> []" "b \<noteq> []" "split_on 126 i = [a, b]" using link_split [OF assms(2)] by blast
  have "list_all scalar_value a" "list_all scalar_value b" using assms(1) by (simp_all add: i(1))
  then obtain x y where x: "encodeURIComponent a = Some x" and y: "encodeURIComponent b = Some y" using encode_total by blast
  have "link_hash i = Some ((str ''#link/'') @ x @ 47 # y)" by (simp add: link_hash_def i(4) two_part_text [OF x y])
  moreover have "(str ''#link/'') @ x @ 47 # y = 35 # (str ''link/'') @ x @ 47 # y" by (simp add: str_def)
  moreover have "split_on 47 (x @ 47 # y) = [x, y]"
    by (simp add: split_on_append split_on_no_sep encoded_no_slash [OF x] encoded_no_slash [OF y])
  then have "parse_link (x @ 47 # y) = Some (Some (parsed PLink i))"
    using i(2,3) encoded_empty [OF x] encoded_empty [OF y]
    by (simp add: parse_link_def decode_encoded [OF x] decode_encoded [OF y] i(1))
  ultimately show ?thesis using link_parse [of nt "x @ 47 # y"] by simp
qed

lemma fleet_encoded: "fleet_id i \<Longrightarrow> encodeURIComponent i = Some i"
proof -
  assume f: "fleet_id i"
  have low: "\<forall>c \<in> set i. (48 \<le> c \<and> c \<le> 57) \<or> (97 \<le> c \<and> c \<le> 122)"
  proof (cases "i \<in> {(str ''new''), (str ''templates''), (str ''onboard'')}")
    case True
    then show ?thesis by (elim insertE emptyE) simp_all
  next
    case False
    then show ?thesis using f by (simp add: fleet_id_def list_all_iff is_digit_def)
  qed
  have "unreserved c \<and> scalar_value c" if "(48 \<le> c \<and> c \<le> 57) \<or> (97 \<le> c \<and> c \<le> 122)" for c
    using that by (auto simp: unreserved_def scalar_value_def)
  with low have "\<forall>c \<in> set i. unreserved c \<and> scalar_value c" by blast
  then show ?thesis by (induction i) (auto simp: encode_eq url_char_of_def split: if_splits)
qed

lemma number_chars: "number_ok nt a \<Longrightarrow> split_on 44 (nt_show nt a @ 44 # nt_show nt b) = nt_show nt a # split_on 44 (nt_show nt b)"
  by (simp add: number_ok_def split_on_append split_on_no_sep)

lemma map_view:
  assumes "number_ok nt a" "number_ok nt b"
  shows "parseHashConversation nt ((str ''#map/at/'') @ nt_show nt a @ 44 # nt_show nt b) =
    Some (Some ((parsed PMap (str ''map''))\<lparr>ph_focusAt := Some (a, b)\<rparr>))"
proof -
  have hash: "(str ''#map/at/'') @ r = 35 # (str ''map/at/'') @ r" for r by simp
  have one: "split_on 44 (nt_show nt b) = [nt_show nt b]" using assms(2) by (simp add: number_ok_def split_on_no_sep)
  show ?thesis unfolding hash map_at_parse using assms
    by (simp add: parse_map_at_def number_chars [OF assms(1)] one) (simp add: number_ok_def)
qed

lemma hash_view:
  assumes "proper nt d"
  shows "\<exists>h. getConversationHash nt (Some d) = Some h \<and> names_view nt h d"
proof -
  have id: "list_all scalar_value (de_id d)" using assms by (simp add: proper_def)
  have fixed: "names_view nt (35 # page_text p) d" if "p \<in> set plain_pages" "de_type d = p" "de_id d = page_text p"
    "de_type d = PMap \<longrightarrow> de_focusAt d = None" for p
    using plain_parse [OF that(1), of nt] that(2-) by (auto simp: names_view_def parsed_def simp del: page_text.simps)
  have kept: "35 # page_text PMap = (str ''#map'')" "35 # page_text PSnmp = (str ''#snmp'')" "35 # page_text PFleet = (str ''#fleet'')" by (simp_all add: str_def)
  consider (plain) "de_type d \<in> set plain_pages - {PMap, PSnmp, PFleet}" | (map) "de_type d = PMap" | (snmp) "de_type d = PSnmp"
    | (fleet) "de_type d = PFleet" | (wardrive) "de_type d = PWardrive" | (link) "de_type d = PLink"
    | (entity) "de_type d \<in> {PChannel, PContact, PContactInfo}"
    by (cases "de_type d") (auto simp: plain_pages_def)
  then show ?thesis
  proof cases
    case plain
    then have "getConversationHash nt (Some d) = Some (35 # page_text (de_type d))" "de_id d = page_text (de_type d)"
      using assms by (cases "de_type d"; simp add: getConversationHash_def proper_def plain_pages_def)+
    then show ?thesis using fixed [of "de_type d"] \<open>de_type d \<in> _\<close> by auto
  next
    case map
    show ?thesis
    proof (cases "de_focusAt d")
      case None
      then show ?thesis using map assms fixed [of PMap] kept by (simp add: getConversationHash_def proper_def plain_pages_def)
    next
      case (Some ab)
      then obtain a b where ab: "de_focusAt d = Some (a, b)" by (cases ab) simp
      then have "number_ok nt a" "number_ok nt b" "de_id d = (str ''map'')" using map assms by (simp_all add: proper_def)
      then show ?thesis using map ab map_view [of nt a b] by (simp add: getConversationHash_def names_view_def parsed_def)
    qed
  next
    case snmp
    obtain x where x: "encodeURIComponent (de_id d) = Some x" using encode_total [OF id] by blast
    have "(str ''#snmp/'') @ x = 35 # (str ''snmp/'') @ x" by (simp add: str_def)
    then show ?thesis using snmp assms fixed [of PSnmp] kept snmp_parse [of nt x]
      by (auto simp: getConversationHash_def proper_def plain_pages_def x decode_encoded [OF x] names_view_def parsed_def)
  next
    case fleet
    have "(str ''#fleet/'') @ r = 35 # (str ''fleet/'') @ r" for r by (simp add: str_def)
    then show ?thesis using fleet assms fixed [of PFleet] kept fleet_parse [of nt "de_id d"] fleet_encoded [of "de_id d"]
      by (auto simp: getConversationHash_def proper_def plain_pages_def names_view_def parsed_def)
  next
    case wardrive
    then show ?thesis using assms wardrive_parse [of "de_id d" nt]
      by (auto simp: getConversationHash_def proper_def names_view_def parsed_def)
  next
    case link
    then show ?thesis using assms link_view [OF id, of nt]
      by (auto simp: getConversationHash_def proper_def names_view_def parsed_def)
  next
    case entity
    then show ?thesis using entity_hash [OF _ refl assms] by blast
  qed
qed


text \<open>A percent sign that starts no escape makes the reading throw; nothing in the module catches it.\<close>

theorem malformed_hash_throws:
  "parseHashConversation nt (str ''#contact/100%'') = None \<and> parseHashSettingsSection (str ''#settings/%'') = None"
  by (simp add: parseHashConversation_def parseHashSettingsSection_def plain_pages_def parse_entity_def startsWith_def str_def
      decodeURIComponent.simps pct_next_def pct_byte_def Let_def)

definition demo_numbers :: number_text where
  "demo_numbers = \<lparr>nt_show = (\<lambda>x. []), nt_read = (\<lambda>s. NaN)\<rparr>"

end
