(* ===== verification/Router.thy ===== *)
theory Router
imports UrlHash
begin

text \<open>Which view is open (\<^verbatim>\<open>frontend/src/hooks/useConversationRouter.ts\<close>, with the last view of
  \<^verbatim>\<open>frontend/src/utils/lastViewedConversation.ts\<close>): the effects and callbacks of the hook as functions on its state and its
  refs, the page's hash, the browser's history and the stored last view. A hash that makes the reading throw is \<open>None\<close>.
  What the hook is given is an environment.\<close>

subsection \<open>State\<close>

record router =
  rt_active :: "destination option"
  rt_default :: bool
  rt_sync :: bool
  rt_push :: bool
  rt_popping :: bool
  rt_fallback :: bool
  rt_hash :: jstr
  rt_history :: "jstr list"
  rt_saved :: "destination option"

record router_env =
  re_channels :: "live_channel list"
  re_contacts :: "live_contact list"
  re_contactsLoaded :: bool
  re_suspended :: bool
  re_reopen :: bool
  re_numbers :: number_text
  re_redirect :: "destination \<Rightarrow> bool"

datatype router_call = ChannelNotFound jstr | ContactNotFound jstr

fun page_title :: "page_type \<Rightarrow> jstr" where
  "page_title PRaw = (str ''Raw Packet Feed'')"
| "page_title PMap = (str ''Node Map'')"
| "page_title PVisualizer = (str ''Mesh Visualizer'')"
| "page_title PSearch = (str ''Message Search'')"
| "page_title PTrace = (str ''Trace'')"
| "page_title PChannelRegistry = (str ''Channel Registry'')"
| "page_title PNode = (str ''My Node'')"
| "page_title PMeshHealth = (str ''Mesh Health'')"
| "page_title PMeshTrends = (str ''Mesh Trends'')"
| "page_title PMeshDiscovery = (str ''Mesh Discovery'')"
| "page_title PSnmp = (str ''SNMP'')"
| "page_title PSpamGuard = (str ''Spam Guard'')"
| "page_title PPerformance = (str ''Performance'')"
| "page_title PLanScan = (str ''Network scan'')"
| "page_title PWardrive = (str ''Wardrive'')"
| "page_title PMentions = (str ''Mentions'')"
| "page_title PFleet = (str ''Fleet'')"
| "page_title PAnalyze = (str ''Analyze Packet'')"
| "page_title PPacketHistory = (str ''Packet History'')"
| "page_title PManual = (str ''User Guide'')"
| "page_title PKnowledgeBase = (str ''Knowledge base'')"
| "page_title PLink = (str ''Link'')"
| "page_title _ = []"

definition goto :: "page_type \<Rightarrow> jstr \<Rightarrow> jstr \<Rightarrow> destination" where
  "goto t i n = \<lparr>de_type = t, de_id = i, de_name = n, de_focusKey = None, de_focusAt = None\<rparr>"

text \<open>The view of a hash that needs no data.\<close>

definition page_of_hash :: "parsed_hash \<Rightarrow> destination option" where
  "page_of_hash p =
     (case ph_type p of
        PChannel \<Rightarrow> None
      | PContact \<Rightarrow> None
      | PContactInfo \<Rightarrow> None
      | PMap \<Rightarrow> Some ((goto PMap (str ''map'') (page_title PMap))\<lparr>de_focusKey := ph_focusKey p, de_focusAt := ph_focusAt p\<rparr>)
      | t \<Rightarrow> Some (goto t (if t \<in> {PSnmp, PWardrive, PFleet, PLink} then ph_name p else page_text t) (page_title t)))"

definition to_channel :: "live_channel \<Rightarrow> destination" where
  "to_channel c = goto PChannel (ln_key c) (ln_name c)"

definition to_contact :: "page_type \<Rightarrow> live_contact \<Rightarrow> destination" where
  "to_contact t c = goto t (lc_public_key c) (contact_display c)"

definition resolvePublicFromChannels :: "live_channel list \<Rightarrow> destination option" where
  "resolvePublicFromChannels channels = map_option to_channel (findPublicChannel channels)"

definition resolveConversationFromHash :: "router_env \<Rightarrow> jstr \<Rightarrow> destination option option" where
  "resolveConversationFromHash env hash =
     (case parseHashConversation (re_numbers env) hash of
        None \<Rightarrow> None
      | Some None \<Rightarrow> Some None
      | Some (Some p) \<Rightarrow>
          Some (case page_of_hash p of
            Some d \<Rightarrow> Some d
          | None \<Rightarrow>
              if ph_type p = PChannel
              then map_option to_channel (resolveChannelFromHashToken (ph_name p) (re_channels env))
              else map_option (to_contact (ph_type p)) (resolveContactFromHashToken (ph_name p) (re_contacts env))))"

subsection \<open>The last view\<close>

definition SUPPORTED_TYPES :: "page_type list" where
  "SUPPORTED_TYPES = [PContact, PChannel, PRaw, PMap, PVisualizer, PTrace]"

definition getLastViewedConversation :: "destination option \<Rightarrow> destination option" where
  "getLastViewedConversation saved =
     (case saved of
        None \<Rightarrow> None
      | Some d \<Rightarrow>
          if de_type d \<notin> set SUPPORTED_TYPES then None
          else if de_type d \<noteq> PMap then Some (goto (de_type d) (de_id d) (de_name d))
          else Some d)"

definition captureLastViewedConversationFromHash :: "number_text \<Rightarrow> jstr \<Rightarrow> destination option \<Rightarrow> destination option option" where
  "captureLastViewedConversationFromHash nt hash saved =
     (case parseHashConversation nt hash of
        None \<Rightarrow> None
      | Some None \<Rightarrow> Some saved
      | Some (Some p) \<Rightarrow>
          Some (Some (if ph_type p \<in> {PRaw, PMap, PVisualizer, PTrace} then the (page_of_hash p)
            else goto (ph_type p) (ph_name p)
              (case ph_label p of Some (c # l) \<Rightarrow> c # l | _ \<Rightarrow> ph_name p))))"

subsection \<open>Opening a view at the start\<close>

definition show_start :: "destination \<Rightarrow> router \<Rightarrow> router" where
  "show_start d s = s\<lparr>rt_active := Some d, rt_default := True\<rparr>"

definition start_hash :: "router_env \<Rightarrow> router \<Rightarrow> parsed_hash option option" where
  "start_hash env s =
     (case parseHashSettingsSection (rt_hash s) of
        None \<Rightarrow> None
      | Some (Some section) \<Rightarrow> Some None
      | Some None \<Rightarrow> parseHashConversation (re_numbers env) (rt_hash s))"

definition short_token :: "jstr \<Rightarrow> jstr" where
  "short_token token = (if length token > 16 then take 16 token @ [8230] else token)"

text \<open>With channels, and a hash that names no page: the channel of the hash, the last channel, or Public.\<close>

definition start_channel :: "router_env \<Rightarrow> parsed_hash option \<Rightarrow> router \<Rightarrow> router \<times> router_call list" where
  "start_channel env hc s =
     (let hashed = (case hc of
            Some p \<Rightarrow> if ph_type p = PChannel then resolveChannelFromHashToken (ph_name p) (re_channels env) else None
          | None \<Rightarrow> None);
          last = (if hc = None \<and> re_reopen env then getLastViewedConversation (rt_saved s) else None);
          lastChannel = (case last of
              Some d \<Rightarrow> if de_type d = PChannel then
                  (case find (\<lambda>c. toLowerCase (ln_key c) = toLowerCase (de_id d)) (re_channels env) of
                     Some c \<Rightarrow> Some c
                   | None \<Rightarrow> resolveChannelFromHashToken (de_id d) (re_channels env))
                else None
            | None \<Rightarrow> None)
      in case hashed of
           Some c \<Rightarrow> (show_start (to_channel c) s, [])
         | None \<Rightarrow>
             if map_option ph_type hc \<in> {Some PContact, Some PContactInfo} then (s, [])
             else case lastChannel of
               Some c \<Rightarrow> (show_start (to_channel c) s, [])
             | None \<Rightarrow>
                 if map_option de_type last = Some PContact then (s, [])
                 else case resolvePublicFromChannels (re_channels env) of
                   Some d \<Rightarrow>
                     (show_start d s,
                      case hc of Some p \<Rightarrow> if ph_type p = PChannel then [ChannelNotFound (short_token (ph_name p))] else [] | None \<Rightarrow> [])
                 | None \<Rightarrow> (s, []))"

definition phase1 :: "router_env \<Rightarrow> router \<Rightarrow> (router \<times> router_call list) option" where
  "phase1 env s =
     (if rt_default s \<or> rt_active s \<noteq> None then Some (s, [])
      else case start_hash env s of
        None \<Rightarrow> None
      | Some hc \<Rightarrow>
          (case (case hc of Some p \<Rightarrow> page_of_hash p | None \<Rightarrow> None) of
             Some d \<Rightarrow> Some (show_start d s, [])
           | None \<Rightarrow>
               let last = (if hc = None \<and> re_reopen env then getLastViewedConversation (rt_saved s) else None)
               in if (case last of Some d \<Rightarrow> de_type d \<in> {PRaw, PMap, PVisualizer, PTrace} | None \<Rightarrow> False)
                  then Some (show_start (the last) s, [])
                  else if re_channels env = [] then Some (s, [])
                  else Some (start_channel env hc s)))"

text \<open>With the contacts: the contact of the hash, the last contact, or Public.\<close>

definition start_public :: "router_env \<Rightarrow> router \<Rightarrow> router" where
  "start_public env s = (case resolvePublicFromChannels (re_channels env) of Some d \<Rightarrow> show_start d s | None \<Rightarrow> s)"

definition phase2 :: "router_env \<Rightarrow> router \<Rightarrow> (router \<times> router_call list) option" where
  "phase2 env s =
     (if rt_default s \<or> rt_active s \<noteq> None then Some (s, [])
      else case start_hash env s of
        None \<Rightarrow> None
      | Some hc \<Rightarrow>
          (case hc of
             Some p \<Rightarrow>
               if ph_type p \<in> {PContact, PContactInfo} then
                 (if \<not> re_contactsLoaded env then Some (s, [])
                  else case resolveContactFromHashToken (ph_name p) (re_contacts env) of
                    Some c \<Rightarrow> Some (show_start (to_contact (ph_type p) c) s, [])
                  | None \<Rightarrow> Some (start_public env s, [ContactNotFound (short_token (ph_name p))]))
               else Some (s, [])
           | None \<Rightarrow>
               if \<not> re_reopen env then Some (s, [])
               else case getLastViewedConversation (rt_saved s) of
                 None \<Rightarrow> Some (s, [])
               | Some d \<Rightarrow>
                   if de_type d \<noteq> PContact \<or> \<not> re_contactsLoaded env then Some (s, [])
                   else case (case find (\<lambda>c. toLowerCase (lc_public_key c) = toLowerCase (de_id d)) (re_contacts env) of
                           Some c \<Rightarrow> Some c
                         | None \<Rightarrow> resolveContactFromHashToken (de_id d) (re_contacts env)) of
                     Some c \<Rightarrow> Some (show_start (to_contact PContact c) s, [])
                   | None \<Rightarrow> Some (start_public env s, [])))"

text \<open>Both effects of one render; the second sees what the first did by its ref.\<close>

definition start_effects :: "router_env \<Rightarrow> router \<Rightarrow> (router \<times> router_call list) option" where
  "start_effects env s =
     (case phase1 env s of
        None \<Rightarrow> None
      | Some (s1, c1) \<Rightarrow> map_option (\<lambda>(s2, c2). (s2, c1 @ c2)) (phase2 env s1))"

subsection \<open>The address and the history\<close>

definition updateUrlHash :: "number_text \<Rightarrow> destination \<Rightarrow> router \<Rightarrow> router option" where
  "updateUrlHash nt d s = map_option (\<lambda>h. if h \<noteq> rt_hash s then s\<lparr>rt_hash := h\<rparr> else s) (getConversationHash nt (Some d))"

definition pushUrlHash :: "number_text \<Rightarrow> destination \<Rightarrow> router \<Rightarrow> router option" where
  "pushUrlHash nt d s =
     map_option (\<lambda>h. if h \<noteq> rt_hash s then s\<lparr>rt_hash := h, rt_history := rt_hash s # rt_history s\<rparr> else s)
       (getConversationHash nt (Some d))"

definition save_last :: "router \<Rightarrow> router" where
  "save_last s =
     (case rt_active s of Some d \<Rightarrow> if de_type d \<noteq> PSearch then s\<lparr>rt_saved := Some d\<rparr> else s | None \<Rightarrow> s)"

definition url_effect :: "router_env \<Rightarrow> router \<Rightarrow> router option" where
  "url_effect env s =
     map_option save_last
       (if rt_popping s then Some (s\<lparr>rt_popping := False\<rparr>)
        else case rt_active s of
          None \<Rightarrow> Some s
        | Some d \<Rightarrow>
            if rt_sync s \<and> \<not> re_suspended env then
              (if rt_push s then pushUrlHash (re_numbers env) d (s\<lparr>rt_push := False\<rparr>)
               else updateUrlHash (re_numbers env) d s)
            else Some s)"

definition setActiveConversation :: "router_env \<Rightarrow> destination option \<Rightarrow> router \<Rightarrow> router" where
  "setActiveConversation env conv s =
     (if (case conv of Some d \<Rightarrow> re_redirect env d | None \<Rightarrow> False) then s
      else s\<lparr>rt_sync := True, rt_push := True, rt_active := conv\<rparr>)"

text \<open>The browser has gone to another entry of its history.\<close>

definition handlePopstate :: "router_env \<Rightarrow> jstr \<Rightarrow> router \<Rightarrow> router option" where
  "handlePopstate env hash s0 =
     (let s = s0\<lparr>rt_hash := hash\<rparr> in
      case parseHashSettingsSection hash of
        None \<Rightarrow> None
      | Some (Some section) \<Rightarrow> Some s
      | Some None \<Rightarrow>
          (case resolveConversationFromHash env hash of
             None \<Rightarrow> None
           | Some conv \<Rightarrow>
               (case (case conv of Some d \<Rightarrow> Some d | None \<Rightarrow> resolvePublicFromChannels (re_channels env)) of
                  None \<Rightarrow> Some s
                | Some d \<Rightarrow> Some (s\<lparr>rt_sync := True, rt_popping := True, rt_active := Some d\<rparr>))))"

definition fallback_effect :: "router_env \<Rightarrow> router \<Rightarrow> router" where
  "fallback_effect env s =
     (if \<not> rt_fallback s then s
      else if rt_active s \<noteq> None then s\<lparr>rt_fallback := False\<rparr>
      else case findPublicChannel (re_channels env) of
        None \<Rightarrow> s
      | Some c \<Rightarrow> s\<lparr>rt_default := True, rt_fallback := False, rt_active := Some (to_channel c)\<rparr>)"

definition fresh_router :: "jstr \<Rightarrow> destination option \<Rightarrow> router option" where
  "fresh_router hash saved =
     map_option (\<lambda>section. \<lparr>rt_active = None, rt_default = False, rt_sync = (length hash > 0 \<and> section = None), rt_push = False,
        rt_popping = False, rt_fallback = False, rt_hash = hash, rt_history = [], rt_saved = saved\<rparr>)
       (if length hash > 0 then parseHashSettingsSection hash else Some None)"

subsection \<open>A view's address opens it again\<close>

lemma page_not_settings:
  assumes "parseHashConversation nt h = Some (Some p)"
  shows "parseHashSettingsSection h = Some None"
proof (rule ccontr)
  assume "parseHashSettingsSection h \<noteq> Some None"
  then have "startsWith (drop 1 h) (str ''settings/'')" by (auto simp: parseHashSettingsSection_def Let_def split: if_splits)
  then have t: "take (length (str ''settings/'')) (drop 1 h) = (str ''settings/'')" by (simp only: startsWith_def)
  have "drop 1 h = (str ''settings/'') @ drop (length (str ''settings/'')) (drop 1 h)"
    using append_take_drop_id [of "length (str ''settings/'')" "drop 1 h"] unfolding t by (rule sym)
  then obtain r where r: "drop 1 h = (str ''settings'') @ 47 # r" by simp
  define g where "g = (str ''settings'') @ 47 # r"
  have none: "find (\<lambda>p. page_text p = g) plain_pages = None" by (rule not_plain) (simp add: g_def)
  have other: "g \<noteq> [] \<and> g \<noteq> (str ''wardrive'') \<and> g \<noteq> (str ''wardrive-map'') \<and> g \<noteq> (str ''wardrive/reports'') \<and> g \<noteq> (str ''wardrive-reports'') \<and>
      g \<noteq> (str ''wardrive/drivers'')" by (simp add: g_def)
  have pre: "\<not> startsWith g (str ''snmp/'') \<and> \<not> startsWith g (str ''fleet/'') \<and> \<not> startsWith g (str ''link/'') \<and>
      \<not> startsWith g (str ''map/at/'') \<and> \<not> startsWith g (str ''map/focus/'')" by (simp add: g_def startsWith_def)
  have head: "takeWhile (\<lambda>c. c \<noteq> 47) g = (str ''settings'')" unfolding g_def by (rule after_slash) simp
  have kind: "find (\<lambda>p. page_text p = (str ''settings'')) [PChannel, PContact, PContactInfo] = None" by simp
  have "47 \<in> set g" by (simp add: g_def)
  then have ent: "parse_entity g = Some None" unfolding parse_entity_def Let_def head kind by simp
  have first: "drop 1 h = g" unfolding g_def by (rule r)
  have "parseHashConversation nt h = Some None"
    unfolding parseHashConversation_def first Let_def none ent using other pre by simp
  then show False using assms by simp
qed

definition listed :: "router_env \<Rightarrow> destination \<Rightarrow> bool" where
  "listed env d \<longleftrightarrow>
     (case de_type d of
        PChannel \<Rightarrow> (\<exists>c \<in> set (re_channels env). ln_key c = de_id d) \<and> distinct (map (toLowerCase \<circ> ln_key) (re_channels env)) \<and>
          trim (de_id d) = de_id d
      | PContact \<Rightarrow> (\<exists>c \<in> set (re_contacts env). lc_public_key c = de_id d) \<and>
          distinct (map (toLowerCase \<circ> lc_public_key) (re_contacts env)) \<and> trim (de_id d) = de_id d
      | PContactInfo \<Rightarrow> (\<exists>c \<in> set (re_contacts env). lc_public_key c = de_id d) \<and>
          distinct (map (toLowerCase \<circ> lc_public_key) (re_contacts env)) \<and> trim (de_id d) = de_id d
      | _ \<Rightarrow> True)"

definition same_view :: "destination \<Rightarrow> destination \<Rightarrow> bool" where
  "same_view a b \<longleftrightarrow> de_type a = de_type b \<and> de_id a = de_id b \<and> (de_type b = PMap \<longrightarrow> de_focusAt a = de_focusAt b)"

lemma find_distinct: "distinct (map f xs) \<Longrightarrow> x \<in> set xs \<Longrightarrow> find (\<lambda>y. f y = f x) xs = Some x"
  by (induction xs) (auto intro: rev_image_eqI)

lemma channel_of_key:
  assumes "c \<in> set cs" "distinct (map (toLowerCase \<circ> ln_key) cs)" "trim (ln_key c) = ln_key c" "ln_key c \<noteq> []"
  shows "resolveChannelFromHashToken (ln_key c) cs = Some c"
  using find_distinct [OF assms(2,1)] assms(3,4) by (simp add: resolveChannelFromHashToken_def Let_def)

lemma contact_of_key:
  assumes "c \<in> set cs" "distinct (map (toLowerCase \<circ> lc_public_key) cs)" "trim (lc_public_key c) = lc_public_key c" "lc_public_key c \<noteq> []"
  shows "resolveContactFromHashToken (lc_public_key c) cs = Some c"
  using find_distinct [OF assms(2,1)] assms(3,4) by (simp add: resolveContactFromHashToken_def Let_def)

text \<open>What a hash that names a view resolves to.\<close>

lemma page_resolved:
  assumes "names_view nt h d" "proper nt d" "de_type d \<notin> {PChannel, PContact, PContactInfo}"
  shows "\<exists>p d'. parseHashConversation nt h = Some (Some p) \<and> page_of_hash p = Some d' \<and> same_view d' d"
proof -
  obtain p where p: "parseHashConversation nt h = Some (Some p)" "ph_type p = de_type d" "ph_name p = de_id d"
      "ph_focusAt p = (if de_type d = PMap then de_focusAt d else None)" using assms(1) by (auto simp: names_view_def)
  have "\<exists>d'. page_of_hash p = Some d' \<and> same_view d' d"
    using p(2-) assms(2,3) by (cases "de_type d") (simp_all add: page_of_hash_def same_view_def goto_def proper_def)
  then show ?thesis using p(1) by blast
qed

lemma channel_resolved:
  assumes "names_view nt h d" "proper nt d" "listed env d" "de_type d = PChannel"
  shows "\<exists>p c. parseHashConversation nt h = Some (Some p) \<and> ph_type p = PChannel \<and> c \<in> set (re_channels env) \<and>
    resolveChannelFromHashToken (ph_name p) (re_channels env) = Some c \<and> same_view (to_channel c) d"
proof -
  obtain p where p: "parseHashConversation nt h = Some (Some p)" "ph_type p = PChannel" "ph_name p = de_id d"
    using assms(1,4) by (auto simp: names_view_def)
  obtain c where "c \<in> set (re_channels env)" "ln_key c = de_id d" using assms(3,4) by (auto simp: listed_def)
  then show ?thesis using p channel_of_key [of c "re_channels env"] assms(2-4)
    by (intro exI [of _ p] exI [of _ c]) (simp add: listed_def proper_def same_view_def to_channel_def goto_def)
qed

lemma contact_resolved:
  assumes "names_view nt h d" "proper nt d" "listed env d" "de_type d \<in> {PContact, PContactInfo}"
  shows "\<exists>p c. parseHashConversation nt h = Some (Some p) \<and> ph_type p = de_type d \<and>
    resolveContactFromHashToken (ph_name p) (re_contacts env) = Some c \<and> same_view (to_contact (de_type d) c) d"
proof -
  obtain p where p: "parseHashConversation nt h = Some (Some p)" "ph_type p = de_type d" "ph_name p = de_id d"
    using assms(1) by (auto simp: names_view_def)
  obtain c where "c \<in> set (re_contacts env)" "lc_public_key c = de_id d" using assms(3,4) by (auto simp: listed_def)
  then show ?thesis using p contact_of_key [of c "re_contacts env"] assms(2-4)
    by (intro exI [of _ p] exI [of _ c]) (auto simp: listed_def proper_def same_view_def to_contact_def goto_def)
qed

lemma entity_no_page: "ph_type p \<in> {PChannel, PContact, PContactInfo} \<Longrightarrow> page_of_hash p = None"
  by (auto simp: page_of_hash_def)

text \<open>Loading the page at the address of a view opens that view again, whatever the last view was: a page at once, a channel
  once the channels are there, a contact once the contacts are.\<close>

theorem reload_reopens:
  assumes hash: "getConversationHash (re_numbers env) (Some d) = Some h" and d: "proper (re_numbers env) d" "listed env d"
    and loaded: "re_contactsLoaded env"
  shows "\<exists>s s' d'. fresh_router h saved = Some s \<and> start_effects env s = Some (s', []) \<and>
    rt_active s' = Some d' \<and> same_view d' d"
proof -
  have v: "names_view (re_numbers env) h d" using hash_view [OF d(1)] hash by fastforce
  then obtain p0 where p0: "parseHashConversation (re_numbers env) h = Some (Some p0)" by (auto simp: names_view_def)
  then have set: "parseHashSettingsSection h = Some None" by (rule page_not_settings)
  have fresh: "fresh_router h saved \<noteq> None" by (simp add: fresh_router_def set)
  then obtain s where s: "fresh_router h saved = Some s" by blast
  then have s: "fresh_router h saved = Some s" "rt_active s = None" "\<not> rt_default s" "rt_hash s = h"
    unfolding fresh_router_def by auto
  have start: "start_hash env s = Some (Some p0)" by (simp add: start_hash_def s(4) set p0)
  consider (page) "de_type d \<notin> {PChannel, PContact, PContactInfo}" | (channel) "de_type d = PChannel"
    | (contact) "de_type d \<in> {PContact, PContactInfo}" by blast
  then have "\<exists>s' d'. start_effects env s = Some (s', []) \<and> rt_active s' = Some d' \<and> same_view d' d"
  proof cases
    case page
    from page_resolved [OF v d(1) page] p0 obtain d' where "page_of_hash p0 = Some d'" "same_view d' d" by auto
    then show ?thesis by (simp add: start_effects_def phase1_def phase2_def s start show_start_def)
  next
    case channel
    from channel_resolved [OF v d channel] p0 obtain c where c: "ph_type p0 = PChannel" "c \<in> set (re_channels env)"
        "resolveChannelFromHashToken (ph_name p0) (re_channels env) = Some c" "same_view (to_channel c) d" by auto
    then have "re_channels env \<noteq> []" by auto
    then show ?thesis using c entity_no_page [of p0]
      by (simp add: start_effects_def phase1_def phase2_def s start show_start_def start_channel_def Let_def)
  next
    case contact
    from contact_resolved [OF v d contact] p0 obtain c where c: "ph_type p0 = de_type d"
        "resolveContactFromHashToken (ph_name p0) (re_contacts env) = Some c" "same_view (to_contact (de_type d) c) d" by auto
    have "phase1 env s = Some (s, [])" using c(1) contact entity_no_page [of p0]
      by (auto simp: phase1_def s start start_channel_def Let_def)
    then show ?thesis using c contact loaded
      by (auto simp: start_effects_def phase2_def s start show_start_def)
  qed
  then show ?thesis using s(1) by blast
qed

subsection \<open>Something is always opened\<close>

lemma phase1_idle: "rt_active s = None \<Longrightarrow> \<not> rt_default s \<Longrightarrow> phase1 env s = Some (s1, c) \<Longrightarrow> rt_active s1 = None \<Longrightarrow> s1 = s"
  by (auto simp: phase1_def start_channel_def show_start_def Let_def split: option.splits if_splits)

lemma start_public_active: "findPublicChannel (re_channels env) \<noteq> None \<Longrightarrow> rt_active (start_public env s) \<noteq> None"
  by (auto simp: start_public_def resolvePublicFromChannels_def show_start_def)

text \<open>C34: Once channels with Public among them and the contacts are loaded, the start opens some view, whatever the hash
  and the last view are, unless reading the hash throws.\<close>

theorem start_opens_something:
  assumes start: "rt_active s = None" "\<not> rt_default s" and data: "findPublicChannel (re_channels env) \<noteq> None" "re_contactsLoaded env"
    and hash: "start_hash env s \<noteq> None"
  shows "\<exists>s' calls. start_effects env s = Some (s', calls) \<and> rt_active s' \<noteq> None"
proof -
  obtain hc where hc: "start_hash env s = Some hc" using hash by blast
  have some: "re_channels env \<noteq> []" using data(1) by (auto simp: findPublicChannel_def)
  have "\<exists>r. phase1 env s = Some r" by (auto simp: phase1_def hc start Let_def split: option.splits)
  then obtain s1 c1 where one: "phase1 env s = Some (s1, c1)" by fastforce
  show ?thesis
  proof (cases "rt_active s1")
    case (Some d)
    then have "phase2 env s1 = Some (s1, [])" by (simp add: phase2_def)
    then show ?thesis using Some by (simp add: start_effects_def one)
  next
    case None
    then have s1: "s1 = s" using phase1_idle start one by blast
    have pub: "resolvePublicFromChannels (re_channels env) \<noteq> None" using data(1) by (simp add: resolvePublicFromChannels_def)
    have changed: "rt_active (show_start d s) = Some d" for d by (simp add: show_start_def)
    then have ne: "show_start d s \<noteq> s" for d using start(1) by (metis option.distinct(1))
    have nopage: "(case hc of Some p \<Rightarrow> page_of_hash p | None \<Rightarrow> None) = None"
      using one start s1 by (auto simp: phase1_def hc ne split: option.splits)
    have waits: "map_option ph_type hc \<in> {Some PContact, Some PContactInfo} \<or>
        hc = None \<and> re_reopen env \<and> map_option de_type (getLastViewedConversation (rt_saved s)) = Some PContact"
      using one start s1 some pub nopage
      by (auto simp: phase1_def hc start_channel_def ne Let_def split: option.splits if_splits)
    have "\<exists>s2 c2. phase2 env s = Some (s2, c2) \<and> rt_active s2 \<noteq> None"
    proof (cases hc)
      case (Some p)
      then show ?thesis using waits data start_public_active [OF data(1), of s]
        by (cases "resolveContactFromHashToken (ph_name p) (re_contacts env)") (auto simp: phase2_def hc start show_start_def)
    next
      case hn: None
      then obtain d where d: "getLastViewedConversation (rt_saved s) = Some d" "de_type d = PContact" "re_reopen env" using waits by auto
      then show ?thesis using data start_public_active [OF data(1), of s]
        by (auto simp: phase2_def hc hn start show_start_def split: option.split)
    qed
    then show ?thesis by (auto simp: start_effects_def one s1)
  qed
qed

subsection \<open>Back\<close>

lemma popstate_opens:
  assumes "getConversationHash (re_numbers env) (Some d) = Some h" "proper (re_numbers env) d" "listed env d"
  shows "\<exists>d'. handlePopstate env h s = Some (s\<lparr>rt_hash := h, rt_sync := True, rt_popping := True, rt_active := Some d'\<rparr>) \<and> same_view d' d"
proof -
  have v: "names_view (re_numbers env) h d" using hash_view [OF assms(2)] assms(1) by fastforce
  then obtain p0 where p0: "parseHashConversation (re_numbers env) h = Some (Some p0)" by (auto simp: names_view_def)
  then have set: "parseHashSettingsSection h = Some None" by (rule page_not_settings)
  consider (page) "de_type d \<notin> {PChannel, PContact, PContactInfo}" | (channel) "de_type d = PChannel"
    | (contact) "de_type d \<in> {PContact, PContactInfo}" by blast
  then have "\<exists>d'. resolveConversationFromHash env h = Some (Some d') \<and> same_view d' d"
  proof cases
    case page
    from page_resolved [OF v assms(2) page] p0 show ?thesis by (auto simp: resolveConversationFromHash_def)
  next
    case channel
    from channel_resolved [OF v assms(2,3) channel] p0 show ?thesis
      using entity_no_page [of p0] by (auto simp: resolveConversationFromHash_def)
  next
    case contact
    from contact_resolved [OF v assms(2,3) contact] p0 show ?thesis
      using entity_no_page [of p0] contact by (auto simp: resolveConversationFromHash_def)
  qed
  then show ?thesis by (auto simp: handlePopstate_def set Let_def)
qed


subsection \<open>Examples\<close>

definition router_demo_env :: router_env where
  "router_demo_env =
     \<lparr>re_channels = [\<lparr>ln_key = PUBLIC_CHANNEL_KEY, ln_name = PUBLIC_CHANNEL_NAME, ln_muted = False, ln_fields = []\<rparr>], re_contacts = [],
      re_contactsLoaded = True, re_suspended = False, re_reopen = False, re_numbers = demo_numbers, re_redirect = (\<lambda>d. False)\<rparr>"

theorem reload_reopens_witness:
  "\<exists>s s' d'. fresh_router (str ''#wardrive/reports'') None = Some s \<and> start_effects router_demo_env s = Some (s', []) \<and>
    rt_active s' = Some d' \<and> same_view d' (goto PWardrive (str ''reports'') [])"
  by (rule reload_reopens) (simp_all add: getConversationHash_def goto_def proper_def listed_def router_demo_env_def scalar_value_def)

theorem start_opens_something_witness:
  "\<exists>s' calls. start_effects router_demo_env (the (fresh_router [] None)) = Some (s', calls) \<and> rt_active s' \<noteq> None"
  by (rule start_opens_something)
    (simp_all add: fresh_router_def router_demo_env_def findPublicChannel_def isPublicChannelKey_def PUBLIC_CHANNEL_KEY_def
      toUpperCase_def upper_char_def start_hash_def parseHashSettingsSection_def parseHashConversation_def startsWith_def)

definition router_demo :: router where
  "router_demo = (the (fresh_router [] None))\<lparr>rt_hash := (str ''#raw'')\<rparr>"

end
