(* ===== verification/Socket.thy ===== *)
theory Socket
imports UrlHash
begin

text \<open>The connection to the server: the socket that reconnects (\<^verbatim>\<open>frontend/src/useWebSocket.ts\<close>), and what the
  page does when the session of a reverse proxy has run out (\<^verbatim>\<open>utils/authRedirect.ts\<close>). The sockets of the browser,
  their events and the page's timers are a state machine; the URL parser is a parameter. What an event of the socket does to the
  app is Realtime.\<close>

subsection \<open>The socket\<close>

definition AUTH_PROBE_AFTER_FAILURES :: nat where "AUTH_PROBE_AFTER_FAILURES = 3"

datatype sock_state = SockConnecting | SockOpen | SockClosing

record socket =
  sk_sockets :: "(nat \<times> sock_state) list"
  sk_serial :: nat
  sk_ws :: "nat option"
  sk_timer :: bool
  sk_shouldReconnect :: bool
  sk_hasConnected :: bool
  sk_failed :: nat
  sk_pinging :: bool

datatype socket_call = SockNew nat | SockReconnected | SockProbe | SockSend nat | SockShut nat | SockDeliver nat

definition fresh_socket :: socket where
  "fresh_socket =
     \<lparr>sk_sockets = [], sk_serial = 0, sk_ws = None, sk_timer = False, sk_shouldReconnect = True, sk_hasConnected = False,
      sk_failed = 0, sk_pinging = False\<rparr>"

definition connect :: "socket \<Rightarrow> socket \<times> socket_call list" where
  "connect s =
     (s\<lparr>sk_sockets := sk_sockets s @ [(sk_serial s, SockConnecting)], sk_serial := sk_serial s + 1, sk_ws := Some (sk_serial s)\<rparr>,
      [SockNew (sk_serial s)])"

definition sock_onopen :: "nat \<Rightarrow> socket \<Rightarrow> socket \<times> socket_call list" where
  "sock_onopen n s =
     (s\<lparr>sk_sockets := amap_set n SockOpen (sk_sockets s), sk_timer := False, sk_hasConnected := True, sk_failed := 0\<rparr>,
      if sk_hasConnected s then [SockReconnected] else [])"

definition sock_onclose :: "nat \<Rightarrow> socket \<Rightarrow> socket \<times> socket_call list" where
  "sock_onclose n s =
     (let s1 = s\<lparr>sk_sockets := amap_delete n (sk_sockets s), sk_ws := None\<rparr> in
      if \<not> sk_shouldReconnect s1 then (s1, [])
      else (s1\<lparr>sk_failed := sk_failed s1 + 1, sk_timer := True\<rparr>,
            if sk_failed s1 + 1 = AUTH_PROBE_AFTER_FAILURES then [SockProbe] else []))"

definition mount_socket :: "socket \<Rightarrow> socket \<times> socket_call list" where
  "mount_socket s = (let (s1, calls) = connect (s\<lparr>sk_shouldReconnect := True\<rparr>) in (s1\<lparr>sk_pinging := True\<rparr>, calls))"

definition unmount_socket :: "socket \<Rightarrow> socket \<times> socket_call list" where
  "unmount_socket s =
     (let s1 = s\<lparr>sk_shouldReconnect := False, sk_pinging := False, sk_timer := False\<rparr> in
      case sk_ws s1 of
        None \<Rightarrow> (s1, [])
      | Some n \<Rightarrow> (s1\<lparr>sk_sockets := map (\<lambda>(m, st). (m, if m = n then SockClosing else st)) (sk_sockets s1)\<rparr>, [SockShut n]))"

text \<open>What can happen: a socket opens, gets a message or closes in a state that allows it, a timer runs out.\<close>

datatype socket_event = SockMount | SockUnmount | SockOpens nat | SockCloses nat | SockMessage nat | SockTimer | SockPing

definition socket_step :: "socket_event \<Rightarrow> socket \<Rightarrow> socket \<times> socket_call list" where
  "socket_step e s =
     (case e of
        SockMount \<Rightarrow> mount_socket s
      | SockUnmount \<Rightarrow> unmount_socket s
      | SockOpens n \<Rightarrow> if map_of (sk_sockets s) n = Some SockConnecting then sock_onopen n s else (s, [])
      | SockCloses n \<Rightarrow> if map_of (sk_sockets s) n \<noteq> None then sock_onclose n s else (s, [])
      | SockMessage n \<Rightarrow> (s, if map_of (sk_sockets s) n = Some SockOpen then [SockDeliver n] else [])
      | SockTimer \<Rightarrow> if sk_timer s then connect (s\<lparr>sk_timer := False\<rparr>) else (s, [])
      | SockPing \<Rightarrow>
          (s, case sk_ws s of
                Some n \<Rightarrow> if sk_pinging s \<and> map_of (sk_sockets s) n = Some SockOpen then [SockSend n] else []
              | None \<Rightarrow> []))"

fun socket_run :: "socket_event list \<Rightarrow> socket \<Rightarrow> socket \<times> socket_call list" where
  "socket_run [] s = (s, [])"
| "socket_run (e # es) s = (let (s1, c1) = socket_step e s; (s2, c2) = socket_run es s1 in (s2, c1 @ c2))"

subsection \<open>The sign-in redirect\<close>

definition QUIET_PERIOD_MS :: int where "QUIET_PERIOD_MS = 60000"

record url_parts =
  up_protocol :: jstr
  up_host :: jstr
  up_pathname :: jstr
  up_search :: jstr
  up_hash :: jstr

text \<open>\<^verbatim>\<open>new URL(url)\<close> and \<^verbatim>\<open>new URL(url, origin)\<close>; \<open>None\<close> where the constructor throws.\<close>

record url_parser =
  us_absolute :: "jstr \<Rightarrow> url_parts option"
  us_relative :: "jstr \<Rightarrow> url_parts option"

definition isSafeRedirectUrl :: "url_parser \<Rightarrow> jstr \<Rightarrow> bool" where
  "isSafeRedirectUrl us url =
     (if startsWith url (str ''/'') then \<not> startsWith url (str ''//'')
      else case us_absolute us url of None \<Rightarrow> False | Some p \<Rightarrow> up_protocol p \<in> {(str ''http:''), (str ''https:'')})"

text \<open>The stored address, or that it may not be stored.\<close>

definition setAuthRedirectUrl :: "url_parser \<Rightarrow> jstr \<Rightarrow> jstr option \<Rightarrow> jstr option \<times> bool" where
  "setAuthRedirectUrl us url stored =
     (let trimmed = trim url in
      if trimmed \<noteq> [] \<and> \<not> isSafeRedirectUrl us trimmed then (stored, False)
      else if trimmed = [] then (None, True)
      else (Some trimmed, True))"

definition isAuthFailure :: "int \<Rightarrow> jstr \<Rightarrow> bool" where
  "isAuthFailure status body =
     (if status = 401 then True
      else if status \<noteq> 403 then False
      else case json_parse body of
        None \<Rightarrow> True
      | Some j \<Rightarrow> json_prop j (str ''detail'') = None)"

definition uri_kept :: "nat \<Rightarrow> bool" where
  "uri_kept c \<longleftrightarrow> unreserved c \<or> c \<in> {59, 47, 63, 58, 64, 38, 61, 43, 36, 44, 35}"

definition encodeURI :: "jstr \<Rightarrow> jstr option" where
  "encodeURI s =
     (if list_all scalar_value s then Some (concat (map (\<lambda>c. if uri_kept c then [c] else pct_char c) s)) else None)"

text \<open>\<^verbatim>\<open>.replace(/%25/g, '%')\<close>\<close>

fun undouble :: "jstr \<Rightarrow> jstr" where
  "undouble (a # b # c # s) =
     (if a = 37 \<and> b = 50 \<and> c = 53 then 37 # undouble s else a # undouble (b # c # s))"
| "undouble s = s"

definition encodeUrlPart :: "jstr \<Rightarrow> jstr option" where
  "encodeUrlPart part = map_option (\<lambda>e. concat (map (\<lambda>c. if c = 39 then (str ''%27'') else [c]) (undouble e))) (encodeURI part)"

definition safeRedirectTarget :: "url_parser \<Rightarrow> jstr \<Rightarrow> jstr option" where
  "safeRedirectTarget us stored =
     (let trimmed = trim stored in
      if trimmed = [] \<or> \<not> isSafeRedirectUrl us trimmed then None
      else case us_relative us trimmed of
        None \<Rightarrow> None
      | Some p \<Rightarrow>
          (case (encodeUrlPart (up_search p), encodeUrlPart (up_hash p)) of
             (Some q, Some f) \<Rightarrow>
               let rest = up_host p @ up_pathname p @ q @ f
               in if up_protocol p = (str ''https:'') then Some ((str ''https://'') @ rest)
                  else if up_protocol p = (str ''http:'') then Some ((str ''http://'') @ rest)
                  else None
           | _ \<Rightarrow> None))"

text \<open>The page's flag, and the two values kept in the browser: the address and the time of the last attempt. A storage that
  throws is \<open>au_storage = False\<close>.\<close>

record auth =
  au_redirecting :: bool
  au_url :: "jstr option"
  au_last :: "int option"
  au_storage :: bool

datatype navigation = NavAssign jstr | NavReload

definition redirectedRecently :: "int \<Rightarrow> auth \<Rightarrow> bool" where
  "redirectedRecently now s \<longleftrightarrow>
     au_storage s \<and> (case au_last s of None \<Rightarrow> False | Some t0 \<Rightarrow> t0 > 0 \<and> now - t0 < QUIET_PERIOD_MS)"

definition triggerAuthRedirect :: "url_parser \<Rightarrow> int \<Rightarrow> auth \<Rightarrow> auth \<times> navigation option" where
  "triggerAuthRedirect us now s =
     (if au_redirecting s \<or> redirectedRecently now s then (s, None)
      else
        (s\<lparr>au_redirecting := True, au_last := (if au_storage s then Some now else au_last s)\<rparr>,
         Some (case safeRedirectTarget us (case au_url s of Some u \<Rightarrow> u | None \<Rightarrow> []) of
           Some t \<Rightarrow> NavAssign t | None \<Rightarrow> NavReload)))"

definition reportHttpFailure :: "url_parser \<Rightarrow> int \<Rightarrow> int \<Rightarrow> jstr \<Rightarrow> auth \<Rightarrow> auth \<times> navigation option" where
  "reportHttpFailure us now status body s =
     (if isAuthFailure status body then triggerAuthRedirect us now s else (s, None))"

text \<open>The health endpoint's answer: no answer, a good one, or a failed one.\<close>

definition probeAuthSession :: "url_parser \<Rightarrow> int \<Rightarrow> (int \<times> jstr) option \<Rightarrow> auth \<Rightarrow> auth \<times> navigation option" where
  "probeAuthSession us now answer s =
     (case answer of
        None \<Rightarrow> (s, None)
      | Some (status, body) \<Rightarrow>
          if 200 \<le> status \<and> status \<le> 299 then (s, None) else reportHttpFailure us now status body s)"

text \<open>Requests that fail, probes, and the page being loaded again.\<close>

datatype auth_event = HttpFailed int jstr | Probed "(int \<times> jstr) option" | PageLoaded

definition auth_step :: "url_parser \<Rightarrow> int \<Rightarrow> auth_event \<Rightarrow> auth \<Rightarrow> auth \<times> navigation option" where
  "auth_step us now e s =
     (case e of
        HttpFailed status body \<Rightarrow> reportHttpFailure us now status body s
      | Probed answer \<Rightarrow> probeAuthSession us now answer s
      | PageLoaded \<Rightarrow> (s\<lparr>au_redirecting := False\<rparr>, None))"

fun auth_run :: "url_parser \<Rightarrow> (int \<times> auth_event) list \<Rightarrow> auth \<Rightarrow> (int \<times> navigation) list" where
  "auth_run us [] s = []"
| "auth_run us ((now, e) # es) s =
     (let (s', nav) = auth_step us now e s
      in (case nav of Some v \<Rightarrow> [(now, v)] | None \<Rightarrow> []) @ auth_run us es s')"

subsection \<open>One socket at a time\<close>

text \<open>The socket in the page's reference is the only one; without one, the timer runs.\<close>

definition single_socket :: "socket \<Rightarrow> bool" where
  "single_socket s \<longleftrightarrow>
     sk_shouldReconnect s \<and>
     (case sk_ws s of
        None \<Rightarrow> sk_sockets s = [] \<and> sk_timer s
      | Some n \<Rightarrow> sk_timer s = False \<and> (\<exists>st. st \<in> {SockConnecting, SockOpen} \<and> sk_sockets s = [(n, st)]))"

definition stays_mounted :: "socket_event list \<Rightarrow> bool" where
  "stays_mounted es \<longleftrightarrow> SockMount \<notin> set es \<and> SockUnmount \<notin> set es"

lemma run_fst: "fst (socket_run (e # es) s) = fst (socket_run es (fst (socket_step e s)))"
  and run_snd: "snd (socket_run (e # es) s) = snd (socket_step e s) @ snd (socket_run es (fst (socket_step e s)))"
  by (simp_all add: Let_def split: prod.splits)

lemma single_step: "single_socket s \<Longrightarrow> e \<noteq> SockMount \<Longrightarrow> e \<noteq> SockUnmount \<Longrightarrow> single_socket (fst (socket_step e s))"
  by (cases e)
     (auto simp: single_socket_def socket_step_def sock_onopen_def sock_onclose_def connect_def amap_delete_def Let_def
       split: option.splits if_splits)

lemma single_run: "single_socket s \<Longrightarrow> stays_mounted es \<Longrightarrow> single_socket (fst (socket_run es s))"
proof (induction es arbitrary: s)
  case (Cons e es)
  then show ?case using single_step [of s e] by (auto simp: stays_mounted_def run_fst simp del: socket_run.simps)
qed simp

lemma single_mount: "single_socket (fst (mount_socket fresh_socket))"
  by (simp add: single_socket_def mount_socket_def connect_def fresh_socket_def)



definition released :: "socket \<Rightarrow> bool" where
  "released s \<longleftrightarrow> \<not> sk_shouldReconnect s \<and> \<not> sk_timer s \<and> \<not> sk_pinging s \<and> (\<forall>st \<in> snd ` set (sk_sockets s). st = SockClosing)"

lemma released_unmount: "single_socket s \<Longrightarrow> released (fst (unmount_socket s)) \<and> set (snd (unmount_socket s)) \<subseteq> range SockShut"
  by (auto simp: single_socket_def released_def unmount_socket_def Let_def split: option.splits)

lemma released_step:
  assumes "released s" "e \<noteq> SockMount"
  shows "released (fst (socket_step e s)) \<and> set (snd (socket_step e s)) \<subseteq> range SockShut"
proof -
  have "map_of (sk_sockets s) n \<noteq> Some SockConnecting \<and> map_of (sk_sockets s) n \<noteq> Some SockOpen" for n
    using assms(1) by (force simp: released_def dest: map_of_SomeD)
  then show ?thesis
    using assms
    by (cases e)
       (auto simp: released_def socket_step_def sock_onclose_def unmount_socket_def amap_delete_def Let_def split: option.splits)
qed

lemma released_run:
  "released s \<Longrightarrow> SockMount \<notin> set es \<Longrightarrow> set (snd (socket_run es s)) \<subseteq> range SockShut"
proof (induction es arbitrary: s)
  case (Cons e es)
  then have "e \<noteq> SockMount" "SockMount \<notin> set es" by auto
  with Cons released_step [of s e] show ?case by (simp add: run_snd del: socket_run.simps)
qed simp

text \<open>Once unmounted, the page lets go of the server for good: whatever its sockets and timers still report,
  no socket is made, no ping or probe is sent and no event is delivered.\<close>

theorem unmounted_lets_go:
  assumes "stays_mounted es" "SockMount \<notin> set fs"
  shows "set (snd (socket_run (SockUnmount # fs) (fst (socket_run (SockMount # es) fresh_socket)))) \<subseteq> range SockShut"
proof -
  let ?s = "fst (socket_run (SockMount # es) fresh_socket)"
  have "single_socket ?s"
    using single_run [OF single_mount assms(1)] by (simp add: socket_step_def run_fst del: socket_run.simps)
  from released_unmount [OF this] released_run [OF _ assms(2), of "fst (unmount_socket ?s)"]
  show ?thesis by (simp add: socket_step_def run_snd del: socket_run.simps)
qed

theorem unmounted_lets_go_witness:
  "set (snd (socket_run (SockUnmount # [SockCloses 1, SockTimer, SockPing])
     (fst (socket_run (SockMount # [SockCloses 0, SockTimer]) fresh_socket)))) \<subseteq> range SockShut"
  by (rule unmounted_lets_go) (simp_all add: stays_mounted_def)

text \<open>Mounted again before the old socket has closed (the development build mounts every effect twice): the old
  socket's close takes the new one out of the reference. The new one then gets no pings and is not closed when the page
  goes; and when it was open already, the timer the close started makes a third, so that every event arrives twice.\<close>

theorem remount_loses_socket:
  "case socket_run [SockMount, SockUnmount, SockMount, SockCloses 0, SockOpens 1, SockPing, SockUnmount] fresh_socket of
     (s, calls) \<Rightarrow> sk_sockets s = [(1, SockOpen)] \<and> SockSend 1 \<notin> set calls \<and> SockShut 1 \<notin> set calls"
  "case socket_run [SockMount, SockUnmount, SockMount, SockOpens 1, SockCloses 0, SockTimer, SockOpens 2] fresh_socket of
     (s, _) \<Rightarrow> sk_sockets s = [(1, SockOpen), (2, SockOpen)]"
  by (simp_all add: socket_step_def mount_socket_def unmount_socket_def connect_def sock_onopen_def sock_onclose_def
      fresh_socket_def amap_delete_def Let_def AUTH_PROBE_AFTER_FAILURES_def)

subsection \<open>The sign-in redirect neither loops nor leaves the web\<close>

lemma trigger_cases:
  "triggerAuthRedirect us now s = (s', nav) \<Longrightarrow>
     (nav = None \<and> s' = s) \<or>
     (nav \<noteq> None \<and> redirectedRecently now s = False \<and> au_redirecting s = False \<and>
      s' = s\<lparr>au_redirecting := True, au_last := (if au_storage s then Some now else au_last s)\<rparr>)"
  by (auto simp: triggerAuthRedirect_def split: if_splits)

lemma auth_step_cases:
  "auth_step us now e s = (s', nav) \<Longrightarrow>
     (nav = None \<and> (s' = s \<or> s' = s\<lparr>au_redirecting := False\<rparr>)) \<or>
     (nav \<noteq> None \<and> triggerAuthRedirect us now s = (s', nav))"
  by (cases nav)
     (auto simp: auth_step_def probeAuthSession_def reportHttpFailure_def split: auth_event.splits if_splits option.splits
       dest: trigger_cases)

text \<open>The attempt the storage remembers keeps the page quiet for a minute.\<close>

lemma navigates_when_quiet:
  assumes "auth_step us now e s = (s', Some v)" "au_storage s"
  shows "s' = s\<lparr>au_redirecting := True, au_last := Some now\<rparr>" "au_last s = Some t \<Longrightarrow> 0 < t \<Longrightarrow> t + QUIET_PERIOD_MS \<le> now"
  using auth_step_cases [OF assms(1)] trigger_cases [of us now s s' "Some v"] assms(2)
  by (auto simp: redirectedRecently_def)

lemma auth_step_quiet: "auth_step us now e s = (s', None) \<Longrightarrow> au_storage s' = au_storage s \<and> au_last s' = au_last s \<and> au_url s' = au_url s"
  using auth_step_cases by fastforce

lemma auth_run_after:
  assumes "au_storage s" "au_last s = Some t" "0 < t" "(n, v) \<in> set (auth_run us es s)" "sorted (map fst es)" "\<forall>x \<in> set es. t \<le> fst x"
  shows "t + QUIET_PERIOD_MS \<le> n"
  using assms
proof (induction es arbitrary: s t)
  case (Cons x es)
  obtain now e where x: "x = (now, e)" by (cases x)
  obtain s' nav where step: "auth_step us now e s = (s', nav)" by fastforce
  show ?case
  proof (cases nav)
    case None
    then show ?thesis using Cons.IH [of s' t] Cons.prems step auth_step_quiet [of us now e s s'] by (simp add: x)
  next
    case (Some w)
    note s' = navigates_when_quiet [OF step [unfolded Some] Cons.prems(1)]
    have quiet: "t + QUIET_PERIOD_MS \<le> now" using s'(2) Cons.prems(2,3) .
    have "n = now \<or> now + QUIET_PERIOD_MS \<le> n"
      using Cons.IH [of s' now] Cons.prems s'(1) step Some by (auto simp: x)
    then show ?thesis using quiet by (auto simp: QUIET_PERIOD_MS_def)
  qed
qed simp


definition demo_urls :: url_parser where
  "demo_urls =
     \<lparr>us_absolute = (\<lambda>_. None),
      us_relative = (\<lambda>u. Some \<lparr>up_protocol = (str ''https:''), up_host = (str ''mesh''), up_pathname = u, up_search = [], up_hash = []\<rparr>)\<rparr>"

definition demo_auth :: auth where
  "demo_auth = \<lparr>au_redirecting = False, au_url = Some (str ''/login''), au_last = None, au_storage = True\<rparr>"


definition web_address :: "jstr \<Rightarrow> bool" where
  "web_address u \<longleftrightarrow> startsWith u (str ''http://'') \<or> startsWith u (str ''https://'')"

lemma starts_append: "startsWith (p @ s) p"
  by (simp add: startsWith_def)

lemma target_web: "safeRedirectTarget us u = Some t \<Longrightarrow> web_address t"
  unfolding safeRedirectTarget_def web_address_def Let_def using starts_append
  by (auto simp del: str_Cons str_Nil split: if_splits option.splits)

text \<open>No navigation runs script or leaves the web: whatever is in storage and however the browser's parser reads it,
  an address the page goes to starts with \<open>http://\<close> or \<open>https://\<close>.\<close>

theorem redirects_stay_on_web: "\<forall>n u. (n, NavAssign u) \<in> set (auth_run us es s) \<longrightarrow> web_address u"
proof (induction es arbitrary: s)
  case (Cons x es)
  obtain now e where x: "x = (now, e)" by (cases x)
  obtain s' nav where step: "auth_step us now e s = (s', nav)" by fastforce
  have "web_address u" if "nav = Some (NavAssign u)" for u
    using auth_step_cases [OF step] that target_web by (auto simp: triggerAuthRedirect_def split: if_splits option.splits)
  then show ?case using Cons step by (auto simp: x split: option.splits)
qed simp

subsection \<open>The address's query and fragment\<close>

text \<open>What encoding and undoing the doubled escapes comes to, one code point at a time.\<close>

definition part_char :: "nat \<Rightarrow> jstr" where
  "part_char c = (if c = 37 then [37] else if c = 39 then (str ''%27'') else if uri_kept c then [c] else pct_char c)"

lemma undouble_other: "a \<noteq> 37 \<Longrightarrow> undouble (a # s) = a # undouble s"
  by (cases s; cases "tl s") auto

lemma undouble_pct: "b < 256 \<Longrightarrow> b \<noteq> 37 \<Longrightarrow> undouble (pct b @ s) = pct b @ undouble s"
proof -
  assume b: "b < 256" "b \<noteq> 37"
  have hex: "upper_hex n \<noteq> 37" "n < 16 \<Longrightarrow> upper_hex n = 50 \<longleftrightarrow> n = 2" "n < 16 \<Longrightarrow> upper_hex n = 53 \<longleftrightarrow> n = 5" for n
    by (auto simp: upper_hex_def)
  have "\<not> (b div 16 = 2 \<and> b mod 16 = 5)" using b(2) div_mult_mod_eq [of b 16] by linarith
  then have "upper_hex (b div 16) = 50 \<Longrightarrow> upper_hex (b mod 16) \<noteq> 53" using b(1) hex by (simp add: div_less_iff_less_mult)
  then show ?thesis using hex(1) by (simp add: pct_def undouble_other)
qed

lemma undouble_escapes:
  "\<forall>b \<in> set bs. b \<noteq> (37 :: 8 word) \<Longrightarrow>
     undouble (concat (map (\<lambda>b. pct (unat b)) bs) @ s) = concat (map (\<lambda>b. pct (unat b)) bs) @ undouble s"
proof (induction bs)
  case (Cons b bs)
  then have "unat b \<noteq> 37" using word_eq_iff_unsigned [of b 37] by auto
  with Cons show ?case by (simp add: undouble_pct unat_u8_less)
qed simp

lemma of_nat_not_percent: "k < 256 \<Longrightarrow> k \<noteq> 37 \<Longrightarrow> (of_nat k :: 8 word) \<noteq> 37"
  using unat_of_nat_u8 [of k] by auto

lemma utf8_not_percent:
  assumes "c \<noteq> 37" "scalar_value c" "b \<in> set (utf8_char c)"
  shows "b \<noteq> 37"
proof -
  have "c < 1114112" using assms(2) by (auto simp: scalar_value_def)
  then have "c div 262144 < 16" by (simp add: div_less_iff_less_mult)
  moreover have "c < 2048 \<Longrightarrow> c div 64 < 32" "c < 65536 \<Longrightarrow> c div 4096 < 16" by (simp_all add: div_less_iff_less_mult)
  moreover have "128 + x mod 64 \<noteq> 37 \<and> 128 + x mod 64 < 256" for x :: nat by simp
  ultimately show ?thesis
    using assms(1,3) unfolding utf8_char_def
    by (simp only: set_simps insert_iff empty_iff split: if_splits) (elim disjE; simp only:; intro of_nat_not_percent; simp)+
qed

lemma undouble_char: "scalar_value c \<Longrightarrow> undouble ((if uri_kept c then [c] else pct_char c) @ s) = (if c = 37 then [37] else if uri_kept c then [c] else pct_char c) @ undouble s"
proof (cases "c = 37")
  case True
  then show ?thesis by (simp add: uri_kept_def unreserved_def pct_char_def utf8_char_def pct_def upper_hex_def)
next
  case False
  assume "scalar_value c"
  then show ?thesis using False undouble_escapes [of "utf8_char c" s] utf8_not_percent [OF False] by (simp add: undouble_other pct_char_def)
qed

lemma undouble_part:
  "list_all scalar_value s \<Longrightarrow> undouble (concat (map (\<lambda>c. if uri_kept c then [c] else pct_char c) s)) =
     concat (map (\<lambda>c. if c = 37 then [37] else if uri_kept c then [c] else pct_char c) s)"
  by (induction s) (simp_all add: undouble_char del: if_split split del: if_split)

lemma quote_kept: "concat (map (\<lambda>c. if c = 39 then (str ''%27'') else [c]) s) = s" if "39 \<notin> set s"
  using that by (induction s) auto

lemma pct_char_quoteless: "x \<in> set (pct_char c) \<Longrightarrow> x = 37 \<or> (48 \<le> x \<and> x \<le> 57) \<or> (65 \<le> x \<and> x \<le> 70)"
proof -
  have hex: "n < 16 \<Longrightarrow> (48 \<le> upper_hex n \<and> upper_hex n \<le> 57) \<or> (65 \<le> upper_hex n \<and> upper_hex n \<le> 70)" for n
    by (auto simp: upper_hex_def)
  assume "x \<in> set (pct_char c)"
  then obtain b :: "8 word" where "x \<in> set (pct (unat b))" by (auto simp: pct_char_def)
  then show ?thesis using hex [of "unat b div 16"] hex [of "unat b mod 16"] unat_u8_less [of b]
    by (auto simp: pct_def div_less_iff_less_mult)
qed

lemma quoted_char:
  "concat (map (\<lambda>c. if c = 39 then (str ''%27'') else [c]) (if c = 37 then [37] else if uri_kept c then [c] else pct_char c)) = part_char c"
proof -
  have "39 \<notin> set (pct_char c)" using pct_char_quoteless by fastforce
  then show ?thesis using quote_kept [of "pct_char c"] by (auto simp: part_char_def uri_kept_def unreserved_def)
qed

text \<open>Encoding a query or fragment once more works code point by code point: escapes already there stay as they
  are, every other character that may not stand in an address is escaped, and so is the single quote; a part with a
  lone surrogate is refused.\<close>

theorem encodeUrlPart_charwise:
  "encodeUrlPart p = (if list_all scalar_value p then Some (concat (map part_char p)) else None)"
proof -
  have "concat (map (\<lambda>c. if c = 39 then (str ''%27'') else [c])
      (concat (map (\<lambda>c. if c = 37 then [37] else if uri_kept c then [c] else pct_char c) p))) = concat (map part_char p)"
    by (induction p) (simp_all add: quoted_char del: if_split str_Cons split del: if_split)
  then show ?thesis by (simp add: encodeUrlPart_def encodeURI_def undouble_part del: str_Cons)
qed

text \<open>The encoded part holds no quote, angle bracket or blank, and encoding it again changes nothing.\<close>

theorem encoded_part_clean:
  assumes "encodeUrlPart p = Some q"
  shows "set q \<inter> {32, 34, 39, 60, 62} = {} \<and> encodeUrlPart q = Some q"
proof -
  have clean: "c \<noteq> 32 \<and> c \<noteq> 34 \<and> c \<noteq> 39 \<and> c \<noteq> 60 \<and> c \<noteq> 62 \<and> scalar_value c \<and> part_char c = [c]" if in_q: "c \<in> set q" for c
  proof -
    obtain d where "c \<in> set (part_char d)" using in_q assms by (auto simp: encodeUrlPart_charwise split: if_splits)
    then have "c = 37 \<or> (uri_kept c \<and> c \<noteq> 39)"
      using pct_char_quoteless [of c d] by (auto simp: part_char_def uri_kept_def unreserved_def split: if_splits)
    then show ?thesis by (auto simp: part_char_def uri_kept_def unreserved_def scalar_value_def)
  qed
  then have "concat (map part_char q) = q" by (induction q) auto
  with clean show ?thesis by (auto simp: encodeUrlPart_charwise list_all_iff)
qed

theorem encoded_part_clean_witness: "set (str ''?a=%2Fb%27'') \<inter> {32, 34, 39, 60, 62} = {} \<and>
    encodeUrlPart (str ''?a=%2Fb%27'') = Some (str ''?a=%2Fb%27'')"
proof (rule encoded_part_clean)
  show "encodeUrlPart (str ''?a=%2Fb'' @ [39]) = Some (str ''?a=%2Fb%27'')"
    by (simp add: encodeUrlPart_charwise part_char_def uri_kept_def unreserved_def scalar_value_def)
qed
end
