(* ===== verification/Spec2Isabelle.thy ===== *)
theory Spec2Isabelle
  imports Uploader Forwarder SerialFraming Companion AutoDiscover ContactPath Capture Nmea LiveView Hexgrid
    Reach Conversations Paths PacketStats Reception Network Unread Sidebar Registry
    Gif Guess LiveMap Realtime Team Router Socket
begin

text \<open>
  RTFM-EV, the parts of its TypeScript front end that decide something.

  \<^bold>\<open>The program.\<close> A browser page talks to a MeshCore companion radio and to its own server. The
  wardrive page (\<^verbatim>\<open>frontend/src/wardrive/\<close>) is a program of its own: it reads the radio over
  Bluetooth or serial, records what the radio hears with the position it was heard at, stores it in
  the browser, and hands it to the server's local copy and to MQTT brokers. It may also transmit
  (Auto-discover), within a duty budget. The messaging app is the other program of the page: chats, raw packets,
  the network view, the sidebar and the channel registry, fed by the server over a socket.

  \<^bold>\<open>How a reception travels, and the theories that model each stage\<close> (all paths under
  \<^verbatim>\<open>frontend/src/wardrive/\<close> unless said otherwise):

  \<^item> \<^verbatim>\<open>radio/serialFraming.ts\<close> cuts the byte stream into frames: SerialFraming, over the contract
    of ChunkReader. \<^verbatim>\<open>position/nmea.ts\<close> cuts the GPS stream into sentences under the same contract:
    Nmea.
  \<^item> \<^verbatim>\<open>radio/protocol.ts\<close>, \<^verbatim>\<open>radio/companion.ts\<close>: frames of the companion protocol and the
    one-exchange-at-a-time link: Protocol, Companion, over Bytes.
  \<^item> \<^verbatim>\<open>packet.ts\<close>, \<^verbatim>\<open>messages.ts\<close>: routing preamble, packet hash, the stored messages: Packet,
    WdTypes, Messages.
  \<^item> \<^verbatim>\<open>capture.ts\<close>, \<^verbatim>\<open>driveId.ts\<close>, \<^verbatim>\<open>useDrive.ts\<close>, \<^verbatim>\<open>trail.ts\<close>, \<^verbatim>\<open>speed.ts\<close>: what a drive keeps and
    the track rows that join it: Capture.
  \<^item> \<^verbatim>\<open>queue.ts\<close>: the durable store with one watermark per destination: Queue, and its interleaved
    runs in QueueRuns, over the contract of DeliveryQueue.
  \<^item> \<^verbatim>\<open>uploader.ts\<close>: the local copy: Uploader. \<^verbatim>\<open>forward/*.ts\<close>: broker lists (Brokers), tokens (Token,
    over Json), observer packets (Payloads) and the publisher (Forwarder).
  \<^item> \<^verbatim>\<open>discover/*.ts\<close>: Airtime (air time and gate), Sweep (rotation, backoff, targets), Asks (pings and
    asks awaiting an answer), Frames (frames and replies), ContactPath (the zero-hop dance on the
    radio's contact table and its recovery), AutoDiscover (the transmitting state machine).
  \<^item> \<^verbatim>\<open>names.ts\<close> (Names), \<^verbatim>\<open>filters.ts\<close> (Filters), \<^verbatim>\<open>liveLog.ts\<close>, \<^verbatim>\<open>targets.ts\<close>, \<^verbatim>\<open>signal.ts\<close>,
    \<^verbatim>\<open>radio/battery.ts\<close> (LiveView), \<^verbatim>\<open>arrow.ts\<close>, \<^verbatim>\<open>compass.ts\<close> (Arrow): what the screen says of it.
  \<^item> \<^verbatim>\<open>map/hexgrid.ts\<close> (Hexgrid), \<^verbatim>\<open>coverage/locate.ts\<close> (Locate), \<^verbatim>\<open>coverage/attribution.ts\<close>,
    \<^verbatim>\<open>coverage/reach.ts\<close>, \<^verbatim>\<open>coverage/nodePositions.ts\<close> (Reach): the coverage map.
  \<^item> \<^verbatim>\<open>decode/reception.ts\<close>, \<^verbatim>\<open>decode/channels.ts\<close>: who and what a reception names (Reception, over the decoder's
    results of Decoder, which also holds \<^verbatim>\<open>nodeSources.ts\<close>).

  \<^bold>\<open>The messaging app\<close>, all paths under \<^verbatim>\<open>frontend/src/\<close>:

  \<^item> \<^verbatim>\<open>hooks/useConversationMessages.ts\<close>, \<^verbatim>\<open>utils/messageIdentity.ts\<close>: the chat's message cache
    (Conversations) and the hook that fetches pages and shows them, a state machine over renders, answers and socket
    events (Chat). \<^verbatim>\<open>hooks/useUnreadCounts.ts\<close>, \<^verbatim>\<open>utils/conversationState.ts\<close>: unread counts as a state machine over
    callbacks, renders, answers and the read timer (Unread). \<^verbatim>\<open>hooks/useRealtimeAppState.ts\<close>: what each event of the
    server's socket does to all of them, the packet feed, the contacts and the channels (Realtime, over
    \<^verbatim>\<open>utils/botLists.ts\<close>, \<^verbatim>\<open>utils/contactMerge.ts\<close> and the checks it calls).
  \<^item> \<^verbatim>\<open>utils/rawPacketIdentity.ts\<close>, \<^verbatim>\<open>utils/rawPacketStats.ts\<close>, \<^verbatim>\<open>stores/rawPacketStore.ts\<close>: the raw packet feed and
    its statistics (PacketStats). \<^verbatim>\<open>utils/fuotaPayload.ts\<close>, \<^verbatim>\<open>utils/thirdPartyPackets.ts\<close>: packets of other
    applications (Foreign).
  \<^item> \<^verbatim>\<open>utils/pathUtils.ts\<close>: paths, their hops and lengths (Paths). \<^verbatim>\<open>utils/visualizerUtils.ts\<close> (Visual) and
    \<^verbatim>\<open>networkGraph/packetNetworkGraph.ts\<close> (Network): the graph of who relayed whom, grown packet by packet, pruned and
    projected onto the screen. \<^verbatim>\<open>map/packets/\<close>: the live map of packets under way, a function of a virtual clock
    (LiveMap). \<^verbatim>\<open>map/guessedLocations.ts\<close>: where a node without a position may be (Guess).
  \<^item> \<^verbatim>\<open>share/gifEncoder.ts\<close>: the animations of the share cards, the compressor in Lzw, the encoder in Gif, each against a
    reader of the format.
  \<^item> \<^verbatim>\<open>utils/sidebarLayout.ts\<close> (Sidebar) and \<^verbatim>\<open>lib/channelManager.ts\<close> (Registry): the sidebar's layout and groups, and the
    registry of discovered channels.

  \<^item> \<^verbatim>\<open>utils/teamPayloads.ts\<close>: the beacons, waypoints, routes and capability messages of the TEAM app, read and built
    (Team). \<^verbatim>\<open>utils/urlHash.ts\<close>, \<^verbatim>\<open>utils/publicChannel.ts\<close>: the address of every view, read and written (UrlHash).
    \<^verbatim>\<open>hooks/useConversationRouter.ts\<close>, \<^verbatim>\<open>utils/lastViewedConversation.ts\<close>: which view opens at the start, when the user
    goes back and after a deletion (Router). \<^verbatim>\<open>useWebSocket.ts\<close>, \<^verbatim>\<open>utils/authRedirect.ts\<close>: the socket that
    reconnects and the way to the sign-in page of a reverse proxy (Socket).

  \<^bold>\<open>Conventions.\<close> A JavaScript string is a list of code points (\<open>jstr\<close>, JsStrings), a
  \<^verbatim>\<open>Uint8Array\<close> a list of 8-bit words (Bytes), a \<^verbatim>\<open>Map\<close> whose order shows an association list with
  the insertion order of the language (\<open>amap_set\<close>, \<open>amap_delete\<close>, Prelude), a number the code tests
  with \<^verbatim>\<open>Number.isFinite\<close> a \<open>jsnum\<close>; a time is an integer number of milliseconds. Other numbers are
  integers or reals: floating-point rounding is not modelled. \<^verbatim>\<open>null\<close> and absent are \<open>None\<close>. A throw is
  \<open>None\<close> or the left of a sum. A class is a record and each method a function from it; a closure's
  variables are such a record too. A store shared by several writers is passed through, and what
  others do to it during an await is a parameter of the step (\<open>w_meanwhile\<close>, \<open>fw_event\<close>).

  \<^bold>\<open>What is a parameter.\<close> The SHA-256 digest (Packet), the radio's signature (Token), the server's and
  broker's replies (\<open>world\<close>, \<open>fwd_world\<close>), URL parsing (Brokers, Socket),
  the text of a coordinate in an address (UrlHash), the page's translations (Names), the
  collation of sender names (LiveView), what the link delivers (a list of events, Companion; \<open>link_world\<close>,
  ContactPath), the random tag of a frame (AutoDiscover). None of these is assumed to satisfy more
  than the hypothesis a theorem states; every such theorem has a witness with a concrete instance.

  \<^bold>\<open>Interfaces.\<close> \<open>chunk_reader\<close>: feeding two pieces equals feeding their concatenation; interpreted by the
  serial decoder (\<open>serial\<close>) and the GPS line reader (\<open>gps_lines\<close>). \<open>delivery_queue\<close>: a batch is a prefix of
  what is owed and acknowledging its last row settles exactly it; interpreted by the queue's radio
  index (\<open>radio_queue\<close>).

  \<^bold>\<open>What the lemmas show\<close>, by group. Delivery: every row is delivered or still owed, in order and
  once, across retries, pruning and interleaving (QueueRuns, Uploader, Forwarder), and a race the code allows moves a
  watermark back (\<open>ack_race_moves_back\<close> in Queue). Radio: the stream decoder is exact and always returns
  (SerialFraming), the preamble is read as written (Packet), a signature is over exactly the bytes given and one overlap
  in which a late answer is misread (Companion). Transmitting: the duty budget over any session, silence
  after off, naming only with a live ask (AutoDiscover), the contact table restored after a crash at any point
  (ContactPath). Presentation: names for short ids, filters that survive storage, the live log, the cache of
  conversations as refinements of plain maps and lists. Map: cells and their centres, the location fit, the
  search box, hues. Messaging: the open chat shows messages of its own conversation, keeps what arrived and ends every loading mark, and four
  interleavings in which it does not do what it means to (Chat); when a message counts and notifies, and that the app's
  handlers drive the chat as its own machine (Realtime); what marks a conversation read or unread and how often the server is asked, the
  consistency of the network graph over any run and what its projection shows, statistics that count every packet
  once, layouts that are complete, imports that add up, animations that show the pictures they were given, guesses that rest on
  located repeaters, a map that shows each stretch by the newest packet over it. Addresses: payloads and hashes are read back as what
  they were built from (Team, UrlHash), the start opens some view and going back returns to the one before (Router), one
  socket or the timer for the next, no reload loop, no navigation off the web, and a remount that loses a socket (Socket).

  \<^bold>\<open>Bounds and fuel.\<close> No definition has fuel. Loops that recurse on a measure are functions with a
  termination proof; the serial decoder's loop and the two loops over fractional degrees of the location fit are
  \<^theory_text>\<open>partial_function (option)\<close>, with the theorem that they always return. The sizes 20
  (batches per tick), 5000 (log rows), 20 and 200 (cached conversations and messages), 128 (signed
  chunk) are the code's.

  \<^bold>\<open>Not modelled.\<close> React components and hooks, other than those named above and the state they keep in plain
  functions; Bluetooth, serial and MQTT transports; map rendering; the Python server; the
  texts and assets. Browser storage quota requests and timers are left out: a timer is an event
  of the state machine that uses it.
\<close>

end
